(* ===== verification/Prelude.thy ===== *)
theory Prelude
  imports Main "HOL-Library.Word"
begin

text \<open>
  Shared vocabulary of the Spinel development.

  \<^item> The machine integers of the C code. A signed 64-bit value (\<^verbatim>\<open>int64_t\<close>,
    \<^verbatim>\<open>long long\<close>, and \<^verbatim>\<open>sp_int\<close> on a 64-bit host) is an \<^typ>\<open>int\<close> in the range
    \<open>in_i64\<close>; arithmetic that may leave the range is brought back by \<open>wrap_i64\<close>, and the
    unsigned view of a value (\<^verbatim>\<open>(uintptr_t)x\<close>, \<^verbatim>\<open>(uint64_t)x\<close>) is \<open>wrap_u64\<close>. Bit
    patterns (flag sets, hash states) are words.
  \<^item> The Ruby exceptions the runtime raises (\<^verbatim>\<open>sp_raise_cls\<close>): an error value carries
    the class name and the message, and a fallible operation answers a sum.
  \<^item> The collections of facts that the component proofs pass to the simplifier, and the
    lemmas on lists and integers that more than one component uses.
\<close>

named_theorems machine_int \<open>definitions of the machine-integer conversions\<close>
named_theorems res_simps \<open>rewriting of fallible computations\<close>

section \<open>Machine integers\<close>

definition INT64_MIN :: int where
  "INT64_MIN = - (2 ^ 63)"

definition INT64_MAX :: int where
  "INT64_MAX = 2 ^ 63 - 1"

definition in_i64 :: "int \<Rightarrow> bool" where
  "in_i64 x \<longleftrightarrow> INT64_MIN \<le> x \<and> x \<le> INT64_MAX"

definition wrap_u64 :: "int \<Rightarrow> int" where
  "wrap_u64 x = x mod 2 ^ 64"

definition wrap_i64 :: "int \<Rightarrow> int" where
  "wrap_i64 x = (x + 2 ^ 63) mod 2 ^ 64 - 2 ^ 63"

section \<open>Ruby exceptions as values\<close>

datatype rb_error = RbError (err_cls: string) (err_msg: string)

type_synonym 'a res = "rb_error + 'a"

definition rbind :: "'a res \<Rightarrow> ('a \<Rightarrow> 'b res) \<Rightarrow> 'b res" where
  "rbind m f = (case m of Inl e \<Rightarrow> Inl e | Inr x \<Rightarrow> f x)"

definition raise_if :: "bool \<Rightarrow> string \<Rightarrow> string \<Rightarrow> unit res" where
  "raise_if b cls msg = (if b then Inl (RbError cls msg) else Inr ())"

section \<open>Printed integers\<close>

text \<open>The decimal spelling \<^verbatim>\<open>%lld\<close> prints.\<close>

fun dec_nat :: "nat \<Rightarrow> string" where
  "dec_nat n = (if n < 10 then [char_of (48 + n)] else dec_nat (n div 10) @ [char_of (48 + n mod 10)])"

definition dec_int :: "int \<Rightarrow> string" where
  "dec_int i = (if i < 0 then CHR ''-'' # dec_nat (nat (- i)) else dec_nat (nat i))"

declare dec_nat.simps [simp del]

section \<open>Lemmas on machine integers\<close>

declare INT64_MIN_def [machine_int] INT64_MAX_def [machine_int] in_i64_def [machine_int]
  wrap_u64_def [machine_int] wrap_i64_def [machine_int]

lemma wrap_i64_id [simp]: "in_i64 x \<Longrightarrow> wrap_i64 x = x"
  by (simp add: machine_int)

lemma in_i64_wrap [simp]: "in_i64 (wrap_i64 x)"
  by (simp add: machine_int)

lemma wrap_i64_eq_iff: "wrap_i64 x = x \<longleftrightarrow> in_i64 x"
  by (metis in_i64_wrap wrap_i64_id)

lemma wrap_u64_id: "0 \<le> x \<Longrightarrow> x < 2 ^ 64 \<Longrightarrow> wrap_u64 x = x"
  by (simp add: machine_int)

lemma wrap_u64_range: "0 \<le> wrap_u64 x" "wrap_u64 x < 2 ^ 64"
  by (simp_all add: machine_int)

lemma wrap_u64_diff: "wrap_u64 (wrap_u64 a - wrap_u64 b) = wrap_u64 (a - b)"
  by (simp add: wrap_u64_def mod_simps)

lemma wrap_u64_add: "wrap_u64 (wrap_u64 a + b) = wrap_u64 (a + b)"
  by (simp add: wrap_u64_def mod_simps)

lemma wrap_u64_sub_left: "wrap_u64 (wrap_u64 a - b) = wrap_u64 (a - b)"
  by (simp add: wrap_u64_def mod_simps)

lemma wrap_i64_wrap_u64: "wrap_i64 (wrap_u64 x) = wrap_i64 x"
  by (simp add: machine_int mod_simps)

section \<open>Lemmas on fallible computations\<close>

lemma rbind_simps [simp, res_simps]:
  "rbind (Inl e) f = Inl e"
  "rbind (Inr x) f = f x"
  by (simp_all add: rbind_def)

lemma rbind_Inr_iff [res_simps]: "rbind m f = Inr y \<longleftrightarrow> (\<exists>x. m = Inr x \<and> f x = Inr y)"
  by (cases m) simp_all

lemma rbind_Inl_iff [res_simps]:
  "rbind m f = Inl e \<longleftrightarrow> m = Inl e \<or> (\<exists>x. m = Inr x \<and> f x = Inl e)"
  by (cases m) auto

lemma raise_if_simps [simp, res_simps]:
  "raise_if True c m = Inl (RbError c m)"
  "raise_if False c m = Inr ()"
  by (simp_all add: raise_if_def)

lemma raise_if_Inr_iff [res_simps]: "raise_if b c m = Inr u \<longleftrightarrow> \<not> b"
  by (simp add: raise_if_def)

lemma raise_if_Inl_iff [res_simps]: "raise_if b c m = Inl e \<longleftrightarrow> b \<and> e = RbError c m"
  by (auto simp: raise_if_def)

end
