(* ===== verification/Types.thy ===== *)
theory Types
  imports Prelude
begin

unbundle bit_operations_syntax

text \<open>
  The type lattice of the compiler: \<^verbatim>\<open>src/types.h\<close> and \<^verbatim>\<open>src/types.c\<close>.

  \<^item> \<open>TyKind\<close> is the C enum. Its enumerators are constructors; an integer beyond them,
    which the code casts to the enum for a user class (\<open>TY_OBJECT_BASE + i\<close>) or an array of
    one (\<open>TY_OBJ_ARRAY_BASE + i\<close>), is \<open>TyCode\<close> of that integer. \<open>ty_int\<close> and \<open>ty_of_int\<close>
    are the two casts.
  \<^item> A C string is a \<^typ>\<open>string\<close> without its terminator, a pointer that may be NULL an
    option. \<open>unsigned\<close> flag sets are 32-bit words.
  \<^item> The boxed-receiver face table, the Hash and Array kind tables, the join \<open>ty_unify\<close>,
    the fold rules and the identity protocol follow, one definition per C function.
  The lemmas show that the join is a commutative upper bound in the order of the kinds,
  that a slot widened by it settles after four changes, and the round trips of the tables.
\<close>

section \<open>Strings\<close>

fun sp_streq :: "string \<Rightarrow> string \<Rightarrow> bool" where
  "sp_streq [] [] = True"
| "sp_streq (a # as) (b # bs) = (if a \<noteq> b then False else sp_streq as bs)"
| "sp_streq _ _ = False"

definition fnv_step :: "32 word \<Rightarrow> char \<Rightarrow> 32 word" where
  "fnv_step h c = (h XOR of_char c) * 16777619"

definition sp_strhash :: "string \<Rightarrow> 32 word" where
  "sp_strhash s = foldl fnv_step 2166136261 s"

definition sp_strnhash :: "string \<Rightarrow> nat \<Rightarrow> 32 word" where
  "sp_strnhash s n = foldl fnv_step 2166136261 (take n s)"

section \<open>The kinds\<close>

datatype (plugins only: code size) TyKind =
    TY_UNKNOWN | TY_VOID | TY_NIL | TY_INT | TY_BIGINT
  | TY_FLOAT | TY_STRING | TY_STRBUF | TY_SYMBOL | TY_BOOL
  | TY_RANGE | TY_FLOAT_RANGE | TY_STR_RANGE | TY_TIME | TY_COMPLEX
  | TY_RATIONAL | TY_MATCHDATA | TY_REGEX | TY_EXCEPTION | TY_INT_ARRAY
  | TY_FLOAT_ARRAY | TY_STR_ARRAY | TY_POLY_ARRAY | TY_INT_ARRAY_ARRAY | TY_STR_INT_HASH
  | TY_STR_STR_HASH | TY_INT_INT_HASH | TY_INT_STR_HASH | TY_SYM_POLY_HASH | TY_STR_POLY_HASH
  | TY_POLY_POLY_HASH | TY_PROC | TY_CURRY | TY_FIBER | TY_THREAD
  | TY_QUEUE | TY_MUTEX | TY_CONDVAR | TY_RANDOM | TY_DIR
  | TY_ADDRINFO | TY_SOCKOPT | TY_TMS | TY_PROCESS_STATUS | TY_OPENSTRUCT
  | TY_METHOD | TY_IO | TY_ARGF | TY_ENUMERATOR | TY_CLASS
  | TY_POLY | TY_FLOAT_ARRAY_ARRAY | TY_TIME_RANGE | TY_OBJ_RANGE
  | TyCode int

definition ty_enumerators :: "TyKind list" where
  "ty_enumerators =
    [TY_UNKNOWN, TY_VOID, TY_NIL, TY_INT, TY_BIGINT,
     TY_FLOAT, TY_STRING, TY_STRBUF, TY_SYMBOL, TY_BOOL,
     TY_RANGE, TY_FLOAT_RANGE, TY_STR_RANGE, TY_TIME, TY_COMPLEX,
     TY_RATIONAL, TY_MATCHDATA, TY_REGEX, TY_EXCEPTION, TY_INT_ARRAY,
     TY_FLOAT_ARRAY, TY_STR_ARRAY, TY_POLY_ARRAY, TY_INT_ARRAY_ARRAY, TY_STR_INT_HASH,
     TY_STR_STR_HASH, TY_INT_INT_HASH, TY_INT_STR_HASH, TY_SYM_POLY_HASH, TY_STR_POLY_HASH,
     TY_POLY_POLY_HASH, TY_PROC, TY_CURRY, TY_FIBER, TY_THREAD,
     TY_QUEUE, TY_MUTEX, TY_CONDVAR, TY_RANDOM, TY_DIR,
     TY_ADDRINFO, TY_SOCKOPT, TY_TMS, TY_PROCESS_STATUS, TY_OPENSTRUCT,
     TY_METHOD, TY_IO, TY_ARGF, TY_ENUMERATOR, TY_CLASS,
     TY_POLY, TY_FLOAT_ARRAY_ARRAY, TY_TIME_RANGE, TY_OBJ_RANGE]"

primrec ty_int :: "TyKind \<Rightarrow> int" where
  "ty_int TY_UNKNOWN = 0"
| "ty_int TY_VOID = 1"
| "ty_int TY_NIL = 2"
| "ty_int TY_INT = 3"
| "ty_int TY_BIGINT = 4"
| "ty_int TY_FLOAT = 5"
| "ty_int TY_STRING = 6"
| "ty_int TY_STRBUF = 7"
| "ty_int TY_SYMBOL = 8"
| "ty_int TY_BOOL = 9"
| "ty_int TY_RANGE = 10"
| "ty_int TY_FLOAT_RANGE = 11"
| "ty_int TY_STR_RANGE = 12"
| "ty_int TY_TIME = 13"
| "ty_int TY_COMPLEX = 14"
| "ty_int TY_RATIONAL = 15"
| "ty_int TY_MATCHDATA = 16"
| "ty_int TY_REGEX = 17"
| "ty_int TY_EXCEPTION = 18"
| "ty_int TY_INT_ARRAY = 19"
| "ty_int TY_FLOAT_ARRAY = 20"
| "ty_int TY_STR_ARRAY = 21"
| "ty_int TY_POLY_ARRAY = 22"
| "ty_int TY_INT_ARRAY_ARRAY = 23"
| "ty_int TY_STR_INT_HASH = 24"
| "ty_int TY_STR_STR_HASH = 25"
| "ty_int TY_INT_INT_HASH = 26"
| "ty_int TY_INT_STR_HASH = 27"
| "ty_int TY_SYM_POLY_HASH = 28"
| "ty_int TY_STR_POLY_HASH = 29"
| "ty_int TY_POLY_POLY_HASH = 30"
| "ty_int TY_PROC = 31"
| "ty_int TY_CURRY = 32"
| "ty_int TY_FIBER = 33"
| "ty_int TY_THREAD = 34"
| "ty_int TY_QUEUE = 35"
| "ty_int TY_MUTEX = 36"
| "ty_int TY_CONDVAR = 37"
| "ty_int TY_RANDOM = 38"
| "ty_int TY_DIR = 39"
| "ty_int TY_ADDRINFO = 40"
| "ty_int TY_SOCKOPT = 41"
| "ty_int TY_TMS = 42"
| "ty_int TY_PROCESS_STATUS = 43"
| "ty_int TY_OPENSTRUCT = 44"
| "ty_int TY_METHOD = 45"
| "ty_int TY_IO = 46"
| "ty_int TY_ARGF = 47"
| "ty_int TY_ENUMERATOR = 48"
| "ty_int TY_CLASS = 49"
| "ty_int TY_POLY = 50"
| "ty_int TY_FLOAT_ARRAY_ARRAY = 51"
| "ty_int TY_TIME_RANGE = 52"
| "ty_int TY_OBJ_RANGE = 53"
| "ty_int (TyCode n) = n"

definition ty_of_int :: "int \<Rightarrow> TyKind" where
  "ty_of_int n =
     (if 0 \<le> n \<and> n < int (length ty_enumerators) then ty_enumerators ! nat n else TyCode n)"

definition TY_OBJECT_BASE :: int where
  "TY_OBJECT_BASE = 1000"

definition TY_OBJ_ARRAY_BASE :: int where
  "TY_OBJ_ARRAY_BASE = 1000000"

definition ty_is_object :: "TyKind \<Rightarrow> bool" where
  "ty_is_object t \<longleftrightarrow> TY_OBJECT_BASE \<le> ty_int t \<and> ty_int t < TY_OBJ_ARRAY_BASE"

definition ty_object :: "int \<Rightarrow> TyKind" where
  "ty_object class_id = ty_of_int (TY_OBJECT_BASE + class_id)"

definition ty_object_class :: "TyKind \<Rightarrow> int" where
  "ty_object_class t = ty_int t - TY_OBJECT_BASE"

definition ty_is_obj_array :: "TyKind \<Rightarrow> bool" where
  "ty_is_obj_array t \<longleftrightarrow> TY_OBJ_ARRAY_BASE \<le> ty_int t"

definition ty_obj_array :: "int \<Rightarrow> TyKind" where
  "ty_obj_array class_id = ty_of_int (TY_OBJ_ARRAY_BASE + class_id)"

definition ty_obj_array_class :: "TyKind \<Rightarrow> int" where
  "ty_obj_array_class t = ty_int t - TY_OBJ_ARRAY_BASE"

definition ty_name_tbl :: "(TyKind \<times> string) list" where
  "ty_name_tbl =
    [(TY_UNKNOWN, ''unknown''),
     (TY_VOID, ''void''),
     (TY_NIL, ''nil''),
     (TY_INT, ''int''),
     (TY_BIGINT, ''bigint''),
     (TY_FLOAT, ''float''),
     (TY_STRING, ''string''),
     (TY_STRBUF, ''strbuf''),
     (TY_SYMBOL, ''symbol''),
     (TY_BOOL, ''bool''),
     (TY_RANGE, ''range''),
     (TY_FLOAT_RANGE, ''float_range''),
     (TY_TIME, ''time''),
     (TY_COMPLEX, ''complex''),
     (TY_RATIONAL, ''rational''),
     (TY_MATCHDATA, ''matchdata''),
     (TY_REGEX, ''regex''),
     (TY_EXCEPTION, ''exception''),
     (TY_INT_ARRAY, ''int_array''),
     (TY_FLOAT_ARRAY, ''float_array''),
     (TY_STR_ARRAY, ''str_array''),
     (TY_POLY_ARRAY, ''poly_array''),
     (TY_INT_ARRAY_ARRAY, ''int_array_array''),
     (TY_FLOAT_ARRAY_ARRAY, ''float_array_array''),
     (TY_STR_INT_HASH, ''str_int_hash''),
     (TY_STR_STR_HASH, ''str_str_hash''),
     (TY_INT_INT_HASH, ''int_int_hash''),
     (TY_INT_STR_HASH, ''int_str_hash''),
     (TY_SYM_POLY_HASH, ''sym_poly_hash''),
     (TY_STR_POLY_HASH, ''str_poly_hash''),
     (TY_POLY_POLY_HASH, ''poly_poly_hash''),
     (TY_PROC, ''proc''),
     (TY_CURRY, ''curry''),
     (TY_FIBER, ''fiber''),
     (TY_THREAD, ''thread''),
     (TY_QUEUE, ''queue''),
     (TY_MUTEX, ''mutex''),
     (TY_CONDVAR, ''condvar''),
     (TY_RANDOM, ''random''),
     (TY_DIR, ''dir''),
     (TY_ADDRINFO, ''addrinfo''),
     (TY_SOCKOPT, ''sockopt''),
     (TY_STR_RANGE, ''str_range''),
     (TY_TIME_RANGE, ''time_range''),
     (TY_OBJ_RANGE, ''obj_range''),
     (TY_TMS, ''tms''),
     (TY_PROCESS_STATUS, ''process_status''),
     (TY_OPENSTRUCT, ''openstruct''),
     (TY_METHOD, ''method''),
     (TY_IO, ''io''),
     (TY_ARGF, ''argf''),
     (TY_ENUMERATOR, ''enumerator''),
     (TY_CLASS, ''class''),
     (TY_POLY, ''poly'')]"

definition ty_name :: "TyKind \<Rightarrow> string" where
  "ty_name t =
     (case map_of ty_name_tbl t of
        Some s \<Rightarrow> s
      | None \<Rightarrow> if ty_is_obj_array t then ''obj_array'' else ''?'')"

section \<open>The boxed-receiver face table\<close>

definition PF_STRING :: "32 word" where
  "PF_STRING = 1"
definition PF_ARRAY :: "32 word" where
  "PF_ARRAY = 2"
definition PF_ENUM :: "32 word" where
  "PF_ENUM = 4"
definition PF_HASH :: "32 word" where
  "PF_HASH = 8"
definition PF_INT :: "32 word" where
  "PF_INT = 16"
definition PF_FLOAT :: "32 word" where
  "PF_FLOAT = 32"
definition PF_RANGE :: "32 word" where
  "PF_RANGE = 64"
definition PF_FRANGE :: "32 word" where
  "PF_FRANGE = 128"
definition PF_SRANGE :: "32 word" where
  "PF_SRANGE = 256"
definition PF_RANDOM :: "32 word" where
  "PF_RANDOM = 512"
definition PF_TRANGE :: "32 word" where
  "PF_TRANGE = 1024"
definition PF_OWNERS :: "32 word" where
  "PF_OWNERS = 0x7ff"
definition PF_MUT :: "32 word" where
  "PF_MUT = 2048"
definition PF_STR_BANG :: "32 word" where
  "PF_STR_BANG = 4096"
definition PF_STR_SELF :: "32 word" where
  "PF_STR_SELF = 8192"
definition PF_ARGS_OWN :: "32 word" where
  "PF_ARGS_OWN = 16384"
definition PF_VAL_SELF :: "32 word" where
  "PF_VAL_SELF = 32768"
definition PF_LAST :: "32 word" where
  "PF_LAST = 65536"
definition PF_SAME_OK :: "32 word" where
  "PF_SAME_OK = 131072"
definition PF_ENC :: "32 word" where
  "PF_ENC = 262144"

record PolyFace =
  pf_name :: string
  pf_flags :: "32 word"
  argc_min :: int
  argc_max :: int
  pf_blk :: int

definition face :: "string \<Rightarrow> 32 word \<Rightarrow> int \<Rightarrow> int \<Rightarrow> int \<Rightarrow> PolyFace" where
  "face n f lo hi b =
     \<lparr>pf_name = n, pf_flags = f, argc_min = lo, argc_max = hi, pf_blk = b\<rparr>"

definition ty_poly_face_tbl :: "PolyFace list" where
  "ty_poly_face_tbl =
    [face ''rand'' (PF_RANDOM) 0 (- 1) (- 1),
     face ''bytes'' (PF_RANDOM) 1 (- 1) (- 1),
     face ''seed'' (PF_RANDOM) 0 (- 1) (- 1),
     face ''gsub!'' (PF_STRING OR PF_STR_BANG) 0 (- 1) (- 1),
     face ''sub!'' (PF_STRING OR PF_STR_BANG) 0 (- 1) (- 1),
     face ''upcase!'' (PF_STRING OR PF_STR_BANG) 0 (- 1) (- 1),
     face ''downcase!'' (PF_STRING OR PF_STR_BANG) 0 (- 1) (- 1),
     face ''capitalize!'' (PF_STRING OR PF_STR_BANG) 0 (- 1) (- 1),
     face ''swapcase!'' (PF_STRING OR PF_STR_BANG) 0 (- 1) (- 1),
     face ''strip!'' (PF_STRING OR PF_STR_BANG) 0 (- 1) (- 1),
     face ''lstrip!'' (PF_STRING OR PF_STR_BANG) 0 (- 1) (- 1),
     face ''rstrip!'' (PF_STRING OR PF_STR_BANG) 0 (- 1) (- 1),
     face ''chomp!'' (PF_STRING OR PF_STR_BANG) 0 (- 1) (- 1),
     face ''chop!'' (PF_STRING OR PF_STR_BANG) 0 (- 1) (- 1),
     face ''squeeze!'' (PF_STRING OR PF_STR_BANG) 0 (- 1) (- 1),
     face ''tr!'' (PF_STRING OR PF_STR_BANG) 0 (- 1) (- 1),
     face ''delete!'' (PF_STRING OR PF_STR_BANG) 0 (- 1) (- 1),
     face ''tr_s!'' (PF_STRING OR PF_STR_BANG) 0 (- 1) (- 1),
     face ''delete_prefix!'' (PF_STRING OR PF_STR_BANG) 0 (- 1) (- 1),
     face ''delete_suffix!'' (PF_STRING OR PF_STR_BANG) 0 (- 1) (- 1),
     face ''succ!'' (PF_STRING OR PF_STR_BANG OR PF_STR_SELF) 0 (- 1) (- 1),
     face ''next!'' (PF_STRING OR PF_STR_BANG OR PF_STR_SELF) 0 (- 1) (- 1),
     face ''squeeze'' (PF_STRING) 0 0 0,
     face ''byteindex'' (PF_STRING) 1 2 0,
     face ''byterindex'' (PF_STRING) 1 2 0,
     face ''partition'' (PF_STRING) 1 1 0,
     face ''rpartition'' (PF_STRING) 1 1 0,
     face ''hex'' (PF_STRING) 0 0 0,
     face ''oct'' (PF_STRING) 0 0 0,
     face ''tr_s'' (PF_STRING) 2 2 0,
     face ''crypt'' (PF_STRING) 1 1 0,
     face ''casecmp'' (PF_STRING) 1 1 0,
     face ''casecmp?'' (PF_STRING) 1 1 0,
     face ''times'' (PF_INT) 0 0 1,
     face ''upto'' (PF_INT) 1 1 1,
     face ''downto'' (PF_INT) 1 1 1,
     face ''step'' (PF_INT OR PF_FLOAT) 0 2 1,
     face ''step'' (PF_INT OR PF_FLOAT OR PF_RANGE OR PF_FRANGE) 1 2 0,
     face ''step'' (PF_INT OR PF_FLOAT) 0 0 0,
     face ''step'' (PF_RANGE OR PF_FRANGE OR PF_SRANGE OR PF_TRANGE) 0 1 1,
     face ''bsearch'' (PF_ARRAY OR PF_RANGE OR PF_FRANGE OR PF_SRANGE) 0 0 1,
     face ''bsearch_index'' (PF_ARRAY) 0 0 1,
     face ''minmax'' (PF_RANGE OR PF_FRANGE OR PF_SRANGE) 0 0 (- 1),
     face ''minmax'' (PF_ENUM) 0 (- 1) (- 1),
     face ''tally'' (PF_ENUM) 0 (- 1) (- 1),
     face ''product'' (PF_ENUM) 0 (- 1) (- 1),
     face ''combination'' (PF_ENUM) 0 (- 1) (- 1),
     face ''permutation'' (PF_ENUM) 0 (- 1) (- 1),
     face ''group_by'' (PF_ENUM) 0 (- 1) 1,
     face ''partition'' (PF_ENUM) 0 (- 1) 1,
     face ''each_with_object'' (PF_ENUM) 0 (- 1) 1,
     face ''chunk_while'' (PF_ENUM) 0 (- 1) 1,
     face ''slice_when'' (PF_ENUM) 0 (- 1) 1,
     face ''sort!'' (PF_ARRAY OR PF_MUT OR PF_VAL_SELF) 0 0 (- 1),
     face ''sort_by!'' (PF_ARRAY OR PF_MUT OR PF_VAL_SELF) 0 0 1,
     face ''rotate!'' (PF_ARRAY OR PF_MUT OR PF_VAL_SELF) 0 1 0,
     face ''uniq!'' (PF_ARRAY OR PF_MUT OR PF_VAL_SELF) 0 0 (- 1),
     face ''shuffle!'' (PF_ARRAY OR PF_MUT OR PF_VAL_SELF) 0 0 0,
     face ''flatten!'' (PF_ARRAY OR PF_MUT OR PF_VAL_SELF) 0 1 0,
     face ''fill'' (PF_ARRAY OR PF_MUT OR PF_VAL_SELF) 1 3 0,
     face ''fill'' (PF_ARRAY OR PF_MUT OR PF_VAL_SELF) 0 2 1,
     face ''to_ary'' (PF_ARRAY) 0 0 0,
     face ''transpose'' (PF_ARRAY) 0 0 0,
     face ''grep'' (PF_ENUM) 1 1 (- 1),
     face ''minmax_by'' (PF_ENUM) 0 0 1,
     face ''setbyte'' (PF_STRING OR PF_MUT) 2 2 0,
     face ''scrub!'' (PF_STRING OR PF_MUT OR PF_VAL_SELF OR PF_SAME_OK) 0 1 (- 1),
     face ''bytesplice'' (PF_STRING OR PF_MUT OR PF_VAL_SELF OR PF_ENC) 2 5 0,
     face ''append_as_bytes'' (PF_STRING OR PF_MUT OR PF_VAL_SELF) 0 (- 1) 0,
     face ''concat'' (PF_STRING OR PF_MUT OR PF_ARGS_OWN OR PF_VAL_SELF) 0 (- 1) 0,
     face ''concat'' (PF_ARRAY OR PF_MUT OR PF_VAL_SELF OR PF_ARGS_OWN) 0 (- 1) 0,
     face ''prepend'' (PF_STRING OR PF_MUT OR PF_ARGS_OWN OR PF_VAL_SELF) 0 (- 1) 0,
     face ''prepend'' (PF_ARRAY OR PF_MUT OR PF_VAL_SELF) 0 (- 1) 0,
     face ''reverse!'' (PF_STRING OR PF_MUT OR PF_VAL_SELF) 0 0 0,
     face ''reverse!'' (PF_ARRAY OR PF_MUT OR PF_VAL_SELF) 0 0 0,
     face ''slice!'' (PF_STRING OR PF_MUT) 1 2 0,
     face ''slice!'' (PF_ARRAY OR PF_MUT) 1 2 0,
     face ''merge!'' (PF_HASH OR PF_MUT OR PF_VAL_SELF) 0 0 (- 1),
     face ''merge!'' (PF_HASH OR PF_MUT OR PF_VAL_SELF OR PF_ARGS_OWN) 1 (- 1) 0,
     face ''update'' (PF_HASH OR PF_MUT OR PF_VAL_SELF) 0 0 (- 1),
     face ''update'' (PF_HASH OR PF_MUT OR PF_VAL_SELF OR PF_ARGS_OWN) 1 (- 1) 0,
     face ''select!'' (PF_ARRAY OR PF_MUT OR PF_VAL_SELF) 0 0 1,
     face ''select!'' (PF_HASH OR PF_MUT OR PF_VAL_SELF) 0 0 1,
     face ''filter!'' (PF_ARRAY OR PF_MUT OR PF_VAL_SELF) 0 0 1,
     face ''filter!'' (PF_HASH OR PF_MUT OR PF_VAL_SELF) 0 0 1,
     face ''reject!'' (PF_ARRAY OR PF_MUT OR PF_VAL_SELF) 0 0 1,
     face ''reject!'' (PF_HASH OR PF_MUT OR PF_VAL_SELF) 0 0 1,
     face ''keep_if'' (PF_ARRAY OR PF_MUT OR PF_VAL_SELF) 0 0 1,
     face ''keep_if'' (PF_HASH OR PF_MUT OR PF_VAL_SELF) 0 0 1,
     face ''delete_if'' (PF_ARRAY OR PF_MUT OR PF_VAL_SELF) 0 0 1,
     face ''delete_if'' (PF_HASH OR PF_MUT OR PF_VAL_SELF) 0 0 1,
     face ''compact!'' (PF_ARRAY OR PF_MUT OR PF_VAL_SELF) 0 0 0,
     face ''compact!'' (PF_HASH OR PF_MUT OR PF_VAL_SELF) 0 0 0,
     face ''rehash'' (PF_HASH OR PF_MUT OR PF_VAL_SELF) 0 0 0,
     face ''default='' (PF_HASH OR PF_MUT) 1 1 0,
     face ''default_proc='' (PF_HASH OR PF_MUT OR PF_VAL_SELF) 1 1 0,
     face ''assoc'' (PF_ARRAY) 1 1 0,
     face ''assoc'' (PF_HASH) 1 1 0,
     face ''rassoc'' (PF_ARRAY) 1 1 0,
     face ''rassoc'' (PF_HASH) 1 1 0,
     face ''fetch_values'' (PF_ARRAY) 0 0 (- 1),
     face ''fetch_values'' (PF_ARRAY) 1 (- 1) 0,
     face ''fetch_values'' (PF_HASH) 0 0 (- 1),
     face ''fetch_values'' (PF_HASH) 1 (- 1) 0,
     face ''fetch'' (PF_ARRAY) 1 2 1,
     face ''fetch'' (PF_HASH) 1 2 1,
     face ''dig'' (PF_HASH OR PF_LAST) 0 (- 1) (- 1),
     face ''value?'' (PF_HASH OR PF_LAST) 0 (- 1) (- 1),
     face ''has_value?'' (PF_HASH OR PF_LAST) 0 (- 1) (- 1),
     face ''invert'' (PF_HASH OR PF_LAST) 0 (- 1) (- 1),
     face ''assoc'' (PF_HASH OR PF_LAST) 0 (- 1) (- 1),
     face ''rassoc'' (PF_HASH OR PF_LAST) 0 (- 1) (- 1),
     face ''key'' (PF_HASH OR PF_LAST) 0 (- 1) (- 1),
     face ''filter_map'' (PF_HASH OR PF_LAST) 0 (- 1) (- 1),
     face ''each_with_object'' (PF_HASH OR PF_LAST) 0 (- 1) (- 1),
     face ''group_by'' (PF_HASH OR PF_LAST) 0 (- 1) (- 1),
     face ''partition'' (PF_HASH OR PF_LAST) 0 (- 1) (- 1),
     face ''zip'' (PF_HASH OR PF_LAST) 0 (- 1) (- 1),
     face ''reduce'' (PF_HASH OR PF_LAST) 0 (- 1) (- 1),
     face ''inject'' (PF_HASH OR PF_LAST) 0 (- 1) (- 1),
     face ''find_all'' (PF_HASH OR PF_LAST) 0 (- 1) (- 1),
     face ''take'' (PF_HASH OR PF_LAST) 0 (- 1) (- 1),
     face ''drop'' (PF_HASH OR PF_LAST) 0 (- 1) (- 1),
     face ''select'' (PF_HASH OR PF_LAST) 0 (- 1) (- 1),
     face ''filter'' (PF_HASH OR PF_LAST) 0 (- 1) (- 1),
     face ''reject'' (PF_HASH OR PF_LAST) 0 (- 1) (- 1),
     face ''compact'' (PF_HASH OR PF_LAST) 0 (- 1) (- 1),
     face ''slice'' (PF_HASH OR PF_LAST) 0 (- 1) (- 1),
     face ''except'' (PF_HASH OR PF_LAST) 0 (- 1) (- 1),
     face ''values_at'' (PF_HASH OR PF_LAST) 0 (- 1) (- 1),
     face ''fetch_values'' (PF_HASH OR PF_LAST) 0 (- 1) (- 1),
     face ''entries'' (PF_HASH OR PF_LAST) 0 (- 1) (- 1),
     face ''flatten'' (PF_HASH OR PF_LAST) 0 (- 1) (- 1),
     face ''first'' (PF_HASH OR PF_LAST) 0 (- 1) (- 1),
     face ''each_pair'' (PF_HASH OR PF_LAST) 0 (- 1) (- 1),
     face ''each_key'' (PF_HASH OR PF_LAST) 0 (- 1) (- 1),
     face ''each_value'' (PF_HASH OR PF_LAST) 0 (- 1) (- 1),
     face ''transform_values'' (PF_HASH OR PF_LAST) 0 (- 1) (- 1),
     face ''transform_keys'' (PF_HASH OR PF_LAST) 0 (- 1) (- 1),
     face ''tally'' (PF_HASH OR PF_LAST) 0 (- 1) (- 1),
     face ''chunk_while'' (PF_HASH OR PF_LAST) 0 (- 1) (- 1),
     face ''flat_map'' (PF_HASH OR PF_LAST) 0 (- 1) (- 1),
     face ''collect_concat'' (PF_HASH OR PF_LAST) 0 (- 1) (- 1),
     face ''none?'' (PF_HASH OR PF_LAST) 0 (- 1) (- 1),
     face ''one?'' (PF_HASH OR PF_LAST) 0 (- 1) (- 1),
     face ''deconstruct_keys'' (PF_HASH OR PF_LAST) 0 (- 1) (- 1),
     face ''default'' (PF_HASH OR PF_LAST) 0 (- 1) (- 1),
     face ''default_proc'' (PF_HASH OR PF_LAST) 0 (- 1) (- 1)]"

definition face_row_matches :: "PolyFace \<Rightarrow> int \<Rightarrow> bool \<Rightarrow> bool \<Rightarrow> bool" where
  "face_row_matches r argc has_blk plain =
     (if \<not> plain then argc_min r = 0 \<and> argc_max r < 0 \<and> pf_blk r \<noteq> 0
      else if argc < argc_min r \<or> (argc_max r \<ge> 0 \<and> argc > argc_max r) then False
      else pf_blk r < 0 \<or> pf_blk r = of_bool has_blk)"

fun face_owners_loop ::
    "PolyFace list \<Rightarrow> string \<Rightarrow> int \<Rightarrow> bool \<Rightarrow> bool \<Rightarrow> bool \<Rightarrow> 32 word \<Rightarrow> 32 word" where
  "face_owners_loop [] name argc has_blk plain with_last own = own"
| "face_owners_loop (r # rs) name argc has_blk plain with_last own =
     face_owners_loop rs name argc has_blk plain with_last
       (if \<not> sp_streq name (pf_name r) then own
        else if \<not> with_last \<and> pf_flags r AND PF_LAST \<noteq> 0 then own
        else if \<not> face_row_matches r argc has_blk plain then own
        else own OR pf_flags r)"

definition ty_poly_face_owners ::
    "string option \<Rightarrow> int \<Rightarrow> bool \<Rightarrow> bool \<Rightarrow> bool \<Rightarrow> 32 word" where
  "ty_poly_face_owners name argc has_blk plain with_last =
     (case name of None \<Rightarrow> 0
      | Some nm \<Rightarrow> face_owners_loop ty_poly_face_tbl nm argc has_blk plain with_last 0)"

fun face_owner_flags_loop ::
    "PolyFace list \<Rightarrow> string \<Rightarrow> int \<Rightarrow> bool \<Rightarrow> bool \<Rightarrow> 32 word \<Rightarrow> 32 word \<Rightarrow> 32 word" where
  "face_owner_flags_loop [] name argc has_blk plain owner fl = fl"
| "face_owner_flags_loop (r # rs) name argc has_blk plain owner fl =
     face_owner_flags_loop rs name argc has_blk plain owner
       (if pf_flags r AND owner = 0 \<or> \<not> sp_streq name (pf_name r) then fl
        else if \<not> face_row_matches r argc has_blk plain then fl
        else fl OR pf_flags r)"

definition ty_poly_face_owner_flags ::
    "string option \<Rightarrow> int \<Rightarrow> bool \<Rightarrow> bool \<Rightarrow> 32 word \<Rightarrow> 32 word" where
  "ty_poly_face_owner_flags name argc has_blk plain owner =
     (case name of None \<Rightarrow> 0
      | Some nm \<Rightarrow> face_owner_flags_loop ty_poly_face_tbl nm argc has_blk plain owner 0)"

fun str_bang_loop :: "PolyFace list \<Rightarrow> string \<Rightarrow> 32 word" where
  "str_bang_loop [] name = 0"
| "str_bang_loop (r # rs) name =
     (if pf_flags r AND PF_STR_BANG \<noteq> 0 \<and> sp_streq name (pf_name r)
      then pf_flags r AND (PF_STR_BANG OR PF_STR_SELF)
      else str_bang_loop rs name)"

definition ty_str_bang_flags :: "string option \<Rightarrow> 32 word" where
  "ty_str_bang_flags name =
     (case name of None \<Rightarrow> 0 | Some nm \<Rightarrow> str_bang_loop ty_poly_face_tbl nm)"

definition ty_str_typed_bang_flags :: "string option \<Rightarrow> 32 word" where
  "ty_str_typed_bang_flags name =
     (let fl = ty_str_bang_flags name
      in if fl = 0 \<and> name \<noteq> None \<and> sp_streq (the name) ''reverse!''
         then PF_STR_BANG OR PF_STR_SELF else fl)"

text \<open>
  \<open>str_bang_plain bang n\<close> is what the function leaves in the caller's buffer of \<open>n\<close>
  bytes, without the terminator it writes after it; \<^const>\<open>None\<close> where it writes nothing.
\<close>

definition str_bang_plain :: "string option \<Rightarrow> int \<Rightarrow> string option" where
  "str_bang_plain bang n =
     (let len = (case bang of None \<Rightarrow> 0 | Some b \<Rightarrow> length b);
          b = (case bang of None \<Rightarrow> [] | Some b \<Rightarrow> b);
          len = (if len \<noteq> 0 \<and> b ! (len - 1) = CHR ''!'' then len - 1 else len)
      in if n \<le> 0 then None
         else let len = (if int len \<ge> n then nat n - 1 else len) in Some (take len b))"

fun hash_face_loop :: "PolyFace list \<Rightarrow> string \<Rightarrow> bool" where
  "hash_face_loop [] nm = False"
| "hash_face_loop (r # rs) nm =
     (if pf_flags r AND PF_HASH \<noteq> 0 \<and> pf_flags r AND PF_LAST \<noteq> 0 \<and> sp_streq nm (pf_name r)
      then True else hash_face_loop rs nm)"

definition ty_poly_hash_face_name :: "string option \<Rightarrow> bool" where
  "ty_poly_hash_face_name nm =
     (case nm of None \<Rightarrow> False | Some n \<Rightarrow> hash_face_loop ty_poly_face_tbl n)"

definition ty_poly_face_kind :: "32 word \<Rightarrow> TyKind" where
  "ty_poly_face_kind owner =
     (if owner = PF_STRING then TY_STRING
      else if owner = PF_ARRAY \<or> owner = PF_ENUM then TY_POLY_ARRAY
      else if owner = PF_HASH then TY_POLY_POLY_HASH
      else if owner = PF_INT then TY_INT
      else if owner = PF_FLOAT then TY_FLOAT
      else if owner = PF_RANGE then TY_RANGE
      else if owner = PF_FRANGE then TY_FLOAT_RANGE
      else if owner = PF_SRANGE then TY_STR_RANGE
      else if owner = PF_RANDOM then TY_RANDOM
      else if owner = PF_TRANGE then TY_TIME_RANGE
      else TY_UNKNOWN)"

text \<open>The exclusive names of the handle classes.\<close>

definition ty_poly_handle_face :: "string option \<Rightarrow> TyKind" where
  "ty_poly_handle_face nm =
     (case nm of None \<Rightarrow> TY_UNKNOWN
      | Some n \<Rightarrow>
        if list_ex (sp_streq n)
             [''ip_address'', ''unix_path'', ''afamily'', ''pfamily'', ''afamily_name'',
              ''ip_port'', ''socktype'', ''protocol'', ''ipv4?'', ''ipv6?'', ''unix?'', ''ip?'',
              ''to_sockaddr'']
        then TY_ADDRINFO
        else if list_ex (sp_streq n) [''int'', ''bool'', ''level'', ''optname'', ''family'']
        then TY_SOCKOPT
        else if list_ex (sp_streq n)
             [''pre_match'', ''post_match'', ''captures'', ''regexp'', ''string'']
        then TY_MATCHDATA
        else if list_ex (sp_streq n) [''next_values'', ''peek_values'', ''with_index'']
        then TY_ENUMERATOR
        else TY_UNKNOWN)"

definition handle_face_args_tbl :: "(string \<times> TyKind \<times> int \<times> int) list" where
  "handle_face_args_tbl =
    [(''begin'', TY_MATCHDATA, 1, 1), (''end'', TY_MATCHDATA, 1, 1),
     (''offset'', TY_MATCHDATA, 1, 1), (''byteoffset'', TY_MATCHDATA, 1, 1),
     (''match_length'', TY_MATCHDATA, 1, 1),
     (''with_index'', TY_ENUMERATOR, 1, 1)]"

fun handle_face_args_loop :: "(string \<times> TyKind \<times> int \<times> int) list \<Rightarrow> string \<Rightarrow> int \<Rightarrow> TyKind" where
  "handle_face_args_loop [] nm argc = TY_UNKNOWN"
| "handle_face_args_loop ((s, k, lo, hi) # rs) nm argc =
     (if sp_streq nm s \<and> argc \<ge> lo \<and> argc \<le> hi then k else handle_face_args_loop rs nm argc)"

definition ty_poly_handle_face_args :: "string option \<Rightarrow> int \<Rightarrow> TyKind" where
  "ty_poly_handle_face_args nm argc =
     (case nm of None \<Rightarrow> TY_UNKNOWN
      | Some n \<Rightarrow>
        if argc < 0 then TY_UNKNOWN
        else if argc = 0 then ty_poly_handle_face nm
        else handle_face_args_loop handle_face_args_tbl n argc)"

section \<open>Containers\<close>

definition hash_tbl :: "(TyKind \<times> TyKind \<times> TyKind \<times> string) list" where
  "hash_tbl =
    [(TY_STR_INT_HASH, TY_STRING, TY_INT, ''StrInt''),
     (TY_STR_STR_HASH, TY_STRING, TY_STRING, ''StrStr''),
     (TY_INT_INT_HASH, TY_INT, TY_INT, ''IntInt''),
     (TY_INT_STR_HASH, TY_INT, TY_STRING, ''IntStr''),
     (TY_SYM_POLY_HASH, TY_SYMBOL, TY_POLY, ''SymPoly''),
     (TY_STR_POLY_HASH, TY_STRING, TY_POLY, ''StrPoly''),
     (TY_POLY_POLY_HASH, TY_POLY, TY_POLY, ''PolyPoly'')]"

definition hash_row :: "TyKind \<Rightarrow> (TyKind \<times> TyKind \<times> TyKind \<times> string) option" where
  "hash_row h = find (\<lambda>r. fst r = h) hash_tbl"

definition ty_is_hash :: "TyKind \<Rightarrow> bool" where
  "ty_is_hash t = (hash_row t \<noteq> None)"

definition ty_hash_of :: "TyKind \<Rightarrow> TyKind \<Rightarrow> TyKind" where
  "ty_hash_of key val =
     (let key = (if key = TY_STRBUF then TY_STRING else key);
          val = (if val = TY_STRBUF then TY_STRING else val)
      in case find (\<lambda>(k, ky, v, c). ky = key \<and> v = val) hash_tbl of
           Some (k, ky, v, c) \<Rightarrow> k
         | None \<Rightarrow> TY_UNKNOWN)"

definition ty_hash_key :: "TyKind \<Rightarrow> TyKind" where
  "ty_hash_key h = (case hash_row h of Some (k, ky, v, c) \<Rightarrow> ky | None \<Rightarrow> TY_UNKNOWN)"

definition ty_hash_val :: "TyKind \<Rightarrow> TyKind" where
  "ty_hash_val h = (case hash_row h of Some (k, ky, v, c) \<Rightarrow> v | None \<Rightarrow> TY_UNKNOWN)"

definition ty_hash_cname :: "TyKind \<Rightarrow> string option" where
  "ty_hash_cname h = (case hash_row h of Some (k, ky, v, c) \<Rightarrow> Some c | None \<Rightarrow> None)"

definition ty_is_numeric :: "TyKind \<Rightarrow> bool" where
  "ty_is_numeric t \<longleftrightarrow> t = TY_INT \<or> t = TY_BIGINT \<or> t = TY_FLOAT"

definition ty_is_array :: "TyKind \<Rightarrow> bool" where
  "ty_is_array t \<longleftrightarrow>
     t = TY_INT_ARRAY \<or> t = TY_FLOAT_ARRAY \<or> t = TY_STR_ARRAY \<or> t = TY_POLY_ARRAY \<or>
     t = TY_INT_ARRAY_ARRAY \<or> t = TY_FLOAT_ARRAY_ARRAY"

definition ty_never_callable :: "TyKind \<Rightarrow> bool" where
  "ty_never_callable t \<longleftrightarrow>
     t \<in> {TY_INT, TY_FLOAT, TY_BIGINT, TY_RATIONAL, TY_COMPLEX, TY_STRING, TY_STRBUF,
          TY_SYMBOL, TY_BOOL, TY_NIL, TY_RANGE, TY_FLOAT_RANGE, TY_STR_RANGE, TY_TIME_RANGE,
          TY_OBJ_RANGE, TY_REGEX, TY_TIME, TY_MATCHDATA, TY_EXCEPTION, TY_IO, TY_ENUMERATOR} \<or>
     ty_is_array t \<or> ty_is_obj_array t \<or> ty_is_hash t"

definition array_new_copies :: "TyKind \<Rightarrow> bool" where
  "array_new_copies t \<longleftrightarrow>
     t = TY_INT_ARRAY \<or> t = TY_FLOAT_ARRAY \<or> t = TY_STR_ARRAY \<or> t = TY_POLY_ARRAY"

text \<open>The first argument is the global \<^verbatim>\<open>g_infer_optimistic\<close> that \<^verbatim>\<open>ty_array_of\<close> reads.\<close>

definition ty_array_of :: "bool \<Rightarrow> TyKind \<Rightarrow> TyKind" where
  "ty_array_of g_infer_optimistic elem =
     (case elem of
        TY_INT \<Rightarrow> TY_INT_ARRAY
      | TY_FLOAT \<Rightarrow> TY_FLOAT_ARRAY
      | TY_STRING \<Rightarrow> TY_STR_ARRAY
      | TY_STRBUF \<Rightarrow> TY_STR_ARRAY
      | TY_UNKNOWN \<Rightarrow> if g_infer_optimistic then TY_UNKNOWN else TY_POLY_ARRAY
      | _ \<Rightarrow> TY_POLY_ARRAY)"

definition ty_array_elem :: "TyKind \<Rightarrow> TyKind" where
  "ty_array_elem arr =
     (case arr of
        TY_INT_ARRAY \<Rightarrow> TY_INT
      | TY_FLOAT_ARRAY \<Rightarrow> TY_FLOAT
      | TY_STR_ARRAY \<Rightarrow> TY_STRING
      | TY_INT_ARRAY_ARRAY \<Rightarrow> TY_INT_ARRAY
      | TY_FLOAT_ARRAY_ARRAY \<Rightarrow> TY_FLOAT_ARRAY
      | _ \<Rightarrow> if ty_is_obj_array arr then ty_object (ty_obj_array_class arr) else TY_POLY)"

definition ty_is_ptr_array :: "TyKind \<Rightarrow> bool" where
  "ty_is_ptr_array t \<longleftrightarrow>
     ty_is_obj_array t \<or> t = TY_INT_ARRAY_ARRAY \<or> t = TY_FLOAT_ARRAY_ARRAY"

definition ty_ptr_array_elem_ctype :: "TyKind \<Rightarrow> string option" where
  "ty_ptr_array_elem_ctype t =
     (if t = TY_INT_ARRAY_ARRAY then Some ''sp_IntArray''
      else if t = TY_FLOAT_ARRAY_ARRAY then Some ''sp_FloatArray''
      else None)"

section \<open>The join and the folds\<close>

definition ty_unify :: "TyKind \<Rightarrow> TyKind \<Rightarrow> TyKind" where
  "ty_unify a b =
     (if a = b then a
      else if a = TY_UNKNOWN then b
      else if b = TY_UNKNOWN then a
      else if (a = TY_BIGINT \<and> b = TY_INT) \<or> (a = TY_INT \<and> b = TY_BIGINT) then TY_BIGINT
      else if (a = TY_STRBUF \<and> b = TY_STRING) \<or> (a = TY_STRING \<and> b = TY_STRBUF) then TY_STRBUF
      else if a = TY_NIL \<and> ty_is_object b then b
      else if b = TY_NIL \<and> ty_is_object a then a
      else if a = TY_NIL \<and> b = TY_STRING then b
      else if b = TY_NIL \<and> a = TY_STRING then a
      else if a = TY_NIL \<and> b = TY_STRBUF then b
      else if b = TY_NIL \<and> a = TY_STRBUF then a
      else if a = TY_NIL \<and> (b = TY_INT \<or> b = TY_FLOAT) then b
      else if b = TY_NIL \<and> (a = TY_INT \<or> a = TY_FLOAT) then a
      else if a = TY_NIL \<and> b = TY_POLY_ARRAY then b
      else if b = TY_NIL \<and> a = TY_POLY_ARRAY then a
      else if a = TY_NIL \<and> b = TY_EXCEPTION then b
      else if b = TY_NIL \<and> a = TY_EXCEPTION then a
      else if a = TY_NIL \<and> b = TY_IO then b
      else if b = TY_NIL \<and> a = TY_IO then a
      else TY_POLY)"

definition ty_promote_numeric :: "TyKind \<Rightarrow> TyKind \<Rightarrow> TyKind" where
  "ty_promote_numeric a b =
     (if a = b then a
      else if a = TY_UNKNOWN then b
      else if b = TY_UNKNOWN then a
      else if ty_is_numeric a \<and> ty_is_numeric b
      then (if a = TY_FLOAT \<or> b = TY_FLOAT then TY_FLOAT else TY_BIGINT)
      else ty_unify a b)"

definition fold_seed_kind :: "TyKind \<Rightarrow> string option \<Rightarrow> TyKind" where
  "fold_seed_kind resolved node_type =
     (if resolved \<noteq> TY_UNKNOWN then resolved
      else if node_type \<noteq> None \<and> sp_streq (the node_type) ''ArrayNode'' then TY_POLY_ARRAY
      else if node_type \<noteq> None \<and> sp_streq (the node_type) ''HashNode'' then TY_POLY_POLY_HASH
      else resolved)"

definition fold_seed_typed :: "TyKind \<Rightarrow> TyKind \<Rightarrow> bool" where
  "fold_seed_typed seed elem =
     (if seed = TY_UNKNOWN then True
      else if seed = elem then True
      else elem = TY_FLOAT \<and> seed = TY_INT)"

definition fold_sum_type :: "TyKind \<Rightarrow> TyKind \<Rightarrow> bool \<Rightarrow> TyKind" where
  "fold_sum_type seed elem promote =
     (if elem \<noteq> TY_INT \<and> elem \<noteq> TY_FLOAT then TY_POLY
      else if seed = TY_POLY \<or> seed = TY_STRING \<or>
        (seed \<noteq> TY_INT \<and> seed \<noteq> TY_FLOAT \<and> seed \<noteq> TY_UNKNOWN \<and> \<not> fold_seed_typed seed elem)
      then TY_POLY
      else if elem = TY_FLOAT \<and> seed \<noteq> TY_FLOAT then TY_POLY
      else if promote \<and> elem = TY_INT \<and> seed \<noteq> TY_FLOAT then TY_POLY
      else if seed = TY_FLOAT then TY_FLOAT else elem)"

datatype TyIterShape = TY_ITER_NONE | TY_ITER_MAP | TY_ITER_SELECT | TY_ITER_REJECT

definition is_map_alias :: "string \<Rightarrow> bool" where
  "is_map_alias n = (sp_streq n ''map'' \<or> sp_streq n ''collect'')"

definition is_select_alias :: "string \<Rightarrow> bool" where
  "is_select_alias n = (sp_streq n ''select'' \<or> sp_streq n ''filter'')"

definition ty_iter_shape :: "string option \<Rightarrow> TyIterShape" where
  "ty_iter_shape name =
     (case name of None \<Rightarrow> TY_ITER_NONE
      | Some n \<Rightarrow>
        if is_map_alias n then TY_ITER_MAP
        else if is_select_alias n then TY_ITER_SELECT
        else if sp_streq n ''reject'' then TY_ITER_REJECT
        else TY_ITER_NONE)"

section \<open>Object's identity protocol\<close>

definition ty_object_protocol_kind :: "TyKind \<Rightarrow> nat" where
  "ty_object_protocol_kind t =
     (if t \<in> {TY_FIBER, TY_THREAD, TY_QUEUE, TY_MUTEX, TY_CONDVAR, TY_DIR, TY_ADDRINFO, TY_IO,
              TY_ENUMERATOR, TY_CURRY, TY_RANDOM, TY_OPENSTRUCT, TY_METHOD, TY_EXCEPTION,
              TY_MATCHDATA} then 1
      else if t \<in> {TY_TIME, TY_TMS, TY_STR_RANGE} then 2
      else 0)"

definition ty_object_protocol_family :: "TyKind \<Rightarrow> int" where
  "ty_object_protocol_family t =
     (if ty_is_numeric t \<or> t = TY_RATIONAL \<or> t = TY_COMPLEX then 1
      else if t = TY_STRING \<or> t = TY_STRBUF then 2
      else if ty_is_array t \<or> ty_is_obj_array t then 3
      else if ty_is_hash t then 4
      else if t = TY_RANGE \<or> t = TY_FLOAT_RANGE \<or> t = TY_STR_RANGE \<or> t = TY_TIME_RANGE \<or>
        t = TY_OBJ_RANGE then 5
      else 100 + ty_int t)"

definition ty_object_protocol_io :: "TyKind \<Rightarrow> bool" where
  "ty_object_protocol_io t \<longleftrightarrow> t = TY_IO \<or> t = TY_DIR"

definition is_freeze_family :: "string \<Rightarrow> bool" where
  "is_freeze_family n = (sp_streq n ''freeze'' \<or> sp_streq n ''frozen?'')"

definition is_eq_or_ne :: "string \<Rightarrow> bool" where
  "is_eq_or_ne n = (sp_streq n ''=='' \<or> sp_streq n ''!='')"

definition ty_object_protocol_answers ::
    "TyKind \<Rightarrow> TyKind \<Rightarrow> string option \<Rightarrow> int \<Rightarrow> bool" where
  "ty_object_protocol_answers rt at name argc =
     (case name of None \<Rightarrow> False
      | Some n \<Rightarrow>
        let kind = ty_object_protocol_kind rt in
        if argc = 0 then
          (if kind = 1 then is_freeze_family n \<or> (ty_object_protocol_io rt \<and> sp_streq n ''to_s'')
           else if kind = 2 then rt = TY_STR_RANGE \<and> sp_streq n ''frozen?''
           else False)
        else if argc \<noteq> 1 then False
        else if ty_object_protocol_io rt \<and> sp_streq n ''<=>'' then True
        else
          (let is_equal = sp_streq n ''equal?'';
               is_eql = sp_streq n ''eql?'';
               is_case = sp_streq n ''==='';
               is_eq = (is_case \<or> is_eq_or_ne n)
           in if \<not> is_eq \<and> \<not> is_eql \<and> \<not> is_equal then False
              else if kind = 0 then
                (if \<not> (rt = TY_RANGE \<or> rt = TY_FLOAT_RANGE \<or> rt = TY_BIGINT \<or> ty_is_array rt)
                 then False
                 else if ty_is_array rt \<and> ty_is_array at \<and> at \<noteq> rt then \<not> is_equal
                 else if at = TY_POLY \<or> at = TY_UNKNOWN \<or> at = TY_VOID then False
                 else if ty_is_object at \<or> ty_is_obj_array at then False
                 else ty_object_protocol_family at \<noteq> ty_object_protocol_family rt)
              else if is_case \<and> (rt = TY_METHOD \<or> rt = TY_CURRY \<or> rt = TY_STR_RANGE) then False
              else if kind = 2 \<and> is_equal \<and> rt \<noteq> TY_TIME then False
              else True))"

definition ty_builtin_ivar_less :: "TyKind \<Rightarrow> bool" where
  "ty_builtin_ivar_less t \<longleftrightarrow>
     t \<in> {TY_STRING, TY_STRBUF, TY_INT, TY_FLOAT, TY_BOOL, TY_NIL, TY_SYMBOL, TY_BIGINT,
          TY_RANGE, TY_FLOAT_RANGE, TY_STR_RANGE, TY_TIME_RANGE, TY_OBJ_RANGE, TY_RANDOM} \<or>
     ty_is_array t \<or> ty_is_hash t"

definition ty_bivar_keyed :: "TyKind \<Rightarrow> bool" where
  "ty_bivar_keyed t \<longleftrightarrow>
     t = TY_RANDOM \<or> t = TY_EXCEPTION \<or> t = TY_STRING \<or> t = TY_STRBUF \<or> ty_is_array t \<or> ty_is_hash t"

section \<open>Specification: the order of the kinds\<close>

text \<open>
  \<open>ty_le a b\<close>: every value of kind \<open>a\<close> can be held in a slot of kind \<open>b\<close>. The unsettled
  kind is below all, the boxed kind above all; a machine integer fits a Bignum slot, a
  String its handle, and nil fits the kinds whose slot has a spare nil.
\<close>

definition ty_nilable :: "TyKind \<Rightarrow> bool" where
  "ty_nilable t \<longleftrightarrow>
     ty_is_object t \<or> t \<in> {TY_STRING, TY_STRBUF, TY_INT, TY_FLOAT, TY_POLY_ARRAY, TY_EXCEPTION, TY_IO}"

definition ty_le :: "TyKind \<Rightarrow> TyKind \<Rightarrow> bool" where
  "ty_le a b \<longleftrightarrow>
     a = b \<or> a = TY_UNKNOWN \<or> b = TY_POLY \<or> (a = TY_INT \<and> b = TY_BIGINT) \<or>
     (a = TY_STRING \<and> b = TY_STRBUF) \<or> (a = TY_NIL \<and> (ty_nilable b \<or> b = TY_BIGINT))"

definition ty_rank :: "TyKind \<Rightarrow> nat" where
  "ty_rank t =
     (if t = TY_UNKNOWN then 0 else if t = TY_NIL then 1
      else if t = TY_POLY then 4 else if t = TY_BIGINT \<or> t = TY_STRBUF then 3 else 2)"

text \<open>
  A fold accumulator is widened by \<open>ty_promote_numeric\<close>, which also lets the exact
  numbers into a Float slot.
\<close>

definition ty_le_num :: "TyKind \<Rightarrow> TyKind \<Rightarrow> bool" where
  "ty_le_num a b \<longleftrightarrow> ty_le a b \<or> (b = TY_FLOAT \<and> (a = TY_INT \<or> a = TY_BIGINT))"

definition ty_rank_num :: "TyKind \<Rightarrow> nat" where
  "ty_rank_num t = (if t = TY_FLOAT then 4 else if t = TY_POLY then 5 else ty_rank t)"

text \<open>How often a slot changes its kind while the observations are joined into it.\<close>

fun changes_under :: "('k \<Rightarrow> 'k \<Rightarrow> 'k) \<Rightarrow> 'k \<Rightarrow> 'k list \<Rightarrow> nat" where
  "changes_under join t [] = 0"
| "changes_under join t (ob # obs) =
     (let t' = join t ob in (if t' \<noteq> t then 1 else 0) + changes_under join t' obs)"

section \<open>Interface: a widening join\<close>

text \<open>
  What the inference fixpoint relies on when it joins the observed kinds of a slot into it
  one at a time: the result covers both operands, and a slot that changes climbs a rank of
  bounded height.
\<close>

locale widening_join =
  fixes join :: "'k \<Rightarrow> 'k \<Rightarrow> 'k"
    and le :: "'k \<Rightarrow> 'k \<Rightarrow> bool"
    and rank :: "'k \<Rightarrow> nat"
    and height :: nat
  assumes le_refl: "le a a"
    and le_trans: "le a b \<Longrightarrow> le b c \<Longrightarrow> le a c"
    and join_ge_left: "le a (join a b)"
    and join_ge_right: "le b (join a b)"
    and rank_strict: "le a b \<Longrightarrow> a \<noteq> b \<Longrightarrow> rank a < rank b"
    and rank_le_height: "rank a \<le> height"
begin

lemma slot_covers_start: "le t (foldl join t obs)"
  by (induction obs arbitrary: t) (auto intro: le_refl le_trans join_ge_left)

lemma slot_covers: "ob \<in> set obs \<Longrightarrow> le ob (foldl join t obs)"
  by (induction obs arbitrary: t) (auto intro: le_trans [OF join_ge_right slot_covers_start])

lemma changes_rank: "changes_under join t obs + rank t \<le> height"
proof (induction obs arbitrary: t)
  case Nil
  then show ?case by (simp add: rank_le_height)
next
  case (Cons ob obs)
  have "join t ob \<noteq> t \<Longrightarrow> rank t < rank (join t ob)"
    using rank_strict [OF join_ge_left] by metis
  with Cons.IH [of "join t ob"] show ?case by (auto simp: Let_def)
qed

lemma changes_bounded: "changes_under join t obs \<le> height"
  using changes_rank [of t obs] by simp

end

section \<open>Strings and tables\<close>

lemma sp_streq_iff [simp]: "sp_streq a b \<longleftrightarrow> a = b"
  by (induction a b rule: sp_streq.induct) auto

lemma sp_strnhash_all: "length s \<le> n \<Longrightarrow> sp_strnhash s n = sp_strhash s"
  by (simp add: sp_strnhash_def sp_strhash_def)

lemmas pf_defs = PF_STRING_def PF_ARRAY_def PF_ENUM_def PF_HASH_def PF_INT_def PF_FLOAT_def
  PF_RANGE_def PF_FRANGE_def PF_SRANGE_def PF_RANDOM_def PF_TRANGE_def PF_OWNERS_def PF_MUT_def
  PF_STR_BANG_def PF_STR_SELF_def PF_ARGS_OWN_def PF_VAL_SELF_def PF_LAST_def PF_SAME_OK_def
  PF_ENC_def

lemma face_owners_loop_fold:
  "face_owners_loop rs nm argc hb pl wl own =
     own OR foldr (\<lambda>r acc. pf_flags r OR acc)
       (filter (\<lambda>r. nm = pf_name r \<and> (wl \<or> pf_flags r AND PF_LAST = 0) \<and>
          face_row_matches r argc hb pl) rs) 0"
  by (induction rs arbitrary: own) (auto simp: ac_simps)

lemma face_owner_flags_loop_fold:
  "face_owner_flags_loop rs nm argc hb pl owner fl =
     fl OR foldr (\<lambda>r acc. pf_flags r OR acc)
       (filter (\<lambda>r. pf_flags r AND owner \<noteq> 0 \<and> nm = pf_name r \<and>
          face_row_matches r argc hb pl) rs) 0"
  by (induction rs arbitrary: fl) (auto simp: ac_simps)

lemma bit_foldr_or:
  "bit (foldr (\<lambda>r acc. f r OR acc) rs (0 :: 32 word)) n \<longleftrightarrow> (\<exists>r \<in> set rs. bit (f r) n)"
  by (induction rs) (auto simp: bit_or_iff)

lemma word_and_eq_0_iff: "(x :: 32 word) AND y = 0 \<longleftrightarrow> (\<forall>n. \<not> (bit x n \<and> bit y n))"
proof
  assume "x AND y = 0"
  then have "\<not> bit (x AND y) n" for n by simp
  then show "\<forall>n. \<not> (bit x n \<and> bit y n)" by (simp only: bit_and_iff) simp
next
  assume h: "\<forall>n. \<not> (bit x n \<and> bit y n)"
  show "x AND y = 0" by (rule bit_eqI) (simp only: bit_and_iff h bit_0_eq bot_fun_def bot_bool_def HOL.simp_thms)
qed

lemma foldr_or_and_eq_0:
  "foldr (\<lambda>r acc. f r OR acc) rs 0 AND (m :: 32 word) = 0 \<longleftrightarrow> (\<forall>r \<in> set rs. f r AND m = 0)"
  by (induction rs) (auto simp: word_and_eq_0_iff bit_or_iff)

section \<open>The join\<close>

lemma ty_is_object_simps [simp]:
  "\<not> ty_is_object TY_UNKNOWN" "\<not> ty_is_object TY_NIL" "\<not> ty_is_object TY_POLY"
  "\<not> ty_is_object TY_INT" "\<not> ty_is_object TY_BIGINT" "\<not> ty_is_object TY_FLOAT"
  "\<not> ty_is_object TY_STRING" "\<not> ty_is_object TY_STRBUF" "\<not> ty_is_object TY_POLY_ARRAY"
  "\<not> ty_is_object TY_EXCEPTION" "\<not> ty_is_object TY_IO"
  by (simp_all add: ty_is_object_def TY_OBJECT_BASE_def)

text \<open>The join in one equation: the kinds that nil joins without widening, then the rest.\<close>

lemma ty_unify_cases:
  "ty_unify a b =
     (if ty_le b a \<and> \<not> (a = TY_BIGINT \<and> b = TY_NIL) then a
      else if ty_le a b \<and> \<not> (b = TY_BIGINT \<and> a = TY_NIL) then b
      else TY_POLY)"
  by (auto simp: ty_unify_def ty_le_def ty_nilable_def)

lemma ty_le_refl [simp]: "ty_le a a"
  by (simp add: ty_le_def)

lemma ty_le_trans: "ty_le a b \<Longrightarrow> ty_le b c \<Longrightarrow> ty_le a c"
  by (auto simp: ty_le_def ty_nilable_def)

lemma ty_le_antisym: "ty_le a b \<Longrightarrow> ty_le b a \<Longrightarrow> a = b"
  by (auto simp: ty_le_def ty_nilable_def)

lemma ty_le_POLY [simp]: "ty_le a TY_POLY"
  by (simp add: ty_le_def)

lemma ty_unify_ge_left: "ty_le a (ty_unify a b)"
  by (auto simp: ty_unify_cases)

lemma ty_rank_mono: "ty_le a b \<Longrightarrow> a \<noteq> b \<Longrightarrow> ty_rank a < ty_rank b"
  by (auto simp: ty_le_def ty_rank_def ty_nilable_def)

lemma ty_rank_le: "ty_rank t \<le> 4"
  by (simp add: ty_rank_def)

lemma ty_le_incomparable:
  "ty_le a c \<Longrightarrow> ty_le b c \<Longrightarrow> \<not> ty_le a b \<Longrightarrow> \<not> ty_le b a \<Longrightarrow> c = TY_POLY"
  by (auto simp: ty_le_def ty_nilable_def)

lemma ty_unify_sym: "ty_unify a b = ty_unify b a"
  using ty_le_antisym [of a b] by (auto simp: ty_unify_cases)

text \<open>
  C6: The join of two observed kinds covers both and is the narrowest kind that does, in the
  order in which nil fits the slots with a spare nil, an Integer a Bignum slot and a String
  its handle; the one pair left out is nil with a Bignum, which widens to the boxed kind.
\<close>
theorem ty_unify_least_upper_bound:
  assumes "ty_le a c" and "ty_le b c" and "{a, b} \<noteq> {TY_NIL, TY_BIGINT}"
  shows "ty_le a (ty_unify a b) \<and> ty_le b (ty_unify a b) \<and> ty_le (ty_unify a b) c"
proof -
  have "ty_le (ty_unify a b) c"
    using assms ty_le_incomparable [OF assms(1,2)] by (auto simp: ty_unify_cases)
  moreover have "ty_le b (ty_unify a b)"
    by (auto simp: ty_unify_cases)
  ultimately show ?thesis by (simp add: ty_unify_ge_left)
qed

interpretation unify: widening_join ty_unify ty_le ty_rank 4
proof unfold_locales
  show "ty_le b (ty_unify a b)" for a b
    using ty_unify_ge_left [of b a] by (simp add: ty_unify_sym)
qed (auto simp: ty_rank_le intro: ty_le_trans ty_unify_ge_left ty_rank_mono)

lemma ty_promote_cases:
  "ty_promote_numeric a b =
     (if ty_is_numeric a \<and> ty_is_numeric b
      then (if ty_le_num b a then a else if ty_le_num a b then b else TY_BIGINT)
      else ty_unify a b)"
  by (auto simp: ty_promote_numeric_def ty_is_numeric_def ty_le_num_def ty_le_def ty_nilable_def
      ty_unify_def)

lemma ty_promote_ge: "ty_le_num a (ty_promote_numeric a b)" "ty_le_num b (ty_promote_numeric a b)"
  using unify.join_ge_left [of a b] unify.join_ge_right [of b a]
  by (auto simp: ty_promote_cases ty_le_num_def ty_is_numeric_def ty_le_def)

interpretation promote: widening_join ty_promote_numeric ty_le_num ty_rank_num 5
proof unfold_locales
  show "ty_le_num a b \<Longrightarrow> ty_le_num b c \<Longrightarrow> ty_le_num a c" for a b c
    by (auto simp: ty_le_num_def ty_le_def ty_nilable_def)
  show "ty_le_num a b \<Longrightarrow> a \<noteq> b \<Longrightarrow> ty_rank_num a < ty_rank_num b" for a b
    by (auto simp: ty_le_num_def ty_rank_num_def ty_rank_def ty_le_def ty_nilable_def)
  show "ty_rank_num a \<le> 5" for a
    by (simp add: ty_rank_num_def ty_rank_def)
  show "ty_le_num a a" for a by (simp add: ty_le_num_def)
qed (rule ty_promote_ge)+

theorem ty_unify_least_upper_bound_witness:
  "ty_le TY_NIL TY_STRBUF \<and> ty_le TY_STRING TY_STRBUF \<and>
   ty_le (ty_unify TY_NIL TY_STRING) TY_STRBUF"
proof -
  have h: "ty_le TY_NIL TY_STRBUF" "ty_le TY_STRING TY_STRBUF" "{TY_NIL, TY_STRING} \<noteq> {TY_NIL, TY_BIGINT}"
    by (auto simp: ty_le_def ty_nilable_def)
  show ?thesis using h ty_unify_least_upper_bound [OF h] by simp
qed

text \<open>
  C23: A slot into which observed kinds are joined one at a time changes its kind at most
  four times under ty_unify and at most five under ty_promote_numeric, whatever the
  observations: the per-slot part of the convergence of the inference fixpoint.
\<close>
theorem slot_settles:
  "changes_under ty_unify t obs \<le> 4 \<and> changes_under ty_promote_numeric t obs \<le> 5"
  by (simp add: unify.changes_bounded promote.changes_bounded)

text \<open>
  C24: After any sequence of joins the slot's kind covers every kind that was observed: no
  observation is lost by a later one.
\<close>
theorem slot_covers_observations:
  assumes "ob \<in> set obs"
  shows "ty_le ob (foldl ty_unify t obs)"
  using assms by (rule unify.slot_covers)

theorem slot_covers_observations_witness:
  "TY_NIL \<in> set [TY_INT, TY_NIL, TY_BIGINT] \<and>
   ty_le TY_NIL (foldl ty_unify TY_UNKNOWN [TY_INT, TY_NIL, TY_BIGINT])"
proof -
  have h: "TY_NIL \<in> set [TY_INT, TY_NIL, TY_BIGINT]" by simp
  show ?thesis using h slot_covers_observations [OF h, of TY_UNKNOWN] by simp
qed












section \<open>Encodings and tables\<close>

lemma length_ty_enumerators: "length ty_enumerators = 54"
  by (simp add: ty_enumerators_def)

lemma ty_object_TyCode: "0 \<le> c \<Longrightarrow> ty_object c = TyCode (1000 + c)"
  by (simp add: ty_object_def ty_of_int_def length_ty_enumerators TY_OBJECT_BASE_def)

lemma ty_obj_array_TyCode: "0 \<le> c \<Longrightarrow> ty_obj_array c = TyCode (1000000 + c)"
  by (simp add: ty_obj_array_def ty_of_int_def length_ty_enumerators TY_OBJ_ARRAY_BASE_def)

lemmas ty_code_defs = ty_is_object_def ty_is_obj_array_def ty_object_class_def
  ty_obj_array_class_def TY_OBJECT_BASE_def TY_OBJ_ARRAY_BASE_def

text \<open>
  A class index below 999000 survives the encoding of a user object kind and of an
  object array kind: the object kind is recognised as an object and not as an object array,
  gives back the index, and is the element kind of the object array of that index.
\<close>
theorem ty_object_encoding:
  assumes "0 \<le> c" and "c < 999000"
  shows "ty_is_object (ty_object c) \<and> \<not> ty_is_obj_array (ty_object c) \<and>
    ty_object_class (ty_object c) = c \<and>
    ty_is_obj_array (ty_obj_array c) \<and> ty_array_elem (ty_obj_array c) = ty_object c"
  using assms by (simp add: ty_object_TyCode ty_obj_array_TyCode ty_code_defs ty_array_elem_def)

theorem ty_object_encoding_witness:
  "ty_is_object (ty_object 7) \<and> ty_object_class (ty_object 7) = 7"
  using ty_object_encoding [of 7] by simp

lemma hash_rowE:
  assumes "hash_row h = Some (k, ky, v, c)"
  obtains "h = k" "(k, ky, v, c) \<in> set hash_tbl"
  using assms that unfolding hash_row_def find_Some_iff by (metis fst_conv nth_mem)

text \<open>
  A kind is a Hash kind exactly when looking up the Hash kind of its key and value
  kinds gives it back.
\<close>
theorem ty_hash_roundtrip:
  "ty_is_hash h \<longleftrightarrow> h \<noteq> TY_UNKNOWN \<and> ty_hash_of (ty_hash_key h) (ty_hash_val h) = h"
proof
  assume "ty_is_hash h"
  then obtain k ky v c where "hash_row h = Some (k, ky, v, c)" and "h = k"
    and "(k, ky, v, c) \<in> set hash_tbl"
    unfolding ty_is_hash_def by (metis hash_rowE not_None_eq prod_cases4)
  then show "h \<noteq> TY_UNKNOWN \<and> ty_hash_of (ty_hash_key h) (ty_hash_val h) = h"
    by (auto simp: hash_tbl_def ty_hash_of_def ty_hash_key_def ty_hash_val_def)
next
  assume "h \<noteq> TY_UNKNOWN \<and> ty_hash_of (ty_hash_key h) (ty_hash_val h) = h"
  then show "ty_is_hash h"
    by (auto simp: ty_is_hash_def ty_hash_key_def ty_hash_val_def ty_hash_of_def hash_tbl_def
        split: option.splits)
qed

section \<open>The face table\<close>

lemma foldr_or_eq_0:
  "foldr (\<lambda>r acc. f r OR acc) rs 0 = (0 :: 32 word) \<longleftrightarrow> (\<forall>r \<in> set rs. f r = 0)"
  using foldr_or_and_eq_0 [of f rs "- 1"] by simp

lemma foldr_or_mono:
  assumes "set rs \<subseteq> set qs"
  shows "foldr (\<lambda>r acc. f r OR acc) rs 0 OR foldr (\<lambda>r acc. f r OR acc) qs 0 =
    (foldr (\<lambda>r acc. f r OR acc) qs 0 :: 32 word)"
  using assms by (intro bit_eqI) (auto simp: bit_or_iff bit_foldr_or)

text \<open>
  The two readers of the face table agree: an owner is among the owners of a name at a
  call shape exactly when its own flags there are nonempty, and leaving the last-resort rows
  out only removes flags.
\<close>
theorem ty_poly_face_owner_consistent:
  "(ty_poly_face_owners name argc has_blk plain True AND owner = 0 \<longleftrightarrow>
      ty_poly_face_owner_flags name argc has_blk plain owner = 0) \<and>
   ty_poly_face_owners name argc has_blk plain False OR
      ty_poly_face_owners name argc has_blk plain True =
      ty_poly_face_owners name argc has_blk plain True"
proof (cases name)
  case (Some nm)
  have "ty_poly_face_owners name argc has_blk plain False OR
      ty_poly_face_owners name argc has_blk plain True =
      ty_poly_face_owners name argc has_blk plain True"
    unfolding ty_poly_face_owners_def Some option.case face_owners_loop_fold
    by (simp only: or.left_neutral, rule foldr_or_mono) auto
  then show ?thesis
    using Some by (auto simp: ty_poly_face_owners_def ty_poly_face_owner_flags_def
        face_owners_loop_fold face_owner_flags_loop_fold foldr_or_and_eq_0 foldr_or_eq_0)
qed (simp add: ty_poly_face_owners_def ty_poly_face_owner_flags_def)

lemma face_tbl_bang_names:
  "list_all (\<lambda>r. pf_flags r AND PF_STR_BANG \<noteq> 0 \<longrightarrow> pf_name r \<noteq> [] \<and> last (pf_name r) = CHR ''!'')
     ty_poly_face_tbl"
  by (simp add: ty_poly_face_tbl_def face_def pf_defs)

lemma str_bang_loop_last:
  assumes "list_all (\<lambda>r. pf_flags r AND PF_STR_BANG \<noteq> 0 \<longrightarrow>
    pf_name r \<noteq> [] \<and> last (pf_name r) = CHR ''!'') rs"
  shows "str_bang_loop rs n \<noteq> 0 \<Longrightarrow> n \<noteq> [] \<and> last n = CHR ''!''"
  using assms by (induction rs) (auto split: if_splits)

lemma ty_str_typed_bang_last:
  "ty_str_typed_bang_flags (Some b) \<noteq> 0 \<Longrightarrow> b \<noteq> [] \<and> last b = CHR ''!''"
  using str_bang_loop_last [OF face_tbl_bang_names, of b]
  by (auto simp: ty_str_typed_bang_flags_def ty_str_bang_flags_def Let_def split: if_splits)

text \<open>
  For every name with String bang flags, the plain name is the name without its final
  exclamation mark whenever the buffer is at least as long as the name.
\<close>
theorem str_bang_plain_of_bang:
  assumes "ty_str_typed_bang_flags (Some b) \<noteq> 0" and "int (length b) \<le> n"
  shows "\<exists>p. b = p @ ''!'' \<and> str_bang_plain (Some b) n = Some p"
proof -
  from assms(1) have b: "b \<noteq> []" "last b = CHR ''!''"
    using ty_str_typed_bang_last by blast+
  then have "b = butlast b @ ''!''" by (metis append_butlast_last_id)
  moreover have "str_bang_plain (Some b) n = Some (butlast b)"
    using b assms(2) length_greater_0_conv [of b]
    by (auto simp: str_bang_plain_def Let_def last_conv_nth butlast_conv_take simp del: length_greater_0_conv)
  ultimately show ?thesis by blast
qed

theorem str_bang_plain_of_bang_witness:
  "ty_str_typed_bang_flags (Some ''chomp!'') \<noteq> 0 \<and>
   (\<exists>p. ''chomp!'' = p @ ''!'' \<and> str_bang_plain (Some ''chomp!'') 16 = Some p)"
proof -
  have f: "ty_str_typed_bang_flags (Some ''chomp!'') \<noteq> 0"
    by (simp add: ty_str_typed_bang_flags_def ty_str_bang_flags_def ty_poly_face_tbl_def face_def pf_defs)
  show ?thesis using f str_bang_plain_of_bang [OF f, of 16] by simp
qed

text \<open>Every row of the table names an owner; the last-resort rows are the Hash's, open to any shape.\<close>

lemma face_tbl_wf:
  "list_all (\<lambda>r. pf_flags r AND PF_OWNERS \<noteq> 0 \<and>
     (pf_flags r AND PF_LAST \<noteq> 0 \<longrightarrow>
        pf_flags r = (PF_HASH OR PF_LAST) \<and> argc_min r = 0 \<and> argc_max r = - 1 \<and> pf_blk r = - 1))
     ty_poly_face_tbl"
  by (simp add: ty_poly_face_tbl_def face_def pf_defs)

lemma hash_face_loop_iff:
  "hash_face_loop rs nm \<longleftrightarrow>
     (\<exists>r \<in> set rs. pf_flags r AND PF_HASH \<noteq> 0 \<and> pf_flags r AND PF_LAST \<noteq> 0 \<and> nm = pf_name r)"
  by (induction rs) auto

text \<open>
  A name the read-only Hash face answers by name alone is owned by Hash at every call
  shape: any count of arguments, with or without a block, plain or splatted.
\<close>
theorem ty_poly_hash_face_any_shape:
  assumes "ty_poly_hash_face_name (Some nm)" and "0 \<le> argc"
  shows "ty_poly_face_owners (Some nm) argc has_blk plain True AND PF_HASH \<noteq> 0"
proof -
  from assms(1) obtain r where r: "r \<in> set ty_poly_face_tbl" "nm = pf_name r"
    "pf_flags r AND PF_HASH \<noteq> 0" "pf_flags r AND PF_LAST \<noteq> 0"
    by (auto simp: ty_poly_hash_face_name_def hash_face_loop_iff)
  with face_tbl_wf have "argc_min r = 0" "argc_max r = - 1" "pf_blk r = - 1"
    by (auto simp: list_all_iff)
  with assms(2) have "face_row_matches r argc has_blk plain"
    by (simp add: face_row_matches_def)
  with r show ?thesis
    by (auto simp: ty_poly_face_owners_def face_owners_loop_fold foldr_or_and_eq_0)
qed

theorem ty_poly_hash_face_any_shape_witness:
  "ty_poly_hash_face_name (Some ''dig'') \<and>
   ty_poly_face_owners (Some ''dig'') 3 False True True AND PF_HASH \<noteq> 0"
proof -
  have f: "ty_poly_hash_face_name (Some ''dig'')"
    by (simp add: ty_poly_hash_face_name_def ty_poly_face_tbl_def face_def pf_defs)
  show ?thesis using f ty_poly_hash_face_any_shape [OF f, of 3 False True] by simp
qed

end
