(* ===== verification/Sha256.thy ===== *)
theory Sha256
  imports Prelude
begin

unbundle bit_operations_syntax

text \<open>
  The compiler's own SHA-256 (\<^verbatim>\<open>src/sha256.h\<close>, \<^verbatim>\<open>src/sha256.c\<close>), which names the cached
  C units. The record \<open>Sha256\<close> is the C struct: eight state words, the count of bytes
  absorbed (it wraps at 64 bits), and a 64-byte buffer of which the first \<open>nbuf\<close> bytes are
  pending. \<open>sha256_block\<close>, \<open>sha256_init\<close>, \<open>sha256_update\<close>, \<open>sha256_final\<close> and \<open>sha256_hex\<close> are
  the functions of the same names.

  The reference definition is the standard's shape: pad the whole message, fold the block
  function over it. The locale \<open>stream_hash\<close> states what a client of an incremental hash
  relies on, and its interpretation shows that the buffered code implements the reference for
  every way of cutting a message into updates.
\<close>

type_synonym byte = "8 word"

definition sha256_k :: "32 word list" where
  "sha256_k = concat [
     [0x428a2f98, 0x71374491, 0xb5c0fbcf, 0xe9b5dba5, 0x3956c25b, 0x59f111f1],
     [0x923f82a4, 0xab1c5ed5, 0xd807aa98, 0x12835b01, 0x243185be, 0x550c7dc3],
     [0x72be5d74, 0x80deb1fe, 0x9bdc06a7, 0xc19bf174, 0xe49b69c1, 0xefbe4786],
     [0x0fc19dc6, 0x240ca1cc, 0x2de92c6f, 0x4a7484aa, 0x5cb0a9dc, 0x76f988da],
     [0x983e5152, 0xa831c66d, 0xb00327c8, 0xbf597fc7, 0xc6e00bf3, 0xd5a79147],
     [0x06ca6351, 0x14292967, 0x27b70a85, 0x2e1b2138, 0x4d2c6dfc, 0x53380d13],
     [0x650a7354, 0x766a0abb, 0x81c2c92e, 0x92722c85, 0xa2bfe8a1, 0xa81a664b],
     [0xc24b8b70, 0xc76c51a3, 0xd192e819, 0xd6990624, 0xf40e3585, 0x106aa070],
     [0x19a4c116, 0x1e376c08, 0x2748774c, 0x34b0bcb5, 0x391c0cb3, 0x4ed8aa4a],
     [0x5b9cca4f, 0x682e6ff3, 0x748f82ee, 0x78a5636f, 0x84c87814, 0x8cc70208],
     [0x90befffa, 0xa4506ceb, 0xbef9a3f7, 0xc67178f2]]"

definition ror :: "32 word \<Rightarrow> nat \<Rightarrow> 32 word" where
  "ror x n = drop_bit n x OR push_bit (32 - n) x"

definition sha256_word :: "byte list \<Rightarrow> nat \<Rightarrow> 32 word" where
  "sha256_word b i =
     push_bit 24 (ucast (b ! (4 * i))) OR push_bit 16 (ucast (b ! (4 * i + 1))) OR
     push_bit 8 (ucast (b ! (4 * i + 2))) OR ucast (b ! (4 * i + 3))"

definition sha256_sched_step :: "32 word list \<Rightarrow> nat \<Rightarrow> 32 word list" where
  "sha256_sched_step w i =
     (let s0 = ror (w ! (i - 15)) 7 XOR ror (w ! (i - 15)) 18 XOR drop_bit 3 (w ! (i - 15));
          s1 = ror (w ! (i - 2)) 17 XOR ror (w ! (i - 2)) 19 XOR drop_bit 10 (w ! (i - 2))
      in w @ [w ! (i - 16) + s0 + w ! (i - 7) + s1])"

type_synonym sha_regs =
  "32 word \<times> 32 word \<times> 32 word \<times> 32 word \<times> 32 word \<times> 32 word \<times> 32 word \<times> 32 word"

definition sha256_round :: "32 word list \<Rightarrow> sha_regs \<Rightarrow> nat \<Rightarrow> sha_regs" where
  "sha256_round w r i =
     (case r of (a, bb, c, d, e, f, g, hh) \<Rightarrow>
        let t1 = hh + (ror e 6 XOR ror e 11 XOR ror e 25) + ((e AND f) XOR (NOT e AND g)) +
                 sha256_k ! i + w ! i;
            t2 = (ror a 2 XOR ror a 13 XOR ror a 22) + ((a AND bb) XOR (a AND c) XOR (bb AND c))
        in (t1 + t2, a, bb, c, d + t1, e, f, g))"

definition sha256_block :: "32 word list \<Rightarrow> byte list \<Rightarrow> 32 word list" where
  "sha256_block h b =
     (let w = foldl sha256_sched_step (map (sha256_word b) [0..<16]) [16..<64]
      in case foldl (sha256_round w) (h ! 0, h ! 1, h ! 2, h ! 3, h ! 4, h ! 5, h ! 6, h ! 7) [0..<64]
         of (a, bb, c, d, e, f, g, hh) \<Rightarrow>
           [h ! 0 + a, h ! 1 + bb, h ! 2 + c, h ! 3 + d, h ! 4 + e, h ! 5 + f, h ! 6 + g, h ! 7 + hh])"

record Sha256 =
  sha_h :: "32 word list"
  sha_len :: "64 word"
  sha_buf :: "byte list"
  sha_nbuf :: nat

definition sha256_iv :: "32 word list" where
  "sha256_iv =
     [0x6a09e667, 0xbb67ae85, 0x3c6ef372, 0xa54ff53a, 0x510e527f, 0x9b05688c, 0x1f83d9ab, 0x5be0cd19]"

text \<open>\<open>sha256_init\<close> leaves the buffer's bytes as the caller's memory has them.\<close>

definition sha256_init :: "Sha256 \<Rightarrow> Sha256" where
  "sha256_init s = s\<lparr>sha_h := sha256_iv, sha_len := 0, sha_nbuf := 0\<rparr>"

text \<open>\<open>memcpy_at dst off src\<close>: the bytes of \<open>dst\<close> after \<open>src\<close> was copied over it at \<open>off\<close>.\<close>

definition memcpy_at :: "'a list \<Rightarrow> nat \<Rightarrow> 'a list \<Rightarrow> 'a list" where
  "memcpy_at dst off src = take off dst @ src @ drop (off + length src) dst"

fun sha256_blocks :: "32 word list \<Rightarrow> byte list \<Rightarrow> 32 word list \<times> byte list" where
  "sha256_blocks h q =
     (if length q \<ge> 64 then sha256_blocks (sha256_block h (take 64 q)) (drop 64 q) else (h, q))"

definition sha256_update :: "Sha256 \<Rightarrow> byte list \<Rightarrow> Sha256" where
  "sha256_update s p =
     (let n = length p;
          s = s\<lparr>sha_len := sha_len s + of_nat n\<rparr>;
          k = (if sha_nbuf s \<noteq> 0 then (if 64 - sha_nbuf s < n then 64 - sha_nbuf s else n) else 0);
          s = (if sha_nbuf s \<noteq> 0
               then s\<lparr>sha_buf := memcpy_at (sha_buf s) (sha_nbuf s) (take k p),
                      sha_nbuf := sha_nbuf s + k\<rparr>
               else s)
      in if sha_nbuf s \<noteq> 0 \<and> sha_nbuf s < 64 then s
         else
           (let s = (if sha_nbuf s \<noteq> 0
                     then s\<lparr>sha_h := sha256_block (sha_h s) (sha_buf s), sha_nbuf := 0\<rparr> else s);
                (h, q) = sha256_blocks (sha_h s) (drop k p)
            in s\<lparr>sha_h := h, sha_buf := memcpy_at (sha_buf s) 0 q, sha_nbuf := length q\<rparr>))"

definition sha256_pad :: "Sha256 \<Rightarrow> byte list" where
  "sha256_pad s =
     (let bits = sha_len s * 8;
          np = (if sha_nbuf s < 56 then 56 else 120) - sha_nbuf s;
          pad = 0x80 # replicate 71 0
      in take (np + 8)
           (memcpy_at pad np (map (\<lambda>i. ucast (drop_bit (56 - 8 * i) bits)) [0..<8])))"

definition sha256_out :: "32 word list \<Rightarrow> byte list" where
  "sha256_out h =
     concat (map (\<lambda>i. [ucast (drop_bit 24 (h ! i)), ucast (drop_bit 16 (h ! i)),
                       ucast (drop_bit 8 (h ! i)), ucast (h ! i)]) [0..<8])"

definition sha256_final :: "Sha256 \<Rightarrow> byte list" where
  "sha256_final s = sha256_out (sha_h (sha256_update s (sha256_pad s)))"

definition hex_digit :: "byte \<Rightarrow> char" where
  "hex_digit d = ''0123456789abcdef'' ! unat d"

definition sha256_hex :: "Sha256 \<Rightarrow> byte list \<Rightarrow> string" where
  "sha256_hex s p =
     concat (map (\<lambda>d. [hex_digit (drop_bit 4 d), hex_digit (d AND 15)])
       (sha256_final (sha256_update (sha256_init s) p)))"

declare sha256_blocks.simps [simp del]

section \<open>The reference: pad the whole message, fold the block function\<close>

definition be_bytes :: "64 word \<Rightarrow> byte list" where
  "be_bytes n = map (\<lambda>i. ucast (drop_bit (56 - 8 * i) n)) [0..<8]"

definition md_padding :: "nat \<Rightarrow> byte list" where
  "md_padding n = 0x80 # replicate ((119 - n mod 64) mod 64) 0 @ be_bytes (of_nat (8 * n))"

definition md_chunks :: "byte list \<Rightarrow> byte list list" where
  "md_chunks m = map (\<lambda>i. take 64 (drop (64 * i) m)) [0..<length m div 64]"

definition sha256_spec :: "byte list \<Rightarrow> byte list" where
  "sha256_spec m =
     sha256_out (foldl sha256_block sha256_iv (md_chunks (m @ md_padding (length m))))"

section \<open>What a client of an incremental hash relies on\<close>

locale stream_hash =
  fixes start :: "'s \<Rightarrow> bool"
    and upd :: "'s \<Rightarrow> 'b list \<Rightarrow> 's"
    and fin :: "'s \<Rightarrow> 'd"
    and rep :: "'s \<Rightarrow> 'b list \<Rightarrow> bool"
    and spec :: "'b list \<Rightarrow> 'd"
  assumes rep_start: "start s \<Longrightarrow> rep s []"
    and rep_upd: "rep s m \<Longrightarrow> rep (upd s x) (m @ x)"
    and fin_rep: "rep s m \<Longrightarrow> fin s = spec m"
begin

lemma rep_foldl: "rep s m \<Longrightarrow> rep (foldl upd s xs) (m @ concat xs)"
proof (induction xs arbitrary: s m)
  case (Cons x xs)
  then show ?case using rep_upd [OF Cons.prems, of x] Cons.IH [of "upd s x" "m @ x"] by simp
qed simp

lemma chunked: "start s \<Longrightarrow> fin (foldl upd s xs) = spec (concat xs)"
  using fin_rep [OF rep_foldl [OF rep_start]] by simp

lemma chunking_irrelevant:
  "start s \<Longrightarrow> start t \<Longrightarrow> concat xs = concat ys \<Longrightarrow>
     fin (foldl upd s xs) = fin (foldl upd t ys)"
  by (simp add: chunked)

end

section \<open>The buffered code implements the reference\<close>

lemma sha256_blocks_short: "length q < 64 \<Longrightarrow> sha256_blocks h q = (h, q)"
  by (simp add: sha256_blocks.simps)

lemma sha256_blocks_long:
  "length b = 64 \<Longrightarrow> sha256_blocks h (b @ q) = sha256_blocks (sha256_block h b) q"
  by (subst sha256_blocks.simps) simp

lemma sha256_blocks_append:
  "sha256_blocks h x = (h', r) \<Longrightarrow> sha256_blocks h (x @ y) = sha256_blocks h' (r @ y)"
proof (induction h x arbitrary: h' r rule: sha256_blocks.induct)
  case (1 h q)
  show ?case
  proof (cases "length q \<ge> 64")
    case True
    then have "sha256_blocks (sha256_block h (take 64 q)) (drop 64 q) = (h', r)"
      using "1.prems" by (subst (asm) sha256_blocks.simps) simp
    with "1.IH" True have "sha256_blocks (sha256_block h (take 64 q)) (drop 64 q @ y) =
        sha256_blocks h' (r @ y)" by simp
    moreover have "sha256_blocks h (take 64 q @ (drop 64 q @ y)) =
        sha256_blocks (sha256_block h (take 64 q)) (drop 64 q @ y)"
      using True by (intro sha256_blocks_long) simp
    ultimately show ?thesis
      by (metis append.assoc append_take_drop_id)
  next
    case False
    then show ?thesis using "1.prems" by (simp add: sha256_blocks_short)
  qed
qed

lemma sha256_blocks_rest: "sha256_blocks h q = (h', r) \<Longrightarrow> length r < 64"
proof (induction h q arbitrary: h' r rule: sha256_blocks.induct)
  case (1 h q)
  then show ?case by (subst (asm) (2) sha256_blocks.simps) (auto split: if_splits)
qed

lemma md_chunks_Nil: "length m < 64 \<Longrightarrow> md_chunks m = []"
  by (simp add: md_chunks_def)

lemma md_chunks_Cons: "64 \<le> length m \<Longrightarrow> md_chunks m = take 64 m # md_chunks (drop 64 m)"
proof -
  assume "64 \<le> length m"
  then have "length m div 64 = Suc ((length m - 64) div 64)"
    by (simp add: le_div_geq)
  then show ?thesis
    by (simp add: md_chunks_def upt_conv_Cons map_Suc_upt [symmetric] add.commute del: upt_Suc)
qed

lemma fst_sha256_blocks: "fst (sha256_blocks h m) = foldl sha256_block h (md_chunks m)"
proof (induction h m rule: sha256_blocks.induct)
  case (1 h q)
  then show ?case
    by (subst sha256_blocks.simps) (simp add: md_chunks_Cons md_chunks_Nil)
qed

definition sha_rep :: "Sha256 \<Rightarrow> byte list \<Rightarrow> bool" where
  "sha_rep s m \<longleftrightarrow> length (sha_buf s) = 64 \<and> sha_nbuf s < 64 \<and>
     sha_len s = of_nat (length m) \<and>
     sha256_blocks sha256_iv m = (sha_h s, take (sha_nbuf s) (sha_buf s))"

lemma memcpy_at_length: "off + length x \<le> length d \<Longrightarrow> length (memcpy_at d off x) = length d"
  by (simp add: memcpy_at_def)

lemma memcpy_at_take:
  "off + length x \<le> length d \<Longrightarrow> take (off + length x) (memcpy_at d off x) = take off d @ x"
  by (simp add: memcpy_at_def)

text \<open>The three ways through an update.\<close>

lemma sha256_update_empty:
  "sha_nbuf s = 0 \<Longrightarrow> sha256_update s p =
     (let (h, q) = sha256_blocks (sha_h s) p
      in s\<lparr>sha_len := sha_len s + of_nat (length p), sha_h := h,
           sha_buf := memcpy_at (sha_buf s) 0 q, sha_nbuf := length q\<rparr>)"
  by (simp add: sha256_update_def)

lemma sha256_update_part:
  "sha_nbuf s \<noteq> 0 \<Longrightarrow> sha_nbuf s + length p < 64 \<Longrightarrow> sha256_update s p =
     s\<lparr>sha_len := sha_len s + of_nat (length p),
       sha_buf := memcpy_at (sha_buf s) (sha_nbuf s) p, sha_nbuf := sha_nbuf s + length p\<rparr>"
  by (simp add: sha256_update_def Let_def)

lemma sha256_update_full:
  assumes "sha_nbuf s \<noteq> 0" "sha_nbuf s + k = 64" "k \<le> length p"
  shows "sha256_update s p =
     (let b = memcpy_at (sha_buf s) (sha_nbuf s) (take k p);
          (h, q) = sha256_blocks (sha256_block (sha_h s) b) (drop k p)
      in s\<lparr>sha_len := sha_len s + of_nat (length p), sha_h := h,
           sha_buf := memcpy_at b 0 q, sha_nbuf := length q\<rparr>)"
proof -
  have k: "64 - sha_nbuf s = k" using assms by simp
  show ?thesis
  proof (cases "k < length p")
    case True
    then show ?thesis using assms by (simp add: sha256_update_def Let_def k split: prod.splits)
  next
    case False
    then have "length p = k" using assms by simp
    then show ?thesis using assms by (simp add: sha256_update_def Let_def k split: prod.splits)
  qed
qed

text \<open>An update runs the block function over the pending bytes followed by the new ones.\<close>

lemma sha256_update_blocks:
  assumes buf: "length (sha_buf s) = 64" and n: "sha_nbuf s < 64"
    and bl: "sha256_blocks (sha_h s) (take (sha_nbuf s) (sha_buf s) @ p) = (h', r)"
  shows "sha_h (sha256_update s p) = h' \<and> length (sha_buf (sha256_update s p)) = 64 \<and>
    sha_nbuf (sha256_update s p) < 64 \<and> sha_len (sha256_update s p) = sha_len s + of_nat (length p) \<and>
    take (sha_nbuf (sha256_update s p)) (sha_buf (sha256_update s p)) = r"
proof -
  have r: "length r < 64" using bl by (rule sha256_blocks_rest)
  consider (empty) "sha_nbuf s = 0" | (part) "sha_nbuf s \<noteq> 0" "length p < 64 - sha_nbuf s"
    | (full) "sha_nbuf s \<noteq> 0" "64 - sha_nbuf s \<le> length p" by linarith
  then show ?thesis
  proof cases
    case empty
    then show ?thesis using buf bl r
      by (simp add: sha256_update_empty memcpy_at_length memcpy_at_take [where off = 0, simplified])
  next
    case part
    then have "h' = sha_h s" "r = take (sha_nbuf s) (sha_buf s) @ p"
      using bl buf by (auto simp: sha256_blocks_short)
    moreover have "sha_nbuf s + length p < 64" using part by simp
    ultimately show ?thesis using part buf n
      by (simp add: sha256_update_part memcpy_at_length memcpy_at_take)
  next
    case full
    define k where "k = 64 - sha_nbuf s"
    define b where "b = memcpy_at (sha_buf s) (sha_nbuf s) (take k p)"
    have lk: "length (take k p) = k" using full k_def by simp
    have b64: "length b = 64" using lk buf n by (simp add: b_def memcpy_at_length k_def)
    have bk: "b = take (sha_nbuf s) (sha_buf s) @ take k p"
      using memcpy_at_take [of "sha_nbuf s" "take k p" "sha_buf s"] lk buf n b64
      by (simp add: b_def k_def)
    have sum: "sha_nbuf s + k = 64" using n k_def by simp
    have "sha256_blocks (sha256_block (sha_h s) b) (drop k p) = (h', r)"
      using sha256_blocks_long [OF b64, of "sha_h s" "drop k p"] bl by (simp add: bk)
    moreover have "k \<le> length p" using full k_def by simp
    ultimately show ?thesis using full(1) b64 r sum
      by (simp add: sha256_update_full [where k = k] b_def [symmetric] Let_def
          memcpy_at_length memcpy_at_take [where off = 0, simplified])
  qed
qed

lemma sha_rep_init: "length (sha_buf s) = 64 \<Longrightarrow> sha_rep (sha256_init s) []"
  by (simp add: sha_rep_def sha256_init_def sha256_blocks_short)

lemma sha_rep_update:
  assumes "sha_rep s m"
  shows "sha_rep (sha256_update s x) (m @ x)"
proof -
  obtain h' r where bl: "sha256_blocks (sha_h s) (take (sha_nbuf s) (sha_buf s) @ x) = (h', r)"
    by fastforce
  with assms have "sha256_blocks sha256_iv (m @ x) = (h', r)"
    by (simp add: sha_rep_def sha256_blocks_append)
  then show ?thesis
    using sha256_update_blocks [OF _ _ bl] assms by (simp add: sha_rep_def)
qed

lemma sha256_blocks_len:
  "sha256_blocks h m = (h', r) \<Longrightarrow> length r = length m mod 64"
proof (induction h m arbitrary: h' r rule: sha256_blocks.induct)
  case (1 h q)
  then show ?case
    by (subst (asm) (2) sha256_blocks.simps) (auto split: if_splits simp: le_mod_geq)
qed

lemma sha_rep_nbuf: "sha_rep s m \<Longrightarrow> sha_nbuf s = length m mod 64"
  unfolding sha_rep_def using sha256_blocks_len by fastforce

lemma pad_prefix:
  "1 \<le> np \<Longrightarrow> np \<le> 64 \<Longrightarrow> length e = 8 \<Longrightarrow>
     take (np + 8) (memcpy_at (0x80 # replicate 71 0) np e) = (0x80 :: byte) # replicate (np - 1) 0 @ e"
  by (cases np) (simp_all add: memcpy_at_def take_Cons')

lemma sha256_pad_eq:
  assumes "sha_rep s m"
  shows "sha256_pad s = md_padding (length m)"
proof -
  define np where "np = (if sha_nbuf s < 56 then 56 else 120) - sha_nbuf s"
  have n: "sha_nbuf s < 64" "sha_nbuf s = length m mod 64" "sha_len s = of_nat (length m)"
    using sha_rep_nbuf [OF assms] assms by (simp_all add: sha_rep_def)
  have np: "1 \<le> np" "np \<le> 64" using n(1) by (auto simp: np_def)
  have "np - 1 = (119 - sha_nbuf s) mod 64" using n(1) by (auto simp: np_def le_mod_geq)
  moreover have "sha256_pad s = 0x80 # replicate (np - 1) 0 @ be_bytes (sha_len s * 8)"
    unfolding sha256_pad_def Let_def np_def [symmetric] be_bytes_def [symmetric]
    by (rule pad_prefix [OF np]) (simp add: be_bytes_def)
  ultimately show ?thesis using n by (simp add: md_padding_def mult.commute)
qed

lemma sha_rep_final: "sha_rep s m \<Longrightarrow> sha256_final s = sha256_spec m"
  using sha_rep_update [of s m "md_padding (length m)"]
    fst_sha256_blocks [of sha256_iv "m @ md_padding (length m)"]
  by (simp add: sha256_final_def sha256_spec_def sha256_pad_eq) (simp add: sha_rep_def)

definition sha_started :: "Sha256 \<Rightarrow> bool" where
  "sha_started s \<longleftrightarrow> length (sha_buf s) = 64 \<and> sha256_init s = s"

lemma sha_started_init: "length (sha_buf s) = 64 \<Longrightarrow> sha_started (sha256_init s)"
  by (simp add: sha_started_def sha256_init_def)

interpretation sha: stream_hash sha_started sha256_update sha256_final sha_rep sha256_spec
proof
  show "sha_rep s []" if "sha_started s" for s
    using that sha_rep_init [of s] by (simp add: sha_started_def)
qed (simp_all add: sha_rep_update sha_rep_final)

section \<open>Shape of the results\<close>

lemma pad_fill: "r < 64 \<Longrightarrow> 64 dvd 64 * q + r + 9 + (119 - r) mod (64 :: nat)"
proof (cases "r \<le> 55")
  case True
  then have "64 * q + r + 9 + (119 - r) mod 64 = 64 * (q + 1)" by (simp add: le_mod_geq)
  then show ?thesis by (rule dvdI)
next
  case False
  moreover assume "r < 64"
  ultimately have "64 * q + r + 9 + (119 - r) mod 64 = 64 * (q + 2)" by simp
  then show ?thesis by (rule dvdI)
qed

lemma md_padded_length: "64 dvd length (m @ md_padding (length m))"
  using pad_fill [of "length m mod 64" "length m div 64"]
  by (simp add: md_padding_def be_bytes_def ac_simps)

lemma sha256_out_length: "length (sha256_out h) = 32"
  by (simp add: sha256_out_def length_concat comp_def sum_list_triv)

lemma nibble_bound: "unat (drop_bit 4 (d :: byte)) < 16" "unat (d AND 15) < 16"
proof -
  have "unat d < 256" using unsigned_less [of d] by simp
  then show "unat (drop_bit 4 d) < 16"
    unfolding drop_bit_eq_div unat_div by simp
  have "(15 :: byte) = mask 4" by (simp add: mask_eq_exp_minus_1)
  then have "d AND 15 = take_bit 4 d" by (simp only: take_bit_eq_mask)
  then show "unat (d AND 15) < 16"
    by (simp add: unsigned_take_bit_eq take_bit_eq_mod unat_mod)
qed

lemma hex_digit_set:
  "unat d < 16 \<Longrightarrow> hex_digit d \<in> set ''0123456789abcdef''"
  unfolding hex_digit_def by (rule nth_mem) simp

text \<open>
  C13: However a message is cut into updates, and whatever the buffer held before, the
  buffered code returns the digest of the padded whole message folded block by block.
\<close>
theorem sha256_incremental:
  assumes "length (sha_buf s) = 64"
  shows "sha256_final (foldl sha256_update (sha256_init s) chunks) = sha256_spec (concat chunks)"
  using assms by (intro sha.chunked sha_started_init)

theorem sha256_incremental_witness:
  "length (sha_buf \<lparr>sha_h = [], sha_len = 7, sha_buf = replicate 64 255, sha_nbuf = 9\<rparr>) = 64 \<and>
   sha256_final (foldl sha256_update
     (sha256_init \<lparr>sha_h = [], sha_len = 7, sha_buf = replicate 64 255, sha_nbuf = 9\<rparr>)
     [[97], replicate 70 98, [], [99, 100]]) = sha256_spec (97 # replicate 70 98 @ [99, 100])"
  using sha256_incremental
    [of "\<lparr>sha_h = [], sha_len = 7, sha_buf = replicate 64 255, sha_nbuf = 9\<rparr>"
      "[[97], replicate 70 98, [], [99, 100]]"] by simp

text \<open>
  The hexadecimal digest is always 64 characters of 0-9 and a-f: the digit table is
  never read out of range.
\<close>
theorem sha256_hex_shape:
  "length (sha256_hex s p) = 64 \<and> set (sha256_hex s p) \<subseteq> set ''0123456789abcdef''"
proof -
  have "length (sha256_hex s p) = 64"
    by (simp add: sha256_hex_def length_concat comp_def sum_list_triv sha256_final_def
        sha256_out_length)
  moreover have "set (sha256_hex s p) \<subseteq> set ''0123456789abcdef''"
    unfolding sha256_hex_def using hex_digit_set [OF nibble_bound(1)] hex_digit_set [OF nibble_bound(2)]
    by auto
  ultimately show ?thesis by blast
qed

end
