(* ===== verification/FfiSpec.thy ===== *)
theory FfiSpec
  imports Types
begin

text \<open>
  The FFI type-spec vocabulary (\<^verbatim>\<open>src/ffi_spec.h\<close>, \<^verbatim>\<open>src/ffi_spec.c\<close>): the table that gives
  a spec token its inferred kind and its C type, the table of the \<^verbatim>\<open>ffi_read_\<close> and
  \<^verbatim>\<open>ffi_write_\<close> suffixes, and the lookups in them, with the row pointer as an option. The
  lemmas show that the two tables agree with the sizes of the C types on the LP64 target they
  are written for.
\<close>

record FfiSpecInfo =
  fs_spec :: string
  fs_ty :: TyKind
  fs_c_type :: string

definition FFI_SPECS :: "FfiSpecInfo list" where
  "FFI_SPECS = map (\<lambda>(s, t, c). \<lparr>fs_spec = s, fs_ty = t, fs_c_type = c\<rparr>)
    [(''int'', TY_INT, ''int''),
     (''uint32'', TY_INT, ''uint32_t''),
     (''int32'', TY_INT, ''int32_t''),
     (''uint16'', TY_INT, ''uint16_t''),
     (''int16'', TY_INT, ''int16_t''),
     (''uint8'', TY_INT, ''uint8_t''),
     (''int8'', TY_INT, ''int8_t''),
     (''size_t'', TY_INT, ''size_t''),
     (''long'', TY_INT, ''long''),
     (''int64'', TY_INT, ''int64_t''),
     (''float'', TY_FLOAT, ''float''),
     (''double'', TY_FLOAT, ''double''),
     (''bool'', TY_BOOL, ''_Bool''),
     (''str'', TY_STRING, ''const char *''),
     (''binstr'', TY_STRING, ''const char *''),
     (''ptr'', TY_POLY, ''void *''),
     (''float_array'', TY_FLOAT_ARRAY, ''const double *''),
     (''int_array'', TY_INT_ARRAY, ''const int64_t *''),
     (''void'', TY_NIL, ''void''),
     (''string'', TY_STRING, ''const char *''),
     (''pointer'', TY_POLY, ''void *''),
     (''buffer_in'', TY_POLY, ''void *''),
     (''buffer_out'', TY_POLY, ''void *''),
     (''buffer_inout'', TY_POLY, ''void *''),
     (''char'', TY_INT, ''int8_t''),
     (''uchar'', TY_INT, ''uint8_t''),
     (''short'', TY_INT, ''int16_t''),
     (''ushort'', TY_INT, ''uint16_t''),
     (''uint'', TY_INT, ''uint32_t''),
     (''ulong'', TY_INT, ''unsigned long''),
     (''long_long'', TY_INT, ''int64_t''),
     (''ulong_long'', TY_INT, ''uint64_t''),
     (''uint64'', TY_INT, ''uint64_t'')]"

definition FFI_SCALAR_KINDS :: "(string \<times> string \<times> int) list" where
  "FFI_SCALAR_KINDS =
    [(''u8'', ''uint8_t'', 1),
     (''i8'', ''int8_t'', 1),
     (''u16'', ''uint16_t'', 2),
     (''i16'', ''int16_t'', 2),
     (''u32'', ''uint32_t'', 4),
     (''i32'', ''int32_t'', 4),
     (''u64'', ''uint64_t'', 8),
     (''i64'', ''int64_t'', 8)]"

fun ffi_lookup_loop :: "FfiSpecInfo list \<Rightarrow> string \<Rightarrow> FfiSpecInfo option" where
  "ffi_lookup_loop [] spec = None"
| "ffi_lookup_loop (r # rs) spec =
     (if sp_streq (fs_spec r) spec then Some r else ffi_lookup_loop rs spec)"

definition ffi_spec_lookup :: "string option \<Rightarrow> FfiSpecInfo option" where
  "ffi_spec_lookup spec =
     (case spec of None \<Rightarrow> None | Some s \<Rightarrow> ffi_lookup_loop FFI_SPECS s)"

definition ffi_spec_is_str :: "string option \<Rightarrow> bool" where
  "ffi_spec_is_str spec =
     (case ffi_spec_lookup spec of None \<Rightarrow> False | Some info \<Rightarrow> fs_ty info = TY_STRING)"

fun ffi_scalar_loop :: "(string \<times> string \<times> int) list \<Rightarrow> string \<Rightarrow> (string \<times> int) option" where
  "ffi_scalar_loop [] kind = None"
| "ffi_scalar_loop ((k, c, w) # rs) kind =
     (if sp_streq k kind then Some (c, w) else ffi_scalar_loop rs kind)"

definition ffi_scalar_ctype :: "string option \<Rightarrow> string option" where
  "ffi_scalar_ctype kind =
     (case kind of None \<Rightarrow> None
      | Some k \<Rightarrow> map_option fst (ffi_scalar_loop FFI_SCALAR_KINDS k))"

text \<open>The size of a pointer on the LP64 target is 8.\<close>

definition ffi_scalar_width :: "string option \<Rightarrow> int" where
  "ffi_scalar_width kind =
     (case kind of None \<Rightarrow> 0
      | Some k \<Rightarrow>
          if sp_streq k ''ptr'' then 8
          else (case ffi_scalar_loop FFI_SCALAR_KINDS k of Some (c, w) \<Rightarrow> w | None \<Rightarrow> 0))"

text \<open>The sizes of the C types the tables name, on an LP64 target.\<close>

definition lp64_sizeof :: "string \<Rightarrow> int option" where
  "lp64_sizeof = map_of
     [(''int8_t'', 1), (''uint8_t'', 1), (''_Bool'', 1), (''int16_t'', 2), (''uint16_t'', 2),
      (''int'', 4), (''int32_t'', 4), (''uint32_t'', 4), (''float'', 4),
      (''size_t'', 8), (''long'', 8), (''unsigned long'', 8), (''int64_t'', 8), (''uint64_t'', 8),
      (''double'', 8), (''const char *'', 8), (''void *'', 8), (''const double *'', 8),
      (''const int64_t *'', 8)]"

section \<open>Lookups\<close>

lemma ffi_lookup_loop_Some:
  "ffi_lookup_loop rs s = Some r \<Longrightarrow> r \<in> set rs \<and> fs_spec r = s"
  by (induction rs) (auto simp: sp_streq_iff split: if_splits)

lemma ffi_lookup_loop_hit:
  "r \<in> set rs \<Longrightarrow> distinct (map fs_spec rs) \<Longrightarrow> ffi_lookup_loop rs (fs_spec r) = Some r"
  by (induction rs) (auto simp: sp_streq_iff image_iff)

lemma ffi_scalar_loop_Some:
  "ffi_scalar_loop rs k = Some (c, w) \<Longrightarrow> (k, c, w) \<in> set rs"
  by (induction rs k rule: ffi_scalar_loop.induct) (auto simp: sp_streq_iff split: if_splits)

lemma ffi_specs_distinct: "distinct (map fs_spec FFI_SPECS)"
  by (simp add: FFI_SPECS_def)

lemma ffi_scalar_rows:
  "\<forall>(k, c, w) \<in> set FFI_SCALAR_KINDS. lp64_sizeof c = Some w \<and> 0 < w \<and> k \<noteq> ''ptr''"
  by (simp add: FFI_SCALAR_KINDS_def lp64_sizeof_def)

lemma ffi_spec_rows:
  "\<forall>r \<in> set FFI_SPECS. (fs_ty r = TY_STRING \<longleftrightarrow> fs_c_type r = ''const char *'') \<and>
     (fs_ty r = TY_NIL \<longleftrightarrow> lp64_sizeof (fs_c_type r) = None)"
  by (simp add: FFI_SPECS_def lp64_sizeof_def)

section \<open>Properties\<close>

text \<open>
  C40: The width a scalar suffix loads and stores is the size of the C type the same suffix
  names, and it is positive exactly for the suffixes of the vocabulary (the pointer suffix
  has no scalar C type and the width of a pointer).
\<close>
theorem ffi_scalar_width_sizeof:
  "(case ffi_scalar_ctype kind of
      Some c \<Rightarrow> lp64_sizeof c = Some (ffi_scalar_width kind) \<and> 0 < ffi_scalar_width kind
    | None \<Rightarrow> ffi_scalar_width kind = (if kind = Some ''ptr'' then 8 else 0))"
proof (cases kind)
  case None
  then show ?thesis by (simp add: ffi_scalar_ctype_def ffi_scalar_width_def)
next
  case (Some k)
  show ?thesis
  proof (cases "ffi_scalar_loop FFI_SCALAR_KINDS k")
    case None
    with Some show ?thesis by (simp add: ffi_scalar_ctype_def ffi_scalar_width_def sp_streq_iff)
  next
    case (Some cw)
    then obtain c w where cw: "ffi_scalar_loop FFI_SCALAR_KINDS k = Some (c, w)" by (cases cw) auto
    from ffi_scalar_loop_Some [OF this] ffi_scalar_rows
    have "lp64_sizeof c = Some w \<and> 0 < w \<and> k \<noteq> ''ptr''" by fast
    with cw \<open>kind = Some k\<close> show ?thesis
      by (simp add: ffi_scalar_ctype_def ffi_scalar_width_def sp_streq_iff)
  qed
qed

text \<open>
  A lookup answers the one row of its token, or nothing for a token outside the table;
  a spec is a String spec exactly when its C type is a character pointer, and has no value
  exactly when its C type has no size.
\<close>
theorem ffi_spec_table:
  "(case ffi_spec_lookup spec of
      None \<Rightarrow> \<not> ffi_spec_is_str spec \<and> spec \<notin> Some ` fs_spec ` set FFI_SPECS
    | Some r \<Rightarrow> spec = Some (fs_spec r) \<and> r \<in> set FFI_SPECS \<and>
        (ffi_spec_is_str spec \<longleftrightarrow> fs_c_type r = ''const char *'') \<and>
        (fs_ty r = TY_NIL \<longleftrightarrow> lp64_sizeof (fs_c_type r) = None))"
proof (cases "ffi_spec_lookup spec")
  case None
  then have "spec \<notin> Some ` fs_spec ` set FFI_SPECS"
    using ffi_lookup_loop_hit [OF _ ffi_specs_distinct] by (auto simp: ffi_spec_lookup_def)
  with None show ?thesis by (simp add: ffi_spec_is_str_def)
next
  case (Some r)
  then obtain s where s: "spec = Some s" "ffi_lookup_loop FFI_SPECS s = Some r"
    by (auto simp: ffi_spec_lookup_def split: option.splits)
  with Some ffi_lookup_loop_Some [OF s(2)] ffi_spec_rows show ?thesis
    by (auto simp: ffi_spec_is_str_def)
qed

end
