(* ===== verification/CtValue.thy ===== *)
theory CtValue
  imports Prelude
begin

text \<open>
  Compile-time values (\<^verbatim>\<open>src/ct_value.h\<close>, \<^verbatim>\<open>src/ct_value.c\<close>): the values that Ruby code run
  by the compiler computes, and the operations the evaluators share.

  A value is the C struct: its kind, its integer, its text, its elements and the two identity
  flags; a field a kind does not use keeps what the code leaves there. A text is the C string,
  the bytes before its terminator. A function that appends to an \<^verbatim>\<open>MvBuf\<close> is given by the
  text it appends. An operation that answers 0 (\<open>not known here\<close>) is \<^const>\<open>None\<close>, and one that
  answers 1 is \<^const>\<open>Some\<close> of what it stores in \<^verbatim>\<open>*out\<close>. The character tests and case
  mappings of \<^verbatim>\<open>ctype.h\<close> are those of the C locale. \<^verbatim>\<open>__builtin_*_overflow\<close> stores the
  wrapped result and tells whether the exact one left 64 bits.
\<close>

section \<open>Values and texts\<close>

datatype MvKind = MV_UNDEF | MV_NIL | MV_TRUE | MV_FALSE | MV_INT | MV_STR | MV_SYM | MV_ARR

datatype Mv =
  Mv (mv_k: MvKind) (mv_i: int) (mv_s: string) (mv_a: "Mv list") (mv_frozen: bool) (mv_lit: bool)

definition NUL :: char where
  "NUL = CHR 0x00"

definition byte_of :: "char \<Rightarrow> nat" where
  "byte_of c = of_char c"

definition mv_nil :: Mv where
  "mv_nil = Mv MV_NIL 0 [] [] False False"

definition mv_undef :: Mv where
  "mv_undef = Mv MV_UNDEF 0 [] [] False False"

definition mv_of_kind :: "MvKind \<Rightarrow> Mv" where
  "mv_of_kind k = Mv k 0 [] [] False False"

text \<open>The copied bytes are read back as a C string, up to a first zero byte.\<close>

definition mv_str :: "string \<Rightarrow> nat \<Rightarrow> MvKind \<Rightarrow> Mv" where
  "mv_str s n k = Mv k 0 (takeWhile (\<lambda>c. c \<noteq> NUL) (take n s)) [] False False"

definition mv_truthy :: "Mv \<Rightarrow> bool" where
  "mv_truthy v \<longleftrightarrow> mv_k v \<noteq> MV_NIL \<and> mv_k v \<noteq> MV_FALSE \<and> mv_k v \<noteq> MV_UNDEF"

definition isdigit :: "char \<Rightarrow> bool" where
  "isdigit c \<longleftrightarrow> 48 \<le> byte_of c \<and> byte_of c \<le> 57"

definition isalpha :: "char \<Rightarrow> bool" where
  "isalpha c \<longleftrightarrow> (65 \<le> byte_of c \<and> byte_of c \<le> 90) \<or> (97 \<le> byte_of c \<and> byte_of c \<le> 122)"

definition isalnum :: "char \<Rightarrow> bool" where
  "isalnum c \<longleftrightarrow> isalpha c \<or> isdigit c"

definition tolower :: "char \<Rightarrow> char" where
  "tolower c = (if 65 \<le> byte_of c \<and> byte_of c \<le> 90 then char_of (byte_of c + 32) else c)"

definition toupper :: "char \<Rightarrow> char" where
  "toupper c = (if 97 \<le> byte_of c \<and> byte_of c \<le> 122 then char_of (byte_of c - 32) else c)"

definition mv_to_s :: "Mv \<Rightarrow> string" where
  "mv_to_s v =
     (case mv_k v of
        MV_NIL \<Rightarrow> []
      | MV_TRUE \<Rightarrow> ''true''
      | MV_FALSE \<Rightarrow> ''false''
      | MV_INT \<Rightarrow> dec_int (mv_i v)
      | MV_STR \<Rightarrow> mv_s v
      | MV_SYM \<Rightarrow> mv_s v
      | _ \<Rightarrow> [])"

fun sym_plain_loop :: "string \<Rightarrow> bool" where
  "sym_plain_loop [] = True"
| "sym_plain_loop (c # p) =
     (if isalnum c \<or> c = CHR ''_'' then sym_plain_loop p
      else if (c = CHR ''?'' \<or> c = CHR ''!'' \<or> c = CHR ''='') \<and> p = [] then sym_plain_loop p
      else False)"

definition mv_sym_plain :: "string \<Rightarrow> bool" where
  "mv_sym_plain s =
     (case s of [] \<Rightarrow> False
      | c # _ \<Rightarrow> if \<not> (isalpha c \<or> c = CHR ''_'') then False else sym_plain_loop s)"

definition hex_low :: "nat \<Rightarrow> char" where
  "hex_low d = ''0123456789abcdef'' ! d"

definition mv_quote_char :: "char \<Rightarrow> string" where
  "mv_quote_char ch =
     (if ch = CHR 0x22 \<or> ch = CHR 0x5C \<or> ch = CHR ''#'' then [CHR 0x5C, ch]
      else if ch = CHR 0x0A then [CHR 0x5C, CHR ''n'']
      else if ch = CHR 0x09 then [CHR 0x5C, CHR ''t'']
      else if byte_of ch < 0x20
        then [CHR 0x5C, CHR ''x'', hex_low (byte_of ch div 16), hex_low (byte_of ch mod 16)]
      else [ch])"

definition mv_quote :: "string \<Rightarrow> string" where
  "mv_quote s = CHR 0x22 # concat (map mv_quote_char s) @ [CHR 0x22]"

fun mv_inspect :: "Mv \<Rightarrow> string" and mv_inspect_elems :: "bool \<Rightarrow> Mv list \<Rightarrow> string" where
  "mv_inspect (Mv k i s a fr lt) =
     (case k of
        MV_NIL \<Rightarrow> ''nil''
      | MV_STR \<Rightarrow> mv_quote s
      | MV_SYM \<Rightarrow> '':'' @ (if mv_sym_plain s then s else mv_quote s)
      | MV_ARR \<Rightarrow> ''['' @ mv_inspect_elems False a @ '']''
      | _ \<Rightarrow> mv_to_s (Mv k i s a fr lt))"
| "mv_inspect_elems sep [] = []"
| "mv_inspect_elems sep (v # vs) =
     (if sep then '', '' else []) @ mv_inspect v @ mv_inspect_elems True vs"

definition plain_char :: "char \<Rightarrow> bool" where
  "plain_char ch \<longleftrightarrow> \<not> (byte_of ch < 0x20 \<or> byte_of ch > 0x7e \<or> ch = CHR 0x22 \<or> ch = CHR 0x5C \<or> ch = CHR ''#'')"

fun mv_inspect_exact :: "Mv \<Rightarrow> bool" and mv_all_exact :: "Mv list \<Rightarrow> bool" where
  "mv_inspect_exact (Mv k i s a fr lt) =
     (case k of
        MV_NIL \<Rightarrow> True | MV_TRUE \<Rightarrow> True | MV_FALSE \<Rightarrow> True | MV_INT \<Rightarrow> True
      | MV_STR \<Rightarrow> list_all plain_char s
      | MV_SYM \<Rightarrow> mv_sym_plain s
      | MV_ARR \<Rightarrow> mv_all_exact a
      | _ \<Rightarrow> False)"
| "mv_all_exact [] = True"
| "mv_all_exact (v # vs) = (mv_inspect_exact v \<and> mv_all_exact vs)"

fun mv_eq :: "Mv \<Rightarrow> Mv \<Rightarrow> bool" and mv_eq_elems :: "Mv list \<Rightarrow> Mv list \<Rightarrow> bool" where
  "mv_eq (Mv k i s a fr lt) (Mv k' i' s' a' fr' lt') =
     (if k \<noteq> k' then False
      else case k of
        MV_INT \<Rightarrow> i = i'
      | MV_STR \<Rightarrow> s = s'
      | MV_SYM \<Rightarrow> s = s'
      | MV_ARR \<Rightarrow> (if length a \<noteq> length a' then False else mv_eq_elems a a')
      | _ \<Rightarrow> True)"
| "mv_eq_elems (v # vs) (w # ws) = (if \<not> mv_eq v w then False else mv_eq_elems vs ws)"
| "mv_eq_elems _ _ = True"

definition mv_ascii :: "string \<Rightarrow> bool" where
  "mv_ascii s \<longleftrightarrow> list_all (\<lambda>c. \<not> byte_of c \<ge> 0x80) s"

section \<open>The patterns of \<^verbatim>\<open>sub\<close> and \<^verbatim>\<open>gsub\<close>\<close>

record MvPat =
  pt_lit :: bool
  pt_set :: "char \<Rightarrow> bool"
  pt_plus :: bool
  pt_text :: string

definition pat_zero :: MvPat where
  "pat_zero = \<lparr>pt_lit = False, pt_set = (\<lambda>_. False), pt_plus = False, pt_text = []\<rparr>"

text \<open>One element of a class: its byte, or the refusal, and the rest of the source.\<close>

fun class_char :: "string \<Rightarrow> (char \<times> string) option" where
  "class_char [] = None"
| "class_char (c # p) =
     (if c = CHR 0x5C then
        (case p of [] \<Rightarrow> None
         | d # p' \<Rightarrow> if isalnum d then None else Some (d, p'))
      else if c = CHR ''['' \<or> (c = CHR ''&'' \<and> p \<noteq> [] \<and> hd p = CHR ''&'') then None
      else Some (c, p))"

text \<open>The upper end of a range, read after the \<^verbatim>\<open>-\<close>: an opening bracket is not refused there.\<close>

fun class_hi :: "string \<Rightarrow> (char \<times> string) option" where
  "class_hi [] = None"
| "class_hi (c # p) =
     (if c = CHR 0x5C then
        (case p of [] \<Rightarrow> None
         | d # p' \<Rightarrow> if isalnum d then None else Some (d, p'))
      else Some (c, p))"

definition set_range :: "(char \<Rightarrow> bool) \<Rightarrow> char \<Rightarrow> char \<Rightarrow> char \<Rightarrow> bool" where
  "set_range st lo hi = (\<lambda>x. if byte_of lo \<le> byte_of x \<and> byte_of x \<le> byte_of hi then True else st x)"

text \<open>One turn of the class loop: the set and the source after one element or range.\<close>

definition class_step :: "(char \<Rightarrow> bool) \<Rightarrow> string \<Rightarrow> ((char \<Rightarrow> bool) \<times> string) option" where
  "class_step st p =
     (case class_char p of None \<Rightarrow> None
      | Some (ch, q) \<Rightarrow>
          if byte_of ch \<ge> 0x80 then None
          else if length q \<ge> 2 \<and> hd q = CHR ''-'' \<and> q ! 1 \<noteq> CHR '']'' then
            (case class_hi (tl q) of None \<Rightarrow> None
             | Some (hi, q') \<Rightarrow>
                 if byte_of hi < byte_of ch \<or> byte_of hi \<ge> 0x80 then None
                 else Some (set_range st ch hi, q'))
          else Some (st(ch := True), q))"

lemma class_char_shorter: "class_char p = Some (ch, q) \<Longrightarrow> length q < length p"
  by (cases p) (auto split: if_splits list.splits)

lemma class_hi_shorter: "class_hi p = Some (ch, q) \<Longrightarrow> length q < length p"
  by (cases p) (auto split: if_splits list.splits)

lemma class_step_shorter: "class_step st p = Some (st', q) \<Longrightarrow> length q < length p"
  using class_char_shorter class_hi_shorter
  by (fastforce simp: class_step_def split: option.splits prod.splits if_splits)

function class_loop :: "(char \<Rightarrow> bool) \<Rightarrow> bool \<Rightarrow> string \<Rightarrow> (char \<Rightarrow> bool) option" where
  "class_loop st first p =
     (case p of [] \<Rightarrow> None
      | c # _ \<Rightarrow>
          if c \<noteq> CHR '']'' \<or> first then
            (case class_step st p of None \<Rightarrow> None
             | Some (st', q) \<Rightarrow> class_loop st' False q)
          else Some st)"
  by auto
termination
  by (relation "measure (\<lambda>(st, first, p). length p)") (auto dest: class_step_shorter)

definition mv_pat_class :: "string \<Rightarrow> (char \<Rightarrow> bool) option" where
  "mv_pat_class p =
     (let neg = (p \<noteq> [] \<and> hd p = CHR ''^'');
          p = (if neg then tl p else p)
      in map_option (\<lambda>st. if neg then (\<lambda>x. \<not> st x) else st) (class_loop (\<lambda>_. False) True p))"

text \<open>
  The source after the bracket that closes a class, as the regexp reader finds it; a trailing
  backslash steps past the end, which it takes for no bracket.
\<close>

fun class_end :: "bool \<Rightarrow> string \<Rightarrow> string option" where
  "class_end first [] = None"
| "class_end first (c # r) =
     (if c \<noteq> CHR '']'' \<or> first
      then (if c = CHR 0x5C then (case r of [] \<Rightarrow> None | _ # r' \<Rightarrow> class_end False r')
            else class_end False r)
      else Some r)"

definition pat_finish :: "MvPat \<Rightarrow> string \<Rightarrow> MvPat option" where
  "pat_finish pt q =
     (if q \<noteq> [] \<and> hd q = CHR ''+''
      then (if tl q = [] then Some (pt\<lparr>pt_plus := True\<rparr>) else None)
      else if q = [] then Some pt else None)"

text \<open>\<^verbatim>\<open>strchr\<close> also finds the terminator, so a zero byte is refused with the operators.\<close>

definition pat_special :: "char \<Rightarrow> bool" where
  "pat_special c \<longleftrightarrow> c \<in> set (''.^$|()?*+{}[]'' @ [CHR 0x5C, CHR ''/'', CHR ''#'', NUL])"

definition mv_pat_regexp :: "string \<Rightarrow> MvPat option" where
  "mv_pat_regexp p =
     (case p of [] \<Rightarrow> None
      | c # r \<Rightarrow>
          if c = CHR ''['' then
            (case class_end True r of None \<Rightarrow> None
             | Some q \<Rightarrow>
                 (case mv_pat_class r of None \<Rightarrow> None
                  | Some st \<Rightarrow> pat_finish (pat_zero\<lparr>pt_set := st\<rparr>) q))
          else if c = CHR 0x5C \<and> r \<noteq> [] \<and> \<not> isalnum (hd r) \<and> byte_of (hd r) < 0x80 then
            pat_finish (pat_zero\<lparr>pt_set := (\<lambda>x. x = hd r)\<rparr>) (tl r)
          else if list_ex (\<lambda>d. pat_special d \<or> byte_of d \<ge> 0x80) p then None
          else Some (pat_zero\<lparr>pt_lit := True, pt_text := p\<rparr>))"

text \<open>\<open>strncmp0 s t n\<close> is \<^verbatim>\<open>strncmp(s, t, n) == 0\<close> on the C strings \<open>s\<close> and \<open>t\<close>.\<close>

fun strncmp0 :: "string \<Rightarrow> string \<Rightarrow> nat \<Rightarrow> bool" where
  "strncmp0 s t 0 = True"
| "strncmp0 [] [] (Suc n) = True"
| "strncmp0 (a # s) (b # t) (Suc n) = (a = b \<and> (a = NUL \<or> strncmp0 s t n))"
| "strncmp0 (a # s) [] (Suc n) = (a = NUL)"
| "strncmp0 [] (b # t) (Suc n) = (b = NUL)"

fun pat_run :: "MvPat \<Rightarrow> string \<Rightarrow> nat" where
  "pat_run pt [] = 0"
| "pat_run pt (c # s) = (if pt_set pt c then (if \<not> pt_plus pt then 1 else Suc (pat_run pt s)) else 0)"

definition mv_pat_at :: "MvPat \<Rightarrow> string \<Rightarrow> nat" where
  "mv_pat_at pt s =
     (if pt_lit pt then (if strncmp0 s (pt_text pt) (length (pt_text pt)) then length (pt_text pt) else 0)
      else pat_run pt s)"

function sub_loop :: "MvPat \<Rightarrow> string \<Rightarrow> bool \<Rightarrow> bool \<Rightarrow> string \<Rightarrow> string" where
  "sub_loop pt rep all did p =
     (case p of [] \<Rightarrow> []
      | c # p' \<Rightarrow>
          let m = (if all \<or> \<not> did then mv_pat_at pt p else 0)
          in if m \<noteq> 0 then rep @ sub_loop pt rep all True (drop m p)
             else c # sub_loop pt rep all did p')"
  by auto
termination
  by (relation "measure (\<lambda>(pt, rep, all, did, p). length p)") auto

definition mv_sub :: "Mv \<Rightarrow> MvPat \<Rightarrow> string \<Rightarrow> bool \<Rightarrow> Mv option" where
  "mv_sub r pt rep all =
     (if mv_k r \<noteq> MV_STR \<or> \<not> mv_ascii (mv_s r) \<or> CHR 0x5C \<in> set rep then None
      else (let b = sub_loop pt rep all False (mv_s r) in Some (mv_str b (length b) MV_STR)))"

section \<open>The methods an evaluator runs on a value\<close>

datatype MvOp =
    MVOP_NIL_P | MVOP_NOT | MVOP_TO_S | MVOP_TO_SYM | MVOP_INSPECT | MVOP_CASE | MVOP_COMPACT
  | MVOP_REVERSE | MVOP_SIZE | MVOP_FIRST | MVOP_LAST | MVOP_JOIN | MVOP_CMP | MVOP_EQ | MVOP_ADD
  | MVOP_MUL | MVOP_POW | MVOP_SUB | MVOP_AREF

definition mv_ops :: "(string \<times> int \<times> MvOp) list" where
  "mv_ops =
     [(''nil?'', 0, MVOP_NIL_P), (''!'', 0, MVOP_NOT), (''to_s'', 0, MVOP_TO_S),
      (''to_sym'', 0, MVOP_TO_SYM), (''inspect'', 0, MVOP_INSPECT), (''downcase'', 0, MVOP_CASE),
      (''upcase'', 0, MVOP_CASE), (''capitalize'', 0, MVOP_CASE), (''compact'', 0, MVOP_COMPACT),
      (''reverse'', 0, MVOP_REVERSE), (''size'', 0, MVOP_SIZE), (''length'', 0, MVOP_SIZE),
      (''first'', 0, MVOP_FIRST), (''last'', 0, MVOP_LAST), (''join'', 0, MVOP_JOIN),
      (''join'', 1, MVOP_JOIN), (''<'', 1, MVOP_CMP), (''>'', 1, MVOP_CMP), (''<='', 1, MVOP_CMP),
      (''>='', 1, MVOP_CMP), (''=='', 1, MVOP_EQ), (''!='', 1, MVOP_EQ), (''+'', 1, MVOP_ADD),
      (''*'', 1, MVOP_MUL), (''**'', 1, MVOP_POW), (''-'', 1, MVOP_SUB), (''[]'', 1, MVOP_AREF)]"

fun mv_op_loop :: "(string \<times> int \<times> MvOp) list \<Rightarrow> string \<Rightarrow> int \<Rightarrow> MvOp option" where
  "mv_op_loop [] name argc = None"
| "mv_op_loop ((nm, ac, op) # rs) name argc =
     (if ac = argc \<and> nm = name then Some op else mv_op_loop rs name argc)"

fun join_loop :: "string option \<Rightarrow> bool \<Rightarrow> Mv list \<Rightarrow> string" where
  "join_loop sep later [] = []"
| "join_loop sep later (v # vs) =
     (if later then (case sep of None \<Rightarrow> [] | Some t \<Rightarrow> t) else []) @ mv_to_s v @
     join_loop sep True vs"

definition mv_join :: "Mv \<Rightarrow> string option \<Rightarrow> Mv option" where
  "mv_join r sep =
     (if list_ex (\<lambda>v. mv_k v = MV_ARR) (mv_a r) then None
      else (let b = join_loop sep False (mv_a r) in Some (mv_str b (length b) MV_STR)))"

definition mv_with_int :: "Mv \<Rightarrow> int \<Rightarrow> Mv" where
  "mv_with_int r i = Mv (mv_k r) i (mv_s r) (mv_a r) (mv_frozen r) (mv_lit r)"

definition mv_with_elems :: "Mv \<Rightarrow> Mv list \<Rightarrow> Mv" where
  "mv_with_elems r a = Mv (mv_k r) (mv_i r) (mv_s r) a (mv_frozen r) (mv_lit r)"

text \<open>An overflow builtin: whether the exact result left 64 bits, and the wrapped result.\<close>

definition overflow64 :: "int \<Rightarrow> bool \<times> int" where
  "overflow64 x = (\<not> in_i64 x, wrap_i64 x)"

text \<open>The loop of \<^verbatim>\<open>**\<close>: \<open>n\<close> turns are left.\<close>

fun pow_loop :: "nat \<Rightarrow> int \<Rightarrow> int \<Rightarrow> bool \<times> int" where
  "pow_loop 0 b v = (False, v)"
| "pow_loop (Suc n) b v =
     (let (ovf, v') = overflow64 (v * b) in if ovf then (True, v') else pow_loop n b v')"

definition case_text :: "string \<Rightarrow> string \<Rightarrow> string" where
  "case_text name s =
     (if hd name = CHR ''d'' then map tolower s
      else if hd name = CHR ''u'' then map toupper s
      else (case s of [] \<Rightarrow> [] | c # p \<Rightarrow> toupper c # map tolower p))"

definition mv_text :: "string \<Rightarrow> Mv" where
  "mv_text b = mv_str b (length b) MV_STR"

definition mv_bool :: "bool \<Rightarrow> Mv" where
  "mv_bool b = mv_of_kind (if b then MV_TRUE else MV_FALSE)"

definition mv_answer :: "bool \<times> int \<Rightarrow> Mv \<Rightarrow> Mv option" where
  "mv_answer res r = (case res of (ovf, v) \<Rightarrow> if ovf then None else Some (mv_with_int r v))"

definition mv_call_op :: "MvOp \<Rightarrow> string \<Rightarrow> Mv \<Rightarrow> int \<Rightarrow> Mv \<Rightarrow> Mv option" where
  "mv_call_op op name r argc a0 =
     (case op of
        MVOP_NIL_P \<Rightarrow> Some (mv_bool (mv_k r = MV_NIL))
      | MVOP_NOT \<Rightarrow> Some (mv_bool (\<not> mv_truthy r))
      | MVOP_TO_S \<Rightarrow>
          if mv_k r = MV_ARR then None
          else if mv_k r = MV_STR then Some r
          else Some (mv_text (mv_to_s r))
      | MVOP_TO_SYM \<Rightarrow>
          if mv_k r \<noteq> MV_STR \<and> mv_k r \<noteq> MV_SYM then None
          else Some (Mv MV_SYM (mv_i r) (mv_s r) (mv_a r) False False)
      | MVOP_INSPECT \<Rightarrow>
          if \<not> mv_inspect_exact r then None else Some (mv_text (mv_inspect r))
      | MVOP_CASE \<Rightarrow>
          if (mv_k r \<noteq> MV_STR \<and> mv_k r \<noteq> MV_SYM) \<or> \<not> mv_ascii (mv_s r) then None
          else (let t = mv_str (mv_s r) (length (mv_s r)) (mv_k r)
                in Some (Mv (mv_k t) 0 (case_text name (mv_s t)) [] False False))
      | MVOP_COMPACT \<Rightarrow>
          if mv_k r \<noteq> MV_ARR then None
          else Some (mv_with_elems r (filter (\<lambda>v. mv_k v \<noteq> MV_NIL) (mv_a r)))
      | MVOP_REVERSE \<Rightarrow>
          if mv_k r \<noteq> MV_ARR then None
          else Some (mv_with_elems r
            (map (\<lambda>i. mv_a r ! (length (mv_a r) - i - 1)) [0..<length (mv_a r)]))
      | MVOP_SIZE \<Rightarrow>
          if mv_k r = MV_NIL then None
          else if mv_k r = MV_ARR then Some (mv_with_int (mv_of_kind MV_INT) (int (length (mv_a r))))
          else if (mv_k r = MV_STR \<or> mv_k r = MV_SYM) \<and> mv_ascii (mv_s r)
          then Some (mv_with_int (mv_of_kind MV_INT) (int (length (mv_s r))))
          else None
      | MVOP_FIRST \<Rightarrow>
          if mv_k r \<noteq> MV_ARR then None
          else Some (if length (mv_a r) = 0 then mv_nil else mv_a r ! 0)
      | MVOP_LAST \<Rightarrow>
          if mv_k r \<noteq> MV_ARR then None
          else Some (if length (mv_a r) = 0 then mv_nil else mv_a r ! (length (mv_a r) - 1))
      | MVOP_JOIN \<Rightarrow>
          if mv_k r \<noteq> MV_ARR \<or> (argc = 1 \<and> mv_k a0 \<noteq> MV_STR \<and> mv_k a0 \<noteq> MV_NIL) then None
          else mv_join r (if argc = 1 \<and> mv_k a0 = MV_STR then Some (mv_s a0) else None)
      | MVOP_CMP \<Rightarrow>
          if mv_k r \<noteq> MV_INT \<or> mv_k a0 \<noteq> MV_INT then None
          else Some (mv_bool
            (if hd name = CHR ''<''
             then (if length name > 1 then mv_i r \<le> mv_i a0 else mv_i r < mv_i a0)
             else (if length name > 1 then mv_i r \<ge> mv_i a0 else mv_i r > mv_i a0)))
      | MVOP_EQ \<Rightarrow> Some (mv_bool (mv_eq r a0 = (hd name = CHR ''='')))
      | MVOP_ADD \<Rightarrow>
          if mv_k r = MV_INT \<and> mv_k a0 = MV_INT then mv_answer (overflow64 (mv_i r + mv_i a0)) r
          else if mv_k r = MV_STR \<and> mv_k a0 = MV_STR then Some (mv_text (mv_s r @ mv_s a0))
          else if mv_k r = MV_ARR \<and> mv_k a0 = MV_ARR then Some (mv_with_elems r (mv_a r @ mv_a a0))
          else None
      | MVOP_MUL \<Rightarrow>
          if mv_k r \<noteq> MV_INT \<or> mv_k a0 \<noteq> MV_INT then None
          else mv_answer (overflow64 (mv_i r * mv_i a0)) r
      | MVOP_POW \<Rightarrow>
          if mv_k r \<noteq> MV_INT \<or> mv_k a0 \<noteq> MV_INT \<or> mv_i a0 < 0 \<or> mv_i a0 \<ge> 64 then None
          else mv_answer (pow_loop (nat (mv_i a0)) (mv_i r) 1) r
      | MVOP_SUB \<Rightarrow>
          if mv_k r \<noteq> MV_INT \<or> mv_k a0 \<noteq> MV_INT then None
          else mv_answer (overflow64 (mv_i r - mv_i a0)) r
      | MVOP_AREF \<Rightarrow>
          if mv_k r \<noteq> MV_ARR \<or> mv_k a0 \<noteq> MV_INT then None
          else (let n = int (length (mv_a r));
                    ix = (if mv_i a0 < 0 then n + mv_i a0 else mv_i a0)
                in Some (if ix \<ge> 0 \<and> ix < n then mv_a r ! nat ix else mv_nil)))"

definition mv_call :: "string \<Rightarrow> Mv \<Rightarrow> int \<Rightarrow> Mv \<Rightarrow> Mv option" where
  "mv_call name r argc a0 =
     (case mv_op_loop mv_ops name argc of
        None \<Rightarrow> None
      | Some op \<Rightarrow> mv_call_op op name r argc a0)"

section \<open>Equality\<close>

text \<open>
  What equality looks at: the value with every field its kind does not use, and the two
  identity flags, cleared.
\<close>

fun mv_canon :: "Mv \<Rightarrow> Mv" where
  "mv_canon (Mv k i s a fr lt) =
     Mv k (if k = MV_INT then i else 0) (if k = MV_STR \<or> k = MV_SYM then s else [])
       (if k = MV_ARR then map mv_canon a else []) False False"

lemma mv_eq_elems_iff:
  "length vs = length ws \<Longrightarrow> mv_eq_elems vs ws \<longleftrightarrow> list_all2 mv_eq vs ws"
  by (induction vs ws rule: list_induct2) auto

lemma mv_eq_iff_canon: "mv_eq v w \<longleftrightarrow> mv_canon v = mv_canon w"
proof (induction v arbitrary: w)
  case (Mv k i s a fr lt)
  obtain k' i' s' a' fr' lt' where w: "w = Mv k' i' s' a' fr' lt'" by (cases w)
  have "list_all2 mv_eq a a' \<longleftrightarrow> map mv_canon a = map mv_canon a'"
    if "length a = length a'"
    using that Mv.IH by (auto simp: list_all2_conv_all_nth list_eq_iff_nth_eq)
  then show ?case
    by (cases k) (auto simp: w mv_eq_elems_iff dest: map_eq_imp_length_eq)
qed

text \<open>
  Compile-time equality is reflexive, symmetric and transitive on all values, nested
  Arrays included.
\<close>
theorem mv_eq_equivalence:
  "mv_eq u u \<and> (mv_eq u v \<longrightarrow> mv_eq v u) \<and> (mv_eq u v \<and> mv_eq v w \<longrightarrow> mv_eq u w)"
  by (simp add: mv_eq_iff_canon)

theorem mv_eq_equivalence_witness:
  "mv_eq (Mv MV_STR 1 ''a'' [] True False) (Mv MV_STR 2 ''a'' [] False True) \<and>
   mv_eq (Mv MV_STR 2 ''a'' [] False True) (Mv MV_STR 1 ''a'' [] True False)"
  using mv_eq_equivalence [of "Mv MV_STR 1 ''a'' [] True False" "Mv MV_STR 2 ''a'' [] False True"
      "Mv MV_STR 1 ''a'' [] True False"] by simp

section \<open>Integer operations\<close>

lemma mv_answer_overflow:
  "mv_answer (overflow64 x) r = (if in_i64 x then Some (mv_with_int r x) else None)"
  by (simp add: mv_answer_def overflow64_def)

lemma pow_grows: "2 \<le> \<bar>b\<bar> \<Longrightarrow> \<not> in_i64 x \<Longrightarrow> \<not> in_i64 (x * b ^ n)" for b x :: int
proof -
  assume b: "2 \<le> \<bar>b\<bar>" and x: "\<not> in_i64 x"
  show ?thesis
  proof (cases n)
    case (Suc m)
    have "2 ^ 1 \<le> \<bar>b\<bar> ^ n" using Suc b by (intro order_trans [OF power_mono [of 2 "\<bar>b\<bar>" 1] power_increasing]) auto
    moreover have "2 ^ 63 \<le> \<bar>x\<bar>" using x by (auto simp: machine_int)
    ultimately have "2 ^ 63 * 2 ^ 1 \<le> \<bar>x\<bar> * \<bar>b\<bar> ^ n"
      by (intro mult_mono) auto
    then have "2 ^ 64 \<le> \<bar>x * b ^ n\<bar>" by (simp add: abs_mult power_abs)
    then show ?thesis by (auto simp: machine_int)
  qed (simp add: x)
qed

lemma pow_small: "\<bar>b\<bar> < 2 \<Longrightarrow> in_i64 v \<Longrightarrow> v \<noteq> INT64_MIN \<Longrightarrow> in_i64 (v * b) \<and> v * b \<noteq> INT64_MIN"
  for b v :: int
proof -
  assume *: "\<bar>b\<bar> < 2" "in_i64 v" "v \<noteq> INT64_MIN"
  then have "b = 0 \<or> b = 1 \<or> b = - 1" by linarith
  with * show ?thesis by (auto simp: machine_int)
qed

lemma pow_loop_small:
  "\<bar>b\<bar> < 2 \<Longrightarrow> in_i64 v \<Longrightarrow> v \<noteq> INT64_MIN \<Longrightarrow>
     pow_loop n b v = (False, v * b ^ n) \<and> in_i64 (v * b ^ n)"
proof (induction n arbitrary: v)
  case (Suc n)
  with pow_small [of b v] Suc.IH [of "v * b"] show ?case by (simp add: overflow64_def mult.assoc)
qed simp

lemma pow_loop_large:
  "2 \<le> \<bar>b\<bar> \<Longrightarrow> in_i64 v \<Longrightarrow>
     fst (pow_loop n b v) = (\<not> in_i64 (v * b ^ n)) \<and>
     (in_i64 (v * b ^ n) \<longrightarrow> snd (pow_loop n b v) = v * b ^ n)"
proof (induction n arbitrary: v)
  case (Suc n)
  show ?case
  proof (cases "in_i64 (v * b)")
    case True
    with Suc show ?thesis by (simp add: overflow64_def mult.assoc)
  next
    case False
    then have "\<not> in_i64 (v * b * b ^ n)" using pow_grows Suc.prems(1) by blast
    with False show ?thesis by (simp add: overflow64_def mult.assoc)
  qed
qed simp

lemma mv_answer_pow:
  "mv_answer (pow_loop n b 1) r = (if in_i64 (b ^ n) then Some (mv_with_int r (b ^ n)) else None)"
proof (cases "\<bar>b\<bar> < 2")
  case True
  then show ?thesis using pow_loop_small [of b 1 n] by (simp add: mv_answer_def machine_int)
next
  case False
  then show ?thesis using pow_loop_large [of b 1 n]
    by (auto simp: mv_answer_def machine_int split: prod.splits)
qed

lemmas mv_call_unfold = mv_call_def mv_ops_def mv_call_op_def

text \<open>
  C22: The compile-time +, -, * and ** of two Integers answer exactly when the mathematical
  result fits 64 bits (and the exponent is below 64), and then answer that result: an
  overflow in the middle of the power loop is never missed or reported falsely.
\<close>
theorem mv_call_integer_exact:
  assumes "mv_k r = MV_INT" "mv_k a0 = MV_INT"
  shows "mv_call ''+'' r 1 a0 =
           (if in_i64 (mv_i r + mv_i a0) then Some (mv_with_int r (mv_i r + mv_i a0)) else None)
    \<and> mv_call ''-'' r 1 a0 =
           (if in_i64 (mv_i r - mv_i a0) then Some (mv_with_int r (mv_i r - mv_i a0)) else None)
    \<and> mv_call ''*'' r 1 a0 =
           (if in_i64 (mv_i r * mv_i a0) then Some (mv_with_int r (mv_i r * mv_i a0)) else None)
    \<and> mv_call ''**'' r 1 a0 =
           (if 0 \<le> mv_i a0 \<and> mv_i a0 < 64 \<and> in_i64 (mv_i r ^ nat (mv_i a0))
            then Some (mv_with_int r (mv_i r ^ nat (mv_i a0))) else None)"
  using assms by (simp add: mv_call_unfold mv_answer_overflow mv_answer_pow)

theorem mv_call_integer_exact_witness:
  "mv_call ''**'' (Mv MV_INT (- 2) [] [] False False) 1 (Mv MV_INT 63 [] [] False False) =
     Some (Mv MV_INT (- 9223372036854775808) [] [] False False) \<and>
   mv_call ''**'' (Mv MV_INT 2 [] [] False False) 1 (Mv MV_INT 63 [] [] False False) = None"
  using mv_call_integer_exact
    [of "Mv MV_INT (- 2) [] [] False False" "Mv MV_INT 63 [] [] False False"]
    mv_call_integer_exact
    [of "Mv MV_INT 2 [] [] False False" "Mv MV_INT 63 [] [] False False"]
  by (simp add: machine_int mv_with_int_def)

section \<open>Array and String operations\<close>

lemma rev_by_index: "map (\<lambda>i. xs ! (length xs - i - 1)) [0..<length xs] = rev xs"
  by (rule nth_equalityI) (simp_all add: rev_nth)

lemma takeWhile_nul_id: "NUL \<notin> set s \<Longrightarrow> takeWhile (\<lambda>c. c \<noteq> NUL) s = s"
  by (metis (mono_tags, lifting) takeWhile_eq_all_conv)

lemma mv_text_s: "NUL \<notin> set b \<Longrightarrow> mv_text b = Mv MV_STR 0 b [] False False"
  by (simp add: mv_text_def mv_str_def takeWhile_nul_id)

text \<open>
  reverse, first, last and [] of a compile-time Array answer as their definitions on
  lists, with negative indices counted from the end and nil outside the Array; no element is
  read out of range.
\<close>
theorem mv_call_array_ops:
  assumes "mv_k r = MV_ARR" "mv_k ix = MV_INT"
  shows "mv_call ''reverse'' r 0 ix = Some (mv_with_elems r (rev (mv_a r))) \<and>
    mv_call ''first'' r 0 ix = Some (if mv_a r = [] then mv_nil else hd (mv_a r)) \<and>
    mv_call ''last'' r 0 ix = Some (if mv_a r = [] then mv_nil else last (mv_a r)) \<and>
    mv_call ''[]'' r 1 ix =
      Some (if 0 \<le> mv_i ix \<and> mv_i ix < int (length (mv_a r)) then mv_a r ! nat (mv_i ix)
            else if - int (length (mv_a r)) \<le> mv_i ix \<and> mv_i ix < 0
            then rev (mv_a r) ! nat (- 1 - mv_i ix)
            else mv_nil)"
proof -
  have neg: "rev (mv_a r) ! nat (- 1 - mv_i ix) = mv_a r ! nat (int (length (mv_a r)) + mv_i ix)"
    if "- int (length (mv_a r)) \<le> mv_i ix" "mv_i ix < 0"
  proof -
    from that have "nat (- 1 - mv_i ix) < length (mv_a r)" by linarith
    moreover from that have "length (mv_a r) - Suc (nat (- 1 - mv_i ix)) =
        nat (int (length (mv_a r)) + mv_i ix)" by linarith
    ultimately show ?thesis by (simp add: rev_nth)
  qed
  show ?thesis using assms neg
    by (auto simp: mv_call_unfold rev_by_index [simplified] hd_conv_nth last_conv_nth)
qed

theorem mv_call_array_ops_witness:
  "mv_call ''[]'' (Mv MV_ARR 0 [] [mv_nil, mv_of_kind MV_TRUE, mv_undef] False False) 1
     (Mv MV_INT (- 2) [] [] False False) = Some (mv_of_kind MV_TRUE)"
  using mv_call_array_ops [of "Mv MV_ARR 0 [] [mv_nil, mv_of_kind MV_TRUE, mv_undef] False False"
      "Mv MV_INT (- 2) [] [] False False"]
  by simp

section \<open>Substitution\<close>

declare class_loop.simps [simp del] sub_loop.simps [simp del]

lemma strncmp0_prefix:
  "NUL \<notin> set t \<Longrightarrow> strncmp0 s t (length t) \<longleftrightarrow> take (length t) s = t"
proof (induction t arbitrary: s)
  case (Cons b t)
  then show ?case by (cases s) auto
qed simp

lemma pat_run_bound: "pat_run pt s \<le> length s"
  by (induction s) auto

lemma mv_pat_at_bound: "NUL \<notin> set (pt_text pt) \<Longrightarrow> mv_pat_at pt s \<le> length s"
proof -
  assume "NUL \<notin> set (pt_text pt)"
  moreover have "length t \<le> length s" if "take (length t) s = t" for t :: string
    using arg_cong [OF that, of length] by simp
  ultimately show ?thesis by (auto simp: mv_pat_at_def strncmp0_prefix pat_run_bound)
qed

text \<open>A pattern the regexp reader accepts holds no zero byte, so a match never runs past the end.\<close>

lemma pat_finish_text: "pat_finish pt q = Some pt' \<Longrightarrow> pt_text pt' = pt_text pt"
  by (auto simp: pat_finish_def split: if_splits)

lemma mv_pat_regexp_text:
  assumes "mv_pat_regexp p = Some pt"
  shows "NUL \<notin> set (pt_text pt)"
proof (cases "list_ex (\<lambda>d. pat_special d \<or> byte_of d \<ge> 0x80) p")
  case True
  then have "pt_text pt = []"
    using assms
    by (auto simp: mv_pat_regexp_def pat_zero_def dest!: pat_finish_text
        split: list.splits if_splits option.splits)
  then show ?thesis by simp
next
  case False
  then have "NUL \<notin> set p" by (auto simp: list_ex_iff pat_special_def)
  moreover have "pt_text pt = [] \<or> pt_text pt = p"
    using assms
    by (auto simp: mv_pat_regexp_def pat_zero_def dest!: pat_finish_text
        split: list.splits if_splits option.splits)
  ultimately show ?thesis by auto
qed

lemma sub_loop_done: "sub_loop pt rep False True s = s"
  by (induction s) (simp_all add: sub_loop.simps [of _ _ _ _ "_ # _"] sub_loop.simps [of _ _ _ _ "[]"])

lemma sub_loop_skip:
  "(\<And>u c v. s = u @ c # v \<Longrightarrow> mv_pat_at pt (c # v @ t) = 0) \<Longrightarrow>
     sub_loop pt rep all did (s @ t) = s @ sub_loop pt rep all did t"
proof (induction s)
  case (Cons c s)
  have "mv_pat_at pt (c # s @ t) = 0" using Cons.prems [of "[]"] by simp
  moreover have "sub_loop pt rep all did (s @ t) = s @ sub_loop pt rep all did t"
  proof (rule Cons.IH)
    fix u d v assume "s = u @ d # v"
    then show "mv_pat_at pt (d # v @ t) = 0" using Cons.prems [of "c # u" d v] by simp
  qed
  ultimately show ?case by (simp add: sub_loop.simps [of _ _ _ _ "_ # _"] sub_loop_done)
qed simp

lemma sub_loop_hit:
  "mv_pat_at pt (m @ t) = length m \<Longrightarrow> m \<noteq> [] \<Longrightarrow> all \<or> \<not> did \<Longrightarrow>
     sub_loop pt rep all did (m @ t) = rep @ sub_loop pt rep all True t"
  by (cases m) (simp_all add: sub_loop.simps [of _ _ _ _ "_ # _"])

lemma sub_loop_class:
  assumes "\<not> pt_lit pt" "\<not> pt_plus pt"
  shows "sub_loop pt rep True did s = concat (map (\<lambda>c. if pt_set pt c then rep else [c]) s)"
proof (induction s arbitrary: did)
  case (Cons c s)
  then show ?case using assms
    by (simp add: sub_loop.simps [of _ _ _ _ "_ # _"] mv_pat_at_def)
qed (simp add: sub_loop.simps [of _ _ _ _ "[]"])

text \<open>
  gsub with a one-character class replaces each byte of the class by the replacement
  and keeps every other byte.
\<close>
theorem mv_sub_gsub_class:
  assumes "mv_k r = MV_STR" "mv_ascii (mv_s r)" "CHR 0x5C \<notin> set rep"
    and "\<not> pt_lit pt" "\<not> pt_plus pt"
  shows "mv_sub r pt rep True =
    Some (mv_text (concat (map (\<lambda>c. if pt_set pt c then rep else [c]) (mv_s r))))"
  using assms by (simp add: mv_sub_def sub_loop_class mv_text_def Let_def)

theorem mv_sub_gsub_class_witness:
  "mv_pat_regexp ''[a-c]'' =
     Some (pat_zero\<lparr>pt_set := set_range (\<lambda>_. False) (CHR ''a'') (CHR ''c'')\<rparr>) \<and>
   mv_sub (Mv MV_STR 0 ''xabz'' [] False True)
     (pat_zero\<lparr>pt_set := set_range (\<lambda>_. False) (CHR ''a'') (CHR ''c'')\<rparr>) ''<>'' True =
     Some (mv_text ''x<><>z'')"
  using mv_sub_gsub_class [of "Mv MV_STR 0 ''xabz'' [] False True" "''<>''"
      "pat_zero\<lparr>pt_set := set_range (\<lambda>_. False) (CHR ''a'') (CHR ''c'')\<rparr>"]
  by (simp add: mv_pat_regexp_def mv_pat_class_def class_loop.simps class_step_def pat_finish_def
      pat_zero_def set_range_def mv_ascii_def byte_of_def)

text \<open>
  sub with a literal pattern replaces the first occurrence of the text, wherever it
  starts, and leaves what follows alone.
\<close>
theorem mv_sub_first_literal:
  assumes "mv_k r = MV_STR" "mv_ascii (mv_s r)" "CHR 0x5C \<notin> set rep"
    and pt: "pt_lit pt" "pt_text pt \<noteq> []" "NUL \<notin> set (pt_text pt)"
    and s: "mv_s r = u @ pt_text pt @ v"
    and first: "\<And>i. i < length u \<Longrightarrow> take (length (pt_text pt)) (drop i (mv_s r)) \<noteq> pt_text pt"
  shows "mv_sub r pt rep False = Some (mv_text (u @ rep @ v))"
proof -
  have "mv_pat_at pt (c # y @ pt_text pt @ v) = 0" if "u = x @ c # y" for x c y
    using first [of "length x"] that s pt by (simp add: mv_pat_at_def strncmp0_prefix)
  then have "sub_loop pt rep False False (u @ pt_text pt @ v) =
      u @ sub_loop pt rep False False (pt_text pt @ v)"
    by (intro sub_loop_skip) simp
  also have "\<dots> = u @ rep @ v"
    using pt by (simp add: sub_loop_hit sub_loop_done mv_pat_at_def strncmp0_prefix)
  finally show ?thesis using assms by (simp add: mv_sub_def mv_text_def Let_def)
qed

theorem mv_sub_first_literal_witness:
  "mv_sub (Mv MV_STR 0 ''a::b::c'' [] False True) (pat_zero\<lparr>pt_lit := True, pt_text := ''::''\<rparr>) ''/'' False =
     Some (mv_text ''a/b::c'')"
  using mv_sub_first_literal [of "Mv MV_STR 0 ''a::b::c'' [] False True" "''/''"
      "pat_zero\<lparr>pt_lit := True, pt_text := ''::''\<rparr>" "''a''" "''b::c''"]
  by (simp add: mv_ascii_def byte_of_def NUL_def pat_zero_def)

section \<open>Reading an inspected value back\<close>

text \<open>
  A reader for the Ruby literals an inspection spells. In a double-quoted literal a \<^verbatim>\<open>#\<close> has
  to be escaped (it may start an interpolation), an escape this reader does not know is refused,
  and a Symbol's name may end in one of the marks \<^verbatim>\<open>? ! =\<close>.
\<close>

definition hex_val :: "char \<Rightarrow> nat option" where
  "hex_val c =
     (if isdigit c then Some (byte_of c - 48)
      else if 97 \<le> byte_of c \<and> byte_of c \<le> 102 then Some (byte_of c - 87) else None)"

fun read_dq :: "string \<Rightarrow> (string \<times> string) option" where
  "read_dq [] = None"
| "read_dq (c # t) =
     (if c = CHR 0x22 then Some ([], t)
      else if c = CHR ''#'' then None
      else if c = CHR 0x5C then
        (case t of
           [] \<Rightarrow> None
         | e # u \<Rightarrow>
             if e = CHR ''n'' then map_option (apfst ((#) (CHR 0x0A))) (read_dq u)
             else if e = CHR ''t'' then map_option (apfst ((#) (CHR 0x09))) (read_dq u)
             else if e = CHR ''x'' then
               (case u of
                  h # l # w \<Rightarrow>
                    (case (hex_val h, hex_val l) of
                       (Some a, Some b) \<Rightarrow> map_option (apfst ((#) (char_of (16 * a + b)))) (read_dq w)
                     | _ \<Rightarrow> None)
                | _ \<Rightarrow> None)
             else if isalnum e then None
             else map_option (apfst ((#) e)) (read_dq u))
      else map_option (apfst ((#) c)) (read_dq t))"

lemma byte_of_less: "byte_of c < 256"
  by (simp add: byte_of_def)

lemma char_of_byte [simp]: "char_of (byte_of c) = c"
  by (simp add: byte_of_def)

lemma hex_val_hex_low: "d < 16 \<Longrightarrow> hex_val (hex_low d) = Some d"
proof -
  have "\<forall>d < 16. hex_val (hex_low d) = Some d"
    by (simp add: hex_val_def hex_low_def isdigit_def byte_of_def numeral_eq_Suc All_less_Suc)
  then show "d < 16 \<Longrightarrow> hex_val (hex_low d) = Some d" by blast
qed

lemma read_dq_char:
  "read_dq (mv_quote_char ch @ t) = map_option (apfst ((#) ch)) (read_dq t)"
proof (cases "byte_of ch < 0x20 \<and> ch \<noteq> CHR 0x0A \<and> ch \<noteq> CHR 0x09")
  case True
  then have "ch \<noteq> CHR 0x22" "ch \<noteq> CHR 0x5C" "ch \<noteq> CHR ''#''" by (auto simp: byte_of_def)
  moreover have "hex_val (hex_low (byte_of ch div 16)) = Some (byte_of ch div 16)"
    "hex_val (hex_low (byte_of ch mod 16)) = Some (byte_of ch mod 16)"
    using True by (auto intro!: hex_val_hex_low)
  ultimately show ?thesis using True by (simp add: mv_quote_char_def)
next
  case False
  then show ?thesis by (auto simp: mv_quote_char_def isalnum_def isalpha_def isdigit_def byte_of_def)
qed

lemma read_dq_quote: "read_dq (concat (map mv_quote_char s) @ CHR 0x22 # t) = Some (s, t)"
  by (induction s) (simp_all add: read_dq_char del: read_dq.simps, simp)

definition name_char :: "char \<Rightarrow> bool" where
  "name_char c \<longleftrightarrow> isalnum c \<or> c = CHR ''_''"

definition name_mark :: "char \<Rightarrow> bool" where
  "name_mark c \<longleftrightarrow> c = CHR ''?'' \<or> c = CHR ''!'' \<or> c = CHR ''=''"

definition read_name :: "string \<Rightarrow> string \<times> string" where
  "read_name t =
     (let w = takeWhile name_char t; u = dropWhile name_char t
      in case u of c # u' \<Rightarrow> if name_mark c then (w @ [c], u') else (w, u) | [] \<Rightarrow> (w, u))"

fun digits_val :: "nat \<Rightarrow> string \<Rightarrow> nat" where
  "digits_val acc [] = acc"
| "digits_val acc (c # t) = digits_val (10 * acc + (byte_of c - 48)) t"

definition read_word :: "string \<Rightarrow> (Mv \<times> string) option" where
  "read_word t =
     (let w = takeWhile name_char t; u = dropWhile name_char t
      in if w = ''nil'' then Some (mv_nil, u)
         else if w = ''true'' then Some (mv_of_kind MV_TRUE, u)
         else if w = ''false'' then Some (mv_of_kind MV_FALSE, u)
         else if w \<noteq> [] \<and> list_all isdigit w
         then Some (mv_with_int (mv_of_kind MV_INT) (int (digits_val 0 w)), u)
         else None)"

fun read_value :: "nat \<Rightarrow> string \<Rightarrow> (Mv \<times> string) option"
  and read_elems :: "nat \<Rightarrow> string \<Rightarrow> (Mv list \<times> string) option" where
  "read_value 0 t = None"
| "read_value (Suc f) t =
     (case t of
        [] \<Rightarrow> None
      | c # u \<Rightarrow>
          if c = CHR ''['' then
            (if u \<noteq> [] \<and> hd u = CHR '']'' then Some (Mv MV_ARR 0 [] [] False False, tl u)
             else map_option (\<lambda>(vs, w). (Mv MV_ARR 0 [] vs False False, w)) (read_elems f u))
          else if c = CHR 0x22 then
            map_option (\<lambda>(s, w). (Mv MV_STR 0 s [] False False, w)) (read_dq u)
          else if c = CHR '':'' then
            (if u \<noteq> [] \<and> hd u = CHR 0x22
             then map_option (\<lambda>(s, w). (Mv MV_SYM 0 s [] False False, w)) (read_dq (tl u))
             else (let (s, w) = read_name u in Some (Mv MV_SYM 0 s [] False False, w)))
          else if c = CHR ''-'' then
            map_option (\<lambda>(v, w). (mv_with_int v (- mv_i v), w)) (read_word u)
          else read_word t)"
| "read_elems 0 t = None"
| "read_elems (Suc f) t =
     (case read_value f t of
        None \<Rightarrow> None
      | Some (v, u) \<Rightarrow>
          (case u of
             c # w \<Rightarrow>
               if c = CHR '']'' then Some ([v], w)
               else if c = CHR '','' \<and> w \<noteq> [] \<and> hd w = CHR '' ''
               then map_option (apfst ((#) v)) (read_elems f (tl w))
               else None
           | [] \<Rightarrow> None))"

text \<open>A value every part of which has a spelling.\<close>

fun mv_defined :: "Mv \<Rightarrow> bool" where
  "mv_defined (Mv k i s a fr lt) = (k \<noteq> MV_UNDEF \<and> (k = MV_ARR \<longrightarrow> list_all mv_defined a))"

text \<open>What may follow a value: not a character a name or a number could go on with.\<close>

definition ends_value :: "string \<Rightarrow> bool" where
  "ends_value t \<longleftrightarrow> (case t of [] \<Rightarrow> True | c # _ \<Rightarrow> \<not> name_char c \<and> \<not> name_mark c)"

lemma takeWhile_ends:
  "list_all P w \<Longrightarrow> (case t of [] \<Rightarrow> True | c # _ \<Rightarrow> \<not> P c) \<Longrightarrow>
     takeWhile P (w @ t) = w \<and> dropWhile P (w @ t) = t"
  by (cases t) (auto simp: list_all_iff)

lemma ends_value_word:
  "list_all name_char w \<Longrightarrow> ends_value t \<Longrightarrow>
     takeWhile name_char (w @ t) = w \<and> dropWhile name_char (w @ t) = t"
  by (rule takeWhile_ends) (auto simp: ends_value_def split: list.splits)

lemma dec_digit: "d < 10 \<Longrightarrow> isdigit (char_of (48 + d)) \<and> byte_of (char_of (48 + d)) = 48 + d"
  by (simp add: isdigit_def byte_of_def)

lemma digits_val_append: "digits_val acc (s @ [c]) = 10 * digits_val acc s + (byte_of c - 48)"
  by (induction s arbitrary: acc) simp_all

lemma dec_nat_read:
  "list_all isdigit (dec_nat n) \<and> dec_nat n \<noteq> [] \<and> digits_val 0 (dec_nat n) = n"
proof (induction n rule: dec_nat.induct)
  case (1 n)
  show ?case
  proof (cases "n < 10")
    case True
    then show ?thesis using dec_digit [of n] by (simp add: dec_nat.simps [of n])
  next
    case False
    then show ?thesis using 1 dec_digit [of "n mod 10"]
      by (simp add: dec_nat.simps [of n] digits_val_append)
  qed
qed

lemma read_word_dec:
  "ends_value t \<Longrightarrow>
     read_word (dec_nat n @ t) = Some (mv_with_int (mv_of_kind MV_INT) (int n), t)"
proof -
  assume t: "ends_value t"
  have d: "list_all isdigit (dec_nat n)" "dec_nat n \<noteq> []" "digits_val 0 (dec_nat n) = n"
    using dec_nat_read by auto
  then have "list_all name_char (dec_nat n)"
    by (auto simp: list_all_iff name_char_def isalnum_def)
  moreover have "dec_nat n \<noteq> ''nil''" "dec_nat n \<noteq> ''true''" "dec_nat n \<noteq> ''false''"
    using d(1) by (auto simp: isdigit_def byte_of_def)
  ultimately show ?thesis using ends_value_word [OF _ t] d by (simp add: read_word_def Let_def)
qed

lemma name_char_special:
  "name_char c \<Longrightarrow> c \<notin> {CHR ''['', CHR '']'', CHR 0x22, CHR '':'', CHR ''-'', CHR '','', CHR '' ''}"
  by (auto simp: name_char_def isalnum_def isalpha_def isdigit_def byte_of_def)

lemma name_mark_not_name: "name_mark c \<Longrightarrow> \<not> name_char c"
  by (auto simp: name_mark_def name_char_def isalnum_def isalpha_def isdigit_def byte_of_def)

lemma ends_value_sep [simp]: "ends_value (CHR '']'' # t)" "ends_value (CHR '','' # t)"
  by (simp_all add: ends_value_def name_char_def name_mark_def isalnum_def isalpha_def isdigit_def byte_of_def)

lemma read_value_word:
  "list_all name_char w \<Longrightarrow> w \<noteq> [] \<Longrightarrow> read_value (Suc f) (w @ t) = read_word (w @ t)"
  using name_char_special by (cases w) auto

lemma sym_plain_loop_split:
  "sym_plain_loop s \<Longrightarrow>
     \<exists>w m. s = w @ m \<and> list_all name_char w \<and> (m = [] \<or> (\<exists>c. m = [c] \<and> name_mark c))"
proof (induction s)
  case (Cons c s)
  show ?case
  proof (cases "name_char c")
    case True
    then have "sym_plain_loop s" using Cons.prems by (simp add: name_char_def)
    with Cons.IH obtain w m where "s = w @ m" "list_all name_char w"
      "m = [] \<or> (\<exists>c. m = [c] \<and> name_mark c)" by blast
    with True show ?thesis by (intro exI [of _ "c # w"] exI [of _ m]) simp
  next
    case False
    then have "name_mark c \<and> s = []" using Cons.prems
      by (auto simp: name_char_def name_mark_def split: if_splits)
    then show ?thesis by (intro exI [of _ "[]"] exI [of _ "[c]"]) simp
  qed
qed simp

lemma read_name_plain:
  assumes "sym_plain_loop s" "ends_value t"
  shows "read_name (s @ t) = (s, t)"
proof -
  obtain w m where s: "s = w @ m" "list_all name_char w" "m = [] \<or> (\<exists>c. m = [c] \<and> name_mark c)"
    using sym_plain_loop_split [OF assms(1)] by blast
  show ?thesis
  proof (cases "m = []")
    case True
    have "takeWhile name_char (s @ t) = s" "dropWhile name_char (s @ t) = t"
      using True s(1) ends_value_word [OF s(2) assms(2)] by auto
    then show ?thesis using assms(2)
      by (simp only: read_name_def Let_def) (auto simp: ends_value_def split: list.splits)
  next
    case False
    then obtain c where c: "m = [c]" "name_mark c" using s by blast
    then have "takeWhile name_char (w @ c # t) = w \<and> dropWhile name_char (w @ c # t) = c # t"
      using s name_mark_not_name by (intro takeWhile_ends) auto
    with c s show ?thesis by (simp add: read_name_def)
  qed
qed

lemma dec_nat_name: "list_all name_char (dec_nat n) \<and> dec_nat n \<noteq> []"
  using dec_nat_read [of n] by (auto simp: list_all_iff name_char_def isalnum_def)

lemma dec_int_read:
  assumes "ends_value t"
  shows "read_value (Suc f) (dec_int i @ t) = Some (mv_with_int (mv_of_kind MV_INT) i, t)"
proof (cases "i < 0")
  case True
  then show ?thesis using assms
    by (simp add: dec_int_def read_word_dec mv_with_int_def mv_of_kind_def)
next
  case False
  then have "read_value (Suc f) (dec_int i @ t) = read_word (dec_nat (nat i) @ t)"
    using dec_nat_name [of "nat i"] read_value_word [of "dec_nat (nat i)" f t]
    by (simp only: dec_int_def if_False not_False_eq_True simp_thms)
  with False show ?thesis using assms by (simp add: read_word_dec)
qed

lemma dec_int_start: "\<exists>c u. dec_int i = c # u \<and> c \<noteq> CHR '']''"
proof (cases "dec_nat (nat i)")
  case Nil
  then show ?thesis using dec_nat_name [of "nat i"] by simp
next
  case (Cons c u)
  then have "c \<noteq> CHR '']''" using dec_nat_name [of "nat i"] name_char_special [of c] by auto
  with Cons show ?thesis by (simp add: dec_int_def)
qed

lemma inspect_start:
  "mv_defined v \<Longrightarrow> \<exists>c u. mv_inspect v = c # u \<and> c \<noteq> CHR '']''"
proof (cases v)
  case (Mv k i s a fr lt)
  moreover assume "mv_defined v"
  ultimately show ?thesis using dec_int_start [of i]
    by (cases k) (simp_all add: mv_quote_def mv_to_s_def)
qed

lemma read_elems_inspect:
  assumes "\<And>v f t. v \<in> set a \<Longrightarrow> mv_defined v \<Longrightarrow> ends_value t \<Longrightarrow> length (mv_inspect v) < f \<Longrightarrow>
      read_value f (mv_inspect v @ t) = Some (mv_canon v, t)"
    and "a \<noteq> []" "list_all mv_defined a" "length (mv_inspect_elems False a) + 2 \<le> f"
  shows "read_elems f (mv_inspect_elems False a @ CHR '']'' # t) = Some (map mv_canon a, t)"
  using assms
proof (induction a arbitrary: f)
  case (Cons v vs)
  obtain g where f: "f = Suc g" using Cons.prems(4) by (cases f) auto
  show ?case
  proof (cases vs)
    case Nil
    then show ?thesis using Cons.prems(1) [of v "CHR '']'' # t" g] Cons.prems(3,4) f by simp
  next
    case (Cons w ws)
    have tl: "mv_inspect_elems True vs = '', '' @ mv_inspect_elems False vs" using Cons by simp
    have "read_value g (mv_inspect v @ CHR '','' # CHR '' '' # mv_inspect_elems False vs @ CHR '']'' # t) =
        Some (mv_canon v, CHR '','' # CHR '' '' # mv_inspect_elems False vs @ CHR '']'' # t)"
      using Cons.prems f by (intro Cons.prems(1)) (auto simp: tl)
    moreover have "read_elems g (mv_inspect_elems False vs @ CHR '']'' # t) = Some (map mv_canon vs, t)"
      using Cons.prems f Cons by (intro Cons.IH) (auto simp: tl)
    ultimately show ?thesis by (simp add: f tl)
  qed
qed simp

lemma read_value_inspect:
  "mv_defined v \<Longrightarrow> ends_value t \<Longrightarrow> length (mv_inspect v) < f \<Longrightarrow>
     read_value f (mv_inspect v @ t) = Some (mv_canon v, t)"
proof (induction v arbitrary: f t)
  case (Mv k i s a fr lt)
  obtain g where f: "f = Suc g" using Mv.prems(3) by (cases f) auto
  show ?case
  proof (cases k)
    case MV_INT
    then show ?thesis using Mv.prems f dec_int_read
      by (simp add: mv_to_s_def mv_with_int_def mv_of_kind_def del: read_value.simps)
  next
    case MV_ARR
    then have d: "list_all mv_defined a" using Mv.prems by simp
    show ?thesis
    proof (cases a)
      case Nil
      then show ?thesis using MV_ARR f by simp
    next
      case (Cons v vs)
      then obtain c u where cu: "mv_inspect v = c # u" "c \<noteq> CHR '']''"
        using d inspect_start [of v] by auto
      have "read_elems g (mv_inspect_elems False a @ CHR '']'' # t) = Some (map mv_canon a, t)"
        using Mv Cons d f MV_ARR by (intro read_elems_inspect) auto
      then show ?thesis using MV_ARR f Cons cu by simp
    qed
  next
    case MV_SYM
    then show ?thesis
      using Mv.prems f read_dq_quote [of s t] read_name_plain [of s t]
      by (auto simp: mv_quote_def mv_sym_plain_def isalpha_def byte_of_def split: list.splits)
  qed (use Mv.prems f read_dq_quote [of s t] ends_value_word [of "''nil''" t]
      ends_value_word [of "''true''" t] ends_value_word [of "''false''" t]
      in \<open>auto simp: mv_quote_def mv_to_s_def read_word_def mv_nil_def mv_of_kind_def
        name_char_def isalnum_def isalpha_def byte_of_def\<close>)
qed

text \<open>
  C7: The Ruby source that mv_inspect spells for a value without undefined parts reads back,
  with whatever may follow it, as a value equal to it: quoting, Symbols plain and quoted,
  negative Integers and nested Arrays.
\<close>
theorem mv_inspect_reads_back:
  assumes "mv_defined v" "ends_value rest"
  shows "\<exists>w. read_value (Suc (length (mv_inspect v))) (mv_inspect v @ rest) = Some (w, rest) \<and>
    mv_eq w v"
proof -
  have "mv_canon (mv_canon v) = mv_canon v"
    by (induction v) simp
  then have "mv_eq (mv_canon v) v" by (simp add: mv_eq_iff_canon)
  with read_value_inspect [OF assms] show ?thesis by blast
qed

theorem mv_inspect_reads_back_witness:
  "mv_inspect (Mv MV_ARR 0 [] [Mv MV_INT (- 5) [] [] False False, Mv MV_SYM 0 ''ok?'' [] False True] False False)
     = ''[-5, :ok?]'' \<and>
   (\<exists>w. read_value 11 ''[-5, :ok?]'' = Some (w, []) \<and>
      mv_eq w (Mv MV_ARR 0 [] [Mv MV_INT (- 5) [] [] False False, Mv MV_SYM 0 ''ok?'' [] False True] False False))"
proof -
  have "mv_inspect (Mv MV_ARR 0 [] [Mv MV_INT (- 5) [] [] False False, Mv MV_SYM 0 ''ok?'' [] False True] False False)
     = ''[-5, :ok?]''"
    by (simp add: mv_to_s_def dec_int_def dec_nat.simps mv_sym_plain_def isalpha_def isalnum_def
        byte_of_def char_of_def bit_0)
  with mv_inspect_reads_back [of "Mv MV_ARR 0 []
      [Mv MV_INT (- 5) [] [] False False, Mv MV_SYM 0 ''ok?'' [] False True] False False" "[]"]
  show ?thesis
    by (simp add: ends_value_def numeral_eq_Suc del: read_value.simps mv_inspect.simps mv_eq.simps)
qed

end
