(* ===== verification/Probe.thy ===== *)
theory Probe
  imports Prelude
begin

text \<open>
  Linear probing, the open-addressing scheme of the compiler's key set (\<^verbatim>\<open>src/decide.c\<close>) and of
  the runtime's typed hashes (\<^verbatim>\<open>lib/sp_hash.c\<close>): the walk from a key's home slot to the slot
  that holds it or to a free one, and the backward shift that closes the gap of a deletion.

  A table of \<open>n\<close> slots is a function from indices to keys, \<^const>\<open>None\<close> for a free slot. The
  walk is given fuel and is shown to end within \<open>n\<close> steps where some slot is free. Cyclic
  positions are compared by their distance from a start, so that the arguments are linear
  arithmetic.
\<close>

section \<open>The walk\<close>

fun probe :: "nat \<Rightarrow> (nat \<Rightarrow> nat) \<Rightarrow> (nat \<Rightarrow> bool) \<Rightarrow> nat \<Rightarrow> nat option" where
  "probe 0 nxt stop i = None"
| "probe (Suc f) nxt stop i = (if stop i then Some i else probe f nxt stop (nxt i))"

definition ring_next :: "nat \<Rightarrow> nat \<Rightarrow> nat" where
  "ring_next n i = (i + 1) mod n"

definition ring_dist :: "nat \<Rightarrow> nat \<Rightarrow> nat \<Rightarrow> nat" where
  "ring_dist n a b = (if a \<le> b then b - a else n - a + b)"

lemma ring_next_if: "i < n \<Longrightarrow> ring_next n i = (if i + 1 = n then 0 else i + 1)"
  by (simp add: ring_next_def)

lemma ring_next_less: "i < n \<Longrightarrow> ring_next n i < n"
  by (simp add: ring_next_def)

lemma ring_dist_self [simp]: "ring_dist n a a = 0"
  by (simp add: ring_dist_def)

lemma ring_dist_less: "a < n \<Longrightarrow> b < n \<Longrightarrow> ring_dist n a b < n"
  by (auto simp: ring_dist_def)

lemma ring_dist_eq_0: "a < n \<Longrightarrow> ring_dist n a b = 0 \<longleftrightarrow> a = b"
  by (auto simp: ring_dist_def)

lemma ring_dist_inj: "a < n \<Longrightarrow> b < n \<Longrightarrow> c < n \<Longrightarrow> ring_dist n a b = ring_dist n a c \<longleftrightarrow> b = c"
  by (auto simp: ring_dist_def split: if_splits)

lemma ring_dist_next_from:
  "a < n \<Longrightarrow> b < n \<Longrightarrow> a \<noteq> b \<Longrightarrow> ring_dist n a b = Suc (ring_dist n (ring_next n a) b)"
  by (auto simp: ring_dist_def ring_next_if)

lemma ring_dist_next_to:
  "a < n \<Longrightarrow> b < n \<Longrightarrow> ring_next n b \<noteq> a \<Longrightarrow> ring_dist n a (ring_next n b) = Suc (ring_dist n a b)"
  by (auto simp: ring_dist_def ring_next_if split: if_splits)

text \<open>The walk stops at the first slot, in its order, that satisfies the stopping test.\<close>

lemma probe_first:
  assumes "i < n" "j < n" "stop j" "ring_dist n i j < f"
    and "\<And>p. p < n \<Longrightarrow> ring_dist n i p < ring_dist n i j \<Longrightarrow> \<not> stop p"
  shows "probe f (ring_next n) stop i = Some j"
  using assms
proof (induction f arbitrary: i)
  case (Suc f)
  show ?case
  proof (cases "i = j")
    case False
    then have d: "ring_dist n i j = Suc (ring_dist n (ring_next n i) j)"
      using Suc.prems by (intro ring_dist_next_from)
    have "\<not> stop i" using Suc.prems(5) [of i] Suc.prems(1) d by simp
    moreover have "probe f (ring_next n) stop (ring_next n i) = Some j"
    proof (rule Suc.IH)
      show "\<not> stop p" if "p < n" "ring_dist n (ring_next n i) p < ring_dist n (ring_next n i) j" for p
      proof (cases "p = i")
        case False
        then have "ring_dist n i p = Suc (ring_dist n (ring_next n i) p)"
          using Suc.prems that by (intro ring_dist_next_from) auto
        then show ?thesis using Suc.prems(5) [of p] that d by simp
      qed (use \<open>\<not> stop i\<close> in simp)
    qed (use Suc.prems d ring_next_less in auto)
    ultimately show ?thesis by simp
  qed (use Suc.prems in simp)
qed simp

lemma probe_total:
  assumes "i < n" "e < n" "stop e"
  obtains j where "j < n" "stop j" "probe n (ring_next n) stop i = Some j"
    "\<And>p. p < n \<Longrightarrow> ring_dist n i p < ring_dist n i j \<Longrightarrow> \<not> stop p"
proof -
  obtain j where j: "j < n \<and> stop j"
    "\<And>p. p < n \<and> stop p \<Longrightarrow> ring_dist n i j \<le> ring_dist n i p"
    using ex_has_least_nat [of "\<lambda>j. j < n \<and> stop j" e "ring_dist n i"] assms by blast
  then have first: "\<not> stop p" if "p < n" "ring_dist n i p < ring_dist n i j" for p
    using that by fastforce
  then have "probe n (ring_next n) stop i = Some j"
    using j assms ring_dist_less by (intro probe_first) auto
  with j first that show thesis by blast
qed

section \<open>Tables whose keys are reachable\<close>

definition chain_ok :: "nat \<Rightarrow> ('k \<Rightarrow> nat) \<Rightarrow> (nat \<Rightarrow> 'k option) \<Rightarrow> bool" where
  "chain_ok n home t \<longleftrightarrow>
     (\<forall>i < n. \<forall>k. t i = Some k \<longrightarrow>
        (\<forall>p < n. ring_dist n (home k) p < ring_dist n (home k) i \<longrightarrow> t p \<noteq> None))"

definition keys_inj :: "nat \<Rightarrow> (nat \<Rightarrow> 'k option) \<Rightarrow> bool" where
  "keys_inj n t \<longleftrightarrow> (\<forall>i < n. \<forall>j < n. \<forall>k. t i = Some k \<and> t j = Some k \<longrightarrow> i = j)"

definition table_ok :: "nat \<Rightarrow> ('k \<Rightarrow> nat) \<Rightarrow> (nat \<Rightarrow> 'k option) \<Rightarrow> bool" where
  "table_ok n home t \<longleftrightarrow> (\<forall>k. home k < n) \<and> chain_ok n home t \<and> keys_inj n t"

definition table_keys :: "nat \<Rightarrow> (nat \<Rightarrow> 'k option) \<Rightarrow> 'k set" where
  "table_keys n t = {k. \<exists>i < n. t i = Some k}"

lemma chain_okD:
  "chain_ok n home t \<Longrightarrow> i < n \<Longrightarrow> t i = Some k \<Longrightarrow> p < n \<Longrightarrow>
     ring_dist n (home k) p < ring_dist n (home k) i \<Longrightarrow> t p \<noteq> None"
  unfolding chain_ok_def by blast

lemma table_okI:
  "(\<And>k. home k < n) \<Longrightarrow> chain_ok n home t \<Longrightarrow> keys_inj n t \<Longrightarrow> table_ok n home t"
  by (simp add: table_ok_def)

lemma table_ok_empty:
  "(\<And>k. home k < n) \<Longrightarrow> (\<And>i. i < n \<Longrightarrow> t i = None) \<Longrightarrow> table_ok n home t"
  by (simp add: table_ok_def chain_ok_def keys_inj_def)

lemma free_slot:
  assumes "keys_inj n t" "card (table_keys n t) < n"
  obtains e where "e < n" "t e = None"
proof -
  have "\<exists>e < n. t e = None"
  proof (rule ccontr)
    assume "\<not> (\<exists>e < n. t e = None)"
    then have full: "t i = Some (the (t i))" if "i < n" for i using that by force
    then have "inj_on (\<lambda>i. the (t i)) {..<n}"
      using assms(1) unfolding keys_inj_def inj_on_def by (metis lessThan_iff)
    moreover have "table_keys n t = (\<lambda>i. the (t i)) ` {..<n}"
      using full by (force simp: table_keys_def)
    ultimately show False using assms(2) by (simp add: card_image)
  qed
  then show thesis using that by blast
qed

text \<open>The walk for a key ends at its slot, or at a free slot where the key may be stored.\<close>

lemma probe_key:
  assumes ok: "table_ok n home t" and e: "e < n" "t e = None"
  obtains j where "j < n" "probe n (ring_next n) (\<lambda>i. t i = None \<or> t i = Some k) (home k) = Some j"
    "k \<in> table_keys n t \<longleftrightarrow> t j = Some k" "k \<notin> table_keys n t \<longleftrightarrow> t j = None"
    "\<forall>p < n. ring_dist n (home k) p < ring_dist n (home k) j \<longrightarrow> t p \<noteq> None"
proof -
  have h: "home k < n" using ok by (simp add: table_ok_def)
  obtain j where j: "j < n" "t j = None \<or> t j = Some k"
    "probe n (ring_next n) (\<lambda>i. t i = None \<or> t i = Some k) (home k) = Some j"
    and first: "\<And>p. p < n \<Longrightarrow> ring_dist n (home k) p < ring_dist n (home k) j \<Longrightarrow>
      \<not> (t p = None \<or> t p = Some k)"
    using probe_total [of "home k" n e "\<lambda>i. t i = None \<or> t i = Some k"] h e by blast
  have "k \<notin> table_keys n t" if none: "t j = None"
  proof
    assume "k \<in> table_keys n t"
    then obtain i where i: "i < n" "t i = Some k" by (auto simp: table_keys_def)
    then have "\<not> ring_dist n (home k) i < ring_dist n (home k) j" using first by blast
    moreover have "ring_dist n (home k) i \<noteq> ring_dist n (home k) j"
      using ring_dist_inj [OF h i(1) j(1)] none i by auto
    ultimately have "ring_dist n (home k) j < ring_dist n (home k) i" by simp
    then show False using chain_okD [of n home t i k j] ok i j(1) none by (auto simp: table_ok_def)
  qed
  moreover have "k \<in> table_keys n t" if "t j = Some k" using that j(1) by (auto simp: table_keys_def)
  ultimately have "k \<in> table_keys n t \<longleftrightarrow> t j = Some k" "k \<notin> table_keys n t \<longleftrightarrow> t j = None"
    using j(2) by auto
  moreover have "\<forall>p < n. ring_dist n (home k) p < ring_dist n (home k) j \<longrightarrow> t p \<noteq> None"
    using first by simp
  ultimately show thesis using that [OF j(1,3)] by simp
qed

lemma table_ok_store:
  assumes "table_ok n home t" "j < n" "t j = None" "k \<notin> table_keys n t"
    and "\<And>p. p < n \<Longrightarrow> ring_dist n (home k) p < ring_dist n (home k) j \<Longrightarrow> t p \<noteq> None"
  shows "table_ok n home (t(j := Some k))"
  using assms unfolding table_ok_def chain_ok_def keys_inj_def table_keys_def
  by (auto split: if_splits)

lemma table_keys_store:
  "j < n \<Longrightarrow> t j = None \<Longrightarrow> table_keys n (t(j := Some k)) = insert k (table_keys n t)"
  unfolding table_keys_def by (auto split: if_splits) (metis option.distinct(1))

text \<open>The walk to a free slot, which ignores the keys it passes, stops where the walk for an absent key does.\<close>

lemma probe_free:
  assumes "table_ok n home t" "e < n" "t e = None" "k \<notin> table_keys n t"
  obtains j where "j < n" "t j = None" "probe n (ring_next n) (\<lambda>i. t i = None) (home k) = Some j"
    "table_ok n home (t(j := Some k))"
proof -
  have h: "home k < n" using assms(1) by (simp add: table_ok_def)
  obtain j where "j < n" "t j = None" "probe n (ring_next n) (\<lambda>i. t i = None) (home k) = Some j"
    "\<And>p. p < n \<Longrightarrow> ring_dist n (home k) p < ring_dist n (home k) j \<Longrightarrow> t p \<noteq> None"
    using probe_total [OF h assms(2), of "\<lambda>i. t i = None"] assms(3) by blast
  moreover from this have "table_ok n home (t(j := Some k))"
    using assms by (intro table_ok_store)
  ultimately show thesis by (intro that)
qed

section \<open>The backward shift of a deletion\<close>

text \<open>
  The table while the gap at \<open>h\<close> is being closed and the slots up to \<open>j\<close> have been looked at:
  a key's walk may meet the gap only where the key lies at or beyond \<open>j\<close>.
\<close>

definition gap_ok :: "nat \<Rightarrow> ('k \<Rightarrow> nat) \<Rightarrow> (nat \<Rightarrow> 'k option) \<Rightarrow> nat \<Rightarrow> nat \<Rightarrow> bool" where
  "gap_ok n home t h j \<longleftrightarrow> t h = None \<and>
     (\<forall>p < n. 0 < ring_dist n h p \<and> ring_dist n h p < ring_dist n h j \<longrightarrow> t p \<noteq> None) \<and>
     (\<forall>i < n. \<forall>k. t i = Some k \<longrightarrow>
        (\<forall>p < n. ring_dist n (home k) p < ring_dist n (home k) i \<longrightarrow>
           t p \<noteq> None \<or> p = h \<and> ring_dist n h j \<le> ring_dist n h i))"

lemma gap_okD:
  "gap_ok n home t h j \<Longrightarrow> i < n \<Longrightarrow> t i = Some k \<Longrightarrow> p < n \<Longrightarrow>
     ring_dist n (home k) p < ring_dist n (home k) i \<Longrightarrow>
     t p \<noteq> None \<or> p = h \<and> ring_dist n h j \<le> ring_dist n h i"
  unfolding gap_ok_def by blast

text \<open>The test of the code: the home of the key at \<open>j\<close> is not cyclically in \<open>(h, j]\<close>.\<close>

definition shift_test :: "nat \<Rightarrow> nat \<Rightarrow> nat \<Rightarrow> bool" where
  "shift_test idx j nj \<longleftrightarrow>
     (j > idx \<and> (nj \<le> idx \<or> nj > j)) \<or> (j < idx \<and> nj \<le> idx \<and> nj > j)"

lemma shift_test_dist:
  "h < n \<Longrightarrow> j < n \<Longrightarrow> s < n \<Longrightarrow> h \<noteq> j \<Longrightarrow>
     shift_test h j s \<longleftrightarrow> ring_dist n s h < ring_dist n s j"
  by (auto simp: shift_test_def ring_dist_def)

lemma gap_start:
  assumes "chain_ok n home t" "h < n" "1 < n"
  shows "gap_ok n home (t(h := None)) h (ring_next n h)"
proof -
  have d: "ring_dist n h (ring_next n h) = 1"
    using assms(2,3) by (auto simp: ring_dist_def ring_next_if)
  have "1 \<le> ring_dist n h i" if "i < n" "i \<noteq> h" for i
    using ring_dist_eq_0 [OF assms(2), of i] that by simp
  with assms d show ?thesis
    unfolding gap_ok_def chain_ok_def by (auto split: if_splits)
qed

lemma gap_stay:
  assumes gap: "gap_ok n home t h j" and "h < n" "j < n" "h \<noteq> j" "t j = Some k" "home k < n"
    and "\<not> shift_test h j (home k)" and "ring_next n j \<noteq> h"
  shows "gap_ok n home t h (ring_next n j)"
proof -
  have d: "ring_dist n h (ring_next n j) = Suc (ring_dist n h j)"
    using assms by (intro ring_dist_next_to) auto
  have path: "\<not> ring_dist n (home k) h < ring_dist n (home k) j"
    using assms shift_test_dist by blast
  have between: "t p \<noteq> None" if "p < n" "0 < ring_dist n h p" "ring_dist n h p < Suc (ring_dist n h j)" for p
  proof (cases "p = j")
    case False
    then have "ring_dist n h p \<noteq> ring_dist n h j" using ring_dist_inj assms(2,3) that by blast
    then show ?thesis using gap that by (auto simp: gap_ok_def)
  qed (use assms in simp)
  have later: "Suc (ring_dist n h j) \<le> ring_dist n h i"
    if "i < n" "t i = Some k'" "ring_dist n (home k') h < ring_dist n (home k') i"
      "ring_dist n h j \<le> ring_dist n h i" for i k'
  proof -
    have "i \<noteq> j" using that path assms(5) by auto
    then have "ring_dist n h j \<noteq> ring_dist n h i" using ring_dist_inj assms(2,3) that by blast
    then show ?thesis using that by simp
  qed
  show ?thesis
    using gap between later unfolding gap_ok_def d by blast
qed

lemma gap_move:
  assumes gap: "gap_ok n home t h j" and "h < n" "j < n" "h \<noteq> j" "t j = Some k" "home k < n" "1 < n"
    and "shift_test h j (home k)"
  shows "gap_ok n home (t(h := Some k, j := None)) j (ring_next n j)"
proof -
  have d: "ring_dist n j (ring_next n j) = 1"
    using assms(3,7) by (auto simp: ring_dist_def ring_next_if)
  have path: "ring_dist n (home k) h < ring_dist n (home k) j"
    using assms shift_test_dist by blast
  have pos: "1 \<le> ring_dist n j i" if "i < n" "i \<noteq> j" for i
    using ring_dist_eq_0 [OF assms(3), of i] that by simp
  have "(t(h := Some k, j := None)) p \<noteq> None \<or> p = j \<and> 1 \<le> ring_dist n j i"
    if i: "i < n" "(t(h := Some k, j := None)) i = Some k'" "p < n"
      "ring_dist n (home k') p < ring_dist n (home k') i" for i k' p
  proof (cases "i = h")
    case True
    then have "k' = k" using i assms(4) by simp
    then have "ring_dist n (home k) p < ring_dist n (home k) j" "p \<noteq> h"
      using i True path by auto
    then have "t p \<noteq> None" using gap_okD [OF gap assms(3,5) i(3)] by auto
    then show ?thesis using True assms(4) pos [OF assms(2)] by auto
  next
    case False
    then have "i \<noteq> j" "t i = Some k'" using i by (auto split: if_splits)
    then have "t p \<noteq> None \<or> p = h" using gap_okD [OF gap i(1) _ i(3,4)] by auto
    then show ?thesis using pos [OF i(1) \<open>i \<noteq> j\<close>] by auto
  qed
  then show ?thesis unfolding gap_ok_def d by auto
qed

lemma gap_done:
  assumes gap: "gap_ok n home t h j" and "h < n" "j < n" "h \<noteq> j" "t j = None" "\<And>k. home k < n"
  shows "chain_ok n home t"
  unfolding chain_ok_def
proof (intro allI impI)
  fix i k p assume i: "i < n" "t i = Some k" and p: "p < n" "ring_dist n (home k) p < ring_dist n (home k) i"
  show "t p \<noteq> None"
  proof (rule ccontr)
    assume "\<not> t p \<noteq> None"
    then have ph: "p = h" "ring_dist n h j \<le> ring_dist n h i"
      using gap_okD [OF gap i p] by auto
    have "i \<noteq> j" using i assms(5) by auto
    then have "ring_dist n (home k) j < ring_dist n (home k) i"
      using ph p i(1) assms(2-4) assms(6) [of k] by (auto simp: ring_dist_def split: if_splits)
    then have "t j \<noteq> None \<or> j = h" using gap_okD [OF gap i assms(3)] by auto
    then show False using assms by auto
  qed
qed

text \<open>The shift itself, on a table of keys with their values.\<close>

fun shift_slots ::
    "nat \<Rightarrow> (nat \<Rightarrow> nat) \<Rightarrow> ('k \<Rightarrow> nat) \<Rightarrow> (nat \<Rightarrow> ('k \<times> 'v) option) \<Rightarrow> nat \<Rightarrow> nat \<Rightarrow>
     (nat \<Rightarrow> ('k \<times> 'v) option) option" where
  "shift_slots 0 nxt home t h j = None"
| "shift_slots (Suc f) nxt home t h j =
     (case t j of
        None \<Rightarrow> Some t
      | Some (k, v) \<Rightarrow>
          if shift_test h j (home k)
          then shift_slots f nxt home (t(h := Some (k, v), j := None)) j (nxt j)
          else shift_slots f nxt home t h (nxt j))"

definition keys_of :: "(nat \<Rightarrow> ('k \<times> 'v) option) \<Rightarrow> nat \<Rightarrow> 'k option" where
  "keys_of t i = map_option fst (t i)"

definition table_entries :: "nat \<Rightarrow> (nat \<Rightarrow> ('k \<times> 'v) option) \<Rightarrow> ('k \<times> 'v) set" where
  "table_entries n t = {e. \<exists>i < n. t i = Some e}"

lemma keys_of_upd: "keys_of (t(i := x)) = (keys_of t)(i := map_option fst x)"
  by (auto simp: keys_of_def)

lemma keys_of_None [simp]: "keys_of t i = None \<longleftrightarrow> t i = None"
  by (simp add: keys_of_def)

lemma table_keys_entries: "table_keys n (keys_of t) = fst ` table_entries n t"
  by (force simp: table_keys_def table_entries_def keys_of_def)

lemma keys_inj_entries:
  assumes "keys_inj n (keys_of t)" "(k, v) \<in> table_entries n t" "(k, w) \<in> table_entries n t"
  shows "v = w"
proof -
  obtain i j where "i < n" "t i = Some (k, v)" "j < n" "t j = Some (k, w)"
    using assms(2,3) by (auto simp: table_entries_def)
  moreover from this have "i = j"
    using assms(1) unfolding keys_inj_def keys_of_def by fastforce
  ultimately show ?thesis by simp
qed

lemma table_entries_move:
  assumes "h < n" "j < n" "h \<noteq> j" "t h = None"
  shows "table_entries n (t(h := t j, j := None)) = table_entries n t"
  using assms unfolding table_entries_def by (auto split: if_splits) (metis option.distinct(1))

lemma keys_inj_move:
  assumes "keys_inj n (keys_of t)" "h < n" "j < n" "h \<noteq> j"
  shows "keys_inj n (keys_of (t(h := t j, j := None)))"
  using assms unfolding keys_inj_def keys_of_def by (auto split: if_splits)

lemma gap_before_free:
  assumes gap: "gap_ok n home (keys_of t) h j" and "h < n" "j < n" "e < n" "e \<noteq> h" "e \<noteq> j" "t e = None"
  shows "ring_next n j \<noteq> h"
proof
  assume nx: "ring_next n j = h"
  have "0 < ring_dist n h e" using ring_dist_eq_0 [OF assms(2), of e] assms(5) by auto
  then have "\<not> ring_dist n h e < ring_dist n h j"
    using gap assms(4,7) by (auto simp: gap_ok_def)
  moreover have "ring_dist n h e \<noteq> ring_dist n h j" using ring_dist_inj assms by blast
  moreover have "ring_dist n h j = n - 1"
    using nx assms(2,3) by (auto simp: ring_dist_def ring_next_if split: if_splits)
  ultimately show False using ring_dist_less [OF assms(2,4)] by simp
qed

lemma shift_slots_ok:
  assumes "gap_ok n home (keys_of t) h j" "keys_inj n (keys_of t)" "\<And>k. home k < n" "1 < n"
    and "h < n" "j < n" "h \<noteq> j" "e < n" "e \<noteq> h" "t e = None" "ring_dist n j e < f"
  shows "\<exists>t'. shift_slots f (ring_next n) home t h j = Some t' \<and> chain_ok n home (keys_of t') \<and>
    keys_inj n (keys_of t') \<and> table_entries n t' = table_entries n t"
  using assms
proof (induction f arbitrary: t h j)
  case (Suc f)
  note prems = Suc.prems
  show ?case
  proof (cases "t j")
    case None
    then have "chain_ok n home (keys_of t)"
      using prems by (intro gap_done [where h = h and j = j]) auto
    with None prems show ?thesis by auto
  next
    case (Some kv)
    obtain k v where kv: "kv = (k, v)" by (cases kv)
    have ej: "e \<noteq> j" using Some prems(10) by auto
    have j': "ring_next n j < n" "ring_next n j \<noteq> j"
      using prems(4,6) by (auto simp: ring_next_if)
    have de: "ring_dist n (ring_next n j) e < f"
      using ring_dist_next_from [of j n e] prems ej by simp
    have key: "keys_of t j = Some k" using Some kv by (simp add: keys_of_def)
    show ?thesis
    proof (cases "shift_test h j (home k)")
      case True
      let ?t = "t(h := Some (k, v), j := None)"
      have eq: "?t = t(h := t j, j := None)" using Some kv by simp
      have hn: "t h = None" using prems(1) by (simp add: gap_ok_def)
      have g: "gap_ok n home (keys_of ?t) j (ring_next n j)"
        using gap_move [OF prems(1,5,6,7) key prems(3,4) True] by (simp add: keys_of_upd)
      have inj: "keys_inj n (keys_of ?t)" using keys_inj_move [OF prems(2,5,6,7)] by (simp only: eq)
      have free: "?t e = None" using prems(9,10) ej by simp
      have "\<exists>t'. shift_slots f (ring_next n) home ?t j (ring_next n j) = Some t' \<and>
          chain_ok n home (keys_of t') \<and> keys_inj n (keys_of t') \<and>
          table_entries n t' = table_entries n ?t"
        by (rule Suc.IH [OF g inj prems(3,4,6) j'(1) j'(2) [symmetric] prems(8) ej free de])
      moreover have "table_entries n ?t = table_entries n t"
        unfolding eq by (rule table_entries_move [of h n j t, OF prems(5-7) hn])
      ultimately show ?thesis using Some kv True by (simp only: shift_slots.simps) simp
    next
      case False
      have nh: "ring_next n j \<noteq> h" using prems ej by (intro gap_before_free [where e = e])
      then have g: "gap_ok n home (keys_of t) h (ring_next n j)"
        using gap_stay [OF prems(1,5,6,7) key prems(3) False] by simp
      have "\<exists>t'. shift_slots f (ring_next n) home t h (ring_next n j) = Some t' \<and>
          chain_ok n home (keys_of t') \<and> keys_inj n (keys_of t') \<and>
          table_entries n t' = table_entries n t"
        by (rule Suc.IH [OF g prems(2-5) j'(1) nh [symmetric] prems(8-10) de])
      then show ?thesis using Some kv False by simp
    qed
  qed
qed simp

lemma delete_slots_ok:
  assumes ok: "table_ok n home (keys_of t)" and h: "h < n" "t h = Some (k, v)"
    and e: "e < n" "t e = None"
  shows "\<exists>t'. shift_slots n (ring_next n) home (t(h := None)) h (ring_next n h) = Some t' \<and>
    table_ok n home (keys_of t') \<and> table_entries n t' = table_entries n t - {(k, v)}"
proof -
  have eh: "e \<noteq> h" using h e by auto
  then have n: "1 < n" using h(1) e(1) by linarith
  have home: "\<And>k. home k < n" and inj: "keys_inj n (keys_of t)" and chain: "chain_ok n home (keys_of t)"
    using ok by (auto simp: table_ok_def)
  have j: "ring_next n h < n" "h \<noteq> ring_next n h" using h(1) n by (auto simp: ring_next_if)
  have inj': "keys_inj n (keys_of (t(h := None)))"
    using inj by (auto simp: keys_inj_def keys_of_def)
  have "table_entries n (t(h := None)) = table_entries n t - {(k, v)}"
  proof -
    have "i = h" if "i < n" "t i = Some (k, v)" for i
    proof -
      have "keys_of t i = Some k" "keys_of t h = Some k" using that h by (simp_all add: keys_of_def)
      then show ?thesis using inj that(1) h(1) unfolding keys_inj_def by blast
    qed
    then have "(\<exists>i<n. (t(h := None)) i = Some x) \<longleftrightarrow> (\<exists>i<n. t i = Some x) \<and> x \<noteq> (k, v)" for x
      using h by (metis fun_upd_apply option.distinct(1) option.inject)
    then show ?thesis unfolding table_entries_def by blast
  qed
  moreover have "\<exists>t'. shift_slots n (ring_next n) home (t(h := None)) h (ring_next n h) = Some t' \<and>
      chain_ok n home (keys_of t') \<and> keys_inj n (keys_of t') \<and>
      table_entries n t' = table_entries n (t(h := None))"
  proof (rule shift_slots_ok [OF _ inj' home n h(1) j e(1) eh])
    show "gap_ok n home (keys_of (t(h := None))) h (ring_next n h)"
      using gap_start [OF chain h(1) n] by (simp add: keys_of_upd)
  qed (use e j ring_dist_less eh in simp_all)
  ultimately show ?thesis using home by (auto simp: table_ok_def)
qed

end
