(* ===== verification/IntIntHash.thy ===== *)
theory IntIntHash
  imports Probe "HOL-Library.Monad_Syntax"
begin

unbundle bit_operations_syntax

text \<open>
  The Integer-to-Integer Hash of the runtime (\<^verbatim>\<open>lib/sp_hash.c\<close>, \<^verbatim>\<open>lib/sp_hash.h\<close>): an
  open-addressing table with parallel arrays of keys, values and used marks, an array of the
  keys in insertion order, and a bitmap of nil values that exists from the first nil value on.

  The record is the C struct; an array is a list of \<open>ih_cap\<close> entries, the bitmap a list of bits,
  and \<^verbatim>\<open>sp_oint\<close> (an Integer or nil) an option. The entries of the order array beyond
  \<open>ih_len\<close> are never read; a fresh array holds zeroes there. The receiver is a live table: the
  checks that raise for a NULL receiver, the collector's roots and byte counts are left out. A
  walk over the slots is given as many steps as there are slots; the result \<^const>\<open>None\<close> of an
  operation says that such a walk did not end, and the lemmas show that it never is the result.

  The specification is an association list in insertion order. The locale \<open>ordered_map\<close> states
  the contract of one key-value table with an insertion order, proves what the operations that
  go through it do (copying, merging, comparing), and is interpreted on the code's operations.
\<close>

section \<open>The table and its operations\<close>

record IntIntHash =
  ih_keys :: "int list"
  ih_vals :: "int list"
  ih_order :: "int list"
  ih_used :: "bool list"
  ih_len :: nat
  ih_cap :: nat
  ih_mask :: nat
  ih_default_v :: int
  ih_default_nil :: bool
  ih_vnil :: "bool list option"

definition istr_idx :: "nat \<Rightarrow> int \<Rightarrow> nat" where
  "istr_idx msk k = unat ((of_int k * 11400714819323198485 :: 64 word) AND of_nat msk)"

definition ih_next :: "IntIntHash \<Rightarrow> nat \<Rightarrow> nat" where
  "ih_next h i = (i + 1) AND ih_mask h"

definition sp_IntIntHash_new :: IntIntHash where
  "sp_IntIntHash_new =
     \<lparr>ih_keys = replicate 16 0, ih_vals = replicate 16 0, ih_order = replicate 16 0,
      ih_used = replicate 16 False, ih_len = 0, ih_cap = 16, ih_mask = 15,
      ih_default_v = 0, ih_default_nil = True, ih_vnil = None\<rparr>"

definition sp_IntIntHash_new_with_default :: "int \<Rightarrow> IntIntHash" where
  "sp_IntIntHash_new_with_default d =
     sp_IntIntHash_new\<lparr>ih_default_v := d, ih_default_nil := False\<rparr>"

definition SP_HV_NIL :: "IntIntHash \<Rightarrow> nat \<Rightarrow> bool" where
  "SP_HV_NIL h i = (case ih_vnil h of None \<Rightarrow> False | Some b \<Rightarrow> b ! i)"

definition nilbit_clr :: "IntIntHash \<Rightarrow> nat \<Rightarrow> IntIntHash" where
  "nilbit_clr h i = h\<lparr>ih_vnil := map_option (\<lambda>b. b[i := False]) (ih_vnil h)\<rparr>"

definition nilbit_set :: "IntIntHash \<Rightarrow> nat \<Rightarrow> IntIntHash" where
  "nilbit_set h i = h\<lparr>ih_vnil := map_option (\<lambda>b. b[i := True]) (ih_vnil h)\<rparr>"

text \<open>The loop \<^verbatim>\<open>while(h->used[idx]){if(h->keys[idx]==k)...;idx=(idx+1)&h->mask;}\<close> every operation has.\<close>

definition ih_walk :: "IntIntHash \<Rightarrow> int \<Rightarrow> nat option" where
  "ih_walk h k =
     probe (ih_cap h) (ih_next h) (\<lambda>i. \<not> ih_used h ! i \<or> ih_keys h ! i = k) (istr_idx (ih_mask h) k)"

text \<open>Growing: the entries of the old slots are stored, slot by slot, in a table twice as large.\<close>

definition ih_rehash_slot :: "IntIntHash \<Rightarrow> IntIntHash \<Rightarrow> nat \<Rightarrow> IntIntHash option" where
  "ih_rehash_slot old h i =
     (if \<not> ih_used old ! i then Some h
      else do {
        di \<leftarrow> probe (ih_cap h) (ih_next h) (\<lambda>i. \<not> ih_used h ! i) (istr_idx (ih_mask h) (ih_keys old ! i));
        let h = h\<lparr>ih_used := (ih_used h)[di := True], ih_keys := (ih_keys h)[di := ih_keys old ! i],
                  ih_vals := (ih_vals h)[di := ih_vals old ! i]\<rparr>;
        Some (if SP_HV_NIL old i then nilbit_set h di else h)
      })"

fun ih_rehash :: "IntIntHash \<Rightarrow> IntIntHash \<Rightarrow> nat list \<Rightarrow> IntIntHash option" where
  "ih_rehash old h [] = Some h"
| "ih_rehash old h (i # is) = do { h \<leftarrow> ih_rehash_slot old h i; ih_rehash old h is }"

definition sp_IntIntHash_grow :: "IntIntHash \<Rightarrow> IntIntHash option" where
  "sp_IntIntHash_grow old =
     (let cap = ih_cap old * 2;
          h = old\<lparr>ih_cap := cap, ih_mask := cap - 1, ih_keys := replicate cap 0,
                  ih_vals := replicate cap 0, ih_used := replicate cap False,
                  ih_order := replicate cap 0,
                  ih_vnil := map_option (\<lambda>_. replicate cap False) (ih_vnil old)\<rparr>
      in do {
        h \<leftarrow> ih_rehash old h [0..<ih_cap old];
        Some (h\<lparr>ih_order := take (ih_len old) (ih_order old) @ drop (ih_len old) (ih_order h)\<rparr>)
      })"

definition sp_IntIntHash_set :: "IntIntHash \<Rightarrow> int \<Rightarrow> int \<Rightarrow> IntIntHash option" where
  "sp_IntIntHash_set h k v = do {
     h \<leftarrow> (if ih_len h * 2 \<ge> ih_cap h then sp_IntIntHash_grow h else Some h);
     idx \<leftarrow> ih_walk h k;
     Some (if ih_used h ! idx
       then nilbit_clr (h\<lparr>ih_vals := (ih_vals h)[idx := v]\<rparr>) idx
       else nilbit_clr (h\<lparr>ih_used := (ih_used h)[idx := True], ih_keys := (ih_keys h)[idx := k],
              ih_vals := (ih_vals h)[idx := v], ih_order := (ih_order h)[ih_len h := k],
              ih_len := ih_len h + 1\<rparr>) idx)
   }"

text \<open>The slot of a key; the inner \<^const>\<open>None\<close> is the answer -1.\<close>

definition sp_IntIntHash_slot :: "IntIntHash \<Rightarrow> int \<Rightarrow> nat option option" where
  "sp_IntIntHash_slot h k = do {
     idx \<leftarrow> ih_walk h k;
     Some (if ih_used h ! idx then Some idx else None)
   }"

definition sp_IntIntHash_set_nil :: "IntIntHash \<Rightarrow> int \<Rightarrow> IntIntHash option" where
  "sp_IntIntHash_set_nil h k = do {
     h \<leftarrow> sp_IntIntHash_set h k 0;
     idx \<leftarrow> sp_IntIntHash_slot h k;
     Some (case idx of
         None \<Rightarrow> h
       | Some i \<Rightarrow>
           nilbit_set (if ih_vnil h = None then h\<lparr>ih_vnil := Some (replicate (ih_cap h) False)\<rparr> else h) i)
   }"

definition sp_IntIntHash_oset :: "IntIntHash \<Rightarrow> int \<Rightarrow> int option \<Rightarrow> IntIntHash option" where
  "sp_IntIntHash_oset h k v =
     (case v of None \<Rightarrow> sp_IntIntHash_set_nil h k | Some x \<Rightarrow> sp_IntIntHash_set h k x)"

definition sp_IntIntHash_vget :: "IntIntHash \<Rightarrow> int \<Rightarrow> int option option" where
  "sp_IntIntHash_vget h k = do {
     idx \<leftarrow> sp_IntIntHash_slot h k;
     Some (case idx of
         None \<Rightarrow> None
       | Some i \<Rightarrow> if SP_HV_NIL h i then None else Some (ih_vals h ! i))
   }"

definition sp_IntIntHash_get :: "IntIntHash \<Rightarrow> int \<Rightarrow> int res option" where
  "sp_IntIntHash_get h k = do {
     idx \<leftarrow> ih_walk h k;
     Some (if ih_used h ! idx
       then (if SP_HV_NIL h idx
             then Inl (RbError ''TypeError'' ''nil value read as an Integer from a hash Spinel typed with Integer values (the hash was not marked for nil values)'')
             else Inr (ih_vals h ! idx))
       else Inr (ih_default_v h))
   }"

definition sp_IntIntHash_oget :: "IntIntHash \<Rightarrow> int \<Rightarrow> int option option" where
  "sp_IntIntHash_oget h k = do {
     idx \<leftarrow> ih_walk h k;
     Some (if ih_used h ! idx
       then (if SP_HV_NIL h idx then None else Some (ih_vals h ! idx))
       else (if ih_default_nil h then None else Some (ih_default_v h)))
   }"

definition sp_IntIntHash_has_key :: "IntIntHash \<Rightarrow> int \<Rightarrow> bool option" where
  "sp_IntIntHash_has_key h k = do { idx \<leftarrow> ih_walk h k; Some (ih_used h ! idx) }"

definition sp_IntIntHash_fetch_or :: "IntIntHash \<Rightarrow> int \<Rightarrow> int option \<Rightarrow> int option option" where
  "sp_IntIntHash_fetch_or h k d = do {
     idx \<leftarrow> ih_walk h k;
     Some (if ih_used h ! idx
       then (if SP_HV_NIL h idx then None else Some (ih_vals h ! idx))
       else d)
   }"

text \<open>
  Dropping a key from the order: the entries after its position, or none where it is absent,
  move down by one. The last of the \<open>len\<close> entries stays as it was.
\<close>

fun order_index :: "int list \<Rightarrow> int \<Rightarrow> nat" where
  "order_index [] k = 0"
| "order_index (x # xs) k = (if x \<noteq> k then Suc (order_index xs k) else 0)"

definition sp_order_drop_int :: "int list \<Rightarrow> nat \<Rightarrow> int \<Rightarrow> int list" where
  "sp_order_drop_int order len k =
     (let i = order_index (take len order) k
      in if i + 1 < len
         then take i order @ take (len - 1 - i) (drop (i + 1) order) @ drop (len - 1) order
         else order)"

fun ih_shift :: "nat \<Rightarrow> IntIntHash \<Rightarrow> nat \<Rightarrow> nat \<Rightarrow> IntIntHash option" where
  "ih_shift 0 h idx j = None"
| "ih_shift (Suc f) h idx j =
     (if \<not> ih_used h ! j then Some h
      else if shift_test idx j (istr_idx (ih_mask h) (ih_keys h ! j))
      then
        (let h' = h\<lparr>ih_keys := (ih_keys h)[idx := ih_keys h ! j], ih_vals := (ih_vals h)[idx := ih_vals h ! j],
                    ih_used := (ih_used h)[idx := True, j := False]\<rparr>;
             h' = (if SP_HV_NIL h j then nilbit_set h' idx else h');
             h' = nilbit_clr h' j
         in ih_shift f h' j (ih_next h j))
      else ih_shift f h idx (ih_next h j))"

definition sp_IntIntHash_delete :: "IntIntHash \<Rightarrow> int \<Rightarrow> IntIntHash option" where
  "sp_IntIntHash_delete h k = do {
     idx \<leftarrow> ih_walk h k;
     (if ih_used h ! idx
      then
        (let h = h\<lparr>ih_order := sp_order_drop_int (ih_order h) (ih_len h) k,
                   ih_used := (ih_used h)[idx := False]\<rparr>;
             h = nilbit_clr h idx;
             h = h\<lparr>ih_len := ih_len h - 1\<rparr>
         in ih_shift (ih_cap h) h idx (ih_next h idx))
      else Some h)
   }"

definition sp_IntIntHash_delete_o :: "IntIntHash \<Rightarrow> int \<Rightarrow> (int option \<times> IntIntHash) option" where
  "sp_IntIntHash_delete_o h k = do {
     v \<leftarrow> sp_IntIntHash_vget h k;
     h \<leftarrow> sp_IntIntHash_delete h k;
     Some (v, h)
   }"

definition sp_IntIntHash_length :: "IntIntHash \<Rightarrow> nat" where
  "sp_IntIntHash_length h = ih_len h"

definition sp_IntIntHash_keys :: "IntIntHash \<Rightarrow> int list" where
  "sp_IntIntHash_keys h = map (\<lambda>i. ih_order h ! i) [0..<ih_len h]"

fun ih_vgets :: "IntIntHash \<Rightarrow> int list \<Rightarrow> int option list option" where
  "ih_vgets h [] = Some []"
| "ih_vgets h (k # ks) = do { v \<leftarrow> sp_IntIntHash_vget h k; vs \<leftarrow> ih_vgets h ks; Some (v # vs) }"

definition sp_IntIntHash_values :: "IntIntHash \<Rightarrow> int option list option" where
  "sp_IntIntHash_values h = ih_vgets h (sp_IntIntHash_keys h)"

text \<open>The loop that stores every entry of one table in another, in order.\<close>

fun ih_store_all :: "IntIntHash \<Rightarrow> IntIntHash \<Rightarrow> int list \<Rightarrow> IntIntHash option" where
  "ih_store_all r h [] = Some r"
| "ih_store_all r h (k # ks) = do {
     v \<leftarrow> sp_IntIntHash_vget h k;
     r \<leftarrow> sp_IntIntHash_oset r k v;
     ih_store_all r h ks
   }"

definition ih_like :: "IntIntHash \<Rightarrow> IntIntHash" where
  "ih_like h = sp_IntIntHash_new\<lparr>ih_default_v := ih_default_v h, ih_default_nil := ih_default_nil h\<rparr>"

definition sp_IntIntHash_dup :: "IntIntHash \<Rightarrow> IntIntHash option" where
  "sp_IntIntHash_dup h = ih_store_all (ih_like h) h (sp_IntIntHash_keys h)"

definition sp_IntIntHash_merge :: "IntIntHash \<Rightarrow> IntIntHash option \<Rightarrow> IntIntHash option" where
  "sp_IntIntHash_merge a b = do {
     r \<leftarrow> ih_store_all (ih_like a) a (sp_IntIntHash_keys a);
     (case b of None \<Rightarrow> Some r | Some b \<Rightarrow> ih_store_all r b (sp_IntIntHash_keys b))
   }"

text \<open>The two tables of an update or a replacement are distinct objects; for one object the code does nothing.\<close>

definition sp_IntIntHash_update :: "IntIntHash \<Rightarrow> IntIntHash option \<Rightarrow> IntIntHash option" where
  "sp_IntIntHash_update a b =
     (case b of None \<Rightarrow> Some a | Some b \<Rightarrow> ih_store_all a b (sp_IntIntHash_keys b))"

definition sp_IntIntHash_clear :: "IntIntHash \<Rightarrow> IntIntHash" where
  "sp_IntIntHash_clear h =
     h\<lparr>ih_used := replicate (ih_cap h) False,
       ih_vnil := map_option (\<lambda>b. replicate (length b) False) (ih_vnil h), ih_len := 0\<rparr>"

definition sp_IntIntHash_replace :: "IntIntHash \<Rightarrow> IntIntHash option \<Rightarrow> IntIntHash option" where
  "sp_IntIntHash_replace h b =
     (case b of None \<Rightarrow> Some (sp_IntIntHash_clear h)
      | Some b \<Rightarrow> ih_store_all (sp_IntIntHash_clear h) b (sp_IntIntHash_keys b))"

fun ih_any_value :: "IntIntHash \<Rightarrow> (int option \<Rightarrow> bool) \<Rightarrow> int list \<Rightarrow> bool option" where
  "ih_any_value h P [] = Some False"
| "ih_any_value h P (k # ks) = do {
     v \<leftarrow> sp_IntIntHash_vget h k;
     (if P v then Some True else ih_any_value h P ks)
   }"

definition sp_IntIntHash_has_value :: "IntIntHash \<Rightarrow> int \<Rightarrow> bool option" where
  "sp_IntIntHash_has_value h v = ih_any_value h (\<lambda>x. x = Some v) (sp_IntIntHash_keys h)"

definition sp_IntIntHash_has_nil_value :: "IntIntHash \<Rightarrow> bool option" where
  "sp_IntIntHash_has_nil_value h =
     (if ih_vnil h = None then Some False
      else ih_any_value h (\<lambda>x. x = None) (sp_IntIntHash_keys h))"

fun ih_eq_loop :: "IntIntHash \<Rightarrow> IntIntHash \<Rightarrow> int list \<Rightarrow> bool option" where
  "ih_eq_loop a b [] = Some True"
| "ih_eq_loop a b (k # ks) = do {
     there \<leftarrow> sp_IntIntHash_has_key b k;
     (if \<not> there then Some False
      else do {
        x \<leftarrow> sp_IntIntHash_vget a k;
        y \<leftarrow> sp_IntIntHash_vget b k;
        (if x \<noteq> y then Some False else ih_eq_loop a b ks)
      })
   }"

definition sp_IntIntHash_eq :: "IntIntHash \<Rightarrow> IntIntHash \<Rightarrow> bool option" where
  "sp_IntIntHash_eq a b =
     (if ih_len a \<noteq> ih_len b then Some False else ih_eq_loop a b (sp_IntIntHash_keys a))"

section \<open>The invariant\<close>

text \<open>A slot's entry: its key with its value, nil where the slot's bit says so.\<close>

definition ih_ent :: "IntIntHash \<Rightarrow> nat \<Rightarrow> (int \<times> int option) option" where
  "ih_ent h i =
     (if ih_used h ! i then Some (ih_keys h ! i, if SP_HV_NIL h i then None else Some (ih_vals h ! i))
      else None)"

definition ih_shape :: "IntIntHash \<Rightarrow> bool" where
  "ih_shape h \<longleftrightarrow> (\<exists>m > 0. ih_cap h = 2 ^ m) \<and> ih_mask h = ih_cap h - 1 \<and>
     length (ih_keys h) = ih_cap h \<and> length (ih_vals h) = ih_cap h \<and>
     length (ih_order h) = ih_cap h \<and> length (ih_used h) = ih_cap h \<and>
     (case ih_vnil h of None \<Rightarrow> True | Some b \<Rightarrow> length b = ih_cap h)"

abbreviation ih_slots :: "IntIntHash \<Rightarrow> nat \<Rightarrow> int option" where
  "ih_slots h \<equiv> keys_of (ih_ent h)"

abbreviation ih_home :: "IntIntHash \<Rightarrow> int \<Rightarrow> nat" where
  "ih_home h \<equiv> istr_idx (ih_mask h)"

definition ih_table :: "IntIntHash \<Rightarrow> bool" where
  "ih_table h \<longleftrightarrow> ih_shape h \<and> table_ok (ih_cap h) (ih_home h) (ih_slots h)"

definition ih_inv :: "IntIntHash \<Rightarrow> bool" where
  "ih_inv h \<longleftrightarrow> ih_table h \<and> ih_len h * 2 \<le> ih_cap h \<and>
     distinct (take (ih_len h) (ih_order h)) \<and>
     set (take (ih_len h) (ih_order h)) = table_keys (ih_cap h) (ih_slots h)"

text \<open>The abstract value: the entries in insertion order.\<close>

definition ih_map :: "IntIntHash \<Rightarrow> int \<Rightarrow> int option option" where
  "ih_map h = map_of (List.map_filter (ih_ent h) [0..<ih_cap h])"

definition ih_abs :: "IntIntHash \<Rightarrow> (int \<times> int option) list" where
  "ih_abs h = map (\<lambda>k. (k, the (ih_map h k))) (take (ih_len h) (ih_order h))"

lemma mask_and_mod: "x AND (2 ^ m - 1) = x mod (2 ^ m :: nat)"
  by (metis mask_eq_exp_minus_1 take_bit_eq_mask take_bit_eq_mod)

lemma ih_next_ring: "ih_shape h \<Longrightarrow> ih_next h = ring_next (ih_cap h)"
  by (rule ext) (auto simp: ih_next_def ring_next_def ih_shape_def mask_and_mod simp del: One_nat_def)

lemma ih_home_less: "ih_shape h \<Longrightarrow> ih_home h k < ih_cap h"
proof -
  assume s: "ih_shape h"
  have "ih_home h k \<le> unat (of_nat (ih_mask h) :: 64 word)"
    unfolding istr_idx_def by (simp add: word_le_nat_alt [symmetric] word_and_le1)
  also have "\<dots> \<le> ih_mask h"
    by (simp add: unat_of_nat)
  also have "\<dots> < ih_cap h" using s by (auto simp: ih_shape_def)
  finally show ?thesis .
qed

lemma ih_cap_pos: "ih_shape h \<Longrightarrow> 1 < ih_cap h"
proof -
  assume "ih_shape h"
  then obtain m where "m > 0" "ih_cap h = 2 ^ m" by (auto simp: ih_shape_def)
  then show ?thesis by (simp add: one_less_power del: One_nat_def)
qed

lemma ih_ent_None [simp]: "ih_ent h i = None \<longleftrightarrow> \<not> ih_used h ! i"
  by (simp add: ih_ent_def)

lemma ih_slots_simps:
  "ih_slots h i = None \<longleftrightarrow> \<not> ih_used h ! i"
  "ih_slots h i = Some k \<longleftrightarrow> ih_used h ! i \<and> ih_keys h ! i = k"
  by (auto simp: keys_of_def ih_ent_def)

lemma ih_walk_probe:
  "ih_shape h \<Longrightarrow> ih_walk h k =
     probe (ih_cap h) (ring_next (ih_cap h)) (\<lambda>i. ih_slots h i = None \<or> ih_slots h i = Some k) (ih_home h k)"
proof -
  have "(\<lambda>i. \<not> ih_used h ! i \<or> ih_keys h ! i = k) = (\<lambda>i. ih_slots h i = None \<or> ih_slots h i = Some k)"
    by (auto simp: ih_slots_simps)
  then show "ih_shape h \<Longrightarrow> ?thesis" by (simp add: ih_walk_def ih_next_ring)
qed

lemma ih_map_iff:
  assumes "ih_table h"
  shows "ih_map h k = Some v \<longleftrightarrow> (k, v) \<in> table_entries (ih_cap h) (ih_ent h)"
proof -
  have set: "set (List.map_filter (ih_ent h) [0..<ih_cap h]) = table_entries (ih_cap h) (ih_ent h)"
    unfolding List.map_filter_def table_entries_def by (force simp: image_iff simp del: ih_ent_None)
  have inj: "keys_inj (ih_cap h) (ih_slots h)" using assms by (simp add: ih_table_def table_ok_def)
  show ?thesis
  proof
    assume "(k, v) \<in> table_entries (ih_cap h) (ih_ent h)"
    moreover from this obtain w where "ih_map h k = Some w"
      unfolding ih_map_def set [symmetric] by (metis not_Some_eq weak_map_of_SomeI)
    moreover from this have "(k, w) \<in> table_entries (ih_cap h) (ih_ent h)"
      unfolding ih_map_def set [symmetric] by (rule map_of_SomeD)
    ultimately show "ih_map h k = Some v" using keys_inj_entries [OF inj] by auto
  qed (auto simp: ih_map_def set [symmetric] dest: map_of_SomeD)
qed

lemma ih_map_dom: "ih_table h \<Longrightarrow> dom (ih_map h) = table_keys (ih_cap h) (ih_slots h)"
  by (auto simp: dom_def ih_map_iff table_keys_entries image_iff) (metis fst_conv)

lemma ih_inv_free:
  assumes "ih_inv h"
  obtains e where "e < ih_cap h" "ih_slots h e = None"
proof -
  have inj: "keys_inj (ih_cap h) (ih_slots h)" using assms by (simp add: ih_inv_def ih_table_def table_ok_def)
  have "card (table_keys (ih_cap h) (ih_slots h)) \<le> ih_len h"
    using assms unfolding ih_inv_def by (metis card_length length_take min.cobounded2 order_trans)
  also have "\<dots> < ih_cap h" using assms ih_cap_pos [of h] by (auto simp: ih_inv_def ih_table_def)
  finally show thesis using that by (auto intro: free_slot [OF inj])
qed

text \<open>Where the walk for a key ends.\<close>

lemma ih_walk_ends:
  assumes "ih_inv h"
  obtains i where "i < ih_cap h" "ih_walk h k = Some i"
    "ih_used h ! i \<longleftrightarrow> k \<in> dom (ih_map h)"
    "ih_used h ! i \<longrightarrow> ih_ent h i = Some (k, the (ih_map h k)) \<and> ih_keys h ! i = k"
    "\<not> ih_used h ! i \<longrightarrow> table_ok (ih_cap h) (ih_home h) ((ih_slots h)(i := Some k))"
proof -
  have tab: "ih_table h" and shape: "ih_shape h" and ok: "table_ok (ih_cap h) (ih_home h) (ih_slots h)"
    using assms by (auto simp: ih_inv_def ih_table_def)
  obtain e where e: "e < ih_cap h" "ih_slots h e = None" using assms by (rule ih_inv_free)
  obtain i where i: "i < ih_cap h"
    "probe (ih_cap h) (ring_next (ih_cap h)) (\<lambda>i. ih_slots h i = None \<or> ih_slots h i = Some k) (ih_home h k) =
       Some i"
    "k \<in> table_keys (ih_cap h) (ih_slots h) \<longleftrightarrow> ih_slots h i = Some k"
    "k \<notin> table_keys (ih_cap h) (ih_slots h) \<longleftrightarrow> ih_slots h i = None"
    "\<forall>p < ih_cap h. ring_dist (ih_cap h) (ih_home h k) p < ring_dist (ih_cap h) (ih_home h k) i \<longrightarrow>
       ih_slots h p \<noteq> None"
    by (rule probe_key [OF ok e, of k])
  have walk: "ih_walk h k = Some i" using i(2) ih_walk_probe [OF shape, of k] by simp
  show thesis
  proof (rule that [OF i(1) walk])
    show used: "ih_used h ! i \<longleftrightarrow> k \<in> dom (ih_map h)"
      unfolding ih_map_dom [OF tab] using i(4) ih_slots_simps(1) [of h i] by argo
    show "ih_used h ! i \<longrightarrow> ih_ent h i = Some (k, the (ih_map h k)) \<and> ih_keys h ! i = k"
    proof
      assume u: "ih_used h ! i"
      then have "k \<in> table_keys (ih_cap h) (ih_slots h)" using used ih_map_dom [OF tab] by blast
      then have k: "ih_keys h ! i = k" using i(3) ih_slots_simps(2) [of h i k] by blast
      obtain v where v: "ih_ent h i = Some (k, v)" using u k by (simp add: ih_ent_def)
      then have "(k, v) \<in> table_entries (ih_cap h) (ih_ent h)"
        using i(1) by (auto simp: table_entries_def)
      then have "ih_map h k = Some v" using ih_map_iff [OF tab] by blast
      with v k show "ih_ent h i = Some (k, the (ih_map h k)) \<and> ih_keys h ! i = k" by simp
    qed
    show "\<not> ih_used h ! i \<longrightarrow> table_ok (ih_cap h) (ih_home h) ((ih_slots h)(i := Some k))"
    proof
      assume "\<not> ih_used h ! i"
      then have "ih_slots h i = None" "k \<notin> table_keys (ih_cap h) (ih_slots h)"
        using i(4) ih_slots_simps(1) [of h i] by argo+
      then show "table_ok (ih_cap h) (ih_home h) ((ih_slots h)(i := Some k))"
        using i(5) by (intro table_ok_store [OF ok i(1)]) blast+
    qed
  qed
qed

section \<open>Storing\<close>

text \<open>What no store or shift touches.\<close>

definition ih_frame :: "IntIntHash \<Rightarrow> nat \<times> nat \<times> int \<times> bool" where
  "ih_frame h = (ih_cap h, ih_mask h, ih_default_v h, ih_default_nil h)"

definition ih_ks :: "IntIntHash \<Rightarrow> int list" where
  "ih_ks h = take (ih_len h) (ih_order h)"

fun al_put :: "'k \<Rightarrow> 'v \<Rightarrow> ('k \<times> 'v) list \<Rightarrow> ('k \<times> 'v) list" where
  "al_put k v [] = [(k, v)]"
| "al_put k v ((k', v') # al) = (if k' = k then (k, v) # al else (k', v') # al_put k v al)"

lemma al_put_map:
  "distinct ks \<Longrightarrow> al_put k v (map (\<lambda>x. (x, f x)) ks) =
     map (\<lambda>x. (x, (f(k := v)) x)) (if k \<in> set ks then ks else ks @ [k])"
  by (induction ks) auto

lemma ih_abs_keys: "map fst (ih_abs h) = ih_ks h"
  by (simp add: ih_abs_def ih_ks_def comp_def)

lemma ih_map_eqI:
  assumes "ih_table h" "\<And>k v. (k, v) \<in> table_entries (ih_cap h) (ih_ent h) \<longleftrightarrow> m k = Some v"
  shows "ih_map h = m"
proof
  fix k
  show "ih_map h k = m k"
    using ih_map_iff [OF assms(1), of k] assms(2) [of k] by (metis not_Some_eq)
qed

lemma ih_abs_put:
  assumes "ih_map h' = (ih_map h)(k \<mapsto> v)" "dom (ih_map h) = set (ih_ks h)" "distinct (ih_ks h)"
    and "ih_ks h' = (if k \<in> dom (ih_map h) then ih_ks h else ih_ks h @ [k])"
  shows "ih_abs h' = al_put k v (ih_abs h)"
proof -
  have "ih_abs h' = map (\<lambda>x. (x, ((\<lambda>k. the (ih_map h k))(k := v)) x)) (ih_ks h')"
    unfolding ih_abs_def ih_ks_def [symmetric] assms(1) by simp
  also have "\<dots> = al_put k v (ih_abs h)"
    using al_put_map [OF assms(3), of k v "\<lambda>k. the (ih_map h k)"]
    unfolding ih_abs_def ih_ks_def [symmetric] assms(2,4) by simp
  finally show ?thesis .
qed

lemma ih_abs_del:
  assumes "ih_map h' = (ih_map h)(k := None)" "ih_ks h' = filter (\<lambda>x. x \<noteq> k) (ih_ks h)"
  shows "ih_abs h' = filter (\<lambda>e. fst e \<noteq> k) (ih_abs h)"
  using assms unfolding ih_abs_def ih_ks_def by (auto simp: filter_map comp_def)

lemma ih_ent_store:
  assumes "ih_shape h" "i < ih_cap h"
  shows "ih_ent (nilbit_clr (h\<lparr>ih_used := (ih_used h)[i := True], ih_keys := (ih_keys h)[i := k],
      ih_vals := (ih_vals h)[i := v]\<rparr>) i) = (ih_ent h)(i := Some (k, Some v))"
proof
  fix x
  show "ih_ent (nilbit_clr (h\<lparr>ih_used := (ih_used h)[i := True], ih_keys := (ih_keys h)[i := k],
      ih_vals := (ih_vals h)[i := v]\<rparr>) i) x = ((ih_ent h)(i := Some (k, Some v))) x"
    using assms by (cases "x = i"; cases "ih_vnil h")
      (simp_all add: ih_ent_def SP_HV_NIL_def nilbit_clr_def ih_shape_def)
qed

lemma table_entries_store:
  assumes "i < n" "t i = None"
  shows "table_entries n (t(i := Some e)) = insert e (table_entries n t)"
proof -
  have "(\<exists>j<n. (t(i := Some e)) j = Some x) \<longleftrightarrow> x = e \<or> (\<exists>j<n. t j = Some x)" for x
    using assms by (metis fun_upd_apply option.distinct(1) option.inject)
  then show ?thesis unfolding table_entries_def by blast
qed

lemma table_entries_upd:
  assumes "i < n" "t i = None \<and> k \<notin> fst ` table_entries n t \<or> (\<exists>w. t i = Some (k, w))"
    and "keys_inj n (keys_of t)"
  shows "(k', v') \<in> table_entries n (t(i := Some (k, v))) \<longleftrightarrow>
    (if k' = k then v' = v else (k', v') \<in> table_entries n t)"
proof -
  have other: "j = i" if "j < n" "t j = Some (k, w)" for j w
  proof -
    have "k \<in> fst ` table_entries n t" using that by (force simp: table_entries_def)
    then obtain u where "t i = Some (k, u)" using assms(2) by blast
    then have "keys_of t i = Some k" "keys_of t j = Some k" using that by (simp_all add: keys_of_def)
    then show ?thesis using assms(1,3) that(1) unfolding keys_inj_def by blast
  qed
  show ?thesis
  proof (cases "k' = k")
    case True
    then show ?thesis using other assms(1) unfolding table_entries_def by (auto split: if_splits)
  next
    case False
    then have "t i \<noteq> Some (k', v')" using assms(2) by auto
    with False show ?thesis using assms(1) unfolding table_entries_def by (auto split: if_splits)
  qed
qed

lemma set_nogrow:
  assumes inv: "ih_inv h" and room: "ih_len h * 2 < ih_cap h"
  shows "\<exists>h'. sp_IntIntHash_set h k v = Some h' \<and> ih_inv h' \<and>
    ih_map h' = (ih_map h)(k \<mapsto> Some v) \<and>
    ih_ks h' = (if k \<in> dom (ih_map h) then ih_ks h else ih_ks h @ [k]) \<and>
    ih_frame h' = ih_frame h"
proof -
  have tab: "ih_table h" and shape: "ih_shape h" and ok: "table_ok (ih_cap h) (ih_home h) (ih_slots h)"
    and inj: "keys_inj (ih_cap h) (ih_slots h)"
    using inv by (auto simp: ih_inv_def ih_table_def table_ok_def)
  obtain i where i: "i < ih_cap h" "ih_walk h k = Some i" "ih_used h ! i \<longleftrightarrow> k \<in> dom (ih_map h)"
    and hit: "ih_used h ! i \<longrightarrow> ih_ent h i = Some (k, the (ih_map h k)) \<and> ih_keys h ! i = k"
    and free: "\<not> ih_used h ! i \<longrightarrow> table_ok (ih_cap h) (ih_home h) ((ih_slots h)(i := Some k))"
    using inv by (rule ih_walk_ends [where k = k])
  define h1 where "h1 = nilbit_clr (h\<lparr>ih_used := (ih_used h)[i := True], ih_keys := (ih_keys h)[i := k],
    ih_vals := (ih_vals h)[i := v]\<rparr>) i"
  define h2 where "h2 = (if ih_used h ! i then h1
    else h1\<lparr>ih_order := (ih_order h)[ih_len h := k], ih_len := ih_len h + 1\<rparr>)"
  have same: "(ih_used h)[i := True] = ih_used h" "(ih_keys h)[i := k] = ih_keys h" if "ih_used h ! i"
    using that hit list_update_id [of "ih_used h" i] list_update_id [of "ih_keys h" i] by auto
  have set: "sp_IntIntHash_set h k v = Some h2"
  proof (cases "ih_used h ! i")
    case True
    then show ?thesis using room i(2) same [OF True]
      by (cases h) (simp add: sp_IntIntHash_set_def h2_def h1_def nilbit_clr_def)
  next
    case False
    then show ?thesis using room i(2)
      by (simp add: sp_IntIntHash_set_def h2_def h1_def nilbit_clr_def)
  qed
  have ent: "ih_ent h2 = (ih_ent h)(i := Some (k, Some v))"
  proof -
    have "ih_ent h2 = ih_ent h1" by (rule ext) (simp add: h2_def ih_ent_def SP_HV_NIL_def)
    then show ?thesis using ih_ent_store [OF shape i(1)] by (simp add: h1_def)
  qed
  have shape2: "ih_shape h2" using shape
    by (auto simp: h2_def h1_def nilbit_clr_def ih_shape_def split: option.splits)
  have frame: "ih_frame h2 = ih_frame h" by (simp add: ih_frame_def h2_def h1_def nilbit_clr_def)
  have slots: "ih_slots h2 = (ih_slots h)(i := Some k)" by (simp add: ent keys_of_upd)
  have ok2: "table_ok (ih_cap h) (ih_home h) ((ih_slots h)(i := Some k))"
  proof (cases "ih_used h ! i")
    case True
    then have "ih_slots h i = Some k" using hit by (simp add: ih_slots_simps)
    then show ?thesis using ok by (simp add: fun_upd_idem)
  qed (use free in blast)
  then have tab2: "ih_table h2" using shape2 slots frame by (simp add: ih_table_def ih_frame_def)
  have map2: "ih_map h2 = (ih_map h)(k \<mapsto> Some v)"
  proof (rule ih_map_eqI [OF tab2])
    fix k' v'
    have "ih_ent h i = None \<and> k \<notin> fst ` table_entries (ih_cap h) (ih_ent h) \<or> (\<exists>w. ih_ent h i = Some (k, w))"
      using hit i(3) by (auto simp: ih_map_dom [OF tab] table_keys_entries simp del: not_None_eq)
    from table_entries_upd [OF i(1) this inj, of k' v' "Some v"]
    show "(k', v') \<in> table_entries (ih_cap h2) (ih_ent h2) \<longleftrightarrow> ((ih_map h)(k \<mapsto> Some v)) k' = Some v'"
      using frame ih_map_iff [OF tab, of k' v'] by (auto simp: ent ih_frame_def)
  qed
  have len: "ih_len h < length (ih_order h)" using room shape by (simp add: ih_shape_def)
  then have ks: "ih_ks h2 = (if k \<in> dom (ih_map h) then ih_ks h else ih_ks h @ [k])"
    using i(3) by (auto simp: ih_ks_def h2_def h1_def nilbit_clr_def take_Suc_conv_app_nth)
  have dom: "dom (ih_map h) = set (ih_ks h)" "distinct (ih_ks h)"
    using inv by (auto simp: ih_inv_def ih_ks_def ih_map_dom [OF tab])
  have "even (ih_cap h)" using shape by (auto simp: ih_shape_def)
  then have "ih_len h2 * 2 \<le> ih_cap h2"
    using room frame by (auto simp: h2_def h1_def nilbit_clr_def ih_frame_def elim!: evenE)
  then have "ih_inv h2"
    using tab2 map2 ks dom ih_map_dom [OF tab2]
    unfolding ih_inv_def ih_ks_def [symmetric] by (auto simp: insert_absorb)
  with set map2 ks frame show ?thesis by blast
qed

section \<open>Growing\<close>

text \<open>A free slot's nil bit is clear in the table that is being filled.\<close>

definition ih_clean :: "IntIntHash \<Rightarrow> bool" where
  "ih_clean h \<longleftrightarrow> (\<forall>i < ih_cap h. \<not> ih_used h ! i \<longrightarrow> \<not> SP_HV_NIL h i)"

definition slot_entries :: "IntIntHash \<Rightarrow> nat set \<Rightarrow> (int \<times> int option) set" where
  "slot_entries h J = {e. \<exists>i \<in> J. ih_ent h i = Some e}"

definition ih_filling :: "IntIntHash \<Rightarrow> nat set \<Rightarrow> IntIntHash \<Rightarrow> bool" where
  "ih_filling old J h \<longleftrightarrow> ih_table h \<and> ih_clean h \<and> ih_cap h = ih_cap old * 2 \<and>
     (ih_vnil h = None \<longleftrightarrow> ih_vnil old = None) \<and>
     table_entries (ih_cap h) (ih_ent h) = slot_entries old J"

lemma rehash_slot_used:
  assumes fill: "ih_filling old J h" and old: "ih_table old" and i: "i < ih_cap old" "i \<notin> J" "J \<subseteq> {..<ih_cap old}"
    and used: "ih_used old ! i"
  shows "\<exists>h'. ih_rehash_slot old h i = Some h' \<and> ih_filling old (insert i J) h' \<and>
    ih_frame h' = ih_frame h \<and> ih_len h' = ih_len h \<and> ih_order h' = ih_order h"
proof -
  let ?k = "ih_keys old ! i"
  obtain v where v: "ih_ent old i = Some (?k, v)"
    "v = (if SP_HV_NIL old i then None else Some (ih_vals old ! i))"
    using used by (simp add: ih_ent_def)
  have shape: "ih_shape h" and ok: "table_ok (ih_cap h) (ih_home h) (ih_slots h)"
    and inj: "keys_inj (ih_cap h) (ih_slots h)" and ent: "table_entries (ih_cap h) (ih_ent h) = slot_entries old J"
    and cap: "ih_cap h = ih_cap old * 2" and clean: "ih_clean h"
    and vnil: "ih_vnil h = None \<longleftrightarrow> ih_vnil old = None"
    using fill by (auto simp: ih_filling_def ih_table_def table_ok_def)
  have oinj: "keys_inj (ih_cap old) (ih_slots old)" using old by (simp add: ih_table_def table_ok_def)
  have new: "?k \<notin> table_keys (ih_cap h) (ih_slots h)"
  proof
    assume "?k \<in> table_keys (ih_cap h) (ih_slots h)"
    then obtain j w where j: "j \<in> J" "ih_ent old j = Some (?k, w)"
      by (auto simp: table_keys_entries ent slot_entries_def)
    then have "ih_slots old j = Some ?k" "ih_slots old i = Some ?k" using v by (simp_all add: keys_of_def)
    then have "j = i" using oinj i j(1) unfolding keys_inj_def by blast
    with i j show False by simp
  qed
  have "table_keys (ih_cap h) (ih_slots h) \<subseteq> (\<lambda>i. ih_keys old ! i) ` {..<ih_cap old}"
    using i(3) by (auto simp: table_keys_entries ent slot_entries_def ih_ent_def split: if_splits)
  then have "card (table_keys (ih_cap h) (ih_slots h)) \<le> ih_cap old"
    by (metis card_image_le card_lessThan card_mono finite_imageI finite_lessThan order_trans)
  also have "\<dots> < ih_cap h" using cap ih_cap_pos [OF shape] by simp
  finally obtain e where e: "e < ih_cap h" "ih_slots h e = None" by (rule free_slot [OF inj])
  obtain d where d: "d < ih_cap h" "ih_slots h d = None"
    "probe (ih_cap h) (ring_next (ih_cap h)) (\<lambda>i. ih_slots h i = None) (ih_home h ?k) = Some d"
    "table_ok (ih_cap h) (ih_home h) ((ih_slots h)(d := Some ?k))"
    by (rule probe_free [OF ok e new])
  have walk: "probe (ih_cap h) (ih_next h) (\<lambda>i. \<not> ih_used h ! i) (ih_home h ?k) = Some d"
    using d(3) by (simp add: ih_next_ring [OF shape])
  define h1 where "h1 = h\<lparr>ih_used := (ih_used h)[d := True], ih_keys := (ih_keys h)[d := ?k],
    ih_vals := (ih_vals h)[d := ih_vals old ! i]\<rparr>"
  define h2 where "h2 = (if SP_HV_NIL old i then nilbit_set h1 d else h1)"
  have res: "ih_rehash_slot old h i = Some h2"
    using used walk by (simp add: ih_rehash_slot_def h2_def h1_def)
  have bit: "\<not> SP_HV_NIL h d" using clean d(1,2) by (simp add: ih_clean_def)
  have ent2: "ih_ent h2 = (ih_ent h)(d := Some (?k, v))"
  proof
    fix x
    show "ih_ent h2 x = ((ih_ent h)(d := Some (?k, v))) x"
      using shape d(1) bit vnil unfolding v(2)
      by (cases "x = d"; cases "ih_vnil h"; cases "ih_vnil old")
        (simp_all add: ih_ent_def SP_HV_NIL_def nilbit_set_def h2_def h1_def ih_shape_def)
  qed
  have frame: "ih_frame h2 = ih_frame h" by (simp add: ih_frame_def h2_def h1_def nilbit_set_def)
  have "ih_table h2"
    using shape d(4) frame unfolding ih_table_def ent2 keys_of_upd
    by (auto simp: ih_frame_def h2_def h1_def nilbit_set_def ih_shape_def split: option.splits)
  moreover have "ih_clean h2"
    using clean d(1) shape unfolding ih_clean_def
    by (auto simp: h2_def h1_def nilbit_set_def SP_HV_NIL_def nth_list_update ih_shape_def split: option.splits if_splits)
  moreover have "table_entries (ih_cap h2) (ih_ent h2) = slot_entries old (insert i J)"
  proof -
    have "table_entries (ih_cap h) (ih_ent h2) = insert (?k, v) (slot_entries old J)"
      unfolding ent2 ent [symmetric] using d(1,2) by (intro table_entries_store) auto
    then show ?thesis using v(1) frame by (auto simp: slot_entries_def ih_frame_def)
  qed
  moreover have "ih_vnil h2 = None \<longleftrightarrow> ih_vnil old = None"
    using vnil by (simp add: h2_def h1_def nilbit_set_def)
  ultimately have "ih_filling old (insert i J) h2"
    using cap frame by (simp add: ih_filling_def ih_frame_def)
  then show ?thesis using res frame by (simp add: h2_def h1_def nilbit_set_def)
qed

lemma rehash_ok:
  assumes "ih_filling old J h" "ih_table old" "distinct is" "set is \<subseteq> {..<ih_cap old}"
    "J \<subseteq> {..<ih_cap old}" "J \<inter> set is = {}"
  shows "\<exists>h'. ih_rehash old h is = Some h' \<and> ih_filling old (J \<union> set is) h' \<and>
    ih_frame h' = ih_frame h \<and> ih_len h' = ih_len h \<and> ih_order h' = ih_order h"
  using assms
proof (induction "is" arbitrary: h J)
  case (Cons i "is")
  have "\<exists>h'. ih_rehash_slot old h i = Some h' \<and> ih_filling old (insert i J) h' \<and>
      ih_frame h' = ih_frame h \<and> ih_len h' = ih_len h \<and> ih_order h' = ih_order h"
  proof (cases "ih_used old ! i")
    case True
    then show ?thesis using Cons.prems by (intro rehash_slot_used) auto
  next
    case False
    then have "slot_entries old (insert i J) = slot_entries old J"
      by (auto simp: slot_entries_def ih_ent_def)
    with False Cons.prems(1) show ?thesis by (auto simp: ih_rehash_slot_def ih_filling_def)
  qed
  then obtain h1 where h1: "ih_rehash_slot old h i = Some h1" "ih_filling old (insert i J) h1"
    "ih_frame h1 = ih_frame h" "ih_len h1 = ih_len h" "ih_order h1 = ih_order h" by blast
  have "\<exists>h'. ih_rehash old h1 is = Some h' \<and> ih_filling old (insert i J \<union> set is) h' \<and>
      ih_frame h' = ih_frame h1 \<and> ih_len h' = ih_len h1 \<and> ih_order h' = ih_order h1"
    using Cons.prems by (intro Cons.IH [OF h1(2)]) auto
  with h1 show ?case by auto
qed auto

lemma grow_ok:
  assumes inv: "ih_inv h"
  shows "\<exists>h'. sp_IntIntHash_grow h = Some h' \<and> ih_inv h' \<and> ih_map h' = ih_map h \<and> ih_ks h' = ih_ks h \<and>
    ih_len h' = ih_len h \<and> ih_cap h' = ih_cap h * 2 \<and>
    ih_default_v h' = ih_default_v h \<and> ih_default_nil h' = ih_default_nil h"
proof -
  have tab: "ih_table h" and shape: "ih_shape h" using inv by (auto simp: ih_inv_def ih_table_def)
  define cap where "cap = ih_cap h * 2"
  define h0 where "h0 = h\<lparr>ih_cap := cap, ih_mask := cap - 1, ih_keys := replicate cap 0,
    ih_vals := replicate cap 0, ih_used := replicate cap False, ih_order := replicate cap 0,
    ih_vnil := map_option (\<lambda>_. replicate cap False) (ih_vnil h)\<rparr>"
  have "\<exists>m > 0. cap = 2 ^ m"
    using shape unfolding ih_shape_def cap_def by (metis power_Suc2 zero_less_Suc)
  then have s0: "ih_shape h0" by (simp add: ih_shape_def h0_def split: option.splits)
  have e0: "ih_ent h0 i = None" if "i < ih_cap h0" for i using that by (simp add: h0_def)
  have "table_entries (ih_cap h0) (ih_ent h0) = {}"
    using e0 unfolding table_entries_def by (auto simp: ih_ent_def)
  moreover have "ih_table h0"
    using s0 e0 ih_home_less [OF s0] by (auto simp: ih_table_def keys_of_def intro!: table_ok_empty)
  moreover have "ih_clean h0"
    by (auto simp: ih_clean_def h0_def SP_HV_NIL_def split: option.splits)
  ultimately have "ih_filling h {} h0"
    by (simp add: ih_filling_def slot_entries_def) (simp add: h0_def cap_def)
  then obtain h1 where h1: "ih_rehash h h0 [0..<ih_cap h] = Some h1" "ih_filling h {..<ih_cap h} h1"
    "ih_frame h1 = ih_frame h0" "ih_len h1 = ih_len h0" "ih_order h1 = ih_order h0"
    using rehash_ok [of h "{}" h0 "[0..<ih_cap h]"] tab by (auto simp: atLeast0LessThan)
  define h2 where "h2 = h1\<lparr>ih_order := take (ih_len h) (ih_order h) @ drop (ih_len h) (ih_order h1)\<rparr>"
  have res: "sp_IntIntHash_grow h = Some h2"
    using h1(1) by (simp add: sp_IntIntHash_grow_def Let_def h2_def h0_def cap_def)
  have len: "ih_len h \<le> ih_cap h" using inv by (simp add: ih_inv_def)
  have ent: "ih_ent h2 = ih_ent h1" by (rule ext) (simp add: h2_def ih_ent_def SP_HV_NIL_def)
  have fr: "ih_cap h2 = cap" "ih_mask h2 = ih_mask h1" "ih_len h2 = ih_len h"
    "ih_default_v h2 = ih_default_v h" "ih_default_nil h2 = ih_default_nil h"
    using h1 by (simp_all add: h2_def h0_def ih_frame_def)
  have "ih_shape h1" using h1(2) by (simp add: ih_filling_def ih_table_def)
  then have "ih_shape h2"
    using len shape h1(3,5) by (simp add: h2_def ih_shape_def h0_def ih_frame_def cap_def split: option.splits)
  then have tab2: "ih_table h2"
    using h1(2) unfolding ih_filling_def ih_table_def ent by (auto simp: h2_def)
  have "slot_entries h {..<ih_cap h} = table_entries (ih_cap h) (ih_ent h)"
    by (auto simp: slot_entries_def table_entries_def)
  moreover have "ih_cap h2 = ih_cap h1" by (simp add: h2_def)
  ultimately have "table_entries (ih_cap h2) (ih_ent h2) = table_entries (ih_cap h) (ih_ent h)"
    using h1(2) unfolding ih_filling_def ent by metis
  then have map2: "ih_map h2 = ih_map h"
    using ih_map_iff [OF tab] by (intro ih_map_eqI [OF tab2]) simp
  have ks: "ih_ks h2 = ih_ks h" using len shape by (simp add: ih_ks_def fr(3)) (simp add: h2_def ih_shape_def)
  have "set (ih_ks h) = dom (ih_map h)" "distinct (ih_ks h)"
    using inv by (simp_all add: ih_inv_def ih_ks_def ih_map_dom [OF tab])
  then have "ih_inv h2"
    using tab2 fr inv unfolding ih_inv_def ih_ks_def [symmetric] ks ih_map_dom [OF tab2, symmetric] map2
    by (simp add: cap_def)
  with res map2 ks fr cap_def show ?thesis by blast
qed

lemma set_ok:
  assumes inv: "ih_inv h"
  shows "\<exists>h'. sp_IntIntHash_set h k v = Some h' \<and> ih_inv h' \<and>
    ih_map h' = (ih_map h)(k \<mapsto> Some v) \<and>
    ih_ks h' = (if k \<in> dom (ih_map h) then ih_ks h else ih_ks h @ [k]) \<and>
    ih_default_v h' = ih_default_v h \<and> ih_default_nil h' = ih_default_nil h"
proof (cases "ih_len h * 2 \<ge> ih_cap h")
  case True
  obtain g where g: "sp_IntIntHash_grow h = Some g" "ih_inv g" "ih_map g = ih_map h" "ih_ks g = ih_ks h"
    "ih_len g = ih_len h" "ih_cap g = ih_cap h * 2"
    "ih_default_v g = ih_default_v h" "ih_default_nil g = ih_default_nil h"
    using grow_ok [OF inv] by blast
  have pos: "0 < ih_cap h" using inv ih_cap_pos [of h] by (simp add: ih_inv_def ih_table_def)
  then have room: "ih_len g * 2 < ih_cap g" using inv g(5,6) by (simp add: ih_inv_def)
  then have "sp_IntIntHash_set h k v = sp_IntIntHash_set g k v"
    using True g(1) unfolding sp_IntIntHash_set_def by simp
  then show ?thesis using set_nogrow [OF g(2) room, of k v] g by (auto simp: ih_frame_def)
next
  case False
  then show ?thesis using set_nogrow [OF inv, of k v] by (auto simp: ih_frame_def)
qed

section \<open>Deleting\<close>

lemma ih_shift_slots:
  assumes "ih_shape h" "idx < ih_cap h" "j < ih_cap h" "\<not> ih_used h ! idx" "\<not> SP_HV_NIL h idx"
    and "shift_slots f (ring_next (ih_cap h)) (ih_home h) (ih_ent h) idx j = Some t"
  shows "\<exists>h'. ih_shift f h idx j = Some h' \<and> ih_ent h' = t \<and> ih_shape h' \<and>
    ih_frame h' = ih_frame h \<and> ih_len h' = ih_len h \<and> ih_order h' = ih_order h"
  using assms
proof (induction f arbitrary: h idx j)
  case (Suc f)
  note prems = Suc.prems
  have nj: "ih_next h j = ring_next (ih_cap h) j" by (simp add: ih_next_ring [OF prems(1)])
  have j': "ring_next (ih_cap h) j < ih_cap h" using prems(3) by (rule ring_next_less)
  show ?case
  proof (cases "ih_used h ! j")
    case False
    then have "ih_ent h j = None" by simp
    with False prems show ?thesis by simp
  next
    case True
    let ?k = "ih_keys h ! j"
    let ?v = "if SP_HV_NIL h j then None else Some (ih_vals h ! j)"
    have ej: "ih_ent h j = Some (?k, ?v)" using True by (simp add: ih_ent_def)
    have ij: "idx \<noteq> j" using True prems(4) by auto
    show ?thesis
    proof (cases "shift_test idx j (ih_home h ?k)")
      case False
      then show ?thesis using Suc.IH [of h idx "ring_next (ih_cap h) j"] prems j' True ej nj by simp
    next
      case shift: True
      define h1 where "h1 = h\<lparr>ih_keys := (ih_keys h)[idx := ?k], ih_vals := (ih_vals h)[idx := ih_vals h ! j],
        ih_used := (ih_used h)[idx := True, j := False]\<rparr>"
      define h2 where "h2 = nilbit_clr (if SP_HV_NIL h j then nilbit_set h1 idx else h1) j"
      have step: "ih_shift (Suc f) h idx j = ih_shift f h2 j (ring_next (ih_cap h) j)"
        using True shift nj by (simp add: h2_def h1_def Let_def)
      have ent: "ih_ent h2 = (ih_ent h)(idx := Some (?k, ?v), j := None)"
      proof
        fix x
        show "ih_ent h2 x = ((ih_ent h)(idx := Some (?k, ?v), j := None)) x"
          using prems(1-5) ij
          by (cases "x = idx"; cases "x = j"; cases "ih_vnil h")
            (simp_all add: ih_ent_def SP_HV_NIL_def nilbit_set_def nilbit_clr_def h2_def h1_def ih_shape_def)
      qed
      have frame: "ih_frame h2 = ih_frame h" "ih_len h2 = ih_len h" "ih_order h2 = ih_order h"
        by (simp_all add: ih_frame_def h2_def h1_def nilbit_set_def nilbit_clr_def)
      have shape: "ih_shape h2" using prems(1)
        by (auto simp: ih_shape_def h2_def h1_def nilbit_set_def nilbit_clr_def split: option.splits)
      have free: "\<not> ih_used h2 ! j" "\<not> SP_HV_NIL h2 j" using prems(1,3)
        by (auto simp: h2_def h1_def nilbit_set_def nilbit_clr_def SP_HV_NIL_def ih_shape_def split: option.splits)
      have "shift_slots f (ring_next (ih_cap h)) (ih_home h) (ih_ent h2) j (ring_next (ih_cap h) j) = Some t"
        using prems(6) ej shift by (simp add: ent)
      then show ?thesis
        using Suc.IH [of h2 j "ring_next (ih_cap h) j"] shape free frame prems(3) j' step
        by (simp add: ih_frame_def)
    qed
  qed
qed simp

lemma order_index_split:
  "k \<in> set xs \<Longrightarrow> order_index xs k < length xs \<and>
     take (order_index xs k) xs @ k # drop (Suc (order_index xs k)) xs = xs"
  by (induction xs) auto

lemma filter_neq_mid: "distinct (a @ k # b) \<Longrightarrow> filter (\<lambda>x. x \<noteq> k) (a @ k # b) = a @ b"
  using filter_True [of a "\<lambda>x. x \<noteq> k"] filter_True [of b "\<lambda>x. x \<noteq> k"] by fastforce

lemma order_drop:
  assumes "len \<le> length order" "distinct (take len order)" "k \<in> set (take len order)"
  shows "length (sp_order_drop_int order len k) = length order \<and>
    take (len - 1) (sp_order_drop_int order len k) = filter (\<lambda>x. x \<noteq> k) (take len order)"
proof -
  define i where "i = order_index (take len order) k"
  have i: "i < len" and split: "take i (take len order) @ k # drop (Suc i) (take len order) = take len order"
    using order_index_split [OF assms(3)] assms(1) by (auto simp: i_def)
  have "distinct (take i (take len order) @ k # drop (Suc i) (take len order))"
    using assms(2) split by simp
  then have "filter (\<lambda>x. x \<noteq> k) (take i (take len order) @ k # drop (Suc i) (take len order)) =
      take i (take len order) @ drop (Suc i) (take len order)"
    by (rule filter_neq_mid)
  then have keep: "filter (\<lambda>x. x \<noteq> k) (take len order) = take i order @ take (len - Suc i) (drop (Suc i) order)"
    unfolding split using i by (simp add: drop_take min_def)
  show ?thesis
  proof (cases "i + 1 < len")
    case True
    then show ?thesis using keep assms(1)
      by (auto simp: sp_order_drop_int_def i_def [symmetric] Let_def)
  next
    case False
    then have "len = Suc i" using i by simp
    moreover have "sp_order_drop_int order len k = order"
      using False by (simp add: sp_order_drop_int_def i_def [symmetric] Let_def)
    ultimately show ?thesis using keep by simp
  qed
qed

lemma delete_ok:
  assumes inv: "ih_inv h"
  shows "\<exists>h'. sp_IntIntHash_delete h k = Some h' \<and> ih_inv h' \<and> ih_map h' = (ih_map h)(k := None) \<and>
    ih_ks h' = filter (\<lambda>x. x \<noteq> k) (ih_ks h) \<and> ih_frame h' = ih_frame h"
proof -
  have tab: "ih_table h" and shape: "ih_shape h" and ok: "table_ok (ih_cap h) (ih_home h) (ih_slots h)"
    using inv by (auto simp: ih_inv_def ih_table_def)
  have dom: "dom (ih_map h) = set (ih_ks h)" "distinct (ih_ks h)"
    using inv by (auto simp: ih_inv_def ih_ks_def ih_map_dom [OF tab])
  obtain i where i: "i < ih_cap h" "ih_walk h k = Some i" "ih_used h ! i \<longleftrightarrow> k \<in> dom (ih_map h)"
    and hit: "ih_used h ! i \<longrightarrow> ih_ent h i = Some (k, the (ih_map h k)) \<and> ih_keys h ! i = k"
    using inv by (rule ih_walk_ends [where k = k])
  show ?thesis
  proof (cases "ih_used h ! i")
    case False
    then have "k \<notin> dom (ih_map h)" using i(3) by simp
    moreover from this have "(ih_map h)(k := None) = ih_map h" by (auto simp: fun_upd_idem_iff)
    moreover have "filter (\<lambda>x. x \<noteq> k) (ih_ks h) = ih_ks h"
      using \<open>k \<notin> dom (ih_map h)\<close> dom(1) by (auto simp: filter_id_conv)
    ultimately show ?thesis using False i(2) inv by (simp add: sp_IntIntHash_delete_def)
  next
    case True
    then have ent: "ih_ent h i = Some (k, the (ih_map h k))" using hit by blast
    have kin: "k \<in> set (ih_ks h)" using True i(3) dom by blast
    obtain e where e: "e < ih_cap h" "ih_slots h e = None" using inv by (rule ih_inv_free)
    obtain t where t: "shift_slots (ih_cap h) (ring_next (ih_cap h)) (ih_home h) ((ih_ent h)(i := None)) i
          (ring_next (ih_cap h) i) = Some t"
      "table_ok (ih_cap h) (ih_home h) (keys_of t)"
      "table_entries (ih_cap h) t = table_entries (ih_cap h) (ih_ent h) - {(k, the (ih_map h k))}"
      using delete_slots_ok [OF ok i(1) ent e(1)] e(2) by auto
    define h1 where "h1 = (nilbit_clr (h\<lparr>ih_order := sp_order_drop_int (ih_order h) (ih_len h) k,
      ih_used := (ih_used h)[i := False]\<rparr>) i)\<lparr>ih_len := ih_len h - 1\<rparr>"
    have drop: "length (sp_order_drop_int (ih_order h) (ih_len h) k) = length (ih_order h) \<and>
        take (ih_len h - 1) (sp_order_drop_int (ih_order h) (ih_len h) k) = filter (\<lambda>x. x \<noteq> k) (ih_ks h)"
      using inv dom kin shape unfolding ih_ks_def
      by (intro order_drop) (auto simp: ih_inv_def ih_shape_def)
    have ent1: "ih_ent h1 = (ih_ent h)(i := None)"
    proof
      fix x
      show "ih_ent h1 x = ((ih_ent h)(i := None)) x"
        using shape i(1) by (cases "x = i"; cases "ih_vnil h")
          (simp_all add: ih_ent_def SP_HV_NIL_def nilbit_clr_def h1_def ih_shape_def)
    qed
    have fr1: "ih_frame h1 = ih_frame h" by (simp add: ih_frame_def h1_def nilbit_clr_def)
    have shape1: "ih_shape h1" using shape drop
      by (auto simp: ih_shape_def h1_def nilbit_clr_def split: option.splits)
    have free1: "\<not> ih_used h1 ! i" "\<not> SP_HV_NIL h1 i" using shape i(1)
      by (auto simp: h1_def nilbit_clr_def SP_HV_NIL_def ih_shape_def split: option.splits)
    obtain h2 where h2: "ih_shift (ih_cap h) h1 i (ring_next (ih_cap h) i) = Some h2" "ih_ent h2 = t"
      "ih_shape h2" "ih_frame h2 = ih_frame h1" "ih_len h2 = ih_len h1" "ih_order h2 = ih_order h1"
      using ih_shift_slots [OF shape1 _ _ free1, of "ring_next (ih_cap h) i" "ih_cap h" t]
        fr1 t(1) ent1 i(1) ring_next_less [OF i(1)] by (auto simp: ih_frame_def)
    have res: "sp_IntIntHash_delete h k = Some h2"
      using True i(2) h2(1) fun_cong [OF ih_next_ring [OF shape], of i]
      by (simp add: sp_IntIntHash_delete_def h1_def nilbit_clr_def ih_next_def)
    have fr: "ih_cap h2 = ih_cap h" "ih_mask h2 = ih_mask h" "ih_len h2 = ih_len h - 1"
      using h2(4,5) fr1 by (simp_all add: ih_frame_def h1_def)
    have tab2: "ih_table h2" using h2(2,3) t(2) fr by (simp add: ih_table_def)
    have map2: "ih_map h2 = (ih_map h)(k := None)"
    proof (rule ih_map_eqI [OF tab2])
      fix k' v'
      show "(k', v') \<in> table_entries (ih_cap h2) (ih_ent h2) \<longleftrightarrow> ((ih_map h)(k := None)) k' = Some v'"
        unfolding h2(2) fr(1) t(3) Diff_iff ih_map_iff [OF tab, symmetric] by auto
    qed
    have ks: "ih_ks h2 = filter (\<lambda>x. x \<noteq> k) (ih_ks h)"
      using drop fr(3) h2(6) by (simp add: ih_ks_def h1_def nilbit_clr_def)
    have "ih_inv h2"
      using tab2 inv fr dom
      unfolding ih_inv_def ih_ks_def [symmetric] ks ih_map_dom [OF tab2, symmetric] map2
      by (auto simp: ih_ks_def)
    with res map2 ks h2(4) fr1 show ?thesis by auto
  qed
qed

section \<open>Reading\<close>

lemma walk_reads:
  assumes "ih_inv h"
  obtains i where "ih_walk h k = Some i" "ih_used h ! i \<longleftrightarrow> k \<in> dom (ih_map h)"
    "ih_used h ! i \<longrightarrow> ih_map h k = Some (if SP_HV_NIL h i then None else Some (ih_vals h ! i))"
proof -
  obtain i where i: "i < ih_cap h" "ih_walk h k = Some i" "ih_used h ! i \<longleftrightarrow> k \<in> dom (ih_map h)"
    and hit: "ih_used h ! i \<longrightarrow> ih_ent h i = Some (k, the (ih_map h k)) \<and> ih_keys h ! i = k"
    using assms by (rule ih_walk_ends [where k = k])
  have "ih_used h ! i \<longrightarrow> ih_map h k = Some (if SP_HV_NIL h i then None else Some (ih_vals h ! i))"
  proof
    assume u: "ih_used h ! i"
    then have "the (ih_map h k) = (if SP_HV_NIL h i then None else Some (ih_vals h ! i))"
      using hit by (simp add: ih_ent_def split: if_splits)
    moreover have "k \<in> dom (ih_map h)" using u i(3) by simp
    ultimately show "ih_map h k = Some (if SP_HV_NIL h i then None else Some (ih_vals h ! i))"
      by (cases "ih_map h k") (auto simp: domIff)
  qed
  with i(2,3) show thesis by (intro that)
qed

lemma vget_ok:
  assumes "ih_inv h"
  shows "sp_IntIntHash_vget h k = Some (case ih_map h k of None \<Rightarrow> None | Some v \<Rightarrow> v)"
proof -
  obtain i where i: "ih_walk h k = Some i" "ih_used h ! i \<longleftrightarrow> k \<in> dom (ih_map h)"
    "ih_used h ! i \<longrightarrow> ih_map h k = Some (if SP_HV_NIL h i then None else Some (ih_vals h ! i))"
    using assms by (rule walk_reads [where k = k])
  then show ?thesis
    by (cases "ih_map h k") (auto simp: sp_IntIntHash_vget_def sp_IntIntHash_slot_def domIff)
qed

lemma has_key_ok: "ih_inv h \<Longrightarrow> sp_IntIntHash_has_key h k = Some (k \<in> dom (ih_map h))"
  by (rule walk_reads [of h k]) (simp_all add: sp_IntIntHash_has_key_def)

lemma reads_ok:
  assumes "ih_inv h"
  shows "sp_IntIntHash_oget h k =
      Some (case ih_map h k of None \<Rightarrow> (if ih_default_nil h then None else Some (ih_default_v h)) | Some v \<Rightarrow> v)"
    and "sp_IntIntHash_fetch_or h k d = Some (case ih_map h k of None \<Rightarrow> d | Some v \<Rightarrow> v)"
    and "\<exists>msg. sp_IntIntHash_get h k =
      Some (case ih_map h k of None \<Rightarrow> Inr (ih_default_v h) | Some None \<Rightarrow> Inl (RbError ''TypeError'' msg)
            | Some (Some v) \<Rightarrow> Inr v)"
proof -
  obtain i where i: "ih_walk h k = Some i" "ih_used h ! i \<longleftrightarrow> k \<in> dom (ih_map h)"
    "ih_used h ! i \<longrightarrow> ih_map h k = Some (if SP_HV_NIL h i then None else Some (ih_vals h ! i))"
    using assms by (rule walk_reads [where k = k])
  show "sp_IntIntHash_oget h k =
      Some (case ih_map h k of None \<Rightarrow> (if ih_default_nil h then None else Some (ih_default_v h)) | Some v \<Rightarrow> v)"
    using i by (cases "ih_map h k") (auto simp: sp_IntIntHash_oget_def domIff)
  show "sp_IntIntHash_fetch_or h k d = Some (case ih_map h k of None \<Rightarrow> d | Some v \<Rightarrow> v)"
    using i by (cases "ih_map h k") (auto simp: sp_IntIntHash_fetch_or_def domIff)
  show "\<exists>msg. sp_IntIntHash_get h k =
      Some (case ih_map h k of None \<Rightarrow> Inr (ih_default_v h) | Some None \<Rightarrow> Inl (RbError ''TypeError'' msg)
            | Some (Some v) \<Rightarrow> Inr v)"
    using i by (cases "ih_map h k") (auto simp: sp_IntIntHash_get_def domIff)
qed

lemma set_nil_ok:
  assumes inv: "ih_inv h"
  shows "\<exists>h'. sp_IntIntHash_set_nil h k = Some h' \<and> ih_inv h' \<and>
    ih_map h' = (ih_map h)(k \<mapsto> None) \<and>
    ih_ks h' = (if k \<in> dom (ih_map h) then ih_ks h else ih_ks h @ [k]) \<and>
    ih_default_v h' = ih_default_v h \<and> ih_default_nil h' = ih_default_nil h"
proof -
  obtain g where g: "sp_IntIntHash_set h k 0 = Some g" "ih_inv g" "ih_map g = (ih_map h)(k \<mapsto> Some 0)"
    "ih_ks g = (if k \<in> dom (ih_map h) then ih_ks h else ih_ks h @ [k])"
    "ih_default_v g = ih_default_v h" "ih_default_nil g = ih_default_nil h"
    using set_ok [OF inv] by blast
  have tab: "ih_table g" and shape: "ih_shape g" and ok: "table_ok (ih_cap g) (ih_home g) (ih_slots g)"
    and inj: "keys_inj (ih_cap g) (ih_slots g)"
    using g(2) by (auto simp: ih_inv_def ih_table_def table_ok_def)
  obtain i where i: "i < ih_cap g" "ih_walk g k = Some i" "ih_used g ! i \<longleftrightarrow> k \<in> dom (ih_map g)"
    and hit: "ih_used g ! i \<longrightarrow> ih_ent g i = Some (k, the (ih_map g k)) \<and> ih_keys g ! i = k"
    using g(2) by (rule ih_walk_ends [where k = k])
  have used: "ih_used g ! i" "ih_keys g ! i = k" using i(3) hit g(3) by auto
  define h2 where "h2 = nilbit_set (if ih_vnil g = None then g\<lparr>ih_vnil := Some (replicate (ih_cap g) False)\<rparr>
    else g) i"
  have res: "sp_IntIntHash_set_nil h k = Some h2"
    using g(1) i(2) used by (simp add: sp_IntIntHash_set_nil_def sp_IntIntHash_slot_def h2_def)
  have ent: "ih_ent h2 x = ((ih_ent g)(i := Some (k, None))) x" if "x < ih_cap g" for x
    using used i(1) shape that
    by (cases "x = i"; cases "ih_vnil g")
      (simp_all add: h2_def ih_ent_def SP_HV_NIL_def nilbit_set_def ih_shape_def)
  have slots: "ih_slots h2 = ih_slots g"
    by (rule ext) (auto simp: keys_of_def ih_ent_def h2_def nilbit_set_def)
  have fr: "ih_cap h2 = ih_cap g" "ih_mask h2 = ih_mask g" "ih_len h2 = ih_len g" "ih_order h2 = ih_order g"
    "ih_default_v h2 = ih_default_v g" "ih_default_nil h2 = ih_default_nil g"
    by (simp_all add: h2_def nilbit_set_def)
  have "ih_shape h2" using shape by (auto simp: ih_shape_def h2_def nilbit_set_def split: option.splits)
  then have tab2: "ih_table h2" using ok slots fr by (simp add: ih_table_def)
  have map2: "ih_map h2 = (ih_map g)(k \<mapsto> None)"
  proof (rule ih_map_eqI [OF tab2])
    fix k' v'
    have "table_entries (ih_cap g) (ih_ent h2) = table_entries (ih_cap g) ((ih_ent g)(i := Some (k, None)))"
      using ent by (simp add: table_entries_def cong: conj_cong)
    moreover have "\<exists>w. ih_ent g i = Some (k, w)" using hit used by blast
    ultimately show "(k', v') \<in> table_entries (ih_cap h2) (ih_ent h2) \<longleftrightarrow> ((ih_map g)(k \<mapsto> None)) k' = Some v'"
      using table_entries_upd [OF i(1) _ inj, of k k' v' None] ih_map_iff [OF tab, of k' v'] fr(1)
      by auto
  qed
  have "ih_inv h2" using g(2) tab2 slots fr by (simp add: ih_inv_def)
  then show ?thesis using res map2 g fr by (auto simp: ih_ks_def)
qed

lemma oset_ok:
  assumes "ih_inv h"
  shows "\<exists>h'. sp_IntIntHash_oset h k v = Some h' \<and> ih_inv h' \<and> ih_abs h' = al_put k v (ih_abs h) \<and>
    ih_default_v h' = ih_default_v h \<and> ih_default_nil h' = ih_default_nil h"
proof -
  have dom: "dom (ih_map h) = set (ih_ks h)" "distinct (ih_ks h)"
    using assms ih_map_dom [of h] by (auto simp: ih_inv_def ih_ks_def)
  have "\<exists>h'. sp_IntIntHash_oset h k v = Some h' \<and> ih_inv h' \<and> ih_map h' = (ih_map h)(k \<mapsto> v) \<and>
      ih_ks h' = (if k \<in> dom (ih_map h) then ih_ks h else ih_ks h @ [k]) \<and>
      ih_default_v h' = ih_default_v h \<and> ih_default_nil h' = ih_default_nil h"
    using set_ok [OF assms, of k] set_nil_ok [OF assms, of k]
    by (cases v) (simp_all add: sp_IntIntHash_oset_def)
  then show ?thesis using ih_abs_put [OF _ dom] by metis
qed

lemma ih_abs_map_of: "ih_inv h \<Longrightarrow> map_of (ih_abs h) = ih_map h"
proof
  fix k
  assume inv: "ih_inv h"
  then have dom: "dom (ih_map h) = set (ih_ks h)"
    using ih_map_dom [of h] by (auto simp: ih_inv_def ih_ks_def)
  have "map_of (map (\<lambda>k. (k, the (ih_map h k))) ks) k = (if k \<in> set ks then Some (the (ih_map h k)) else None)"
    for ks by (induction ks) auto
  then have "map_of (ih_abs h) k = (if k \<in> dom (ih_map h) then Some (the (ih_map h k)) else None)"
    unfolding dom ih_abs_def ih_ks_def by blast
  then show "map_of (ih_abs h) k = ih_map h k" by (cases "ih_map h k") auto
qed

lemma new_inv: "ih_inv sp_IntIntHash_new"
proof -
  have shape: "ih_shape sp_IntIntHash_new"
    by (auto simp: ih_shape_def sp_IntIntHash_new_def intro!: exI [of _ 4])
  have none: "ih_slots sp_IntIntHash_new i = None" if "i < ih_cap sp_IntIntHash_new" for i
    using that by (simp add: sp_IntIntHash_new_def)
  have "ih_table sp_IntIntHash_new"
    unfolding ih_table_def using shape none ih_home_less [OF shape] by (intro conjI table_ok_empty) auto
  moreover have "table_keys (ih_cap sp_IntIntHash_new) (ih_slots sp_IntIntHash_new) = {}"
    using none by (auto simp: table_keys_def simp del: keys_of_None)
  ultimately show ?thesis by (simp add: ih_inv_def) (simp add: sp_IntIntHash_new_def)
qed

section \<open>The contract of an insertion-ordered table\<close>

definition put_all :: "('h \<Rightarrow> 'k \<Rightarrow> 'v \<Rightarrow> 'h option) \<Rightarrow> 'h \<Rightarrow> ('k \<times> 'v) list \<Rightarrow> 'h option" where
  "put_all put r al = foldl (\<lambda>r e. Option.bind r (\<lambda>r. put r (fst e) (snd e))) (Some r) al"

definition al_puts :: "('k \<times> 'v) list \<Rightarrow> ('k \<times> 'v) list \<Rightarrow> ('k \<times> 'v) list" where
  "al_puts al es = foldl (\<lambda>al e. al_put (fst e) (snd e) al) al es"

datatype ('k, 'v) map_op = Put 'k 'v | Del 'k

fun al_step :: "('k \<times> 'v) list \<Rightarrow> ('k, 'v) map_op \<Rightarrow> ('k \<times> 'v) list" where
  "al_step al (Put k v) = al_put k v al"
| "al_step al (Del k) = filter (\<lambda>e. fst e \<noteq> k) al"

fun op_step :: "('h \<Rightarrow> 'k \<Rightarrow> 'v \<Rightarrow> 'h option) \<Rightarrow> ('h \<Rightarrow> 'k \<Rightarrow> 'h option) \<Rightarrow> 'h option \<Rightarrow> ('k, 'v) map_op \<Rightarrow> 'h option" where
  "op_step put del h (Put k v) = Option.bind h (\<lambda>h. put h k v)"
| "op_step put del h (Del k) = Option.bind h (\<lambda>h. del h k)"

lemma map_of_al_put: "map_of (al_put k v al) = (map_of al)(k \<mapsto> v)"
  by (induction al) (auto simp: fun_upd_twist)

lemma al_put_fresh: "k \<notin> fst ` set al \<Longrightarrow> al_put k v al = al @ [(k, v)]"
  by (induction al) force+

lemma al_puts_fresh:
  "distinct (map fst es) \<Longrightarrow> fst ` set al \<inter> fst ` set es = {} \<Longrightarrow> al_puts al es = al @ es"
proof (induction es arbitrary: al)
  case (Cons e es)
  have "al_put (fst e) (snd e) al = al @ [e]"
    using Cons.prems by (subst al_put_fresh) auto
  moreover have "fst ` set (al @ [e]) \<inter> fst ` set es = {}" using Cons.prems by auto
  ultimately show ?case using Cons.IH [of "al @ [e]"] Cons.prems(1) by (simp add: al_puts_def)
qed (simp add: al_puts_def)

lemma map_of_al_puts: "distinct (map fst es) \<Longrightarrow> map_of (al_puts al es) = map_of al ++ map_of es"
proof (induction es arbitrary: al)
  case (Cons e es)
  then have "map_of (al_puts (al_put (fst e) (snd e) al) es) =
      (map_of al)(fst e \<mapsto> snd e) ++ map_of es" by (simp add: map_of_al_put)
  also have "\<dots> = map_of al ++ map_of (e # es)"
  proof -
    have "map_of es (fst e) = None" using Cons.prems by (simp add: map_of_eq_None_iff)
    then have "((map_of al)(fst e \<mapsto> snd e) ++ map_of es) x = (map_of al ++ map_of (e # es)) x" for x
      by (cases "x = fst e") (simp_all add: map_add_def split: option.splits)
    then show ?thesis by blast
  qed
  finally have "map_of (al_puts (al_put (fst e) (snd e) al) es) = map_of al ++ map_of (e # es)" .
  moreover have "al_puts al (e # es) = al_puts (al_put (fst e) (snd e) al) es" by (simp add: al_puts_def)
  ultimately show ?case by (simp only:)
qed (simp add: al_puts_def)

locale ordered_map =
  fixes inv :: "'h \<Rightarrow> bool"
    and abs :: "'h \<Rightarrow> ('k \<times> 'v) list"
    and put :: "'h \<Rightarrow> 'k \<Rightarrow> 'v \<Rightarrow> 'h option"
    and del :: "'h \<Rightarrow> 'k \<Rightarrow> 'h option"
  assumes distinct_keys: "inv h \<Longrightarrow> distinct (map fst (abs h))"
    and put_law: "inv h \<Longrightarrow> \<exists>h'. put h k v = Some h' \<and> inv h' \<and> abs h' = al_put k v (abs h)"
    and del_law: "inv h \<Longrightarrow> \<exists>h'. del h k = Some h' \<and> inv h' \<and> abs h' = filter (\<lambda>e. fst e \<noteq> k) (abs h)"
begin

lemma run_ops:
  "inv h \<Longrightarrow> \<exists>h'. foldl (op_step put del) (Some h) ops = Some h' \<and> inv h' \<and>
     abs h' = foldl al_step (abs h) ops"
proof (induction ops arbitrary: h)
  case (Cons op ops)
  have "\<exists>h1. op_step put del (Some h) op = Some h1 \<and> inv h1 \<and> abs h1 = al_step (abs h) op"
    using put_law [OF Cons.prems] del_law [OF Cons.prems] by (cases op) auto
  then show ?case using Cons.IH by fastforce
qed simp

lemma run_puts:
  "inv r \<Longrightarrow> \<exists>r'. put_all put r es = Some r' \<and> inv r' \<and> abs r' = al_puts (abs r) es"
proof (induction es arbitrary: r)
  case (Cons e es)
  obtain r1 where "put r (fst e) (snd e) = Some r1" "inv r1" "abs r1 = al_put (fst e) (snd e) (abs r)"
    using put_law [OF Cons.prems] by blast
  with Cons.IH [of r1] show ?case by (simp add: put_all_def al_puts_def)
qed (simp add: put_all_def al_puts_def)

lemma copy_entries:
  "inv r \<Longrightarrow> abs r = [] \<Longrightarrow> inv h \<Longrightarrow>
     \<exists>r'. put_all put r (abs h) = Some r' \<and> inv r' \<and> abs r' = abs h"
  using run_puts [of r "abs h"] al_puts_fresh [OF distinct_keys, of h "[]"] by simp

end

interpretation ih: ordered_map ih_inv ih_abs sp_IntIntHash_oset sp_IntIntHash_delete
proof
  fix h k v
  assume inv: "ih_inv h"
  show "distinct (map fst (ih_abs h))" using inv by (simp add: ih_abs_keys ih_inv_def ih_ks_def)
  show "\<exists>h'. sp_IntIntHash_oset h k v = Some h' \<and> ih_inv h' \<and> ih_abs h' = al_put k v (ih_abs h)"
    using oset_ok [OF inv, of k v] by blast
  show "\<exists>h'. sp_IntIntHash_delete h k = Some h' \<and> ih_inv h' \<and>
      ih_abs h' = filter (\<lambda>e. fst e \<noteq> k) (ih_abs h)"
    using delete_ok [OF inv, of k] ih_abs_del by blast
qed

section \<open>Operations that go through the contract\<close>

lemma keys_ok: "ih_inv h \<Longrightarrow> sp_IntIntHash_keys h = map fst (ih_abs h)"
proof -
  assume "ih_inv h"
  then have "ih_len h \<le> length (ih_order h)" by (simp add: ih_inv_def ih_table_def ih_shape_def)
  then show ?thesis
    unfolding sp_IntIntHash_keys_def ih_abs_keys ih_ks_def by (intro nth_equalityI) simp_all
qed

lemma ih_dom_keys: "ih_inv h \<Longrightarrow> dom (ih_map h) = fst ` set (ih_abs h)"
  using dom_map_of_conv_image_fst [of "ih_abs h"] by (simp add: ih_abs_map_of)

lemma put_all_Cons: "put_all put r (e # es) = Option.bind (put r (fst e) (snd e)) (\<lambda>r. put_all put r es)"
proof -
  have "foldl (\<lambda>r e. Option.bind r (\<lambda>r. put r (fst e) (snd e))) None es = None" by (induction es) auto
  then show ?thesis by (cases "put r (fst e) (snd e)") (simp_all add: put_all_def)
qed

lemma store_all_put_all:
  assumes "ih_inv h" "set ks \<subseteq> dom (ih_map h)"
  shows "ih_store_all r h ks = put_all sp_IntIntHash_oset r (map (\<lambda>k. (k, the (ih_map h k))) ks)"
  using assms(2)
proof (induction ks arbitrary: r)
  case (Cons k ks)
  then obtain v where "ih_map h k = Some v" by auto
  with Cons show ?case by (simp add: vget_ok [OF assms(1)] put_all_Cons)
qed (simp add: put_all_def)

lemma store_all_ok:
  assumes "ih_inv r" "ih_inv h"
  shows "\<exists>r'. ih_store_all r h (sp_IntIntHash_keys h) = Some r' \<and> ih_inv r' \<and>
    ih_abs r' = al_puts (ih_abs r) (ih_abs h)"
proof -
  have "ih_store_all r h (sp_IntIntHash_keys h) = put_all sp_IntIntHash_oset r (ih_abs h)"
    using store_all_put_all [OF assms(2), of "ih_ks h" r] ih_dom_keys [OF assms(2)]
    by (simp add: keys_ok [OF assms(2)] ih_abs_keys)
      (metis ih_abs_def ih_abs_keys ih_ks_def order_refl set_map)
  then show ?thesis using ih.run_puts [OF assms(1), of "ih_abs h"] by simp
qed

lemma like_inv: "ih_inv (ih_like h)" "ih_abs (ih_like h) = []"
proof -
  have "ih_ent (ih_like h) = ih_ent sp_IntIntHash_new"
    by (rule ext) (simp add: ih_ent_def ih_like_def SP_HV_NIL_def)
  moreover have "ih_cap (ih_like h) = ih_cap sp_IntIntHash_new" "ih_mask (ih_like h) = ih_mask sp_IntIntHash_new"
    "ih_len (ih_like h) = ih_len sp_IntIntHash_new" "ih_order (ih_like h) = ih_order sp_IntIntHash_new"
    "ih_keys (ih_like h) = ih_keys sp_IntIntHash_new" "ih_vals (ih_like h) = ih_vals sp_IntIntHash_new"
    "ih_used (ih_like h) = ih_used sp_IntIntHash_new" "ih_vnil (ih_like h) = ih_vnil sp_IntIntHash_new"
    by (simp_all add: ih_like_def)
  ultimately show "ih_inv (ih_like h)"
    using new_inv unfolding ih_inv_def ih_table_def ih_shape_def by metis
qed (simp add: ih_abs_def ih_like_def sp_IntIntHash_new_def)

lemma vgets_ok:
  "ih_inv h \<Longrightarrow> set es \<subseteq> set (ih_abs h) \<Longrightarrow> ih_vgets h (map fst es) = Some (map snd es)"
proof (induction es)
  case (Cons e es)
  then have "ih_map h (fst e) = Some (snd e)"
    using ih.distinct_keys [of h] by (simp add: ih_abs_map_of [symmetric] map_of_eq_Some_iff)
  with Cons show ?case by (simp add: vget_ok)
qed simp

lemma values_ok: "ih_inv h \<Longrightarrow> sp_IntIntHash_values h = Some (map snd (ih_abs h))"
  by (simp add: sp_IntIntHash_values_def keys_ok vgets_ok)

lemma length_ok: "ih_inv h \<Longrightarrow> sp_IntIntHash_length h = length (ih_abs h)"
  by (simp add: sp_IntIntHash_length_def ih_abs_def ih_inv_def ih_table_def ih_shape_def)

lemma al_puts_keys:
  "distinct (map fst es) \<Longrightarrow>
     map fst (al_puts al es) = map fst al @ filter (\<lambda>k. k \<notin> fst ` set al) (map fst es)"
proof (induction es arbitrary: al)
  case (Cons e es)
  have put: "map fst (al_put k v al) = (if k \<in> fst ` set al then map fst al else map fst al @ [k])"
    for k and v and al :: "('a \<times> 'b) list" by (induction al) force+
  then have set: "fst ` set (al_put k v al) = insert k (fst ` set al)" for k v and al :: "('a \<times> 'b) list"
    by (metis (no_types, lifting) insert_absorb insert_is_Un list.set(1) list.simps(15) set_append set_map sup_commute)
  have "filter (\<lambda>k. k \<notin> insert (fst e) (fst ` set al)) (map fst es) =
      filter (\<lambda>k. k \<notin> fst ` set al) (map fst es)"
  proof (intro filter_cong refl)
    fix x assume "x \<in> set (map fst es)"
    moreover have "fst e \<notin> set (map fst es)" using Cons.prems by simp
    ultimately have "x \<noteq> fst e" by blast
    then show "x \<notin> insert (fst e) (fst ` set al) \<longleftrightarrow> x \<notin> fst ` set al" by simp
  qed
  then show ?case using Cons put [of "fst e" "snd e" al] set [of "fst e" "snd e" al]
    by (simp add: al_puts_def)
qed (simp add: al_puts_def)

lemma eq_loop_ok:
  assumes "ih_inv a" "ih_inv b" "set ks \<subseteq> dom (ih_map a)"
  shows "ih_eq_loop a b ks = Some (\<forall>k \<in> set ks. ih_map b k = ih_map a k)"
  using assms(3)
proof (induction ks)
  case (Cons k ks)
  then obtain v where v: "ih_map a k = Some v" by auto
  with Cons show ?case
    by (cases "ih_map b k") (auto simp: has_key_ok [OF assms(2)] vget_ok [OF assms(1)] vget_ok [OF assms(2)])
qed simp

lemma eq_ok:
  assumes "ih_inv a" "ih_inv b"
  shows "sp_IntIntHash_eq a b = Some (ih_map a = ih_map b)"
proof -
  have len: "ih_len h = card (dom (ih_map h))" if "ih_inv h" for h
    using that ih.distinct_keys [OF that] length_ok [OF that] ih_dom_keys [OF that]
    by (simp add: sp_IntIntHash_length_def) (metis distinct_card length_map set_map)
  have fin: "finite (dom (ih_map h))" if "ih_inv h" for h using ih_dom_keys [OF that] by simp
  show ?thesis
  proof (cases "ih_len a = ih_len b")
    case False
    then have "ih_map a \<noteq> ih_map b" using len assms by auto
    with False show ?thesis by (simp add: sp_IntIntHash_eq_def)
  next
    case True
    have ks: "set (sp_IntIntHash_keys a) = dom (ih_map a)"
      using keys_ok [OF assms(1)] ih_dom_keys [OF assms(1)] by simp
    have "(\<forall>k \<in> dom (ih_map a). ih_map b k = ih_map a k) \<longleftrightarrow> ih_map a = ih_map b"
    proof
      assume *: "\<forall>k \<in> dom (ih_map a). ih_map b k = ih_map a k"
      then have "dom (ih_map a) \<subseteq> dom (ih_map b)" by force
      then have "dom (ih_map a) = dom (ih_map b)"
        using True len assms fin by (intro card_subset_eq) auto
      with * show "ih_map a = ih_map b" by (metis domIff ext)
    qed simp
    then show ?thesis using True eq_loop_ok [OF assms, of "sp_IntIntHash_keys a"] ks
      by (simp add: sp_IntIntHash_eq_def)
  qed
qed

section \<open>Properties\<close>

text \<open>
  C1: After any sequence of stores (nil values included) and deletions on a fresh Hash,
  every walk over the slots has ended, and the keys, the values, the length, the membership
  test and fetch are those of the association list in insertion order.
\<close>
theorem hash_history_refines_alist:
  "\<exists>h. foldl (op_step sp_IntIntHash_oset sp_IntIntHash_delete) (Some sp_IntIntHash_new) ops = Some h \<and>
     (let al = foldl al_step [] ops in
        sp_IntIntHash_keys h = map fst al \<and> sp_IntIntHash_values h = Some (map snd al) \<and>
        sp_IntIntHash_length h = length al \<and>
        sp_IntIntHash_has_key h k = Some (k \<in> fst ` set al) \<and>
        sp_IntIntHash_fetch_or h k d = Some (case map_of al k of None \<Rightarrow> d | Some v \<Rightarrow> v))"
proof -
  have "ih_abs sp_IntIntHash_new = []" by (simp add: ih_abs_def sp_IntIntHash_new_def)
  then obtain h where h: "foldl (op_step sp_IntIntHash_oset sp_IntIntHash_delete) (Some sp_IntIntHash_new) ops = Some h"
    "ih_inv h" "ih_abs h = foldl al_step [] ops"
    using ih.run_ops [OF new_inv, of ops] by auto
  then show ?thesis
    using keys_ok [OF h(2)] values_ok [OF h(2)] length_ok [OF h(2)] has_key_ok [OF h(2), of k]
      reads_ok(2) [OF h(2), of k d] ih_dom_keys [OF h(2)] ih_abs_map_of [OF h(2)]
    by (simp add: Let_def)
qed

text \<open>
  C25: On a well-formed Hash a read answers the entry, the default for a missing key, and
  for a nil value nil where the reader can take one and a TypeError where it cannot.
\<close>
theorem hash_get_law:
  assumes "ih_inv h"
  shows "sp_IntIntHash_oget h k =
      Some (case map_of (ih_abs h) k of
              None \<Rightarrow> if ih_default_nil h then None else Some (ih_default_v h) | Some v \<Rightarrow> v) \<and>
    (\<exists>msg. sp_IntIntHash_get h k =
      Some (case map_of (ih_abs h) k of
              None \<Rightarrow> Inr (ih_default_v h) | Some None \<Rightarrow> Inl (RbError ''TypeError'' msg)
            | Some (Some v) \<Rightarrow> Inr v))"
  using reads_ok(1,3) [OF assms, of k] by (simp add: ih_abs_map_of [OF assms])

theorem hash_get_law_witness:
  "\<exists>h. sp_IntIntHash_set_nil sp_IntIntHash_new 7 = Some h \<and> sp_IntIntHash_oget h 7 = Some None \<and>
     (\<exists>msg. sp_IntIntHash_get h 7 = Some (Inl (RbError ''TypeError'' msg)))"
proof -
  obtain h where h: "sp_IntIntHash_set_nil sp_IntIntHash_new 7 = Some h" "ih_inv h"
    "ih_map h = (ih_map sp_IntIntHash_new)(7 \<mapsto> None)"
    using set_nil_ok [OF new_inv, of 7] by blast
  then show ?thesis using hash_get_law [OF h(2), of 7] by (simp add: ih_abs_map_of)
qed

text \<open>
  C26: A merge of two well-formed Hashes answers a well-formed Hash whose entries are those
  of the second over those of the first, with the keys of the first in their order and then
  the new keys of the second.
\<close>
theorem hash_merge_law:
  assumes "ih_inv a" "ih_inv b"
  shows "\<exists>r. sp_IntIntHash_merge a (Some b) = Some r \<and> ih_inv r \<and>
    map_of (ih_abs r) = map_of (ih_abs a) ++ map_of (ih_abs b) \<and>
    sp_IntIntHash_keys r =
      sp_IntIntHash_keys a @ filter (\<lambda>k. k \<notin> set (sp_IntIntHash_keys a)) (sp_IntIntHash_keys b)"
proof -
  obtain r1 where r1: "ih_store_all (ih_like a) a (sp_IntIntHash_keys a) = Some r1" "ih_inv r1"
    "ih_abs r1 = ih_abs a"
    using store_all_ok [OF like_inv(1) assms(1)] al_puts_fresh [OF ih.distinct_keys, of a "[]"] assms(1)
    by (auto simp: like_inv(2))
  obtain r where r: "ih_store_all r1 b (sp_IntIntHash_keys b) = Some r" "ih_inv r"
    "ih_abs r = al_puts (ih_abs a) (ih_abs b)"
    using store_all_ok [OF r1(2) assms(2)] r1(3) by auto
  show ?thesis
    using r1 r map_of_al_puts [OF ih.distinct_keys [OF assms(2)], of "ih_abs a"]
      al_puts_keys [OF ih.distinct_keys [OF assms(2)], of "ih_abs a"]
    by (simp add: sp_IntIntHash_merge_def keys_ok assms)
qed

theorem hash_merge_law_witness:
  "\<exists>h r. sp_IntIntHash_set sp_IntIntHash_new 1 2 = Some h \<and>
     sp_IntIntHash_merge sp_IntIntHash_new (Some h) = Some r \<and> sp_IntIntHash_keys r = sp_IntIntHash_keys h"
proof -
  obtain h where h: "sp_IntIntHash_set sp_IntIntHash_new 1 2 = Some h" "ih_inv h"
    using set_ok [OF new_inv, of 1 2] by blast
  have "sp_IntIntHash_keys sp_IntIntHash_new = []" by (simp add: sp_IntIntHash_keys_def sp_IntIntHash_new_def)
  with h show ?thesis using hash_merge_law [OF new_inv h(2)] by auto
qed

text \<open>
  Two well-formed Hashes compare equal exactly when they hold the same entries,
  whatever their order, their slots and their capacity; a copy holds the entries in the same
  order and equals the original.
\<close>
theorem hash_dup_eq:
  assumes "ih_inv h" "ih_inv g"
  shows "sp_IntIntHash_eq h g = Some (map_of (ih_abs h) = map_of (ih_abs g)) \<and>
    (\<exists>r. sp_IntIntHash_dup h = Some r \<and> ih_inv r \<and> ih_abs r = ih_abs h \<and>
      sp_IntIntHash_eq h r = Some True)"
proof -
  obtain r where r: "sp_IntIntHash_dup h = Some r" "ih_inv r" "ih_abs r = ih_abs h"
    using store_all_ok [OF like_inv(1) assms(1)] al_puts_fresh [OF ih.distinct_keys, of h "[]"] assms(1)
    by (auto simp: like_inv(2) sp_IntIntHash_dup_def)
  then have "sp_IntIntHash_eq h r = Some True"
    using eq_ok [OF assms(1) r(2)] ih_abs_map_of [OF assms(1)] ih_abs_map_of [OF r(2)] by simp
  with r show ?thesis using eq_ok [OF assms] by (simp add: ih_abs_map_of assms)
qed

theorem hash_dup_eq_witness:
  "\<exists>h r. sp_IntIntHash_set sp_IntIntHash_new 1 2 = Some h \<and> sp_IntIntHash_dup h = Some r \<and>
     sp_IntIntHash_eq h r = Some True"
proof -
  obtain h where h: "sp_IntIntHash_set sp_IntIntHash_new 1 2 = Some h" "ih_inv h"
    using set_ok [OF new_inv, of 1 2] by blast
  then show ?thesis using hash_dup_eq [OF h(2) h(2)] by auto
qed

end
