(* ===== verification/Decide.thy ===== *)
theory Decide
  imports Probe Types "HOL-Library.Monad_Syntax"
begin

text \<open>
  The decision registry (\<^verbatim>\<open>src/decide.h\<close>, \<^verbatim>\<open>src/decide.c\<close>): every optimization that would be a
  miscompile if its legality check were wrong asks one question under a key, an allow-list may
  deny it, and the keys of the decisions that were taken can be logged.

  A \<open>KeySet\<close> is the struct of the same name: the keys in insertion order and the open-addressing
  index of their positions (-1 for a free slot). The array of keys holds exactly the \<open>n\<close> keys in
  use, \<open>ks_cap\<close> is its allocated size. The statics of the file are the record \<open>DecideState\<close>. The
  files behind \<^verbatim>\<open>SPINEL_DECISIONS\<close> and \<^verbatim>\<open>SPINEL_DECISIONS_LOG\<close> are parameters: what reading a
  path gives (no file, or the lines as \<^verbatim>\<open>getline\<close> returns them and whether the stream failed)
  and whether a path can be written. Leaving the process with a message is an error value. A walk
  over the slots is given as many steps as there are slots, and \<^const>\<open>None\<close> is a walk that did
  not end.
\<close>

section \<open>The set of keys\<close>

record KeySet =
  ks_key :: "string list"
  ks_cap :: nat
  ks_slot :: "int list"
  ks_nslot :: nat

definition ks_empty :: KeySet where
  "ks_empty = \<lparr>ks_key = [], ks_cap = 0, ks_slot = [], ks_nslot = 0\<rparr>"

definition ks_home :: "nat \<Rightarrow> string \<Rightarrow> nat" where
  "ks_home nslot k = unat (sp_strhash k) mod nslot"

definition set_find :: "KeySet \<Rightarrow> string \<Rightarrow> int option" where
  "set_find ks k =
     (if ks_nslot ks = 0 then Some (- 1)
      else do {
        i \<leftarrow> probe (ks_nslot ks) (\<lambda>i. (i + 1) mod ks_nslot ks)
               (\<lambda>i. ks_slot ks ! i < 0 \<or> ks_key ks ! nat (ks_slot ks ! i) = k) (ks_home (ks_nslot ks) k);
        Some (if ks_slot ks ! i < 0 then - 1 else ks_slot ks ! i)
      })"

definition set_place :: "KeySet \<Rightarrow> nat \<Rightarrow> KeySet option" where
  "set_place ks at = do {
     i \<leftarrow> probe (ks_nslot ks) (\<lambda>i. (i + 1) mod ks_nslot ks) (\<lambda>i. \<not> ks_slot ks ! i \<ge> 0)
            (ks_home (ks_nslot ks) (ks_key ks ! at));
     Some (ks\<lparr>ks_slot := (ks_slot ks)[i := int at]\<rparr>)
   }"

fun set_place_all :: "KeySet \<Rightarrow> nat list \<Rightarrow> KeySet option" where
  "set_place_all ks [] = Some ks"
| "set_place_all ks (i # is) = do { ks \<leftarrow> set_place ks i; set_place_all ks is }"

definition set_add :: "KeySet \<Rightarrow> string \<Rightarrow> (bool \<times> KeySet) option" where
  "set_add ks k = do {
     at \<leftarrow> set_find ks k;
     (if at \<ge> 0 then Some (False, ks)
      else
        (let ks = (if length (ks_key ks) = ks_cap ks
                   then ks\<lparr>ks_cap := (if ks_cap ks \<noteq> 0 then ks_cap ks * 2 else 64)\<rparr> else ks);
             ks = ks\<lparr>ks_key := ks_key ks @ [k]\<rparr>;
             n = length (ks_key ks)
         in do {
           ks \<leftarrow> (if n * 2 > ks_nslot ks
                  then
                    (let nslot = (if ks_nslot ks \<noteq> 0 then ks_nslot ks * 2 else 128)
                     in set_place_all (ks\<lparr>ks_nslot := nslot, ks_slot := replicate nslot (- 1)\<rparr>) [0..<n])
                  else set_place ks (n - 1));
           Some (True, ks)
         }))
   }"

section \<open>The registry\<close>

record DecideState =
  g_decide_on :: bool
  g_allowed :: KeySet
  g_taken :: KeySet
  g_have_allow :: bool
  g_log_path :: "string option"

definition decide_init :: DecideState where
  "decide_init = \<lparr>g_decide_on = False, g_allowed = ks_empty, g_taken = ks_empty,
     g_have_allow = False, g_log_path = None\<rparr>"

text \<open>A line of the allow-list without its line end.\<close>

fun strip_eol_rev :: "string \<Rightarrow> string" where
  "strip_eol_rev [] = []"
| "strip_eol_rev (c # r) = (if c = CHR 0x0A \<or> c = CHR 0x0D then strip_eol_rev r else c # r)"

definition strip_eol :: "string \<Rightarrow> string" where
  "strip_eol l = rev (strip_eol_rev (rev l))"

fun decide_read_lines :: "KeySet \<Rightarrow> string list \<Rightarrow> KeySet option" where
  "decide_read_lines ks [] = Some ks"
| "decide_read_lines ks (l # ls) =
     (let line = strip_eol l
      in if line = [] \<or> hd line = CHR ''#'' then decide_read_lines ks ls
         else do { r \<leftarrow> set_add ks line; decide_read_lines (snd r) ls })"

definition cannot_read :: "string \<Rightarrow> string" where
  "cannot_read path = ''spinel: cannot read decisions file '' @ [CHR 0x27] @ path @ [CHR 0x27]"

definition cannot_write :: "string \<Rightarrow> string" where
  "cannot_write path = ''spinel: cannot write decisions log '' @ [CHR 0x27] @ path @ [CHR 0x27]"

definition decide_setup_allow ::
    "(string \<Rightarrow> (string list \<times> bool) option) \<Rightarrow> string option \<Rightarrow> DecideState \<Rightarrow>
     (string + DecideState) option" where
  "decide_setup_allow reads allow s =
     (case allow of
        None \<Rightarrow> Some (Inr s)
      | Some path \<Rightarrow>
          if path = [] then Some (Inr s)
          else
            (case reads path of
               None \<Rightarrow> Some (Inl (cannot_read path))
             | Some (ls, failed) \<Rightarrow> do {
                 ks \<leftarrow> decide_read_lines (g_allowed s) ls;
                 Some (if failed then Inl (cannot_read path)
                   else Inr (s\<lparr>g_allowed := ks, g_have_allow := True, g_decide_on := True\<rparr>))
               }))"

definition decide_setup_log ::
    "(string \<Rightarrow> bool) \<Rightarrow> string option \<Rightarrow> DecideState \<Rightarrow> string + DecideState" where
  "decide_setup_log writable log s =
     (case log of
        None \<Rightarrow> Inr s
      | Some path \<Rightarrow>
          if path = [] then Inr s
          else if \<not> writable path then Inl (cannot_write path)
          else Inr (s\<lparr>g_log_path := Some path, g_decide_on := True\<rparr>))"

definition decide_setup ::
    "(string \<Rightarrow> (string list \<times> bool) option) \<Rightarrow> (string \<Rightarrow> bool) \<Rightarrow> string option \<Rightarrow> string option \<Rightarrow>
     DecideState \<Rightarrow> (string + DecideState) option" where
  "decide_setup reads writable allow log s = do {
     r \<leftarrow> decide_setup_allow reads allow s;
     Some (case r of Inl e \<Rightarrow> Inl e | Inr s \<Rightarrow> decide_setup_log writable log s)
   }"

text \<open>What the log file holds after it was written; no log was asked for without a path.\<close>

definition decide_write_log :: "(string \<Rightarrow> bool) \<Rightarrow> DecideState \<Rightarrow> (string + string) option" where
  "decide_write_log writable s =
     (case g_log_path s of
        None \<Rightarrow> None
      | Some path \<Rightarrow>
          Some (if \<not> writable path then Inl (cannot_write path)
                else Inr (concat (map (\<lambda>k. k @ [CHR 0x0A]) (ks_key (g_taken s))))))"

definition decide_key :: "DecideState \<Rightarrow> string \<Rightarrow> (bool \<times> DecideState) option" where
  "decide_key s key = do {
     at \<leftarrow> (if g_have_allow s then set_find (g_allowed s) key else Some 0);
     (if g_have_allow s \<and> at < 0 then Some (False, s)
      else if g_log_path s \<noteq> None then do {
        r \<leftarrow> set_add (g_taken s) key;
        Some (True, s\<lparr>g_taken := snd r\<rparr>)
      }
      else Some (True, s))
   }"

definition fn_key :: "string \<Rightarrow> string \<Rightarrow> string option \<Rightarrow> string" where
  "fn_key kind site name =
     (case name of
        None \<Rightarrow> kind @ ''@'' @ site
      | Some nm \<Rightarrow> if nm = [] then kind @ ''@'' @ site else kind @ ''@'' @ site @ '':'' @ nm)"

definition decide_fn_keyed ::
    "DecideState \<Rightarrow> string \<Rightarrow> string \<Rightarrow> string option \<Rightarrow> (bool \<times> DecideState) option" where
  "decide_fn_keyed s kind site name = decide_key s (fn_key kind site name)"

definition decide_fn ::
    "DecideState \<Rightarrow> string \<Rightarrow> string \<Rightarrow> string option \<Rightarrow> (bool \<times> DecideState) option" where
  "decide_fn s kind site name =
     (if g_decide_on s then decide_fn_keyed s kind site name else Some (True, s))"

section \<open>The set keeps its keys reachable\<close>

definition ks_slots :: "KeySet \<Rightarrow> nat \<Rightarrow> string option" where
  "ks_slots ks i = (if ks_slot ks ! i < 0 then None else Some (ks_key ks ! nat (ks_slot ks ! i)))"

definition ks_tab :: "KeySet \<Rightarrow> bool" where
  "ks_tab ks \<longleftrightarrow> 0 < ks_nslot ks \<and> length (ks_slot ks) = ks_nslot ks \<and>
     table_ok (ks_nslot ks) (ks_home (ks_nslot ks)) (ks_slots ks) \<and>
     (\<forall>i < ks_nslot ks. ks_slot ks ! i < int (length (ks_key ks)))"

definition ks_inv :: "KeySet \<Rightarrow> bool" where
  "ks_inv ks \<longleftrightarrow> distinct (ks_key ks) \<and>
     (ks_nslot ks = 0 \<and> ks_key ks = [] \<or>
      ks_tab ks \<and> length (ks_key ks) * 2 \<le> ks_nslot ks \<and>
      table_keys (ks_nslot ks) (ks_slots ks) = set (ks_key ks))"

lemma ks_ring: "(\<lambda>i. (i + 1) mod n) = ring_next n"
  by (rule ext) (simp add: ring_next_def)

lemma ks_slots_None [simp]: "ks_slots ks i = None \<longleftrightarrow> ks_slot ks ! i < 0"
  by (simp add: ks_slots_def)

lemma ks_tab_free:
  assumes "ks_tab ks" "card (table_keys (ks_nslot ks) (ks_slots ks)) < ks_nslot ks"
  obtains e where "e < ks_nslot ks" "ks_slots ks e = None"
  using assms by (auto simp: ks_tab_def table_ok_def intro: free_slot)

lemma set_place_ok:
  assumes tab: "ks_tab ks" and at: "at < length (ks_key ks)"
    and new: "ks_key ks ! at \<notin> table_keys (ks_nslot ks) (ks_slots ks)"
    and room: "card (table_keys (ks_nslot ks) (ks_slots ks)) < ks_nslot ks"
  shows "\<exists>ks'. set_place ks at = Some ks' \<and> ks_tab ks' \<and> ks_key ks' = ks_key ks \<and>
    ks_nslot ks' = ks_nslot ks \<and>
    table_keys (ks_nslot ks') (ks_slots ks') = insert (ks_key ks ! at) (table_keys (ks_nslot ks) (ks_slots ks))"
proof -
  let ?n = "ks_nslot ks" and ?k = "ks_key ks ! at"
  have ok: "table_ok ?n (ks_home ?n) (ks_slots ks)" and len: "length (ks_slot ks) = ?n"
    using tab by (auto simp: ks_tab_def)
  obtain e where e: "e < ?n" "ks_slots ks e = None" using tab room by (rule ks_tab_free)
  obtain j where j: "j < ?n" "ks_slots ks j = None"
    "probe ?n (ring_next ?n) (\<lambda>i. ks_slots ks i = None) (ks_home ?n ?k) = Some j"
    "table_ok ?n (ks_home ?n) ((ks_slots ks)(j := Some ?k))"
    by (rule probe_free [OF ok e new])
  define ks' where "ks' = ks\<lparr>ks_slot := (ks_slot ks)[j := int at]\<rparr>"
  have "set_place ks at = Some ks'"
    using j(3) by (simp add: set_place_def ks_ring [simplified] ks'_def not_le)
  moreover have sl: "ks_slots ks' = (ks_slots ks)(j := Some ?k)"
    using j(1) len by (auto simp: ks_slots_def ks'_def)
  moreover have "ks_tab ks'"
    using tab j(1,4) at len unfolding ks_tab_def sl
    by (auto simp: ks'_def nth_list_update)
  ultimately show ?thesis
    using table_keys_store [of j ?n "ks_slots ks" ?k, OF j(1,2)] by (auto simp: ks'_def)
qed

lemma take_Suc_insert: "a < length xs \<Longrightarrow> set (take (Suc a) xs) = insert (xs ! a) (set (take a xs))"
  by (simp add: take_Suc_conv_app_nth)

lemma set_place_all_ok:
  assumes "ks_tab ks" "distinct (ks_key ks)" "length (ks_key ks) \<le> ks_nslot ks" "a + m = length (ks_key ks)"
    and "table_keys (ks_nslot ks) (ks_slots ks) = set (take a (ks_key ks))"
  shows "\<exists>ks'. set_place_all ks [a..<a + m] = Some ks' \<and> ks_tab ks' \<and> ks_key ks' = ks_key ks \<and>
    ks_nslot ks' = ks_nslot ks \<and> table_keys (ks_nslot ks') (ks_slots ks') = set (ks_key ks)"
  using assms
proof (induction m arbitrary: a ks)
  case (Suc m)
  let ?ks = "ks_key ks"
  have a: "a < length ?ks" using Suc.prems(4) by simp
  have dist: "distinct (take (Suc a) ?ks)" using Suc.prems(2) by simp
  have fresh: "?ks ! a \<notin> set (take a ?ks)"
    using dist a by (simp add: take_Suc_conv_app_nth)
  have "card (set (take a ?ks)) \<le> a" by (metis card_length length_take min.cobounded2 order_trans)
  then have "card (table_keys (ks_nslot ks) (ks_slots ks)) < ks_nslot ks"
    using Suc.prems(3,5) a by simp
  then obtain ks1 where ks1: "set_place ks a = Some ks1" "ks_tab ks1" "ks_key ks1 = ?ks"
    "ks_nslot ks1 = ks_nslot ks" "table_keys (ks_nslot ks1) (ks_slots ks1) = insert (?ks ! a) (set (take a ?ks))"
    using set_place_ok [OF Suc.prems(1) a] fresh Suc.prems(5) by auto
  have up: "[a..<a + Suc m] = a # [Suc a..<Suc a + m]" by (simp add: upt_conv_Cons)
  have "\<exists>ks'. set_place_all ks1 [Suc a..<Suc a + m] = Some ks' \<and> ks_tab ks' \<and> ks_key ks' = ks_key ks1 \<and>
      ks_nslot ks' = ks_nslot ks1 \<and> table_keys (ks_nslot ks') (ks_slots ks') = set (ks_key ks1)"
    using Suc.prems ks1 a by (intro Suc.IH) (auto simp: take_Suc_insert)
  then show ?case unfolding up using ks1 by (simp del: upt_Suc)
qed simp

lemma set_find_ok:
  assumes "ks_inv ks"
  shows "\<exists>r. set_find ks k = Some r \<and> (r \<ge> 0 \<longleftrightarrow> k \<in> set (ks_key ks)) \<and>
    (r \<ge> 0 \<longrightarrow> nat r < length (ks_key ks) \<and> ks_key ks ! nat r = k)"
proof (cases "ks_nslot ks = 0")
  case True
  then show ?thesis using assms by (auto simp: set_find_def ks_inv_def ks_tab_def)
next
  case False
  let ?n = "ks_nslot ks"
  have tab: "ks_tab ks" and keys: "table_keys ?n (ks_slots ks) = set (ks_key ks)"
    and half: "length (ks_key ks) * 2 \<le> ?n" using assms False by (auto simp: ks_inv_def)
  have "card (set (ks_key ks)) \<le> length (ks_key ks)" by (rule card_length)
  then have "card (table_keys ?n (ks_slots ks)) < ?n"
    using half False unfolding keys by linarith
  then obtain e where e: "e < ?n" "ks_slots ks e = None" using ks_tab_free [OF tab] by blast
  have ok: "table_ok ?n (ks_home ?n) (ks_slots ks)" using tab by (simp add: ks_tab_def)
  obtain j where j: "j < ?n"
    "probe ?n (ring_next ?n) (\<lambda>i. ks_slots ks i = None \<or> ks_slots ks i = Some k) (ks_home ?n k) = Some j"
    "k \<in> table_keys ?n (ks_slots ks) \<longleftrightarrow> ks_slots ks j = Some k"
    "k \<notin> table_keys ?n (ks_slots ks) \<longleftrightarrow> ks_slots ks j = None"
    "\<forall>p < ?n. ring_dist ?n (ks_home ?n k) p < ring_dist ?n (ks_home ?n k) j \<longrightarrow> ks_slots ks p \<noteq> None"
    by (rule probe_key [OF ok e, of k])
  have stop: "(\<lambda>i. ks_slot ks ! i < 0 \<or> ks_key ks ! nat (ks_slot ks ! i) = k) =
      (\<lambda>i. ks_slots ks i = None \<or> ks_slots ks i = Some k)"
    by (rule ext) (auto simp: ks_slots_def)
  have find: "set_find ks k = Some (if ks_slot ks ! j < 0 then - 1 else ks_slot ks ! j)"
    using False j(2) unfolding set_find_def stop ks_ring by simp
  show ?thesis
  proof (cases "k \<in> set (ks_key ks)")
    case True
    then have "ks_slots ks j = Some k" using j(3) keys by blast
    then have "ks_slot ks ! j \<ge> 0" "ks_key ks ! nat (ks_slot ks ! j) = k"
      by (auto simp: ks_slots_def split: if_splits)
    moreover have "nat (ks_slot ks ! j) < length (ks_key ks)"
      using tab j(1) \<open>ks_slot ks ! j \<ge> 0\<close> by (auto simp: ks_tab_def nat_less_iff)
    ultimately show ?thesis using find True by auto
  next
    case no: False
    then have "ks_slots ks j = None" using j(4) keys by blast
    then show ?thesis using find no by simp
  qed
qed

lemma set_add_ok:
  assumes inv: "ks_inv ks"
  shows "\<exists>ks'. set_add ks k = Some (k \<notin> set (ks_key ks), ks') \<and> ks_inv ks' \<and>
    ks_key ks' = (if k \<in> set (ks_key ks) then ks_key ks else ks_key ks @ [k])"
proof -
  obtain r where r: "set_find ks k = Some r" "r \<ge> 0 \<longleftrightarrow> k \<in> set (ks_key ks)"
    using set_find_ok [OF inv] by blast
  show ?thesis
  proof (cases "k \<in> set (ks_key ks)")
    case True
    then show ?thesis using r inv by (simp add: set_add_def)
  next
    case new: False
    define k0 where "k0 = (if length (ks_key ks) = ks_cap ks
      then ks\<lparr>ks_cap := (if ks_cap ks \<noteq> 0 then ks_cap ks * 2 else 64)\<rparr> else ks)"
    have k0: "ks_key k0 = ks_key ks" "ks_slot k0 = ks_slot ks" "ks_nslot k0 = ks_nslot ks"
      by (simp_all add: k0_def)
    define k1 where "k1 = k0\<lparr>ks_key := ks_key k0 @ [k]\<rparr>"
    have nslot1: "ks_nslot k1 = ks_nslot ks" by (simp add: k1_def k0)
    define nslot where "nslot = (if ks_nslot ks \<noteq> 0 then ks_nslot ks * 2 else 128)"
    let ?n = "length (ks_key ks) + 1"
    have key1: "ks_key k1 = ks_key ks @ [k]" "distinct (ks_key k1)" "length (ks_key k1) = ?n"
      using new inv by (auto simp: k1_def k0 ks_inv_def)
    show ?thesis
    proof (cases "?n * 2 > ks_nslot ks")
      case True
      define k2 where "k2 = k1\<lparr>ks_nslot := nslot, ks_slot := replicate nslot (- 1)\<rparr>"
      have big: "?n * 2 \<le> nslot" "0 < nslot"
      proof -
        have "ks_nslot ks = 0 \<and> ks_key ks = [] \<or> length (ks_key ks) * 2 \<le> ks_nslot ks \<and> 0 < ks_nslot ks"
          using inv by (auto simp: ks_inv_def ks_tab_def)
        then have "ks_nslot ks = 0 \<and> ks_key ks = [] \<or> length (ks_key ks) + 1 \<le> ks_nslot ks"
          by (cases "length (ks_key ks)") auto
        then show "?n * 2 \<le> nslot" "0 < nslot" by (auto simp: nslot_def)
      qed
      have none: "ks_slots k2 i = None" if "i < nslot" for i using that by (simp add: k2_def)
      have "table_ok nslot (ks_home nslot) (ks_slots k2)"
        using none big(2) by (intro table_ok_empty) (auto simp: ks_home_def)
      then have tab2: "ks_tab k2" using big(2) by (simp add: ks_tab_def) (simp add: k2_def)
      have "table_keys (ks_nslot k2) (ks_slots k2) = {}"
        using none by (auto simp: table_keys_def k2_def simp del: ks_slots_None)
      then obtain k3 where k3: "set_place_all k2 [0..<0 + ?n] = Some k3" "ks_tab k3" "ks_key k3 = ks_key k2"
        "ks_nslot k3 = ks_nslot k2" "table_keys (ks_nslot k3) (ks_slots k3) = set (ks_key k2)"
        using set_place_all_ok [OF tab2, of 0 ?n] key1 big by (auto simp: k2_def simp del: upt_Suc)
      have "set_add ks k = Some (True, k3)"
        using r new True k3(1) unfolding set_add_def
        by (auto simp: Let_def k0_def [symmetric] k0 k1_def [unfolded k0, symmetric] nslot1 k2_def nslot_def
            key1 simp del: upt_Suc)
      moreover have "ks_inv k3" using k3 key1 big by (auto simp: ks_inv_def k2_def)
      ultimately show ?thesis using new k3(3) key1(1) by (auto simp: k2_def)
    next
      case False
      then have tab: "ks_tab ks" and keys: "table_keys (ks_nslot ks) (ks_slots ks) = set (ks_key ks)"
        using inv by (auto simp: ks_inv_def)
      have sl: "ks_slots k1 i = ks_slots ks i" if "i < ks_nslot ks" for i
        using tab that by (auto simp: ks_slots_def k1_def k0 ks_tab_def nth_append nat_less_iff)
      then have keys1: "table_keys (ks_nslot k1) (ks_slots k1) = set (ks_key ks)"
        using keys by (auto simp: table_keys_def k1_def k0 cong: conj_cong)
      have "table_ok (ks_nslot ks) (ks_home (ks_nslot ks)) (ks_slots k1)"
        using tab sl unfolding ks_tab_def table_ok_def chain_ok_def keys_inj_def by auto
      then have tab1: "ks_tab k1" using tab unfolding ks_tab_def by (auto simp: k1_def k0)
      have "card (set (ks_key ks)) \<le> length (ks_key ks)" by (rule card_length)
      then have "card (table_keys (ks_nslot k1) (ks_slots k1)) < ks_nslot k1"
        using False keys1 by (simp add: k1_def k0)
      then obtain k2 where k2: "set_place k1 (length (ks_key ks)) = Some k2" "ks_tab k2"
        "ks_key k2 = ks_key k1" "ks_nslot k2 = ks_nslot k1"
        "table_keys (ks_nslot k2) (ks_slots k2) = insert k (set (ks_key ks))"
        using set_place_ok [OF tab1, of "length (ks_key ks)"] keys1 new key1 by (auto simp: nth_append)
      have "set_add ks k = Some (True, k2)"
        using r new False k2(1) unfolding set_add_def
        by (simp add: Let_def k0_def [symmetric] k0 k1_def [unfolded k0, symmetric] key1)
      moreover have "ks_inv k2" using k2 key1 False by (auto simp: ks_inv_def k1_def k0)
      ultimately show ?thesis using new k2(3) key1(1) by auto
    qed
  qed
qed

section \<open>What a client of the key set relies on\<close>

definition add_keys :: "'k list \<Rightarrow> 'k list \<Rightarrow> 'k list" where
  "add_keys ks qs = foldl (\<lambda>ks k. if k \<in> set ks then ks else ks @ [k]) ks qs"

lemma add_keys_set: "set (add_keys ks qs) = set ks \<union> set qs"
  by (induction qs arbitrary: ks) (auto simp: add_keys_def)

lemma add_keys_distinct: "distinct ks \<Longrightarrow> distinct (add_keys ks qs)"
  by (induction qs arbitrary: ks) (auto simp: add_keys_def)

lemma add_keys_fresh: "distinct qs \<Longrightarrow> set ks \<inter> set qs = {} \<Longrightarrow> add_keys ks qs = ks @ qs"
proof (induction qs arbitrary: ks)
  case (Cons q qs)
  then show ?case using Cons.IH [of "ks @ [q]"] by (simp add: add_keys_def)
qed (simp add: add_keys_def)

lemma add_keys_Cons: "add_keys ks (q # qs) = add_keys (if q \<in> set ks then ks else ks @ [q]) qs"
  by (simp add: add_keys_def)

locale key_set =
  fixes inv :: "'s \<Rightarrow> bool"
    and elems :: "'s \<Rightarrow> 'k list"
    and find :: "'s \<Rightarrow> 'k \<Rightarrow> int option"
    and add :: "'s \<Rightarrow> 'k \<Rightarrow> (bool \<times> 's) option"
  assumes find_law: "inv s \<Longrightarrow> \<exists>r. find s k = Some r \<and> (r \<ge> 0 \<longleftrightarrow> k \<in> set (elems s))"
    and add_law: "inv s \<Longrightarrow> \<exists>s'. add s k = Some (k \<notin> set (elems s), s') \<and> inv s' \<and>
      elems s' = (if k \<in> set (elems s) then elems s else elems s @ [k])"
begin

lemma add_all:
  "inv s \<Longrightarrow> \<exists>s'. foldl (\<lambda>s k. Option.bind s (\<lambda>s. map_option snd (add s k))) (Some s) qs = Some s' \<and>
     inv s' \<and> elems s' = add_keys (elems s) qs"
proof (induction qs arbitrary: s)
  case (Cons q qs)
  obtain s1 where "add s q = Some (q \<notin> set (elems s), s1)" "inv s1"
    "elems s1 = (if q \<in> set (elems s) then elems s else elems s @ [q])"
    using add_law [OF Cons.prems] by blast
  with Cons.IH [of s1] show ?case by (simp add: add_keys_Cons)
qed (simp add: add_keys_def)

end

interpretation ks: key_set ks_inv ks_key set_find set_add
  using set_find_ok set_add_ok by unfold_locales blast+

section \<open>The registry answers by the lists\<close>

definition allow_lines :: "string list \<Rightarrow> string list" where
  "allow_lines ls = filter (\<lambda>l. l \<noteq> [] \<and> hd l \<noteq> CHR ''#'') (map strip_eol ls)"

lemma decide_read_lines_ok:
  "ks_inv ks \<Longrightarrow> \<exists>ks'. decide_read_lines ks ls = Some ks' \<and> ks_inv ks' \<and>
     ks_key ks' = add_keys (ks_key ks) (allow_lines ls)"
proof (induction ls arbitrary: ks)
  case (Cons l ls)
  show ?case
  proof (cases "strip_eol l = [] \<or> hd (strip_eol l) = CHR ''#''")
    case True
    then show ?thesis using Cons by (auto simp: allow_lines_def)
  next
    case False
    obtain k1 where "set_add ks (strip_eol l) = Some (strip_eol l \<notin> set (ks_key ks), k1)" "ks_inv k1"
      "ks_key k1 = (if strip_eol l \<in> set (ks_key ks) then ks_key ks else ks_key ks @ [strip_eol l])"
      using ks.add_law [OF Cons.prems] by blast
    with False Cons.IH [of k1] show ?thesis by (auto simp: allow_lines_def add_keys_Cons)
  qed
qed (simp add: allow_lines_def add_keys_def)

definition decide_inv :: "DecideState \<Rightarrow> bool" where
  "decide_inv s \<longleftrightarrow> ks_inv (g_allowed s) \<and> ks_inv (g_taken s)"

definition allows :: "DecideState \<Rightarrow> string \<Rightarrow> bool" where
  "allows s k \<longleftrightarrow> \<not> g_have_allow s \<or> k \<in> set (ks_key (g_allowed s))"

lemma decide_key_ok:
  assumes "decide_inv s"
  shows "\<exists>s'. decide_key s k = Some (allows s k, s') \<and> decide_inv s' \<and>
    (\<exists>tk. s' = s\<lparr>g_taken := tk\<rparr> \<and>
      ks_key tk = (if allows s k \<and> g_log_path s \<noteq> None then add_keys (ks_key (g_taken s)) [k]
                   else ks_key (g_taken s)))"
proof -
  obtain r where r: "set_find (g_allowed s) k = Some r" "r \<ge> 0 \<longleftrightarrow> k \<in> set (ks_key (g_allowed s))"
    using ks.find_law assms unfolding decide_inv_def by blast
  obtain tk where tk: "set_add (g_taken s) k = Some (k \<notin> set (ks_key (g_taken s)), tk)" "ks_inv tk"
    "ks_key tk = (if k \<in> set (ks_key (g_taken s)) then ks_key (g_taken s) else ks_key (g_taken s) @ [k])"
    using ks.add_law assms unfolding decide_inv_def by blast
  show ?thesis
  proof (cases "allows s k \<and> g_log_path s \<noteq> None")
    case True
    then have "decide_key s k = Some (True, s\<lparr>g_taken := tk\<rparr>)"
      using r tk by (auto simp: decide_key_def allows_def)
    then show ?thesis using True tk assms
      by (intro exI [of _ "s\<lparr>g_taken := tk\<rparr>"]) (auto simp: decide_inv_def add_keys_def)
  next
    case False
    then have "decide_key s k = Some (allows s k, s)"
      using r by (cases "g_have_allow s") (auto simp: decide_key_def allows_def)
    moreover have "s = s\<lparr>g_taken := g_taken s\<rparr>" by simp
    ultimately show ?thesis using False assms
      by (intro exI [of _ s] conjI exI [of _ "g_taken s"]) auto
  qed
qed

text \<open>A compile: its questions one after the other.\<close>

fun decide_session :: "DecideState \<Rightarrow> string list \<Rightarrow> (bool list \<times> DecideState) option" where
  "decide_session s [] = Some ([], s)"
| "decide_session s (q # qs) = do {
     r \<leftarrow> decide_key s q;
     t \<leftarrow> decide_session (snd r) qs;
     Some (fst r # fst t, snd t)
   }"

lemma decide_session_ok:
  "decide_inv s \<Longrightarrow> \<exists>s'. decide_session s qs = Some (map (allows s) qs, s') \<and> decide_inv s' \<and>
     g_log_path s' = g_log_path s \<and>
     (g_log_path s \<noteq> None \<longrightarrow>
       ks_key (g_taken s') = add_keys (ks_key (g_taken s)) (filter (allows s) qs))"
proof (induction qs arbitrary: s)
  case (Cons q qs)
  obtain tk where s1: "decide_key s q = Some (allows s q, s\<lparr>g_taken := tk\<rparr>)" "decide_inv (s\<lparr>g_taken := tk\<rparr>)"
    "ks_key tk = (if allows s q \<and> g_log_path s \<noteq> None then add_keys (ks_key (g_taken s)) [q]
                  else ks_key (g_taken s))"
    using decide_key_ok [OF Cons.prems, of q] by blast
  have al: "allows (s\<lparr>g_taken := tk\<rparr>) = allows s" by (rule ext) (simp add: allows_def)
  show ?case using Cons.IH [OF s1(2)] s1 by (auto simp: al add_keys_def)
qed (simp add: add_keys_def)

section \<open>Properties\<close>

text \<open>The lines \<^verbatim>\<open>getline\<close> returns for a text, each with its line end.\<close>

fun getlines :: "string \<Rightarrow> string \<Rightarrow> string list" where
  "getlines acc [] = (if acc = [] then [] else [rev acc])"
| "getlines acc (c # t) =
     (if c = CHR 0x0A then rev (c # acc) # getlines [] t else getlines (c # acc) t)"

text \<open>A key that survives a line of the list: one line that is no comment.\<close>

definition line_key :: "string \<Rightarrow> bool" where
  "line_key k \<longleftrightarrow> k \<noteq> [] \<and> hd k \<noteq> CHR ''#'' \<and> CHR 0x0A \<notin> set k \<and> last k \<noteq> CHR 0x0D"

lemma getlines_line: "CHR 0x0A \<notin> set k \<Longrightarrow> getlines acc (k @ CHR 0x0A # t) = (rev acc @ k @ [CHR 0x0A]) # getlines [] t"
  by (induction k arbitrary: acc) auto

lemma getlines_log:
  "list_all line_key ks \<Longrightarrow> getlines [] (concat (map (\<lambda>k. k @ [CHR 0x0A]) ks)) = map (\<lambda>k. k @ [CHR 0x0A]) ks"
  by (induction ks) (simp_all add: getlines_line line_key_def)

lemma strip_eol_line: "line_key k \<Longrightarrow> strip_eol (k @ [CHR 0x0A]) = k"
  by (cases k rule: rev_cases) (auto simp: strip_eol_def line_key_def)

lemma allow_lines_log:
  "list_all line_key ks \<Longrightarrow> allow_lines (map (\<lambda>k. k @ [CHR 0x0A]) ks) = ks"
  by (induction ks) (auto simp: allow_lines_def strip_eol_line line_key_def)

lemma ks_empty_inv: "ks_inv ks_empty"
  by (simp add: ks_inv_def ks_empty_def)

lemma ks_empty_key [simp]: "ks_key ks_empty = []"
  by (simp add: ks_empty_def)

text \<open>The keys a setup allows: every key without a list, the listed ones with one.\<close>

definition listed :: "(string \<Rightarrow> (string list \<times> bool) option) \<Rightarrow> string option \<Rightarrow> string \<Rightarrow> bool" where
  "listed reads allow q \<longleftrightarrow>
     (case allow of
        None \<Rightarrow> True
      | Some path \<Rightarrow> path = [] \<or> (\<exists>ls f. reads path = Some (ls, f) \<and> q \<in> set (allow_lines ls)))"

lemma decide_setup_ok:
  assumes "decide_setup reads writable allow log decide_init = Some (Inr s)"
  shows "decide_inv s \<and> allows s = listed reads allow \<and> ks_key (g_taken s) = [] \<and>
    g_log_path s = (case log of Some path \<Rightarrow> if path = [] then None else Some path | None \<Rightarrow> None)"
proof -
  obtain s1 where s1: "decide_setup_allow reads allow decide_init = Some (Inr s1)"
    "decide_setup_log writable log s1 = Inr s"
  proof -
    obtain r where r: "decide_setup_allow reads allow decide_init = Some r"
      "(case r of Inl e \<Rightarrow> Inl e | Inr s \<Rightarrow> decide_setup_log writable log s) = Inr s"
      using assms by (auto simp: decide_setup_def bind_eq_Some_conv)
    then show thesis using that by (cases r) auto
  qed
  have "decide_inv s1 \<and> allows s1 = listed reads allow \<and> ks_key (g_taken s1) = [] \<and> g_log_path s1 = None"
  proof (cases "allow = None \<or> allow = Some []")
    case True
    then have "s1 = decide_init" using s1(1) by (auto simp: decide_setup_allow_def)
    then show ?thesis using True
      by (auto simp: decide_inv_def decide_init_def ks_empty_inv allows_def listed_def)
  next
    case False
    then obtain path where path: "allow = Some path" "path \<noteq> []" by auto
    obtain ls where ls: "reads path = Some (ls, False)"
      and s1': "Option.bind (decide_read_lines (g_allowed decide_init) ls)
        (\<lambda>ks. Some (Inr (decide_init\<lparr>g_allowed := ks, g_have_allow := True, g_decide_on := True\<rparr>))) = Some (Inr s1 :: string + DecideState)"
      using s1(1) path
      by (auto simp: decide_setup_allow_def bind_eq_Some_conv split: option.splits if_splits)
    have "ks_inv (g_allowed decide_init)" by (simp add: decide_init_def ks_empty_inv)
    then obtain ks where ks: "decide_read_lines (g_allowed decide_init) ls = Some ks" "ks_inv ks"
      "ks_key ks = add_keys [] (allow_lines ls)"
      using decide_read_lines_ok [of "g_allowed decide_init" ls] by (auto simp: decide_init_def)
    then have "s1 = decide_init\<lparr>g_allowed := ks, g_have_allow := True, g_decide_on := True\<rparr>" using s1' by simp
    then show ?thesis using ks path ls
      by (auto simp: decide_inv_def decide_init_def ks_empty_inv allows_def listed_def add_keys_set fun_eq_iff)
  qed
  then show ?thesis using s1(2)
    by (auto simp: decide_setup_log_def decide_inv_def allows_def fun_eq_iff split: option.splits if_splits)
qed

text \<open>
  C27: After a setup that succeeded, each question is answered yes exactly when there is no
  allow-list or the key is one of its lines (comments and blank lines aside), and the log
  that is written holds the keys answered yes, each once, in the order they were first
  asked.
\<close>
theorem decide_session_answers:
  assumes "decide_setup reads writable allow (Some path) decide_init = Some (Inr s)"
    and "path \<noteq> []" "writable path"
  shows "\<exists>s'. decide_session s qs = Some (map (listed reads allow) qs, s') \<and>
    decide_write_log writable s' =
      Some (Inr (concat (map (\<lambda>k. k @ [CHR 0x0A]) (add_keys [] (filter (listed reads allow) qs)))))"
proof -
  have s: "decide_inv s" "allows s = listed reads allow" "ks_key (g_taken s) = []" "g_log_path s = Some path"
    using decide_setup_ok [OF assms(1)] assms(2) by auto
  then show ?thesis using decide_session_ok [OF s(1), of qs] assms(3)
    by (auto simp: decide_write_log_def)
qed

theorem decide_session_answers_witness:
  "\<exists>s s'. decide_setup (\<lambda>p. Some ([''a@1'' @ [CHR 0x0A], ''#x''], False)) (\<lambda>_. True) (Some ''in'') (Some ''out'') decide_init
       = Some (Inr s) \<and>
     decide_session s [''b@2'', ''a@1'', ''a@1''] = Some ([False, True, True], s')"
proof -
  have inv: "ks_inv (g_allowed decide_init)" by (simp add: decide_init_def ks_empty_inv)
  obtain ks where "decide_read_lines (g_allowed decide_init) [''a@1'' @ [CHR 0x0A], ''#x''] = Some ks"
    using decide_read_lines_ok [OF inv] by blast
  then obtain s where s: "decide_setup (\<lambda>p. Some ([''a@1'' @ [CHR 0x0A], ''#x''], False)) (\<lambda>_. True)
      (Some ''in'') (Some ''out'') decide_init = Some (Inr s)"
    by (simp add: decide_setup_def decide_setup_allow_def decide_setup_log_def)
  from decide_session_answers [OF this, of "[''b@2'', ''a@1'', ''a@1'']"] s
  show ?thesis by (auto simp: listed_def allow_lines_def strip_eol_def)
qed

text \<open>
  C15: A compile that is given its own log as the allow-list and asks the same questions,
  whose keys hold no line feed and neither start with # nor end in a carriage return, gets
  the same answers and writes the same log.
\<close>
theorem decide_replay:
  assumes "decide_setup reads writable allow (Some path) decide_init = Some (Inr s)"
    and "path \<noteq> []" "writable path" "list_all line_key qs"
    and "decide_session s qs = Some (answers, s1)" "decide_write_log writable s1 = Some (Inr text)"
    and "reads2 path2 = Some (getlines [] text, False)" "path2 \<noteq> []"
    and "decide_setup reads2 writable (Some path2) (Some path) decide_init = Some (Inr t)"
  shows "\<exists>t1. decide_session t qs = Some (answers, t1) \<and> decide_write_log writable t1 = Some (Inr text)"
proof -
  let ?taken = "add_keys [] (filter (listed reads allow) qs)"
  have s: "decide_inv s" "allows s = listed reads allow" "ks_key (g_taken s) = []" "g_log_path s = Some path"
    using decide_setup_ok [OF assms(1)] assms(2) by auto
  then have ans: "answers = map (listed reads allow) qs" and
    tx: "text = concat (map (\<lambda>k. k @ [CHR 0x0A]) ?taken)"
    using decide_session_ok [OF s(1), of qs] assms(3,5,6) by (auto simp: decide_write_log_def)
  have "list_all line_key ?taken"
    using assms(4) by (auto simp: list_all_iff add_keys_set)
  then have listed2: "listed reads2 (Some path2) q \<longleftrightarrow> q \<in> set ?taken" for q
    using assms(7,8) by (auto simp: listed_def tx getlines_log allow_lines_log)
  have "listed reads2 (Some path2) q \<longleftrightarrow> listed reads allow q" if "q \<in> set qs" for q
    using that by (simp add: listed2 add_keys_set)
  then have same: "map (listed reads2 (Some path2)) qs = map (listed reads allow) qs"
    "filter (listed reads2 (Some path2)) qs = filter (listed reads allow) qs"
    by (auto cong: filter_cong)
  have t: "decide_inv t" "allows t = listed reads2 (Some path2)" "ks_key (g_taken t) = []" "g_log_path t = Some path"
    using decide_setup_ok [OF assms(9)] assms(2) by auto
  then show ?thesis using decide_session_ok [OF t(1), of qs] assms(3) same
    by (auto simp: decide_write_log_def ans tx)
qed

theorem decide_replay_witness:
  "\<exists>s reads2 t t1. decide_setup (\<lambda>_. None) (\<lambda>_. True) None (Some ''out'') decide_init = Some (Inr s) \<and>
     decide_setup reads2 (\<lambda>_. True) (Some ''log'') (Some ''out'') decide_init = Some (Inr t) \<and>
     decide_session t [''a@1'', ''b@2'', ''a@1''] = Some ([True, True, True], t1)"
proof -
  let ?qs = "[''a@1'', ''b@2'', ''a@1'']"
  define s where "s = decide_init\<lparr>g_log_path := Some ''out'', g_decide_on := True\<rparr>"
  have s: "decide_setup (\<lambda>_. None) (\<lambda>_. True) None (Some ''out'') decide_init = Some (Inr s)"
    by (simp add: decide_setup_def decide_setup_allow_def decide_setup_log_def s_def)
  have inv: "decide_inv s" "g_log_path s = Some ''out''" "allows s = (\<lambda>_. True)"
    by (auto simp: s_def decide_inv_def decide_init_def ks_empty_inv allows_def)
  obtain s1 where s1: "decide_session s ?qs = Some ([True, True, True], s1)" "g_log_path s1 = Some ''out''"
    using decide_session_ok [OF inv(1), of ?qs] inv(2,3) by auto
  obtain tx where tx: "decide_write_log (\<lambda>_. True) s1 = Some (Inr tx)"
    using s1(2) by (simp add: decide_write_log_def)
  define reads2 where "reads2 = (\<lambda>_ :: string. Some (getlines [] tx, False))"
  have "ks_inv (g_allowed decide_init)" by (simp add: decide_init_def ks_empty_inv)
  then obtain ks where ks: "decide_read_lines (g_allowed decide_init) (getlines [] tx) = Some ks"
    using decide_read_lines_ok by blast
  then obtain t where t: "decide_setup reads2 (\<lambda>_. True) (Some ''log'') (Some ''out'') decide_init = Some (Inr t)"
    by (simp add: decide_setup_def decide_setup_allow_def decide_setup_log_def reads2_def)
  have "\<exists>t1. decide_session t ?qs = Some ([True, True, True], t1) \<and>
      decide_write_log (\<lambda>_. True) t1 = Some (Inr tx)"
    by (rule decide_replay [OF s _ _ _ s1(1) tx _ _ t]) (simp_all add: reads2_def line_key_def)
  then show ?thesis using s t by blast
qed

end
