(* ===== verification/BigLimbs.thy ===== *)
theory BigLimbs
  imports Prelude
begin

unbundle bit_operations_syntax

text \<open>
  The limb level of the arbitrary-precision integers (\<^verbatim>\<open>lib/sp_bigint.c\<close>, the
  \<^verbatim>\<open>mpn_\<close> routines and the raw-limb multiplications).

  A limb array is the list of its limbs, the least significant first, and a routine answers the
  limbs it leaves in its result array; reading a limb and writing the limb of the same index
  commute with everything the loops do, so a call whose result array is one of its operands
  has the same answer. The sizes are those of a 64-bit host: \<^verbatim>\<open>mp_limb\<close> has 32 bits and
  \<^verbatim>\<open>mp_dbl_limb\<close> 64. Limbs and double limbs are naturals, with the wrap-around of every sum and
  product of the code written out (\<open>u64\<close>, \<open>u128\<close>, \<open>wrap_i64\<close>), and the lemmas show that none
  of them wraps on limbs.
\<close>

named_theorems limb_defs \<open>the macros of the limb arithmetic\<close>

section \<open>Limbs\<close>

definition DIG_SIZE :: nat where
  "DIG_SIZE = 32"

definition DIG_BASE :: nat where
  "DIG_BASE = 2 ^ 32"

definition LOW :: "nat \<Rightarrow> nat" where
  "LOW x = x mod DIG_BASE"

definition HIGH :: "nat \<Rightarrow> nat" where
  "HIGH x = x div DIG_BASE"

text \<open>The same macros on a signed double limb: the shift is arithmetic.\<close>

definition LOWs :: "int \<Rightarrow> nat" where
  "LOWs x = nat (x mod int DIG_BASE)"

definition HIGHs :: "int \<Rightarrow> int" where
  "HIGHs x = x div int DIG_BASE"

definition u32 :: "nat \<Rightarrow> nat" where
  "u32 x = x mod 2 ^ 32"

definition u64 :: "nat \<Rightarrow> nat" where
  "u64 x = x mod 2 ^ 64"

definition u128 :: "nat \<Rightarrow> nat" where
  "u128 x = x mod 2 ^ 128"

declare DIG_SIZE_def [limb_defs] DIG_BASE_def [limb_defs] LOW_def [limb_defs] HIGH_def [limb_defs]
  u32_def [limb_defs] u64_def [limb_defs]

definition limbs_ok :: "nat list \<Rightarrow> bool" where
  "limbs_ok xs \<longleftrightarrow> (\<forall>x \<in> set xs. x < DIG_BASE)"

text \<open>The number a limb array stands for.\<close>

fun lval :: "nat list \<Rightarrow> nat" where
  "lval [] = 0"
| "lval (x # xs) = x + DIG_BASE * lval xs"

section \<open>Addition and subtraction\<close>

fun add_n_loop :: "nat \<Rightarrow> nat list \<Rightarrow> nat list \<Rightarrow> nat list \<times> nat" where
  "add_n_loop carry (a # as) (b # bs) =
     (let c = u64 (carry + u64 (a + b)); (r, k) = add_n_loop (HIGH c) as bs in (LOW c # r, k))"
| "add_n_loop carry _ _ = ([], carry)"

definition mpn_add_n :: "nat list \<Rightarrow> nat list \<Rightarrow> nat list \<times> nat" where
  "mpn_add_n ap bp = (let (r, c) = add_n_loop 0 ap bp in (r, u32 c))"

fun carry_loop :: "nat \<Rightarrow> nat list \<Rightarrow> nat list \<times> nat" where
  "carry_loop carry [] = ([], carry)"
| "carry_loop carry (a # as) =
     (let c = u64 (carry + a); (r, k) = carry_loop (HIGH c) as in (LOW c # r, k))"

definition mpn_add :: "nat list \<Rightarrow> nat list \<Rightarrow> nat list \<times> nat" where
  "mpn_add ap bp =
     (let bn = length bp; (r1, c1) = mpn_add_n (take bn ap) bp; (r2, c2) = carry_loop c1 (drop bn ap)
      in (r1 @ r2, u32 c2))"

fun sub_n_loop :: "int \<Rightarrow> nat list \<Rightarrow> nat list \<Rightarrow> nat list \<times> int" where
  "sub_n_loop borrow (a # as) (b # bs) =
     (let t = wrap_i64 (borrow + (int a - int b)); (r, k) = sub_n_loop (HIGHs t) as bs in (LOWs t # r, k))"
| "sub_n_loop borrow _ _ = ([], borrow)"

definition mpn_sub_n :: "nat list \<Rightarrow> nat list \<Rightarrow> nat list \<times> nat" where
  "mpn_sub_n ap bp = (let (r, k) = sub_n_loop 0 ap bp in (r, LOWs (- k)))"

fun borrow_loop :: "int \<Rightarrow> nat list \<Rightarrow> nat list \<times> int" where
  "borrow_loop borrow [] = ([], borrow)"
| "borrow_loop borrow (a # as) =
     (let t = wrap_i64 (borrow + int a); (r, k) = borrow_loop (HIGHs t) as in (LOWs t # r, k))"

definition mpn_sub :: "nat list \<Rightarrow> nat list \<Rightarrow> nat list \<times> nat" where
  "mpn_sub ap bp =
     (let bn = length bp; (r1, k1) = mpn_sub_n (take bn ap) bp;
          (r2, k2) = borrow_loop (- int k1) (drop bn ap)
      in (r1 @ r2, LOWs (- k2)))"

text \<open>The comparison walks from the most significant limb.\<close>

fun cmp_msb :: "nat list \<Rightarrow> nat list \<Rightarrow> int" where
  "cmp_msb (a # as) (b # bs) = (if a \<noteq> b then (if a > b then 1 else - 1) else cmp_msb as bs)"
| "cmp_msb _ _ = 0"

definition mpn_cmp :: "nat list \<Rightarrow> nat list \<Rightarrow> int" where
  "mpn_cmp ap bp = cmp_msb (rev ap) (rev bp)"

section \<open>Multiplication\<close>

text \<open>
  \<open>addmul_block k\<close> is \<open>k\<close> of the unrolled statements: it answers the limbs they write, the
  accumulator after them, and what is left of both arrays. \<open>addmul_blocks k\<close> is the loop over such
  blocks while \<open>k\<close> limbs are left.
\<close>

fun addmul_block :: "nat \<Rightarrow> nat \<Rightarrow> nat \<Rightarrow> nat list \<Rightarrow> nat list \<Rightarrow>
    nat list \<times> nat \<times> nat list \<times> nat list" where
  "addmul_block (Suc k) limb acc (r # rp) (s # sp) =
     (let acc = u128 (acc + (r + s * limb)); (w, acc', rp', sp') = addmul_block k limb (acc div 2 ^ DIG_SIZE) rp sp
      in (u32 acc # w, acc', rp', sp'))"
| "addmul_block _ limb acc rp sp = ([], acc, rp, sp)"

fun addmul_blocks :: "nat \<Rightarrow> nat \<Rightarrow> nat \<Rightarrow> nat \<Rightarrow> nat list \<Rightarrow> nat list \<Rightarrow>
    nat list \<times> nat \<times> nat list \<times> nat list" where
  "addmul_blocks 0 k limb acc rp sp = ([], acc, rp, sp)"
| "addmul_blocks (Suc fuel) k limb acc rp sp =
     (if k \<le> length sp
      then (let (w, acc', rp', sp') = addmul_block k limb acc rp sp;
                (v, acc'', rp'', sp'') = addmul_blocks fuel k limb acc' rp' sp'
            in (w @ v, acc'', rp'', sp''))
      else ([], acc, rp, sp))"

definition mpn_addmul_1 :: "nat list \<Rightarrow> nat list \<Rightarrow> nat \<Rightarrow> nat list \<times> nat" where
  "mpn_addmul_1 rp s1p limb =
     (let n = length s1p;
          (w8, acc, rp, sp) = addmul_blocks n 8 limb 0 rp s1p;
          (w4, acc, rp, sp) = addmul_blocks n 4 limb acc rp sp;
          (w1, acc, rp, sp) = addmul_blocks n 1 limb acc rp sp
      in (w8 @ w4 @ w1, u32 acc))"

text \<open>Carry propagation of the schoolbook loops: while there is a carry and a limb to add it to.\<close>

fun prop_carry :: "nat \<Rightarrow> nat list \<Rightarrow> nat list" where
  "prop_carry carry [] = []"
| "prop_carry carry (w # ws) =
     (if carry = 0 then w # ws
      else let sum = u64 (w + carry) in LOW sum # prop_carry (HIGH sum) ws)"

text \<open>One pass of the schoolbook product: the array from \<open>w.p + j\<close> on gets \<open>b * a_limb\<close> added.\<close>

definition mul_row :: "nat list \<Rightarrow> nat list \<Rightarrow> nat \<Rightarrow> nat list" where
  "mul_row w bp a_limb =
     (if a_limb = 0 then w
      else let (r, carry) = mpn_addmul_1 (take (length bp) w) bp a_limb
           in r @ prop_carry carry (drop (length bp) w))"

text \<open>The loop over the limbs of \<open>a\<close>: after pass \<open>j\<close> limb \<open>j\<close> of the result is final.\<close>

fun mul_rows :: "nat list \<Rightarrow> nat list \<Rightarrow> nat list \<Rightarrow> nat list" where
  "mul_rows w bp [] = w"
| "mul_rows w bp (a # as) =
     (case mul_row w bp a of [] \<Rightarrow> [] | x # xs \<Rightarrow> x # mul_rows xs bp as)"

text \<open>\<^verbatim>\<open>result[i + y_len] += carry\<close>\<close>

definition add_limb :: "nat \<Rightarrow> nat list \<Rightarrow> nat list" where
  "add_limb carry ws = (case ws of [] \<Rightarrow> [] | w # ws' \<Rightarrow> u32 (w + carry) # ws')"

definition basic_row :: "nat list \<Rightarrow> nat list \<Rightarrow> nat \<Rightarrow> nat list" where
  "basic_row w y xi =
     (if xi = 0 then w
      else let (r, carry) = mpn_addmul_1 (take (length y) w) y xi
           in r @ add_limb carry (drop (length y) w))"

fun basic_rows :: "nat list \<Rightarrow> nat list \<Rightarrow> nat list \<Rightarrow> nat list" where
  "basic_rows w y [] = w"
| "basic_rows w y (xi # x) =
     (case basic_row w y xi of [] \<Rightarrow> [] | r # rs \<Rightarrow> r # basic_rows rs y x)"

definition mpz_mul_basic_limbs :: "nat list \<Rightarrow> nat list \<Rightarrow> nat list" where
  "mpz_mul_basic_limbs x y = basic_rows (replicate (length x + length y) 0) y x"

text \<open>\<open>dest\<close> from \<open>offset\<close> on.\<close>

fun limb_add_loop :: "nat \<Rightarrow> nat list \<Rightarrow> nat list \<Rightarrow> nat list" where
  "limb_add_loop carry dest [] = prop_carry carry dest"
| "limb_add_loop carry [] (s # src) = []"
| "limb_add_loop carry (d # dest) (s # src) =
     (let sum = u64 (u64 (d + s) + carry) in LOW sum # limb_add_loop (HIGH sum) dest src)"

text \<open>None is a write outside \<open>dest\<close>.\<close>

definition limb_add_at :: "nat list \<Rightarrow> nat list \<Rightarrow> nat \<Rightarrow> nat list option" where
  "limb_add_at dest src offset =
     (if offset + length src \<le> length dest
      then Some (take offset dest @ limb_add_loop 0 (drop offset dest) src) else None)"

section \<open>Values of limb arrays\<close>

lemma DIG_BASE_pos [simp]: "0 < DIG_BASE" "DIG_BASE \<noteq> 0" "1 < DIG_BASE" "Suc 0 < DIG_BASE"
  "1 \<le> DIG_BASE" "Suc 0 \<le> DIG_BASE"
  by (simp_all add: DIG_BASE_def)

lemma DIG_SIZE_power [simp]: "2 ^ DIG_SIZE = DIG_BASE"
  by (simp add: DIG_SIZE_def DIG_BASE_def)

lemma limbs_ok_simps [simp]:
  "limbs_ok []" "limbs_ok (x # xs) \<longleftrightarrow> x < DIG_BASE \<and> limbs_ok xs"
  "limbs_ok (xs @ ys) \<longleftrightarrow> limbs_ok xs \<and> limbs_ok ys" "limbs_ok (rev xs) \<longleftrightarrow> limbs_ok xs"
  by (auto simp: limbs_ok_def)

lemma limbs_ok_take [simp]: "limbs_ok xs \<Longrightarrow> limbs_ok (take n xs)" "limbs_ok xs \<Longrightarrow> limbs_ok (drop n xs)"
  by (auto simp: limbs_ok_def dest: in_set_takeD in_set_dropD)

lemma limbs_ok_replicate [simp]: "limbs_ok (replicate n 0)"
  by (simp add: limbs_ok_def)

lemma lval_append: "lval (xs @ ys) = lval xs + DIG_BASE ^ length xs * lval ys"
  by (induction xs) (simp_all add: algebra_simps)

lemma lval_split: "lval xs = lval (take n xs) + DIG_BASE ^ min n (length xs) * lval (drop n xs)"
  by (metis append_take_drop_id length_take lval_append min.commute)

lemma lval_replicate [simp]: "lval (replicate n 0) = 0"
  by (induction n) simp_all

lemma lval_less: "limbs_ok xs \<Longrightarrow> lval xs < DIG_BASE ^ length xs"
proof (induction xs)
  case (Cons x xs)
  then have "x < DIG_BASE" "Suc (lval xs) \<le> DIG_BASE ^ length xs" by simp_all
  then have "DIG_BASE * Suc (lval xs) \<le> DIG_BASE * DIG_BASE ^ length xs" by (intro mult_left_mono) simp_all
  with \<open>x < DIG_BASE\<close> show ?case by simp
qed simp

lemma LOW_less [simp]: "LOW x < DIG_BASE" "LOWs y < DIG_BASE" "u32 x < DIG_BASE"
  by (simp_all add: LOW_def LOWs_def u32_def DIG_BASE_def nat_less_iff)

lemma LOW_HIGH: "LOW x + DIG_BASE * HIGH x = x"
  by (simp add: LOW_def HIGH_def)

lemma LOWs_HIGHs: "int (LOWs x) + int DIG_BASE * HIGHs x = x"
  by (simp add: LOWs_def HIGHs_def)

lemma HIGH_le: "x < DIG_BASE * n \<Longrightarrow> HIGH x < n"
  by (simp add: HIGH_def less_mult_imp_div_less mult.commute)

lemma u64_id: "x < DIG_BASE * DIG_BASE \<Longrightarrow> u64 x = x"
  by (simp add: u64_def DIG_BASE_def)

lemma u32_id [simp]: "x < DIG_BASE \<Longrightarrow> u32 x = x"
  by (simp add: u32_def DIG_BASE_def)

section \<open>Addition and subtraction are exact\<close>

lemma add_n_loop_val:
  assumes "length as = length bs" "limbs_ok as" "limbs_ok bs" "carry \<le> 1"
  shows "\<exists>r c. add_n_loop carry as bs = (r, c) \<and> length r = length as \<and> limbs_ok r \<and> c \<le> 1 \<and>
    lval r + DIG_BASE ^ length as * c = lval as + lval bs + carry"
  using assms
proof (induction as bs arbitrary: carry rule: list_induct2')
  case (4 a as b bs)
  let ?c = "carry + (a + b)"
  have lt: "a < DIG_BASE" "b < DIG_BASE" "carry \<le> 1" using 4 by simp_all
  then have c: "?c < DIG_BASE * 2" by simp
  then have u: "u64 (a + b) = a + b" "u64 ?c = ?c" using lt
    by (auto intro!: u64_id simp: DIG_BASE_def)
  obtain r k where r: "add_n_loop (HIGH ?c) as bs = (r, k)" "length r = length as" "limbs_ok r" "k \<le> 1"
    "lval r + DIG_BASE ^ length as * k = lval as + lval bs + HIGH ?c"
    using 4(1) [of "HIGH ?c"] 4(2-) HIGH_le [OF c] by auto
  have "LOW ?c + DIG_BASE * (lval r + DIG_BASE ^ length as * k) = ?c + DIG_BASE * (lval as + lval bs)"
    unfolding r(5) using LOW_HIGH [of ?c] by (simp add: algebra_simps)
  then show ?case using r u by (simp add: Let_def algebra_simps)
qed simp_all

lemma carry_loop_val:
  assumes "limbs_ok as" "carry \<le> 1"
  shows "\<exists>r c. carry_loop carry as = (r, c) \<and> length r = length as \<and> limbs_ok r \<and> c \<le> 1 \<and>
    lval r + DIG_BASE ^ length as * c = lval as + carry"
  using assms
proof (induction as arbitrary: carry)
  case (Cons a as)
  let ?c = "carry + a"
  have c: "?c < DIG_BASE * 2" using Cons by simp
  then have u: "u64 ?c = ?c" by (auto intro!: u64_id simp: DIG_BASE_def)
  obtain r k where r: "carry_loop (HIGH ?c) as = (r, k)" "length r = length as" "limbs_ok r" "k \<le> 1"
    "lval r + DIG_BASE ^ length as * k = lval as + HIGH ?c"
    using Cons(1) [of "HIGH ?c"] Cons(2-) HIGH_le [OF c] by auto
  have "LOW ?c + DIG_BASE * (lval r + DIG_BASE ^ length as * k) = ?c + DIG_BASE * lval as"
    unfolding r(5) using LOW_HIGH [of ?c] by (simp add: algebra_simps)
  then show ?case using r u by (simp add: Let_def algebra_simps)
qed simp

lemma le1_u32 [simp]: "c \<le> 1 \<Longrightarrow> u32 c = c"
  by (rule u32_id) (simp add: DIG_BASE_def)

lemma mpn_add_val:
  assumes "length bp \<le> length ap" "limbs_ok ap" "limbs_ok bp"
  shows "\<exists>r c. mpn_add ap bp = (r, c) \<and> length r = length ap \<and> limbs_ok r \<and> c \<le> 1 \<and>
    lval r + DIG_BASE ^ length ap * c = lval ap + lval bp"
proof -
  let ?n = "length bp" and ?A = "take (length bp) ap" and ?D = "drop (length bp) ap"
  obtain r1 c1 where 1: "add_n_loop 0 ?A bp = (r1, c1)" "length r1 = ?n" "limbs_ok r1" "c1 \<le> 1"
    "lval r1 + DIG_BASE ^ ?n * c1 = lval ?A + lval bp"
    using add_n_loop_val [of ?A bp 0] assms by auto
  obtain r2 c2 where 2: "carry_loop c1 ?D = (r2, c2)" "length r2 = length ap - ?n" "limbs_ok r2" "c2 \<le> 1"
    "lval r2 + DIG_BASE ^ (length ap - ?n) * c2 = lval ?D + c1"
    using carry_loop_val [of ?D c1] assms 1(4) by auto
  have "DIG_BASE ^ length ap = DIG_BASE ^ ?n * DIG_BASE ^ (length ap - ?n)"
    using assms(1) by (simp flip: power_add)
  then have "lval (r1 @ r2) + DIG_BASE ^ length ap * c2 = lval r1 + DIG_BASE ^ ?n * (lval ?D + c1)"
    unfolding 2(5) [symmetric] by (simp add: lval_append 1(2) algebra_simps)
  also have "\<dots> = lval ap + lval bp" using 1(5) lval_split [of ap ?n] assms(1) by (simp add: algebra_simps min_absorb1)
  finally show ?thesis using 1 2 assms(1) by (simp add: mpn_add_def mpn_add_n_def)
qed

text \<open>A borrow is 0 or -1.\<close>

lemma HIGHs_range: "- int DIG_BASE \<le> x \<Longrightarrow> x < int DIG_BASE \<Longrightarrow> HIGHs x \<in> {-1, 0}"
proof (cases "x < 0")
  case True
  assume "- int DIG_BASE \<le> x"
  then have "(x + int DIG_BASE) div int DIG_BASE = 0" using True by (intro div_pos_pos_trivial) simp_all
  then show ?thesis using div_add_self2 [of "int DIG_BASE" x] by (simp add: HIGHs_def)
qed (simp add: HIGHs_def div_pos_pos_trivial)

lemma borrow_wrap:
  assumes "b \<in> {-1, 0}" "x < DIG_BASE" "y < DIG_BASE"
  shows "wrap_i64 (b + (int x - int y)) = b + (int x - int y)" "HIGHs (b + (int x - int y)) \<in> {-1, 0}"
proof -
  have r: "- int DIG_BASE \<le> b + (int x - int y)" "b + (int x - int y) < int DIG_BASE"
    using assms by auto
  show "HIGHs (b + (int x - int y)) \<in> {-1, 0}" by (rule HIGHs_range [OF r])
  show "wrap_i64 (b + (int x - int y)) = b + (int x - int y)"
    using r by (intro wrap_i64_id) (simp add: machine_int DIG_BASE_def)
qed

lemma sub_n_loop_val:
  assumes "length as = length bs" "limbs_ok as" "limbs_ok bs" "b \<in> {-1, 0}"
  shows "\<exists>r k. sub_n_loop b as bs = (r, k) \<and> length r = length as \<and> limbs_ok r \<and> k \<in> {-1, 0} \<and>
    int (lval r) + int DIG_BASE ^ length as * k = int (lval as) - int (lval bs) + b"
  using assms
proof (induction as bs arbitrary: b rule: list_induct2')
  case (4 a as c cs)
  let ?t = "b + (int a - int c)"
  have w: "wrap_i64 ?t = ?t" "HIGHs ?t \<in> {-1, 0}" using borrow_wrap 4 by simp_all
  obtain r k where r: "sub_n_loop (HIGHs ?t) as cs = (r, k)" "length r = length as" "limbs_ok r" "k \<in> {-1, 0}"
    "int (lval r) + int DIG_BASE ^ length as * k = int (lval as) - int (lval cs) + HIGHs ?t"
    using 4(1) [of "HIGHs ?t"] 4(2-) w(2) by auto
  have "int (LOWs ?t) + int DIG_BASE * (int (lval r) + int DIG_BASE ^ length as * k) =
      ?t + int DIG_BASE * (int (lval as) - int (lval cs))"
    unfolding r(5) using LOWs_HIGHs [of ?t] by (simp add: algebra_simps)
  moreover have "sub_n_loop b (a # as) (c # cs) = (LOWs ?t # r, k)" using r(1) w(1) by (simp add: Let_def)
  ultimately show ?case using r(2-4) by (simp add: algebra_simps)
qed simp_all

lemma borrow_loop_val:
  assumes "limbs_ok as" "b \<in> {-1, 0}"
  shows "\<exists>r k. borrow_loop b as = (r, k) \<and> length r = length as \<and> limbs_ok r \<and> k \<in> {-1, 0} \<and>
    int (lval r) + int DIG_BASE ^ length as * k = int (lval as) + b"
  using assms
proof (induction as arbitrary: b)
  case (Cons a as)
  let ?t = "b + int a"
  have w: "wrap_i64 ?t = ?t" "HIGHs ?t \<in> {-1, 0}" using borrow_wrap [of b a 0] Cons by simp_all
  obtain r k where r: "borrow_loop (HIGHs ?t) as = (r, k)" "length r = length as" "limbs_ok r" "k \<in> {-1, 0}"
    "int (lval r) + int DIG_BASE ^ length as * k = int (lval as) + HIGHs ?t"
    using Cons(1) [of "HIGHs ?t"] Cons(2-) w(2) by auto
  have "int (LOWs ?t) + int DIG_BASE * (int (lval r) + int DIG_BASE ^ length as * k) =
      ?t + int DIG_BASE * int (lval as)"
    unfolding r(5) using LOWs_HIGHs [of ?t] by (simp add: algebra_simps)
  then show ?case using r w by (simp add: Let_def algebra_simps)
qed simp

lemma LOWs_borrow: "k \<in> {-1, 0} \<Longrightarrow> int (LOWs (- k)) = - k"
  by (auto simp: LOWs_def DIG_BASE_def)

text \<open>The difference is exact modulo the size of the array, and the returned borrow tells which.\<close>

lemma mpn_sub_val:
  assumes "length bp \<le> length ap" "limbs_ok ap" "limbs_ok bp"
  shows "\<exists>r k. mpn_sub ap bp = (r, k) \<and> length r = length ap \<and> limbs_ok r \<and> k \<le> 1 \<and>
    int (lval r) = int (lval ap) - int (lval bp) + int DIG_BASE ^ length ap * int k"
proof -
  let ?n = "length bp" and ?A = "take (length bp) ap" and ?D = "drop (length bp) ap"
  obtain r1 k1 where 1: "sub_n_loop 0 ?A bp = (r1, k1)" "length r1 = ?n" "limbs_ok r1" "k1 \<in> {-1, 0}"
    "int (lval r1) + int DIG_BASE ^ ?n * k1 = int (lval ?A) - int (lval bp)"
    using sub_n_loop_val [of ?A bp 0] assms by auto
  have k1: "- int (LOWs (- k1)) = k1" using LOWs_borrow [OF 1(4)] by simp
  obtain r2 k2 where 2: "borrow_loop k1 ?D = (r2, k2)" "length r2 = length ap - ?n" "limbs_ok r2" "k2 \<in> {-1, 0}"
    "int (lval r2) + int DIG_BASE ^ (length ap - ?n) * k2 = int (lval ?D) + k1"
    using borrow_loop_val [of ?D k1] assms 1(4) by auto
  have "int DIG_BASE ^ length ap = int DIG_BASE ^ ?n * int DIG_BASE ^ (length ap - ?n)"
    using assms(1) by (simp flip: power_add)
  then have "int (lval (r1 @ r2)) + int DIG_BASE ^ length ap * k2 =
      int (lval r1) + int DIG_BASE ^ ?n * (int (lval ?D) + k1)"
    unfolding 2(5) [symmetric] by (simp add: lval_append 1(2) algebra_simps)
  also have "\<dots> = int (lval ap) - int (lval bp)"
    using 1(5) lval_split [of ap ?n] assms(1) by (simp add: algebra_simps min_absorb1)
  finally have "int (lval (r1 @ r2)) = int (lval ap) - int (lval bp) + int DIG_BASE ^ length ap * int (LOWs (- k2))"
    using LOWs_borrow [OF 2(4)] by (simp add: algebra_simps)
  moreover have "LOWs (- k2) \<le> 1" using LOWs_borrow [OF 2(4)] 2(4) by auto
  ultimately show ?thesis using 1 2 assms(1) k1 by (simp add: mpn_sub_def mpn_sub_n_def)
qed

lemma mpn_sub_exact:
  assumes "length bp \<le> length ap" "limbs_ok ap" "limbs_ok bp" "lval bp \<le> lval ap"
  obtains r where "mpn_sub ap bp = (r, 0)" "length r = length ap" "limbs_ok r" "lval r = lval ap - lval bp"
proof -
  obtain r k where r: "mpn_sub ap bp = (r, k)" "length r = length ap" "limbs_ok r" "k \<le> 1"
    "int (lval r) = int (lval ap) - int (lval bp) + int DIG_BASE ^ length ap * int k"
    using mpn_sub_val [OF assms(1-3)] by auto
  have "int (lval r) < int DIG_BASE ^ length ap" using lval_less [OF r(3)] r(2) by (metis of_nat_less_iff of_nat_power)
  moreover have "k = 1 \<Longrightarrow> int DIG_BASE ^ length ap \<le> int (lval r)" using r(5) assms(4) by simp
  ultimately have "k = 0" using r(4) by linarith
  then show ?thesis using r assms(4) that by auto
qed

lemma lval_rev_less:
  assumes "length as = length bs" "limbs_ok as" "limbs_ok bs" "a < b"
  shows "lval (as @ [a]) < lval (bs @ [b])"
proof -
  have "lval (as @ [a]) < DIG_BASE ^ length as * Suc a" using lval_less [OF assms(2)] by (simp add: lval_append)
  also have "\<dots> \<le> DIG_BASE ^ length as * b" using assms(4) by (intro mult_left_mono) simp_all
  finally show ?thesis using assms(1) by (simp add: lval_append)
qed

lemma mpn_cmp_val:
  assumes "length ap = length bp" "limbs_ok ap" "limbs_ok bp"
  shows "mpn_cmp ap bp = (if lval ap < lval bp then - 1 else if lval bp < lval ap then 1 else 0)"
  using assms
proof (induction ap arbitrary: bp rule: rev_induct)
  case (snoc a as)
  then obtain b bs where b: "bp = bs @ [b]" by (cases bp rule: rev_cases) auto
  show ?case
  proof (cases "a = b")
    case True
    then show ?thesis using snoc b by (simp add: mpn_cmp_def lval_append)
  next
    case False
    then consider "a < b" | "b < a" by linarith
    then show ?thesis
      by cases (use snoc.prems b lval_rev_less [of as bs a b] lval_rev_less [of bs as b a] in \<open>auto simp: mpn_cmp_def\<close>)
  qed
qed (simp add: mpn_cmp_def)

section \<open>Multiplication is exact\<close>

text \<open>The unrolled loops are one loop over the limbs.\<close>

fun addmul_ref :: "nat \<Rightarrow> nat \<Rightarrow> nat list \<Rightarrow> nat list \<Rightarrow> nat list \<times> nat" where
  "addmul_ref limb acc (r # rp) (s # sp) =
     (let acc = acc + (r + s * limb); (w, k) = addmul_ref limb (HIGH acc) rp sp in (LOW acc # w, k))"
| "addmul_ref limb acc _ _ = ([], acc)"

lemma addmul_step_bound:
  assumes "r < DIG_BASE" "s < DIG_BASE" "limb < DIG_BASE" "acc < DIG_BASE"
  shows "acc + (r + s * limb) < DIG_BASE * DIG_BASE"
proof -
  have "s * limb \<le> (DIG_BASE - 1) * (DIG_BASE - 1)" using assms by (intro mult_mono) simp_all
  moreover have "(DIG_BASE - 1) * (DIG_BASE - 1) + (2 * DIG_BASE - 2) < DIG_BASE * DIG_BASE"
    by (simp add: DIG_BASE_def)
  ultimately show ?thesis using assms by linarith
qed

lemma addmul_step_exact:
  assumes "r < DIG_BASE" "s < DIG_BASE" "limb < DIG_BASE" "acc < DIG_BASE"
  shows "u128 (acc + (r + s * limb)) = acc + (r + s * limb)"
    "HIGH (acc + (r + s * limb)) < DIG_BASE"
  using addmul_step_bound [OF assms] by (auto simp: u128_def DIG_BASE_def HIGH_le HIGH_def)

lemma addmul_block_ref:
  assumes "limbs_ok rp" "limbs_ok sp" "length rp = length sp" "limb < DIG_BASE" "acc < DIG_BASE" "k \<le> length sp"
  shows "\<exists>w acc'. addmul_block k limb acc rp sp = (w, acc', drop k rp, drop k sp) \<and> acc' < DIG_BASE \<and>
    (\<forall>v c. addmul_ref limb acc' (drop k rp) (drop k sp) = (v, c) \<longrightarrow> addmul_ref limb acc rp sp = (w @ v, c))"
  using assms
proof (induction k arbitrary: acc rp sp)
  case (Suc k)
  then obtain r rp' s sp' where eq: "rp = r # rp'" "sp = s # sp'" by (cases rp; cases sp) auto
  let ?a = "acc + (r + s * limb)"
  have ex: "u128 ?a = ?a" "HIGH ?a < DIG_BASE" using addmul_step_exact Suc.prems eq by simp_all
  obtain w acc' where w: "addmul_block k limb (HIGH ?a) rp' sp' = (w, acc', drop k rp', drop k sp')" "acc' < DIG_BASE"
    "\<forall>v c. addmul_ref limb acc' (drop k rp') (drop k sp') = (v, c) \<longrightarrow> addmul_ref limb (HIGH ?a) rp' sp' = (w @ v, c)"
    using Suc.IH [of rp' sp' "HIGH ?a"] Suc.prems eq ex by auto
  have "addmul_block (Suc k) limb acc rp sp = (LOW ?a # w, acc', drop k rp', drop k sp')"
    using w(1) ex(1) by (simp add: eq Let_def limb_defs)
  then show ?case using w eq by (auto simp: Let_def)
qed simp

lemma addmul_ref_length: "length rp = length sp \<Longrightarrow> length (fst (addmul_ref limb acc rp sp)) = length sp"
  by (induction limb acc rp sp rule: addmul_ref.induct) (auto simp: Let_def split: prod.splits)

lemma addmul_blocks_ref:
  assumes "limbs_ok rp" "limbs_ok sp" "length rp = length sp" "limb < DIG_BASE" "acc < DIG_BASE" "0 < k"
    "length sp \<le> fuel"
  shows "\<exists>w acc' rp' sp'. addmul_blocks fuel k limb acc rp sp = (w, acc', rp', sp') \<and> acc' < DIG_BASE \<and>
    limbs_ok rp' \<and> limbs_ok sp' \<and> length rp' = length sp' \<and> length sp' < k \<and> length sp' \<le> length sp \<and>
    (\<forall>v c. addmul_ref limb acc' rp' sp' = (v, c) \<longrightarrow> addmul_ref limb acc rp sp = (w @ v, c))"
  using assms
proof (induction fuel arbitrary: acc rp sp)
  case (Suc fuel)
  show ?case
  proof (cases "k \<le> length sp")
    case True
    obtain w acc' where w: "addmul_block k limb acc rp sp = (w, acc', drop k rp, drop k sp)" "acc' < DIG_BASE"
      "\<forall>v c. addmul_ref limb acc' (drop k rp) (drop k sp) = (v, c) \<longrightarrow> addmul_ref limb acc rp sp = (w @ v, c)"
      using addmul_block_ref [OF Suc.prems(1-5) True] by auto
    obtain v acc'' rp' sp' where v: "addmul_blocks fuel k limb acc' (drop k rp) (drop k sp) = (v, acc'', rp', sp')"
      "acc'' < DIG_BASE" "limbs_ok rp'" "limbs_ok sp'" "length rp' = length sp'" "length sp' < k"
      "length sp' \<le> length (drop k sp)"
      "\<forall>u c. addmul_ref limb acc'' rp' sp' = (u, c) \<longrightarrow> addmul_ref limb acc' (drop k rp) (drop k sp) = (v @ u, c)"
      using Suc.IH [of "drop k rp" "drop k sp" acc'] Suc.prems w(2) True
        le_trans [OF diff_le_mono2 [of 1 k "length sp"], of fuel] by auto
    then show ?thesis using True w by auto
  next
    case False
    then show ?thesis using Suc.prems by auto
  qed
qed simp

lemma mpn_addmul_1_ref:
  assumes "limbs_ok rp" "limbs_ok sp" "length rp = length sp" "limb < DIG_BASE"
  shows "mpn_addmul_1 rp sp limb = map_prod id u32 (addmul_ref limb 0 rp sp)"
proof -
  let ?n = "length sp"
  obtain w8 a8 r8 s8 where 8: "addmul_blocks ?n 8 limb 0 rp sp = (w8, a8, r8, s8)" "a8 < DIG_BASE"
    "limbs_ok r8" "limbs_ok s8" "length r8 = length s8" "length s8 \<le> ?n"
    "\<forall>v c. addmul_ref limb a8 r8 s8 = (v, c) \<longrightarrow> addmul_ref limb 0 rp sp = (w8 @ v, c)"
    using addmul_blocks_ref [of rp sp limb 0 8 ?n] assms by auto
  obtain w4 a4 r4 s4 where 4: "addmul_blocks ?n 4 limb a8 r8 s8 = (w4, a4, r4, s4)" "a4 < DIG_BASE"
    "limbs_ok r4" "limbs_ok s4" "length r4 = length s4" "length s4 \<le> ?n"
    "\<forall>v c. addmul_ref limb a4 r4 s4 = (v, c) \<longrightarrow> addmul_ref limb a8 r8 s8 = (w4 @ v, c)"
    using addmul_blocks_ref [of r8 s8 limb a8 4 ?n] assms 8 by auto
  obtain w1 a1 r1 s1 where 1: "addmul_blocks ?n 1 limb a4 r4 s4 = (w1, a1, r1, s1)"
    "length s1 < 1" "\<forall>v c. addmul_ref limb a1 r1 s1 = (v, c) \<longrightarrow> addmul_ref limb a4 r4 s4 = (w1 @ v, c)"
    using addmul_blocks_ref [of r4 s4 limb a4 1 ?n] assms 4 by auto
  have "addmul_ref limb a1 r1 s1 = ([], a1)" using 1(2) by simp
  then have "addmul_ref limb 0 rp sp = (w8 @ w4 @ w1, a1)" using 1(3) 4(7) 8(7) by simp
  then show ?thesis using 8(1) 4(1) 1(1) by (simp add: mpn_addmul_1_def Let_def)
qed

lemma addmul_ref_val:
  assumes "limbs_ok rp" "limbs_ok sp" "length rp = length sp" "limb < DIG_BASE" "acc < DIG_BASE"
  shows "\<exists>w c. addmul_ref limb acc rp sp = (w, c) \<and> length w = length sp \<and> limbs_ok w \<and> c < DIG_BASE \<and>
    lval w + DIG_BASE ^ length sp * c = lval rp + lval sp * limb + acc"
  using assms
proof (induction rp sp arbitrary: acc rule: list_induct2')
  case (4 r rp s sp)
  let ?a = "acc + (r + s * limb)"
  have h: "HIGH ?a < DIG_BASE" using addmul_step_exact(2) 4(2-) by simp
  obtain w c where w: "addmul_ref limb (HIGH ?a) rp sp = (w, c)" "length w = length sp" "limbs_ok w" "c < DIG_BASE"
    "lval w + DIG_BASE ^ length sp * c = lval rp + lval sp * limb + HIGH ?a"
    using 4(1) [of "HIGH ?a"] 4(2-) h by auto
  have "LOW ?a + DIG_BASE * (lval w + DIG_BASE ^ length sp * c) = ?a + DIG_BASE * (lval rp + lval sp * limb)"
    unfolding w(5) using LOW_HIGH [of ?a] by (simp add: algebra_simps)
  then show ?case using w by (simp add: Let_def algebra_simps)
qed simp_all

lemma mpn_addmul_1_val:
  assumes "limbs_ok rp" "limbs_ok sp" "length rp = length sp" "limb < DIG_BASE"
  obtains w c where "mpn_addmul_1 rp sp limb = (w, c)" "length w = length sp" "limbs_ok w" "c < DIG_BASE"
    "lval w + DIG_BASE ^ length sp * c = lval rp + lval sp * limb"
  using addmul_ref_val [OF assms, of 0] mpn_addmul_1_ref [OF assms] by auto

lemma prop_carry_val:
  assumes "limbs_ok ws" "c < DIG_BASE" "lval ws + c < DIG_BASE ^ length ws"
  shows "lval (prop_carry c ws) = lval ws + c \<and> limbs_ok (prop_carry c ws) \<and> length (prop_carry c ws) = length ws"
  using assms
proof (induction ws arbitrary: c)
  case (Cons w ws)
  let ?s = "w + c"
  have s: "?s < DIG_BASE * 2" using Cons.prems by simp
  then have u: "u64 ?s = ?s" "HIGH ?s < DIG_BASE"
    using HIGH_le [OF s] by (auto intro!: u64_id simp: DIG_BASE_def)
  have eq: "LOW ?s + DIG_BASE * (lval ws + HIGH ?s) = lval (w # ws) + c"
    using LOW_HIGH [of ?s] by (simp add: algebra_simps)
  then have "DIG_BASE * (lval ws + HIGH ?s) < DIG_BASE * DIG_BASE ^ length ws"
    using Cons.prems(3) unfolding length_Cons power_Suc by linarith
  then have "lval ws + HIGH ?s < DIG_BASE ^ length ws" by simp
  then show ?case using Cons.IH [of "HIGH ?s"] Cons.prems u eq by (cases "c = 0") (auto simp: Let_def)
qed simp

lemma lval_take_drop_less:
  assumes "limbs_ok ws" "n \<le> length ws" "lval ws < DIG_BASE ^ n"
  shows "drop n ws = replicate (length ws - n) 0"
proof -
  have "DIG_BASE ^ n * lval (drop n ws) < DIG_BASE ^ n * 1"
    using lval_split [of ws n] assms(2,3) unfolding min_absorb1 [OF assms(2)] by linarith
  then have "lval (drop n ws) = 0" unfolding mult_less_cancel1 by simp
  moreover have "lval xs = 0 \<Longrightarrow> xs = replicate (length xs) 0" for xs by (induction xs) simp_all
  ultimately show ?thesis by (metis length_drop)
qed

lemma mul_row_val:
  assumes "limbs_ok w" "limbs_ok bp" "a < DIG_BASE" "length bp \<le> length w"
    "lval w + lval bp * a < DIG_BASE ^ length w"
  shows "lval (mul_row w bp a) = lval w + lval bp * a \<and> limbs_ok (mul_row w bp a) \<and> length (mul_row w bp a) = length w"
proof (cases "a = 0")
  case False
  let ?n = "length bp"
  obtain r c where r: "mpn_addmul_1 (take ?n w) bp a = (r, c)" "length r = ?n" "limbs_ok r" "c < DIG_BASE"
    "lval r + DIG_BASE ^ ?n * c = lval (take ?n w) + lval bp * a"
    using mpn_addmul_1_val [of "take ?n w" bp a] assms by auto
  have tot: "lval r + DIG_BASE ^ ?n * (lval (drop ?n w) + c) = lval w + lval bp * a"
    using r(5) lval_split [of w ?n] assms(4) by (simp add: algebra_simps min_absorb1)
  then have "DIG_BASE ^ ?n * (lval (drop ?n w) + c) < DIG_BASE ^ ?n * DIG_BASE ^ (length w - ?n)"
    using assms(4,5) by (simp flip: power_add)
  then have "lval (drop ?n w) + c < DIG_BASE ^ length (drop ?n w)" by simp
  then show ?thesis using prop_carry_val [of "drop ?n w" c] r tot assms False
    by (simp add: mul_row_def lval_append)
qed (simp add: mul_row_def assms)

lemma mul_row_room:
  assumes "lval w < DIG_BASE ^ n" "lval bp < DIG_BASE ^ n" "a < DIG_BASE"
  shows "lval w + lval bp * a < DIG_BASE * DIG_BASE ^ n" "(lval w + lval bp * a) div DIG_BASE < DIG_BASE ^ n"
proof -
  have "Suc (lval bp) * a \<le> DIG_BASE ^ n * a" "Suc a * DIG_BASE ^ n \<le> DIG_BASE * DIG_BASE ^ n"
    using assms by (intro mult_right_mono; simp)+
  then show "lval w + lval bp * a < DIG_BASE * DIG_BASE ^ n" using assms(1) by (simp add: algebra_simps)
  then show "(lval w + lval bp * a) div DIG_BASE < DIG_BASE ^ n"
    by (simp add: less_mult_imp_div_less mult.commute)
qed

lemma mul_row_step:
  assumes "limbs_ok w" "limbs_ok bp" "a < DIG_BASE" "length bp < length w" "lval w < DIG_BASE ^ length bp"
  obtains x xs where "mul_row w bp a = x # xs" "x < DIG_BASE" "limbs_ok xs" "length w = Suc (length xs)"
    "lval xs < DIG_BASE ^ length bp" "x + DIG_BASE * lval xs = lval w + lval bp * a"
proof -
  note room = mul_row_room [OF assms(5) lval_less [OF assms(2)] assms(3)]
  have "DIG_BASE * DIG_BASE ^ length bp \<le> DIG_BASE ^ length w"
    using assms(4) power_increasing [of "Suc (length bp)" "length w" DIG_BASE] by simp
  with room(1) have "lval w + lval bp * a < DIG_BASE ^ length w" by linarith
  then have row: "lval (mul_row w bp a) = lval w + lval bp * a" "limbs_ok (mul_row w bp a)"
      "length (mul_row w bp a) = length w"
    using mul_row_val [of w bp a] assms by simp_all
  obtain x xs where x: "mul_row w bp a = x # xs" using row(3) assms(4) by (cases "mul_row w bp a") auto
  have "lval xs = lval (mul_row w bp a) div DIG_BASE" using row(2) by (simp add: x)
  then have "lval xs < DIG_BASE ^ length bp" using room(2) row(1) by simp
  then show ?thesis using that x row by simp
qed

lemma mul_rows_val:
  assumes "limbs_ok w" "limbs_ok bp" "limbs_ok as" "length w = length bp + length as" "lval w < DIG_BASE ^ length bp"
  shows "lval (mul_rows w bp as) = lval w + lval bp * lval as \<and> limbs_ok (mul_rows w bp as) \<and>
    length (mul_rows w bp as) = length w"
  using assms
proof (induction as arbitrary: w)
  case (Cons a as)
  obtain x xs where x: "mul_row w bp a = x # xs" "x < DIG_BASE" "limbs_ok xs" "length w = Suc (length xs)"
    "lval xs < DIG_BASE ^ length bp" "x + DIG_BASE * lval xs = lval w + lval bp * a"
    by (rule mul_row_step [of w bp a]) (use Cons.prems in simp_all)
  then have "lval (mul_rows xs bp as) = lval xs + lval bp * lval as \<and> limbs_ok (mul_rows xs bp as) \<and>
      length (mul_rows xs bp as) = length xs"
    using Cons.IH [of xs] Cons.prems by simp
  then show ?case using x by (simp add: algebra_simps)
qed simp

text \<open>The raw-limb product adds its carry to a limb that is still zero.\<close>

lemma basic_row_eq:
  assumes "limbs_ok w" "limbs_ok y" "a < DIG_BASE" "length y < length w" "lval w < DIG_BASE ^ length y"
  shows "basic_row w y a = mul_row w y a"
proof -
  let ?n = "length y"
  obtain m where m: "drop ?n w = replicate (Suc m) 0"
    using lval_take_drop_less [of w ?n] assms by (metis Suc_diff_Suc less_imp_le)
  obtain r c where r: "mpn_addmul_1 (take ?n w) y a = (r, c)" "c < DIG_BASE"
    by (rule mpn_addmul_1_val [of "take ?n w" y a]) (use assms in simp_all)
  have "prop_carry 0 zs = zs" for zs by (cases zs) simp_all
  then have "add_limb c (drop ?n w) = prop_carry c (drop ?n w)"
    using r(2) by (simp add: m add_limb_def Let_def limb_defs)
  then show ?thesis by (simp add: basic_row_def mul_row_def r)
qed

lemma basic_rows_eq:
  assumes "limbs_ok w" "limbs_ok y" "limbs_ok x" "length w = length y + length x" "lval w < DIG_BASE ^ length y"
  shows "basic_rows w y x = mul_rows w y x"
  using assms
proof (induction x arbitrary: w)
  case (Cons a x)
  obtain r rs where r: "mul_row w y a = r # rs" "limbs_ok rs" "length w = Suc (length rs)"
    "lval rs < DIG_BASE ^ length y"
    by (rule mul_row_step [of w y a]) (use Cons.prems in simp_all)
  then show ?case using Cons.IH [of rs] Cons.prems basic_row_eq [of w y a] by simp
qed simp

lemma mpz_mul_basic_limbs_val:
  assumes "limbs_ok x" "limbs_ok y"
  shows "lval (mpz_mul_basic_limbs x y) = lval x * lval y \<and> limbs_ok (mpz_mul_basic_limbs x y) \<and>
    length (mpz_mul_basic_limbs x y) = length x + length y"
  using mul_rows_val [of "replicate (length x + length y) 0" y x]
    basic_rows_eq [of "replicate (length x + length y) 0" y x] assms
  by (simp add: mpz_mul_basic_limbs_def mult.commute)

lemma limb_add_loop_val:
  assumes "limbs_ok d" "limbs_ok src" "length src \<le> length d" "c \<le> 1" "lval d + lval src + c < DIG_BASE ^ length d"
  shows "lval (limb_add_loop c d src) = lval d + lval src + c \<and> limbs_ok (limb_add_loop c d src) \<and>
    length (limb_add_loop c d src) = length d"
  using assms
proof (induction c d src rule: limb_add_loop.induct)
  case (1 c d)
  then show ?case using prop_carry_val [of d c] by (simp add: DIG_BASE_def)
next
  case (3 c d dest s src)
  let ?s = "d + s + c"
  have s: "?s < DIG_BASE * 2" using 3(2-) by simp
  then have u: "u64 (d + s) = d + s" "u64 ?s = ?s" "HIGH ?s \<le> 1"
    using HIGH_le [OF s] by (auto intro!: u64_id simp: DIG_BASE_def)
  have eq: "LOW ?s + DIG_BASE * (lval dest + lval src + HIGH ?s) = lval (d # dest) + lval (s # src) + c"
    using LOW_HIGH [of ?s] by (simp add: algebra_simps)
  then have "DIG_BASE * (lval dest + lval src + HIGH ?s) < DIG_BASE * DIG_BASE ^ length dest"
    using 3(6) unfolding length_Cons power_Suc by linarith
  then show ?case using 3(1) [OF refl] 3(2-5) u eq by (simp add: Let_def)
qed simp

end
