(* ===== verification/BigKara.thy ===== *)
theory BigKara
  imports BigLimbs
begin

text \<open>
  Karatsuba's multiplication on raw limb arrays (\<^verbatim>\<open>lib/sp_bigint.c\<close>).

  The routine works in one scratch array, which it carves into the two sums and the three
  products and hands the rest of to its recursive calls. The model keeps the length of the scratch
  array: an answer None is a write outside the result or the scratch array. The theorem says that
  with the scratch space \<open>karatsuba_scratch_size\<close> computes this does not happen, and that the
  answer is the product.
\<close>

section \<open>The routine\<close>

definition KARATSUBA_THRESHOLD :: nat where
  "KARATSUBA_THRESHOLD = 32"

definition should_use_karatsuba :: "nat \<Rightarrow> bool" where
  "should_use_karatsuba n \<longleftrightarrow> n \<ge> KARATSUBA_THRESHOLD"

function karatsuba_scratch_size :: "nat \<Rightarrow> nat" where
  "karatsuba_scratch_size n =
     (if n < KARATSUBA_THRESHOLD then 0
      else let half = (n + 1) div 2; eval_len = half + 1; prod_len = 2 * eval_len;
               eval_size = 2 * eval_len; prod_size = 3 * prod_len;
               current_level = eval_size + prod_size;
               sub_scratch = karatsuba_scratch_size eval_len
           in current_level + sub_scratch + 8)"
  by pat_completeness auto

termination
  by (relation "measure id") (auto simp: KARATSUBA_THRESHOLD_def)

declare karatsuba_scratch_size.simps [simp del]

text \<open>The lengths without the leading zero limbs: down to \<open>lo\<close> of them.\<close>

fun strip_zeros :: "nat \<Rightarrow> nat list \<Rightarrow> nat \<Rightarrow> nat" where
  "strip_zeros lo xs 0 = 0"
| "strip_zeros lo xs (Suc n) = (if Suc n > lo \<and> xs ! n = 0 then strip_zeros lo xs n else Suc n)"

text \<open>A result written at the start of a zeroed array of \<open>n\<close> limbs.\<close>

definition into_zeroed :: "nat \<Rightarrow> nat list \<Rightarrow> nat list option" where
  "into_zeroed n r = (if length r \<le> n then Some (r @ replicate (n - length r) 0) else None)"

definition karatsuba_sum :: "nat \<Rightarrow> nat list \<Rightarrow> nat list \<Rightarrow> nat list option" where
  "karatsuba_sum eval_len x0 x1 =
     Option.bind (into_zeroed eval_len x0)
       (\<lambda>s. let s = (if length x1 > 0 then fst (mpn_add s x1) else s)
            in Some (take (strip_zeros 1 s eval_len) s))"

definition karatsuba_combine :: "nat \<Rightarrow> nat \<Rightarrow> nat list \<Rightarrow> nat list \<Rightarrow> nat list \<Rightarrow> nat list option" where
  "karatsuba_combine result_len half z0 z1 z2 =
     Option.bind (into_zeroed result_len (take (strip_zeros 0 z0 (length z0)) z0))
       (\<lambda>r. let z1a = strip_zeros 0 z1 (length z1); z2a = strip_zeros 0 z2 (length z2)
            in Option.bind (if z1a > 0 then limb_add_at r (take z1a z1) half else Some r)
                 (\<lambda>r. if z2a > 0 \<and> 2 * half < result_len then limb_add_at r (take z2a z2) (2 * half)
                      else Some r))"

lemma strip_zeros_le: "strip_zeros lo xs n \<le> n"
  by (induction n) auto

lemma karatsuba_sum_length: "karatsuba_sum eval_len x0 x1 = Some s \<Longrightarrow> length s \<le> eval_len"
  by (auto simp: karatsuba_sum_def Let_def bind_eq_Some_conv intro: le_trans [OF min.cobounded2 strip_zeros_le] split: if_splits)

text \<open>The two parts of an operand, with the lengths the code computes for them.\<close>

definition part0 :: "nat \<Rightarrow> nat list \<Rightarrow> nat list" where
  "part0 half x = take (if length x > half then half else length x) x"

definition part1 :: "nat \<Rightarrow> nat list \<Rightarrow> nat list" where
  "part1 half x = take (if length x > half then length x - half else 0) (drop half x)"

definition kara_half :: "nat list \<Rightarrow> nat list \<Rightarrow> nat" where
  "kara_half x y = ((if length x > length y then length x else length y) + 1) div 2"

lemma part0_length: "length (part0 half x) \<le> half"
  by (simp add: part0_def)

lemma part1_length: "length (part1 half x) = length x - half"
  by (simp add: part1_def)

lemma kara_smaller:
  assumes "should_use_karatsuba (if length x < length y then length x else length y)"
  shows "Suc (kara_half x y) < max (length x) (length y)"
    "max (length x) (length y) - kara_half x y \<le> kara_half x y"
  using assms by (auto simp: should_use_karatsuba_def KARATSUBA_THRESHOLD_def kara_half_def split: if_splits)

lemma kara_term:
  assumes "should_use_karatsuba (if length x < length y then length x else length y)"
    "length u \<le> Suc (kara_half x y)" "length v \<le> Suc (kara_half x y)"
  shows "max (length u) (length v) < max (length x) (length y)"
  using kara_smaller(1) [OF assms(1)] assms(2,3) by linarith

lemma kara_part_le:
  assumes "should_use_karatsuba (if length x < length y then length x else length y)"
  shows "length (part0 (kara_half x y) z) \<le> Suc (kara_half x y)"
    "length (part1 (kara_half x y) x) \<le> Suc (kara_half x y)" "length (part1 (kara_half x y) y) \<le> Suc (kara_half x y)"
proof -
  show "length (part0 (kara_half x y) z) \<le> Suc (kara_half x y)" using part0_length [of "kara_half x y" z] by simp
  show "length (part1 (kara_half x y) x) \<le> Suc (kara_half x y)" "length (part1 (kara_half x y) y) \<le> Suc (kara_half x y)"
    using kara_smaller(2) [OF assms] by (simp_all add: part1_length)
qed

function mpz_mul_karatsuba_limbs :: "nat list \<Rightarrow> nat list \<Rightarrow> nat \<Rightarrow> nat list option" where
  "mpz_mul_karatsuba_limbs x y scratch =
     (if \<not> should_use_karatsuba (if length x < length y then length x else length y)
      then Some (mpz_mul_basic_limbs x y)
      else let half = kara_half x y;
               x0 = part0 half x; x1 = part1 half x; y0 = part0 half y; y1 = part1 half y;
               eval_len = half + 1; prod_len = 2 * eval_len;
               offset = 2 * eval_len + 3 * prod_len
           in if scratch < offset then None
           else Option.bind (karatsuba_sum eval_len x0 x1) (\<lambda>sum_x.
                Option.bind (karatsuba_sum eval_len y0 y1) (\<lambda>sum_y.
                Option.bind (if length x0 > 0 \<and> length y0 > 0
                             then mpz_mul_karatsuba_limbs x0 y0 (scratch - offset) else Some []) (\<lambda>m0.
                Option.bind (into_zeroed prod_len m0) (\<lambda>z0.
                Option.bind (if length x1 > 0 \<and> length y1 > 0
                             then mpz_mul_karatsuba_limbs x1 y1 (scratch - offset) else Some []) (\<lambda>m2.
                Option.bind (into_zeroed prod_len m2) (\<lambda>z2.
                Option.bind (mpz_mul_karatsuba_limbs sum_x sum_y (scratch - offset)) (\<lambda>m1.
                Option.bind (into_zeroed prod_len m1) (\<lambda>z1.
                karatsuba_combine (length x + length y) half z0 (fst (mpn_sub (fst (mpn_sub z1 z0)) z2)) z2)))))))))"
  by (erule prod_cases3) simp_all

termination
proof (relation "measure (\<lambda>(x, y, s). max (length x) (length y))", goal_cases)
  case 1
  show ?case by simp
next
  case (2 x y scratch)
  then have "should_use_karatsuba (if length x < length y then length x else length y)" by simp
  from kara_term [OF this kara_part_le(1) kara_part_le(1), OF this this] 2 show ?case by simp
next
  case (3 x y scratch)
  then have "should_use_karatsuba (if length x < length y then length x else length y)" by simp
  from kara_term [OF this kara_part_le(2) kara_part_le(3), OF this this] 3 show ?case by simp
next
  case (4 x y scratch half x0 x1 y0 y1 eval_len prod_len offset sum_x sum_y)
  then have u: "should_use_karatsuba (if length x < length y then length x else length y)" by simp
  have "length sum_x \<le> Suc (kara_half x y)" "length sum_y \<le> Suc (kara_half x y)"
    using 4 karatsuba_sum_length by fastforce+
  from kara_term [OF u this] show ?case by simp
qed

declare mpz_mul_karatsuba_limbs.simps [simp del]

section \<open>The product is exact and the arrays are large enough\<close>

lemma strip_zeros_lval:
  "n \<le> length xs \<Longrightarrow> lval (take (strip_zeros lo xs n) xs) = lval (take n xs)"
proof (induction n)
  case (Suc n)
  then have "take (Suc n) xs = take n xs @ [xs ! n]" by (simp add: take_Suc_conv_app_nth)
  then show ?case using Suc by (auto simp: lval_append)
qed simp

lemma strip_zeros_top: "0 < strip_zeros 0 xs n \<Longrightarrow> n \<le> length xs \<Longrightarrow> xs ! (strip_zeros 0 xs n - 1) \<noteq> 0"
  by (induction n) (auto split: if_splits)

lemma lval_top_le:
  assumes "m < length xs" "xs ! m \<noteq> 0"
  shows "DIG_BASE ^ m \<le> lval xs"
proof -
  have "drop m xs = xs ! m # drop (Suc m) xs" using assms(1) by (simp add: Cons_nth_drop_Suc)
  then have "1 \<le> lval (drop m xs)" using assms(2) by simp
  then have "DIG_BASE ^ m * 1 \<le> DIG_BASE ^ m * lval (drop m xs)" by (intro mult_left_mono) simp_all
  then show ?thesis using lval_split [of xs m] unfolding min_absorb1 [OF less_imp_le [OF assms(1)]] by linarith
qed

lemma strip_zeros_fits:
  assumes "lval xs < DIG_BASE ^ m"
  shows "strip_zeros 0 xs (length xs) \<le> m"
proof (rule ccontr)
  let ?k = "strip_zeros 0 xs (length xs)"
  assume "\<not> ?thesis"
  then have k: "m \<le> ?k - 1" "0 < ?k" by simp_all
  have "DIG_BASE ^ (?k - 1) \<le> lval xs"
    using strip_zeros_top [of xs "length xs"] strip_zeros_le [of 0 xs "length xs"] k(2) by (intro lval_top_le) auto
  moreover have "DIG_BASE ^ m \<le> DIG_BASE ^ (?k - 1)" using k(1) by (intro power_increasing) simp_all
  ultimately show False using assms by linarith
qed

lemma into_zeroed_val:
  assumes "length r \<le> n" "limbs_ok r"
  obtains z where "into_zeroed n r = Some z" "length z = n" "limbs_ok z" "lval z = lval r"
  using assms that by (simp add: into_zeroed_def lval_append)

lemma karatsuba_sum_val:
  assumes "length x0 \<le> half" "length x1 \<le> half" "limbs_ok x0" "limbs_ok x1"
  obtains s where "karatsuba_sum (half + 1) x0 x1 = Some s" "limbs_ok s" "lval s = lval x0 + lval x1"
proof -
  obtain z where z: "into_zeroed (half + 1) x0 = Some z" "length z = half + 1" "limbs_ok z" "lval z = lval x0"
    by (rule into_zeroed_val [of x0 "half + 1"]) (use assms in simp_all)
  obtain r c where r: "mpn_add z x1 = (r, c)" "length r = half + 1" "limbs_ok r" "c \<le> 1"
    "lval r + DIG_BASE ^ (half + 1) * c = lval z + lval x1"
    using mpn_add_val [of x1 z] assms z by auto
  have le: "lval xs < DIG_BASE ^ half" if "length xs \<le> half" "limbs_ok xs" for xs
    using less_le_trans [OF lval_less [OF that(2)] power_increasing [OF that(1), of DIG_BASE]] by simp
  have "lval z + lval x1 < 2 * DIG_BASE ^ half" using le [of x0] le [of x1] assms z(4) by simp
  also have "\<dots> \<le> DIG_BASE ^ (half + 1)" by (simp add: DIG_BASE_def)
  finally have "DIG_BASE ^ (half + 1) * c < DIG_BASE ^ (half + 1) * 1" using r(5) by linarith
  then have "c = 0" unfolding mult_less_cancel1 by simp
  then have "lval r = lval x0 + lval x1" using r(5) z(4) by simp
  then have s: "lval (if length x1 > 0 then r else z) = lval x0 + lval x1" using z(4) by auto
  let ?s = "if length x1 > 0 then r else z"
  have "karatsuba_sum (half + 1) x0 x1 = Some (take (strip_zeros 1 ?s (half + 1)) ?s)"
    using z(1) r(1) by (simp add: karatsuba_sum_def Let_def del: strip_zeros.simps)
  then show ?thesis by (rule that) (use s z r strip_zeros_lval [of "half + 1" ?s 1] in \<open>simp_all split: if_splits\<close>)
qed

lemma limb_add_at_val:
  assumes "limbs_ok d" "limbs_ok src" "lval d + DIG_BASE ^ k * lval src < DIG_BASE ^ length d"
    "k + length src \<le> length d"
  obtains r where "limb_add_at d src k = Some r" "length r = length d" "limbs_ok r"
    "lval r = lval d + DIG_BASE ^ k * lval src"
proof -
  let ?D = "drop k d"
  have sp: "lval d = lval (take k d) + DIG_BASE ^ k * lval ?D" using lval_split [of d k] assms(4) by (simp add: min_absorb1)
  then have "DIG_BASE ^ k * (lval ?D + lval src) < DIG_BASE ^ k * DIG_BASE ^ (length d - k)"
    using assms(3,4) by (simp add: algebra_simps flip: power_add)
  then have "lval ?D + lval src < DIG_BASE ^ length ?D" by simp
  then have "lval (limb_add_loop 0 ?D src) = lval ?D + lval src \<and> limbs_ok (limb_add_loop 0 ?D src) \<and>
      length (limb_add_loop 0 ?D src) = length ?D"
    using limb_add_loop_val [of ?D src 0] assms by simp
  then show ?thesis using that sp assms by (simp add: limb_add_at_def lval_append algebra_simps min_absorb1)
qed

text \<open>One of the two additions of the combination: it adds the limbs, or there are none.\<close>

lemma combine_step:
  assumes "limbs_ok d" "limbs_ok z" "lval d + DIG_BASE ^ k * lval z < DIG_BASE ^ length d"
  obtains r where
    "(if strip_zeros 0 z (length z) > 0 \<and> k < length d
      then limb_add_at d (take (strip_zeros 0 z (length z)) z) k else Some d) = Some r"
    "length r = length d" "limbs_ok r" "lval r = lval d + DIG_BASE ^ k * lval z"
proof -
  let ?s = "strip_zeros 0 z (length z)" and ?t = "take (strip_zeros 0 z (length z)) z"
  have t: "lval ?t = lval z" "limbs_ok ?t" using strip_zeros_lval [of "length z" z 0] assms(2) by simp_all
  show ?thesis
  proof (cases "?s = 0")
    case True
    then have "lval z = 0" using t by simp
    then show ?thesis using that True assms by simp
  next
    case False
    then have top: "z ! (?s - 1) \<noteq> 0" "?s \<le> length z"
      using strip_zeros_top [of z "length z"] strip_zeros_le [of 0 z "length z"] by auto
    then have "DIG_BASE ^ (?s - 1) \<le> lval z" using False by (intro lval_top_le) auto
    then have "DIG_BASE ^ (k + (?s - 1)) \<le> DIG_BASE ^ k * lval z" by (simp add: power_add)
    then have "DIG_BASE ^ (k + (?s - 1)) < DIG_BASE ^ length d" using assms(3) by linarith
    then have lt: "k + (?s - 1) < length d" by (rule power_less_imp_less_exp [rotated]) simp
    obtain r where "limb_add_at d ?t k = Some r" "length r = length d" "limbs_ok r"
      "lval r = lval d + DIG_BASE ^ k * lval ?t"
      by (rule limb_add_at_val [of d ?t k]) (use assms t lt False top(2) in auto)
    then show ?thesis using that False lt t(1) by auto
  qed
qed

lemma karatsuba_combine_val:
  assumes "limbs_ok z0" "limbs_ok z1" "limbs_ok z2" "half \<le> n"
    "lval z0 + DIG_BASE ^ half * lval z1 + DIG_BASE ^ (2 * half) * lval z2 < DIG_BASE ^ n" "half < n"
  obtains r where "karatsuba_combine n half z0 z1 z2 = Some r" "length r = n" "limbs_ok r"
    "lval r = lval z0 + DIG_BASE ^ half * lval z1 + DIG_BASE ^ (2 * half) * lval z2"
proof -
  have "lval z0 < DIG_BASE ^ n" using assms(5) by linarith
  then obtain r0 where 0: "into_zeroed n (take (strip_zeros 0 z0 (length z0)) z0) = Some r0" "length r0 = n"
    "limbs_ok r0" "lval r0 = lval z0"
    using strip_zeros_fits [of z0 n] strip_zeros_lval [of "length z0" z0 0] strip_zeros_le [of 0 z0 "length z0"] assms(1)
    by (auto intro: into_zeroed_val [of "take (strip_zeros 0 z0 (length z0)) z0" n])
  obtain r1 where 1: "(if strip_zeros 0 z1 (length z1) > 0 \<and> half < length r0
      then limb_add_at r0 (take (strip_zeros 0 z1 (length z1)) z1) half else Some r0) = Some r1"
    "length r1 = n" "limbs_ok r1" "lval r1 = lval z0 + DIG_BASE ^ half * lval z1"
    by (rule combine_step [of r0 z1 half]) (use 0 assms in auto)
  obtain r2 where 2: "(if strip_zeros 0 z2 (length z2) > 0 \<and> 2 * half < length r1
      then limb_add_at r1 (take (strip_zeros 0 z2 (length z2)) z2) (2 * half) else Some r1) = Some r2"
    "length r2 = n" "limbs_ok r2" "lval r2 = lval r1 + DIG_BASE ^ (2 * half) * lval z2"
    by (rule combine_step [of r1 z2 "2 * half"]) (use 1 assms in auto)
  have "karatsuba_combine n half z0 z1 z2 = Some r2"
    using 0(1,2) 1(1,2) 2(1) assms(6) by (simp add: karatsuba_combine_def Let_def)
  then show ?thesis using that 2 1(4) by simp
qed

lemma scratch_size_mono: "m \<le> n \<Longrightarrow> karatsuba_scratch_size m \<le> karatsuba_scratch_size n"
proof (induction n arbitrary: m rule: less_induct)
  case (less n)
  show ?case
  proof (cases "m < KARATSUBA_THRESHOLD")
    case False
    let ?h = "\<lambda>k. (k + 1) div 2 + 1"
    have "?h n < n" "?h m \<le> ?h n" using False less.prems by (simp_all add: KARATSUBA_THRESHOLD_def)
    then have "karatsuba_scratch_size (?h m) \<le> karatsuba_scratch_size (?h n)" by (rule less.IH)
    then show ?thesis using False less.prems \<open>?h m \<le> ?h n\<close>
      by (simp add: karatsuba_scratch_size.simps [of m] karatsuba_scratch_size.simps [of n] Let_def)
  qed (simp add: karatsuba_scratch_size.simps [of m])
qed

lemma part0_eq: "part0 half x = take half x"
  by (simp add: part0_def)

lemma part1_eq: "part1 half x = drop half x"
  by (simp add: part1_def)

lemma part_val: "lval x = lval (part0 half x) + DIG_BASE ^ half * lval (part1 half x)"
proof (cases "half \<le> length x")
  case True
  then show ?thesis using lval_split [of x half] by (simp add: part0_eq part1_eq min_absorb1)
qed (simp add: part0_eq part1_eq)

lemma scratch_room:
  assumes "should_use_karatsuba (if length x < length y then length x else length y)"
    "karatsuba_scratch_size (max (length x) (length y)) \<le> scratch"
  shows "2 * (kara_half x y + 1) + 3 * (2 * (kara_half x y + 1)) \<le> scratch"
    "karatsuba_scratch_size (kara_half x y + 1) \<le> scratch - (2 * (kara_half x y + 1) + 3 * (2 * (kara_half x y + 1)))"
proof -
  have h: "kara_half x y = (max (length x) (length y) + 1) div 2" by (simp add: kara_half_def max_def)
  have n: "max (length x) (length y) \<ge> KARATSUBA_THRESHOLD"
    using assms(1) by (auto simp: should_use_karatsuba_def split: if_splits)
  have "2 * (kara_half x y + 1) + 3 * (2 * (kara_half x y + 1)) + karatsuba_scratch_size (kara_half x y + 1) + 8 \<le> scratch"
    using assms(2) n unfolding h by (subst (asm) karatsuba_scratch_size.simps) (simp add: Let_def del: less_max_iff_disj max_less_iff_conj)
  then show "2 * (kara_half x y + 1) + 3 * (2 * (kara_half x y + 1)) \<le> scratch"
    "karatsuba_scratch_size (kara_half x y + 1) \<le> scratch - (2 * (kara_half x y + 1) + 3 * (2 * (kara_half x y + 1)))"
    by linarith+
qed

text \<open>A product by a recursive call, or none where a part is empty.\<close>

lemma kara_sub_product:
  assumes "limbs_ok u" "limbs_ok v" "length u + length v \<le> n"
    and IH: "\<exists>r. mpz_mul_karatsuba_limbs u v s = Some r \<and> length r = length u + length v \<and> limbs_ok r \<and>
      lval r = lval u * lval v"
  obtains m z where "(if length u > 0 \<and> length v > 0 then mpz_mul_karatsuba_limbs u v s else Some []) = Some m"
    "into_zeroed n m = Some z" "length z = n" "limbs_ok z" "lval z = lval u * lval v"
proof (cases "length u > 0 \<and> length v > 0")
  case True
  obtain r where r: "mpz_mul_karatsuba_limbs u v s = Some r" "length r = length u + length v" "limbs_ok r"
    "lval r = lval u * lval v" using IH by auto
  obtain z where "into_zeroed n r = Some z" "length z = n" "limbs_ok z" "lval z = lval r"
    by (rule into_zeroed_val [of r n]) (use r assms in simp_all)
  then show ?thesis using that True r by simp
next
  case False
  obtain z where "into_zeroed n [] = Some z" "length z = n" "limbs_ok z" "lval z = lval []"
    by (rule into_zeroed_val [of "[]" n]) simp_all
  then show ?thesis using that False by auto
qed

lemma kara_identity:
  fixes a b c d e :: nat
  shows "(a + b * e) * (c + d * e) = a * c + e * ((a + b) * (c + d) - a * c - b * d) + e ^ 2 * (b * d)"
proof -
  have "(a + b) * (c + d) - a * c - b * d = a * d + b * c" by (simp add: algebra_simps)
  then show ?thesis by (simp add: algebra_simps power2_eq_square)
qed

lemma karatsuba_product:
  assumes "limbs_ok x" "limbs_ok y" "karatsuba_scratch_size (max (length x) (length y)) \<le> scratch"
  shows "\<exists>r. mpz_mul_karatsuba_limbs x y scratch = Some r \<and> length r = length x + length y \<and> limbs_ok r \<and>
    lval r = lval x * lval y"
  using assms
proof (induction "max (length x) (length y)" arbitrary: x y scratch rule: less_induct)
  case less
  show ?case
  proof (cases "should_use_karatsuba (if length x < length y then length x else length y)")
    case False
    then show ?thesis using mpz_mul_basic_limbs_val less.prems by (simp add: mpz_mul_karatsuba_limbs.simps)
  next
    case True
    define h where "h = kara_half x y"
    define off where "off = 2 * (h + 1) + 3 * (2 * (h + 1))"
    let ?x0 = "part0 h x" and ?x1 = "part1 h x" and ?y0 = "part0 h y" and ?y1 = "part1 h y" and ?s = "scratch - off"
    have h: "h + 1 < max (length x) (length y)" "max (length x) (length y) - h \<le> h"
      using kara_smaller [OF True] by (simp_all add: h_def)
    have sz: "off \<le> scratch" "karatsuba_scratch_size (h + 1) \<le> ?s"
      using scratch_room [OF True less.prems(3)] by (simp_all add: off_def h_def)
    have len: "length ?x0 \<le> h" "length ?y0 \<le> h" "length ?x1 \<le> h" "length ?y1 \<le> h"
      using h(2) by (simp_all add: part0_eq part1_length)
    have ok: "limbs_ok ?x0" "limbs_ok ?x1" "limbs_ok ?y0" "limbs_ok ?y1"
      using less.prems by (simp_all add: part0_eq part1_eq)
    have IH: "\<exists>r. mpz_mul_karatsuba_limbs u v ?s = Some r \<and> length r = length u + length v \<and> limbs_ok r \<and>
        lval r = lval u * lval v" if "limbs_ok u" "limbs_ok v" "length u \<le> h + 1" "length v \<le> h + 1" for u v
      using less.hyps [of u v ?s] that h(1) sz(2) scratch_size_mono [of "max (length u) (length v)" "h + 1"] by force
    obtain sx where sx: "karatsuba_sum (h + 1) ?x0 ?x1 = Some sx" "limbs_ok sx" "lval sx = lval ?x0 + lval ?x1"
      by (rule karatsuba_sum_val [of ?x0 h ?x1]) (use len ok in simp_all)
    obtain sy where sy: "karatsuba_sum (h + 1) ?y0 ?y1 = Some sy" "limbs_ok sy" "lval sy = lval ?y0 + lval ?y1"
      by (rule karatsuba_sum_val [of ?y0 h ?y1]) (use len ok in simp_all)
    let ?p = "2 * (h + 1)"
    obtain m0 z0 where 0: "(if length ?x0 > 0 \<and> length ?y0 > 0 then mpz_mul_karatsuba_limbs ?x0 ?y0 ?s else Some []) = Some m0"
      "into_zeroed ?p m0 = Some z0" "length z0 = ?p" "limbs_ok z0" "lval z0 = lval ?x0 * lval ?y0"
      by (rule kara_sub_product [of ?x0 ?y0 ?p ?s]) (use len ok IH [of ?x0 ?y0] in auto)
    obtain m2 z2 where 2: "(if length ?x1 > 0 \<and> length ?y1 > 0 then mpz_mul_karatsuba_limbs ?x1 ?y1 ?s else Some []) = Some m2"
      "into_zeroed ?p m2 = Some z2" "length z2 = ?p" "limbs_ok z2" "lval z2 = lval ?x1 * lval ?y1"
      by (rule kara_sub_product [of ?x1 ?y1 ?p ?s]) (use len ok IH [of ?x1 ?y1] in auto)
    have sl: "length sx \<le> h + 1" "length sy \<le> h + 1" using karatsuba_sum_length sx(1) sy(1) by blast+
    obtain m1 where 1: "mpz_mul_karatsuba_limbs sx sy ?s = Some m1" "length m1 = length sx + length sy" "limbs_ok m1"
      "lval m1 = lval sx * lval sy" using IH [of sx sy] sx sy sl by auto
    obtain z1 where z1: "into_zeroed ?p m1 = Some z1" "length z1 = ?p" "limbs_ok z1" "lval z1 = lval sx * lval sy"
      by (rule into_zeroed_val [of m1 ?p]) (use 1 sl in auto)
    have ge: "lval z0 + lval z2 \<le> lval z1" by (simp add: 0 2 z1 sx sy algebra_simps)
    obtain d1 where d1: "mpn_sub z1 z0 = (d1, 0)" "length d1 = ?p" "limbs_ok d1" "lval d1 = lval z1 - lval z0"
      by (rule mpn_sub_exact [of z0 z1]) (use 0 z1 ge in auto)
    obtain d2 where d2: "mpn_sub d1 z2 = (d2, 0)" "limbs_ok d2" "lval d2 = lval z1 - lval z0 - lval z2"
      by (rule mpn_sub_exact [of z2 d1]) (use 2 d1 ge in auto)
    have prod: "lval x * lval y = lval z0 + DIG_BASE ^ h * lval d2 + DIG_BASE ^ (2 * h) * lval z2"
      using kara_identity [of "lval ?x0" "lval ?x1" "DIG_BASE ^ h" "lval ?y0" "lval ?y1"] part_val [of x h] part_val [of y h]
      by (simp add: d2 0 2 z1 sx sy mult.commute power_mult)
    have lt: "lval z0 + DIG_BASE ^ h * lval d2 + DIG_BASE ^ (2 * h) * lval z2 < DIG_BASE ^ (length x + length y)"
      unfolding prod [symmetric] power_add
      using lval_less [OF less.prems(1)] lval_less [OF less.prems(2)] by (intro mult_strict_mono) simp_all
    have hl: "h < length x + length y" using h(1) by linarith
    obtain r where r: "karatsuba_combine (length x + length y) h z0 d2 z2 = Some r"
      "length r = length x + length y" "limbs_ok r" "lval r = lval x * lval y"
      unfolding prod by (rule karatsuba_combine_val [OF 0(4) d2(2) 2(4) less_imp_le [OF hl] lt hl])
    have "mpz_mul_karatsuba_limbs x y scratch = Some r"
      by (subst mpz_mul_karatsuba_limbs.simps)
        (simp only: Let_def True leD [OF sz(1)] sx(1) sy(1) 0(1,2) 1(1) 2(1,2) z1(1) d1(1) d2(1) r(1)
          h_def [symmetric] off_def [symmetric] Option.bind.simps fst_conv simp_thms if_False)
    then show ?thesis using r by simp
  qed
qed

text \<open>
  C9: The Karatsuba product of two limb arrays, with a scratch area of the size the code
  computes, never writes outside its arrays and leaves exactly the product of the two
  numbers in the result.
\<close>
theorem karatsuba_correct:
  assumes "limbs_ok x" "limbs_ok y" "karatsuba_scratch_size (max (length x) (length y)) \<le> scratch"
  shows "\<exists>r. mpz_mul_karatsuba_limbs x y scratch = Some r \<and> length r = length x + length y \<and> limbs_ok r \<and>
    lval r = lval x * lval y"
  using assms by (rule karatsuba_product)

theorem karatsuba_correct_witness:
  "\<exists>r. mpz_mul_karatsuba_limbs (replicate 40 7) (replicate 33 9) (karatsuba_scratch_size 40) = Some r \<and> length r = 73 \<and>
    lval r = lval (replicate 40 7) * lval (replicate 33 9)"
proof -
  have "limbs_ok (replicate 40 7)" "limbs_ok (replicate 33 9)" by (simp_all add: limbs_ok_def DIG_BASE_def)
  then show ?thesis using karatsuba_correct [of "replicate 40 7" "replicate 33 9" "karatsuba_scratch_size 40"]
    by auto
qed

text \<open>
  The eight-fold and four-fold unrolled inner product loop is the one-limb-at-a-time
  loop.
\<close>
theorem addmul_unrolled:
  assumes "limbs_ok rp" "limbs_ok sp" "length rp = length sp" "limb < DIG_BASE"
  shows "mpn_addmul_1 rp sp limb = addmul_ref limb 0 rp sp \<and>
    lval (fst (mpn_addmul_1 rp sp limb)) + DIG_BASE ^ length sp * snd (mpn_addmul_1 rp sp limb) = lval rp + lval sp * limb"
  using mpn_addmul_1_ref [OF assms] addmul_ref_val [OF assms, of 0] by auto

theorem addmul_unrolled_witness:
  "mpn_addmul_1 (replicate 13 (DIG_BASE - 1)) (replicate 13 (DIG_BASE - 1)) (DIG_BASE - 1) =
   addmul_ref (DIG_BASE - 1) 0 (replicate 13 (DIG_BASE - 1)) (replicate 13 (DIG_BASE - 1))"
proof -
  have "limbs_ok (replicate 13 (DIG_BASE - 1))" by (simp add: limbs_ok_def)
  then show ?thesis
    using addmul_unrolled [of "replicate 13 (DIG_BASE - 1)" "replicate 13 (DIG_BASE - 1)" "DIG_BASE - 1"]
    by simp
qed

end
