(* ===== verification/Bigint.thy ===== *)
theory Bigint
  imports BigLimbs
begin

text \<open>
  The arbitrary-precision integers (\<^verbatim>\<open>lib/sp_bigint.c\<close>, the \<^verbatim>\<open>mpz_\<close> routines and the
  \<^verbatim>\<open>sp_bigint_\<close> entry points): sign and magnitude, with the limbs of \<open>BigLimbs\<close>.

  An \<open>mpz\<close> is its used limbs (\<^verbatim>\<open>p\<close> up to \<^verbatim>\<open>sz\<close>), whether \<^verbatim>\<open>p\<close> is still NULL (what \<open>zero\<close> tests) and
  its sign. The runtime's context has no scratch pool (\<^verbatim>\<open>sp_bigint_init_ctx\<close>), so \<^verbatim>\<open>mpz_move\<close> is a
  transfer of the limbs and \<^verbatim>\<open>mpz_init_temp\<close> is \<^verbatim>\<open>mpz_init_heap\<close>. A routine takes its destination
  where the code reads it, and answers what it leaves there; where the code compares the addresses
  of destination and operand (an in-place operation) the model has a definition for each case.
  Allocation always succeeds.
\<close>

named_theorems mpz_defs \<open>field-by-field definitions of the mpz operations\<close>

section \<open>Numbers\<close>

record mpz =
  mp :: "nat list"
  mnull :: bool
  msn :: int

definition sz :: "mpz \<Rightarrow> nat" where
  "sz x = length (mp x)"

definition mpz_init :: mpz where
  "mpz_init = \<lparr>mp = [], mnull = True, msn = 0\<rparr>"

definition mpz_init_heap :: "nat \<Rightarrow> mpz" where
  "mpz_init_heap hint = (if hint > 0 then \<lparr>mp = replicate hint 0, mnull = False, msn = 0\<rparr> else mpz_init)"

definition mpz_realloc :: "mpz \<Rightarrow> nat \<Rightarrow> mpz" where
  "mpz_realloc x n = (if sz x < n then x\<lparr>mp := mp x @ replicate (n - sz x) 0, mnull := False\<rparr> else x)"

definition mpz_set :: "mpz \<Rightarrow> mpz \<Rightarrow> mpz" where
  "mpz_set y x = (mpz_realloc y (sz x))\<lparr>mp := mp x, msn := msn x\<rparr>"

fun digits_of_u64 :: "nat \<Rightarrow> nat \<Rightarrow> nat" where
  "digits_of_u64 0 u = 0"
| "digits_of_u64 (Suc fuel) u = (if u \<noteq> 0 then Suc (digits_of_u64 fuel (u div 2 ^ DIG_SIZE)) else 0)"

fun split_u64 :: "nat \<Rightarrow> nat \<Rightarrow> nat list" where
  "split_u64 0 u = []"
| "split_u64 (Suc len) u = LOW u # split_u64 len (u div 2 ^ DIG_SIZE)"

text \<open>A 64-bit value has at most two limbs: the length count runs at most that often.\<close>

definition mpz_set_uint64 :: "mpz \<Rightarrow> nat \<Rightarrow> mpz" where
  "mpz_set_uint64 y u =
     (let len = digits_of_u64 2 u
      in (mpz_realloc y len)\<lparr>mp := split_u64 len u, msn := (if u \<noteq> 0 then 1 else 0)\<rparr>)"

definition mpz_set_int :: "mpz \<Rightarrow> int \<Rightarrow> mpz" where
  "mpz_set_int y v =
     (if v = 0 then y\<lparr>msn := 0, mp := []\<rparr>
      else let sn = (if v > 0 then 1 else - 1);
               u = nat (wrap_u64 (if v > 0 then v else if v = INT64_MIN then v else - v))
           in if u div DIG_BASE \<noteq> 0 then (mpz_set_uint64 y u)\<lparr>msn := sn\<rparr>
              else (mpz_realloc y 1)\<lparr>mp := [u32 u], msn := sn\<rparr>)"

definition mpz_init_set_int :: "int \<Rightarrow> mpz" where
  "mpz_init_set_int v = mpz_set_int mpz_init v"

fun digits_down :: "nat list \<Rightarrow> nat \<Rightarrow> nat" where
  "digits_down xs 0 = 0"
| "digits_down xs (Suc i) = (if xs ! Suc i = 0 then digits_down xs i else Suc i)"

definition digits :: "mpz \<Rightarrow> nat" where
  "digits x = (if sz x = 0 then 0 else digits_down (mp x) (sz x - 1) + 1)"

text \<open>The walk of \<open>trim\<close> from the most significant limb.\<close>

definition trim_limbs :: "nat list \<Rightarrow> nat list" where
  "trim_limbs xs = rev (dropWhile (\<lambda>x. x = 0) (rev xs))"

definition trim :: "mpz \<Rightarrow> mpz" where
  "trim x = (let x = x\<lparr>mp := trim_limbs (mp x)\<rparr> in if sz x = 0 then x\<lparr>msn := 0\<rparr> else x)"

definition zero_p :: "mpz \<Rightarrow> bool" where
  "zero_p x \<longleftrightarrow> msn x = 0"

definition uzero_p :: "mpz \<Rightarrow> bool" where
  "uzero_p x \<longleftrightarrow> list_all (\<lambda>l. l = 0) (mp x)"

definition zero :: "mpz \<Rightarrow> mpz" where
  "zero x = (if mnull x then x\<lparr>msn := 0, mp := []\<rparr> else x\<lparr>msn := 0, mp := [0]\<rparr>)"

section \<open>Addition, subtraction, comparison\<close>

text \<open>\<^verbatim>\<open>uadd\<close> and \<^verbatim>\<open>usub\<close> leave their result in the limbs of a fresh \<open>z\<close> with one limb to spare.\<close>

definition uadd :: "mpz \<Rightarrow> mpz \<Rightarrow> mpz \<Rightarrow> mpz" where
  "uadd z x y =
     (let (r, carry) = (if sz x \<ge> sz y then mpn_add (mp x) (mp y) else mpn_add (mp y) (mp x))
      in z\<lparr>mp := r @ [carry]\<rparr>)"

definition usub :: "mpz \<Rightarrow> mpz \<Rightarrow> mpz \<Rightarrow> mpz" where
  "usub z y x =
     (let z = z\<lparr>mp := fst (mpn_sub (mp y) (mp x)) @ drop (sz y) (mp z)\<rparr>
      in z\<lparr>mp := take (digits z) (mp z)\<rparr>)"

definition ucmp :: "mpz \<Rightarrow> mpz \<Rightarrow> int" where
  "ucmp y x =
     (if sz y < sz x then - 1 else if sz y > sz x then 1
      else if sz x = 0 then 0 else mpn_cmp (mp y) (mp x))"

text \<open>The borrow loop of the fast path.\<close>

fun sub_limb_loop :: "nat \<Rightarrow> nat list \<Rightarrow> nat list" where
  "sub_limb_loop borrow [] = []"
| "sub_limb_loop borrow (x # xs) =
     (if x \<ge> borrow then (x - borrow) # sub_limb_loop 0 xs
      else u32 (u64 (2 ^ DIG_SIZE + x - borrow)) # sub_limb_loop 1 xs)"

text \<open>Single-limb \<open>y\<close>, multi-limb \<open>x\<close>: the fast path of the addition.\<close>

definition mpz_add_fast :: "mpz \<Rightarrow> mpz \<Rightarrow> mpz" where
  "mpz_add_fast x y =
     (let y_limb = mp y ! 0; z = mpz_init_heap (sz x + 1)
      in trim (
        if (msn x > 0 \<and> msn y > 0) \<or> (msn x < 0 \<and> msn y < 0) then
          (let (r, carry) = carry_loop y_limb (mp x) in z\<lparr>mp := r @ [u32 carry], msn := msn x\<rparr>)
        else if sz x = 1 \<and> y_limb = mp x ! 0 then zero z
        else if sz x = 1 \<and> mp x ! 0 > y_limb then z\<lparr>mp := [mp x ! 0 - y_limb, 0], msn := msn x\<rparr>
        else z\<lparr>mp := sub_limb_loop y_limb (mp x) @ [0], msn := msn x\<rparr>))"

definition mpz_add_slow :: "mpz \<Rightarrow> mpz \<Rightarrow> mpz" where
  "mpz_add_slow x y =
     (let z = mpz_init_heap ((if sz x > sz y then sz x else sz y) + 1)
      in trim (
        if msn x > 0 \<and> msn y > 0 then (uadd z x y)\<lparr>msn := 1\<rparr>
        else if msn x < 0 \<and> msn y < 0 then (uadd z x y)\<lparr>msn := - 1\<rparr>
        else let mg = ucmp x y
             in if mg = 0 then zero z
                else if mg > 0 then (usub z x y)\<lparr>msn := (if msn x > 0 \<and> msn y < 0 then 1 else - 1)\<rparr>
                else (usub z y x)\<lparr>msn := (if msn x < 0 \<and> msn y > 0 then 1 else - 1)\<rparr>))"

text \<open>A single-limb first operand swaps the operands and enters the same fast path.\<close>

definition mpz_add :: "mpz \<Rightarrow> mpz \<Rightarrow> mpz \<Rightarrow> mpz" where
  "mpz_add zz x y =
     (if zero_p x then trim (mpz_set zz y)
      else if zero_p y then trim (mpz_set zz x)
      else if sz y = 1 \<and> sz x > 1 then mpz_add_fast x y
      else if sz x = 1 \<and> sz y > 1 then mpz_add_fast y x
      else mpz_add_slow x y)"

text \<open>\<open>mpz_sub\<close> into another number, and into its own first operand.\<close>

definition mpz_sub :: "mpz \<Rightarrow> mpz \<Rightarrow> mpz \<Rightarrow> mpz" where
  "mpz_sub z x y = mpz_add z x (y\<lparr>msn := - msn y\<rparr>)"

definition mpz_sub_inplace :: "mpz \<Rightarrow> mpz \<Rightarrow> mpz" where
  "mpz_sub_inplace x y =
     (if msn x > 0 \<and> msn y > 0 \<and> ucmp x y \<ge> 0
      then let x = x\<lparr>mp := fst (mpn_sub (mp x) (mp y))\<rparr>; x = x\<lparr>mp := take (digits x) (mp x)\<rparr>
           in if sz x = 0 then x\<lparr>msn := 0\<rparr> else x
      else mpz_add x x (y\<lparr>msn := - msn y\<rparr>))"

definition mpz_cmp :: "mpz \<Rightarrow> mpz \<Rightarrow> int" where
  "mpz_cmp x y =
     (if msn x < 0 \<and> msn y > 0 then - 1 else if msn x > 0 \<and> msn y < 0 then 1
      else let abscmp = ucmp x y in if msn x \<ge> 0 \<and> msn y \<ge> 0 then abscmp else - abscmp)"

section \<open>Operations with a machine integer\<close>

text \<open>\<open>add_int_loop\<close>: the limbs, and the carry left over.\<close>

fun add_int_loop :: "nat \<Rightarrow> nat list \<Rightarrow> nat list \<times> nat" where
  "add_int_loop carry [] = ([], carry)"
| "add_int_loop carry (x # xs) =
     (if carry = 0 then (x # xs, 0)
      else let c = u64 (carry + x); (r, k) = add_int_loop (HIGH c) xs in (LOW c # r, k))"

definition mpz_add_int :: "mpz \<Rightarrow> int \<Rightarrow> mpz" where
  "mpz_add_int x n =
     (if n = 0 then x
      else let (r, carry) = add_int_loop (nat (wrap_u64 n)) (mp x); x = x\<lparr>mp := r\<rparr>;
               x = (if carry \<noteq> 0
                    then x\<lparr>mp := r @ [u32 carry], mnull := False, msn := (if msn x = 0 then 1 else msn x)\<rparr>
                    else x)
           in trim x)"

fun sub_int_loop :: "int \<Rightarrow> nat list \<Rightarrow> nat list" where
  "sub_int_loop borrow [] = []"
| "sub_int_loop borrow (x # xs) =
     (if borrow = 0 then x # xs
      else let t = int x - borrow in LOWs t # sub_int_loop (if t < 0 then 1 else 0) xs)"

text \<open>The first limb takes \<open>n\<close>, whose low 32 bits the code uses, whatever they are.\<close>

definition mpz_sub_int :: "mpz \<Rightarrow> int \<Rightarrow> mpz" where
  "mpz_sub_int x n =
     (if n = 0 then x
      else if zero_p x \<or> sz x = 0 then mpz_set_int x n
      else case mp x of
        [] \<Rightarrow> x
      | p0 # ps \<Rightarrow>
          (let t = int p0 - int (LOWs n)
           in trim (x\<lparr>mp := LOWs t # sub_int_loop (if t < 0 then 1 else 0) ps\<rparr>)))"

fun mul_int_loop :: "nat \<Rightarrow> nat \<Rightarrow> nat list \<Rightarrow> nat list \<times> nat" where
  "mul_int_loop n cc [] = ([], cc)"
| "mul_int_loop n cc (x # xs) =
     (let c = u64 (cc + u64 (x * n)); (r, k) = mul_int_loop n (HIGH c) xs in (LOW c # r, k))"

definition mpz_mul_int :: "mpz \<Rightarrow> int \<Rightarrow> mpz" where
  "mpz_mul_int x n =
     (if n = 0 \<or> zero_p x then zero x
      else let (r, cc) = mul_int_loop (LOWs n) 0 (mp x)
           in trim (x\<lparr>mp := (if cc \<noteq> 0 then r @ [u32 cc] else r), mnull := False, msn := 1\<rparr>))"

section \<open>Schoolbook multiplication\<close>

definition mpz_mul_basic :: "mpz \<Rightarrow> mpz \<Rightarrow> mpz \<Rightarrow> mpz" where
  "mpz_mul_basic ww u v =
     (if zero_p u \<or> zero_p v then zero ww
      else let (a, b) = (if sz v > sz u then (v, u) else (u, v))
      in if sz b = 1
      then let w = mpz_init_heap (sz a + 1);
               (r, carry) = mpn_addmul_1 (replicate (sz a) 0) (mp a) (mp b ! 0)
           in trim (w\<lparr>mp := r @ [carry], msn := msn a * msn b\<rparr>)
      else let w = mpz_init_heap (sz a + sz b)
           in trim (w\<lparr>mp := mul_rows (mp w) (mp b) (mp a), msn := msn a * msn b\<rparr>))"

section \<open>Reading a number\<close>

fun get_int_loop :: "nat \<Rightarrow> nat list \<Rightarrow> nat option" where
  "get_int_loop i [] = Some i"
| "get_int_loop i (d # ds) = (if HIGH i \<noteq> 0 then None else get_int_loop (u64 (i * 2 ^ DIG_SIZE) + d) ds)"

text \<open>The walk is from the most significant limb; None is the answer FALSE.\<close>

definition mpz_get_int :: "mpz \<Rightarrow> int option" where
  "mpz_get_int y =
     (if zero_p y then Some 0
      else let limit = nat INT64_MAX + (if msn y < 0 then 1 else 0)
      in case get_int_loop 0 (rev (mp y)) of
        None \<Rightarrow> None
      | Some i \<Rightarrow> if i > limit then None
                  else if msn y < 0 then Some (if i = limit then INT64_MIN else - int i) else Some (int i))"

fun mag_loop :: "nat \<Rightarrow> nat \<Rightarrow> nat list \<Rightarrow> nat option" where
  "mag_loop i v [] = Some v"
| "mag_loop i v (l # ls) =
     (if i * DIG_SIZE \<ge> 64 then (if l \<noteq> 0 then None else mag_loop (i + 1) v ls)
      else mag_loop (i + 1) (v + u64 (l * 2 ^ (i * DIG_SIZE))) ls)"

definition sp_bigint_mag_u64 :: "mpz option \<Rightarrow> nat option" where
  "sp_bigint_mag_u64 b = (case b of None \<Rightarrow> Some 0 | Some z \<Rightarrow> mag_loop 0 0 (mp z))"

text \<open>At most two limbs are read. The shifted limbs do not overlap: their \<^verbatim>\<open>|\<close> is a sum, here as above.\<close>

fun or_limbs :: "nat \<Rightarrow> nat \<Rightarrow> nat list \<Rightarrow> nat" where
  "or_limbs i v [] = v"
| "or_limbs i v (l # ls) = or_limbs (i + 1) (v + u64 (l * 2 ^ (i * DIG_SIZE))) ls"

definition sp_bigint_to_int :: "mpz option \<Rightarrow> int" where
  "sp_bigint_to_int b =
     (case b of None \<Rightarrow> 0
      | Some z \<Rightarrow>
          if sz z = 0 then 0
          else let v = or_limbs 0 0 (take (if sz z < 2 then sz z else 2) (mp z))
               in wrap_i64 (if msn z < 0 then wrap_u64 (0 - int v) else int v))"

definition sp_bigint_sign :: "mpz \<Rightarrow> int" where
  "sp_bigint_sign b = msn b"

definition sp_bigint_new_int :: "int \<Rightarrow> mpz" where
  "sp_bigint_new_int v = mpz_init_set_int v"

definition sp_bigint_new_u64 :: "nat \<Rightarrow> mpz" where
  "sp_bigint_new_u64 v = mpz_set_uint64 mpz_init v"

definition sp_bigint_add :: "mpz \<Rightarrow> mpz \<Rightarrow> mpz" where
  "sp_bigint_add a b = mpz_add mpz_init a b"

definition sp_bigint_sub :: "mpz \<Rightarrow> mpz \<Rightarrow> mpz" where
  "sp_bigint_sub a b = mpz_sub mpz_init a b"

definition sp_bigint_cmp :: "mpz \<Rightarrow> mpz \<Rightarrow> int" where
  "sp_bigint_cmp a b = mpz_cmp a b"

definition sp_bigint_not :: "mpz \<Rightarrow> mpz" where
  "sp_bigint_not a = sp_bigint_sub (sp_bigint_sub (sp_bigint_new_int 0) a) (sp_bigint_new_int 1)"

section \<open>Well-formed numbers and their values\<close>

definition mpz_val :: "mpz \<Rightarrow> int" where
  "mpz_val x = msn x * int (lval (mp x))"

text \<open>
  A number is well formed when its limbs are limbs, its sign is that of its value, and a number
  other than zero has no leading zero limb. Zero may keep a limb (\<open>zero\<close> leaves one).
\<close>

definition mpz_ok :: "mpz \<Rightarrow> bool" where
  "mpz_ok x \<longleftrightarrow> limbs_ok (mp x) \<and> (mnull x \<longrightarrow> mp x = []) \<and> msn x \<in> {-1, 0, 1} \<and>
     (if msn x = 0 then lval (mp x) = 0 else mp x \<noteq> [] \<and> last (mp x) \<noteq> 0)"

text \<open>The canonical form every entry point answers: zero has no limbs.\<close>

definition mpz_canon :: "mpz \<Rightarrow> bool" where
  "mpz_canon x \<longleftrightarrow> mpz_ok x \<and> (msn x = 0 \<longrightarrow> mp x = [])"

lemma lval_zero_iff: "lval xs = 0 \<longleftrightarrow> list_all (\<lambda>l. l = 0) xs"
  by (induction xs) simp_all

lemma uzero_p_iff: "uzero_p x \<longleftrightarrow> lval (mp x) = 0"
  by (simp add: uzero_p_def lval_zero_iff)

lemma lval_last_pos: "xs \<noteq> [] \<Longrightarrow> last xs \<noteq> 0 \<Longrightarrow> DIG_BASE ^ (length xs - 1) \<le> lval xs"
proof (induction xs rule: rev_induct)
  case (snoc x xs)
  then have "DIG_BASE ^ length xs * 1 \<le> DIG_BASE ^ length xs * x" by (intro mult_left_mono) simp_all
  then show ?case by (simp add: lval_append trans_le_add2)
qed simp

lemma mpz_ok_pos: "mpz_ok x \<Longrightarrow> msn x \<noteq> 0 \<Longrightarrow> 0 < lval (mp x)"
  using lval_last_pos [of "mp x"] by (auto simp: mpz_ok_def intro: Nat.gr0I)

lemma mpz_ok_sgn: "mpz_ok x \<Longrightarrow> msn x = sgn (mpz_val x)"
  using mpz_ok_pos [of x] by (auto simp: mpz_ok_def mpz_val_def sgn_mult sgn_if split: if_splits)

lemma trim_limbs_simps [simp]: "lval (trim_limbs xs) = lval xs" "limbs_ok xs \<Longrightarrow> limbs_ok (trim_limbs xs)"
  "trim_limbs [] = []"
proof -
  show "lval (trim_limbs xs) = lval xs"
    by (induction xs rule: rev_induct) (auto simp: trim_limbs_def lval_append)
  show "limbs_ok xs \<Longrightarrow> limbs_ok (trim_limbs xs)" by (auto simp: trim_limbs_def limbs_ok_def dest: set_dropWhileD)
qed (simp add: trim_limbs_def)

lemma trim_limbs_last: "trim_limbs xs \<noteq> [] \<Longrightarrow> last (trim_limbs xs) \<noteq> 0"
  using hd_dropWhile [of "\<lambda>x. x = 0" "rev xs"] by (simp add: trim_limbs_def last_rev)

lemma trim_limbs_Nil_iff: "trim_limbs xs = [] \<longleftrightarrow> lval xs = 0"
proof
  assume "lval xs = 0"
  then have "lval (trim_limbs xs) = 0" by simp
  then show "trim_limbs xs = []" using trim_limbs_last [of xs] lval_last_pos [of "trim_limbs xs"] by (cases "trim_limbs xs = []") auto
qed (metis lval.simps(1) trim_limbs_simps(1))

lemma trim_limbs_id: "xs = [] \<or> last xs \<noteq> 0 \<Longrightarrow> trim_limbs xs = xs"
  by (cases xs rule: rev_cases) (auto simp: trim_limbs_def)

text \<open>The step that ends every arithmetic routine.\<close>

lemma trim_ok:
  assumes "limbs_ok (mp z)" "\<not> mnull z" "msn z \<in> {-1, 0, 1}" "msn z = 0 \<longrightarrow> lval (mp z) = 0"
  shows "mpz_canon (trim z)" "mpz_val (trim z) = mpz_val z"
proof -
  show "mpz_canon (trim z)"
    using assms trim_limbs_last [of "mp z"] trim_limbs_Nil_iff [of "mp z"]
    by (auto simp: trim_def Let_def sz_def mpz_canon_def mpz_ok_def)
  show "mpz_val (trim z) = mpz_val z"
    using trim_limbs_Nil_iff [of "mp z"] by (auto simp: trim_def Let_def sz_def mpz_val_def)
qed

lemma mpz_init_heap_simps [simp]:
  "0 < n \<Longrightarrow> mp (mpz_init_heap n) = replicate n 0" "0 < n \<Longrightarrow> \<not> mnull (mpz_init_heap n)"
  "0 < n \<Longrightarrow> msn (mpz_init_heap n) = 0"
  by (simp_all add: mpz_init_heap_def)

lemma mpz_init_simps [simp]: "mp mpz_init = []" "mnull mpz_init" "msn mpz_init = 0" "mpz_canon mpz_init"
  by (simp_all add: mpz_init_def mpz_canon_def mpz_ok_def)

text \<open>A destination: its limbs are of no interest, but NULL has none.\<close>

definition mpz_dest :: "mpz \<Rightarrow> bool" where
  "mpz_dest z \<longleftrightarrow> (mnull z \<longrightarrow> mp z = [])"

lemma mpz_dest_simps [simp]: "mpz_dest mpz_init" "mpz_ok x \<Longrightarrow> mpz_dest x"
  by (auto simp: mpz_dest_def mpz_ok_def)

lemma mpz_set_trim:
  assumes "mpz_ok x" "mpz_dest y"
  shows "mpz_canon (trim (mpz_set y x))" "mpz_val (trim (mpz_set y x)) = mpz_val x"
proof -
  have "mnull (mpz_realloc y (sz x)) \<Longrightarrow> mp x = []"
    using assms(2) by (auto simp: mpz_realloc_def sz_def mpz_dest_def split: if_splits)
  then show "mpz_canon (trim (mpz_set y x))"
    using assms trim_limbs_last [of "mp x"] trim_limbs_Nil_iff [of "mp x"]
    by (auto simp: trim_def Let_def sz_def mpz_canon_def mpz_ok_def mpz_set_def)
  show "mpz_val (trim (mpz_set y x)) = mpz_val x"
    using trim_limbs_Nil_iff [of "mp x"] by (auto simp: trim_def Let_def sz_def mpz_val_def mpz_set_def)
qed

section \<open>Sums and differences\<close>

lemma uadd_val:
  assumes "limbs_ok (mp x)" "limbs_ok (mp y)"
  obtains r where "uadd z x y = z\<lparr>mp := r\<rparr>" "limbs_ok r" "lval r = lval (mp x) + lval (mp y)"
proof -
  let ?a = "if sz x \<ge> sz y then mp x else mp y" and ?b = "if sz x \<ge> sz y then mp y else mp x"
  obtain r c where r: "mpn_add ?a ?b = (r, c)" "length r = length ?a" "limbs_ok r" "c \<le> 1"
    "lval r + DIG_BASE ^ length ?a * c = lval ?a + lval ?b"
    using mpn_add_val [of ?b ?a] assms by (cases "sz x \<ge> sz y") (auto simp: sz_def)
  have "uadd z x y = z\<lparr>mp := r @ [c]\<rparr>" using r(1) by (simp add: uadd_def split: if_splits)
  moreover have "limbs_ok (r @ [c])" using r(3,4) by (simp add: DIG_BASE_def)
  moreover have "lval (r @ [c]) = lval (mp x) + lval (mp y)" using r(2,5) by (simp add: lval_append split: if_splits)
  ultimately show ?thesis by (rule that)
qed

lemma digits_down_le: "digits_down xs i \<le> i"
  by (induction i) auto

lemma digits_down_lval: "i < length xs \<Longrightarrow> lval (take (Suc (digits_down xs i)) xs) = lval (take (Suc i) xs)"
proof (induction i)
  case (Suc i)
  then have "take (Suc (Suc i)) xs = take (Suc i) xs @ [xs ! Suc i]" by (simp add: take_Suc_conv_app_nth)
  then show ?case using Suc by (simp add: lval_append)
qed simp

lemma digits_lval: "lval (take (digits x) (mp x)) = lval (mp x)"
  using digits_down_lval [of "sz x - 1" "mp x"] by (cases "mp x") (auto simp: digits_def sz_def)

lemma usub_val:
  assumes "limbs_ok (mp y)" "limbs_ok (mp x)" "sz x \<le> sz y" "lval (mp x) \<le> lval (mp y)"
    "mp z = replicate n 0"
  obtains r where "usub z y x = z\<lparr>mp := r\<rparr>" "limbs_ok r" "lval r = lval (mp y) - lval (mp x)"
proof -
  obtain r where r: "mpn_sub (mp y) (mp x) = (r, 0)" "limbs_ok r" "lval r = lval (mp y) - lval (mp x)"
    by (rule mpn_sub_exact [of "mp x" "mp y"]) (use assms in \<open>simp_all add: sz_def\<close>)
  let ?z = "z\<lparr>mp := r @ drop (sz y) (mp z)\<rparr>"
  have "usub z y x = z\<lparr>mp := take (digits ?z) (mp ?z)\<rparr>" using r(1) by (simp add: usub_def Let_def)
  moreover have "limbs_ok (take (digits ?z) (mp ?z))" using r(2) assms(5) by simp
  moreover have "lval (take (digits ?z) (mp ?z)) = lval (mp y) - lval (mp x)"
    unfolding digits_lval using r(3) assms(5) by (simp add: lval_append)
  ultimately show ?thesis by (rule that)
qed

text \<open>Comparing lengths first compares values, of limb arrays without leading zeros.\<close>

lemma lval_shorter:
  assumes "limbs_ok xs" "length xs < length ys" "last ys \<noteq> 0"
  shows "lval xs < lval ys"
proof -
  have "lval xs < DIG_BASE ^ length xs" using assms(1) by (rule lval_less)
  also have "\<dots> \<le> DIG_BASE ^ (length ys - 1)" using assms(2) by (intro power_increasing) simp_all
  also have "\<dots> \<le> lval ys" using assms(2,3) by (intro lval_last_pos) auto
  finally show ?thesis .
qed

lemma ucmp_val:
  assumes "limbs_ok (mp x)" "limbs_ok (mp y)" "mp x = [] \<or> last (mp x) \<noteq> 0" "mp y = [] \<or> last (mp y) \<noteq> 0"
  shows "ucmp x y = (if lval (mp x) < lval (mp y) then - 1 else if lval (mp y) < lval (mp x) then 1 else 0)"
proof -
  consider "sz x < sz y" | "sz y < sz x" | "sz x = sz y" by linarith
  then show ?thesis
  proof cases
    case 1
    then have "lval (mp x) < lval (mp y)" using lval_shorter [of "mp x" "mp y"] assms by (auto simp: sz_def)
    then show ?thesis using 1 by (simp add: ucmp_def)
  next
    case 2
    then have "lval (mp y) < lval (mp x)" using lval_shorter [of "mp y" "mp x"] assms by (auto simp: sz_def)
    then show ?thesis using 2 by (simp add: ucmp_def)
  next
    case 3
    then show ?thesis using mpn_cmp_val [of "mp x" "mp y"] assms by (cases "mp y = []") (simp_all add: ucmp_def sz_def)
  qed
qed

lemma carry_loop_limb:
  assumes "limbs_ok as" "carry < DIG_BASE" "as \<noteq> []"
  shows "\<exists>r c. carry_loop carry as = (r, c) \<and> limbs_ok r \<and> length r = length as \<and> c \<le> 1 \<and>
    lval r + DIG_BASE ^ length as * c = lval as + carry"
proof -
  obtain a as' where as: "as = a # as'" using assms(3) by (cases as) auto
  let ?c = "carry + a"
  have c: "?c < DIG_BASE * 2" using assms as by simp
  have u: "u64 ?c = ?c" by (rule u64_id [OF less_trans [OF c]]) (simp add: DIG_BASE_def)
  obtain r k where r: "carry_loop (HIGH ?c) as' = (r, k)" "length r = length as'" "limbs_ok r" "k \<le> 1"
    "lval r + DIG_BASE ^ length as' * k = lval as' + HIGH ?c"
    using carry_loop_val [of as' "HIGH ?c"] assms as HIGH_le [OF c] by auto
  have "LOW ?c + DIG_BASE * (lval r + DIG_BASE ^ length as' * k) = ?c + DIG_BASE * lval as'"
    unfolding r(5) using LOW_HIGH [of ?c] by (simp add: algebra_simps)
  then show ?thesis using r u by (simp add: as Let_def algebra_simps)
qed

lemma sub_limb_loop_val:
  assumes "limbs_ok xs" "b < DIG_BASE" "b \<le> lval xs"
  shows "lval (sub_limb_loop b xs) = lval xs - b \<and> limbs_ok (sub_limb_loop b xs) \<and>
    length (sub_limb_loop b xs) = length xs"
  using assms
proof (induction xs arbitrary: b)
  case (Cons x xs)
  show ?case
  proof (cases "b \<le> x")
    case True
    then show ?thesis using Cons by (auto simp: Suc_leI)
  next
    case False
    then have "1 \<le> lval xs" using Cons.prems by (cases "lval xs = 0") auto
    then have IH: "lval (sub_limb_loop 1 xs) = lval xs - 1" "limbs_ok (sub_limb_loop 1 xs)"
      "length (sub_limb_loop 1 xs) = length xs" using Cons.IH [of 1] Cons.prems by simp_all
    have d: "u32 (u64 (2 ^ DIG_SIZE + x - b)) = DIG_BASE + x - b"
      using False Cons.prems by (simp add: limb_defs)
    have "DIG_BASE \<le> DIG_BASE * lval xs" using \<open>1 \<le> lval xs\<close> by simp
    then show ?thesis using False IH d Cons.prems by (simp add: diff_mult_distrib2)
  qed
qed simp

text \<open>What a routine that ends in \<open>trim\<close> owes: limbs, a sign, and the value.\<close>

lemma trim_result:
  assumes "limbs_ok r" "\<not> mnull z" "s \<in> {-1, 0, 1}" "s = 0 \<longrightarrow> lval r = 0" "v = s * int (lval r)"
  shows "mpz_canon (trim (z\<lparr>mp := r, msn := s\<rparr>))" "mpz_val (trim (z\<lparr>mp := r, msn := s\<rparr>)) = v"
  using trim_ok [of "z\<lparr>mp := r, msn := s\<rparr>"] assms by (simp_all add: mpz_val_def)

lemma zero_result: "\<not> mnull z \<Longrightarrow> mpz_canon (trim (zero z))" "mpz_val (trim (zero z)) = 0"
  by (simp_all add: zero_def trim_def Let_def sz_def trim_limbs_def mpz_canon_def mpz_ok_def mpz_val_def)

lemma sign_cases:
  assumes "mpz_ok x" "\<not> zero_p x"
  shows "msn x \<in> {-1, 1}" "0 < lval (mp x)" "limbs_ok (mp x)" "mp x \<noteq> []" "last (mp x) \<noteq> 0"
  using assms mpz_ok_pos [of x] by (auto simp: mpz_ok_def zero_p_def)

lemma mpz_add_fast_val:
  assumes "mpz_ok x" "mpz_ok y" "\<not> zero_p x" "\<not> zero_p y" "sz y = 1" "sz x > 1"
  shows "mpz_canon (mpz_add_fast x y) \<and> mpz_val (mpz_add_fast x y) = mpz_val x + mpz_val y"
proof -
  note X = sign_cases [OF assms(1,3)] and Y = sign_cases [OF assms(2,4)]
  let ?z = "mpz_init_heap (sz x + 1)"
  obtain l where l: "mp y = [l]" "l < DIG_BASE" using assms(5) Y(3) by (cases "mp y") (auto simp: sz_def)
  have "lval (mp y) < lval (mp x)" using lval_shorter [OF Y(3) _ X(5)] assms(5,6) by (simp add: sz_def)
  then have lt: "l \<le> lval (mp x)" using l by simp
  show ?thesis
  proof (cases "msn x = msn y")
    case True
    obtain r c where r: "carry_loop l (mp x) = (r, c)" "limbs_ok r" "length r = sz x" "c \<le> 1"
      "lval r + DIG_BASE ^ sz x * c = lval (mp x) + l"
      using carry_loop_limb [OF X(3) l(2) X(4)] by (auto simp: sz_def)
    have "mpz_add_fast x y = trim (?z\<lparr>mp := r @ [c], msn := msn x\<rparr>)"
      using True X(1) r(1,4) l by (auto simp: mpz_add_fast_def Let_def)
    moreover have "limbs_ok (r @ [c])" using r(2,4) by (simp add: DIG_BASE_def)
    moreover have "mpz_val x + mpz_val y = msn x * int (lval (r @ [c]))"
      unfolding mpz_val_def True [symmetric] lval_append r(3) using r(5) l(1) by (simp flip: distrib_left of_nat_add of_nat_mult)
    ultimately show ?thesis using trim_result [of "r @ [c]" ?z "msn x"] X(1) by auto
  next
    case False
    let ?r = "sub_limb_loop l (mp x) @ [0]"
    have r: "lval ?r = lval (mp x) - l" "limbs_ok ?r"
      using sub_limb_loop_val [OF X(3) l(2) lt] by (simp_all add: lval_append)
    have "mpz_add_fast x y = trim (?z\<lparr>mp := ?r, msn := msn x\<rparr>)"
      using False X(1) Y(1) l assms(6) by (auto simp: mpz_add_fast_def Let_def)
    moreover have "mpz_val x + mpz_val y = msn x * int (lval ?r)"
      using False X(1) Y(1) lt l(1) unfolding r(1) by (auto simp: mpz_val_def of_nat_diff)
    ultimately show ?thesis using trim_result [OF r(2), of ?z "msn x"] X(1) by auto
  qed
qed

lemma mpz_add_slow_val:
  assumes "mpz_ok x" "mpz_ok y" "\<not> zero_p x" "\<not> zero_p y"
  shows "mpz_canon (mpz_add_slow x y) \<and> mpz_val (mpz_add_slow x y) = mpz_val x + mpz_val y"
proof -
  note X = sign_cases [OF assms(1,3)] and Y = sign_cases [OF assms(2,4)]
  let ?n = "(if sz x > sz y then sz x else sz y) + 1" and ?z = "mpz_init_heap ((if sz x > sz y then sz x else sz y) + 1)"
  note cmp = ucmp_val [of x y, OF X(3) Y(3)]
  have le: "sz u \<le> sz v" if "lval (mp u) \<le> lval (mp v)" "limbs_ok (mp v)" "last (mp u) \<noteq> 0" for u v
    using lval_shorter [of "mp v" "mp u"] that by (fastforce simp: sz_def not_less)
  consider "msn x = msn y" | "msn x = - msn y" "lval (mp x) = lval (mp y)"
    | "msn x = - msn y" "lval (mp y) < lval (mp x)" | "msn x = - msn y" "lval (mp x) < lval (mp y)"
    using X(1) Y(1) by (auto; linarith)
  then show ?thesis
  proof cases
    case 1
    obtain r where r: "uadd ?z x y = ?z\<lparr>mp := r\<rparr>" "limbs_ok r" "lval r = lval (mp x) + lval (mp y)"
      by (rule uadd_val [OF X(3) Y(3)])
    have "mpz_add_slow x y = trim (?z\<lparr>mp := r, msn := msn x\<rparr>)"
      using 1 X(1) r(1) by (auto simp: mpz_add_slow_def Let_def)
    moreover have "mpz_val x + mpz_val y = msn x * int (lval r)" using 1 r(3) by (simp add: mpz_val_def algebra_simps)
    ultimately show ?thesis using trim_result [OF r(2), of ?z "msn x"] X(1) by auto
  next
    case 2
    have "mpz_add_slow x y = trim (zero ?z)"
      using 2 X Y cmp by (auto simp: mpz_add_slow_def Let_def)
    then show ?thesis using zero_result [of ?z] 2 by (simp add: mpz_val_def)
  next
    case 3
    obtain r where r: "usub ?z x y = ?z\<lparr>mp := r\<rparr>" "limbs_ok r" "lval r = lval (mp x) - lval (mp y)"
      by (rule usub_val [of x y ?z ?n]) (use X Y 3 le in simp_all)
    have "mpz_add_slow x y = trim (?z\<lparr>mp := r, msn := msn x\<rparr>)"
      using 3 X Y cmp r(1) by (auto simp: mpz_add_slow_def Let_def)
    moreover have "mpz_val x + mpz_val y = msn x * int (lval r)"
      using 3 r(3) by (simp add: mpz_val_def of_nat_diff algebra_simps)
    ultimately show ?thesis using trim_result [OF r(2), of ?z "msn x"] X(1) by auto
  next
    case 4
    obtain r where r: "usub ?z y x = ?z\<lparr>mp := r\<rparr>" "limbs_ok r" "lval r = lval (mp y) - lval (mp x)"
      by (rule usub_val [of y x ?z ?n]) (use X Y 4 le in simp_all)
    have "mpz_add_slow x y = trim (?z\<lparr>mp := r, msn := msn y\<rparr>)"
      using 4 X Y cmp r(1) by (auto simp: mpz_add_slow_def Let_def)
    moreover have "mpz_val x + mpz_val y = msn y * int (lval r)"
      using 4 r(3) by (simp add: mpz_val_def of_nat_diff algebra_simps)
    ultimately show ?thesis using trim_result [OF r(2), of ?z "msn y"] Y(1) by auto
  qed
qed

lemma mpz_add_val:
  assumes "mpz_ok x" "mpz_ok y" "mpz_dest zz"
  shows "mpz_canon (mpz_add zz x y) \<and> mpz_val (mpz_add zz x y) = mpz_val x + mpz_val y"
proof -
  consider "zero_p x" | "\<not> zero_p x" "zero_p y" | "\<not> zero_p x" "\<not> zero_p y" by blast
  then show ?thesis
  proof cases
    case 3
    then show ?thesis
      using mpz_add_fast_val [of x y] mpz_add_fast_val [of y x] mpz_add_slow_val [of x y] assms
      by (auto simp: mpz_add_def)
  qed (use assms mpz_set_trim in \<open>auto simp: mpz_add_def zero_p_def mpz_val_def\<close>)
qed

lemma mpz_sub_val:
  assumes "mpz_ok x" "mpz_ok y" "mpz_dest z"
  shows "mpz_canon (mpz_sub z x y) \<and> mpz_val (mpz_sub z x y) = mpz_val x - mpz_val y"
  using mpz_add_val [of x "y\<lparr>msn := - msn y\<rparr>" z] assms by (auto simp: mpz_sub_def mpz_ok_def mpz_val_def)

lemma mpz_cmp_val:
  assumes "mpz_canon x" "mpz_canon y"
  shows "mpz_cmp x y = (if mpz_val x < mpz_val y then - 1 else if mpz_val y < mpz_val x then 1 else 0)"
proof -
  have c: "ucmp x y = (if lval (mp x) < lval (mp y) then - 1 else if lval (mp y) < lval (mp x) then 1 else 0)"
    by (rule ucmp_val) (use assms in \<open>auto simp: mpz_canon_def mpz_ok_def\<close>)
  show ?thesis using assms mpz_ok_pos [of x] mpz_ok_pos [of y]
    by (auto simp: mpz_cmp_def Let_def c mpz_canon_def mpz_ok_def mpz_val_def split: if_splits)
qed

text \<open>
  The in-place subtraction is exact too, but its result need not be well formed: \<open>digits\<close> is at
  least one for a number with limbs, so equal operands leave a zero limb under a positive sign.
\<close>

lemma digits_down_top: "i < length xs \<Longrightarrow> digits_down xs i = 0 \<or> xs ! digits_down xs i \<noteq> 0"
  by (induction i) auto

lemma mpz_sub_inplace_val:
  assumes "mpz_ok x" "mpz_ok y" "mpz_val x \<noteq> mpz_val y"
  shows "mpz_ok (mpz_sub_inplace x y) \<and> mpz_val (mpz_sub_inplace x y) = mpz_val x - mpz_val y"
proof (cases "msn x > 0 \<and> msn y > 0 \<and> ucmp x y \<ge> 0")
  case True
  then have nz: "\<not> zero_p x" "\<not> zero_p y" by (auto simp: zero_p_def)
  note X = sign_cases [OF assms(1) nz(1)] and Y = sign_cases [OF assms(2) nz(2)]
  have s: "msn x = 1" "msn y = 1" using True X(1) Y(1) by auto
  have lt: "lval (mp y) < lval (mp x)"
    using True ucmp_val [of x y] X Y assms(3) s by (auto simp: mpz_val_def split: if_splits)
  have len: "length (mp y) \<le> length (mp x)" using lval_shorter [of "mp x" "mp y"] X Y lt by (fastforce simp: not_less)
  obtain r where r: "mpn_sub (mp x) (mp y) = (r, 0)" "length r = length (mp x)" "limbs_ok r" "lval r = lval (mp x) - lval (mp y)"
    by (rule mpn_sub_exact [of "mp y" "mp x"]) (use X Y lt len in simp_all)
  let ?x = "x\<lparr>mp := r\<rparr>" and ?t = "take (digits (x\<lparr>mp := r\<rparr>)) r"
  have t: "lval ?t = lval r" "limbs_ok ?t" using digits_lval [of ?x] r(3) by simp_all
  have "r \<noteq> []" using r(2) X(4) by auto
  then have d: "digits ?x = Suc (digits_down r (length r - 1))" "digits_down r (length r - 1) < length r"
    using digits_down_le [of r "length r - 1"] by (auto simp: digits_def sz_def less_Suc_eq_le
      intro: le_less_trans [OF digits_down_le])
  have "last ?t = r ! digits_down r (length r - 1)"
    using d by (simp add: last_conv_nth \<open>r \<noteq> []\<close>)
  moreover have "r ! digits_down r (length r - 1) \<noteq> 0"
  proof
    assume 0: "r ! digits_down r (length r - 1) = 0"
    then have "digits_down r (length r - 1) = 0" using digits_down_top [of "length r - 1" r] \<open>r \<noteq> []\<close> by auto
    then have "lval ?t = 0" using 0 d \<open>r \<noteq> []\<close> by (cases r) auto
    then show False using t(1) r(4) lt by simp
  qed
  ultimately have "mpz_ok (x\<lparr>mp := ?t\<rparr>)"
    using assms(1) t \<open>r \<noteq> []\<close> d s X(4) by (simp add: mpz_ok_def)
  moreover have "mpz_sub_inplace x y = x\<lparr>mp := ?t\<rparr>"
    using True r(1) d \<open>r \<noteq> []\<close> by (simp add: mpz_sub_inplace_def Let_def sz_def)
  ultimately show ?thesis using t(1) r(4) lt s by (simp add: mpz_val_def of_nat_diff)
next
  case False
  then have "mpz_sub_inplace x y = mpz_sub x x y" by (simp only: mpz_sub_inplace_def mpz_sub_def if_False)
  then show ?thesis using mpz_sub_val [of x y x] assms by (simp add: mpz_canon_def)
qed

text \<open>
  The in-place difference of equal numbers is one zero limb with a positive sign: its magnitude reads as zero, its
  sign does not, and the number is not canonical.
\<close>

theorem mpz_sub_inplace_equal:
  assumes "mpz_ok x" "0 < msn x"
  shows "uzero_p (mpz_sub_inplace x x) \<and> \<not> zero_p (mpz_sub_inplace x x) \<and> \<not> mpz_ok (mpz_sub_inplace x x)"
proof -
  have X: "limbs_ok (mp x)" "mp x \<noteq> []" using assms by (auto simp: mpz_ok_def split: if_splits)
  obtain r where r: "mpn_sub (mp x) (mp x) = (r, 0)" "length r = length (mp x)" "lval r = 0"
    by (rule mpn_sub_exact [of "mp x" "mp x"]) (use X in simp_all)
  have "ucmp x x = 0" using mpn_cmp_val [of "mp x" "mp x"] X by (simp add: ucmp_def)
  then have eq: "mpz_sub_inplace x x = x\<lparr>mp := take (digits (x\<lparr>mp := r\<rparr>)) r\<rparr>"
    using assms r X(2) by (cases r) (auto simp: mpz_sub_inplace_def Let_def sz_def digits_def)
  have "lval (take (digits (x\<lparr>mp := r\<rparr>)) r) = 0" using digits_lval [of "x\<lparr>mp := r\<rparr>"] r(3) by simp
  then show ?thesis using assms eq mpz_ok_pos [of "mpz_sub_inplace x x"] by (auto simp: uzero_p_iff zero_p_def)
qed

section \<open>Machine integers in and out\<close>

lemma split_u64_val:
  assumes "u < DIG_BASE ^ len"
  shows "lval (split_u64 len u) = u \<and> limbs_ok (split_u64 len u) \<and> length (split_u64 len u) = len"
  using assms
proof (induction len arbitrary: u)
  case (Suc len)
  have "u div 2 ^ DIG_SIZE < DIG_BASE ^ len"
    using Suc.prems by (simp add: DIG_SIZE_def DIG_BASE_def less_mult_imp_div_less mult.commute)
  then show ?case using Suc.IH LOW_HIGH [of u] by (simp add: HIGH_def DIG_SIZE_def DIG_BASE_def)
qed simp

lemma two_limbs:
  "digits_of_u64 2 u = (if u \<noteq> 0 then Suc (if u div 2 ^ DIG_SIZE \<noteq> 0 then 1 else 0) else 0)"
  "split_u64 2 u = [LOW u, LOW (u div 2 ^ DIG_SIZE)]" "split_u64 1 u = [LOW u]"
  by (simp_all add: numeral_2_eq_2)

lemma digits_of_u64_2:
  assumes "u < 2 ^ 64"
  shows "u < DIG_BASE ^ digits_of_u64 2 u" "digits_of_u64 2 u = (if u = 0 then 0 else if u < DIG_BASE then 1 else 2)"
proof -
  show "digits_of_u64 2 u = (if u = 0 then 0 else if u < DIG_BASE then 1 else 2)"
    by (simp add: two_limbs DIG_SIZE_def DIG_BASE_def div_eq_0_iff)
  then show "u < DIG_BASE ^ digits_of_u64 2 u" using assms by (auto simp: DIG_BASE_def power2_eq_square)
qed

lemma mpz_set_uint64_val:
  assumes "u < 2 ^ 64" "mpz_dest y"
  shows "mpz_canon (mpz_set_uint64 y u) \<and> mpz_val (mpz_set_uint64 y u) = int u"
proof -
  let ?l = "split_u64 (digits_of_u64 2 u) u"
  have l: "lval ?l = u" "limbs_ok ?l" "length ?l = digits_of_u64 2 u"
    using split_u64_val [OF digits_of_u64_2(1) [OF assms(1)]] by simp_all
  have null: "mnull (mpz_realloc y (digits_of_u64 2 u)) \<Longrightarrow> u = 0"
    using assms(2) digits_of_u64_2(2) [OF assms(1)]
    by (auto simp: mpz_realloc_def mpz_dest_def sz_def split: if_splits)
  have "u \<noteq> 0 \<Longrightarrow> ?l \<noteq> [] \<and> last ?l \<noteq> 0"
  proof -
    assume "u \<noteq> 0"
    have "u div DIG_BASE < DIG_BASE" using assms(1) by (simp add: DIG_BASE_def less_mult_imp_div_less)
    moreover have "\<not> u < DIG_BASE \<Longrightarrow> u div DIG_BASE \<noteq> 0" by (simp add: div_eq_0_iff)
    ultimately show ?thesis using \<open>u \<noteq> 0\<close> unfolding digits_of_u64_2(2) [OF assms(1)]
      by (cases "u < DIG_BASE") (simp_all add: two_limbs LOW_def)
  qed
  moreover have "u = 0 \<Longrightarrow> ?l = []" by (simp add: two_limbs)
  ultimately show ?thesis using l null
    by (auto simp: mpz_set_uint64_def Let_def mpz_canon_def mpz_ok_def mpz_val_def)
qed

lemma mpz_set_int_val:
  assumes "in_i64 v" "mpz_dest y"
  shows "mpz_canon (mpz_set_int y v) \<and> mpz_val (mpz_set_int y v) = v"
proof (cases "v = 0")
  case True
  then show ?thesis by (simp add: mpz_set_int_def mpz_canon_def mpz_ok_def mpz_val_def)
next
  case False
  define u where "u = nat (wrap_u64 (if v > 0 then v else if v = INT64_MIN then v else - v))"
  define s where "s = (if v > 0 then 1 else - 1 :: int)"
  have u: "int u = \<bar>v\<bar>" using assms(1) False by (auto simp: machine_int u_def)
  then have lt: "u < 2 ^ 64" and nz: "u \<noteq> 0" using assms(1) False by (auto simp: machine_int)
  have v: "s * int u = v" "s \<in> {-1, 1}" unfolding u s_def by simp_all
  have eq: "mpz_set_int y v = (if u div DIG_BASE \<noteq> 0 then (mpz_set_uint64 y u)\<lparr>msn := s\<rparr>
      else (mpz_realloc y 1)\<lparr>mp := [u32 u], msn := s\<rparr>)"
    using False by (simp only: mpz_set_int_def Let_def if_False flip: u_def s_def)
  show ?thesis
  proof (cases "u div DIG_BASE = 0")
    case True
    then have "u < DIG_BASE" by (simp add: div_eq_0_iff)
    moreover have "\<not> mnull (mpz_realloc y 1)" using assms(2) by (auto simp: mpz_realloc_def mpz_dest_def sz_def)
    ultimately have "mpz_canon ((mpz_realloc y 1)\<lparr>mp := [u32 u], msn := s\<rparr>)" "u32 u = u"
      using nz v(2) by (auto simp: mpz_canon_def mpz_ok_def)
    then show ?thesis unfolding eq using True v(1) by (simp add: mpz_val_def)
  next
    case big: False
    have "mpz_canon (mpz_set_uint64 y u)" "mpz_val (mpz_set_uint64 y u) = int u"
      using mpz_set_uint64_val [OF lt assms(2)] by simp_all
    moreover have "msn (mpz_set_uint64 y u) = 1" using nz by (simp add: mpz_set_uint64_def Let_def)
    ultimately have "mpz_canon ((mpz_set_uint64 y u)\<lparr>msn := s\<rparr>)" "lval (mp (mpz_set_uint64 y u)) = u"
      using v(2) by (auto simp: mpz_canon_def mpz_ok_def mpz_val_def)
    then show ?thesis using big v(1) unfolding eq by (simp add: mpz_val_def)
  qed
qed

lemma get_int_loop_val:
  assumes "limbs_ok ds" "i < 2 ^ 64"
  shows "get_int_loop i ds = (if i * DIG_BASE ^ length ds + lval (rev ds) < 2 ^ 64
    then Some (i * DIG_BASE ^ length ds + lval (rev ds)) else None) \<or> ds = []"
  using assms
proof (induction ds arbitrary: i)
  case (Cons d ds)
  show ?case
  proof (cases "HIGH i = 0")
    case True
    then have i: "i < DIG_BASE" by (simp add: HIGH_def div_eq_0_iff)
    then have u: "u64 (i * 2 ^ DIG_SIZE) + d = i * DIG_BASE + d" "i * DIG_BASE + d < 2 ^ 64"
      using Cons.prems by (simp_all add: u64_def DIG_SIZE_def DIG_BASE_def)
    have eq: "i * DIG_BASE ^ length (d # ds) + lval (rev (d # ds)) = (i * DIG_BASE + d) * DIG_BASE ^ length ds + lval (rev ds)"
      by (simp add: lval_append algebra_simps)
    have "get_int_loop i (d # ds) = get_int_loop (i * DIG_BASE + d) ds" using True u by simp
    then show ?thesis using Cons.IH [OF _ u(2)] Cons.prems u(2) unfolding eq by (cases ds) auto
  next
    case False
    then have "DIG_BASE \<le> i" by (simp add: HIGH_def div_eq_0_iff not_less)
    then have "DIG_BASE * DIG_BASE \<le> i * DIG_BASE ^ length (d # ds)"
      by (intro mult_mono self_le_power) simp_all
    then have "2 ^ 64 \<le> i * DIG_BASE ^ length (d # ds) + lval (rev (d # ds))" by (simp add: DIG_BASE_def)
    then show ?thesis using False by simp
  qed
qed simp

lemma mpz_get_int_val:
  assumes "mpz_ok y"
  shows "mpz_get_int y = (if in_i64 (mpz_val y) then Some (mpz_val y) else None)"
proof (cases "zero_p y")
  case True
  then show ?thesis by (simp add: mpz_get_int_def zero_p_def mpz_val_def machine_int)
next
  case False
  note Y = sign_cases [OF assms False]
  have "get_int_loop 0 (rev (mp y)) = (if lval (mp y) < 2 ^ 64 then Some (lval (mp y)) else None)"
    using get_int_loop_val [of "rev (mp y)" 0] Y(3,4) by simp
  then show ?thesis using False Y(1,2) by (auto simp: mpz_get_int_def Let_def mpz_val_def machine_int)
qed

lemma mag_loop_zero: "2 \<le> i \<Longrightarrow> mag_loop i v ls = (if lval ls = 0 then Some v else None)"
  by (induction ls arbitrary: i) (auto simp: DIG_SIZE_def)

lemma sp_bigint_mag_u64_val:
  assumes "limbs_ok (mp z)"
  shows "sp_bigint_mag_u64 (Some z) = (if lval (mp z) < 2 ^ 64 then Some (lval (mp z)) else None)"
proof -
  consider "mp z = []" | a where "mp z = [a]" | a b ls where "mp z = a # b # ls"
    by (metis list.exhaust)
  then show ?thesis
  proof cases
    case (3 a b ls)
    have ab: "a < 2 ^ 32" "b < 2 ^ 32" using assms 3 by (simp_all add: DIG_BASE_def)
    have "lval ls \<noteq> 0 \<Longrightarrow> 2 ^ 64 \<le> lval (mp z)" using 3 by (cases "lval ls") (simp_all add: DIG_BASE_def)
    moreover have "sp_bigint_mag_u64 (Some z) = mag_loop (Suc (Suc 0)) (a + b * 2 ^ 32) ls"
      using 3 ab by (simp add: sp_bigint_mag_u64_def u64_def DIG_SIZE_def)
    ultimately show ?thesis using 3 ab mag_loop_zero [of "Suc (Suc 0)" "a + b * 2 ^ 32" ls]
      by (simp add: DIG_BASE_def)
  qed (use assms in \<open>auto simp: sp_bigint_mag_u64_def u64_def DIG_SIZE_def DIG_BASE_def\<close>)
qed

lemma sp_bigint_to_int_val:
  assumes "mpz_ok z"
  shows "sp_bigint_to_int (Some z) = wrap_i64 (mpz_val z)"
proof -
  let ?t = "take (if sz z < 2 then sz z else 2) (mp z)"
  have "limbs_ok (mp z)" using assms by (simp add: mpz_ok_def)
  then have or: "or_limbs 0 0 ?t = lval (mp z) mod 2 ^ 64"
  proof -
    consider "mp z = []" | a where "mp z = [a]" | a b ls where "mp z = a # b # ls" by (metis list.exhaust)
    then show ?thesis
    proof cases
      case (3 a b ls)
      then have "lval (mp z) = (a + b * 2 ^ 32) + 2 ^ 64 * lval ls" by (simp add: DIG_BASE_def algebra_simps)
      moreover have "a + b * 2 ^ 32 < 2 ^ 64" using 3 \<open>limbs_ok (mp z)\<close> by (simp add: DIG_BASE_def)
      ultimately have "lval (mp z) mod 2 ^ 64 = a + b * 2 ^ 32" by simp
      moreover have "?t = [a, b]" using 3 by (simp add: sz_def)
      ultimately show ?thesis using 3 \<open>limbs_ok (mp z)\<close> by (simp add: u64_def DIG_SIZE_def DIG_BASE_def)
    qed (use \<open>limbs_ok (mp z)\<close> in \<open>auto simp: sz_def u64_def DIG_SIZE_def DIG_BASE_def\<close>)
  qed
  have "wrap_i64 (int (n mod 2 ^ 64)) = wrap_i64 (int n)" "wrap_i64 (wrap_u64 (- int (n mod 2 ^ 64))) = wrap_i64 (- int n)" for n
    by (simp_all add: machine_int zmod_int mod_simps)
  moreover have "wrap_i64 0 = 0" by (simp add: machine_int)
  ultimately show ?thesis using assms or by (auto simp: sp_bigint_to_int_def Let_def sz_def mpz_ok_def mpz_val_def split: if_splits)
qed

section \<open>Products\<close>

lemma mul_int_loop_val:
  assumes "limbs_ok xs" "n < DIG_BASE" "cc < DIG_BASE"
  shows "\<exists>r k. mul_int_loop n cc xs = (r, k) \<and> limbs_ok r \<and> length r = length xs \<and> k < DIG_BASE \<and>
    lval r + DIG_BASE ^ length xs * k = lval xs * n + cc"
  using assms
proof (induction xs arbitrary: cc)
  case (Cons x xs)
  let ?c = "cc + x * n"
  have c: "?c < DIG_BASE * DIG_BASE" using addmul_step_bound [of 0 x n cc] Cons.prems by simp
  then have u: "u64 (x * n) = x * n" "u64 ?c = ?c" "HIGH ?c < DIG_BASE"
    using u64_id [of "x * n"] u64_id [OF c] HIGH_le [OF c] by simp_all
  obtain r k where r: "mul_int_loop n (HIGH ?c) xs = (r, k)" "limbs_ok r" "length r = length xs" "k < DIG_BASE"
    "lval r + DIG_BASE ^ length xs * k = lval xs * n + HIGH ?c"
    using Cons.IH [of "HIGH ?c"] Cons.prems u(3) by auto
  have "LOW ?c + DIG_BASE * (lval r + DIG_BASE ^ length xs * k) = ?c + DIG_BASE * (lval xs * n)"
    unfolding r(5) using LOW_HIGH [of ?c] by (simp add: algebra_simps)
  then show ?case using r u by (simp add: Let_def algebra_simps)
qed simp

lemma mpz_mul_int_val:
  assumes "mpz_ok x" "0 \<le> msn x" "0 \<le> n" "n < int DIG_BASE"
  shows "mpz_ok (mpz_mul_int x n) \<and> mpz_val (mpz_mul_int x n) = mpz_val x * n"
proof (cases "n = 0 \<or> zero_p x")
  case True
  then show ?thesis using assms by (auto simp: mpz_mul_int_def zero_def mpz_ok_def mpz_val_def zero_p_def)
next
  case False
  note X = sign_cases [OF assms(1)]
  have n: "LOWs n = nat n" "nat n < DIG_BASE" using assms by (auto simp: LOWs_def nat_less_iff)
  obtain r k where r: "mul_int_loop (nat n) 0 (mp x) = (r, k)" "limbs_ok r" "length r = length (mp x)" "k < DIG_BASE"
    "lval r + DIG_BASE ^ length (mp x) * k = lval (mp x) * nat n"
    using mul_int_loop_val [of "mp x" "nat n" 0] X(3) False n by auto
  let ?r = "if k \<noteq> 0 then r @ [k] else r"
  have v: "limbs_ok ?r" "lval ?r = lval (mp x) * nat n" using r by (auto simp: lval_append)
  have "mpz_mul_int x n = trim (x\<lparr>mp := ?r, mnull := False, msn := 1\<rparr>)"
    using False r n by (simp add: mpz_mul_int_def Let_def)
  moreover have "msn x = 1" using X(1) False assms(2) by auto
  ultimately show ?thesis using trim_ok [of "x\<lparr>mp := ?r, mnull := False, msn := 1\<rparr>"] v assms(3)
    by (simp add: mpz_canon_def mpz_val_def)
qed

lemma mpz_mul_basic_val:
  assumes "mpz_ok u" "mpz_ok v" "mpz_dest ww"
  shows "mpz_ok (mpz_mul_basic ww u v) \<and> mpz_val (mpz_mul_basic ww u v) = mpz_val u * mpz_val v"
proof (cases "zero_p u \<or> zero_p v")
  case True
  then show ?thesis using assms(3)
    by (auto simp: mpz_mul_basic_def zero_def mpz_ok_def mpz_val_def zero_p_def mpz_dest_def)
next
  case False
  note U = sign_cases [OF assms(1)] and V = sign_cases [OF assms(2)]
  define a where "a = (if sz v > sz u then v else u)"
  define b where "b = (if sz v > sz u then u else v)"
  have ab: "msn a \<in> {-1, 1}" "msn b \<in> {-1, 1}" "limbs_ok (mp a)" "limbs_ok (mp b)" "mp a \<noteq> []" "mp b \<noteq> []"
    "mpz_val u * mpz_val v = mpz_val a * mpz_val b"
    using U V False by (auto simp: a_def b_def mult.commute)
  have sn: "msn a * msn b \<in> {-1, 0, 1}" "msn a * msn b \<noteq> 0" using ab(1,2) by auto
  have eq: "mpz_mul_basic ww u v =
      (if sz b = 1
       then let (r, carry) = mpn_addmul_1 (replicate (sz a) 0) (mp a) (mp b ! 0)
            in trim ((mpz_init_heap (sz a + 1))\<lparr>mp := r @ [carry], msn := msn a * msn b\<rparr>)
       else let w = mpz_init_heap (sz a + sz b)
            in trim (w\<lparr>mp := mul_rows (mp w) (mp b) (mp a), msn := msn a * msn b\<rparr>))"
    using False by (cases "sz v > sz u") (simp_all add: mpz_mul_basic_def a_def b_def Let_def)
  obtain z r where r: "mpz_mul_basic ww u v = trim (z\<lparr>mp := r, msn := msn a * msn b\<rparr>)" "\<not> mnull z" "limbs_ok r"
    "lval r = lval (mp a) * lval (mp b)"
  proof (cases "sz b = 1")
    case True
    then obtain l where l: "mp b = [l]" "l < DIG_BASE" using ab(4) by (cases "mp b") (auto simp: sz_def)
    obtain w c where w: "mpn_addmul_1 (replicate (sz a) 0) (mp a) l = (w, c)" "length w = sz a" "limbs_ok w" "c < DIG_BASE"
      "lval w + DIG_BASE ^ sz a * c = lval (mp a) * l"
      by (rule mpn_addmul_1_val [of "replicate (sz a) 0" "mp a" l]) (use ab l in \<open>simp_all add: sz_def\<close>)
    have "mpz_mul_basic ww u v = trim ((mpz_init_heap (sz a + 1))\<lparr>mp := w @ [c], msn := msn a * msn b\<rparr>)"
      unfolding eq using True l w(1) by simp
    then show ?thesis using that w l by (simp add: lval_append)
  next
    case ne: False
    let ?w = "mpz_init_heap (sz a + sz b)"
    have "0 < sz a + sz b" using ab(5) by (simp add: sz_def)
    moreover have "mpz_mul_basic ww u v = trim (?w\<lparr>mp := mul_rows (mp ?w) (mp b) (mp a), msn := msn a * msn b\<rparr>)"
      unfolding eq using ne by (simp add: Let_def)
    ultimately show ?thesis
      using that mul_rows_val [of "replicate (sz a + sz b) 0" "mp b" "mp a"] ab by (simp add: sz_def mult.commute)
  qed
  then show ?thesis using trim_result [OF r(3,2) sn(1)] sn(2) ab(7)
    by (simp add: mpz_val_def mpz_canon_def algebra_simps)
qed

lemma add_int_loop_val:
  assumes "limbs_ok xs" "c < DIG_BASE"
  shows "\<exists>r k. add_int_loop c xs = (r, k) \<and> limbs_ok r \<and> length r = length xs \<and> k < DIG_BASE \<and>
    lval r + DIG_BASE ^ length xs * k = lval xs + c"
  using assms
proof (induction xs arbitrary: c)
  case (Cons x xs)
  let ?c = "c + x"
  have c: "?c < DIG_BASE * 2" using Cons.prems by simp
  have u: "u64 ?c = ?c" "HIGH ?c < DIG_BASE"
    using HIGH_le [OF c] u64_id [OF less_trans [OF c]] by (simp_all add: DIG_BASE_def)
  obtain r k where r: "add_int_loop (HIGH ?c) xs = (r, k)" "limbs_ok r" "length r = length xs" "k < DIG_BASE"
    "lval r + DIG_BASE ^ length xs * k = lval xs + HIGH ?c"
    using Cons.IH [of "HIGH ?c"] Cons.prems u(2) by auto
  have "LOW ?c + DIG_BASE * (lval r + DIG_BASE ^ length xs * k) = ?c + DIG_BASE * lval xs"
    unfolding r(5) using LOW_HIGH [of ?c] by (simp add: algebra_simps)
  then show ?case using r u Cons.prems by (auto simp: Let_def algebra_simps)
qed simp

text \<open>\<open>mpz_add_int\<close> grows the magnitude: away from zero, whatever the sign.\<close>

lemma mpz_add_int_val:
  assumes "mpz_ok x" "0 \<le> n" "n < int DIG_BASE" "msn x \<noteq> 0 \<or> mp x = []"
  shows "mpz_ok (mpz_add_int x n) \<and>
    mpz_val (mpz_add_int x n) = mpz_val x + (if msn x < 0 then - n else n)"
proof (cases "n = 0")
  case False
  have X: "limbs_ok (mp x)" "msn x \<in> {-1, 0, 1}" using assms(1) by (simp_all add: mpz_ok_def)
  have n: "nat (wrap_u64 n) = nat n" "nat n < DIG_BASE" using assms by (auto simp: machine_int DIG_BASE_def nat_less_iff)
  obtain r k where r: "add_int_loop (nat n) (mp x) = (r, k)" "limbs_ok r" "length r = length (mp x)" "k < DIG_BASE"
    "lval r + DIG_BASE ^ length (mp x) * k = lval (mp x) + nat n"
    using add_int_loop_val [OF X(1) n(2)] by auto
  define s where "s = (if msn x = 0 then 1 else msn x)"
  define l where "l = (if k \<noteq> 0 then r @ [k] else r)"
  have l: "limbs_ok l" "lval l = lval (mp x) + nat n" using r by (auto simp: l_def lval_append)
  have k0: "msn x = 0 \<Longrightarrow> k \<noteq> 0" using r(3,5) assms(4) False assms(2) by (cases "mp x") auto
  have z: "\<not> mnull (x\<lparr>mnull := mnull x \<and> k = 0\<rparr>)" using k0 assms(1) by (auto simp: mpz_ok_def split: if_splits)
  have "mpz_add_int x n = trim ((x\<lparr>mnull := mnull x \<and> k = 0\<rparr>)\<lparr>mp := l, msn := s\<rparr>)"
    using False r(1,4) n(1) k0
    by (cases x) (auto simp: mpz_add_int_def Let_def l_def s_def)
  moreover have "s \<in> {-1, 0, 1}" "s = 0 \<longrightarrow> lval l = 0" using X(2) by (auto simp: s_def)
  moreover have "mpz_val x + (if msn x < 0 then - n else n) = s * int (lval l)"
    using X(2) assms(2,4) unfolding l(2) by (auto simp: s_def mpz_val_def)
  ultimately show ?thesis using trim_result [OF l(1) z] by (simp add: mpz_canon_def)
qed (simp add: mpz_add_int_def assms)

section \<open>The entry points\<close>

lemma sp_bigint_new_int_val:
  "in_i64 v \<Longrightarrow> mpz_canon (sp_bigint_new_int v) \<and> mpz_val (sp_bigint_new_int v) = v"
  using mpz_set_int_val [of v mpz_init] by (simp add: sp_bigint_new_int_def mpz_init_set_int_def)

lemma mpz_canon_ok: "mpz_canon x \<Longrightarrow> mpz_ok x"
  by (simp add: mpz_canon_def)

text \<open>
  C19: Addition, subtraction and comparison of two canonical numbers give the integer sum,
  difference and sign of the difference, and the sum and difference are canonical again.
\<close>
theorem bigint_add_sub_cmp_exact:
  assumes "mpz_canon a" "mpz_canon b"
  shows "mpz_canon (sp_bigint_add a b) \<and> mpz_val (sp_bigint_add a b) = mpz_val a + mpz_val b \<and>
    mpz_canon (sp_bigint_sub a b) \<and> mpz_val (sp_bigint_sub a b) = mpz_val a - mpz_val b \<and>
    sp_bigint_cmp a b = sgn (mpz_val a - mpz_val b)"
  using mpz_add_val [of a b mpz_init] mpz_sub_val [of a b mpz_init] mpz_cmp_val [OF assms] assms
  by (simp add: sp_bigint_add_def sp_bigint_sub_def sp_bigint_cmp_def mpz_canon_ok sgn_if)

theorem bigint_add_sub_cmp_exact_witness:
  "mpz_val (sp_bigint_add (sp_bigint_new_int INT64_MAX) (sp_bigint_new_int 1)) = 2 ^ 63 \<and>
   sp_bigint_cmp (sp_bigint_new_int INT64_MAX) (sp_bigint_new_int 1) = 1"
proof -
  have "in_i64 INT64_MAX" "in_i64 1" by (simp_all add: machine_int)
  then show ?thesis
    using bigint_add_sub_cmp_exact [of "sp_bigint_new_int INT64_MAX" "sp_bigint_new_int 1"] sp_bigint_new_int_val
    by (simp add: INT64_MAX_def)
qed

text \<open>
  C28: A machine integer made into a big number and read back is itself, and reading any
  canonical number tells exactly whether it fits.
\<close>
theorem bigint_int_roundtrip:
  assumes "mpz_canon x"
  shows "mpz_get_int x = (if in_i64 (mpz_val x) then Some (mpz_val x) else None) \<and>
    sp_bigint_to_int (Some x) = wrap_i64 (mpz_val x) \<and>
    sp_bigint_mag_u64 (Some x) = (if \<bar>mpz_val x\<bar> < 2 ^ 64 then Some (nat \<bar>mpz_val x\<bar>) else None) \<and>
    sp_bigint_sign x = sgn (mpz_val x) \<and>
    (\<forall>v. in_i64 v \<longrightarrow> mpz_get_int (sp_bigint_new_int v) = Some v) \<and>
    (\<forall>n. n < 2 ^ 64 \<longrightarrow> sp_bigint_mag_u64 (Some (sp_bigint_new_u64 n)) = Some n)"
proof -
  have ok: "mpz_ok x" using assms by (rule mpz_canon_ok)
  have abs: "nat \<bar>mpz_val y\<bar> = lval (mp y)" if "mpz_ok y" for y
    using that by (auto simp: mpz_ok_def mpz_val_def split: if_splits)
  have "lval (mp x) < 2 ^ 64 \<longleftrightarrow> \<bar>mpz_val x\<bar> < 2 ^ 64" unfolding abs [OF ok, symmetric] by (simp add: nat_less_iff)
  then have mag: "sp_bigint_mag_u64 (Some x) = (if \<bar>mpz_val x\<bar> < 2 ^ 64 then Some (nat \<bar>mpz_val x\<bar>) else None)"
    using sp_bigint_mag_u64_val [of x] ok abs [OF ok] by (simp add: mpz_ok_def)
  have "mpz_get_int (sp_bigint_new_int v) = Some v" if "in_i64 v" for v
    using mpz_get_int_val [of "sp_bigint_new_int v"] sp_bigint_new_int_val [OF that] that by (simp add: mpz_canon_ok)
  moreover have "sp_bigint_mag_u64 (Some (sp_bigint_new_u64 n)) = Some n" if "n < 2 ^ 64" for n
  proof -
    have u: "mpz_ok (sp_bigint_new_u64 n)" "mpz_val (sp_bigint_new_u64 n) = int n"
      using mpz_set_uint64_val [OF that, of mpz_init] by (simp_all add: sp_bigint_new_u64_def mpz_canon_ok)
    then show ?thesis using abs [OF u(1)] sp_bigint_mag_u64_val [of "sp_bigint_new_u64 n"] that by (simp add: mpz_ok_def)
  qed
  ultimately show ?thesis
    using mpz_get_int_val [OF ok] sp_bigint_to_int_val [OF ok] mag mpz_ok_sgn [OF ok] by (simp add: sp_bigint_sign_def)
qed

theorem bigint_int_roundtrip_witness:
  "mpz_get_int (sp_bigint_new_int INT64_MIN) = Some INT64_MIN \<and>
   sp_bigint_to_int (Some (sp_bigint_new_u64 (2 ^ 63))) = INT64_MIN"
proof -
  have n: "(2 ^ 63 :: nat) < 2 ^ 64" by simp
  have v: "mpz_val (sp_bigint_new_u64 (2 ^ 63)) = 2 ^ 63"
    unfolding sp_bigint_new_u64_def using mpz_set_uint64_val [OF n, of mpz_init] by simp
  have c: "mpz_canon (sp_bigint_new_u64 (2 ^ 63))"
    unfolding sp_bigint_new_u64_def using mpz_set_uint64_val [OF n, of mpz_init] by simp
  have "sp_bigint_to_int (Some (sp_bigint_new_u64 (2 ^ 63))) = wrap_i64 (2 ^ 63)"
    using bigint_int_roundtrip [OF c] unfolding v by blast
  moreover have "wrap_i64 (2 ^ 63) = INT64_MIN" "in_i64 INT64_MIN" by (simp_all add: machine_int)
  ultimately show ?thesis using bigint_int_roundtrip [OF c] by auto
qed

text \<open>
  The schoolbook product of two canonical numbers is the integer product, canonical
  again.
\<close>
theorem bigint_mul_basic_exact:
  assumes "mpz_ok u" "mpz_ok v" "mpz_dest ww"
  shows "mpz_ok (mpz_mul_basic ww u v) \<and> mpz_val (mpz_mul_basic ww u v) = mpz_val u * mpz_val v"
  using assms by (rule mpz_mul_basic_val)

theorem bigint_mul_basic_exact_witness:
  "mpz_val (mpz_mul_basic mpz_init (sp_bigint_new_int INT64_MIN) (sp_bigint_new_int INT64_MIN)) = 2 ^ 126"
proof -
  have "in_i64 INT64_MIN" by (simp add: machine_int)
  then show ?thesis
    using bigint_mul_basic_exact [of "sp_bigint_new_int INT64_MIN" "sp_bigint_new_int INT64_MIN" mpz_init]
      sp_bigint_new_int_val [of INT64_MIN] by (simp add: mpz_canon_ok INT64_MIN_def)
qed

theorem mpz_sub_inplace_equal_witness:
  "uzero_p (mpz_sub_inplace (sp_bigint_new_int 5) (sp_bigint_new_int 5)) \<and>
   \<not> zero_p (mpz_sub_inplace (sp_bigint_new_int 5) (sp_bigint_new_int 5))"
proof -
  have i: "in_i64 5" by (simp add: machine_int)
  then have "mpz_ok (sp_bigint_new_int 5)" "0 < msn (sp_bigint_new_int 5)"
    using sp_bigint_new_int_val [OF i] mpz_ok_sgn [of "sp_bigint_new_int 5"] by (simp_all add: mpz_canon_ok)
  then show ?thesis using mpz_sub_inplace_equal [of "sp_bigint_new_int 5"] by simp
qed

end
