(* ===== verification/BigShift.thy ===== *)
theory BigShift
  imports Bigint
begin

unbundle bit_operations_syntax

text \<open>
  Shifts and bitwise operations of the arbitrary-precision integers (\<^verbatim>\<open>lib/sp_bigint.c\<close>).

  A routine that gives up through \<^verbatim>\<open>mrb_raise\<close> ends the program (\<^verbatim>\<open>lib/mruby_shim.h\<close> prints the message
  and exits, for every class but ZeroDivisionError): that is an answer \<open>Inl\<close> here. The two entry
  points \<open>sp_bigint_shl\<close> and \<open>sp_bigint_shr\<close> call each other on a negative count; the model counts
  those calls, and None is running out of them.
\<close>

datatype big_stop = FatalExit string | RaiseZeroDiv string | RaiseRangeError string

type_synonym 'a big_res = "big_stop + 'a"

section \<open>Shifting limb arrays\<close>

text \<open>The sizes of the code: \<open>0 < cnt < DIG_SIZE\<close>, and at least one limb.\<close>

fun rshift_loop :: "nat \<Rightarrow> nat list \<Rightarrow> nat list" where
  "rshift_loop cnt [] = []"
| "rshift_loop cnt [a] = [(a div 2 ^ cnt) mod DIG_BASE]"
| "rshift_loop cnt (a # b # as) =
     ((a div 2 ^ cnt) OR u32 (b * 2 ^ (DIG_SIZE - cnt))) mod DIG_BASE # rshift_loop cnt (b # as)"

definition mpn_rshift :: "nat list \<Rightarrow> nat \<Rightarrow> nat list \<times> nat" where
  "mpn_rshift ap cnt = (rshift_loop cnt ap, u32 (ap ! 0 * 2 ^ (DIG_SIZE - cnt)) mod DIG_BASE)"

text \<open>The limbs of a left shift, each with what the limb below it sends up.\<close>

fun lshift_loop :: "nat \<Rightarrow> nat \<Rightarrow> nat list \<Rightarrow> nat list" where
  "lshift_loop cnt below [] = []"
| "lshift_loop cnt below (a # as) =
     (u32 (a * 2 ^ cnt) OR (below div 2 ^ (DIG_SIZE - cnt))) mod DIG_BASE # lshift_loop cnt a as"

definition mpn_lshift :: "nat list \<Rightarrow> nat \<Rightarrow> nat list \<times> nat" where
  "mpn_lshift ap cnt = (lshift_loop cnt 0 ap, (last ap div 2 ^ (DIG_SIZE - cnt)) mod DIG_BASE)"

section \<open>Shifts\<close>

definition urshift :: "mpz \<Rightarrow> mpz \<Rightarrow> nat \<Rightarrow> mpz" where
  "urshift c1 a n =
     (if n = 0 then trim (mpz_set c1 a)
      else if uzero_p a then zero c1
      else trim ((mpz_realloc c1 (sz a))\<lparr>mp := fst (mpn_rshift (mp a) n)\<rparr>))"

text \<open>The in-place case shifts within the grown array and keeps the sign; the other builds a fresh one.\<close>

definition ulshift_inplace :: "mpz \<Rightarrow> nat \<Rightarrow> mpz" where
  "ulshift_inplace a n =
     (if n = 0 then trim (mpz_set a a)
      else if uzero_p a then zero a
      else let (r, carry) = mpn_lshift (mp a) n in trim (a\<lparr>mp := r @ [carry], mnull := False\<rparr>))"

definition ulshift :: "mpz \<Rightarrow> mpz \<Rightarrow> nat \<Rightarrow> mpz" where
  "ulshift c1 a n =
     (if n = 0 then trim (mpz_set c1 a)
      else if uzero_p a then zero c1
      else let (r, carry) = mpn_lshift (mp a) n in trim ((mpz_init_heap (sz a + 1))\<lparr>mp := r @ [carry]\<rparr>))"

definition MRB_BIGINT_BIT_LIMIT :: nat where
  "MRB_BIGINT_BIT_LIMIT = 128 * 1024 * 1024 * 8"

definition with_sign :: "int \<Rightarrow> mpz \<Rightarrow> mpz" where
  "with_sign sn z = (if uzero_p z then z\<lparr>msn := 0\<rparr> else z\<lparr>msn := sn\<rparr>)"

definition mpz_mul_2exp :: "mpz \<Rightarrow> mpz \<Rightarrow> nat \<Rightarrow> mpz big_res" where
  "mpz_mul_2exp z x e =
     (if e = 0 then Inr (trim (mpz_set z x))
      else let digs = e div DIG_SIZE; bs = e mod DIG_SIZE;
               result_bits = u64 (u64 (sz x * DIG_SIZE) + e)
           in if e > MRB_BIGINT_BIT_LIMIT \<or> result_bits > MRB_BIGINT_BIT_LIMIT
              then Inl (FatalExit ''shift width too large'')
              else let y = (mpz_init_heap (sz x + digs))\<lparr>mp := replicate digs 0 @ mp x\<rparr>
                   in Inr (with_sign (msn x) (if bs \<noteq> 0 then ulshift z y bs else trim y)))"

definition mpz_div_2exp :: "mpz \<Rightarrow> mpz \<Rightarrow> nat \<Rightarrow> mpz" where
  "mpz_div_2exp z x e =
     (if e = 0 then trim (mpz_set (mpz_init_heap (sz x)) x)
      else let digs = e div DIG_SIZE; bs = e mod DIG_SIZE
      in if digs \<ge> sz x then zero z
      else let new_size = sz x - digs;
               y = (mpz_init_heap new_size)\<lparr>mp := take new_size (drop digs (mp x))\<rparr>
           in with_sign (msn x) (if bs \<noteq> 0 then urshift (mpz_init_heap new_size) y bs else trim y))"

definition mpz_div_2exp_inplace :: "mpz \<Rightarrow> nat \<Rightarrow> mpz" where
  "mpz_div_2exp_inplace x e =
     (if e = 0 then x
      else let digs = e div DIG_SIZE; bs = e mod DIG_SIZE
      in if digs \<ge> sz x then zero x
      else let new_size = sz x - digs;
               z = x\<lparr>mp := take new_size (if digs > 0 then drop digs (mp x) else mp x)\<rparr>;
               z = (if bs \<noteq> 0 then z\<lparr>mp := fst (mpn_rshift (mp z) bs)\<rparr> else z)
           in with_sign (msn x) (trim z))"

definition mpz_neg :: "mpz \<Rightarrow> mpz" where
  "mpz_neg y = (trim (mpz_set (mpz_init_heap (sz y)) y))\<lparr>msn := - msn y\<rparr>"

definition mpz_mod_2exp :: "mpz \<Rightarrow> int \<Rightarrow> mpz" where
  "mpz_mod_2exp x e =
     (if e \<le> 0 then zero mpz_init
      else let eint = nat e div DIG_SIZE; bs = nat e mod DIG_SIZE
      in if eint \<ge> sz x then trim (mpz_set (mpz_init_heap (sz x)) x)
      else let result_sz = eint + (if bs > 0 then 1 else 0);
               part = (if bs > 0 then [(mp x ! eint) AND (2 ^ bs - 1)] else [])
           in trim ((mpz_init_heap result_sz)\<lparr>msn := msn x, mp := take eint (mp x) @ part\<rparr>))"

definition mpz_low_bits_set :: "mpz \<Rightarrow> nat \<Rightarrow> bool" where
  "mpz_low_bits_set x e =
     (let digs = e div DIG_SIZE; bs = e mod DIG_SIZE; whole = (if digs < sz x then digs else sz x)
      in list_ex (\<lambda>l. l \<noteq> 0) (take whole (mp x)) \<or>
         (bs \<noteq> 0 \<and> digs < sz x \<and> (mp x ! digs) AND (2 ^ bs - 1) \<noteq> 0))"

text \<open>
  The entry points: \<open>left\<close> is \<open>sp_bigint_shl\<close>. The negated count of the code is a signed 64-bit
  negation.
\<close>

fun bigint_shift :: "nat \<Rightarrow> bool \<Rightarrow> mpz \<Rightarrow> int \<Rightarrow> mpz big_res option" where
  "bigint_shift 0 left a n = None"
| "bigint_shift (Suc calls) left a n =
     (if n < 0 then bigint_shift calls (\<not> left) a (wrap_i64 (- n))
      else if left then Some (mpz_mul_2exp mpz_init a (nat n))
      else let r = mpz_div_2exp mpz_init a (nat n)
           in Some (Inr (if msn a < 0 \<and> mpz_low_bits_set a (nat n)
                         then sp_bigint_sub r (sp_bigint_new_int 1) else r)))"

definition sp_bigint_shl :: "nat \<Rightarrow> mpz \<Rightarrow> int \<Rightarrow> mpz big_res option" where
  "sp_bigint_shl calls a n = bigint_shift calls True a n"

definition sp_bigint_shr :: "nat \<Rightarrow> mpz \<Rightarrow> int \<Rightarrow> mpz big_res option" where
  "sp_bigint_shr calls a n = bigint_shift calls False a n"

section \<open>Bitwise operations\<close>

text \<open>\<^verbatim>\<open>make_2comp\<close>: the limb of the two's complement, and the carry into the next.\<close>

definition make_2comp :: "nat \<Rightarrow> bool \<Rightarrow> nat \<times> bool" where
  "make_2comp v c = (let v = u32 ((DIG_BASE - 1 - v) + of_bool c) in (v, v = 0 \<and> c))"

definition comp_if :: "bool \<Rightarrow> nat \<Rightarrow> bool \<Rightarrow> nat \<times> bool" where
  "comp_if neg v c = (if neg then make_2comp v c else (v, c))"

text \<open>The walk over \<open>n\<close> limbs, an operand past its end reading as zero; the last answer is the carry \<open>c3\<close>.\<close>

fun bit_walk :: "(nat \<Rightarrow> nat \<Rightarrow> nat) \<Rightarrow> bool \<Rightarrow> bool \<Rightarrow> bool \<Rightarrow> nat \<Rightarrow> nat list \<Rightarrow> nat list \<Rightarrow>
    bool \<Rightarrow> bool \<Rightarrow> bool \<Rightarrow> nat list \<times> bool" where
  "bit_walk f xneg yneg zneg 0 xs ys c1 c2 c3 = ([], c3)"
| "bit_walk f xneg yneg zneg (Suc n) xs ys c1 c2 c3 =
     (let (xv, c1) = comp_if xneg (case xs of [] \<Rightarrow> 0 | x # _ \<Rightarrow> x) c1;
          (yv, c2) = comp_if yneg (case ys of [] \<Rightarrow> 0 | y # _ \<Rightarrow> y) c2;
          (zv, c3) = comp_if zneg (f xv yv) c3;
          (r, k) = bit_walk f xneg yneg zneg n (tl xs) (tl ys) c1 c2 c3
      in (zv # r, k))"

definition bit_slow :: "(nat \<Rightarrow> nat \<Rightarrow> nat) \<Rightarrow> int \<Rightarrow> mpz \<Rightarrow> mpz \<Rightarrow> mpz" where
  "bit_slow f zsn x y =
     (let max_sz = (if sz x > sz y then sz x else sz y); z = (mpz_init_heap max_sz)\<lparr>msn := zsn\<rparr>;
          (r, c3) = bit_walk f (msn x < 0) (msn y < 0) (zsn < 0) max_sz (mp x) (mp y) True True True
      in trim (z\<lparr>mp := (if zsn < 0 \<and> c3 then r @ [1] else r)\<rparr>))"

definition mpz_and :: "mpz \<Rightarrow> mpz \<Rightarrow> mpz" where
  "mpz_and x y =
     (if zero_p x \<or> zero_p y then zero mpz_init
      else if msn x > 0 \<and> msn y > 0
      then let min_sz = (if sz x < sz y then sz x else sz y)
           in trim ((mpz_init_heap min_sz)\<lparr>mp := map2 (AND) (take min_sz (mp x)) (take min_sz (mp y)), msn := 1\<rparr>)
      else bit_slow (AND) (if msn x < 0 \<and> msn y < 0 then - 1 else 1) x y)"

text \<open>The fast path of \<^verbatim>\<open>|\<close> and \<^verbatim>\<open>^\<close>: the common limbs, then the rest of the longer operand.\<close>

definition bit_fast :: "(nat \<Rightarrow> nat \<Rightarrow> nat) \<Rightarrow> mpz \<Rightarrow> mpz \<Rightarrow> mpz" where
  "bit_fast f x y =
     (let max_sz = (if sz x > sz y then sz x else sz y); min_sz = (if sz x < sz y then sz x else sz y)
      in trim ((mpz_init_heap max_sz)\<lparr>
           mp := map2 f (take min_sz (mp x)) (take min_sz (mp y)) @
             (if sz x > sz y then drop min_sz (mp x) else drop min_sz (mp y)),
           msn := 1\<rparr>))"

definition mpz_or :: "mpz \<Rightarrow> mpz \<Rightarrow> mpz" where
  "mpz_or x y =
     (if zero_p x then trim (mpz_set (mpz_init_heap (sz y)) y)
      else if zero_p y then trim (mpz_set (mpz_init_heap (sz x)) x)
      else if msn x > 0 \<and> msn y > 0 then bit_fast (OR) x y
      else bit_slow (OR) (if msn x = msn y then msn x else - 1) x y)"

definition mpz_xor :: "mpz \<Rightarrow> mpz \<Rightarrow> mpz" where
  "mpz_xor x y =
     (if zero_p x then trim (mpz_set (mpz_init_heap (sz y)) y)
      else if zero_p y then trim (mpz_set (mpz_init_heap (sz x)) x)
      else if msn x > 0 \<and> msn y > 0 then bit_fast (XOR) x y
      else bit_slow (XOR) (if msn x = msn y then 1 else - 1) x y)"

text \<open>The entry points take NULL for zero.\<close>

definition bigint_or_zero :: "mpz option \<Rightarrow> mpz" where
  "bigint_or_zero a = (case a of None \<Rightarrow> mpz_init | Some x \<Rightarrow> x)"

definition sp_bigint_and :: "mpz option \<Rightarrow> mpz option \<Rightarrow> mpz" where
  "sp_bigint_and a b = mpz_and (bigint_or_zero a) (bigint_or_zero b)"

definition sp_bigint_or :: "mpz option \<Rightarrow> mpz option \<Rightarrow> mpz" where
  "sp_bigint_or a b = mpz_or (bigint_or_zero a) (bigint_or_zero b)"

definition sp_bigint_xor :: "mpz option \<Rightarrow> mpz option \<Rightarrow> mpz" where
  "sp_bigint_xor a b = mpz_xor (bigint_or_zero a) (bigint_or_zero b)"

section \<open>Shifted limb arrays\<close>

lemma or_add: "x < 2 ^ k \<Longrightarrow> x OR (y * 2 ^ k) = x + y * 2 ^ k" for x y :: nat
proof -
  assume "x < 2 ^ k"
  then have x: "take_bit k x = x" by (simp add: take_bit_nat_eq_self)
  have "take_bit k x + push_bit k y = take_bit k x OR push_bit k y"
    by (rule disjunctive_add) (auto simp: bit_simps)
  then show ?thesis by (simp add: x push_bit_eq_mult)
qed

text \<open>A limb splits at \<open>cnt\<close> bits.\<close>

lemma base_split: "cnt \<le> DIG_SIZE \<Longrightarrow> DIG_BASE = 2 ^ cnt * 2 ^ (DIG_SIZE - cnt)"
  using power_add [of "2 :: nat" cnt "DIG_SIZE - cnt"] DIG_SIZE_power by simp

lemma limb_lshift:
  assumes "cnt \<le> DIG_SIZE"
  shows "u32 (a * 2 ^ cnt) = (a mod 2 ^ (DIG_SIZE - cnt)) * 2 ^ cnt"
proof -
  have "u32 (a * 2 ^ cnt) = (2 ^ cnt * a) mod (2 ^ cnt * 2 ^ (DIG_SIZE - cnt))"
    unfolding base_split [OF assms, symmetric] by (simp add: u32_def DIG_BASE_def mult.commute)
  also have "\<dots> = 2 ^ cnt * (a mod 2 ^ (DIG_SIZE - cnt))" by (rule mult_mod_right [symmetric])
  finally show ?thesis by (simp only: mult.commute)
qed

lemma limb_rshift_less: "cnt \<le> DIG_SIZE \<Longrightarrow> a < DIG_BASE \<Longrightarrow> a div 2 ^ (DIG_SIZE - cnt) < 2 ^ cnt"
  using base_split [of cnt] by (simp add: less_mult_imp_div_less)

lemma rshift_loop_val:
  assumes "limbs_ok xs" "cnt \<le> DIG_SIZE"
  shows "lval (rshift_loop cnt xs) = lval xs div 2 ^ cnt \<and> limbs_ok (rshift_loop cnt xs) \<and>
    length (rshift_loop cnt xs) = length xs"
  using assms
proof (induction cnt xs rule: rshift_loop.induct)
  case (2 cnt a)
  have "a div 2 ^ cnt < DIG_BASE" using 2 by (simp add: le_less_trans [OF div_le_dividend])
  then show ?case by simp
next
  case (3 cnt a b as)
  let ?k = "DIG_SIZE - cnt" and ?R = "lval (b # as)"
  have k: "DIG_SIZE - ?k = cnt" "?k \<le> DIG_SIZE" using 3(3) by simp_all
  have lo: "a div 2 ^ cnt < 2 ^ ?k" using limb_rshift_less [OF k(2), of a] 3 k by simp
  have hi: "u32 (b * 2 ^ ?k) = (b mod 2 ^ cnt) * 2 ^ ?k" using limb_lshift [OF k(2), of b] k by simp
  have "b mod 2 ^ cnt * 2 ^ ?k + 2 ^ ?k \<le> 2 ^ cnt * 2 ^ ?k"
    using mult_le_mono1 [of "Suc (b mod 2 ^ cnt)" "2 ^ cnt" "2 ^ ?k"] by (simp add: Suc_leI)
  then have lt: "a div 2 ^ cnt + b mod 2 ^ cnt * 2 ^ ?k < DIG_BASE" using lo base_split [OF 3(3)] by simp
  have b: "b mod 2 ^ cnt = ?R mod 2 ^ cnt"
    unfolding lval.simps base_split [OF 3(3)] mult.assoc by simp
  have "lval (a # b # as) div 2 ^ cnt = (a + 2 ^ cnt * (2 ^ ?k * ?R)) div 2 ^ cnt"
    unfolding lval.simps(2) [of a] base_split [OF 3(3)] mult.assoc by (rule refl)
  also have "\<dots> = a div 2 ^ cnt + 2 ^ ?k * ?R" by simp
  also have "\<dots> = a div 2 ^ cnt + 2 ^ ?k * (?R mod 2 ^ cnt + 2 ^ cnt * (?R div 2 ^ cnt))" by simp
  also have "\<dots> = a div 2 ^ cnt + (b mod 2 ^ cnt) * 2 ^ ?k + DIG_BASE * (?R div 2 ^ cnt)"
    unfolding b [symmetric] base_split [OF 3(3)] by (simp only: algebra_simps)
  finally show ?case using 3 lt hi or_add [OF lo, of "b mod 2 ^ cnt"] by simp
qed simp

lemma lshift_loop_val:
  assumes "limbs_ok xs" "below < DIG_BASE" "cnt \<le> DIG_SIZE"
  shows "lval (lshift_loop cnt below xs) + DIG_BASE ^ length xs * (last (below # xs) div 2 ^ (DIG_SIZE - cnt)) =
    lval xs * 2 ^ cnt + below div 2 ^ (DIG_SIZE - cnt) \<and> limbs_ok (lshift_loop cnt below xs) \<and>
    length (lshift_loop cnt below xs) = length xs"
  using assms
proof (induction cnt below xs rule: lshift_loop.induct)
  case (2 cnt below a as)
  let ?k = "DIG_SIZE - cnt"
  have lo: "below div 2 ^ ?k < 2 ^ cnt" using limb_rshift_less [of cnt below] 2 by simp
  have hi: "u32 (a * 2 ^ cnt) = (a mod 2 ^ ?k) * 2 ^ cnt" using limb_lshift 2 by simp
  have "a mod 2 ^ ?k * 2 ^ cnt + 2 ^ cnt \<le> 2 ^ ?k * 2 ^ cnt"
    using mult_le_mono1 [of "Suc (a mod 2 ^ ?k)" "2 ^ ?k" "2 ^ cnt"] by (simp add: Suc_leI)
  then have lt: "a mod 2 ^ ?k * 2 ^ cnt + below div 2 ^ ?k < DIG_BASE"
    using lo base_split [OF 2(4)] by (simp add: mult.commute)
  let ?h = "a mod 2 ^ ?k * 2 ^ cnt + below div 2 ^ ?k"
  have h: "lshift_loop cnt below (a # as) = ?h # lshift_loop cnt a as"
    using or_add [OF lo, of "a mod 2 ^ ?k"] lt hi by (simp add: or.commute add.commute)
  have IH: "lval (lshift_loop cnt a as) + DIG_BASE ^ length as * (last (a # as) div 2 ^ ?k) =
      lval as * 2 ^ cnt + a div 2 ^ ?k" "limbs_ok (lshift_loop cnt a as)" "length (lshift_loop cnt a as) = length as"
    using 2 by simp_all
  have "?h + DIG_BASE * (lval as * 2 ^ cnt + a div 2 ^ ?k) =
      (a mod 2 ^ ?k + 2 ^ ?k * (a div 2 ^ ?k)) * 2 ^ cnt + below div 2 ^ ?k + DIG_BASE * (lval as * 2 ^ cnt)"
    unfolding base_split [OF 2(4)] by (simp only: algebra_simps)
  then show ?case using h lt IH(2,3) unfolding IH(1) [symmetric] by (simp add: algebra_simps)
qed simp

lemma mpn_lshift_val:
  assumes "limbs_ok xs" "xs \<noteq> []" "cnt \<le> DIG_SIZE"
  obtains r c where "mpn_lshift xs cnt = (r, c)" "limbs_ok (r @ [c])" "lval (r @ [c]) = lval xs * 2 ^ cnt"
proof -
  have l: "last xs < DIG_BASE" using assms(1,2) by (auto simp: limbs_ok_def)
  then have c: "last xs div 2 ^ (DIG_SIZE - cnt) < DIG_BASE" by (simp add: le_less_trans [OF div_le_dividend])
  show ?thesis using that [of "lshift_loop cnt 0 xs" "last xs div 2 ^ (DIG_SIZE - cnt)"]
    lshift_loop_val [OF assms(1) _ assms(3), of 0] assms(2) c by (simp add: mpn_lshift_def lval_append)
qed

section \<open>Shifts by powers of two\<close>

lemma with_sign_ok:
  assumes "limbs_ok (mp z)" "mp z = [] \<or> last (mp z) \<noteq> 0" "mnull z \<longrightarrow> mp z = []" "sn \<in> {-1, 0, 1}"
    "sn = 0 \<longrightarrow> lval (mp z) = 0"
  shows "mpz_canon (with_sign sn z)" "mpz_val (with_sign sn z) = sn * int (lval (mp z))"
proof -
  have "lval (mp z) = 0 \<longleftrightarrow> mp z = []"
    using assms(2) trim_limbs_Nil_iff [of "mp z"] trim_limbs_id [of "mp z"] by simp
  then show "mpz_canon (with_sign sn z)" "mpz_val (with_sign sn z) = sn * int (lval (mp z))"
    using assms by (auto simp: with_sign_def uzero_p_iff mpz_canon_def mpz_ok_def mpz_val_def)
qed

lemma trim_mp: "mp (trim z) = trim_limbs (mp z)" "mnull (trim z) = mnull z"
  by (simp_all add: trim_def Let_def)

lemma trim_with_sign:
  assumes "limbs_ok (mp z)" "mnull z \<longrightarrow> mp z = []" "sn \<in> {-1, 0, 1}" "sn = 0 \<longrightarrow> lval (mp z) = 0"
  shows "mpz_canon (with_sign sn (trim z)) \<and> mpz_val (with_sign sn (trim z)) = sn * int (lval (mp z))"
proof -
  have "trim_limbs (mp z) = [] \<or> last (trim_limbs (mp z)) \<noteq> 0" using trim_limbs_last by blast
  then show ?thesis using with_sign_ok [of "trim z" sn] assms unfolding trim_mp by auto
qed

lemma ulshift_limbs:
  assumes "limbs_ok (mp a)" "0 < lval (mp a)" "0 < n" "n \<le> DIG_SIZE"
  obtains z where "ulshift c1 a n = trim z" "limbs_ok (mp z)" "\<not> mnull z" "lval (mp z) = lval (mp a) * 2 ^ n"
proof -
  have "mp a \<noteq> []" using assms(2) by auto
  then obtain r c where r: "mpn_lshift (mp a) n = (r, c)" "limbs_ok (r @ [c])" "lval (r @ [c]) = lval (mp a) * 2 ^ n"
    using mpn_lshift_val [of "mp a" n] assms by metis
  show ?thesis using that [of "(mpz_init_heap (sz a + 1))\<lparr>mp := r @ [c]\<rparr>"] r assms by (simp add: ulshift_def uzero_p_iff)
qed

lemma zero_init [simp]: "zero mpz_init = mpz_init" "trim mpz_init = mpz_init"
  by (simp_all add: zero_def mpz_init_def trim_def Let_def sz_def)

lemma mpz_canon_simps:
  assumes "mpz_canon x"
  shows "limbs_ok (mp x)" "msn x \<in> {-1, 0, 1}" "msn x = 0 \<longleftrightarrow> mp x = []" "mp x = [] \<or> last (mp x) \<noteq> 0"
    "lval (mp x) = 0 \<longleftrightarrow> mp x = []" "mnull x \<longrightarrow> mp x = []" "mpz_ok x"
  using assms mpz_ok_pos [of x] by (auto simp: mpz_canon_def mpz_ok_def split: if_splits)

lemma mpz_mul_2exp_val:
  assumes "mpz_canon x" "sz x * DIG_SIZE + e \<le> MRB_BIGINT_BIT_LIMIT"
  shows "\<exists>r. mpz_mul_2exp mpz_init x e = Inr r \<and> mpz_canon r \<and> mpz_val r = mpz_val x * 2 ^ e"
proof (cases "e = 0")
  case True
  then show ?thesis using mpz_set_trim [of x mpz_init] assms(1) by (simp add: mpz_mul_2exp_def mpz_canon_simps)
next
  case False
  let ?d = "e div DIG_SIZE" and ?b = "e mod DIG_SIZE"
  let ?y = "(mpz_init_heap (sz x + ?d))\<lparr>mp := replicate ?d 0 @ mp x\<rparr>"
  note X = mpz_canon_simps [OF assms(1)]
  have "u64 (u64 (sz x * DIG_SIZE) + e) \<le> sz x * DIG_SIZE + e"
    unfolding u64_def by (rule order_trans [OF mod_less_eq_dividend]) simp
  then have "\<not> (e > MRB_BIGINT_BIT_LIMIT \<or> u64 (u64 (sz x * DIG_SIZE) + e) > MRB_BIGINT_BIT_LIMIT)"
    using assms(2) by linarith
  then have eq: "mpz_mul_2exp mpz_init x e =
      Inr (with_sign (msn x) (if ?b \<noteq> 0 then ulshift mpz_init ?y ?b else trim ?y))"
    using False by (simp add: mpz_mul_2exp_def Let_def)
  have pow: "2 ^ e = DIG_BASE ^ ?d * 2 ^ ?b"
    by (metis DIG_SIZE_power mult_div_mod_eq power_add power_mult)
  have y: "limbs_ok (mp ?y)" "lval (mp ?y) = DIG_BASE ^ ?d * lval (mp x)" "mnull ?y \<longrightarrow> mp ?y = []"
    using X(1) by (auto simp: lval_append mpz_init_heap_def sz_def)
  obtain w where w: "(if ?b \<noteq> 0 then ulshift mpz_init ?y ?b else trim ?y) = trim w" "limbs_ok (mp w)"
    "mnull w \<longrightarrow> mp w = []" "lval (mp w) = lval (mp ?y) * 2 ^ ?b"
  proof (cases "?b = 0 \<or> lval (mp ?y) = 0")
    case True
    then show ?thesis using that [of ?y] that [of mpz_init] y by (cases "?b = 0") (auto simp: ulshift_def uzero_p_iff)
  next
    case False
    have "?b \<le> DIG_SIZE" by (simp add: DIG_SIZE_def)
    then show ?thesis using ulshift_limbs [of ?y ?b mpz_init] y False that by (metis (no_types) neq0_conv)
  qed
  have "mpz_val x * int (2 ^ e) = msn x * int (lval (mp w))" unfolding w(4) y(2) pow by (simp add: mpz_val_def)
  then have "mpz_val x * 2 ^ e = msn x * int (lval (mp w))" by simp
  moreover have "msn x = 0 \<longrightarrow> lval (mp w) = 0" using X(3,5) w(4) y(2) by simp
  ultimately show ?thesis using eq w trim_with_sign [of w "msn x"] X(2) by auto
qed

lemma urshift_limbs:
  assumes "limbs_ok (mp a)" "n \<le> DIG_SIZE" "0 < n" "0 < lval (mp a)" "sz a \<le> sz c1" "\<not> mnull c1"
  obtains z where "urshift c1 a n = trim z" "limbs_ok (mp z)" "\<not> mnull z" "lval (mp z) = lval (mp a) div 2 ^ n"
proof -
  have "mpz_realloc c1 (sz a) = c1" using assms(5) by (simp add: mpz_realloc_def)
  then show ?thesis using that [of "c1\<lparr>mp := rshift_loop n (mp a)\<rparr>"] rshift_loop_val [OF assms(1,2)] assms
    by (simp add: urshift_def uzero_p_iff mpn_rshift_def)
qed

lemma lval_drop: "limbs_ok xs \<Longrightarrow> lval (drop k xs) = lval xs div DIG_BASE ^ k"
proof (cases "k \<le> length xs")
  case True
  assume "limbs_ok xs"
  then have "lval (take k xs) < DIG_BASE ^ k" using lval_less [of "take k xs"] True by (simp add: min_absorb2)
  then show ?thesis using lval_split [of xs k] True by (simp add: min_absorb1)
next
  case False
  assume "limbs_ok xs"
  then have "lval xs < DIG_BASE ^ k"
    using less_le_trans [OF lval_less power_increasing [of "length xs" k DIG_BASE]] False by simp
  then show ?thesis using False by simp
qed

lemma pow_split: "2 ^ e = DIG_BASE ^ (e div DIG_SIZE) * 2 ^ (e mod DIG_SIZE)"
  by (metis DIG_SIZE_power mult_div_mod_eq power_add power_mult)

text \<open>The right shift of the magnitude: truncation.\<close>

lemma mpz_div_2exp_val:
  assumes "mpz_canon x"
  shows "mpz_canon (mpz_div_2exp mpz_init x e) \<and>
    mpz_val (mpz_div_2exp mpz_init x e) = msn x * int (lval (mp x) div 2 ^ e)"
proof (cases "e = 0")
  case True
  have "mpz_dest (mpz_init_heap (sz x))" by (simp add: mpz_dest_def mpz_init_heap_def)
  then show ?thesis using True mpz_set_trim [of x "mpz_init_heap (sz x)"] assms
    by (simp add: mpz_div_2exp_def mpz_canon_simps(7)) (simp add: mpz_val_def)
next
  case False
  let ?d = "e div DIG_SIZE" and ?b = "e mod DIG_SIZE"
  note X = mpz_canon_simps [OF assms]
  have dv: "lval (mp x) div 2 ^ e = lval (drop ?d (mp x)) div 2 ^ ?b"
    unfolding pow_split [of e] lval_drop [OF X(1)] by (simp add: div_mult2_eq)
  show ?thesis
  proof (cases "?d \<ge> sz x")
    case True
    then have "lval (mp x) div 2 ^ e = 0" using dv by (simp add: sz_def)
    then show ?thesis using True False by (simp add: mpz_div_2exp_def Let_def) (simp add: mpz_val_def)
  next
    case lt: False
    let ?n = "sz x - ?d" and ?y = "(mpz_init_heap (sz x - ?d))\<lparr>mp := drop ?d (mp x)\<rparr>"
    have y: "limbs_ok (mp ?y)" "0 < lval (mp ?y)" "\<not> mnull ?y" "sz ?y = ?n"
    proof -
      have "drop ?d (mp x) \<noteq> []" "last (drop ?d (mp x)) = last (mp x)" using lt by (simp_all add: sz_def last_drop)
      then show "0 < lval (mp ?y)" using X(4) lval_last_pos [of "drop ?d (mp x)"] lt by (cases "mp x = []") (auto intro: Nat.gr0I)
    qed (use X lt in \<open>simp_all add: sz_def\<close>)
    have eq: "mpz_div_2exp mpz_init x e = with_sign (msn x) (if ?b \<noteq> 0 then urshift (mpz_init_heap ?n) ?y ?b else trim ?y)"
      using False lt by (simp add: mpz_div_2exp_def Let_def sz_def)
    obtain w where w: "(if ?b \<noteq> 0 then urshift (mpz_init_heap ?n) ?y ?b else trim ?y) = trim w" "limbs_ok (mp w)"
      "\<not> mnull w" "lval (mp w) = lval (mp x) div 2 ^ e"
    proof (cases "?b = 0")
      case True
      then show ?thesis using that [of ?y] y dv by simp
    next
      case False
      have "?b \<le> DIG_SIZE" "sz ?y \<le> sz (mpz_init_heap ?n)" "\<not> mnull (mpz_init_heap ?n)"
        using lt y(4) by (simp_all add: DIG_SIZE_def sz_def)
      then obtain w where "urshift (mpz_init_heap ?n) ?y ?b = trim w" "limbs_ok (mp w)" "\<not> mnull w"
        "lval (mp w) = lval (mp ?y) div 2 ^ ?b"
        using urshift_limbs [of ?y ?b "mpz_init_heap ?n"] y(1,2) False by (metis neq0_conv)
      then show ?thesis using that [of w] False dv by simp
    qed
    moreover have "msn x = 0 \<longrightarrow> lval (mp w) = 0" using X(3) w(4) by auto
    ultimately show ?thesis using eq trim_with_sign [of w "msn x"] X(2) by simp
  qed
qed

lemma and_mask_nat: "x AND (2 ^ n - 1) = x mod 2 ^ n" for x :: nat
  by (metis mask_eq_exp_minus_1 take_bit_eq_mask take_bit_eq_mod)

lemma lval_mod:
  assumes "limbs_ok xs" "d < length xs"
  shows "lval xs mod (DIG_BASE ^ d * 2 ^ b) = lval (take d xs) + DIG_BASE ^ d * (lval (drop d xs) mod 2 ^ b)"
proof -
  have "lval (take d xs) < DIG_BASE ^ d" using lval_less [of "take d xs"] assms by (simp add: min_absorb2)
  then show ?thesis using lval_split [of xs d] assms(2) by (simp add: min_absorb1 mod_mult2_eq)
qed

lemma drop_mod:
  assumes "d < length xs" "b \<le> DIG_SIZE"
  shows "lval (drop d xs) mod 2 ^ b = (xs ! d) mod 2 ^ b"
proof -
  have "drop d xs = xs ! d # drop (Suc d) xs" using assms(1) by (simp add: Cons_nth_drop_Suc)
  moreover have "DIG_BASE = 2 ^ b * 2 ^ (DIG_SIZE - b)" using assms(2) by (rule base_split)
  ultimately have "lval (drop d xs) = xs ! d + 2 ^ b * (2 ^ (DIG_SIZE - b) * lval (drop (Suc d) xs))" by simp
  then show ?thesis by simp
qed

lemma mpz_low_bits_set_val:
  assumes "limbs_ok (mp x)"
  shows "mpz_low_bits_set x e \<longleftrightarrow> lval (mp x) mod 2 ^ e \<noteq> 0"
proof -
  let ?d = "e div DIG_SIZE" and ?b = "e mod DIG_SIZE"
  have ex: "list_ex (\<lambda>l. l \<noteq> 0) l \<longleftrightarrow> lval l \<noteq> 0" for l by (induction l) auto
  have b: "?b \<le> DIG_SIZE" by (simp add: DIG_SIZE_def)
  show ?thesis
  proof (cases "?d < sz x")
    case True
    have "lval (mp x) mod 2 ^ e = lval (take ?d (mp x)) + DIG_BASE ^ ?d * ((mp x ! ?d) mod 2 ^ ?b)"
      unfolding pow_split [of e] using lval_mod [OF assms, of ?d ?b] drop_mod [of ?d "mp x" ?b] True b by (simp add: sz_def)
    moreover have "?b = 0 \<Longrightarrow> (mp x ! ?d) mod 2 ^ ?b = 0" by simp
    ultimately show ?thesis using True unfolding mpz_low_bits_set_def Let_def ex and_mask_nat by (cases "?b = 0") auto
  next
    case False
    have "lval (mp x) < DIG_BASE ^ ?d"
      using less_le_trans [OF lval_less [OF assms] power_increasing [of "length (mp x)" ?d DIG_BASE]] False by (simp add: sz_def)
    also have "\<dots> \<le> 2 ^ e" unfolding pow_split [of e] by simp
    finally show ?thesis using False unfolding mpz_low_bits_set_def Let_def ex by (simp add: sz_def)
  qed
qed

lemma floor_shift: "m > 0 \<Longrightarrow> (- int a) div int m = - int (a div m) - (if a mod m \<noteq> 0 then 1 else 0)"
  by (simp add: zdiv_zminus1_eq_if flip: of_nat_div of_nat_mod)

lemma shr_val:
  assumes "mpz_canon a"
  shows "mpz_canon (if msn a < 0 \<and> mpz_low_bits_set a e
      then sp_bigint_sub (mpz_div_2exp mpz_init a e) (sp_bigint_new_int 1) else mpz_div_2exp mpz_init a e) \<and>
    mpz_val (if msn a < 0 \<and> mpz_low_bits_set a e
      then sp_bigint_sub (mpz_div_2exp mpz_init a e) (sp_bigint_new_int 1) else mpz_div_2exp mpz_init a e) =
      mpz_val a div 2 ^ e"
proof -
  note X = mpz_canon_simps [OF assms] and D = mpz_div_2exp_val [OF assms, of e]
  have one: "mpz_canon (sp_bigint_new_int 1)" "mpz_val (sp_bigint_new_int 1) = 1"
    using mpz_set_int_val [of 1 mpz_init] by (simp_all add: sp_bigint_new_int_def mpz_init_set_int_def machine_int)
  have sub: "mpz_canon (sp_bigint_sub (mpz_div_2exp mpz_init a e) (sp_bigint_new_int 1))"
    "mpz_val (sp_bigint_sub (mpz_div_2exp mpz_init a e) (sp_bigint_new_int 1)) = mpz_val (mpz_div_2exp mpz_init a e) - 1"
    using mpz_sub_val [of "mpz_div_2exp mpz_init a e" "sp_bigint_new_int 1" mpz_init] D one
    by (simp_all add: sp_bigint_sub_def mpz_canon_simps(7))
  consider "msn a = -1" | "msn a = 0" | "msn a = 1" using X(2) by auto
  then show ?thesis
  proof cases
    case 1
    then show ?thesis using D sub mpz_low_bits_set_val [OF X(1), of e] floor_shift [of "2 ^ e" "lval (mp a)"]
      by (auto simp: mpz_val_def [of a])
  qed (use D in \<open>auto simp: mpz_val_def [of a] zdiv_int\<close>)
qed

text \<open>
  C20: A left or right shift of a number of any sign, by any count above the smallest 64-bit
  integer, is exact and canonical: a left shift by a positive and a right shift by a
  negative count multiply by the power of two, as long as the limbs of the number and the
  count stay within the limit on the size of a number, and a right shift by a positive and a
  left shift by a negative count divide by it and round down.
\<close>
theorem bigint_shift_exact:
  assumes "mpz_canon a" "in_i64 n" "n \<noteq> INT64_MIN" "2 \<le> calls"
  shows "(n \<le> 0 \<longrightarrow> (\<exists>r. sp_bigint_shl calls a n = Some (Inr r) \<and> mpz_canon r \<and> mpz_val r = mpz_val a div 2 ^ nat (- n))) \<and>
    (0 \<le> n \<longrightarrow> (\<exists>r. sp_bigint_shr calls a n = Some (Inr r) \<and> mpz_canon r \<and> mpz_val r = mpz_val a div 2 ^ nat n)) \<and>
    (0 \<le> n \<and> sz a * DIG_SIZE + nat n \<le> MRB_BIGINT_BIT_LIMIT \<longrightarrow>
      (\<exists>r. sp_bigint_shl calls a n = Some (Inr r) \<and> mpz_canon r \<and> mpz_val r = mpz_val a * 2 ^ nat n)) \<and>
    (n \<le> 0 \<and> sz a * DIG_SIZE + nat (- n) \<le> MRB_BIGINT_BIT_LIMIT \<longrightarrow>
      (\<exists>r. sp_bigint_shr calls a n = Some (Inr r) \<and> mpz_canon r \<and> mpz_val r = mpz_val a * 2 ^ nat (- n)))"
proof -
  let ?R = "\<lambda>e. if msn a < 0 \<and> mpz_low_bits_set a e
    then sp_bigint_sub (mpz_div_2exp mpz_init a e) (sp_bigint_new_int 1) else mpz_div_2exp mpz_init a e"
  obtain c where c: "calls = Suc (Suc c)" using assms(4) less_eqE [of 2 calls] by auto
  have w: "n < 0 \<Longrightarrow> wrap_i64 (- n) = - n" using assms(2,3) by (intro wrap_i64_id) (auto simp: machine_int)
  have shr: "0 \<le> n \<Longrightarrow> sp_bigint_shr calls a n = Some (Inr (?R (nat n)))"
    by (simp add: sp_bigint_shr_def c Let_def)
  have shl: "0 \<le> n \<Longrightarrow> sp_bigint_shl calls a n = Some (mpz_mul_2exp mpz_init a (nat n))"
    by (simp add: sp_bigint_shl_def c)
  have neg: "n < 0 \<Longrightarrow> sp_bigint_shl calls a n = Some (Inr (?R (nat (- n))))"
    using w by (simp add: sp_bigint_shl_def c Let_def)
  have pos: "n < 0 \<Longrightarrow> sp_bigint_shr calls a n = Some (mpz_mul_2exp mpz_init a (nat (- n)))"
    using w by (simp add: sp_bigint_shr_def c Let_def)
  have z: "\<exists>r. mpz_mul_2exp mpz_init a 0 = Inr r \<and> mpz_canon r \<and> mpz_val r = mpz_val a"
    using mpz_set_trim [OF mpz_canon_simps(7) [OF assms(1)], of mpz_init] by (simp add: mpz_mul_2exp_def)
  show ?thesis
  proof (intro conjI impI)
    assume "n \<le> 0"
    then show "\<exists>r. sp_bigint_shl calls a n = Some (Inr r) \<and> mpz_canon r \<and> mpz_val r = mpz_val a div 2 ^ nat (- n)"
      using shl neg z shr_val [OF assms(1), of "nat (- n)"] by (cases "n = 0") auto
  next
    assume "n \<le> 0 \<and> sz a * DIG_SIZE + nat (- n) \<le> MRB_BIGINT_BIT_LIMIT"
    then show "\<exists>r. sp_bigint_shr calls a n = Some (Inr r) \<and> mpz_canon r \<and> mpz_val r = mpz_val a * 2 ^ nat (- n)"
      using shr pos shr_val [OF assms(1), of 0] mpz_mul_2exp_val [OF assms(1), of "nat (- n)"] by (cases "n = 0") auto
  qed (use shr shl shr_val [OF assms(1), of "nat n"] mpz_mul_2exp_val [OF assms(1), of "nat n"] in auto)
qed

theorem bigint_shift_exact_witness:
  "\<exists>r. sp_bigint_shr 2 (sp_bigint_new_int (- 7)) 1 = Some (Inr r) \<and> mpz_val r = - 4"
proof -
  let ?a = "sp_bigint_new_int (- 7)"
  have a: "mpz_canon ?a" "mpz_val ?a = - 7"
    by (simp_all add: sp_bigint_new_int_def mpz_init_set_int_def mpz_set_int_def machine_int Let_def
      mpz_realloc_def mpz_init_def sz_def mpz_canon_def mpz_ok_def mpz_val_def u32_def DIG_BASE_def)
  have "in_i64 1" "1 \<noteq> INT64_MIN" by (simp_all add: machine_int)
  then show ?thesis using bigint_shift_exact [of ?a 1 2, OF a(1)] a(2) by auto
qed


section \<open>Bitwise operations are those of two's complement\<close>

text \<open>
  What an operation on limbs and the operation on integers have to do with each other: one limb
  of the integer operation is the limb operation, and the infinite sign extensions combine to a
  sign extension.
\<close>

locale bitwise_op =
  fixes f :: "nat \<Rightarrow> nat \<Rightarrow> nat" and F :: "int \<Rightarrow> int \<Rightarrow> int"
  assumes step: "a < DIG_BASE \<Longrightarrow> b < DIG_BASE \<Longrightarrow>
      F (int a + int DIG_BASE * X) (int b + int DIG_BASE * Y) = int (f a b) + int DIG_BASE * F X Y"
    and limb: "a < DIG_BASE \<Longrightarrow> b < DIG_BASE \<Longrightarrow> f a b < DIG_BASE"
begin

text \<open>The integer an operand still stands for in the walk.\<close>

definition view :: "bool \<Rightarrow> nat list \<Rightarrow> bool \<Rightarrow> int" where
  "view neg xs c = (if neg then - int (lval xs) - 1 + of_bool c else int (lval xs))"

lemma comp_view:
  assumes "x < DIG_BASE" "comp_if neg x c = (v, c')"
  shows "v < DIG_BASE \<and> view neg (x # xs) c = int v + int DIG_BASE * view neg xs c'"
proof (cases neg)
  case True
  let ?t = "DIG_BASE - 1 - x + of_bool c"
  have v: "v = u32 ?t" "c' = (v = 0 \<and> c)" using assms(2) True by (auto simp: comp_if_def make_2comp_def Let_def)
  show ?thesis
  proof (cases "x = 0 \<and> c")
    case True
    then have "v = 0" "c'" using v by (simp_all add: u32_def DIG_BASE_def)
    then show ?thesis using \<open>neg\<close> True by (simp add: view_def algebra_simps)
  next
    case False
    then have t: "?t < DIG_BASE" "int ?t = int DIG_BASE - 1 - int x + of_bool c" using assms(1) by auto
    then have "v = ?t" "\<not> c'" using v False assms(1) by auto
    then show ?thesis using t \<open>neg\<close> by (simp add: view_def algebra_simps)
  qed
qed (use assms in \<open>simp add: comp_if_def view_def\<close>)

lemma view_tl: "view neg ((case xs of [] \<Rightarrow> 0 | x # _ \<Rightarrow> x) # tl xs) c = view neg xs c"
  by (cases xs) (simp_all add: view_def)

lemma walk_div: "x < DIG_BASE \<Longrightarrow> (int x + int DIG_BASE * V) div int DIG_BASE ^ Suc n = V div int DIG_BASE ^ n"
  by (simp add: zdiv_zmult2_eq)

lemma bit_walk_val:
  assumes "limbs_ok xs" "limbs_ok ys" "bit_walk f xneg yneg zneg n xs ys c1 c2 c3 = (r, k)"
  shows "length r = n \<and> limbs_ok r \<and> (let X = view xneg xs c1; Y = view yneg ys c2;
      E = F (X div int DIG_BASE ^ n) (Y div int DIG_BASE ^ n) in
    (if zneg then - F X Y - 1 + of_bool c3 = int (lval r) + int DIG_BASE ^ n * (- E - 1 + of_bool k)
     else F X Y = int (lval r) + int DIG_BASE ^ n * E))"
  using assms
proof (induction n arbitrary: xs ys c1 c2 c3 r k)
  case 0
  then show ?case by (auto simp: Let_def)
next
  case (Suc n)
  let ?x = "case xs of [] \<Rightarrow> 0 | x # _ \<Rightarrow> x" and ?y = "case ys of [] \<Rightarrow> 0 | y # _ \<Rightarrow> y"
  obtain xv e1 yv e2 zv e3 r' where ev: "comp_if xneg ?x c1 = (xv, e1)" "comp_if yneg ?y c2 = (yv, e2)"
    "comp_if zneg (f xv yv) c3 = (zv, e3)" "bit_walk f xneg yneg zneg n (tl xs) (tl ys) e1 e2 e3 = (r', k)" "r = zv # r'"
    using Suc.prems(3) by (auto simp: Let_def split: prod.splits)
  have lx: "?x < DIG_BASE" "?y < DIG_BASE" "limbs_ok (tl xs)" "limbs_ok (tl ys)"
    using Suc.prems(1,2) by (cases xs; cases ys; simp)+
  define X where "X = view xneg (tl xs) e1"
  define Y where "Y = view yneg (tl ys) e2"
  have x: "xv < DIG_BASE" "view xneg xs c1 = int xv + int DIG_BASE * X"
    using comp_view [OF lx(1) ev(1), of "tl xs"] view_tl [of xneg xs c1] by (simp_all add: X_def)
  have y: "yv < DIG_BASE" "view yneg ys c2 = int yv + int DIG_BASE * Y"
    using comp_view [OF lx(2) ev(2), of "tl ys"] view_tl [of yneg ys c2] by (simp_all add: Y_def)
  have W: "F (view xneg xs c1) (view yneg ys c2) = int (f xv yv) + int DIG_BASE * F X Y"
    unfolding x(2) y(2) using step [OF x(1) y(1)] .
  have fl: "f xv yv < DIG_BASE" using limb [OF x(1) y(1)] .
  have Z: "zv < DIG_BASE" "zneg \<Longrightarrow> - int (f xv yv) - 1 + of_bool c3 = int zv + int DIG_BASE * (- 1 + of_bool e3)"
    "\<not> zneg \<Longrightarrow> zv = f xv yv"
    using comp_view [OF fl ev(3), of "[]"] ev(3) by (auto simp: view_def comp_if_def)
  define E where "E = F (X div int DIG_BASE ^ n) (Y div int DIG_BASE ^ n)"
  have E: "F (view xneg xs c1 div int DIG_BASE ^ Suc n) (view yneg ys c2 div int DIG_BASE ^ Suc n) = E"
    unfolding E_def x(2) y(2) walk_div [OF x(1)] walk_div [OF y(1)] ..
  have IH: "length r' = n" "limbs_ok r'"
    "if zneg then - F X Y - 1 + of_bool e3 = int (lval r') + int DIG_BASE ^ n * (- E - 1 + of_bool k)
     else F X Y = int (lval r') + int DIG_BASE ^ n * E"
    using Suc.IH [OF lx(3,4) ev(4)] by (simp_all add: Let_def X_def Y_def E_def)
  have "if zneg then - F (view xneg xs c1) (view yneg ys c2) - 1 + of_bool c3 =
      int (lval r) + int DIG_BASE ^ Suc n * (- E - 1 + of_bool k)
    else F (view xneg xs c1) (view yneg ys c2) = int (lval r) + int DIG_BASE ^ Suc n * E"
  proof (cases zneg)
    case True
    then have i: "- F X Y - 1 + of_bool e3 = int (lval r') + int DIG_BASE ^ n * (- E - 1 + of_bool k)" using IH(3) by simp
    have "- F (view xneg xs c1) (view yneg ys c2) - 1 + of_bool c3 = int zv + int DIG_BASE * (- F X Y - 1 + of_bool e3)"
      unfolding W using Z(2) [OF True] by (simp add: algebra_simps)
    then show ?thesis using True unfolding i ev(5) by (simp add: algebra_simps)
  next
    case False
    then have i: "F X Y = int (lval r') + int DIG_BASE ^ n * E" using IH(3) by simp
    show ?thesis using False Z(3) unfolding W i ev(5) by (simp add: algebra_simps)
  qed
  then show ?case unfolding Let_def E using IH(1,2) ev(5) Z(1) by simp
qed

text \<open>The slow path: the sign of the result is the operation on the two signs.\<close>

lemma bit_slow_val:
  assumes "mpz_canon x" "mpz_canon y" "\<not> zero_p x" "\<not> zero_p y" "zsn \<in> {-1, 1}"
    "F (if msn x < 0 then - 1 else 0) (if msn y < 0 then - 1 else 0) = (if zsn < 0 then - 1 else 0)"
  shows "mpz_canon (bit_slow f zsn x y) \<and> mpz_val (bit_slow f zsn x y) = F (mpz_val x) (mpz_val y)"
proof -
  note X = mpz_canon_simps [OF assms(1)] and Y = mpz_canon_simps [OF assms(2)]
  define n where "n = (if sz x > sz y then sz x else sz y)"
  have len: "length (mp x) \<le> n" "length (mp y) \<le> n" "0 < n" using X(3) assms(3) by (auto simp: n_def sz_def zero_p_def)
  obtain r k where r: "bit_walk f (msn x < 0) (msn y < 0) (zsn < 0) n (mp x) (mp y) True True True = (r, k)"
    by (cases "bit_walk f (msn x < 0) (msn y < 0) (zsn < 0) n (mp x) (mp y) True True True")
  have v: "view (msn u < 0) (mp u) True = mpz_val u" if "mpz_canon u" for u
    using mpz_canon_simps [OF that] by (auto simp: view_def mpz_val_def)
  have e: "mpz_val u div int DIG_BASE ^ n = (if msn u < 0 then - 1 else 0)" if "mpz_canon u" "length (mp u) \<le> n" "\<not> zero_p u" for u
  proof -
    note U = mpz_canon_simps [OF that(1)]
    have "lval (mp u) < DIG_BASE ^ n"
      using less_le_trans [OF lval_less [OF U(1)] power_increasing [OF that(2), of DIG_BASE]] by simp
    then have lt: "int (lval (mp u)) < int DIG_BASE ^ n" by (metis of_nat_less_iff of_nat_power)
    have pos: "0 < int (lval (mp u))" using U(3,5) that(3) by (auto simp: zero_p_def)
    show ?thesis
    proof (cases "msn u < 0")
      case True
      then have "mpz_val u = - int (lval (mp u))" using U(2) by (auto simp: mpz_val_def)
      moreover have "- int (lval (mp u)) div int DIG_BASE ^ n = - 1"
        using lt pos by (intro div_eq_minus1 int_div_pos_eq [where r = "int DIG_BASE ^ n - int (lval (mp u))"]) auto
      ultimately show ?thesis using True by simp
    next
      case False
      then have "mpz_val u = int (lval (mp u))" using U(2,3) that(3) by (auto simp: mpz_val_def zero_p_def)
      then show ?thesis using False lt by (simp add: div_pos_pos_trivial)
    qed
  qed
  have W: "length r = n" "limbs_ok r" and val: "if zsn < 0 then - F (mpz_val x) (mpz_val y) = int (lval r) + int DIG_BASE ^ n * of_bool k
      else F (mpz_val x) (mpz_val y) = int (lval r)"
    using bit_walk_val [OF X(1) Y(1) r] unfolding Let_def v [OF assms(1)] v [OF assms(2)]
      e [OF assms(1) len(1) assms(3)] e [OF assms(2) len(2) assms(4)] assms(6) by auto
  let ?r = "if zsn < 0 \<and> k then r @ [1] else r"
  have ok: "limbs_ok ?r" using W(2) by simp
  have eq: "bit_slow f zsn x y = trim ((mpz_init_heap n)\<lparr>mp := ?r, msn := zsn\<rparr>)"
    unfolding bit_slow_def Let_def n_def [symmetric] r by (cases "mpz_init_heap n") simp
  have "F (mpz_val x) (mpz_val y) = zsn * int (lval ?r)"
    using val W(1) assms(5) by (auto simp: lval_append split: if_splits)
  then show ?thesis using trim_result [OF ok, of "mpz_init_heap n" zsn] assms(5) len(3) eq by auto
qed

text \<open>The fast paths: the common limbs, then what is above them.\<close>

lemma map2_val:
  assumes "length xs = length ys" "limbs_ok xs" "limbs_ok ys"
  shows "F (int (lval (xs @ us))) (int (lval (ys @ vs))) =
    int (lval (map2 f xs ys)) + int DIG_BASE ^ length xs * F (int (lval us)) (int (lval vs)) \<and> limbs_ok (map2 f xs ys)"
  using assms
proof (induction xs ys rule: list_induct2)
  case (Cons x xs y ys)
  have "F (int (lval ((x # xs) @ us))) (int (lval ((y # ys) @ vs))) =
      int (f x y) + int DIG_BASE * F (int (lval (xs @ us))) (int (lval (ys @ vs)))"
    using step [of x y "int (lval (xs @ us))" "int (lval (ys @ vs))"] Cons.prems by simp
  then show ?case using Cons limb by (simp add: algebra_simps)
qed simp

lemma bit_fast_val:
  assumes "mpz_canon x" "mpz_canon y" "0 < msn x" "0 < msn y" "\<And>v. F 0 v = v" "\<And>v. F v 0 = v"
  shows "mpz_canon (bit_fast f x y) \<and> mpz_val (bit_fast f x y) = F (mpz_val x) (mpz_val y)"
proof -
  note X = mpz_canon_simps [OF assms(1)] and Y = mpz_canon_simps [OF assms(2)]
  let ?m = "if sz x < sz y then sz x else sz y" and ?M = "if sz x > sz y then sz x else sz y"
  let ?h = "if sz x > sz y then drop ?m (mp x) else drop ?m (mp y)"
  let ?r = "map2 f (take ?m (mp x)) (take ?m (mp y)) @ ?h"
  have m: "length (take ?m (mp x)) = length (take ?m (mp y))" "length (take ?m (mp x)) = ?m" by (simp_all add: sz_def)
  have lx: "limbs_ok (take ?m (mp x))" "limbs_ok (take ?m (mp y))" "limbs_ok ?h" using X(1) Y(1) by simp_all
  have h: "F (int (lval (drop ?m (mp x)))) (int (lval (drop ?m (mp y)))) = int (lval ?h)"
    using assms(5,6) by (simp add: sz_def)
  have pos: "msn x = 1" "msn y = 1" using X(2) Y(2) assms(3,4) by auto
  have v: "F (mpz_val x) (mpz_val y) = 1 * int (lval ?r)" "limbs_ok ?r"
    using map2_val [OF m(1) lx(1,2), of "drop ?m (mp x)" "drop ?m (mp y)"] lx(3) pos m unfolding h
    by (simp_all add: mpz_val_def lval_append)
  have "0 < ?M" using X(3) assms(3) by (cases "mp x") (auto simp: sz_def)
  then have "\<not> mnull (mpz_init_heap ?M)" by simp
  moreover have "bit_fast f x y = trim ((mpz_init_heap ?M)\<lparr>mp := ?r, msn := 1\<rparr>)" by (simp only: bit_fast_def Let_def)
  ultimately show ?thesis using trim_result [OF v(2), of "mpz_init_heap ?M" 1] v(1) by simp
qed

end

text \<open>A limb below an integer, as bits.\<close>

lemma limb_bits:
  assumes "a < DIG_BASE"
  shows "bit (int a + int DIG_BASE * X) n \<longleftrightarrow> (if n < 32 then bit a n else bit X (n - 32))"
proof -
  have a: "int a = take_bit 32 (int a)" using assms by (simp add: take_bit_int_eq_self DIG_BASE_def)
  have "int a + int DIG_BASE * X = take_bit 32 (int a) + push_bit 32 X"
    unfolding a [symmetric] by (simp add: push_bit_eq_mult DIG_BASE_def)
  also have "\<dots> = take_bit 32 (int a) OR push_bit 32 X" by (rule disjunctive_add) (auto simp: bit_simps)
  finally show ?thesis by (auto simp: bit_simps)
qed

lemma nat_op_less: "a < DIG_BASE \<Longrightarrow> b < DIG_BASE \<Longrightarrow> a AND b < DIG_BASE"
  "a < DIG_BASE \<Longrightarrow> b < DIG_BASE \<Longrightarrow> a OR b < DIG_BASE" "a < DIG_BASE \<Longrightarrow> b < DIG_BASE \<Longrightarrow> a XOR b < DIG_BASE"
proof -
  assume "a < DIG_BASE" "b < DIG_BASE"
  then have t: "take_bit 32 a = a" "take_bit 32 b = b" by (simp_all add: take_bit_nat_eq_self DIG_BASE_def)
  have "take_bit 32 (a AND b) = a AND b" "take_bit 32 (a OR b) = a OR b" "take_bit 32 (a XOR b) = a XOR b"
    by (simp_all add: t)
  then show "a AND b < DIG_BASE" "a OR b < DIG_BASE" "a XOR b < DIG_BASE"
    by (metis DIG_BASE_def take_bit_nat_less_exp)+
qed

interpretation land: bitwise_op "(AND)" "(AND)"
  by unfold_locales (auto simp: nat_op_less limb_bits bit_simps intro!: bit_eqI)

interpretation lor: bitwise_op "(OR)" "(OR)"
  by unfold_locales (auto simp: nat_op_less limb_bits bit_simps intro!: bit_eqI)

interpretation lxor: bitwise_op "(XOR)" "(XOR)"
  by unfold_locales (auto simp: nat_op_less limb_bits bit_simps intro!: bit_eqI)

lemma canon_pos_val: "mpz_canon x \<Longrightarrow> 0 < msn x \<Longrightarrow> mpz_val x = int (lval (mp x)) \<and> 0 < sz x"
  using mpz_canon_simps [of x] by (auto simp: mpz_val_def sz_def)

lemma mpz_and_val:
  assumes "mpz_canon x" "mpz_canon y"
  shows "mpz_canon (mpz_and x y) \<and> mpz_val (mpz_and x y) = mpz_val x AND mpz_val y"
proof -
  consider "zero_p x \<or> zero_p y" | "\<not> zero_p x" "\<not> zero_p y" "msn x > 0 \<and> msn y > 0"
    | "\<not> zero_p x" "\<not> zero_p y" "\<not> (msn x > 0 \<and> msn y > 0)" by blast
  then show ?thesis
  proof cases
    case 1
    then show ?thesis by (auto simp: mpz_and_def zero_p_def mpz_val_def)
  next
    case 2
    let ?m = "if sz x < sz y then sz x else sz y"
    let ?r = "map2 (AND) (take ?m (mp x)) (take ?m (mp y))"
    note P = canon_pos_val [OF assms(1)] canon_pos_val [OF assms(2)]
    have m: "length (take ?m (mp x)) = length (take ?m (mp y))" by (simp add: sz_def)
    have lx: "limbs_ok (take ?m (mp x))" "limbs_ok (take ?m (mp y))" using assms by (simp_all add: mpz_canon_simps(1))
    have "lval (drop ?m (mp x)) = 0 \<or> lval (drop ?m (mp y)) = 0" by (simp add: sz_def)
    then have v: "mpz_val x AND mpz_val y = int (lval ?r)" "limbs_ok ?r"
      using land.map2_val [OF m lx, of "drop ?m (mp x)" "drop ?m (mp y)"] P 2(3) by auto
    have "mpz_and x y = trim ((mpz_init_heap ?m)\<lparr>mp := ?r, msn := 1\<rparr>)" using 2 by (simp add: mpz_and_def Let_def)
    moreover have "\<not> mnull (mpz_init_heap ?m)" using P 2(3) by simp
    ultimately show ?thesis using trim_result [OF v(2), of "mpz_init_heap ?m" 1] v(1) by simp
  next
    case 3
    then have "mpz_and x y = bit_slow (AND) (if msn x < 0 \<and> msn y < 0 then - 1 else 1) x y"
      unfolding mpz_and_def by (simp only: simp_thms if_False)
    then show ?thesis using land.bit_slow_val [OF assms 3(1,2)] by auto
  qed
qed

text \<open>\<^verbatim>\<open>|\<close> and \<^verbatim>\<open>^\<close> with zero are the other operand.\<close>

lemma zero_p_val: "zero_p x \<Longrightarrow> mpz_val x = 0"
  by (simp add: zero_p_def mpz_val_def)

lemma copy_val: "mpz_canon x \<Longrightarrow> mpz_canon (trim (mpz_set (mpz_init_heap (sz x)) x)) \<and>
    mpz_val (trim (mpz_set (mpz_init_heap (sz x)) x)) = mpz_val x"
  using mpz_set_trim [of x "mpz_init_heap (sz x)"] by (simp add: mpz_canon_simps(7) mpz_dest_def mpz_init_heap_def)

lemma mpz_or_val:
  assumes "mpz_canon x" "mpz_canon y"
  shows "mpz_canon (mpz_or x y) \<and> mpz_val (mpz_or x y) = mpz_val x OR mpz_val y"
proof -
  consider "zero_p x \<or> zero_p y" | "\<not> zero_p x" "\<not> zero_p y" "msn x > 0 \<and> msn y > 0"
    | "\<not> zero_p x" "\<not> zero_p y" "\<not> (msn x > 0 \<and> msn y > 0)" by blast
  then show ?thesis
  proof cases
    case 1
    then show ?thesis using copy_val [OF assms(1)] copy_val [OF assms(2)] zero_p_val [of x] zero_p_val [of y]
      by (cases "zero_p x") (simp_all add: mpz_or_def)
  next
    case 2
    then show ?thesis using lor.bit_fast_val [OF assms] by (simp add: mpz_or_def)
  next
    case 3
    then have "mpz_or x y = bit_slow (OR) (if msn x = msn y then msn x else - 1) x y"
      unfolding mpz_or_def by (simp only: simp_thms if_False)
    moreover have "msn x \<in> {-1, 1}" "msn y \<in> {-1, 1}"
      using mpz_canon_simps(2) [OF assms(1)] mpz_canon_simps(2) [OF assms(2)] 3(1,2) by (auto simp: zero_p_def)
    ultimately show ?thesis using lor.bit_slow_val [OF assms 3(1,2), of "if msn x = msn y then msn x else - 1"] 3(3) by auto
  qed
qed

lemma mpz_xor_val:
  assumes "mpz_canon x" "mpz_canon y"
  shows "mpz_canon (mpz_xor x y) \<and> mpz_val (mpz_xor x y) = mpz_val x XOR mpz_val y"
proof -
  consider "zero_p x \<or> zero_p y" | "\<not> zero_p x" "\<not> zero_p y" "msn x > 0 \<and> msn y > 0"
    | "\<not> zero_p x" "\<not> zero_p y" "\<not> (msn x > 0 \<and> msn y > 0)" by blast
  then show ?thesis
  proof cases
    case 1
    then show ?thesis using copy_val [OF assms(1)] copy_val [OF assms(2)] zero_p_val [of x] zero_p_val [of y]
      by (cases "zero_p x") (simp_all add: mpz_xor_def)
  next
    case 2
    then show ?thesis using lxor.bit_fast_val [OF assms] by (simp add: mpz_xor_def)
  next
    case 3
    then have "mpz_xor x y = bit_slow (XOR) (if msn x = msn y then 1 else - 1) x y"
      unfolding mpz_xor_def by (simp only: simp_thms if_False)
    moreover have "msn x \<in> {-1, 1}" "msn y \<in> {-1, 1}"
      using mpz_canon_simps(2) [OF assms(1)] mpz_canon_simps(2) [OF assms(2)] 3(1,2) by (auto simp: zero_p_def)
    ultimately show ?thesis using lxor.bit_slow_val [OF assms 3(1,2), of "if msn x = msn y then 1 else - 1"] by auto
  qed
qed

text \<open>
  C16: and, or and xor of two numbers of any sign are those of the infinite two's complement
  representations.
\<close>
theorem bigint_bitwise_exact:
  assumes "mpz_canon x" "mpz_canon y"
  shows "mpz_canon (sp_bigint_and (Some x) (Some y)) \<and> mpz_val (sp_bigint_and (Some x) (Some y)) = mpz_val x AND mpz_val y \<and>
    mpz_canon (sp_bigint_or (Some x) (Some y)) \<and> mpz_val (sp_bigint_or (Some x) (Some y)) = mpz_val x OR mpz_val y \<and>
    mpz_canon (sp_bigint_xor (Some x) (Some y)) \<and> mpz_val (sp_bigint_xor (Some x) (Some y)) = mpz_val x XOR mpz_val y \<and>
    mpz_canon (sp_bigint_not x) \<and> mpz_val (sp_bigint_not x) = NOT (mpz_val x)"
proof -
  have i: "mpz_ok (sp_bigint_new_int v)" "mpz_val (sp_bigint_new_int v) = v" if "in_i64 v" for v
    using mpz_set_int_val [OF that, of mpz_init] by (simp_all add: sp_bigint_new_int_def mpz_init_set_int_def mpz_canon_def)
  have 0: "in_i64 0" "in_i64 1" by (simp_all add: machine_int)
  have s: "mpz_ok (mpz_sub mpz_init (sp_bigint_new_int 0) x)" "mpz_val (mpz_sub mpz_init (sp_bigint_new_int 0) x) = - mpz_val x"
    using mpz_sub_val [of "sp_bigint_new_int 0" x mpz_init] i [OF 0(1)] mpz_canon_simps(7) [OF assms(1)]
    by (simp_all add: mpz_canon_def)
  have n: "mpz_canon (sp_bigint_not x)" "mpz_val (sp_bigint_not x) = - mpz_val x - 1"
    using mpz_sub_val [OF s(1) i(1) [OF 0(2)], of mpz_init] s(2) i(2) [OF 0(2)]
    by (simp_all add: sp_bigint_not_def sp_bigint_sub_def)
  show ?thesis using mpz_and_val [OF assms] mpz_or_val [OF assms] mpz_xor_val [OF assms] n
    by (simp add: sp_bigint_and_def sp_bigint_or_def sp_bigint_xor_def bigint_or_zero_def not_eq_complement)
qed

theorem bigint_bitwise_exact_witness:
  "mpz_val (sp_bigint_and (Some (sp_bigint_new_int (- 4))) (Some (sp_bigint_new_int 6))) = 4 \<and>
   mpz_val (sp_bigint_xor (Some (sp_bigint_new_int (- 4))) (Some (sp_bigint_new_int 6))) = - 6"
proof -
  have "mpz_canon (sp_bigint_new_int v) \<and> mpz_val (sp_bigint_new_int v) = v" if "in_i64 v" for v
    using mpz_set_int_val [OF that, of mpz_init] by (simp add: sp_bigint_new_int_def mpz_init_set_int_def)
  moreover have "in_i64 (- 4)" "in_i64 6" by (simp_all add: machine_int)
  ultimately show ?thesis
    using bigint_bitwise_exact [of "sp_bigint_new_int (- 4)" "sp_bigint_new_int 6"] by simp
qed

end
