(* ===== verification/BigToom.thy ===== *)
theory BigToom
  imports BigKara BigShift
begin

unbundle bit_operations_syntax

text \<open>
  The three-way Toom-Cook product and square on raw limb arrays (\<^verbatim>\<open>lib/sp_bigint.c\<close>): the operands are
  cut into three parts, evaluated at 0, 1, -1, 2 and infinity, multiplied point by point, and the five
  coefficients of the product recovered from the five values.

  As in \<open>BigKara\<close>, the length of the scratch array is part of the model and None is a write outside
  an array. A recursive call writes \<open>2 * n + 24\<close> limbs, which is more than the \<open>prod_len\<close> limbs its
  caller sets aside: the five products are therefore kept as the one area they are, in which a product
  runs over into the next one, and the last one into the scratch space of the recursive calls, which
  is not read again before it is written. The theorem shows that all that runs over is zeros.
\<close>

section \<open>Limb routines\<close>

definition TOOM3_THRESHOLD :: nat where
  "TOOM3_THRESHOLD = 100"

definition should_use_toom3 :: "nat \<Rightarrow> bool" where
  "should_use_toom3 n \<longleftrightarrow> n \<ge> TOOM3_THRESHOLD"

function toom3_scratch_size :: "nat \<Rightarrow> nat" where
  "toom3_scratch_size n =
     (if \<not> should_use_toom3 n then (if should_use_karatsuba n then karatsuba_scratch_size n else 0)
      else let third = n div 3; eval_len = third + 3; prod_len = 2 * eval_len + 16;
               eval_size = 6 * eval_len; prod_size = 5 * prod_len; interp_size = 4 * prod_len;
               current_level = eval_size + prod_size;
               sub_scratch = toom3_scratch_size eval_len;
               sub_scratch = (if sub_scratch < interp_size then interp_size else sub_scratch)
           in current_level + sub_scratch + 8)"
  by pat_completeness auto

termination
  by (relation "measure id") (auto simp: should_use_toom3_def TOOM3_THRESHOLD_def)

declare toom3_scratch_size.simps [simp del]

text \<open>The right shift by one bit walks down from the most significant limb.\<close>

fun rshift1_loop :: "nat \<Rightarrow> nat list \<Rightarrow> nat list \<times> nat" where
  "rshift1_loop carry [] = ([], carry)"
| "rshift1_loop carry (a # as) =
     (let (r, c) = rshift1_loop (a AND 1) as in (((a div 2) OR u32 (carry * 2 ^ (DIG_SIZE - 1))) # r, c))"

definition mpn_rshift1 :: "nat list \<Rightarrow> nat list \<times> nat" where
  "mpn_rshift1 ap = (let (r, carry) = rshift1_loop 0 (rev ap) in (rev r, carry))"

text \<open>Exact division by 3, through the inverse of 3 modulo \<open>2 ^ 32\<close>.\<close>

fun divexact_3_loop :: "nat \<Rightarrow> nat list \<Rightarrow> nat list" where
  "divexact_3_loop borrow [] = []"
| "divexact_3_loop borrow (old_a # as) =
     (let a = LOWs (int old_a - int borrow); q = u32 (a * 0xAAAAAAAB); prod = u64 (q * 3);
          borrow = u32 (prod div 2 ^ DIG_SIZE);
          borrow = (if u32 prod > old_a then u32 (borrow + 1) else borrow)
      in q # divexact_3_loop borrow as)"

definition mpn_divexact_3 :: "nat list \<Rightarrow> nat list" where
  "mpn_divexact_3 ap = divexact_3_loop 0 ap"

definition mpn_add_var :: "nat list \<Rightarrow> nat list \<Rightarrow> nat \<Rightarrow> nat list \<times> nat" where
  "mpn_add_var ap bp rn =
     (let min_n = (if length ap < length bp then length ap else length bp);
          (r1, c1) = add_n_loop 0 (take min_n ap) (take min_n bp);
          (r2, c2) = carry_loop c1 (drop min_n (if length ap > length bp then ap else bp));
          left = rn - length (r1 @ r2)
      in if left = 0 then (r1 @ r2, c2) else (r1 @ r2 @ c2 # replicate (left - 1) 0, 0))"

text \<open>The limbs past the end of an operand count as 0.\<close>

fun sub_var_loop :: "nat \<Rightarrow> int \<Rightarrow> nat list \<Rightarrow> nat list \<Rightarrow> nat list \<times> int" where
  "sub_var_loop 0 borrow ap bp = ([], borrow)"
| "sub_var_loop (Suc n) borrow ap bp =
     (let a = (case ap of [] \<Rightarrow> 0 | a # _ \<Rightarrow> a); b = (case bp of [] \<Rightarrow> 0 | b # _ \<Rightarrow> b);
          t = wrap_i64 (borrow + (int a - int b)); (r, k) = sub_var_loop n (HIGHs t) (tl ap) (tl bp)
      in (LOWs t # r, k))"

definition mpn_sub_var :: "nat list \<Rightarrow> nat list \<Rightarrow> nat \<Rightarrow> nat list \<times> nat" where
  "mpn_sub_var ap bp n = (let (r, borrow) = sub_var_loop n 0 ap bp in (r, if borrow < 0 then 1 else 0))"

text \<open>\<open>DIG_BASE - 1 - a\<close> is the complement of a limb.\<close>

fun neg_loop :: "nat \<Rightarrow> nat list \<Rightarrow> nat list" where
  "neg_loop carry [] = []"
| "neg_loop carry (a # as) =
     (let sum = u64 ((DIG_BASE - 1 - a) + carry) in LOW sum # neg_loop (HIGH sum) as)"

definition mpn_neg :: "nat list \<Rightarrow> nat list" where
  "mpn_neg ap = neg_loop 1 ap"

text \<open>\<^verbatim>\<open>rp += x << s\<close>, and the carry into the limbs above \<open>x\<close>.\<close>

fun add_shifted :: "nat \<Rightarrow> nat \<Rightarrow> nat list \<Rightarrow> nat list \<Rightarrow> nat list" where
  "add_shifted s carry rp [] = prop_carry carry rp"
| "add_shifted s carry [] (x # xs) = []"
| "add_shifted s carry (r # rp) (x # xs) =
     (let val = u64 (u64 (r + u64 (x * 2 ^ s)) + carry) in LOW val # add_shifted s (HIGH val) rp xs)"

text \<open>\<^verbatim>\<open>t -= w << s\<close>, of arrays of one length.\<close>

fun sub_shifted :: "nat \<Rightarrow> nat \<Rightarrow> nat list \<Rightarrow> nat list \<Rightarrow> nat list" where
  "sub_shifted s borrow (t # ts) (w # ws) =
     (let diff = wrap_i64 (wrap_i64 (int t - wrap_i64 (int w * 2 ^ s)) - int borrow)
      in LOWs diff # sub_shifted s (if diff < 0 then LOWs (- HIGHs diff) else 0) ts ws)"
| "sub_shifted s borrow _ _ = []"

section \<open>Evaluation\<close>

text \<open>The three parts of an operand, with the lengths the code computes for them.\<close>

definition third0 :: "nat \<Rightarrow> nat list \<Rightarrow> nat list" where
  "third0 third x = take (if length x > third then third else length x) x"

definition third1 :: "nat \<Rightarrow> nat list \<Rightarrow> nat list" where
  "third1 third x =
     take (if length x > 2 * third then third else if length x > third then length x - third else 0) (drop third x)"

definition third2 :: "nat \<Rightarrow> nat list \<Rightarrow> nat list" where
  "third2 third x = take (if length x > 2 * third then length x - 2 * third else 0) (drop (2 * third) x)"

text \<open>A value without its leading zero limbs, of which one limb is kept.\<close>

definition stripped :: "nat list \<Rightarrow> nat list" where
  "stripped v = (let len = strip_zeros 0 v (length v) in take (if len = 0 then 1 else len) v)"

text \<open>An operand is added to a zeroed array of \<open>eval_len\<close> limbs: None where it is longer.\<close>

definition add_part :: "nat list \<Rightarrow> nat list \<Rightarrow> nat list option" where
  "add_part v x = (if length x \<le> length v then Some (if length x > 0 then fst (mpn_add v x) else v) else None)"

definition toom3_eval1 :: "nat \<Rightarrow> nat list \<Rightarrow> nat list \<Rightarrow> nat list \<Rightarrow> nat list option" where
  "toom3_eval1 eval_len x0 x1 x2 =
     Option.bind (into_zeroed eval_len x0) (\<lambda>v. Option.bind (add_part v x1) (\<lambda>v.
     Option.bind (add_part v x2) (\<lambda>v. Some (stripped v))))"

definition toom3_evalm1 :: "nat \<Rightarrow> nat list \<Rightarrow> nat list \<Rightarrow> nat list \<Rightarrow> (nat list \<times> bool) option" where
  "toom3_evalm1 eval_len x0 x1 x2 =
     Option.bind (into_zeroed eval_len x0) (\<lambda>v. Option.bind (add_part v x2) (\<lambda>v.
     let (v, neg) = (if length x1 > 0
           then (let (d, k) = mpn_sub_var v x1 eval_len in if k \<noteq> 0 then (mpn_neg d, True) else (d, False))
           else (v, False))
     in Some (stripped v, neg)))"

definition mpn_toom3_eval2 :: "nat \<Rightarrow> nat list \<Rightarrow> nat list \<Rightarrow> nat list \<Rightarrow> nat list option" where
  "mpn_toom3_eval2 n x0 x1 x2 =
     (if length x1 > n \<or> length x2 > n then None
      else Option.bind (into_zeroed n x0) (\<lambda>rp.
        let rp = (if length x1 > 0 then add_shifted 1 0 rp x1 else rp);
            rp = (if length x2 > 0 then add_shifted 2 0 rp x2 else rp)
        in Some (stripped rp)))"

section \<open>Interpolation\<close>

text \<open>The limbs that a product writes at \<open>off\<close>; what runs over the end of the area is not kept.\<close>

definition place :: "nat \<Rightarrow> nat list \<Rightarrow> nat list \<Rightarrow> nat list" where
  "place off r area = take (length area) (take off area @ r @ drop (off + length r) area)"

text \<open>The products one after the other; \<open>rest\<close> is the length of the scratch space behind them.\<close>

fun toom3_products :: "nat \<Rightarrow> nat \<Rightarrow> nat \<Rightarrow> nat list list \<Rightarrow> nat list \<Rightarrow> nat list option" where
  "toom3_products prod_len rest k [] area = Some area"
| "toom3_products prod_len rest k (m # ms) area =
     (if k * prod_len + length m \<le> length area + rest
      then toom3_products prod_len rest (k + 1) ms (place (k * prod_len) m area) else None)"

definition product_at :: "nat \<Rightarrow> nat list \<Rightarrow> nat \<Rightarrow> nat list" where
  "product_at prod_len area k = take prod_len (drop (k * prod_len) area)"

text \<open>The coefficients \<open>r1\<close>, \<open>r2\<close>, \<open>r3\<close> from the values \<open>w0\<close>, \<open>w1\<close>, \<open>wm1\<close>, \<open>w2\<close>, \<open>winf\<close>.\<close>

definition toom3_coefficients ::
    "bool \<Rightarrow> nat list \<Rightarrow> nat list \<Rightarrow> nat list \<Rightarrow> nat list \<Rightarrow> nat list \<Rightarrow> nat list \<times> nat list \<times> nat list" where
  "toom3_coefficients wm1_neg w0 w1 wm1 w2 winf =
     (let w_len = length w0;
          t1 = fst (mpn_sub (fst (mpn_sub w1 w0)) winf);
          t2 = (if wm1_neg then mpn_neg (fst (mpn_add (fst (mpn_add wm1 w0)) winf))
                else fst (mpn_sub (fst (mpn_sub wm1 w0)) winf));
          r2 = fst (mpn_rshift1 (fst (mpn_add_var t1 t2 w_len)));
          t3 = sub_shifted 4 0 (fst (mpn_sub w2 w0)) winf;
          t4 = fst (mpn_rshift1 t3);
          t5 = fst (mpn_rshift1 (fst (mpn_sub_var t1 t2 w_len)));
          t6 = sub_shifted 1 0 t4 r2;
          r3 = mpn_divexact_3 (fst (mpn_sub t6 t5));
          r1 = fst (mpn_sub t5 r3)
      in (r1, r2, r3))"

definition toom3_assemble :: "nat \<Rightarrow> nat \<Rightarrow> nat list \<Rightarrow> nat list \<times> nat list \<times> nat list \<Rightarrow> nat list \<Rightarrow> nat list option" where
  "toom3_assemble n third w0 c winf =
     (let (r1, r2, r3) = c; result_len = 2 * n + 24
      in Option.bind (into_zeroed result_len (take (if 2 * third < result_len then 2 * third else result_len) w0)) (\<lambda>r.
         Option.bind (limb_add_at r r1 third) (\<lambda>r.
         Option.bind (limb_add_at r r2 (2 * third)) (\<lambda>r.
         Option.bind (limb_add_at r r3 (3 * third)) (\<lambda>r.
         limb_add_at r winf (4 * third))))))"

definition toom3_finish :: "nat \<Rightarrow> nat \<Rightarrow> nat \<Rightarrow> bool \<Rightarrow> nat list list \<Rightarrow> nat list option" where
  "toom3_finish n third rest wm1_neg ms =
     (let prod_len = 2 * (third + 3) + 16
      in Option.bind (toom3_products prod_len rest 0 ms (replicate (5 * prod_len) 0)) (\<lambda>area.
         let w = product_at prod_len area
         in toom3_assemble n third (w 0) (toom3_coefficients wm1_neg (w 0) (w 1) (w 2) (w 3) (w 4)) (w 4)))"

section \<open>The product\<close>

lemma add_n_loop_length: "length (fst (add_n_loop c as bs)) = min (length as) (length bs)"
  by (induction c as bs rule: add_n_loop.induct) (simp_all add: Let_def case_prod_beta)

lemma carry_loop_length: "length (fst (carry_loop c as)) = length as"
  by (induction c as rule: carry_loop.induct) (simp_all add: Let_def case_prod_beta)

lemma add_part_length: "add_part v x = Some w \<Longrightarrow> length w = length v"
  by (auto simp: add_part_def mpn_add_def mpn_add_n_def Let_def case_prod_beta add_n_loop_length carry_loop_length
      split: if_splits)

lemma stripped_length: "length (stripped v) \<le> length v"
  by (simp add: stripped_def Let_def)

lemma into_zeroed_length: "into_zeroed n r = Some v \<Longrightarrow> length v = n"
  by (auto simp: into_zeroed_def split: if_splits)

lemma sub_var_loop_length: "length (fst (sub_var_loop n b ap bp)) = n"
  by (induction n arbitrary: b ap bp) (simp_all add: Let_def case_prod_beta)

lemma neg_loop_length: "length (neg_loop c as) = length as"
  by (induction c as rule: neg_loop.induct) (simp_all add: Let_def)

lemma prop_carry_length: "length (prop_carry c ws) = length ws"
  by (induction c ws rule: prop_carry.induct) (simp_all add: Let_def)

lemma add_shifted_length: "length xs \<le> length rp \<Longrightarrow> length (add_shifted s c rp xs) = length rp"
  by (induction s c rp xs rule: add_shifted.induct) (simp_all add: Let_def prop_carry_length)

lemma eval_lengths:
  "toom3_eval1 n x0 x1 x2 = Some v \<Longrightarrow> length v \<le> n"
  "toom3_evalm1 n x0 x1 x2 = Some (v, neg) \<Longrightarrow> length v \<le> n"
  "mpn_toom3_eval2 n x0 x1 x2 = Some v \<Longrightarrow> length v \<le> n"
proof -
  have le: "length w = m \<Longrightarrow> length (stripped w) \<le> m" for w m using stripped_length [of w] by simp
  show "toom3_eval1 n x0 x1 x2 = Some v \<Longrightarrow> length v \<le> n"
    by (auto simp: toom3_eval1_def bind_eq_Some_conv dest!: into_zeroed_length add_part_length intro!: le)
  show "toom3_evalm1 n x0 x1 x2 = Some (v, neg) \<Longrightarrow> length v \<le> n"
    by (auto simp: toom3_evalm1_def bind_eq_Some_conv mpn_sub_var_def mpn_neg_def neg_loop_length sub_var_loop_length
        Let_def case_prod_beta split: if_splits dest!: into_zeroed_length add_part_length intro!: le)
  show "mpn_toom3_eval2 n x0 x1 x2 = Some v \<Longrightarrow> length v \<le> n"
    by (auto simp: mpn_toom3_eval2_def bind_eq_Some_conv Let_def add_shifted_length split: if_splits
        dest!: into_zeroed_length intro!: le)
qed

lemma third_lengths:
  assumes "length x \<le> n"
  shows "length (third0 (n div 3) x) \<le> n div 3" "length (third1 (n div 3) x) \<le> n div 3"
    "length (third2 (n div 3) x) \<le> n div 3 + 2"
  using assms by (auto simp: third0_def third1_def third2_def)

text \<open>The operands evaluated at 1, -1 and 2, the sign at -1 apart.\<close>

definition toom3_points :: "nat \<Rightarrow> nat list \<Rightarrow> (nat list \<times> (nat list \<times> bool) \<times> nat list) option" where
  "toom3_points third x =
     (let eval_len = third + 3; x0 = third0 third x; x1 = third1 third x; x2 = third2 third x
      in Option.bind (toom3_eval1 eval_len x0 x1 x2) (\<lambda>v1.
         Option.bind (toom3_evalm1 eval_len x0 x1 x2) (\<lambda>vm1.
         Option.bind (mpn_toom3_eval2 eval_len x0 x1 x2) (\<lambda>v2. Some (v1, vm1, v2)))))"

lemma toom3_points_length:
  "toom3_points third x = Some (v1, (vm1, neg), v2) \<Longrightarrow>
   length v1 \<le> third + 3 \<and> length vm1 \<le> third + 3 \<and> length v2 \<le> third + 3"
  using eval_lengths by (auto simp: toom3_points_def Let_def bind_eq_Some_conv)

definition toom3_third :: "nat list \<Rightarrow> nat list \<Rightarrow> nat" where
  "toom3_third x y = (if length x > length y then length x else length y) div 3"

lemma toom3_smaller:
  "should_use_toom3 (if length x < length y then length x else length y) \<Longrightarrow>
   toom3_third x y + 3 < max (length x) (length y)"
  by (auto simp: toom3_third_def should_use_toom3_def TOOM3_THRESHOLD_def split: if_splits)

lemma toom3_third_parts:
  "length (third0 (toom3_third x y) x) \<le> toom3_third x y" "length (third0 (toom3_third x y) y) \<le> toom3_third x y"
  "length (third1 (toom3_third x y) x) \<le> toom3_third x y" "length (third1 (toom3_third x y) y) \<le> toom3_third x y"
  "length (third2 (toom3_third x y) x) \<le> toom3_third x y + 2" "length (third2 (toom3_third x y) y) \<le> toom3_third x y + 2"
  using third_lengths [of x "if length x > length y then length x else length y"]
    third_lengths [of y "if length x > length y then length x else length y"]
  by (simp_all add: toom3_third_def split: if_splits)

text \<open>The scratch space of one level: six evaluations and five products of multiplication.\<close>

definition toom3_offset :: "nat \<Rightarrow> nat" where
  "toom3_offset third = 6 * (third + 3) + 5 * (2 * (third + 3) + 16)"

function mpz_mul_toom3 :: "nat list \<Rightarrow> nat list \<Rightarrow> nat \<Rightarrow> nat list option" where
  "mpz_mul_toom3 x y scratch =
     (if \<not> should_use_toom3 (if length x < length y then length x else length y)
      then (if should_use_karatsuba (if length x < length y then length x else length y)
            then mpz_mul_karatsuba_limbs x y scratch else Some (mpz_mul_basic_limbs x y))
      else if scratch < toom3_offset (toom3_third x y) + 4 * (2 * (toom3_third x y + 3) + 16) then None
      else case toom3_points (toom3_third x y) x of None \<Rightarrow> None | Some (v1_x, (vm1_x, vm1_x_neg), v2_x) \<Rightarrow>
           (case toom3_points (toom3_third x y) y of None \<Rightarrow> None | Some (v1_y, (vm1_y, vm1_y_neg), v2_y) \<Rightarrow>
            Option.bind (mpz_mul_toom3 (third0 (toom3_third x y) x) (third0 (toom3_third x y) y)
                           (scratch - toom3_offset (toom3_third x y))) (\<lambda>m0.
            Option.bind (mpz_mul_toom3 v1_x v1_y (scratch - toom3_offset (toom3_third x y))) (\<lambda>m1.
            Option.bind (mpz_mul_toom3 vm1_x vm1_y (scratch - toom3_offset (toom3_third x y))) (\<lambda>mm1.
            Option.bind (mpz_mul_toom3 v2_x v2_y (scratch - toom3_offset (toom3_third x y))) (\<lambda>m2.
            Option.bind (if length (third2 (toom3_third x y) x) > 0 \<and> length (third2 (toom3_third x y) y) > 0
                         then mpz_mul_toom3 (third2 (toom3_third x y) x) (third2 (toom3_third x y) y)
                                (scratch - toom3_offset (toom3_third x y))
                         else Some []) (\<lambda>minf.
            toom3_finish (if length x > length y then length x else length y) (toom3_third x y)
              (scratch - toom3_offset (toom3_third x y)) (vm1_x_neg \<noteq> vm1_y_neg) [m0, m1, mm1, m2, minf])))))))"
  by pat_completeness auto

termination
proof (relation "measure (\<lambda>(x, y, s). max (length x) (length y))", goal_cases)
  case 1
  show ?case by simp
next
  case (2 x y scratch)
  then show ?case using toom3_smaller [of x y] toom3_third_parts [of x y] by simp
next
  case (3 x y scratch)
  then show ?case using toom3_smaller [of x y] toom3_points_length by fastforce
next
  case (4 x y scratch)
  then show ?case using toom3_smaller [of x y] toom3_points_length by fastforce
next
  case (5 x y scratch)
  then show ?case using toom3_smaller [of x y] toom3_points_length by fastforce
next
  case (6 x y scratch)
  then show ?case using toom3_smaller [of x y] toom3_third_parts [of x y] by simp
qed

declare mpz_mul_toom3.simps [simp del]

section \<open>Arrays that hold an integer modulo their size\<close>

definition holds :: "nat \<Rightarrow> nat list \<Rightarrow> int \<Rightarrow> bool" where
  "holds n r v \<longleftrightarrow> length r = n \<and> limbs_ok r \<and> int (lval r) = v mod int DIG_BASE ^ n"

lemma lval_below: "limbs_ok r \<Longrightarrow> int (lval r) < int DIG_BASE ^ length r"
  using lval_less [of r] by (metis of_nat_less_iff of_nat_power)

lemma holdsI:
  assumes "length r = n" "limbs_ok r" "int (lval r) = v + int DIG_BASE ^ n * k"
  shows "holds n r v"
proof -
  have "int (lval r) mod int DIG_BASE ^ n = v mod int DIG_BASE ^ n" unfolding assms(3) by simp
  moreover have "int (lval r) mod int DIG_BASE ^ n = int (lval r)" using lval_below [OF assms(2)] assms(1) by simp
  ultimately show ?thesis using assms by (simp add: holds_def)
qed

lemma holds_self: "limbs_ok r \<Longrightarrow> holds (length r) r (int (lval r))"
  by (rule holdsI [where k = 0]) simp_all

lemma holds_exact: "holds n r v \<Longrightarrow> 0 \<le> v \<Longrightarrow> v < int DIG_BASE ^ n \<Longrightarrow> int (lval r) = v"
  by (simp add: holds_def)

lemma holds_nat: "holds n r (int v) \<Longrightarrow> v < DIG_BASE ^ n \<Longrightarrow> lval r = v"
  by (simp add: holds_def flip: of_nat_power of_nat_mod)

lemma holds_dest: "holds n r v \<Longrightarrow> length r = n" "holds n r v \<Longrightarrow> limbs_ok r"
  by (simp_all add: holds_def)

lemma holds_wrap: "holds n r v \<Longrightarrow> \<exists>k. int (lval r) = v + int DIG_BASE ^ n * k"
  unfolding holds_def by (metis add.commute add_uminus_conv_diff minus_mult_div_eq_mod mult_minus_right)

lemma holds_combine:
  assumes "holds n a u" "holds n b v" "length r = n" "limbs_ok r"
    "int (lval r) = c * int (lval a) + d * int (lval b) + int DIG_BASE ^ n * k"
  shows "holds n r (c * u + d * v)"
proof -
  obtain i j where "int (lval a) = u + int DIG_BASE ^ n * i" "int (lval b) = v + int DIG_BASE ^ n * j"
    using holds_wrap assms(1,2) by blast
  then have "int (lval r) = c * u + d * v + int DIG_BASE ^ n * (c * i + d * j + k)"
    using assms(5) by (simp add: algebra_simps)
  then show ?thesis using assms(3,4) by (rule_tac holdsI)
qed

lemma holds_sub: "holds n a u \<Longrightarrow> holds n b v \<Longrightarrow> holds n (fst (mpn_sub a b)) (u - v)"
  using mpn_sub_val [of b a] holds_combine [of n a u b v _ 1 "- 1"] by (fastforce simp: holds_def)

lemma holds_add: "holds n a u \<Longrightarrow> holds n b v \<Longrightarrow> holds n (fst (mpn_add a b)) (u + v)"
proof -
  assume h: "holds n a u" "holds n b v"
  obtain r c where r: "mpn_add a b = (r, c)" "length r = length a" "limbs_ok r"
    "lval r + DIG_BASE ^ length a * c = lval a + lval b"
    using mpn_add_val [of b a] h by (auto simp: holds_def)
  have "int (lval r) = 1 * int (lval a) + 1 * int (lval b) + int DIG_BASE ^ n * - int c"
    using arg_cong [OF r(4), of int] h by (simp add: holds_def)
  from holds_combine [OF h _ r(3) this] show ?thesis using r h by (simp add: holds_def)
qed

lemma neg_loop_val:
  assumes "limbs_ok as" "c \<le> 1"
  shows "limbs_ok (neg_loop c as) \<and>
    (\<exists>k. int (lval (neg_loop c as)) = int c - 1 - int (lval as) + int DIG_BASE ^ length as * k)"
  using assms
proof (induction c as rule: neg_loop.induct)
  case (1 c)
  show ?case by (auto intro: exI [of _ "1 - int c"])
next
  case (2 c a as)
  let ?s = "(DIG_BASE - 1 - a) + c"
  have s: "?s < DIG_BASE * 2" "u64 ?s = ?s" using 2(3) by (auto intro!: u64_id simp: DIG_BASE_def)
  have a: "int (DIG_BASE - 1 - a) = int DIG_BASE - 1 - int a" using 2(2) by (simp add: of_nat_diff)
  obtain k where ih: "limbs_ok (neg_loop (HIGH ?s) as)"
    "int (lval (neg_loop (HIGH ?s) as)) = int (HIGH ?s) - 1 - int (lval as) + int DIG_BASE ^ length as * k"
    using 2(1) [OF refl] 2(2,3) HIGH_le [OF s(1)] s(2) by auto
  have "int (LOW ?s) + int DIG_BASE * int (HIGH ?s) = int ?s" using LOW_HIGH [of ?s] by (metis of_nat_add of_nat_mult)
  then have "int (LOW ?s) + int DIG_BASE * int (lval (neg_loop (HIGH ?s) as)) =
      int c - 1 - int (lval (a # as)) + int DIG_BASE ^ length (a # as) * k"
    unfolding ih(2) using a by (simp add: algebra_simps)
  then show ?case using ih(1) s(2) by (auto simp: Let_def)
qed

lemma holds_neg: "holds n a u \<Longrightarrow> holds n (mpn_neg a) (- u)"
proof -
  assume h: "holds n a u"
  obtain k where "limbs_ok (mpn_neg a)" "int (lval (mpn_neg a)) = - int (lval a) + int DIG_BASE ^ n * k"
    using neg_loop_val [of a 1] h by (auto simp: holds_def mpn_neg_def)
  then show ?thesis using holds_combine [OF h h, of "mpn_neg a" "- 1" 0 k] h neg_loop_length by (simp add: holds_def mpn_neg_def)
qed

lemma sub_var_same: "length ap = n \<Longrightarrow> length bp = n \<Longrightarrow> sub_var_loop n b ap bp = sub_n_loop b ap bp"
proof (induction n arbitrary: b ap bp)
  case (Suc n)
  then obtain x xs y ys where "ap = x # xs" "bp = y # ys" by (metis length_Suc_conv)
  then show ?case using Suc by (simp add: Let_def)
qed simp

lemma holds_sub_var: "holds n a u \<Longrightarrow> holds n b v \<Longrightarrow> holds n (fst (mpn_sub_var a b n)) (u - v)"
proof -
  assume h: "holds n a u" "holds n b v"
  obtain r k where r: "sub_n_loop 0 a b = (r, k)" "length r = n" "limbs_ok r"
    "int (lval r) + int DIG_BASE ^ n * k = int (lval a) - int (lval b)"
    using sub_n_loop_val [of a b 0] h by (auto simp: holds_def)
  have "int (lval r) = 1 * int (lval a) + - 1 * int (lval b) + int DIG_BASE ^ n * - k" using r(4) by simp
  from holds_combine [OF h r(2,3) this] show ?thesis
    using r(1) h by (simp add: mpn_sub_var_def sub_var_same holds_def)
qed

lemma holds_add_var: "holds n a u \<Longrightarrow> holds n b v \<Longrightarrow> holds n (fst (mpn_add_var a b n)) (u + v)"
proof -
  assume h: "holds n a u" "holds n b v"
  obtain r k where r: "add_n_loop 0 a b = (r, k)" "length r = n" "limbs_ok r"
    "lval r + DIG_BASE ^ n * k = lval a + lval b"
    using add_n_loop_val [of a b 0] h by (auto simp: holds_def)
  have "int (lval r) = 1 * int (lval a) + 1 * int (lval b) + int DIG_BASE ^ n * - int k"
    using arg_cong [OF r(4), of int] by simp
  from holds_combine [OF h r(2,3) this] show ?thesis
    using r h by (simp add: mpn_add_var_def holds_def Let_def)
qed

lemma i64I: "- 1099511627776 \<le> v \<Longrightarrow> v \<le> 1099511627776 \<Longrightarrow> in_i64 v"
  by (simp add: machine_int)

lemma sub_shifted_step:
  assumes "t < DIG_BASE" "w < DIG_BASE" "b \<le> 2 ^ s" "s \<le> 4"
  defines "d \<equiv> int t - int w * 2 ^ s - int b"
  shows "wrap_i64 (wrap_i64 (int t - wrap_i64 (int w * 2 ^ s)) - int b) = d"
    "\<exists>c. (if d < 0 then LOWs (- HIGHs d) else 0) = c \<and> c \<le> 2 ^ s \<and> int c = - HIGHs d"
proof -
  have p: "(2::int) ^ s \<le> 2 ^ 4" using assms(4) by (rule power_increasing) simp
  have w: "0 \<le> int w * 2 ^ s" "int w * 2 ^ s \<le> (int DIG_BASE - 1) * 2 ^ s"
    using assms(2) by (auto intro: mult_right_mono)
  have "(int DIG_BASE - 1) * 2 ^ s \<le> (int DIG_BASE - 1) * 2 ^ 4" using p by (intro mult_left_mono) simp_all
  from order_trans [OF w(2) this] have W: "int w * 2 ^ s \<le> 68719476720" "int t < 4294967296"
    using assms(1) by (simp_all add: DIG_BASE_def)
  have b: "int b \<le> 2 ^ s" using assms(3) by (metis of_nat_le_iff of_nat_numeral of_nat_power)
  from order_trans [OF this p] have B: "int b \<le> 16" by simp
  have "in_i64 (int w * 2 ^ s)" "in_i64 (int t - int w * 2 ^ s)" "in_i64 d"
    unfolding d_def using W B w(1) by (intro i64I; linarith)+
  then show "wrap_i64 (wrap_i64 (int t - wrap_i64 (int w * 2 ^ s)) - int b) = d" by (simp add: d_def)
  have lo: "- (int DIG_BASE * 2 ^ s) \<le> d" using w b unfolding d_def left_diff_distrib by linarith
  have hi: "d < int DIG_BASE" using w(1) assms(1) unfolding d_def by linarith
  have h: "- (2 ^ s) \<le> HIGHs d" "HIGHs d \<le> 0"
  proof -
    have "- (2 ^ s) * int DIG_BASE div int DIG_BASE \<le> d div int DIG_BASE"
      using lo by (intro zdiv_mono1) (simp_all add: mult.commute)
    also have "- (2 ^ s) * int DIG_BASE div int DIG_BASE = - (2 ^ s)" by (rule nonzero_mult_div_cancel_right) simp
    finally show "- (2 ^ s) \<le> HIGHs d" by (simp add: HIGHs_def)
    have "d div int DIG_BASE \<le> (int DIG_BASE - 1) div int DIG_BASE" using hi by (intro zdiv_mono1) simp_all
    also have "\<dots> = 0" by simp
    finally show "HIGHs d \<le> 0" by (simp add: HIGHs_def)
  qed
  show "\<exists>c. (if d < 0 then LOWs (- HIGHs d) else 0) = c \<and> c \<le> 2 ^ s \<and> int c = - HIGHs d"
  proof (cases "d < 0")
    case True
    have "- HIGHs d < int DIG_BASE" using h(1) p by (simp add: DIG_BASE_def)
    then have "int (LOWs (- HIGHs d)) = - HIGHs d" using h(2) by (simp add: LOWs_def)
    moreover have "LOWs (- HIGHs d) \<le> 2 ^ s" using calculation h(1) by (metis minus_le_iff of_nat_le_iff of_nat_numeral of_nat_power)
    ultimately show ?thesis using True by simp
  next
    case False
    then have "HIGHs d = 0" using hi by (simp add: HIGHs_def)
    then show ?thesis using False by simp
  qed
qed

lemma sub_shifted_val:
  assumes "length ts = length ws" "limbs_ok ts" "limbs_ok ws" "b \<le> 2 ^ s" "s \<le> 4"
  shows "length (sub_shifted s b ts ws) = length ts \<and> limbs_ok (sub_shifted s b ts ws) \<and>
    (\<exists>k. int (lval (sub_shifted s b ts ws)) = int (lval ts) - 2 ^ s * int (lval ws) - int b + int DIG_BASE ^ length ts * k)"
  using assms
proof (induction ts ws arbitrary: b rule: list_induct2')
  case 1
  show ?case by (auto intro: exI [of _ "int b"])
next
  case (4 t ts w ws)
  let ?d = "int t - int w * 2 ^ s - int b"
  note st = sub_shifted_step [of t w b s]
  obtain c where c: "(if ?d < 0 then LOWs (- HIGHs ?d) else 0) = c" "c \<le> 2 ^ s" "int c = - HIGHs ?d"
    using st(2) 4 by auto
  have eq: "sub_shifted s b (t # ts) (w # ws) = LOWs ?d # sub_shifted s c ts ws"
    using st(1) 4 c(1) by (simp add: Let_def)
  obtain k where k: "length (sub_shifted s c ts ws) = length ts" "limbs_ok (sub_shifted s c ts ws)"
    "int (lval (sub_shifted s c ts ws)) = int (lval ts) - 2 ^ s * int (lval ws) - int c + int DIG_BASE ^ length ts * k"
    using 4(1) [of c] 4(2-) c(2) by auto
  have "int (lval (sub_shifted s b (t # ts) (w # ws))) =
      int (lval (t # ts)) - 2 ^ s * int (lval (w # ws)) - int b + int DIG_BASE ^ length (t # ts) * k"
    unfolding eq using LOWs_HIGHs [of ?d] c(3) by (simp add: k(3) algebra_simps)
  then show ?case using k eq by auto
qed simp_all

lemma holds_sub_shifted:
  "holds n a u \<Longrightarrow> holds n b v \<Longrightarrow> s \<le> 4 \<Longrightarrow> holds n (sub_shifted s 0 a b) (u - 2 ^ s * v)"
proof -
  assume h: "holds n a u" "holds n b v" and s: "s \<le> 4"
  obtain k where k: "length (sub_shifted s 0 a b) = n" "limbs_ok (sub_shifted s 0 a b)"
    "int (lval (sub_shifted s 0 a b)) = 1 * int (lval a) + - (2 ^ s) * int (lval b) + int DIG_BASE ^ n * k"
    using sub_shifted_val [of a b 0 s] h s by (auto simp: holds_def)
  from holds_combine [OF h this] show ?thesis by simp
qed

lemma rshift1_loop_val:
  assumes "limbs_ok as" "c \<le> 1"
  shows "length (fst (rshift1_loop c as)) = length as \<and> limbs_ok (fst (rshift1_loop c as)) \<and>
    lval (rev (fst (rshift1_loop c as))) = (lval (rev as) + DIG_BASE ^ length as * c) div 2"
  using assms
proof (induction c as rule: rshift1_loop.induct)
  case (2 c a as)
  let ?r = "fst (rshift1_loop (a AND 1) as)" and ?P = "DIG_BASE ^ length as"
  define h where "h = a div 2 + c * 2 ^ 31"
  have m: "a AND 1 = a mod 2" by (simp add: and_one_eq)
  have ih: "length ?r = length as" "limbs_ok ?r" "lval (rev ?r) = (lval (rev as) + ?P * (a mod 2)) div 2"
    using 2 by (simp_all add: m)
  have "a div 2 < 2 ^ 31" "u32 (c * 2 ^ 31) = c * 2 ^ 31" using 2(2,3) by (auto simp: DIG_BASE_def)
  then have h: "(a div 2) OR u32 (c * 2 ^ (DIG_SIZE - 1)) = h" "h < DIG_BASE"
    using or_add [of "a div 2" 31 c] 2(3) by (simp_all add: DIG_SIZE_def DIG_BASE_def h_def)
  have "a + DIG_BASE * c = 2 * h + a mod 2" by (simp add: DIG_BASE_def h_def)
  then have "?P * (a + DIG_BASE * c) = ?P * (2 * h + a mod 2)" by simp
  then have "lval (rev (a # as)) + DIG_BASE ^ length (a # as) * c = (lval (rev as) + ?P * (a mod 2)) + 2 * (?P * h)"
    by (simp add: lval_append algebra_simps)
  then have "(lval (rev (a # as)) + DIG_BASE ^ length (a # as) * c) div 2 = lval (rev ?r) + ?P * h"
    using ih(3) by simp
  moreover have "fst (rshift1_loop c (a # as)) = h # ?r" using h(1) by (simp add: case_prod_beta)
  ultimately show ?case using ih h(2) by (simp add: lval_append)
qed simp

lemma holds_rshift1:
  assumes "holds n a u" "0 \<le> u" "u < int DIG_BASE ^ n"
  shows "holds n (fst (mpn_rshift1 a)) (u div 2)"
proof -
  let ?r = "fst (mpn_rshift1 a)"
  have r: "length ?r = n" "limbs_ok ?r" "lval ?r = lval a div 2"
    using rshift1_loop_val [of "rev a" 0] assms(1)
    by (simp_all add: mpn_rshift1_def case_prod_beta holds_def limbs_ok_def)
  then have "int (lval ?r) = u div 2 + int DIG_BASE ^ n * 0"
    using holds_exact [OF assms] by (simp add: zdiv_int)
  then show ?thesis using r by (rule_tac holdsI)
qed

lemma divexact_3_step:
  assumes "x < DIG_BASE" "b \<le> 2"
  defines "a \<equiv> LOWs (int x - int b)"
  defines "q \<equiv> u32 (a * 0xAAAAAAAB)"
  defines "h \<equiv> u32 (u64 (q * 3) div 2 ^ DIG_SIZE)"
  defines "c \<equiv> if u32 (u64 (q * 3)) > x then u32 (h + 1) else h"
  shows "q < DIG_BASE" "c \<le> 2" "3 * int q = int x - int b + int DIG_BASE * int c"
proof -
  show q: "q < DIG_BASE" by (simp add: q_def)
  have a: "a < DIG_BASE" by (simp add: a_def)
  have u: "u64 (q * 3) = q * 3" using q by (simp add: u64_def DIG_BASE_def)
  have "a * 0xAAAAAAAB * 3 = a + (2 * a) * DIG_BASE" by (simp add: DIG_BASE_def)
  then have "(a * 0xAAAAAAAB * 3) mod DIG_BASE = a" using a by (metis mod_less mod_mult_self1)
  then have m: "(q * 3) mod DIG_BASE = a" by (simp only: q_def u32_def mod_mult_left_eq DIG_BASE_def)
  have h: "h = q * 3 div DIG_BASE" "h \<le> 2" using q u by (auto simp: h_def u32_def DIG_BASE_def less_mult_imp_div_less)
  have e: "3 * q = a + DIG_BASE * h" using m h(1) by (metis add.commute mult.commute mult_div_mod_eq)
  have ai: "int a = int x - int b + (if x < b then int DIG_BASE else 0)"
  proof (cases "x < b")
    case True
    then have "(int x - int b + int DIG_BASE) mod int DIG_BASE = int x - int b + int DIG_BASE"
      using assms(1,2) by (intro mod_pos_pos_trivial) (simp_all add: DIG_BASE_def)
    moreover have "0 \<le> int x - int b + int DIG_BASE" using assms(2) by (simp add: DIG_BASE_def)
    ultimately show ?thesis using True by (simp add: a_def LOWs_def)
  next
    case False
    then have "(int x - int b) mod int DIG_BASE = int x - int b" using assms(1) by (intro mod_pos_pos_trivial) simp_all
    then show ?thesis using False by (simp add: a_def LOWs_def)
  qed
  have gt: "a > x \<longleftrightarrow> x < b" using ai assms(1,2) by (auto simp: DIG_BASE_def split: if_splits)
  have "x < b \<Longrightarrow> h \<le> 1" using e ai q assms(2) by (auto simp: DIG_BASE_def)
  then have c: "c = h + (if x < b then 1 else 0)" "c \<le> 2" using h(2) gt m u by (auto simp: c_def u32_def DIG_BASE_def)
  then show "c \<le> 2" by simp
  have "3 * int q = int a + int DIG_BASE * int h" using arg_cong [OF e, of int] by simp
  then show "3 * int q = int x - int b + int DIG_BASE * int c" using ai c(1) by (simp add: algebra_simps split: if_splits)
qed

lemma divexact_3_val:
  assumes "limbs_ok as" "b \<le> 2"
  shows "length (divexact_3_loop b as) = length as \<and> limbs_ok (divexact_3_loop b as) \<and>
    (\<exists>k \<le> 2. 3 * int (lval (divexact_3_loop b as)) = int (lval as) - int b + int DIG_BASE ^ length as * int k)"
  using assms
proof (induction b as rule: divexact_3_loop.induct)
  case (2 b x as)
  note st = divexact_3_step [of x b]
  let ?q = "u32 (LOWs (int x - int b) * 0xAAAAAAAB)"
  let ?h = "u32 (u64 (?q * 3) div 2 ^ DIG_SIZE)"
  let ?c = "if u32 (u64 (?q * 3)) > x then u32 (?h + 1) else ?h"
  have eq: "divexact_3_loop b (x # as) = ?q # divexact_3_loop ?c as" by (simp only: divexact_3_loop.simps Let_def)
  have s: "?q < DIG_BASE" "?c \<le> 2" "3 * int ?q = int x - int b + int DIG_BASE * int ?c" using st 2(2,3) by simp_all
  obtain k where k: "length (divexact_3_loop ?c as) = length as" "limbs_ok (divexact_3_loop ?c as)" "k \<le> 2"
    "3 * int (lval (divexact_3_loop ?c as)) = int (lval as) - int ?c + int DIG_BASE ^ length as * int k"
    using 2(1) [OF refl refl refl refl refl] 2(2) s(2) by (simp only: limbs_ok_simps) blast
  have "3 * int (lval (?q # divexact_3_loop ?c as)) = 3 * int ?q + int DIG_BASE * (3 * int (lval (divexact_3_loop ?c as)))"
    by (simp only: lval.simps of_nat_add of_nat_mult) (simp add: algebra_simps)
  also have "\<dots> = int (lval (x # as)) - int b + int DIG_BASE ^ length (x # as) * int k"
    unfolding k(4) s(3) by (simp add: algebra_simps)
  finally have "3 * int (lval (?q # divexact_3_loop ?c as)) = int (lval (x # as)) - int b + int DIG_BASE ^ length (x # as) * int k" .
  then show ?case using k(1-3) s(1) unfolding eq by (simp only: limbs_ok_simps length_Cons) blast
qed (auto intro: exI [of _ 0] simp: )

lemma base_mod_3: "int DIG_BASE ^ n mod 3 = 1"
proof -
  have "int DIG_BASE ^ n mod 3 = (int DIG_BASE mod 3) ^ n mod 3" by (simp add: power_mod)
  then show ?thesis by (simp add: DIG_BASE_def)
qed

lemma holds_divexact_3:
  assumes "holds n a (3 * v)" "0 \<le> v" "3 * v < int DIG_BASE ^ n"
  shows "holds n (mpn_divexact_3 a) v"
proof -
  have a: "int (lval a) = 3 * v" using holds_exact [OF assms(1)] assms(2,3) by simp
  obtain k where k: "length (mpn_divexact_3 a) = n" "limbs_ok (mpn_divexact_3 a)" "k \<le> 2"
    "3 * int (lval (mpn_divexact_3 a)) = 3 * v + int DIG_BASE ^ n * int k"
    using divexact_3_val [of a 0] assms(1) a by (auto simp: mpn_divexact_3_def holds_def)
  have "int DIG_BASE ^ n * int k = 3 * (int (lval (mpn_divexact_3 a)) - v)" using k(4) by simp
  then have "(int DIG_BASE ^ n * int k) mod 3 = 0" by simp
  then have "int k mod 3 = 0" using base_mod_3 [of n] mod_mult_left_eq [of "int DIG_BASE ^ n" 3 "int k"] by simp
  then have "k = 0" using k(3) by presburger
  then show ?thesis using k by (intro holdsI [where k = 0]) simp_all
qed

lemma toom3_coefficients_val:
  fixes r0 r1 r2 r3 r4 :: int
  assumes "holds n w0 r0" "holds n w1 (r0 + r1 + r2 + r3 + r4)" "holds n w2 (r0 + 2 * r1 + 4 * r2 + 8 * r3 + 16 * r4)"
    "holds n winf r4" "holds n wm1 (if neg then - (r0 - r1 + r2 - r3 + r4) else r0 - r1 + r2 - r3 + r4)"
    and nn: "0 \<le> r0" "0 \<le> r1" "0 \<le> r2" "0 \<le> r3" "0 \<le> r4"
    and lt: "r0 + 2 * r1 + 4 * r2 + 8 * r3 + 16 * r4 < int DIG_BASE ^ n"
  shows "\<exists>c1 c2 c3. toom3_coefficients neg w0 w1 wm1 w2 winf = (c1, c2, c3) \<and> holds n c1 r1 \<and> holds n c2 r2 \<and> holds n c3 r3"
proof -
  define t1 where "t1 = fst (mpn_sub (fst (mpn_sub w1 w0)) winf)"
  define t2 where "t2 = (if neg then mpn_neg (fst (mpn_add (fst (mpn_add wm1 w0)) winf))
    else fst (mpn_sub (fst (mpn_sub wm1 w0)) winf))"
  define c2 where "c2 = fst (mpn_rshift1 (fst (mpn_add_var t1 t2 n)))"
  define t4 where "t4 = fst (mpn_rshift1 (sub_shifted 4 0 (fst (mpn_sub w2 w0)) winf))"
  define t5 where "t5 = fst (mpn_rshift1 (fst (mpn_sub_var t1 t2 n)))"
  define t6 where "t6 = sub_shifted 1 0 t4 c2"
  define c3 where "c3 = mpn_divexact_3 (fst (mpn_sub t6 t5))"
  have n: "length w0 = n" using assms(1) by (rule holds_dest)
  have eq: "toom3_coefficients neg w0 w1 wm1 w2 winf = (fst (mpn_sub t5 c3), c2, c3)"
    by (simp add: toom3_coefficients_def Let_def n c3_def t6_def t5_def t4_def c2_def t1_def t2_def)
  have t1: "holds n t1 (r1 + r2 + r3)" using holds_sub [OF holds_sub [OF assms(2,1)] assms(4)] by (simp add: t1_def add.assoc)
  have t2: "holds n t2 (r2 - r1 - r3)"
  proof (cases neg)
    case True
    then have m: "holds n wm1 (- (r0 - r1 + r2 - r3 + r4))" using assms(5) by simp
    show ?thesis using holds_neg [OF holds_add [OF holds_add [OF m assms(1)] assms(4)]] True by (simp add: t2_def algebra_simps)
  next
    case False
    then have m: "holds n wm1 (r0 - r1 + r2 - r3 + r4)" using assms(5) by simp
    show ?thesis using holds_sub [OF holds_sub [OF m assms(1)] assms(4)] False by (simp add: t2_def algebra_simps)
  qed
  have "holds n (fst (mpn_add_var t1 t2 n)) (2 * r2)" using holds_add_var [OF t1 t2] by simp
  from holds_rshift1 [OF this] have c2: "holds n c2 r2" unfolding c2_def using nn lt by simp
  have "holds n (fst (mpn_sub_var t1 t2 n)) (2 * (r1 + r3))" using holds_sub_var [OF t1 t2] by (simp add: algebra_simps)
  from holds_rshift1 [OF this] have t5: "holds n t5 (r1 + r3)" unfolding t5_def using nn lt by simp
  have "holds n (sub_shifted 4 0 (fst (mpn_sub w2 w0)) winf) (2 * (r1 + 2 * r2 + 4 * r3))"
    using holds_sub_shifted [OF holds_sub [OF assms(3,1)] assms(4), of 4] by (simp add: algebra_simps)
  from holds_rshift1 [OF this] have t4: "holds n t4 (r1 + 2 * r2 + 4 * r3)" unfolding t4_def using nn lt by simp
  have "holds n t6 (r1 + 4 * r3)" using holds_sub_shifted [OF t4 c2, of 1] by (simp add: t6_def)
  from holds_sub [OF this t5] have "holds n (fst (mpn_sub t6 t5)) (3 * r3)" by simp
  from holds_divexact_3 [OF this] have c3: "holds n c3 r3" unfolding c3_def using nn lt by simp
  have "holds n (fst (mpn_sub t5 c3)) r1" using holds_sub [OF t5 c3] by simp
  then show ?thesis using eq c2 c3 by blast
qed

section \<open>The products in their area\<close>

lemma lval_drop_zero:
  assumes "limbs_ok r" "lval r < DIG_BASE ^ n"
  shows "drop n r = replicate (length r - n) 0" "lval (take n r) = lval r"
proof -
  have "lval (drop n r) = 0" using lval_drop [OF assms(1), of n] assms(2) by simp
  then have z: "\<forall>l \<in> set (drop n r). l = 0" by (simp add: lval_zero_iff list_all_iff)
  show d: "drop n r = replicate (length r - n) 0" using z by (intro replicate_eqI) simp_all
  have "lval (take n r @ drop n r) = lval (take n r)" unfolding d by (simp add: lval_append)
  then show "lval (take n r) = lval r" by simp
qed

text \<open>A product as the area keeps it: the rest of it is zeros.\<close>

definition fitted :: "nat \<Rightarrow> nat list \<Rightarrow> nat list" where
  "fitted n m = take n (m @ replicate n 0)"

lemma fitted_holds:
  assumes "limbs_ok m" "lval m < DIG_BASE ^ n"
  shows "holds n (fitted n m) (int (lval m))"
proof (rule holdsI [where k = 0])
  show "length (fitted n m) = n" by (simp add: fitted_def)
  show "limbs_ok (fitted n m)" unfolding fitted_def using assms(1) by (simp del: take_append)
  have "lval (fitted n m) = lval (m @ replicate n 0)" unfolding fitted_def
    using lval_drop_zero(2) [of "m @ replicate n 0" n] assms by (simp add: lval_append del: take_append)
  then show "int (lval (fitted n m)) = int (lval m) + int DIG_BASE ^ n * 0" by (simp add: lval_append)
qed

lemma fitted_zeros:
  assumes "limbs_ok m" "lval m < DIG_BASE ^ n"
  shows "take (n + k) (m @ replicate (n + k - length m) 0) = fitted n m @ replicate k 0"
proof (cases "length m \<le> n")
  case True
  then have "replicate (n + k - length m) (0::nat) = replicate (n - length m) 0 @ replicate k 0"
    by (simp flip: replicate_add)
  then show ?thesis using True by (simp add: fitted_def)
next
  case False
  have "take (n + k) (m @ replicate (n + k - length m) 0) = take n m @ take k (drop n m @ replicate (n + k - length m) 0)"
    using False by (simp add: take_add)
  also have "drop n m @ replicate (n + k - length m) 0 = replicate (length m - n + (n + k - length m)) 0"
    unfolding lval_drop_zero(1) [OF assms] by (rule replicate_add [symmetric])
  also have "take k (replicate (length m - n + (n + k - length m)) (0::nat)) = replicate k 0"
    using False by (simp add: min_absorb1)
  finally show ?thesis using False by (simp add: fitted_def)
qed

lemma place_fitted:
  assumes "limbs_ok m" "lval m < DIG_BASE ^ n"
  shows "place (length pre) m (pre @ replicate (n + k) 0) = pre @ fitted n m @ replicate k 0"
  using fitted_zeros [OF assms, of k] by (simp add: place_def)

lemma toom3_products_val:
  assumes "\<forall>m \<in> set ms. limbs_ok m \<and> lval m < DIG_BASE ^ n \<and> length m \<le> n + rest"
    "length pre = k * n"
  shows "toom3_products n rest k ms (pre @ replicate (length ms * n) 0) = Some (pre @ concat (map (fitted n) ms))"
  using assms
proof (induction ms arbitrary: k pre)
  case (Cons m ms)
  have m: "limbs_ok m" "lval m < DIG_BASE ^ n" "length m \<le> n + rest" using Cons.prems by simp_all
  have "place (k * n) m (pre @ replicate (length (m # ms) * n) 0) = (pre @ fitted n m) @ replicate (length ms * n) 0"
    using place_fitted [OF m(1,2), of pre "length ms * n"] Cons.prems(2) by simp
  moreover have "length (pre @ fitted n m) = (k + 1) * n" using Cons.prems(2) by (simp add: fitted_def)
  moreover have "k * n + length m \<le> length (pre @ replicate (length (m # ms) * n) 0) + rest"
    using m(3) Cons.prems(2) by simp
  ultimately show ?case using Cons.IH [of "pre @ fitted n m" "k + 1"] Cons.prems by simp
qed simp

declare toom3_products.simps [simp del]

lemma product_at_val:
  assumes "i < length ms"
  shows "product_at n (concat (map (fitted n) ms)) i = fitted n (ms ! i)"
  using assms
proof (induction ms arbitrary: i)
  case (Cons m ms)
  have l: "length (fitted n m) = n" by (simp add: fitted_def)
  show ?case
  proof (cases i)
    case 0
    then show ?thesis using l by (simp add: product_at_def)
  next
    case (Suc j)
    have "drop (n + j * n) (fitted n m @ concat (map (fitted n) ms)) = drop (j * n) (concat (map (fitted n) ms))"
      using l by (simp add: drop_append)
    then show ?thesis using Cons Suc by (simp add: product_at_def)
  qed
qed simp

section \<open>The assembled result\<close>

lemma toom3_assemble_val:
  assumes "limbs_ok w0" "limbs_ok c1" "limbs_ok c2" "limbs_ok c3" "limbs_ok w4"
    and len: "2 * third \<le> length w0" "length c1 = 2 * third + 22" "length c2 = 2 * third + 22" "length c3 = 2 * third + 22"
      "length w4 = 2 * third + 22" "3 * third \<le> n"
    and small: "lval w0 < DIG_BASE ^ (2 * third)"
    and lt: "lval w0 + DIG_BASE ^ third * lval c1 + DIG_BASE ^ (2 * third) * lval c2 + DIG_BASE ^ (3 * third) * lval c3 +
      DIG_BASE ^ (4 * third) * lval w4 < DIG_BASE ^ (2 * n + 24)"
  shows "\<exists>r. toom3_assemble n third w0 (c1, c2, c3) w4 = Some r \<and> length r = 2 * n + 24 \<and> limbs_ok r \<and>
    lval r = lval w0 + DIG_BASE ^ third * lval c1 + DIG_BASE ^ (2 * third) * lval c2 + DIG_BASE ^ (3 * third) * lval c3 +
      DIG_BASE ^ (4 * third) * lval w4"
proof -
  let ?L = "2 * n + 24"
  obtain r0 where 0: "into_zeroed ?L (take (2 * third) w0) = Some r0" "length r0 = ?L" "limbs_ok r0" "lval r0 = lval w0"
    by (rule into_zeroed_val [of "take (2 * third) w0" ?L])
      (use assms(1) len lval_drop_zero(2) [OF assms(1) small] in auto)
  obtain r1 where 1: "limb_add_at r0 c1 third = Some r1" "length r1 = ?L" "limbs_ok r1"
    "lval r1 = lval r0 + DIG_BASE ^ third * lval c1"
    by (rule limb_add_at_val [of r0 c1 third]) (use 0 assms(2) len lt in auto)
  obtain r2 where 2: "limb_add_at r1 c2 (2 * third) = Some r2" "length r2 = ?L" "limbs_ok r2"
    "lval r2 = lval r1 + DIG_BASE ^ (2 * third) * lval c2"
    by (rule limb_add_at_val [of r1 c2 "2 * third"]) (use 0 1 assms(3) len lt in auto)
  obtain r3 where 3: "limb_add_at r2 c3 (3 * third) = Some r3" "length r3 = ?L" "limbs_ok r3"
    "lval r3 = lval r2 + DIG_BASE ^ (3 * third) * lval c3"
    by (rule limb_add_at_val [of r2 c3 "3 * third"]) (use 0 1 2 assms(4) len lt in auto)
  obtain r4 where 4: "limb_add_at r3 w4 (4 * third) = Some r4" "length r4 = ?L" "limbs_ok r4"
    "lval r4 = lval r3 + DIG_BASE ^ (4 * third) * lval w4"
    by (rule limb_add_at_val [of r3 w4 "4 * third"]) (use 0 1 2 3 assms(5) len lt in auto)
  have "toom3_assemble n third w0 (c1, c2, c3) w4 = Some r4"
    using 0(1) 1(1) 2(1) 3(1) 4(1) len by (simp add: toom3_assemble_def Let_def)
  then show ?thesis using 0 1 2 3 4 by auto
qed

text \<open>The value of a polynomial with the coefficients of the product of two of degree 2.\<close>

lemma toom3_identity:
  fixes a0 a1 a2 b0 b1 b2 X :: nat
  shows "(a0 + X * a1 + X ^ 2 * a2) * (b0 + X * b1 + X ^ 2 * b2) =
    a0 * b0 + X * (a0 * b1 + a1 * b0) + X ^ 2 * (a0 * b2 + a1 * b1 + a2 * b0) + X ^ 3 * (a1 * b2 + a2 * b1) + X ^ 4 * (a2 * b2)"
  by (simp add: algebra_simps eval_nat_numeral)

lemma toom3_small:
  fixes a0 a1 a2 b0 b1 b2 :: nat
  assumes "a0 < DIG_BASE ^ k" "a1 < DIG_BASE ^ k" "a2 < DIG_BASE ^ k" "b0 < DIG_BASE ^ k" "b1 < DIG_BASE ^ k" "b2 < DIG_BASE ^ k"
  shows "(a0 + 2 * a1 + 4 * a2) * (b0 + 2 * b1 + 4 * b2) < DIG_BASE ^ (2 * k + 2)"
proof -
  have "a0 + 2 * a1 + 4 * a2 < DIG_BASE ^ k * DIG_BASE" "b0 + 2 * b1 + 4 * b2 < DIG_BASE ^ k * DIG_BASE"
    using assms unfolding DIG_BASE_def [THEN arg_cong, of "\<lambda>x. DIG_BASE ^ k * x"] by simp_all
  then have "(a0 + 2 * a1 + 4 * a2) * (b0 + 2 * b1 + 4 * b2) < (DIG_BASE ^ k * DIG_BASE) * (DIG_BASE ^ k * DIG_BASE)"
    by (intro mult_strict_mono) simp_all
  also have "\<dots> = DIG_BASE ^ (k + 1 + (k + 1))" by (simp only: power_add power_one_right)
  also have "k + 1 + (k + 1) = 2 * k + 2" by simp
  finally show ?thesis .
qed

lemma toom3_finish_val:
  fixes a0 a1 a2 b0 b1 b2 :: nat
  assumes ms: "\<forall>m \<in> {m0, m1, mm1, m2, minf}. limbs_ok m \<and> length m \<le> 2 * third + 22 + rest"
    and a: "a0 < DIG_BASE ^ third" "a1 < DIG_BASE ^ (third + 2)" "a2 < DIG_BASE ^ (third + 2)"
    and b: "b0 < DIG_BASE ^ third" "b1 < DIG_BASE ^ (third + 2)" "b2 < DIG_BASE ^ (third + 2)"
    and v: "lval m0 = a0 * b0" "lval m1 = (a0 + a1 + a2) * (b0 + b1 + b2)"
      "int (lval mm1) = (if neg then - 1 else 1) * ((int a0 - int a1 + int a2) * (int b0 - int b1 + int b2))"
      "lval m2 = (a0 + 2 * a1 + 4 * a2) * (b0 + 2 * b1 + 4 * b2)" "lval minf = a2 * b2"
    and n: "3 * third \<le> n"
    and lt: "(a0 + DIG_BASE ^ third * a1 + (DIG_BASE ^ third) ^ 2 * a2) * (b0 + DIG_BASE ^ third * b1 + (DIG_BASE ^ third) ^ 2 * b2)
      < DIG_BASE ^ (2 * n + 24)"
  shows "\<exists>r. toom3_finish n third rest neg [m0, m1, mm1, m2, minf] = Some r \<and> length r = 2 * n + 24 \<and> limbs_ok r \<and>
    lval r = (a0 + DIG_BASE ^ third * a1 + (DIG_BASE ^ third) ^ 2 * a2) * (b0 + DIG_BASE ^ third * b1 + (DIG_BASE ^ third) ^ 2 * b2)"
proof -
  define W where "W = 2 * third + 22"
  define r1 r2 r3 where "r1 = a0 * b1 + a1 * b0" and "r2 = a0 * b2 + a1 * b1 + a2 * b0" and "r3 = a1 * b2 + a2 * b1"
  note r_def = r1_def r2_def r3_def
  let ?area = "concat (map (fitted W) [m0, m1, mm1, m2, minf])"
  have le: "x < DIG_BASE ^ (third + 2)" if "x < DIG_BASE ^ third" for x
    using less_le_trans [OF that power_increasing [of third "third + 2" DIG_BASE]] by simp
  have "lval m2 < DIG_BASE ^ (2 * (third + 2) + 2)" unfolding v(4) using a b le by (intro toom3_small) simp_all
  also have "\<dots> \<le> DIG_BASE ^ W" by (rule power_increasing) (simp_all add: W_def)
  finally have m2: "lval m2 < DIG_BASE ^ W" .
  have ge: "lval m0 \<le> lval m2" "lval m1 \<le> lval m2" "lval minf \<le> lval m2"
    unfolding v by (auto intro!: mult_le_mono)
  have "int (lval mm1) = \<bar>int a0 - int a1 + int a2\<bar> * \<bar>int b0 - int b1 + int b2\<bar>"
    using arg_cong [OF v(3), of abs] by (simp add: abs_mult split: if_splits)
  also have "\<dots> \<le> int (a0 + 2 * a1 + 4 * a2) * int (b0 + 2 * b1 + 4 * b2)" by (intro mult_mono) simp_all
  finally have "lval mm1 \<le> lval m2" unfolding v(4) by (simp only: of_nat_mult [symmetric] of_nat_le_iff)
  then have all: "\<forall>m \<in> set [m0, m1, mm1, m2, minf]. limbs_ok m \<and> lval m < DIG_BASE ^ W \<and> length m \<le> W + rest"
    using ms ge m2 by (auto simp: W_def)
  have l5: "length [m0, m1, mm1, m2, minf] = 5" by simp
  have area: "toom3_products W rest 0 [m0, m1, mm1, m2, minf] (replicate (5 * W) 0) = Some ?area"
    using toom3_products_val [OF all, of "[]" 0, unfolded l5] by simp
  have w: "product_at W ?area 0 = fitted W m0" "product_at W ?area 1 = fitted W m1" "product_at W ?area 2 = fitted W mm1"
    "product_at W ?area 3 = fitted W m2" "product_at W ?area 4 = fitted W minf"
    using product_at_val [of _ "[m0, m1, mm1, m2, minf]" W] by (simp_all only: length_Cons list.size nth_Cons_0) simp_all
  have h: "holds W (fitted W m) (int (lval m))" if "m \<in> {m0, m1, mm1, m2, minf}" for m
    using that all fitted_holds [of m W] by auto
  have neg: "int (lval mm1) = (if neg then - (int (a0 * b0) - int r1 + int r2 - int r3 + int (a2 * b2))
      else int (a0 * b0) - int r1 + int r2 - int r3 + int (a2 * b2))"
    unfolding v(3) by (simp add: r_def algebra_simps)
  have one: "int (lval m1) = int (a0 * b0) + int r1 + int r2 + int r3 + int (a2 * b2)"
    and two: "int (lval m2) = int (a0 * b0) + 2 * int r1 + 4 * int r2 + 8 * int r3 + 16 * int (a2 * b2)"
    unfolding v(2,4) by (simp_all add: r_def algebra_simps)
  have "int (lval m2) < int DIG_BASE ^ W" using m2 by (metis of_nat_less_iff of_nat_power)
  then obtain c1 c2 c3 where c: "toom3_coefficients neg (fitted W m0) (fitted W m1) (fitted W mm1) (fitted W m2) (fitted W minf)
      = (c1, c2, c3)" "holds W c1 (int r1)" "holds W c2 (int r2)" "holds W c3 (int r3)"
    using toom3_coefficients_val [of W "fitted W m0" "int (a0 * b0)" "fitted W m1" "int r1" "int r2" "int r3" "int (a2 * b2)"
        "fitted W m2" "fitted W minf" "fitted W mm1" neg]
      h [of m0] h [of m1] h [of mm1] h [of m2] h [of minf] v(1,5) neg one two by auto
  have "lval m2 = a0 * b0 + 2 * r1 + 4 * r2 + 8 * r3 + 16 * (a2 * b2)" unfolding v(4) r_def by (simp add: algebra_simps)
  with m2 have small: "r1 < DIG_BASE ^ W" "r2 < DIG_BASE ^ W" "r3 < DIG_BASE ^ W" "a0 * b0 < DIG_BASE ^ W" "a2 * b2 < DIG_BASE ^ W"
    by linarith+
  have exact: "lval c1 = r1" "lval c2 = r2" "lval c3 = r3" "lval (fitted W m0) = a0 * b0" "lval (fitted W minf) = a2 * b2"
    using holds_nat [OF c(2) small(1)] holds_nat [OF c(3) small(2)] holds_nat [OF c(4) small(3)]
      holds_nat [OF h [of m0]] holds_nat [OF h [of minf]] v(1,5) small(4,5) by simp_all
  have "a0 * b0 < DIG_BASE ^ third * DIG_BASE ^ third" using a(1) b(1) by (intro mult_strict_mono) simp_all
  then have m0: "a0 * b0 < DIG_BASE ^ (2 * third)" by (simp add: mult_2 power_add)
  have prod: "(a0 + DIG_BASE ^ third * a1 + (DIG_BASE ^ third) ^ 2 * a2) * (b0 + DIG_BASE ^ third * b1 + (DIG_BASE ^ third) ^ 2 * b2) =
      a0 * b0 + DIG_BASE ^ third * r1 + DIG_BASE ^ (2 * third) * r2 + DIG_BASE ^ (3 * third) * r3 + DIG_BASE ^ (4 * third) * (a2 * b2)"
    unfolding toom3_identity r_def by (simp add: mult.commute flip: power_mult)
  have "\<exists>r. toom3_assemble n third (fitted W m0) (c1, c2, c3) (fitted W minf) = Some r \<and> length r = 2 * n + 24 \<and> limbs_ok r \<and>
    lval r = a0 * b0 + DIG_BASE ^ third * r1 + DIG_BASE ^ (2 * third) * r2 + DIG_BASE ^ (3 * third) * r3 + DIG_BASE ^ (4 * third) * (a2 * b2)"
    using toom3_assemble_val [of "fitted W m0" c1 c2 c3 "fitted W minf" third n] holds_dest [OF c(2)] holds_dest [OF c(3)]
      holds_dest [OF c(4)] holds_dest [OF h [of m0]] holds_dest [OF h [of minf]] exact n m0 lt unfolding prod
    by (simp add: W_def)
  moreover have W: "2 * (third + 3) + 16 = W" by (simp add: W_def)
  have "toom3_finish n third rest neg [m0, m1, mm1, m2, minf] = toom3_assemble n third (fitted W m0) (c1, c2, c3) (fitted W minf)"
    unfolding toom3_finish_def Let_def W area by (simp only: Option.bind.simps w c(1))
  ultimately show ?thesis unfolding prod by simp
qed

section \<open>The evaluations are exact\<close>

lemma third_eqs: "third0 t x = take t x" "third1 t x = take t (drop t x)" "third2 t x = drop (2 * t) x"
  by (auto simp: third0_def third1_def third2_def)

lemma third_val: "lval x = lval (third0 t x) + DIG_BASE ^ t * lval (third1 t x) + (DIG_BASE ^ t) ^ 2 * lval (third2 t x)"
proof -
  have step: "lval z = lval (take t z) + DIG_BASE ^ t * lval (drop t z)" for z
    using lval_split [of z t] by (cases "t \<le> length z") (simp_all add: min_absorb1)
  have "drop t (drop t x) = third2 t x" by (simp add: third_eqs mult_2)
  then show ?thesis using step [of x] step [of "drop t x"]
    by (simp add: third_eqs(1,2) distrib_left power2_eq_square mult.assoc)
qed

lemma third_limbs: "limbs_ok x \<Longrightarrow> limbs_ok (third0 t x) \<and> limbs_ok (third1 t x) \<and> limbs_ok (third2 t x)"
  by (simp add: third_eqs)

lemma limbs_bound: "limbs_ok x \<Longrightarrow> length x \<le> k \<Longrightarrow> lval x < DIG_BASE ^ k"
  using less_le_trans [OF lval_less power_increasing [of "length x" k DIG_BASE]] by simp

lemma stripped_val: "limbs_ok v \<Longrightarrow> limbs_ok (stripped v) \<and> lval (stripped v) = lval v"
proof -
  assume ok: "limbs_ok v"
  let ?k = "strip_zeros 0 v (length v)"
  have s: "lval (take ?k v) = lval v" using strip_zeros_lval [of "length v" v 0] by simp
  moreover have "lval (take 1 v) = lval v" if "?k = 0"
  proof -
    have "lval v = 0" using s that by simp
    then have "lval (take 1 v) = 0" using lval_split [of v 1] by simp
    then show ?thesis using \<open>lval v = 0\<close> by simp
  qed
  ultimately show ?thesis using ok by (simp add: stripped_def Let_def)
qed

lemma add_part_val:
  assumes "limbs_ok v" "limbs_ok x" "length x \<le> length v" "lval v + lval x < DIG_BASE ^ length v"
  shows "\<exists>w. add_part v x = Some w \<and> limbs_ok w \<and> length w = length v \<and> lval w = lval v + lval x"
proof (cases "x = []")
  case False
  obtain r c where r: "mpn_add v x = (r, c)" "length r = length v" "limbs_ok r"
    "lval r + DIG_BASE ^ length v * c = lval v + lval x" using mpn_add_val [OF assms(3,1,2)] by auto
  then have "c = 0" using assms(4) by (cases c) simp_all
  then show ?thesis using r assms(3) False by (simp add: add_part_def)
qed (use assms in \<open>simp add: add_part_def\<close>)

lemma add_shifted_val:
  assumes "limbs_ok rp" "limbs_ok xs" "length xs \<le> length rp" "c \<le> 2 ^ s" "s \<le> 4"
    "lval rp + 2 ^ s * lval xs + c < DIG_BASE ^ length rp"
  shows "limbs_ok (add_shifted s c rp xs) \<and> lval (add_shifted s c rp xs) = lval rp + 2 ^ s * lval xs + c"
  using assms
proof (induction s c rp xs rule: add_shifted.induct)
  case (1 s c rp)
  have "(2::nat) ^ s \<le> 2 ^ 4" using 1(5) by (rule power_increasing) simp
  then have "c < DIG_BASE" using 1(4) by (simp add: DIG_BASE_def)
  then show ?case using prop_carry_val [of rp c] 1 by simp
next
  case (3 s c r rp x xs)
  let ?v = "r + x * 2 ^ s + c"
  have p: "(2::nat) ^ s \<le> 2 ^ 4" using 3(6) by (rule power_increasing) simp
  have "(x + 1) * 2 ^ s \<le> DIG_BASE * 2 ^ s" using 3(3) by (intro mult_right_mono) auto
  then have "x * 2 ^ s + c \<le> DIG_BASE * 2 ^ s" using 3(5) by (simp add: add_mult_distrib)
  then have "?v < DIG_BASE + DIG_BASE * 2 ^ s" using 3(2) by simp
  then have lt: "?v < DIG_BASE * (1 + 2 ^ s)" by (simp add: distrib_left)
  have "DIG_BASE * (1 + 2 ^ s) \<le> DIG_BASE * (1 + 2 ^ 4)" using p by (intro mult_left_mono) simp_all
  from less_le_trans [OF lt this] have "?v < DIG_BASE * 17" by simp
  then have u: "u64 (u64 (r + u64 (x * 2 ^ s)) + c) = ?v" by (simp add: u64_def DIG_BASE_def)
  have h: "HIGH ?v \<le> 2 ^ s" using HIGH_le [OF lt] by simp
  have e: "LOW ?v + DIG_BASE * (lval rp + 2 ^ s * lval xs + HIGH ?v) = lval (r # rp) + 2 ^ s * lval (x # xs) + c"
    using LOW_HIGH [of ?v] by (simp add: algebra_simps)
  then have "DIG_BASE * (lval rp + 2 ^ s * lval xs + HIGH ?v) < DIG_BASE * DIG_BASE ^ length rp"
    using 3(7) unfolding length_Cons power_Suc by linarith
  then have "limbs_ok (add_shifted s (HIGH ?v) rp xs) \<and> lval (add_shifted s (HIGH ?v) rp xs) = lval rp + 2 ^ s * lval xs + HIGH ?v"
    using 3(1) [OF refl] 3(2-6) u h by simp
  then show ?case using e u by (simp add: Let_def)
qed simp

lemma sub_var_pad: "sub_var_loop n b ap bp = sub_n_loop b (fitted n ap) (fitted n bp)"
proof (induction n arbitrary: b ap bp)
  case (Suc n)
  have f: "fitted (Suc n) xs = (case xs of [] \<Rightarrow> 0 | x # _ \<Rightarrow> x) # fitted n (tl xs)" for xs
    by (cases xs) (simp_all add: fitted_def flip: replicate_Suc)
  show ?case unfolding f using Suc by (simp add: Let_def)
qed (simp add: fitted_def)

lemma mpn_sub_var_sign:
  assumes "limbs_ok a" "limbs_ok b" "length a = n" "length b \<le> n"
  obtains d k where "mpn_sub_var a b n = (d, k)" "holds n d (int (lval a) - int (lval b))" "k \<noteq> 0 \<longleftrightarrow> lval a < lval b"
proof -
  have a: "fitted n a = a" using assms(3) by (simp add: fitted_def)
  have b: "holds n (fitted n b) (int (lval b))" using fitted_holds [OF assms(2) limbs_bound [OF assms(2,4)]] .
  have bv: "lval (fitted n b) = lval b" using holds_nat [OF b limbs_bound [OF assms(2,4)]] .
  obtain r k where r: "sub_n_loop 0 a (fitted n b) = (r, k)" "length r = n" "limbs_ok r" "k \<in> {-1, 0}"
    "int (lval r) + int DIG_BASE ^ n * k = int (lval a) - int (lval b)"
    using sub_n_loop_val [of a "fitted n b" 0] assms b bv by (auto simp: holds_def)
  have "holds n r (int (lval a) - int (lval b))" by (rule holdsI [where k = "- k"]) (use r in simp_all)
  moreover have "k < 0 \<longleftrightarrow> lval a < lval b"
  proof (cases "k = 0")
    case False
    then have k: "k = - 1" using r(4) by simp
    have "int (lval r) < int DIG_BASE ^ n" using lval_below [OF r(3)] r(2) by simp
    then have "int (lval a) - int (lval b) < 0" using r(5) unfolding k by linarith
    then show ?thesis using k by simp
  qed (use r(5) in simp)
  ultimately show ?thesis using that [of r "if k < 0 then 1 else 0"] r(1) a by (simp add: mpn_sub_var_def sub_var_pad)
qed

lemma toom3_points_val:
  assumes "limbs_ok x" "length x \<le> 3 * t + 2"
  defines "a0 \<equiv> lval (third0 t x)" and "a1 \<equiv> lval (third1 t x)" and "a2 \<equiv> lval (third2 t x)"
  obtains v1 vm1 neg v2 where "toom3_points t x = Some (v1, (vm1, neg), v2)"
    "limbs_ok v1" "limbs_ok vm1" "limbs_ok v2" "lval v1 = a0 + a1 + a2" "lval v2 = a0 + 2 * a1 + 4 * a2"
    "int (lval vm1) = (if neg then - 1 else 1) * (int a0 - int a1 + int a2)"
proof -
  let ?x0 = "third0 t x" and ?x1 = "third1 t x" and ?x2 = "third2 t x" and ?n = "t + 3"
  have ok: "limbs_ok ?x0" "limbs_ok ?x1" "limbs_ok ?x2" using third_limbs [OF assms(1)] by simp_all
  have len: "length ?x0 \<le> t + 2" "length ?x1 \<le> t + 2" "length ?x2 \<le> t + 2" using assms(2) by (simp_all add: third_eqs)
  have lt: "a0 < DIG_BASE ^ (t + 2)" "a1 < DIG_BASE ^ (t + 2)" "a2 < DIG_BASE ^ (t + 2)"
    unfolding a0_def a1_def a2_def using limbs_bound ok len by blast+
  have "DIG_BASE ^ (t + 3) = DIG_BASE ^ (t + 2) * 2 ^ 32" by (simp add: DIG_BASE_def power_add)
  then have sm: "a0 + 2 * a1 + 4 * a2 < DIG_BASE ^ ?n" using lt by simp
  obtain z where z: "into_zeroed ?n ?x0 = Some z" "length z = ?n" "limbs_ok z" "lval z = a0"
    using into_zeroed_val [of ?x0 ?n] len ok by (auto simp: a0_def)
  obtain p where p: "add_part z ?x1 = Some p" "limbs_ok p" "length p = ?n" "lval p = a0 + a1"
    using add_part_val [of z ?x1] z ok len sm by (auto simp: a1_def)
  obtain q where q: "add_part p ?x2 = Some q" "limbs_ok q" "lval q = a0 + a1 + a2"
    using add_part_val [of p ?x2] p ok len sm by (auto simp: a2_def)
  have e1: "toom3_eval1 ?n ?x0 ?x1 ?x2 = Some (stripped q)" using z p q by (simp add: toom3_eval1_def)
  obtain u where u: "add_part z ?x2 = Some u" "limbs_ok u" "length u = ?n" "lval u = a0 + a2"
    using add_part_val [of z ?x2] z ok len sm by (auto simp: a2_def)
  obtain d k where d: "mpn_sub_var u ?x1 ?n = (d, k)" "holds ?n d (int (a0 + a2) - int a1)" "k \<noteq> 0 \<longleftrightarrow> a0 + a2 < a1"
    by (rule mpn_sub_var_sign [of u ?x1 ?n]) (use u ok len in \<open>auto simp: a1_def\<close>)
  have "\<exists>vm1 neg. toom3_evalm1 ?n ?x0 ?x1 ?x2 = Some (vm1, neg) \<and> limbs_ok vm1 \<and>
    int (lval vm1) = (if neg then - 1 else 1) * (int a0 - int a1 + int a2)"
  proof (cases "?x1 = []")
    case True
    then show ?thesis using z u stripped_val [of u] by (auto simp: toom3_evalm1_def a1_def)
  next
    case x1: False
    show ?thesis
    proof (cases "k \<noteq> 0")
      case True
      have h: "holds ?n (mpn_neg d) (int (a1 - (a0 + a2)))" using holds_neg [OF d(2)] True d(3) by (simp add: algebra_simps)
      have "lval (mpn_neg d) = a1 - (a0 + a2)" by (rule holds_nat [OF h]) (use sm in linarith)
      then show ?thesis using z u d True x1 stripped_val [OF holds_dest(2) [OF h]]
        by (auto simp: toom3_evalm1_def)
    next
      case False
      have h: "holds ?n d (int (a0 + a2 - a1))" using d(2,3) False by (simp add: of_nat_diff)
      have "lval d = a0 + a2 - a1" by (rule holds_nat [OF h]) (use sm in linarith)
      then show ?thesis using z u d False x1 stripped_val [OF holds_dest(2) [OF h]]
        by (auto simp: toom3_evalm1_def)
    qed
  qed
  then obtain vm1 neg where em: "toom3_evalm1 ?n ?x0 ?x1 ?x2 = Some (vm1, neg)" "limbs_ok vm1"
    "int (lval vm1) = (if neg then - 1 else 1) * (int a0 - int a1 + int a2)" by blast
  let ?s1 = "add_shifted 1 0 z ?x1" and ?s2 = "add_shifted 2 0 (add_shifted 1 0 z ?x1) ?x2"
  have s1: "limbs_ok ?s1" "lval ?s1 = a0 + 2 * a1" "length ?s1 = ?n"
    using add_shifted_val [of z ?x1 0 1] add_shifted_length [of ?x1 z] z ok len sm by (simp_all add: a1_def)
  have s2: "limbs_ok ?s2" "lval ?s2 = a0 + 2 * a1 + 4 * a2"
    using add_shifted_val [of ?s1 ?x2 0 2] s1 ok len sm by (simp_all add: a2_def)
  have "prop_carry 0 ws = ws" for ws by (cases ws) simp_all
  then have "mpn_toom3_eval2 ?n ?x0 ?x1 ?x2 = Some (stripped ?s2)"
    using z len by (simp add: mpn_toom3_eval2_def Let_def)
  then have "toom3_points t x = Some (stripped q, (vm1, neg), stripped ?s2)"
    using e1 em(1) by (simp add: toom3_points_def Let_def)
  then show ?thesis using that q s2 em stripped_val by metis
qed

section \<open>The scratch space is large enough\<close>

lemma kara_scratch_step: "32 \<le> n \<Longrightarrow> karatsuba_scratch_size n = 8 * ((n + 1) div 2 + 1) + 8 + karatsuba_scratch_size ((n + 1) div 2 + 1)"
  by (simp add: karatsuba_scratch_size.simps [of n] KARATSUBA_THRESHOLD_def Let_def)

lemma kara_scratch_small: "n < 32 \<Longrightarrow> karatsuba_scratch_size n = 0"
  by (simp add: karatsuba_scratch_size.simps [of n] KARATSUBA_THRESHOLD_def)

lemma kara_scratch_upper: "n \<le> 2 ^ (k + 5) + 3 \<Longrightarrow> karatsuba_scratch_size n \<le> 8 * n + 32 * k"
proof (induction k arbitrary: n)
  case 0
  then show ?case using kara_scratch_step [of n] kara_scratch_small [of n] kara_scratch_small [of "(n + 1) div 2 + 1"]
    by (cases "n < 32") simp_all
next
  case (Suc k)
  let ?e = "(n + 1) div 2 + 1"
  have "(2::nat) ^ (Suc k + 5) = 2 * 2 ^ (k + 5)" by (simp only: add_Suc power_Suc)
  then have "?e \<le> 2 ^ (k + 5) + 3" using Suc.prems by linarith
  then have "karatsuba_scratch_size ?e \<le> 8 * ?e + 32 * k" by (rule Suc.IH)
  then show ?case using kara_scratch_step [of n] kara_scratch_small [of n] by (cases "n < 32") simp_all
qed

lemma toom3_scratch_step:
  "100 \<le> n \<Longrightarrow> toom3_scratch_size n =
   6 * (n div 3 + 3) + 5 * (2 * (n div 3 + 3) + 16) + max (toom3_scratch_size (n div 3 + 3)) (4 * (2 * (n div 3 + 3) + 16)) + 8"
  by (subst toom3_scratch_size.simps) (simp add: should_use_toom3_def TOOM3_THRESHOLD_def Let_def max_def)

lemma toom3_scratch_lower: "100 * 3 ^ k \<le> n \<Longrightarrow> 8 * n + 208 + 144 * k \<le> toom3_scratch_size n"
proof (induction k arbitrary: n)
  case 0
  then show ?case using toom3_scratch_step [of n] by simp
next
  case (Suc k)
  have "100 * 3 ^ k \<le> n div 3 + 3" using Suc.prems by simp
  then have "8 * (n div 3 + 3) + 208 + 144 * k \<le> toom3_scratch_size (n div 3 + 3)" by (rule Suc.IH)
  moreover have "100 \<le> n" using Suc.prems by (simp add: order_trans [of 100 "300 * 3 ^ k"])
  ultimately show ?case using toom3_scratch_step [of n] by simp
qed

lemma between_powers: "100 \<le> n \<Longrightarrow> \<exists>k. 100 * 3 ^ k \<le> n \<and> n < 300 * 3 ^ k" for n :: nat
proof (induction n rule: less_induct)
  case (less n)
  show ?case
  proof (cases "n < 300")
    case False
    then obtain k where k: "100 * 3 ^ k \<le> n div 3" "n div 3 < 300 * 3 ^ k" using less.IH [of "n div 3"] by force
    then have "100 * 3 ^ Suc k \<le> n" "n < 300 * 3 ^ Suc k" by simp_all
    then show ?thesis by blast
  qed (use less.prems in \<open>auto intro: exI [of _ 0]\<close>)
qed

lemma toom3_scratch_kara: "n < 100 \<Longrightarrow> toom3_scratch_size n = karatsuba_scratch_size n"
  using kara_scratch_small [of n]
  by (subst toom3_scratch_size.simps)
    (simp add: should_use_toom3_def TOOM3_THRESHOLD_def should_use_karatsuba_def KARATSUBA_THRESHOLD_def)

lemma kara_le_toom3: "karatsuba_scratch_size n \<le> toom3_scratch_size n"
proof (cases "n < 100")
  case False
  then obtain k where k: "100 * 3 ^ k \<le> n" "n < 300 * 3 ^ k" using between_powers [of n] by auto
  have "(3::nat) ^ k \<le> 16 ^ k" by (rule power_mono) simp_all
  moreover have "(2::nat) ^ (6 + 4 * k + 5) = 2048 * 16 ^ k" by (simp add: power_add power_mult)
  ultimately have "n \<le> 2 ^ (6 + 4 * k + 5) + 3" using k(2) by linarith
  from kara_scratch_upper [OF this] toom3_scratch_lower [OF k(1)] show ?thesis by simp
qed (simp add: toom3_scratch_kara)

lemma toom3_scratch_mono: "m \<le> n \<Longrightarrow> toom3_scratch_size m \<le> toom3_scratch_size n"
proof (induction n arbitrary: m rule: less_induct)
  case (less n)
  show ?case
  proof (cases "m < 100")
    case True
    then show ?thesis using scratch_size_mono [OF less.prems] kara_le_toom3 [of n] by (simp add: toom3_scratch_kara)
  next
    case False
    then have "toom3_scratch_size (m div 3 + 3) \<le> toom3_scratch_size (n div 3 + 3)"
      using less.prems by (intro less.IH) (simp_all add: div_le_mono)
    then show ?thesis using False less.prems div_le_mono [OF less.prems, of 3]
      by (simp add: toom3_scratch_step max_def)
  qed
qed

lemma toom3_room:
  assumes "100 \<le> n" "toom3_scratch_size n \<le> scratch"
  shows "toom3_offset (n div 3) + 4 * (2 * (n div 3 + 3) + 16) \<le> scratch"
    "toom3_scratch_size (n div 3 + 3) \<le> scratch - toom3_offset (n div 3)"
  using assms toom3_scratch_step [of n] by (simp_all add: toom3_offset_def max_def split: if_splits)

section \<open>The product is exact\<close>

text \<open>A product by a recursive call, or none where a part is empty.\<close>

lemma toom3_sub_product:
  assumes "\<exists>r. f = Some r \<and> limbs_ok r \<and> lval r = lval u * lval v \<and> length r \<le> n"
  obtains m where "(if length u > 0 \<and> length v > 0 then f else Some []) = Some m" "limbs_ok m" "lval m = lval u * lval v"
    "length m \<le> n"
  using assms that [of "[]"] that by (cases "length u > 0 \<and> length v > 0") auto

lemma toom3_product:
  assumes "limbs_ok x" "limbs_ok y" "toom3_scratch_size (max (length x) (length y)) \<le> scratch"
  shows "\<exists>r. mpz_mul_toom3 x y scratch = Some r \<and> limbs_ok r \<and> lval r = lval x * lval y \<and>
    length r = (if should_use_toom3 (min (length x) (length y)) then 2 * max (length x) (length y) + 24 else length x + length y)"
  using assms
proof (induction "max (length x) (length y)" arbitrary: x y scratch rule: less_induct)
  case less
  have mm: "(if length x < length y then length x else length y) = min (length x) (length y)"
    "(if length x > length y then length x else length y) = max (length x) (length y)" by simp_all
  show ?case
  proof (cases "should_use_toom3 (min (length x) (length y))")
    case False
    have "karatsuba_scratch_size (max (length x) (length y)) \<le> scratch"
      using kara_le_toom3 less.prems(3) by (rule order_trans)
    then show ?thesis using False mpz_mul_basic_limbs_val [OF less.prems(1,2)] karatsuba_product [OF less.prems(1,2)]
      by (auto simp: mpz_mul_toom3.simps [of x y scratch] mm)
  next
    case True
    define n t where "n = max (length x) (length y)" and "t = toom3_third x y"
    let ?s = "scratch - toom3_offset t"
    have n: "100 \<le> n" "t = n div 3" using True by (auto simp: n_def t_def toom3_third_def should_use_toom3_def TOOM3_THRESHOLD_def)
    have room: "toom3_offset t + 4 * (2 * (t + 3) + 16) \<le> scratch" "toom3_scratch_size (t + 3) \<le> ?s"
      using toom3_room [OF n(1)] less.prems(3) by (simp_all add: n n_def)
    have IH: "\<exists>r. mpz_mul_toom3 u v ?s = Some r \<and> limbs_ok r \<and> lval r = lval u * lval v \<and> length r \<le> 2 * t + 22 + ?s"
      if "limbs_ok u" "limbs_ok v" "length u \<le> t + 3" "length v \<le> t + 3" for u v
    proof -
      have "max (length u) (length v) \<le> t + 3" "t + 3 < n" using that n by simp_all
      then have "max (length u) (length v) < max (length x) (length y)" unfolding n_def by linarith
      moreover have "toom3_scratch_size (max (length u) (length v)) \<le> ?s"
        using toom3_scratch_mono [of "max (length u) (length v)" "t + 3"] that room(2) by simp
      ultimately show ?thesis using less.hyps [of u v ?s] that room(1) by fastforce
    qed
    have len: "length x \<le> 3 * t + 2" "length y \<le> 3 * t + 2" using n by (simp_all add: n_def)
    let ?x0 = "third0 t x" and ?x1 = "third1 t x" and ?x2 = "third2 t x"
    let ?y0 = "third0 t y" and ?y1 = "third1 t y" and ?y2 = "third2 t y"
    have ok: "limbs_ok ?x0" "limbs_ok ?x1" "limbs_ok ?x2" "limbs_ok ?y0" "limbs_ok ?y1" "limbs_ok ?y2"
      using third_limbs less.prems by simp_all
    have pl: "length ?x0 \<le> t" "length ?x1 \<le> t + 2" "length ?x2 \<le> t + 2" "length ?y0 \<le> t" "length ?y1 \<le> t + 2" "length ?y2 \<le> t + 2"
      using len by (simp_all add: third_eqs)
    obtain v1 vm1 ng v2 where X: "toom3_points t x = Some (v1, (vm1, ng), v2)" "limbs_ok v1" "limbs_ok vm1" "limbs_ok v2"
      "lval v1 = lval ?x0 + lval ?x1 + lval ?x2" "lval v2 = lval ?x0 + 2 * lval ?x1 + 4 * lval ?x2"
      "int (lval vm1) = (if ng then - 1 else 1) * (int (lval ?x0) - int (lval ?x1) + int (lval ?x2))"
      by (rule toom3_points_val [OF less.prems(1) len(1)])
    obtain u1 um1 mg u2 where Y: "toom3_points t y = Some (u1, (um1, mg), u2)" "limbs_ok u1" "limbs_ok um1" "limbs_ok u2"
      "lval u1 = lval ?y0 + lval ?y1 + lval ?y2" "lval u2 = lval ?y0 + 2 * lval ?y1 + 4 * lval ?y2"
      "int (lval um1) = (if mg then - 1 else 1) * (int (lval ?y0) - int (lval ?y1) + int (lval ?y2))"
      by (rule toom3_points_val [OF less.prems(2) len(2)])
    note vl = toom3_points_length [OF X(1)] toom3_points_length [OF Y(1)]
    obtain m0 where m0: "mpz_mul_toom3 ?x0 ?y0 ?s = Some m0" "limbs_ok m0" "lval m0 = lval ?x0 * lval ?y0" "length m0 \<le> 2 * t + 22 + ?s"
      using IH [of ?x0 ?y0] ok pl by auto
    obtain m1 where m1: "mpz_mul_toom3 v1 u1 ?s = Some m1" "limbs_ok m1" "lval m1 = lval v1 * lval u1" "length m1 \<le> 2 * t + 22 + ?s"
      using IH [of v1 u1] X Y vl by auto
    obtain mm1 where mm1: "mpz_mul_toom3 vm1 um1 ?s = Some mm1" "limbs_ok mm1" "lval mm1 = lval vm1 * lval um1" "length mm1 \<le> 2 * t + 22 + ?s"
      using IH [of vm1 um1] X Y vl by auto
    obtain m2 where m2: "mpz_mul_toom3 v2 u2 ?s = Some m2" "limbs_ok m2" "lval m2 = lval v2 * lval u2" "length m2 \<le> 2 * t + 22 + ?s"
      using IH [of v2 u2] X Y vl by auto
    have "\<exists>r. mpz_mul_toom3 ?x2 ?y2 ?s = Some r \<and> limbs_ok r \<and> lval r = lval ?x2 * lval ?y2 \<and> length r \<le> 2 * t + 22 + ?s"
      by (rule IH) (use ok pl in auto)
    then obtain mi where mi: "(if length ?x2 > 0 \<and> length ?y2 > 0 then mpz_mul_toom3 ?x2 ?y2 ?s else Some []) = Some mi"
      "limbs_ok mi" "lval mi = lval ?x2 * lval ?y2" "length mi \<le> 2 * t + 22 + ?s"
      by (rule toom3_sub_product)
    have xy: "lval x * lval y < DIG_BASE ^ (2 * n + 24)"
    proof -
      have "lval x * lval y < DIG_BASE ^ n * DIG_BASE ^ n"
        using limbs_bound [OF less.prems(1), of n] limbs_bound [OF less.prems(2), of n] by (intro mult_strict_mono) (simp_all add: n_def)
      also have "\<dots> \<le> DIG_BASE ^ (2 * n + 24)" by (simp flip: power_add add: power_increasing)
      finally show ?thesis .
    qed
    have sign: "int (lval mm1) = (if ng \<noteq> mg then - 1 else 1) * ((int (lval ?x0) - int (lval ?x1) + int (lval ?x2)) *
        (int (lval ?y0) - int (lval ?y1) + int (lval ?y2)))"
      unfolding mm1(3) of_nat_mult X(7) Y(7) by (cases ng; cases mg) (simp_all add: algebra_simps)
    have ms: "\<forall>m \<in> {m0, m1, mm1, m2, mi}. limbs_ok m \<and> length m \<le> 2 * t + 22 + ?s"
      using m0(2,4) m1(2,4) mm1(2,4) m2(2,4) mi(2,4) by simp
    note bound = limbs_bound [OF ok(1) pl(1)] limbs_bound [OF ok(2) pl(2)] limbs_bound [OF ok(3) pl(3)]
      limbs_bound [OF ok(4) pl(4)] limbs_bound [OF ok(5) pl(5)] limbs_bound [OF ok(6) pl(6)]
    have "3 * t \<le> n" using n by simp
    from toom3_finish_val [OF ms bound m0(3) m1(3) [unfolded X(5) Y(5)] sign m2(3) [unfolded X(6) Y(6)] mi(3) this]
    have "\<exists>r. toom3_finish n t ?s (ng \<noteq> mg) [m0, m1, mm1, m2, mi] = Some r \<and> length r = 2 * n + 24 \<and> limbs_ok r \<and> lval r = lval x * lval y"
      unfolding third_val [symmetric] using xy by blast
    then obtain r where r: "toom3_finish n t ?s (ng \<noteq> mg) [m0, m1, mm1, m2, mi] = Some r" "length r = 2 * n + 24" "limbs_ok r"
      "lval r = lval x * lval y" by blast
    have "mpz_mul_toom3 x y scratch = Some r"
      by (subst mpz_mul_toom3.simps)
        (simp only: mm True leD [OF room(1)] X(1) Y(1) m0(1) m1(1) mm1(1) m2(1) mi(1) r(1) t_def [symmetric] n_def [symmetric]
          Option.bind.simps option.case prod.case not_True_eq_False if_False)
    then show ?thesis using r True by (simp add: n_def)
  qed
qed

text \<open>
  C8: The Toom-3 product of two limb arrays, with a scratch area of the size the code
  computes, stays inside its arrays at every level of the recursion and leaves exactly the
  product of the two numbers.
\<close>
theorem toom3_correct:
  assumes "limbs_ok x" "limbs_ok y" "toom3_scratch_size (max (length x) (length y)) \<le> scratch"
  shows "\<exists>r. mpz_mul_toom3 x y scratch = Some r \<and> limbs_ok r \<and> lval r = lval x * lval y \<and>
    length r = (if should_use_toom3 (min (length x) (length y)) then 2 * max (length x) (length y) + 24 else length x + length y)"
  using assms by (rule toom3_product)

theorem toom3_correct_witness:
  "\<exists>r. mpz_mul_toom3 (replicate 320 7) (replicate 305 9) (toom3_scratch_size 320) = Some r \<and> length r = 664 \<and>
    lval r = lval (replicate 320 7) * lval (replicate 305 9)"
proof -
  have "limbs_ok (replicate 320 7)" "limbs_ok (replicate 305 9)" by (simp_all add: limbs_ok_def DIG_BASE_def)
  then show ?thesis using toom3_correct [of "replicate 320 7" "replicate 305 9" "toom3_scratch_size 320"]
    by (auto simp: should_use_toom3_def TOOM3_THRESHOLD_def)
qed

end
