(* ===== verification/BigSqr.thy ===== *)
theory BigSqr
  imports BigToom
begin

unbundle bit_operations_syntax

text \<open>
  Squaring on raw limb arrays (\<^verbatim>\<open>lib/sp_bigint.c\<close>): the schoolbook square, which computes each product of
  two different limbs once and doubles their sum, and the Toom-Cook square on top of it.
\<close>

section \<open>The schoolbook square\<close>

text \<open>
  The windows are the result from limb \<open>2 * i\<close> on, for the limbs of \<open>x\<close> from \<open>i\<close> on. The products of a
  limb with the limbs after it are added at \<open>2 * i + 1\<close>.
\<close>

fun sqr_offdiag :: "nat list \<Rightarrow> nat list \<Rightarrow> nat list" where
  "sqr_offdiag w [] = w"
| "sqr_offdiag w (xi # xs) =
     (let w = (if xi = 0 \<or> xs = [] then w else take 1 w @ mul_row (drop 1 w) xs xi)
      in take 2 w @ sqr_offdiag (drop 2 w) xs)"

fun double_loop :: "nat \<Rightarrow> nat list \<Rightarrow> nat list" where
  "double_loop carry [] = []"
| "double_loop carry (r # rs) = (let val = u64 (r * 2) OR carry in LOW val # double_loop (HIGH val) rs)"

fun sqr_diag :: "nat list \<Rightarrow> nat list \<Rightarrow> nat list" where
  "sqr_diag w [] = w"
| "sqr_diag w (xi # xs) =
     (let w = (if xi = 0 then w
               else case w of [] \<Rightarrow> [] | w0 # ws \<Rightarrow>
                 (let sq = u64 (xi * xi); acc = u64 (w0 + LOW sq)
                  in LOW acc # prop_carry (u64 (HIGH acc + HIGH sq)) ws))
      in take 2 w @ sqr_diag (drop 2 w) xs)"

definition mpz_sqr_basic_limbs :: "nat list \<Rightarrow> nat list" where
  "mpz_sqr_basic_limbs x = sqr_diag (double_loop 0 (sqr_offdiag (replicate (2 * length x) 0) x)) x"

section \<open>The Toom-Cook square\<close>

function toom3_sqr_scratch_size :: "nat \<Rightarrow> nat" where
  "toom3_sqr_scratch_size n =
     (if \<not> should_use_toom3 n then 0
      else let third = n div 3; eval_len = third + 3; prod_len = 2 * eval_len + 16;
               eval_space = 3 * eval_len; prod_space = 5 * prod_len; current_level = eval_space + prod_space;
               interp_size = 4 * prod_len; sub_scratch = toom3_sqr_scratch_size eval_len;
               sub_scratch = (if sub_scratch < interp_size then interp_size else sub_scratch)
           in current_level + sub_scratch + 8)"
  by pat_completeness auto

termination
  by (relation "measure id") (auto simp: should_use_toom3_def TOOM3_THRESHOLD_def)

declare toom3_sqr_scratch_size.simps [simp del]

definition toom3_sqr_offset :: "nat \<Rightarrow> nat" where
  "toom3_sqr_offset third = 3 * (third + 3) + 5 * (2 * (third + 3) + 16)"

lemma sqr_smaller: "should_use_toom3 n \<Longrightarrow> n div 3 + 3 < n"
  by (simp add: should_use_toom3_def TOOM3_THRESHOLD_def)

text \<open>The sign at -1 does not matter to a square.\<close>

function mpz_sqr_toom3 :: "nat list \<Rightarrow> nat \<Rightarrow> nat list option" where
  "mpz_sqr_toom3 x scratch =
     (if \<not> should_use_toom3 (length x) then Some (mpz_sqr_basic_limbs x)
      else if scratch < toom3_sqr_offset (length x div 3) + 4 * (2 * (length x div 3 + 3) + 16) then None
      else case toom3_points (length x div 3) x of None \<Rightarrow> None | Some (v1_x, (vm1_x, vm1_x_neg), v2_x) \<Rightarrow>
           Option.bind (mpz_sqr_toom3 (third0 (length x div 3) x) (scratch - toom3_sqr_offset (length x div 3))) (\<lambda>m0.
           Option.bind (mpz_sqr_toom3 v1_x (scratch - toom3_sqr_offset (length x div 3))) (\<lambda>m1.
           Option.bind (mpz_sqr_toom3 vm1_x (scratch - toom3_sqr_offset (length x div 3))) (\<lambda>mm1.
           Option.bind (mpz_sqr_toom3 v2_x (scratch - toom3_sqr_offset (length x div 3))) (\<lambda>m2.
           Option.bind (if length (third2 (length x div 3) x) > 0
                        then mpz_sqr_toom3 (third2 (length x div 3) x) (scratch - toom3_sqr_offset (length x div 3))
                        else Some []) (\<lambda>minf.
           toom3_finish (length x) (length x div 3) (scratch - toom3_sqr_offset (length x div 3)) False
             [m0, m1, mm1, m2, minf]))))))"
  by pat_completeness auto

termination
proof (relation "measure (\<lambda>(x, s). length x)", goal_cases)
  case 1
  show ?case by simp
next
  case (2 x scratch)
  then show ?case using sqr_smaller [of "length x"] by (simp add: third_eqs)
next
  case (3 x scratch)
  then show ?case using sqr_smaller [of "length x"] toom3_points_length by fastforce
next
  case (4 x scratch)
  then show ?case using sqr_smaller [of "length x"] toom3_points_length by fastforce
next
  case (5 x scratch)
  then show ?case using sqr_smaller [of "length x"] toom3_points_length by fastforce
next
  case (6 x scratch)
  then show ?case using sqr_smaller [of "length x"] by (simp add: third_eqs)
qed

declare mpz_sqr_toom3.simps [simp del]

section \<open>The schoolbook square is exact\<close>

fun off_sum :: "nat list \<Rightarrow> nat" where
  "off_sum [] = 0"
| "off_sum (x # xs) = DIG_BASE * (x * lval xs) + DIG_BASE ^ 2 * off_sum xs"

fun diag_sum :: "nat list \<Rightarrow> nat" where
  "diag_sum [] = 0"
| "diag_sum (x # xs) = x * x + DIG_BASE ^ 2 * diag_sum xs"

lemma square_split: "lval x * lval x = 2 * off_sum x + diag_sum x"
  by (induction x) (simp_all add: algebra_simps power2_eq_square)

lemma lval_drop2: "2 \<le> length w \<Longrightarrow> lval w = lval (take 2 w) + DIG_BASE ^ 2 * lval (drop 2 w)"
  using lval_split [of w 2] by (simp add: min_absorb1)

text \<open>What is left to add to a window fits the limbs after its first two.\<close>

lemma window_room:
  assumes "length w = 2 * Suc n" "lval w + DIG_BASE ^ 2 * s < DIG_BASE ^ (2 * Suc n)"
  shows "lval (drop 2 w) + s < DIG_BASE ^ (2 * n)"
proof -
  have "DIG_BASE ^ 2 * (lval (drop 2 w) + s) < DIG_BASE ^ 2 * DIG_BASE ^ (2 * n)"
    using assms lval_drop2 [of w] by (simp add: distrib_left power2_eq_square mult.assoc)
  then show ?thesis by simp
qed

lemma window_done:
  assumes "2 \<le> length v" "lval r = lval (drop 2 v) + s"
  shows "lval (take 2 v @ r) = lval v + DIG_BASE ^ 2 * s"
proof -
  have "lval (take 2 v @ r) = lval (take 2 v) + DIG_BASE ^ 2 * lval r" using assms(1) by (simp add: lval_append min_absorb2)
  then show ?thesis using lval_drop2 [OF assms(1)] assms(2) by (simp add: distrib_left)
qed

lemma sqr_offdiag_val:
  assumes "limbs_ok w" "limbs_ok x" "length w = 2 * length x" "lval w + off_sum x < DIG_BASE ^ (2 * length x)"
  shows "limbs_ok (sqr_offdiag w x) \<and> length (sqr_offdiag w x) = length w \<and> lval (sqr_offdiag w x) = lval w + off_sum x"
  using assms
proof (induction w x rule: sqr_offdiag.induct)
  case (2 w xi xs)
  define v where "v = (if xi = 0 \<or> xs = [] then w else take 1 w @ mul_row (drop 1 w) xs xi)"
  have v: "limbs_ok v" "length v = length w" "lval v = lval w + DIG_BASE * (xi * lval xs)"
  proof -
    have "limbs_ok v \<and> length v = length w \<and> lval v = lval w + DIG_BASE * (xi * lval xs)"
    proof (cases "xi = 0 \<or> xs = []")
      case False
      obtain w0 ws where w: "w = w0 # ws" using 2(4) by (cases w) simp_all
      have "DIG_BASE * (lval ws + lval xs * xi) < DIG_BASE * DIG_BASE ^ length ws"
        using 2(4,5) w by (simp add: algebra_simps)
      then have "lval ws + lval xs * xi < DIG_BASE ^ length ws" by simp
      then show ?thesis using mul_row_val [of ws xs xi] 2(2-4) w False
        by (simp add: v_def algebra_simps)
    qed (use 2(2) in \<open>auto simp: v_def\<close>)
    then show "limbs_ok v" "length v = length w" "lval v = lval w + DIG_BASE * (xi * lval xs)" by simp_all
  qed
  have "lval (drop 2 v) + off_sum xs < DIG_BASE ^ (2 * length xs)"
    by (rule window_room) (use v 2(4,5) in simp_all)
  then have "limbs_ok (sqr_offdiag (drop 2 v) xs) \<and> length (sqr_offdiag (drop 2 v) xs) = 2 * length xs \<and>
      lval (sqr_offdiag (drop 2 v) xs) = lval (drop 2 v) + off_sum xs"
    using 2(1) [OF refl] 2(2-4) v unfolding v_def [symmetric] by simp
  moreover have "sqr_offdiag w (xi # xs) = take 2 v @ sqr_offdiag (drop 2 v) xs" by (simp only: sqr_offdiag.simps Let_def v_def)
  ultimately show ?case using v 2(4) window_done [of v "sqr_offdiag (drop 2 v) xs" "off_sum xs"]
    by (simp del: sqr_offdiag.simps)
qed simp

lemma double_loop_val:
  assumes "limbs_ok w" "c \<le> 1" "2 * lval w + c < DIG_BASE ^ length w"
  shows "limbs_ok (double_loop c w) \<and> length (double_loop c w) = length w \<and> lval (double_loop c w) = 2 * lval w + c"
  using assms
proof (induction c w rule: double_loop.induct)
  case (2 c r rs)
  let ?v = "r * 2 + c"
  have lt: "?v < DIG_BASE * 2" using 2(2,3) by simp
  have "c OR (r * 2 ^ 1) = c + r * 2 ^ 1" using 2(3) by (intro or_add) simp
  moreover have "u64 (r * 2) = r * 2" using 2(2) by (intro u64_id) (simp add: DIG_BASE_def)
  ultimately have v: "u64 (r * 2) OR c = ?v" by (simp add: or.commute)
  have e: "LOW ?v + DIG_BASE * (2 * lval rs + HIGH ?v) = 2 * lval (r # rs) + c"
    using LOW_HIGH [of ?v] by (simp add: algebra_simps)
  then have "DIG_BASE * (2 * lval rs + HIGH ?v) < DIG_BASE * DIG_BASE ^ length rs"
    using 2(4) unfolding length_Cons power_Suc by linarith
  then show ?case using 2(1) [OF refl] 2(2) HIGH_le [OF lt] v e by (simp add: Let_def)
qed simp

lemma sqr_diag_val:
  assumes "limbs_ok w" "limbs_ok x" "length w = 2 * length x" "lval w + diag_sum x < DIG_BASE ^ (2 * length x)"
  shows "limbs_ok (sqr_diag w x) \<and> length (sqr_diag w x) = length w \<and> lval (sqr_diag w x) = lval w + diag_sum x"
  using assms
proof (induction w x rule: sqr_diag.induct)
  case (2 w xi xs)
  obtain w0 ws where w: "w = w0 # ws" using 2(4) by (cases w) simp_all
  let ?a = "w0 + LOW (xi * xi)"
  define v where "v = (if xi = 0 then w else LOW ?a # prop_carry (HIGH ?a + HIGH (xi * xi)) ws)"
  have sq: "xi * xi \<le> (DIG_BASE - 1) * (DIG_BASE - 1)" using 2(3) by (intro mult_mono) auto
  then have "xi * xi < DIG_BASE * (DIG_BASE - 1)" by (rule le_less_trans) (simp add: DIG_BASE_def)
  then have h: "HIGH (xi * xi) < DIG_BASE - 1" by (rule HIGH_le)
  have a: "?a < DIG_BASE * 2" using 2(2) w LOW_less(1) [of "xi * xi"] by (simp del: LOW_less)
  have u: "u64 (xi * xi) = xi * xi" "u64 ?a = ?a" "u64 (HIGH ?a + HIGH (xi * xi)) = HIGH ?a + HIGH (xi * xi)"
    using sq a h HIGH_le [OF a] by (auto intro!: u64_id simp: DIG_BASE_def)
  have eq: "sqr_diag w (xi # xs) = take 2 v @ sqr_diag (drop 2 v) xs" by (simp add: w v_def Let_def u)
  have e: "LOW ?a + DIG_BASE * (lval ws + (HIGH ?a + HIGH (xi * xi))) = lval w + xi * xi"
    using LOW_HIGH [of ?a] LOW_HIGH [of "xi * xi"] by (simp add: w algebra_simps)
  have v: "limbs_ok v" "length v = length w" "lval v = lval w + xi * xi"
  proof -
    have "lval w + xi * xi < DIG_BASE * DIG_BASE ^ length ws" using 2(4,5) w by simp
    then have "DIG_BASE * (lval ws + (HIGH ?a + HIGH (xi * xi))) < DIG_BASE * DIG_BASE ^ length ws" using e by linarith
    moreover have "HIGH ?a + HIGH (xi * xi) < DIG_BASE" using h HIGH_le [OF a] by linarith
    ultimately have "limbs_ok v \<and> length v = length w \<and> lval v = lval w + xi * xi"
      using prop_carry_val [of ws "HIGH ?a + HIGH (xi * xi)"] 2(2) w e by (auto simp: v_def)
    then show "limbs_ok v" "length v = length w" "lval v = lval w + xi * xi" by simp_all
  qed
  have "lval (drop 2 v) + diag_sum xs < DIG_BASE ^ (2 * length xs)"
    by (rule window_room) (use v 2(4,5) in simp_all)
  moreover have "(if xi = 0 then w else case w of [] \<Rightarrow> [] | w0 # ws \<Rightarrow>
      (let sq = u64 (xi * xi); acc = u64 (w0 + LOW sq) in LOW acc # prop_carry (u64 (HIGH acc + HIGH sq)) ws)) = v"
    by (simp add: v_def w Let_def u)
  ultimately have "limbs_ok (sqr_diag (drop 2 v) xs) \<and> length (sqr_diag (drop 2 v) xs) = 2 * length xs \<and>
      lval (sqr_diag (drop 2 v) xs) = lval (drop 2 v) + diag_sum xs"
    using 2(1) [of v] 2(2-4) v by simp
  then show ?case using v 2(4) window_done [of v "sqr_diag (drop 2 v) xs" "diag_sum xs"] eq
    by (simp del: sqr_diag.simps)
qed simp

lemma mpz_sqr_basic_limbs_val:
  assumes "limbs_ok x"
  shows "limbs_ok (mpz_sqr_basic_limbs x) \<and> length (mpz_sqr_basic_limbs x) = 2 * length x \<and>
    lval (mpz_sqr_basic_limbs x) = lval x * lval x"
proof -
  let ?n = "2 * length x" and ?w = "sqr_offdiag (replicate (2 * length x) 0) x"
  have "lval x * lval x < DIG_BASE ^ length x * DIG_BASE ^ length x"
    using lval_less [OF assms] by (intro mult_strict_mono) simp_all
  then have lt: "2 * off_sum x + diag_sum x < DIG_BASE ^ ?n" by (simp add: square_split mult_2 power_add)
  have w: "limbs_ok ?w" "length ?w = ?n" "lval ?w = off_sum x"
    using sqr_offdiag_val [of "replicate ?n 0" x] assms lt by simp_all
  have d: "limbs_ok (double_loop 0 ?w)" "length (double_loop 0 ?w) = ?n" "lval (double_loop 0 ?w) = 2 * off_sum x"
    using double_loop_val [of ?w 0] w lt by simp_all
  show ?thesis using sqr_diag_val [of "double_loop 0 ?w" x] d assms lt
    by (simp add: mpz_sqr_basic_limbs_def square_split)
qed

section \<open>The Toom-Cook square is exact\<close>

lemma sqr_scratch_step:
  "100 \<le> n \<Longrightarrow> toom3_sqr_scratch_size n =
   3 * (n div 3 + 3) + 5 * (2 * (n div 3 + 3) + 16) + max (toom3_sqr_scratch_size (n div 3 + 3)) (4 * (2 * (n div 3 + 3) + 16)) + 8"
  by (subst toom3_sqr_scratch_size.simps) (simp add: should_use_toom3_def TOOM3_THRESHOLD_def Let_def max_def)

lemma sqr_scratch_mono: "m \<le> n \<Longrightarrow> toom3_sqr_scratch_size m \<le> toom3_sqr_scratch_size n"
proof (induction n arbitrary: m rule: less_induct)
  case (less n)
  show ?case
  proof (cases "m < 100")
    case True
    then show ?thesis by (simp add: toom3_sqr_scratch_size.simps [of m] should_use_toom3_def TOOM3_THRESHOLD_def)
  next
    case False
    then have "toom3_sqr_scratch_size (m div 3 + 3) \<le> toom3_sqr_scratch_size (n div 3 + 3)"
      using less.prems by (intro less.IH) (simp_all add: div_le_mono)
    then show ?thesis using False less.prems div_le_mono [OF less.prems, of 3]
      by (simp add: sqr_scratch_step max_def)
  qed
qed

lemma sqr_room:
  assumes "100 \<le> n" "toom3_sqr_scratch_size n \<le> scratch"
  shows "toom3_sqr_offset (n div 3) + 4 * (2 * (n div 3 + 3) + 16) \<le> scratch"
    "toom3_sqr_scratch_size (n div 3 + 3) \<le> scratch - toom3_sqr_offset (n div 3)"
  using assms sqr_scratch_step [of n] by (simp_all add: toom3_sqr_offset_def max_def split: if_splits)

lemma toom3_square:
  assumes "limbs_ok x" "toom3_sqr_scratch_size (length x) \<le> scratch"
  shows "\<exists>r. mpz_sqr_toom3 x scratch = Some r \<and> limbs_ok r \<and> lval r = lval x * lval x \<and>
    length r = (if should_use_toom3 (length x) then 2 * length x + 24 else 2 * length x)"
  using assms
proof (induction "length x" arbitrary: x scratch rule: less_induct)
  case less
  show ?case
  proof (cases "should_use_toom3 (length x)")
    case False
    then show ?thesis using mpz_sqr_basic_limbs_val [OF less.prems(1)] by (simp add: mpz_sqr_toom3.simps [of x scratch])
  next
    case True
    define n t where "n = length x" and "t = length x div 3"
    let ?s = "scratch - toom3_sqr_offset t"
    have n: "100 \<le> n" "t = n div 3" using True by (auto simp: n_def t_def should_use_toom3_def TOOM3_THRESHOLD_def)
    have room: "toom3_sqr_offset t + 4 * (2 * (t + 3) + 16) \<le> scratch" "toom3_sqr_scratch_size (t + 3) \<le> ?s"
      using sqr_room [OF n(1)] less.prems(2) by (simp_all add: n n_def)
    have IH: "\<exists>r. mpz_sqr_toom3 u ?s = Some r \<and> limbs_ok r \<and> lval r = lval u * lval u \<and> length r \<le> 2 * t + 22 + ?s"
      if "limbs_ok u" "length u \<le> t + 3" for u
    proof -
      have "length u < length x" using that n by (simp add: n_def)
      moreover have "toom3_sqr_scratch_size (length u) \<le> ?s"
        using sqr_scratch_mono [of "length u" "t + 3"] that room(2) by simp
      ultimately show ?thesis using less.hyps [of u ?s] that room(1) by fastforce
    qed
    have len: "length x \<le> 3 * t + 2" using n by (simp add: n_def)
    let ?x0 = "third0 t x" and ?x1 = "third1 t x" and ?x2 = "third2 t x"
    have ok: "limbs_ok ?x0" "limbs_ok ?x1" "limbs_ok ?x2" using third_limbs less.prems by simp_all
    have pl: "length ?x0 \<le> t" "length ?x1 \<le> t + 2" "length ?x2 \<le> t + 2" using len by (simp_all add: third_eqs)
    obtain v1 vm1 ng v2 where X: "toom3_points t x = Some (v1, (vm1, ng), v2)" "limbs_ok v1" "limbs_ok vm1" "limbs_ok v2"
      "lval v1 = lval ?x0 + lval ?x1 + lval ?x2" "lval v2 = lval ?x0 + 2 * lval ?x1 + 4 * lval ?x2"
      "int (lval vm1) = (if ng then - 1 else 1) * (int (lval ?x0) - int (lval ?x1) + int (lval ?x2))"
      by (rule toom3_points_val [OF less.prems(1) len(1)])
    note vl = toom3_points_length [OF X(1)]
    obtain m0 where m0: "mpz_sqr_toom3 ?x0 ?s = Some m0" "limbs_ok m0" "lval m0 = lval ?x0 * lval ?x0" "length m0 \<le> 2 * t + 22 + ?s"
      using IH [of ?x0] ok pl by auto
    obtain m1 where m1: "mpz_sqr_toom3 v1 ?s = Some m1" "limbs_ok m1" "lval m1 = lval v1 * lval v1" "length m1 \<le> 2 * t + 22 + ?s"
      using IH [of v1] X vl by auto
    obtain mm1 where mm1: "mpz_sqr_toom3 vm1 ?s = Some mm1" "limbs_ok mm1" "lval mm1 = lval vm1 * lval vm1" "length mm1 \<le> 2 * t + 22 + ?s"
      using IH [of vm1] X vl by auto
    obtain m2 where m2: "mpz_sqr_toom3 v2 ?s = Some m2" "limbs_ok m2" "lval m2 = lval v2 * lval v2" "length m2 \<le> 2 * t + 22 + ?s"
      using IH [of v2] X vl by auto
    have "\<exists>r. mpz_sqr_toom3 ?x2 ?s = Some r \<and> limbs_ok r \<and> lval r = lval ?x2 * lval ?x2 \<and> length r \<le> 2 * t + 22 + ?s"
      by (rule IH) (use ok pl in auto)
    then obtain mi where mi: "(if length ?x2 > 0 \<and> length ?x2 > 0 then mpz_sqr_toom3 ?x2 ?s else Some []) = Some mi"
      "limbs_ok mi" "lval mi = lval ?x2 * lval ?x2" "length mi \<le> 2 * t + 22 + ?s"
      by (rule toom3_sub_product)
    have xy: "lval x * lval x < DIG_BASE ^ (2 * n + 24)"
    proof -
      have "lval x * lval x < DIG_BASE ^ n * DIG_BASE ^ n"
        using limbs_bound [OF less.prems(1), of n] by (intro mult_strict_mono) (simp_all add: n_def)
      also have "\<dots> \<le> DIG_BASE ^ (2 * n + 24)" by (simp flip: power_add add: power_increasing)
      finally show ?thesis .
    qed
    have sign: "int (lval mm1) = (if False then - 1 else 1) * ((int (lval ?x0) - int (lval ?x1) + int (lval ?x2)) *
        (int (lval ?x0) - int (lval ?x1) + int (lval ?x2)))"
      unfolding mm1(3) of_nat_mult X(7) by (cases ng) (simp_all add: algebra_simps)
    have ms: "\<forall>m \<in> {m0, m1, mm1, m2, mi}. limbs_ok m \<and> length m \<le> 2 * t + 22 + ?s"
      using m0(2,4) m1(2,4) mm1(2,4) m2(2,4) mi(2,4) by simp
    note bound = limbs_bound [OF ok(1) pl(1)] limbs_bound [OF ok(2) pl(2)] limbs_bound [OF ok(3) pl(3)]
    have "3 * t \<le> n" using n by simp
    from toom3_finish_val [OF ms bound bound m0(3) m1(3) [unfolded X(5)] sign m2(3) [unfolded X(6)] mi(3) this]
    have "\<exists>r. toom3_finish n t ?s False [m0, m1, mm1, m2, mi] = Some r \<and> length r = 2 * n + 24 \<and> limbs_ok r \<and> lval r = lval x * lval x"
      unfolding third_val [symmetric] using xy by blast
    then obtain r where r: "toom3_finish n t ?s False [m0, m1, mm1, m2, mi] = Some r" "length r = 2 * n + 24" "limbs_ok r"
      "lval r = lval x * lval x" by blast
    have "mpz_sqr_toom3 x scratch = Some r"
      by (subst mpz_sqr_toom3.simps)
        (simp only: True [folded n_def] leD [OF room(1)] X(1) m0(1) m1(1) mm1(1) m2(1) mi(1) [unfolded conj_absorb] r(1) n(2) [symmetric] n_def [symmetric]
          Option.bind.simps option.case prod.case not_True_eq_False if_False)
    then show ?thesis using r True by (simp add: n_def)
  qed
qed

end
