(* ===== verification/BigMul.thy ===== *)
theory BigMul
  imports BigSqr
begin

unbundle bit_operations_syntax

text \<open>
  The product of two arbitrary-precision integers (\<^verbatim>\<open>lib/sp_bigint.c\<close>, \<^verbatim>\<open>mpz_mul\<close> and \<^verbatim>\<open>mpz_sqr\<close>): the choice
  among the shortcuts for special operands (all ones, a power of two, few bits), the balanced product
  of operands of different sizes, and the schoolbook, Karatsuba and Toom-Cook products.

  The answer \<open>Some (Inl _)\<close> is the program's end on a number that is too large, as in \<open>BigShift\<close>; None is a
  write outside an array, or more nested products than the model allows for. The balanced product
  calls \<open>mpz_mul\<close> again, on smaller operands: \<open>sp_bigint_mul\<close> allows as many nested calls as the
  operands have limbs, and the theorems show that this is enough.
\<close>

type_synonym mpz_answer = "mpz big_res option"

definition abind :: "'a big_res option \<Rightarrow> ('a \<Rightarrow> 'b big_res option) \<Rightarrow> 'b big_res option" where
  "abind m f = (case m of None \<Rightarrow> None | Some (Inl e) \<Rightarrow> Some (Inl e) | Some (Inr x) \<Rightarrow> f x)"

section \<open>Special operands\<close>

fun bit_count :: "nat \<Rightarrow> nat" where
  "bit_count hi = (if hi = 0 then 0 else Suc (bit_count (hi div 2)))"

declare bit_count.simps [simp del]

definition mpz_all_ones_p :: "mpz \<Rightarrow> nat" where
  "mpz_all_ones_p x =
     (if msn x \<le> 0 \<or> sz x = 0 then 0
      else if \<not> list_all (\<lambda>l. l = DIG_BASE - 1) (butlast (mp x)) then 0
      else let hi = last (mp x)
           in if hi = 0 then 0 else if hi AND u32 (hi + 1) \<noteq> 0 then 0
           else (sz x - 1) * DIG_SIZE + bit_count hi)"

text \<open>The number of trailing zero bits; the loop of the code runs on limbs other than 0 only.\<close>

fun ctz :: "nat \<Rightarrow> nat" where
  "ctz limb = (if limb = 0 \<or> limb AND 1 \<noteq> 0 then 0 else Suc (ctz (limb div 2)))"

declare ctz.simps [simp del]

definition mpz_power_of_2_exp :: "mpz \<Rightarrow> nat" where
  "mpz_power_of_2_exp x =
     (if msn x \<le> 0 \<or> sz x = 0 then 0
      else if \<not> list_all (\<lambda>l. l = 0) (butlast (mp x)) then 0
      else let hi = last (mp x)
           in if hi = 0 \<or> hi AND (hi - 1) \<noteq> 0 then 0
           else (sz x - 1) * DIG_SIZE + ctz hi)"

lemma and_even: "(2 * h) AND (2 * k + 1) = 2 * (h AND k)" "(2 * h + 1) AND (2 * k) = 2 * (h AND k)" for h k :: nat
  by (simp_all add: and_nat_unfold [of "2 * h"] and_nat_unfold [of "Suc (2 * h)"])

lemma lowest_bit: "x \<noteq> 0 \<Longrightarrow> 2 ^ ctz x \<le> x \<and> x AND (x - 1) = x - 2 ^ ctz x" for x :: nat
proof (induction x rule: less_induct)
  case (less x)
  show ?case
  proof (cases "even x")
    case True
    then obtain h where h: "x = 2 * h" "h \<noteq> 0" using less.prems by (auto elim: evenE)
    have "x - 1 = 2 * (h - 1) + 1" using h by simp
    then have "x AND (x - 1) = 2 * (h AND (h - 1))" unfolding h(1) by (simp only: and_even)
    moreover have "ctz x = Suc (ctz h)" using h by (subst ctz.simps) (simp add: and_one_eq)
    ultimately show ?thesis using less.IH [of h] h by auto
  next
    case False
    then obtain h where h: "x = 2 * h + 1" by (auto elim: oddE)
    have "x AND (x - 1) = 2 * h" unfolding h using and_even(2) [of h h] by simp
    moreover have "ctz x = 0" using h by (subst ctz.simps) (simp add: and_one_eq)
    ultimately show ?thesis using h by simp
  qed
qed

lemma clear_lowest_less: "x \<noteq> 0 \<Longrightarrow> x AND (x - 1) < x" for x :: nat
  using lowest_bit [of x] by simp

function limb_popcount :: "nat \<Rightarrow> nat" where
  "limb_popcount x = (if x = 0 then 0 else Suc (limb_popcount (x AND (x - 1))))"
  by pat_completeness auto

termination
  by (relation "measure id") (use clear_lowest_less in auto)

declare limb_popcount.simps [simp del]

text \<open>The count stops once it is above \<open>max_count\<close>.\<close>

fun popcount_loop :: "nat \<Rightarrow> nat \<Rightarrow> nat list \<Rightarrow> nat" where
  "popcount_loop max_count count [] = count"
| "popcount_loop max_count count (l # ls) =
     (if count \<le> max_count then popcount_loop max_count (count + limb_popcount l) ls else count)"

definition mpz_popcount :: "mpz \<Rightarrow> nat \<Rightarrow> nat" where
  "mpz_popcount x max_count = (if msn x \<le> 0 \<or> sz x = 0 then 0 else popcount_loop max_count 0 (mp x))"

definition SPARSE_MAX_BITS :: nat where
  "SPARSE_MAX_BITS = 8"

definition mpz_sparse_p :: "mpz \<Rightarrow> nat" where
  "mpz_sparse_p x =
     (if msn x \<le> 0 \<or> sz x < TOOM3_THRESHOLD then 0
      else let popcount = mpz_popcount x SPARSE_MAX_BITS in if popcount > SPARSE_MAX_BITS then 0 else popcount)"

text \<open>One limb of the sparse operand, from its lowest set bit up. The state is \<open>w\<close>, \<open>shifted\<close>, \<open>temp\<close>.\<close>

function sparse_limb :: "mpz \<Rightarrow> nat \<Rightarrow> nat \<Rightarrow> mpz \<times> mpz \<times> mpz \<Rightarrow> (mpz \<times> mpz \<times> mpz) big_res" where
  "sparse_limb dense base_bit limb st =
     (if limb = 0 then Inr st
      else case st of (w, shifted, temp) \<Rightarrow>
        (case mpz_mul_2exp shifted dense (base_bit + ctz limb) of
           Inl e \<Rightarrow> Inl e
         | Inr shifted \<Rightarrow>
             sparse_limb dense base_bit (limb AND (limb - 1)) (mpz_set w (mpz_add temp w shifted), shifted, mpz_add temp w shifted)))"
  by pat_completeness auto

termination
  by (relation "measure (\<lambda>(dense, base_bit, limb, st). limb)") (use clear_lowest_less in auto)

declare sparse_limb.simps [simp del]

fun sparse_limbs :: "mpz \<Rightarrow> nat \<Rightarrow> nat list \<Rightarrow> mpz \<times> mpz \<times> mpz \<Rightarrow> (mpz \<times> mpz \<times> mpz) big_res" where
  "sparse_limbs dense base_bit [] st = Inr st"
| "sparse_limbs dense base_bit (l # ls) st =
     (case sparse_limb dense base_bit l st of Inl e \<Rightarrow> Inl e | Inr st \<Rightarrow> sparse_limbs dense (base_bit + DIG_SIZE) ls st)"

definition mpz_mul_sparse :: "mpz \<Rightarrow> mpz \<Rightarrow> mpz \<Rightarrow> mpz big_res" where
  "mpz_mul_sparse w sparse dense =
     (case sparse_limbs dense 0 (mp sparse) (zero w, mpz_init, mpz_init) of
        Inl e \<Rightarrow> Inl e
      | Inr (w, _, _) \<Rightarrow> Inr (if msn sparse < 0 then w\<lparr>msn := - msn w\<rparr> else w))"

text \<open>Both operands all ones.\<close>

definition mpz_mul_all_ones :: "mpz \<Rightarrow> nat \<Rightarrow> nat \<Rightarrow> mpz big_res" where
  "mpz_mul_all_ones w n m =
     (if n = m
      then (case mpz_mul_2exp w (mpz_set_int mpz_init 1) (2 * n) of Inl e \<Rightarrow> Inl e | Inr w \<Rightarrow>
            let a = mpz_set_int (mpz_set_int mpz_init 1) 1
            in case mpz_mul_2exp a a (n + 1) of Inl e \<Rightarrow> Inl e | Inr a \<Rightarrow>
               Inr (mpz_add_int (mpz_sub_inplace w a) 1))
      else (case mpz_mul_2exp w (mpz_set_int mpz_init 1) (n + m) of Inl e \<Rightarrow> Inl e | Inr w \<Rightarrow>
            let a = mpz_set_int (mpz_set_int mpz_init 1) 1
            in case mpz_mul_2exp a a n of Inl e \<Rightarrow> Inl e | Inr a \<Rightarrow>
               let b = mpz_set_int mpz_init 1
               in case mpz_mul_2exp b b m of Inl e \<Rightarrow> Inl e | Inr b \<Rightarrow>
                  Inr (mpz_add_int (mpz_sub_inplace (mpz_sub_inplace w a) b) 1)))"

section \<open>Squares and products\<close>

definition mpz_sqr :: "mpz \<Rightarrow> mpz \<Rightarrow> mpz_answer" where
  "mpz_sqr ww u =
     (if zero_p u then Some (Inr (zero ww))
      else if mpz_power_of_2_exp u \<noteq> 0 then Some (mpz_mul_2exp ww (mpz_set_int mpz_init 1) (2 * mpz_power_of_2_exp u))
      else if mpz_all_ones_p u \<noteq> 0 then Some (mpz_mul_all_ones ww (mpz_all_ones_p u) (mpz_all_ones_p u))
      else if \<not> should_use_toom3 (sz u)
      then Some (Inr (trim ((mpz_init_heap (2 * sz u))\<lparr>mp := mpz_sqr_basic_limbs (mp u), msn := 1\<rparr>)))
      else let scratch_size = toom3_sqr_scratch_size (sz u); scratch_size = scratch_size + (scratch_size div 8 + 16)
           in map_option (\<lambda>r. Inr (trim ((mpz_realloc ww (2 * sz u + 24))\<lparr>mp := r, msn := 1\<rparr>)))
                (mpz_sqr_toom3 (mp u) scratch_size))"

text \<open>
  One block \<open>l\<close> of the larger operand, at limb \<open>j\<close>: its product with \<open>b\<close> is shifted up and added. The
  state is \<open>result\<close> and \<open>tmp\<close>; \<open>mul\<close> is the product.
\<close>

definition balance_block ::
    "(mpz \<Rightarrow> mpz \<Rightarrow> mpz \<Rightarrow> mpz_answer) \<Rightarrow> mpz \<Rightarrow> nat list \<Rightarrow> nat \<Rightarrow> mpz \<times> mpz \<Rightarrow> (mpz \<times> mpz) big_res option" where
  "balance_block mul b l j st =
     (let chunk = trim \<lparr>mp = l, mnull = False, msn = 1\<rparr>
      in if zero_p chunk then Some (Inr st)
      else abind (mul (snd st) chunk b) (\<lambda>tmp.
           let tmp = (if j > 0 then tmp\<lparr>mp := replicate j 0 @ mp tmp, mnull := False\<rparr> else tmp)
           in Some (Inr (mpz_add (fst st) (fst st) tmp, tmp))))"

text \<open>\<open>n\<close> full blocks, and what is left after them.\<close>

fun balance_blocks ::
    "(mpz \<Rightarrow> mpz \<Rightarrow> mpz \<Rightarrow> mpz_answer) \<Rightarrow> mpz \<Rightarrow> nat \<Rightarrow> nat list \<Rightarrow> nat \<Rightarrow> mpz \<times> mpz \<Rightarrow> (mpz \<times> mpz) big_res option" where
  "balance_blocks mul b 0 l j st = (if l = [] then Some (Inr st) else balance_block mul b l j st)"
| "balance_blocks mul b (Suc n) l j st =
     abind (balance_block mul b (take (sz b) l) j st) (balance_blocks mul b n (drop (sz b) l) (j + sz b))"

definition mpz_mul_balance :: "(mpz \<Rightarrow> mpz \<Rightarrow> mpz \<Rightarrow> mpz_answer) \<Rightarrow> mpz \<Rightarrow> mpz \<Rightarrow> mpz_answer" where
  "mpz_mul_balance mul a b =
     (let (a, b) = (if sz a < sz b then (b, a) else (a, b))
      in abind (balance_blocks mul b (sz a div sz b) (mp a) 0 (mpz_init, mpz_init)) (\<lambda>st.
         Some (Inr ((fst st)\<lparr>msn := msn a * msn b\<rparr>))))"

definition ones_times :: "nat \<Rightarrow> mpz \<Rightarrow> mpz \<Rightarrow> mpz big_res" where
  "ones_times n ww y = (case mpz_mul_2exp mpz_init y n of Inl e \<Rightarrow> Inl e | Inr shifted \<Rightarrow> Inr (mpz_sub ww shifted y))"

text \<open>The part after the shortcuts, by the sizes of the operands.\<close>

definition mul_by_size :: "(mpz \<Rightarrow> mpz \<Rightarrow> mpz \<Rightarrow> mpz_answer) \<Rightarrow> mpz \<Rightarrow> mpz \<Rightarrow> mpz \<Rightarrow> mpz_answer" where
  "mul_by_size mul ww u v =
     (let min_sz = (if sz u < sz v then sz u else sz v); max_sz = (if sz u > sz v then sz u else sz v)
      in if max_sz \<ge> 2 * min_sz \<and> should_use_toom3 min_sz then mpz_mul_balance mul u v
      else if \<not> should_use_karatsuba min_sz then Some (Inr (mpz_mul_basic ww u v))
      else if \<not> should_use_toom3 min_sz
      then let scratch_size = karatsuba_scratch_size max_sz; scratch_size = scratch_size + (scratch_size div 8 + 16)
           in map_option (\<lambda>r. Inr (trim ((mpz_realloc ww (sz u + sz v))\<lparr>mp := r, msn := msn u * msn v\<rparr>)))
                (mpz_mul_karatsuba_limbs (mp u) (mp v) scratch_size)
      else let scratch_size = toom3_scratch_size max_sz; scratch_size = scratch_size + (scratch_size div 8 + 16)
           in map_option (\<lambda>r. Inr (trim ((mpz_realloc ww (2 * max_sz + 24))\<lparr>mp := r, msn := msn u * msn v\<rparr>)))
                (mpz_mul_toom3 (mp u) (mp v) scratch_size))"

text \<open>\<open>same\<close> is the test that both operands are one object.\<close>

definition mul_step :: "(mpz \<Rightarrow> mpz \<Rightarrow> mpz \<Rightarrow> mpz_answer) \<Rightarrow> mpz \<Rightarrow> bool \<Rightarrow> mpz \<Rightarrow> mpz \<Rightarrow> mpz_answer" where
  "mul_step mul ww same u v =
     (if zero_p u \<or> zero_p v then Some (Inr (zero ww))
      else if same then mpz_sqr ww u
      else let u_ones = mpz_all_ones_p u; v_ones = mpz_all_ones_p v
      in if u_ones \<noteq> 0 \<and> v_ones \<noteq> 0 then Some (mpz_mul_all_ones ww u_ones v_ones)
      else if u_ones \<noteq> 0 \<and> u_ones \<ge> TOOM3_THRESHOLD * DIG_SIZE then Some (ones_times u_ones ww v)
      else if v_ones \<noteq> 0 \<and> v_ones \<ge> TOOM3_THRESHOLD * DIG_SIZE then Some (ones_times v_ones ww u)
      else if mpz_power_of_2_exp u \<noteq> 0 then Some (mpz_mul_2exp ww v (mpz_power_of_2_exp u))
      else if mpz_power_of_2_exp v \<noteq> 0 then Some (mpz_mul_2exp ww u (mpz_power_of_2_exp v))
      else if mpz_sparse_p u \<noteq> 0 then Some (mpz_mul_sparse ww u v)
      else if mpz_sparse_p v \<noteq> 0 then Some (mpz_mul_sparse ww v u)
      else mul_by_size mul ww u v)"

fun mul_calls :: "nat \<Rightarrow> mpz \<Rightarrow> bool \<Rightarrow> mpz \<Rightarrow> mpz \<Rightarrow> mpz_answer" where
  "mul_calls 0 ww same u v = None"
| "mul_calls (Suc calls) ww same u v = mul_step (\<lambda>w. mul_calls calls w False) ww same u v"

definition mpz_mul :: "mpz \<Rightarrow> bool \<Rightarrow> mpz \<Rightarrow> mpz \<Rightarrow> mpz_answer" where
  "mpz_mul ww same u v = mul_calls (sz u + sz v + 1) ww same u v"

definition sp_bigint_mul :: "bool \<Rightarrow> mpz \<Rightarrow> mpz \<Rightarrow> mpz_answer" where
  "sp_bigint_mul same a b = mpz_mul mpz_init same a b"

section \<open>Powers\<close>

text \<open>The highest bit of the exponent, and 0 where it has none.\<close>

fun top_mask :: "nat \<Rightarrow> nat \<Rightarrow> nat" where
  "top_mask msk e = (if msk \<noteq> 0 \<and> msk AND e = 0 then top_mask (msk div 2) e else msk)"

declare top_mask.simps [simp del]

text \<open>The bits below it: a square for each, and a product with \<open>x\<close> where the bit is set.\<close>

function pow_loop :: "mpz \<Rightarrow> nat \<Rightarrow> nat \<Rightarrow> mpz \<Rightarrow> mpz \<Rightarrow> mpz_answer" where
  "pow_loop x e msk zz temp =
     (if msk = 0 then Some (Inr zz)
      else abind (mpz_mul temp True zz zz) (\<lambda>temp.
           if e AND msk \<noteq> 0 then abind (mpz_mul zz False temp x) (\<lambda>zz. pow_loop x e (msk div 2) zz temp)
           else pow_loop x e (msk div 2) temp mpz_init))"
  by pat_completeness auto

termination
  by (relation "measure (\<lambda>(x, e, msk, zz, temp). msk)") auto

declare pow_loop.simps [simp del]

definition mpz_pow :: "mpz \<Rightarrow> nat \<Rightarrow> mpz_answer" where
  "mpz_pow x e =
     (if e = 0 then Some (Inr (mpz_init_set_int 1))
      else let msk = top_mask (2 ^ 63) e; zz = mpz_set mpz_init x
           in if msk = 0 then Some (Inr zz) else pow_loop x e (msk div 2) zz mpz_init)"

definition sp_bigint_pow :: "mpz \<Rightarrow> int \<Rightarrow> mpz_answer" where
  "sp_bigint_pow base exp =
     (if exp < 0 then Some (Inl (RaiseRangeError ''negative exponent'')) else mpz_pow base (nat exp))"

section \<open>The shortcuts are exact\<close>

definition gives :: "mpz big_res \<Rightarrow> int \<Rightarrow> bool" where
  "gives m v \<longleftrightarrow> (\<exists>r. m = Inr r \<and> mpz_canon r \<and> mpz_val r = v)"

lemma givesE: "gives m v \<Longrightarrow> (\<And>r. m = Inr r \<Longrightarrow> mpz_canon r \<Longrightarrow> mpz_val r = v \<Longrightarrow> P) \<Longrightarrow> P"
  by (auto simp: gives_def)

lemma canon_nonzero: "mpz_canon x \<Longrightarrow> zero_p x \<longleftrightarrow> mpz_val x = 0"
  using mpz_canon_simps [of x] by (auto simp: zero_p_def mpz_val_def)

lemma ok_canon: "mpz_ok x \<Longrightarrow> mpz_val x \<noteq> 0 \<Longrightarrow> mpz_canon x"
  by (auto simp: mpz_canon_def mpz_val_def)

lemma canon_dest: "mpz_canon x \<Longrightarrow> mpz_dest x"
  by (simp add: mpz_canon_def)

lemma mul_2exp_gives:
  assumes "mpz_canon x" "\<not> zero_p x" "mpz_dest z" "sz x * DIG_SIZE + e \<le> MRB_BIGINT_BIT_LIMIT"
  shows "gives (mpz_mul_2exp z x e) (mpz_val x * 2 ^ e)"
proof (cases "e = 0")
  case True
  then show ?thesis using mpz_set_trim [of x z] assms by (simp add: gives_def mpz_mul_2exp_def mpz_canon_simps)
next
  case False
  let ?y = "(mpz_init_heap (sz x + e div DIG_SIZE))\<lparr>mp := replicate (e div DIG_SIZE) 0 @ mp x\<rparr>"
  have "0 < lval (mp x)" using mpz_canon_simps [OF assms(1)] assms(2) by (auto simp: zero_p_def)
  then have "\<not> uzero_p ?y" by (simp add: uzero_p_iff lval_append)
  then have "n \<noteq> 0 \<Longrightarrow> ulshift z ?y n = ulshift mpz_init ?y n" for n by (simp add: ulshift_def)
  then have "mpz_mul_2exp z x e = mpz_mul_2exp mpz_init x e" using False by (simp add: mpz_mul_2exp_def Let_def)
  then show ?thesis using mpz_mul_2exp_val [OF assms(1,4)] by (auto simp: gives_def)
qed

lemma set_one: "mpz_dest y \<Longrightarrow> mpz_canon (mpz_set_int y 1) \<and> mpz_val (mpz_set_int y 1) = 1 \<and> sz (mpz_set_int y 1) = 1"
  by (auto simp: mpz_set_int_def Let_def machine_int DIG_BASE_def mpz_realloc_def sz_def mpz_canon_def mpz_ok_def mpz_val_def
      mpz_dest_def u32_def)

lemma pow2_gives: "mpz_dest y \<Longrightarrow> mpz_dest z \<Longrightarrow> DIG_SIZE + e \<le> MRB_BIGINT_BIT_LIMIT \<Longrightarrow> gives (mpz_mul_2exp z (mpz_set_int y 1) e) (2 ^ e)"
  using mul_2exp_gives [of "mpz_set_int y 1" z e] set_one [of y] canon_nonzero [of "mpz_set_int y 1"] by simp

text \<open>All ones.\<close>

lemma ones_limb:
  assumes "x AND (x + 1) = 0" "x \<noteq> 0"
  shows "x + 1 = 2 ^ bit_count x"
  using assms
proof (induction x rule: less_induct)
  case (less x)
  show ?case
  proof (cases "even x")
    case True
    then obtain h where h: "x = 2 * h" by (auto elim: evenE)
    then have "x AND (x + 1) = 2 * h" using and_even(1) [of h h] by simp
    then show ?thesis using less.prems h by simp
  next
    case False
    then obtain h where h: "x = 2 * h + 1" by (auto elim: oddE)
    have "x AND (x + 1) = 2 * (h AND (h + 1))" unfolding h using and_even(2) [of h "h + 1"] by simp
    then have a: "h AND (h + 1) = 0" using less.prems by simp
    have b: "bit_count x = Suc (bit_count h)" using h by (subst bit_count.simps) simp
    show ?thesis
    proof (cases "h = 0")
      case True
      then show ?thesis using b h by (simp add: bit_count.simps [of 0])
    next
      case False
      then have "h + 1 = 2 ^ bit_count h" using less.IH [of h] a h by simp
      then show ?thesis using b h by simp
    qed
  qed
qed

lemma bit_count_le: "x < 2 ^ n \<Longrightarrow> bit_count x \<le> n"
proof (induction n arbitrary: x)
  case (Suc n)
  then show ?case using Suc.IH [of "x div 2"] by (subst bit_count.simps) auto
qed (simp add: bit_count.simps)

lemma ones_full: "bit_count (2 ^ n - 1) = n"
proof (induction n)
  case (Suc n)
  have "((2::nat) ^ Suc n - 1) div 2 = 2 ^ n - 1" by simp
  moreover have "(2::nat) ^ Suc n - 1 \<noteq> 0" using one_less_power [of "2::nat" "Suc n"] by linarith
  ultimately show ?case using Suc by (subst bit_count.simps) simp
qed (simp add: bit_count.simps)

lemma base_power: "DIG_BASE ^ k = 2 ^ (k * DIG_SIZE)"
  by (metis DIG_SIZE_power mult.commute power_mult)

lemma all_ones_limbs: "list_all (\<lambda>l. l = DIG_BASE - 1) xs \<Longrightarrow> lval xs + 1 = DIG_BASE ^ length xs"
proof (induction xs)
  case (Cons x xs)
  have "x = DIG_BASE - 1" using Cons.prems by simp
  then have "lval (x # xs) + 1 = DIG_BASE * (lval xs + 1)" by simp
  moreover have "lval xs + 1 = DIG_BASE ^ length xs" using Cons by simp
  ultimately show ?case by (simp only: length_Cons power_Suc)
qed simp

lemma all_ones_val:
  assumes "mpz_canon x" "mpz_all_ones_p x \<noteq> 0"
  shows "mpz_val x = 2 ^ mpz_all_ones_p x - 1" "mpz_all_ones_p x \<le> sz x * DIG_SIZE"
proof -
  define hi where "hi = last (mp x)"
  have x: "0 < msn x" "mp x \<noteq> []" "list_all (\<lambda>l. l = DIG_BASE - 1) (butlast (mp x))" "hi \<noteq> 0" "hi AND u32 (hi + 1) = 0"
    "mpz_all_ones_p x = (sz x - 1) * DIG_SIZE + bit_count hi"
    using assms(2) by (auto simp: mpz_all_ones_p_def hi_def sz_def Let_def split: if_splits)
  have lt: "hi < DIG_BASE" using mpz_canon_simps(1) [OF assms(1)] x(2) by (simp add: hi_def limbs_ok_def)
  have hi: "hi + 1 = 2 ^ bit_count hi"
  proof (cases "hi + 1 = DIG_BASE")
    case True
    then have "hi = 2 ^ 32 - 1" by (simp add: DIG_BASE_def)
    then show ?thesis using ones_full [of 32] by simp
  next
    case False
    then have "u32 (hi + 1) = hi + 1" using lt by simp
    then show ?thesis using ones_limb x(4,5) by simp
  qed
  have l: "mp x = butlast (mp x) @ [hi]" using x(2) by (simp add: hi_def)
  have n: "length (butlast (mp x)) = sz x - 1" by (simp add: sz_def)
  have "lval (mp x) + 1 = (lval (butlast (mp x)) + 1) + DIG_BASE ^ (sz x - 1) * hi"
    by (subst l) (simp add: lval_append sz_def)
  also have "\<dots> = DIG_BASE ^ (sz x - 1) * (hi + 1)" using all_ones_limbs [OF x(3)] n by simp
  also have "\<dots> = 2 ^ mpz_all_ones_p x"
    unfolding hi x(6) power_add base_power by simp
  finally have "int (lval (mp x)) + 1 = 2 ^ mpz_all_ones_p x" by (metis of_nat_1 of_nat_add of_nat_numeral of_nat_power)
  moreover have "msn x = 1" using x(1) mpz_canon_simps(2) [OF assms(1)] by auto
  ultimately show "mpz_val x = 2 ^ mpz_all_ones_p x - 1" by (simp add: mpz_val_def)
  have "bit_count hi \<le> DIG_SIZE" using bit_count_le [of hi DIG_SIZE] lt by simp
  moreover have "sz x * DIG_SIZE = (sz x - 1) * DIG_SIZE + DIG_SIZE" using x(2) by (cases "mp x") (simp_all add: sz_def)
  ultimately show "mpz_all_ones_p x \<le> sz x * DIG_SIZE" unfolding x(6) by simp
qed

lemma power_of_2_val:
  assumes "mpz_canon x" "mpz_power_of_2_exp x \<noteq> 0"
  shows "mpz_val x = 2 ^ mpz_power_of_2_exp x" "mpz_power_of_2_exp x \<le> sz x * DIG_SIZE"
proof -
  define hi where "hi = last (mp x)"
  have x: "0 < msn x" "mp x \<noteq> []" "list_all (\<lambda>l. l = 0) (butlast (mp x))" "hi \<noteq> 0" "hi AND (hi - 1) = 0"
    "mpz_power_of_2_exp x = (sz x - 1) * DIG_SIZE + ctz hi"
    using assms(2) by (auto simp: mpz_power_of_2_exp_def hi_def sz_def Let_def split: if_splits)
  have lt: "hi < DIG_BASE" using mpz_canon_simps(1) [OF assms(1)] x(2) by (simp add: hi_def limbs_ok_def)
  have hi: "hi = 2 ^ ctz hi" using lowest_bit [OF x(4)] x(5) by simp
  have l: "mp x = butlast (mp x) @ [hi]" using x(2) by (simp add: hi_def)
  have n: "length (butlast (mp x)) = sz x - 1" by (simp add: sz_def)
  have "lval (mp x) = DIG_BASE ^ (sz x - 1) * hi"
    using x(3) by (subst l) (simp add: lval_append sz_def lval_zero_iff [symmetric])
  also have "\<dots> = 2 ^ mpz_power_of_2_exp x"
    unfolding x(6) power_add base_power using hi by simp
  finally have "int (lval (mp x)) = 2 ^ mpz_power_of_2_exp x" by simp
  moreover have "msn x = 1" using x(1) mpz_canon_simps(2) [OF assms(1)] by auto
  ultimately show "mpz_val x = 2 ^ mpz_power_of_2_exp x" by (simp add: mpz_val_def)
  have "(2::nat) ^ ctz hi < 2 ^ DIG_SIZE" using hi lt by simp
  then have "ctz hi < DIG_SIZE" by (rule power_less_imp_less_exp [rotated]) simp
  moreover have "sz x * DIG_SIZE = (sz x - 1) * DIG_SIZE + DIG_SIZE" using x(2) by (cases "mp x") (simp_all add: sz_def)
  ultimately show "mpz_power_of_2_exp x \<le> sz x * DIG_SIZE" unfolding x(6) by simp
qed

lemma canon_unique: "mpz_canon x \<Longrightarrow> mpz_val x = int l \<Longrightarrow> 0 < l \<Longrightarrow> l < DIG_BASE \<Longrightarrow> mp x = [l] \<and> msn x = 1 \<and> \<not> mnull x"
proof -
  assume x: "mpz_canon x" "mpz_val x = int l" and l: "0 < l" "l < DIG_BASE"
  note X = mpz_canon_simps [OF x(1)]
  have s: "msn x = 1" using x(2) X(2) l(1) by (auto simp: mpz_val_def)
  then have v: "lval (mp x) = l" using x(2) by (simp add: mpz_val_def)
  have ne: "mp x \<noteq> []" "last (mp x) \<noteq> 0" using X(3,4) s by auto
  have "DIG_BASE ^ (length (mp x) - 1) < DIG_BASE ^ 1" using lval_last_pos [OF ne] v l(2) by simp
  then have "length (mp x) - 1 < 1" by (rule power_less_imp_less_exp [rotated]) simp
  then obtain k where "mp x = [k]" using ne(1) by (cases "mp x") auto
  then show ?thesis using v s X(6) by auto
qed

lemma add_int_one:
  assumes "mpz_ok x" "0 < mpz_val x"
  shows "mpz_canon (mpz_add_int x 1) \<and> mpz_val (mpz_add_int x 1) = mpz_val x + 1"
proof -
  have s: "0 < msn x" using assms mpz_ok_sgn [of x] by (simp add: sgn_if)
  then have "mpz_ok (mpz_add_int x 1) \<and> mpz_val (mpz_add_int x 1) = mpz_val x + 1"
    using mpz_add_int_val [of x 1] assms(1) by simp
  then show ?thesis using ok_canon assms(2) by auto
qed

text \<open>The square of 1, by which the in-place subtraction leaves a zero limb under a positive sign.\<close>

lemma square_of_one:
  assumes "mpz_canon w" "mpz_val w = 4" "mpz_canon a" "mpz_val a = 4"
  shows "mpz_canon (mpz_add_int (mpz_sub_inplace w a) 1) \<and> mpz_val (mpz_add_int (mpz_sub_inplace w a) 1) = 1"
proof -
  have "mp w = [4] \<and> msn w = 1 \<and> \<not> mnull w" "mp a = [4] \<and> msn a = 1 \<and> \<not> mnull a"
    using canon_unique [of _ 4] assms by (simp_all add: DIG_BASE_def)
  moreover have "mpn_sub [4] [4] = ([0], 0)" by (simp add: mpn_sub_def mpn_sub_n_def machine_int LOWs_def HIGHs_def)
  moreover have "ucmp w a = 0" using calculation by (simp add: ucmp_def sz_def mpn_cmp_def)
  ultimately have s: "mp (mpz_sub_inplace w a) = [0]" "msn (mpz_sub_inplace w a) = 1" "\<not> mnull (mpz_sub_inplace w a)"
    by (simp_all add: mpz_sub_inplace_def Let_def digits_def sz_def)
  have "LOW (u64 1) = 1" "HIGH (u64 1) = 0" by (simp_all add: LOW_def HIGH_def u64_def DIG_BASE_def)
  then have "add_int_loop (nat (wrap_u64 1)) [0] = ([1], 0)" by (simp add: wrap_u64_def Let_def)
  then have "mpz_add_int (mpz_sub_inplace w a) 1 = trim ((mpz_sub_inplace w a)\<lparr>mp := [1]\<rparr>)"
    using s by (simp add: mpz_add_int_def)
  then show ?thesis using s trim_ok [of "(mpz_sub_inplace w a)\<lparr>mp := [1]\<rparr>"] by (simp add: mpz_val_def)
qed

lemma all_ones_square: "1 < n \<Longrightarrow> (0::int) < 4 ^ n - 2 * 2 ^ n"
proof -
  assume n: "1 < n"
  have "(2::int) ^ 1 < 2 ^ n" using n by (rule power_strict_increasing) simp
  then have "2 * (2::int) ^ n < 2 ^ n * 2 ^ n" by (intro mult_strict_right_mono) simp_all
  then show ?thesis by (simp flip: power_mult_distrib)
qed

lemma mul_all_ones_gives:
  assumes "mpz_dest w" "0 < n" "0 < m" "DIG_SIZE + (n + m) \<le> MRB_BIGINT_BIT_LIMIT"
  shows "gives (mpz_mul_all_ones w n m) ((2 ^ n - 1) * (2 ^ m - 1))"
proof (cases "n = m")
  case True
  obtain p where p: "mpz_mul_2exp w (mpz_set_int mpz_init 1) (2 * n) = Inr p" "mpz_canon p" "mpz_val p = 2 ^ (2 * n)"
    using pow2_gives [of mpz_init w "2 * n"] assms True by (auto elim!: givesE)
  let ?a = "mpz_set_int (mpz_set_int mpz_init 1) 1"
  have a1: "mpz_dest (mpz_set_int mpz_init 1)" "mpz_dest ?a" using set_one canon_dest by simp_all
  obtain q where q: "mpz_mul_2exp ?a ?a (n + 1) = Inr q" "mpz_canon q" "mpz_val q = 2 ^ (n + 1)"
    using pow2_gives [of "mpz_set_int mpz_init 1" ?a "n + 1"] a1 assms True by (auto elim!: givesE)
  have e: "mpz_mul_all_ones w n m = Inr (mpz_add_int (mpz_sub_inplace p q) 1)"
    using True p(1) q(1) by (simp add: mpz_mul_all_ones_def Let_def)
  have "mpz_canon (mpz_add_int (mpz_sub_inplace p q) 1) \<and> mpz_val (mpz_add_int (mpz_sub_inplace p q) 1) = 2 ^ (2 * n) - 2 ^ (n + 1) + 1"
  proof (cases "n = 1")
    case True
    then show ?thesis using square_of_one [of p q] p q by simp
  next
    case False
    then have pos: "0 < (2::int) ^ (2 * n) - 2 ^ (n + 1)" using all_ones_square [of n] assms(2) by (simp add: power_mult)
    then have "mpz_ok (mpz_sub_inplace p q) \<and> mpz_val (mpz_sub_inplace p q) = 2 ^ (2 * n) - 2 ^ (n + 1)"
      using mpz_sub_inplace_val [of p q] p q by (simp add: mpz_canon_def)
    then show ?thesis using add_int_one [of "mpz_sub_inplace p q"] pos by simp
  qed
  moreover have "(2 ^ n - 1) * (2 ^ m - 1) = (2 ^ (2 * n) - 2 ^ (n + 1) + 1 :: int)"
    using True by (simp add: algebra_simps mult_2_right power_add)
  ultimately show ?thesis using e by (simp add: gives_def)
next
  case False
  obtain p where p: "mpz_mul_2exp w (mpz_set_int mpz_init 1) (n + m) = Inr p" "mpz_canon p" "mpz_val p = 2 ^ (n + m)"
    using pow2_gives [of mpz_init w "n + m"] assms by (auto elim!: givesE)
  let ?a = "mpz_set_int (mpz_set_int mpz_init 1) 1" and ?b = "mpz_set_int mpz_init 1"
  have a1: "mpz_dest ?b" "mpz_dest ?a" using set_one canon_dest by simp_all
  obtain q where q: "mpz_mul_2exp ?a ?a n = Inr q" "mpz_canon q" "mpz_val q = 2 ^ n"
    using pow2_gives [of ?b ?a n] a1 assms by (auto elim!: givesE)
  obtain s where s: "mpz_mul_2exp ?b ?b m = Inr s" "mpz_canon s" "mpz_val s = 2 ^ m"
    using pow2_gives [of mpz_init ?b m] a1 assms by (auto elim!: givesE)
  have e: "mpz_mul_all_ones w n m = Inr (mpz_add_int (mpz_sub_inplace (mpz_sub_inplace p q) s) 1)"
    using False p(1) q(1) s(1) by (simp add: mpz_mul_all_ones_def Let_def)
  have pw: "(2::int) \<le> 2 ^ n" "(2::int) \<le> 2 ^ m"
    using power_increasing [of 1 n "2::int"] power_increasing [of 1 m "2::int"] assms(2,3) by simp_all
  have "(2::int) ^ n \<noteq> 2 ^ m" using False by simp
  then have "(4::int) \<le> 2 ^ n \<or> (4::int) \<le> 2 ^ m"
    using False assms(2,3) power_increasing [of 2 n "2::int"] power_increasing [of 2 m "2::int"] by (cases "2 \<le> n") auto
  then have "2 * 2 + 2 \<le> (2::int) ^ n + 2 ^ m" "0 < ((2::int) ^ n - 1) * (2 ^ m - 1) - 1"
    using pw mult_mono [of 3 "2 ^ n - 1" 1 "2 ^ m - 1 :: int"] mult_mono [of 1 "2 ^ n - 1" 3 "2 ^ m - 1 :: int"] by auto
  then have pos: "0 < (2::int) ^ (n + m) - 2 ^ n - 2 ^ m" by (simp add: power_add algebra_simps)
  then have 1: "mpz_ok (mpz_sub_inplace p q)" "mpz_val (mpz_sub_inplace p q) = 2 ^ (n + m) - 2 ^ n"
    using mpz_sub_inplace_val [of p q] p q assms(3) by (simp_all add: mpz_canon_def)
  then have 2: "mpz_ok (mpz_sub_inplace (mpz_sub_inplace p q) s)"
    "mpz_val (mpz_sub_inplace (mpz_sub_inplace p q) s) = 2 ^ (n + m) - 2 ^ n - 2 ^ m"
    using mpz_sub_inplace_val [of "mpz_sub_inplace p q" s] s pos by (simp_all add: mpz_canon_def)
  then show ?thesis using e add_int_one [of "mpz_sub_inplace (mpz_sub_inplace p q) s"] pos
    by (simp add: gives_def power_add algebra_simps)
qed

lemma mpz_set_ok: "mpz_ok t \<Longrightarrow> mpz_dest w \<Longrightarrow> mpz_ok (mpz_set w t) \<and> mpz_val (mpz_set w t) = mpz_val t"
  by (auto simp: mpz_set_def mpz_ok_def mpz_val_def mpz_realloc_def mpz_dest_def sz_def)

lemma sparse_limb_gives:
  assumes "mpz_canon dense" "\<not> zero_p dense" "limb < DIG_BASE" "mpz_ok w" "mpz_dest shifted" "mpz_dest temp"
    "(sz dense + 1) * DIG_SIZE + base_bit \<le> MRB_BIGINT_BIT_LIMIT"
  shows "\<exists>w' shifted' temp'. sparse_limb dense base_bit limb (w, shifted, temp) = Inr (w', shifted', temp') \<and>
    mpz_ok w' \<and> mpz_dest shifted' \<and> mpz_dest temp' \<and> mpz_val w' = mpz_val w + mpz_val dense * 2 ^ base_bit * int limb"
  using assms(3-6)
proof (induction limb arbitrary: w shifted temp rule: less_induct)
  case (less limb)
  show ?case
  proof (cases "limb = 0")
    case True
    then show ?thesis using less.prems by (simp add: sparse_limb.simps)
  next
    case False
    note lb = lowest_bit [OF False]
    have "(2::nat) ^ ctz limb < 2 ^ DIG_SIZE" using lb less.prems(1) by simp
    then have c: "ctz limb < DIG_SIZE" by (rule power_less_imp_less_exp [rotated]) simp
    obtain s where s: "mpz_mul_2exp shifted dense (base_bit + ctz limb) = Inr s" "mpz_canon s"
      "mpz_val s = mpz_val dense * 2 ^ (base_bit + ctz limb)"
      by (rule givesE [OF mul_2exp_gives [OF assms(1,2) less.prems(3), of "base_bit + ctz limb"]]) (use assms(7) c in simp)
    let ?t = "mpz_add temp w s"
    have t: "mpz_canon ?t" "mpz_val ?t = mpz_val w + mpz_val dense * 2 ^ (base_bit + ctz limb)"
      using mpz_add_val [of w s temp] less.prems s by (simp_all add: mpz_canon_def)
    then have w: "mpz_ok (mpz_set w ?t)" "mpz_val (mpz_set w ?t) = mpz_val ?t" "mpz_dest ?t" "mpz_dest s"
      using mpz_set_ok [of ?t w] less.prems s canon_dest by (simp_all add: mpz_canon_def)
    have lt: "limb AND (limb - 1) < limb" "limb AND (limb - 1) < DIG_BASE" using clear_lowest_less [OF False] less.prems(1) by simp_all
    have "int limb = int (limb AND (limb - 1)) + 2 ^ ctz limb" using lb by (simp add: of_nat_diff)
    then show ?thesis using less.IH [OF lt w(1,4,3)] s(1) False t(2) w(2)
      by (subst sparse_limb.simps) (auto simp: algebra_simps power_add)
  qed
qed

lemma sparse_limbs_gives:
  assumes "mpz_canon dense" "\<not> zero_p dense" "limbs_ok ls" "mpz_ok w" "mpz_dest shifted" "mpz_dest temp"
    "(sz dense + length ls + 1) * DIG_SIZE + base_bit \<le> MRB_BIGINT_BIT_LIMIT"
  shows "\<exists>w' shifted' temp'. sparse_limbs dense base_bit ls (w, shifted, temp) = Inr (w', shifted', temp') \<and>
    mpz_ok w' \<and> mpz_val w' = mpz_val w + mpz_val dense * 2 ^ base_bit * int (lval ls)"
  using assms(3-)
proof (induction ls arbitrary: base_bit w shifted temp)
  case (Cons l ls)
  have room: "(sz dense + 1) * DIG_SIZE + base_bit \<le> MRB_BIGINT_BIT_LIMIT"
    "(sz dense + length ls + 1) * DIG_SIZE + (base_bit + DIG_SIZE) \<le> MRB_BIGINT_BIT_LIMIT"
    using Cons.prems(5) by (simp_all add: add_mult_distrib)
  obtain w' s' t' where 1: "sparse_limb dense base_bit l (w, shifted, temp) = Inr (w', s', t')" "mpz_ok w'" "mpz_dest s'" "mpz_dest t'"
    "mpz_val w' = mpz_val w + mpz_val dense * 2 ^ base_bit * int l"
    using sparse_limb_gives [OF assms(1,2), of l w shifted temp base_bit] Cons.prems room(1) by auto
  obtain w2 s2 t2 where 2: "sparse_limbs dense (base_bit + DIG_SIZE) ls (w', s', t') = Inr (w2, s2, t2)" "mpz_ok w2"
    "mpz_val w2 = mpz_val w' + mpz_val dense * 2 ^ (base_bit + DIG_SIZE) * int (lval ls)"
    using Cons.IH [of w' s' t' "base_bit + DIG_SIZE"] Cons.prems 1 room(2) by auto
  have "(2::int) ^ (base_bit + DIG_SIZE) = 2 ^ base_bit * int DIG_BASE" by (simp add: power_add DIG_SIZE_def DIG_BASE_def)
  then show ?case using 1 2 by (simp add: algebra_simps)
qed simp

lemma mul_sparse_gives:
  assumes "mpz_canon sparse" "mpz_canon dense" "\<not> zero_p sparse" "\<not> zero_p dense" "mpz_dest w" "0 < msn sparse"
    "(sz sparse + sz dense + 1) * DIG_SIZE \<le> MRB_BIGINT_BIT_LIMIT"
  shows "gives (mpz_mul_sparse w sparse dense) (mpz_val sparse * mpz_val dense)"
proof -
  have z: "mpz_ok (zero w)" "mpz_val (zero w) = 0" by (auto simp: zero_def mpz_ok_def mpz_val_def)
  obtain w' s' t' where 1: "sparse_limbs dense 0 (mp sparse) (zero w, mpz_init, mpz_init) = Inr (w', s', t')" "mpz_ok w'"
    "mpz_val w' = mpz_val dense * int (lval (mp sparse))"
    using sparse_limbs_gives [OF assms(2,4) mpz_canon_simps(1) [OF assms(1)] z(1), of mpz_init mpz_init 0] z(2) assms(7)
    by (auto simp: sz_def add.commute)
  have "msn sparse = 1" using assms(6) mpz_canon_simps(2) [OF assms(1)] by auto
  then have v: "mpz_val w' = mpz_val sparse * mpz_val dense" using 1(3) by (simp add: mpz_val_def)
  moreover have "mpz_val sparse * mpz_val dense \<noteq> 0" using canon_nonzero assms(1-4) by simp
  ultimately show ?thesis using 1 ok_canon assms(6) by (simp add: gives_def mpz_mul_sparse_def)
qed

section \<open>Squares are exact\<close>

definition answers :: "mpz_answer \<Rightarrow> int \<Rightarrow> bool" where
  "answers m v \<longleftrightarrow> (\<exists>r. m = Some (Inr r) \<and> mpz_canon r \<and> mpz_val r = v)"

lemma answers_gives: "answers (Some m) v \<longleftrightarrow> gives m v"
  by (auto simp: answers_def gives_def)

lemma trim_answers:
  assumes "limbs_ok r" "r \<noteq> []" "s \<in> {-1, 1}" "mpz_dest z"
  shows "answers (Some (Inr (trim ((mpz_realloc z (length r))\<lparr>mp := r, msn := s\<rparr>)))) (s * int (lval r))"
proof -
  let ?z = "(mpz_realloc z (length r))\<lparr>mp := r, msn := s\<rparr>"
  have "\<not> mnull ?z" using assms(2,4) by (auto simp: mpz_realloc_def mpz_dest_def sz_def)
  then have "mpz_canon (trim ?z)" "mpz_val (trim ?z) = mpz_val ?z" using trim_ok [of ?z] assms by auto
  then show ?thesis by (simp add: answers_def mpz_val_def)
qed

lemma sqr_answers:
  assumes "mpz_canon u" "\<not> zero_p u" "mpz_dest ww" "(2 * sz u + 1) * DIG_SIZE \<le> MRB_BIGINT_BIT_LIMIT"
  shows "answers (mpz_sqr ww u) (mpz_val u * mpz_val u)"
proof -
  note U = mpz_canon_simps [OF assms(1)]
  have s: "msn u \<in> {-1, 1}" "mp u \<noteq> []" using U assms(2) by (auto simp: zero_p_def)
  have v: "mpz_val u * mpz_val u = 1 * int (lval (mp u) * lval (mp u))" using s(1) by (auto simp: mpz_val_def)
  consider "mpz_power_of_2_exp u \<noteq> 0" | "mpz_power_of_2_exp u = 0" "mpz_all_ones_p u \<noteq> 0"
    | "mpz_power_of_2_exp u = 0" "mpz_all_ones_p u = 0" "\<not> should_use_toom3 (sz u)"
    | "mpz_power_of_2_exp u = 0" "mpz_all_ones_p u = 0" "should_use_toom3 (sz u)" by blast
  then show ?thesis
  proof cases
    case 1
    note p = power_of_2_val [OF assms(1) 1]
    have "gives (mpz_mul_2exp ww (mpz_set_int mpz_init 1) (2 * mpz_power_of_2_exp u)) (2 ^ (2 * mpz_power_of_2_exp u))"
      using pow2_gives [of mpz_init ww "2 * mpz_power_of_2_exp u"] assms(3,4) p(2) by simp
    moreover have "mpz_val u * mpz_val u = 2 ^ (2 * mpz_power_of_2_exp u)" unfolding p(1) by (simp add: mult_2 power_add)
    ultimately show ?thesis using 1 assms(2) by (simp add: mpz_sqr_def answers_gives)
  next
    case 2
    note p = all_ones_val [OF assms(1) 2(2)]
    then show ?thesis using mul_all_ones_gives [OF assms(3), of "mpz_all_ones_p u" "mpz_all_ones_p u"] 2 assms(2,4)
      by (simp add: mpz_sqr_def answers_gives)
  next
    case 3
    have b: "limbs_ok (mpz_sqr_basic_limbs (mp u))" "length (mpz_sqr_basic_limbs (mp u)) = 2 * sz u"
      "lval (mpz_sqr_basic_limbs (mp u)) = lval (mp u) * lval (mp u)" using mpz_sqr_basic_limbs_val [OF U(1)] by (simp_all add: sz_def)
    have "mpz_sqr_basic_limbs (mp u) \<noteq> []" using b(2) s(2) by (auto simp: sz_def)
    moreover have "(mpz_realloc mpz_init (2 * sz u))\<lparr>mp := r, msn := 1\<rparr> = (mpz_init_heap (2 * sz u))\<lparr>mp := r, msn := 1\<rparr>" for r
      using s(2) by (simp add: mpz_realloc_def mpz_init_heap_def mpz_init_def sz_def)
    ultimately show ?thesis using 3 assms(2) trim_answers [of "mpz_sqr_basic_limbs (mp u)" 1 mpz_init] b v by (simp add: mpz_sqr_def)
  next
    case 4
    let ?S = "toom3_sqr_scratch_size (sz u) + (toom3_sqr_scratch_size (sz u) div 8 + 16)"
    obtain r where r: "mpz_sqr_toom3 (mp u) ?S = Some r" "limbs_ok r" "lval r = lval (mp u) * lval (mp u)" "length r = 2 * sz u + 24"
      using toom3_square [OF U(1), of ?S] 4(3) by (auto simp: sz_def)
    have "r \<noteq> []" using r(4) by auto
    then show ?thesis using trim_answers [OF r(2) _ _ assms(3), of 1] r 4 assms(2) v by (simp add: mpz_sqr_def Let_def)
  qed
qed

section \<open>Products are exact\<close>

text \<open>What the balanced product needs of the product it calls.\<close>

definition mul_ok :: "(mpz \<Rightarrow> mpz \<Rightarrow> mpz \<Rightarrow> mpz_answer) \<Rightarrow> mpz \<Rightarrow> bool" where
  "mul_ok mul b \<longleftrightarrow> (\<forall>w c. mpz_dest w \<longrightarrow> mpz_canon c \<longrightarrow> \<not> zero_p c \<longrightarrow> sz c \<le> sz b \<longrightarrow>
     answers (mul w c b) (mpz_val c * mpz_val b))"

lemma shifted_ok:
  assumes "mpz_canon t" "\<not> zero_p t"
  shows "mpz_ok (t\<lparr>mp := replicate j 0 @ mp t, mnull := False\<rparr>)"
    "mpz_val (t\<lparr>mp := replicate j 0 @ mp t, mnull := False\<rparr>) = int DIG_BASE ^ j * mpz_val t"
  using mpz_canon_simps [OF assms(1)] assms(2) by (auto simp: mpz_ok_def zero_p_def mpz_val_def lval_append)

lemma trim_chunk:
  assumes "limbs_ok l"
  defines "c \<equiv> trim \<lparr>mp = l, mnull = False, msn = 1\<rparr>"
  shows "mpz_canon c" "mpz_val c = int (lval l)" "sz c \<le> length l"
proof -
  show "mpz_canon c" "mpz_val c = int (lval l)"
    using trim_ok [of "\<lparr>mp = l, mnull = False, msn = 1\<rparr>"] assms(1) by (simp_all add: c_def mpz_val_def)
  have "length (trim_limbs l) \<le> length l" by (simp add: trim_limbs_def length_dropWhile_le [THEN order_trans])
  then show "sz c \<le> length l" by (simp add: c_def trim_def Let_def sz_def)
qed

lemma balance_block_ok:
  assumes "mul_ok mul b" "mpz_canon b" "\<not> zero_p b" "limbs_ok l" "length l \<le> sz b" "mpz_ok result" "mpz_dest tmp"
  shows "\<exists>result' tmp'. balance_block mul b l j (result, tmp) = Some (Inr (result', tmp')) \<and> mpz_ok result' \<and> mpz_dest tmp' \<and>
    mpz_val result' = mpz_val result + int DIG_BASE ^ j * (int (lval l) * mpz_val b)"
proof -
  let ?c = "trim \<lparr>mp = l, mnull = False, msn = 1\<rparr>"
  note c = trim_chunk [OF assms(4)]
  show ?thesis
  proof (cases "zero_p ?c")
    case True
    then have "lval l = 0" using canon_nonzero [OF c(1)] c(2) by simp
    then show ?thesis using True assms by (simp add: balance_block_def Let_def)
  next
    case False
    obtain t where t: "mul tmp ?c b = Some (Inr t)" "mpz_canon t" "mpz_val t = mpz_val ?c * mpz_val b"
      using assms(1,5,7) c(1,3) False unfolding mul_ok_def answers_def by (meson order_trans)
    have nz: "\<not> zero_p t" using canon_nonzero [OF t(2)] canon_nonzero [OF c(1)] canon_nonzero [OF assms(2)] t(3) False assms(3) by simp
    define s where "s = (if j > 0 then t\<lparr>mp := replicate j 0 @ mp t, mnull := False\<rparr> else t)"
    have s: "mpz_ok s" "mpz_val s = int DIG_BASE ^ j * (int (lval l) * mpz_val b)"
      using shifted_ok [OF t(2) nz, of j] t c(2) by (auto simp: s_def mpz_canon_def)
    have "balance_block mul b l j (result, tmp) = Some (Inr (mpz_add result result s, s))"
      using False t(1) by (simp add: balance_block_def Let_def abind_def s_def)
    then show ?thesis using mpz_add_val [of result s result] assms(6) s by (simp add: mpz_canon_def)
  qed
qed

lemma balance_blocks_ok:
  assumes "mul_ok mul b" "mpz_canon b" "\<not> zero_p b" "limbs_ok l" "length l < (n + 1) * sz b" "mpz_ok result" "mpz_dest tmp"
  shows "\<exists>result' tmp'. balance_blocks mul b n l j (result, tmp) = Some (Inr (result', tmp')) \<and> mpz_ok result' \<and>
    mpz_val result' = mpz_val result + int DIG_BASE ^ j * (int (lval l) * mpz_val b)"
  using assms(4-)
proof (induction n arbitrary: l j result tmp)
  case 0
  then show ?case using balance_block_ok [OF assms(1-3), of l result tmp j] by (cases "l = []") auto
next
  case (Suc n)
  let ?k = "sz b"
  obtain r t where 1: "balance_block mul b (take ?k l) j (result, tmp) = Some (Inr (r, t))" "mpz_ok r" "mpz_dest t"
    "mpz_val r = mpz_val result + int DIG_BASE ^ j * (int (lval (take ?k l)) * mpz_val b)"
    using balance_block_ok [OF assms(1-3), of "take ?k l" result tmp j] Suc.prems by auto
  obtain r2 t2 where 2: "balance_blocks mul b n (drop ?k l) (j + ?k) (r, t) = Some (Inr (r2, t2))" "mpz_ok r2"
    "mpz_val r2 = mpz_val r + int DIG_BASE ^ (j + ?k) * (int (lval (drop ?k l)) * mpz_val b)"
    using Suc.IH [of "drop ?k l" r t "j + ?k"] Suc.prems 1 by fastforce
  have "lval l = lval (take ?k l) + DIG_BASE ^ ?k * lval (drop ?k l)"
    using lval_split [of l ?k] by (cases "?k \<le> length l") (simp_all add: min_absorb1)
  then have "mpz_val r2 = mpz_val result + int DIG_BASE ^ j * (int (lval l) * mpz_val b)"
    unfolding 2(3) 1(4) by (simp add: power_add algebra_simps)
  then show ?case using 1(1) 2 by (simp add: abind_def)
qed

lemma balance_answers:
  assumes "mpz_canon a" "mpz_canon b" "\<not> zero_p a" "\<not> zero_p b" "sz b \<le> sz a" "mul_ok mul b"
  shows "\<exists>st. balance_blocks mul b (sz a div sz b) (mp a) 0 (mpz_init, mpz_init) = Some (Inr st) \<and>
    mpz_canon ((fst st)\<lparr>msn := msn a * msn b\<rparr>) \<and> mpz_val ((fst st)\<lparr>msn := msn a * msn b\<rparr>) = mpz_val a * mpz_val b"
proof -
  note A = mpz_canon_simps [OF assms(1)] and B = mpz_canon_simps [OF assms(2)]
  have sn: "msn a \<in> {-1, 1}" "msn b \<in> {-1, 1}" "mp b \<noteq> []" using A B assms(3,4) by (auto simp: zero_p_def)
  have "length (mp a) < (sz a div sz b + 1) * sz b"
    using sn(3) dividend_less_div_times [of "sz b" "sz a"] by (simp add: sz_def add.commute)
  then obtain r t where r: "balance_blocks mul b (sz a div sz b) (mp a) 0 (mpz_init, mpz_init) = Some (Inr (r, t))" "mpz_ok r"
    "mpz_val r = int (lval (mp a)) * mpz_val b"
    using balance_blocks_ok [OF assms(6,2,4) A(1), of "sz a div sz b" mpz_init mpz_init 0]
    by (auto simp: mpz_canon_ok mpz_val_def [of mpz_init])
  have nz: "mpz_val a \<noteq> 0" "mpz_val b \<noteq> 0" using canon_nonzero assms(1-4) by simp_all
  then have "mpz_val r \<noteq> 0" using r(3) by (auto simp: mpz_val_def)
  then have c: "mpz_canon r" using ok_canon r(2) by simp
  note R = mpz_canon_simps [OF c]
  have rs: "msn r \<in> {-1, 1}" using \<open>mpz_val r \<noteq> 0\<close> R(2) by (auto simp: mpz_val_def)
  have "int (lval (mp r)) = \<bar>mpz_val r\<bar>" using rs by (auto simp: mpz_val_def)
  also have "\<dots> = int (lval (mp a)) * int (lval (mp b))" unfolding r(3) using sn(2) by (auto simp: mpz_val_def abs_mult)
  finally have "mpz_val (r\<lparr>msn := msn a * msn b\<rparr>) = mpz_val a * mpz_val b" by (simp add: mpz_val_def)
  moreover have "mpz_canon (r\<lparr>msn := msn a * msn b\<rparr>)" using c rs sn by (auto simp: mpz_canon_def mpz_ok_def)
  ultimately show ?thesis using r(1) by auto
qed

lemma mul_balance_answers:
  assumes "mpz_canon u" "mpz_canon v" "\<not> zero_p u" "\<not> zero_p v" "mul_ok mul (if sz u < sz v then u else v)"
  shows "answers (mpz_mul_balance mul u v) (mpz_val u * mpz_val v)"
proof (cases "sz u < sz v")
  case True
  then show ?thesis using balance_answers [OF assms(2,1,4,3), of mul] assms(5)
    by (auto simp: mpz_mul_balance_def answers_def abind_def mult.commute)
next
  case False
  then show ?thesis using balance_answers [OF assms(1-4), of mul] assms(5)
    by (auto simp: mpz_mul_balance_def answers_def abind_def)
qed

lemma mul_by_size_answers:
  assumes "mpz_canon u" "mpz_canon v" "\<not> zero_p u" "\<not> zero_p v" "mpz_dest ww"
    "2 * min (sz u) (sz v) \<le> max (sz u) (sz v) \<Longrightarrow> 100 \<le> min (sz u) (sz v) \<Longrightarrow> mul_ok mul (if sz u < sz v then u else v)"
  shows "answers (mul_by_size mul ww u v) (mpz_val u * mpz_val v)"
proof -
  note U = mpz_canon_simps [OF assms(1)] and V = mpz_canon_simps [OF assms(2)]
  have sn: "msn u * msn v \<in> {-1, 1}" "mp u \<noteq> []" "mp v \<noteq> []" using U V assms(3,4) by (auto simp: zero_p_def)
  have val: "mpz_val u * mpz_val v = msn u * msn v * int (lval (mp u) * lval (mp v))" by (simp add: mpz_val_def)
  have mm: "(if sz u < sz v then sz u else sz v) = min (sz u) (sz v)" "(if sz u > sz v then sz u else sz v) = max (sz u) (sz v)" by simp_all
  consider "2 * min (sz u) (sz v) \<le> max (sz u) (sz v) \<and> should_use_toom3 (min (sz u) (sz v))"
    | "\<not> (2 * min (sz u) (sz v) \<le> max (sz u) (sz v) \<and> should_use_toom3 (min (sz u) (sz v)))" "\<not> should_use_karatsuba (min (sz u) (sz v))"
    | "should_use_karatsuba (min (sz u) (sz v))" "\<not> should_use_toom3 (min (sz u) (sz v))"
    | "\<not> (2 * min (sz u) (sz v) \<le> max (sz u) (sz v) \<and> should_use_toom3 (min (sz u) (sz v)))" "should_use_karatsuba (min (sz u) (sz v))"
      "should_use_toom3 (min (sz u) (sz v))" by blast
  then show ?thesis
  proof cases
    case 1
    then have "mul_ok mul (if sz u < sz v then u else v)" using assms(6) by (simp add: should_use_toom3_def TOOM3_THRESHOLD_def)
    then show ?thesis using mul_balance_answers [OF assms(1-4)] 1 unfolding mul_by_size_def Let_def mm by simp
  next
    case 2
    have "mpz_ok (mpz_mul_basic ww u v) \<and> mpz_val (mpz_mul_basic ww u v) = mpz_val u * mpz_val v"
      using mpz_mul_basic_val [of u v ww] U(7) V(7) assms(5) by simp
    moreover have "mpz_val u * mpz_val v \<noteq> 0" using canon_nonzero assms(1-4) by simp
    ultimately show ?thesis using 2 ok_canon unfolding mul_by_size_def Let_def mm by (auto simp: answers_def)
  next
    case 3
    let ?S = "karatsuba_scratch_size (max (sz u) (sz v)) + (karatsuba_scratch_size (max (sz u) (sz v)) div 8 + 16)"
    obtain r where r: "mpz_mul_karatsuba_limbs (mp u) (mp v) ?S = Some r" "length r = sz u + sz v" "limbs_ok r" "lval r = lval (mp u) * lval (mp v)"
      using karatsuba_product [OF U(1) V(1), of ?S] by (auto simp: sz_def)
    have "r \<noteq> []" using r(2) sn(2) by (auto simp: sz_def)
    then show ?thesis using trim_answers [OF r(3) _ sn(1) assms(5)] r 3 val unfolding mul_by_size_def Let_def mm by simp
  next
    case 4
    let ?S = "toom3_scratch_size (max (sz u) (sz v)) + (toom3_scratch_size (max (sz u) (sz v)) div 8 + 16)"
    obtain r where r: "mpz_mul_toom3 (mp u) (mp v) ?S = Some r" "length r = 2 * max (sz u) (sz v) + 24" "limbs_ok r"
      "lval r = lval (mp u) * lval (mp v)"
      using toom3_product [OF U(1) V(1), of ?S] 4(3) by (auto simp: sz_def)
    have "r \<noteq> []" using r(2) by auto
    then show ?thesis using trim_answers [OF r(3) _ sn(1) assms(5)] r 4 val unfolding mul_by_size_def Let_def mm by simp
  qed
qed

lemma ones_times_gives:
  assumes "mpz_canon y" "\<not> zero_p y" "mpz_dest ww" "sz y * DIG_SIZE + n \<le> MRB_BIGINT_BIT_LIMIT"
  shows "gives (ones_times n ww y) ((2 ^ n - 1) * mpz_val y)"
proof -
  obtain s where s: "mpz_mul_2exp mpz_init y n = Inr s" "mpz_canon s" "mpz_val s = mpz_val y * 2 ^ n"
    by (rule givesE [OF mul_2exp_gives [OF assms(1,2) _ assms(4), of mpz_init]]) simp_all
  then show ?thesis using mpz_sub_val [of s y ww] assms(1,3)
    by (simp add: ones_times_def gives_def mpz_canon_ok algebra_simps)
qed

lemma mul_step_answers:
  assumes "mpz_canon u" "mpz_canon v" "mpz_dest ww" "(sz u + sz v + 1) * DIG_SIZE \<le> MRB_BIGINT_BIT_LIMIT" "same \<longrightarrow> u = v"
    "zero_p u \<or> zero_p v \<longrightarrow> mnull ww"
    "2 * min (sz u) (sz v) \<le> max (sz u) (sz v) \<Longrightarrow> 100 \<le> min (sz u) (sz v) \<Longrightarrow> mul_ok mul (if sz u < sz v then u else v)"
  shows "answers (mul_step mul ww same u v) (mpz_val u * mpz_val v)"
proof (cases "zero_p u \<or> zero_p v")
  case True
  then show ?thesis using assms(6) canon_nonzero assms(1,2)
    by (auto simp: mul_step_def answers_def zero_def mpz_canon_def mpz_ok_def mpz_val_def)
next
  case nz: False
  have lim: "sz v * DIG_SIZE + n \<le> MRB_BIGINT_BIT_LIMIT" if "n \<le> sz u * DIG_SIZE" for n
    using assms(4) that by (simp add: add_mult_distrib)
  have lim': "sz u * DIG_SIZE + n \<le> MRB_BIGINT_BIT_LIMIT" if "n \<le> sz v * DIG_SIZE" for n
    using assms(4) that by (simp add: add_mult_distrib)
  have lim2: "(sz v + sz u + 1) * DIG_SIZE \<le> MRB_BIGINT_BIT_LIMIT" using assms(4) by (simp add: add.commute)
  note ones = all_ones_val [OF assms(1)] all_ones_val [OF assms(2)] and pow = power_of_2_val [OF assms(1)] power_of_2_val [OF assms(2)]
  have sp: "mpz_sparse_p x \<noteq> 0 \<Longrightarrow> 0 < msn x" for x by (auto simp: mpz_sparse_p_def split: if_splits)
  consider (a) "same" | (b) "\<not> same" "mpz_all_ones_p u \<noteq> 0" "mpz_all_ones_p v \<noteq> 0"
    | (c) "\<not> same" "\<not> (mpz_all_ones_p u \<noteq> 0 \<and> mpz_all_ones_p v \<noteq> 0)" by blast
  then show ?thesis
  proof cases
    case a
    then show ?thesis using sqr_answers [of u ww] assms nz by (simp add: mul_step_def mult_2)
  next
    case b
    have "DIG_SIZE + (mpz_all_ones_p u + mpz_all_ones_p v) \<le> MRB_BIGINT_BIT_LIMIT"
      using ones(2) [OF b(2)] ones(4) [OF b(3)] assms(4) by (simp add: add_mult_distrib)
    then show ?thesis using mul_all_ones_gives [OF assms(3), of "mpz_all_ones_p u" "mpz_all_ones_p v"] b nz ones(1) [OF b(2)] ones(3) [OF b(3)]
      by (simp add: mul_step_def answers_gives)
  next
    case c
    consider (u1) "mpz_all_ones_p u \<noteq> 0 \<and> mpz_all_ones_p u \<ge> TOOM3_THRESHOLD * DIG_SIZE"
      | (v1) "\<not> (mpz_all_ones_p u \<noteq> 0 \<and> mpz_all_ones_p u \<ge> TOOM3_THRESHOLD * DIG_SIZE)"
          "mpz_all_ones_p v \<noteq> 0 \<and> mpz_all_ones_p v \<ge> TOOM3_THRESHOLD * DIG_SIZE"
      | (r) "\<not> (mpz_all_ones_p u \<noteq> 0 \<and> mpz_all_ones_p u \<ge> TOOM3_THRESHOLD * DIG_SIZE)"
          "\<not> (mpz_all_ones_p v \<noteq> 0 \<and> mpz_all_ones_p v \<ge> TOOM3_THRESHOLD * DIG_SIZE)" by blast
    then show ?thesis
    proof cases
      case u1
      then show ?thesis using ones_times_gives [OF assms(2) _ assms(3) lim [OF ones(2)]] ones(1) nz c
        by (auto simp: mul_step_def Let_def answers_gives)
    next
      case v1
      then show ?thesis using ones_times_gives [OF assms(1) _ assms(3) lim' [OF ones(4)]] ones(3) nz c
        by (auto simp: mul_step_def Let_def answers_gives mult.commute)
    next
      case r
      have step: "mul_step mul ww same u v =
          (if mpz_power_of_2_exp u \<noteq> 0 then Some (mpz_mul_2exp ww v (mpz_power_of_2_exp u))
           else if mpz_power_of_2_exp v \<noteq> 0 then Some (mpz_mul_2exp ww u (mpz_power_of_2_exp v))
           else if mpz_sparse_p u \<noteq> 0 then Some (mpz_mul_sparse ww u v)
           else if mpz_sparse_p v \<noteq> 0 then Some (mpz_mul_sparse ww v u) else mul_by_size mul ww u v)"
        using c r nz unfolding mul_step_def Let_def by auto
      show ?thesis
        using mul_2exp_gives [OF assms(2) _ assms(3) lim [OF pow(2)]] pow(1) mul_2exp_gives [OF assms(1) _ assms(3) lim' [OF pow(4)]] pow(3)
          mul_sparse_gives [OF assms(1,2) _ _ assms(3) sp assms(4)] mul_sparse_gives [OF assms(2,1) _ _ assms(3) sp lim2]
          mul_by_size_answers [OF assms(1,2) _ _ assms(3,7)] nz
        unfolding step by (auto simp: answers_gives mult.commute)
    qed
  qed
qed

lemma mul_calls_answers:
  assumes "mpz_canon u" "mpz_canon v" "mpz_dest ww" "(sz u + sz v + 1) * DIG_SIZE \<le> MRB_BIGINT_BIT_LIMIT" "same \<longrightarrow> u = v"
    "zero_p u \<or> zero_p v \<longrightarrow> mnull ww" "sz u + sz v < calls"
  shows "answers (mul_calls calls ww same u v) (mpz_val u * mpz_val v)"
  using assms
proof (induction calls arbitrary: ww same u v)
  case (Suc calls)
  have "mul_ok (\<lambda>w. mul_calls calls w False) b"
    if b: "b = (if sz u < sz v then u else v)" and le: "2 * min (sz u) (sz v) \<le> max (sz u) (sz v)" "100 \<le> min (sz u) (sz v)" for b
    unfolding mul_ok_def
  proof (intro allI impI)
    fix w c
    assume c: "mpz_dest w" "mpz_canon c" "\<not> zero_p c" "sz c \<le> sz b"
    have B: "mpz_canon b" "sz b = min (sz u) (sz v)" using b Suc.prems by auto
    have "mp b \<noteq> []" using B(2) le(2) by (auto simp: sz_def)
    then have nz: "\<not> zero_p b" using mpz_canon_simps(3) [OF B(1)] by (simp add: zero_p_def)
    have s: "sz c + sz b < sz u + sz v" using c(4) B(2) le by (auto simp: min_def max_def split: if_splits)
    then have "(sz c + sz b + 1) * DIG_SIZE \<le> (sz u + sz v + 1) * DIG_SIZE" by (intro mult_right_mono) simp_all
    then have lim: "(sz c + sz b + 1) * DIG_SIZE \<le> MRB_BIGINT_BIT_LIMIT" using Suc.prems(4) by linarith
    show "answers (mul_calls calls w False c b) (mpz_val c * mpz_val b)"
      using Suc.IH [OF c(2) B(1) c(1) lim, of False] c(3) nz s Suc.prems(7) by simp
  qed
  then show ?case using mul_step_answers [OF Suc.prems(1-6), of "\<lambda>w. mul_calls calls w False"] by simp
qed simp

lemma mpz_mul_answers:
  assumes "mpz_canon u" "mpz_canon v" "mpz_dest ww" "(sz u + sz v + 1) * DIG_SIZE \<le> MRB_BIGINT_BIT_LIMIT" "same \<longrightarrow> u = v"
    "zero_p u \<or> zero_p v \<longrightarrow> mnull ww"
  shows "answers (mpz_mul ww same u v) (mpz_val u * mpz_val v)"
  unfolding mpz_mul_def by (rule mul_calls_answers [OF assms]) simp

lemma mpz_mul_zero: "zero_p u \<or> zero_p v \<Longrightarrow> mpz_mul ww same u v = Some (Inr (zero ww))"
  by (auto simp: mpz_mul_def mul_step_def)

section \<open>Powers are exact\<close>

lemma canon_size: "mpz_canon r \<Longrightarrow> \<bar>mpz_val r\<bar> < int DIG_BASE ^ k \<Longrightarrow> sz r \<le> k"
proof (rule ccontr)
  assume r: "mpz_canon r" and v: "\<bar>mpz_val r\<bar> < int DIG_BASE ^ k" and "\<not> sz r \<le> k"
  then have k: "k \<le> length (mp r) - 1" "mp r \<noteq> []" by (auto simp: sz_def)
  have "DIG_BASE ^ k \<le> DIG_BASE ^ (length (mp r) - 1)" using k(1) by (rule power_increasing) simp
  also have "\<dots> \<le> lval (mp r)" using lval_last_pos [OF k(2)] mpz_canon_simps(4) [OF r] k(2) by simp
  finally have "int DIG_BASE ^ k \<le> int (lval (mp r))" by (metis of_nat_le_iff of_nat_power)
  moreover have "\<bar>mpz_val r\<bar> = int (lval (mp r))" using mpz_canon_simps(2,3) [OF r] k(2) by (auto simp: mpz_val_def abs_mult)
  ultimately show False using v by simp
qed

lemma canon_bound: "mpz_canon x \<Longrightarrow> \<bar>mpz_val x\<bar> < int DIG_BASE ^ sz x"
  using lval_below [OF mpz_canon_simps(1)] mpz_canon_simps(2) by (fastforce simp: mpz_val_def sz_def abs_mult)

text \<open>The limbs of two factors whose product has at most \<open>k\<close> limbs.\<close>

lemma canon_least: "mpz_canon x \<Longrightarrow> \<not> zero_p x \<Longrightarrow> int DIG_BASE ^ (sz x - 1) \<le> \<bar>mpz_val x\<bar>"
proof (rule ccontr)
  assume x: "mpz_canon x" "\<not> zero_p x" and "\<not> int DIG_BASE ^ (sz x - 1) \<le> \<bar>mpz_val x\<bar>"
  then have "sz x \<le> sz x - 1" using canon_size [OF x(1), of "sz x - 1"] by linarith
  then show False using mpz_canon_simps(3) [OF x(1)] x(2) by (cases "mp x") (auto simp: sz_def zero_p_def)
qed

lemma factors_size:
  assumes "mpz_canon u" "mpz_canon v" "\<not> zero_p u" "\<not> zero_p v" "\<bar>mpz_val u * mpz_val v\<bar> < int DIG_BASE ^ k"
  shows "sz u + sz v \<le> k + 1"
proof -
  have "int DIG_BASE ^ (sz u - 1 + (sz v - 1)) \<le> \<bar>mpz_val u\<bar> * \<bar>mpz_val v\<bar>"
    unfolding power_add using canon_least assms(1-4) by (intro mult_mono) simp_all
  then have "int DIG_BASE ^ (sz u - 1 + (sz v - 1)) < int DIG_BASE ^ k" using assms(5) unfolding abs_mult by (rule le_less_trans)
  then have "sz u - 1 + (sz v - 1) < k" by (rule power_less_imp_less_exp [rotated]) (simp add: DIG_BASE_def)
  then show ?thesis by linarith
qed

lemma power_below: "x \<noteq> 0 \<Longrightarrow> k \<le> e \<Longrightarrow> \<bar>x ^ k\<bar> \<le> \<bar>x ^ e\<bar>" for x :: int
  by (simp add: power_abs) (rule power_increasing, simp_all)

lemma shifted_bit: "e div 2 ^ j = 2 * (e div 2 ^ Suc j) + (if e AND 2 ^ j \<noteq> 0 then 1 else 0)" for e :: nat
proof -
  have "e AND 2 ^ j \<noteq> 0 \<longleftrightarrow> bit e j" by (simp add: and_exp_eq_0_iff_not_bit)
  also have "\<dots> \<longleftrightarrow> odd (e div 2 ^ j)" by (simp add: bit_iff_odd)
  finally have b: "e AND 2 ^ j \<noteq> 0 \<longleftrightarrow> odd (e div 2 ^ j)" .
  have "e div 2 ^ Suc j = e div 2 ^ j div 2" by (simp only: power_Suc2 div_mult2_eq)
  then show ?thesis unfolding b by (cases "odd (e div 2 ^ j)") (simp_all add: odd_two_times_div_two_succ)
qed

lemma pow_loop_answers:
  assumes "mpz_canon x" "\<not> zero_p x" "\<bar>mpz_val x ^ e\<bar> < int DIG_BASE ^ n" "(n + 2) * DIG_SIZE \<le> MRB_BIGINT_BIT_LIMIT"
    "mpz_canon zz" "mpz_val zz = mpz_val x ^ (e div 2 ^ j)" "mpz_dest temp" "0 < e div 2 ^ j"
  shows "answers (pow_loop x e (2 ^ j div 2) zz temp) (mpz_val x ^ e)"
  using assms(5-)
proof (induction j arbitrary: zz temp)
  case 0
  then show ?case by (simp add: pow_loop.simps answers_def)
next
  case (Suc j)
  define k where "k = e div 2 ^ Suc j"
  define b where "b = (if e AND 2 ^ j \<noteq> 0 then 1 else 0 :: nat)"
  have kb: "e div 2 ^ j = 2 * k + b" using shifted_bit [of e j] by (simp add: k_def b_def)
  have k: "0 < k" "2 * k + b \<le> e" using Suc.prems(4) kb div_le_dividend [of e "2 ^ j"] by (simp_all add: k_def)
  have nz: "mpz_val x \<noteq> 0" using canon_nonzero assms(1,2) by simp
  have small: "\<bar>mpz_val x ^ i\<bar> < int DIG_BASE ^ n" if "i \<le> e" for i using power_below [OF nz that] assms(3) by linarith
  have room: "(sz u + sz v + 1) * DIG_SIZE \<le> MRB_BIGINT_BIT_LIMIT" if "sz u + sz v \<le> n + 1" for u v
    using order_trans [OF mult_right_mono assms(4), of "sz u + sz v + 1"] that by simp
  have nzz: "\<not> zero_p zz" using canon_nonzero [OF Suc.prems(1)] Suc.prems(2) nz by simp
  have "mpz_val zz * mpz_val zz = mpz_val x ^ (2 * k)" using Suc.prems(2) by (simp add: k_def mult_2 power_add)
  then have lim: "(sz zz + sz zz + 1) * DIG_SIZE \<le> MRB_BIGINT_BIT_LIMIT"
    using factors_size [OF Suc.prems(1,1) nzz nzz] small [of "2 * k"] k(2) by (intro room) simp
  obtain t where t: "mpz_mul temp True zz zz = Some (Inr t)" "mpz_canon t" "mpz_val t = mpz_val x ^ (2 * k)"
    using mpz_mul_answers [OF Suc.prems(1,1,3) lim, of True] nzz Suc.prems(2) by (auto simp: answers_def mult_2 power_add k_def)
  have half: "2 ^ Suc j div 2 = (2::nat) ^ j" by simp
  show ?case
  proof (cases "b = 0")
    case True
    then have "answers (pow_loop x e (2 ^ j div 2) t mpz_init) (mpz_val x ^ e)" using Suc.IH [of t mpz_init] t kb k(1) by simp
    then show ?thesis using t(1) True by (subst pow_loop.simps) (simp add: abind_def b_def half split: if_splits)
  next
    case False
    then have b1: "b = 1" "e AND 2 ^ j \<noteq> 0" by (simp_all add: b_def split: if_splits)
    have nt: "\<not> zero_p t" using canon_nonzero [OF t(2)] t(3) nz by simp
    have tx: "mpz_val t * mpz_val x = mpz_val x ^ (2 * k + 1)" unfolding t(3) by simp
    have lim2: "(sz t + sz x + 1) * DIG_SIZE \<le> MRB_BIGINT_BIT_LIMIT"
      using factors_size [OF t(2) assms(1) nt assms(2)] small [of "2 * k + 1"] k(2) b1(1) unfolding tx by (intro room) simp
    obtain z where z: "mpz_mul zz False t x = Some (Inr z)" "mpz_canon z" "mpz_val z = mpz_val x ^ (2 * k + 1)"
      using mpz_mul_answers [OF t(2) assms(1) canon_dest [OF Suc.prems(1)] lim2, of False] nt assms(2) t(3)
      by (auto simp: answers_def mult.commute)
    have "answers (pow_loop x e (2 ^ j div 2) z t) (mpz_val x ^ e)"
      using Suc.IH [of z t] z kb b1(1) canon_dest [OF t(2)] by simp
    then show ?thesis using t(1) z(1) b1 by (subst pow_loop.simps) (simp add: abind_def half)
  qed
qed

lemma pow_loop_zero: "zero_p x \<Longrightarrow> pow_loop x e msk mpz_init mpz_init = Some (Inr mpz_init)"
proof (induction msk rule: less_induct)
  case (less msk)
  have "mpz_mul mpz_init s mpz_init y = Some (Inr mpz_init)" for s y using mpz_mul_zero [of mpz_init y] by (simp add: zero_p_def)
  then show ?case using less by (subst pow_loop.simps) (simp add: abind_def)
qed

lemma top_mask_val:
  assumes "0 < e" "e < 2 ^ Suc j"
  shows "\<exists>i \<le> j. top_mask (2 ^ j) e = 2 ^ i \<and> e div 2 ^ i = 1"
  using assms(2)
proof (induction j)
  case 0
  then have "e = 1" using assms(1) by simp
  then show ?case by (simp add: top_mask.simps)
next
  case (Suc j)
  have b: "e div 2 ^ Suc j = 0 \<or> e div 2 ^ Suc j = 1" using Suc.prems less_mult_imp_div_less [of e 2 "2 ^ Suc j"] by (simp add: less_2_cases_iff)
  have "e div 2 ^ Suc (Suc j) = 0" using Suc.prems by simp
  then have m: "e AND 2 ^ Suc j \<noteq> 0 \<longleftrightarrow> e div 2 ^ Suc j = 1" using shifted_bit [of e "Suc j"] by auto
  show ?case
  proof (cases "e div 2 ^ Suc j = 1")
    case True
    then show ?thesis using m by (intro exI [of _ "Suc j"]) (subst top_mask.simps, simp add: and.commute)
  next
    case False
    then have "e div 2 ^ Suc j = 0" using b by simp
    then have "e < 2 ^ Suc j" by (simp add: div_eq_0_iff)
    moreover have "top_mask (2 ^ Suc j) e = top_mask (2 ^ j) e"
      using False m by (subst top_mask.simps) (simp add: and.commute)
    ultimately show ?thesis using Suc.IH le_Suc_eq by metis
  qed
qed

lemma mpz_pow_answers:
  assumes "mpz_canon x" "e < 2 ^ 63" "\<bar>mpz_val x ^ e\<bar> < int DIG_BASE ^ n" "(n + 2) * DIG_SIZE \<le> MRB_BIGINT_BIT_LIMIT"
  shows "answers (mpz_pow x e) (mpz_val x ^ e)"
proof (cases "e = 0")
  case True
  then show ?thesis using set_one [of mpz_init] by (simp add: mpz_pow_def answers_def mpz_init_set_int_def)
next
  case False
  then obtain i where i: "top_mask (2 ^ 63) e = 2 ^ i" "e div 2 ^ i = 1" using top_mask_val [of e 63] assms(2) by auto
  have z0: "mpz_set mpz_init x = mpz_init" if "zero_p x"
    using mpz_canon_simps(3) [OF assms(1)] that by (simp add: mpz_set_def mpz_init_def mpz_realloc_def sz_def zero_p_def)
  have z: "mpz_canon (mpz_set mpz_init x)" "mpz_val (mpz_set mpz_init x) = mpz_val x"
    using mpz_set_ok [of x mpz_init] assms(1) by (auto simp: mpz_canon_def mpz_set_def)
  show ?thesis
  proof (cases "zero_p x")
    case True
    then show ?thesis using False i z0 pow_loop_zero [OF True] canon_nonzero [OF assms(1)]
      by (simp add: mpz_pow_def answers_def) (simp add: mpz_val_def)
  next
    case nz: False
    show ?thesis using pow_loop_answers [OF assms(1) nz assms(3,4) z(1), of i mpz_init] z(2) i False by (simp add: mpz_pow_def Let_def)
  qed
qed

text \<open>The limbs of the largest powers, two less than the limit has.\<close>

definition limit_limbs :: nat where
  "limit_limbs = MRB_BIGINT_BIT_LIMIT div DIG_SIZE - 2"

lemma limit_limbs:
  "2 ^ (MRB_BIGINT_BIT_LIMIT - 2 * DIG_SIZE) = int DIG_BASE ^ limit_limbs" "(limit_limbs + 2) * DIG_SIZE \<le> MRB_BIGINT_BIT_LIMIT"
proof -
  have e: "MRB_BIGINT_BIT_LIMIT - 2 * DIG_SIZE = limit_limbs * DIG_SIZE"
    by (simp add: limit_limbs_def MRB_BIGINT_BIT_LIMIT_def DIG_SIZE_def)
  have "int DIG_BASE ^ limit_limbs = int (2 ^ (limit_limbs * DIG_SIZE))" unfolding base_power [symmetric] by simp
  then show "2 ^ (MRB_BIGINT_BIT_LIMIT - 2 * DIG_SIZE) = int DIG_BASE ^ limit_limbs" unfolding e by simp
  show "(limit_limbs + 2) * DIG_SIZE \<le> MRB_BIGINT_BIT_LIMIT" by (simp add: limit_limbs_def MRB_BIGINT_BIT_LIMIT_def DIG_SIZE_def)
qed

section \<open>The properties\<close>

text \<open>
  C3: The product of any two canonical numbers, whichever of the ten ways mpz_mul takes by
  the shape and size of the operands, is the integer product, canonical again, as long as
  the limbs of both operands and one more fit the limit on the size of a number (2^30 bits);
  no array is written outside its bounds.
\<close>
theorem bigint_mul_exact:
  assumes "mpz_canon a" "mpz_canon b" "same \<longrightarrow> a = b" "(sz a + sz b + 1) * DIG_SIZE \<le> MRB_BIGINT_BIT_LIMIT"
  shows "\<exists>r. sp_bigint_mul same a b = Some (Inr r) \<and> mpz_canon r \<and> mpz_val r = mpz_val a * mpz_val b"
  using mpz_mul_answers [OF assms(1,2) _ assms(4,3), of mpz_init] by (simp add: sp_bigint_mul_def answers_def)

lemma replicate_canon:
  assumes "0 < n" "0 < l" "l < DIG_BASE" "s \<in> {-1, 1}"
  shows "mpz_canon \<lparr>mp = replicate n l, mnull = False, msn = s\<rparr>"
  using assms by (auto simp: mpz_canon_def mpz_ok_def limbs_ok_def)

theorem bigint_mul_exact_witness:
  "\<exists>a b r. a = \<lparr>mp = replicate 120 7, mnull = False, msn = 1\<rparr> \<and> b = \<lparr>mp = replicate 110 9, mnull = False, msn = - 1\<rparr> \<and>
     sp_bigint_mul False a b = Some (Inr r) \<and> mpz_val r = mpz_val a * mpz_val b"
proof -
  define a where "a = \<lparr>mp = replicate 120 7, mnull = False, msn = 1\<rparr>"
  define b where "b = \<lparr>mp = replicate 110 9, mnull = False, msn = - 1\<rparr>"
  have c: "mpz_canon a" "mpz_canon b" unfolding a_def b_def by (rule replicate_canon; simp add: DIG_BASE_def)+
  have "(sz a + sz b + 1) * DIG_SIZE \<le> MRB_BIGINT_BIT_LIMIT"
    by (simp add: sz_def DIG_SIZE_def MRB_BIGINT_BIT_LIMIT_def a_def b_def)
  then obtain r where "sp_bigint_mul False a b = Some (Inr r)" "mpz_val r = mpz_val a * mpz_val b"
    using bigint_mul_exact [OF c, of False] by blast
  then show ?thesis unfolding a_def b_def by blast
qed

text \<open>
  C10: A power with an exponent that is not negative is exact and canonical whenever the
  bits of the result are at most the limit on the size of a number (2^30) less two limbs,
  however large the base and the exponent are; a negative exponent raises RangeError.
\<close>
theorem bigint_pow_exact:
  assumes "mpz_canon base" "in_i64 e" "\<bar>mpz_val base ^ nat e\<bar> < 2 ^ (MRB_BIGINT_BIT_LIMIT - 2 * DIG_SIZE)"
  shows "if e < 0 then sp_bigint_pow base e = Some (Inl (RaiseRangeError ''negative exponent''))
    else \<exists>r. sp_bigint_pow base e = Some (Inr r) \<and> mpz_canon r \<and> mpz_val r = mpz_val base ^ nat e"
proof (cases "e < 0")
  case False
  then have "nat e < 2 ^ 63" using assms(2) by (simp add: machine_int nat_less_iff)
  then show ?thesis using mpz_pow_answers [OF assms(1) _ assms(3) [unfolded limit_limbs(1)] limit_limbs(2)] False
    by (simp add: sp_bigint_pow_def answers_def)
qed (simp add: sp_bigint_pow_def)

theorem bigint_pow_exact_witness:
  "\<exists>r. sp_bigint_pow (sp_bigint_new_int (- 2)) 100000001 = Some (Inr r) \<and> mpz_val r = (- 2) ^ 100000001"
proof -
  let ?b = "sp_bigint_new_int (- 2)" and ?e = "100000001 :: nat"
  have b: "mpz_canon ?b" "mpz_val ?b = - 2" using sp_bigint_new_int_val [of "- 2"] by (simp_all add: machine_int)
  have "?e < MRB_BIGINT_BIT_LIMIT - 2 * DIG_SIZE" by (simp add: MRB_BIGINT_BIT_LIMIT_def DIG_SIZE_def)
  from power_strict_increasing [OF this, of "2 :: int"]
  have "\<bar>mpz_val ?b ^ nat 100000001\<bar> < 2 ^ (MRB_BIGINT_BIT_LIMIT - 2 * DIG_SIZE)" unfolding b(2) by (simp only: power_abs abs_minus abs_numeral nat_numeral)
  note p = bigint_pow_exact [OF b(1) _ this]
  have "in_i64 100000001" "\<not> (100000001 :: int) < 0" by (simp_all add: machine_int)
  then show ?thesis using p unfolding b(2) by (simp only: if_False nat_numeral) blast
qed

end
