(* ===== verification/BigDiv.thy ===== *)
theory BigDiv
  imports BigShift
begin

unbundle bit_operations_syntax

text \<open>
  Division of the arbitrary-precision integers (\<^verbatim>\<open>lib/sp_bigint.c\<close>): by one limb, and Knuth's
  Algorithm D for a longer divisor, with the rounding of Ruby's \<^verbatim>\<open>/\<close>, \<^verbatim>\<open>%\<close> and \<^verbatim>\<open>divmod\<close> on top.

  The assertions of the code (the divisor is not zero) are what its callers check first.
\<close>

section \<open>Division by one limb\<close>

fun log2_loop :: "nat \<Rightarrow> nat \<Rightarrow> nat" where
  "log2_loop temp shift = (if temp > 1 then log2_loop (temp div 2) (shift + 1) else shift)"

declare log2_loop.simps [simp del]

text \<open>The in-place right shift of the power-of-two case walks down from the most significant limb.\<close>

fun shift_down :: "nat \<Rightarrow> nat \<Rightarrow> nat list \<Rightarrow> nat list" where
  "shift_down bs carry [] = []"
| "shift_down bs carry (c # cs) =
     ((c div 2 ^ bs) OR carry) # shift_down bs (u32 (c * 2 ^ (DIG_SIZE - bs)) mod DIG_BASE) cs"

fun div_limb_loop :: "nat \<Rightarrow> nat \<Rightarrow> nat list \<Rightarrow> nat list \<times> nat" where
  "div_limb_loop d remainder [] = ([], remainder)"
| "div_limb_loop d remainder (x # xs) =
     (let t = u64 (u64 (remainder * 2 ^ DIG_SIZE) + x); (q, r) = div_limb_loop d (t mod d) xs
      in (u32 (t div d) # q, r))"

text \<open>A result of at most one limb, with the size and sign the code gives it.\<close>

definition limb_result :: "nat \<Rightarrow> mpz" where
  "limb_result l =
     (if l = 0 then \<lparr>mp = [], mnull = False, msn = 0\<rparr> else \<lparr>mp = [l], mnull = False, msn = 1\<rparr>)"

definition pos_trim :: "nat list \<Rightarrow> mpz" where
  "pos_trim l = (let z = trim ((mpz_init_heap (length l))\<lparr>mp := l\<rparr>) in z\<lparr>msn := (if sz z = 0 then 0 else 1)\<rparr>)"

definition div_limb :: "mpz \<Rightarrow> mpz \<Rightarrow> mpz \<Rightarrow> nat \<Rightarrow> (mpz \<times> mpz) big_res" where
  "div_limb q r x d =
     (if zero_p x then Inr (zero q, zero r)
      else if d = 0 then Inl (RaiseZeroDiv ''divided by 0'')
      else if d AND (d - 1) = 0
      then let shift = log2_loop d 0;
               temp_q = (if shift = 0 then mpz_set mpz_init x
                 else let limb_shift = shift div DIG_SIZE; bit_shift = shift mod DIG_SIZE
                   in if limb_shift \<ge> sz x then zero mpz_init
                   else let new_size = sz x - limb_shift; l = take new_size (drop limb_shift (mp x))
                        in pos_trim (if bit_shift = 0 then l else rev (shift_down bit_shift 0 (rev l))))
           in Inr (temp_q, limb_result (mp x ! 0 AND (d - 1)))
      else if sz x = 1 then Inr (limb_result (mp x ! 0 div d), limb_result (mp x ! 0 mod d))
      else let (ql, rem) = div_limb_loop d 0 (rev (mp x)) in Inr (pos_trim (rev ql), limb_result (u32 rem)))"

section \<open>Algorithm D\<close>

text \<open>\<^verbatim>\<open>__builtin_clz\<close> of a limb, and 0 for 0.\<close>

definition lzb :: "nat \<Rightarrow> nat" where
  "lzb x = (if x = 0 then 0 else DIG_SIZE - 1 - log2_loop x 0)"

text \<open>
  The refinement of the estimate. The divisor's high limb \<open>z\<close> is not zero (an assertion of the
  code), so the remainder grows and the loop ends.
\<close>

function qhat_refine :: "nat \<Rightarrow> nat \<Rightarrow> nat \<Rightarrow> nat \<Rightarrow> nat \<Rightarrow> nat \<Rightarrow> nat \<Rightarrow> nat" where
  "qhat_refine z y_second x_third qhat rhat left_side right_side =
     (if qhat \<ge> 2 ^ DIG_SIZE \<or> left_side > right_side
      then let qhat = qhat - 1; rhat = rhat + z
           in if rhat \<ge> 2 ^ DIG_SIZE \<or> z = 0 then qhat
              else qhat_refine z y_second x_third qhat rhat (left_side - y_second)
                     (u64 (u64 (rhat * 2 ^ DIG_SIZE) + x_third))
      else qhat)"
  by pat_completeness auto

termination
  by (relation "measure (\<lambda>(z, y, x, q, r, a, b). DIG_BASE - r)") auto

declare qhat_refine.simps [simp del]

text \<open>Subtracting \<open>qhat\<close> times the divisor: the limbs, and the borrow after them.\<close>

fun mulsub_loop :: "nat \<Rightarrow> int \<Rightarrow> nat list \<Rightarrow> nat list \<Rightarrow> nat list \<times> int" where
  "mulsub_loop qhat borrow (x # xs) (y # ys) =
     (let product = u64 (qhat * y); diff = wrap_i64 (int x - int (LOW product) + borrow);
          (r, k) = mulsub_loop qhat (wrap_i64 (HIGHs diff - int (HIGH product))) xs ys
      in (LOWs diff # r, k))"
| "mulsub_loop qhat borrow _ _ = ([], borrow)"

text \<open>
  The digit of position \<open>j\<close>: \<open>w\<close> is the dividend from limb \<open>j\<close> on, of which the first \<open>yd\<close> limbs and,
  where there is one, the next are changed. A limb past the end is the missing high limb of the
  first position.
\<close>

definition knuth_qhat :: "nat list \<Rightarrow> nat list \<Rightarrow> nat" where
  "knuth_qhat y w =
     (let yd = length y; z = y ! (yd - 1);
          dividend_val = (if length w = yd then w ! (yd - 1)
                          else u64 (u64 (w ! yd * 2 ^ DIG_SIZE) + w ! (yd - 1)));
          qhat = dividend_val div z; rhat = dividend_val mod z
      in if yd \<ge> 2
         then let y_second = y ! (yd - 2); x_third = w ! (yd - 2)
              in qhat_refine z y_second x_third qhat rhat (u64 (qhat * y_second))
                   (u64 (u64 (rhat * 2 ^ DIG_SIZE) + x_third))
         else qhat)"

text \<open>The subtraction of \<open>qhat\<close> times the divisor, and the correction where it was one too many.\<close>

definition knuth_subtract :: "nat list \<Rightarrow> nat list \<Rightarrow> nat \<Rightarrow> nat \<times> nat list" where
  "knuth_subtract y w qhat =
     (if qhat > 0
      then let yd = length y; (r, borrow) = mulsub_loop qhat 0 (take yd w) y;
               (top, borrow) = (case drop yd w of [] \<Rightarrow> ([], borrow)
                 | t # ts \<Rightarrow> (let b = wrap_i64 (borrow + int t) in (LOWs b # ts, HIGHs b)))
           in if borrow < 0
           then let (r2, carry) = add_n_loop 0 r y
                in (u32 (qhat - 1), r2 @ (case top of [] \<Rightarrow> [] | t # ts \<Rightarrow> (if carry > 0 then u32 (t + u32 carry) else t) # ts))
           else (u32 qhat, r @ top)
      else (u32 qhat, w))"

definition knuth_digit :: "nat list \<Rightarrow> nat list \<Rightarrow> nat \<times> nat list" where
  "knuth_digit y w = knuth_subtract y w (knuth_qhat y w)"

text \<open>The digits from position \<open>j\<close> down, the most significant first, and the dividend they leave.\<close>

fun knuth_loop :: "nat list \<Rightarrow> nat list \<Rightarrow> nat \<Rightarrow> nat list \<times> nat list" where
  "knuth_loop y x j =
     (let (qj, w) = knuth_digit y (drop j x); x = take j x @ w
      in case j of 0 \<Rightarrow> ([qj], x) | Suc i \<Rightarrow> (let (q, x) = knuth_loop y x i in (qj # q, x)))"

declare knuth_loop.simps [simp del]

definition udiv :: "mpz \<Rightarrow> mpz \<Rightarrow> mpz \<Rightarrow> mpz \<Rightarrow> (mpz \<times> mpz) big_res" where
  "udiv qq rr xx yy =
     (let cmp = ucmp xx yy
      in if cmp = 0 then Inr (mpz_set_int qq 1, zero rr)
      else if cmp < 0 then Inr (zero qq, mpz_set rr xx)
      else if sz yy = 1 then div_limb qq rr xx (mp yy ! 0)
      else let yd = digits yy; ns = lzb (mp yy ! (yd - 1));
               x = ulshift (mpz_init_heap (sz xx + 1)) xx ns;
               y = trim (ulshift (mpz_init_heap (sz yy)) yy ns);
               xd = digits x; yd = digits y
           in if yd = 0 \<or> mp y ! (yd - 1) = 0 then Inr (zero qq, zero rr)
           else let (q, x') = (if xd \<ge> yd then knuth_loop (take yd (mp y)) (mp x) (xd - yd) else ([], mp x));
                    x = x\<lparr>mp := take yd x'\<rparr>
                in Inr (trim ((mpz_init_heap (xd - yd + 1))\<lparr>mp := rev q\<rparr>), urshift rr x ns))"

section \<open>The rounding of Ruby\<close>

definition mpz_mdiv :: "mpz \<Rightarrow> mpz \<Rightarrow> mpz \<Rightarrow> mpz big_res" where
  "mpz_mdiv q x y =
     (if zero_p x then Inr (mpz_init_set_int 0)
      else case udiv q mpz_init x y of
        Inl e \<Rightarrow> Inl e
      | Inr (q, r) \<Rightarrow>
          (let qsign = msn x * msn y; q = q\<lparr>msn := (if uzero_p q then 0 else qsign)\<rparr>
           in Inr (if \<not> uzero_p r \<and> qsign < 0 then (mpz_add_int q 1)\<lparr>msn := - 1\<rparr> else q)))"

definition mpz_mmod :: "mpz \<Rightarrow> mpz \<Rightarrow> mpz \<Rightarrow> mpz big_res" where
  "mpz_mmod r x y =
     (if msn x = 0 then Inr (zero r)
      else case udiv mpz_init r x y of
        Inl e \<Rightarrow> Inl e
      | Inr (q, r) \<Rightarrow>
          Inr (if uzero_p r then r\<lparr>msn := 0\<rparr>
            else if msn x * msn y > 0 then r\<lparr>msn := msn x\<rparr>
            else if msn x < 0 \<and> msn y > 0 then (let r = r\<lparr>msn := 1\<rparr> in mpz_sub r y r)
            else (let r = r\<lparr>msn := 1\<rparr> in mpz_add r y r)))"

definition mpz_mdivmod :: "mpz \<Rightarrow> mpz \<Rightarrow> mpz \<Rightarrow> mpz \<Rightarrow> (mpz \<times> mpz) big_res" where
  "mpz_mdivmod q r x y =
     (if msn x = 0 then Inr (zero q, zero r)
      else case udiv q r x y of
        Inl e \<Rightarrow> Inl e
      | Inr (q, r) \<Rightarrow>
          (let qsign = msn x * msn y; q = q\<lparr>msn := qsign\<rparr>
           in Inr (if uzero_p r then (q, r\<lparr>msn := 0\<rparr>)
             else let r = (if msn q > 0 then r\<lparr>msn := msn x\<rparr>
                      else if msn x < 0 \<and> msn y > 0 then (let r = r\<lparr>msn := 1\<rparr> in mpz_sub r y r)
                      else (let r = r\<lparr>msn := 1\<rparr> in mpz_add r y r));
                    q = (if uzero_p q then q\<lparr>msn := 0\<rparr> else q)
                  in (if \<not> uzero_p r \<and> qsign < 0 then (mpz_add_int q 1)\<lparr>msn := - 1\<rparr> else q, r))))"

text \<open>The entry points test for a zero divisor themselves.\<close>

definition sp_bigint_div :: "mpz \<Rightarrow> mpz \<Rightarrow> mpz big_res" where
  "sp_bigint_div a b = (if zero_p b then Inl (RaiseZeroDiv ''divided by 0'') else mpz_mdiv mpz_init a b)"

definition sp_bigint_mod :: "mpz \<Rightarrow> mpz \<Rightarrow> mpz big_res" where
  "sp_bigint_mod a b = (if zero_p b then Inl (RaiseZeroDiv ''divided by 0'') else mpz_mmod mpz_init a b)"

definition sp_bigint_remainder :: "mpz \<Rightarrow> mpz \<Rightarrow> mpz big_res" where
  "sp_bigint_remainder a b =
     (case sp_bigint_mod a b of Inl e \<Rightarrow> Inl e
      | Inr r \<Rightarrow> Inr (if sp_bigint_sign r \<noteq> 0 \<and> sp_bigint_sign a \<noteq> sp_bigint_sign b then sp_bigint_sub r b else r))"

section \<open>Division by one limb is exact\<close>

lemma log2_loop_add: "log2_loop t s = log2_loop t 0 + s"
proof (induction t arbitrary: s rule: less_induct)
  case (less t)
  show ?case
  proof (cases "t > 1")
    case True
    then have lt: "t div 2 < t" by simp
    have "log2_loop t s = log2_loop (t div 2) 0 + (s + 1)" "log2_loop t 0 = log2_loop (t div 2) 0 + (0 + 1)"
      unfolding less.IH [OF lt, symmetric] using True by (simp_all only: log2_loop.simps [of t] if_True)
    then show ?thesis by simp
  qed (simp add: log2_loop.simps)
qed

lemma log2_loop_bounds: "0 < t \<Longrightarrow> 2 ^ log2_loop t 0 \<le> t \<and> t < 2 ^ Suc (log2_loop t 0)"
proof (induction t rule: less_induct)
  case (less t)
  show ?case
  proof (cases "t > 1")
    case True
    have eq: "log2_loop t 0 = Suc (log2_loop (t div 2) 0)"
      using True log2_loop_add [of "t div 2" 1] by (simp add: log2_loop.simps [of t])
    have "2 ^ log2_loop (t div 2) 0 \<le> t div 2 \<and> t div 2 < 2 ^ Suc (log2_loop (t div 2) 0)"
      using less.IH [of "t div 2"] True by simp
    then show ?thesis unfolding eq power_Suc by linarith
  qed (use less.prems in \<open>simp add: log2_loop.simps\<close>)
qed

lemma pow2_test: "0 < d \<Longrightarrow> d AND (d - 1) = 0 \<Longrightarrow> d = 2 ^ log2_loop d 0"
proof (induction d rule: less_induct)
  case (less d)
  show ?case
  proof (cases "d = 1")
    case False
    have r: "d AND (d - 1) = of_bool (odd d \<and> odd (d - 1)) + 2 * ((d div 2) AND ((d - 1) div 2))" by (rule and_rec)
    have z: "(d div 2) AND ((d - 1) div 2) = 0" using r unfolding less.prems(2) by simp
    have ev: "even d"
    proof (rule ccontr)
      assume "odd d"
      then have "(d - 1) div 2 = d div 2" by presburger
      then have "d div 2 = 0" using z by simp
      then show False using False less.prems(1) \<open>odd d\<close> by (auto elim: oddE)
    qed
    then have d: "d = 2 * (d div 2)" "(d - 1) div 2 = d div 2 - 1" "0 < d div 2" using less.prems(1) by (auto elim: evenE)
    have "d div 2 = 2 ^ log2_loop (d div 2) 0" by (rule less.IH) (use d z in simp_all)
    moreover have "log2_loop d 0 = Suc (log2_loop (d div 2) 0)"
      using False less.prems(1) log2_loop_add [of "d div 2" 1] by (simp add: log2_loop.simps [of d])
    ultimately show ?thesis using d(1) by (metis power_Suc)
  qed (simp add: log2_loop.simps)
qed

lemma shift_down_append:
  "shift_down bs carry (cs @ [a]) = shift_down bs carry cs @
     [(a div 2 ^ bs) OR (if cs = [] then carry else u32 (last cs * 2 ^ (DIG_SIZE - bs)) mod DIG_BASE)]"
  by (induction cs arbitrary: carry) auto

lemma or_limb_less: "a < DIG_BASE \<Longrightarrow> (a div 2 ^ n) OR u32 b < DIG_BASE"
  using nat_op_less(2) [of "a div 2 ^ n" "u32 b"] by (simp add: le_less_trans [OF div_le_dividend])

lemma shift_down_rshift:
  "limbs_ok xs \<Longrightarrow> rev (shift_down bs 0 (rev xs)) = rshift_loop bs xs"
proof (induction bs xs rule: rshift_loop.induct)
  case (2 cnt a)
  then show ?case by (simp add: le_less_trans [OF div_le_dividend])
next
  case (3 cnt a b as)
  have "rev (a # b # as) = rev (b # as) @ [a]" by simp
  then have "rev (shift_down cnt 0 (rev (a # b # as))) =
      ((a div 2 ^ cnt) OR u32 (b * 2 ^ (DIG_SIZE - cnt)) mod DIG_BASE) # rev (shift_down cnt 0 (rev (b # as)))"
    unfolding \<open>rev (a # b # as) = rev (b # as) @ [a]\<close> shift_down_append by simp
  then show ?case using 3 or_limb_less [of a cnt "b * 2 ^ (DIG_SIZE - cnt)"] by simp
qed simp

lemma div_limb_loop_val:
  assumes "limbs_ok xs" "r < d" "d < DIG_BASE"
  shows "\<exists>q r'. div_limb_loop d r xs = (q, r') \<and> limbs_ok q \<and> length q = length xs \<and> r' < d \<and>
    r * DIG_BASE ^ length xs + lval (rev xs) = d * lval (rev q) + r'"
  using assms
proof (induction xs arbitrary: r)
  case (Cons x xs)
  let ?t = "r * DIG_BASE + x"
  have "Suc r * DIG_BASE \<le> d * DIG_BASE" using Cons.prems by (intro mult_right_mono) simp_all
  then have lt: "?t < d * DIG_BASE" using Cons.prems by simp
  then have "?t < DIG_BASE * DIG_BASE" using Cons.prems(3) by (meson less_le_trans less_imp_le mult_le_mono1)
  moreover have "u64 (r * DIG_BASE) = r * DIG_BASE" by (rule u64_id) (use calculation in linarith)
  ultimately have u: "u64 (u64 (r * 2 ^ DIG_SIZE) + x) = ?t" using u64_id by simp
  have q: "?t div d < DIG_BASE" using lt by (simp add: less_mult_imp_div_less mult.commute)
  obtain q r' where IH: "div_limb_loop d (?t mod d) xs = (q, r')" "limbs_ok q" "length q = length xs" "r' < d"
    "(?t mod d) * DIG_BASE ^ length xs + lval (rev xs) = d * lval (rev q) + r'"
    using Cons.IH [of "?t mod d"] Cons.prems by auto
  have "r * DIG_BASE ^ length (x # xs) + lval (rev (x # xs)) = ?t * DIG_BASE ^ length xs + lval (rev xs)"
    by (simp add: lval_append algebra_simps)
  also have "\<dots> = (d * (?t div d) + ?t mod d) * DIG_BASE ^ length xs + lval (rev xs)" by simp
  also have "\<dots> = d * ((?t div d) * DIG_BASE ^ length xs) + ((?t mod d) * DIG_BASE ^ length xs + lval (rev xs))"
    by (simp only: algebra_simps)
  also have "\<dots> = d * lval (rev (?t div d # q)) + r'" unfolding IH(5) by (simp add: lval_append IH(3) algebra_simps)
  finally show ?case using IH q u by (simp add: Let_def)
qed simp

text \<open>What the callers use of a quotient and a remainder: limbs without leading zeros, no sign.\<close>

definition mag_ok :: "mpz \<Rightarrow> nat \<Rightarrow> bool" where
  "mag_ok z v \<longleftrightarrow> limbs_ok (mp z) \<and> (mnull z \<longrightarrow> mp z = []) \<and> (mp z = [] \<or> last (mp z) \<noteq> 0) \<and> lval (mp z) = v"

lemma limb_result_ok: "l < DIG_BASE \<Longrightarrow> mag_ok (limb_result l) l"
  by (simp add: limb_result_def mag_ok_def)

lemma trim_mag: "limbs_ok l \<Longrightarrow> (mnull z \<longrightarrow> l = []) \<Longrightarrow> mag_ok (trim (z\<lparr>mp := l\<rparr>)) (lval l)"
  using trim_limbs_last [of l] by (cases "trim_limbs l = []") (auto simp: mag_ok_def trim_mp dest: trim_limbs_Nil_iff [THEN iffD1])

lemma pos_trim_ok: "limbs_ok l \<Longrightarrow> mag_ok (pos_trim l) (lval l)"
proof -
  assume "limbs_ok l"
  then have "mag_ok (trim ((mpz_init_heap (length l))\<lparr>mp := l\<rparr>)) (lval l)" by (rule trim_mag) (simp add: mpz_init_heap_def)
  then show ?thesis unfolding pos_trim_def Let_def by (simp add: mag_ok_def)
qed

lemma div_limb_val:
  assumes "mpz_canon x" "\<not> zero_p x" "0 < d" "d < DIG_BASE"
  shows "\<exists>q' r'. div_limb q r x d = Inr (q', r') \<and> mag_ok q' (lval (mp x) div d) \<and> mag_ok r' (lval (mp x) mod d)"
proof -
  note X = mpz_canon_simps [OF assms(1)]
  obtain l ls where l: "mp x = l # ls" using X(3) assms(2) by (cases "mp x") (auto simp: zero_p_def)
  consider "d AND (d - 1) = 0" | "d AND (d - 1) \<noteq> 0" "sz x = 1" | "d AND (d - 1) \<noteq> 0" "sz x \<noteq> 1" by blast
  then show ?thesis
  proof cases
    case 1
    let ?s = "log2_loop d 0"
    have d: "d = 2 ^ ?s" using pow2_test assms(3) 1 by simp
    have s: "?s < DIG_SIZE" using assms(4) d DIG_SIZE_power by (metis power_less_imp_less_exp one_less_numeral_iff semiring_norm(76))
    have "lval (mp x) mod d = l mod d" using drop_mod [of 0 "mp x" ?s] s l d by simp
    moreover have "l AND (d - 1) = l mod d" using and_mask_nat [of l ?s] d by simp
    moreover have "l mod d < DIG_BASE" using assms(3,4) by (meson less_trans mod_less_divisor)
    ultimately have r: "mag_ok (limb_result (mp x ! 0 AND (d - 1))) (lval (mp x) mod d)" using limb_result_ok l by simp
    show ?thesis
    proof (cases "?s = 0")
      case True
      have "mag_ok (mpz_set mpz_init x) (lval (mp x) div d)"
        using X True d by (auto simp: mag_ok_def mpz_set_def mpz_realloc_def sz_def)
      then show ?thesis using r True 1 assms by (simp add: div_limb_def Let_def)
    next
      case False
      have "mag_ok (pos_trim (rshift_loop ?s (mp x))) (lval (mp x) div d)"
        using pos_trim_ok [of "rshift_loop ?s (mp x)"] rshift_loop_val [of "mp x" ?s] X(1) s d by simp
      then show ?thesis using r False 1 assms s shift_down_rshift [OF X(1)] l
        by (simp add: div_limb_def Let_def sz_def)
    qed
  next
    case 2
    then have "ls = []" "l < DIG_BASE" using l X(1) by (simp_all add: sz_def)
    moreover have "l div d < DIG_BASE" "l mod d < DIG_BASE"
      using \<open>l < DIG_BASE\<close> assms(3,4) by (meson le_less_trans div_le_dividend mod_less_eq_dividend)+
    ultimately show ?thesis using 2 assms limb_result_ok l by (simp add: div_limb_def)
  next
    case 3
    obtain q' r' where q: "div_limb_loop d 0 (rev (mp x)) = (q', r')" "limbs_ok q'" "r' < d" "lval (mp x) = d * lval (rev q') + r'"
      using div_limb_loop_val [of "rev (mp x)" 0 d] X(1) assms(3,4) by auto
    have "lval (mp x) div d = lval (rev q')" "lval (mp x) mod d = r'" using q(3,4) by simp_all
    moreover have "r' < DIG_BASE" using q(3) assms(4) by simp
    ultimately show ?thesis using 3 assms q pos_trim_ok [of "rev q'"] limb_result_ok [of r'] by (simp add: div_limb_def)
  qed
qed

section \<open>The digits of Algorithm D are exact\<close>

lemma u64_pair:
  assumes "t < DIG_BASE" "u < DIG_BASE"
  shows "u64 (u64 (t * DIG_BASE) + u) = t * DIG_BASE + u" "t * DIG_BASE + u < DIG_BASE * DIG_BASE"
proof -
  show lt: "t * DIG_BASE + u < DIG_BASE * DIG_BASE"
    using mult_right_mono [of "Suc t" DIG_BASE DIG_BASE] assms by simp
  have "u64 (t * DIG_BASE) = t * DIG_BASE" by (rule u64_id) (use lt in linarith)
  then show "u64 (u64 (t * DIG_BASE) + u) = t * DIG_BASE + u" using u64_id [OF lt] by simp
qed

text \<open>
  \<open>Y\<close> is the divisor, \<open>U\<close> the dividend above the digit: their high limbs, and the rest below \<open>W\<close>. The
  refined estimate is the digit or one more.
\<close>

lemma estimate_high:
  fixes z y2 D u0 W rest low p :: nat
  assumes "rest < W" "low < W" "p * z \<le> D" "(D - p * z) * DIG_BASE + u0 < p * y2"
  shows "(D * DIG_BASE + u0) * W + low < p * ((z * DIG_BASE + y2) * W + rest)"
proof -
  have "D * DIG_BASE + u0 < p * (z * DIG_BASE + y2)"
  proof -
    have "D * DIG_BASE = p * z * DIG_BASE + (D - p * z) * DIG_BASE"
      using assms(3) by (simp flip: add_mult_distrib)
    then show ?thesis using assms(4) by (simp add: algebra_simps)
  qed
  then have "(D * DIG_BASE + u0 + 1) * W \<le> p * (z * DIG_BASE + y2) * W" by (intro mult_right_mono) simp_all
  then show ?thesis using assms(2) by (simp add: algebra_simps)
qed

lemma estimate_low:
  fixes z y2 D u0 W rest low r :: nat
  assumes "rest < W" "r * z \<le> D" "r * y2 \<le> (D - r * z) * DIG_BASE + u0" "r < DIG_BASE" "0 < z"
  shows "(r - 1) * ((z * DIG_BASE + y2) * W + rest) \<le> (D * DIG_BASE + u0) * W + low"
proof (cases "r = 0")
  case False
  have le: "r * (z * DIG_BASE + y2) \<le> D * DIG_BASE + u0"
  proof -
    have "D * DIG_BASE = r * z * DIG_BASE + (D - r * z) * DIG_BASE"
      using assms(2) by (simp flip: add_mult_distrib)
    then show ?thesis using assms(3) by (simp add: algebra_simps)
  qed
  have "(r - 1) * rest \<le> DIG_BASE * W" using assms(1,4) by (intro mult_mono) simp_all
  also have "\<dots> \<le> (z * DIG_BASE + y2) * W" using assms(5) by (intro mult_right_mono) (simp_all add: trans_le_add1)
  finally have "(r - 1) * rest \<le> (z * DIG_BASE + y2) * W" .
  moreover have "(r - 1) * ((z * DIG_BASE + y2) * W) + (z * DIG_BASE + y2) * W = r * (z * DIG_BASE + y2) * W"
    using False by (cases r) (simp_all add: algebra_simps)
  moreover have "r * (z * DIG_BASE + y2) * W \<le> (D * DIG_BASE + u0) * W" using le by (intro mult_right_mono) simp_all
  ultimately show ?thesis unfolding distrib_left by linarith
qed simp

lemma estimate_start:
  fixes z y2 D u0 W rest low q :: nat
  assumes "low < W" "u0 < DIG_BASE" "q * ((z * DIG_BASE + y2) * W + rest) \<le> (D * DIG_BASE + u0) * W + low"
  shows "q * z \<le> D"
proof (rule ccontr)
  assume "\<not> q * z \<le> D"
  then have "(D + 1) * (DIG_BASE * W) \<le> q * z * (DIG_BASE * W)" by (intro mult_right_mono) simp_all
  also have "\<dots> \<le> q * ((z * DIG_BASE + y2) * W + rest)" by (simp add: algebra_simps)
  finally have "(D + 1) * (DIG_BASE * W) \<le> (D * DIG_BASE + u0) * W + low" using assms(3) by linarith
  moreover have "(u0 + 1) * W \<le> DIG_BASE * W" using assms(2) by (intro mult_right_mono) simp_all
  ultimately show False using assms(1) by (simp add: algebra_simps)
qed

lemma qhat_refine_bounds:
  assumes "qhat * z + rhat = D" "rhat < DIG_BASE" "D < z * DIG_BASE + DIG_BASE" "0 < z" "y2 < DIG_BASE" "u0 < DIG_BASE"
    "left_side = qhat * y2" "right_side = rhat * DIG_BASE + u0" "q < DIG_BASE" "q \<le> qhat"
    and high: "\<And>p. p * z \<le> D \<Longrightarrow> (D - p * z) * DIG_BASE + u0 < p * y2 \<Longrightarrow> q < p"
  shows "q \<le> qhat_refine z y2 u0 qhat rhat left_side right_side \<and>
    qhat_refine z y2 u0 qhat rhat left_side right_side < DIG_BASE \<and>
    qhat_refine z y2 u0 qhat rhat left_side right_side * z \<le> D \<and>
    qhat_refine z y2 u0 qhat rhat left_side right_side * y2 \<le>
      (D - qhat_refine z y2 u0 qhat rhat left_side right_side * z) * DIG_BASE + u0"
  using assms(1,2,7,8,10)
proof (induction "DIG_BASE - rhat" arbitrary: qhat rhat left_side right_side rule: less_induct)
  case less
  let ?r = "qhat_refine z y2 u0 qhat rhat left_side right_side"
  have d: "D - qhat * z = rhat" "qhat * z \<le> D" using less.prems(1) by auto
  show ?case
  proof (cases "qhat \<ge> DIG_BASE \<or> left_side > right_side")
    case False
    then have "?r = qhat" by (simp add: qhat_refine.simps)
    then show ?thesis using False d less.prems by auto
  next
    case True
    have q: "q < qhat" using True high [OF d(2)] d(1) less.prems(3,4) assms(9) by auto
    define p where "p = qhat - 1"
    define t where "t = rhat + z"
    have p: "qhat = Suc p" "q \<le> p" using q by (simp_all add: p_def)
    have pt: "p * z + t = D" using less.prems(1) p(1) by (simp add: t_def)
    then have dp: "D - p * z = t" "p * z \<le> D" by auto
    show ?thesis
    proof (cases "t \<ge> DIG_BASE")
      case big: True
      have "?r = p" using True big by (simp add: qhat_refine.simps Let_def p_def t_def)
      moreover have "p < DIG_BASE"
      proof (rule ccontr)
        assume "\<not> p < DIG_BASE"
        then have "z * DIG_BASE \<le> p * z" by (simp add: mult.commute)
        then show False using pt big assms(3) by linarith
      qed
      moreover have "p * y2 \<le> t * DIG_BASE"
        using \<open>p < DIG_BASE\<close> big assms(5) by (intro order_trans [OF mult_mono [of p DIG_BASE y2 DIG_BASE]]) simp_all
      ultimately show ?thesis using p(2) dp by auto
    next
      case small: False
      have u: "u64 (u64 (t * DIG_BASE) + u0) = t * DIG_BASE + u0" using u64_pair [of t u0] small assms(6) by simp
      have "?r = qhat_refine z y2 u0 p t (p * y2) (t * DIG_BASE + u0)"
        using True small assms(4) u less.prems(3) p(1)
        by (subst qhat_refine.simps) (simp add: t_def Let_def)
      then show ?thesis using less.hyps [of t p "p * y2" "t * DIG_BASE + u0"] pt small assms(4) p(2)
        by (simp add: t_def)
    qed
  qed
qed

lemma mulsub_step:
  assumes "x < DIG_BASE" "y < DIG_BASE" "qhat < DIG_BASE" "- int DIG_BASE \<le> b" "b \<le> 0"
  defines "p \<equiv> qhat * y" and "t \<equiv> int x - int (LOW (qhat * y)) + b"
  shows "u64 p = p" "wrap_i64 t = t" "wrap_i64 (HIGHs t - int (HIGH p)) = HIGHs t - int (HIGH p)"
    "- int DIG_BASE \<le> HIGHs t - int (HIGH p)" "HIGHs t - int (HIGH p) \<le> 0"
    "int (LOWs t) + int DIG_BASE * (HIGHs t - int (HIGH p)) = int x - int p + b"
proof -
  have "p \<le> (DIG_BASE - 1) * (DIG_BASE - 1)" unfolding p_def using assms by (intro mult_mono) simp_all
  also have "\<dots> < DIG_BASE * (DIG_BASE - 1)" by (simp add: DIG_BASE_def)
  finally have p2: "p < DIG_BASE * (DIG_BASE - 1)" .
  then have hp: "HIGH p < DIG_BASE - 1" by (rule HIGH_le)
  show "u64 p = p" by (rule u64_id) (use p2 in \<open>simp add: DIG_BASE_def\<close>)
  have t: "- (2 * int DIG_BASE) < t" "t < int DIG_BASE"
  proof -
    have "int (LOW (qhat * y)) < int DIG_BASE" by simp
    then show "- (2 * int DIG_BASE) < t" unfolding t_def using assms(4) by linarith
    show "t < int DIG_BASE" unfolding t_def using assms(1,5) by simp
  qed
  then show "wrap_i64 t = t" by (intro wrap_i64_id) (simp add: machine_int DIG_BASE_def)
  have "- 2 \<le> HIGHs t" "HIGHs t \<le> 0"
  proof -
    have "(- 2) * int DIG_BASE div int DIG_BASE \<le> t div int DIG_BASE" using t(1) by (intro zdiv_mono1) simp_all
    moreover have "(- 2) * int DIG_BASE div int DIG_BASE = - 2" by (rule nonzero_mult_div_cancel_right) simp
    ultimately show "- 2 \<le> HIGHs t" unfolding HIGHs_def by (simp only:)
    have "t div int DIG_BASE \<le> (int DIG_BASE - 1) div int DIG_BASE" using t(2) by (intro zdiv_mono1) simp_all
    moreover have "(int DIG_BASE - 1) div int DIG_BASE = 0" by (simp add: DIG_BASE_def)
    ultimately show "HIGHs t \<le> 0" unfolding HIGHs_def by (simp only:)
  qed
  then show r: "- int DIG_BASE \<le> HIGHs t - int (HIGH p)" "HIGHs t - int (HIGH p) \<le> 0" using hp by auto
  then show "wrap_i64 (HIGHs t - int (HIGH p)) = HIGHs t - int (HIGH p)"
    by (intro wrap_i64_id) (simp add: machine_int DIG_BASE_def)
  have "int p = int (LOW p) + int DIG_BASE * int (HIGH p)" by (metis LOW_HIGH of_nat_add of_nat_mult)
  then show "int (LOWs t) + int DIG_BASE * (HIGHs t - int (HIGH p)) = int x - int p + b"
    using LOWs_HIGHs [of t] by (simp add: t_def p_def algebra_simps)
qed

lemma mulsub_loop_val:
  assumes "length xs = length ys" "limbs_ok xs" "limbs_ok ys" "qhat < DIG_BASE" "- int DIG_BASE \<le> b" "b \<le> 0"
  shows "\<exists>r k. mulsub_loop qhat b xs ys = (r, k) \<and> limbs_ok r \<and> length r = length xs \<and> - int DIG_BASE \<le> k \<and> k \<le> 0 \<and>
    int (lval r) + int DIG_BASE ^ length xs * k = int (lval xs) - int qhat * int (lval ys) + b"
  using assms
proof (induction xs ys arbitrary: b rule: list_induct2')
  case (4 x xs y ys)
  define p where "p = qhat * y"
  define t where "t = int x - int (LOW p) + b"
  have xy: "x < DIG_BASE" "y < DIG_BASE" using 4(3,4) by simp_all
  note st = mulsub_step [OF xy 4(5-7), folded p_def, folded t_def]
  obtain r k where r: "mulsub_loop qhat (HIGHs t - int (HIGH p)) xs ys = (r, k)" "limbs_ok r" "length r = length xs"
    "- int DIG_BASE \<le> k" "k \<le> 0"
    "int (lval r) + int DIG_BASE ^ length xs * k = int (lval xs) - int qhat * int (lval ys) + (HIGHs t - int (HIGH p))"
    using 4(1) [of "HIGHs t - int (HIGH p)"] 4(2-5) st(4,5) by auto
  have eq: "mulsub_loop qhat b (x # xs) (y # ys) = (LOWs t # r, k)"
    using r(1) st(1-3) by (simp add: Let_def t_def flip: p_def)
  have "int (LOWs t) + int DIG_BASE * (int (lval r) + int DIG_BASE ^ length xs * k) =
      int x - int p + b + int DIG_BASE * (int (lval xs) - int qhat * int (lval ys))"
    unfolding r(6) using st(6) by (simp add: algebra_simps)
  then show ?case using r eq by (simp add: p_def algebra_simps)
qed simp_all

text \<open>The limbs of the divisor and the dividend that the estimate reads.\<close>

lemma divisor_split:
  assumes "2 \<le> length y"
  obtains yl y2 z where "y = yl @ [y2, z]" "length yl = length y - 2" "y ! (length y - 1) = z" "y ! (length y - 2) = y2"
proof -
  obtain y' z where 1: "y = y' @ [z]" using assms by (cases y rule: rev_cases) auto
  then obtain yl y2 where 2: "y' = yl @ [y2]" using assms by (cases y' rule: rev_cases) auto
  show ?thesis using that [of yl y2 z] 1 2 by (simp add: nth_append)
qed

lemma dividend_split:
  assumes "length y \<le> length w" "2 \<le> length y"
  obtains wl u0 u1 where "w = wl @ [u0, u1] @ drop (length y) w" "length wl = length y - 2"
    "w ! (length y - 1) = u1" "w ! (length y - 2) = u0"
proof -
  let ?t = "take (length y) w"
  have "2 \<le> length ?t" using assms by simp
  then obtain wl u0 u1 where s: "?t = wl @ [u0, u1]" "length wl = length ?t - 2" "?t ! (length ?t - 1) = u1" "?t ! (length ?t - 2) = u0"
    by (rule divisor_split)
  have "length ?t = length y" using assms by simp
  then have "w ! (length y - 1) = u1" "w ! (length y - 2) = u0" using s(3,4) assms by simp_all
  moreover have "w = wl @ [u0, u1] @ drop (length y) w" using s(1) append_take_drop_id [of "length y" w] by simp
  ultimately show ?thesis using that [of wl u0 u1] s(2) \<open>length ?t = length y\<close> by simp
qed

lemma knuth_qhat_val:
  assumes "limbs_ok y" "2 \<le> length y" "DIG_BASE \<le> 2 * last y" "limbs_ok w" "length y \<le> length w" "lval (tl w) < lval y"
  shows "lval w div lval y < DIG_BASE \<and> lval w div lval y \<le> knuth_qhat y w \<and>
    knuth_qhat y w < DIG_BASE \<and> (knuth_qhat y w - 1) * lval y \<le> lval w"
proof -
  obtain yl y2 z where y: "y = yl @ [y2, z]" "length yl = length y - 2" "y ! (length y - 1) = z" "y ! (length y - 2) = y2"
    using assms(2) by (rule divisor_split)
  obtain wl u0 u1 where w: "w = wl @ [u0, u1] @ drop (length y) w" "length wl = length y - 2"
    "w ! (length y - 1) = u1" "w ! (length y - 2) = u0"
    using assms(5,2) by (rule dividend_split)
  let ?top = "drop (length y) w" and ?W = "DIG_BASE ^ (length y - 2)"
  define D where "D = u1 + DIG_BASE * lval ?top"
  have Y: "lval y = (z * DIG_BASE + y2) * ?W + lval yl" using arg_cong [OF y(1), of lval] y(2) by (simp add: lval_append algebra_simps)
  have U: "lval w = (D * DIG_BASE + u0) * ?W + lval wl"
    using arg_cong [OF w(1), of lval] w(2) by (simp add: lval_append D_def algebra_simps)
  have ok: "limbs_ok yl" "y2 < DIG_BASE" "z < DIG_BASE" using assms(1) y(1) by (metis limbs_ok_simps(2,3))+
  have okw: "limbs_ok wl" "u0 < DIG_BASE" "u1 < DIG_BASE" using assms(4) w(1) by (metis limbs_ok_simps(2,3))+
  have W: "lval yl < ?W" "lval wl < ?W" using lval_less ok(1) okw(1) y(2) w(2) by metis+
  have z: "0 < z" "DIG_BASE \<le> 2 * z" using assms(3) arg_cong [OF y(1), of last] by (simp_all add: DIG_BASE_def)
  have hd: "lval w < DIG_BASE * lval y" "D * ?W \<le> lval (tl w)"
  proof -
    obtain h t where h: "w = h # t" "h < DIG_BASE" using assms(2,4,5) by (cases w) auto
    have "DIG_BASE * Suc (lval t) \<le> DIG_BASE * lval y" using assms(6) h by (intro mult_left_mono) simp_all
    then show "lval w < DIG_BASE * lval y" using h by simp
    have "lval t = lval w div DIG_BASE" using h by simp
    moreover have "D * ?W = D * ?W * DIG_BASE div DIG_BASE" by simp
    moreover have "D * ?W * DIG_BASE \<le> lval w" unfolding U by (simp add: algebra_simps)
    ultimately show "D * ?W \<le> lval (tl w)" using h(1) by (metis div_le_mono list.sel(3))
  qed
  have D: "D < z * DIG_BASE + DIG_BASE"
  proof -
    have "lval y < (z * DIG_BASE + DIG_BASE) * ?W"
    proof -
      have "(z * DIG_BASE + y2 + 1) * ?W \<le> (z * DIG_BASE + DIG_BASE) * ?W" using ok(2) by (intro mult_right_mono) simp_all
      then show ?thesis unfolding Y using W(1) by (simp add: algebra_simps)
    qed
    then have "D * ?W < (z * DIG_BASE + DIG_BASE) * ?W" using hd(2) assms(6) by linarith
    then show ?thesis by simp
  qed
  have top: "lval ?top = (if length w = length y then 0 else w ! length y)" "D < DIG_BASE * DIG_BASE"
  proof -
    have "z * DIG_BASE + DIG_BASE \<le> DIG_BASE * DIG_BASE" using mult_right_mono [of "Suc z" DIG_BASE DIG_BASE] ok(3) by simp
    then show "D < DIG_BASE * DIG_BASE" using D by linarith
    then have lt: "lval ?top < DIG_BASE" unfolding D_def by (metis add_lessD1 add.commute mult_less_cancel1)
    show "lval ?top = (if length w = length y then 0 else w ! length y)"
    proof (cases "length w = length y")
      case False
      then have "?top = w ! length y # drop (Suc (length y)) w" using assms(5) by (intro Cons_nth_drop_Suc [symmetric]) simp
      then have "lval ?top = w ! length y + DIG_BASE * lval (drop (Suc (length y)) w)" by simp
      then have "lval (drop (Suc (length y)) w) = 0" using lt by (cases "lval (drop (Suc (length y)) w)") auto
      then show ?thesis using \<open>lval ?top = w ! length y + _\<close> False by simp
    qed simp
  qed
  have dv: "(if length w = length y then w ! (length y - 1)
      else u64 (u64 (w ! length y * 2 ^ DIG_SIZE) + w ! (length y - 1))) = D"
  proof (cases "length w = length y")
    case True
    then show ?thesis using top(1) w(3) by (simp add: D_def)
  next
    case False
    then have "w ! length y < DIG_BASE" using assms(4,5) by (simp add: limbs_ok_def)
    then show ?thesis using False u64_pair [of "w ! length y" u1] okw(3) w(3) top(1) by (simp add: D_def algebra_simps)
  qed
  have qz: "D div z < DIG_BASE + 2"
  proof -
    have "z * DIG_BASE + DIG_BASE \<le> (DIG_BASE + 2) * z" using z(2) by (simp add: algebra_simps)
    then show ?thesis using D by (intro less_mult_imp_div_less) linarith
  qed
  have left: "u64 (D div z * y2) = D div z * y2"
  proof (rule u64_id)
    have "D div z * y2 \<le> (DIG_BASE + 1) * (DIG_BASE - 1)" using qz ok(2) by (intro mult_mono) simp_all
    also have "\<dots> < DIG_BASE * DIG_BASE" by (simp add: DIG_BASE_def)
    finally show "D div z * y2 < DIG_BASE * DIG_BASE" .
  qed
  have rz: "D mod z < DIG_BASE" using z(1) ok(3) by (meson less_trans mod_less_divisor)
  have r: "knuth_qhat y w = qhat_refine z y2 u0 (D div z) (D mod z) (D div z * y2) (D mod z * DIG_BASE + u0)"
    using assms(2) u64_pair(1) [OF rz okw(2)] left
    unfolding knuth_qhat_def Let_def dv y(3,4) w(4) by simp
  define q where "q = lval w div lval y"
  have q: "q < DIG_BASE" unfolding q_def using hd(1) by (rule less_mult_imp_div_less)
  have qy: "q * lval y \<le> lval w" unfolding q_def by (rule div_times_less_eq_dividend)
  have "q * z \<le> D" using estimate_start [OF W(2) okw(2)] qy unfolding Y U by blast
  then have q0: "q \<le> D div z" using z(1) by (simp add: less_eq_div_iff_mult_less_eq)
  have high: "q < p" if "p * z \<le> D" "(D - p * z) * DIG_BASE + u0 < p * y2" for p
    using less_mult_imp_div_less [OF estimate_high [OF W that, folded Y U]] by (simp add: q_def)
  have b: "q \<le> knuth_qhat y w" "knuth_qhat y w < DIG_BASE" "knuth_qhat y w * z \<le> D"
    "knuth_qhat y w * y2 \<le> (D - knuth_qhat y w * z) * DIG_BASE + u0"
    using qhat_refine_bounds [OF _ rz D z(1) ok(2) okw(2) refl refl q q0 high] unfolding r by simp_all
  have "(knuth_qhat y w - 1) * lval y \<le> lval w"
    using estimate_low [OF W(1) b(3,4,2) z(1), of "lval wl"] unfolding Y [symmetric] U [symmetric] .
  then show ?thesis using b q by (simp add: q_def)
qed

lemma residue_zero:
  fixes a m n :: int
  assumes "0 \<le> a" "a < n" "0 \<le> a + n * m" "a + n * m < n"
  shows "m = 0"
proof -
  have "n * m < n * 1" "n * (- 1) < n * m" using assms by linarith+
  then show ?thesis using assms(1,2) by (simp only: mult_less_cancel_left) auto
qed

text \<open>After the multiplication and subtraction: the limbs and the last borrow hold the difference.\<close>

definition top_val :: "nat list \<Rightarrow> int \<Rightarrow> int" where
  "top_val tp b = (case tp of [] \<Rightarrow> b | t # ts \<Rightarrow> int t + int DIG_BASE * b)"

lemma top_val_neg: "limbs_ok tp \<Longrightarrow> top_val tp b < 0 \<longleftrightarrow> b < 0"
proof (cases tp)
  case (Cons t ts)
  assume "limbs_ok tp"
  then have t: "int t < int DIG_BASE" using Cons by simp
  show ?thesis
  proof (cases "b < 0")
    case True
    then have "int DIG_BASE * b \<le> int DIG_BASE * (- 1)" by (intro mult_left_mono) simp_all
    then show ?thesis using True t Cons unfolding top_val_def by simp
  next
    case False
    then have "0 \<le> int DIG_BASE * b" by simp
    then have "\<not> int t + int DIG_BASE * b < 0" by linarith
    then show ?thesis using False by (simp only: Cons top_val_def list.case)
  qed
qed (simp add: top_val_def)

lemma knuth_subtract_state:
  assumes "limbs_ok y" "limbs_ok w" "length y \<le> length w" "lval (drop (length y) w) < DIG_BASE" "0 < qhat" "qhat < DIG_BASE"
  shows "\<exists>r tp b. knuth_subtract y w qhat =
      (if b < 0 then let (r2, carry) = add_n_loop 0 r y
         in (u32 (qhat - 1), r2 @ (case tp of [] \<Rightarrow> [] | t # ts \<Rightarrow> (if carry > 0 then u32 (t + u32 carry) else t) # ts))
       else (u32 qhat, r @ tp)) \<and>
    length r = length y \<and> length tp = length w - length y \<and> limbs_ok r \<and> limbs_ok tp \<and> lval (tl tp) = 0 \<and>
    int (lval r) + int DIG_BASE ^ length y * top_val tp b = int (lval w) - int qhat * int (lval y)"
proof -
  let ?n = "length y" and ?t = "drop (length y) w"
  obtain r k where r: "mulsub_loop qhat 0 (take ?n w) y = (r, k)" "limbs_ok r" "length r = ?n" "- int DIG_BASE \<le> k" "k \<le> 0"
    "int (lval r) + int DIG_BASE ^ ?n * k = int (lval (take ?n w)) - int qhat * int (lval y)"
    using mulsub_loop_val [of "take ?n w" y qhat 0] assms by auto
  have w: "int (lval w) = int (lval (take ?n w)) + int DIG_BASE ^ ?n * int (lval ?t)"
    using lval_split [of w ?n] assms(3) by (metis min_absorb1 of_nat_add of_nat_mult of_nat_power)
  show ?thesis
  proof (cases ?t)
    case Nil
    then have tk: "take ?n w = w" "length w = ?n" using assms(3) by simp_all
    have "knuth_subtract y w qhat = (if k < 0 then let (r2, carry) = add_n_loop 0 r y in (u32 (qhat - 1), r2 @ [])
        else (u32 qhat, r @ []))"
      unfolding knuth_subtract_def Let_def r(1) Nil prod.case list.case using assms(5) by simp
    then show ?thesis using r(2,3,6) tk
      by (intro exI [of _ r] exI [of _ "[]"] exI [of _ k]) (simp add: top_val_def)
  next
    case (Cons t ts)
    have ts: "lval ts = 0" using assms(4) Cons by (cases "lval ts") auto
    have t: "t < DIG_BASE" "limbs_ok ts" using limbs_ok_take(2) [OF assms(2), of ?n] Cons by simp_all
    let ?b = "k + int t"
    have b: "wrap_i64 ?b = ?b" using r(4,5) t by (intro wrap_i64_id) (simp add: machine_int DIG_BASE_def)
    have "int DIG_BASE ^ ?n * ?b = int DIG_BASE ^ ?n * (int (LOWs ?b) + int DIG_BASE * HIGHs ?b)" unfolding LOWs_HIGHs ..
    then have "int (lval r) + int DIG_BASE ^ ?n * top_val (LOWs ?b # ts) (HIGHs ?b) = int (lval w) - int qhat * int (lval y)"
      using r(6) w Cons ts by (simp add: top_val_def algebra_simps)
    moreover have "length ts + 1 = length w - ?n" using arg_cong [OF Cons, of length] by simp
    ultimately show ?thesis using r b Cons ts t assms(5)
      by (intro exI [of _ r] exI [of _ "LOWs ?b # ts"] exI [of _ "HIGHs ?b"]) (simp add: knuth_subtract_def Let_def)
  qed
qed

text \<open>Adding the divisor back wraps the top limb around to zero.\<close>

lemma borrow_top:
  assumes "int c + top_val tp b = 0" "top_val tp b < 0" "c \<le> 1" "limbs_ok tp" "lval (tl tp) = 0"
  shows "lval (case tp of [] \<Rightarrow> [] | t # ts \<Rightarrow> (if c > 0 then u32 (t + u32 c) else t) # ts) = 0 \<and>
    limbs_ok (case tp of [] \<Rightarrow> [] | t # ts \<Rightarrow> (if c > 0 then u32 (t + u32 c) else t) # ts) \<and>
    length (case tp of [] \<Rightarrow> [] | t # ts \<Rightarrow> (if c > 0 then u32 (t + u32 c) else t) # ts) = length tp"
proof (cases tp)
  case (Cons t ts)
  have c: "c = 1" using assms(1-3) by linarith
  then have e: "int t + 1 = int DIG_BASE * (- b)" using assms(1) Cons by (simp add: top_val_def)
  have "int (u32 (t + 1)) = (int t + 1) mod int DIG_BASE" by (simp add: u32_def DIG_BASE_def zmod_int add.commute)
  also have "\<dots> = 0" unfolding e by simp
  finally have "u32 (t + 1) = 0" by simp
  then show ?thesis using Cons assms(4,5) c by (simp add: u32_def [of 1])
qed simp

lemma knuth_subtract_val:
  assumes "limbs_ok y" "limbs_ok w" "length y \<le> length w" "lval (drop (length y) w) < DIG_BASE" "0 < lval y"
    "qhat < DIG_BASE" "lval w div lval y \<le> qhat" "(qhat - 1) * lval y \<le> lval w"
  shows "\<exists>w'. knuth_subtract y w qhat = (lval w div lval y, w') \<and> lval w' = lval w mod lval y \<and>
    length w' = length w \<and> limbs_ok w'"
proof (cases "qhat = 0")
  case True
  then show ?thesis using assms by (simp add: knuth_subtract_def u32_def div_eq_0_iff)
next
  case False
  let ?Y = "lval y" and ?N = "int DIG_BASE ^ length y"
  obtain r tp b where s: "knuth_subtract y w qhat =
      (if b < 0 then let (r2, carry) = add_n_loop 0 r y
         in (u32 (qhat - 1), r2 @ (case tp of [] \<Rightarrow> [] | t # ts \<Rightarrow> (if carry > 0 then u32 (t + u32 carry) else t) # ts))
       else (u32 qhat, r @ tp))"
    "length r = length y" "length tp = length w - length y" "limbs_ok r" "limbs_ok tp" "lval (tl tp) = 0"
    "int (lval r) + ?N * top_val tp b = int (lval w) - int qhat * int ?Y"
    using knuth_subtract_state [OF assms(1-4) _ assms(6)] False by blast
  have N: "int (lval r) < ?N" "int ?Y < ?N" using lval_less [OF s(4)] lval_less [OF assms(1)] s(2) by (simp_all flip: of_nat_power)
  have tl: "lval tp = (case tp of [] \<Rightarrow> 0 | t # ts \<Rightarrow> t)" using s(6) by (cases tp) simp_all
  show ?thesis
  proof (cases "b < 0")
    case nb: False
    then have "0 \<le> top_val tp b" using top_val_neg [OF s(5)] by (meson not_less)
    then have "0 \<le> int (lval r) + ?N * top_val tp b" by simp
    then have "int (qhat * ?Y) \<le> int (lval w)" unfolding s(7) by simp
    then have "qhat * ?Y \<le> lval w" by (simp only: of_nat_le_iff)
    then have "qhat \<le> lval w div ?Y" using assms(5) by (simp add: less_eq_div_iff_mult_less_eq)
    then have q: "qhat = lval w div ?Y" using assms(7) by simp
    have m: "int (lval r) + ?N * top_val tp b = int (lval w mod ?Y)"
      unfolding s(7) q by (simp add: zmod_int zdiv_int minus_div_mult_eq_mod)
    moreover have "int (lval w mod ?Y) < ?N" using N(2) assms(5) by (meson less_trans mod_less_divisor of_nat_less_iff)
    ultimately have "top_val tp b = 0" using N(1) by (intro residue_zero [of "int (lval r)" ?N]) simp_all
    moreover from this have "lval tp = 0"
      using nb tl by (cases tp) (auto simp: top_val_def add_nonneg_eq_0_iff)
    ultimately have "lval (r @ tp) = lval w mod ?Y" using m by (simp add: lval_append)
    then show ?thesis using s nb q assms(3,6) by (simp add: u32_id)
  next
    case nb: True
    then have neg: "top_val tp b < 0" using top_val_neg [OF s(5)] by simp
    then have "?N * top_val tp b \<le> ?N * (- 1)" by (intro mult_left_mono) simp_all
    then have "int (lval w) < int (qhat * ?Y)" using s(7) N(1) unfolding of_nat_mult by linarith
    then have lt: "lval w < qhat * ?Y" by (simp only: of_nat_less_iff)
    then have "lval w div ?Y < qhat" by (rule less_mult_imp_div_less)
    moreover have "qhat - 1 \<le> lval w div ?Y" using assms(5,8) by (simp add: less_eq_div_iff_mult_less_eq)
    ultimately have q: "qhat = Suc (lval w div ?Y)" by simp
    obtain r2 c where r2: "add_n_loop 0 r y = (r2, c)" "length r2 = length y" "limbs_ok r2" "c \<le> 1"
      "lval r2 + DIG_BASE ^ length y * c = lval r + ?Y"
      using add_n_loop_val [of r y 0] s(2,4) assms(1) by auto
    have "int (lval r2) + ?N * (int c + top_val tp b) = int (lval w) - int qhat * int ?Y + int ?Y"
      using arg_cong [OF r2(5), of int] s(7) by (simp add: distrib_left)
    also have "\<dots> = int (lval w mod ?Y)" unfolding q by (simp add: zmod_int zdiv_int minus_div_mult_eq_mod algebra_simps)
    finally have m: "int (lval r2) + ?N * (int c + top_val tp b) = int (lval w mod ?Y)" .
    have z: "int c + top_val tp b = 0"
    proof (rule residue_zero [of "int (lval r2)" ?N])
      show "int (lval r2) < ?N" using lval_less [OF r2(3)] r2(2) by (simp flip: of_nat_power)
      show "int (lval r2) + ?N * (int c + top_val tp b) < ?N"
        unfolding m using N(2) assms(5) by (meson less_trans mod_less_divisor of_nat_less_iff)
    qed (simp_all add: m)
    let ?tp = "case tp of [] \<Rightarrow> [] | t # ts \<Rightarrow> (if c > 0 then u32 (t + u32 c) else t) # ts"
    have t: "lval ?tp = 0 \<and> limbs_ok ?tp \<and> length ?tp = length tp" using z neg r2(4) s(5,6)
      by (intro borrow_top) simp_all
    then have "lval (r2 @ ?tp) = lval w mod ?Y" using m z by (simp add: lval_append)
    moreover have "u32 (qhat - 1) = lval w div ?Y" using q assms(6) by (simp add: u32_id)
    ultimately show ?thesis using s(1,3) nb r2 t assms(3) by simp
  qed
qed

lemma knuth_digit_val:
  assumes "limbs_ok y" "2 \<le> length y" "DIG_BASE \<le> 2 * last y" "limbs_ok w" "length y \<le> length w" "lval (tl w) < lval y"
  shows "\<exists>w'. knuth_digit y w = (lval w div lval y, w') \<and> lval w' = lval w mod lval y \<and>
    length w' = length w \<and> limbs_ok w' \<and> lval w div lval y < DIG_BASE"
proof -
  have y: "0 < lval y" using assms(6) by simp
  note q = knuth_qhat_val [OF assms]
  have "lval w < DIG_BASE * lval y" using q y by (simp add: div_less_iff_less_mult)
  also have "\<dots> < DIG_BASE ^ length y * DIG_BASE" using lval_less [OF assms(1)] by (simp add: mult.commute)
  finally have "DIG_BASE ^ length y * lval (drop (length y) w) < DIG_BASE ^ length y * DIG_BASE"
    using lval_split [of w "length y"] unfolding min_absorb1 [OF assms(5)] by linarith
  then have t: "lval (drop (length y) w) < DIG_BASE" unfolding mult_less_cancel1 by simp
  show ?thesis using knuth_subtract_val [OF assms(1,4,5) t y, of "knuth_qhat y w"] q by (simp add: knuth_digit_def)
qed

lemma knuth_loop_val:
  assumes "limbs_ok y" "2 \<le> length y" "DIG_BASE \<le> 2 * last y" "limbs_ok x" "length y + j \<le> length x"
    "lval (drop (Suc j) x) < lval y"
  shows "\<exists>q x'. knuth_loop y x j = (q, x') \<and> length q = Suc j \<and> limbs_ok q \<and> length x' = length x \<and> limbs_ok x' \<and>
    lval x = lval y * lval (rev q) + lval x' \<and> lval x' < lval y"
  using assms(4-6)
proof (induction j arbitrary: x)
  case (0 x)
  obtain w' where w: "knuth_digit y x = (lval x div lval y, w')" "lval w' = lval x mod lval y" "length w' = length x"
    "limbs_ok w'" "lval x div lval y < DIG_BASE"
    using knuth_digit_val [OF assms(1-3), of x] 0 by (auto simp: drop_Suc)
  have "0 < lval y" using 0(3) by simp
  then show ?case using w by (simp add: knuth_loop.simps)
next
  case (Suc i x)
  define w where "w = drop (Suc i) x"
  have wx: "limbs_ok w" "length y \<le> length w" using Suc.prems by (simp_all add: w_def)
  have wy: "lval (tl w) < lval y" using Suc.prems(3) by (simp add: w_def drop_Suc tl_drop)
  obtain w' where w: "knuth_digit y w = (lval w div lval y, w')" "lval w' = lval w mod lval y" "length w' = length w"
    "limbs_ok w'" "lval w div lval y < DIG_BASE"
    using knuth_digit_val [OF assms(1-3) wx wy] by blast
  let ?x = "take (Suc i) x @ w'"
  have len: "length (take (Suc i) x) = Suc i" "length ?x = length x" using Suc.prems(2) assms(2) w(3) by (simp_all add: w_def)
  have "0 < lval y" using wy by simp
  then obtain q x' where IH: "knuth_loop y ?x i = (q, x')" "length q = Suc i" "limbs_ok q" "length x' = length x" "limbs_ok x'"
    "lval ?x = lval y * lval (rev q) + lval x'" "lval x' < lval y"
    using Suc.IH [of ?x] Suc.prems w len by auto
  have "lval x = lval (take (Suc i) x) + DIG_BASE ^ Suc i * lval w"
    using lval_split [of x "Suc i"] len(1) unfolding w_def length_take by (metis min.commute)
  also have "\<dots> = lval (take (Suc i) x) + DIG_BASE ^ Suc i * (lval y * (lval w div lval y) + lval w')" unfolding w(2) by simp
  also have "\<dots> = lval y * (DIG_BASE ^ Suc i * (lval w div lval y)) + lval ?x" unfolding lval_append len(1) by (simp add: algebra_simps)
  also have "\<dots> = lval y * lval (rev (lval w div lval y # q)) + lval x'"
    unfolding IH(6) by (simp add: lval_append IH(2) algebra_simps)
  finally show ?case using IH w by (simp add: knuth_loop.simps [of y x "Suc i"] flip: w_def)
qed

section \<open>Normalisation\<close>

lemma lzb_norm:
  assumes "0 < l" "l < DIG_BASE"
  shows "lzb l < DIG_SIZE" "l * 2 ^ lzb l < DIG_BASE" "DIG_BASE \<le> 2 * (l * 2 ^ lzb l)"
proof -
  let ?k = "log2_loop l 0"
  have b: "2 ^ ?k \<le> l" "l < 2 ^ Suc ?k" using log2_loop_bounds [OF assms(1)] by simp_all
  have "(2::nat) ^ ?k < 2 ^ DIG_SIZE" using b(1) assms(2) by simp
  then have k: "?k < DIG_SIZE" by (simp only: power_strict_increasing_iff one_less_numeral_iff semiring_norm(76))
  then have e: "?k + lzb l = 31" "lzb l < DIG_SIZE" using assms(1) by (simp_all add: lzb_def DIG_SIZE_def)
  show "lzb l < DIG_SIZE" by (rule e(2))
  have p: "(2::nat) ^ ?k * 2 ^ lzb l = 2 ^ 31" unfolding e(1) [symmetric] by (simp only: power_add)
  have "2 ^ ?k * 2 ^ lzb l \<le> l * 2 ^ lzb l" using b(1) by (intro mult_right_mono) simp_all
  then show "DIG_BASE \<le> 2 * (l * 2 ^ lzb l)" unfolding p by (simp add: DIG_BASE_def)
  have "l * 2 ^ lzb l < 2 ^ Suc ?k * 2 ^ lzb l" using b(2) by (intro mult_strict_right_mono) simp_all
  also have "\<dots> = DIG_BASE" using p by (simp add: DIG_BASE_def mult.commute)
  finally show "l * 2 ^ lzb l < DIG_BASE" .
qed

text \<open>The length and the top limb of an array without leading zeros are those of its value.\<close>

lemma mag_top:
  assumes "limbs_ok xs" "xs = [] \<or> last xs \<noteq> 0" "m * DIG_BASE ^ k \<le> lval xs" "lval xs < DIG_BASE ^ Suc k" "0 < m"
  shows "length xs = Suc k" "m \<le> last xs"
proof -
  have "0 < m * DIG_BASE ^ k" using assms(5) by simp
  then have ne: "xs \<noteq> []" using assms(3) by auto
  define t where "t = length xs - 1"
  have tv: "length xs = Suc t" "lval xs = lval (butlast xs) + DIG_BASE ^ t * last xs" "lval (butlast xs) < DIG_BASE ^ t"
    using ne lval_less [of "butlast xs"] assms(1) by (cases xs rule: rev_cases; simp add: t_def lval_append)+
  have "DIG_BASE ^ t * 1 \<le> DIG_BASE ^ t * last xs" using assms(2) ne by (intro mult_left_mono) simp_all
  then have "DIG_BASE ^ t < DIG_BASE ^ Suc k" using tv(2) assms(4) by linarith
  then have "t \<le> k" using power_less_imp_less_exp [of DIG_BASE t "Suc k"] by (simp add: DIG_BASE_def)
  moreover have "k \<le> t"
  proof -
    have "DIG_BASE ^ k * 1 \<le> m * DIG_BASE ^ k" using assms(5) by simp
    also have "\<dots> < DIG_BASE ^ Suc t" using assms(3) lval_less [OF assms(1)] tv(1) by simp
    finally have "DIG_BASE ^ k < DIG_BASE ^ Suc t" by simp
    then show ?thesis using power_less_imp_less_exp [of DIG_BASE k "Suc t"] by (simp add: DIG_BASE_def)
  qed
  ultimately have t: "t = k" by simp
  then show "length xs = Suc k" using tv(1) by simp
  have "m * DIG_BASE ^ k < Suc (last xs) * DIG_BASE ^ k" using assms(3) tv(2,3) unfolding t by (simp add: algebra_simps)
  then show "m \<le> last xs" unfolding mult_less_cancel2 by simp
qed

lemma digits_down_last: "xs ! i \<noteq> 0 \<Longrightarrow> digits_down xs i = i"
  by (cases i) simp_all

lemma mag_digits: "mp x = [] \<or> last (mp x) \<noteq> 0 \<Longrightarrow> digits x = length (mp x)"
  using digits_down_last [of "mp x" "length (mp x) - 1"] by (auto simp: digits_def sz_def last_conv_nth)

lemma mag_okD:
  assumes "mag_ok z v"
  shows "limbs_ok (mp z)" "mp z = [] \<or> last (mp z) \<noteq> 0" "lval (mp z) = v" "mnull z \<longrightarrow> mp z = []" "digits z = length (mp z)"
  using assms by (auto simp: mag_ok_def mag_digits)

lemma trim_mag_ok: "limbs_ok (mp z) \<Longrightarrow> (mnull z \<longrightarrow> mp z = []) \<Longrightarrow> mag_ok (trim z) (lval (mp z))"
  using trim_mag [of "mp z" z] by simp

lemma mpz_set_mag:
  assumes "limbs_ok (mp a)" "mnull c \<longrightarrow> mp c = []"
  shows "mag_ok (trim (mpz_set c a)) (lval (mp a))"
proof -
  have m: "mp (mpz_set c a) = mp a" by (simp add: mpz_set_def)
  moreover have "mnull (mpz_set c a) \<longrightarrow> mp a = []"
    using assms(2) by (cases "mp a = []"; cases "mnull c") (simp_all add: mpz_set_def mpz_realloc_def sz_def)
  ultimately show ?thesis using trim_mag_ok [of "mpz_set c a"] assms(1) unfolding m by blast
qed

lemma ulshift_mag:
  assumes "limbs_ok (mp a)" "n \<le> DIG_SIZE" "0 < lval (mp a)" "mnull c \<longrightarrow> mp c = []"
  shows "mag_ok (ulshift c a n) (lval (mp a) * 2 ^ n)"
proof -
  obtain r t where r: "mpn_lshift (mp a) n = (r, t)" "limbs_ok (r @ [t])" "lval (r @ [t]) = lval (mp a) * 2 ^ n"
    using mpn_lshift_val [OF assms(1) _ assms(2)] assms(3) by (metis lval.simps(1) less_irrefl)
  have "mag_ok (trim (mpz_set c a)) (lval (mp a))"
    by (rule mpz_set_mag) (use assms in simp_all)
  moreover have "mag_ok (trim ((mpz_init_heap (sz a + 1))\<lparr>mp := r @ [t]\<rparr>)) (lval (mp a) * 2 ^ n)"
    using trim_mag [OF r(2), of "mpz_init_heap (sz a + 1)"] r(3) by (simp add: mpz_init_heap_def)
  ultimately show ?thesis using r(1) assms(3) by (auto simp: ulshift_def uzero_p_iff)
qed

lemma urshift_mag:
  assumes "limbs_ok (mp a)" "n \<le> DIG_SIZE" "mnull c" "mp c = []"
  shows "mag_ok (urshift c a n) (lval (mp a) div 2 ^ n)"
proof -
  have "mag_ok (trim (mpz_set c a)) (lval (mp a))"
    by (rule mpz_set_mag) (use assms in simp_all)
  moreover have "mag_ok (trim ((mpz_realloc c (sz a))\<lparr>mp := rshift_loop n (mp a)\<rparr>)) (lval (mp a) div 2 ^ n)" if "0 < lval (mp a)"
    using trim_mag [of "rshift_loop n (mp a)" "mpz_realloc c (sz a)"] rshift_loop_val [OF assms(1,2)] that assms(4)
    by (cases "mp a = []") (simp_all add: mpz_realloc_def sz_def)
  moreover have "mag_ok (zero c) 0" using assms(3) by (simp add: zero_def mag_ok_def)
  ultimately show ?thesis by (auto simp: urshift_def uzero_p_iff mpn_rshift_def)
qed

lemma mag_ok_mpz:
  "mpz_canon x \<Longrightarrow> mag_ok x (lval (mp x))" "mpz_canon x \<Longrightarrow> mag_ok (mpz_set mpz_init x) (lval (mp x))"
  "mag_ok (zero mpz_init) 0" "mag_ok (mpz_set_int mpz_init 1) 1"
  using mpz_canon_simps [of x] by (auto simp: mag_ok_def mpz_set_def mpz_realloc_def sz_def mpz_init_def zero_def
    mpz_set_int_def wrap_u64_def u32_def DIG_BASE_def)

text \<open>Both operands shifted so that the top limb of the divisor has its high bit set.\<close>

lemma normal_divisor:
  assumes "mpz_canon y" "2 \<le> sz y" "mag_ok y' (lval (mp y) * 2 ^ lzb (last (mp y)))"
  shows "sz y' = sz y" "DIG_BASE \<le> 2 * last (mp y')"
proof -
  note Y = mpz_canon_simps [OF assms(1)]
  let ?n = "lzb (last (mp y))"
  obtain ys l where ys: "mp y = ys @ [l]" using assms(2) by (cases "mp y" rule: rev_cases) (auto simp: sz_def)
  have l: "0 < l" "l < DIG_BASE" "limbs_ok ys" using Y(1,4) ys by auto
  note n = lzb_norm [OF l(1,2)]
  have v: "lval (mp y') = lval ys * 2 ^ ?n + l * 2 ^ ?n * DIG_BASE ^ length ys"
    using mag_okD(3) [OF assms(3)] ys by (simp add: lval_append algebra_simps)
  have "Suc l * 2 ^ ?n \<le> DIG_BASE"
  proof -
    have "l < 2 ^ (DIG_SIZE - ?n)"
    proof -
      have "l * 2 ^ ?n < 2 ^ (DIG_SIZE - ?n) * 2 ^ ?n" using n(1,2) ys by (simp flip: power_add)
      then show ?thesis by simp
    qed
    then have "Suc l * 2 ^ ?n \<le> 2 ^ (DIG_SIZE - ?n) * 2 ^ ?n" by (intro mult_right_mono) simp_all
    then show ?thesis using n(1) ys by (simp flip: power_add)
  qed
  then have "Suc l * 2 ^ ?n * DIG_BASE ^ length ys \<le> DIG_BASE ^ Suc (length ys)" by simp
  moreover have "lval ys * 2 ^ ?n < DIG_BASE ^ length ys * 2 ^ ?n" using lval_less [OF l(3)] by simp
  moreover have "Suc l * 2 ^ ?n * DIG_BASE ^ length ys = DIG_BASE ^ length ys * 2 ^ ?n + l * 2 ^ ?n * DIG_BASE ^ length ys"
    by (simp add: algebra_simps)
  ultimately have up: "lval (mp y') < DIG_BASE ^ Suc (length ys)" unfolding v by linarith
  have "l * 2 ^ ?n * DIG_BASE ^ length ys \<le> lval (mp y')" "0 < l * 2 ^ ?n" unfolding v using l by simp_all
  from mag_top [OF mag_okD(1,2) [OF assms(3)] this(1) up this(2)]
  show "sz y' = sz y" "DIG_BASE \<le> 2 * last (mp y')" using ys n(3) by (auto simp: sz_def)
qed

text \<open>Algorithm D proper, on operands of which the dividend is the larger.\<close>

lemma knuth_udiv:
  assumes "mpz_canon x" "mpz_canon y" "lval (mp y) < lval (mp x)" "2 \<le> sz y"
  shows "\<exists>q r. udiv mpz_init mpz_init x y = Inr (q, r) \<and>
    mag_ok q (lval (mp x) div lval (mp y)) \<and> mag_ok r (lval (mp x) mod lval (mp y))"
proof -
  note X = mpz_canon_simps [OF assms(1)] and Y = mpz_canon_simps [OF assms(2)]
  define ns where "ns = lzb (last (mp y))"
  define x' where "x' = ulshift (mpz_init_heap (sz x + 1)) x ns"
  define y' where "y' = trim (ulshift (mpz_init_heap (sz y)) y ns)"
  have yne: "mp y \<noteq> []" "0 < last (mp y)" "last (mp y) < DIG_BASE" "0 < lval (mp y)"
    using assms(4) Y(1,4,5) by (auto simp: sz_def limbs_ok_def)
  then have ns: "ns < DIG_SIZE" using lzb_norm(1) by (simp add: ns_def)
  have x': "mag_ok x' (lval (mp x) * 2 ^ ns)"
    unfolding x'_def by (rule ulshift_mag) (use X(1) ns assms(3) in \<open>auto simp: mpz_init_heap_def\<close>)
  have "mag_ok (ulshift (mpz_init_heap (sz y)) y ns) (lval (mp y) * 2 ^ ns)"
    by (rule ulshift_mag) (use Y(1) ns yne in \<open>auto simp: mpz_init_heap_def mpz_init_def\<close>)
  then have y': "mag_ok y' (lval (mp y) * 2 ^ ns)"
    unfolding y'_def using trim_mag_ok [of "ulshift (mpz_init_heap (sz y)) y ns"] mag_okD by metis
  note n = normal_divisor [OF assms(2,4) y' [unfolded ns_def]]
  note x'd = mag_okD [OF x'] and y'd = mag_okD [OF y']
  have lt: "lval (mp y') < lval (mp x')" using assms(3) x'd(3) y'd(3) by simp
  have ylen: "2 \<le> length (mp y')" "last (mp y') \<noteq> 0" using n(1) assms(4) y'd(2) by (auto simp: sz_def)
  have len: "length (mp y') \<le> length (mp x')"
  proof (rule ccontr)
    assume "\<not> ?thesis"
    then have "lval (mp x') < lval (mp y')" using lval_shorter [OF x'd(1) _ ylen(2)] by simp
    then show False using lt by simp
  qed
  let ?j = "length (mp x') - length (mp y')"
  have "lval (drop (Suc ?j) (mp x')) < lval (mp y')"
  proof -
    have "lval (drop (Suc ?j) (mp x')) < DIG_BASE ^ (length (mp y') - 1)"
      using lval_less [of "drop (Suc ?j) (mp x')"] x'd(1) len by (simp add: Suc_diff_le)
    also have "\<dots> \<le> lval (mp y')"
      using ylen by (intro lval_last_pos) auto
    finally show ?thesis .
  qed
  then obtain q w where k: "knuth_loop (mp y') (mp x') ?j = (q, w)" "length q = Suc ?j" "limbs_ok q" "length w = length (mp x')"
    "limbs_ok w" "lval (mp x') = lval (mp y') * lval (rev q) + lval w" "lval w < lval (mp y')"
    using knuth_loop_val [OF y'd(1) ylen(1) n(2) x'd(1), of ?j] len by auto
  have "lval (rev q) = lval (mp x') div lval (mp y')" "lval w = lval (mp x') mod lval (mp y')" using k(6,7) by simp_all
  then have v: "lval (rev q) = lval (mp x) div lval (mp y)" "lval w = (lval (mp x) mod lval (mp y)) * 2 ^ ns"
    unfolding x'd(3) y'd(3) by (simp_all add: mod_mult_mult2)
  have "(lval (mp x) mod lval (mp y)) * 2 ^ ns div 2 ^ ns = lval (mp x) mod lval (mp y)" by simp
  note v = v(1) this [folded v(2)]
  have w: "lval (take (length (mp y')) w) = lval w"
  proof -
    have "drop (length (mp y')) w = replicate (length w - length (mp y')) 0"
      using k(4,7) len lval_less [OF y'd(1)] by (intro lval_take_drop_less [OF k(5)]) simp_all
    then show ?thesis using lval_split [of w "length (mp y')"] by (simp only: lval_replicate mult_0_right add_0_right)
  qed
  define r where "r = urshift mpz_init (x'\<lparr>mp := take (length (mp y')) w\<rparr>) ns"
  have r: "mag_ok r (lval (mp x) mod lval (mp y))"
    unfolding r_def v(2) [symmetric] w [symmetric]
    using urshift_mag [of "x'\<lparr>mp := take (length (mp y')) w\<rparr>" ns mpz_init] k(5) ns by (simp add: mpz_init_def)
  define z where "z = trim ((mpz_init_heap (length (mp x') - length (mp y') + 1))\<lparr>mp := rev q\<rparr>)"
  have z: "mag_ok z (lval (mp x) div lval (mp y))"
    unfolding z_def v(1) [symmetric] by (rule trim_mag) (use k(3) in \<open>simp_all add: mpz_init_heap_def\<close>)
  have nz: "\<not> (length (mp y') = 0 \<or> mp y' ! (length (mp y') - 1) = 0)"
    using ylen last_conv_nth [of "mp y'"] by (cases "mp y' = []") auto
  have d: "mp y ! (digits y - 1) = last (mp y)" using mag_digits [OF Y(4)] yne(1) by (simp add: last_conv_nth)
  have cmp: "ucmp x y = 1" using ucmp_val [OF X(1) Y(1) X(4) Y(4)] assms(3) by simp
  have "udiv mpz_init mpz_init x y = Inr (z, r)"
    unfolding udiv_def Let_def cmp d ns_def [symmetric] x'_def [symmetric] y'_def [symmetric] x'd(5) y'd(5)
    using nz len k(1) assms(4) by (simp add: z_def r_def)
  then show ?thesis using z r by blast
qed

lemma udiv_val:
  assumes "mpz_canon x" "mpz_canon y" "\<not> zero_p y"
  shows "\<exists>q r. udiv mpz_init mpz_init x y = Inr (q, r) \<and>
    mag_ok q (lval (mp x) div lval (mp y)) \<and> mag_ok r (lval (mp x) mod lval (mp y))"
proof -
  note X = mpz_canon_simps [OF assms(1)] and Y = mpz_canon_simps [OF assms(2)]
  have yne: "mp y \<noteq> []" "0 < lval (mp y)" using assms(3) Y(3,5) by (auto simp: zero_p_def)
  note cmp = ucmp_val [OF X(1) Y(1) X(4) Y(4)]
  have "sz y = 1 \<or> 2 \<le> sz y" using yne(1) by (cases "mp y") (auto simp: sz_def Suc_le_eq)
  then consider "lval (mp x) = lval (mp y)" | "lval (mp x) < lval (mp y)" | "lval (mp y) < lval (mp x)" "sz y = 1"
    | "lval (mp y) < lval (mp x)" "2 \<le> sz y" by linarith
  then show ?thesis
  proof cases
    case 1
    then show ?thesis using cmp yne mag_ok_mpz(3,4) by (simp add: udiv_def)
  next
    case 2
    then show ?thesis using cmp mag_ok_mpz(2) [OF assms(1)] mag_ok_mpz(3) by (simp add: udiv_def)
  next
    case 3
    then obtain l where l: "mp y = [l]" "0 < l" "l < DIG_BASE" using yne Y(1) by (cases "mp y") (auto simp: sz_def)
    have "\<not> zero_p x" using 3(1) X(3) by (auto simp: zero_p_def)
    then show ?thesis using div_limb_val [OF assms(1) _ l(2,3), of mpz_init mpz_init] cmp 3 l(1) by (simp add: udiv_def)
  qed (use knuth_udiv [OF assms(1,2)] in blast)
qed

section \<open>Division and remainder of Ruby\<close>

lemma mag_canon:
  assumes "mag_ok z v" "s \<in> {-1, 1}"
  shows "mpz_canon (z\<lparr>msn := (if uzero_p z then 0 else s)\<rparr>)" "mpz_val (z\<lparr>msn := (if uzero_p z then 0 else s)\<rparr>) = s * int v"
    "uzero_p z \<longleftrightarrow> v = 0"
proof -
  show v: "uzero_p z \<longleftrightarrow> v = 0" using assms(1) by (simp add: uzero_p_iff mag_ok_def)
  have "v = 0 \<longleftrightarrow> mp z = []" using assms(1) less_le_trans [OF zero_less_power [OF DIG_BASE_pos(1)] lval_last_pos, of "mp z"]
    by (cases "mp z = []") (auto simp: mag_ok_def)
  then show "mpz_canon (z\<lparr>msn := (if uzero_p z then 0 else s)\<rparr>)" "mpz_val (z\<lparr>msn := (if uzero_p z then 0 else s)\<rparr>) = s * int v"
    unfolding v using assms by (auto simp: mag_ok_def mpz_canon_def mpz_ok_def mpz_val_def)
qed

lemma floor_signs:
  fixes X Y :: nat
  assumes "sx \<in> {-1, 1}" "sy \<in> {-1, 1}" "0 < Y"
  shows "(sx * int X) div (sy * int Y) = sx * sy * int (X div Y) - (if X mod Y \<noteq> 0 \<and> sx * sy < 0 then 1 else 0)"
    "(sx * int X) mod (sy * int Y) = (if X mod Y = 0 then 0 else if sx * sy > 0 then sx * int (X mod Y)
       else if sx < 0 then sy * int Y - int (X mod Y) else sy * int Y + int (X mod Y))"
proof -
  have m: "int X mod int Y = 0 \<longleftrightarrow> X mod Y = 0" by (simp flip: zmod_int)
  show "(sx * int X) div (sy * int Y) = sx * sy * int (X div Y) - (if X mod Y \<noteq> 0 \<and> sx * sy < 0 then 1 else 0)"
    using assms m by (auto simp: zdiv_zminus1_eq_if zdiv_zminus2_eq_if zdiv_int)
  show "(sx * int X) mod (sy * int Y) = (if X mod Y = 0 then 0 else if sx * sy > 0 then sx * int (X mod Y)
       else if sx < 0 then sy * int Y - int (X mod Y) else sy * int Y + int (X mod Y))"
    using assms m mod_minus_minus [of "int X" "int Y"] zmod_zminus1_eq_if [of "int X" "int Y"] zmod_zminus2_eq_if [of "int X" "int Y"]
    by (auto simp: zmod_int)
qed

lemma canon_sign: "mpz_canon x \<Longrightarrow> \<not> zero_p x \<Longrightarrow> msn x \<in> {-1, 1}" "mpz_canon x \<Longrightarrow> zero_p x \<Longrightarrow> mpz_val x = 0"
  using mpz_canon_simps [of x] by (auto simp: zero_p_def mpz_val_def)

lemma add_one_negative:
  assumes "mpz_canon q" "mpz_val q = - int v"
  shows "mpz_canon ((mpz_add_int q 1)\<lparr>msn := - 1\<rparr>) \<and> mpz_val ((mpz_add_int q 1)\<lparr>msn := - 1\<rparr>) = - int v - 1"
proof -
  let ?a = "mpz_add_int q 1"
  have sg: "msn q = sgn (mpz_val q)" "msn q \<noteq> 0 \<or> mp q = []"
    using mpz_ok_sgn [of q] mpz_canon_simps(7,3) [OF assms(1)] by blast+
  have a: "mpz_ok ?a" "mpz_val ?a = mpz_val q + (if msn q < 0 then - 1 else 1)"
    using mpz_add_int_val [of q 1] mpz_canon_simps(7) [OF assms(1)] sg(2) by (simp_all add: DIG_BASE_def)
  have "msn q < 0 \<longleftrightarrow> v \<noteq> 0" unfolding sg(1) assms(2) by simp
  then have v: "\<bar>mpz_val ?a\<bar> = int v + 1" using a(2) assms(2) by (cases "v = 0") simp_all
  then have n: "msn ?a \<noteq> 0" by (auto simp: mpz_val_def)
  then have "\<bar>msn ?a\<bar> = 1" using a(1) by (auto simp: mpz_ok_def)
  then have "int (lval (mp ?a)) = int v + 1" using v by (simp add: mpz_val_def abs_mult)
  then show ?thesis using a(1) n by (auto simp: mpz_canon_def mpz_ok_def mpz_val_def)
qed

lemma mpz_mdiv_val:
  assumes "mpz_canon x" "mpz_canon y" "\<not> zero_p y"
  shows "\<exists>q. mpz_mdiv mpz_init x y = Inr q \<and> mpz_canon q \<and> mpz_val q = mpz_val x div mpz_val y"
proof (cases "zero_p x")
  case True
  have "in_i64 0" by (simp add: machine_int)
  then show ?thesis using True canon_sign(2) [OF assms(1)] sp_bigint_new_int_val [of 0]
    by (simp add: mpz_mdiv_def sp_bigint_new_int_def)
next
  case False
  let ?X = "lval (mp x)" and ?Y = "lval (mp y)" and ?s = "msn x * msn y"
  have s: "msn x \<in> {-1, 1}" "msn y \<in> {-1, 1}" by (rule canon_sign(1); use assms False in simp)+
  then have ss: "?s \<in> {-1, 1}" by auto
  have Y: "0 < ?Y" using mpz_canon_simps(3,5) [OF assms(2)] assms(3) by (auto simp: zero_p_def)
  obtain q r where u: "udiv mpz_init mpz_init x y = Inr (q, r)" "mag_ok q (?X div ?Y)" "mag_ok r (?X mod ?Y)"
    using udiv_val [OF assms] by blast
  define q1 where "q1 = q\<lparr>msn := (if uzero_p q then 0 else ?s)\<rparr>"
  note q1 = mag_canon [OF u(2) ss, folded q1_def] and r0 = mag_canon(3) [OF u(3) ss]
  have fl: "mpz_val x div mpz_val y = ?s * int (?X div ?Y) - (if ?X mod ?Y \<noteq> 0 \<and> ?s < 0 then 1 else 0)"
    unfolding mpz_val_def by (rule floor_signs(1) [OF s(1,2) Y])
  have m: "mpz_mdiv mpz_init x y = Inr (if ?X mod ?Y \<noteq> 0 \<and> ?s < 0 then (mpz_add_int q1 1)\<lparr>msn := - 1\<rparr> else q1)"
    unfolding mpz_mdiv_def Let_def u(1) sum.case prod.case r0 using False by (simp add: q1_def)
  show ?thesis
  proof (cases "?X mod ?Y \<noteq> 0 \<and> ?s < 0")
    case True
    then have s1: "?s = - 1" using ss by auto
    have "mpz_canon ((mpz_add_int q1 1)\<lparr>msn := - 1\<rparr>) \<and>
        mpz_val ((mpz_add_int q1 1)\<lparr>msn := - 1\<rparr>) = - int (?X div ?Y) - 1"
      by (rule add_one_negative) (use q1 s1 in simp_all)
    then show ?thesis unfolding m fl s1 using True s1 by simp
  next
    case False
    then show ?thesis unfolding m fl if_not_P [OF False] using q1 by simp
  qed
qed

lemma mpz_mmod_val:
  assumes "mpz_canon x" "mpz_canon y" "\<not> zero_p y"
  shows "\<exists>r. mpz_mmod mpz_init x y = Inr r \<and> mpz_canon r \<and> mpz_val r = mpz_val x mod mpz_val y"
proof (cases "zero_p x")
  case True
  then show ?thesis using canon_sign(2) [OF assms(1)]
    by (simp add: mpz_mmod_def zero_p_def zero_def mpz_init_def mpz_canon_def mpz_ok_def mpz_val_def)
next
  case False
  let ?X = "lval (mp x)" and ?Y = "lval (mp y)" and ?s = "msn x * msn y"
  have s: "msn x \<in> {-1, 1}" "msn y \<in> {-1, 1}" by (rule canon_sign(1); use assms False in simp)+
  have Y: "0 < ?Y" "mpz_ok y" using mpz_canon_simps(3,5,7) [OF assms(2)] assms(3) by (auto simp: zero_p_def)
  obtain q r where u: "udiv mpz_init mpz_init x y = Inr (q, r)" "mag_ok r (?X mod ?Y)"
    using udiv_val [OF assms] by blast
  note rx = mag_canon [OF u(2) s(1)] and r1 = mag_canon [OF u(2), of 1]
  have vy: "mpz_val y = msn y * int ?Y" by (simp add: mpz_val_def)
  have fl: "mpz_val x mod mpz_val y = (if ?X mod ?Y = 0 then 0 else if ?s > 0 then msn x * int (?X mod ?Y)
       else if msn x < 0 then msn y * int ?Y - int (?X mod ?Y) else msn y * int ?Y + int (?X mod ?Y))"
    unfolding mpz_val_def by (rule floor_signs(2) [OF s Y(1)])
  have m: "mpz_mmod mpz_init x y = Inr (if uzero_p r then r\<lparr>msn := 0\<rparr>
            else if ?s > 0 then r\<lparr>msn := msn x\<rparr>
            else if msn x < 0 \<and> msn y > 0 then mpz_sub (r\<lparr>msn := 1\<rparr>) y (r\<lparr>msn := 1\<rparr>)
            else mpz_add (r\<lparr>msn := 1\<rparr>) y (r\<lparr>msn := 1\<rparr>))"
    unfolding mpz_mmod_def Let_def u(1) using False by (simp add: zero_p_def)
  show ?thesis
  proof (cases "?X mod ?Y = 0")
    case True
    then show ?thesis unfolding m fl using rx by simp
  next
    case nz: False
    have r1': "mpz_ok (r\<lparr>msn := 1\<rparr>)" "mpz_val (r\<lparr>msn := 1\<rparr>) = int (?X mod ?Y)" using r1 nz by (simp_all add: mpz_canon_def)
    then have d: "mpz_dest (r\<lparr>msn := 1\<rparr>)" by simp
    consider "?s > 0" | "\<not> ?s > 0" "msn x < 0" "msn y > 0" | "\<not> ?s > 0" "\<not> msn x < 0" using s by auto
    then show ?thesis
    proof cases
      case 1
      then show ?thesis unfolding m fl using rx nz by simp
    next
      case 2
      then show ?thesis unfolding m fl using nz rx(3) mpz_sub_val [OF Y(2) r1'(1) d] r1'(2) vy by simp
    next
      case 3
      then show ?thesis unfolding m fl using nz rx(3) mpz_add_val [OF Y(2) r1'(1) d] r1'(2) vy by simp
    qed
  qed
qed

lemma truncated_remainder:
  fixes a b :: int
  assumes "b \<noteq> 0"
  shows "(if a mod b \<noteq> 0 \<and> sgn a \<noteq> sgn b then a mod b - b else a mod b) = sgn a * (\<bar>a\<bar> mod \<bar>b\<bar>)"
  using assms zmod_zminus1_eq_if [of a b] zmod_zminus2_eq_if [of a b] mod_minus_minus [of a b]
  by (cases "a = 0"; cases "a > 0"; cases "b > 0") (auto simp: sgn_if split: if_splits)

text \<open>
  C2: Division of two canonical numbers gives the quotient rounded down, the modulo the rest
  with the sign of the divisor, the remainder the rest with the sign of the dividend, all
  canonical; a zero divisor raises ZeroDivisionError and nothing else is raised.
\<close>
theorem bigint_division_exact:
  assumes "mpz_canon a" "mpz_canon b"
  shows "if mpz_val b = 0
    then sp_bigint_div a b = Inl (RaiseZeroDiv ''divided by 0'') \<and> sp_bigint_mod a b = Inl (RaiseZeroDiv ''divided by 0'') \<and>
      sp_bigint_remainder a b = Inl (RaiseZeroDiv ''divided by 0'')
    else \<exists>q r t. sp_bigint_div a b = Inr q \<and> mpz_canon q \<and> mpz_val q = mpz_val a div mpz_val b \<and>
      sp_bigint_mod a b = Inr r \<and> mpz_canon r \<and> mpz_val r = mpz_val a mod mpz_val b \<and>
      sp_bigint_remainder a b = Inr t \<and> mpz_canon t \<and>
      mpz_val t = sgn (mpz_val a) * (\<bar>mpz_val a\<bar> mod \<bar>mpz_val b\<bar>)"
proof -
  have sg: "sp_bigint_sign x = sgn (mpz_val x)" if "mpz_canon x" for x
    unfolding sp_bigint_sign_def by (rule mpz_ok_sgn) (rule mpz_canon_simps(7) [OF that])
  have z: "zero_p b \<longleftrightarrow> mpz_val b = 0" using sg [OF assms(2)] by (simp add: zero_p_def sp_bigint_sign_def sgn_0_0)
  show ?thesis
  proof (cases "zero_p b")
    case True
    then show ?thesis using z by (simp add: sp_bigint_div_def sp_bigint_mod_def sp_bigint_remainder_def)
  next
    case False
    then have nz: "mpz_val b \<noteq> 0" using z by simp
    obtain q where q: "mpz_mdiv mpz_init a b = Inr q" "mpz_canon q" "mpz_val q = mpz_val a div mpz_val b"
      using mpz_mdiv_val [OF assms False] by blast
    obtain r where r: "mpz_mmod mpz_init a b = Inr r" "mpz_canon r" "mpz_val r = mpz_val a mod mpz_val b"
      using mpz_mmod_val [OF assms False] by blast
    define t where "t = (if sp_bigint_sign r \<noteq> 0 \<and> sp_bigint_sign a \<noteq> sp_bigint_sign b then sp_bigint_sub r b else r)"
    have "mpz_canon (sp_bigint_sub r b) \<and> mpz_val (sp_bigint_sub r b) = mpz_val r - mpz_val b"
      unfolding sp_bigint_sub_def using mpz_sub_val [of r b mpz_init] r(2) assms(2) by (simp add: mpz_canon_simps(7))
    then have t: "mpz_canon t" "mpz_val t = sgn (mpz_val a) * (\<bar>mpz_val a\<bar> mod \<bar>mpz_val b\<bar>)"
      unfolding truncated_remainder [OF nz, symmetric] t_def sg [OF r(2)] sg [OF assms(1)] sg [OF assms(2)]
      using r by (simp_all add: sgn_0_0)
    have e: "sp_bigint_div a b = Inr q" "sp_bigint_mod a b = Inr r" "sp_bigint_remainder a b = Inr t"
      using False q r by (simp_all add: sp_bigint_div_def sp_bigint_mod_def sp_bigint_remainder_def t_def)
    show ?thesis unfolding e if_not_P [OF nz] using q(2,3) r(2,3) t by blast
  qed
qed

theorem bigint_division_exact_witness:
  "\<exists>q r. sp_bigint_div (sp_bigint_new_int (- 7)) (sp_bigint_new_int 2) = Inr q \<and> mpz_val q = - 4 \<and>
     sp_bigint_mod (sp_bigint_new_int (- 7)) (sp_bigint_new_int 2) = Inr r \<and> mpz_val r = 1"
proof -
  have "in_i64 (- 7)" "in_i64 2" by (simp_all add: machine_int)
  then show ?thesis
    using bigint_division_exact [of "sp_bigint_new_int (- 7)" "sp_bigint_new_int 2"] sp_bigint_new_int_val
    by auto
qed

end
