(* ===== verification/BigMod.thy ===== *)
theory BigMod
  imports BigMul BigDiv
begin

unbundle bit_operations_syntax

text \<open>
  The remainder that keeps the sign of the dividend (\<^verbatim>\<open>mpz_mod\<close> of \<^verbatim>\<open>lib/sp_bigint.c\<close>) with its shortcuts, a
  divisor of one limb and Barrett's reduction, and on top of it the greatest common divisor and the
  least common multiple.

  A destination that the code has allocated before keeps one zero limb where the result is zero, so
  the results here are canonical or that zero. The loops that the code ends by comparing numbers are
  partial functions: None is a loop that does not end.
\<close>

section \<open>Remainders\<close>

definition mpz_bits :: "mpz \<Rightarrow> nat" where
  "mpz_bits x = (if sz x = 0 \<or> msn x = 0 then 0 else (sz x - 1) * DIG_SIZE + (DIG_SIZE - lzb (mp x ! (sz x - 1))))"

fun mod_limb_loop :: "nat \<Rightarrow> nat \<Rightarrow> nat list \<Rightarrow> nat" where
  "mod_limb_loop m remainder [] = remainder"
| "mod_limb_loop m remainder (l # ls) = mod_limb_loop m ((u64 (remainder * 2 ^ DIG_SIZE) OR l) mod m) ls"

definition mpz_mod_limb :: "mpz \<Rightarrow> mpz \<Rightarrow> nat \<Rightarrow> mpz" where
  "mpz_mod_limb r x m =
     (if zero_p x then zero r
      else if sz x = 1
      then (let result = mp x ! 0 mod m in (mpz_set_int r (int result))\<lparr>msn := (if result = 0 then 0 else msn x)\<rparr>)
      else let remainder = mod_limb_loop m 0 (rev (mp x))
           in (mpz_set_int r (int (u32 remainder)))\<lparr>msn := (if remainder = 0 then 0 else msn x)\<rparr>)"

text \<open>The in-place case of the remainder by a power of two; \<open>mpz_mod_2exp\<close> is the other.\<close>

definition mpz_mod_2exp_inplace :: "mpz \<Rightarrow> nat \<Rightarrow> mpz" where
  "mpz_mod_2exp_inplace z e =
     (let eint = e div DIG_SIZE; bs = e mod DIG_SIZE
      in if e = 0 then zero mpz_init
      else if eint \<ge> sz z then z
      else let result_sz = eint + (if bs > 0 then 1 else 0);
               z = z\<lparr>mp := take result_sz (mp z)\<rparr>;
               z = (if bs > 0 then z\<lparr>mp := (mp z)[eint := (mp z ! eint) AND (2 ^ bs - 1)]\<rparr> else z)
           in trim z)"

text \<open>Barrett's parameter is \<open>2 ^ (2 * k) div m\<close>, where \<open>k\<close> is the number of bits of \<open>m\<close>.\<close>

definition mpz_barrett_mu :: "mpz \<Rightarrow> mpz \<Rightarrow> mpz big_res" where
  "mpz_barrett_mu mu m =
     (case mpz_mul_2exp (mpz_init_set_int 1) (mpz_init_set_int 1) (2 * mpz_bits m) of
        Inl e \<Rightarrow> Inl e | Inr temp \<Rightarrow> mpz_mdiv mu temp m)"

text \<open>The subtractions that end the reduction.\<close>

partial_function (option) barrett_correct :: "mpz \<Rightarrow> mpz \<Rightarrow> mpz option" where
  "barrett_correct r m = (if mpz_cmp r m \<ge> 0 then barrett_correct (mpz_sub_inplace r m) m else Some r)"

text \<open>\<open>r1 - r2\<close>, after a loan of \<open>2 ^ (k + 1)\<close> where \<open>r1\<close> is the smaller.\<close>

definition barrett_subtract :: "mpz \<Rightarrow> nat \<Rightarrow> mpz \<Rightarrow> mpz \<Rightarrow> mpz big_res" where
  "barrett_subtract r k r1 r2 =
     (if mpz_cmp r1 r2 \<ge> 0 then Inr (mpz_sub r r1 r2)
      else case mpz_mul_2exp (mpz_init_set_int 1) (mpz_init_set_int 1) (k + 1) of
             Inl e \<Rightarrow> Inl e
           | Inr pow \<Rightarrow> Inr (mpz_sub r (mpz_add r1 r1 pow) r2))"

definition mpz_barrett_reduce :: "mpz \<Rightarrow> mpz \<Rightarrow> mpz \<Rightarrow> mpz \<Rightarrow> mpz_answer" where
  "mpz_barrett_reduce r x m mu =
     (let k = mpz_bits m; q_size = sz x + sz mu + 1; r_size = sz m + 1
      in if mpz_cmp x m < 0 then Some (Inr (mpz_set r x))
      else let q1 = (if k > 1 then mpz_div_2exp (mpz_init_heap (sz x + 1)) x (k - 1)
                     else mpz_set (mpz_init_heap (sz x + 1)) x)
           in abind (mpz_mul (mpz_init_heap q_size) False q1 mu) (\<lambda>q2.
              let q3 = mpz_div_2exp (mpz_init_heap q_size) q2 (k + 1);
                  r1 = mpz_mod_2exp x (int (k + 1))
              in abind (mpz_mul (mpz_init_heap r_size) False q3 m) (\<lambda>r2.
                 abind (Some (barrett_subtract r k r1 (mpz_mod_2exp_inplace r2 (k + 1)))) (\<lambda>r.
                 map_option Inr (barrett_correct r m)))))"

text \<open>
  The destination \<open>r\<close> is another object than \<open>y\<close>; where it is \<open>x\<close> itself, \<open>x\<close> has at least the limbs of \<open>y\<close>
  and the reallocation leaves it as it is.
\<close>

definition mpz_mod :: "mpz \<Rightarrow> mpz \<Rightarrow> mpz \<Rightarrow> mpz_answer" where
  "mpz_mod r x y =
     (if zero_p x then Some (Inr (zero r))
      else if sz y = 1 then Some (Inr (mpz_mod_limb r x (mp y ! 0)))
      else if sz y \<ge> 4 \<and> sz y \<le> 16 \<and> sz x \<ge> sz y + 2 \<and> sz x \<le> 2 * sz y
      then let ax = x\<lparr>msn := 1\<rparr>; ay = y\<lparr>msn := 1\<rparr>
           in abind (Some (mpz_barrett_mu (mpz_init_heap (sz y + 1)) ay)) (\<lambda>mu.
              abind (mpz_barrett_reduce (mpz_realloc r (sz y)) ax ay mu) (\<lambda>r. Some (Inr (with_sign (msn x) r))))
      else case udiv (mpz_init_heap (sz x)) (mpz_realloc r (sz y)) x y of
             Inl e \<Rightarrow> Some (Inl e)
           | Inr (q, r) \<Rightarrow> Some (Inr (with_sign (msn x) r)))"

section \<open>Greatest common divisor\<close>

definition mpz_abs :: "mpz \<Rightarrow> mpz" where
  "mpz_abs y =
     (let x = mpz_init_heap (sz y)
      in if sz y = 0 then x\<lparr>mp := [], msn := 0\<rparr> else x\<lparr>mp := mp y, msn := (if msn y < 0 then - msn y else msn y)\<rparr>)"

text \<open>The loops of \<open>limb_gcd\<close> run on limbs other than 0.\<close>

function common_twos :: "nat \<Rightarrow> nat \<Rightarrow> nat \<Rightarrow> nat \<times> nat \<times> nat" where
  "common_twos a b shift =
     (if a OR b \<noteq> 0 \<and> (a OR b) AND 1 = 0 then common_twos (a div 2) (b div 2) (shift + 1) else (a, b, shift))"
  by pat_completeness auto

termination
proof (relation "measure (\<lambda>(a, b, shift). a + b)", goal_cases)
  case (2 a b shift)
  then have "a \<noteq> 0 \<or> b \<noteq> 0" by auto
  then have "a div 2 < a \<or> b div 2 < b" "a div 2 \<le> a" "b div 2 \<le> b" by auto
  then show ?case by auto
qed simp

declare common_twos.simps [simp del]

fun odd_part :: "nat \<Rightarrow> nat" where
  "odd_part a = (if a \<noteq> 0 \<and> a AND 1 = 0 then odd_part (a div 2) else a)"

declare odd_part.simps [simp del]

partial_function (option) stein :: "nat \<Rightarrow> nat \<Rightarrow> nat option" where
  "stein a b =
     (let b = odd_part b; lo = (if a > b then b else a); hi = (if a > b then a else b); d = hi - lo
      in if d \<noteq> 0 then stein lo d else Some lo)"

definition limb_gcd :: "nat \<Rightarrow> nat \<Rightarrow> nat option" where
  "limb_gcd a b =
     (if a = 0 then Some b else if b = 0 then Some a
      else let (a, b, shift) = common_twos a b 0
           in map_option (\<lambda>a. u32 (a * 2 ^ shift)) (stein (odd_part a) b))"

definition mpz_trailing_zeros :: "mpz \<Rightarrow> nat" where
  "mpz_trailing_zeros x =
     (if zero_p x \<or> sz x = 0 then 0
      else let i = length (takeWhile (\<lambda>l. l = 0) (mp x))
           in i * DIG_SIZE + (if i < sz x then ctz (mp x ! i) else 0))"

definition mpz_power_of_2_p :: "mpz \<Rightarrow> bool" where
  "mpz_power_of_2_p x \<longleftrightarrow> \<not> (zero_p x \<or> sz x = 0) \<and>
     (case filter (\<lambda>l. l \<noteq> 0) (mp x) of [limb] \<Rightarrow> limb \<noteq> 0 \<and> limb AND (limb - 1) = 0 | _ \<Rightarrow> False)"

partial_function (option) gcd_loop :: "mpz \<Rightarrow> mpz \<Rightarrow> mpz_answer" where
  "gcd_loop a b =
     (if zero_p b then Some (Inr a)
      else case mpz_mod (mpz_init_heap (sz a)) a b of
             None \<Rightarrow> None
           | Some res \<Rightarrow> (case res of Inl e \<Rightarrow> Some (Inl e) | Inr temp \<Rightarrow> gcd_loop b temp))"

definition gcd_power :: "mpz \<Rightarrow> mpz \<Rightarrow> mpz big_res" where
  "gcd_power aa bb =
     (let a_zeros = mpz_trailing_zeros aa; b_zeros = mpz_trailing_zeros bb
      in mpz_mul_2exp (mpz_init_set_int 1) (mpz_init_set_int 1) (if a_zeros < b_zeros then a_zeros else b_zeros))"

definition mpz_gcd :: "mpz \<Rightarrow> mpz \<Rightarrow> mpz \<Rightarrow> mpz_answer" where
  "mpz_gcd gg aa bb =
     (if zero_p aa then Some (Inr (mpz_abs bb))
      else if zero_p bb then Some (Inr (mpz_abs aa))
      else if sz aa \<le> 1 \<and> sz bb \<le> 1
      then let a_limb = (if sz aa = 0 then 0 else mp aa ! 0); b_limb = (if sz bb = 0 then 0 else mp bb ! 0)
           in map_option (\<lambda>result. Inr (if result = 0 then mpz_init\<lparr>msn := 0, mp := []\<rparr>
                else (mpz_realloc mpz_init 1)\<lparr>mp := [result], msn := 1\<rparr>)) (limb_gcd a_limb b_limb)
      else if mpz_power_of_2_p aa then Some (gcd_power aa bb)
      else if mpz_power_of_2_p bb then Some (gcd_power aa bb)
      else let a = mpz_abs aa; b = mpz_abs bb;
               a_zeros = mpz_trailing_zeros a; b_zeros = mpz_trailing_zeros b;
               shift = (if a_zeros < b_zeros then a_zeros else b_zeros)
           in abind (gcd_loop (mpz_div_2exp_inplace a a_zeros) (mpz_div_2exp_inplace b b_zeros)) (\<lambda>a.
              Some (mpz_mul_2exp gg a shift)))"

definition sp_bigint_abs_v :: "mpz option \<Rightarrow> mpz" where
  "sp_bigint_abs_v b =
     (case b of None \<Rightarrow> sp_bigint_new_int 0
      | Some b \<Rightarrow> (if sp_bigint_sign b \<ge> 0 then b else sp_bigint_sub (sp_bigint_new_int 0) b))"

definition sp_bigint_gcd :: "mpz \<Rightarrow> mpz \<Rightarrow> mpz_answer" where
  "sp_bigint_gcd a b = map_option (map_sum id (\<lambda>r. sp_bigint_abs_v (Some r))) (mpz_gcd mpz_init a b)"

definition sp_bigint_lcm :: "mpz \<Rightarrow> mpz \<Rightarrow> mpz_answer" where
  "sp_bigint_lcm a b =
     (if sp_bigint_sign a = 0 \<or> sp_bigint_sign b = 0 then Some (Inr (sp_bigint_new_int 0))
      else abind (sp_bigint_gcd a b) (\<lambda>g.
           abind (Some (sp_bigint_div (sp_bigint_abs_v (Some a)) g)) (\<lambda>q. sp_bigint_mul False q (sp_bigint_abs_v (Some b)))))"

section \<open>Results in a used destination\<close>

text \<open>A canonical number, or the zero that one zero limb is.\<close>

definition settles :: "mpz \<Rightarrow> int \<Rightarrow> bool" where
  "settles r v \<longleftrightarrow> (mpz_canon r \<and> mpz_val r = v) \<or> (v = 0 \<and> mp r = [0] \<and> \<not> mnull r \<and> msn r \<in> {-1, 0, 1})"

lemma settlesI: "mpz_canon r \<Longrightarrow> settles r (mpz_val r)"
  by (simp add: settles_def)

lemma settles_val: "settles r v \<Longrightarrow> mpz_val r = v" "settles r v \<Longrightarrow> mpz_dest r" "settles r v \<Longrightarrow> v \<noteq> 0 \<Longrightarrow> mpz_canon r"
  by (auto simp: settles_def mpz_val_def mpz_dest_def mpz_canon_def mpz_ok_def)

lemma settles_limbs: "settles r v \<Longrightarrow> limbs_ok (mp r)" "settles r v \<Longrightarrow> uzero_p r \<longleftrightarrow> v = 0"
proof -
  assume r: "settles r v"
  show "limbs_ok (mp r)" using r by (auto simp: settles_def mpz_canon_def mpz_ok_def)
  show "uzero_p r \<longleftrightarrow> v = 0"
    using r mpz_canon_simps [of r] by (auto simp: settles_def uzero_p_iff mpz_val_def)
qed

definition mag_res :: "mpz \<Rightarrow> nat \<Rightarrow> bool" where
  "mag_res z v \<longleftrightarrow> mag_ok z v \<or> v = 0 \<and> mp z = [0] \<and> \<not> mnull z"

lemma mag_res_with_sign:
  assumes "mag_res z v" "s \<in> {-1, 1}"
  shows "settles (with_sign s z) (s * int v)" "zero_p (with_sign s z) \<longleftrightarrow> v = 0"
proof -
  have u: "uzero_p z \<longleftrightarrow> v = 0" using assms by (auto simp: mag_res_def uzero_p_iff mag_ok_def)
  then show "zero_p (with_sign s z) \<longleftrightarrow> v = 0" using assms(2) by (auto simp: with_sign_def zero_p_def)
  show "settles (with_sign s z) (s * int v)"
  proof (cases "mag_ok z v")
    case True
    then show ?thesis using mag_canon(1,2) [OF True assms(2)] by (auto simp: settles_def with_sign_def)
  next
    case False
    then show ?thesis using assms u by (auto simp: mag_res_def settles_def with_sign_def)
  qed
qed

lemma zero_mag: "mpz_dest c \<Longrightarrow> mag_res (zero c) 0"
  by (auto simp: mag_res_def mag_ok_def zero_def)

lemma realloc_dest: "mpz_dest r \<Longrightarrow> mpz_dest (mpz_realloc r n)" "mpz_dest (mpz_init_heap n)"
  by (auto simp: mpz_dest_def mpz_realloc_def mpz_init_heap_def mpz_init_def)

lemma urshift_mag_res:
  assumes "mag_ok (urshift mpz_init a n) v" "mpz_dest c"
  shows "mag_res (urshift c a n) v"
proof -
  have m: "mpz_dest (mpz_set c a)" "mp (mpz_set c a) = mp a" "mp (mpz_set mpz_init a) = mp a"
    using assms(2) by (auto simp: mpz_set_def mpz_dest_def mpz_realloc_def sz_def split: if_splits)
  show ?thesis
  proof (cases "n \<noteq> 0 \<and> uzero_p a")
    case True
    then have "v = 0" using assms(1) by (simp add: urshift_def mag_ok_def mpz_init_def zero_def)
    then show ?thesis using True zero_mag [OF assms(2)] by (simp add: urshift_def)
  next
    case False
    then have "mp (urshift c a n) = mp (urshift mpz_init a n)"
      by (auto simp: urshift_def trim_mp m)
    moreover have "mpz_dest (urshift c a n)"
    proof (cases "n = 0")
      case True
      then show ?thesis using m trim_mp [of "mpz_set c a"] by (auto simp: urshift_def mpz_dest_def)
    next
      case n: False
      then have "mp a \<noteq> []" using False by (auto simp: uzero_p_def)
      then have "\<not> mnull (mpz_realloc c (sz a))" using assms(2) by (auto simp: mpz_realloc_def mpz_dest_def sz_def)
      then show ?thesis using n False by (simp add: urshift_def mpz_dest_def trim_mp)
    qed
    ultimately show ?thesis using assms(1) by (simp add: mag_res_def mag_ok_def mpz_dest_def)
  qed
qed

text \<open>The division into any destinations.\<close>

lemma udiv_dest:
  assumes "mpz_canon x" "mpz_canon y" "\<not> zero_p y" "mpz_dest qq" "mpz_dest rr"
  shows "\<exists>q r. udiv qq rr x y = Inr (q, r) \<and>
    mag_res q (lval (mp x) div lval (mp y)) \<and> mag_res r (lval (mp x) mod lval (mp y))"
proof -
  note X = mpz_canon_simps [OF assms(1)] and Y = mpz_canon_simps [OF assms(2)]
  have yne: "mp y \<noteq> []" "0 < lval (mp y)" using assms(3) Y(3,5) by (auto simp: zero_p_def)
  note cmp = ucmp_val [OF X(1) Y(1) X(4) Y(4)]
  have one: "mag_res (mpz_set_int qq 1) 1" using set_one [OF assms(4)]
    by (auto simp: mag_res_def mag_ok_def mpz_canon_def mpz_ok_def mpz_val_def split: if_splits)
  consider "lval (mp x) = lval (mp y)" | "lval (mp x) < lval (mp y)" | "lval (mp y) < lval (mp x)" "sz y = 1"
    | "lval (mp y) < lval (mp x)" "sz y \<noteq> 1" by linarith
  then show ?thesis
  proof cases
    case 1
    then show ?thesis using cmp yne one zero_mag [OF assms(5)] by (simp add: udiv_def)
  next
    case 2
    have "mag_res (mpz_set rr x) (lval (mp x))" using mpz_set_ok [OF X(7) assms(5)] X assms(5)
      by (auto simp: mag_res_def mag_ok_def mpz_set_def mpz_realloc_def mpz_dest_def sz_def)
    then show ?thesis using 2 cmp zero_mag [OF assms(4)] by (simp add: udiv_def)
  next
    case 3
    then obtain l where l: "mp y = [l]" "0 < l" "l < DIG_BASE" using yne Y(1) by (cases "mp y") (auto simp: sz_def)
    have "\<not> zero_p x" using 3(1) X(3) by (auto simp: zero_p_def)
    then show ?thesis using div_limb_val [OF assms(1) _ l(2,3), of qq rr] cmp 3 l(1) by (auto simp: udiv_def mag_res_def)
  next
    case 4
    obtain q r where qr: "udiv mpz_init mpz_init x y = Inr (q, r)" "mag_ok q (lval (mp x) div lval (mp y))"
      "mag_ok r (lval (mp x) mod lval (mp y))" using udiv_val [OF assms(1-3)] by blast
    have c: "ucmp x y = 1" using cmp 4 by simp
    from qr(1) have "udiv qq rr x y = Inr (zero qq, zero rr) \<and> q = zero mpz_init \<and> r = zero mpz_init \<or>
        (\<exists>X n. udiv qq rr x y = Inr (q, urshift rr X n) \<and> r = urshift mpz_init X n)"
      unfolding udiv_def c using 4(2) by (auto simp: Let_def case_prod_beta split: if_splits)
    then show ?thesis
    proof (elim disjE exE conjE)
      assume "udiv qq rr x y = Inr (zero qq, zero rr)" "q = zero mpz_init" "r = zero mpz_init"
      moreover from this have "lval (mp x) div lval (mp y) = 0" "lval (mp x) mod lval (mp y) = 0"
        using qr by (simp_all add: mag_ok_def mpz_init_def zero_def)
      ultimately show ?thesis using zero_mag assms(4,5) by simp
    next
      fix X n
      assume "udiv qq rr x y = Inr (q, urshift rr X n)" "r = urshift mpz_init X n"
      then show ?thesis using qr urshift_mag_res [of X n _ rr] assms(5) by (auto simp: mag_res_def)
    qed
  qed
qed

lemma mpz_bits_val:
  assumes "mpz_canon m" "\<not> zero_p m"
  shows "0 < mpz_bits m" "2 ^ (mpz_bits m - 1) \<le> lval (mp m)" "lval (mp m) < 2 ^ mpz_bits m" "mpz_bits m \<le> sz m * DIG_SIZE"
proof -
  note M = mpz_canon_simps [OF assms(1)]
  obtain xs l where xs: "mp m = xs @ [l]" using assms(2) M(3) by (cases "mp m" rule: rev_cases) (auto simp: zero_p_def)
  have l: "0 < l" "l < DIG_BASE" "limbs_ok xs" using M(1,4) xs by auto
  have lb: "2 ^ log2_loop l 0 \<le> l" "l < 2 ^ Suc (log2_loop l 0)" using log2_loop_bounds [OF l(1)] by simp_all
  have "(2::nat) ^ log2_loop l 0 < 2 ^ DIG_SIZE" using lb(1) l(2) by simp
  then have k: "log2_loop l 0 < DIG_SIZE" by (simp only: power_strict_increasing_iff one_less_numeral_iff semiring_norm(76))
  then have b: "mpz_bits m = length xs * DIG_SIZE + Suc (log2_loop l 0)"
    using assms(2) xs l(1) by (auto simp: mpz_bits_def sz_def zero_p_def nth_append lzb_def)
  show "0 < mpz_bits m" unfolding b by simp
  show "mpz_bits m \<le> sz m * DIG_SIZE" unfolding b using k xs by (simp add: sz_def)
  have v: "lval (mp m) = lval xs + 2 ^ (length xs * DIG_SIZE) * l" "lval xs < 2 ^ (length xs * DIG_SIZE)"
    using lval_less [OF l(3)] by (simp_all add: xs lval_append base_power)
  have "2 ^ (length xs * DIG_SIZE) * 2 ^ log2_loop l 0 \<le> 2 ^ (length xs * DIG_SIZE) * l" using lb(1) by simp
  moreover have "mpz_bits m - 1 = length xs * DIG_SIZE + log2_loop l 0" unfolding b by simp
  ultimately show "2 ^ (mpz_bits m - 1) \<le> lval (mp m)" unfolding v(1) by (simp only: power_add)
  have "2 ^ (length xs * DIG_SIZE) * Suc l \<le> 2 ^ (length xs * DIG_SIZE) * 2 ^ Suc (log2_loop l 0)"
    using lb(2) by (intro mult_left_mono) simp_all
  then show "lval (mp m) < 2 ^ mpz_bits m" unfolding b v(1) power_add using v(2) by simp
qed

text \<open>By one limb.\<close>

lemma mod_limb_loop_val:
  assumes "limbs_ok ls" "r < m" "m \<le> DIG_BASE"
  shows "mod_limb_loop m r ls = (r * DIG_BASE ^ length ls + lval (rev ls)) mod m"
  using assms(1,2)
proof (induction ls arbitrary: r)
  case (Cons l ls)
  have "r * 2 ^ DIG_SIZE < 2 ^ 64" using Cons.prems(2) assms(3) by (simp add: DIG_SIZE_def DIG_BASE_def)
  then have o: "u64 (r * 2 ^ DIG_SIZE) OR l = r * DIG_BASE + l"
    using or_add [of l DIG_SIZE r] Cons.prems(1) by (simp add: u64_def or.commute add.commute)
  have "(r * DIG_BASE + l) mod m < m" using Cons.prems(2) by simp
  then have "mod_limb_loop m r (l # ls) = (((r * DIG_BASE + l) mod m) * DIG_BASE ^ length ls + lval (rev ls)) mod m"
    using Cons.IH Cons.prems(1) o by simp
  also have "\<dots> = ((r * DIG_BASE + l) * DIG_BASE ^ length ls + lval (rev ls)) mod m"
    by (metis mod_add_left_eq mod_mult_left_eq)
  finally show ?case by (simp add: lval_append algebra_simps)
qed simp

lemma resign:
  assumes "mpz_canon z" "mpz_val z = int v" "s \<in> {-1, 1}"
  shows "mpz_canon (z\<lparr>msn := (if v = 0 then 0 else s)\<rparr>) \<and> mpz_val (z\<lparr>msn := (if v = 0 then 0 else s)\<rparr>) = s * int v"
proof (cases "v = 0")
  case True
  then have "zero_p z" using canon_nonzero [OF assms(1)] assms(2) by simp
  then have "mp z = []" using mpz_canon_simps(3) [OF assms(1)] by (simp add: zero_p_def)
  then show ?thesis using True by (simp add: mpz_canon_def mpz_ok_def mpz_val_def)
next
  case False
  then have "msn z \<noteq> 0" using assms(2) by (auto simp: mpz_val_def)
  moreover from this have "mp z \<noteq> []" "last (mp z) \<noteq> 0" using mpz_canon_simps(3,4) [OF assms(1)] by auto
  moreover have "int v = int (lval (mp z))" using assms mpz_canon_simps(2) [OF assms(1)] False by (auto simp: mpz_val_def)
  ultimately show ?thesis using False assms mpz_canon_simps(1,6) [OF assms(1)] by (auto simp: mpz_canon_def mpz_ok_def mpz_val_def)
qed

lemma mpz_mod_limb_val:
  assumes "mpz_canon x" "\<not> zero_p x" "0 < m" "m < DIG_BASE" "mpz_dest r"
  shows "settles (mpz_mod_limb r x m) (msn x * int (lval (mp x) mod m))"
    "zero_p (mpz_mod_limb r x m) \<longleftrightarrow> lval (mp x) mod m = 0"
proof -
  note X = mpz_canon_simps [OF assms(1)]
  have s: "msn x \<in> {-1, 1}" using canon_sign(1) [OF assms(1,2)] .
  define v where "v = lval (mp x) mod m"
  have v: "v < DIG_BASE" using assms(3,4) by (simp add: v_def) (metis less_trans mod_less_divisor)
  have "mpz_mod_limb r x m = (mpz_set_int r (int v))\<lparr>msn := (if v = 0 then 0 else msn x)\<rparr>"
  proof (cases "sz x = 1")
    case True
    then obtain l where "mp x = [l]" by (cases "mp x") (auto simp: sz_def)
    then show ?thesis using assms(2) True by (simp add: mpz_mod_limb_def v_def Let_def)
  next
    case False
    have "mod_limb_loop m 0 (rev (mp x)) = v" using mod_limb_loop_val [of "rev (mp x)" 0 m] assms(3,4) X(1) by (simp add: v_def)
    then show ?thesis using assms(2) False v by (simp add: mpz_mod_limb_def Let_def)
  qed
  moreover have "in_i64 (int v)" using v by (simp add: machine_int DIG_BASE_def)
  then have "mpz_canon (mpz_set_int r (int v))" "mpz_val (mpz_set_int r (int v)) = int v" using mpz_set_int_val assms(5) by simp_all
  then have "mpz_canon ((mpz_set_int r (int v))\<lparr>msn := (if v = 0 then 0 else msn x)\<rparr>) \<and>
      mpz_val ((mpz_set_int r (int v))\<lparr>msn := (if v = 0 then 0 else msn x)\<rparr>) = msn x * int v"
    using s by (rule resign)
  ultimately show "settles (mpz_mod_limb r x m) (msn x * int v)" "zero_p (mpz_mod_limb r x m) \<longleftrightarrow> v = 0"
    using s by (auto simp: settles_def zero_p_def)
qed

section \<open>Barrett's reduction\<close>

lemma mdiv_pos:
  assumes "mpz_canon x" "mpz_canon y" "0 \<le> mpz_val x" "0 < mpz_val y" "mpz_dest q"
  shows "\<exists>r. mpz_mdiv q x y = Inr r \<and> settles r (mpz_val x div mpz_val y) \<and> (zero_p r \<longleftrightarrow> mpz_val x div mpz_val y = 0)"
proof (cases "zero_p x")
  case True
  then show ?thesis using canon_sign(2) [OF assms(1)]
    by (simp add: mpz_mdiv_def mpz_init_set_int_def mpz_set_int_def mpz_init_def settles_def mpz_canon_def mpz_ok_def mpz_val_def zero_p_def)
next
  case False
  have ny: "\<not> zero_p y" using assms(4) canon_nonzero [OF assms(2)] by simp
  have s: "msn x = 1" "msn y = 1" using canon_sign(1) [OF assms(1) False] canon_sign(1) [OF assms(2) ny] assms(3,4)
      mpz_canon_simps(3,5) [OF assms(1)] by (auto simp: mpz_val_def)
  obtain q' r where u: "udiv q mpz_init x y = Inr (q', r)" "mag_res q' (lval (mp x) div lval (mp y))"
    using udiv_dest [OF assms(1,2) ny assms(5), of mpz_init] by auto
  have "mpz_mdiv q x y = Inr (with_sign 1 q')" unfolding mpz_mdiv_def u(1) with_sign_def using False s by (simp add: Let_def)
  moreover have "mpz_val x div mpz_val y = 1 * int (lval (mp x) div lval (mp y))" using s by (simp add: mpz_val_def zdiv_int)
  ultimately show ?thesis using mag_res_with_sign [OF u(2), of 1] by (metis insertI1 insertI2 mult_1 of_nat_eq_0_iff)
qed

lemma div_2exp_dest:
  assumes "mpz_canon x" "mpz_dest z"
  shows "settles (mpz_div_2exp z x e) (msn x * int (lval (mp x) div 2 ^ e))"
    "zero_p (mpz_div_2exp z x e) \<longleftrightarrow> msn x * int (lval (mp x) div 2 ^ e) = 0"
proof -
  note v = mpz_div_2exp_val [OF assms(1), of e]
  have "mpz_div_2exp z x e = mpz_div_2exp mpz_init x e \<or> mpz_div_2exp z x e = zero z \<and> mpz_div_2exp mpz_init x e = zero mpz_init"
    by (auto simp: mpz_div_2exp_def Let_def)
  then have "settles (mpz_div_2exp z x e) (msn x * int (lval (mp x) div 2 ^ e)) \<and>
    (zero_p (mpz_div_2exp z x e) \<longleftrightarrow> msn x * int (lval (mp x) div 2 ^ e) = 0)"
  proof (elim disjE conjE)
    assume e: "mpz_div_2exp z x e = mpz_div_2exp mpz_init x e"
    show ?thesis unfolding e using v canon_nonzero settles_def by metis
  next
    assume e: "mpz_div_2exp z x e = zero z" "mpz_div_2exp mpz_init x e = zero mpz_init"
    then have "msn x * int (lval (mp x) div 2 ^ e) = 0" using v by (simp add: mpz_val_def mpz_init_def zero_def)
    then show ?thesis
      using e(1) assms(2) by (auto simp: zero_def zero_p_def settles_def mpz_canon_def mpz_ok_def mpz_val_def)
  qed
  then show "settles (mpz_div_2exp z x e) (msn x * int (lval (mp x) div 2 ^ e))"
    "zero_p (mpz_div_2exp z x e) \<longleftrightarrow> msn x * int (lval (mp x) div 2 ^ e) = 0" by simp_all
qed

text \<open>The limbs of a remainder by \<open>2 ^ e\<close>.\<close>

lemma low_limbs_val:
  assumes "limbs_ok xs" "e div DIG_SIZE < length xs"
  defines "l \<equiv> take (e div DIG_SIZE) xs @ (if e mod DIG_SIZE > 0 then [(xs ! (e div DIG_SIZE)) AND (2 ^ (e mod DIG_SIZE) - 1)] else [])"
  shows "limbs_ok l" "lval l = lval xs mod 2 ^ e"
proof -
  let ?d = "e div DIG_SIZE" and ?b = "e mod DIG_SIZE"
  have b: "?b \<le> DIG_SIZE" by (simp add: DIG_SIZE_def)
  have "xs ! ?d < DIG_BASE" using assms(1,2) by (simp add: limbs_ok_def)
  then have "(xs ! ?d) mod 2 ^ ?b < DIG_BASE" by (metis mod_less_eq_dividend le_less_trans)
  then show "limbs_ok l" using assms(1) unfolding l_def and_mask_nat by (auto simp: limbs_ok_def dest: in_set_takeD)
  have "lval xs mod 2 ^ e = lval (take ?d xs) + DIG_BASE ^ ?d * ((xs ! ?d) mod 2 ^ ?b)"
    unfolding pow_split [of e] using lval_mod [OF assms(1,2), of ?b] drop_mod [OF assms(2) b] by simp
  then show "lval l = lval xs mod 2 ^ e" using assms(2) unfolding l_def and_mask_nat by (simp add: lval_append min_absorb2)
qed

lemma below_limbs:
  assumes "limbs_ok xs" "length xs \<le> e div DIG_SIZE"
  shows "lval xs mod 2 ^ e = lval xs"
proof -
  have "lval xs < DIG_BASE ^ (e div DIG_SIZE)" using less_le_trans [OF lval_less [OF assms(1)] power_increasing [OF assms(2), of DIG_BASE]] by simp
  also have "\<dots> \<le> 2 ^ e" unfolding pow_split [of e] by simp
  finally show ?thesis by simp
qed

lemma mod_2exp_val:
  assumes "mpz_canon x" "0 < e"
  shows "mpz_canon (mpz_mod_2exp x (int e)) \<and> mpz_val (mpz_mod_2exp x (int e)) = msn x * int (lval (mp x) mod 2 ^ e)"
proof -
  note X = mpz_canon_simps [OF assms(1)]
  show ?thesis
  proof (cases "e div DIG_SIZE \<ge> sz x")
    case True
    then have "lval (mp x) mod 2 ^ e = lval (mp x)" using below_limbs [OF X(1), of e] by (simp add: sz_def)
    then show ?thesis using True assms mpz_set_trim [OF X(7), of "mpz_init_heap (sz x)"]
      by (simp add: mpz_mod_2exp_def realloc_dest Let_def) (simp add: mpz_val_def)
  next
    case False
    let ?l = "take (e div DIG_SIZE) (mp x) @ (if e mod DIG_SIZE > 0 then [(mp x ! (e div DIG_SIZE)) AND (2 ^ (e mod DIG_SIZE) - 1)] else [])"
    let ?h = "mpz_init_heap (e div DIG_SIZE + (if e mod DIG_SIZE > 0 then 1 else 0))"
    note l = low_limbs_val [OF X(1), of e] 
    have h: "\<not> mnull ?h" using assms(2) by (auto simp: mpz_init_heap_def DIG_SIZE_def)
    have "mpz_mod_2exp x (int e) = trim (?h\<lparr>msn := msn x, mp := ?l\<rparr>)"
      using False assms(2) by (simp add: mpz_mod_2exp_def Let_def)
    moreover have "msn x = 0 \<longrightarrow> lval ?l = 0" using l X(3) False by (auto simp: sz_def)
    ultimately show ?thesis using trim_ok [of "?h\<lparr>msn := msn x, mp := ?l\<rparr>"] l False h X(2) by (simp add: mpz_val_def sz_def)
  qed
qed

lemma mod_2exp_inplace_val:
  assumes "mpz_ok z" "0 \<le> msn z" "0 < e"
  shows "mpz_ok (mpz_mod_2exp_inplace z e) \<and> mpz_val (mpz_mod_2exp_inplace z e) = mpz_val z mod 2 ^ e \<and>
    (mpz_canon z \<longrightarrow> mpz_canon (mpz_mod_2exp_inplace z e)) \<and> 0 \<le> msn (mpz_mod_2exp_inplace z e) \<and>
    (mpz_canon (mpz_mod_2exp_inplace z e) \<or> mp (mpz_mod_2exp_inplace z e) = mp z)"
proof -
  have Z: "limbs_ok (mp z)" "msn z \<in> {0, 1}" "mnull z \<longrightarrow> mp z = []" "msn z = 0 \<longrightarrow> lval (mp z) = 0"
    using assms(1,2) by (auto simp: mpz_ok_def split: if_splits)
  have v: "mpz_val z mod 2 ^ e = msn z * int (lval (mp z) mod 2 ^ e)" using Z(2) by (auto simp: mpz_val_def zmod_int)
  show ?thesis
  proof (cases "e div DIG_SIZE \<ge> sz z")
    case True
    then have "lval (mp z) mod 2 ^ e = lval (mp z)" using below_limbs [OF Z(1), of e] by (simp add: sz_def)
    then show ?thesis unfolding v using True assms by (simp add: mpz_mod_2exp_inplace_def Let_def mpz_val_def)
  next
    case False
    let ?d = "e div DIG_SIZE"
    let ?l = "take ?d (mp z) @ (if e mod DIG_SIZE > 0 then [(mp z ! ?d) AND (2 ^ (e mod DIG_SIZE) - 1)] else [])"
    have lt: "?d < length (mp z)" using False by (simp add: sz_def)
    note l = low_limbs_val [OF Z(1) lt]
    have "take (?d + 1) (mp z) = take ?d (mp z) @ [mp z ! ?d]" using lt by (simp add: take_Suc_conv_app_nth)
    then have "mpz_mod_2exp_inplace z e = trim (z\<lparr>mp := ?l\<rparr>)"
      using False assms(3) lt by (auto simp: mpz_mod_2exp_inplace_def Let_def list_update_append nth_append)
    moreover have "\<not> mnull z" using Z(3) lt by auto
    ultimately have "mpz_canon (mpz_mod_2exp_inplace z e) \<and> mpz_val (mpz_mod_2exp_inplace z e) = mpz_val z mod 2 ^ e"
      unfolding v using trim_ok [of "z\<lparr>mp := ?l\<rparr>"] l Z by (auto simp: mpz_val_def)
    moreover have "0 \<le> mpz_val z mod 2 ^ e" by simp
    then have "0 \<le> sgn (mpz_val z mod 2 ^ e)" by (metis sgn_0 sgn_1_pos order_le_less zero_le_one)
    moreover have "msn (mpz_mod_2exp_inplace z e) = sgn (mpz_val z mod 2 ^ e)"
      using mpz_ok_sgn [of "mpz_mod_2exp_inplace z e"] calculation(1) by (simp add: mpz_canon_def)
    ultimately show ?thesis by (simp add: mpz_canon_def)
  qed
qed

lemma digits_zero: "list_all (\<lambda>l. l = 0) xs \<Longrightarrow> i < length xs \<Longrightarrow> digits_down xs i = 0"
  by (induction i) (auto simp: list_all_length)

lemma canon_pos: "mpz_canon x \<Longrightarrow> 0 < mpz_val x \<Longrightarrow> msn x = 1 \<and> mp x \<noteq> [] \<and> mpz_val x = int (lval (mp x))"
  using mpz_canon_simps [of x] by (auto simp: mpz_val_def zero_less_mult_iff)

text \<open>Equal numbers leave one zero limb with a positive sign.\<close>

lemma sub_equal:
  assumes "mpz_canon r" "mpz_canon m" "mpz_val r = mpz_val m" "0 < mpz_val m"
  shows "mp (mpz_sub_inplace r m) = [0] \<and> msn (mpz_sub_inplace r m) = 1 \<and> \<not> mnull (mpz_sub_inplace r m)"
proof -
  note R = mpz_canon_simps [OF assms(1)] and M = mpz_canon_simps [OF assms(2)]
  have r: "msn r = 1" "mp r \<noteq> []" "msn m = 1" "mp m \<noteq> []" "lval (mp r) = lval (mp m)"
    using canon_pos [OF assms(1)] canon_pos [OF assms(2)] assms(3,4) by auto
  have c: "ucmp r m = 0" using ucmp_val [OF R(1) M(1) R(4) M(4)] r(5) by simp
  have "length (mp m) \<le> length (mp r)"
    using lval_shorter [OF R(1), of "mp m"] M(4) r by (fastforce simp: not_less)
  then obtain d where d: "mpn_sub (mp r) (mp m) = (d, 0)" "length d = length (mp r)" "lval d = 0"
    using mpn_sub_exact [of "mp m" "mp r"] R(1) M(1) r(5) by (metis diff_self_eq_0 order_refl)
  then have "digits_down d (length d - 1) = 0" "d \<noteq> []" "hd d = 0"
    using digits_zero [of d "length d - 1"] r(2) by (auto simp: lval_zero_iff, cases d, auto)
  then have t: "digits (r\<lparr>mp := d\<rparr>) = 1" "take 1 d = [0]" by (cases d; simp add: digits_def sz_def)+
  have "mpz_sub_inplace r m = r\<lparr>mp := [0]\<rparr>" using c r d(1) t by (cases d) (simp_all add: mpz_sub_inplace_def Let_def sz_def)
  then show ?thesis using r R(6) by simp
qed

lemma barrett_correct_ends:
  assumes "mpz_canon m" "0 < mpz_val m" "mpz_canon r" "0 \<le> mpz_val r"
  shows "\<exists>r'. barrett_correct r m = Some r' \<and> settles r' (mpz_val r mod mpz_val m) \<and> 0 \<le> msn r'"
  using assms(3,4)
proof (induction "nat (mpz_val r)" arbitrary: r rule: less_induct)
  case less
  note cmp = mpz_cmp_val [OF less.prems(1) assms(1)]
  consider "mpz_val r < mpz_val m" | "mpz_val r = mpz_val m" | "mpz_val m < mpz_val r" by linarith
  then show ?case
  proof cases
    case 1
    then have "barrett_correct r m = Some r" using cmp by (subst barrett_correct.simps) simp
    moreover have "0 \<le> msn r" using mpz_ok_sgn [of r] less.prems by (auto simp: mpz_canon_def sgn_if)
    ultimately show ?thesis using 1 less.prems by (simp add: settles_def)
  next
    case 2
    let ?z = "mpz_sub_inplace r m"
    have z: "mp ?z = [0]" "msn ?z = 1" "\<not> mnull ?z" using sub_equal [OF less.prems(1) assms(1) 2 assms(2)] by simp_all
    have "msn m = 1" "mp m \<noteq> []" "last (mp m) \<noteq> 0" using canon_pos [OF assms(1,2)] mpz_canon_simps(4) [OF assms(1)] by auto
    then have "ucmp ?z m = - 1" using z(1) by (cases "mp m") (auto simp: ucmp_def sz_def mpn_cmp_def)
    then have "\<not> mpz_cmp ?z m \<ge> 0" using z(2) \<open>msn m = 1\<close> by (simp add: mpz_cmp_def)
    then have "barrett_correct ?z m = Some ?z" by (subst barrett_correct.simps) simp
    moreover have "barrett_correct r m = barrett_correct ?z m" using cmp 2 by (subst barrett_correct.simps) simp
    ultimately show ?thesis using z 2 by (simp add: settles_def)
  next
    case 3
    let ?z = "mpz_sub_inplace r m"
    have "mpz_ok ?z" and v: "mpz_val ?z = mpz_val r - mpz_val m"
      using mpz_sub_inplace_val [of r m] less.prems(1) assms(1) 3 by (simp_all add: mpz_canon_def)
    then have c: "mpz_canon ?z" using ok_canon 3 by simp
    have "barrett_correct r m = barrett_correct ?z m" using cmp 3 by (subst barrett_correct.simps) simp
    moreover have "(mpz_val r - mpz_val m) mod mpz_val m = mpz_val r mod mpz_val m" by simp
    ultimately show ?thesis using less.hyps [of ?z] c v 3 assms(2) by simp
  qed
qed

lemma barrett_subtract_val:
  assumes "mpz_canon r1" "mpz_ok r2" "0 \<le> msn r2" "mpz_canon r2 \<or> mp r2 = [0] \<and> mpz_val r1 \<noteq> 0" "mpz_dest r"
    "0 \<le> mpz_val r1" "mpz_val r1 < 2 ^ (k + 1)" "0 \<le> mpz_val r2" "mpz_val r2 < 2 ^ (k + 1)" "DIG_SIZE + (k + 1) \<le> MRB_BIGINT_BIT_LIMIT"
  shows "\<exists>z. barrett_subtract r k r1 r2 = Inr z \<and> mpz_canon z \<and> mpz_val z = (mpz_val r1 - mpz_val r2) mod 2 ^ (k + 1)"
proof -
  have ok1: "mpz_ok r1" using assms(1) by (simp add: mpz_canon_def)
  have cmp: "mpz_cmp r1 r2 \<ge> 0 \<longleftrightarrow> mpz_val r2 \<le> mpz_val r1"
  proof (cases "mpz_canon r2")
    case True
    then show ?thesis using mpz_cmp_val [OF assms(1)] by auto
  next
    case False
    then have r2: "mp r2 = [0]" "mpz_val r2 = 0" using assms(4) by (simp_all add: mpz_val_def)
    have r1: "msn r1 = 1" "mp r1 \<noteq> []" "last (mp r1) \<noteq> 0"
      using canon_pos [OF assms(1)] False assms(4,6) mpz_canon_simps(4) [OF assms(1)] by auto
    then have "ucmp r1 r2 = 1" using r2(1) by (cases "mp r1") (auto simp: ucmp_def sz_def mpn_cmp_def)
    then show ?thesis using r1(1) r2(2) assms(3,6) by (simp add: mpz_cmp_def)
  qed
  show ?thesis
  proof (cases "mpz_val r2 \<le> mpz_val r1")
    case True
    then have "(mpz_val r1 - mpz_val r2) mod 2 ^ (k + 1) = mpz_val r1 - mpz_val r2" using assms(7,8) by (intro mod_pos_pos_trivial) simp_all
    then show ?thesis using True cmp mpz_sub_val [OF ok1 assms(2,5)] by (simp add: barrett_subtract_def)
  next
    case False
    obtain p where p: "mpz_mul_2exp (mpz_init_set_int 1) (mpz_init_set_int 1) (k + 1) = Inr p" "mpz_canon p" "mpz_val p = 2 ^ (k + 1)"
      using pow2_gives [of mpz_init "mpz_init_set_int 1" "k + 1"] assms(10) set_one [of mpz_init]
      by (auto simp: gives_def mpz_init_set_int_def canon_dest)
    have a: "mpz_ok (mpz_add r1 r1 p)" "mpz_val (mpz_add r1 r1 p) = mpz_val r1 + 2 ^ (k + 1)"
      using mpz_add_val [OF ok1, of p r1] p ok1 by (auto simp: mpz_canon_def)
    have "(mpz_val r1 - mpz_val r2) mod 2 ^ (k + 1) = (mpz_val r1 + 2 ^ (k + 1) - mpz_val r2) mod 2 ^ (k + 1)"
      by (metis add.commute add_diff_eq mod_add_self1)
    also have "\<dots> = mpz_val r1 + 2 ^ (k + 1) - mpz_val r2" using False assms(6,9) by (intro mod_pos_pos_trivial) simp_all
    finally show ?thesis using False cmp p(1) a mpz_sub_val [OF a(1) assms(2,5)] by (simp add: barrett_subtract_def)
  qed
qed

text \<open>The value that the reduction computes: the quotient is estimated, and the rest taken modulo \<open>2 ^ (k + 1)\<close>.\<close>

definition barrett_value :: "nat \<Rightarrow> int \<Rightarrow> int \<Rightarrow> int" where
  "barrett_value k x m =
     (if x < m then x else ((x - ((x div 2 ^ (k - 1)) * (2 ^ (2 * k) div m)) div 2 ^ (k + 1) * m) mod 2 ^ (k + 1)) mod m)"

lemma int_div_le: "0 \<le> x \<Longrightarrow> 0 < d \<Longrightarrow> x div d \<le> x" for x d :: int
  using zdiv_mono2 [of x 1 d] by simp

lemma int_base_power: "int DIG_BASE ^ n = 2 ^ (n * DIG_SIZE)"
  by (metis base_power of_nat_numeral of_nat_power)

lemma mu_bound: "0 < m \<Longrightarrow> m < 2 ^ k \<Longrightarrow> 2 ^ k \<le> 2 ^ (2 * k) div m" for m :: int
proof -
  assume m: "0 < m" "m < 2 ^ k"
  have "2 ^ k * m \<le> 2 ^ k * 2 ^ k" using m by (intro mult_left_mono) simp_all
  then have "(2 ^ k * m) div m \<le> 2 ^ (2 * k) div m" using m by (intro zdiv_mono1) (simp_all add: mult_2 power_add)
  then show ?thesis using m by simp
qed

lemma quotient_zero:
  fixes x mu :: int
  assumes "0 < k" "0 \<le> x" "2 ^ k \<le> mu" "(x div 2 ^ (k - 1) * mu) div 2 ^ (k + 1) = 0"
  shows "x < 2 ^ (k + 1)"
proof -
  let ?q = "x div 2 ^ (k - 1)"
  have "0 \<le> ?q" using assms(2) by (simp add: pos_imp_zdiv_nonneg_iff)
  then have "?q * 2 ^ k \<le> ?q * mu" using assms(3) by (intro mult_left_mono)
  moreover have "?q * mu < 2 ^ (k + 1)" 
    using assms(4) pos_imp_zdiv_pos_iff [of "2 ^ (k + 1)" "?q * mu"] by (simp add: not_le)
  ultimately have "?q * 2 ^ k < 2 ^ k * 2 ^ 1" unfolding power_add by (rule le_less_trans)
  then have "?q \<le> 1" by simp
  moreover have "x = ?q * 2 ^ (k - 1) + x mod 2 ^ (k - 1)" by (rule div_mult_mod_eq [symmetric])
  moreover have "x mod 2 ^ (k - 1) < 2 ^ (k - 1)" by simp
  moreover have "?q * 2 ^ (k - 1) \<le> 1 * 2 ^ (k - 1)" using \<open>?q \<le> 1\<close> by (intro mult_right_mono) simp_all
  ultimately have "x < 2 * 2 ^ (k - 1)" by linarith
  also have "\<dots> \<le> 2 ^ (k + 1)" using assms(1) by (cases k) simp_all
  finally show ?thesis .
qed

lemma settles_size: "settles q v \<Longrightarrow> v \<noteq> 0 \<Longrightarrow> \<bar>v\<bar> \<le> \<bar>mpz_val x\<bar> \<Longrightarrow> mpz_canon x \<Longrightarrow> sz q \<le> sz x"
proof -
  assume q: "settles q v" "v \<noteq> 0" "\<bar>v\<bar> \<le> \<bar>mpz_val x\<bar>" "mpz_canon x"
  have "\<bar>mpz_val x\<bar> < int DIG_BASE ^ sz x" using canon_bound [OF q(4)] .
  then show ?thesis using canon_size [of q "sz x"] settles_val [OF q(1)] q(2,3) by simp
qed

lemma barrett_reduce_val:
  assumes "mpz_canon x" "mpz_canon m" "mpz_canon mu" "0 \<le> mpz_val x" "0 < mpz_val m" "mpz_dest r"
    "mpz_val mu = 2 ^ (2 * mpz_bits m) div mpz_val m" "(sz x + sz mu + sz m + 1) * DIG_SIZE \<le> MRB_BIGINT_BIT_LIMIT"
  shows "\<exists>r'. mpz_barrett_reduce r x m mu = Some (Inr r') \<and> settles r' (barrett_value (mpz_bits m) (mpz_val x) (mpz_val m)) \<and> 0 \<le> msn r'"
proof (cases "mpz_val x < mpz_val m")
  case True
  have "mpz_barrett_reduce r x m mu = Some (Inr (mpz_set r x))"
    using True mpz_cmp_val [OF assms(1,2)] by (simp add: mpz_barrett_reduce_def Let_def)
  moreover have "mpz_canon (mpz_set r x)" "mpz_val (mpz_set r x) = mpz_val x"
    using mpz_set_ok [of x r] assms(1,6) by (auto simp: mpz_canon_def mpz_set_def)
  moreover from this have "0 \<le> msn (mpz_set r x)" using assms(4) mpz_ok_sgn [of "mpz_set r x"] by (auto simp: mpz_canon_def sgn_if)
  ultimately show ?thesis using True by (simp add: barrett_value_def settles_def)
next
  case False
  define k where "k = mpz_bits m"
  let ?x = "mpz_val x" and ?m = "mpz_val m"
  have nz: "\<not> zero_p m" "\<not> zero_p x" using canon_nonzero assms(1,2,5) False by auto
  note pm = canon_pos [OF assms(2,5)] 
  have px: "msn x = 1" "mpz_val x = int (lval (mp x))" using canon_pos [OF assms(1)] False assms(5) by auto
  note kb = mpz_bits_val [OF assms(2) nz(1), folded k_def]
  have kb': "2 ^ (k - 1) \<le> ?m" "?m < 2 ^ k"
    using kb(2,3) pm by (metis of_nat_le_iff of_nat_numeral of_nat_power, metis of_nat_less_iff of_nat_numeral of_nat_power)
  note mu = mu_bound [OF assms(5) kb'(2), folded assms(7) [folded k_def]]
  have mu0: "0 < mpz_val mu" using mu by (rule less_le_trans [rotated]) simp
  then have "sz mu \<noteq> 0" using canon_pos [OF assms(3)] by (simp add: sz_def)
  note mu0 = mu0 this
  define Q1 where "Q1 = ?x div 2 ^ (k - 1)"
  define q1 where "q1 = (if k > 1 then mpz_div_2exp (mpz_init_heap (sz x + 1)) x (k - 1) else mpz_set (mpz_init_heap (sz x + 1)) x)"
  have Q1: "0 < Q1" "Q1 \<le> ?x"
  proof -
    have "2 ^ (k - 1) div 2 ^ (k - 1) \<le> Q1" unfolding Q1_def using kb'(1) False by (intro zdiv_mono1) simp_all
    then show "0 < Q1" by simp
    show "Q1 \<le> ?x" unfolding Q1_def using assms(4) by (intro int_div_le) simp_all
  qed
  have q1: "mpz_canon q1" "mpz_val q1 = Q1"
  proof -
    have "settles q1 Q1"
    proof (cases "k > 1")
      case True
      then show ?thesis using div_2exp_dest(1) [OF assms(1) realloc_dest(2), of "sz x + 1" "k - 1"] px
        by (simp add: q1_def Q1_def zdiv_int)
    next
      case False
      then have "k - 1 = 0" by simp
      moreover have "mpz_canon (mpz_set (mpz_init_heap (sz x + 1)) x)" "mpz_val (mpz_set (mpz_init_heap (sz x + 1)) x) = ?x"
        using mpz_set_ok [of x "mpz_init_heap (sz x + 1)"] assms(1) realloc_dest(2) by (auto simp: mpz_canon_def mpz_set_def)
      ultimately show ?thesis using False by (simp add: q1_def Q1_def settles_def)
    qed
    then show "mpz_canon q1" "mpz_val q1 = Q1" using settles_val Q1(1) by auto
  qed
  have s1: "sz q1 \<le> sz x" using settles_size [OF settlesI [OF q1(1)], of x] q1(2) Q1 assms(1,4) by simp
  have lim: "(a + b + 1) * DIG_SIZE \<le> MRB_BIGINT_BIT_LIMIT" if "a + b \<le> sz x + sz mu + sz m" for a b
    using order_trans [OF mult_right_mono assms(8), of "a + b + 1"] that by simp
  obtain q2 where q2: "mpz_mul (mpz_init_heap (sz x + sz mu + 1)) False q1 mu = Some (Inr q2)" "mpz_canon q2" "mpz_val q2 = Q1 * mpz_val mu"
    using mpz_mul_answers [OF q1(1) assms(3) realloc_dest(2), of False "sz x + sz mu + 1"] lim [of "sz q1" "sz mu"] s1 q1(2) Q1(1) mu0(1)
      canon_nonzero [OF q1(1)] canon_nonzero [OF assms(3)] by (auto simp: answers_def)
  have "0 < mpz_val q2" unfolding q2(3) using Q1(1) mu0(1) by simp
  then have p2: "0 < mpz_val q2" "msn q2 = 1" "mpz_val q2 = int (lval (mp q2))" using canon_pos [OF q2(2)] by simp_all
  define Q3 where "Q3 = (Q1 * mpz_val mu) div 2 ^ (k + 1)"
  define q3 where "q3 = mpz_div_2exp (mpz_init_heap (sz x + sz mu + 1)) q2 (k + 1)"
  have q3p: "0 \<le> Q3" unfolding Q3_def using Q1(1) mu0(1) by (simp add: pos_imp_zdiv_nonneg_iff)
  have q3: "settles q3 Q3" "zero_p q3 \<longleftrightarrow> Q3 = 0"
    using div_2exp_dest [OF q2(2) realloc_dest(2), of "sz x + sz mu + 1" "k + 1"] p2 q2(3) Q1(1) mu0(1)
    by (auto simp: q3_def Q3_def zdiv_int)
  note q3 = q3 q3p
  have s3: "sz q3 \<le> sz x + sz mu" if "Q3 \<noteq> 0"
  proof -
    have "\<bar>Q3\<bar> \<le> \<bar>mpz_val q2\<bar>" using q3(3) p2(1) q2(3) int_div_le [of "mpz_val q2" "2 ^ (k + 1)"] by (simp add: Q3_def)
    then have "sz q3 \<le> sz q2" using settles_size [OF q3(1) that] q2(2) by simp
    also have "\<dots> \<le> sz q1 + sz mu" using canon_size [OF q2(2), of "sz q1 + sz mu"] canon_bound [OF q1(1)] canon_bound [OF assms(3)]
      by (simp add: q2(3) q1(2) abs_mult power_add mult_strict_mono')
    finally show ?thesis using s1 by simp
  qed
  define w where "w = mpz_init_heap (sz m + 1)"
  obtain r2 where r2: "mpz_mul w False q3 m = Some (Inr r2)" "mpz_ok r2" "mpz_val r2 = Q3 * ?m" "0 \<le> msn r2"
    "mpz_canon r2 \<or> Q3 = 0 \<and> mp r2 = [0]"
  proof (cases "Q3 = 0")
    case True
    then have "mpz_mul w False q3 m = Some (Inr (zero w))" using mpz_mul_zero q3(2) by blast
    moreover have "mp (zero w) = [0]" "msn (zero w) = 0" "\<not> mnull (zero w)" by (simp_all add: w_def zero_def mpz_init_heap_def)
    ultimately show ?thesis using that [of "zero w"] True by (simp add: mpz_ok_def mpz_val_def)
  next
    case nz3: False
    have c: "mpz_canon q3" "mpz_val q3 = Q3" using settles_val [OF q3(1)] nz3 by auto
    obtain z where z: "mpz_mul w False q3 m = Some (Inr z)" "mpz_canon z" "mpz_val z = Q3 * ?m"
      using mpz_mul_answers [OF c(1) assms(2) realloc_dest(2), of False "sz m + 1"] lim [of "sz q3" "sz m"] s3 [OF nz3] nz3 q3(2) nz(1) c(2)
      by (auto simp: answers_def w_def)
    moreover have "0 \<le> msn z" using z mpz_ok_sgn [of z] q3(3) assms(5) by (auto simp: mpz_canon_def sgn_if)
    ultimately show ?thesis using that [of z] by (simp add: mpz_canon_def)
  qed
  define r1 where "r1 = mpz_mod_2exp x (int (k + 1))"
  have r1: "mpz_canon r1" "mpz_val r1 = ?x mod 2 ^ (k + 1)"
    using mod_2exp_val [OF assms(1), of "k + 1"] px by (simp_all add: r1_def zmod_int)
  define r3 where "r3 = mpz_mod_2exp_inplace r2 (k + 1)"
  have r3: "mpz_ok r3" "mpz_val r3 = Q3 * ?m mod 2 ^ (k + 1)" "0 \<le> msn r3" "mpz_canon r3 \<or> mp r3 = [0] \<and> mpz_val r1 \<noteq> 0"
  proof -
    note i = mod_2exp_inplace_val [OF r2(2,4), of "k + 1"]
    show "mpz_ok r3" "mpz_val r3 = Q3 * ?m mod 2 ^ (k + 1)" "0 \<le> msn r3" unfolding r3_def using i r2(3) by simp_all
    have "mpz_val r1 \<noteq> 0" if "Q3 = 0"
      using quotient_zero [OF kb(1) assms(4) mu] that r1(2) False assms(4,5) by (simp add: Q3_def Q1_def)
    then show "mpz_canon r3 \<or> mp r3 = [0] \<and> mpz_val r1 \<noteq> 0" unfolding r3_def using i r2(5) by auto
  qed
  have "DIG_SIZE + (k + 1) \<le> MRB_BIGINT_BIT_LIMIT"
    using lim [of "sz m" 1] kb(4) mu0(2) by (simp add: DIG_SIZE_def)
  then obtain d where d: "barrett_subtract r k r1 r3 = Inr d" "mpz_canon d" "mpz_val d = (?x mod 2 ^ (k + 1) - Q3 * ?m mod 2 ^ (k + 1)) mod 2 ^ (k + 1)"
    using barrett_subtract_val [OF r1(1) r3(1,3,4) assms(6), of k] r1(2) r3(2) by auto
  obtain r' where r': "barrett_correct d m = Some r'" "settles r' (mpz_val d mod ?m)" "0 \<le> msn r'"
    using barrett_correct_ends [OF assms(2,5) d(2)] d(3) by auto
  have "mpz_barrett_reduce r x m mu = Some (Inr r')"
    using False mpz_cmp_val [OF assms(1,2)] q2(1) r2(1) [unfolded w_def q3_def] d(1) [unfolded r3_def] r'(1)
    unfolding mpz_barrett_reduce_def Let_def k_def [symmetric] q1_def [symmetric] r1_def [symmetric]
    by (simp add: abind_def)
  moreover have "mpz_val d mod ?m = barrett_value k ?x ?m"
    using False assms(7) unfolding barrett_value_def d(3) mod_diff_eq Q3_def Q1_def k_def by simp
  ultimately show ?thesis using r' unfolding k_def by auto
qed

text \<open>
  The estimate is too small by at most 2, so the rest lies below \<open>2 ^ (k - 1) + 2 * m\<close>. It fits into \<open>k + 1\<close> bits
  where \<open>m\<close> is at most three quarters of \<open>2 ^ k\<close>.
\<close>

lemma barrett_value_exact:
  fixes x m :: int
  assumes "2 ^ (k - 1) \<le> m" "m < 2 ^ k" "0 < k" "0 \<le> x" "x < 2 ^ (2 * k)" "4 * m \<le> 3 * 2 ^ k"
  shows "barrett_value k x m = x mod m"
proof (cases "x < m")
  case True
  then show ?thesis using assms(4) by (simp add: barrett_value_def)
next
  case False
  define A where "A = (2::int) ^ (k - 1)"
  define B where "B = (2::int) ^ (k + 1)"
  define mu where "mu = 2 ^ (2 * k) div m"
  define e where "e = 2 ^ (2 * k) mod m"
  define q1 where "q1 = x div A"
  define a where "a = x mod A"
  define q3 where "q3 = q1 * mu div B"
  define f where "f = q1 * mu mod B"
  have pos: "0 < A" "0 < B" by (simp_all add: A_def B_def)
  have m0: "0 < m" using assms(1) pos(1) unfolding A_def by linarith
  have kk: "k - 1 + (k + 1) = 2 * k" using assms(3) by simp
  have ab: "A * B = 2 ^ (2 * k)" unfolding A_def B_def power_add [symmetric] kk ..
  have d: "x = q1 * A + a" "0 \<le> a" "a < A" using pos by (simp_all add: q1_def a_def)
  have mm: "mu * m + e = A * B" "0 \<le> e" "e < m" using m0 by (simp_all add: mu_def e_def ab)
  have ff: "q1 * mu = q3 * B + f" "0 \<le> f" "f < B" using pos by (simp_all add: q3_def f_def)
  have q1: "0 \<le> q1" using assms(4) pos by (simp add: q1_def pos_imp_zdiv_nonneg_iff)
  have q1b: "q1 \<le> B"
  proof -
    have "q1 * A < B * A" using d assms(5) ab by (simp add: mult.commute)
    then show ?thesis using pos by simp
  qed
  define r where "r = x - q3 * m"
  have r: "r * B = a * B + q1 * e + f * m"
  proof -
    have "q3 * B * m = (q1 * mu - f) * m" using ff(1) by simp
    also have "\<dots> = q1 * (A * B - e) - f * m" using mm(1) by (simp add: algebra_simps flip: mm(1))
    finally have "q3 * B * m = q1 * (A * B - e) - f * m" .
    then show ?thesis unfolding r_def d(1) [symmetric] using d(1) by (simp add: algebra_simps)
  qed
  have "0 \<le> r * B" unfolding r using d mm ff q1 m0 pos by simp
  then have r0: "0 \<le> r" using pos by (simp add: zero_le_mult_iff)
  have "a * B < A * B" "q1 * e \<le> B * m" "f * m \<le> B * m" "q1 * e \<le> q1 * m"
    using d ff mm q1 q1b m0 pos by (simp_all add: mult_left_mono mult_mono mult_right_mono)
  then have "r * B < A * B + 2 * (B * m)" unfolding r by linarith
  then have "r * B < (A + 2 * m) * B" by (simp add: algebra_simps)
  then have "r < A + 2 * m" using pos by simp
  moreover have "4 * A = B" "4 * m \<le> 3 * 2 ^ k" "2 * 2 ^ k = B" using assms(3,6) by (cases k; simp add: A_def B_def)+
  ultimately have rB: "r < B" by linarith
  have "barrett_value k x m = r mod B mod m"
    using False unfolding barrett_value_def r_def q3_def q1_def mu_def A_def B_def by simp
  also have "r mod B = r" using r0 rB by simp
  also have "r mod m = x mod m" unfolding r_def by (metis mod_diff_right_eq mod_mult_self2_is_0 diff_0_right)
  finally show ?thesis .
qed

text \<open>The remainder is exact except where the code takes Barrett's reduction and the rest does not fit.\<close>

definition mod_fits :: "mpz \<Rightarrow> mpz \<Rightarrow> bool" where
  "mod_fits x y \<longleftrightarrow> (4 \<le> sz y \<and> sz y \<le> 16 \<and> sz y + 2 \<le> sz x \<and> sz x \<le> 2 * sz y \<longrightarrow>
     lval (mp x) < 2 ^ (2 * mpz_bits y) \<and> 4 * lval (mp y) \<le> 3 * 2 ^ mpz_bits y)"

lemma barrett_mu_val:
  assumes "mpz_canon m" "0 < mpz_val m" "mpz_dest mu" "(2 * sz m + 1) * DIG_SIZE \<le> MRB_BIGINT_BIT_LIMIT"
  shows "\<exists>z. mpz_barrett_mu mu m = Inr z \<and> mpz_canon z \<and> mpz_val z = 2 ^ (2 * mpz_bits m) div mpz_val m \<and> sz z \<le> 2 * sz m + 1"
proof -
  let ?k = "mpz_bits m"
  have nz: "\<not> zero_p m" using canon_nonzero [OF assms(1)] assms(2) by simp
  note kb = mpz_bits_val [OF assms(1) nz] and pm = canon_pos [OF assms(1,2)]
  have "DIG_SIZE + 2 * ?k \<le> MRB_BIGINT_BIT_LIMIT" using kb(4) assms(4) by simp
  then obtain p where p: "mpz_mul_2exp (mpz_init_set_int 1) (mpz_init_set_int 1) (2 * ?k) = Inr p" "mpz_canon p" "mpz_val p = 2 ^ (2 * ?k)"
    using pow2_gives [of mpz_init "mpz_init_set_int 1" "2 * ?k"] set_one [of mpz_init]
    by (auto simp: gives_def mpz_init_set_int_def canon_dest)
  obtain z where z: "mpz_mdiv mu p m = Inr z" "settles z (2 ^ (2 * ?k) div mpz_val m)"
    using mdiv_pos [OF p(2) assms(1) _ assms(2,3)] p(3) by auto
  have "mpz_val m < 2 ^ ?k" using kb(3) pm by (metis of_nat_less_iff of_nat_numeral of_nat_power)
  then have "(2::int) ^ ?k \<le> 2 ^ (2 * ?k) div mpz_val m" using mu_bound assms(2) by blast
  then have "0 < 2 ^ (2 * ?k) div mpz_val m" by (rule less_le_trans [rotated]) simp
  then have nz': "2 ^ (2 * ?k) div mpz_val m \<noteq> 0" by simp
  then have c: "mpz_canon z" "mpz_val z = 2 ^ (2 * ?k) div mpz_val m" using settles_val z(2) by blast+
  have "\<bar>mpz_val z\<bar> \<le> 2 ^ (2 * ?k)"
    using \<open>0 < 2 ^ (2 * ?k) div mpz_val m\<close> int_div_le [OF _ assms(2), of "2 ^ (2 * ?k)"] unfolding c(2) by simp
  also have "\<dots> < (2::int) ^ ((2 * sz m + 1) * DIG_SIZE)" using kb(4) by (intro power_strict_increasing) (simp_all add: DIG_SIZE_def)
  finally have "\<bar>mpz_val z\<bar> < int DIG_BASE ^ (2 * sz m + 1)" unfolding int_base_power .
  then show ?thesis using z(1) c canon_size [OF c(1)] p(1) by (simp add: mpz_barrett_mu_def)
qed

lemma canon_abs:
  assumes "mpz_canon x" "\<not> zero_p x"
  shows "mpz_canon (x\<lparr>msn := 1\<rparr>) \<and> mpz_val (x\<lparr>msn := 1\<rparr>) = int (lval (mp x)) \<and> 0 < lval (mp x)"
proof -
  note X = mpz_canon_simps [OF assms(1)]
  have "mp x \<noteq> []" using X(3) assms(2) by (auto simp: zero_p_def)
  then show ?thesis using X(1,4,5,6) by (auto simp: mpz_canon_def mpz_ok_def mpz_val_def)
qed

text \<open>What \<open>mpz_mod\<close> answers on Barrett's branch, whether it is the remainder or not.\<close>

lemma mpz_mod_barrett:
  assumes "mpz_canon x" "mpz_canon y" "\<not> zero_p x" "\<not> zero_p y" "mpz_dest r"
    "4 \<le> sz y \<and> sz y \<le> 16 \<and> sz y + 2 \<le> sz x \<and> sz x \<le> 2 * sz y"
  shows "\<exists>r'. mpz_mod r x y = Some (Inr r') \<and> settles r' (msn x * barrett_value (mpz_bits y) (int (lval (mp x))) (int (lval (mp y)))) \<and>
    (zero_p r' \<longleftrightarrow> barrett_value (mpz_bits y) (int (lval (mp x))) (int (lval (mp y))) = 0)"
proof -
  let ?ax = "x\<lparr>msn := 1\<rparr>" and ?ay = "y\<lparr>msn := 1\<rparr>" and ?v = "barrett_value (mpz_bits y) (int (lval (mp x))) (int (lval (mp y)))"
  note ax = canon_abs [OF assms(1,3)] and ay = canon_abs [OF assms(2,4)]
  have b: "mpz_bits ?ay = mpz_bits y" "sz ?ay = sz y" "sz ?ax = sz x" using assms(4) by (simp_all add: mpz_bits_def sz_def zero_p_def)
  obtain mu where mu: "mpz_barrett_mu (mpz_init_heap (sz y + 1)) ?ay = Inr mu" "mpz_canon mu"
    "mpz_val mu = 2 ^ (2 * mpz_bits y) div int (lval (mp y))" "sz mu \<le> 2 * sz y + 1"
    using barrett_mu_val [of ?ay "mpz_init_heap (sz y + 1)"] ay assms(6) b realloc_dest(2)
    by (auto simp: MRB_BIGINT_BIT_LIMIT_def DIG_SIZE_def)
  obtain r' where r': "mpz_barrett_reduce (mpz_realloc r (sz y)) ?ax ?ay mu = Some (Inr r')" "settles r' ?v" "0 \<le> msn r'"
    using barrett_reduce_val [of ?ax ?ay mu "mpz_realloc r (sz y)"] ax ay mu b realloc_dest(1) [OF assms(5)] assms(6)
    by (auto simp: MRB_BIGINT_BIT_LIMIT_def DIG_SIZE_def)
  have e: "mpz_mod r x y = Some (Inr (with_sign (msn x) r'))"
    using assms(3,6) mu(1) r'(1) by (simp add: mpz_mod_def abind_def)
  have s: "msn x \<in> {-1, 1}" using canon_sign(1) [OF assms(1,3)] .
  have v: "?v = int (lval (mp r'))"
  proof (cases "?v = 0")
    case True
    then show ?thesis using settles_limbs(2) [OF r'(2)] by (simp add: uzero_p_iff)
  next
    case False
    then show ?thesis using settles_val(1,3) [OF r'(2)] r'(3) mpz_canon_simps(2) [of r'] by (auto simp: mpz_val_def)
  qed
  have "mag_res r' (lval (mp r'))"
    using r'(2) mpz_canon_simps(1,4,6) [of r'] by (auto simp: settles_def mag_res_def mag_ok_def)
  then show ?thesis unfolding e v using mag_res_with_sign [OF _ s, of r' "lval (mp r')"] by simp
qed

lemma mpz_mod_exact:
  assumes "mpz_canon x" "mpz_canon y" "\<not> zero_p y" "mpz_dest r" "mod_fits x y"
  shows "\<exists>r'. mpz_mod r x y = Some (Inr r') \<and> settles r' (msn x * int (lval (mp x) mod lval (mp y))) \<and>
    (zero_p r' \<longleftrightarrow> lval (mp x) mod lval (mp y) = 0)"
proof (cases "zero_p x")
  case True
  then have "mp x = []" "msn x = 0" using mpz_canon_simps(3) [OF assms(1)] by (auto simp: zero_p_def)
  then show ?thesis using True assms(4)
    by (auto simp: mpz_mod_def settles_def zero_def zero_p_def mpz_canon_def mpz_ok_def mpz_val_def)
next
  case nx: False
  have s: "msn x \<in> {-1, 1}" using canon_sign(1) [OF assms(1) nx] .
  note Y = mpz_canon_simps [OF assms(2)]
  have yne: "mp y \<noteq> []" using assms(3) Y(3) by (auto simp: zero_p_def)
  consider "sz y = 1" | "4 \<le> sz y \<and> sz y \<le> 16 \<and> sz y + 2 \<le> sz x \<and> sz x \<le> 2 * sz y"
    | "sz y \<noteq> 1" "\<not> (4 \<le> sz y \<and> sz y \<le> 16 \<and> sz y + 2 \<le> sz x \<and> sz x \<le> 2 * sz y)" by linarith
  then show ?thesis
  proof cases
    case 1
    then obtain l where l: "mp y = [l]" "0 < l" "l < DIG_BASE" using Y(1,4) by (cases "mp y") (auto simp: sz_def)
    then show ?thesis using mpz_mod_limb_val [OF assms(1) nx l(2,3) assms(4)] 1 nx by (simp add: mpz_mod_def)
  next
    case 2
    note kb = mpz_bits_val [OF assms(2,3)]
    have f: "lval (mp x) < 2 ^ (2 * mpz_bits y)" "4 * lval (mp y) \<le> 3 * 2 ^ mpz_bits y" using assms(5) 2 by (simp_all add: mod_fits_def)
    have "barrett_value (mpz_bits y) (int (lval (mp x))) (int (lval (mp y))) = int (lval (mp x)) mod int (lval (mp y))"
    proof (rule barrett_value_exact)
      have c: "int (2 ^ n) = 2 ^ n" for n by simp
      show "2 ^ (mpz_bits y - 1) \<le> int (lval (mp y))" "int (lval (mp y)) < 2 ^ mpz_bits y" "int (lval (mp x)) < 2 ^ (2 * mpz_bits y)"
        using kb(2,3) f(1) unfolding c [symmetric] of_nat_le_iff of_nat_less_iff by simp_all
      have "int (4 * lval (mp y)) \<le> int (3 * 2 ^ mpz_bits y)" using f(2) unfolding of_nat_le_iff .
      then show "4 * int (lval (mp y)) \<le> 3 * 2 ^ mpz_bits y" by simp
    qed (use kb(1) in simp_all)
    then show ?thesis using mpz_mod_barrett [OF assms(1,2) nx assms(3,4) 2] by (simp flip: zmod_int)
  next
    case 3
    obtain q r' where u: "udiv (mpz_init_heap (sz x)) (mpz_realloc r (sz y)) x y = Inr (q, r')" "mag_res r' (lval (mp x) mod lval (mp y))"
      using udiv_dest [OF assms(1-3) realloc_dest(2) realloc_dest(1) [OF assms(4)]] by blast
    then show ?thesis using mag_res_with_sign [OF u(2) s] 3 nx by (auto simp: mpz_mod_def)
  qed
qed

section \<open>Euclid and Stein\<close>

lemma and_one_even: "x AND 1 = 0 \<longleftrightarrow> even x" for x :: nat
  by (simp add: and_one_eq even_iff_mod_2_eq_zero)

lemma odd_part_val: "0 < b \<Longrightarrow> odd (odd_part b) \<and> odd_part b \<le> b \<and> (\<forall>a. odd a \<longrightarrow> gcd a (odd_part b) = gcd a b)" for b :: nat
proof (induction b rule: less_induct)
  case (less b)
  show ?case
  proof (cases "even b")
    case False
    then show ?thesis by (subst (1 2 3) odd_part.simps) (auto simp: and_one_even even_iff_mod_2_eq_zero)
  next
    case True
    then have e: "odd_part b = odd_part (b div 2)" using less.prems by (subst odd_part.simps) (simp add: and_one_even even_iff_mod_2_eq_zero)
    have "0 < b div 2" "b div 2 < b" using True less.prems by auto
    note IH = less.IH [OF this(2,1)]
    have "gcd a (b div 2) = gcd a b" if "odd a" for a
    proof -
      have "coprime a 2" using that by simp
      then have "gcd a (2 * (b div 2)) = gcd a (b div 2)" by (rule gcd_mult_right_left_cancel)
      then show ?thesis using True by simp
    qed
    then show ?thesis unfolding e using IH by (auto intro: le_trans)
  qed
qed

lemma stein_gcd: "odd a \<Longrightarrow> 0 < b \<Longrightarrow> stein a b = Some (gcd a b)"
proof (induction "a + b" arbitrary: a b rule: less_induct)
  case less
  note o = odd_part_val [OF less.prems(2)]
  let ?b = "odd_part b" and ?lo = "min a (odd_part b)" and ?hi = "max a (odd_part b)"
  have lo: "odd ?lo" "odd ?hi" "0 < ?lo" using o less.prems(1) by (auto simp: min_def max_def intro: Nat.gr0I)
  have g: "gcd ?lo ?hi = gcd a b" using o less.prems(1) by (simp add: min_def max_def gcd.commute)
  have u: "stein a b = (if ?hi - ?lo \<noteq> 0 then stein ?lo (?hi - ?lo) else Some ?lo)"
    by (subst stein.simps) (auto simp: Let_def min_def max_def)
  show ?case
  proof (cases "?hi = ?lo")
    case True
    then show ?thesis using u g by simp
  next
    case False
    have "?lo \<le> ?hi" by simp
    then have d: "0 < ?hi - ?lo" "?lo + (?hi - ?lo) = ?hi" using False by simp_all
    have "?hi < a + b" using o less.prems lo(3) by (auto simp: max_def min_def split: if_splits)
    then have "stein ?lo (?hi - ?lo) = Some (gcd ?lo (?hi - ?lo))" using less.hyps [of ?lo "?hi - ?lo"] lo(1) d by simp
    moreover have "gcd ?lo (?hi - ?lo) = gcd ?lo ?hi" using gcd_add2 [of ?lo "?hi - ?lo"] d(2) by (simp add: add.commute)
    moreover have "stein a b = stein ?lo (?hi - ?lo)" unfolding u using d(1) by (simp only: neq0_conv if_True)
    ultimately show ?thesis using g by simp
  qed
qed

lemma common_twos_val:
  "0 < a \<Longrightarrow> 0 < b \<Longrightarrow> \<exists>j a' b'. common_twos a b s = (a', b', s + j) \<and> a = a' * 2 ^ j \<and> b = b' * 2 ^ j \<and> (odd a' \<or> odd b')"
proof (induction a b s rule: common_twos.induct)
  case (1 a b s)
  have e: "(a OR b) AND 1 = 0 \<longleftrightarrow> even a \<and> even b" unfolding and_one_even even_or_iff ..
  have nz: "a OR b \<noteq> 0" using "1.prems" by (auto simp: or_eq_0_iff)
  show ?case
  proof (cases "even a \<and> even b")
    case True
    then have "0 < a div 2" "0 < b div 2" using "1.prems" by auto
    then obtain j a' b' where h: "common_twos (a div 2) (b div 2) (s + 1) = (a', b', s + 1 + j)" "a div 2 = a' * 2 ^ j"
      "b div 2 = b' * 2 ^ j" "odd a' \<or> odd b'" using "1.IH" True e nz by blast
    have "a = a' * 2 ^ Suc j" "b = b' * 2 ^ Suc j" using True h(2,3) by (auto elim!: evenE)
    moreover have "common_twos a b s = (a', b', s + Suc j)" using True e nz h(1) by (subst common_twos.simps) simp
    ultimately show ?thesis using h(4) by blast
  next
    case False
    then have "common_twos a b s = (a, b, s)" using e by (subst common_twos.simps) auto
    then show ?thesis using False by (intro exI [of _ 0] exI [of _ a] exI [of _ b]) auto
  qed
qed

lemma limb_gcd_val:
  assumes "a < DIG_BASE" "b < DIG_BASE"
  shows "limb_gcd a b = Some (gcd a b)"
proof (cases "a = 0 \<or> b = 0")
  case True
  then show ?thesis by (auto simp: limb_gcd_def)
next
  case False
  then obtain j a' b' where c: "common_twos a b 0 = (a', b', j)" "a = a' * 2 ^ j" "b = b' * 2 ^ j" "odd a' \<or> odd b'"
    using common_twos_val [of a b 0] by auto
  then have p: "0 < a'" "0 < b'" using False by auto
  note o = odd_part_val [OF p(1)]
  have "gcd (odd_part a') b' = gcd a' b'"
  proof (cases "odd b'")
    case True
    then show ?thesis using o by (metis gcd.commute)
  next
    case False
    then have "odd_part a' = a'" using c(4) by (subst odd_part.simps) (simp add: and_one_even even_iff_mod_2_eq_zero)
    then show ?thesis by simp
  qed
  moreover have "gcd a b = gcd a' b' * 2 ^ j"
    unfolding c(2,3) using gcd_mult_distrib_nat [of "2 ^ j" a' b'] by (simp only: mult.commute)
  moreover have "gcd a b < DIG_BASE" using le_less_trans [OF gcd_le1_nat [of a b] assms(1)] False by simp
  ultimately show ?thesis using c(1) False stein_gcd [of "odd_part a'" b'] o p by (simp add: limb_gcd_def)
qed

text \<open>Trailing zero bits.\<close>

lemma ctz_val: "l \<noteq> 0 \<Longrightarrow> \<exists>h. l = 2 ^ ctz l * h \<and> odd h" for l :: nat
proof (induction l rule: less_induct)
  case (less l)
  show ?case
  proof (cases "even l")
    case True
    then have "ctz l = Suc (ctz (l div 2))" "l div 2 < l" "l div 2 \<noteq> 0" using less.prems by (subst ctz.simps, auto simp: and_one_even even_iff_mod_2_eq_zero)
    then obtain h where "l div 2 = 2 ^ ctz (l div 2) * h" "odd h" using less.IH by blast
    then show ?thesis using True \<open>ctz l = _\<close> by (auto elim!: evenE)
  next
    case False
    then have "ctz l = 0" by (subst ctz.simps) (simp add: and_one_even even_iff_mod_2_eq_zero)
    then show ?thesis using False by simp
  qed
qed

lemma trailing_zeros_val:
  assumes "mpz_canon x" "\<not> zero_p x"
  shows "\<exists>h. lval (mp x) = 2 ^ mpz_trailing_zeros x * h \<and> odd h"
proof -
  note X = mpz_canon_simps [OF assms(1)]
  define t where "t = takeWhile (\<lambda>l. l = 0) (mp x)"
  let ?i = "length t"
  have ne: "mp x \<noteq> []" using X(3) assms(2) by (auto simp: zero_p_def)
  have "dropWhile (\<lambda>l. l = 0) (mp x) \<noteq> []" using X(4) ne by (auto simp: dropWhile_eq_Nil_conv)
  then obtain l ls where d: "dropWhile (\<lambda>l. l = 0) (mp x) = l # ls" "l \<noteq> 0"
    using hd_dropWhile [of "\<lambda>l. l = 0" "mp x"] by (cases "dropWhile (\<lambda>l. l = 0) (mp x)") auto
  have s: "mp x = t @ l # ls" using takeWhile_dropWhile_id [of "\<lambda>l. l = 0" "mp x"] d(1) by (simp add: t_def)
  have t0: "list_all (\<lambda>l. l = 0) t" unfolding t_def list_all_iff by (metis set_takeWhileD)
  have i: "?i < sz x" "mp x ! ?i = l" unfolding sz_def s by simp_all
  have "l < DIG_BASE" using X(1) s by simp
  obtain h where h: "l = 2 ^ ctz l * h" "odd h" using ctz_val [OF d(2)] by blast
  have "0 < h" using h(2) by (cases h) auto
  then have "2 ^ ctz l \<le> l" using h(1) by (metis le_add1 mult.right_neutral mult_le_mono2 One_nat_def Suc_leI)
  then have "(2::nat) ^ ctz l < 2 ^ DIG_SIZE" using \<open>l < DIG_BASE\<close> by simp
  then have "ctz l < DIG_SIZE" by (simp only: power_strict_increasing_iff one_less_numeral_iff semiring_norm(76))
  then have B: "DIG_BASE = 2 ^ ctz l * (2 * 2 ^ (DIG_SIZE - ctz l - 1))"
    using base_split [of "ctz l"] by (cases "DIG_SIZE - ctz l") simp_all
  have "lval t = 0" using t0 by (simp add: lval_zero_iff)
  then have "lval (mp x) = DIG_BASE ^ ?i * (l + DIG_BASE * lval ls)" by (subst s) (simp add: lval_append)
  also have "l + DIG_BASE * lval ls = 2 ^ ctz l * h + (2 ^ ctz l * (2 * 2 ^ (DIG_SIZE - ctz l - 1))) * lval ls"
    using h(1) B by simp
  also have "\<dots> = 2 ^ ctz l * (h + 2 * (2 ^ (DIG_SIZE - ctz l - 1) * lval ls))" by (simp add: algebra_simps)
  finally have "lval (mp x) = 2 ^ (?i * DIG_SIZE + ctz l) * (h + 2 * (2 ^ (DIG_SIZE - ctz l - 1) * lval ls))"
    unfolding base_power power_add by (simp only: mult.assoc)
  moreover have "mpz_trailing_zeros x = ?i * DIG_SIZE + ctz l"
    using assms(2) i ne unfolding mpz_trailing_zeros_def t_def [symmetric] by (simp add: sz_def)
  moreover have "odd (h + 2 * (2 ^ (DIG_SIZE - ctz l - 1) * lval ls))" using h(2) by simp
  ultimately show ?thesis by metis
qed

lemma power_of_2_p_val:
  assumes "mpz_canon x" "mpz_power_of_2_p x"
  shows "\<exists>n. lval (mp x) = 2 ^ n"
proof -
  obtain l where l: "filter (\<lambda>l. l \<noteq> 0) (mp x) = [l]" "l \<noteq> 0" "l AND (l - 1) = 0"
    using assms(2) by (auto simp: mpz_power_of_2_p_def split: list.splits)
  then obtain us vs where u: "mp x = us @ l # vs" "\<forall>u \<in> set us. u = 0" "filter (\<lambda>l. l \<noteq> 0) vs = []"
    unfolding filter_eq_Cons_iff by metis
  have u3: "\<forall>u \<in> set vs. u = 0" using u(3) by (simp add: filter_empty_conv)
  have "lval us = 0" "lval vs = 0" using u(2) u3 by (simp_all add: lval_zero_iff list_all_iff)
  then have "lval (mp x) = DIG_BASE ^ length us * l" by (simp add: u(1) lval_append)
  also have "l = 2 ^ ctz l" using lowest_bit [OF l(2)] l(3) by simp
  finally show ?thesis unfolding base_power power_add [symmetric] by blast
qed

lemma odd_power: "2 ^ n = 2 ^ m * h \<Longrightarrow> odd h \<Longrightarrow> n = m" for h :: nat
proof (induction m arbitrary: n)
  case 0
  then show ?case by (cases n) auto
next
  case (Suc m)
  then show ?case by (cases n) auto
qed

text \<open>The greatest common divisor with its powers of two split off.\<close>

lemma gcd_split:
  fixes g h :: nat
  assumes "odd g" "odd h"
  shows "gcd (2 ^ i * g) (2 ^ j * h) = 2 ^ min i j * gcd g h"
proof -
  have aux: "gcd (2 ^ i * g) (2 ^ (i + k) * h) = 2 ^ i * gcd g h" if "odd g" for i k g h :: nat
  proof -
    have "gcd (2 ^ i * g) (2 ^ i * (2 ^ k * h)) = 2 ^ i * gcd g (2 ^ k * h)" by (rule gcd_mult_distrib_nat [symmetric])
    also have "gcd g (2 ^ k * h) = gcd g h" using that by (intro gcd_mult_right_left_cancel) simp
    finally show ?thesis by (simp only: power_add mult.assoc)
  qed
  show ?thesis
  proof (cases "i \<le> j")
    case True
    then show ?thesis using aux [OF assms(1), of i "j - i" h] by (simp add: min_def)
  next
    case False
    then show ?thesis using aux [OF assms(2), of j "i - j" g] by (simp add: min_def gcd.commute)
  qed
qed

lemma div_2exp_inplace_val:
  assumes "mpz_canon x" "0 < msn x" "0 < lval (mp x) div 2 ^ e"
  shows "mpz_canon (mpz_div_2exp_inplace x e) \<and> mpz_val (mpz_div_2exp_inplace x e) = int (lval (mp x) div 2 ^ e)"
proof (cases "e = 0")
  case True
  then show ?thesis using assms canon_pos_val by (simp add: mpz_div_2exp_inplace_def)
next
  case False
  let ?d = "e div DIG_SIZE" and ?b = "e mod DIG_SIZE"
  note X = mpz_canon_simps [OF assms(1)]
  have dv: "lval (mp x) div 2 ^ e = lval (drop ?d (mp x)) div 2 ^ ?b"
    unfolding pow_split [of e] lval_drop [OF X(1)] by (simp add: div_mult2_eq)
  have lt: "?d < sz x" using assms(3) unfolding dv by (rule_tac ccontr) (simp add: sz_def)
  let ?l = "if ?b \<noteq> 0 then rshift_loop ?b (drop ?d (mp x)) else drop ?d (mp x)"
  have "?b \<le> DIG_SIZE" by (simp add: DIG_SIZE_def)
  then have l: "limbs_ok ?l" "lval ?l = lval (mp x) div 2 ^ e"
    using rshift_loop_val [of "drop ?d (mp x)" ?b] X(1) unfolding dv by (auto simp: limbs_ok_def dest: in_set_dropD)
  have e: "mpz_div_2exp_inplace x e = with_sign (msn x) (trim (x\<lparr>mp := ?l\<rparr>))"
    using False lt by (auto simp: mpz_div_2exp_inplace_def Let_def mpn_rshift_def sz_def)
  have s: "msn x = 1" using assms(2) X(2) by auto
  have "\<not> mnull x" using X(6) lt by (auto simp: sz_def)
  then show ?thesis unfolding e using trim_with_sign [of "x\<lparr>mp := ?l\<rparr>" 1] l s by simp
qed

lemma mpz_abs_val:
  assumes "mpz_canon y"
  shows "mpz_canon (mpz_abs y) \<and> mpz_val (mpz_abs y) = \<bar>mpz_val y\<bar> \<and> mp (mpz_abs y) = mp y"
  using mpz_canon_simps [OF assms]
  by (cases "mp y = []"; cases "msn y = 0") (auto simp: mpz_abs_def Let_def sz_def mpz_init_heap_def mpz_init_def mpz_canon_def mpz_ok_def mpz_val_def abs_mult)

definition euclid_safe :: "mpz \<Rightarrow> mpz \<Rightarrow> bool" where
  "euclid_safe a b \<longleftrightarrow> sz a \<le> 3 \<or> sz b \<le> 3 \<or> sz a \<le> 5 \<and> sz b \<le> 5"

lemma gcd_loop_val:
  assumes "mpz_canon a" "0 < mpz_val a" "settles b v" "0 \<le> v" "zero_p b \<longleftrightarrow> v = 0" "euclid_safe a b"
  shows "\<exists>g. gcd_loop a b = Some (Inr g) \<and> mpz_canon g \<and> mpz_val g = gcd (mpz_val a) v"
  using assms
proof (induction "nat v" arbitrary: a b v rule: less_induct)
  case less
  show ?case
  proof (cases "v = 0")
    case True
    then show ?thesis using less.prems by (subst gcd_loop.simps) simp
  next
    case False
    have b: "mpz_canon b" "mpz_val b = v" "0 < v" "\<not> zero_p b" using settles_val [OF less.prems(3)] False less.prems(4,5) by auto
    note pa = canon_pos [OF less.prems(1,2)] 
    have pb: "msn b = 1" "v = int (lval (mp b))" using canon_pos [OF b(1)] b(2,3) by auto
    have "mod_fits a b" using less.prems(6) by (auto simp: euclid_safe_def mod_fits_def)
    moreover have mv: "mpz_val a mod v = int (lval (mp a) mod lval (mp b))" using pa pb(2) by (simp add: zmod_int)
    ultimately obtain t where t: "mpz_mod (mpz_init_heap (sz a)) a b = Some (Inr t)" "settles t (mpz_val a mod v)"
      "zero_p t \<longleftrightarrow> mpz_val a mod v = 0"
      using mpz_mod_exact [OF less.prems(1) b(1,4) realloc_dest(2), of "sz a"] pa unfolding mv by auto
    have m: "0 \<le> mpz_val a mod v" "mpz_val a mod v < v" "mpz_val a mod v \<le> mpz_val a" using b(3) less.prems(2) by (simp_all add: zmod_le_nonneg_dividend)
    have safe: "euclid_safe b t"
    proof (cases "mpz_val a mod v = 0")
      case True
      then have "sz t \<le> 1" using t(2) mpz_canon_simps(3) [of t] by (auto simp: settles_def sz_def mpz_val_def dest: mpz_canon_simps(5))
      then show ?thesis by (simp add: euclid_safe_def)
    next
      case nz: False
      have "sz t \<le> sz b" "sz t \<le> sz a"
        using settles_size [OF t(2) nz, of b] settles_size [OF t(2) nz, of a] m b less.prems(1,2) by simp_all
      then show ?thesis using less.prems(6) by (auto simp: euclid_safe_def)
    qed
    have "gcd_loop a b = gcd_loop b t" using t(1) b(4) by (subst gcd_loop.simps) simp
    moreover have "gcd v (mpz_val a mod v) = gcd (mpz_val a) v" by (metis gcd.commute gcd_red_int)
    ultimately show ?thesis using less.hyps [OF _ b(1) _ t(2) m(1) t(3) safe] m b by simp
  qed
qed

lemma gcd_lval: "mpz_canon a \<Longrightarrow> mpz_canon b \<Longrightarrow> gcd (mpz_val a) (mpz_val b) = int (gcd (lval (mp a)) (lval (mp b)))"
  using mpz_canon_simps(2,3) [of a] mpz_canon_simps(2,3) [of b] by (auto simp: mpz_val_def gcd_int_int_eq)

lemma trailing_zeros_le:
  assumes "mpz_canon x" "\<not> zero_p x"
  shows "mpz_trailing_zeros x \<le> sz x * DIG_SIZE"
proof -
  obtain h where h: "lval (mp x) = 2 ^ mpz_trailing_zeros x * h" "odd h" using trailing_zeros_val [OF assms] by blast
  have "2 ^ mpz_trailing_zeros x * 1 \<le> lval (mp x)" unfolding h(1) using h(2) by (intro mult_left_mono) (auto simp: Suc_le_eq intro: Nat.gr0I)
  also have "\<dots> < 2 ^ (sz x * DIG_SIZE)" using lval_less [OF mpz_canon_simps(1) [OF assms(1)]] by (simp add: base_power sz_def)
  finally show ?thesis by (simp only: mult_1_right power_strict_increasing_iff one_less_numeral_iff semiring_norm(76) less_imp_le)
qed

lemma if_min: "(if i < j then i else j) = min i j" for i j :: nat
  by simp

lemma gcd_power_val:
  assumes "mpz_canon a" "mpz_canon b" "\<not> zero_p a" "\<not> zero_p b" "euclid_safe a b"
    "lval (mp a) = 2 ^ n \<or> lval (mp b) = 2 ^ n"
  shows "gives (gcd_power a b) (gcd (mpz_val a) (mpz_val b))"
proof -
  let ?i = "mpz_trailing_zeros a" and ?j = "mpz_trailing_zeros b"
  obtain g h where gh: "lval (mp a) = 2 ^ ?i * g" "odd g" "lval (mp b) = 2 ^ ?j * h" "odd h"
    using trailing_zeros_val [OF assms(1,3)] trailing_zeros_val [OF assms(2,4)] by blast
  have "g = 1 \<or> h = 1" using assms(6)
  proof (elim disjE)
    assume "lval (mp a) = 2 ^ n"
    then show ?thesis using odd_power [of n ?i g] gh(1,2) by simp
  next
    assume "lval (mp b) = 2 ^ n"
    then show ?thesis using odd_power [of n ?j h] gh(3,4) by simp
  qed
  then have "gcd g h = 1" by auto
  then have "gcd (lval (mp a)) (lval (mp b)) = 2 ^ min ?i ?j" unfolding gh(1,3) using gcd_split [OF gh(2,4), of ?i ?j] by simp
  then have v: "gcd (mpz_val a) (mpz_val b) = 2 ^ min ?i ?j" using gcd_lval [OF assms(1,2)] by simp
  have "min ?i ?j \<le> 5 * DIG_SIZE" using trailing_zeros_le [OF assms(1,3)] trailing_zeros_le [OF assms(2,4)] assms(5)
    by (auto simp: euclid_safe_def DIG_SIZE_def)
  then have "DIG_SIZE + min ?i ?j \<le> MRB_BIGINT_BIT_LIMIT" by (simp add: DIG_SIZE_def MRB_BIGINT_BIT_LIMIT_def)
  then show ?thesis unfolding v gcd_power_def Let_def if_min
    using pow2_gives [of mpz_init "mpz_init_set_int 1" "min ?i ?j"] set_one [of mpz_init]
    by (simp add: mpz_init_set_int_def canon_dest)
qed

lemma euclid_shrinks: "euclid_safe a b \<Longrightarrow> sz a' \<le> sz a \<Longrightarrow> sz b' \<le> sz b \<Longrightarrow> euclid_safe a' b'"
  by (auto simp: euclid_safe_def)

lemma strip_val:
  assumes "mpz_canon aa" "\<not> zero_p aa"
  shows "\<exists>a z g. mpz_div_2exp_inplace (mpz_abs aa) (mpz_trailing_zeros (mpz_abs aa)) = a \<and> mpz_trailing_zeros (mpz_abs aa) = z \<and>
    mpz_canon a \<and> mpz_val a = int g \<and> odd g \<and> lval (mp aa) = 2 ^ z * g \<and> sz a \<le> sz aa \<and> z \<le> sz aa * DIG_SIZE"
proof -
  note A = mpz_abs_val [OF assms(1)]
  have p: "0 < mpz_val (mpz_abs aa)" using A canon_nonzero [OF assms(1)] assms(2) by simp
  then have s: "msn (mpz_abs aa) = 1" "\<not> zero_p (mpz_abs aa)" using canon_pos A by (auto simp: zero_p_def)
  let ?z = "mpz_trailing_zeros (mpz_abs aa)"
  obtain g where g: "lval (mp aa) = 2 ^ ?z * g" "odd g" using trailing_zeros_val [of "mpz_abs aa"] A s(2) by auto
  have d: "lval (mp (mpz_abs aa)) div 2 ^ ?z = g" using A g(1) by simp
  have "0 < g" using g(2) by (auto intro: Nat.gr0I)
  then have a: "mpz_canon (mpz_div_2exp_inplace (mpz_abs aa) ?z)" "mpz_val (mpz_div_2exp_inplace (mpz_abs aa) ?z) = int g"
    using div_2exp_inplace_val [of "mpz_abs aa" ?z] A s(1) d by simp_all
  have "\<bar>mpz_val (mpz_div_2exp_inplace (mpz_abs aa) ?z)\<bar> \<le> \<bar>mpz_val (mpz_abs aa)\<bar>"
    using a(2) canon_pos [OF conjunct1 [OF A] p] g(1) A mult_right_mono [of 1 "2 ^ ?z" "int g"] by simp
  then have "sz (mpz_div_2exp_inplace (mpz_abs aa) ?z) \<le> sz (mpz_abs aa)"
    using settles_size [OF settlesI [OF a(1)]] a(2) \<open>0 < g\<close> A by simp
  moreover have "sz (mpz_abs aa) = sz aa" using A by (simp add: sz_def)
  ultimately show ?thesis using a g trailing_zeros_le [of "mpz_abs aa"] A s(2) by auto
qed

lemma mpz_gcd_answers:
  assumes "mpz_canon aa" "mpz_canon bb" "euclid_safe aa bb"
  shows "answers (mpz_gcd mpz_init aa bb) (gcd (mpz_val aa) (mpz_val bb))"
proof -
  consider "zero_p aa" | "\<not> zero_p aa" "zero_p bb" | "\<not> zero_p aa" "\<not> zero_p bb" "sz aa \<le> 1 \<and> sz bb \<le> 1"
    | "\<not> zero_p aa" "\<not> zero_p bb" "\<not> (sz aa \<le> 1 \<and> sz bb \<le> 1)" "mpz_power_of_2_p aa \<or> mpz_power_of_2_p bb"
    | "\<not> zero_p aa" "\<not> zero_p bb" "\<not> (sz aa \<le> 1 \<and> sz bb \<le> 1)" "\<not> mpz_power_of_2_p aa" "\<not> mpz_power_of_2_p bb" by blast
  then show ?thesis
  proof cases
    case 1
    then show ?thesis using mpz_abs_val [OF assms(2)] canon_nonzero [OF assms(1)] by (simp add: mpz_gcd_def answers_def)
  next
    case 2
    then show ?thesis using mpz_abs_val [OF assms(1)] canon_nonzero [OF assms(2)] by (simp add: mpz_gcd_def answers_def)
  next
    case 3
    have one: "\<exists>l. mp x = [l] \<and> 0 < l \<and> l < DIG_BASE" if "mpz_canon x" "\<not> zero_p x" "sz x \<le> 1" for x
      using mpz_canon_simps(1,3,4) [OF that(1)] that(2,3) by (cases "mp x") (auto simp: zero_p_def sz_def)
    obtain k l where kl: "mp aa = [k]" "0 < k" "k < DIG_BASE" "mp bb = [l]" "0 < l" "l < DIG_BASE"
      using one [OF assms(1) 3(1)] one [OF assms(2) 3(2)] 3(3) by blast
    have g: "0 < gcd k l" "gcd k l < DIG_BASE" using kl le_less_trans [OF gcd_le1_nat [of k l] kl(3)] by simp_all
    have "mpz_gcd mpz_init aa bb = Some (Inr ((mpz_realloc mpz_init 1)\<lparr>mp := [gcd k l], msn := 1\<rparr>))"
      using 3 kl g limb_gcd_val [OF kl(3,6)] by (simp add: mpz_gcd_def sz_def)
    then show ?thesis using g gcd_lval [OF assms(1,2)] kl
      by (simp add: answers_def mpz_canon_def mpz_ok_def mpz_val_def mpz_realloc_def mpz_init_def sz_def)
  next
    case 4
    then obtain n where "lval (mp aa) = 2 ^ n \<or> lval (mp bb) = 2 ^ n" using power_of_2_p_val assms(1,2) by blast
    then have "gives (gcd_power aa bb) (gcd (mpz_val aa) (mpz_val bb))" using gcd_power_val [OF assms(1,2) 4(1,2) assms(3)] by blast
    then show ?thesis using 4 by (auto simp: mpz_gcd_def answers_gives)
  next
    case 5
    obtain a i g where a: "mpz_div_2exp_inplace (mpz_abs aa) (mpz_trailing_zeros (mpz_abs aa)) = a" "mpz_trailing_zeros (mpz_abs aa) = i"
      "mpz_canon a" "mpz_val a = int g" "odd g" "lval (mp aa) = 2 ^ i * g" "sz a \<le> sz aa" "i \<le> sz aa * DIG_SIZE"
      using strip_val [OF assms(1) 5(1)] by blast
    obtain b j h where b: "mpz_div_2exp_inplace (mpz_abs bb) (mpz_trailing_zeros (mpz_abs bb)) = b" "mpz_trailing_zeros (mpz_abs bb) = j"
      "mpz_canon b" "mpz_val b = int h" "odd h" "lval (mp bb) = 2 ^ j * h" "sz b \<le> sz bb" "j \<le> sz bb * DIG_SIZE"
      using strip_val [OF assms(2) 5(2)] by blast
    have gh: "0 < g" "0 < h" using a(5) b(5) by (auto intro: Nat.gr0I)
    have "zero_p b \<longleftrightarrow> int h = 0" using canon_nonzero [OF b(3)] b(4) by simp
    then obtain z where z: "gcd_loop a b = Some (Inr z)" "mpz_canon z" "mpz_val z = gcd (int g) (int h)"
      using gcd_loop_val [OF a(3) _ _ _ _ euclid_shrinks [OF assms(3) a(7) b(7)], of "int h"] settlesI [OF b(3)] a(4) b(4) gh by auto
    have zp: "0 < mpz_val z" using z(3) gh by simp
    have "mpz_val z \<le> int g" "mpz_val z \<le> int h" unfolding z(3) using gh by (simp_all add: gcd_le1_int gcd_le2_int)
    then have "sz z \<le> sz a" "sz z \<le> sz b"
      using settles_size [OF settlesI [OF z(2)], of a] settles_size [OF settlesI [OF z(2)], of b] a(3,4) b(3,4) zp by simp_all
    then have "sz z * DIG_SIZE + min i j \<le> MRB_BIGINT_BIT_LIMIT"
      using assms(3) a(7,8) b(7,8) by (auto simp: euclid_safe_def DIG_SIZE_def MRB_BIGINT_BIT_LIMIT_def)
    moreover have "\<not> zero_p z" using canon_nonzero [OF z(2)] zp by simp
    ultimately have "gives (mpz_mul_2exp mpz_init z (min i j)) (mpz_val z * 2 ^ min i j)" using mul_2exp_gives [OF z(2)] by simp
    moreover have "mpz_val z * 2 ^ min i j = gcd (mpz_val aa) (mpz_val bb)"
      unfolding gcd_lval [OF assms(1,2)] a(6) b(6) gcd_split [OF a(5) b(5)] z(3) by simp
    moreover have "mpz_gcd mpz_init aa bb = Some (mpz_mul_2exp mpz_init z (min i j))"
      unfolding mpz_gcd_def if_not_P [OF 5(1)] if_not_P [OF 5(2)] if_not_P [OF 5(3)] if_not_P [OF 5(4)] if_not_P [OF 5(5)]
        Let_def a(2) b(2) a(1) [unfolded a(2)] b(1) [unfolded b(2)] if_min z(1) abind_def by simp
    ultimately show ?thesis by (simp add: answers_gives)
  qed
qed

section \<open>The properties\<close>

lemma abs_v_val:
  assumes "mpz_canon b"
  shows "mpz_canon (sp_bigint_abs_v (Some b)) \<and> mpz_val (sp_bigint_abs_v (Some b)) = \<bar>mpz_val b\<bar>"
proof -
  have s: "msn b = sgn (mpz_val b)" using mpz_ok_sgn [of b] assms by (simp add: mpz_canon_def)
  have "in_i64 0" by (simp add: machine_int)
  then have z: "mpz_ok (sp_bigint_new_int 0)" "mpz_val (sp_bigint_new_int 0) = 0" using sp_bigint_new_int_val [of 0] by (auto simp: mpz_canon_def)
  show ?thesis
  proof (cases "0 \<le> mpz_val b")
    case True
    then have "0 \<le> msn b" using s by (simp add: sgn_if)
    then show ?thesis using assms True by (simp add: sp_bigint_abs_v_def sp_bigint_sign_def)
  next
    case False
    then have "msn b < 0" using s by (simp add: sgn_if)
    then show ?thesis using False mpz_sub_val [OF z(1), of b mpz_init] z(2) assms
      by (simp add: sp_bigint_abs_v_def sp_bigint_sign_def sp_bigint_sub_def mpz_canon_def)
  qed
qed

lemma bigint_gcd_answers:
  assumes "mpz_canon a" "mpz_canon b" "euclid_safe a b"
  shows "answers (sp_bigint_gcd a b) (gcd (mpz_val a) (mpz_val b))"
  using mpz_gcd_answers [OF assms] abs_v_val by (auto simp: answers_def sp_bigint_gcd_def)

lemma mnull_init: "mnull mpz_init"
  by (simp add: mpz_init_def)

lemma lcm_steps: "a \<noteq> 0 \<Longrightarrow> \<bar>a\<bar> div gcd a b * \<bar>b\<bar> = lcm a b" for a b :: int
  by (simp add: lcm_altdef_int [of a b] dvd_div_mult abs_mult)

lemma bigint_lcm_answers:
  assumes "mpz_canon a" "mpz_canon b" "euclid_safe a b" "(sz a + sz b + 1) * DIG_SIZE \<le> MRB_BIGINT_BIT_LIMIT"
  shows "answers (sp_bigint_lcm a b) (lcm (mpz_val a) (mpz_val b))"
proof (cases "mpz_val a = 0 \<or> mpz_val b = 0")
  case True
  then have "zero_p a \<or> zero_p b" using canon_nonzero assms(1,2) by blast
  moreover have "in_i64 0" by (simp add: machine_int)
  ultimately show ?thesis using True sp_bigint_new_int_val [of 0]
    by (auto simp: sp_bigint_lcm_def sp_bigint_sign_def zero_p_def answers_def)
next
  case False
  let ?g = "gcd (mpz_val a) (mpz_val b)"
  have nz: "msn a \<noteq> 0" "msn b \<noteq> 0" "\<not> zero_p a" "\<not> zero_p b" using canon_nonzero assms(1,2) False by (auto simp: zero_p_def)
  obtain g where g: "sp_bigint_gcd a b = Some (Inr g)" "mpz_canon g" "mpz_val g = ?g"
    using bigint_gcd_answers [OF assms(1-3)] by (auto simp: answers_def)
  have g0: "0 < ?g" "\<not> zero_p g" using False canon_nonzero [OF g(2)] g(3) by auto
  note A = abs_v_val [OF assms(1)] and B = abs_v_val [OF assms(2)]
  obtain q where q: "sp_bigint_div (sp_bigint_abs_v (Some a)) g = Inr q" "mpz_canon q" "mpz_val q = \<bar>mpz_val a\<bar> div ?g"
    using mpz_mdiv_val [of "sp_bigint_abs_v (Some a)" g] A g g0(2) by (auto simp: sp_bigint_div_def)
  have q0: "0 < mpz_val q" unfolding q(3) using g0(1) False by (simp add: pos_imp_zdiv_pos_iff gcd_le1_int zdvd_imp_le)
  have "mpz_val q \<le> \<bar>mpz_val a\<bar>" unfolding q(3) using int_div_le g0(1) by simp
  then have "sz q \<le> sz a" "sz (sp_bigint_abs_v (Some b)) \<le> sz b"
    using settles_size [OF settlesI [OF q(2)], of a] settles_size [OF settlesI [OF conjunct1 [OF B]], of b] assms(1,2) q0 B False by simp_all
  then have "(sz q + sz (sp_bigint_abs_v (Some b)) + 1) * DIG_SIZE \<le> MRB_BIGINT_BIT_LIMIT"
    using order_trans [OF mult_right_mono assms(4), of "sz q + sz (sp_bigint_abs_v (Some b)) + 1"] by simp
  then have "answers (sp_bigint_mul False q (sp_bigint_abs_v (Some b))) (mpz_val q * mpz_val (sp_bigint_abs_v (Some b)))"
    using mpz_mul_answers [OF q(2) conjunct1 [OF B] mpz_dest_simps(1), of False] mnull_init by (simp add: sp_bigint_mul_def)
  moreover have "mpz_val q * mpz_val (sp_bigint_abs_v (Some b)) = lcm (mpz_val a) (mpz_val b)"
    using lcm_steps [of "mpz_val a" "mpz_val b"] False q(3) B by simp
  moreover have "sp_bigint_lcm a b = sp_bigint_mul False q (sp_bigint_abs_v (Some b))"
    using nz g(1) q(1) by (simp add: sp_bigint_lcm_def sp_bigint_sign_def abind_def)
  ultimately show ?thesis by simp
qed

text \<open>
  C12: The gcd and the lcm of two numbers of any sign are exact and canonical, and their
  loops end, as long as one number has at most three limbs or both at most five, and the
  limbs of both and one more fit the limit on the size of a number.
\<close>
theorem bigint_gcd_lcm_exact:
  assumes "mpz_canon a" "mpz_canon b" "sz a \<le> 3 \<or> sz b \<le> 3 \<or> sz a \<le> 5 \<and> sz b \<le> 5"
    "(sz a + sz b + 1) * DIG_SIZE \<le> MRB_BIGINT_BIT_LIMIT"
  shows "\<exists>g l. sp_bigint_gcd a b = Some (Inr g) \<and> mpz_canon g \<and> mpz_val g = gcd (mpz_val a) (mpz_val b) \<and>
    sp_bigint_lcm a b = Some (Inr l) \<and> mpz_canon l \<and> mpz_val l = lcm (mpz_val a) (mpz_val b)"
proof -
  have "euclid_safe a b" using assms(3) by (simp add: euclid_safe_def)
  then show ?thesis using bigint_gcd_answers bigint_lcm_answers assms(1,2,4) by (simp add: answers_def)
qed

theorem bigint_gcd_lcm_exact_witness:
  "\<exists>a b g l. a = sp_bigint_new_int (- 91) \<and> b = sp_bigint_new_int 35 \<and> sp_bigint_gcd a b = Some (Inr g) \<and> mpz_val g = 7 \<and>
     sp_bigint_lcm a b = Some (Inr l) \<and> mpz_val l = 455"
proof -
  let ?a = "sp_bigint_new_int (- 91)" and ?b = "sp_bigint_new_int 35"
  have i: "in_i64 (- 91)" "in_i64 35" by (simp_all add: machine_int)
  have v: "mpz_canon ?a" "mpz_val ?a = - 91" "mpz_canon ?b" "mpz_val ?b = 35"
    using sp_bigint_new_int_val [OF i(1)] sp_bigint_new_int_val [OF i(2)] by simp_all
  have s: "sz ?a \<le> 1" "sz ?b \<le> 1" using canon_size [OF v(1), of 1] canon_size [OF v(3), of 1] v(2,4) by (simp_all add: DIG_BASE_def)
  have g: "gcd (- 91) (35::int) = 7" "lcm (- 91) (35::int) = 455" by (code_simp, code_simp)
  show ?thesis using bigint_gcd_lcm_exact [OF v(1,3)] s unfolding v(2,4) g by (auto simp: DIG_SIZE_def MRB_BIGINT_BIT_LIMIT_def)
qed

text \<open>
  C37: There is a number of four limbs that divides one of eight limbs although their gcd is
  answered as 1, because the remainder takes Barrett's reduction for a dividend that is too
  large for it.
\<close>
theorem bigint_gcd_wrong:
  "\<exists>m a g. m = \<lparr>mp = [1, 1, 0, 1], mnull = False, msn = 1\<rparr> \<and>
     a = \<lparr>mp = [4294967295, 4294967294, 4294967295, 4294967294, 1, 2, 0, 2], mnull = False, msn = 1\<rparr> \<and>
     mpz_canon m \<and> mpz_canon a \<and> mpz_val m dvd mpz_val a \<and> 1 < mpz_val m \<and>
     sp_bigint_gcd a m = Some (Inr g) \<and> mpz_canon g \<and> mpz_val g = 1"
proof -
  define m where "m = \<lparr>mp = [1, 1, 0, 1], mnull = False, msn = 1\<rparr>"
  define a where "a = \<lparr>mp = [4294967295, 4294967294, 4294967295, 4294967294, 1, 2, 0, 2], mnull = False, msn = 1\<rparr>"
  have c: "mpz_canon m" "mpz_canon a" by (simp_all add: m_def a_def mpz_canon_def mpz_ok_def DIG_BASE_def)
  have lm: "lval (mp m) = 79228162514264337597838917633" by (simp add: m_def DIG_BASE_def)
  have la: "lval (mp a) = 53919893334301279592257033449381631917444307274926195878784783089663" by (simp add: a_def DIG_BASE_def)
  have v: "mpz_val m = 79228162514264337597838917633" "mpz_val a = 53919893334301279592257033449381631917444307274926195878784783089663"
    using lm la by (simp_all add: mpz_val_def) (simp_all add: m_def a_def)
  have d: "mpz_val m dvd mpz_val a" unfolding v by simp
  have nz: "\<not> zero_p m" "\<not> zero_p a" by (simp_all add: m_def a_def zero_p_def)
  have k: "mpz_bits m = 97" by (simp add: mpz_bits_def m_def sz_def lzb_def DIG_SIZE_def log2_loop.simps)
  have b: "barrett_value 97 (int (lval (mp a))) (int (lval (mp m))) = 17179869188"
    unfolding la lm barrett_value_def by simp
  obtain t where t: "mpz_mod (mpz_init_heap (sz a)) a m = Some (Inr t)" "settles t 17179869188" "\<not> zero_p t"
    using mpz_mod_barrett [OF c(2,1) nz(2,1) realloc_dest(2), of "sz a"] unfolding k b by (auto simp: a_def m_def sz_def)
  have "sz t \<le> 3" using canon_size [of t 3] settles_val [OF t(2)] by (simp add: DIG_BASE_def)
  then obtain g where g: "gcd_loop m t = Some (Inr g)" "mpz_canon g" "mpz_val g = gcd (mpz_val m) 17179869188"
    using gcd_loop_val [OF c(1) _ t(2)] t(3) v(1) by (auto simp: euclid_safe_def)
  have g1: "mpz_val g = 1" unfolding g(3) v(1) by code_simp
  have "gcd_loop a m = Some (Inr g)" using t(1) nz g(1) by (subst gcd_loop.simps) simp
  moreover have "mpz_abs a = a" "mpz_abs m = m" by (simp_all add: mpz_abs_def a_def m_def sz_def Let_def mpz_init_heap_def)
  moreover have "mpz_trailing_zeros a = 0" "mpz_trailing_zeros m = 0"
    by (simp_all add: mpz_trailing_zeros_def a_def m_def zero_p_def sz_def ctz.simps)
  moreover have "\<not> mpz_power_of_2_p a" "\<not> mpz_power_of_2_p m" by (simp_all add: mpz_power_of_2_p_def a_def m_def)
  moreover have "\<not> sz a \<le> 1" by (simp add: a_def sz_def)
  ultimately have e: "mpz_gcd mpz_init a m = Some (mpz_mul_2exp mpz_init g 0)"
    using nz by (simp add: mpz_gcd_def mpz_div_2exp_inplace_def abind_def)
  have "\<not> zero_p g" using canon_nonzero [OF g(2)] g1 by simp
  moreover have "sz g \<le> 1" using canon_size [OF g(2), of 1] g1 by (simp add: DIG_BASE_def)
  ultimately have "answers (mpz_gcd mpz_init a m) 1"
    unfolding e answers_gives using mul_2exp_gives [OF g(2), of mpz_init 0] g1 by (simp add: DIG_SIZE_def MRB_BIGINT_BIT_LIMIT_def)
  then obtain r where "sp_bigint_gcd a m = Some (Inr r)" "mpz_canon r" "mpz_val r = 1"
    using abs_v_val by (auto simp: answers_def sp_bigint_gcd_def)
  then show ?thesis using c d v(1) unfolding m_def a_def by (intro exI conjI) (rule refl | assumption | simp)+
qed

text \<open>
  Barrett's reduction is the remainder, and its correction loop ends, for a dividend
  below 2^(2k) and a divisor of k bits that is at most three quarters of 2^k.
\<close>
theorem barrett_exact:
  assumes "mpz_canon x" "mpz_canon m" "0 \<le> mpz_val x" "0 < mpz_val m" "mpz_dest r" "mpz_dest mu"
    "mpz_val x < 2 ^ (2 * mpz_bits m)" "4 * mpz_val m \<le> 3 * 2 ^ mpz_bits m" "(sz x + 3 * sz m + 2) * DIG_SIZE \<le> MRB_BIGINT_BIT_LIMIT"
  shows "\<exists>u r'. mpz_barrett_mu mu m = Inr u \<and> mpz_barrett_reduce r x m u = Some (Inr r') \<and> mpz_val r' = mpz_val x mod mpz_val m"
proof -
  have nz: "\<not> zero_p m" using canon_nonzero [OF assms(2)] assms(4) by simp
  note kb = mpz_bits_val [OF assms(2) nz] and pm = canon_pos [OF assms(2,4)]
  have lim: "a * DIG_SIZE \<le> MRB_BIGINT_BIT_LIMIT" if "a \<le> sz x + 3 * sz m + 2" for a
    using order_trans [OF mult_right_mono assms(9), of a] that by simp
  obtain u where u: "mpz_barrett_mu mu m = Inr u" "mpz_canon u" "mpz_val u = 2 ^ (2 * mpz_bits m) div mpz_val m" "sz u \<le> 2 * sz m + 1"
    using barrett_mu_val [OF assms(2,4,6)] lim [of "2 * sz m + 1"] by auto
  obtain r' where r: "mpz_barrett_reduce r x m u = Some (Inr r')" "settles r' (barrett_value (mpz_bits m) (mpz_val x) (mpz_val m))"
    using barrett_reduce_val [OF assms(1,2) u(2) assms(3,4,5) u(3)] lim [of "sz x + sz u + sz m + 1"] u(4) by auto
  have "2 ^ (mpz_bits m - 1) \<le> mpz_val m" "mpz_val m < 2 ^ mpz_bits m"
    using kb(2,3) pm by (metis of_nat_le_iff of_nat_numeral of_nat_power, metis of_nat_less_iff of_nat_numeral of_nat_power)
  then show ?thesis using u(1) r settles_val(1) [OF r(2)] barrett_value_exact [OF _ _ kb(1) assms(3,7,8)] by auto
qed

theorem barrett_exact_witness:
  "\<exists>x m u r. x = sp_bigint_new_int 1000000 \<and> m = sp_bigint_new_int 1100 \<and> mpz_barrett_mu mpz_init m = Inr u \<and>
     mpz_barrett_reduce mpz_init x m u = Some (Inr r) \<and> mpz_val r = 100"
proof -
  let ?x = "sp_bigint_new_int 1000000" and ?m = "sp_bigint_new_int 1100"
  have i: "in_i64 1000000" "in_i64 1100" by (simp_all add: machine_int)
  have v: "mpz_canon ?x" "mpz_val ?x = 1000000" "mpz_canon ?m" "mpz_val ?m = 1100"
    using sp_bigint_new_int_val [OF i(1)] sp_bigint_new_int_val [OF i(2)] by simp_all
  have s: "sz ?x \<le> 1" "sz ?m \<le> 1" using canon_size [OF v(1), of 1] canon_size [OF v(3), of 1] v(2,4) by (simp_all add: DIG_BASE_def)
  have "mpz_bits ?m = 11"
    using canon_unique [of ?m 1100] v by (simp add: mpz_bits_def sz_def DIG_BASE_def lzb_def DIG_SIZE_def log2_loop.simps)
  then show ?thesis using barrett_exact [OF v(1,3), of mpz_init mpz_init] s unfolding v(2,4)
    by (auto simp: DIG_SIZE_def MRB_BIGINT_BIT_LIMIT_def)
qed

end
