(* ===== verification/BigPowm.thy ===== *)
theory BigPowm
  imports BigMod
begin

unbundle bit_operations_syntax

text \<open>
  Modular powers (\<^verbatim>\<open>mpz_powm\<close>, \<^verbatim>\<open>mpz_powm_i\<close> and \<^verbatim>\<open>Integer#pow\<close> with a modulus, \<^verbatim>\<open>lib/sp_bigint.c\<close>): the powers are built bit
  by bit, each product reduced by Montgomery's method for an odd modulus, by Barrett's for an even one of
  four limbs or more, and by division otherwise. What the loops over the bits need of a reduction is the locale
  \<open>modular_reduction\<close>, interpreted on Montgomery's reduction and on the other two. The power is exact on the moduli of
  \<open>powm_fits\<close>; the last section has a power that Barrett's reduction makes wrong.
\<close>

section \<open>Montgomery's reduction\<close>

definition setup_step :: "nat \<Rightarrow> nat \<Rightarrow> nat" where
  "setup_step n0 x = u32 (x * nat ((2 - int (u32 (n0 * x))) mod 2 ^ 32))"

definition montgomery_setup :: "nat \<Rightarrow> nat" where
  "montgomery_setup n0 = nat ((0 - int ((setup_step n0 ^^ 6) 1)) mod 2 ^ 32)"

text \<open>
  Step \<open>i\<close> works on \<^verbatim>\<open>work + i\<close>, which is the list here; the limb it leaves behind is not read again. What is
  left after \<open>k\<close> steps is \<^verbatim>\<open>work + k\<close>.
\<close>

fun mont_loop :: "nat \<Rightarrow> nat list \<Rightarrow> nat \<Rightarrow> nat list \<Rightarrow> nat list" where
  "mont_loop rho n 0 w = w"
| "mont_loop rho n (Suc i) w =
     (let m = u32 (w ! 0 * rho); (r, carry) = mpn_addmul_1 (take (length n) w) n m;
          w = r @ prop_carry carry (drop (length n) w)
      in mont_loop rho n i (tl w))"

definition mpz_montgomery_reduce :: "mpz \<Rightarrow> mpz \<Rightarrow> mpz \<Rightarrow> nat \<Rightarrow> mpz" where
  "mpz_montgomery_reduce result x n rho =
     (let k = sz n; x_len = sz x; work_size = (if x_len > k then x_len + k + 2 else 2 * k + 2);
          work = mp x @ replicate (work_size - x_len) 0;
          z = trim ((mpz_realloc result (k + 1))\<lparr>mp := take (k + 1) (mont_loop rho (mp n) k work), msn := 1\<rparr>)
      in if ucmp z n \<ge> 0 then mpz_sub_inplace z n else z)"

definition mpz_montgomery_calc_R2 :: "mpz \<Rightarrow> mpz_answer" where
  "mpz_montgomery_calc_R2 n =
     (let R2 = mpz_init_set_int 1
      in abind (Some (mpz_mul_2exp R2 R2 (2 * sz n * DIG_SIZE))) (\<lambda>R2. mpz_mod R2 R2 n))"

section \<open>Powers bit by bit\<close>

text \<open>
  The state is the accumulator, the power of the base and the temporary number; \<open>red r x\<close> reduces \<open>x\<close> into \<open>r\<close>. First
  the loop over the bits of a limb, then over the limbs.
\<close>

definition power_step :: "(mpz \<Rightarrow> mpz \<Rightarrow> mpz_answer) \<Rightarrow> bool \<Rightarrow> mpz \<times> mpz \<times> mpz \<Rightarrow> (mpz \<times> mpz \<times> mpz) big_res option" where
  "power_step red odd_bit = (\<lambda>(t, b, temp).
     if odd_bit then abind (mpz_mul temp False t b) (\<lambda>temp. abind (red t temp) (\<lambda>t. Some (Inr (t, b, temp))))
     else Some (Inr (t, b, temp)))"

definition square_step :: "(mpz \<Rightarrow> mpz \<Rightarrow> mpz_answer) \<Rightarrow> mpz \<times> mpz \<times> mpz \<Rightarrow> (mpz \<times> mpz \<times> mpz) big_res option" where
  "square_step red = (\<lambda>(t, b, temp).
     abind (mpz_mul temp True b b) (\<lambda>temp. abind (red b temp) (\<lambda>b. Some (Inr (t, b, temp)))))"

fun power_bits :: "(mpz \<Rightarrow> mpz \<Rightarrow> mpz_answer) \<Rightarrow> nat \<Rightarrow> nat \<Rightarrow> mpz \<times> mpz \<times> mpz \<Rightarrow> (mpz \<times> mpz \<times> mpz) big_res option" where
  "power_bits red 0 e s = Some (Inr s)"
| "power_bits red (Suc j) e s =
     abind (power_step red (e AND 1 = 1) s) (\<lambda>s. abind (square_step red s) (power_bits red j (e div 2)))"

fun power_limbs :: "(mpz \<Rightarrow> mpz \<Rightarrow> mpz_answer) \<Rightarrow> nat list \<Rightarrow> mpz \<times> mpz \<times> mpz \<Rightarrow> (mpz \<times> mpz \<times> mpz) big_res option" where
  "power_limbs red [] s = Some (Inr s)"
| "power_limbs red (e # es) s = abind (power_bits red DIG_SIZE e s) (power_limbs red es)"

text \<open>The loop over a machine exponent stops at its highest bit and leaves out the last square.\<close>

fun power_exp :: "(mpz \<Rightarrow> mpz \<Rightarrow> mpz_answer) \<Rightarrow> nat \<Rightarrow> mpz \<times> mpz \<times> mpz \<Rightarrow> (mpz \<times> mpz \<times> mpz) big_res option" where
  "power_exp red ex s =
     (if ex > 0
      then abind (power_step red (ex AND 1 = 1) s) (\<lambda>s.
           if ex div 2 > 0 then abind (square_step red s) (power_exp red (ex div 2)) else power_exp red (ex div 2) s)
      else Some (Inr s))"

declare power_exp.simps [simp del]

definition mpz_powm_montgomery :: "mpz \<Rightarrow> mpz \<Rightarrow> mpz \<Rightarrow> mpz \<Rightarrow> mpz_answer" where
  "mpz_powm_montgomery result base exp n =
     (let rho = montgomery_setup (mp n ! 0)
      in abind (mpz_montgomery_calc_R2 n) (\<lambda>R2.
         let one_mont = mpz_montgomery_reduce mpz_init R2 n rho
         in abind (Some (mpz_mmod mpz_init base n)) (\<lambda>base_reduced.
            abind (mpz_mul (mpz_init_heap (sz n * 4)) False base_reduced R2) (\<lambda>temp.
            let base_mont = mpz_montgomery_reduce mpz_init temp n rho; acc = mpz_set mpz_init one_mont
            in abind (power_limbs (\<lambda>r x. Some (Inr (mpz_montgomery_reduce r x n rho))) (mp exp) (acc, base_mont, temp))
                 (\<lambda>(acc, base_mont, temp). Some (Inr (mpz_montgomery_reduce result acc n rho)))))))"

text \<open>The reduction by Barrett's method with its parameter, or by division.\<close>

definition powm_reduce :: "mpz \<Rightarrow> mpz \<Rightarrow> mpz \<Rightarrow> mpz \<Rightarrow> mpz_answer" where
  "powm_reduce n mu r x = (if sz n \<ge> 4 then mpz_barrett_reduce r x n mu else mpz_mod r x n)"

definition powm_mu :: "mpz \<Rightarrow> mpz big_res" where
  "powm_mu n = (if sz n \<ge> 4 then mpz_barrett_mu (mpz_init_heap (sz n + 1)) n else Inr mpz_init)"

definition powm_start :: "mpz \<Rightarrow> mpz \<Rightarrow> mpz \<times> mpz \<times> mpz" where
  "powm_start x n = (mpz_init_set_int 1, mpz_set mpz_init x, mpz_init_heap (sz n * 2))"


definition mpz_powm_i :: "mpz \<Rightarrow> mpz \<Rightarrow> int \<Rightarrow> mpz \<Rightarrow> mpz_answer" where
  "mpz_powm_i zz x ex n =
     (if ex = 0 then Some (Inr (mpz_set_int zz 1))
      else if ex < 0 then Some (Inr zz)
      else if sz n * DIG_SIZE > MRB_BIGINT_BIT_LIMIT div 2 then Some (Inl (FatalExit ''modulus too large''))
      else if sz n \<ge> 2 \<and> mp n ! 0 AND 1 = 1 then mpz_powm_montgomery zz x (mpz_init_set_int ex) n
      else abind (Some (powm_mu n)) (\<lambda>mu.
           abind (power_exp (powm_reduce n mu) (nat ex) (powm_start x n)) (\<lambda>(t, b, temp). Some (Inr t))))"

section \<open>The entry points\<close>

text \<open>The two entry points differ in the exponent, its sign \<open>sn\<close> and the power \<open>pw\<close> they call.\<close>

definition powmod_reduced :: "int \<Rightarrow> (mpz \<Rightarrow> mpz \<Rightarrow> mpz \<Rightarrow> mpz_answer) \<Rightarrow> mpz \<Rightarrow> mpz \<Rightarrow> mpz_answer" where
  "powmod_reduced sn pw base md =
     (let c = mpz_set mpz_init md; neg_mod = msn c < 0; c = (if neg_mod then c\<lparr>msn := 1\<rparr> else c);
          mod_one = (sz c = 1 \<and> mp c ! 0 = 1)
      in abind (mpz_mod mpz_init base c) (\<lambda>b.
         let b = (if msn b < 0 \<and> \<not> uzero_p b then mpz_add b b c else b)
         in abind (if \<not> mod_one \<and> \<not> ((zero_p b \<or> uzero_p b) \<and> sn > 0) then pw mpz_init b c else Some (Inr mpz_init)) (\<lambda>r.
            Some (Inr (if neg_mod \<and> \<not> zero_p r \<and> \<not> uzero_p r then mpz_sub_inplace r c else r)))))"

definition sp_bigint_powmod :: "mpz \<Rightarrow> int \<Rightarrow> mpz \<Rightarrow> mpz_answer" where
  "sp_bigint_powmod base exp md =
     (if exp < 0 then Some (Inl (RaiseRangeError ''Integer#pow() 1st argument cannot be negative when 2nd argument specified''))
      else if zero_p md then Some (Inl (RaiseZeroDiv ''divided by 0''))
      else powmod_reduced exp (\<lambda>zz b c. mpz_powm_i zz b exp c) base md)"


section \<open>Products with the zero of one limb\<close>


















section \<open>Montgomery's constant\<close>




section \<open>Montgomery's reduction\<close>








section \<open>The loops over a reduction\<close>



lemma abind_simps [simp]: "abind (Some (Inr x)) f = f x" "abind (Some (Inl e)) f = Some (Inl e)" "abind None f = None"
  by (simp_all add: abind_def)


lemma limit_mono: "b * DIG_SIZE \<le> MRB_BIGINT_BIT_LIMIT \<Longrightarrow> a \<le> b \<Longrightarrow> a * DIG_SIZE \<le> MRB_BIGINT_BIT_LIMIT"
  using mult_le_mono1 [of a b DIG_SIZE] by (rule order_trans)

lemma settled_size:
  assumes "settles z v" "0 \<le> v" "v < mpz_val n" "mpz_canon n"
  shows "sz z \<le> sz n"
proof (cases "v = 0")
  case True
  have "sz z \<le> 1" using assms(1) mpz_canon_simps(3) [of z] canon_nonzero [of z] True by (auto simp: settles_def sz_def zero_p_def)
  moreover have "sz n \<noteq> 0" using canon_pos [OF assms(4)] assms(2,3) by (simp add: sz_def)
  ultimately show ?thesis by simp
next
  case False
  then show ?thesis using settles_size [OF assms(1) _ _ assms(4)] assms(2,3) by simp
qed











lemma zero_settled: "zero_p x \<Longrightarrow> settles x v \<Longrightarrow> v = 0"
  using settles_val(1) by (fastforce simp: mpz_val_def zero_p_def)



section \<open>The modular powers\<close>








lemma low_bit_odd: "mpz_canon n \<Longrightarrow> 0 < mpz_val n \<Longrightarrow> mp n ! 0 AND 1 = 1 \<longleftrightarrow> odd (mpz_val n)"
proof -
  assume n: "mpz_canon n" "0 < mpz_val n"
  note p = canon_pos [OF n]
  obtain l ls where l: "mp n = l # ls" using p by (cases "mp n") auto
  have "odd (mpz_val n) \<longleftrightarrow> odd l" using p l by (simp add: DIG_BASE_def)
  then show ?thesis unfolding l by (simp add: and_one_eq odd_iff_mod_2_eq_one)
qed









section \<open>Integer#pow with a modulus\<close>

lemma set_init_id: "mpz_canon x \<Longrightarrow> \<not> zero_p x \<Longrightarrow> mpz_set mpz_init x = x"
  using mpz_canon_simps(3,6) [of x] by (cases x) (auto simp: mpz_set_def mpz_realloc_def sz_def zero_p_def)

lemma unit_modulus: "mpz_canon c \<Longrightarrow> 0 < mpz_val c \<Longrightarrow> sz c = 1 \<and> mp c ! 0 = 1 \<longleftrightarrow> mpz_val c = 1"
proof -
  assume c: "mpz_canon c" "0 < mpz_val c"
  note p = canon_pos [OF c]
  show ?thesis
  proof (cases "sz c = 1")
    case True
    then obtain l where "mp c = [l]" by (cases "mp c") (auto simp: sz_def)
    then show ?thesis using True p by auto
  next
    case False
    have "\<not> \<bar>mpz_val c\<bar> < int DIG_BASE ^ 1" using canon_size [OF c(1), of 1] False p by (cases "sz c") (auto simp: sz_def)
    then show ?thesis using False by (simp add: DIG_BASE_def)
  qed
qed

lemma settled_not_negative: "settles r v \<Longrightarrow> 0 \<le> v \<Longrightarrow> \<not> (msn r < 0 \<and> \<not> uzero_p r)"
  using settles_limbs(2) [of r v] settles_val(1,3) [of r v] mpz_ok_sgn [of r] by (auto simp: mpz_canon_def)

text \<open>The base is first taken into the range from 0 to the modulus.\<close>

lemma reduce_base:
  assumes "mpz_canon base" "mpz_canon c" "0 < mpz_val c" "mod_fits base c"
  shows "\<exists>r. mpz_mod mpz_init base c = Some (Inr r) \<and>
    settles (if msn r < 0 \<and> \<not> uzero_p r then mpz_add r r c else r) (mpz_val base mod mpz_val c)"
proof -
  have nz: "\<not> zero_p c" using canon_nonzero [OF assms(2)] assms(3) by simp
  note pc = canon_pos [OF assms(2,3)]
  let ?v = "msn base * int (lval (mp base) mod lval (mp c))"
  obtain r where r: "mpz_mod mpz_init base c = Some (Inr r)" "settles r ?v"
    using mpz_mod_exact [OF assms(1,2) nz _ assms(4), of mpz_init] by auto
  have b: "mpz_val base = msn base * int (lval (mp base))" "mpz_val c = int (lval (mp c))" using pc by (simp_all add: mpz_val_def)
  have s: "msn base \<in> {-1, 0, 1}" using mpz_canon_simps(2) [OF assms(1)] by simp
  have q: "mpz_val base mod mpz_val c = ?v mod mpz_val c" unfolding b zmod_int by (simp add: mod_mult_right_eq)
  have lt: "\<bar>?v\<bar> < mpz_val c" using s assms(3) unfolding b(2) by (auto simp: abs_mult)
  show ?thesis
  proof (cases "?v < 0")
    case True
    then have "?v \<noteq> 0" by linarith
    then have "mpz_canon r" "mpz_val r = ?v" by (rule settles_val(3) [OF r(2)], intro settles_val(1) [OF r(2)])
    moreover from this have "msn r < 0" "\<not> uzero_p r" using mpz_ok_sgn [of r] True settles_limbs(2) [OF r(2)] by (auto simp: mpz_canon_def sgn_if)
    moreover have a: "mpz_ok (mpz_add r r c)" "mpz_val (mpz_add r r c) = ?v + mpz_val c"
      using mpz_add_val [of r c r] calculation(1,2) assms(2) by (auto simp: mpz_canon_def)
    moreover have "(?v + mpz_val c) mod mpz_val c = ?v + mpz_val c" using True lt by (intro mod_pos_pos_trivial) simp_all
    ultimately show ?thesis using r(1) q ok_canon [OF a(1)] lt by (simp add: settles_def)
  next
    case False
    have "\<not> (msn r < 0 \<and> \<not> uzero_p r)" using settled_not_negative [OF r(2)] False by simp
    then show ?thesis using r q lt False by auto
  qed
qed

lemma neg_mod: "x mod m \<noteq> 0 \<Longrightarrow> x mod (- m) = x mod m - m" for x m :: int
  by (simp add: zmod_zminus2_eq_if)





section \<open>A power that is wrong\<close>

text \<open>For an even modulus of four limbs or more, a square is what Barrett's reduction makes of it.\<close>

lemma square_powm_i:
  assumes "mpz_canon n" "1 < mpz_val n" "4 \<le> sz n" "even (mpz_val n)" "(5 * sz n + 3) * DIG_SIZE \<le> MRB_BIGINT_BIT_LIMIT"
    "mpz_canon x" "0 < mpz_val x" "mpz_val x < mpz_val n"
  defines "v \<equiv> barrett_value (mpz_bits n) (mpz_val x * mpz_val x) (mpz_val n)"
  assumes "0 < v" "v < mpz_val n"
  shows "\<exists>r. mpz_powm_i mpz_init x 2 n = Some (Inr r) \<and> mpz_canon r \<and> mpz_val r = v"
proof -
  have n: "0 < mpz_val n" using assms(2) by simp
  have lim: "a * DIG_SIZE \<le> MRB_BIGINT_BIT_LIMIT" if "a \<le> 5 * sz n + 3" for a using limit_mono [OF assms(5) that] .
  obtain mu where mu: "powm_mu n = Inr mu" "mpz_canon mu" "mpz_val mu = 2 ^ (2 * mpz_bits n) div mpz_val n" "sz mu \<le> 2 * sz n + 1"
    using barrett_mu_val [OF assms(1) n realloc_dest(2), of "sz n + 1"] lim [of "2 * sz n + 1"] assms(3) by (auto simp: powm_mu_def)
  have fits: "sz z \<le> sz n" if "mpz_canon z" "0 < mpz_val z" "mpz_val z < mpz_val n" for z
    using settled_size [OF settlesI [OF that(1)] _ _ assms(1)] that by simp
  have times: "\<exists>p. mpz_mul w same a b = Some (Inr p) \<and> mpz_canon p \<and> mpz_val p = mpz_val a * mpz_val b \<and> sz p \<le> 2 * sz n"
    if z: "mpz_canon a" "mpz_canon b" "0 < mpz_val a" "0 < mpz_val b" "mpz_val a < mpz_val n" "mpz_val b < mpz_val n" "mpz_dest w" "same \<longrightarrow> a = b"
    for w same a b
  proof -
    have s: "sz a \<le> sz n" "sz b \<le> sz n" using fits z by simp_all
    obtain p where p: "mpz_mul w same a b = Some (Inr p)" "mpz_canon p" "mpz_val p = mpz_val a * mpz_val b"
      using mpz_mul_answers [OF z(1,2,7) lim z(8)] s canon_nonzero [OF z(1)] canon_nonzero [OF z(2)] z(3,4) by (auto simp: answers_def)
    have "\<bar>mpz_val p\<bar> < int DIG_BASE ^ sz n * int DIG_BASE ^ sz n"
      using canon_bound [OF assms(1)] n z(3-6) mult_strict_mono' [of "mpz_val a" "int DIG_BASE ^ sz n" "mpz_val b" "int DIG_BASE ^ sz n"]
      unfolding p(3) by simp
    then show ?thesis using p canon_size [OF p(2), of "2 * sz n"] by (auto simp: mult_2 power_add)
  qed
  have reduce: "\<exists>r'. powm_reduce n mu r p = Some (Inr r') \<and> settles r' (barrett_value (mpz_bits n) (mpz_val p) (mpz_val n))"
    if "mpz_canon p" "0 < mpz_val p" "sz p \<le> 2 * sz n" "mpz_dest r" for r p
    using barrett_reduce_val [OF that(1) assms(1) mu(2) _ n that(4) mu(3)] lim [of "sz p + sz mu + sz n + 1"] that mu(4) assms(3)
    by (auto simp: powm_reduce_def)
  define b where "b = mpz_set mpz_init x"
  have b: "b = x" unfolding b_def using set_init_id [OF assms(6)] canon_nonzero [OF assms(6)] assms(7) by simp
  let ?t = "mpz_init_set_int 1" and ?h = "mpz_init_heap (sz n * 2)"
  obtain p where p: "mpz_mul ?h True x x = Some (Inr p)" "mpz_canon p" "mpz_val p = mpz_val x * mpz_val x" "sz p \<le> 2 * sz n"
    using times [of x x ?h True] assms(6-8) realloc_dest(2) by auto
  obtain b1 where b1: "powm_reduce n mu x p = Some (Inr b1)" "settles b1 v"
    using reduce [OF p(2) _ p(4) canon_dest [OF assms(6)]] assms(7) unfolding p(3) v_def by auto
  have c1: "mpz_canon b1" "mpz_val b1 = v" using settles_val [OF b1(2)] assms(10) by simp_all
  have t: "mpz_canon ?t" "mpz_val ?t = 1" using set_one [of mpz_init] by (simp_all add: mpz_init_set_int_def)
  obtain q where q: "mpz_mul p False ?t b1 = Some (Inr q)" "mpz_canon q" "mpz_val q = v" "sz q \<le> 2 * sz n"
    using times [of ?t b1 p False] t c1 assms(2,10,11) canon_dest [OF p(2)] by auto
  obtain r where r: "powm_reduce n mu ?t q = Some (Inr r)" "settles r v"
    using reduce [OF q(2) _ q(4) canon_dest [OF t(1)]] assms(10,11) unfolding q(3) by (auto simp: barrett_value_def)
  have "power_exp (powm_reduce n mu) 0 s = Some (Inr s)" for s by (subst power_exp.simps) simp
  then have "power_exp (powm_reduce n mu) (Suc 0) (?t, b1, p) = Some (Inr (r, b1, q))"
    by (subst power_exp.simps) (simp add: power_step_def q(1) r(1))
  then have "power_exp (powm_reduce n mu) 2 (?t, x, ?h) = Some (Inr (r, b1, q))"
    by (subst power_exp.simps) (simp add: power_step_def square_step_def p(1) b1(1))
  moreover have "\<not> sz n * DIG_SIZE > MRB_BIGINT_BIT_LIMIT div 2" using lim [of "2 * sz n"] by simp
  ultimately have "mpz_powm_i mpz_init x 2 n = Some (Inr r)"
    using mu(1) low_bit_odd [OF assms(1) n] assms(4) b unfolding b_def by (simp add: mpz_powm_i_def powm_start_def)
  then show ?thesis using settles_val [OF r(2)] assms(10) by simp
qed

lemma powmod_positive:
  assumes "mpz_canon base" "mpz_canon md" "1 < mpz_val md" "mod_fits base md" "mpz_val base mod mpz_val md \<noteq> 0" "0 < exp"
  shows "\<exists>b. mpz_canon b \<and> mpz_val b = mpz_val base mod mpz_val md \<and> sp_bigint_powmod base exp md = mpz_powm_i mpz_init b exp md"
proof -
  have nz: "\<not> zero_p md" "0 < mpz_val md" using canon_nonzero [OF assms(2)] assms(3) by simp_all
  have s: "(msn md < 0) = False" using canon_pos [OF assms(2) nz(2)] by simp
  obtain r0 where r0: "mpz_mod mpz_init base md = Some (Inr r0)"
    "settles (if msn r0 < 0 \<and> \<not> uzero_p r0 then mpz_add r0 r0 md else r0) (mpz_val base mod mpz_val md)"
    using reduce_base [OF assms(1,2) nz(2) assms(4)] by blast
  define b where "b = (if msn r0 < 0 \<and> \<not> uzero_p r0 then mpz_add r0 r0 md else r0)"
  have "\<not> (zero_p b \<or> uzero_p b)" using settles_limbs(2) [OF r0(2)] zero_settled [OF _ r0(2)] assms(5) by (auto simp: b_def)
  moreover have "\<not> (sz md = 1 \<and> mp md ! 0 = 1)" using unit_modulus [OF assms(2) nz(2)] assms(3) by simp
  moreover have "abind m (\<lambda>r. Some (Inr r)) = m" for m :: mpz_answer by (auto simp: abind_def split: option.splits sum.splits)
  ultimately have "powmod_reduced exp (\<lambda>zz b c. mpz_powm_i zz b exp c) base md = mpz_powm_i mpz_init b exp md"
    unfolding powmod_reduced_def Let_def set_init_id [OF assms(2) nz(1)] s if_False r0(1) abind_simps b_def [symmetric] by simp
  then show ?thesis using settles_val [OF r0(2)] assms(5,6) nz(1) unfolding b_def by (auto simp: sp_bigint_powmod_def)
qed

text \<open>
  C36: There is an even modulus of four limbs, above three quarters of 2^128, and a base
  below it whose square modulo it is answered wrongly, because Barrett's reduction keeps too
  few bits of the rest.
\<close>
theorem bigint_powmod_wrong:
  "\<exists>b m r. b = \<lparr>mp = [3135529035, 3030565203, 3965236880, 4294967272], mnull = False, msn = 1\<rparr> \<and>
     m = \<lparr>mp = [3745897542, 3072649292, 3965236880, 4294967272], mnull = False, msn = 1\<rparr> \<and>
     mpz_canon b \<and> mpz_canon m \<and> sp_bigint_powmod b 2 m = Some (Inr r) \<and> mpz_canon r \<and>
     mpz_val r = 32666828676521586877065892452950181 \<and>
     mpz_val b ^ 2 mod mpz_val m = 32670485336902411182308980582066201"
proof -
  define b where "b = \<lparr>mp = [3135529035, 3030565203, 3965236880, 4294967272], mnull = False, msn = 1\<rparr>"
  define m where "m = \<lparr>mp = [3745897542, 3072649292, 3965236880, 4294967272], mnull = False, msn = 1\<rparr>"
  have c: "mpz_canon b" "mpz_canon m" by (simp_all add: b_def m_def mpz_canon_def mpz_ok_def DIG_BASE_def)
  have v: "mpz_val b = 340282365092608273051041236101156331595" "mpz_val m = 340282365092608273051221985887703653446"
    by (simp_all add: b_def m_def mpz_val_def DIG_BASE_def)
  have s: "sz m = 4" "sz b = 4" by (simp_all add: b_def m_def sz_def)
  have k: "mpz_bits m = 128" by (simp add: mpz_bits_def m_def sz_def lzb_def DIG_SIZE_def log2_loop.simps)
  have bv: "barrett_value 128 (340282365092608273051041236101156331595 * 340282365092608273051041236101156331595)
      340282365092608273051221985887703653446 = 32666828676521586877065892452950181"
    unfolding barrett_value_def by simp
  obtain x where x: "mpz_canon x" "mpz_val x = mpz_val b" "sp_bigint_powmod b 2 m = mpz_powm_i mpz_init x 2 m"
    using powmod_positive [OF c, of 2] s unfolding v by (auto simp: mod_fits_def)
  obtain r where "mpz_powm_i mpz_init x 2 m = Some (Inr r)" "mpz_canon r" "mpz_val r = 32666828676521586877065892452950181"
    using square_powm_i [OF c(2) _ _ _ _ x(1)] s(1) unfolding x(2) v k bv by (auto simp: DIG_SIZE_def MRB_BIGINT_BIT_LIMIT_def)
  moreover have "mpz_val b ^ 2 mod mpz_val m = 32670485336902411182308980582066201" unfolding v by simp
  ultimately show ?thesis using c x(3) unfolding b_def m_def by (intro exI conjI) (rule refl | assumption | simp)+
qed

end
