(* ===== verification/Outcome.thy ===== *)
theory Outcome
  imports Prelude
begin

text \<open>
  Outcomes of operations on memory: a result, a Ruby exception, or \<open>Undef\<close> where the C code would go
  outside its memory. Two conditions on them carry the proofs: \<open>orun P\<close> says that the outcome is defined
  and its result satisfies \<open>P\<close>, \<open>opost P\<close> only the second half.
\<close>

named_theorems wp \<open>what an operation needs so that it never goes outside its memory and ends in a given condition\<close>

section \<open>Outcomes\<close>

datatype 'a outcome = Done 'a | Raise rb_error | Undef

definition obind :: "'a outcome \<Rightarrow> ('a \<Rightarrow> 'b outcome) \<Rightarrow> 'b outcome" where
  "obind m f = (case m of Done x \<Rightarrow> f x | Raise e \<Rightarrow> Raise e | Undef \<Rightarrow> Undef)"

definition oraise :: "string \<Rightarrow> string \<Rightarrow> 'a outcome" where
  "oraise cls msg = Raise (RbError cls msg)"

definition oguard :: "bool \<Rightarrow> string \<Rightarrow> string \<Rightarrow> unit outcome" where
  "oguard b cls msg = (if b then oraise cls msg else Done ())"

named_theorems out_simps \<open>rewriting of outcomes\<close>

lemma obind_simps [simp, out_simps]:
  "obind (Done x) f = f x" "obind (Raise e) f = Raise e" "obind Undef f = Undef"
  by (simp_all add: obind_def)

lemma obind_Done_iff [out_simps]: "obind m f = Done y \<longleftrightarrow> (\<exists>x. m = Done x \<and> f x = Done y)"
  by (cases m) simp_all

lemma obind_Undef_iff [out_simps]: "obind m f = Undef \<longleftrightarrow> m = Undef \<or> (\<exists>x. m = Done x \<and> f x = Undef)"
  by (cases m) simp_all

lemma oguard_simps [simp, out_simps]:
  "oguard True c m = oraise c m" "oguard False c m = Done ()"
  by (simp_all add: oguard_def)

lemma oguard_Done_iff [out_simps]: "oguard b c m = Done u \<longleftrightarrow> \<not> b"
  by (simp add: oguard_def oraise_def)

lemma oguard_not_Undef [simp]: "oguard b c m \<noteq> Undef" "oraise c m \<noteq> (Undef :: 'a outcome)"
  by (simp_all add: oguard_def oraise_def)

lemma oraise_not_Done [simp]: "oraise c m \<noteq> Done x"
  by (simp add: oraise_def)

lemma obind_oraise [simp]: "obind (oraise c m) f = oraise c m"
  by (simp add: oraise_def)

text \<open>A test of the code that raises, and what follows it.\<close>

definition ocheck :: "bool \<Rightarrow> string \<Rightarrow> string \<Rightarrow> 'a outcome \<Rightarrow> 'a outcome" where
  "ocheck b cls msg k = (if b then oraise cls msg else k)"

section \<open>Conditions on outcomes\<close>

text \<open>The outcome is defined, and a result satisfies \<open>P\<close>.\<close>

definition orun :: "('a \<Rightarrow> bool) \<Rightarrow> 'a outcome \<Rightarrow> bool" where
  "orun P m = (case m of Done x \<Rightarrow> P x | Raise _ \<Rightarrow> True | Undef \<Rightarrow> False)"

lemma orun_simps [wp, simp]:
  "orun P (Done x) = P x" "orun P (Raise e) = True" "orun P Undef = False"
  "orun P (oraise c m) = True" "orun P (obind n f) = orun (\<lambda>x. orun P (f x)) n"
  "orun P (ocheck b c m k) = (\<not> b \<longrightarrow> orun P k)"
  by (simp_all add: orun_def oraise_def ocheck_def split: outcome.split)

lemma orun_mono: "orun Q m \<Longrightarrow> (\<And>x. Q x \<Longrightarrow> P x) \<Longrightarrow> orun P m"
  by (cases m) (simp_all add: orun_def)

lemma orunD: "orun P m \<Longrightarrow> m \<noteq> Undef" "orun P m \<Longrightarrow> m = Done x \<Longrightarrow> P x"
  by (auto simp: orun_def)

text \<open>A result, if there is one, satisfies \<open>P\<close>.\<close>

definition opost :: "('a \<Rightarrow> bool) \<Rightarrow> 'a outcome \<Rightarrow> bool" where
  "opost P m = (case m of Done x \<Rightarrow> P x | _ \<Rightarrow> True)"

lemma opost_simps [simp]:
  "opost P (Done x) = P x" "opost P (Raise e) = True" "opost P Undef = True"
  "opost P (oraise c m) = True" "opost P (obind n f) = opost (\<lambda>x. opost P (f x)) n"
  "opost P (ocheck b c m k) = (\<not> b \<longrightarrow> opost P k)"
  by (simp_all add: opost_def oraise_def ocheck_def split: outcome.split)

lemma opost_mono: "opost Q m \<Longrightarrow> (\<And>x. Q x \<Longrightarrow> P x) \<Longrightarrow> opost P m"
  by (cases m) (simp_all add: opost_def)

lemma opost_any: "(\<And>x. P x) \<Longrightarrow> opost P m"
  by (cases m) (simp_all add: opost_def)

lemma opostD: "opost P m \<Longrightarrow> m = Done x \<Longrightarrow> P x"
  by (simp add: opost_def)

end
