(* ===== verification/IobMem.thy ===== *)
theory IobMem
  imports Outcome
begin

unbundle bit_operations_syntax

text \<open>
  The byte level of IO::Buffer (\<^verbatim>\<open>lib/sp_iobuffer.h\<close>, and the type table of
  \<^verbatim>\<open>lib/sp_iobuffer.c\<close>): the value types, their widths and byte orders, and the load and store
  of a value among bytes.

  A multi-byte load is a \<^verbatim>\<open>memcpy\<close> into an integer of that width and, where the value's byte
  order is not the host's, a byte swap; the host's order is a parameter \<open>host_be\<close>, and the lemmas
  show that it does not matter. An operation that touches memory answers an \<open>outcome\<close>: a
  result, a Ruby exception, or \<open>Undef\<close> where the C code would dereference a null pointer or an
  address outside its allocation. No operation is meant to have that outcome.
\<close>

section \<open>Flags\<close>

definition SP_IOB_EXTERNAL :: "32 word" where "SP_IOB_EXTERNAL = 1"
definition SP_IOB_INTERNAL :: "32 word" where "SP_IOB_INTERNAL = 2"
definition SP_IOB_MAPPED :: "32 word" where "SP_IOB_MAPPED = 4"
definition SP_IOB_SHARED :: "32 word" where "SP_IOB_SHARED = 8"
definition SP_IOB_LOCKED :: "32 word" where "SP_IOB_LOCKED = 32"
definition SP_IOB_PRIVATE :: "32 word" where "SP_IOB_PRIVATE = 64"
definition SP_IOB_READONLY :: "32 word" where "SP_IOB_READONLY = 128"
definition SP_IOB_SLICE :: "32 word" where "SP_IOB_SLICE = 65536"

lemmas iob_flag_defs = SP_IOB_EXTERNAL_def SP_IOB_INTERNAL_def SP_IOB_MAPPED_def SP_IOB_SHARED_def
  SP_IOB_LOCKED_def SP_IOB_PRIVATE_def SP_IOB_READONLY_def SP_IOB_SLICE_def

section \<open>The value types\<close>

text \<open>
  A type is its code: U8, S8, then u16 s16 U16 S16, u32 s32 U32 S32, u64 s64 U64 S64, and
  f32 f64 F32 F64. The codes the formulas of the header compare with have names.
\<close>

definition SP_IOB_TY_S8 :: nat where "SP_IOB_TY_S8 = 1"
definition SP_IOB_TY_u16 :: nat where "SP_IOB_TY_u16 = 2"
definition SP_IOB_TY_S16 :: nat where "SP_IOB_TY_S16 = 5"
definition SP_IOB_TY_S32 :: nat where "SP_IOB_TY_S32 = 9"
definition SP_IOB_TY_f32 :: nat where "SP_IOB_TY_f32 = 14"
definition SP_IOB_TY_F32 :: nat where "SP_IOB_TY_F32 = 16"
definition SP_IOB_TY_COUNT :: nat where "SP_IOB_TY_COUNT = 18"

lemmas iob_ty_defs = SP_IOB_TY_S8_def SP_IOB_TY_u16_def SP_IOB_TY_S16_def SP_IOB_TY_S32_def
  SP_IOB_TY_f32_def SP_IOB_TY_F32_def SP_IOB_TY_COUNT_def

record IobType =
  it_name :: string
  it_width :: nat
  it_be :: bool
  it_sign :: bool
  it_flt :: bool

definition iob_types :: "IobType list" where
  "iob_types = map (\<lambda>(n, w, b, s, f). \<lparr>it_name = n, it_width = w, it_be = b, it_sign = s, it_flt = f\<rparr>)
    [(''U8'', 1, False, False, False), (''S8'', 1, False, True, False),
     (''u16'', 2, False, False, False), (''s16'', 2, False, True, False),
     (''U16'', 2, True, False, False), (''S16'', 2, True, True, False),
     (''u32'', 4, False, False, False), (''s32'', 4, False, True, False),
     (''U32'', 4, True, False, False), (''S32'', 4, True, True, False),
     (''u64'', 8, False, False, False), (''s64'', 8, False, True, False),
     (''U64'', 8, True, False, False), (''S64'', 8, True, True, False),
     (''f32'', 4, False, True, True), (''f64'', 8, False, True, True),
     (''F32'', 4, True, True, True), (''F64'', 8, True, True, True)]"

fun type_index :: "IobType list \<Rightarrow> nat \<Rightarrow> string \<Rightarrow> int" where
  "type_index [] i name = - 1"
| "type_index (t # ts) i name = (if it_name t = name then int i else type_index ts (i + 1) name)"

definition sp_IOBuffer_type_of :: "string option \<Rightarrow> int" where
  "sp_IOBuffer_type_of name = (case name of None \<Rightarrow> - 1 | Some n \<Rightarrow> type_index iob_types 0 n)"

definition sp_iob_width :: "nat \<Rightarrow> nat" where
  "sp_iob_width ty =
     (if ty \<ge> SP_IOB_TY_f32 then (if ty = SP_IOB_TY_f32 \<or> ty = SP_IOB_TY_F32 then 4 else 8)
      else if ty \<le> SP_IOB_TY_S8 then 1 else if ty \<le> SP_IOB_TY_S16 then 2
      else if ty \<le> SP_IOB_TY_S32 then 4 else 8)"

definition sp_iob_big_endian :: "nat \<Rightarrow> bool" where
  "sp_iob_big_endian ty =
     (if ty \<ge> SP_IOB_TY_f32 then ty \<ge> SP_IOB_TY_F32
      else ty \<ge> SP_IOB_TY_u16 \<and> (ty - SP_IOB_TY_u16) AND 2 \<noteq> 0)"

section \<open>Bytes and values\<close>

type_synonym byte = "8 word"

text \<open>The value of bytes, the first the least significant, and the \<open>w\<close> low bytes of a value.\<close>

fun le_val :: "byte list \<Rightarrow> nat" where
  "le_val [] = 0"
| "le_val (b # bs) = unat b + 256 * le_val bs"

fun le_bytes :: "nat \<Rightarrow> nat \<Rightarrow> byte list" where
  "le_bytes 0 x = []"
| "le_bytes (Suc w) x = of_nat (x mod 256) # le_bytes w (x div 256)"

text \<open>\<^verbatim>\<open>memcpy\<close> between memory and an integer of the host, and \<^verbatim>\<open>__builtin_bswap\<close>.\<close>

definition host_load :: "bool \<Rightarrow> byte list \<Rightarrow> nat" where
  "host_load host_be p = le_val (if host_be then rev p else p)"

definition host_store :: "bool \<Rightarrow> nat \<Rightarrow> nat \<Rightarrow> byte list" where
  "host_store host_be w x = (if host_be then rev (le_bytes w x) else le_bytes w x)"

definition bswap :: "nat \<Rightarrow> nat \<Rightarrow> nat" where
  "bswap w x = le_val (rev (le_bytes w x))"

definition sp_iob_load :: "bool \<Rightarrow> byte list \<Rightarrow> nat \<Rightarrow> bool \<Rightarrow> 64 word" where
  "sp_iob_load host_be p width be =
     (let sw = (be \<noteq> host_be) in
      if width = 1 then ucast (p ! 0)
      else (let x = host_load host_be (take width p) in of_nat (if sw then bswap width x else x)))"

text \<open>The bytes a store leaves at its place.\<close>

definition sp_iob_store :: "bool \<Rightarrow> nat \<Rightarrow> bool \<Rightarrow> 64 word \<Rightarrow> byte list" where
  "sp_iob_store host_be width be v =
     (let sw = (be \<noteq> host_be) in
      if width = 1 then [ucast v]
      else (let x = unat v mod 256 ^ width
            in host_store host_be width (if sw then bswap width x else x)))"

text \<open>\<^verbatim>\<open>(int64_t)(raw << shift) >> shift\<close>\<close>

definition sign_extend :: "nat \<Rightarrow> 64 word \<Rightarrow> int" where
  "sign_extend w raw = (let shift = 64 - 8 * w in sint (signed_drop_bit shift (push_bit shift raw)))"

definition sp_iob_decode_i :: "bool \<Rightarrow> byte list \<Rightarrow> nat \<Rightarrow> int" where
  "sp_iob_decode_i host_be p ty =
     (let w = sp_iob_width ty; raw = sp_iob_load host_be p w (sp_iob_big_endian ty)
      in if ty AND 1 \<noteq> 0 then sign_extend w raw else sint raw)"

definition sp_iob_fits :: "int \<Rightarrow> int \<Rightarrow> nat \<Rightarrow> bool" where
  "sp_iob_fits len off ty \<longleftrightarrow>
     wrap_u64 off < wrap_u64 len \<and> wrap_u64 (wrap_u64 len - wrap_u64 off) \<ge> int (sp_iob_width ty)"

definition sp_iob_holds :: "nat \<Rightarrow> int \<Rightarrow> bool" where
  "sp_iob_holds ty v \<longleftrightarrow>
     sp_iob_width ty \<noteq> 4 \<or>
     (v \<ge> - (2 ^ 31) \<and> v \<le> (if ty AND 1 \<noteq> 0 then 2 ^ 31 - 1 else 2 ^ 32 - 1))"

section \<open>Loads and stores do not depend on the host\<close>

lemma le_val_less: "le_val bs < 256 ^ length bs"
proof (induction bs)
  case (Cons b bs)
  have "unat b < 256" using unsigned_less [of b] by simp
  with Cons show ?case by simp
qed simp

lemma le_bytes_length [simp]: "length (le_bytes w x) = w"
  by (induction w arbitrary: x) simp_all

lemma le_val_le_bytes: "le_val (le_bytes w x) = x mod 256 ^ w"
proof (induction w arbitrary: x)
  case (Suc w)
  have "unat (of_nat (x mod 256) :: byte) = x mod 256" by (simp add: unat_of_nat)
  then show ?case using Suc by (simp add: mod_mult2_eq)
qed simp

lemma le_bytes_le_val: "le_bytes (length bs) (le_val bs) = bs"
proof (induction bs)
  case (Cons b bs)
  have "unat b < 256" using unsigned_less [of b] by simp
  then show ?case using Cons by (simp add: unat_of_nat)
qed simp

lemma le_bytes_mod: "le_bytes w (x mod 256 ^ w) = le_bytes w x"
  by (metis le_bytes_le_val le_bytes_length le_val_le_bytes)

lemma bswap_le_val: "length bs = w \<Longrightarrow> bswap w (le_val bs) = le_val (rev bs)"
  by (metis bswap_def le_bytes_le_val)

lemma bytes_bswap: "le_bytes w (bswap w x) = rev (le_bytes w x)"
  by (metis bswap_def le_bytes_le_val le_bytes_length length_rev)

definition be_order :: "bool \<Rightarrow> byte list \<Rightarrow> byte list" where
  "be_order be bs = (if be then rev bs else bs)"

lemma sp_iob_load_eq:
  assumes "0 < w" "w \<le> length p"
  shows "sp_iob_load host_be p w be = of_nat (le_val (be_order be (take w p)))"
proof (cases "w = 1")
  case True
  then obtain b q where p: "p = b # q" using assms by (cases p) auto
  then show ?thesis using True by (simp add: sp_iob_load_def be_order_def unsigned_of_nat)
next
  case False
  then show ?thesis using assms
    by (auto simp: sp_iob_load_def Let_def host_load_def be_order_def bswap_le_val)
qed

lemma of_nat_unat_ucast: "ucast (v :: 64 word) = (of_nat (unat v mod 256) :: byte)"
proof -
  have "(of_nat (take_bit 8 (unat v)) :: byte) = of_nat (unat v)"
    by (subst word_of_nat_eq_iff) simp
  then show ?thesis by (simp add: take_bit_eq_mod unsigned_of_nat of_nat_unat)
qed

lemma of_nat_unat_mod: "of_nat (unat v mod 2 ^ n) = take_bit n (v :: 64 word)"
  by (simp flip: take_bit_eq_mod) (simp add: of_nat_take_bit)

lemma mod_neg_add: "off < 0 \<Longrightarrow> - m \<le> off \<Longrightarrow> off mod m = off + (m::int)"
  using mod_add_self2 [of off m] mod_pos_pos_trivial [of "off + m" m] by linarith

lemma sint_signed_take_bit: "n < 64 \<Longrightarrow> sint (signed_take_bit n v) = signed_take_bit n (sint (v :: 64 word))"
  by (cases "n = 63"; rule bit_eqI) (auto simp: bit_signed_iff bit_signed_take_bit_iff min_def)

lemma sp_iob_store_eq:
  assumes "0 < w"
  shows "sp_iob_store host_be w be v = be_order be (le_bytes w (unat v))"
proof (cases "w = 1")
  case True
  have "ucast v = (of_nat (unat v mod 256) :: byte)"
    using of_nat_unat_ucast [of v] by simp
  then show ?thesis using True by (simp add: sp_iob_store_def be_order_def)
next
  case False
  then show ?thesis
    by (auto simp: sp_iob_store_def Let_def host_store_def be_order_def bytes_bswap le_bytes_mod)
qed

lemma be_order_length [simp]: "length (be_order be bs) = length bs"
  by (simp add: be_order_def)

lemma be_order_twice [simp]: "be_order be (be_order be bs) = bs"
  by (simp add: be_order_def)

lemma sp_iob_store_length: "0 < w \<Longrightarrow> length (sp_iob_store host_be w be v) = w"
  by (simp add: sp_iob_store_eq)

lemma sp_iob_load_store:
  assumes "0 < w" "w \<le> 8"
  shows "sp_iob_load host_be (sp_iob_store host_be' w be v @ q) w be = take_bit (8 * w) v"
proof -
  have "sp_iob_load host_be (sp_iob_store host_be' w be v @ q) w be = of_nat (unat v mod 256 ^ w)"
    using assms sp_iob_load_eq [of w "sp_iob_store host_be' w be v @ q" host_be be]
    by (simp add: sp_iob_store_length) (simp add: sp_iob_store_eq le_val_le_bytes)
  also have "(256 :: nat) ^ w = 2 ^ (8 * w)" by (simp add: power_mult)
  also have "of_nat (unat v mod 2 ^ (8 * w)) = take_bit (8 * w) v"
    by (rule of_nat_unat_mod)
  finally show ?thesis .
qed

section \<open>The header's formulas and the table\<close>

lemma less_18: "ty < 18 \<Longrightarrow> ty \<in> set [0, 1, 2, 3, 4, 5, 6, 7, 8, 9, 10, 11, 12, 13, 14, 15, 16, 17 :: nat]"
  by (simp add: numeral_eq_Suc less_Suc_eq)

lemma iob_types_header:
  assumes "ty < SP_IOB_TY_COUNT"
  shows "it_width (iob_types ! ty) = sp_iob_width ty \<and> it_be (iob_types ! ty) = sp_iob_big_endian ty \<and>
    it_flt (iob_types ! ty) = (ty \<ge> SP_IOB_TY_f32) \<and>
    (\<not> it_flt (iob_types ! ty) \<longrightarrow> it_sign (iob_types ! ty) = (ty AND 1 \<noteq> 0))"
proof -
  have "\<forall>ty \<in> set [0, 1, 2, 3, 4, 5, 6, 7, 8, 9, 10, 11, 12, 13, 14, 15, 16, 17 :: nat].
    it_width (iob_types ! ty) = sp_iob_width ty \<and> it_be (iob_types ! ty) = sp_iob_big_endian ty \<and>
    it_flt (iob_types ! ty) = (ty \<ge> SP_IOB_TY_f32) \<and>
    (\<not> it_flt (iob_types ! ty) \<longrightarrow> it_sign (iob_types ! ty) = (ty AND 1 \<noteq> 0))"
    by (simp add: iob_types_def sp_iob_width_def sp_iob_big_endian_def iob_ty_defs)
  then show ?thesis using less_18 [of ty] assms unfolding SP_IOB_TY_COUNT_def by blast
qed

lemma sp_iob_width_bounds: "0 < sp_iob_width ty" "sp_iob_width ty \<le> 8"
  by (simp_all add: sp_iob_width_def)

lemma sp_iob_width_cases: "sp_iob_width ty \<in> {1, 2, 4, 8}"
  by (simp add: sp_iob_width_def)

lemma sp_iob_fits_iff:
  assumes "0 \<le> len" "in_i64 len" "in_i64 off"
  shows "sp_iob_fits len off ty \<longleftrightarrow> 0 \<le> off \<and> off + int (sp_iob_width ty) \<le> len"
proof (cases "0 \<le> off")
  case True
  then have "wrap_u64 off = off" "wrap_u64 len = len" using assms by (auto simp: machine_int)
  then show ?thesis using True assms sp_iob_width_bounds [of ty]
    by (auto simp: sp_iob_fits_def machine_int)
next
  case False
  then have "wrap_u64 off = off + 2 ^ 64"
    using assms(3) mod_neg_add [of off "2 ^ 64"] by (simp add: machine_int)
  moreover have "wrap_u64 len = len" using assms by (auto simp: machine_int)
  ultimately show ?thesis using False assms by (auto simp: sp_iob_fits_def machine_int)
qed

text \<open>Sign extension of the low bytes of a value.\<close>

lemma sign_extend_take_bit:
  assumes "w \<in> {1, 2, 4, 8}"
  shows "sign_extend w (take_bit (8 * w) v) = signed_take_bit (8 * w - 1) (sint v)"
proof -
  have 1: "1 \<le> 8 * w" "8 * w \<le> 64" using assms by auto
  have "signed_drop_bit (64 - 8 * w) (push_bit (64 - 8 * w) (take_bit (8 * w) v)) = signed_take_bit (8 * w - 1) v"
  proof (rule bit_word_eqI)
    fix n assume "n < LENGTH(64)"
    then show "bit (signed_drop_bit (64 - 8 * w) (push_bit (64 - 8 * w) (take_bit (8 * w) v))) n \<longleftrightarrow>
        bit (signed_take_bit (8 * w - 1) v) n"
      using 1 by (cases "n = 8 * w - 1")
        (auto simp: bit_signed_drop_bit_iff bit_push_bit_iff bit_take_bit_iff bit_signed_take_bit_iff min_def)
  qed
  then show ?thesis using 1
    by (simp add: sign_extend_def Let_def) (simp add: sint_signed_take_bit)
qed

end
