(* ===== verification/Ieee.thy ===== *)
theory Ieee
  imports Bigint
begin

unbundle bit_operations_syntax

text \<open>
  The floating-point conversions the runtime uses, on bit patterns. A \<^verbatim>\<open>double\<close> is its 64 bits and a
  \<^verbatim>\<open>float\<close> its 32 bits; a conversion or an arithmetic operation is the exact rational result rounded to
  nearest, ties to even, which is what C promises for IEEE 754 arithmetic. The one routine of the
  runtime here is the conversion of a big integer (\<^verbatim>\<open>sp_bigint_to_double\<close>, \<^verbatim>\<open>lib/sp_bigint.c\<close>).
\<close>

section \<open>Rounding\<close>

fun ilog2 :: "nat \<Rightarrow> nat" where
  "ilog2 n = (if n \<le> 1 then 0 else Suc (ilog2 (n div 2)))"

declare ilog2.simps [simp del]

definition round_half_even :: "nat \<Rightarrow> nat \<Rightarrow> nat" where
  "round_half_even n d =
     (let q = n div d; r = n mod d in if 2 * r > d \<or> (2 * r = d \<and> odd q) then Suc q else q)"

text \<open>The exponent of a positive ratio: \<open>2 ^ k \<le> n / d < 2 ^ (k + 1)\<close>.\<close>

definition ratio_exp :: "nat \<Rightarrow> nat \<Rightarrow> int" where
  "ratio_exp n d =
     (let k = int (ilog2 n) - int (ilog2 d)
      in if n * 2 ^ nat (- k) < d * 2 ^ nat k then k - 1 else k)"

text \<open>
  The magnitude bits of \<open>n / d\<close> in the format with \<open>p\<close> bits of significand and smallest exponent
  \<open>emin\<close>; \<open>infb\<close> are the bits of infinity.
\<close>

definition fl_round :: "nat \<Rightarrow> int \<Rightarrow> nat \<Rightarrow> nat \<Rightarrow> nat \<Rightarrow> nat" where
  "fl_round p emin infb n d =
     (if n = 0 then 0
      else let q = max emin (ratio_exp n d - int (p - 1));
               r = round_half_even (n * 2 ^ nat (- q)) (d * 2 ^ nat q);
               bits = nat (q - emin) * 2 ^ (p - 1) + r
           in if bits \<ge> infb then infb else bits)"

definition DBL_INF :: nat where
  "DBL_INF = 2047 * 2 ^ 52"

definition FLT_INF :: nat where
  "FLT_INF = 255 * 2 ^ 23"

definition dbl_round :: "bool \<Rightarrow> nat \<Rightarrow> nat \<Rightarrow> 64 word" where
  "dbl_round neg n d = of_nat ((if neg then 2 ^ 63 else 0) + fl_round 53 (- 1074) DBL_INF n d)"

definition flt_round :: "bool \<Rightarrow> nat \<Rightarrow> nat \<Rightarrow> 32 word" where
  "flt_round neg n d = of_nat ((if neg then 2 ^ 31 else 0) + fl_round 24 (- 149) FLT_INF n d)"

section \<open>Reading a double\<close>

definition dbl_neg :: "64 word \<Rightarrow> bool" where
  "dbl_neg f \<longleftrightarrow> unat f \<ge> 2 ^ 63"

definition dbl_mag :: "64 word \<Rightarrow> nat" where
  "dbl_mag f = unat f mod 2 ^ 63"

definition is_nan :: "64 word \<Rightarrow> bool" where
  "is_nan f \<longleftrightarrow> dbl_mag f > DBL_INF"

definition is_inf :: "64 word \<Rightarrow> bool" where
  "is_inf f \<longleftrightarrow> dbl_mag f = DBL_INF"

text \<open>A finite magnitude is the significand times a power of two.\<close>

definition dbl_sig :: "64 word \<Rightarrow> nat" where
  "dbl_sig f = (let e = dbl_mag f div 2 ^ 52; m = dbl_mag f mod 2 ^ 52 in if e = 0 then m else 2 ^ 52 + m)"

definition dbl_exp :: "64 word \<Rightarrow> int" where
  "dbl_exp f = int (max 1 (dbl_mag f div 2 ^ 52)) - 1075"

text \<open>The magnitude as a ratio.\<close>

definition dbl_num :: "64 word \<Rightarrow> nat" where
  "dbl_num f = dbl_sig f * 2 ^ nat (dbl_exp f)"

definition dbl_den :: "64 word \<Rightarrow> nat" where
  "dbl_den f = (if dbl_mag f = 0 then 1 else 2 ^ nat (- dbl_exp f))"

section \<open>Conversions\<close>

text \<open>\<^verbatim>\<open>(double)i\<close> of an integer, \<^verbatim>\<open>trunc\<close> followed by the conversion to an integer.\<close>

definition dbl_of_int :: "int \<Rightarrow> 64 word" where
  "dbl_of_int i = dbl_round (i < 0) (nat \<bar>i\<bar>) 1"

definition dbl_trunc :: "64 word \<Rightarrow> int" where
  "dbl_trunc f = (if dbl_neg f then - 1 else 1) * int (dbl_num f div dbl_den f)"

text \<open>\<^verbatim>\<open>(float)f\<close> of a double: a NaN keeps the high bits of its payload, made quiet.\<close>

definition flt_of_dbl :: "64 word \<Rightarrow> 32 word" where
  "flt_of_dbl f =
     (if is_nan f then of_nat ((if dbl_neg f then 2 ^ 31 else 0) + FLT_INF + 2 ^ 22 + dbl_mag f mod 2 ^ 51 div 2 ^ 29)
      else if is_inf f then of_nat ((if dbl_neg f then 2 ^ 31 else 0) + FLT_INF)
      else flt_round (dbl_neg f) (dbl_num f) (dbl_den f))"

text \<open>The widening of a float, which is exact.\<close>

definition dbl_of_flt :: "32 word \<Rightarrow> 64 word" where
  "dbl_of_flt g =
     (let neg = unat g \<ge> 2 ^ 31; s = (if neg then 2 ^ 63 else 0); mag = unat g mod 2 ^ 31;
          e = mag div 2 ^ 23; m = mag mod 2 ^ 23
      in if mag > FLT_INF then of_nat (s + DBL_INF + 2 ^ 51 + m mod 2 ^ 22 * 2 ^ 29)
         else if mag = FLT_INF then of_nat (s + DBL_INF)
         else let sig = (if e = 0 then m else 2 ^ 23 + m); x = int (max 1 e) - 150
              in dbl_round neg (sig * 2 ^ nat x) (2 ^ nat (- x)))"

section \<open>Arithmetic\<close>

definition dbl_nan :: "64 word" where
  "dbl_nan = of_nat (DBL_INF + 2 ^ 51)"

text \<open>The quotient; a NaN, \<open>0 / 0\<close> and \<open>inf / inf\<close> give a NaN.\<close>

definition dbl_div :: "64 word \<Rightarrow> 64 word \<Rightarrow> 64 word" where
  "dbl_div x y =
     (let neg = (dbl_neg x \<noteq> dbl_neg y); s = (if neg then 2 ^ 63 else 0)
      in if is_nan x \<or> is_nan y \<or> (is_inf x \<and> is_inf y) \<or> (dbl_mag x = 0 \<and> dbl_mag y = 0) then dbl_nan
         else if is_inf x \<or> dbl_mag y = 0 then of_nat (s + DBL_INF)
         else if is_inf y then of_nat s
         else dbl_round neg (dbl_num x * dbl_den y) (dbl_den x * dbl_num y))"

text \<open>
  One step of the Horner loop, \<^verbatim>\<open>d * (double)DIG_BASE + (double)limb\<close>, for a finite \<open>d\<close> that is not
  negative: the product and the sum are each rounded.
\<close>

definition horner_step :: "64 word \<Rightarrow> nat \<Rightarrow> 64 word" where
  "horner_step d l =
     (let p = dbl_round False (dbl_num d * DIG_BASE) (dbl_den d)
      in if is_inf p then p else dbl_round False (dbl_num p + l * dbl_den p) (dbl_den p))"

text \<open>\<^verbatim>\<open>sp_bigint_to_double\<close>: the limbs from the most significant one, stopping at infinity.\<close>

fun to_double_loop :: "64 word \<Rightarrow> nat list \<Rightarrow> 64 word" where
  "to_double_loop d [] = d"
| "to_double_loop d (l # ls) = (let d = horner_step d l in if is_inf d then d else to_double_loop d ls)"

definition dbl_minus :: "64 word \<Rightarrow> 64 word" where
  "dbl_minus d = of_nat (2 ^ 63) XOR d"

definition sp_bigint_to_double :: "mpz option \<Rightarrow> 64 word" where
  "sp_bigint_to_double b =
     (case b of None \<Rightarrow> 0
      | Some z \<Rightarrow> (let d = to_double_loop 0 (rev (mp z)) in if msn z < 0 then dbl_minus d else d))"

section \<open>The conversion of a big integer rounds twice\<close>

text \<open>
  The conversion to a float rounds at every limb, so it is not the nearest double for
  every number: for 2^95 + 2^42 + 1 it answers 2^95, where the next double, 2^95 + 2^43, is
  nearer.
\<close>
theorem bigint_to_double_not_nearest:
  "mpz_canon \<lparr>mp = [1, 1024, 2147483648], mnull = False, msn = 1\<rparr> \<and>
   sp_bigint_to_double (Some \<lparr>mp = [1, 1024, 2147483648], mnull = False, msn = 1\<rparr>) = 0x45E0000000000000 \<and>
   dbl_round False (nat (mpz_val \<lparr>mp = [1, 1024, 2147483648], mnull = False, msn = 1\<rparr>)) 1 = 0x45E0000000000001"
proof (intro conjI)
  show "mpz_canon \<lparr>mp = [1, 1024, 2147483648], mnull = False, msn = 1\<rparr>"
    by (simp add: mpz_canon_def mpz_ok_def DIG_BASE_def)
  have r: "dbl_num (0x45E0000000000000) = 2 ^ 95" "dbl_den (0x45E0000000000000) = 1"
    "dbl_num (0x43E0000000000000) = 2 ^ 63" "dbl_den (0x43E0000000000000) = 1"
    "dbl_num (0x41E0000000000000) = 2 ^ 31 * 2 ^ 21" "dbl_den (0x41E0000000000000) = 2 ^ 21"
    "dbl_num 0 = 0" "dbl_den 0 = 1"
    by (simp_all add: dbl_num_def dbl_den_def dbl_sig_def dbl_exp_def dbl_mag_def)
  have i: "\<not> is_inf (0x45E0000000000000)" "\<not> is_inf (0x43E0000000000000)" "\<not> is_inf (0x41E0000000000000)" "\<not> is_inf 0"
    by (simp_all add: is_inf_def DBL_INF_def dbl_mag_def)
  note d = dbl_round_def fl_round_def DBL_INF_def ratio_exp_def ilog2.simps round_half_even_def Let_def
  have "horner_step 0 2147483648 = 0x41E0000000000000"
    unfolding horner_step_def r by (simp add: d i r)
  moreover have "horner_step 0x41E0000000000000 1024 = 0x43E0000000000000"
    unfolding horner_step_def r by (simp add: d DIG_BASE_def i r)
  moreover have "horner_step 0x43E0000000000000 1 = 0x45E0000000000000"
    unfolding horner_step_def r by (simp add: d DIG_BASE_def i r)
  ultimately show "sp_bigint_to_double (Some \<lparr>mp = [1, 1024, 2147483648], mnull = False, msn = 1\<rparr>) = 0x45E0000000000000"
    by (simp add: sp_bigint_to_double_def Let_def i)
  show "dbl_round False (nat (mpz_val \<lparr>mp = [1, 1024, 2147483648], mnull = False, msn = 1\<rparr>)) 1 = 0x45E0000000000001"
    by (simp add: mpz_val_def DIG_BASE_def dbl_round_def fl_round_def DBL_INF_def ratio_exp_def ilog2.simps round_half_even_def Let_def)
qed

end
