(* ===== verification/IOBuffer.thy ===== *)
theory IOBuffer
  imports IobMem Ieee
begin

unbundle bit_operations_syntax

text \<open>
  IO::Buffer (\<^verbatim>\<open>lib/sp_iobuffer.c\<close>, and the inline accessors of \<^verbatim>\<open>lib/sp_iobuffer.h\<close>): the objects,
  and every operation on them but the transfers from and to files.

  The heap is the list of the buffer objects, and an object is its index. A buffer that owns an
  allocation has its bytes in \<open>b_data\<close>; a slice has \<open>b_source\<close>, and reaches its bytes through the
  source each time. A pointer is null or an owner with an offset, and reading or writing through one
  outside the owner's bytes is the outcome \<open>Undef\<close>. An operation answers its result with the heap it
  leaves, or the exception it raises: none of these raises after it changed a reachable object.

  The sizes and offsets are 64-bit: a difference that the code forms of two numbers that are not
  negative is written as it is, any other is wrapped. The page size and the byte order of the host
  are parameters. A failed allocation ends the program (\<^verbatim>\<open>sp_oom_die\<close>) and is not an outcome here.
\<close>

section \<open>Objects and values\<close>

record IOBuffer =
  b_cls :: int
  b_data :: "byte list option"
  b_source :: "nat option"
  b_off :: int
  b_size :: int
  b_flags :: "32 word"
  b_map :: bool

type_synonym heap = "IOBuffer list"

type_synonym ptr = "(nat \<times> int) option"

text \<open>What a boxed value of the object tag points to, as far as this file looks.\<close>

datatype obj = ONull | OBuf nat | ORational int int | OOther

datatype RbVal =
  VNil | VBool bool | VInt int | VFlt "64 word" | VBig mpz | VStr | VSym "string option" | VClass
  | VObj int obj | VOther

definition SP_BUILTIN_RATIONAL :: int where
  "SP_BUILTIN_RATIONAL = - 27"

definition SP_BUILTIN_INT_INT_HASH :: int where
  "SP_BUILTIN_INT_INT_HASH = - 34"

definition builtin_name :: "int \<Rightarrow> string" where
  "builtin_name c =
     (if c \<in> {- 1, - 2, - 3, - 6, - 7, - 12} then ''Array''
      else if c \<in> {- 13, - 14, - 15, - 16, - 17, - 18, - 19, - 20} then ''Hash''
      else if c = - 10 then ''Range'' else if c = - 11 then ''Time''
      else if c = - 9 then ''Proc'' else if c = - 23 then ''IO'' else ''Object'')"

definition iob_val_name :: "RbVal \<Rightarrow> string" where
  "iob_val_name v =
     (case v of VNil \<Rightarrow> ''nil'' | VBool b \<Rightarrow> (if b then ''true'' else ''false'') | VInt _ \<Rightarrow> ''Integer''
      | VBig _ \<Rightarrow> ''Integer'' | VFlt _ \<Rightarrow> ''Float'' | VStr \<Rightarrow> ''String'' | VSym _ \<Rightarrow> ''Symbol''
      | VClass \<Rightarrow> ''Class'' | VObj c _ \<Rightarrow> builtin_name c | VOther \<Rightarrow> ''Object'')"

section \<open>Memory\<close>

definition ptr_add :: "ptr \<Rightarrow> int \<Rightarrow> ptr" where
  "ptr_add p i = map_option (\<lambda>(ow, j). (ow, j + i)) p"

definition mem_read :: "heap \<Rightarrow> ptr \<Rightarrow> nat \<Rightarrow> byte list outcome" where
  "mem_read h p n =
     (case p of None \<Rightarrow> Undef
      | Some (ow, i) \<Rightarrow>
          (case b_data (h ! ow) of None \<Rightarrow> Undef
           | Some d \<Rightarrow> (if 0 \<le> i \<and> i + int n \<le> int (length d) then Done (take n (drop (nat i) d)) else Undef)))"

definition put_bytes :: "byte list \<Rightarrow> nat \<Rightarrow> byte list \<Rightarrow> byte list" where
  "put_bytes d i bs = take i d @ bs @ drop (i + length bs) d"

definition mem_write :: "heap \<Rightarrow> ptr \<Rightarrow> byte list \<Rightarrow> heap outcome" where
  "mem_write h p bs =
     (case p of None \<Rightarrow> Undef
      | Some (ow, i) \<Rightarrow>
          (case b_data (h ! ow) of None \<Rightarrow> Undef
           | Some d \<Rightarrow> (if 0 \<le> i \<and> i + int (length bs) \<le> int (length d)
               then Done (h[ow := (h ! ow)\<lparr>b_data := Some (put_bytes d (nat i) bs)\<rparr>]) else Undef)))"

definition iob_arg :: "bool \<Rightarrow> string \<Rightarrow> 'a outcome \<Rightarrow> 'a outcome" where
  "iob_arg b msg k = ocheck b ''ArgumentError'' msg k"

section \<open>Base pointer and bounds\<close>

definition data_ptr :: "heap \<Rightarrow> nat \<Rightarrow> ptr" where
  "data_ptr h b = (case b_data (h ! b) of None \<Rightarrow> None | Some _ \<Rightarrow> Some (b, 0))"

definition iob_base :: "heap \<Rightarrow> nat \<Rightarrow> ptr" where
  "iob_base h b =
     (case b_source (h ! b) of None \<Rightarrow> data_ptr h b | Some s \<Rightarrow> ptr_add (data_ptr h s) (b_off (h ! b)))"

definition iob_slice_invalid :: "heap \<Rightarrow> nat \<Rightarrow> bool" where
  "iob_slice_invalid h b =
     (case b_source (h ! b) of None \<Rightarrow> False
      | Some s \<Rightarrow> b_data (h ! s) = None \<or> b_off (h ! b) > b_size (h ! s) - b_size (h ! b))"

definition iob_ptr :: "heap \<Rightarrow> nat \<Rightarrow> ptr outcome" where
  "iob_ptr h b =
     ocheck (iob_slice_invalid h b) ''IO::Buffer::InvalidatedError'' ''Buffer has been invalidated!''
       (Done (iob_base h b))"

definition iob_readonly :: "heap \<Rightarrow> nat \<Rightarrow> 'a outcome \<Rightarrow> 'a outcome" where
  "iob_readonly h b k =
     ocheck (b_flags (h ! b) AND SP_IOB_READONLY \<noteq> 0) ''IO::Buffer::AccessError'' ''Buffer is not writable!'' k"

definition iob_writable_slice :: "heap \<Rightarrow> nat \<Rightarrow> 'a outcome \<Rightarrow> 'a outcome" where
  "iob_writable_slice h b k =
     ocheck (iob_slice_invalid h b) ''IO::Buffer::InvalidatedError'' ''Buffer is invalid!'' k"

definition iob_writable :: "heap \<Rightarrow> nat \<Rightarrow> 'a outcome \<Rightarrow> 'a outcome" where
  "iob_writable h b k = iob_readonly h b (iob_writable_slice h b k)"

definition iob_range :: "heap \<Rightarrow> nat \<Rightarrow> int \<Rightarrow> int \<Rightarrow> 'a outcome \<Rightarrow> 'a outcome" where
  "iob_range h b off len k =
     iob_arg (off < 0) ''Offset can't be negative!''
       (iob_arg (len < 0) ''Length can't be negative!''
         (iob_arg (off > b_size (h ! b) \<or> len > b_size (h ! b) - off)
           ''Specified offset+length is bigger than the buffer size!'' k))"

definition beyond_msg :: "int \<Rightarrow> int \<Rightarrow> string" where
  "beyond_msg off n =
     ''Type extends beyond end of buffer! (offset='' @ dec_int off @ '' > size='' @ dec_int n @ '')''"

definition iob_value_ptr :: "heap \<Rightarrow> nat \<Rightarrow> int \<Rightarrow> nat \<Rightarrow> ptr outcome" where
  "iob_value_ptr h b off width =
     iob_arg (off < 0) ''Offset can't be negative!''
       (iob_arg (b_size (h ! b) < int width \<or> off > b_size (h ! b) - int width) (beyond_msg off (b_size (h ! b)))
         (obind (iob_ptr h b) (\<lambda>p. Done (ptr_add p off))))"

definition iob_value_oob :: "heap \<Rightarrow> nat \<Rightarrow> int \<Rightarrow> nat \<Rightarrow> bool" where
  "iob_value_oob h b off width \<longleftrightarrow>
     off < 0 \<or> b_size (h ! b) < int width \<or> off > b_size (h ! b) - int width"

definition iob_value_range_error :: "heap \<Rightarrow> nat \<Rightarrow> int \<Rightarrow> 'a outcome" where
  "iob_value_range_error h b off =
     iob_arg (off < 0) ''Offset can't be negative!'' (iob_arg True (beyond_msg off (b_size (h ! b))) Undef)"

definition iob_value_wptr :: "heap \<Rightarrow> nat \<Rightarrow> int \<Rightarrow> nat \<Rightarrow> ptr outcome" where
  "iob_value_wptr h b off width =
     (if iob_value_oob h b off width then iob_writable_slice h b (iob_value_range_error h b off)
      else iob_writable_slice h b (Done (ptr_add (iob_base h b) off)))"

section \<open>Conversion of operands\<close>

definition iob_float_to_i64 :: "64 word \<Rightarrow> int outcome" where
  "iob_float_to_i64 f =
     (if is_nan f then oraise ''FloatDomainError'' ''NaN''
      else if is_inf f then oraise ''FloatDomainError'' (if dbl_neg f then ''-Infinity'' else ''Infinity'')
      else let t = dbl_trunc f
           in ocheck (t < - (2 ^ 63) \<or> t \<ge> 2 ^ 63) ''RangeError'' ''float out of range of integer'' (Done t))"

definition cname :: "IobType \<Rightarrow> string" where
  "cname t =
     (if it_width t = 8 then (if it_sign t then ''long long'' else ''unsigned long long'')
      else if it_width t = 4 then (if it_sign t then ''int'' else ''unsigned int'')
      else (if it_sign t then ''long'' else ''unsigned long''))"

definition quoted :: "string \<Rightarrow> string" where
  "quoted s = CHR 0x27 # s @ [CHR 0x27]"

text \<open>A Bignum as the store word. \<open>mag\<close> is the magnitude where it fits 64 bits.\<close>

definition big_operand :: "IobType \<Rightarrow> nat option \<Rightarrow> bool \<Rightarrow> 64 word outcome" where
  "big_operand t mag neg =
     (let big = oraise ''RangeError'' (''bignum too big to convert into '' @ quoted (cname t));
          small = oraise ''RangeError'' (''bignum too small to convert into '' @ quoted (cname t));
          wrapping = (\<lambda>low. if \<not> neg then (case mag of None \<Rightarrow> big | Some m \<Rightarrow> Done (of_nat m))
            else (case mag of None \<Rightarrow> low | Some m \<Rightarrow> (if m > 2 ^ 63 then low else Done (- of_nat m))));
          out_of_range = (if neg then small else big)
      in if it_width t = 8 \<and> \<not> it_sign t
         then wrapping (oraise ''RangeError'' (''bignum out of range of '' @ cname t))
         else if it_width t \<le> 2 then wrapping small
         else case mag of None \<Rightarrow> out_of_range
           | Some m \<Rightarrow>
               (if it_width t = 8 \<and> it_sign t \<and> \<not> neg \<and> m \<le> 2 ^ 63 - 1 then Done (of_nat m)
                else if it_width t = 8 \<and> it_sign t \<and> neg \<and> m \<le> 2 ^ 63 then Done (- of_nat m)
                else if it_width t = 4 \<and> \<not> neg \<and> m \<le> (if it_sign t then 2 ^ 31 - 1 else 2 ^ 32 - 1) then Done (of_nat m)
                else if it_width t = 4 \<and> neg \<and> m \<le> 2 ^ 31 then Done (- of_nat m)
                else out_of_range))"

text \<open>The test of a 32-bit store, which the 64-bit value of an Integer or a Float takes.\<close>

definition word_operand :: "IobType \<Rightarrow> int \<Rightarrow> 64 word outcome" where
  "word_operand t iv =
     (if it_width t = 4
      then ocheck (iv < - (2 ^ 31)) ''RangeError''
             (''integer '' @ dec_int iv @ '' too small to convert to '' @ quoted (cname t))
             (ocheck (iv > (if it_sign t then 2 ^ 31 - 1 else 2 ^ 32 - 1)) ''RangeError''
               (''integer '' @ dec_int iv @ '' too big to convert to '' @ quoted (cname t)) (Done (of_int iv)))
      else Done (of_int iv))"

definition iob_int_operand :: "nat \<Rightarrow> RbVal \<Rightarrow> 64 word outcome" where
  "iob_int_operand ty val =
     (let t = iob_types ! ty in
      case val of VInt i \<Rightarrow> word_operand t i
      | VFlt f \<Rightarrow> obind (iob_float_to_i64 f) (word_operand t)
      | VBig bg \<Rightarrow> big_operand t (sp_bigint_mag_u64 (Some bg)) (sp_bigint_sign bg < 0)
      | _ \<Rightarrow> oraise ''TypeError'' (''no implicit conversion of '' @ iob_val_name val @ '' into Integer''))"

definition iob_float_operand :: "RbVal \<Rightarrow> 64 word outcome" where
  "iob_float_operand val =
     (let err = oraise ''TypeError'' (''can't convert '' @ iob_val_name val @ '' into Float'') in
      case val of VFlt f \<Rightarrow> Done f | VInt i \<Rightarrow> Done (dbl_of_int i) | VBig bg \<Rightarrow> Done (sp_bigint_to_double (Some bg))
      | VObj c p \<Rightarrow>
          (if c = SP_BUILTIN_RATIONAL \<and> p \<noteq> ONull
           then (case p of ORational n d \<Rightarrow> Done (dbl_div (dbl_of_int n) (dbl_of_int d)) | _ \<Rightarrow> Undef)
           else err)
      | _ \<Rightarrow> err)"

section \<open>Loads and stores\<close>

definition iob_load :: "bool \<Rightarrow> heap \<Rightarrow> ptr \<Rightarrow> IobType \<Rightarrow> 64 word outcome" where
  "iob_load host_be h p t = obind (mem_read h p (it_width t)) (\<lambda>bs. Done (sp_iob_load host_be bs (it_width t) (it_be t)))"

definition raw_float :: "nat \<Rightarrow> 64 word \<Rightarrow> 64 word" where
  "raw_float w raw = (if w = 4 then dbl_of_flt (ucast raw) else raw)"

definition float_raw :: "nat \<Rightarrow> 64 word \<Rightarrow> 64 word" where
  "float_raw w f = (if w = 4 then ucast (flt_of_dbl f) else f)"

definition iob_get_core :: "bool \<Rightarrow> heap \<Rightarrow> nat \<Rightarrow> nat \<Rightarrow> int \<Rightarrow> RbVal outcome" where
  "iob_get_core host_be h b ty off =
     (let t = iob_types ! ty in
      obind (iob_value_ptr h b off (it_width t)) (\<lambda>p.
      obind (iob_load host_be h p t) (\<lambda>raw. Done
        (if it_flt t then VFlt (raw_float (it_width t) raw)
         else if it_sign t
         then (let sv = sign_extend (it_width t) raw
               in if sv < INT64_MIN \<or> sv > INT64_MAX then VBig (sp_bigint_new_int sv) else VInt sv)
         else if uint raw > INT64_MAX then VBig (sp_bigint_new_u64 (unat raw)) else VInt (uint raw)))))"

definition iob_set_core :: "bool \<Rightarrow> heap \<Rightarrow> nat \<Rightarrow> nat \<Rightarrow> int \<Rightarrow> RbVal \<Rightarrow> (int \<times> heap) outcome" where
  "iob_set_core host_be h b ty off val =
     (let t = iob_types ! ty in
      iob_readonly h b
        (obind (iob_value_wptr h b off (it_width t)) (\<lambda>p.
         obind (if it_flt t then obind (iob_float_operand val) (\<lambda>f. Done (float_raw (it_width t) f))
                else iob_int_operand ty val) (\<lambda>raw.
         obind (mem_write h p (sp_iob_store host_be (it_width t) (it_be t) raw)) (\<lambda>h'.
         Done (off + int (it_width t), h'))))))"

section \<open>Constructors\<close>

definition iob_alloc_obj :: "int \<Rightarrow> IOBuffer" where
  "iob_alloc_obj c =
     \<lparr>b_cls = c, b_data = None, b_source = None, b_off = 0, b_size = 0, b_flags = 0, b_map = False\<rparr>"

definition sp_IOBuffer_page_size :: "int \<Rightarrow> int" where
  "sp_IOBuffer_page_size ps = (if ps > 0 then ps else 4096)"

definition iob_allocate :: "int \<Rightarrow> IOBuffer \<Rightarrow> int \<Rightarrow> 32 word option \<Rightarrow> IOBuffer outcome" where
  "iob_allocate ps b nsize flags =
     iob_arg (nsize < 0) ''Size can't be negative!''
       (let fill = (\<lambda>f. Done (b\<lparr>b_flags := f, b_size := nsize,
              b_data := (if nsize > 0 then Some (replicate (nat nsize) 0) else b_data b)\<rparr>))
        in case flags of
          None \<Rightarrow> fill (if nsize = 0 then 0 else if nsize \<ge> sp_IOBuffer_page_size ps then SP_IOB_MAPPED else SP_IOB_INTERNAL)
        | Some f \<Rightarrow> ocheck (nsize > 0 \<and> f AND (SP_IOB_INTERNAL OR SP_IOB_MAPPED) = 0)
            ''IO::Buffer::AllocationError'' ''Could not allocate buffer!'' (fill f))"

text \<open>A new object goes to the end of the heap.\<close>

definition new_obj :: "heap \<Rightarrow> IOBuffer outcome \<Rightarrow> (nat \<times> heap) outcome" where
  "new_obj h m = obind m (\<lambda>x. Done (length h, h @ [x]))"

definition sp_IOBuffer_new :: "int \<Rightarrow> heap \<Rightarrow> int \<Rightarrow> (nat \<times> heap) outcome" where
  "sp_IOBuffer_new ps h c = new_obj h (iob_allocate ps (iob_alloc_obj c) 65536 None)"

definition sp_IOBuffer_new_i :: "int \<Rightarrow> heap \<Rightarrow> int \<Rightarrow> int \<Rightarrow> (nat \<times> heap) outcome" where
  "sp_IOBuffer_new_i ps h c nsize = new_obj h (iob_allocate ps (iob_alloc_obj c) nsize None)"

definition sp_IOBuffer_new_if :: "int \<Rightarrow> heap \<Rightarrow> int \<Rightarrow> int \<Rightarrow> int \<Rightarrow> (nat \<times> heap) outcome" where
  "sp_IOBuffer_new_if ps h c nsize flags = new_obj h (iob_allocate ps (iob_alloc_obj c) nsize (Some (of_int flags)))"

definition iob_release :: "IOBuffer \<Rightarrow> IOBuffer" where
  "iob_release x = x\<lparr>b_data := None, b_map := False\<rparr>"

text \<open>The finalizer releases the allocation of an object nothing refers to any more.\<close>

definition sp_IOBuffer_fin :: "heap \<Rightarrow> nat \<Rightarrow> heap" where
  "sp_IOBuffer_fin h b = h[b := iob_release (h ! b)]"

definition sp_IOBuffer_become_for :: "heap \<Rightarrow> nat \<Rightarrow> byte list \<Rightarrow> (nat \<times> heap) outcome" where
  "sp_IOBuffer_become_for h b s =
     Done (b, h[b := (iob_release (h ! b))\<lparr>b_data := Some s, b_source := None, b_off := 0, b_size := int (length s),
       b_flags := SP_IOB_EXTERNAL OR SP_IOB_READONLY OR SP_IOB_SLICE\<rparr>])"

section \<open>Accessors\<close>

definition type_name :: "RbVal \<Rightarrow> string option" where
  "type_name v = (case v of VSym n \<Rightarrow> n | _ \<Rightarrow> None)"

definition iob_decode_type :: "RbVal \<Rightarrow> nat outcome" where
  "iob_decode_type ty =
     (let t = sp_IOBuffer_type_of (type_name ty) in iob_arg (t < 0) ''Invalid type name!'' (Done (nat t)))"

definition sp_IOBuffer_get_value :: "bool \<Rightarrow> heap \<Rightarrow> nat \<Rightarrow> RbVal \<Rightarrow> int \<Rightarrow> RbVal outcome" where
  "sp_IOBuffer_get_value host_be h b ty off = obind (iob_decode_type ty) (\<lambda>t. iob_get_core host_be h b t off)"

definition sp_IOBuffer_set_value ::
    "bool \<Rightarrow> heap \<Rightarrow> nat \<Rightarrow> RbVal \<Rightarrow> int \<Rightarrow> RbVal \<Rightarrow> (int \<times> heap) outcome" where
  "sp_IOBuffer_set_value host_be h b ty off val =
     (let t = sp_IOBuffer_type_of (type_name ty) in
      if t < 0 then iob_writable h b (iob_arg True ''Invalid type name!'' Undef)
      else iob_set_core host_be h b (nat t) off val)"

definition sp_IOBuffer_get_i :: "bool \<Rightarrow> heap \<Rightarrow> nat \<Rightarrow> nat \<Rightarrow> int \<Rightarrow> int outcome" where
  "sp_IOBuffer_get_i host_be h b ty off =
     (let t = iob_types ! ty in
      obind (iob_value_ptr h b off (it_width t)) (\<lambda>p.
      obind (iob_load host_be h p t) (\<lambda>raw. Done (if it_sign t then sign_extend (it_width t) raw else sint raw))))"

definition sp_IOBuffer_get_x :: "bool \<Rightarrow> heap \<Rightarrow> nat \<Rightarrow> nat \<Rightarrow> int \<Rightarrow> RbVal outcome" where
  "sp_IOBuffer_get_x host_be h b ty off = iob_get_core host_be h b ty off"

definition sp_IOBuffer_get_f :: "bool \<Rightarrow> heap \<Rightarrow> nat \<Rightarrow> nat \<Rightarrow> int \<Rightarrow> 64 word outcome" where
  "sp_IOBuffer_get_f host_be h b ty off =
     (let t = iob_types ! ty in
      obind (iob_value_ptr h b off (it_width t)) (\<lambda>p.
      obind (iob_load host_be h p t) (\<lambda>raw. Done (raw_float (it_width t) raw))))"

definition sp_IOBuffer_set_i :: "bool \<Rightarrow> heap \<Rightarrow> nat \<Rightarrow> nat \<Rightarrow> int \<Rightarrow> int \<Rightarrow> (int \<times> heap) outcome" where
  "sp_IOBuffer_set_i host_be h b ty off v = iob_set_core host_be h b ty off (VInt v)"

definition sp_IOBuffer_set_f :: "bool \<Rightarrow> heap \<Rightarrow> nat \<Rightarrow> nat \<Rightarrow> int \<Rightarrow> 64 word \<Rightarrow> (int \<times> heap) outcome" where
  "sp_IOBuffer_set_f host_be h b ty off v = iob_set_core host_be h b ty off (VFlt v)"

definition sp_IOBuffer_set_v :: "bool \<Rightarrow> heap \<Rightarrow> nat \<Rightarrow> nat \<Rightarrow> int \<Rightarrow> RbVal \<Rightarrow> (int \<times> heap) outcome" where
  "sp_IOBuffer_set_v host_be h b ty off v = iob_set_core host_be h b ty off v"

definition sp_IOBuffer_check_writable :: "heap \<Rightarrow> nat \<Rightarrow> nat outcome" where
  "sp_IOBuffer_check_writable h b = iob_writable h b (Done b)"

section \<open>The inline accessors\<close>

definition sp_iob_inline_ptr :: "heap \<Rightarrow> nat \<Rightarrow> int \<Rightarrow> nat \<Rightarrow> ptr" where
  "sp_iob_inline_ptr h b off width =
     (if b_data (h ! b) \<noteq> None \<and> wrap_u64 off < wrap_u64 (b_size (h ! b)) \<and>
         wrap_u64 (wrap_u64 (b_size (h ! b)) - wrap_u64 off) \<ge> int width
      then ptr_add (data_ptr h b) off else None)"

definition sp_iob_decode_f :: "bool \<Rightarrow> byte list \<Rightarrow> nat \<Rightarrow> 64 word" where
  "sp_iob_decode_f host_be p ty =
     (let w = sp_iob_width ty; raw = sp_iob_load host_be p w (sp_iob_big_endian ty) in raw_float w raw)"

definition sp_IOBuffer_load_i :: "bool \<Rightarrow> heap \<Rightarrow> nat \<Rightarrow> nat \<Rightarrow> int \<Rightarrow> int outcome" where
  "sp_IOBuffer_load_i host_be h b ty off =
     (let p = sp_iob_inline_ptr h b off (sp_iob_width ty) in
      if p = None then sp_IOBuffer_get_i host_be h b ty off
      else obind (mem_read h p (sp_iob_width ty)) (\<lambda>bs. Done (sp_iob_decode_i host_be bs ty)))"

definition sp_IOBuffer_load_f :: "bool \<Rightarrow> heap \<Rightarrow> nat \<Rightarrow> nat \<Rightarrow> int \<Rightarrow> 64 word outcome" where
  "sp_IOBuffer_load_f host_be h b ty off =
     (let p = sp_iob_inline_ptr h b off (sp_iob_width ty) in
      if p = None then sp_IOBuffer_get_f host_be h b ty off
      else obind (mem_read h p (sp_iob_width ty)) (\<lambda>bs. Done (sp_iob_decode_f host_be bs ty)))"

definition sp_iob_view :: "heap \<Rightarrow> nat option \<Rightarrow> ptr \<times> int" where
  "sp_iob_view h b =
     (case b of None \<Rightarrow> (None, 0)
      | Some b \<Rightarrow>
          (if b_data (h ! b) \<noteq> None then (data_ptr h b, b_size (h ! b))
           else case b_source (h ! b) of None \<Rightarrow> (None, 0)
             | Some s \<Rightarrow>
                 (if b_data (h ! s) \<noteq> None \<and> b_off (h ! b) \<le> b_size (h ! s) - b_size (h ! b)
                  then (ptr_add (data_ptr h s) (b_off (h ! b)), b_size (h ! b)) else (None, 0))))"

definition sp_iob_put :: "bool \<Rightarrow> heap \<Rightarrow> ptr \<Rightarrow> nat \<Rightarrow> int \<Rightarrow> 64 word \<Rightarrow> (int \<times> heap) outcome" where
  "sp_iob_put host_be h d ty off raw =
     obind (mem_write h (ptr_add d off) (sp_iob_store host_be (sp_iob_width ty) (sp_iob_big_endian ty) raw))
       (\<lambda>h'. Done (off + int (sp_iob_width ty), h'))"

definition sp_iob_put_i :: "bool \<Rightarrow> heap \<Rightarrow> ptr \<Rightarrow> int \<Rightarrow> nat \<Rightarrow> int \<Rightarrow> int \<Rightarrow> (int \<times> heap) outcome" where
  "sp_iob_put_i host_be h d wl ty off v =
     (if \<not> sp_iob_fits wl off ty \<or> \<not> sp_iob_holds ty v then Done (0, h)
      else sp_iob_put host_be h d ty off (of_int v))"

definition sp_iob_put_f :: "bool \<Rightarrow> heap \<Rightarrow> ptr \<Rightarrow> int \<Rightarrow> nat \<Rightarrow> int \<Rightarrow> 64 word \<Rightarrow> (int \<times> heap) outcome" where
  "sp_iob_put_f host_be h d wl ty off v =
     (if \<not> sp_iob_fits wl off ty then Done (0, h)
      else sp_iob_put host_be h d ty off (float_raw (sp_iob_width ty) v))"

definition sp_iob_view_wlen :: "heap \<Rightarrow> nat option \<Rightarrow> int \<Rightarrow> int" where
  "sp_iob_view_wlen h b len =
     (case b of None \<Rightarrow> 0 | Some b \<Rightarrow> if b_flags (h ! b) AND SP_IOB_READONLY = 0 then len else 0)"

definition wlen_owned :: "heap \<Rightarrow> nat \<Rightarrow> int" where
  "wlen_owned h b = (if b_data (h ! b) \<noteq> None then sp_iob_view_wlen h (Some b) (b_size (h ! b)) else 0)"

definition sp_IOBuffer_store_i :: "bool \<Rightarrow> heap \<Rightarrow> nat \<Rightarrow> nat \<Rightarrow> int \<Rightarrow> int \<Rightarrow> (int \<times> heap) outcome" where
  "sp_IOBuffer_store_i host_be h b ty off v =
     obind (sp_iob_put_i host_be h (data_ptr h b) (wlen_owned h b) ty off v) (\<lambda>(r, h').
       if r \<noteq> 0 then Done (r, h') else sp_IOBuffer_set_i host_be h' b ty off v)"

definition sp_IOBuffer_store_f :: "bool \<Rightarrow> heap \<Rightarrow> nat \<Rightarrow> nat \<Rightarrow> int \<Rightarrow> 64 word \<Rightarrow> (int \<times> heap) outcome" where
  "sp_IOBuffer_store_f host_be h b ty off v =
     obind (sp_iob_put_f host_be h (data_ptr h b) (wlen_owned h b) ty off v) (\<lambda>(r, h').
       if r \<noteq> 0 then Done (r, h') else sp_IOBuffer_set_f host_be h' b ty off v)"

section \<open>Strings\<close>

text \<open>A length that is not given is \<open>None\<close>.\<close>

definition iob_get_string :: "heap \<Rightarrow> nat \<Rightarrow> int \<Rightarrow> int option \<Rightarrow> byte list outcome" where
  "iob_get_string h b off len =
     iob_arg (off < 0) ''Offset can't be negative!''
       (iob_arg (len = None \<and> off > b_size (h ! b)) ''The given offset is bigger than the buffer size!''
         (let l = (case len of None \<Rightarrow> b_size (h ! b) - off | Some l \<Rightarrow> l) in
          iob_arg (l < 0) ''Length can't be negative!''
            (iob_arg (off > b_size (h ! b) \<or> l > b_size (h ! b) - off)
              ''Specified offset+length is bigger than the buffer size!''
              (if l > 0 then obind (iob_ptr h b) (\<lambda>p. mem_read h (ptr_add p off) (nat l)) else Done []))))"

definition sp_IOBuffer_get_string0 :: "heap \<Rightarrow> nat \<Rightarrow> byte list outcome" where
  "sp_IOBuffer_get_string0 h b = iob_get_string h b 0 None"

definition sp_IOBuffer_get_string1 :: "heap \<Rightarrow> nat \<Rightarrow> int \<Rightarrow> byte list outcome" where
  "sp_IOBuffer_get_string1 h b off = iob_get_string h b off None"

definition sp_IOBuffer_get_string2 :: "heap \<Rightarrow> nat \<Rightarrow> int \<Rightarrow> int \<Rightarrow> byte list outcome" where
  "sp_IOBuffer_get_string2 h b off len = iob_get_string h b off (Some len)"

definition iob_set_string ::
    "heap \<Rightarrow> nat \<Rightarrow> byte list \<Rightarrow> int \<Rightarrow> int option \<Rightarrow> int \<Rightarrow> (int \<times> heap) outcome" where
  "iob_set_string h b s off len soff =
     (let slen = int (length s) in
      iob_arg (off < 0) ''Offset can't be negative!''
        (iob_arg (soff < 0) ''Source offset can't be negative!''
          (iob_arg (soff > slen) ''The given source offset is bigger than the source itself!''
            (let l = (case len of None \<Rightarrow> slen - soff | Some l \<Rightarrow> l) in
             iob_arg (l < 0) ''Length can't be negative!''
               (iob_writable h b
                 (iob_arg (off > b_size (h ! b) \<or> l > b_size (h ! b) - off)
                   ''Specified offset+length is bigger than the buffer size!''
                   (iob_arg (l > slen - soff) ''The computed source range exceeds the size of the source buffer!''
                     (if l > 0
                      then obind (iob_ptr h b) (\<lambda>p.
                           obind (mem_write h (ptr_add p off) (take (nat l) (drop (nat soff) s))) (\<lambda>h'. Done (l, h')))
                      else Done (l, h)))))))))"

definition sp_IOBuffer_set_string1 :: "heap \<Rightarrow> nat \<Rightarrow> byte list \<Rightarrow> (int \<times> heap) outcome" where
  "sp_IOBuffer_set_string1 h b s = iob_set_string h b s 0 None 0"

definition sp_IOBuffer_set_string2 :: "heap \<Rightarrow> nat \<Rightarrow> byte list \<Rightarrow> int \<Rightarrow> (int \<times> heap) outcome" where
  "sp_IOBuffer_set_string2 h b s off = iob_set_string h b s off None 0"

definition sp_IOBuffer_set_string3 :: "heap \<Rightarrow> nat \<Rightarrow> byte list \<Rightarrow> int \<Rightarrow> int \<Rightarrow> (int \<times> heap) outcome" where
  "sp_IOBuffer_set_string3 h b s off len = iob_set_string h b s off (Some len) 0"

definition sp_IOBuffer_set_string4 ::
    "heap \<Rightarrow> nat \<Rightarrow> byte list \<Rightarrow> int \<Rightarrow> int \<Rightarrow> int \<Rightarrow> (int \<times> heap) outcome" where
  "sp_IOBuffer_set_string4 h b s off len soff = iob_set_string h b s off (Some len) soff"

section \<open>Whole-buffer operations\<close>

definition sp_IOBuffer_size :: "heap \<Rightarrow> nat \<Rightarrow> int" where
  "sp_IOBuffer_size h b = b_size (h ! b)"

text \<open>The new allocation of a slice: the bytes that are kept, and zeros.\<close>

definition detach_data :: "heap \<Rightarrow> ptr \<Rightarrow> int \<Rightarrow> int \<Rightarrow> byte list option outcome" where
  "detach_data h base old nsize =
     (if nsize > 0
      then let keep = (if old < nsize then old else nsize)
           in obind (if base \<noteq> None \<and> keep > 0 then mem_read h base (nat keep) else Done [])
                (\<lambda>bs. Done (Some (bs @ replicate (nat nsize - length bs) 0)))
      else Done None)"

definition grown :: "byte list option \<Rightarrow> int \<Rightarrow> byte list" where
  "grown d nsize = (let old = (case d of None \<Rightarrow> [] | Some d \<Rightarrow> d) in take (nat nsize) old @ replicate (nat nsize - length old) 0)"

definition sp_IOBuffer_resize :: "heap \<Rightarrow> nat \<Rightarrow> int \<Rightarrow> (nat \<times> heap) outcome" where
  "sp_IOBuffer_resize h b nsize =
     (let x = h ! b in
      ocheck (b_flags x AND SP_IOB_LOCKED \<noteq> 0) ''IO::Buffer::LockedError'' ''Cannot resize locked buffer!''
        (ocheck (b_flags x AND SP_IOB_EXTERNAL \<noteq> 0) ''IO::Buffer::AccessError'' ''Cannot resize external buffer!''
          (ocheck (b_map x) ''IO::Buffer::AccessError'' ''Cannot resize mapped file buffer!''
            (iob_arg (nsize < 0) ''Size can't be negative!''
              (if b_source x \<noteq> None
               then obind (iob_ptr h b) (\<lambda>base.
                    obind (detach_data h base (b_size x) nsize) (\<lambda>d.
                    Done (b, h[b := x\<lparr>b_source := None, b_off := 0, b_data := d, b_size := nsize,
                      b_flags := SP_IOB_INTERNAL OR (b_flags x AND SP_IOB_READONLY)\<rparr>])))
               else if nsize = 0 then Done (b, h[b := (iob_release x)\<lparr>b_size := 0\<rparr>])
               else Done (b, h[b := x\<lparr>b_data := Some (grown (b_data x) nsize), b_size := nsize,
                 b_flags := (if b_flags x AND (SP_IOB_INTERNAL OR SP_IOB_MAPPED) = 0
                   then b_flags x OR SP_IOB_INTERNAL else b_flags x)\<rparr>]))))))"

definition iob_clear :: "heap \<Rightarrow> nat \<Rightarrow> int \<Rightarrow> int \<Rightarrow> int option \<Rightarrow> (nat \<times> heap) outcome" where
  "iob_clear h b v off len =
     iob_arg (off < 0) ''Offset can't be negative!''
       (iob_arg (len = None \<and> off > b_size (h ! b)) ''The given offset is bigger than the buffer size!''
         (let l = (case len of None \<Rightarrow> b_size (h ! b) - off | Some l \<Rightarrow> l) in
          iob_arg (l < 0) ''Length can't be negative!''
            (iob_writable h b
              (iob_range h b off l
                (if l > 0
                 then obind (iob_ptr h b) (\<lambda>p.
                      obind (mem_write h (ptr_add p off) (replicate (nat l) (of_int v))) (\<lambda>h'. Done (b, h')))
                 else Done (b, h))))))"

definition sp_IOBuffer_clear0 :: "heap \<Rightarrow> nat \<Rightarrow> (nat \<times> heap) outcome" where
  "sp_IOBuffer_clear0 h b = iob_clear h b 0 0 None"

definition sp_IOBuffer_clear1 :: "heap \<Rightarrow> nat \<Rightarrow> int \<Rightarrow> (nat \<times> heap) outcome" where
  "sp_IOBuffer_clear1 h b v = iob_clear h b v 0 None"

definition sp_IOBuffer_clear2 :: "heap \<Rightarrow> nat \<Rightarrow> int \<Rightarrow> int \<Rightarrow> (nat \<times> heap) outcome" where
  "sp_IOBuffer_clear2 h b v off = iob_clear h b v off None"

definition sp_IOBuffer_clear3 :: "heap \<Rightarrow> nat \<Rightarrow> int \<Rightarrow> int \<Rightarrow> int \<Rightarrow> (nat \<times> heap) outcome" where
  "sp_IOBuffer_clear3 h b v off len = iob_clear h b v off (Some len)"

definition iob_other :: "heap \<Rightarrow> nat \<Rightarrow> RbVal \<Rightarrow> nat outcome" where
  "iob_other h b v =
     (let err = oraise ''TypeError'' (''wrong argument type '' @ iob_val_name v @ '' (expected IO::Buffer)'') in
      case v of VObj c p \<Rightarrow>
        (if p \<noteq> ONull \<and> c = b_cls (h ! b) then (case p of OBuf n \<Rightarrow> Done n | _ \<Rightarrow> Undef) else err)
      | _ \<Rightarrow> err)"

definition iob_copy :: "heap \<Rightarrow> nat \<Rightarrow> RbVal \<Rightarrow> int \<Rightarrow> int option \<Rightarrow> int \<Rightarrow> (int \<times> heap) outcome" where
  "iob_copy h b srcv off len soff =
     obind (iob_other h b srcv) (\<lambda>src.
     obind (iob_ptr h src) (\<lambda>_.
       iob_arg (off < 0) ''Offset can't be negative!''
         (iob_arg (soff < 0) ''Source offset can't be negative!''
           (iob_arg (soff > b_size (h ! src)) ''The given source offset is bigger than the source itself!''
             (let l = (case len of None \<Rightarrow> b_size (h ! src) - soff | Some l \<Rightarrow> l) in
              iob_arg (l < 0) ''Length can't be negative!''
                (iob_writable h b
                  (iob_arg (off > b_size (h ! b) \<or> l > b_size (h ! b) - off)
                    ''Specified offset+length is bigger than the buffer size!''
                    (iob_arg (l > b_size (h ! src) - soff)
                      ''The computed source range exceeds the size of the source buffer!''
                      (if l > 0
                       then obind (iob_ptr h b) (\<lambda>p.
                            obind (iob_ptr h src) (\<lambda>q.
                            obind (mem_read h (ptr_add q soff) (nat l)) (\<lambda>bs.
                            obind (mem_write h (ptr_add p off) bs) (\<lambda>h'. Done (l, h')))))
                       else Done (l, h))))))))))"

definition sp_IOBuffer_copy1 :: "heap \<Rightarrow> nat \<Rightarrow> RbVal \<Rightarrow> (int \<times> heap) outcome" where
  "sp_IOBuffer_copy1 h b src = iob_copy h b src 0 None 0"

definition sp_IOBuffer_copy2 :: "heap \<Rightarrow> nat \<Rightarrow> RbVal \<Rightarrow> int \<Rightarrow> (int \<times> heap) outcome" where
  "sp_IOBuffer_copy2 h b src off = iob_copy h b src off None 0"

definition sp_IOBuffer_copy3 :: "heap \<Rightarrow> nat \<Rightarrow> RbVal \<Rightarrow> int \<Rightarrow> int \<Rightarrow> (int \<times> heap) outcome" where
  "sp_IOBuffer_copy3 h b src off len = iob_copy h b src off (Some len) 0"

definition sp_IOBuffer_copy4 :: "heap \<Rightarrow> nat \<Rightarrow> RbVal \<Rightarrow> int \<Rightarrow> int \<Rightarrow> int \<Rightarrow> (int \<times> heap) outcome" where
  "sp_IOBuffer_copy4 h b src off len soff = iob_copy h b src off (Some len) soff"

definition iob_slice :: "heap \<Rightarrow> nat \<Rightarrow> int \<Rightarrow> int \<Rightarrow> (nat \<times> heap) outcome" where
  "iob_slice h b off len =
     ocheck (iob_slice_invalid h b) ''IO::Buffer::InvalidatedError'' ''Buffer has been invalidated!''
       (iob_range h b off len
         (new_obj h (Done ((iob_alloc_obj (b_cls (h ! b)))\<lparr>
            b_source := (case b_source (h ! b) of Some s \<Rightarrow> Some s | None \<Rightarrow> Some b),
            b_off := (if b_source (h ! b) \<noteq> None then b_off (h ! b) else 0) + off,
            b_size := len, b_flags := SP_IOB_SLICE OR (b_flags (h ! b) AND SP_IOB_READONLY)\<rparr>))))"

definition sp_IOBuffer_slice0 :: "heap \<Rightarrow> nat \<Rightarrow> (nat \<times> heap) outcome" where
  "sp_IOBuffer_slice0 h b = iob_slice h b 0 (b_size (h ! b))"

definition sp_IOBuffer_slice1 :: "heap \<Rightarrow> nat \<Rightarrow> int \<Rightarrow> (nat \<times> heap) outcome" where
  "sp_IOBuffer_slice1 h b off = iob_slice h b off (if off \<le> b_size (h ! b) then wrap_i64 (b_size (h ! b) - off) else 0)"

definition sp_IOBuffer_slice2 :: "heap \<Rightarrow> nat \<Rightarrow> int \<Rightarrow> int \<Rightarrow> (nat \<times> heap) outcome" where
  "sp_IOBuffer_slice2 h b off len = iob_slice h b off len"

definition sp_IOBuffer_transfer :: "heap \<Rightarrow> nat \<Rightarrow> (nat \<times> heap) outcome" where
  "sp_IOBuffer_transfer h b =
     (let x = h ! b in
      ocheck (b_flags x AND SP_IOB_LOCKED \<noteq> 0) ''IO::Buffer::LockedError'' ''Cannot transfer ownership of locked buffer!''
        (Done (length h, h[b := x\<lparr>b_data := None, b_source := None, b_off := 0, b_size := 0, b_map := False\<rparr>] @ [x])))"

definition sp_IOBuffer_free_m :: "heap \<Rightarrow> nat \<Rightarrow> (nat \<times> heap) outcome" where
  "sp_IOBuffer_free_m h b =
     ocheck (b_flags (h ! b) AND SP_IOB_LOCKED \<noteq> 0) ''IO::Buffer::LockedError'' ''Buffer is locked!''
       (Done (b, h[b := (iob_release (h ! b))\<lparr>b_source := None, b_off := 0, b_size := 0, b_flags := 0\<rparr>]))"

definition sp_IOBuffer_dup_m :: "heap \<Rightarrow> nat \<Rightarrow> (nat \<times> heap) outcome" where
  "sp_IOBuffer_dup_m h b =
     obind (if b_source (h ! b) \<noteq> None then iob_ptr h b else Done (data_ptr h b)) (\<lambda>base.
       if base \<noteq> None
       then obind (if b_size (h ! b) > 0 then mem_read h base (nat (b_size (h ! b))) else Done []) (\<lambda>bs.
            new_obj h (Done ((iob_alloc_obj (b_cls (h ! b)))\<lparr>b_data := Some bs, b_size := b_size (h ! b),
              b_flags := SP_IOB_INTERNAL\<rparr>)))
       else new_obj h (Done (iob_alloc_obj (b_cls (h ! b)))))"

section \<open>Comparison\<close>

fun memcmp :: "byte list \<Rightarrow> byte list \<Rightarrow> int" where
  "memcmp (x # xs) (y # ys) = (if x < y then - 1 else if y < x then 1 else memcmp xs ys)"
| "memcmp _ _ = 0"

definition iob_cmp_core :: "heap \<Rightarrow> nat \<Rightarrow> nat \<Rightarrow> int outcome" where
  "iob_cmp_core h b ob =
     (let sb = b_size (h ! b); so = b_size (h ! ob); n = (if sb < so then sb else so);
          by_size = (if sb < so then - 1 else if sb > so then 1 else 0)
      in if n > 0
         then obind (iob_ptr h b) (\<lambda>p. obind (iob_ptr h ob) (\<lambda>q.
              obind (mem_read h p (nat n)) (\<lambda>xs. obind (mem_read h q (nat n)) (\<lambda>ys.
              let c = memcmp xs ys in Done (if c \<noteq> 0 then (if c < 0 then - 1 else 1) else by_size)))))
         else Done by_size)"

definition sp_IOBuffer_cmp :: "heap \<Rightarrow> nat \<Rightarrow> RbVal \<Rightarrow> int outcome" where
  "sp_IOBuffer_cmp h b other = obind (iob_other h b other) (\<lambda>ob. iob_cmp_core h b ob)"

definition sp_IOBuffer_eq :: "heap \<Rightarrow> nat \<Rightarrow> RbVal \<Rightarrow> bool outcome" where
  "sp_IOBuffer_eq h b other =
     obind (iob_other h b other) (\<lambda>ob.
       if b_size (h ! b) \<noteq> b_size (h ! ob) then Done False
       else obind (iob_cmp_core h b ob) (\<lambda>c. Done (c = 0)))"

section \<open>Rendering\<close>

fun hex_nat :: "nat \<Rightarrow> string" where
  "hex_nat n = (let d = (\<lambda>k. char_of (if k < 10 then 48 + k else 87 + k))
     in if n < 16 then [d n] else hex_nat (n div 16) @ [d (n mod 16)])"

declare hex_nat.simps [simp del]

definition pad0 :: "nat \<Rightarrow> string \<Rightarrow> string" where
  "pad0 w s = replicate (w - length s) (CHR ''0'') @ s"

text \<open>One line: \<open>bs\<close> are the bytes of the line, \<open>width\<close> or fewer at the end.\<close>

definition iob_hexline :: "int \<Rightarrow> nat \<Rightarrow> byte list \<Rightarrow> string" where
  "iob_hexline addr width bs =
     ''0x'' @ pad0 8 (hex_nat (nat addr)) @ '' '' @
     concat (map (\<lambda>i. if i < length bs then CHR '' '' # pad0 2 (hex_nat (unat (bs ! i))) else ''   '') [0..<width]) @
     '' '' @ map (\<lambda>c. if 0x20 \<le> c \<and> c < 0x7f then char_of (unat c) else CHR ''.'') bs"

fun hex_lines :: "heap \<Rightarrow> ptr \<Rightarrow> int \<Rightarrow> nat \<Rightarrow> bool \<Rightarrow> int \<Rightarrow> nat \<Rightarrow> string outcome" where
  "hex_lines h base stop width first a 0 = Done []"
| "hex_lines h base stop width first a (Suc n) =
     obind (mem_read h (ptr_add base a) (nat (min (int width) (stop - a)))) (\<lambda>bs.
     obind (hex_lines h base stop width False (a + int width) n) (\<lambda>rest.
     Done ((if first then [] else [CHR 0x0A]) @ iob_hexline a width bs @ rest)))"

text \<open>
  A dump is null for a null buffer; a size the code cannot allocate ends the program. The lines and
  the final NUL go into an array of the computed size, and writing past it is undefined.
\<close>

datatype hexdump = HexNull | HexOom | HexText string

definition hexdump_total :: "int \<Rightarrow> int \<Rightarrow> nat option" where
  "hexdump_total nlines width =
     (let lm = 4 * nat width; line_max = lm + 40; total = (if nlines > 0 then nat nlines else 1) * line_max
      in if lm \<ge> 2 ^ 64 \<or> line_max \<ge> 2 ^ 64 \<or> total \<ge> 2 ^ 64 \<or> total > 2 ^ 40 then None else Some total)"

definition iob_hexdump :: "heap \<Rightarrow> nat \<Rightarrow> int \<Rightarrow> int option \<Rightarrow> int \<Rightarrow> hexdump outcome" where
  "iob_hexdump h b off len width =
     ocheck (b_source (h ! b) \<noteq> None \<and> iob_slice_invalid h b) ''IO::Buffer::InvalidatedError'' ''Buffer has been invalidated!''
       (if iob_base h b = None then Done HexNull
        else iob_arg (off < 0) ''Offset can't be negative!''
          (iob_arg (width < 1) ''Width must be at least 1!''
            (let l = (case len of None \<Rightarrow> b_size (h ! b) - off | Some l \<Rightarrow> l) in
             iob_arg (l < 0) ''Length can't be negative!''
               (let off = (if off > b_size (h ! b) then b_size (h ! b) else off);
                    l = (if l > b_size (h ! b) - off then b_size (h ! b) - off else l);
                    nlines = l div width + (if l mod width \<noteq> 0 then 1 else 0)
                in case hexdump_total nlines width of None \<Rightarrow> Done HexOom
                   | Some tot \<Rightarrow>
                       obind (hex_lines h (iob_base h b) (off + l) (nat width) True off (nat nlines))
                         (\<lambda>s. if length s < tot then Done (HexText s) else Undef)))))"

definition sp_IOBuffer_hexdump0 :: "heap \<Rightarrow> nat \<Rightarrow> hexdump outcome" where
  "sp_IOBuffer_hexdump0 h b = iob_hexdump h b 0 None 16"

definition sp_IOBuffer_hexdump1 :: "heap \<Rightarrow> nat \<Rightarrow> int \<Rightarrow> hexdump outcome" where
  "sp_IOBuffer_hexdump1 h b off = iob_hexdump h b off None 16"

definition sp_IOBuffer_hexdump2 :: "heap \<Rightarrow> nat \<Rightarrow> int \<Rightarrow> int \<Rightarrow> hexdump outcome" where
  "sp_IOBuffer_hexdump2 h b off len = iob_hexdump h b off (Some len) 16"

definition sp_IOBuffer_hexdump3 :: "heap \<Rightarrow> nat \<Rightarrow> int \<Rightarrow> int \<Rightarrow> int \<Rightarrow> hexdump outcome" where
  "sp_IOBuffer_hexdump3 h b off len width = iob_hexdump h b off (Some len) width"

section \<open>Predicates\<close>

definition sp_IOBuffer_null_p :: "heap \<Rightarrow> nat \<Rightarrow> bool" where
  "sp_IOBuffer_null_p h b = (if b_source (h ! b) \<noteq> None then False else b_data (h ! b) = None)"

definition sp_IOBuffer_empty_p :: "heap \<Rightarrow> nat \<Rightarrow> bool" where
  "sp_IOBuffer_empty_p h b \<longleftrightarrow> b_size (h ! b) = 0"

definition sp_IOBuffer_valid_p :: "heap \<Rightarrow> nat \<Rightarrow> bool" where
  "sp_IOBuffer_valid_p h b \<longleftrightarrow> \<not> iob_slice_invalid h b"

definition sp_IOBuffer_locked_p :: "heap \<Rightarrow> nat \<Rightarrow> bool" where
  "sp_IOBuffer_locked_p h b \<longleftrightarrow> b_flags (h ! b) AND SP_IOB_LOCKED \<noteq> 0"

definition sp_IOBuffer_readonly_p :: "heap \<Rightarrow> nat \<Rightarrow> bool" where
  "sp_IOBuffer_readonly_p h b \<longleftrightarrow> b_flags (h ! b) AND SP_IOB_READONLY \<noteq> 0"

definition sp_IOBuffer_external_p :: "heap \<Rightarrow> nat \<Rightarrow> bool" where
  "sp_IOBuffer_external_p h b \<longleftrightarrow> b_flags (h ! b) AND SP_IOB_EXTERNAL \<noteq> 0"

definition sp_IOBuffer_internal_p :: "heap \<Rightarrow> nat \<Rightarrow> bool" where
  "sp_IOBuffer_internal_p h b \<longleftrightarrow> b_flags (h ! b) AND SP_IOB_INTERNAL \<noteq> 0"

definition sp_IOBuffer_mapped_p :: "heap \<Rightarrow> nat \<Rightarrow> bool" where
  "sp_IOBuffer_mapped_p h b \<longleftrightarrow> b_flags (h ! b) AND SP_IOB_MAPPED \<noteq> 0"

definition sp_IOBuffer_shared_p :: "heap \<Rightarrow> nat \<Rightarrow> bool" where
  "sp_IOBuffer_shared_p h b \<longleftrightarrow> b_flags (h ! b) AND SP_IOB_SHARED \<noteq> 0"

definition sp_IOBuffer_private_p :: "heap \<Rightarrow> nat \<Rightarrow> bool" where
  "sp_IOBuffer_private_p h b \<longleftrightarrow> b_flags (h ! b) AND SP_IOB_PRIVATE \<noteq> 0"

section \<open>Bitwise operations\<close>

text \<open>The mask repeats over the bytes.\<close>

definition iob_bitop :: "heap \<Rightarrow> nat \<Rightarrow> RbVal \<Rightarrow> (byte \<Rightarrow> byte \<Rightarrow> byte) \<Rightarrow> (nat \<times> heap) outcome" where
  "iob_bitop h b otherv f =
     obind (iob_other h b otherv) (\<lambda>ob.
       ocheck (b_size (h ! ob) = 0) ''IO::Buffer::MaskError'' ''Zero-length mask given!''
         (let n = nat (b_size (h ! b)); m = nat (b_size (h ! ob)) in
          if n > 0
          then obind (iob_ptr h b) (\<lambda>pa. obind (iob_ptr h ob) (\<lambda>pb.
               obind (mem_read h pa n) (\<lambda>xs. obind (mem_read h pb (min n m)) (\<lambda>ys.
               new_obj h (Done ((iob_alloc_obj (b_cls (h ! b)))\<lparr>
                 b_data := Some (map (\<lambda>i. f (xs ! i) (ys ! (i mod m))) [0..<n]),
                 b_size := int n, b_flags := SP_IOB_INTERNAL\<rparr>))))))
          else new_obj h (Done (iob_alloc_obj (b_cls (h ! b))))))"

definition sp_IOBuffer_and :: "heap \<Rightarrow> nat \<Rightarrow> RbVal \<Rightarrow> (nat \<times> heap) outcome" where
  "sp_IOBuffer_and h b other = iob_bitop h b other (AND)"

definition sp_IOBuffer_or :: "heap \<Rightarrow> nat \<Rightarrow> RbVal \<Rightarrow> (nat \<times> heap) outcome" where
  "sp_IOBuffer_or h b other = iob_bitop h b other (OR)"

definition sp_IOBuffer_xor :: "heap \<Rightarrow> nat \<Rightarrow> RbVal \<Rightarrow> (nat \<times> heap) outcome" where
  "sp_IOBuffer_xor h b other = iob_bitop h b other (XOR)"

definition sp_IOBuffer_not :: "heap \<Rightarrow> nat \<Rightarrow> (nat \<times> heap) outcome" where
  "sp_IOBuffer_not h b =
     (let n = b_size (h ! b) in
      if n > 0
      then obind (if b_source (h ! b) \<noteq> None then iob_ptr h b else Done (data_ptr h b)) (\<lambda>p.
           if p \<noteq> None
           then obind (mem_read h (iob_base h b) (nat n)) (\<lambda>bs.
                new_obj h (Done ((iob_alloc_obj (b_cls (h ! b)))\<lparr>b_data := Some (map (\<lambda>x. NOT x) bs), b_size := n,
                  b_flags := SP_IOB_INTERNAL\<rparr>)))
           else new_obj h (Done (iob_alloc_obj (b_cls (h ! b)))))
      else new_obj h (Done (iob_alloc_obj (b_cls (h ! b)))))"

text \<open>
  In place, one byte after the other: the mask may lie in the same allocation, so a byte of it is read
  as the loop has left it.
\<close>

fun bitop_loop :: "(byte \<Rightarrow> byte \<Rightarrow> byte) \<Rightarrow> heap \<Rightarrow> ptr \<Rightarrow> ptr \<Rightarrow> nat \<Rightarrow> nat \<Rightarrow> nat \<Rightarrow> heap outcome" where
  "bitop_loop f h pa pb m i 0 = Done h"
| "bitop_loop f h pa pb m i (Suc k) =
     obind (mem_read h (ptr_add pa (int i)) 1) (\<lambda>x.
     obind (mem_read h (ptr_add pb (int (i mod m))) 1) (\<lambda>y.
     obind (mem_write h (ptr_add pa (int i)) [f (hd x) (hd y)]) (\<lambda>h'. bitop_loop f h' pa pb m (Suc i) k)))"

definition iob_bitop_ip :: "heap \<Rightarrow> nat \<Rightarrow> RbVal \<Rightarrow> (byte \<Rightarrow> byte \<Rightarrow> byte) \<Rightarrow> (nat \<times> heap) outcome" where
  "iob_bitop_ip h b otherv f =
     obind (iob_other h b otherv) (\<lambda>ob.
       ocheck (b_size (h ! ob) = 0) ''IO::Buffer::MaskError'' ''Zero-length mask given!''
         (iob_writable h b
           (obind (iob_ptr h b) (\<lambda>pa. obind (iob_ptr h ob) (\<lambda>pb.
            obind (bitop_loop f h pa pb (nat (b_size (h ! ob))) 0 (nat (b_size (h ! b)))) (\<lambda>h'. Done (b, h')))))))"

definition sp_IOBuffer_and_ip :: "heap \<Rightarrow> nat \<Rightarrow> RbVal \<Rightarrow> (nat \<times> heap) outcome" where
  "sp_IOBuffer_and_ip h b other = iob_bitop_ip h b other (AND)"

definition sp_IOBuffer_or_ip :: "heap \<Rightarrow> nat \<Rightarrow> RbVal \<Rightarrow> (nat \<times> heap) outcome" where
  "sp_IOBuffer_or_ip h b other = iob_bitop_ip h b other (OR)"

definition sp_IOBuffer_xor_ip :: "heap \<Rightarrow> nat \<Rightarrow> RbVal \<Rightarrow> (nat \<times> heap) outcome" where
  "sp_IOBuffer_xor_ip h b other = iob_bitop_ip h b other (XOR)"

definition sp_IOBuffer_not_ip :: "heap \<Rightarrow> nat \<Rightarrow> (nat \<times> heap) outcome" where
  "sp_IOBuffer_not_ip h b =
     iob_writable h b
       (obind (if b_size (h ! b) > 0 then iob_ptr h b else Done None) (\<lambda>p.
        obind (bitop_loop (\<lambda>x y. NOT x) h p p (nat (b_size (h ! b))) 0 (nat (b_size (h ! b)))) (\<lambda>h'. Done (b, h'))))"

section \<open>The lock\<close>

definition set_lock :: "heap \<Rightarrow> nat \<Rightarrow> heap" where
  "set_lock h b = h[b := (h ! b)\<lparr>b_flags := b_flags (h ! b) OR SP_IOB_LOCKED\<rparr>]"

definition clear_lock :: "heap \<Rightarrow> nat \<Rightarrow> heap" where
  "clear_lock h b = h[b := (h ! b)\<lparr>b_flags := b_flags (h ! b) AND NOT SP_IOB_LOCKED\<rparr>]"

definition sp_IOBuffer_lock :: "heap \<Rightarrow> nat \<Rightarrow> (nat \<times> heap) outcome" where
  "sp_IOBuffer_lock h b =
     ocheck (b_flags (h ! b) AND SP_IOB_LOCKED \<noteq> 0) ''IO::Buffer::LockedError'' ''Buffer already locked!''
       (Done (b, set_lock h b))"

definition sp_IOBuffer_unlock :: "heap \<Rightarrow> nat \<Rightarrow> (nat \<times> heap) outcome" where
  "sp_IOBuffer_unlock h b = Done (b, clear_lock h b)"

section \<open>Foreign calls\<close>

definition sp_IOBuffer_ffi_base :: "heap \<Rightarrow> nat option \<Rightarrow> bool \<Rightarrow> ptr outcome" where
  "sp_IOBuffer_ffi_base h bo writing =
     (case bo of None \<Rightarrow> Done None
      | Some b \<Rightarrow>
          (let rest = obind (iob_ptr h b) (\<lambda>p. Done (if b_size (h ! b) > 0 then p else None))
           in if writing then iob_writable h b rest else rest))"

text \<open>What was locked: bit 0 the buffer, bit 1 its source.\<close>

definition sp_IOBuffer_ffi_hold :: "heap \<Rightarrow> nat option \<Rightarrow> nat \<times> heap" where
  "sp_IOBuffer_ffi_hold h bo =
     (case bo of None \<Rightarrow> (0, h)
      | Some b \<Rightarrow>
          (let (m, h) = (if b_flags (h ! b) AND SP_IOB_LOCKED = 0 then (1, set_lock h b) else (0, h))
           in case b_source (h ! b) of None \<Rightarrow> (m, h)
              | Some s \<Rightarrow> (if b_flags (h ! s) AND SP_IOB_LOCKED = 0 then (m OR 2, set_lock h s) else (m, h))))"

definition sp_IOBuffer_ffi_release :: "heap \<Rightarrow> nat option \<Rightarrow> nat \<Rightarrow> heap" where
  "sp_IOBuffer_ffi_release h bo m =
     (case bo of None \<Rightarrow> h
      | Some b \<Rightarrow>
          (let h = (if m AND 1 \<noteq> 0 then clear_lock h b else h)
           in case b_source (h ! b) of None \<Rightarrow> h | Some s \<Rightarrow> (if m AND 2 \<noteq> 0 then clear_lock h s else h)))"

text \<open>The same for a boxed argument, which may not be a buffer.\<close>

definition boxed_buffer :: "RbVal \<Rightarrow> int \<Rightarrow> nat option" where
  "boxed_buffer v c = (case v of VObj d (OBuf n) \<Rightarrow> (if d = c then Some n else None) | _ \<Rightarrow> None)"

definition sp_IOBuffer_ffi_hold_v :: "heap \<Rightarrow> RbVal \<Rightarrow> int \<Rightarrow> nat \<times> heap" where
  "sp_IOBuffer_ffi_hold_v h v c = sp_IOBuffer_ffi_hold h (boxed_buffer v c)"

definition sp_IOBuffer_ffi_release_v :: "heap \<Rightarrow> RbVal \<Rightarrow> int \<Rightarrow> nat \<Rightarrow> heap" where
  "sp_IOBuffer_ffi_release_v h v c m = sp_IOBuffer_ffi_release h (boxed_buffer v c) m"

section \<open>The span of a transfer\<close>

text \<open>The bytes a read or write of a file moves; a negative length stands for nil.\<close>

definition iob_io_span :: "heap \<Rightarrow> nat \<Rightarrow> int \<Rightarrow> int \<Rightarrow> bool \<Rightarrow> (ptr \<times> int) outcome" where
  "iob_io_span h b len offset writing =
     iob_arg (offset < 0) ''Offset can't be negative!''
       (obind (iob_ptr h b) (\<lambda>base.
          iob_arg (len < 0 \<and> offset > b_size (h ! b)) ''The given offset is bigger than the buffer size!''
            (iob_range h b offset (if len < 0 then b_size (h ! b) - offset else len)
              (ocheck (writing \<and> b_flags (h ! b) AND SP_IOB_READONLY \<noteq> 0) ''IO::Buffer::AccessError'' ''Buffer is not writable!''
                (ocheck (base = None) ''IO::Buffer::AccessError'' ''Buffer is not allocated!''
                  (Done (ptr_add base offset, b_size (h ! b) - offset)))))))"

end
