(* ===== verification/IobSafe.thy ===== *)
theory IobSafe
  imports IOBuffer
begin

unbundle bit_operations_syntax

text \<open>
  What IO::Buffer promises: the invariant of the objects, that no operation reads or writes outside an
  allocation, and what the bytes of a buffer are after each.
\<close>

section \<open>The invariant\<close>

definition buf_ok :: "int \<Rightarrow> heap \<Rightarrow> IOBuffer \<Rightarrow> bool" where
  "buf_ok c h x \<longleftrightarrow>
     b_cls x = c \<and> 0 \<le> b_size x \<and> b_size x \<le> INT64_MAX \<and>
     (case b_source x of
        None \<Rightarrow> b_off x = 0 \<and> (case b_data x of None \<Rightarrow> b_size x = 0 | Some d \<Rightarrow> b_size x = int (length d))
      | Some s \<Rightarrow> s < length h \<and> b_data x = None \<and> b_source (h ! s) = None \<and> 0 \<le> b_off x \<and> b_off x \<le> INT64_MAX)"

definition heap_ok :: "int \<Rightarrow> heap \<Rightarrow> bool" where
  "heap_ok c h \<longleftrightarrow> (\<forall>x \<in> set h. buf_ok c h x)"

text \<open>The class of a boxed value says what it points to.\<close>

definition val_ok :: "int \<Rightarrow> heap \<Rightarrow> RbVal \<Rightarrow> bool" where
  "val_ok c h v =
     (case v of VObj d p \<Rightarrow>
        (d = SP_BUILTIN_RATIONAL \<longrightarrow> (case p of ONull \<Rightarrow> True | ORational _ _ \<Rightarrow> True | _ \<Rightarrow> False)) \<and>
        (d = c \<longrightarrow> (case p of ONull \<Rightarrow> True | OBuf n \<Rightarrow> n < length h | _ \<Rightarrow> False))
      | _ \<Rightarrow> True)"

text \<open>The bytes a buffer shows.\<close>

definition contents :: "heap \<Rightarrow> nat \<Rightarrow> byte list" where
  "contents h b =
     (case b_source (h ! b) of
        None \<Rightarrow> (case b_data (h ! b) of None \<Rightarrow> [] | Some d \<Rightarrow> d)
      | Some s \<Rightarrow> (case b_data (h ! s) of None \<Rightarrow> []
          | Some d \<Rightarrow> take (nat (b_size (h ! b))) (drop (nat (b_off (h ! b))) d)))"

lemma INT64_MAX_nonneg [simp]: "0 \<le> INT64_MAX"
  by (simp add: INT64_MAX_def)

lemma heap_okD: "heap_ok c h \<Longrightarrow> b < length h \<Longrightarrow> buf_ok c h (h ! b)"
  by (simp add: heap_ok_def)

lemma buf_okD:
  assumes "buf_ok c h x"
  shows "b_cls x = c" "0 \<le> b_size x" "b_size x \<le> INT64_MAX"
    "b_source x = None \<Longrightarrow> b_off x = 0"
    "b_source x = None \<Longrightarrow> b_data x = None \<Longrightarrow> b_size x = 0"
    "b_source x = None \<Longrightarrow> b_data x = Some d \<Longrightarrow> b_size x = int (length d)"
    "b_source x = Some s \<Longrightarrow> s < length h" "b_source x = Some s \<Longrightarrow> b_data x = None"
    "b_source x = Some s \<Longrightarrow> b_source (h ! s) = None" "b_source x = Some s \<Longrightarrow> 0 \<le> b_off x"
    "b_source x = Some s \<Longrightarrow> b_off x \<le> INT64_MAX"
  using assms by (auto simp: buf_ok_def split: option.splits)

text \<open>Where the bytes of a buffer lie.\<close>

lemma view_place:
  assumes "heap_ok c h" "b < length h" "\<not> iob_slice_invalid h b" "0 < b_size (h ! b)"
  obtains ow i d where "iob_base h b = Some (ow, i)" "ow < length h" "b_data (h ! ow) = Some d" "0 \<le> i"
    "i + b_size (h ! b) \<le> int (length d)" "contents h b = take (nat (b_size (h ! b))) (drop (nat i) d)"
    "b_source (h ! ow) = None"
proof (cases "b_source (h ! b)")
  case None
  note B = buf_okD [OF heap_okD [OF assms(1,2)]]
  obtain d where d: "b_data (h ! b) = Some d" using B(5) [OF None] assms(4) by (cases "b_data (h ! b)") auto
  then have "b_size (h ! b) = int (length d)" using B(6) [OF None] by blast
  then show ?thesis using that [of b 0 d] None d assms(2) by (simp add: iob_base_def data_ptr_def contents_def)
next
  case (Some s)
  note B = buf_okD [OF heap_okD [OF assms(1,2)]] and S = buf_okD [OF heap_okD [OF assms(1) B(7) [OF Some]]]
  obtain d where d: "b_data (h ! s) = Some d" "b_off (h ! b) \<le> b_size (h ! s) - b_size (h ! b)"
    using assms(3) Some by (auto simp: iob_slice_invalid_def)
  then have "b_size (h ! s) = int (length d)" using S(6) [OF B(9) [OF Some]] by blast
  then show ?thesis using that [of s "b_off (h ! b)" d] Some d B(7,9,10) [OF Some]
    by (simp add: iob_base_def data_ptr_def ptr_add_def contents_def)
qed

lemma contents_length:
  assumes "heap_ok c h" "b < length h" "\<not> iob_slice_invalid h b"
  shows "length (contents h b) = nat (b_size (h ! b))"
proof (cases "b_size (h ! b) = 0")
  case True
  then show ?thesis using buf_okD [OF heap_okD [OF assms(1,2)]]
    by (auto simp: contents_def split: option.splits)
next
  case False
  then have "0 < b_size (h ! b)" using buf_okD(2) [OF heap_okD [OF assms(1,2)]] by simp
  then obtain ow i d where "0 \<le> i" "i + b_size (h ! b) \<le> int (length d)"
      "contents h b = take (nat (b_size (h ! b))) (drop (nat i) d)"
    using view_place [OF assms] by metis
  then show ?thesis using \<open>0 < b_size (h ! b)\<close> by simp
qed

lemma view_read:
  assumes "heap_ok c h" "b < length h" "\<not> iob_slice_invalid h b" "0 \<le> off" "0 < n" "off + int n \<le> b_size (h ! b)"
  shows "mem_read h (ptr_add (iob_base h b) off) n = Done (take n (drop (nat off) (contents h b)))"
proof -
  have "0 < b_size (h ! b)" using assms(4-6) by simp
  then obtain ow i d where v: "iob_base h b = Some (ow, i)" "b_data (h ! ow) = Some d" "0 \<le> i"
    "i + b_size (h ! b) \<le> int (length d)" "contents h b = take (nat (b_size (h ! b))) (drop (nat i) d)"
    using view_place [OF assms(1-3)] by metis
  have "nat (i + off) = nat i + nat off" "n \<le> nat (b_size (h ! b)) - nat off" using v(3) assms by auto
  then have "take n (drop (nat (i + off)) d) = take n (drop (nat off) (contents h b))"
    unfolding v(5) by (simp add: drop_take add.commute min_def)
  then show ?thesis using v assms by (simp add: mem_read_def ptr_add_def)
qed

lemma put_bytes_length: "i + length bs \<le> length d \<Longrightarrow> length (put_bytes d i bs) = length d"
  by (simp add: put_bytes_def)

text \<open>A write keeps the shape of the heap: only bytes change.\<close>

definition same_shape :: "heap \<Rightarrow> heap \<Rightarrow> bool" where
  "same_shape h h' \<longleftrightarrow> length h' = length h \<and>
     (\<forall>i < length h. \<exists>d. h' ! i = (h ! i)\<lparr>b_data := d\<rparr> \<and> map_option length d = map_option length (b_data (h ! i)))"

lemma same_shapeD:
  assumes "same_shape h h'" "i < length h"
  shows "b_cls (h' ! i) = b_cls (h ! i)" "b_size (h' ! i) = b_size (h ! i)" "b_source (h' ! i) = b_source (h ! i)"
    "b_off (h' ! i) = b_off (h ! i)" "b_flags (h' ! i) = b_flags (h ! i)"
    "map_option length (b_data (h' ! i)) = map_option length (b_data (h ! i))" "length h' = length h"
  using assms by (auto simp: same_shape_def)

lemma same_shape_refl [simp]: "same_shape h h"
  by (auto simp: same_shape_def intro!: exI [where x = "b_data _"])

lemma same_shape_trans: "same_shape h h' \<Longrightarrow> same_shape h' h'' \<Longrightarrow> same_shape h h''"
  unfolding same_shape_def by fastforce

lemma same_shape_ok:
  assumes "heap_ok c h" "same_shape h h'"
  shows "heap_ok c h'"
  unfolding heap_ok_def
proof
  fix x assume "x \<in> set h'"
  then obtain i where i: "i < length h" "x = h' ! i" using same_shapeD(7) [OF assms(2)] by (metis in_set_conv_nth assms(2) same_shape_def)
  note S = same_shapeD [OF assms(2)]
  have d: "b_data (h' ! i) = None \<longleftrightarrow> b_data (h ! i) = None"
    "b_data (h' ! i) = Some d' \<Longrightarrow> \<exists>d. b_data (h ! i) = Some d \<and> length d = length d'" for d'
    using S(6) [OF i(1)] by (cases "b_data (h ! i)"; cases "b_data (h' ! i)"; simp)+
  have B: "buf_ok c h (h ! i)" using heap_okD [OF assms(1) i(1)] .
  show "buf_ok c h' x"
  proof (cases "b_source (h ! i)")
    case None
    then show ?thesis using B d S(1-4) [OF i(1)] unfolding i(2) by (auto simp: buf_ok_def split: option.splits)
  next
    case (Some s)
    then show ?thesis using B d(1) S(1-4,7) [OF i(1)] S(3) [of s] buf_okD(7) [OF B Some] unfolding i(2)
      by (auto simp: buf_ok_def)
  qed
qed

lemma same_shape_invalid:
  assumes "heap_ok c h" "same_shape h h'" "b < length h"
  shows "iob_slice_invalid h' b = iob_slice_invalid h b" "iob_base h' b = iob_base h b"
proof -
  note S = same_shapeD [OF assms(2)]
  have d: "b_data (h' ! i) = None \<longleftrightarrow> b_data (h ! i) = None" if "i < length h" for i
    using S(6) [OF that] by (cases "b_data (h ! i)"; cases "b_data (h' ! i)"; simp)
  have s: "s < length h" if "b_source (h ! b) = Some s" for s using buf_okD(7) [OF heap_okD [OF assms(1,3)] that] .
  show "iob_slice_invalid h' b = iob_slice_invalid h b"
    using S [OF assms(3)] S(2) s d by (auto simp: iob_slice_invalid_def split: option.splits)
  have p: "data_ptr h' i = data_ptr h i" if "i < length h" for i
    using d [OF that] by (auto simp: data_ptr_def split: option.splits)
  show "iob_base h' b = iob_base h b"
    using S(3,4) [OF assms(3)] p [OF assms(3)] p s by (auto simp: iob_base_def split: option.splits)
qed

lemma put_bytes_view:
  assumes "i + n \<le> length d" "j + length bs \<le> n"
  shows "take n (drop i (put_bytes d (i + j) bs)) = put_bytes (take n (drop i d)) j bs"
proof -
  have "drop i (put_bytes d (i + j) bs) = put_bytes (drop i d) j bs"
    using assms by (simp add: put_bytes_def drop_take ac_simps)
  moreover have "take n (put_bytes (drop i d) j bs) = put_bytes (take n (drop i d)) j bs"
  proof -
    let ?e = "drop i d"
    have "min (length ?e) j = j" "min n j = j" "min j n = j" "n - j - length bs = n - (j + length bs)" using assms by auto
    then show ?thesis using assms by (simp add: put_bytes_def drop_take)
  qed
  ultimately show ?thesis by simp
qed

lemma view_contents:
  assumes "heap_ok c h" "b < length h" "0 < b_size (h ! b)" "iob_base h b = Some (ow, i)" "ow < length h" "b_data (h ! ow) = Some d"
    "length d' = length d"
  shows "contents (h[ow := (h ! ow)\<lparr>b_data := Some d'\<rparr>]) b = take (nat (b_size (h ! b))) (drop (nat i) d')"
proof (cases "b_source (h ! b)")
  case None
  then have "ow = b" "i = 0" using assms(4) by (auto simp: iob_base_def data_ptr_def split: option.splits)
  moreover from this have "length d = nat (b_size (h ! b))" using buf_okD(6) [OF heap_okD [OF assms(1,2)] None] assms(6) by simp
  ultimately show ?thesis using None assms by (simp add: contents_def)
next
  case (Some s)
  then have "ow = s" "i = b_off (h ! b)" using assms(4,6) by (auto simp: iob_base_def data_ptr_def ptr_add_def split: option.splits)
  then show ?thesis using Some assms(2,5) buf_okD(8) [OF heap_okD [OF assms(1,2)] Some] assms(6)
    by (cases "b = s") (auto simp: contents_def)
qed

lemma view_write:
  assumes "heap_ok c h" "b < length h" "\<not> iob_slice_invalid h b" "0 \<le> off" "bs \<noteq> []"
    "off + int (length bs) \<le> b_size (h ! b)"
  obtains h' where "mem_write h (ptr_add (iob_base h b) off) bs = Done h'" "same_shape h h'"
    "contents h' b = put_bytes (contents h b) (nat off) bs"
proof -
  have "0 < length bs" using assms(5) by simp
  then have pos: "0 < b_size (h ! b)" using assms(4,6) by linarith
  obtain ow i d where v: "iob_base h b = Some (ow, i)" "ow < length h" "b_data (h ! ow) = Some d" "0 \<le> i"
    "i + b_size (h ! b) \<le> int (length d)" "contents h b = take (nat (b_size (h ! b))) (drop (nat i) d)" "b_source (h ! ow) = None"
    using view_place [OF assms(1-3) pos] by metis
  let ?d = "put_bytes d (nat (i + off)) bs"
  let ?h = "h[ow := (h ! ow)\<lparr>b_data := Some ?d\<rparr>]"
  have len: "length ?d = length d" using v(4,5) assms(4,6) by (intro put_bytes_length) linarith
  have w: "mem_write h (ptr_add (iob_base h b) off) bs = Done ?h"
    using v assms(4,6) by (simp add: mem_write_def ptr_add_def)
  have sh: "same_shape h ?h" unfolding same_shape_def
  proof (intro conjI allI impI)
    fix j assume "j < length h"
    then show "\<exists>d'. ?h ! j = (h ! j)\<lparr>b_data := d'\<rparr> \<and> map_option length d' = map_option length (b_data (h ! j))"
      using v(2,3) len by (cases "j = ow") (auto intro: exI [of _ "Some ?d"] exI [of _ "b_data (h ! j)"])
  qed simp
  have "contents ?h b = put_bytes (contents h b) (nat off) bs"
  proof -
    have "contents ?h b = take (nat (b_size (h ! b))) (drop (nat i) ?d)"
      by (rule view_contents [OF assms(1,2) pos v(1-3) len])
    moreover have "nat (i + off) = nat i + nat off" using v(4) assms(4) by (simp add: nat_add_distrib)
    moreover have "take (nat (b_size (h ! b))) (drop (nat i) (put_bytes d (nat i + nat off) bs)) =
        put_bytes (contents h b) (nat off) bs"
      unfolding v(6) by (rule put_bytes_view) (use v(4,5) assms(4,6) pos in linarith)+
    ultimately show ?thesis by (simp only:)
  qed
  then show ?thesis using that w sh by blast
qed

section \<open>The pointers and the checks\<close>

lemma orun_arg [wp, simp]: "orun P (iob_arg b m k) = (\<not> b \<longrightarrow> orun P k)"
  by (simp add: iob_arg_def)

lemma orun_ptr [wp, simp]: "orun P (iob_ptr h b) = (\<not> iob_slice_invalid h b \<longrightarrow> P (iob_base h b))"
  by (auto simp: iob_ptr_def)

lemma orun_checks [wp, simp]:
  "orun P (iob_readonly h b k) = (b_flags (h ! b) AND SP_IOB_READONLY = 0 \<longrightarrow> orun P k)"
  "orun P (iob_writable_slice h b k) = (\<not> iob_slice_invalid h b \<longrightarrow> orun P k)"
  "orun P (iob_writable h b k) = (b_flags (h ! b) AND SP_IOB_READONLY = 0 \<and> \<not> iob_slice_invalid h b \<longrightarrow> orun P k)"
  "orun P (iob_range h b off len k) = (0 \<le> off \<and> 0 \<le> len \<and> off + len \<le> b_size (h ! b) \<longrightarrow> orun P k)"
  "orun P (iob_value_range_error h b off)"
  by (auto simp: iob_readonly_def iob_writable_slice_def iob_writable_def iob_range_def iob_value_range_error_def)

lemma orun_read [wp]:
  assumes "heap_ok c h" "b < length h" "\<not> iob_slice_invalid h b" "0 \<le> off" "0 < n" "off + int n \<le> b_size (h ! b)"
  shows "orun P (mem_read h (ptr_add (iob_base h b) off) n) = P (take n (drop (nat off) (contents h b)))"
  by (simp add: view_read [OF assms])

lemma ptr_add_0 [simp]: "ptr_add p 0 = p"
  by (cases p) (auto simp: ptr_add_def)

lemma ptr_add_add [simp]: "ptr_add (ptr_add p i) j = ptr_add p (i + j)"
  by (cases p) (auto simp: ptr_add_def add.assoc)

lemma orun_read0 [wp]:
  assumes "heap_ok c h" "b < length h" "\<not> iob_slice_invalid h b" "0 < n" "int n \<le> b_size (h ! b)"
  shows "orun P (mem_read h (iob_base h b) n) = P (take n (contents h b))"
  using orun_read [of c h b 0 n P] assms by simp

lemma orun_write:
  assumes "heap_ok c h" "b < length h" "\<not> iob_slice_invalid h b" "0 \<le> off" "bs \<noteq> []" "off + int (length bs) \<le> b_size (h ! b)"
    and "\<And>h'. same_shape h h' \<Longrightarrow> contents h' b = put_bytes (contents h b) (nat off) bs \<Longrightarrow> P h'"
  shows "orun P (mem_write h (ptr_add (iob_base h b) off) bs)"
proof -
  obtain h' where "mem_write h (ptr_add (iob_base h b) off) bs = Done h'" "same_shape h h'"
    "contents h' b = put_bytes (contents h b) (nat off) bs"
    using view_write [OF assms(1-6)] .
  then show ?thesis using assms(7) by simp
qed

text \<open>What every operation on a heap keeps.\<close>

definition kept :: "int \<Rightarrow> heap \<Rightarrow> 'r \<times> heap \<Rightarrow> bool" where
  "kept c h rh \<longleftrightarrow> heap_ok c (snd rh) \<and> length h \<le> length (snd rh)"

lemma kept_shape: "heap_ok c h \<Longrightarrow> same_shape h h' \<Longrightarrow> kept c h (r, h')"
  by (simp add: kept_def same_shape_ok) (simp add: same_shape_def)

lemma iob_type_width: "ty < SP_IOB_TY_COUNT \<Longrightarrow> 0 < it_width (iob_types ! ty)"
  using iob_types_header [of ty] sp_iob_width_bounds(1) [of ty] by simp

section \<open>Accessors are safe\<close>

lemma orun_value_ptr [wp]:
  "orun P (iob_value_ptr h b off w) =
     (0 \<le> off \<and> off + int w \<le> b_size (h ! b) \<and> \<not> iob_slice_invalid h b \<longrightarrow> P (ptr_add (iob_base h b) off))"
  by (auto simp: iob_value_ptr_def)

lemma orun_value_wptr [wp]:
  "orun P (iob_value_wptr h b off w) =
     (0 \<le> off \<and> off + int w \<le> b_size (h ! b) \<and> \<not> iob_slice_invalid h b \<longrightarrow> P (ptr_add (iob_base h b) off))"
  by (auto simp: iob_value_wptr_def iob_value_oob_def)

lemma orun_load:
  assumes "heap_ok c h" "b < length h" "\<not> iob_slice_invalid h b" "0 \<le> off" "ty < SP_IOB_TY_COUNT"
    "off + int (it_width (iob_types ! ty)) \<le> b_size (h ! b)"
  shows "orun P (iob_load host_be h (ptr_add (iob_base h b) off) (iob_types ! ty)) =
    P (sp_iob_load host_be (take (it_width (iob_types ! ty)) (drop (nat off) (contents h b)))
        (it_width (iob_types ! ty)) (it_be (iob_types ! ty)))"
  using orun_read [OF assms(1-4) iob_type_width [OF assms(5)] assms(6)] by (simp add: iob_load_def)

lemma safe_reads:
  assumes "heap_ok c h" "b < length h" "ty < SP_IOB_TY_COUNT"
  shows "orun (\<lambda>_. True) (iob_get_core host_be h b ty off)" "orun (\<lambda>_. True) (sp_IOBuffer_get_i host_be h b ty off)"
    "orun (\<lambda>_. True) (sp_IOBuffer_get_f host_be h b ty off)"
  using orun_load [OF assms(1,2) _ _ assms(3)]
  by (simp_all add: iob_get_core_def sp_IOBuffer_get_i_def sp_IOBuffer_get_f_def Let_def orun_value_ptr)

lemma operand_defined: "val_ok c h v \<Longrightarrow> orun (\<lambda>_. True) (iob_int_operand ty v)" "val_ok c h v \<Longrightarrow> orun (\<lambda>_. True) (iob_float_operand v)"
proof -
  have w: "orun (\<lambda>_. True) (word_operand t i)" for t i by (simp add: word_operand_def)
  have f: "orun (\<lambda>i. orun (\<lambda>_. True) (word_operand t i)) (iob_float_to_i64 x)" for t x
    using w by (simp add: iob_float_to_i64_def Let_def)
  have b: "orun (\<lambda>_. True) (big_operand t m neg)" for t m neg
    by (auto simp: big_operand_def Let_def split: option.split)
  show "val_ok c h v \<Longrightarrow> orun (\<lambda>_. True) (iob_int_operand ty v)"
    using w f b by (auto simp: iob_int_operand_def Let_def split: RbVal.split)
  show "val_ok c h v \<Longrightarrow> orun (\<lambda>_. True) (iob_float_operand v)"
    by (auto simp: iob_float_operand_def val_ok_def Let_def split: RbVal.split obj.splits)
qed

lemma safe_set_core:
  assumes "heap_ok c h" "b < length h" "ty < SP_IOB_TY_COUNT" "val_ok c h v"
  shows "orun (kept c h) (iob_set_core host_be h b ty off v)"
proof -
  let ?t = "iob_types ! ty"
  have st: "length (sp_iob_store host_be (it_width ?t) (it_be ?t) raw) = it_width ?t" for raw
    using sp_iob_store_length iob_type_width [OF assms(3)] by blast
  have wr: "orun (\<lambda>h'. kept c h (r, h')) (mem_write h (ptr_add (iob_base h b) off) (sp_iob_store host_be (it_width ?t) (it_be ?t) raw))"
    if "0 \<le> off" "off + int (it_width ?t) \<le> b_size (h ! b)" "\<not> iob_slice_invalid h b" for r raw
    using st [of raw] iob_type_width [OF assms(3)] that kept_shape [OF assms(1)]
    by (intro orun_write [OF assms(1,2)]) auto
  have op: "orun (\<lambda>_. True) (if it_flt ?t then obind (iob_float_operand v) (\<lambda>f. Done (float_raw (it_width ?t) f)) else iob_int_operand ty v)"
    using operand_defined [OF assms(4)] by simp
  show ?thesis unfolding iob_set_core_def Let_def
    by (simp only: orun_simps orun_checks orun_value_wptr) (intro impI, rule orun_mono [OF op], use wr in simp)
qed

lemma type_of_range: "sp_IOBuffer_type_of n < int SP_IOB_TY_COUNT"
proof -
  have "type_index ts i s < int (i + length ts)" for ts i s
  proof (induction ts arbitrary: i)
    case (Cons t ts)
    then show ?case using Cons.IH [of "i + 1"] by simp
  qed simp
  then show ?thesis by (auto simp: sp_IOBuffer_type_of_def iob_types_def SP_IOB_TY_COUNT_def split: option.split)
qed

lemma safe_values:
  assumes "heap_ok c h" "b < length h"
  shows "orun (\<lambda>_. True) (sp_IOBuffer_get_value host_be h b ty off)"
    "val_ok c h v \<Longrightarrow> orun (kept c h) (sp_IOBuffer_set_value host_be h b ty off v)"
  using type_of_range [of "type_name ty"] safe_reads(1) [OF assms] safe_set_core [OF assms]
  by (simp_all add: sp_IOBuffer_get_value_def iob_decode_type_def sp_IOBuffer_set_value_def Let_def nat_less_iff)

section \<open>New objects\<close>

lemma heap_ok_append:
  assumes "heap_ok c h" "buf_ok c h x"
  shows "heap_ok c (h @ [x])"
proof -
  have "buf_ok c h y \<Longrightarrow> buf_ok c (h @ [x]) y" for y
    by (auto simp: buf_ok_def nth_append split: option.splits)
  then show ?thesis using assms by (auto simp: heap_ok_def)
qed

lemma safe_new: "heap_ok c h \<Longrightarrow> orun (buf_ok c h) m \<Longrightarrow> orun (kept c h) (new_obj h m)"
  by (simp add: new_obj_def) (erule orun_mono, simp add: kept_def heap_ok_append)

lemma safe_allocate:
  assumes "nsize \<le> INT64_MAX"
  shows "orun (buf_ok c h) (iob_allocate ps (iob_alloc_obj c) nsize fl)"
  using assms by (auto simp: iob_allocate_def iob_alloc_obj_def buf_ok_def Let_def split: option.split)

text \<open>An object whose allocation changes while it stays or becomes an owner.\<close>

lemma heap_ok_update:
  assumes "heap_ok c h" "b < length h" "buf_ok c h x" "b_source x = None"
  shows "heap_ok c (h[b := x])"
proof -
  have "buf_ok c h y \<Longrightarrow> buf_ok c (h[b := x]) y" for y
    using assms(2,4) by (cases "b_source y") (auto simp: buf_ok_def nth_list_update)
  then show ?thesis using assms(1,3) by (auto simp: heap_ok_def dest: set_update_subset_insert [THEN subsetD])
qed

lemma heap_ok_flags:
  assumes "heap_ok c h" "b < length h"
  shows "heap_ok c (h[b := (h ! b)\<lparr>b_flags := f\<rparr>])"
proof -
  have "buf_ok c (h[b := (h ! b)\<lparr>b_flags := f\<rparr>]) y" if "y \<in> set (h[b := (h ! b)\<lparr>b_flags := f\<rparr>])" for y
  proof -
    have "y = (h ! b)\<lparr>b_flags := f\<rparr> \<or> y \<in> set h" using that set_update_subset_insert [of h b] by auto
    then obtain x where x: "x \<in> set h" "y = x \<or> y = x\<lparr>b_flags := f\<rparr>" using nth_mem [OF assms(2)] by blast
    then have "buf_ok c h x" using assms(1) by (simp add: heap_ok_def)
    then have "buf_ok c h y" using x(2) by (auto simp: buf_ok_def split: option.splits)
    then show ?thesis using assms(2) by (auto simp: buf_ok_def nth_list_update split: option.splits)
  qed
  then show ?thesis by (simp add: heap_ok_def)
qed

section \<open>Whole-buffer operations are safe\<close>

lemma write_kept:
  assumes "heap_ok c h" "b < length h" "\<not> iob_slice_invalid h b" "0 \<le> off" "0 < length bs" "off + int (length bs) \<le> b_size (h ! b)"
  shows "orun (\<lambda>h'. heap_ok c h' \<and> length h \<le> length h') (mem_write h (ptr_add (iob_base h b) off) bs)"
  using kept_shape [OF assms(1)] assms(5) by (intro orun_write [OF assms(1-4) _ assms(6)]) (auto simp: kept_def)

lemma safe_strings:
  assumes "heap_ok c h" "b < length h"
  shows "orun (\<lambda>_. True) (iob_get_string h b off len)" "orun (kept c h) (iob_set_string h b s off slen soff)"
    "orun (kept c h) (iob_clear h b v off len)"
proof -
  show "orun (\<lambda>_. True) (iob_get_string h b off len)"
    by (simp add: iob_get_string_def Let_def orun_read [OF assms])
  show "orun (kept c h) (iob_set_string h b s off slen soff)"
    using assms(1) by (auto simp: iob_set_string_def Let_def kept_def intro!: write_kept [OF assms])
  show "orun (kept c h) (iob_clear h b v off len)"
    using assms(1) by (auto simp: iob_clear_def Let_def kept_def intro!: write_kept [OF assms])
qed

lemma orun_other:
  assumes "heap_ok c h" "b < length h" "val_ok c h v" "\<And>n. n < length h \<Longrightarrow> P n"
  shows "orun P (iob_other h b v)"
  using assms buf_okD(1) [OF heap_okD [OF assms(1,2)]]
  by (auto simp: iob_other_def val_ok_def Let_def split: RbVal.split obj.splits)

lemma orun_bind_other:
  assumes "heap_ok c h" "b < length h" "val_ok c h v" "\<And>n. n < length h \<Longrightarrow> orun P (f n)"
  shows "orun P (obind (iob_other h b v) f)"
  using orun_other [OF assms(1-3), of "\<lambda>n. orun P (f n)"] assms(4) by simp

lemma safe_copy:
  assumes "heap_ok c h" "b < length h" "val_ok c h v"
  shows "orun (kept c h) (iob_copy h b v off len soff)"
proof -
  have rd: "orun P (mem_read h (ptr_add (iob_base h src) soff) (nat l)) = P (take (nat l) (drop (nat soff) (contents h src)))"
    if "src < length h" "\<not> iob_slice_invalid h src" "0 \<le> soff" "0 < l" "l \<le> b_size (h ! src) - soff" for P l src
    using that by (intro orun_read [OF assms(1) that(1)]) auto
  have len: "length (take (nat l) (drop (nat soff) (contents h src))) = nat l"
    if "src < length h" "\<not> iob_slice_invalid h src" "0 \<le> soff" "0 < l" "l \<le> b_size (h ! src) - soff" for l src
  proof -
    have "nat l \<le> nat (b_size (h ! src)) - nat soff" using that by linarith
    then show ?thesis using contents_length [OF assms(1) that(1,2)] by simp
  qed
  have wr: "orun (\<lambda>h'. heap_ok c h' \<and> length h \<le> length h')
      (mem_write h (ptr_add (iob_base h b) off) (take (nat l) (drop (nat soff) (contents h src))))"
    if "src < length h" "\<not> iob_slice_invalid h src" "0 \<le> soff" "0 < l" "l \<le> b_size (h ! src) - soff"
      "\<not> iob_slice_invalid h b" "0 \<le> off" "l \<le> b_size (h ! b) - off" for l src
    using len [OF that(1-5)] that by (intro write_kept [OF assms(1,2)]) linarith+
  show ?thesis unfolding iob_copy_def Let_def
    by (rule orun_bind_other [OF assms]) (simp add: rd wr kept_def assms(1) del: length_take)
qed

lemma safe_slice:
  assumes "heap_ok c h" "b < length h"
  shows "orun (kept c h) (iob_slice h b off len)"
proof -
  note B = buf_okD [OF heap_okD [OF assms]]
  have "buf_ok c h ((iob_alloc_obj (b_cls (h ! b)))\<lparr>
      b_source := (case b_source (h ! b) of Some s \<Rightarrow> Some s | None \<Rightarrow> Some b),
      b_off := (if b_source (h ! b) \<noteq> None then b_off (h ! b) else 0) + off,
      b_size := len, b_flags := SP_IOB_SLICE OR (b_flags (h ! b) AND SP_IOB_READONLY)\<rparr>)"
    if v: "\<not> iob_slice_invalid h b" "0 \<le> off" "0 \<le> len" "off + len \<le> b_size (h ! b)"
  proof (cases "b_source (h ! b)")
    case None
    then show ?thesis using v B(1,3) assms(2) by (simp add: buf_ok_def iob_alloc_obj_def)
  next
    case (Some s)
    note S = buf_okD [OF heap_okD [OF assms(1) B(7) [OF Some]]]
    have "b_off (h ! b) + off \<le> INT64_MAX" using v(1,3,4) S(3) Some by (simp add: iob_slice_invalid_def)
    then show ?thesis using v B Some by (simp add: buf_ok_def iob_alloc_obj_def)
  qed
  then show ?thesis unfolding iob_slice_def by (simp add: safe_new [OF assms(1)])
qed

lemma safe_resize:
  assumes "heap_ok c h" "b < length h" "nsize \<le> INT64_MAX"
  shows "orun (kept c h) (sp_IOBuffer_resize h b nsize)"
proof -
  note B = buf_okD [OF heap_okD [OF assms(1,2)]]
  have d: "orun (\<lambda>d. heap_ok c (h[b := (h ! b)\<lparr>b_source := None, b_off := 0, b_data := d, b_size := nsize, b_flags := f\<rparr>]))
      (detach_data h (iob_base h b) (b_size (h ! b)) nsize)"
    if "\<not> iob_slice_invalid h b" "0 \<le> nsize" for f
  proof -
    have "orun (\<lambda>d. case d of None \<Rightarrow> nsize = 0 | Some d \<Rightarrow> nsize = int (length d))
        (detach_data h (iob_base h b) (b_size (h ! b)) nsize)"
      using that by (auto simp: detach_data_def Let_def orun_read0 [OF assms(1,2)])
    then show ?thesis
      by (rule orun_mono, intro heap_ok_update [OF assms(1,2)])
        (use that assms(3) in \<open>auto simp: buf_ok_def B(1) split: option.splits\<close>)
  qed
  have r: "heap_ok c (h[b := (iob_release (h ! b))\<lparr>b_size := 0\<rparr>])" if "b_source (h ! b) = None"
    using that B(1,4) by (intro heap_ok_update [OF assms(1,2)]) (simp_all add: buf_ok_def iob_release_def)
  have g: "heap_ok c (h[b := (h ! b)\<lparr>b_data := Some (grown (b_data (h ! b)) nsize), b_size := nsize, b_flags := f\<rparr>])"
    if "b_source (h ! b) = None" "0 \<le> nsize" for f
    using that B(1,4) assms(3) by (intro heap_ok_update [OF assms(1,2)]) (simp_all add: buf_ok_def grown_def Let_def)
  show ?thesis unfolding sp_IOBuffer_resize_def Let_def using d r g by (simp add: kept_def)
qed

lemma safe_owner_changes:
  assumes "heap_ok c h" "b < length h"
  shows "orun (kept c h) (sp_IOBuffer_transfer h b)" "orun (kept c h) (sp_IOBuffer_free_m h b)"
    "int (length s) \<le> INT64_MAX \<Longrightarrow> orun (kept c h) (sp_IOBuffer_become_for h b s)"
proof -
  note B = heap_okD [OF assms]
  have r: "heap_ok c (h[b := (h ! b)\<lparr>b_data := None, b_source := None, b_off := 0, b_size := 0, b_map := m\<rparr>])" for m
    using buf_okD(1) [OF B] by (intro heap_ok_update [OF assms]) (simp_all add: buf_ok_def)
  have "buf_ok c (h[b := (h ! b)\<lparr>b_data := None, b_source := None, b_off := 0, b_size := 0, b_map := m\<rparr>]) (h ! b)" for m
    using B assms(2) by (auto simp: buf_ok_def nth_list_update split: option.splits)
  then show "orun (kept c h) (sp_IOBuffer_transfer h b)"
    using heap_ok_append [OF r] by (simp add: sp_IOBuffer_transfer_def Let_def kept_def)
  note c = buf_okD(1) [OF B]
  show "orun (kept c h) (sp_IOBuffer_free_m h b)"
    by (auto simp: c sp_IOBuffer_free_m_def kept_def iob_release_def buf_ok_def intro!: heap_ok_update [OF assms])
  show "int (length s) \<le> INT64_MAX \<Longrightarrow> orun (kept c h) (sp_IOBuffer_become_for h b s)"
    by (auto simp: c sp_IOBuffer_become_for_def kept_def iob_release_def buf_ok_def intro!: heap_ok_update [OF assms])
qed

lemma data_ptr_base: "b_source (h ! b) = None \<Longrightarrow> data_ptr h b = iob_base h b"
  by (simp add: iob_base_def)

lemma not_invalid_owner: "b_source (h ! b) = None \<Longrightarrow> \<not> iob_slice_invalid h b"
  by (simp add: iob_slice_invalid_def)

lemma buf_ok_fresh:
  "buf_ok c h (iob_alloc_obj c)"
  "int (length d) \<le> INT64_MAX \<Longrightarrow> buf_ok c h ((iob_alloc_obj c)\<lparr>b_data := Some d, b_size := int (length d), b_flags := f\<rparr>)"
  by (simp_all add: buf_ok_def iob_alloc_obj_def)

lemma buf_ok_fresh_sized:
  "n = int (length d) \<Longrightarrow> n \<le> INT64_MAX \<Longrightarrow>
    buf_ok c h ((iob_alloc_obj c)\<lparr>b_data := Some d, b_size := n, b_flags := f\<rparr>)"
  using buf_ok_fresh(2) by simp

lemma orun_owner_ptr:
  "orun P (if b_source (h ! b) \<noteq> None then iob_ptr h b else Done (data_ptr h b)) =
    (\<not> iob_slice_invalid h b \<longrightarrow> P (iob_base h b))"
  using not_invalid_owner [of h b] by (auto simp: data_ptr_base)

lemma safe_dup:
  assumes "heap_ok c h" "b < length h"
  shows "orun (kept c h) (sp_IOBuffer_dup_m h b)" "orun (kept c h) (sp_IOBuffer_not h b)"
proof -
  note B = buf_okD [OF heap_okD [OF assms]]
  have len: "b_size (h ! b) = int (length (contents h b))" if "\<not> iob_slice_invalid h b"
    using contents_length [OF assms that] B(2) by simp
  have rd: "orun P (mem_read h (iob_base h b) (nat (b_size (h ! b)))) = P (contents h b)"
    if "\<not> iob_slice_invalid h b" "0 < b_size (h ! b)" for P
    using orun_read0 [OF assms that(1), of "nat (b_size (h ! b))" P] that contents_length [OF assms that(1)] by simp
  have n: "orun (kept c h) (new_obj h (Done ((iob_alloc_obj c)\<lparr>b_data := Some d, b_size := b_size (h ! b), b_flags := f\<rparr>)))"
    if "b_size (h ! b) = int (length d)" for d f
    using that B(3) by (intro safe_new [OF assms(1)]) (simp add: buf_ok_fresh_sized)
  have e: "orun (kept c h) (new_obj h (Done (iob_alloc_obj c)))"
    by (intro safe_new [OF assms(1)]) (simp add: buf_ok_fresh)
  show "orun (kept c h) (sp_IOBuffer_dup_m h b)"
    unfolding sp_IOBuffer_dup_m_def B(1) orun_simps orun_owner_ptr
  proof (intro impI)
    assume v: "\<not> iob_slice_invalid h b"
    show "orun (kept c h) (if iob_base h b \<noteq> None
       then obind (if b_size (h ! b) > 0 then mem_read h (iob_base h b) (nat (b_size (h ! b))) else Done []) (\<lambda>bs.
            new_obj h (Done ((iob_alloc_obj c)\<lparr>b_data := Some bs, b_size := b_size (h ! b), b_flags := SP_IOB_INTERNAL\<rparr>)))
       else new_obj h (Done (iob_alloc_obj c)))"
      using rd [OF v] n [OF len [OF v]] n [of "[]"] B(2) e by (cases "b_size (h ! b) > 0") simp_all
  qed
  show "orun (kept c h) (sp_IOBuffer_not h b)"
  proof (cases "b_size (h ! b) > 0")
    case True
    have m: "orun (kept c h) (if p \<noteq> None then obind (mem_read h (iob_base h b) (nat (b_size (h ! b)))) (\<lambda>bs.
          new_obj h (Done ((iob_alloc_obj c)\<lparr>b_data := Some (map (\<lambda>x. NOT x) bs), b_size := b_size (h ! b),
            b_flags := SP_IOB_INTERNAL\<rparr>)))
        else new_obj h (Done (iob_alloc_obj c)))" if v: "\<not> iob_slice_invalid h b" for p
      using rd [OF v True] n [of "map (\<lambda>x. NOT x) (contents h b)"] len [OF v] e by simp
    then show ?thesis unfolding sp_IOBuffer_not_def B(1) Let_def if_P [OF True] orun_simps orun_owner_ptr by blast
  qed (simp add: sp_IOBuffer_not_def B(1) e)
qed

lemma safe_compare:
  assumes "heap_ok c h" "b < length h" "val_ok c h v"
  shows "orun (\<lambda>_. True) (sp_IOBuffer_cmp h b v)" "orun (\<lambda>_. True) (sp_IOBuffer_eq h b v)"
proof -
  have core: "orun (\<lambda>_. True) (iob_cmp_core h b n)" if "n < length h" for n
    using orun_read0 [OF assms(1,2)] orun_read0 [OF assms(1) that] by (simp add: iob_cmp_core_def Let_def)
  then show "orun (\<lambda>_. True) (sp_IOBuffer_cmp h b v)"
    unfolding sp_IOBuffer_cmp_def by (rule orun_bind_other [OF assms])
  show "orun (\<lambda>_. True) (sp_IOBuffer_eq h b v)"
    unfolding sp_IOBuffer_eq_def by (rule orun_bind_other [OF assms]) (simp add: core)
qed

lemma safe_bitop:
  assumes "heap_ok c h" "b < length h" "val_ok c h v"
  shows "orun (kept c h) (iob_bitop h b v f)"
proof -
  note B = buf_okD [OF heap_okD [OF assms(1,2)]] and N = buf_okD [OF heap_okD [OF assms(1)]]
  have nw: "orun (kept c h) (new_obj h (Done ((iob_alloc_obj c)\<lparr>b_data := Some d, b_size := b_size (h ! b), b_flags := g\<rparr>)))"
    if "b_size (h ! b) = int (length d)" for d g
    using that B(2,3) by (intro safe_new [OF assms(1)]) (simp add: buf_ok_fresh_sized)
  have e: "orun (kept c h) (new_obj h (Done (iob_alloc_obj c)))"
    by (intro safe_new [OF assms(1)]) (simp add: buf_ok_fresh)
  have r: "orun P (mem_read h (iob_base h b) (nat (b_size (h ! b)))) = P (contents h b)"
    if "\<not> iob_slice_invalid h b" "0 < b_size (h ! b)" for P
    using orun_read0 [OF assms(1,2) that(1), of "nat (b_size (h ! b))" P] that contents_length [OF assms(1,2) that(1)] by simp
  have q: "orun P (mem_read h (iob_base h n) (min (nat (b_size (h ! b))) (nat (b_size (h ! n))))) =
      P (take (min (nat (b_size (h ! b))) (nat (b_size (h ! n)))) (contents h n))"
    if "n < length h" "b_size (h ! n) \<noteq> 0" "\<not> iob_slice_invalid h n" "0 < b_size (h ! b)" for P n
    using that N(2) [OF that(1)] by (intro orun_read0 [OF assms(1) that(1)]) auto
  show ?thesis unfolding iob_bitop_def Let_def B(1)
    by (rule orun_bind_other [OF assms]) (simp add: r q e nw)
qed

section \<open>In place\<close>

lemma bitop_loop_safe:
  assumes "heap_ok c h" "b < length h" "\<not> iob_slice_invalid h b" "n < length h" "\<not> iob_slice_invalid h n"
    "0 < m" "int m \<le> b_size (h ! n)" "int (i + k) \<le> b_size (h ! b)"
  shows "orun (same_shape h) (bitop_loop f h (iob_base h b) (iob_base h n) m i k)"
  using assms
proof (induction k arbitrary: h i)
  case (Suc k)
  let ?x = "take 1 (drop i (contents h b))" and ?y = "take 1 (drop (i mod m) (contents h n))"
  have r: "orun P (mem_read h (ptr_add (iob_base h b) (int i)) 1) = P ?x" for P
    using orun_read [OF Suc.prems(1-3), of "int i" 1 P] Suc.prems(8) by simp
  have "int (i mod m) < int m" using Suc.prems(6) by simp
  then have q: "orun P (mem_read h (ptr_add (iob_base h n) (int (i mod m))) 1) = P ?y" for P
    using orun_read [OF Suc.prems(1,4,5), of "int (i mod m)" 1 P] Suc.prems(7) by simp
  have w: "orun (\<lambda>h'. orun (same_shape h) (bitop_loop f h' (iob_base h b) (iob_base h n) m (Suc i) k))
      (mem_write h (ptr_add (iob_base h b) (int i)) [f (hd ?x) (hd ?y)])"
  proof (rule orun_write [OF Suc.prems(1-3)])
    fix h' assume sh: "same_shape h h'"
    note I = same_shape_invalid [OF Suc.prems(1) sh] and S = same_shapeD [OF sh]
    have "orun (same_shape h') (bitop_loop f h' (iob_base h' b) (iob_base h' n) m (Suc i) k)"
    proof (rule Suc.IH)
      show "int (Suc i + k) \<le> b_size (h' ! b)" using Suc.prems(8) S(2) [OF Suc.prems(2)] by simp
    qed (use Suc.prems I S(2,7) same_shape_ok [OF Suc.prems(1) sh] in simp_all)
    then show "orun (same_shape h) (bitop_loop f h' (iob_base h b) (iob_base h n) m (Suc i) k)"
      unfolding I(2) [OF Suc.prems(2)] I(2) [OF Suc.prems(4)] by (rule orun_mono) (rule same_shape_trans [OF sh])
  qed (use Suc.prems(8) in simp_all)
  show ?case unfolding bitop_loop.simps orun_simps r q by (rule w)
qed simp

lemma safe_in_place:
  assumes "heap_ok c h" "b < length h"
  shows "val_ok c h v \<Longrightarrow> orun (kept c h) (iob_bitop_ip h b v f)" "orun (kept c h) (sp_IOBuffer_not_ip h b)"
proof -
  note B = buf_okD [OF heap_okD [OF assms]] and N = buf_okD [OF heap_okD [OF assms(1)]]
  have l: "orun (\<lambda>h'. kept c h (r, h')) (bitop_loop g h (iob_base h b) (iob_base h n) (nat (b_size (h ! n))) 0 (nat (b_size (h ! b))))"
    if "n < length h" "\<not> iob_slice_invalid h b" "\<not> iob_slice_invalid h n" "b_size (h ! n) \<noteq> 0" for g n and r :: nat
    using N(2) [OF that(1)] B(2) that kept_shape [OF assms(1)]
    by (intro orun_mono [OF bitop_loop_safe [OF assms that(2) that(1,3)]]) simp_all
  show "val_ok c h v \<Longrightarrow> orun (kept c h) (iob_bitop_ip h b v f)"
    unfolding iob_bitop_ip_def by (rule orun_bind_other [OF assms]) (simp_all add: l)
  show "orun (kept c h) (sp_IOBuffer_not_ip h b)"
    using l [OF assms(2), where g = "\<lambda>x y. NOT x"] assms(1) B(2) by (cases "b_size (h ! b) > 0") (simp_all add: sp_IOBuffer_not_ip_def kept_def)
qed

section \<open>Rendering\<close>

lemma hex_nat_length: "n < 16 ^ k \<Longrightarrow> 0 < k \<Longrightarrow> length (hex_nat n) \<le> k"
proof (induction k arbitrary: n)
  case (Suc k)
  show ?case
  proof (cases "n < 16")
    case False
    then have "0 < k" using Suc.prems(1) by (cases k) simp_all
    then have "length (hex_nat (n div 16)) \<le> k" using Suc.IH [of "n div 16"] Suc.prems(1) by (simp add: less_mult_imp_div_less)
    then show ?thesis using False by (simp add: hex_nat.simps [of n] Let_def)
  qed (simp add: hex_nat.simps [of n])
qed simp

lemma hex_byte_length: "length (pad0 2 (hex_nat (unat (x :: byte)))) = 2"
proof -
  have "unat x < 16 ^ 2" using unsigned_less [of x] by simp
  then show ?thesis using hex_nat_length [of "unat x" 2] by (simp add: pad0_def)
qed

lemma hexline_length:
  assumes "length bs \<le> w" "addr < 2 ^ 63"
  shows "length (iob_hexline addr w bs) \<le> 4 * w + 20"
proof -
  have "nat addr < 16 ^ 16" using assms(2) by simp
  then have a: "length (pad0 8 (hex_nat (nat addr))) \<le> 16" using hex_nat_length [of "nat addr" 16] by (simp add: pad0_def)
  have "length (concat (map (\<lambda>i. if i < length bs then CHR '' '' # pad0 2 (hex_nat (unat (bs ! i))) else ''   '') [0..<w])) = 3 * w"
    by (simp add: length_concat comp_def if_distrib hex_byte_length sum_list_triv numeral_3_eq_3 cong: if_cong)
  then show ?thesis using a assms(1) by (simp add: iob_hexline_def)
qed

lemma hex_lines_safe:
  assumes "heap_ok c h" "b < length h" "\<not> iob_slice_invalid h b" "0 \<le> a" "0 < w" "stop \<le> b_size (h ! b)"
    "n = 0 \<or> a + int (n - 1) * int w < stop"
  shows "orun (\<lambda>s. length s \<le> n * (4 * w + 21)) (hex_lines h (iob_base h b) stop w first a n)"
  using assms(4,7)
proof (induction n arbitrary: a first)
  case (Suc n)
  have max: "b_size (h ! b) \<le> INT64_MAX" using buf_okD(3) [OF heap_okD [OF assms(1,2)]] .
  have "a + int n * int w < stop" "0 \<le> int n * int w" using Suc.prems(2) by simp_all
  then have a: "a < stop" by linarith
  let ?k = "nat (min (int w) (stop - a))"
  have k: "0 < ?k" "a + int ?k \<le> b_size (h ! b)" "?k \<le> w" using a assms(5,6) by auto
  have IH: "orun (\<lambda>s. length s \<le> n * (4 * w + 21)) (hex_lines h (iob_base h b) stop w False (a + int w) n)"
  proof (rule Suc.IH)
    show "n = 0 \<or> a + int w + int (n - 1) * int w < stop" using Suc.prems(2) by (cases n) (simp_all add: algebra_simps)
  qed (use Suc.prems(1) in simp)
  have hl: "length (iob_hexline a w (take ?k (drop (nat a) (contents h b)))) \<le> 4 * w + 20"
    using k(3) a assms(6) max by (intro hexline_length) (auto simp: INT64_MAX_def)
  show ?case unfolding hex_lines.simps orun_simps orun_read [OF assms(1-3) Suc.prems(1) k(1,2)]
    by (rule orun_mono [OF IH]) (use hl in auto)
qed simp

lemma line_count:
  assumes "0 < (w :: int)" "0 \<le> l"
  defines "n \<equiv> l div w + (if l mod w \<noteq> 0 then 1 else 0)"
  shows "0 \<le> n" "nat n = 0 \<or> int (nat n - 1) * w < l"
proof -
  have d: "l = w * (l div w) + l mod w" "0 \<le> l mod w" "l mod w < w" "0 \<le> l div w"
    using assms(1,2) by (simp_all add: pos_imp_zdiv_nonneg_iff)
  show n: "0 \<le> n" using d(4) by (simp add: n_def)
  show "nat n = 0 \<or> int (nat n - 1) * w < l"
  proof (cases "nat n = 0")
    case False
    then have e: "int (nat n - 1) = n - 1" by simp
    show ?thesis
    proof (cases "l mod w = 0")
      case True
      then have "(n - 1) * w = l - w" using d(1) by (simp add: n_def algebra_simps)
      then show ?thesis unfolding e using assms(1) by simp
    next
      case False
      then have "(n - 1) * w = l - l mod w" using d(1) by (simp add: n_def algebra_simps)
      then show ?thesis unfolding e using d(2) False by simp
    qed
  qed simp
qed

lemma safe_hexdump:
  assumes "heap_ok c h" "b < length h"
  shows "orun (\<lambda>_. True) (iob_hexdump h b off len width)"
proof -
  have inv: "\<not> (b_source (h ! b) \<noteq> None \<and> iob_slice_invalid h b) \<Longrightarrow> \<not> iob_slice_invalid h b"
    using not_invalid_owner by blast
  have lines: "orun (\<lambda>s. orun (\<lambda>_. True) (if length s < tot then Done (HexText s) else Undef))
      (hex_lines h (iob_base h b) (o' + l') (nat width) True o' (nat (l' div width + (if l' mod width \<noteq> 0 then 1 else 0))))"
    if v: "\<not> iob_slice_invalid h b" "0 \<le> o'" "1 \<le> width" "0 \<le> l'" "o' + l' \<le> b_size (h ! b)"
      "hexdump_total (l' div width + (if l' mod width \<noteq> 0 then 1 else 0)) width = Some tot" for o' l' tot
  proof -
    let ?n = "l' div width + (if l' mod width \<noteq> 0 then 1 else 0)"
    have w: "0 < nat width" "0 < width" "int (nat width) = width" using v(3) by simp_all
    have t: "tot = (if ?n > 0 then nat ?n else 1) * (4 * nat width + 40)"
      using v(6) by (simp add: hexdump_total_def Let_def split: if_splits)
    have "orun (\<lambda>s. length s \<le> nat ?n * (4 * nat width + 21)) (hex_lines h (iob_base h b) (o' + l') (nat width) True o' (nat ?n))"
      using line_count(2) [OF w(2) v(4)] w(3)
      by (intro hex_lines_safe [OF assms v(1,2) w(1) v(5)]) auto
    then show ?thesis
    proof (rule orun_mono)
      fix s :: string assume "length s \<le> nat ?n * (4 * nat width + 21)"
      moreover have "nat ?n * (4 * nat width + 21) < tot" unfolding t
        by (cases "?n > 0") (simp_all add: mult_less_cancel1 del: One_nat_def)
      ultimately show "orun (\<lambda>_. True) (if length s < tot then Done (HexText s) else Undef)" by simp
    qed
  qed
  have inner: "orun (\<lambda>_. True) (case hexdump_total (l' div width + (if l' mod width \<noteq> 0 then 1 else 0)) width of
        None \<Rightarrow> Done HexOom
      | Some tot \<Rightarrow> obind (hex_lines h (iob_base h b) (o' + l') (nat width) True o'
          (nat (l' div width + (if l' mod width \<noteq> 0 then 1 else 0)))) (\<lambda>s. if length s < tot then Done (HexText s) else Undef))"
    if "\<not> iob_slice_invalid h b" "0 \<le> o'" "1 \<le> width" "0 \<le> l'" "o' + l' \<le> b_size (h ! b)" for o' l'
    using lines [OF that] by (cases "hexdump_total (l' div width + (if l' mod width \<noteq> 0 then 1 else 0)) width") simp_all
  have sz: "0 \<le> b_size (h ! b)" using buf_okD(2) [OF heap_okD [OF assms]] .
  show ?thesis
  proof (cases "iob_base h b = None")
    case False
    show ?thesis unfolding iob_hexdump_def Let_def if_not_P [OF False] orun_simps orun_arg
      by (intro impI, drule inv, rule inner) (use sz in \<open>auto simp: not_less\<close>)
  qed (simp add: iob_hexdump_def)
qed

end
