(* ===== verification/IobFrozen.thy ===== *)
theory IobFrozen
  imports IobSafe
begin

unbundle bit_operations_syntax

text \<open>
  Read-only buffers of IO::Buffer: a slice carries the flag of the buffer it views, so no write reaches
  the bytes of a read-only buffer, whichever object the program writes through.
\<close>

section \<open>The pointers and the checks\<close>

lemma opost_arg [simp]: "opost P (iob_arg b m k) = (\<not> b \<longrightarrow> opost P k)"
  by (simp add: iob_arg_def)

lemma opost_ptrs [simp]:
  "opost P (iob_ptr h b) = (\<not> iob_slice_invalid h b \<longrightarrow> P (iob_base h b))"
  "opost P (iob_value_wptr h b off w) = (\<not> iob_value_oob h b off w \<and> \<not> iob_slice_invalid h b \<longrightarrow> P (ptr_add (iob_base h b) off))"
  by (auto simp: iob_ptr_def iob_value_wptr_def iob_writable_slice_def iob_value_range_error_def)

lemma opost_checks [simp]:
  "opost P (iob_readonly h b k) = (b_flags (h ! b) AND SP_IOB_READONLY = 0 \<longrightarrow> opost P k)"
  "opost P (iob_writable h b k) = (b_flags (h ! b) AND SP_IOB_READONLY = 0 \<and> \<not> iob_slice_invalid h b \<longrightarrow> opost P k)"
  "opost P (iob_range h b off len k) = (0 \<le> off \<and> 0 \<le> len \<and> off + len \<le> b_size (h ! b) \<longrightarrow> opost P k)"
  by (auto simp: iob_readonly_def iob_writable_slice_def iob_writable_def iob_range_def)

section \<open>Read-only owners\<close>

definition is_ro :: "IOBuffer \<Rightarrow> bool" where
  "is_ro x \<longleftrightarrow> b_flags x AND SP_IOB_READONLY \<noteq> 0"

lemma ro_bits:
  "(f OR SP_IOB_INTERNAL) AND SP_IOB_READONLY = f AND SP_IOB_READONLY"
  "(f OR SP_IOB_LOCKED) AND SP_IOB_READONLY = f AND SP_IOB_READONLY"
  "(f AND NOT SP_IOB_LOCKED) AND SP_IOB_READONLY = f AND SP_IOB_READONLY"
  "(SP_IOB_SLICE OR (f AND SP_IOB_READONLY)) AND SP_IOB_READONLY = f AND SP_IOB_READONLY"
  "(SP_IOB_INTERNAL OR (f AND SP_IOB_READONLY)) AND SP_IOB_READONLY = f AND SP_IOB_READONLY"
  by (simp_all add: SP_IOB_LOCKED_def SP_IOB_READONLY_def SP_IOB_INTERNAL_def SP_IOB_SLICE_def bit.conj_disj_distrib2 and.assoc)

definition ro_ok :: "heap \<Rightarrow> bool" where
  "ro_ok h \<longleftrightarrow> (\<forall>b < length h. case b_source (h ! b) of None \<Rightarrow> True | Some s \<Rightarrow> is_ro (h ! s) \<longrightarrow> is_ro (h ! b))"

text \<open>The objects outside \<open>J\<close> that own read-only bytes keep them.\<close>

definition ro_step :: "nat set \<Rightarrow> heap \<Rightarrow> heap \<Rightarrow> bool" where
  "ro_step J h h' \<longleftrightarrow> ro_ok h' \<and> (\<forall>i < length h. i \<notin> J \<and> b_source (h ! i) = None \<and> is_ro (h ! i) \<longrightarrow>
     i < length h' \<and> b_source (h' ! i) = None \<and> is_ro (h' ! i) \<and> b_data (h' ! i) = b_data (h ! i))"

lemma ro_okD: "ro_ok h \<Longrightarrow> b < length h \<Longrightarrow> b_source (h ! b) = Some s \<Longrightarrow> is_ro (h ! s) \<Longrightarrow> is_ro (h ! b)"
  by (fastforce simp: ro_ok_def)

lemma ro_step_refl: "ro_ok h \<Longrightarrow> ro_step J h h"
  by (simp add: ro_step_def)

lemma ro_step_trans: "ro_step J h h1 \<Longrightarrow> ro_step J h1 h2 \<Longrightarrow> ro_step J h h2"
  unfolding ro_step_def by metis

lemma ro_append:
  assumes "heap_ok c h" "ro_ok h" "\<And>s. b_source x = Some s \<Longrightarrow> s < length h \<and> (is_ro (h ! s) \<longrightarrow> is_ro x)"
  shows "ro_step J h (h @ [x])"
proof -
  have "ro_ok (h @ [x])" unfolding ro_ok_def
  proof (intro allI impI)
    fix b assume b: "b < length (h @ [x])"
    show "case b_source ((h @ [x]) ! b) of None \<Rightarrow> True | Some s \<Rightarrow> is_ro ((h @ [x]) ! s) \<longrightarrow> is_ro ((h @ [x]) ! b)"
    proof (cases "b < length h")
      case True
      then show ?thesis using ro_okD [OF assms(2) True] buf_okD(7) [OF heap_okD [OF assms(1) True]]
        by (auto simp: nth_append split: option.split)
    next
      case False
      then have "(h @ [x]) ! b = x" using b by (simp add: nth_append)
      then show ?thesis using assms(3) by (auto simp: nth_append split: option.split)
    qed
  qed
  then show ?thesis by (simp add: ro_step_def nth_append)
qed

lemma ro_update:
  assumes "heap_ok c h" "ro_ok h" "b < length h" "b_source x = None" "is_ro x \<Longrightarrow> b_source (h ! b) = None \<Longrightarrow> is_ro (h ! b)"
  shows "ro_step {b} h (h[b := x])"
proof -
  have "ro_ok (h[b := x])" unfolding ro_ok_def
  proof (intro allI impI)
    fix j assume j: "j < length (h[b := x])"
    show "case b_source (h[b := x] ! j) of None \<Rightarrow> True | Some s \<Rightarrow> is_ro (h[b := x] ! s) \<longrightarrow> is_ro (h[b := x] ! j)"
    proof (cases "j = b")
      case False
      have "is_ro (h ! j)" if "b_source (h ! j) = Some s" "is_ro (h[b := x] ! s)" for s
        using that assms(3,5) ro_okD [OF assms(2) _ that(1)] buf_okD(9) [OF heap_okD [OF assms(1)] that(1)] j
        by (cases "s = b") auto
      then show ?thesis using False by (auto split: option.split)
    qed (use assms(3,4) in simp)
  qed
  then show ?thesis using assms(3) by (auto simp: ro_step_def)
qed

text \<open>The flags other than the read-only one do not matter.\<close>

lemma ro_flags:
  assumes "ro_ok h" "is_ro ((h ! b)\<lparr>b_flags := f\<rparr>) = is_ro (h ! b)" "b < length h"
  shows "ro_step J h (h[b := (h ! b)\<lparr>b_flags := f\<rparr>])"
proof -
  let ?h = "h[b := (h ! b)\<lparr>b_flags := f\<rparr>]"
  have s: "is_ro (?h ! i) = is_ro (h ! i)" "b_source (?h ! i) = b_source (h ! i)" "b_data (?h ! i) = b_data (h ! i)" for i
    using assms(2,3) by (cases "i = b", simp_all)+
  show ?thesis using assms(1) unfolding ro_step_def ro_ok_def s by simp
qed

text \<open>A write through an object that is not read-only.\<close>

lemma ro_write:
  assumes "heap_ok c h" "ro_ok h" "b < length h" "\<not> is_ro (h ! b)"
  shows "opost (\<lambda>h'. ro_step J h h' \<and> same_shape h h') (mem_write h (ptr_add (iob_base h b) off) bs)"
proof (cases "mem_write h (ptr_add (iob_base h b) off) bs")
  case (Done h')
  then obtain ow i d where p: "ptr_add (iob_base h b) off = Some (ow, i)" "b_data (h ! ow) = Some d" "0 \<le> i"
      "i + int (length bs) \<le> int (length d)" "h' = h[ow := (h ! ow)\<lparr>b_data := Some (put_bytes d (nat i) bs)\<rparr>]"
    by (auto simp: mem_write_def split: option.splits if_splits prod.splits)
  have ow: "\<not> is_ro (h ! ow)"
  proof (cases "b_source (h ! b)")
    case None
    then show ?thesis using p(1) assms(4) by (auto simp: iob_base_def ptr_add_def data_ptr_def split: option.splits)
  next
    case (Some s)
    then have "ow = s" using p(1) by (auto simp: iob_base_def ptr_add_def data_ptr_def split: option.splits)
    then show ?thesis using ro_okD [OF assms(2,3) Some] assms(4) by blast
  qed
  have l: "length (put_bytes d (nat i) bs) = length d" using p(3,4) by (intro put_bytes_length) linarith
  have f: "b_flags (h' ! j) = b_flags (h ! j) \<and> b_source (h' ! j) = b_source (h ! j) \<and> (is_ro (h ! j) \<longrightarrow> b_data (h' ! j) = b_data (h ! j))" for j
    unfolding p(5) using ow by (cases "j = ow"; cases "ow < length h"; simp add: list_update_beyond)
  then have g: "is_ro (h' ! j) = is_ro (h ! j)" "b_source (h' ! j) = b_source (h ! j)" for j by (simp_all add: is_ro_def)
  have n: "length h' = length h" by (simp add: p(5))
  have "ro_step J h h'" using assms(2) f unfolding ro_step_def ro_ok_def g n by simp
  moreover have "same_shape h h'" unfolding same_shape_def p(5)
  proof (intro conjI allI impI)
    fix j assume "j < length h"
    then show "\<exists>d'. h[ow := (h ! ow)\<lparr>b_data := Some (put_bytes d (nat i) bs)\<rparr>] ! j = (h ! j)\<lparr>b_data := d'\<rparr> \<and>
        map_option length d' = map_option length (b_data (h ! j))"
      using p(2) l
      by (intro exI [of _ "if j = ow then Some (put_bytes d (nat i) bs) else b_data (h ! j)"]) simp
  qed simp
  ultimately show ?thesis using Done by simp
qed simp_all


section \<open>Every operation\<close>

definition ro_post :: "nat set \<Rightarrow> heap \<Rightarrow> 'r \<times> heap \<Rightarrow> bool" where
  "ro_post J h rh = ro_step J h (snd rh)"

lemma ro_new:
  assumes "heap_ok c h" "ro_ok h" "opost (\<lambda>x. \<forall>s. b_source x = Some s \<longrightarrow> s < length h \<and> (is_ro (h ! s) \<longrightarrow> is_ro x)) m"
  shows "opost (ro_post J h) (new_obj h m)"
  using assms(3) unfolding new_obj_def opost_simps by (rule opost_mono) (simp add: ro_post_def ro_append [OF assms(1,2)])

lemma ro_write_post:
  assumes "heap_ok c h" "ro_ok h" "b < length h" "b_flags (h ! b) AND SP_IOB_READONLY = 0"
  shows "opost (\<lambda>h'. ro_post J h (r, h')) (mem_write h (ptr_add (iob_base h b) off) bs)"
  using ro_write [OF assms(1-3), of J off bs] assms(4) by (auto simp: ro_post_def is_ro_def elim: opost_mono)

lemma ro_stores:
  assumes "heap_ok c h" "ro_ok h" "b < length h"
  shows "opost (ro_post J h) (iob_set_core be h b ty off v)" "opost (ro_post J h) (iob_set_string h b s off len soff)"
    "opost (ro_post J h) (iob_clear h b v' off len)" "opost (ro_post J h) (iob_copy h b v off len soff)"
    "opost (ro_post J h) (sp_IOBuffer_set_value be h b vt off v)"
proof -
  note w = ro_write_post [OF assms] and r = ro_step_refl [OF assms(2)]
  show s: "opost (ro_post J h) (iob_set_core be h b ty off v)" for ty
    unfolding iob_set_core_def Let_def opost_simps opost_checks opost_ptrs by (intro impI opost_any w) simp_all
  show "opost (ro_post J h) (iob_set_string h b s off len soff)"
    by (auto simp: iob_set_string_def Let_def ro_post_def r intro!: w [unfolded ro_post_def snd_conv])
  show "opost (ro_post J h) (iob_clear h b v' off len)"
    by (auto simp: iob_clear_def Let_def ro_post_def r intro!: w [unfolded ro_post_def snd_conv])
  show "opost (ro_post J h) (iob_copy h b v off len soff)"
    unfolding iob_copy_def opost_simps opost_arg
    by (intro opost_any) (auto simp: Let_def ro_post_def r intro!: opost_any w [unfolded ro_post_def snd_conv])
  show "opost (ro_post J h) (sp_IOBuffer_set_value be h b vt off v)"
    using s by (simp add: sp_IOBuffer_set_value_def Let_def)
qed

lemma ro_bitop_loop:
  assumes "heap_ok c h" "ro_ok h" "b < length h" "\<not> is_ro (h ! b)"
  shows "opost (ro_step J h) (bitop_loop f h (iob_base h b) pb m i k)"
  using assms
proof (induction k arbitrary: h i)
  case (Suc k)
  have "opost (\<lambda>h'. opost (ro_step J h) (bitop_loop f h' (iob_base h b) pb m (Suc i) k)) (mem_write h (ptr_add (iob_base h b) (int i)) bs)" for bs
  proof (rule opost_mono [OF ro_write [OF Suc.prems, of J "int i" bs]])
    fix h' assume "ro_step J h h' \<and> same_shape h h'"
    then have h': "ro_step J h h'" "same_shape h h'" by blast+
    note S = same_shapeD [OF h'(2) Suc.prems(3)] and I = same_shape_invalid(2) [OF Suc.prems(1) h'(2) Suc.prems(3)]
    have "opost (ro_step J h') (bitop_loop f h' (iob_base h' b) pb m (Suc i) k)"
      using Suc.prems S h'(1) by (intro Suc.IH same_shape_ok [OF Suc.prems(1) h'(2)]) (simp_all add: ro_step_def is_ro_def)
    then show "opost (ro_step J h) (bitop_loop f h' (iob_base h b) pb m (Suc i) k)"
      unfolding I by (rule opost_mono) (rule ro_step_trans [OF h'(1)])
  qed
  then show ?case by (auto intro!: opost_any)
qed (simp add: ro_step_refl)

lemma ro_in_place:
  assumes "heap_ok c h" "ro_ok h" "b < length h"
  shows "opost (ro_post J h) (iob_bitop_ip h b v f)" "opost (ro_post J h) (sp_IOBuffer_not_ip h b)"
proof -
  have l: "opost (\<lambda>h'. ro_post J h (r, h')) (bitop_loop g h (iob_base h b) pb m 0 k)" if "b_flags (h ! b) AND SP_IOB_READONLY = 0" for g pb m k and r :: nat
    using ro_bitop_loop [OF assms, of J g pb m 0 k] that by (auto simp: ro_post_def is_ro_def elim: opost_mono)
  show "opost (ro_post J h) (iob_bitop_ip h b v f)"
    unfolding iob_bitop_ip_def opost_simps by (intro opost_any) (simp add: l)
  show "opost (ro_post J h) (sp_IOBuffer_not_ip h b)"
    using l by (auto simp: sp_IOBuffer_not_ip_def ro_post_def ro_step_refl assms(2))
qed


lemma ro_makers:
  assumes "heap_ok c h" "ro_ok h" "b < length h"
  shows "opost (ro_post J h) (iob_slice h b off len)" "opost (ro_post J h) (sp_IOBuffer_dup_m h b)"
    "opost (ro_post J h) (iob_bitop h b v f)" "opost (ro_post J h) (sp_IOBuffer_not h b)"
proof -
  have n: "opost (ro_post J h) (new_obj h (Done x))" if "b_source x = None" for x
    using that by (intro ro_new [OF assms(1,2)]) simp
  have f: "b_source (iob_alloc_obj k) = None" for k by (simp add: iob_alloc_obj_def)
  show "opost (ro_post J h) (sp_IOBuffer_dup_m h b)" "opost (ro_post J h) (sp_IOBuffer_not h b)"
    unfolding sp_IOBuffer_dup_m_def sp_IOBuffer_not_def Let_def using n f by (auto intro!: opost_any)
  show "opost (ro_post J h) (iob_bitop h b v f)"
    unfolding iob_bitop_def opost_simps Let_def using n f by (intro opost_any) (auto intro!: opost_any)
  have ro: "is_ro (h ! b) \<Longrightarrow> is_ro (x\<lparr>b_flags := SP_IOB_SLICE OR (b_flags (h ! b) AND SP_IOB_READONLY)\<rparr>)" for x
    by (simp add: is_ro_def ro_bits)
  show "opost (ro_post J h) (iob_slice h b off len)"
    unfolding iob_slice_def opost_simps opost_checks
    using buf_okD(7) [OF heap_okD [OF assms(1,3)]] ro_okD [OF assms(2,3)] assms(3) ro
    by (intro impI ro_new [OF assms(1,2)]) (auto split: option.splits)
qed

lemma ro_owner_changes:
  assumes "heap_ok c h" "ro_ok h" "b < length h"
  shows "opost (ro_post {b} h) (sp_IOBuffer_resize h b n)" "opost (ro_post {b} h) (sp_IOBuffer_transfer h b)"
    "opost (ro_post {b} h) (sp_IOBuffer_free_m h b)"
proof -
  note u = ro_update [OF assms]
  show "opost (ro_post {b} h) (sp_IOBuffer_free_m h b)"
    by (auto simp: sp_IOBuffer_free_m_def ro_post_def is_ro_def intro!: u)
  show "opost (ro_post {b} h) (sp_IOBuffer_resize h b n)"
    unfolding sp_IOBuffer_resize_def Let_def
    by (auto simp: ro_post_def is_ro_def iob_release_def ro_bits intro!: u opost_any)
  let ?x = "(h ! b)\<lparr>b_data := None, b_source := None, b_off := 0, b_size := 0, b_map := False\<rparr>"
  have s1: "ro_step {b} h (h[b := ?x])" by (intro u) (simp_all add: is_ro_def)
  have k: "heap_ok c (h[b := ?x])"
    using buf_okD(1) [OF heap_okD [OF assms(1,3)]] by (intro heap_ok_update [OF assms(1,3)]) (simp_all add: buf_ok_def)
  have "ro_step {b} (h[b := ?x]) (h[b := ?x] @ [h ! b])"
  proof (rule ro_append [OF k])
    show "ro_ok (h[b := ?x])" using s1 by (simp add: ro_step_def)
    fix s assume s: "b_source (h ! b) = Some s"
    then have "s \<noteq> b" using buf_okD(9) [OF heap_okD [OF assms(1,3)] s] by auto
    then show "s < length (h[b := ?x]) \<and> (is_ro (h[b := ?x] ! s) \<longrightarrow> is_ro (h ! b))"
      using buf_okD(7) [OF heap_okD [OF assms(1,3)] s] ro_okD [OF assms(2,3) s] by simp
  qed
  then show "opost (ro_post {b} h) (sp_IOBuffer_transfer h b)"
    using ro_step_trans [OF s1] by (simp add: sp_IOBuffer_transfer_def Let_def ro_post_def)
qed

lemma ro_lock:
  assumes "ro_ok h" "b < length h"
  shows "ro_step J h (set_lock h b)" "ro_step J h (clear_lock h b)"
  unfolding set_lock_def clear_lock_def by (intro ro_flags [OF assms(1) _ assms(2)]; simp add: is_ro_def ro_bits)+

end
