(* ===== verification/IobLocked.thy ===== *)
theory IobLocked
  imports IobFrozen
begin

unbundle bit_operations_syntax

text \<open>
  Locked buffers of IO::Buffer: whatever the program does through other objects, a buffer that stays
  locked keeps its place, its size and the length of its allocation.
\<close>

section \<open>Locked objects\<close>

definition is_lk :: "IOBuffer \<Rightarrow> bool" where
  "is_lk x \<longleftrightarrow> b_flags x AND SP_IOB_LOCKED \<noteq> 0"

definition lk_same :: "IOBuffer \<Rightarrow> IOBuffer \<Rightarrow> bool" where
  "lk_same x y \<longleftrightarrow> is_lk y \<and> b_source y = b_source x \<and> b_off y = b_off x \<and> b_size y = b_size x \<and>
     map_option length (b_data y) = map_option length (b_data x)"

text \<open>The locked objects outside \<open>J\<close> stay as they are, but for the values of their bytes.\<close>

definition lk_step :: "nat set \<Rightarrow> heap \<Rightarrow> heap \<Rightarrow> bool" where
  "lk_step J h h' \<longleftrightarrow> length h \<le> length h' \<and> (\<forall>i < length h. i \<notin> J \<and> is_lk (h ! i) \<longrightarrow> lk_same (h ! i) (h' ! i))"

lemma lk_stepD:
  "lk_step J h h' \<Longrightarrow> length h \<le> length h'"
  "lk_step J h h' \<Longrightarrow> i < length h \<Longrightarrow> i \<notin> J \<Longrightarrow> is_lk (h ! i) \<Longrightarrow> lk_same (h ! i) (h' ! i)"
  by (simp_all add: lk_step_def)

lemma lk_same_trans: "lk_same x y \<Longrightarrow> lk_same y z \<Longrightarrow> lk_same x z"
  by (simp add: lk_same_def)

lemma lk_same_is: "lk_same x y \<Longrightarrow> is_lk y"
  by (simp add: lk_same_def)

lemma lk_step_trans: "lk_step J h h1 \<Longrightarrow> lk_step J h1 h2 \<Longrightarrow> lk_step J h h2"
proof -
  assume a: "lk_step J h h1" "lk_step J h1 h2"
  have "lk_same (h ! i) (h2 ! i)" if i: "i < length h" "i \<notin> J" "is_lk (h ! i)" for i
  proof -
    note s = lk_stepD(2) [OF a(1) i]
    have "i < length h1" using i(1) lk_stepD(1) [OF a(1)] by simp
    then show ?thesis using lk_same_trans [OF s] lk_stepD(2) [OF a(2) _ i(2) lk_same_is [OF s]] by blast
  qed
  then show ?thesis using lk_stepD(1) [OF a(1)] lk_stepD(1) [OF a(2)] by (simp add: lk_step_def)
qed

lemma lk_shape: "same_shape h h' \<Longrightarrow> lk_step J h h'"
proof -
  assume a: "same_shape h h'"
  have "lk_same (h ! i) (h' ! i)" if "i < length h" "is_lk (h ! i)" for i
    using that same_shapeD(2-6) [OF a that(1)] by (simp add: lk_same_def is_lk_def)
  moreover have "length h' = length h" using a by (simp add: same_shape_def)
  ultimately show ?thesis by (simp add: lk_step_def)
qed

lemma lk_step_refl: "lk_step J h h"
  by (simp add: lk_shape)

lemma lk_append: "lk_step J h (h @ [x])"
  by (simp add: lk_step_def lk_same_def nth_append)

lemma lk_update: "b \<in> J \<or> \<not> is_lk (h ! b) \<Longrightarrow> lk_step J h (h[b := x])"
proof -
  assume a: "b \<in> J \<or> \<not> is_lk (h ! b)"
  have "lk_same (h ! i) (h[b := x] ! i)" if "i \<notin> J" "is_lk (h ! i)" for i
    using a that by (cases "i = b") (auto simp: lk_same_def)
  then show ?thesis by (simp add: lk_step_def)
qed

lemma lk_lock: "lk_step J h (set_lock h b)" "b \<in> J \<Longrightarrow> lk_step J h (clear_lock h b)"
proof -
  have "(f OR SP_IOB_LOCKED) AND SP_IOB_LOCKED \<noteq> 0" for f by (simp add: SP_IOB_LOCKED_def bit.conj_disj_distrib2)
  then have "lk_same (h ! i) (set_lock h b ! i)" if "i < length h" "is_lk (h ! i)" for i
    using that by (cases "i = b") (simp_all add: lk_same_def is_lk_def set_lock_def)
  then show "lk_step J h (set_lock h b)" by (simp add: lk_step_def set_lock_def)
  show "b \<in> J \<Longrightarrow> lk_step J h (clear_lock h b)" by (simp add: clear_lock_def lk_update)
qed

section \<open>Writes\<close>

lemma sh_write: "opost (same_shape h) (mem_write h p bs)"
proof (cases "mem_write h p bs")
  case (Done h')
  then obtain ow i d where p: "p = Some (ow, i)" "b_data (h ! ow) = Some d" "0 \<le> i" "i + int (length bs) \<le> int (length d)"
      "h' = h[ow := (h ! ow)\<lparr>b_data := Some (put_bytes d (nat i) bs)\<rparr>]"
    by (auto simp: mem_write_def split: option.splits if_splits prod.splits)
  have l: "length (put_bytes d (nat i) bs) = length d" using p(3,4) by (intro put_bytes_length) linarith
  have "same_shape h h'" unfolding same_shape_def p(5)
  proof (intro conjI allI impI)
    fix j assume "j < length h"
    then show "\<exists>d'. h[ow := (h ! ow)\<lparr>b_data := Some (put_bytes d (nat i) bs)\<rparr>] ! j = (h ! j)\<lparr>b_data := d'\<rparr> \<and>
        map_option length d' = map_option length (b_data (h ! j))"
      using p(2) l by (intro exI [of _ "if j = ow then Some (put_bytes d (nat i) bs) else b_data (h ! j)"]) simp
  qed simp
  then show ?thesis using Done by simp
qed simp_all

lemma sh_bitop_loop: "opost (same_shape h) (bitop_loop f h p pb m i k)"
proof (induction k arbitrary: h i)
  case (Suc k)
  have "opost (\<lambda>h'. opost (same_shape h) (bitop_loop f h' p pb m (Suc i) k)) (mem_write h q bs)" for q bs
    by (rule opost_mono [OF sh_write]) (rule opost_mono [OF Suc.IH], erule same_shape_trans)
  then show ?case by (auto intro!: opost_any)
qed simp

definition lk_post :: "nat set \<Rightarrow> heap \<Rightarrow> 'r \<times> heap \<Rightarrow> bool" where
  "lk_post J h rh = lk_step J h (snd rh)"

lemma lk_write: "opost (\<lambda>h'. lk_post J h (r, h')) (mem_write h p bs)"
  by (rule opost_mono [OF sh_write]) (simp add: lk_post_def lk_shape)

lemma lk_bitops: "opost (\<lambda>h'. lk_post J h (r, h')) (bitop_loop f h p pb m i k)"
  by (rule opost_mono [OF sh_bitop_loop]) (simp add: lk_post_def lk_shape)

section \<open>Every operation\<close>

lemma lk_new: "opost (lk_post J h) (new_obj h m)"
  unfolding new_obj_def opost_simps by (rule opost_any) (simp add: lk_post_def lk_append)

lemma lk_stores:
  "opost (lk_post J h) (iob_set_core be h b ty off v)" "opost (lk_post J h) (iob_set_string h b s off len soff)"
  "opost (lk_post J h) (iob_clear h b v' off len)" "opost (lk_post J h) (iob_copy h b v off len soff)"
  "opost (lk_post J h) (sp_IOBuffer_set_value be h b vt off v)"
proof -
  show s: "opost (lk_post J h) (iob_set_core be h b ty off v)" for ty
    unfolding iob_set_core_def Let_def opost_simps opost_checks opost_ptrs by (intro impI opost_any [where m = "if _ then _ else _"] lk_write)
  show "opost (lk_post J h) (iob_set_string h b s off len soff)"
    by (auto simp: iob_set_string_def Let_def lk_post_def lk_step_refl intro!: lk_write [unfolded lk_post_def snd_conv])
  show "opost (lk_post J h) (iob_clear h b v' off len)"
    by (auto simp: iob_clear_def Let_def lk_post_def lk_step_refl intro!: lk_write [unfolded lk_post_def snd_conv])
  show "opost (lk_post J h) (iob_copy h b v off len soff)"
    unfolding iob_copy_def opost_simps opost_arg
    by (intro opost_any) (auto simp: Let_def lk_post_def lk_step_refl intro!: opost_any lk_write [unfolded lk_post_def snd_conv])
  show "opost (lk_post J h) (sp_IOBuffer_set_value be h b vt off v)"
    using s by (simp add: sp_IOBuffer_set_value_def Let_def)
qed

lemma lk_in_place: "opost (lk_post J h) (iob_bitop_ip h b v f)" "opost (lk_post J h) (sp_IOBuffer_not_ip h b)"
proof -
  show "opost (lk_post J h) (iob_bitop_ip h b v f)"
    unfolding iob_bitop_ip_def opost_simps by (intro opost_any) (simp add: lk_bitops)
  show "opost (lk_post J h) (sp_IOBuffer_not_ip h b)"
    using lk_bitops by (auto simp: sp_IOBuffer_not_ip_def lk_post_def lk_step_refl)
qed

lemma lk_makers:
  "opost (lk_post J h) (iob_slice h b off len)" "opost (lk_post J h) (sp_IOBuffer_dup_m h b)"
  "opost (lk_post J h) (iob_bitop h b v f)" "opost (lk_post J h) (sp_IOBuffer_not h b)"
proof -
  show "opost (lk_post J h) (sp_IOBuffer_dup_m h b)" "opost (lk_post J h) (sp_IOBuffer_not h b)"
    unfolding sp_IOBuffer_dup_m_def sp_IOBuffer_not_def Let_def using lk_new by (auto intro!: opost_any)
  show "opost (lk_post J h) (iob_bitop h b v f)"
    unfolding iob_bitop_def opost_simps Let_def using lk_new by (intro opost_any) (auto intro!: opost_any)
  show "opost (lk_post J h) (iob_slice h b off len)"
    unfolding iob_slice_def opost_simps opost_checks using lk_new by blast
qed

text \<open>What would move the bytes of a locked object raises.\<close>

lemma lk_owner_changes:
  "opost (lk_post J h) (sp_IOBuffer_resize h b n)" "opost (lk_post J h) (sp_IOBuffer_transfer h b)"
  "opost (lk_post J h) (sp_IOBuffer_free_m h b)"
proof -
  have u: "lk_step J h (h[b := x])" if "b_flags (h ! b) AND SP_IOB_LOCKED = 0" for x
    using that by (intro lk_update) (simp add: is_lk_def)
  show "opost (lk_post J h) (sp_IOBuffer_free_m h b)"
    by (auto simp: sp_IOBuffer_free_m_def lk_post_def intro!: u)
  show "opost (lk_post J h) (sp_IOBuffer_resize h b n)"
    unfolding sp_IOBuffer_resize_def Let_def by (auto simp: lk_post_def intro!: u opost_any)
  show "opost (lk_post J h) (sp_IOBuffer_transfer h b)"
    unfolding sp_IOBuffer_transfer_def Let_def opost_simps
    by (simp add: lk_post_def) (blast intro: lk_step_trans [OF u lk_append])
qed

lemma lk_ffi:
  "lk_step J h (snd (sp_IOBuffer_ffi_hold h (Some b)))"
  "(m AND 1 \<noteq> 0 \<Longrightarrow> b \<in> J) \<Longrightarrow> (m AND 2 \<noteq> 0 \<Longrightarrow> set_option (b_source (h ! b)) \<subseteq> J) \<Longrightarrow>
    lk_step J h (sp_IOBuffer_ffi_release h (Some b) m)"
proof -
  show "lk_step J h (snd (sp_IOBuffer_ffi_hold h (Some b)))"
    using lk_lock(1) lk_step_refl lk_step_trans [OF lk_lock(1) lk_lock(1)]
    by (auto simp: sp_IOBuffer_ffi_hold_def Let_def split: option.split)
  have s: "b_source (clear_lock h b ! b) = b_source (h ! b)" by (cases "b < length h") (simp_all add: clear_lock_def list_update_beyond)
  assume a: "m AND 1 \<noteq> 0 \<Longrightarrow> b \<in> J" "m AND 2 \<noteq> 0 \<Longrightarrow> set_option (b_source (h ! b)) \<subseteq> J"
  let ?g = "if m AND 1 \<noteq> 0 then clear_lock h b else h"
  have g: "lk_step J h ?g" "b_source (?g ! b) = b_source (h ! b)" using a(1) lk_lock(2) lk_step_refl s by simp_all
  show "lk_step J h (sp_IOBuffer_ffi_release h (Some b) m)"
  proof (cases "b_source (h ! b)")
    case None
    then show ?thesis using g unfolding sp_IOBuffer_ffi_release_def Let_def option.case by simp
  next
    case (Some s)
    then have "m AND 2 \<noteq> 0 \<Longrightarrow> lk_step J h (clear_lock ?g s)" using a(2) by (intro lk_step_trans [OF g(1) lk_lock(2)]) simp
    then have "lk_step J h (if m AND 2 \<noteq> 0 then clear_lock ?g s else ?g)" using g(1) by (cases "m AND 2 \<noteq> 0") (simp_all only: if_True if_False not_False_eq_True not_True_eq_False)
    then show ?thesis using g(2) Some unfolding sp_IOBuffer_ffi_release_def Let_def option.case by (simp only: option.case)
  qed
qed

end
