(* ===== verification/IobTrip.thy ===== *)
theory IobTrip
  imports IobSafe
begin

unbundle bit_operations_syntax

text \<open>
  Stores and loads of IO::Buffer against each other: any Integer, small or big, that a typed store takes
  is read back as the low bits of its width, whatever the byte order of the host.
\<close>

section \<open>A value is read back as it was stored\<close>

text \<open>The integer of a boxed value.\<close>

definition int_of_val :: "RbVal \<Rightarrow> int option" where
  "int_of_val v = (case v of VInt i \<Rightarrow> Some i | VBig m \<Rightarrow> Some (mpz_val m) | _ \<Rightarrow> None)"

definition num_ok :: "RbVal \<Rightarrow> bool" where
  "num_ok v = (case v of VInt i \<Rightarrow> in_i64 i | VBig m \<Rightarrow> mpz_canon m | _ \<Rightarrow> True)"

text \<open>What an element of a type holds of an integer: its low bits, signed or not.\<close>

definition elem_value :: "nat \<Rightarrow> int \<Rightarrow> int" where
  "elem_value ty z =
     (if ty AND 1 \<noteq> 0 then signed_take_bit (8 * sp_iob_width ty - 1) z else take_bit (8 * sp_iob_width ty) z)"

lemma big_magnitude:
  assumes "mpz_canon m"
  shows "sp_bigint_mag_u64 (Some m) = (if \<bar>mpz_val m\<bar> < 2 ^ 64 then Some (nat \<bar>mpz_val m\<bar>) else None)"
    "sp_bigint_sign m < 0 \<longleftrightarrow> mpz_val m < 0"
proof -
  have ok: "mpz_ok m" using assms by (rule mpz_canon_ok)
  then have a: "nat \<bar>mpz_val m\<bar> = lval (mp m)" by (auto simp: mpz_ok_def mpz_val_def split: if_splits)
  then have "lval (mp m) < 2 ^ 64 \<longleftrightarrow> \<bar>mpz_val m\<bar> < 2 ^ 64" by (metis abs_ge_zero nat_less_iff of_nat_numeral of_nat_power)
  then show "sp_bigint_mag_u64 (Some m) = (if \<bar>mpz_val m\<bar> < 2 ^ 64 then Some (nat \<bar>mpz_val m\<bar>) else None)"
    using sp_bigint_mag_u64_val [of m] ok a by (simp add: mpz_ok_def)
  show "sp_bigint_sign m < 0 \<longleftrightarrow> mpz_val m < 0" using mpz_ok_sgn [OF ok] by (simp add: sp_bigint_sign_def sgn_if)
qed

lemma int_operand_value:
  assumes "iob_int_operand ty v = Done raw" "int_of_val v = Some z" "num_ok v"
  shows "raw = of_int z"
proof (cases v)
  case (VInt i)
  then show ?thesis using assms by (auto simp: iob_int_operand_def word_operand_def ocheck_def oraise_def int_of_val_def Let_def split: if_splits)
next
  case (VBig m)
  then have z: "z = mpz_val m" and c: "mpz_canon m" using assms by (auto simp: int_of_val_def num_ok_def)
  have "big_operand (iob_types ! ty) (if \<bar>z\<bar> < 2 ^ 64 then Some (nat \<bar>z\<bar>) else None) (z < 0) = Done raw"
    using assms(1) unfolding VBig z by (simp only: iob_int_operand_def Let_def RbVal.case big_magnitude [OF c])
  then show ?thesis
    by (cases "z < 0") (auto simp: big_operand_def Let_def oraise_def split: if_splits)
qed (use assms(2) in \<open>auto simp: int_of_val_def\<close>)

lemma set_core_done:
  assumes "heap_ok c h" "b < length h" "ty < SP_IOB_TY_COUNT" "iob_set_core be h b ty off v = Done (r, h')"
  obtains raw where "(if ty \<ge> SP_IOB_TY_f32 then obind (iob_float_operand v) (\<lambda>f. Done (float_raw (sp_iob_width ty) f))
      else iob_int_operand ty v) = Done raw"
    "r = off + int (sp_iob_width ty)" "0 \<le> off" "off + int (sp_iob_width ty) \<le> b_size (h ! b)" "\<not> iob_slice_invalid h b"
    "b_flags (h ! b) AND SP_IOB_READONLY = 0" "same_shape h h'"
    "contents h' b = put_bytes (contents h b) (nat off) (be_order (sp_iob_big_endian ty) (le_bytes (sp_iob_width ty) (unat raw)))"
proof -
  let ?w = "sp_iob_width ty"
  note T = iob_types_header [OF assms(3)] and W = sp_iob_width_bounds [of ty]
  have ro: "b_flags (h ! b) AND SP_IOB_READONLY = 0" using assms(4)
    by (auto simp: iob_set_core_def Let_def iob_readonly_def ocheck_def oraise_def split: if_splits)
  have ptr: "\<not> iob_value_oob h b off ?w" "\<not> iob_slice_invalid h b" using assms(4) ro T
    by (auto simp: iob_set_core_def Let_def iob_readonly_def ocheck_def oraise_def iob_value_wptr_def iob_writable_slice_def
        iob_value_range_error_def iob_arg_def split: if_splits)
  then have off: "0 \<le> off" "off + int ?w \<le> b_size (h ! b)" by (auto simp: iob_value_oob_def)
  have "obind (if ty \<ge> SP_IOB_TY_f32 then obind (iob_float_operand v) (\<lambda>f. Done (float_raw ?w f)) else iob_int_operand ty v) (\<lambda>raw.
      obind (mem_write h (ptr_add (iob_base h b) off) (sp_iob_store be ?w (sp_iob_big_endian ty) raw)) (\<lambda>h'. Done (off + int ?w, h'))) = Done (r, h')"
    using assms(4) ro T ptr by (cases "ty \<ge> SP_IOB_TY_f32") (simp_all add: iob_set_core_def Let_def iob_readonly_def ocheck_def iob_value_wptr_def iob_writable_slice_def)
  then obtain raw where raw: "(if ty \<ge> SP_IOB_TY_f32 then obind (iob_float_operand v) (\<lambda>f. Done (float_raw ?w f)) else iob_int_operand ty v) = Done raw"
    and w: "mem_write h (ptr_add (iob_base h b) off) (sp_iob_store be ?w (sp_iob_big_endian ty) raw) = Done h'" "r = off + int ?w"
    by (auto simp only: obind_Done_iff outcome.inject prod.inject)
  let ?bs = "sp_iob_store be ?w (sp_iob_big_endian ty) raw"
  have l: "length ?bs = ?w" by (rule sp_iob_store_length [OF W(1)])
  obtain h2 where "mem_write h (ptr_add (iob_base h b) off) ?bs = Done h2" "same_shape h h2"
      "contents h2 b = put_bytes (contents h b) (nat off) ?bs"
    using view_write [OF assms(1,2) ptr(2) off(1), of ?bs] l W(1) off(2) by (metis length_0_conv less_numeral_extra(3))
  then show ?thesis using that [OF raw w(2) off ptr(2) ro] w(1) sp_iob_store_eq [OF W(1)] by simp
qed

lemma load_stored:
  assumes "heap_ok c h'" "b < length h'" "ty < SP_IOB_TY_COUNT" "\<not> iob_slice_invalid h' b" "0 \<le> off" "off + int (sp_iob_width ty) \<le> b_size (h' ! b)"
    "contents h' b = put_bytes d (nat off) (be_order (sp_iob_big_endian ty) (le_bytes (sp_iob_width ty) (unat raw)))"
    "nat off + sp_iob_width ty \<le> length d"
  shows "iob_load be h' (ptr_add (iob_base h' b) off) (iob_types ! ty) = Done (take_bit (8 * sp_iob_width ty) raw)"
proof -
  note T = iob_types_header [OF assms(3)] and W = sp_iob_width_bounds [of ty]
  let ?bs = "sp_iob_store be (sp_iob_width ty) (sp_iob_big_endian ty) raw"
  have "take (sp_iob_width ty) (drop (nat off) (contents h' b)) = ?bs"
    unfolding assms(7) sp_iob_store_eq [OF W(1)] using assms(8) sp_iob_store_length [OF W(1), of be "sp_iob_big_endian ty" raw]
    by (simp add: put_bytes_def sp_iob_store_eq [OF W(1)])
  then have "mem_read h' (ptr_add (iob_base h' b) off) (sp_iob_width ty) = Done ?bs"
    using view_read [OF assms(1,2,4,5) W(1) assms(6)] by simp
  then show ?thesis using T sp_iob_load_store [OF W, of be be "sp_iob_big_endian ty" raw "[]"] by (simp add: iob_load_def)
qed


lemma sint_low_bits:
  assumes "w \<in> {1, 2, 4, 8 :: nat}"
  shows "sign_extend w (take_bit (8 * w) (of_int z)) = signed_take_bit (8 * w - 1) z"
    "uint (take_bit (8 * w) (of_int z :: 64 word)) = take_bit (8 * w) z"
proof -
  have "sint (of_int z :: 64 word) = signed_take_bit 63 z" by (simp add: signed_of_int)
  moreover have "min (8 * w - 1) 63 = 8 * w - 1" using assms by auto
  ultimately show "sign_extend w (take_bit (8 * w) (of_int z)) = signed_take_bit (8 * w - 1) z"
    unfolding sign_extend_take_bit [OF assms] by simp
  have "min (8 * w) 64 = 8 * w" using assms by auto
  then show "uint (take_bit (8 * w) (of_int z :: 64 word)) = take_bit (8 * w) z"
    by (simp add: unsigned_take_bit_eq unsigned_of_int)
qed

lemma signed_bits_i64: "w \<in> {1, 2, 4, 8 :: nat} \<Longrightarrow> INT64_MIN \<le> signed_take_bit (8 * w - 1) z \<and> signed_take_bit (8 * w - 1) z \<le> INT64_MAX"
proof -
  assume "w \<in> {1, 2, 4, 8}"
  then have "signed_take_bit (8 * w - 1) z = signed_take_bit 63 (signed_take_bit (8 * w - 1) z)" by (auto simp: min_def)
  then show ?thesis
    using signed_take_bit_int_less_exp [of 63 "signed_take_bit (8 * w - 1) z"]
      signed_take_bit_int_greater_eq_minus_exp [of 63 "signed_take_bit (8 * w - 1) z"]
    by (simp add: INT64_MIN_def INT64_MAX_def)
qed

text \<open>What the accessor of any integer answers after a store.\<close>

lemma get_core_stored:
  assumes "heap_ok c h'" "b < length h'" "ty < SP_IOB_TY_f32" "\<not> iob_slice_invalid h' b" "0 \<le> off" "off + int (sp_iob_width ty) \<le> b_size (h' ! b)"
    "iob_load be h' (ptr_add (iob_base h' b) off) (iob_types ! ty) = Done (take_bit (8 * sp_iob_width ty) (of_int z))"
  shows "\<exists>v. iob_get_core be h' b ty off = Done v \<and> int_of_val v = Some (elem_value ty z)"
proof -
  have ty: "ty < SP_IOB_TY_COUNT" using assms(3) by (simp add: SP_IOB_TY_f32_def SP_IOB_TY_COUNT_def)
  note T = iob_types_header [OF ty] and C = sp_iob_width_cases [of ty]
  let ?w = "sp_iob_width ty" and ?r = "take_bit (8 * sp_iob_width ty) (of_int z) :: 64 word"
  have flt: "\<not> it_flt (iob_types ! ty)" "it_sign (iob_types ! ty) = (ty AND 1 \<noteq> 0)" using T assms(3) by simp_all
  have "iob_value_ptr h' b off (it_width (iob_types ! ty)) = Done (ptr_add (iob_base h' b) off)"
    using assms(4-6) T by (simp add: iob_value_ptr_def iob_arg_def ocheck_def iob_ptr_def)
  then have g: "iob_get_core be h' b ty off = Done (if ty AND 1 \<noteq> 0
      then (let sv = sign_extend ?w ?r in if sv < INT64_MIN \<or> sv > INT64_MAX then VBig (sp_bigint_new_int sv) else VInt sv)
      else if uint ?r > INT64_MAX then VBig (sp_bigint_new_u64 (unat ?r)) else VInt (uint ?r))"
    using assms(7) flt T by (simp add: iob_get_core_def Let_def)
  have u: "mpz_val (sp_bigint_new_u64 (unat ?r)) = uint ?r"
    using mpz_set_uint64_val [of "unat ?r" mpz_init] unsigned_less [of ?r, where ?'a = nat] by (simp add: sp_bigint_new_u64_def)
  show ?thesis unfolding g using sint_low_bits [OF C, of z] signed_bits_i64 [OF C, of z] u
    by (auto simp: elem_value_def int_of_val_def Let_def)
qed

end
