(* ===== verification/IobLaws.thy ===== *)
theory IobLaws
  imports IobLocked IobTrip
begin

unbundle bit_operations_syntax

text \<open>
  The laws of IO::Buffer that programs rely on: the inline accessors answer what the out-of-line ones
  do, a value is read back as it was stored, every reachable heap satisfies the invariant and no
  operation on one is undefined, and what invalidation and the lock promise.
\<close>

section \<open>The inline accessors\<close>

lemma inline_ptr_iff:
  assumes "heap_ok c h" "b < length h" "in_i64 off"
  shows "sp_iob_inline_ptr h b off (sp_iob_width ty) =
    (if b_data (h ! b) \<noteq> None \<and> 0 \<le> off \<and> off + int (sp_iob_width ty) \<le> b_size (h ! b)
     then ptr_add (iob_base h b) off else None)"
proof -
  note B = buf_okD [OF heap_okD [OF assms(1,2)]]
  have "in_i64 (b_size (h ! b))" using B(2,3) by (simp add: in_i64_def INT64_MIN_def)
  then have f: "wrap_u64 off < wrap_u64 (b_size (h ! b)) \<and>
      wrap_u64 (wrap_u64 (b_size (h ! b)) - wrap_u64 off) \<ge> int (sp_iob_width ty) \<longleftrightarrow>
      0 \<le> off \<and> off + int (sp_iob_width ty) \<le> b_size (h ! b)"
    using sp_iob_fits_iff [OF B(2) _ assms(3), of ty] by (simp add: sp_iob_fits_def)
  have "b_data (h ! b) \<noteq> None \<Longrightarrow> b_source (h ! b) = None" using B(8) by (cases "b_source (h ! b)") auto
  then show ?thesis unfolding sp_iob_inline_ptr_def f by (auto simp: data_ptr_base)
qed

lemma owned_ptr:
  assumes "heap_ok c h" "b < length h" "b_data (h ! b) \<noteq> None"
  shows "b_source (h ! b) = None" "\<not> iob_slice_invalid h b" "iob_base h b = Some (b, 0)"
proof -
  show s: "b_source (h ! b) = None" using assms(3) buf_okD(8) [OF heap_okD [OF assms(1,2)]] by (cases "b_source (h ! b)") auto
  then show "\<not> iob_slice_invalid h b" "iob_base h b = Some (b, 0)"
    using assms(3) by (auto simp: not_invalid_owner iob_base_def data_ptr_def)
qed

lemma value_ptr_eq:
  "\<not> iob_slice_invalid h b \<Longrightarrow> 0 \<le> off \<Longrightarrow> off + int w \<le> b_size (h ! b) \<Longrightarrow>
    iob_value_ptr h b off w = Done (ptr_add (iob_base h b) off) \<and> iob_value_wptr h b off w = Done (ptr_add (iob_base h b) off)"
  by (simp add: iob_value_ptr_def iob_value_wptr_def iob_value_oob_def iob_arg_def ocheck_def iob_ptr_def iob_writable_slice_def)

lemma load_inline:
  assumes "heap_ok c h" "b < length h" "in_i64 off" "ty < SP_IOB_TY_COUNT"
  shows "ty < SP_IOB_TY_f32 \<Longrightarrow> sp_IOBuffer_load_i host_be h b ty off = sp_IOBuffer_get_i host_be h b ty off"
    "sp_IOBuffer_load_f host_be h b ty off = sp_IOBuffer_get_f host_be h b ty off"
proof -
  note T = iob_types_header [OF assms(4)] and P = inline_ptr_iff [OF assms(1-3), of ty]
  show "ty < SP_IOB_TY_f32 \<Longrightarrow> sp_IOBuffer_load_i host_be h b ty off = sp_IOBuffer_get_i host_be h b ty off"
  proof -
    assume "ty < SP_IOB_TY_f32"
    then have s: "it_sign (iob_types ! ty) = (ty AND 1 \<noteq> 0)" using T by simp
    show ?thesis
    proof (cases "b_data (h ! b) \<noteq> None \<and> 0 \<le> off \<and> off + int (sp_iob_width ty) \<le> b_size (h ! b)")
      case True
      note O = owned_ptr [OF assms(1,2) conjunct1 [OF True]]
      have "sp_iob_inline_ptr h b off (sp_iob_width ty) = Some (b, off)" using True P O(3) by (simp add: ptr_add_def)
      then show ?thesis using value_ptr_eq [OF O(2), of off "sp_iob_width ty"] True T s O(3)
        by (cases "mem_read h (Some (b, off)) (sp_iob_width ty)")
          (simp_all add: sp_IOBuffer_load_i_def sp_IOBuffer_get_i_def Let_def iob_load_def ptr_add_def sp_iob_decode_i_def)
    qed (use P in \<open>auto simp: sp_IOBuffer_load_i_def\<close>)
  qed
  show "sp_IOBuffer_load_f host_be h b ty off = sp_IOBuffer_get_f host_be h b ty off"
  proof (cases "b_data (h ! b) \<noteq> None \<and> 0 \<le> off \<and> off + int (sp_iob_width ty) \<le> b_size (h ! b)")
    case True
    note O = owned_ptr [OF assms(1,2) conjunct1 [OF True]]
    have "sp_iob_inline_ptr h b off (sp_iob_width ty) = Some (b, off)" using True P O(3) by (simp add: ptr_add_def)
    then show ?thesis using value_ptr_eq [OF O(2), of off "sp_iob_width ty"] True T O(3)
      by (cases "mem_read h (Some (b, off)) (sp_iob_width ty)")
        (simp_all add: sp_IOBuffer_load_f_def sp_IOBuffer_get_f_def Let_def iob_load_def ptr_add_def sp_iob_decode_f_def)
  qed (use P in \<open>auto simp: sp_IOBuffer_load_f_def\<close>)
qed

lemma wlen_fits:
  assumes "heap_ok c h" "b < length h" "in_i64 off"
  shows "sp_iob_fits (wlen_owned h b) off ty \<longleftrightarrow>
    b_data (h ! b) \<noteq> None \<and> b_flags (h ! b) AND SP_IOB_READONLY = 0 \<and> 0 \<le> off \<and> off + int (sp_iob_width ty) \<le> b_size (h ! b)"
proof -
  note B = buf_okD [OF heap_okD [OF assms(1,2)]]
  have i: "in_i64 (b_size (h ! b))" "in_i64 0" using B(2,3) by (simp_all add: in_i64_def INT64_MIN_def)
  show ?thesis
    using sp_iob_fits_iff [OF B(2) i(1) assms(3), of ty] sp_iob_fits_iff [OF order_refl i(2) assms(3), of ty] sp_iob_width_bounds(1) [of ty]
    by (auto simp: wlen_owned_def sp_iob_view_wlen_def)
qed

lemma put_set_core:
  assumes "heap_ok c h" "b < length h" "ty < SP_IOB_TY_COUNT" "b_data (h ! b) \<noteq> None" "b_flags (h ! b) AND SP_IOB_READONLY = 0"
    "0 \<le> off" "off + int (sp_iob_width ty) \<le> b_size (h ! b)"
    "(if it_flt (iob_types ! ty) then obind (iob_float_operand v) (\<lambda>f. Done (float_raw (it_width (iob_types ! ty)) f))
      else iob_int_operand ty v) = Done raw"
  shows "sp_iob_put host_be h (data_ptr h b) ty off raw = iob_set_core host_be h b ty off v"
proof -
  note O = owned_ptr [OF assms(1,2,4)] and T = iob_types_header [OF assms(3)]
  have "iob_value_wptr h b off (it_width (iob_types ! ty)) = Done (ptr_add (data_ptr h b) off)"
    using value_ptr_eq [OF O(2) assms(6,7)] T O(1) by (simp add: data_ptr_base)
  then show ?thesis unfolding iob_set_core_def Let_def assms(8) using assms(5) T
    by (simp add: iob_readonly_def ocheck_def sp_iob_put_def)
qed

lemma put_result: "sp_iob_put host_be h d ty off raw = Done (r, h') \<Longrightarrow> r = off + int (sp_iob_width ty)"
  by (auto simp: sp_iob_put_def out_simps)

lemma store_inline:
  assumes "heap_ok c h" "b < length h" "in_i64 off" "ty < SP_IOB_TY_COUNT"
  shows "ty < SP_IOB_TY_f32 \<Longrightarrow> sp_IOBuffer_store_i host_be h b ty off v = sp_IOBuffer_set_i host_be h b ty off v"
    "SP_IOB_TY_f32 \<le> ty \<Longrightarrow> sp_IOBuffer_store_f host_be h b ty off f = sp_IOBuffer_set_f host_be h b ty off f"
proof -
  note T = iob_types_header [OF assms(4)] and F = wlen_fits [OF assms(1-3), of ty]
  have keep: "obind R (\<lambda>(r, h'). if r \<noteq> 0 then Done (r, h') else g h') = R"
    if "0 \<le> off" "sp_iob_put host_be h d ty off raw = R" for d raw g R
    using put_result [of host_be h d ty off raw] that sp_iob_width_bounds(1) [of ty]
    by (cases R) auto
  show "sp_IOBuffer_store_i host_be h b ty off v = sp_IOBuffer_set_i host_be h b ty off v" if "ty < SP_IOB_TY_f32"
  proof (cases "sp_iob_fits (wlen_owned h b) off ty \<and> sp_iob_holds ty v")
    case True
    have "iob_int_operand ty (VInt v) = Done (of_int v)"
      using True T that by (auto simp: iob_int_operand_def word_operand_def ocheck_def sp_iob_holds_def Let_def)
    then show ?thesis using True F keep [OF _ put_set_core [OF assms(1,2,4), of off "VInt v" "of_int v"]]
        put_set_core [OF assms(1,2,4), of off "VInt v" "of_int v"] T that
      by (simp add: sp_IOBuffer_store_i_def sp_iob_put_i_def sp_IOBuffer_set_i_def)
  qed (auto simp: sp_IOBuffer_store_i_def sp_iob_put_i_def)
  show "sp_IOBuffer_store_f host_be h b ty off f = sp_IOBuffer_set_f host_be h b ty off f" if "SP_IOB_TY_f32 \<le> ty"
  proof (cases "sp_iob_fits (wlen_owned h b) off ty")
    case True
    then show ?thesis using F keep [OF _ put_set_core [OF assms(1,2,4), of off "VFlt f" "float_raw (sp_iob_width ty) f"]]
        put_set_core [OF assms(1,2,4), of off "VFlt f" "float_raw (sp_iob_width ty) f"] T that
      by (simp add: sp_IOBuffer_store_f_def sp_iob_put_f_def sp_IOBuffer_set_f_def iob_float_operand_def)
  qed (simp add: sp_IOBuffer_store_f_def sp_iob_put_f_def)
qed

section \<open>Programs of buffer operations\<close>

text \<open>
  The operations that change the heap, with the arguments of their calls; an object or a value that is
  named is one the program holds, so it is in the heap and boxed with its class.
\<close>

datatype iob_op =
  OpNew | OpNewI int | OpNewIf int int | OpFor "byte list"
  | OpSetValue nat RbVal int RbVal | OpSetI nat nat int int | OpSetF nat nat int "64 word" | OpSetV nat nat int RbVal
  | OpStoreI nat nat int int | OpStoreF nat nat int "64 word"
  | OpSetString nat "byte list" int "int option" int | OpClear nat int int "int option"
  | OpCopy nat RbVal int "int option" int | OpResize nat int
  | OpSlice nat int int | OpSlice0 nat | OpSlice1 nat int
  | OpTransfer nat | OpFree nat | OpDup nat
  | OpAnd nat RbVal | OpOr nat RbVal | OpXor nat RbVal | OpNot nat
  | OpAndIp nat RbVal | OpOrIp nat RbVal | OpXorIp nat RbVal | OpNotIp nat
  | OpLock nat | OpUnlock nat | OpFfiHold nat | OpFfiRelease nat nat

definition left_heap :: "('r \<times> heap) outcome \<Rightarrow> heap outcome" where
  "left_heap m = obind m (\<lambda>rh. Done (snd rh))"

fun iob_run :: "int \<Rightarrow> bool \<Rightarrow> int \<Rightarrow> heap \<Rightarrow> iob_op \<Rightarrow> heap outcome" where
  "iob_run ps be c h OpNew = left_heap (sp_IOBuffer_new ps h c)"
| "iob_run ps be c h (OpNewI n) = left_heap (sp_IOBuffer_new_i ps h c n)"
| "iob_run ps be c h (OpNewIf n f) = left_heap (sp_IOBuffer_new_if ps h c n f)"
| "iob_run ps be c h (OpFor s) = left_heap (obind (sp_IOBuffer_new_i ps h c 0) (\<lambda>(b, h1). sp_IOBuffer_become_for h1 b s))"
| "iob_run ps be c h (OpSetValue b ty off v) = left_heap (sp_IOBuffer_set_value be h b ty off v)"
| "iob_run ps be c h (OpSetI b ty off v) = left_heap (sp_IOBuffer_set_i be h b ty off v)"
| "iob_run ps be c h (OpSetF b ty off v) = left_heap (sp_IOBuffer_set_f be h b ty off v)"
| "iob_run ps be c h (OpSetV b ty off v) = left_heap (sp_IOBuffer_set_v be h b ty off v)"
| "iob_run ps be c h (OpStoreI b ty off v) = left_heap (sp_IOBuffer_store_i be h b ty off v)"
| "iob_run ps be c h (OpStoreF b ty off v) = left_heap (sp_IOBuffer_store_f be h b ty off v)"
| "iob_run ps be c h (OpSetString b s off len soff) = left_heap (iob_set_string h b s off len soff)"
| "iob_run ps be c h (OpClear b v off len) = left_heap (iob_clear h b v off len)"
| "iob_run ps be c h (OpCopy b v off len soff) = left_heap (iob_copy h b v off len soff)"
| "iob_run ps be c h (OpResize b n) = left_heap (sp_IOBuffer_resize h b n)"
| "iob_run ps be c h (OpSlice b off len) = left_heap (sp_IOBuffer_slice2 h b off len)"
| "iob_run ps be c h (OpSlice0 b) = left_heap (sp_IOBuffer_slice0 h b)"
| "iob_run ps be c h (OpSlice1 b off) = left_heap (sp_IOBuffer_slice1 h b off)"
| "iob_run ps be c h (OpTransfer b) = left_heap (sp_IOBuffer_transfer h b)"
| "iob_run ps be c h (OpFree b) = left_heap (sp_IOBuffer_free_m h b)"
| "iob_run ps be c h (OpDup b) = left_heap (sp_IOBuffer_dup_m h b)"
| "iob_run ps be c h (OpAnd b v) = left_heap (sp_IOBuffer_and h b v)"
| "iob_run ps be c h (OpOr b v) = left_heap (sp_IOBuffer_or h b v)"
| "iob_run ps be c h (OpXor b v) = left_heap (sp_IOBuffer_xor h b v)"
| "iob_run ps be c h (OpNot b) = left_heap (sp_IOBuffer_not h b)"
| "iob_run ps be c h (OpAndIp b v) = left_heap (sp_IOBuffer_and_ip h b v)"
| "iob_run ps be c h (OpOrIp b v) = left_heap (sp_IOBuffer_or_ip h b v)"
| "iob_run ps be c h (OpXorIp b v) = left_heap (sp_IOBuffer_xor_ip h b v)"
| "iob_run ps be c h (OpNotIp b) = left_heap (sp_IOBuffer_not_ip h b)"
| "iob_run ps be c h (OpLock b) = left_heap (sp_IOBuffer_lock h b)"
| "iob_run ps be c h (OpUnlock b) = left_heap (sp_IOBuffer_unlock h b)"
| "iob_run ps be c h (OpFfiHold b) = Done (snd (sp_IOBuffer_ffi_hold h (Some b)))"
| "iob_run ps be c h (OpFfiRelease b m) = Done (sp_IOBuffer_ffi_release h (Some b) m)"

text \<open>The arguments of a call: an object of the heap, an element type, 64-bit numbers.\<close>

fun op_ok :: "int \<Rightarrow> heap \<Rightarrow> iob_op \<Rightarrow> bool" where
  "op_ok c h OpNew = True"
| "op_ok c h (OpNewI n) = in_i64 n"
| "op_ok c h (OpNewIf n f) = in_i64 n"
| "op_ok c h (OpFor s) = (int (length s) \<le> INT64_MAX)"
| "op_ok c h (OpSetValue b ty off v) = (b < length h \<and> val_ok c h v)"
| "op_ok c h (OpSetI b ty off v) = (b < length h \<and> ty < SP_IOB_TY_COUNT)"
| "op_ok c h (OpSetF b ty off v) = (b < length h \<and> ty < SP_IOB_TY_COUNT)"
| "op_ok c h (OpSetV b ty off v) = (b < length h \<and> ty < SP_IOB_TY_COUNT \<and> val_ok c h v)"
| "op_ok c h (OpStoreI b ty off v) = (b < length h \<and> ty < SP_IOB_TY_f32 \<and> in_i64 off)"
| "op_ok c h (OpStoreF b ty off v) = (b < length h \<and> SP_IOB_TY_f32 \<le> ty \<and> ty < SP_IOB_TY_COUNT \<and> in_i64 off)"
| "op_ok c h (OpSetString b s off len soff) = (b < length h)"
| "op_ok c h (OpClear b v off len) = (b < length h)"
| "op_ok c h (OpCopy b v off len soff) = (b < length h \<and> val_ok c h v)"
| "op_ok c h (OpResize b n) = (b < length h \<and> in_i64 n)"
| "op_ok c h (OpSlice b off len) = (b < length h)"
| "op_ok c h (OpSlice0 b) = (b < length h)"
| "op_ok c h (OpSlice1 b off) = (b < length h)"
| "op_ok c h (OpTransfer b) = (b < length h)"
| "op_ok c h (OpFree b) = (b < length h)"
| "op_ok c h (OpDup b) = (b < length h)"
| "op_ok c h (OpAnd b v) = (b < length h \<and> val_ok c h v)"
| "op_ok c h (OpOr b v) = (b < length h \<and> val_ok c h v)"
| "op_ok c h (OpXor b v) = (b < length h \<and> val_ok c h v)"
| "op_ok c h (OpNot b) = (b < length h)"
| "op_ok c h (OpAndIp b v) = (b < length h \<and> val_ok c h v)"
| "op_ok c h (OpOrIp b v) = (b < length h \<and> val_ok c h v)"
| "op_ok c h (OpXorIp b v) = (b < length h \<and> val_ok c h v)"
| "op_ok c h (OpNotIp b) = (b < length h)"
| "op_ok c h (OpLock b) = (b < length h)"
| "op_ok c h (OpUnlock b) = (b < length h)"
| "op_ok c h (OpFfiHold b) = (b < length h)"
| "op_ok c h (OpFfiRelease b m) = (b < length h)"

inductive iob_reach :: "int \<Rightarrow> bool \<Rightarrow> int \<Rightarrow> heap \<Rightarrow> bool" for ps be c where
  start: "iob_reach ps be c []"
| step: "iob_reach ps be c h \<Longrightarrow> op_ok c h x \<Longrightarrow> iob_run ps be c h x = Done h' \<Longrightarrow> iob_reach ps be c h'"

lemma kept_left: "orun (kept c h) m \<Longrightarrow> orun (\<lambda>h'. heap_ok c h' \<and> length h \<le> length h') (left_heap m)"
  unfolding left_heap_def orun_simps by (erule orun_mono) (simp add: kept_def)

lemma val_ok_number: "val_ok c h (VInt i)" "val_ok c h (VFlt f)"
  by (simp_all add: val_ok_def)

lemma safe_flags:
  assumes "heap_ok c h" "b < length h"
  shows "heap_ok c (set_lock h b)" "heap_ok c (clear_lock h b)" "length (set_lock h b) = length h" "length (clear_lock h b) = length h"
    "heap_ok c (snd (sp_IOBuffer_ffi_hold h (Some b)))" "length (snd (sp_IOBuffer_ffi_hold h (Some b))) = length h"
    "heap_ok c (sp_IOBuffer_ffi_release h (Some b) m)" "length (sp_IOBuffer_ffi_release h (Some b) m) = length h"
proof -
  have L: "heap_ok c (set_lock g i)" "heap_ok c (clear_lock g i)" if "heap_ok c g" "i < length g" for g i
    using heap_ok_flags [OF that] by (simp_all add: set_lock_def clear_lock_def)
  have N: "length (set_lock g i) = length g" "length (clear_lock g i) = length g" for g i by (simp_all add: set_lock_def clear_lock_def)
  have K: "b_source (set_lock g b ! b) = b_source (g ! b)" "b_source (clear_lock g b ! b) = b_source (g ! b)" if "b < length g" for g
    using that by (simp_all add: set_lock_def clear_lock_def)
  have S: "s < length g" if "heap_ok c g" "b < length g" "b_source (g ! b) = Some s" for g s
    using buf_okD(7) [OF heap_okD [OF that(1,2)] that(3)] .
  show "heap_ok c (set_lock h b)" "heap_ok c (clear_lock h b)" "length (set_lock h b) = length h" "length (clear_lock h b) = length h"
    using L [OF assms] N by simp_all
  show "heap_ok c (snd (sp_IOBuffer_ffi_hold h (Some b)))" "length (snd (sp_IOBuffer_ffi_hold h (Some b))) = length h"
    using L assms S N K by (auto simp: sp_IOBuffer_ffi_hold_def split: option.split prod.split)
  show "heap_ok c (sp_IOBuffer_ffi_release h (Some b) m)" "length (sp_IOBuffer_ffi_release h (Some b) m) = length h"
    using L assms S N K by (auto simp: sp_IOBuffer_ffi_release_def Let_def split: option.split)
qed

lemma new_for:
  "obind (sp_IOBuffer_new_i ps h c 0) (\<lambda>(b, h1). sp_IOBuffer_become_for h1 b s) =
     Done (length h, h @ [(iob_alloc_obj c)\<lparr>b_data := Some s, b_size := int (length s),
       b_flags := SP_IOB_EXTERNAL OR SP_IOB_READONLY OR SP_IOB_SLICE\<rparr>])"
  by (simp add: sp_IOBuffer_new_i_def new_obj_def iob_allocate_def iob_arg_def ocheck_def Let_def sp_IOBuffer_become_for_def
      iob_release_def iob_alloc_obj_def)

lemma op_kept:
  assumes "heap_ok c h" "op_ok c h x"
  shows "orun (\<lambda>h'. heap_ok c h' \<and> length h \<le> length h') (iob_run ps be c h x)"
proof -
  have new: "orun (kept c h) (new_obj h (iob_allocate ps (iob_alloc_obj c) n f))" if "n \<le> INT64_MAX" for n f
    by (rule safe_new [OF assms(1) safe_allocate [OF that]])
  have lock: "orun (kept c h) (sp_IOBuffer_lock h b)" "orun (kept c h) (sp_IOBuffer_unlock h b)" if "b < length h" for b
    using safe_flags [OF assms(1) that] by (simp_all add: sp_IOBuffer_lock_def sp_IOBuffer_unlock_def kept_def)
  note op_defs = in_i64_def sp_IOBuffer_new_i_def sp_IOBuffer_new_if_def sp_IOBuffer_set_i_def sp_IOBuffer_set_f_def
    sp_IOBuffer_set_v_def sp_IOBuffer_slice0_def sp_IOBuffer_slice1_def sp_IOBuffer_slice2_def sp_IOBuffer_and_def sp_IOBuffer_or_def
    sp_IOBuffer_xor_def sp_IOBuffer_and_ip_def sp_IOBuffer_or_ip_def sp_IOBuffer_xor_ip_def val_ok_number
  show ?thesis
    using assms(2)
  proof (cases x)
    case OpNew
    show ?thesis using kept_left [OF new [of 65536 None]] by (simp add: OpNew sp_IOBuffer_new_def INT64_MAX_def)
  next
    case (OpFor s)
    show ?thesis using assms heap_ok_append [OF assms(1) buf_ok_fresh(2)]
      by (simp add: OpFor new_for left_heap_def del: orun_simps(5))
  next
    case (OpStoreI b ty off v)
    then have "sp_IOBuffer_store_i be h b ty off v = sp_IOBuffer_set_i be h b ty off v" using assms(2) store_inline(1) [OF assms(1)]
      by (simp add: SP_IOB_TY_f32_def SP_IOB_TY_COUNT_def)
    then show ?thesis using OpStoreI assms(2) kept_left [OF safe_set_core [OF assms(1), of b ty "VInt v" be off]]
      by (simp add: sp_IOBuffer_set_i_def val_ok_def SP_IOB_TY_f32_def SP_IOB_TY_COUNT_def)
  next
    case (OpStoreF b ty off v)
    then have "sp_IOBuffer_store_f be h b ty off v = sp_IOBuffer_set_f be h b ty off v" using assms(2) store_inline(2) [OF assms(1)]
      by simp
    then show ?thesis using OpStoreF assms(2) kept_left [OF safe_set_core [OF assms(1), of b ty "VFlt v" be off]]
      by (simp add: sp_IOBuffer_set_f_def val_ok_def)
  qed (simp_all add: kept_left new safe_values [OF assms(1)] safe_set_core [OF assms(1)] safe_strings [OF assms(1)]
      safe_copy [OF assms(1)] safe_slice [OF assms(1)] safe_resize [OF assms(1)] safe_owner_changes [OF assms(1)] safe_dup [OF assms(1)]
      safe_bitop [OF assms(1)] safe_in_place [OF assms(1)] lock safe_flags [OF assms(1)] op_defs del: orun_simps(5))
qed

text \<open>The operations that end what an object owns.\<close>

fun op_ends :: "iob_op \<Rightarrow> nat set" where
  "op_ends (OpResize b n) = {b}"
| "op_ends (OpTransfer b) = {b}"
| "op_ends (OpFree b) = {b}"
| "op_ends _ = {}"

lemma ro_left: "opost (ro_post J h) m \<Longrightarrow> opost (ro_step J h) (left_heap m)"
  unfolding left_heap_def opost_simps by (erule opost_mono) (simp add: ro_post_def)

lemma ro_ffi:
  assumes "heap_ok c h" "ro_ok h" "b < length h"
  shows "ro_step J h (snd (sp_IOBuffer_ffi_hold h (Some b)))" "ro_step J h (sp_IOBuffer_ffi_release h (Some b) m)"
proof -
  have k: "length (set_lock h b) = length h" "length (clear_lock h b) = length h"
    "b_source (set_lock h b ! b) = b_source (h ! b)" "b_source (clear_lock h b ! b) = b_source (h ! b)"
    using assms(3) by (simp_all add: set_lock_def clear_lock_def)
  have s: "s < length h" if "b_source (h ! b) = Some s" for s using buf_okD(7) [OF heap_okD [OF assms(1,3)] that] .
  have o: "ro_ok (set_lock h b)" "ro_ok (clear_lock h b)" using ro_lock [OF assms(2,3)] by (simp_all add: ro_step_def)
  have t: "ro_step J h (set_lock (set_lock h b) s)" "ro_step J h (clear_lock (clear_lock h b) s)" if "b_source (h ! b) = Some s" for s
    using ro_lock [OF assms(2,3)] ro_lock(1) [OF o(1), of s] ro_lock(2) [OF o(2), of s] s [OF that] k ro_step_trans by fastforce+
  show "ro_step J h (snd (sp_IOBuffer_ffi_hold h (Some b)))" "ro_step J h (sp_IOBuffer_ffi_release h (Some b) m)"
    using t ro_lock [OF assms(2)] assms(3) s ro_step_refl [OF assms(2)] k
    by (auto simp: sp_IOBuffer_ffi_hold_def sp_IOBuffer_ffi_release_def Let_def split: option.split)
qed

lemma op_frozen:
  assumes "heap_ok c h" "ro_ok h" "op_ok c h x"
  shows "opost (ro_step (op_ends x) h) (iob_run ps be c h x)"
proof -
  have new: "opost (ro_post J h) (new_obj h (iob_allocate ps (iob_alloc_obj c) n f))" for n f J
    by (intro ro_new [OF assms(1,2)]) (auto simp: iob_allocate_def Let_def iob_alloc_obj_def split: option.split)
  have lock: "opost (ro_post J h) (sp_IOBuffer_lock h b)" "opost (ro_post J h) (sp_IOBuffer_unlock h b)" if "b < length h" for b J
    using ro_lock [OF assms(2) that] by (simp_all add: sp_IOBuffer_lock_def sp_IOBuffer_unlock_def ro_post_def)
  note op_defs = sp_IOBuffer_new_def sp_IOBuffer_new_i_def sp_IOBuffer_new_if_def sp_IOBuffer_set_i_def sp_IOBuffer_set_f_def
    sp_IOBuffer_set_v_def sp_IOBuffer_slice0_def sp_IOBuffer_slice1_def sp_IOBuffer_slice2_def sp_IOBuffer_and_def sp_IOBuffer_or_def
    sp_IOBuffer_xor_def sp_IOBuffer_and_ip_def sp_IOBuffer_or_ip_def sp_IOBuffer_xor_ip_def
  note A = assms(1,2)
  show ?thesis
    using assms(3)
  proof (cases x)
    case (OpFor s)
    show ?thesis by (simp add: OpFor new_for left_heap_def) (rule ro_append [OF A], simp add: iob_alloc_obj_def)
  next
    case (OpStoreI b ty off v)
    then have "sp_IOBuffer_store_i be h b ty off v = sp_IOBuffer_set_i be h b ty off v" using assms store_inline(1) [OF assms(1)]
      by (simp add: SP_IOB_TY_f32_def SP_IOB_TY_COUNT_def)
    then show ?thesis using OpStoreI assms(3) ro_left [OF ro_stores(1) [OF A]] by (simp add: sp_IOBuffer_set_i_def)
  next
    case (OpStoreF b ty off v)
    then have "sp_IOBuffer_store_f be h b ty off v = sp_IOBuffer_set_f be h b ty off v" using assms store_inline(2) [OF assms(1)] by simp
    then show ?thesis using OpStoreF assms(3) ro_left [OF ro_stores(1) [OF A]] by (simp add: sp_IOBuffer_set_f_def)
  qed (simp_all add: ro_left new ro_stores [OF A] ro_makers [OF A] ro_owner_changes [OF A] ro_in_place [OF A] ro_ffi [OF A] lock op_defs
      del: opost_simps(5))
qed

text \<open>The objects whose lock an operation opens; what a release unlocks is in its mask.\<close>

fun op_unlocks :: "heap \<Rightarrow> iob_op \<Rightarrow> nat set" where
  "op_unlocks h (OpUnlock b) = {b}"
| "op_unlocks h (OpFfiRelease b m) =
     (if m AND 1 \<noteq> 0 then {b} else {}) \<union> (if m AND 2 \<noteq> 0 then set_option (b_source (h ! b)) else {})"
| "op_unlocks h _ = {}"

lemma lk_left: "opost (lk_post J h) m \<Longrightarrow> opost (lk_step J h) (left_heap m)"
  unfolding left_heap_def opost_simps by (erule opost_mono) (simp add: lk_post_def)

lemma op_locked:
  assumes "heap_ok c h" "op_ok c h x"
  shows "opost (lk_step (op_unlocks h x) h) (iob_run ps be c h x)"
proof -
  have lock: "opost (lk_post J h) (sp_IOBuffer_lock h b)" "opost (lk_post {b} h) (sp_IOBuffer_unlock h b)" for b J
    using lk_lock by (simp_all add: sp_IOBuffer_lock_def sp_IOBuffer_unlock_def lk_post_def)
  note op_defs = sp_IOBuffer_new_def sp_IOBuffer_new_i_def sp_IOBuffer_new_if_def sp_IOBuffer_set_i_def sp_IOBuffer_set_f_def
    sp_IOBuffer_set_v_def sp_IOBuffer_slice0_def sp_IOBuffer_slice1_def sp_IOBuffer_slice2_def sp_IOBuffer_and_def sp_IOBuffer_or_def
    sp_IOBuffer_xor_def sp_IOBuffer_and_ip_def sp_IOBuffer_or_ip_def sp_IOBuffer_xor_ip_def
  show ?thesis
    using assms(2)
  proof (cases x)
    case (OpFor s)
    show ?thesis by (simp add: OpFor new_for left_heap_def lk_append)
  next
    case (OpStoreI b ty off v)
    then have "sp_IOBuffer_store_i be h b ty off v = sp_IOBuffer_set_i be h b ty off v" using assms store_inline(1) [OF assms(1)]
      by (simp add: SP_IOB_TY_f32_def SP_IOB_TY_COUNT_def)
    then show ?thesis using OpStoreI lk_left [OF lk_stores(1)] by (simp add: sp_IOBuffer_set_i_def)
  next
    case (OpStoreF b ty off v)
    then have "sp_IOBuffer_store_f be h b ty off v = sp_IOBuffer_set_f be h b ty off v" using assms store_inline(2) [OF assms(1)] by simp
    then show ?thesis using OpStoreF lk_left [OF lk_stores(1)] by (simp add: sp_IOBuffer_set_f_def)
  next
    case (OpFfiRelease b m)
    have "lk_step (op_unlocks h x) h (sp_IOBuffer_ffi_release h (Some b) m)"
      by (rule lk_ffi(2)) (simp_all only: OpFfiRelease op_unlocks.simps if_True not_False_eq_True insertI1 UnI1 Un_upper2)
    then show ?thesis by (simp only: OpFfiRelease iob_run.simps opost_simps)
  qed (simp_all add: lk_left lk_new lk_stores lk_makers lk_owner_changes lk_in_place lk_ffi(1) lock op_defs del: opost_simps(5))
qed

text \<open>The operations that only read.\<close>

datatype iob_query =
  QGetValue nat RbVal int | QGetI nat nat int | QGetX nat nat int | QGetF nat nat int | QLoadI nat nat int | QLoadF nat nat int
  | QGetString nat int "int option" | QCmp nat RbVal | QEq nat RbVal | QHexdump nat int "int option" int
  | QFfiBase "nat option" bool | QSpan nat int int bool

definition asked :: "'a outcome \<Rightarrow> unit outcome" where
  "asked m = obind m (\<lambda>_. Done ())"

fun iob_ask :: "bool \<Rightarrow> heap \<Rightarrow> iob_query \<Rightarrow> unit outcome" where
  "iob_ask be h (QGetValue b ty off) = asked (sp_IOBuffer_get_value be h b ty off)"
| "iob_ask be h (QGetI b ty off) = asked (sp_IOBuffer_get_i be h b ty off)"
| "iob_ask be h (QGetX b ty off) = asked (sp_IOBuffer_get_x be h b ty off)"
| "iob_ask be h (QGetF b ty off) = asked (sp_IOBuffer_get_f be h b ty off)"
| "iob_ask be h (QLoadI b ty off) = asked (sp_IOBuffer_load_i be h b ty off)"
| "iob_ask be h (QLoadF b ty off) = asked (sp_IOBuffer_load_f be h b ty off)"
| "iob_ask be h (QGetString b off len) = asked (iob_get_string h b off len)"
| "iob_ask be h (QCmp b v) = asked (sp_IOBuffer_cmp h b v)"
| "iob_ask be h (QEq b v) = asked (sp_IOBuffer_eq h b v)"
| "iob_ask be h (QHexdump b off len w) = asked (iob_hexdump h b off len w)"
| "iob_ask be h (QFfiBase b wr) = asked (sp_IOBuffer_ffi_base h b wr)"
| "iob_ask be h (QSpan b len off wr) = asked (iob_io_span h b len off wr)"

fun query_ok :: "int \<Rightarrow> heap \<Rightarrow> iob_query \<Rightarrow> bool" where
  "query_ok c h (QGetValue b ty off) = (b < length h)"
| "query_ok c h (QGetI b ty off) = (b < length h \<and> ty < SP_IOB_TY_COUNT)"
| "query_ok c h (QGetX b ty off) = (b < length h \<and> ty < SP_IOB_TY_COUNT)"
| "query_ok c h (QGetF b ty off) = (b < length h \<and> ty < SP_IOB_TY_COUNT)"
| "query_ok c h (QLoadI b ty off) = (b < length h \<and> ty < SP_IOB_TY_f32 \<and> in_i64 off)"
| "query_ok c h (QLoadF b ty off) = (b < length h \<and> ty < SP_IOB_TY_COUNT \<and> in_i64 off)"
| "query_ok c h (QGetString b off len) = (b < length h)"
| "query_ok c h (QCmp b v) = (b < length h \<and> val_ok c h v)"
| "query_ok c h (QEq b v) = (b < length h \<and> val_ok c h v)"
| "query_ok c h (QHexdump b off len w) = (b < length h \<and> in_i64 off)"
| "query_ok c h (QFfiBase b wr) = (case b of None \<Rightarrow> True | Some b \<Rightarrow> b < length h)"
| "query_ok c h (QSpan b len off wr) = (b < length h)"

lemma asked_defined: "orun P m \<Longrightarrow> orun (\<lambda>_. True) (asked m)"
  unfolding asked_def orun_simps by (erule orun_mono) simp

lemma query_defined:
  assumes "heap_ok c h" "query_ok c h q"
  shows "orun (\<lambda>_. True) (iob_ask be h q)"
  using assms(2)
proof (cases q)
  case (QLoadI b ty off)
  then have "ty < SP_IOB_TY_COUNT" using assms(2) by (simp add: SP_IOB_TY_f32_def SP_IOB_TY_COUNT_def)
  then show ?thesis using QLoadI assms load_inline(1) [OF assms(1), of b off ty be] asked_defined [OF safe_reads(2) [OF assms(1), of b ty be off]]
    by simp
next
  case (QLoadF b ty off)
  then show ?thesis using assms load_inline(2) [OF assms(1), of b off ty be] asked_defined [OF safe_reads(3) [OF assms(1), of b ty be off]]
    by simp
next
  case (QFfiBase bo wr)
  have "orun (\<lambda>_. True) (sp_IOBuffer_ffi_base h bo wr)" by (simp add: sp_IOBuffer_ffi_base_def Let_def split: option.split)
  then show ?thesis using QFfiBase asked_defined by fastforce
next
  case (QSpan b len off wr)
  have "orun (\<lambda>_. True) (iob_io_span h b len off wr)" by (simp add: iob_io_span_def)
  then show ?thesis using QSpan asked_defined by fastforce
qed (simp_all add: asked_defined [OF safe_values(1) [OF assms(1)]] asked_defined [OF safe_reads(1) [OF assms(1)]]
    asked_defined [OF safe_reads(2) [OF assms(1)]] asked_defined [OF safe_reads(3) [OF assms(1)]]
    asked_defined [OF safe_strings(1) [OF assms(1)]] asked_defined [OF safe_compare(1) [OF assms(1)]]
    asked_defined [OF safe_compare(2) [OF assms(1)]] asked_defined [OF safe_hexdump [OF assms(1)]] sp_IOBuffer_get_x_def)

lemma iob_reach_ok: "iob_reach ps be c h \<Longrightarrow> heap_ok c h"
proof (induction rule: iob_reach.induct)
  case (step h x h')
  show ?case using orunD(2) [OF op_kept [OF step.IH step.hyps(2)] step.hyps(3)] by simp
qed (simp add: heap_ok_def)

lemma iob_reach_ro: "iob_reach ps be c h \<Longrightarrow> ro_ok h"
proof (induction rule: iob_reach.induct)
  case (step h x h')
  show ?case using opostD [OF op_frozen [OF iob_reach_ok [OF step.hyps(1)] step.IH step.hyps(2)] step.hyps(3)] by (simp add: ro_step_def)
qed (simp add: ro_ok_def)

text \<open>A program of four steps, for the witnesses: a buffer for a String, a slice of it, and a writable buffer with a slice.\<close>

definition demo_for :: IOBuffer where
  "demo_for = (iob_alloc_obj 50)\<lparr>b_data := Some [1, 2, 3], b_size := 3, b_flags := SP_IOB_EXTERNAL OR SP_IOB_READONLY OR SP_IOB_SLICE\<rparr>"

definition demo_new :: IOBuffer where
  "demo_new = (iob_alloc_obj 50)\<lparr>b_data := Some [0, 0, 0, 0, 0, 0, 0, 0], b_size := 8, b_flags := SP_IOB_INTERNAL\<rparr>"

definition demo_slice :: "nat \<Rightarrow> 32 word \<Rightarrow> IOBuffer" where
  "demo_slice s f = (iob_alloc_obj 50)\<lparr>b_source := Some s, b_off := 1, b_size := 2, b_flags := f\<rparr>"

definition demo_heap :: heap where
  "demo_heap = [demo_for, demo_new, demo_slice 0 (SP_IOB_SLICE OR SP_IOB_READONLY), demo_slice 1 SP_IOB_SLICE]"

lemmas demo_defs = demo_heap_def demo_for_def demo_new_def demo_slice_def iob_alloc_obj_def SP_IOB_EXTERNAL_def SP_IOB_READONLY_def
  SP_IOB_SLICE_def SP_IOB_INTERNAL_def SP_IOB_MAPPED_def

lemma demo_reach: "iob_reach 4096 False 50 demo_heap"
proof -
  have i8: "in_i64 8" by (simp add: in_i64_def INT64_MIN_def INT64_MAX_def)
  have z: "replicate 8 (0 :: byte) = [0, 0, 0, 0, 0, 0, 0, 0]" by (simp add: numeral_eq_Suc)
  have 1: "iob_reach 4096 False 50 [demo_for]"
    by (rule iob_reach.step [OF iob_reach.start, where x = "OpFor [1, 2, 3]"]) (simp_all add: new_for left_heap_def demo_for_def INT64_MAX_def)
  have 2: "iob_reach 4096 False 50 [demo_for, demo_new]"
    by (rule iob_reach.step [OF 1, where x = "OpNewI 8"])
      (simp_all add: i8 z sp_IOBuffer_new_i_def new_obj_def iob_allocate_def iob_arg_def ocheck_def Let_def left_heap_def sp_IOBuffer_page_size_def demo_new_def iob_alloc_obj_def)
  have 3: "iob_reach 4096 False 50 [demo_for, demo_new, demo_slice 0 (SP_IOB_SLICE OR SP_IOB_READONLY)]"
    by (rule iob_reach.step [OF 2, where x = "OpSlice 0 1 2"])
      (simp_all add: sp_IOBuffer_slice2_def iob_slice_def iob_slice_invalid_def iob_range_def iob_arg_def ocheck_def new_obj_def left_heap_def demo_defs)
  show ?thesis unfolding demo_heap_def
    by (rule iob_reach.step [OF 3, where x = "OpSlice 1 1 2"])
      (simp_all add: sp_IOBuffer_slice2_def iob_slice_def iob_slice_invalid_def iob_range_def iob_arg_def ocheck_def new_obj_def left_heap_def demo_defs)
qed

section \<open>Properties\<close>

text \<open>
  C18: In every reachable heap an owner has exactly as many bytes as its size says, a slice
  views an owner and never another slice, owns nothing, and is read-only whenever the owner
  is.
\<close>
theorem iob_reachable_invariant:
  "iob_reach ps be c h \<Longrightarrow> heap_ok c h \<and> ro_ok h"
  using iob_reach_ok iob_reach_ro by blast

theorem iob_reachable_invariant_witness: "heap_ok 50 demo_heap \<and> ro_ok demo_heap \<and> length demo_heap = 4"
  using iob_reachable_invariant [OF demo_reach] by (simp add: demo_heap_def)

text \<open>
  C4: On every heap that programs of buffer operations reach from the empty one, no
  operation with well-formed arguments and no read reads or writes outside an allocation,
  through a freed buffer or through a stale slice: each ends in a result or an exception.
\<close>
theorem iob_memory_safe:
  assumes "iob_reach ps be c h"
  shows "(op_ok c h x \<longrightarrow> iob_run ps be c h x \<noteq> Undef) \<and> (query_ok c h q \<longrightarrow> iob_ask be h q \<noteq> Undef)"
  using orunD(1) [OF op_kept [OF iob_reach_ok [OF assms]]] orunD(1) [OF query_defined [OF iob_reach_ok [OF assms]]] by blast

theorem iob_memory_safe_witness:
  "iob_run 4096 False 50 demo_heap (OpCopy 3 (VObj 50 (OBuf 2)) 0 None 0) \<noteq> Undef \<and> iob_ask False demo_heap (QGetI 3 2 7) \<noteq> Undef"
  using iob_memory_safe [OF demo_reach, of "OpCopy 3 (VObj 50 (OBuf 2)) 0 None 0" "QGetI 3 2 7"]
  by (simp add: demo_heap_def val_ok_def SP_BUILTIN_RATIONAL_def SP_IOB_TY_COUNT_def)

text \<open>
  C14: The bytes of a read-only owner, such as a buffer made for a String, are changed by no
  operation on any object of the program, slices included, unless it frees, transfers or
  resizes that owner itself.
\<close>
theorem iob_readonly_frozen:
  assumes "iob_reach ps be c h" "op_ok c h x" "iob_run ps be c h x = Done h'"
    and "i < length h" "b_source (h ! i) = None" "sp_IOBuffer_readonly_p h i" "i \<notin> op_ends x"
  shows "contents h' i = contents h i \<and> sp_IOBuffer_readonly_p h' i"
proof -
  have "ro_step (op_ends x) h h'"
    using opostD [OF op_frozen [OF iob_reach_ok [OF assms(1)] iob_reach_ro [OF assms(1)] assms(2)] assms(3)] .
  then show ?thesis using assms(4-7) by (auto simp: ro_step_def is_ro_def sp_IOBuffer_readonly_p_def contents_def)
qed

theorem iob_readonly_frozen_witness:
  "\<exists>h'. iob_run 4096 False 50 demo_heap (OpSetI 3 0 1 255) = Done h' \<and> contents h' 0 = [1, 2, 3] \<and> contents h' 3 = [0, 255]"
proof -
  let ?x = "OpSetI 3 0 1 255"
  let ?h = "[demo_for, demo_new\<lparr>b_data := Some [0, 0, 255, 0, 0, 0, 0, 0]\<rparr>, demo_slice 0 (SP_IOB_SLICE OR SP_IOB_READONLY), demo_slice 1 SP_IOB_SLICE]"
  have r: "iob_run 4096 False 50 demo_heap ?x = Done ?h"
    by (simp add: left_heap_def sp_IOBuffer_set_i_def iob_set_core_def iob_types_def iob_readonly_def ocheck_def iob_value_wptr_def iob_value_oob_def
        iob_writable_slice_def iob_slice_invalid_def iob_base_def ptr_add_def data_ptr_def iob_int_operand_def word_operand_def mem_write_def
        sp_iob_store_def put_bytes_def demo_defs Let_def)
  have "contents ?h 0 = contents demo_heap 0 \<and> sp_IOBuffer_readonly_p ?h 0"
    by (rule iob_readonly_frozen [OF demo_reach _ r]) (simp_all add: SP_IOB_TY_COUNT_def sp_IOBuffer_readonly_p_def demo_defs)
  then show ?thesis using r by (intro exI [of _ ?h]) (simp add: contents_def demo_defs)
qed

text \<open>
  C21: The inline loads and stores the compiler emits answer, raise and store what the
  out-of-line accessors do, at every offset and on every kind of buffer.
\<close>
theorem iob_inline_accessors:
  assumes "heap_ok c h" "b < length h" "in_i64 off" "ty < SP_IOB_TY_COUNT"
  shows "(if ty < SP_IOB_TY_f32
          then sp_IOBuffer_load_i be h b ty off = sp_IOBuffer_get_i be h b ty off \<and>
               sp_IOBuffer_store_i be h b ty off v = sp_IOBuffer_set_i be h b ty off v
          else sp_IOBuffer_load_f be h b ty off = sp_IOBuffer_get_f be h b ty off \<and>
               sp_IOBuffer_store_f be h b ty off f = sp_IOBuffer_set_f be h b ty off f)"
  using load_inline [OF assms] store_inline [OF assms] by simp

theorem iob_inline_accessors_witness:
  "sp_IOBuffer_load_i False demo_heap 1 5 2 = sp_IOBuffer_get_i False demo_heap 1 5 2 \<and>
   sp_IOBuffer_store_i False demo_heap 2 5 9 (- 1) = sp_IOBuffer_set_i False demo_heap 2 5 9 (- 1)"
proof -
  have "in_i64 2" "in_i64 9" by (simp_all add: in_i64_def INT64_MIN_def INT64_MAX_def)
  then show ?thesis
    using iob_inline_accessors [OF iob_reach_ok [OF demo_reach], of 1 2 5 False] iob_inline_accessors [OF iob_reach_ok [OF demo_reach], of 2 9 5 False "- 1"]
    by (simp add: SP_IOB_TY_f32_def SP_IOB_TY_COUNT_def demo_heap_def)
qed

text \<open>
  C17: An Integer, small or big, that a typed store takes is read back at the same place as
  its low bits in the width of the type, sign-extended for a signed type, and of the bytes
  the buffer shows the store changes exactly those of that element, in the byte order the
  type names whatever the host.
\<close>
theorem iob_set_get:
  assumes "heap_ok c h" "b < length h" "ty < SP_IOB_TY_f32" "num_ok v" "int_of_val v = Some z"
    and "sp_IOBuffer_set_v be h b ty off v = Done (r, h')"
  shows "r = off + int (sp_iob_width ty) \<and>
    (\<exists>x. sp_IOBuffer_get_x be h' b ty off = Done x \<and> int_of_val x = Some (elem_value ty z)) \<and>
    contents h' b = put_bytes (contents h b) (nat off)
      (be_order (sp_iob_big_endian ty) (le_bytes (sp_iob_width ty) (unat (of_int z :: 64 word))))"
proof -
  have ty: "ty < SP_IOB_TY_COUNT" "\<not> ty \<ge> SP_IOB_TY_f32" using assms(3) by (simp_all add: SP_IOB_TY_f32_def SP_IOB_TY_COUNT_def)
  obtain raw where raw: "iob_int_operand ty v = Done raw" and r: "r = off + int (sp_iob_width ty)"
    and off: "0 \<le> off" "off + int (sp_iob_width ty) \<le> b_size (h ! b)" and ok: "\<not> iob_slice_invalid h b" "same_shape h h'"
    and c: "contents h' b = put_bytes (contents h b) (nat off) (be_order (sp_iob_big_endian ty) (le_bytes (sp_iob_width ty) (unat raw)))"
    using set_core_done [OF assms(1,2) ty(1) assms(6) [unfolded sp_IOBuffer_set_v_def]] ty(2) by (metis (full_types))
  note z = int_operand_value [OF raw assms(5,4)]
  note S = same_shape_ok [OF assms(1) ok(2)] and L = same_shapeD [OF ok(2) assms(2)]
  have b: "b < length h'" "\<not> iob_slice_invalid h' b" "off + int (sp_iob_width ty) \<le> b_size (h' ! b)"
    using L same_shape_invalid(1) [OF assms(1) ok(2) assms(2)] assms(2) ok off by simp_all
  have "nat off + sp_iob_width ty \<le> length (contents h b)"
    using contents_length [OF assms(1,2) ok(1)] off by linarith
  then have "iob_load be h' (ptr_add (iob_base h' b) off) (iob_types ! ty) = Done (take_bit (8 * sp_iob_width ty) (of_int z))"
    using load_stored [OF S b(1) ty(1) b(2) off(1) b(3) c] z by simp
  then show ?thesis using get_core_stored [OF S b(1) assms(3) b(2) off(1) b(3)] r c z by (simp add: sp_IOBuffer_get_x_def)
qed

theorem iob_set_get_witness:
  "\<exists>h'. sp_IOBuffer_set_v False demo_heap 3 3 0 (VInt (- 2)) = Done (2, h') \<and>
     contents h' 3 = [254, 255] \<and>
     (\<exists>x. sp_IOBuffer_get_x False h' 3 3 0 = Done x \<and> int_of_val x = Some (elem_value 3 (- 2)))"
proof -
  let ?h = "demo_heap[1 := demo_new\<lparr>b_data := Some [0, 254, 255, 0, 0, 0, 0, 0]\<rparr>]"
  have l: "le_bytes 2 x = [of_nat (x mod 256), of_nat (x div 256 mod 256)]" for x by (simp add: numeral_2_eq_2)
  have r: "sp_IOBuffer_set_v False demo_heap 3 3 0 (VInt (- 2)) = Done (2, ?h)"
    by (simp add: sp_IOBuffer_set_v_def iob_set_core_def iob_types_def iob_readonly_def ocheck_def iob_value_wptr_def iob_value_oob_def
        iob_writable_slice_def iob_slice_invalid_def iob_base_def ptr_add_def data_ptr_def iob_int_operand_def word_operand_def mem_write_def
        sp_iob_store_def host_store_def l put_bytes_def demo_defs Let_def)
  show ?thesis
    using iob_set_get [OF iob_reach_ok [OF demo_reach] _ _ _ _ r, of "- 2"] r
    by (intro exI [of _ ?h]) (simp add: num_ok_def int_of_val_def SP_IOB_TY_f32_def machine_int demo_heap_def demo_slice_def demo_new_def contents_def)
qed

text \<open>A slice whose root no longer reaches as far as the slice does.\<close>

lemma root_gone:
  assumes "heap_ok c h" "b < length h" "b_source (h ! b) = Some s" "iob_run ps be c h x = Done h'"
    and "x \<in> {OpFree s, OpTransfer s} \<or> (\<exists>n. x = OpResize s n \<and> n < b_off (h ! b) + b_size (h ! b))"
  shows "h' ! b = h ! b" "iob_slice_invalid h' b"
proof -
  note B = buf_okD [OF heap_okD [OF assms(1,2)]]
  have s: "s < length h" "b_source (h ! s) = None" "s \<noteq> b" using B(7,9) [OF assms(3)] assms(3) by auto
  have "h' ! b = h ! b \<and> b_source (h' ! b) = Some s \<and> (b_data (h' ! s) = None \<or> b_off (h ! b) > b_size (h' ! s) - b_size (h ! b))"
    using assms(3,4,5) s assms(2)
    by (auto simp: left_heap_def sp_IOBuffer_free_m_def sp_IOBuffer_transfer_def sp_IOBuffer_resize_def ocheck_def iob_arg_def oraise_def Let_def
        iob_release_def nth_append split: if_splits)
  then show "h' ! b = h ! b" "iob_slice_invalid h' b" by (auto simp: iob_slice_invalid_def)
qed

text \<open>
  C29: After the owner of a slice is freed, transferred, or resized to less than the slice
  reaches, the slice is invalid: reading an element of it or its bytes raises
  InvalidatedError, and writing an element raises AccessError when the slice is read-only,
  which is looked at first, and InvalidatedError with the message of writes when it is not.
\<close>
theorem iob_slice_invalidated:
  assumes "heap_ok c h" "b < length h" "b_source (h ! b) = Some s" "iob_run ps be c h x = Done h'"
    and "x \<in> {OpFree s, OpTransfer s} \<or> (\<exists>n. x = OpResize s n \<and> n < b_off (h ! b) + b_size (h ! b))"
    and "ty < SP_IOB_TY_COUNT" "0 \<le> off" "off + int (sp_iob_width ty) \<le> b_size (h ! b)"
  shows "\<not> sp_IOBuffer_valid_p h' b \<and>
    sp_IOBuffer_get_x be h' b ty off = oraise ''IO::Buffer::InvalidatedError'' ''Buffer has been invalidated!'' \<and>
    sp_IOBuffer_get_string0 h' b = oraise ''IO::Buffer::InvalidatedError'' ''Buffer has been invalidated!'' \<and>
    sp_IOBuffer_set_v be h' b ty off v =
      (if sp_IOBuffer_readonly_p h b then oraise ''IO::Buffer::AccessError'' ''Buffer is not writable!''
       else oraise ''IO::Buffer::InvalidatedError'' ''Buffer is invalid!'')"
proof -
  note G = root_gone [OF assms(1-5)] and T = iob_types_header [OF assms(6)] and W = sp_iob_width_bounds [of ty]
  have "0 < b_size (h ! b)" using assms(7,8) W(1) by linarith
  then show ?thesis using G T assms(7,8)
    by (auto simp: sp_IOBuffer_valid_p_def sp_IOBuffer_get_x_def iob_get_core_def Let_def iob_value_ptr_def iob_arg_def ocheck_def iob_ptr_def
        sp_IOBuffer_set_v_def iob_set_core_def iob_readonly_def iob_value_wptr_def iob_value_oob_def iob_writable_slice_def
        sp_IOBuffer_readonly_p_def sp_IOBuffer_get_string0_def iob_get_string_def oraise_def)
qed

theorem iob_slice_invalidated_witness:
  "\<exists>h'. iob_run 4096 False 50 demo_heap (OpResize 1 2) = Done h' \<and>
     sp_IOBuffer_get_x False h' 3 2 0 = oraise ''IO::Buffer::InvalidatedError'' ''Buffer has been invalidated!'' \<and>
     sp_IOBuffer_set_v False h' 3 2 0 (VInt 7) = oraise ''IO::Buffer::InvalidatedError'' ''Buffer is invalid!''"
proof -
  let ?h = "demo_heap[1 := demo_new\<lparr>b_data := Some [0, 0], b_size := 2\<rparr>]"
  have r: "iob_run 4096 False 50 demo_heap (OpResize 1 2) = Done ?h"
    by (simp add: left_heap_def sp_IOBuffer_resize_def ocheck_def iob_arg_def Let_def grown_def SP_IOB_LOCKED_def demo_defs)
  have w: "\<not> sp_IOBuffer_readonly_p demo_heap 3" by (simp add: sp_IOBuffer_readonly_p_def demo_defs)
  have "sp_IOBuffer_get_x False ?h 3 2 0 = oraise ''IO::Buffer::InvalidatedError'' ''Buffer has been invalidated!'' \<and>
      sp_IOBuffer_set_v False ?h 3 2 0 (VInt 7) = oraise ''IO::Buffer::InvalidatedError'' ''Buffer is invalid!''"
    using iob_slice_invalidated [OF iob_reach_ok [OF demo_reach] _ _ r, of 3 1 2 0 "VInt 7"] w
    by (simp add: demo_defs iob_ty_defs sp_iob_width_def)
  then show ?thesis using r by blast
qed

section \<open>Foreign calls that block\<close>

lemma locked_nonzero [simp]: "SP_IOB_LOCKED \<noteq> 0"
  by (simp add: SP_IOB_LOCKED_def)

lemma lock_bits:
  "(f OR SP_IOB_LOCKED) AND SP_IOB_LOCKED \<noteq> 0" "(f AND NOT SP_IOB_LOCKED) AND SP_IOB_LOCKED = 0"
  "f AND SP_IOB_LOCKED = 0 \<Longrightarrow> (f OR SP_IOB_LOCKED) AND NOT SP_IOB_LOCKED = f"
proof -
  have n: "SP_IOB_LOCKED \<noteq> 0" by (simp add: SP_IOB_LOCKED_def)
  show "(f OR SP_IOB_LOCKED) AND SP_IOB_LOCKED \<noteq> 0" using n by (simp add: bit.conj_disj_distrib2)
  show "(f AND NOT SP_IOB_LOCKED) AND SP_IOB_LOCKED = 0" by (simp add: and.assoc)
  assume z: "f AND SP_IOB_LOCKED = 0"
  have "f AND NOT SP_IOB_LOCKED = (f AND NOT SP_IOB_LOCKED) OR (f AND SP_IOB_LOCKED)" by (simp add: z)
  also have "\<dots> = f" by (simp add: bit.conj_disj_distrib [symmetric])
  finally show "(f OR SP_IOB_LOCKED) AND NOT SP_IOB_LOCKED = f" by (simp add: bit.conj_disj_distrib2)
qed

lemma lock_clear: "b < length h \<Longrightarrow> \<not> sp_IOBuffer_locked_p h b \<Longrightarrow> clear_lock (set_lock h b) b = h"
  by (simp add: set_lock_def clear_lock_def sp_IOBuffer_locked_p_def lock_bits)

lemma set_lock_nth: "b < length h \<Longrightarrow> set_lock h b ! i = (if i = b then (h ! b)\<lparr>b_flags := b_flags (h ! b) OR SP_IOB_LOCKED\<rparr> else h ! i)"
  "length (set_lock h b) = length h"
  by (simp_all add: set_lock_def)

lemma clear_lock_nth: "b < length h \<Longrightarrow> clear_lock h b ! i = (if i = b then (h ! b)\<lparr>b_flags := b_flags (h ! b) AND NOT SP_IOB_LOCKED\<rparr> else h ! i)"
  "length (clear_lock h b) = length h"
  by (simp_all add: clear_lock_def)

lemma clear_other: "i \<noteq> b \<Longrightarrow> clear_lock (set_lock h b) i = set_lock (clear_lock h i) b" "i \<noteq> b \<Longrightarrow> clear_lock (set_lock h i) b = set_lock (clear_lock h b) i"
  by (auto simp: set_lock_def clear_lock_def list_update_swap)

text \<open>What a foreign call on a buffer holds: the buffer, and the owner it views.\<close>

definition held :: "heap \<Rightarrow> nat \<Rightarrow> nat set" where
  "held h b = insert b (set_option (b_source (h ! b)))"

text \<open>Operations of the rest of the program while the foreign call runs, none of which unlocks one of \<open>L\<close>.\<close>

inductive iob_holding :: "int \<Rightarrow> bool \<Rightarrow> int \<Rightarrow> nat set \<Rightarrow> heap \<Rightarrow> heap \<Rightarrow> bool" for ps be c L where
  call: "iob_holding ps be c L h h"
| other: "iob_holding ps be c L h h1 \<Longrightarrow> op_ok c h1 x \<Longrightarrow> iob_run ps be c h1 x = Done h2 \<Longrightarrow> op_unlocks h1 x \<inter> L = {} \<Longrightarrow>
    iob_holding ps be c L h h2"

lemma holding_kept:
  "iob_holding ps be c L h h' \<Longrightarrow> heap_ok c h \<Longrightarrow> L \<subseteq> {i. i < length h \<and> is_lk (h ! i)} \<Longrightarrow>
    heap_ok c h' \<and> length h \<le> length h' \<and> (\<forall>i \<in> L. lk_same (h ! i) (h' ! i))"
proof (induction rule: iob_holding.induct)
  case (call h)
  then show ?case by (auto simp: lk_same_def)
next
  case (other h h1 x h2)
  then have I: "heap_ok c h1" "length h \<le> length h1" "\<forall>i \<in> L. lk_same (h ! i) (h1 ! i)" by blast+
  note K = orunD(2) [OF op_kept [OF I(1) other.hyps(2)] other.hyps(3)]
    and S = opostD [OF op_locked [OF I(1) other.hyps(2)] other.hyps(3)]
  have "lk_same (h ! i) (h2 ! i)" if i: "i \<in> L" for i
  proof -
    have s: "lk_same (h ! i) (h1 ! i)" "i < length h1" "i \<notin> op_unlocks h1 x" using I i other.prems(2) other.hyps(4) by auto
    show ?thesis by (rule lk_same_trans [OF s(1) lk_stepD(2) [OF S s(2,3) lk_same_is [OF s(1)]]])
  qed
  then show ?case using K I(2) by auto
qed

lemma lk_locked: "is_lk (h ! i) \<longleftrightarrow> sp_IOBuffer_locked_p h i"
  by (simp add: is_lk_def sp_IOBuffer_locked_p_def)

lemma held_ok:
  assumes "heap_ok c h" "b < length h" "t \<in> held h b"
  shows "t < length h" "t \<noteq> b \<Longrightarrow> b_source (h ! b) = Some t" "b_source (h ! b) \<noteq> Some b"
  using buf_okD(7,8,9) [OF heap_okD [OF assms(1,2)]] assms by (auto simp: held_def)

text \<open>The hold locks what it says, and its mask names what was not locked before.\<close>

lemma hold_locks:
  assumes "heap_ok c h" "b < length h" "sp_IOBuffer_ffi_hold h (Some b) = (m, h1)" "t \<in> held h b"
  shows "lk_same (h ! t) (h1 ! t)" "length h1 = length h"
    "m = (if sp_IOBuffer_locked_p h b then 0 else 1) OR
      (case b_source (h ! b) of None \<Rightarrow> 0 | Some s \<Rightarrow> if sp_IOBuffer_locked_p h s then 0 else 2)"
proof -
  note H = held_ok [OF assms(1,2)]
  note defs = sp_IOBuffer_ffi_hold_def Let_def sp_IOBuffer_locked_p_def lk_same_def is_lk_def held_def
  have s: "s < length h" "s \<noteq> b" if "b_source (h ! b) = Some s" for s using H that by (auto simp: held_def)
  have "lk_same (h ! t) (h1 ! t) \<and> length h1 = length h \<and> m = (if sp_IOBuffer_locked_p h b then 0 else 1) OR
      (case b_source (h ! b) of None \<Rightarrow> 0 | Some s \<Rightarrow> if sp_IOBuffer_locked_p h s then 0 else 2)"
  proof (cases "b_source (h ! b)")
    case None
    then show ?thesis using assms(2-4) by (auto simp: defs set_lock_nth lock_bits split: if_splits)
  next
    case (Some s)
    then show ?thesis using assms(2-4) s [OF Some] by (auto simp: defs set_lock_nth lock_bits split: if_splits)
  qed
  then show "lk_same (h ! t) (h1 ! t)" "length h1 = length h"
    "m = (if sp_IOBuffer_locked_p h b then 0 else 1) OR
      (case b_source (h ! b) of None \<Rightarrow> 0 | Some s \<Rightarrow> if sp_IOBuffer_locked_p h s then 0 else 2)"
    by blast+
qed

lemma base_same: "(\<And>i. i \<in> held h b \<Longrightarrow> lk_same (h ! i) (h2 ! i)) \<Longrightarrow> iob_base h2 b = iob_base h b"
proof -
  assume a: "\<And>i. i \<in> held h b \<Longrightarrow> lk_same (h ! i) (h2 ! i)"
  have d: "data_ptr h2 i = data_ptr h i" if "i \<in> held h b" for i
    using a [OF that] by (cases "b_data (h ! i)"; cases "b_data (h2 ! i)") (simp_all add: lk_same_def data_ptr_def)
  have "b_source (h2 ! b) = b_source (h ! b)" "b_off (h2 ! b) = b_off (h ! b)" using a [of b] by (simp_all add: held_def lk_same_def)
  then show ?thesis using d by (auto simp: iob_base_def held_def split: option.split)
qed

lemma release_unlocks:
  assumes "b < length h2" "sp_IOBuffer_locked_p h2 b"
    and "m = (if l1 then 0 else 1) OR (case b_source (h2 ! b) of None \<Rightarrow> 0 | Some s \<Rightarrow> if l s then 0 else 2)"
    and "\<And>s. b_source (h2 ! b) = Some s \<Longrightarrow> s < length h2 \<and> s \<noteq> b \<and> sp_IOBuffer_locked_p h2 s"
  shows "sp_IOBuffer_locked_p (sp_IOBuffer_ffi_release h2 (Some b) m) b \<longleftrightarrow> l1"
    "b_source (h2 ! b) = Some s \<Longrightarrow> sp_IOBuffer_locked_p (sp_IOBuffer_ffi_release h2 (Some b) m) s \<longleftrightarrow> l s"
proof -
  note defs = sp_IOBuffer_ffi_release_def sp_IOBuffer_locked_p_def
  have "(sp_IOBuffer_locked_p (sp_IOBuffer_ffi_release h2 (Some b) m) b \<longleftrightarrow> l1) \<and>
      (\<forall>s. b_source (h2 ! b) = Some s \<longrightarrow> sp_IOBuffer_locked_p (sp_IOBuffer_ffi_release h2 (Some b) m) s \<longleftrightarrow> l s)"
  proof (cases "b_source (h2 ! b)")
    case None
    then have "m = (if l1 then 0 else 1)" using assms(3) None by simp
    then show ?thesis using assms(1,2) None by (cases l1) (simp_all add: defs clear_lock_nth lock_bits)
  next
    case (Some s)
    then show ?thesis using assms(1-3) assms(4) [OF Some] by (cases l1; cases "l s") (auto simp: defs clear_lock_nth lock_bits)
  qed
  then show "sp_IOBuffer_locked_p (sp_IOBuffer_ffi_release h2 (Some b) m) b \<longleftrightarrow> l1"
    "b_source (h2 ! b) = Some s \<Longrightarrow> sp_IOBuffer_locked_p (sp_IOBuffer_ffi_release h2 (Some b) m) s \<longleftrightarrow> l s" by blast+
qed

text \<open>
  C30: While a foreign call holds a buffer, the rest of the program may run any operations,
  on this and on other buffers, that unlock neither it nor the owner it views: after any
  such sequence, freeing, resizing or transferring either raises LockedError, the buffer
  still lies at the same place with the same size and its allocation has the same length,
  and the release leaves each of the two locked exactly when it was locked before the hold.
  An unlock in between, by the program or by the release of an overlapping call, is what the
  hold does not survive.
\<close>
theorem ffi_hold_protects:
  assumes "heap_ok c h" "b < length h" "sp_IOBuffer_ffi_hold h (Some b) = (m, h1)"
    and "iob_holding ps be c (held h b) h1 h2" "t \<in> held h b"
  shows "sp_IOBuffer_free_m h2 t = oraise ''IO::Buffer::LockedError'' ''Buffer is locked!'' \<and>
    sp_IOBuffer_resize h2 t n = oraise ''IO::Buffer::LockedError'' ''Cannot resize locked buffer!'' \<and>
    sp_IOBuffer_transfer h2 t = oraise ''IO::Buffer::LockedError'' ''Cannot transfer ownership of locked buffer!'' \<and>
    iob_base h2 b = iob_base h b \<and> b_size (h2 ! t) = b_size (h ! t) \<and>
    map_option length (b_data (h2 ! t)) = map_option length (b_data (h ! t)) \<and>
    (sp_IOBuffer_locked_p (sp_IOBuffer_ffi_release h2 (Some b) m) t \<longleftrightarrow> sp_IOBuffer_locked_p h t)"
proof -
  note L = hold_locks [OF assms(1-3)] and H = held_ok [OF assms(1,2)]
  have bh: "b \<in> held h b" by (simp add: held_def)
  have k: "heap_ok c h1" using safe_flags(5) [OF assms(1,2)] assms(3) by simp
  have h: "held h b \<subseteq> {i. i < length h1 \<and> is_lk (h1 ! i)}" using H(1) L(2) lk_same_is [OF L(1)] by auto
  note K = holding_kept [OF assms(4) k h]
  have S: "lk_same (h ! i) (h2 ! i)" "i < length h2" if "i \<in> held h b" for i
    using lk_same_trans [OF L(1) [OF that]] K that H(1) [OF that] L(2) [OF that] by auto
  have src: "b_source (h2 ! b) = b_source (h ! b)" using S(1) [OF bh] by (simp add: lk_same_def)
  have lk: "sp_IOBuffer_locked_p h2 i" if "i \<in> held h b" for i using S(1) [OF that] lk_same_is lk_locked by blast
  have o: "s < length h2 \<and> s \<noteq> b \<and> sp_IOBuffer_locked_p h2 s" if "b_source (h2 ! b) = Some s" for s
    using that src S(2) lk H(3) [OF bh] by (auto simp: held_def)
  note R = release_unlocks [OF S(2) [OF bh] lk [OF bh] L(3) [OF bh, folded src] o]
  have "sp_IOBuffer_locked_p (sp_IOBuffer_ffi_release h2 (Some b) m) t \<longleftrightarrow> sp_IOBuffer_locked_p h t"
    using R(1) R(2) [of t] H(2) [OF assms(5)] src by (cases "t = b") simp_all
  then show ?thesis using lk [OF assms(5)] S(1) [OF assms(5)] base_same [OF S(1)]
    by (simp add: sp_IOBuffer_free_m_def sp_IOBuffer_resize_def sp_IOBuffer_transfer_def ocheck_def Let_def sp_IOBuffer_locked_p_def lk_same_def)
qed

theorem ffi_hold_protects_witness:
  "let h1 = snd (sp_IOBuffer_ffi_hold demo_heap (Some 3)) in
     \<exists>h2. iob_run 4096 False 50 h1 (OpSetI 3 0 1 255) = Done h2 \<and> contents h2 3 = [0, 255] \<and>
       sp_IOBuffer_free_m h2 1 = oraise ''IO::Buffer::LockedError'' ''Buffer is locked!''"
proof -
  let ?l = "SP_IOB_INTERNAL OR SP_IOB_LOCKED" and ?x = "OpSetI 3 0 1 255"
  let ?g = "\<lambda>d. [demo_for, demo_new\<lparr>b_flags := ?l, b_data := Some d\<rparr>, demo_slice 0 (SP_IOB_SLICE OR SP_IOB_READONLY),
    demo_slice 1 (SP_IOB_SLICE OR SP_IOB_LOCKED)]"
  let ?h1 = "?g [0, 0, 0, 0, 0, 0, 0, 0]" and ?h2 = "?g [0, 0, 255, 0, 0, 0, 0, 0]"
  have h: "sp_IOBuffer_ffi_hold demo_heap (Some 3) = (3, ?h1)"
    by (simp add: sp_IOBuffer_ffi_hold_def Let_def set_lock_def demo_defs SP_IOB_LOCKED_def)
  have r: "iob_run 4096 False 50 ?h1 ?x = Done ?h2"
    by (simp add: left_heap_def sp_IOBuffer_set_i_def iob_set_core_def iob_types_def iob_readonly_def ocheck_def iob_value_wptr_def iob_value_oob_def
        iob_writable_slice_def iob_slice_invalid_def iob_base_def ptr_add_def data_ptr_def iob_int_operand_def word_operand_def mem_write_def
        sp_iob_store_def put_bytes_def demo_defs SP_IOB_LOCKED_def Let_def)
  have "iob_holding 4096 False 50 (held demo_heap 3) ?h1 ?h2"
    by (rule iob_holding.other [OF iob_holding.call _ r]) (simp_all add: SP_IOB_TY_COUNT_def)
  then have "sp_IOBuffer_free_m ?h2 1 = oraise ''IO::Buffer::LockedError'' ''Buffer is locked!''"
    using ffi_hold_protects [OF iob_reach_ok [OF demo_reach] _ h, of 4096 False ?h2 1] by (simp add: held_def demo_heap_def demo_slice_def)
  then show ?thesis unfolding h snd_conv Let_def using r by (intro exI [of _ ?h2]) (simp add: contents_def demo_defs)
qed

text \<open>
  C31: When two foreign calls hold the same buffer, the release of the first one unlocks it
  although the second one still runs: freeing it then succeeds and drops its bytes.
\<close>
theorem ffi_hold_overlap:
  assumes "b < length h" "b_source (h ! b) = None" "\<not> sp_IOBuffer_locked_p h b"
    and "sp_IOBuffer_ffi_hold h (Some b) = (m1, h1)" "sp_IOBuffer_ffi_hold h1 (Some b) = (m2, h2)"
    and "h3 = sp_IOBuffer_ffi_release h2 (Some b) m1"
  shows "\<not> sp_IOBuffer_locked_p h3 b \<and> (\<exists>h4. sp_IOBuffer_free_m h3 b = Done (b, h4) \<and> b_data (h4 ! b) = None)"
proof -
  have "m1 = 1" "h1 = set_lock h b" using assms(2-4) by (auto simp: sp_IOBuffer_ffi_hold_def sp_IOBuffer_locked_p_def set_lock_nth(1) [OF assms(1)] split: if_splits)
  moreover from this have "h2 = h1" using assms(1,2,5) by (auto simp: sp_IOBuffer_ffi_hold_def set_lock_nth lock_bits split: if_splits)
  ultimately have "h3 = h" using assms(1-3,6) lock_clear [OF assms(1,3)] by (simp add: sp_IOBuffer_ffi_release_def)
  then show ?thesis using assms(1,3) by (simp add: sp_IOBuffer_free_m_def ocheck_def sp_IOBuffer_locked_p_def iob_release_def)
qed

theorem ffi_hold_overlap_witness:
  "let (m1, h1) = sp_IOBuffer_ffi_hold demo_heap (Some 1); (m2, h2) = sp_IOBuffer_ffi_hold h1 (Some 1)
   in sp_IOBuffer_locked_p h2 1 \<and> \<not> sp_IOBuffer_locked_p (sp_IOBuffer_ffi_release h2 (Some 1) m1) 1"
proof -
  obtain m1 h1 where 1: "sp_IOBuffer_ffi_hold demo_heap (Some 1) = (m1, h1)" by fastforce
  obtain m2 h2 where 2: "sp_IOBuffer_ffi_hold h1 (Some 1) = (m2, h2)" by fastforce
  have "\<not> sp_IOBuffer_locked_p (sp_IOBuffer_ffi_release h2 (Some 1) m1) 1"
    using ffi_hold_overlap [OF _ _ _ 1 2 refl] by (simp add: demo_defs sp_IOBuffer_locked_p_def SP_IOB_LOCKED_def)
  moreover have "sp_IOBuffer_locked_p h2 1"
    using 1 2 by (auto simp: sp_IOBuffer_ffi_hold_def demo_defs sp_IOBuffer_locked_p_def SP_IOB_LOCKED_def set_lock_def)
  ultimately show ?thesis unfolding 1 2 prod.case Let_def by blast
qed

end
