(* ===== verification/NilBits.thy ===== *)
theory NilBits
  imports Outcome "HOL-Library.Monad_Syntax"
begin

unbundle bit_operations_syntax

text \<open>
  The nil bitmaps of the typed arrays (\<^verbatim>\<open>lib/sp_array.h\<close>, the macros of \<^verbatim>\<open>lib/sp_types.h\<close>): one bit for each
  slot of the data, in words of 64. A word or slot outside its array is the value \<open>None\<close>, which stands
  for an access the C standard leaves undefined; so is what is read of memory that was not written.
\<close>

section \<open>Memory\<close>

definition ld :: "'a list \<Rightarrow> nat \<Rightarrow> 'a option" where
  "ld xs i = (if i < length xs then Some (xs ! i) else None)"

definition st :: "'a list \<Rightarrow> nat \<Rightarrow> 'a \<Rightarrow> 'a list option" where
  "st xs i v = (if i < length xs then Some (xs[i := v]) else None)"

text \<open>\<^verbatim>\<open>for (i = from; i < to; i++)\<close>, with the state of the loop.\<close>

fun loop :: "(nat \<Rightarrow> 's \<Rightarrow> 's option) \<Rightarrow> nat \<Rightarrow> nat \<Rightarrow> 's \<Rightarrow> 's option" where
  "loop f i 0 s = Some s"
| "loop f i (Suc n) s = Option.bind (f i s) (loop f (Suc i) n)"

section \<open>Bits\<close>

type_synonym bits = "64 word list"

definition sp_nilbits_words :: "nat \<Rightarrow> nat" where
  "sp_nilbits_words cap = (cap + 63) div 64"

definition sp_nilbit_get :: "bits \<Rightarrow> nat \<Rightarrow> bool option" where
  "sp_nilbit_get b i = do { w \<leftarrow> ld b (i div 64); Some (bit w (i mod 64)) }"

definition sp_nilbit_set :: "bits \<Rightarrow> nat \<Rightarrow> bits option" where
  "sp_nilbit_set b i = do { w \<leftarrow> ld b (i div 64); st b (i div 64) (w OR push_bit (i mod 64) 1) }"

definition sp_nilbit_clr :: "bits \<Rightarrow> nat \<Rightarrow> bits option" where
  "sp_nilbit_clr b i = do { w \<leftarrow> ld b (i div 64); st b (i div 64) (w AND NOT (push_bit (i mod 64) 1)) }"

definition sp_nilbits_new :: "nat \<Rightarrow> bits" where
  "sp_nilbits_new cap = replicate (let nb = sp_nilbits_words cap in if nb \<noteq> 0 then nb else 1) 0"

definition sp_nilbits_resize :: "bits \<Rightarrow> nat \<Rightarrow> nat \<Rightarrow> bits" where
  "sp_nilbits_resize b oldcap newcap =
     (let ow = sp_nilbits_words oldcap; nw = sp_nilbits_words newcap
      in if ow = nw then b else take (if nw \<noteq> 0 then nw else 1) b @ replicate (nw - ow) 0)"

definition sp_nilbits_clear_range :: "bits \<Rightarrow> nat \<Rightarrow> nat \<Rightarrow> bits option" where
  "sp_nilbits_clear_range b from to = loop (\<lambda>i b. sp_nilbit_clr b i) from (to - from) b"

text \<open>The bits up to a word boundary, whole words, and the rest.\<close>

function set_head :: "bits \<Rightarrow> nat \<Rightarrow> nat \<Rightarrow> (bits \<times> nat) option" where
  "set_head b from to =
     (if from < to \<and> from mod 64 \<noteq> 0 then Option.bind (sp_nilbit_set b from) (\<lambda>b. set_head b (from + 1) to)
      else Some (b, from))"
  by pat_completeness auto
termination by (relation "measure (\<lambda>(b, from, to). to - from)") auto

function set_words :: "bits \<Rightarrow> nat \<Rightarrow> nat \<Rightarrow> (bits \<times> nat) option" where
  "set_words b from to =
     (if from + 64 \<le> to then Option.bind (st b (from div 64) (- 1)) (\<lambda>b. set_words b (from + 64) to)
      else Some (b, from))"
  by pat_completeness auto
termination by (relation "measure (\<lambda>(b, from, to). to - from)") auto

declare set_head.simps [simp del] set_words.simps [simp del]

definition sp_nilbits_set_range :: "bits \<Rightarrow> nat \<Rightarrow> nat \<Rightarrow> bits option" where
  "sp_nilbits_set_range b from to = do {
     (b, from) \<leftarrow> set_head b from to;
     (b, from) \<leftarrow> set_words b from to;
     loop (\<lambda>i b. sp_nilbit_set b i) from (to - from) b
   }"

fun any_loop :: "bits \<Rightarrow> nat \<Rightarrow> nat \<Rightarrow> bool option" where
  "any_loop b i 0 = Some False"
| "any_loop b i (Suc n) = Option.bind (sp_nilbit_get b i) (\<lambda>v. if v then Some True else any_loop b (Suc i) n)"

definition sp_nilbits_any :: "bits \<Rightarrow> nat \<Rightarrow> nat \<Rightarrow> bool option" where
  "sp_nilbits_any b from to = any_loop b from (to - from)"

definition sp_nilbits_count :: "bits \<Rightarrow> nat \<Rightarrow> nat \<Rightarrow> nat option" where
  "sp_nilbits_count b from to = loop (\<lambda>i n. Option.bind (sp_nilbit_get b i) (\<lambda>v. Some (n + of_bool v))) from (to - from) 0"

text \<open>\<^verbatim>\<open>SP_CTZ64\<close> of a word that is not zero.\<close>

definition ctz64 :: "64 word \<Rightarrow> nat" where
  "ctz64 m = length (takeWhile (\<lambda>i. \<not> bit m i) [0..<64])"

text \<open>The words from \<open>w\<close> on, the first one masked already.\<close>

function next_word :: "bits \<Rightarrow> nat \<Rightarrow> nat \<Rightarrow> 64 word \<Rightarrow> nat option option" where
  "next_word b nw w m =
     (if m \<noteq> 0 then Some (Some (w * 64 + ctz64 m))
      else if w + 1 \<ge> nw then Some None
      else Option.bind (ld b (w + 1)) (next_word b nw (w + 1)))"
  by pat_completeness auto
termination by (relation "measure (\<lambda>(b, nw, w, m). nw - w)") auto

declare next_word.simps [simp del]

definition sp_nilbits_next :: "bits \<Rightarrow> nat \<Rightarrow> nat \<Rightarrow> nat option option" where
  "sp_nilbits_next b from cap =
     (let nw = sp_nilbits_words cap; w = from div 64
      in if w \<ge> nw then Some None
         else Option.bind (ld b w) (\<lambda>x. next_word b nw w (x AND push_bit (from mod 64) (- 1))))"

definition sp_nilbits_move :: "bits \<Rightarrow> nat \<Rightarrow> nat \<Rightarrow> nat \<Rightarrow> nat \<Rightarrow> bits option" where
  "sp_nilbits_move b cap from to n =
     (if from = to \<or> n = 0 then Some b
      else do {
        let nw = sp_nilbits_words cap;
        t \<leftarrow> loop (\<lambda>i t. Option.bind (sp_nilbit_get b (from + i)) (\<lambda>v. if v then sp_nilbit_set t (to + i) else Some t)) 0 n
               (replicate (if nw \<noteq> 0 then nw else 1) 0);
        b \<leftarrow> sp_nilbits_clear_range b from (from + n);
        b \<leftarrow> sp_nilbits_clear_range b to (to + n);
        loop (\<lambda>w b. Option.bind (ld b w) (\<lambda>x. Option.bind (ld t w) (\<lambda>y. st b w (x OR y)))) 0 nw b
      })"

definition SP_NIL_LO_NONE :: nat where
  "SP_NIL_LO_NONE = 2 ^ 32 - 1"

definition sp_nil_lo_next :: "bits \<Rightarrow> nat \<Rightarrow> nat \<Rightarrow> nat option" where
  "sp_nil_lo_next b lo cap =
     Option.bind (sp_nilbits_next b lo cap) (\<lambda>p. Some
       (case p of None \<Rightarrow> SP_NIL_LO_NONE | Some p \<Rightarrow> if p \<ge> SP_NIL_LO_NONE then SP_NIL_LO_NONE - 1 else p))"

definition sp_nil_lo_up :: "bits \<Rightarrow> nat \<Rightarrow> nat \<Rightarrow> nat option" where
  "sp_nil_lo_up b lo cap = do {
     x \<leftarrow> ld b (lo div 64);
     let m = x AND push_bit (lo mod 64) (- 1);
     (if m \<noteq> 0 \<and> lo OR 63 \<noteq> SP_NIL_LO_NONE then Some (lo - lo mod 64 + ctz64 m) else sp_nil_lo_next b lo cap)
   }"

section \<open>The set of bits\<close>

definition bits_set :: "bits \<Rightarrow> nat set" where
  "bits_set b = {i. i < 64 * length b \<and> bit (b ! (i div 64)) (i mod 64)}"

lemma ld_simps [simp]: "i < length xs \<Longrightarrow> ld xs i = Some (xs ! i)"
  by (simp add: ld_def)

lemma st_simps [simp]: "i < length xs \<Longrightarrow> st xs i v = Some (xs[i := v])"
  by (simp add: st_def)

lemma word_index [simp]: "i < 64 * n \<Longrightarrow> i div 64 < (n :: nat)"
  by (simp add: div_less_iff_less_mult)

lemma word_index_less: "i div 64 < (n :: nat) \<Longrightarrow> i < 64 * n"
  by (simp add: div_less_iff_less_mult)

lemma one_bit: "bit (push_bit m 1 :: 64 word) n \<longleftrightarrow> n = m \<and> m < 64"
  by (auto simp: bit_simps)

lemma nilbit_get [simp]: "i < 64 * length b \<Longrightarrow> sp_nilbit_get b i = Some (i \<in> bits_set b)"
  by (simp add: sp_nilbit_get_def bits_set_def)

lemma same_bit: "i div 64 = j div 64 \<Longrightarrow> i mod 64 = j mod 64 \<Longrightarrow> i = (j :: nat)"
  by (metis mod_div_decomp)

lemma bits_set_update:
  assumes "w < length b"
  shows "bits_set (b[w := x]) = {i \<in> bits_set b. i div 64 \<noteq> w} \<union> {i. i div 64 = w \<and> bit x (i mod 64)}"
proof -
  have "i < 64 * length b" if "i div 64 = w" for i using that assms by (metis div_less_iff_less_mult mult.commute zero_less_numeral)
  then show ?thesis using assms by (auto simp: bits_set_def nth_list_update split: if_splits)
qed

lemma nilbit_set:
  assumes "i < 64 * length b"
  obtains b' where "sp_nilbit_set b i = Some b'" "length b' = length b" "bits_set b' = insert i (bits_set b)"
proof -
  let ?b = "b[i div 64 := b ! (i div 64) OR push_bit (i mod 64) 1]"
  have w: "i div 64 < length b" using assms by simp
  have "sp_nilbit_set b i = Some ?b" using w by (simp add: sp_nilbit_set_def)
  moreover have "bits_set ?b = insert i (bits_set b)"
    unfolding bits_set_update [OF w] using assms same_bit [of _ i] w
    by (auto simp: bits_set_def bit_or_iff one_bit word_index_less simp del: push_bit_of_1)
  ultimately show ?thesis using that by simp
qed

lemma nilbit_clr:
  assumes "i < 64 * length b"
  obtains b' where "sp_nilbit_clr b i = Some b'" "length b' = length b" "bits_set b' = bits_set b - {i}"
proof -
  let ?b = "b[i div 64 := b ! (i div 64) AND NOT (push_bit (i mod 64) 1)]"
  have w: "i div 64 < length b" using assms by simp
  have "sp_nilbit_clr b i = Some ?b" using w by (simp add: sp_nilbit_clr_def)
  moreover have "bits_set ?b = bits_set b - {i}"
    unfolding bits_set_update [OF w] using assms same_bit [of _ i] w
    by (auto simp: bits_set_def bit_and_iff bit_not_iff one_bit word_index_less simp del: push_bit_of_1)
  ultimately show ?thesis using that by simp
qed

section \<open>Ranges of bits\<close>

lemma loop_bits:
  assumes "\<And>i b. i < 64 * length b \<Longrightarrow> \<exists>b'. f i b = Some b' \<and> length b' = length b \<and> bits_set b' = g i (bits_set b)"
    and "i + n \<le> 64 * length b"
  shows "\<exists>b'. loop f i n b = Some b' \<and> length b' = length b \<and> bits_set b' = fold g [i..<i + n] (bits_set b)"
  using assms(2)
proof (induction n arbitrary: i b)
  case (Suc n)
  obtain b1 where b1: "f i b = Some b1" "length b1 = length b" "bits_set b1 = g i (bits_set b)" using assms(1) [of i b] Suc.prems by auto
  moreover have "Suc i + n \<le> 64 * length b1" using Suc.prems b1 by simp
  moreover have "[i..<i + Suc n] = i # [Suc i..<Suc i + n]" by (simp add: upt_conv_Cons del: upt_Suc)
  ultimately show ?case using Suc.IH [of "Suc i" b1] by (simp del: upt_Suc)
qed simp

lemma fold_insert: "fold insert xs S = S \<union> set xs"
  by (induction xs arbitrary: S) auto

lemma fold_remove: "fold (\<lambda>i S. S - {i}) xs S = S - set xs"
  by (induction xs arbitrary: S) auto

lemma clear_range:
  assumes "to \<le> 64 * length b" "from \<le> to"
  obtains b' where "sp_nilbits_clear_range b from to = Some b'" "length b' = length b" "bits_set b' = bits_set b - {from..<to}"
proof -
  have "\<exists>b'. loop (\<lambda>i b. sp_nilbit_clr b i) from (to - from) b = Some b' \<and> length b' = length b \<and>
      bits_set b' = fold (\<lambda>i S. S - {i}) [from..<from + (to - from)] (bits_set b)"
    by (rule loop_bits) (use assms nilbit_clr in \<open>metis, simp\<close>)
  then show ?thesis using that assms by (auto simp: sp_nilbits_clear_range_def fold_remove)
qed

lemma set_head_bits:
  assumes "to \<le> 64 * length b" "from \<le> to"
  shows "\<exists>b' m. set_head b from to = Some (b', m) \<and> length b' = length b \<and> bits_set b' = bits_set b \<union> {from..<m} \<and>
    from \<le> m \<and> m \<le> to \<and> (m = to \<or> m mod 64 = 0)"
  using assms
proof (induction b "from" to rule: set_head.induct)
  case (1 b "from" to)
  show ?case
  proof (cases "from < to \<and> from mod 64 \<noteq> 0")
    case True
    obtain b1 where b1: "sp_nilbit_set b from = Some b1" "length b1 = length b" "bits_set b1 = insert from (bits_set b)"
      using nilbit_set [of "from" b] True 1(2) by auto
    obtain b' m where "set_head b1 (from + 1) to = Some (b', m)" "length b' = length b1" "bits_set b' = bits_set b1 \<union> {from + 1..<m}"
        "from + 1 \<le> m" "m \<le> to" "m = to \<or> m mod 64 = 0"
      using 1(1) [OF True b1(1)] True 1(2,3) b1(2) by auto
    moreover from this have "{from..<m} = insert from {from + 1..<m}" by auto
    ultimately show ?thesis using True b1 by (auto simp: set_head.simps [of b])
  qed (use 1(3) in \<open>auto simp: set_head.simps [of b]\<close>)
qed

lemma full_word: "bits_set (b[w := - 1]) = bits_set b \<union> {64 * w..<64 * w + 64}" if "w < length b"
proof -
  let ?S = "{64 * w..<64 * w + 64}"
  have e: "i div 64 = w \<longleftrightarrow> i \<in> ?S" for i
  proof
    assume "i div 64 = w"
    then show "i \<in> ?S" using mod_div_mult_eq [of i 64] mod_less_divisor [of 64 i] by (simp only: atLeastLessThan_iff) linarith
  next
    assume "i \<in> ?S"
    then show "i div 64 = w" by (intro div_nat_eqI) simp_all
  qed
  have "{i. i div 64 = w \<and> bit (- 1 :: 64 word) (i mod 64)} = ?S" "{i \<in> bits_set b. i div 64 \<noteq> w} = bits_set b - ?S"
    unfolding e by (auto simp only: bit_minus_1_iff possible_bit_word) simp
  then show ?thesis unfolding bits_set_update [OF that] by blast
qed

lemma set_words_bits:
  assumes "to \<le> 64 * length b" "from \<le> to" "from = to \<or> from mod 64 = 0"
  shows "\<exists>b' m. set_words b from to = Some (b', m) \<and> length b' = length b \<and> bits_set b' = bits_set b \<union> {from..<m} \<and> from \<le> m \<and> m \<le> to"
  using assms
proof (induction b "from" to rule: set_words.induct)
  case (1 b "from" to)
  show ?case
  proof (cases "from + 64 \<le> to")
    case True
    have w: "from div 64 < length b" "from = 64 * (from div 64)" using True 1(2,4) by auto
    obtain b' m where "set_words (b[from div 64 := - 1]) (from + 64) to = Some (b', m)" "length b' = length b"
        "bits_set b' = bits_set (b[from div 64 := - 1]) \<union> {from + 64..<m}" "from + 64 \<le> m" "m \<le> to"
      using 1(1) [OF True, of "b[from div 64 := - 1]"] True 1(2-4) by auto
    moreover from this have "{from..<m} = {from..<from + 64} \<union> {from + 64..<m}" by auto
    moreover have "bits_set (b[from div 64 := - 1]) = bits_set b \<union> {from..<from + 64}" using full_word [OF w(1)] w(2) by simp
    ultimately show ?thesis using True w(1) by (auto simp: set_words.simps [of b])
  qed (use 1(3) in \<open>auto simp: set_words.simps [of b]\<close>)
qed

lemma set_range:
  assumes "to \<le> 64 * length b" "from \<le> to"
  obtains b' where "sp_nilbits_set_range b from to = Some b'" "length b' = length b" "bits_set b' = bits_set b \<union> {from..<to}"
proof -
  obtain b1 m1 where 1: "set_head b from to = Some (b1, m1)" "length b1 = length b" "bits_set b1 = bits_set b \<union> {from..<m1}"
      "from \<le> m1" "m1 \<le> to" "m1 = to \<or> m1 mod 64 = 0"
    using set_head_bits [OF assms] by metis
  obtain b2 m2 where 2: "set_words b1 m1 to = Some (b2, m2)" "length b2 = length b" "bits_set b2 = bits_set b1 \<union> {m1..<m2}" "m1 \<le> m2" "m2 \<le> to"
    using set_words_bits [of to b1 m1] assms 1 by auto
  have "\<exists>b'. loop (\<lambda>i b. sp_nilbit_set b i) m2 (to - m2) b2 = Some b' \<and> length b' = length b2 \<and>
      bits_set b' = fold insert [m2..<m2 + (to - m2)] (bits_set b2)"
    by (rule loop_bits) (use assms 2 nilbit_set in \<open>metis, simp\<close>)
  then obtain b3 where 3: "loop (\<lambda>i b. sp_nilbit_set b i) m2 (to - m2) b2 = Some b3" "length b3 = length b2" "bits_set b3 = bits_set b2 \<union> {m2..<to}"
    using 2(5) by (auto simp: fold_insert)
  have "bits_set b3 = bits_set b \<union> {from..<to}" using 1 2 3 by auto
  then show ?thesis using that [of b3] 1 2 3 by (simp add: sp_nilbits_set_range_def)
qed

lemma nilbits_any: "to \<le> 64 * length b \<Longrightarrow> sp_nilbits_any b from to = Some (bits_set b \<inter> {from..<to} \<noteq> {})"
proof -
  have "from + n \<le> 64 * length b \<Longrightarrow> any_loop b from n = Some (bits_set b \<inter> {from..<from + n} \<noteq> {})" for n
  proof (induction n arbitrary: "from")
    case (Suc n)
    have "{from..<from + Suc n} = insert from {Suc from..<Suc from + n}" by auto
    then show ?case using Suc.IH [of "Suc from"] Suc.prems by auto
  qed simp
  then show "to \<le> 64 * length b \<Longrightarrow> ?thesis" by (cases "from \<le> to") (simp_all add: sp_nilbits_any_def)
qed

lemma nilbits_count: "to \<le> 64 * length b \<Longrightarrow> sp_nilbits_count b from to = Some (card (bits_set b \<inter> {from..<to}))"
proof -
  have "from + n \<le> 64 * length b \<Longrightarrow>
      loop (\<lambda>i n. Option.bind (sp_nilbit_get b i) (\<lambda>v. Some (n + of_bool v))) from n k = Some (k + card (bits_set b \<inter> {from..<from + n}))" for n k
  proof (induction n arbitrary: "from" k)
    case (Suc n)
    have "bits_set b \<inter> {from..<from + Suc n} = (if from \<in> bits_set b then {from} else {}) \<union> (bits_set b \<inter> {Suc from..<Suc from + n})"
      by auto (metis Suc_leI le_neq_implies_less)+
    then have "card (bits_set b \<inter> {from..<from + Suc n}) = of_bool (from \<in> bits_set b) + card (bits_set b \<inter> {Suc from..<Suc from + n})"
      by (simp add: card_insert_if)
    then show ?case using Suc.IH [of "Suc from" "k + of_bool (from \<in> bits_set b)"] Suc.prems by simp
  qed simp
  then show "to \<le> 64 * length b \<Longrightarrow> ?thesis" by (cases "from \<le> to") (simp_all add: sp_nilbits_count_def)
qed

section \<open>The lowest bit from a place on\<close>

lemma ctz64_bit:
  assumes "m \<noteq> 0"
  shows "ctz64 m < 64" "bit m (ctz64 m)" "j < ctz64 m \<Longrightarrow> \<not> bit m j"
proof -
  obtain k where k: "k < 64" "bit m k" using assms bit_word_eqI [of m 0] by auto
  have "length (takeWhile (\<lambda>i. \<not> bit m i) [0..<64]) < length [0..<64]"
  proof (rule ccontr)
    assume "\<not> ?thesis"
    then have "takeWhile (\<lambda>i. \<not> bit m i) [0..<64] = [0..<64]"
      by (metis le_neq_implies_less length_takeWhile_le linorder_not_less takeWhile_eq_take take_all)
    then show False using k set_takeWhileD [of k "\<lambda>i. \<not> bit m i" "[0..<64]"] by simp
  qed
  then show l: "ctz64 m < 64" by (simp add: ctz64_def)
  show "bit m (ctz64 m)" using nth_length_takeWhile [of "\<lambda>i. \<not> bit m i" "[0..<64]"] l by (simp add: ctz64_def)
  show "\<not> bit m j" if "j < ctz64 m"
    using that l set_takeWhileD [of j "\<lambda>i. \<not> bit m i" "[0..<64]"] nth_mem [of j "takeWhile (\<lambda>i. \<not> bit m i) [0..<64]"]
      takeWhile_nth [of j "\<lambda>i. \<not> bit m i" "[0..<64]"] by (simp add: ctz64_def)
qed

text \<open>\<open>p\<close> is the lowest bit at or above \<open>lo\<close>.\<close>

definition lowest :: "bits \<Rightarrow> nat \<Rightarrow> nat option \<Rightarrow> bool" where
  "lowest b lo p = (case p of None \<Rightarrow> \<forall>i \<in> bits_set b. i < lo
     | Some p \<Rightarrow> p \<in> bits_set b \<and> lo \<le> p \<and> (\<forall>i \<in> bits_set b. i < lo \<or> p \<le> i))"

lemma in_word: "i < 64 * length b \<Longrightarrow> i \<in> bits_set b \<longleftrightarrow> bit (b ! (i div 64)) (i mod 64)"
  by (simp add: bits_set_def)

lemma next_word_lowest:
  assumes "length b = nw" "w < nw" "\<And>i. bit m i \<longleftrightarrow> i < 64 \<and> w * 64 + i \<in> bits_set b \<and> lo \<le> w * 64 + i" "lo \<le> (w + 1) * 64"
    "\<forall>i \<in> bits_set b. lo \<le> i \<longrightarrow> w * 64 \<le> i"
  shows "\<exists>p. next_word b nw w m = Some p \<and> lowest b lo p"
  using assms
proof (induction b nw w m rule: next_word.induct)
  case (1 b nw w m)
  show ?case
  proof (cases "m = 0")
    case False
    have "w * 64 + ctz64 m \<le> i" if i: "i \<in> bits_set b" "lo \<le> i" for i
    proof (cases "i div 64 = w")
      case True
      then have "w * 64 + i mod 64 = i" by (metis div_mult_mod_eq)
      then have "bit m (i mod 64)" using "1.prems"(3) i by simp
      then show ?thesis using ctz64_bit(3) [OF False, of "i mod 64"] \<open>w * 64 + i mod 64 = i\<close> by linarith
    next
      case d: False
      have "w * 64 \<le> i" using "1.prems"(5) i by blast
      then have "w \<le> i div 64" by (simp add: less_eq_div_iff_mult_less_eq)
      then have "w + 1 \<le> i div 64" using d by simp
      then have "(w + 1) * 64 \<le> i" by (simp add: less_eq_div_iff_mult_less_eq)
      then show ?thesis using ctz64_bit(1) [OF False] by simp
    qed
    then show ?thesis using False ctz64_bit(2) [OF False] "1.prems"(3)
      by (auto simp: next_word.simps [of b] lowest_def) (meson not_le)
  next
    case True
    have none: "i \<notin> bits_set b" if "lo \<le> i" "i < (w + 1) * 64" for i
    proof
      assume i: "i \<in> bits_set b"
      then have "w * 64 \<le> i" using "1.prems"(5) that by blast
      then have "bit m (i - w * 64)" using "1.prems"(3) i that by simp
      then show False using True by simp
    qed
    show ?thesis
    proof (cases "w + 1 \<ge> nw")
      case big: True
      then have "length b \<le> w + 1" using "1.prems"(1) by simp
      then have "i < (w + 1) * 64" if "i \<in> bits_set b" for i
        using that mult_le_mono1 [of "length b" "w + 1" 64] by (simp add: bits_set_def)
      then have "\<forall>i \<in> bits_set b. i < lo" using none by (meson not_le)
      then have "lowest b lo None" by (simp add: lowest_def)
      then show ?thesis using True big by (simp add: next_word.simps [of b])
    next
      case small: False
      then have w: "w + 1 < length b" using "1.prems"(1) by simp
      have "\<exists>p. next_word b nw (w + 1) (b ! (w + 1)) = Some p \<and> lowest b lo p"
      proof (rule "1.IH" [OF _ small])
        show "\<not> m \<noteq> 0" using True by simp
        show "bit (b ! (w + 1)) i \<longleftrightarrow> i < 64 \<and> (w + 1) * 64 + i \<in> bits_set b \<and> lo \<le> (w + 1) * 64 + i" for i
        proof (cases "i < 64")
          case i: True
          have "(w + 1) * 64 + i < 64 * length b" using w i by simp
          moreover have "((w + 1) * 64 + i) div 64 = w + 1" "((w + 1) * 64 + i) mod 64 = i"
            using i div_mult_self3 [of 64 "w + 1" i] mod_mult_self3 [of "w + 1" 64 i] by simp_all
          moreover have "lo \<le> (w + 1) * 64 + i" using "1.prems"(4) by linarith
          ultimately show ?thesis using i in_word [of "(w + 1) * 64 + i" b] by simp
        next
          case False
          then show ?thesis using bit_imp_le_length [of "b ! (w + 1)" i] by auto
        qed
        show "\<forall>i \<in> bits_set b. lo \<le> i \<longrightarrow> (w + 1) * 64 \<le> i" using none by (meson not_le)
      qed (use "1.prems" small in simp_all)
      then show ?thesis using True small w by (simp add: next_word.simps [of b _ w])
    qed
  qed
qed

lemma masked_bit:
  assumes "w < length b" "w = lo div 64"
  shows "bit (b ! w AND push_bit (lo mod 64) (- 1)) i \<longleftrightarrow> i < 64 \<and> w * 64 + i \<in> bits_set b \<and> lo \<le> w * 64 + i"
proof (cases "i < 64")
  case True
  have "w * 64 + i < 64 * length b" using assms(1) True by (intro word_index_less) simp
  then have "w * 64 + i \<in> bits_set b \<longleftrightarrow> bit (b ! w) i" using in_word [of "w * 64 + i" b] True by simp
  moreover have "lo = w * 64 + lo mod 64" unfolding assms(2) by simp
  then have "lo \<le> w * 64 + i \<longleftrightarrow> lo mod 64 \<le> i" by linarith
  ultimately show ?thesis using True by (auto simp: bit_simps)
next
  case False
  then show ?thesis using bit_imp_le_length [of "b ! w AND push_bit (lo mod 64) (- 1)" i] by auto
qed

lemma word_le: "lo div 64 * 64 \<le> (lo :: nat)" "lo \<le> (lo div 64 + 1) * 64"
  using div_mult_mod_eq [of lo 64] mod_less_divisor [of 64 lo] by (simp_all add: algebra_simps)

lemma nilbits_next:
  assumes "length b = sp_nilbits_words cap"
  shows "\<exists>p. sp_nilbits_next b from cap = Some p \<and> lowest b from p"
proof (cases "from div 64 < length b")
  case True
  have "\<exists>p. next_word b (length b) (from div 64) (b ! (from div 64) AND push_bit (from mod 64) (- 1)) = Some p \<and> lowest b from p"
    by (rule next_word_lowest [OF refl True masked_bit [OF True refl]]) (use word_le [of "from"] in \<open>auto intro: le_trans\<close>)
  then show ?thesis using True assms by (simp add: sp_nilbits_next_def Let_def)
next
  case False
  then have "i < from" if "i \<in> bits_set b" for i
    using that word_index [of i "length b"] div_le_mono [of "from" i 64] by (force simp: bits_set_def)
  then show ?thesis using False assms by (simp add: sp_nilbits_next_def Let_def lowest_def)
qed

text \<open>What the bound becomes: the lowest nil, or the one below none.\<close>

definition lo_of :: "nat option \<Rightarrow> nat" where
  "lo_of p = (case p of None \<Rightarrow> SP_NIL_LO_NONE | Some p \<Rightarrow> if p \<ge> SP_NIL_LO_NONE then SP_NIL_LO_NONE - 1 else p)"

lemma or_63: "(n :: nat) OR 63 = n div 64 * 64 + 63"
proof -
  have m: "(63 :: nat) = mask 6" by (simp add: mask_eq_exp_minus_1)
  have "push_bit 6 (drop_bit 6 n) + mask 6 = push_bit 6 (drop_bit 6 n) OR mask 6"
    by (rule disjunctive_add) (auto simp: bit_simps)
  also have "\<dots> = n OR mask 6" by (rule bit_eqI) (auto simp: bit_simps)
  finally show ?thesis unfolding m by (simp add: push_bit_eq_mult drop_bit_eq_div)
qed

lemma nil_lo_up:
  assumes "length b = sp_nilbits_words cap" "lo div 64 < length b" "lo \<le> SP_NIL_LO_NONE"
  shows "\<exists>p. sp_nil_lo_up b lo cap = Some (lo_of p) \<and> lowest b lo p"
proof -
  let ?w = "lo div 64" and ?m = "b ! (lo div 64) AND push_bit (lo mod 64) (- 1)"
  show ?thesis
  proof (cases "?m \<noteq> 0 \<and> lo OR 63 \<noteq> SP_NIL_LO_NONE")
    case True
    obtain p where p: "next_word b (length b) ?w ?m = Some p" "lowest b lo p"
      using next_word_lowest [OF refl assms(2) masked_bit [OF assms(2) refl]] word_le [of lo] le_trans by blast
    then have e: "p = Some (?w * 64 + ctz64 ?m)" using True by (simp add: next_word.simps [of b])
    have "?w * 64 + ctz64 ?m < SP_NIL_LO_NONE"
    proof -
      have "?w \<le> SP_NIL_LO_NONE div 64" using assms(3) div_le_mono by blast
      then have "?w * 64 + 63 \<le> SP_NIL_LO_NONE" by (simp add: SP_NIL_LO_NONE_def)
      moreover have "?w * 64 + 63 \<noteq> SP_NIL_LO_NONE" using True or_63 [of lo] by simp
      ultimately show ?thesis using ctz64_bit(1) [of ?m] True by linarith
    qed
    then have "lo_of p = ?w * 64 + ctz64 ?m" unfolding e lo_of_def by simp
    moreover have "sp_nil_lo_up b lo cap = Some (?w * 64 + ctz64 ?m)"
      using True assms(2) by (simp add: sp_nil_lo_up_def Let_def minus_mod_eq_div_mult)
    ultimately show ?thesis using p(2) by (intro exI [of _ p]) simp
  next
    case False
    then show ?thesis using nilbits_next [OF assms(1), of lo] assms(2)
      by (auto simp: sp_nil_lo_up_def Let_def sp_nil_lo_next_def lo_of_def)
  qed
qed

section \<open>Blocks that move, and new sizes\<close>

lemma bits_set_zero [simp]: "bits_set (replicate n 0) = {}"
  by (auto simp: bits_set_def)

lemma bits_set_append: "bits_set (b @ replicate n 0) = bits_set b"
proof (rule set_eqI)
  fix i show "i \<in> bits_set (b @ replicate n 0) \<longleftrightarrow> i \<in> bits_set b"
  proof (cases "i div 64 < length b")
    case True
    then show ?thesis using word_index_less [OF True] by (simp add: bits_set_def nth_append)
  next
    case False
    then have "i div 64 - length b < n \<Longrightarrow> (b @ replicate n 0) ! (i div 64) = 0" by (simp add: nth_append)
    moreover have "i < 64 * length (b @ replicate n 0) \<Longrightarrow> i div 64 - length b < n" using word_index [of i "length b + n"] False by simp
    moreover have "\<not> i < 64 * length b" using False word_index by blast
    ultimately show ?thesis by (auto simp: bits_set_def)
  qed
qed

lemma words_bits: "cap \<le> 64 * sp_nilbits_words cap"
  unfolding sp_nilbits_words_def using div_mult_mod_eq [of "cap + 63" 64] mod_less_divisor [of 64 "cap + 63"] by linarith

lemma or_words:
  assumes "i + n \<le> length b" "length t = length b"
  shows "\<exists>b'. loop (\<lambda>w b. Option.bind (ld b w) (\<lambda>x. Option.bind (ld t w) (\<lambda>y. st b w (x OR y)))) i n b = Some b' \<and>
    length b' = length b \<and> (\<forall>w < length b. b' ! w = (if i \<le> w \<and> w < i + n then b ! w OR t ! w else b ! w))"
  using assms
proof (induction n arbitrary: i b)
  case (Suc n)
  let ?b = "b[i := b ! i OR t ! i]"
  obtain b' where "loop (\<lambda>w b. Option.bind (ld b w) (\<lambda>x. Option.bind (ld t w) (\<lambda>y. st b w (x OR y)))) (Suc i) n ?b = Some b'"
      "length b' = length ?b" "\<forall>w < length ?b. b' ! w = (if Suc i \<le> w \<and> w < Suc i + n then ?b ! w OR t ! w else ?b ! w)"
    using Suc.IH [of "Suc i" ?b] Suc.prems by auto
  then show ?case using Suc.prems by (auto simp: nth_list_update) (metis Suc_leI le_neq_implies_less)
qed auto

lemma bits_move:
  assumes "length b = sp_nilbits_words cap" "0 < cap" "from + n \<le> cap" "to + n \<le> cap"
  obtains b' where "sp_nilbits_move b cap from to n = Some b'" "length b' = length b"
    "bits_set b' = (if from = to then bits_set b else (bits_set b - {from..<from + n} - {to..<to + n}) \<union> {to + i | i. i < n \<and> from + i \<in> bits_set b})"
proof (cases "from = to \<or> n = 0")
  case True
  then show ?thesis using that [of b] by (auto simp: sp_nilbits_move_def)
next
  case False
  have room: "cap \<le> 64 * length b" "length b \<noteq> 0" using words_bits [of cap] assms(1,2) by auto
  let ?f = "\<lambda>i t. Option.bind (sp_nilbit_get b (from + i)) (\<lambda>v. if v then sp_nilbit_set t (to + i) else Some t)"
  have t: "\<exists>t'. loop ?f j k t = Some t' \<and> length t' = length b \<and> bits_set t' = bits_set t \<union> {to + i | i. j \<le> i \<and> i < j + k \<and> from + i \<in> bits_set b}"
    if "length t = length b" "j + k \<le> n" for j k t
    using that
  proof (induction k arbitrary: j t)
    case (Suc k)
    have get: "sp_nilbit_get b (from + j) = Some (from + j \<in> bits_set b)" using Suc.prems assms(3) room by simp
    have split: "{to + i | i. j \<le> i \<and> i < j + Suc k \<and> from + i \<in> bits_set b} =
        (if from + j \<in> bits_set b then {to + j} else {}) \<union> {to + i | i. Suc j \<le> i \<and> i < Suc j + k \<and> from + i \<in> bits_set b}"
      by (auto simp: Suc_le_eq) (metis le_neq_implies_less)+
    show ?case
    proof (cases "from + j \<in> bits_set b")
      case True
      have "to + j < 64 * length t" using Suc.prems assms(4) room by simp
      then obtain t1 where t1: "sp_nilbit_set t (to + j) = Some t1" "length t1 = length t" "bits_set t1 = insert (to + j) (bits_set t)"
        using nilbit_set by blast
      then show ?thesis using Suc.IH [of t1 "Suc j"] Suc.prems True get split by auto
    next
      case out: False
      then show ?thesis using Suc.IH [of t "Suc j"] Suc.prems get split by auto
    qed
  qed auto
  obtain t' where t': "loop ?f 0 n (replicate (length b) 0) = Some t'" "length t' = length b" "bits_set t' = {to + i | i. i < n \<and> from + i \<in> bits_set b}"
    using t [of "replicate (length b) 0" 0 n] by auto
  obtain b1 where b1: "sp_nilbits_clear_range b from (from + n) = Some b1" "length b1 = length b" "bits_set b1 = bits_set b - {from..<from + n}"
    using clear_range [of "from + n" b "from"] assms(3) room by (metis le_add1 le_trans)
  obtain b2 where b2: "sp_nilbits_clear_range b1 to (to + n) = Some b2" "length b2 = length b" "bits_set b2 = bits_set b1 - {to..<to + n}"
    using clear_range [of "to + n" b1 to] assms(4) room b1(2) by (metis le_add1 le_trans)
  obtain b3 where b3: "loop (\<lambda>w b. Option.bind (ld b w) (\<lambda>x. Option.bind (ld t' w) (\<lambda>y. st b w (x OR y)))) 0 (length b) b2 = Some b3"
      "length b3 = length b" "\<forall>w < length b. b3 ! w = b2 ! w OR t' ! w"
    using or_words [of 0 "length b" b2 t'] b2(2) t'(2) by auto
  have "bits_set b3 = bits_set b2 \<union> bits_set t'" using b3(2,3) b2(2) t'(2) by (auto simp: bits_set_def bit_or_iff)
  then show ?thesis using that [of b3] False b1 b2 b3 t' room(2) assms(1) by (simp add: sp_nilbits_move_def Let_def)
qed

lemma bits_resize:
  assumes "length b = sp_nilbits_words oldcap" "0 < newcap" "oldcap \<le> newcap"
  shows "length (sp_nilbits_resize b oldcap newcap) = sp_nilbits_words newcap" "bits_set (sp_nilbits_resize b oldcap newcap) = bits_set b"
proof -
  have w: "sp_nilbits_words oldcap \<le> sp_nilbits_words newcap" "sp_nilbits_words newcap \<noteq> 0"
    using assms(2,3) by (auto simp: sp_nilbits_words_def intro: div_le_mono)
  then have e: "sp_nilbits_resize b oldcap newcap = b @ replicate (sp_nilbits_words newcap - sp_nilbits_words oldcap) 0"
    using assms(1) by (auto simp: sp_nilbits_resize_def Let_def)
  show "length (sp_nilbits_resize b oldcap newcap) = sp_nilbits_words newcap" unfolding e using w assms(1) by simp
  show "bits_set (sp_nilbits_resize b oldcap newcap) = bits_set b"
    unfolding e by (rule bits_set_append)
qed

lemma bits_new: "0 < cap \<Longrightarrow> length (sp_nilbits_new cap) = sp_nilbits_words cap" "bits_set (sp_nilbits_new cap) = {}"
  by (auto simp: sp_nilbits_new_def Let_def sp_nilbits_words_def)

end
