(* ===== verification/IntArray.thy ===== *)
theory IntArray
  imports NilBits
begin

unbundle bit_operations_syntax

text \<open>
  Arrays of Integers (\<^verbatim>\<open>sp_IntArray\<close> of \<^verbatim>\<open>lib/sp_array.h\<close> and \<^verbatim>\<open>lib/sp_array.c\<close>): a window of a buffer, so that a shift
  moves the start of the window, and a bitmap for the elements that are nil, made by the first one.

  Every access to the buffer and to the bitmap is checked, and one outside them is the outcome \<open>Undef\<close>.
  The lengths are natural numbers: an allocation past the size of the address space ends the program
  before they would overflow, and a failed allocation is not an outcome here. The indices that a program
  passes are 64-bit integers, and sums with them are wrapped. What a new buffer holds is the parameter
  \<open>g\<close>. The receiver is not NULL. The message of a FrozenError is the one without an inspect hook.
\<close>

section \<open>Memory\<close>

definition olift :: "'a option \<Rightarrow> 'a outcome" where
  "olift m = (case m of None \<Rightarrow> Undef | Some x \<Rightarrow> Done x)"

definition mread :: "'a list \<Rightarrow> nat \<Rightarrow> nat \<Rightarrow> 'a list outcome" where
  "mread xs i n = (if i + n \<le> length xs then Done (take n (drop i xs)) else Undef)"

definition mput :: "'a list \<Rightarrow> nat \<Rightarrow> 'a list \<Rightarrow> 'a list outcome" where
  "mput xs i ys = (if i + length ys \<le> length xs then Done (take i xs @ ys @ drop (i + length ys) xs) else Undef)"

definition memmove :: "'a list \<Rightarrow> nat \<Rightarrow> nat \<Rightarrow> nat \<Rightarrow> 'a list outcome" where
  "memmove xs dst src n = obind (mread xs src n) (mput xs dst)"

fun oloop :: "(nat \<Rightarrow> 's \<Rightarrow> 's outcome) \<Rightarrow> nat \<Rightarrow> nat \<Rightarrow> 's \<Rightarrow> 's outcome" where
  "oloop f i 0 s = Done s"
| "oloop f i (Suc n) s = obind (f i s) (oloop f (Suc i) n)"

section \<open>The object\<close>

record IntArray =
  ia_data :: "int list"
  ia_start :: nat
  ia_len :: nat
  ia_cap :: nat
  ia_frozen :: bool
  ia_nil_lo :: nat
  ia_nilbits :: "bits option"

definition sp_raise_frozen_array :: "'a outcome" where
  "sp_raise_frozen_array = oraise ''FrozenError'' ''can't modify frozen Array''"

definition sp_IntArray_new :: "(nat \<Rightarrow> int) \<Rightarrow> IntArray" where
  "sp_IntArray_new g =
     \<lparr>ia_data = map g [0..<16], ia_start = 0, ia_len = 0, ia_cap = 16, ia_frozen = False, ia_nil_lo = 0, ia_nilbits = None\<rparr>"

definition sp_IntArray_set_cap :: "(nat \<Rightarrow> int) \<Rightarrow> IntArray \<Rightarrow> nat \<Rightarrow> IntArray" where
  "sp_IntArray_set_cap g a nc =
     a\<lparr>ia_data := take nc (ia_data a) @ map g [ia_cap a..<nc], ia_cap := nc,
       ia_nilbits := map_option (\<lambda>b. sp_nilbits_resize b (ia_cap a) nc) (ia_nilbits a)\<rparr>"

section \<open>The bitmap of an array\<close>

definition NILBITS_NEW_A :: "IntArray \<Rightarrow> IntArray" where
  "NILBITS_NEW_A a = a\<lparr>ia_nil_lo := SP_NIL_LO_NONE, ia_nilbits := Some (sp_nilbits_new (ia_cap a))\<rparr>"

text \<open>\<^verbatim>\<open>if (!a->nilbits) SP_NILBITS_NEW_A(a)\<close>\<close>

definition nilbits_need :: "IntArray \<Rightarrow> IntArray" where
  "nilbits_need a = (if ia_nilbits a = None then NILBITS_NEW_A a else a)"

definition on_bits :: "IntArray \<Rightarrow> (bits \<Rightarrow> bits option) \<Rightarrow> IntArray outcome" where
  "on_bits a f = (case ia_nilbits a of None \<Rightarrow> Undef | Some b \<Rightarrow> obind (olift (f b)) (\<lambda>b. Done (a\<lparr>ia_nilbits := Some b\<rparr>)))"

text \<open>\<^verbatim>\<open>if (SP_UNLIKELY(a->nilbits)) ...\<close>\<close>

definition if_bits :: "IntArray \<Rightarrow> (IntArray \<Rightarrow> IntArray outcome) \<Rightarrow> IntArray outcome" where
  "if_bits a f = (if ia_nilbits a = None then Done a else f a)"

definition NILBIT_SET_A :: "IntArray \<Rightarrow> nat \<Rightarrow> IntArray outcome" where
  "NILBIT_SET_A a p =
     on_bits (if p < ia_nil_lo a then a\<lparr>ia_nil_lo := p\<rparr> else a) (\<lambda>b. sp_nilbit_set b p)"

definition NILBITS_SET_RANGE_A :: "IntArray \<Rightarrow> nat \<Rightarrow> nat \<Rightarrow> IntArray outcome" where
  "NILBITS_SET_RANGE_A a lo hi =
     on_bits (if lo < hi \<and> lo < ia_nil_lo a then a\<lparr>ia_nil_lo := lo\<rparr> else a) (\<lambda>b. sp_nilbits_set_range b lo hi)"

definition NILBITS_MOVE_A :: "IntArray \<Rightarrow> nat \<Rightarrow> nat \<Rightarrow> nat \<Rightarrow> IntArray outcome" where
  "NILBITS_MOVE_A a from to n =
     obind (on_bits a (\<lambda>b. sp_nilbits_move b (ia_cap a) from to n)) (\<lambda>a. Done (a\<lparr>ia_nil_lo := 0\<rparr>))"

definition sp_IntArray_drop_nilbits :: "IntArray \<Rightarrow> IntArray" where
  "sp_IntArray_drop_nilbits a = a\<lparr>ia_nilbits := None\<rparr>"

definition elem_bit :: "IntArray \<Rightarrow> nat \<Rightarrow> bool outcome" where
  "elem_bit a p = (case ia_nilbits a of None \<Rightarrow> Done False | Some b \<Rightarrow> olift (sp_nilbit_get b p))"

definition sp_IntArray_clr_nil :: "IntArray \<Rightarrow> nat \<Rightarrow> IntArray outcome" where
  "sp_IntArray_clr_nil a pi =
     obind (on_bits a (\<lambda>b. sp_nilbit_clr b pi)) (\<lambda>a.
       if pi \<ge> ia_nil_lo a
       then obind (elem_bit a (ia_nil_lo a)) (\<lambda>set.
              if set then Done a
              else (case ia_nilbits a of None \<Rightarrow> Undef
                | Some b \<Rightarrow> obind (olift (sp_nil_lo_up b (ia_nil_lo a) (ia_cap a))) (\<lambda>lo.
                    let a = a\<lparr>ia_nil_lo := lo\<rparr> in Done (if lo = SP_NIL_LO_NONE then sp_IntArray_drop_nilbits a else a))))
       else Done a)"

section \<open>Pushing and taking\<close>

text \<open>The elements slide home.\<close>

definition slide_home :: "IntArray \<Rightarrow> IntArray outcome" where
  "slide_home a =
     obind (memmove (ia_data a) 0 (ia_start a) (ia_len a)) (\<lambda>d.
     obind (if_bits (a\<lparr>ia_data := d\<rparr>) (\<lambda>a. NILBITS_MOVE_A a (ia_start a) 0 (ia_len a))) (\<lambda>a.
     Done (a\<lparr>ia_start := 0\<rparr>)))"

definition sp_IntArray_push_grow :: "(nat \<Rightarrow> int) \<Rightarrow> IntArray \<Rightarrow> IntArray outcome" where
  "sp_IntArray_push_grow g a =
     (if ia_start a > 0
      then obind (slide_home a) (\<lambda>a.
             if ia_cap a \<ge> ia_len a + ia_len a then Done a else Done (sp_IntArray_set_cap g a (ia_cap a * 2 + 1)))
      else Done (sp_IntArray_set_cap g a (ia_cap a * 2 + 1)))"

definition put_data :: "IntArray \<Rightarrow> nat \<Rightarrow> int \<Rightarrow> IntArray outcome" where
  "put_data a p v = obind (olift (st (ia_data a) p v)) (\<lambda>d. Done (a\<lparr>ia_data := d\<rparr>))"

definition sp_IntArray_push :: "(nat \<Rightarrow> int) \<Rightarrow> IntArray \<Rightarrow> int \<Rightarrow> IntArray outcome" where
  "sp_IntArray_push g a v =
     (if ia_frozen a then sp_raise_frozen_array
      else obind (if ia_start a + ia_len a \<ge> ia_cap a then sp_IntArray_push_grow g a else Done a) (\<lambda>a.
           obind (put_data a (ia_start a + ia_len a) v) (\<lambda>a. Done (a\<lparr>ia_len := ia_len a + 1\<rparr>))))"

definition sp_IntArray_push_nil :: "(nat \<Rightarrow> int) \<Rightarrow> IntArray \<Rightarrow> IntArray outcome" where
  "sp_IntArray_push_nil g a =
     obind (sp_IntArray_push g a 0) (\<lambda>a.
       if ia_frozen a then Done a else let a = nilbits_need a in NILBIT_SET_A a (ia_start a + ia_len a - 1))"

definition sp_IntArray_push_o :: "(nat \<Rightarrow> int) \<Rightarrow> IntArray \<Rightarrow> int option \<Rightarrow> IntArray outcome" where
  "sp_IntArray_push_o g a x = (case x of None \<Rightarrow> sp_IntArray_push_nil g a | Some v \<Rightarrow> sp_IntArray_push g a v)"

definition fill_loop :: "int list \<Rightarrow> nat \<Rightarrow> int \<Rightarrow> int list outcome" where
  "fill_loop d n v = oloop (\<lambda>i d. olift (st d i v)) 0 n d"

definition sp_IntArray_new_fill :: "(nat \<Rightarrow> int) \<Rightarrow> nat \<Rightarrow> int \<Rightarrow> IntArray outcome" where
  "sp_IntArray_new_fill g n v =
     (let cap = (if n > 16 then n else 16)
      in obind (fill_loop (map g [0..<cap]) n v) (\<lambda>d. Done
           \<lparr>ia_data = d, ia_start = 0, ia_len = n, ia_cap = cap, ia_frozen = False, ia_nil_lo = 0, ia_nilbits = None\<rparr>))"

definition sp_IntArray_new_nil :: "(nat \<Rightarrow> int) \<Rightarrow> nat \<Rightarrow> IntArray outcome" where
  "sp_IntArray_new_nil g n =
     obind (sp_IntArray_new_fill g n 0) (\<lambda>a. if n > 0 then NILBITS_SET_RANGE_A (NILBITS_NEW_A a) 0 n else Done a)"

definition sp_IntArray_take_cold :: "IntArray \<Rightarrow> nat \<Rightarrow> int \<Rightarrow> (int option \<times> IntArray) outcome" where
  "sp_IntArray_take_cold a pi v =
     obind (elem_bit a pi) (\<lambda>nil.
       if nil then obind (sp_IntArray_clr_nil a pi) (\<lambda>a. Done (None, a)) else Done (Some v, a))"

definition taken :: "IntArray \<Rightarrow> nat \<Rightarrow> (int option \<times> IntArray) outcome" where
  "taken a pi =
     obind (olift (ld (ia_data a) pi)) (\<lambda>v. if ia_nilbits a \<noteq> None then sp_IntArray_take_cold a pi v else Done (Some v, a))"

definition sp_IntArray_pop_o :: "IntArray \<Rightarrow> (int option \<times> IntArray) outcome" where
  "sp_IntArray_pop_o a =
     (if ia_len a = 0 then Done (None, a)
      else if ia_frozen a then sp_raise_frozen_array
      else let a = a\<lparr>ia_len := ia_len a - 1\<rparr> in taken a (ia_start a + ia_len a))"

definition sp_IntArray_shift_o :: "IntArray \<Rightarrow> (int option \<times> IntArray) outcome" where
  "sp_IntArray_shift_o a =
     (if ia_len a = 0 then Done (None, a)
      else if ia_frozen a then sp_raise_frozen_array
      else taken (a\<lparr>ia_start := ia_start a + 1, ia_len := ia_len a - 1\<rparr>) (ia_start a))"

section \<open>Reading and storing\<close>

definition sp_IntArray_length :: "IntArray \<Rightarrow> nat" where
  "sp_IntArray_length a = ia_len a"

definition sp_IntArray_empty :: "IntArray \<Rightarrow> bool" where
  "sp_IntArray_empty a \<longleftrightarrow> ia_len a = 0"

text \<open>An index from the end, and where it lies; a 64-bit comparison without signs takes both tests at once.\<close>

definition ia_index :: "IntArray \<Rightarrow> int \<Rightarrow> int" where
  "ia_index a i = (if i < 0 then i + int (ia_len a) else i)"

definition sp_IntArray_get :: "IntArray \<Rightarrow> int \<Rightarrow> int outcome" where
  "sp_IntArray_get a i =
     (if wrap_u64 i < int (ia_len a) then olift (ld (ia_data a) (ia_start a + nat i))
      else let i = ia_index a i
           in if i < 0 \<or> i \<ge> int (ia_len a) then Done 0 else olift (ld (ia_data a) (ia_start a + nat i)))"

definition sp_IntArray_elem_nil :: "IntArray \<Rightarrow> nat \<Rightarrow> bool outcome" where
  "sp_IntArray_elem_nil a i = elem_bit a (ia_start a + i)"

definition sp_IntArray_oget_slow :: "IntArray \<Rightarrow> int \<Rightarrow> int option outcome" where
  "sp_IntArray_oget_slow a i =
     (let j = (if \<not> wrap_u64 i < int (ia_len a) then ia_index a i else i)
      in if \<not> wrap_u64 i < int (ia_len a) \<and> (j < 0 \<or> j \<ge> int (ia_len a)) then Done None
         else let pi = ia_start a + nat j
              in obind (olift (ld (ia_data a) pi)) (\<lambda>v.
                 obind (elem_bit a pi) (\<lambda>nil. Done (if nil then None else Some v))))"

definition sp_IntArray_oget :: "IntArray \<Rightarrow> int \<Rightarrow> int option outcome" where
  "sp_IntArray_oget a i =
     (if wrap_u64 i < int (ia_len a)
      then obind (olift (ld (ia_data a) (ia_start a + nat i))) (\<lambda>v.
             if ia_nilbits a = None then Done (Some v) else sp_IntArray_oget_slow a i)
      else sp_IntArray_oget_slow a i)"

text \<open>\<^verbatim>\<open>while (a->start + i >= a->cap) sp_IntArray_set_cap(a, a->cap * 2 + 1)\<close>, for \<open>p = a->start + i\<close>.\<close>

function grow_past :: "(nat \<Rightarrow> int) \<Rightarrow> IntArray \<Rightarrow> nat \<Rightarrow> IntArray" where
  "grow_past g a p = (if p \<ge> ia_cap a then grow_past g (sp_IntArray_set_cap g a (ia_cap a * 2 + 1)) p else a)"
  by pat_completeness auto
termination by (relation "measure (\<lambda>(g, a, p). Suc p - ia_cap a)") (auto simp: sp_IntArray_set_cap_def)

declare grow_past.simps [simp del]

text \<open>Zeros up to the index, each one a nil.\<close>

definition pad_to :: "IntArray \<Rightarrow> nat \<Rightarrow> IntArray outcome" where
  "pad_to a i =
     oloop (\<lambda>_ a. obind (put_data a (ia_start a + ia_len a) 0) (\<lambda>a. Done (a\<lparr>ia_len := ia_len a + 1\<rparr>))) 0 (i - ia_len a) a"

definition sp_IntArray_set_slow :: "(nat \<Rightarrow> int) \<Rightarrow> IntArray \<Rightarrow> int \<Rightarrow> int \<Rightarrow> IntArray outcome" where
  "sp_IntArray_set_slow g a i v =
     (if i < 0 then Done a
      else if wrap_i64 (int (ia_start a) + i) \<noteq> int (ia_start a) + i then Undef
      else let i = nat i; a = grow_past g a (ia_start a + i)
           in obind (if i > ia_len a
                then obind (NILBITS_SET_RANGE_A (nilbits_need a) (ia_start a + ia_len a) (ia_start a + i)) (\<lambda>a. pad_to a i)
                else Done a) (\<lambda>a.
              let a = (if i = ia_len a then a\<lparr>ia_len := ia_len a + 1\<rparr> else a)
              in obind (put_data a (ia_start a + i) v) (\<lambda>a. if_bits a (\<lambda>a. on_bits a (\<lambda>b. sp_nilbit_clr b (ia_start a + i))))))"

definition too_small :: "IntArray \<Rightarrow> int \<Rightarrow> 'a outcome" where
  "too_small a i =
     oraise ''IndexError'' (''index '' @ dec_int i @ '' too small for array; minimum: '' @ dec_int (- int (ia_len a)))"

definition store_at :: "IntArray \<Rightarrow> nat \<Rightarrow> int \<Rightarrow> IntArray outcome" where
  "store_at a i v =
     obind (put_data a (ia_start a + i) v) (\<lambda>a. if_bits a (\<lambda>a. sp_IntArray_clr_nil a (ia_start a + i)))"

definition sp_IntArray_set_cold :: "(nat \<Rightarrow> int) \<Rightarrow> IntArray \<Rightarrow> int \<Rightarrow> int \<Rightarrow> IntArray outcome" where
  "sp_IntArray_set_cold g a i v =
     (if ia_frozen a then sp_raise_frozen_array
      else let j = ia_index a i
           in if j < 0 then too_small a i
              else if j < int (ia_len a) then store_at a (nat j) v
              else sp_IntArray_set_slow g a j v)"

definition sp_IntArray_set :: "(nat \<Rightarrow> int) \<Rightarrow> IntArray \<Rightarrow> int \<Rightarrow> int \<Rightarrow> IntArray outcome" where
  "sp_IntArray_set g a i v =
     (if \<not> ia_frozen a \<and> i \<ge> 0 \<and> i < int (ia_len a) then store_at a (nat i) v else sp_IntArray_set_cold g a i v)"

definition sp_IntArray_set_nil :: "(nat \<Rightarrow> int) \<Rightarrow> IntArray \<Rightarrow> int \<Rightarrow> IntArray outcome" where
  "sp_IntArray_set_nil g a i =
     (if ia_frozen a then sp_raise_frozen_array
      else let j = ia_index a i
           in if j < 0 then too_small a i
              else obind (if j \<ge> int (ia_len a) then sp_IntArray_set_slow g a j 0 else put_data a (ia_start a + nat j) 0) (\<lambda>a.
                   let a = nilbits_need a in NILBIT_SET_A a (ia_start a + nat j)))"

definition sp_IntArray_oset :: "(nat \<Rightarrow> int) \<Rightarrow> IntArray \<Rightarrow> int \<Rightarrow> int option \<Rightarrow> IntArray outcome" where
  "sp_IntArray_oset g a i x = (case x of None \<Rightarrow> sp_IntArray_set_nil g a i | Some v \<Rightarrow> sp_IntArray_set g a i v)"

definition sp_IntArray_cut :: "IntArray \<Rightarrow> nat \<Rightarrow> IntArray outcome" where
  "sp_IntArray_cut a n =
     obind (if ia_nilbits a \<noteq> None \<and> n < ia_len a
        then on_bits a (\<lambda>b. sp_nilbits_clear_range b (ia_start a + n) (ia_start a + ia_len a)) else Done a)
       (\<lambda>a. Done (a\<lparr>ia_len := n\<rparr>))"

definition sp_IntArray_has_nil :: "IntArray \<Rightarrow> bool outcome" where
  "sp_IntArray_has_nil a =
     (case ia_nilbits a of None \<Rightarrow> Done False | Some b \<Rightarrow> olift (sp_nilbits_any b (ia_start a) (ia_start a + ia_len a)))"

definition sp_IntArray_nil_count :: "IntArray \<Rightarrow> nat outcome" where
  "sp_IntArray_nil_count a =
     (case ia_nilbits a of None \<Rightarrow> Done 0 | Some b \<Rightarrow> olift (sp_nilbits_count b (ia_start a) (ia_start a + ia_len a)))"

end
