(* ===== verification/IaCore.thy ===== *)
theory IaCore
  imports IntArray
begin

text \<open>
  What the arrays of Integers keep, and what their core operations do to the list they hold: each one is
  shown to be defined, to keep the invariant, and to be the list operation that Ruby's Array promises.
\<close>

section \<open>Total outcomes\<close>

text \<open>The outcome is a result, and it satisfies \<open>P\<close>.\<close>

definition odone :: "('a \<Rightarrow> bool) \<Rightarrow> 'a outcome \<Rightarrow> bool" where
  "odone P m \<longleftrightarrow> (\<exists>x. m = Done x \<and> P x)"

lemma odone_simps [simp]:
  "odone P (Done x) = P x" "odone P (Raise e) = False" "odone P Undef = False" "odone P (oraise c e2) = False"
  "odone P (obind n f) = odone (\<lambda>x. odone P (f x)) n" "odone P (olift (Some x)) = P x"
  by (auto simp: odone_def obind_def oraise_def olift_def split: outcome.splits)

lemma odone_mono: "odone Q m \<Longrightarrow> (\<And>x. Q x \<Longrightarrow> P x) \<Longrightarrow> odone P m"
  by (auto simp: odone_def)

lemma odone_bind: "odone Q m \<Longrightarrow> (\<And>x. Q x \<Longrightarrow> odone P (f x)) \<Longrightarrow> odone P (obind m f)"
  by (auto simp: odone_def)

lemma odone_if: "(b \<Longrightarrow> odone P m) \<Longrightarrow> (\<not> b \<Longrightarrow> odone P n) \<Longrightarrow> odone P (if b then m else n)"
  by simp

lemma odoneE: "odone P m \<Longrightarrow> (\<And>x. m = Done x \<Longrightarrow> P x \<Longrightarrow> Q) \<Longrightarrow> Q"
  by (auto simp: odone_def)

lemma odone_oloop:
  assumes "I i s" "\<And>j s. i \<le> j \<Longrightarrow> j < i + n \<Longrightarrow> I j s \<Longrightarrow> odone (I (Suc j)) (f j s)"
  shows "odone (I (i + n)) (oloop f i n s)"
  using assms
proof (induction n arbitrary: i s)
  case (Suc n)
  have "odone (I (Suc i)) (f i s)" using Suc.prems by simp
  then show ?case
  proof (rule odoneE)
    fix s' assume "f i s = Done s'" "I (Suc i) s'"
    moreover have "odone (I (Suc i + n)) (oloop f (Suc i) n s')" by (rule Suc.IH) (use calculation(2) Suc.prems(2) in auto)
    ultimately show ?thesis by simp
  qed
qed simp

section \<open>The invariant\<close>

definition nils :: "IntArray \<Rightarrow> nat set" where
  "nils a = (case ia_nilbits a of None \<Rightarrow> {} | Some b \<Rightarrow> bits_set b)"

text \<open>
  The buffer has its capacity, the bitmap has a word for every 64 slots, and \<open>nil_lo\<close> is not above a nil.
\<close>

definition ia_shape :: "IntArray \<Rightarrow> bool" where
  "ia_shape a \<longleftrightarrow> length (ia_data a) = ia_cap a \<and> 0 < ia_cap a \<and>
     (\<forall>b. ia_nilbits a = Some b \<longrightarrow> length b = sp_nilbits_words (ia_cap a)) \<and>
     (\<forall>p \<in> nils a. ia_nil_lo a \<le> p) \<and> ia_nil_lo a \<le> SP_NIL_LO_NONE"

text \<open>The window lies in the buffer, no slot outside of it is marked, and a marked slot holds 0.\<close>

definition ia_inv :: "IntArray \<Rightarrow> bool" where
  "ia_inv a \<longleftrightarrow> ia_shape a \<and> ia_start a + ia_len a \<le> ia_cap a \<and> nils a \<subseteq> {ia_start a..<ia_start a + ia_len a} \<and>
     (\<forall>p \<in> nils a. ia_data a ! p = 0)"

definition slot :: "IntArray \<Rightarrow> nat \<Rightarrow> int option" where
  "slot a p = (if p \<in> nils a then None else Some (ia_data a ! p))"

definition ia_list :: "IntArray \<Rightarrow> int option list" where
  "ia_list a = map (\<lambda>i. slot a (ia_start a + i)) [0..<ia_len a]"

lemma length_ia_list [simp]: "length (ia_list a) = ia_len a"
  by (simp add: ia_list_def)

lemma nth_ia_list [simp]: "i < ia_len a \<Longrightarrow> ia_list a ! i = slot a (ia_start a + i)"
  by (simp add: ia_list_def)

lemma ia_list_eqI:
  "length xs = ia_len a \<Longrightarrow> (\<And>i. i < ia_len a \<Longrightarrow> xs ! i = slot a (ia_start a + i)) \<Longrightarrow> ia_list a = xs"
  by (rule nth_equalityI) simp_all

lemma nils_None [simp]: "ia_nilbits a = None \<Longrightarrow> nils a = {}"
  by (simp add: nils_def)

lemma shape_bits: "ia_shape a \<Longrightarrow> ia_nilbits a = Some b \<Longrightarrow> p < ia_cap a \<Longrightarrow> p < 64 * length b"
  using words_bits [of "ia_cap a"] by (simp add: ia_shape_def)

lemma shape_bits_le: "ia_shape a \<Longrightarrow> ia_nilbits a = Some b \<Longrightarrow> p \<le> ia_cap a \<Longrightarrow> p \<le> 64 * length b"
  using words_bits [of "ia_cap a"] by (simp add: ia_shape_def)

section \<open>The bitmap\<close>

text \<open>Only the bitmap and its lower bound differ, and the new bits are \<open>S\<close>.\<close>

definition bits_to :: "IntArray \<Rightarrow> nat set \<Rightarrow> IntArray \<Rightarrow> bool" where
  "bits_to a S a' \<longleftrightarrow> ia_shape a' \<and> nils a' = S \<and> ia_data a' = ia_data a \<and> ia_start a' = ia_start a \<and>
     ia_len a' = ia_len a \<and> ia_cap a' = ia_cap a \<and> ia_frozen a' = ia_frozen a"

definition bits_to' :: "IntArray \<Rightarrow> nat set \<Rightarrow> IntArray \<Rightarrow> bool" where
  "bits_to' a S a' \<longleftrightarrow> bits_to a S a' \<and> ia_nilbits a' \<noteq> None"

lemma nilbits_need_to: "ia_shape a \<Longrightarrow> bits_to' a (nils a) (nilbits_need a)"
  by (auto simp: bits_to'_def bits_to_def nilbits_need_def NILBITS_NEW_A_def ia_shape_def nils_def bits_new split: option.splits)

lemma NILBITS_NEW_A_to: "ia_shape a \<Longrightarrow> bits_to' a {} (NILBITS_NEW_A a)"
  by (auto simp: bits_to'_def bits_to_def NILBITS_NEW_A_def ia_shape_def nils_def bits_new)

lemma NILBIT_SET_A_to:
  assumes "ia_shape a" "ia_nilbits a \<noteq> None" "p < ia_cap a"
  shows "odone (bits_to' a (insert p (nils a))) (NILBIT_SET_A a p)"
proof -
  obtain b where b: "ia_nilbits a = Some b" using assms by auto
  obtain b' where "sp_nilbit_set b p = Some b'" "length b' = length b" "bits_set b' = insert p (bits_set b)"
    using nilbit_set shape_bits [OF assms(1) b assms(3)] by metis
  then show ?thesis using assms b
    by (auto simp: NILBIT_SET_A_def on_bits_def olift_def bits_to'_def bits_to_def ia_shape_def nils_def)
qed

lemma NILBITS_SET_RANGE_A_to:
  assumes "ia_shape a" "ia_nilbits a \<noteq> None" "hi \<le> ia_cap a" "lo \<le> hi"
  shows "odone (bits_to' a (nils a \<union> {lo..<hi})) (NILBITS_SET_RANGE_A a lo hi)"
proof -
  obtain b where b: "ia_nilbits a = Some b" using assms by auto
  obtain b' where "sp_nilbits_set_range b lo hi = Some b'" "length b' = length b" "bits_set b' = bits_set b \<union> {lo..<hi}"
    using set_range shape_bits_le [OF assms(1) b assms(3)] assms(4) by metis
  then show ?thesis using assms b
    by (auto simp: NILBITS_SET_RANGE_A_def on_bits_def olift_def bits_to'_def bits_to_def ia_shape_def nils_def)
qed

lemma NILBITS_MOVE_A_to:
  assumes "ia_shape a" "ia_nilbits a \<noteq> None" "from + n \<le> ia_cap a" "to + n \<le> ia_cap a" "from \<noteq> to"
  shows "odone (bits_to' a ((nils a - {from..<from + n} - {to..<to + n}) \<union> {to + i | i. i < n \<and> from + i \<in> nils a}))
    (NILBITS_MOVE_A a from to n)"
proof -
  obtain b where b: "ia_nilbits a = Some b" using assms by auto
  have l: "length b = sp_nilbits_words (ia_cap a)" "0 < ia_cap a" using assms(1) b by (auto simp: ia_shape_def)
  let ?S = "(bits_set b - {from..<from + n} - {to..<to + n}) \<union> {to + i | i. i < n \<and> from + i \<in> bits_set b}"
  obtain b' where m: "sp_nilbits_move b (ia_cap a) from to n = Some b'" "length b' = length b" "bits_set b' = ?S"
    using assms(5) by (rule_tac bits_move [OF l assms(3,4)]) (simp only: if_False)
  have "NILBITS_MOVE_A a from to n = Done (a\<lparr>ia_nilbits := Some b', ia_nil_lo := 0\<rparr>)"
    using b m(1) by (simp add: NILBITS_MOVE_A_def on_bits_def olift_def)
  moreover have "nils a = bits_set b" using b by (simp add: nils_def)
  moreover have "bits_to' a (bits_set b') (a\<lparr>ia_nilbits := Some b', ia_nil_lo := 0\<rparr>)"
    using assms(1) l m(2) by (simp add: bits_to'_def bits_to_def ia_shape_def nils_def)
  ultimately show ?thesis using m(3) by simp
qed

lemma clr_bit_to:
  assumes "ia_shape a" "ia_nilbits a \<noteq> None" "p < ia_cap a"
  shows "odone (\<lambda>a'. bits_to' a (nils a - {p}) a' \<and> ia_nil_lo a' = ia_nil_lo a) (on_bits a (\<lambda>b. sp_nilbit_clr b p))"
proof -
  obtain b where b: "ia_nilbits a = Some b" using assms by auto
  obtain b' where "sp_nilbit_clr b p = Some b'" "length b' = length b" "bits_set b' = bits_set b - {p}"
    using nilbit_clr shape_bits [OF assms(1) b assms(3)] by metis
  then show ?thesis using assms b by (auto simp: on_bits_def olift_def bits_to'_def bits_to_def ia_shape_def nils_def)
qed

lemma clear_range_to:
  assumes "ia_shape a" "ia_nilbits a \<noteq> None" "to \<le> ia_cap a" "from \<le> to"
  shows "odone (bits_to' a (nils a - {from..<to})) (on_bits a (\<lambda>b. sp_nilbits_clear_range b from to))"
proof -
  obtain b where b: "ia_nilbits a = Some b" using assms by auto
  obtain b' where "sp_nilbits_clear_range b from to = Some b'" "length b' = length b" "bits_set b' = bits_set b - {from..<to}"
    using clear_range shape_bits_le [OF assms(1) b assms(3)] assms(4) by metis
  then show ?thesis using assms b by (auto simp: on_bits_def olift_def bits_to'_def bits_to_def ia_shape_def nils_def)
qed

lemma elem_bit_nils [simp]: "ia_shape a \<Longrightarrow> p < ia_cap a \<Longrightarrow> elem_bit a p = Done (p \<in> nils a)"
  using shape_bits [of a _ p] by (auto simp: elem_bit_def nils_def olift_def split: option.splits)

lemma clr_nil_to:
  assumes "ia_shape a" "ia_nilbits a \<noteq> None" "p < ia_cap a"
  shows "odone (bits_to a (nils a - {p})) (sp_IntArray_clr_nil a p)"
proof -
  obtain a1 where a1: "on_bits a (\<lambda>b. sp_nilbit_clr b p) = Done a1" "bits_to' a (nils a - {p}) a1" "ia_nil_lo a1 = ia_nil_lo a"
    using clr_bit_to [OF assms] by (auto simp: odone_def)
  show ?thesis
  proof (cases "p \<ge> ia_nil_lo a \<and> ia_nil_lo a \<notin> nils a1")
    case True
    obtain b where b: "ia_nilbits a1 = Some b" using a1 by (auto simp: bits_to'_def)
    have w: "length b = sp_nilbits_words (ia_cap a1)" "ia_nil_lo a1 div 64 < length b" "ia_nil_lo a1 \<le> SP_NIL_LO_NONE"
      "ia_nil_lo a1 < ia_cap a1" "ia_shape a1"
      using a1 b assms True shape_bits [of a1 b "ia_nil_lo a"] by (auto simp: bits_to'_def bits_to_def ia_shape_def)
    obtain q where q: "sp_nil_lo_up b (ia_nil_lo a1) (ia_cap a1) = Some (lo_of q)" "lowest b (ia_nil_lo a1) q"
      using nil_lo_up [OF w(1-3)] by auto
    let ?a = "a1\<lparr>ia_nil_lo := lo_of q\<rparr>"
    have r: "sp_IntArray_clr_nil a p = Done (if lo_of q = SP_NIL_LO_NONE then sp_IntArray_drop_nilbits ?a else ?a)"
      using True a1 b q(1) w(4,5) by (simp add: sp_IntArray_clr_nil_def Let_def olift_def)
    have n: "nils a1 = bits_set b" "\<forall>i \<in> nils a1. ia_nil_lo a1 \<le> i" using b w(5) by (auto simp: nils_def ia_shape_def)
    show ?thesis
    proof (cases "lo_of q = SP_NIL_LO_NONE")
      case True
      then have "q = None" by (auto simp: lo_of_def SP_NIL_LO_NONE_def split: option.splits if_splits)
      then have "\<forall>i \<in> nils a1. i < ia_nil_lo a1" using q(2) n(1) by (simp add: lowest_def)
      then have "nils a1 = {}" using n(2) by (meson equals0I leD)
      then have "nils a - {p} = {}" using a1(2) by (simp add: bits_to'_def bits_to_def)
      then show ?thesis using r True a1(2) w(5)
        by (simp add: sp_IntArray_drop_nilbits_def bits_to'_def bits_to_def ia_shape_def nils_def)
    next
      case False
      then obtain k where k: "q = Some k" by (auto simp: lo_of_def split: option.splits)
      have "\<forall>i \<in> nils a1. k \<le> i" using q(2) n k by (fastforce simp: lowest_def)
      then have "\<forall>i \<in> nils a1. lo_of q \<le> i" "lo_of q \<le> SP_NIL_LO_NONE" using k by (auto simp: lo_of_def)
      then show ?thesis using r False a1(2) w(5) by (simp add: bits_to'_def bits_to_def ia_shape_def nils_def)
    qed
  next
    case False
    moreover have "p \<ge> ia_nil_lo a \<Longrightarrow> elem_bit a1 (ia_nil_lo a) = Done (ia_nil_lo a \<in> nils a1)"
      using a1(2) assms(3) by (simp add: bits_to'_def bits_to_def)
    ultimately show ?thesis using a1 by (auto simp: sp_IntArray_clr_nil_def bits_to'_def)
  qed
qed

section \<open>The list\<close>

text \<open>The array is left with the invariant, the list \<open>xs\<close> and its frozen flag.\<close>

definition becomes :: "bool \<Rightarrow> int option list \<Rightarrow> IntArray \<Rightarrow> bool" where
  "becomes fr xs a \<longleftrightarrow> ia_inv a \<and> ia_list a = xs \<and> ia_frozen a = fr"

lemma becomesI:
  assumes "ia_shape a" "ia_start a + length xs \<le> ia_cap a" "ia_len a = length xs" "ia_frozen a = fr"
    "nils a \<subseteq> {ia_start a..<ia_start a + length xs}" "\<And>p. p \<in> nils a \<Longrightarrow> ia_data a ! p = 0" "\<And>i. i < length xs \<Longrightarrow> xs ! i = slot a (ia_start a + i)"
  shows "becomes fr xs a"
  using assms by (simp add: becomes_def ia_inv_def ia_list_eqI)

lemma set_cap_shape:
  assumes "ia_shape a" "ia_cap a \<le> nc"
  shows "ia_shape (sp_IntArray_set_cap g a nc)" "nils (sp_IntArray_set_cap g a nc) = nils a"
    "\<And>p. p < ia_cap a \<Longrightarrow> ia_data (sp_IntArray_set_cap g a nc) ! p = ia_data a ! p"
proof -
  have "nc > 0" using assms by (simp add: ia_shape_def)
  then show n: "nils (sp_IntArray_set_cap g a nc) = nils a"
    using assms bits_resize(2) by (auto simp: nils_def sp_IntArray_set_cap_def ia_shape_def split: option.splits)
  show "ia_shape (sp_IntArray_set_cap g a nc)"
    using assms \<open>nc > 0\<close> n bits_resize(1) by (auto simp: ia_shape_def sp_IntArray_set_cap_def)
  show "ia_data (sp_IntArray_set_cap g a nc) ! p = ia_data a ! p" if "p < ia_cap a" for p
    using assms that by (simp add: ia_shape_def sp_IntArray_set_cap_def nth_append)
qed

lemma set_cap_frame [simp]:
  "ia_start (sp_IntArray_set_cap g a nc) = ia_start a" "ia_len (sp_IntArray_set_cap g a nc) = ia_len a"
  "ia_cap (sp_IntArray_set_cap g a nc) = nc" "ia_frozen (sp_IntArray_set_cap g a nc) = ia_frozen a"
  by (simp_all add: sp_IntArray_set_cap_def)

lemma set_cap_becomes:
  assumes "ia_inv a" "ia_cap a \<le> nc"
  shows "becomes (ia_frozen a) (ia_list a) (sp_IntArray_set_cap g a nc)"
  using assms set_cap_shape [of a nc]
  by (intro becomesI) (auto simp: ia_inv_def slot_def)

lemma memmove_home:
  "s + n \<le> length xs \<Longrightarrow> memmove xs 0 s n = Done (take n (drop s xs) @ drop n xs)"
  by (simp add: memmove_def mread_def mput_def)

lemma slide_home_becomes:
  assumes "ia_inv a" "0 < ia_start a"
  shows "odone (\<lambda>a'. becomes (ia_frozen a) (ia_list a) a' \<and> ia_start a' = 0 \<and> ia_len a' = ia_len a \<and> ia_cap a' = ia_cap a) (slide_home a)"
proof -
  let ?d = "take (ia_len a) (drop (ia_start a) (ia_data a)) @ drop (ia_len a) (ia_data a)"
  let ?a = "a\<lparr>ia_data := ?d\<rparr>"
  have m: "memmove (ia_data a) 0 (ia_start a) (ia_len a) = Done ?d" using assms by (intro memmove_home) (auto simp: ia_inv_def ia_shape_def)
  have sh: "ia_shape ?a" using assms by (auto simp: ia_inv_def ia_shape_def nils_def)
  have d: "i < ia_len a \<Longrightarrow> ?d ! i = ia_data a ! (ia_start a + i)" for i
  proof -
    assume i: "i < ia_len a"
    moreover have "length (ia_data a) \<ge> ia_start a + ia_len a" using assms by (simp add: ia_inv_def ia_shape_def)
    ultimately show ?thesis by (simp add: nth_append)
  qed
  let ?S = "{i | i. i < ia_len a \<and> ia_start a + i \<in> nils a}"
  have "odone (bits_to ?a ?S) (if_bits ?a (\<lambda>a. NILBITS_MOVE_A a (ia_start a) 0 (ia_len a)))"
  proof (cases "ia_nilbits a = None")
    case True
    then show ?thesis using sh by (simp add: if_bits_def bits_to_def)
  next
    case False
    have "odone (bits_to' ?a ((nils ?a - {ia_start a..<ia_start a + ia_len a} - {0..<0 + ia_len a}) \<union> {0 + i | i. i < ia_len a \<and> ia_start a + i \<in> nils ?a}))
      (NILBITS_MOVE_A ?a (ia_start a) 0 (ia_len a))"
      using sh False assms by (intro NILBITS_MOVE_A_to) (auto simp: ia_inv_def)
    moreover have "nils ?a = nils a" "nils a - {ia_start a..<ia_start a + ia_len a} = {}" using assms by (auto simp: nils_def ia_inv_def)
    ultimately show ?thesis using False by (auto simp: if_bits_def bits_to'_def elim: odone_mono)
  qed
  moreover have "becomes (ia_frozen a) (ia_list a) (a'\<lparr>ia_start := 0\<rparr>)" if "bits_to ?a ?S a'" for a'
    using that assms d by (intro becomesI) (auto simp: bits_to_def ia_inv_def ia_shape_def nils_def slot_def)
  ultimately show ?thesis unfolding slide_home_def m by (auto simp: bits_to_def elim!: odone_mono)
qed

section \<open>Pushing\<close>

lemma becomesD:
  assumes "becomes fr xs a"
  shows "ia_inv a" "ia_list a = xs" "ia_frozen a = fr" "ia_len a = length xs"
  using assms by (auto simp: becomes_def)

lemma becomes_nth: "becomes fr xs a \<Longrightarrow> i < length xs \<Longrightarrow> xs ! i = slot a (ia_start a + i)"
  by (auto simp: becomes_def)

lemma new_becomes: "becomes False [] (sp_IntArray_new g)"
  by (simp add: becomes_def ia_inv_def ia_shape_def ia_list_def sp_IntArray_new_def nils_def)

lemma push_grow_becomes:
  assumes "ia_inv a" "ia_start a + ia_len a \<ge> ia_cap a"
  shows "odone (\<lambda>a'. becomes (ia_frozen a) (ia_list a) a' \<and> ia_start a' + ia_len a' < ia_cap a') (sp_IntArray_push_grow g a)"
proof (cases "ia_start a > 0")
  case True
  obtain a1 where a1: "slide_home a = Done a1" "becomes (ia_frozen a) (ia_list a) a1" "ia_start a1 = 0" "ia_len a1 = ia_len a" "ia_cap a1 = ia_cap a"
    using slide_home_becomes [OF assms(1) True] by (auto simp: odone_def)
  have "becomes (ia_frozen a) (ia_list a) (sp_IntArray_set_cap g a1 (ia_cap a1 * 2 + 1))"
    using set_cap_becomes [of a1 "ia_cap a1 * 2 + 1" g] a1(2) by (auto simp: becomes_def)
  moreover have "0 < ia_cap a" "ia_start a + ia_len a \<le> ia_cap a" using assms(1) by (auto simp: ia_inv_def ia_shape_def)
  ultimately show ?thesis using True a1 by (auto simp: sp_IntArray_push_grow_def)
next
  case False
  then show ?thesis using assms(1) set_cap_becomes [of a "ia_cap a * 2 + 1" g]
    by (auto simp: sp_IntArray_push_grow_def ia_inv_def ia_shape_def becomes_def)
qed

lemma put_data_ok [simp]: "ia_shape a \<Longrightarrow> p < ia_cap a \<Longrightarrow> put_data a p v = Done (a\<lparr>ia_data := (ia_data a)[p := v]\<rparr>)"
  by (simp add: put_data_def olift_def ia_shape_def)

lemma nils_data [simp]:
  "nils (a\<lparr>ia_data := d\<rparr>) = nils a" "nils (a\<lparr>ia_len := n\<rparr>) = nils a" "nils (a\<lparr>ia_start := n\<rparr>) = nils a"
  by (simp_all add: nils_def)

lemma shape_data [simp]:
  "ia_shape (a\<lparr>ia_len := n\<rparr>) = ia_shape a" "ia_shape (a\<lparr>ia_start := n\<rparr>) = ia_shape a"
  by (simp_all add: ia_shape_def)

lemma shape_put [simp]: "ia_shape a \<Longrightarrow> length d = length (ia_data a) \<Longrightarrow> ia_shape (a\<lparr>ia_data := d\<rparr>)"
  by (simp add: ia_shape_def)

lemma put_end:
  assumes "ia_inv a" "ia_start a + ia_len a < ia_cap a"
  shows "becomes (ia_frozen a) (ia_list a @ [Some v]) (a\<lparr>ia_data := (ia_data a)[ia_start a + ia_len a := v], ia_len := ia_len a + 1\<rparr>)"
  using assms by (intro becomesI) (auto simp: ia_inv_def nth_append slot_def less_Suc_eq ia_shape_def)

lemma push_becomes:
  assumes "becomes False xs a"
  shows "odone (becomes False (xs @ [Some v])) (sp_IntArray_push g a v)"
proof -
  have "odone (\<lambda>a'. becomes False xs a' \<and> ia_start a' + ia_len a' < ia_cap a')
      (if ia_start a + ia_len a \<ge> ia_cap a then sp_IntArray_push_grow g a else Done a)"
    using push_grow_becomes [of a g] assms by (auto simp: becomes_def)
  moreover have "odone (\<lambda>a. becomes False (xs @ [Some v]) (a\<lparr>ia_len := ia_len a + 1\<rparr>)) (put_data a (ia_start a + ia_len a) v)"
    if "becomes False xs a" "ia_start a + ia_len a < ia_cap a" for a
    using put_end [of a v] that by (auto simp: becomes_def ia_inv_def)
  ultimately show ?thesis using assms unfolding sp_IntArray_push_def by (auto simp: becomes_def elim!: odone_mono)
qed

lemma push_frozen: "ia_frozen a \<Longrightarrow> sp_IntArray_push g a v = sp_raise_frozen_array"
  by (simp add: sp_IntArray_push_def)

lemma nil_slot_zero: "becomes fr xs a \<Longrightarrow> i < length xs \<Longrightarrow> xs ! i = None \<or> xs ! i = Some 0 \<Longrightarrow> ia_data a ! (ia_start a + i) = 0"
  by (auto simp: becomes_def ia_inv_def slot_def split: if_splits)

lemma mark_becomes:
  assumes "becomes fr xs a" "i < length xs" "xs ! i = None \<or> xs ! i = Some 0"
  shows "odone (becomes fr (xs[i := None])) (NILBIT_SET_A (nilbits_need a) (ia_start a + i))"
proof -
  let ?a = "nilbits_need a"
  have a: "ia_shape a" "ia_start a + ia_len a \<le> ia_cap a" "ia_len a = length xs" using assms by (auto simp: becomes_def ia_inv_def)
  have n: "bits_to' a (nils a) ?a" using nilbits_need_to [OF a(1)] .
  have "odone (bits_to' ?a (insert (ia_start a + i) (nils ?a))) (NILBIT_SET_A ?a (ia_start a + i))"
    using n a assms(2) by (intro NILBIT_SET_A_to) (auto simp: bits_to'_def bits_to_def)
  moreover have "becomes fr (xs[i := None]) a'" if "bits_to' ?a (insert (ia_start a + i) (nils ?a)) a'" for a'
    using that n assms by (intro becomesI) (auto simp: bits_to'_def bits_to_def becomes_def ia_inv_def slot_def nth_list_update nil_slot_zero [OF assms])
  ultimately show ?thesis by (rule odone_mono)
qed

lemma push_nil_becomes:
  assumes "becomes False xs a"
  shows "odone (becomes False (xs @ [None])) (sp_IntArray_push_nil g a)"
proof -
  have "odone (becomes False (xs @ [None])) (if ia_frozen a then Done a else let a = nilbits_need a in NILBIT_SET_A a (ia_start a + ia_len a - 1))"
    if "becomes False (xs @ [Some 0]) a" for a
  proof -
    have "ia_start (nilbits_need a) + ia_len (nilbits_need a) - 1 = ia_start a + length xs"
      using becomesD(4) [OF that] by (simp add: nilbits_need_def NILBITS_NEW_A_def)
    then show ?thesis using mark_becomes [OF that, of "length xs"] that by (simp add: Let_def becomes_def)
  qed
  with push_becomes [OF assms] show ?thesis unfolding sp_IntArray_push_nil_def by (rule odone_bind)
qed

lemma push_o_becomes: "becomes False xs a \<Longrightarrow> odone (becomes False (xs @ [x])) (sp_IntArray_push_o g a x)"
  by (cases x) (simp_all add: sp_IntArray_push_o_def push_becomes push_nil_becomes)

section \<open>Filling\<close>

lemma fill_loop_ok: "n \<le> length d \<Longrightarrow> fill_loop d n v = Done (replicate n v @ drop n d)"
proof -
  assume n: "n \<le> length d"
  have "odone (\<lambda>d'. length d' = length d \<and> (\<forall>i < length d. d' ! i = (if i < 0 + n then v else d ! i))) (oloop (\<lambda>i d. olift (st d i v)) 0 n d)"
    by (rule odone_oloop) (use n in \<open>auto simp: nth_list_update\<close>)
  then show ?thesis using n by (auto simp: fill_loop_def odone_def nth_append intro!: nth_equalityI)
qed

lemma new_fill_becomes: "odone (\<lambda>a. becomes False (replicate n (Some v)) a \<and> ia_start a = 0) (sp_IntArray_new_fill g n v)"
proof -
  have "n \<le> length (map g [0..<if 16 < n then n else 16])" by simp
  then show ?thesis unfolding sp_IntArray_new_fill_def Let_def
    by (simp only: fill_loop_ok obind_simps odone_simps)
       (rule conjI, rule becomesI; simp add: ia_shape_def nils_def slot_def nth_append SP_NIL_LO_NONE_def)
qed

lemma new_nil_becomes: "odone (becomes False (replicate n None)) (sp_IntArray_new_nil g n)"
proof -
  have "odone (becomes False (replicate n None)) (if n > 0 then NILBITS_SET_RANGE_A (NILBITS_NEW_A a) 0 n else Done a)"
    if "becomes False (replicate n (Some 0)) a" "ia_start a = 0" for a
  proof (cases "n > 0")
    case True
    have n: "bits_to' a {} (NILBITS_NEW_A a)" using NILBITS_NEW_A_to that(1) by (simp add: becomes_def ia_inv_def)
    have "odone (bits_to' (NILBITS_NEW_A a) (nils (NILBITS_NEW_A a) \<union> {0..<n})) (NILBITS_SET_RANGE_A (NILBITS_NEW_A a) 0 n)"
      using n becomesD(1,4) [OF that(1)] by (intro NILBITS_SET_RANGE_A_to) (auto simp: bits_to'_def bits_to_def ia_inv_def)
    moreover have "becomes False (replicate n None) a'" if "bits_to' (NILBITS_NEW_A a) (nils (NILBITS_NEW_A a) \<union> {0..<n}) a'" for a'
      using that n becomesD [OF \<open>becomes False (replicate n (Some 0)) a\<close>] \<open>ia_start a = 0\<close>
        nil_slot_zero [OF \<open>becomes False (replicate n (Some 0)) a\<close>]
      by (intro becomesI) (auto simp: bits_to'_def bits_to_def ia_inv_def slot_def)
    ultimately show ?thesis using True by (auto elim: odone_mono)
  qed (use that in simp)
  then show ?thesis unfolding sp_IntArray_new_nil_def by (intro odone_bind [OF new_fill_becomes]) blast
qed

section \<open>Taking\<close>

lemma data_ok [simp]: "ia_shape a \<Longrightarrow> p < ia_cap a \<Longrightarrow> olift (ld (ia_data a) p) = Done (ia_data a ! p)"
  by (simp add: olift_def ia_shape_def)

lemma taken_to:
  assumes "ia_shape a" "p < ia_cap a"
  shows "odone (\<lambda>r. fst r = slot a p \<and> bits_to a (nils a - {p}) (snd r)) (taken a p)"
proof -
  have "odone (\<lambda>a'. bits_to a (nils a - {p}) a') (sp_IntArray_clr_nil a p)" if "p \<in> nils a"
    using clr_nil_to [OF assms(1) _ assms(2)] that by (cases "ia_nilbits a") auto
  then show ?thesis using assms
    by (auto simp: taken_def sp_IntArray_take_cold_def slot_def bits_to_def elim!: odone_mono)
qed

text \<open>A smaller window.\<close>

lemma becomes_window:
  assumes "becomes fr xs a" "ia_shape a'" "ia_data a' = ia_data a" "ia_cap a' = ia_cap a" "ia_frozen a' = fr"
    "ia_start a' = ia_start a + k" "ia_len a' = n" "k + n \<le> length xs" "nils a' = nils a \<inter> {ia_start a + k..<ia_start a + k + n}"
  shows "becomes fr (take n (drop k xs)) a'"
proof (rule becomesI)
  have "ia_start a + length xs \<le> ia_cap a" using assms(1) by (auto simp: becomes_def ia_inv_def)
  then show "ia_start a' + length (take n (drop k xs)) \<le> ia_cap a'" using assms(4,6,8) by simp
  show "nils a' \<subseteq> {ia_start a'..<ia_start a' + length (take n (drop k xs))}" using assms(6,8,9) by (auto simp: min_def)
  fix i assume "i < length (take n (drop k xs))"
  then show "take n (drop k xs) ! i = slot a' (ia_start a' + i)"
    using becomes_nth [OF assms(1), of "k + i"] assms(3,6,8,9) by (simp add: slot_def add.assoc)
qed (use assms becomesD(1) [OF assms(1)] in \<open>simp_all add: ia_inv_def\<close>)

lemma pop_o_becomes:
  assumes "becomes False xs a" "xs \<noteq> []"
  shows "odone (\<lambda>r. fst r = last xs \<and> becomes False (butlast xs) (snd r)) (sp_IntArray_pop_o a)"
proof -
  obtain n where n: "length xs = Suc n" using assms(2) by (cases xs) auto
  let ?a = "a\<lparr>ia_len := n\<rparr>" and ?p = "ia_start a + n"
  have l: "ia_len a = Suc n" "\<not> ia_frozen a" using assms n by (auto simp: becomes_def)
  have i: "ia_shape a" "?p < ia_cap a" "nils a \<subseteq> {ia_start a..<ia_start a + Suc n}" using assms(1) l by (auto simp: becomes_def ia_inv_def)
  have x: "last xs = slot a ?p" using becomes_nth [OF assms(1), of n] assms(2) n by (simp add: last_conv_nth)
  have "becomes False (take n (drop 0 xs)) a'" if "bits_to ?a (nils a - {?p}) a'" for a'
    by (rule becomes_window [OF assms(1)]) (use that i l n in \<open>auto simp: bits_to_def\<close>)
  moreover have "take n (drop 0 xs) = butlast xs" using n by (simp add: butlast_conv_take)
  ultimately show ?thesis using taken_to [of ?a ?p] i(1,2) x l
    by (auto simp: sp_IntArray_pop_o_def slot_def elim!: odone_mono)
qed

lemma shift_o_becomes:
  assumes "becomes False xs a" "xs \<noteq> []"
  shows "odone (\<lambda>r. fst r = hd xs \<and> becomes False (tl xs) (snd r)) (sp_IntArray_shift_o a)"
proof -
  obtain n where n: "length xs = Suc n" using assms(2) by (cases xs) auto
  let ?a = "a\<lparr>ia_start := Suc (ia_start a), ia_len := n\<rparr>" and ?p = "ia_start a"
  have l: "ia_len a = Suc n" "\<not> ia_frozen a" using assms n by (auto simp: becomes_def)
  have i: "ia_shape a" "?p < ia_cap a" "nils a \<subseteq> {ia_start a..<ia_start a + Suc n}" using assms(1) l by (auto simp: becomes_def ia_inv_def)
  have x: "hd xs = slot a ?p" using becomes_nth [OF assms(1), of 0] assms(2) n by (simp add: hd_conv_nth)
  have "becomes False (take n (drop 1 xs)) a'" if "bits_to ?a (nils a - {?p}) a'" for a'
    by (rule becomes_window [OF assms(1)]) (use that i l n in \<open>auto simp: bits_to_def\<close>)
  moreover have "take n (drop 1 xs) = tl xs" using n by (simp add: drop_Suc)
  ultimately show ?thesis using taken_to [of ?a ?p] i(1,2) x l
    by (auto simp: sp_IntArray_shift_o_def slot_def elim!: odone_mono)
qed

lemma take_empty:
  assumes "becomes fr [] a"
  shows "sp_IntArray_pop_o a = Done (None, a)" "sp_IntArray_shift_o a = Done (None, a)"
  using becomesD(4) [OF assms] by (simp_all add: sp_IntArray_pop_o_def sp_IntArray_shift_o_def)

lemma take_frozen:
  assumes "becomes True xs a" "xs \<noteq> []"
  shows "sp_IntArray_pop_o a = sp_raise_frozen_array" "sp_IntArray_shift_o a = sp_raise_frozen_array"
  using becomesD(3,4) [OF assms(1)] assms(2) by (simp_all add: sp_IntArray_pop_o_def sp_IntArray_shift_o_def)

section \<open>Reading\<close>

text \<open>What Ruby's \<^verbatim>\<open>a[i]\<close> answers.\<close>

definition at_index :: "int option list \<Rightarrow> int \<Rightarrow> int option" where
  "at_index xs i = (let j = (if i < 0 then i + int (length xs) else i)
     in if 0 \<le> j \<and> j < int (length xs) then xs ! nat j else None)"

lemma u64_below: "in_i64 i \<Longrightarrow> int n < 2 ^ 63 \<Longrightarrow> wrap_u64 i < int n \<longleftrightarrow> 0 \<le> i \<and> i < int n"
proof -
  assume a: "in_i64 i" "int n < 2 ^ 63"
  show ?thesis
  proof (cases "0 \<le> i")
    case True
    then show ?thesis using a wrap_u64_id [of i] by (simp add: in_i64_def INT64_MIN_def INT64_MAX_def)
  next
    case False
    have "wrap_u64 i = wrap_u64 (i + 2 ^ 64)" by (simp add: wrap_u64_def)
    also have "\<dots> = i + 2 ^ 64" using a False by (intro wrap_u64_id) (simp_all add: in_i64_def INT64_MIN_def INT64_MAX_def)
    finally show ?thesis using a False by (simp add: in_i64_def INT64_MIN_def INT64_MAX_def)
  qed
qed

lemma slot_read:
  assumes "ia_inv a" "i < ia_len a"
  shows "olift (ld (ia_data a) (ia_start a + i)) = Done (ia_data a ! (ia_start a + i))"
    "elem_bit a (ia_start a + i) = Done (ia_start a + i \<in> nils a)"
  using assms by (auto simp: ia_inv_def)

lemma oget_at:
  assumes "becomes fr xs a" "in_i64 i" "int (length xs) < 2 ^ 63"
  shows "sp_IntArray_oget a i = Done (at_index xs i)"
proof -
  have l: "ia_inv a" "length xs = ia_len a" "xs = ia_list a" using assms(1) by (auto simp: becomes_def)
  note u = u64_below [OF assms(2,3), unfolded l(2)]
  have r: "k < ia_len a \<Longrightarrow> olift (ld (ia_data a) (ia_start a + k)) = Done (ia_data a ! (ia_start a + k))"
      "k < ia_len a \<Longrightarrow> elem_bit a (ia_start a + k) = Done (ia_start a + k \<in> nils a)" for k
    using slot_read [OF l(1)] by auto
  have slow: "sp_IntArray_oget_slow a i = Done (at_index xs i)"
    using r [of "nat i"] r [of "nat (i + int (ia_len a))"] unfolding sp_IntArray_oget_slow_def at_index_def u ia_index_def l(2,3) Let_def
    by (auto simp: slot_def nat_less_iff)
  then show ?thesis using r [of "nat i"] l
    unfolding sp_IntArray_oget_def u by (auto simp: at_index_def slot_def nat_less_iff)
qed

lemma get_at:
  assumes "becomes fr xs a" "in_i64 i" "int (length xs) < 2 ^ 63"
  shows "\<exists>v. sp_IntArray_get a i = Done v \<and> (\<forall>w. at_index xs i = Some w \<longrightarrow> v = w)"
proof -
  have l: "ia_inv a" "length xs = ia_len a" "xs = ia_list a" using assms(1) by (auto simp: becomes_def)
  note u = u64_below [OF assms(2,3), unfolded l(2)]
  have r: "k < ia_len a \<Longrightarrow> olift (ld (ia_data a) (ia_start a + k)) = Done (ia_data a ! (ia_start a + k))" for k
    using slot_read [OF l(1)] by auto
  show ?thesis using r [of "nat i"] r [of "nat (i + int (ia_len a))"] unfolding sp_IntArray_get_def at_index_def u ia_index_def l(2,3) Let_def
    by (auto simp: slot_def nat_less_iff)
qed

section \<open>Storing\<close>

lemma store_at_becomes:
  assumes "becomes fr xs a" "i < length xs"
  shows "odone (becomes fr (xs[i := Some v])) (store_at a i v)"
proof -
  let ?p = "ia_start a + i" and ?d = "(ia_data a)[ia_start a + i := v]"
  let ?a = "a\<lparr>ia_data := ?d\<rparr>"
  have i: "ia_shape a" "?p < ia_cap a" "ia_start a + length xs \<le> ia_cap a" "nils a \<subseteq> {ia_start a..<ia_start a + length xs}" "ia_len a = length xs" "ia_frozen a = fr"
      "length (ia_data a) = ia_cap a" "\<forall>p \<in> nils a. ia_data a ! p = 0"
    using assms by (auto simp: becomes_def ia_inv_def ia_shape_def)
  have s: "ia_shape ?a" using i(1) by simp
  have "odone (bits_to ?a (nils a - {?p})) (if_bits ?a (\<lambda>a. sp_IntArray_clr_nil a (ia_start a + i)))"
    using clr_nil_to [OF s, of ?p] i(2) s by (auto simp: if_bits_def bits_to_def)
  moreover have "becomes fr (xs[i := Some v]) a'" if "bits_to ?a (nils a - {?p}) a'" for a'
    using that i by (intro becomesI) (auto simp: bits_to_def slot_def nth_list_update becomes_nth [OF assms(1)])
  ultimately show ?thesis unfolding store_at_def using i(1,2) by (auto elim: odone_mono)
qed

lemma grow_past_becomes:
  "becomes fr xs a \<Longrightarrow> becomes fr xs (grow_past g a p) \<and> p < ia_cap (grow_past g a p) \<and> ia_start (grow_past g a p) = ia_start a"
proof (induction g a p rule: grow_past.induct)
  case (1 g a p)
  show ?case
  proof (cases "p \<ge> ia_cap a")
    case True
    have "becomes fr xs (sp_IntArray_set_cap g a (ia_cap a * 2 + 1))"
      using set_cap_becomes [of a "ia_cap a * 2 + 1" g] 1(2) by (simp add: becomes_def)
    then show ?thesis using 1(1) [OF True] True by (simp add: grow_past.simps [of g a])
  qed (use 1(2) in \<open>simp add: grow_past.simps [of g a]\<close>)
qed

text \<open>The zeros of the gap are marked already.\<close>

lemma pad_to_gap:
  assumes "ia_shape a" "ia_len a \<le> i" "ia_start a + i \<le> ia_cap a"
  shows "odone (\<lambda>a'. ia_shape a' \<and> ia_len a' = i \<and> ia_start a' = ia_start a \<and> ia_cap a' = ia_cap a \<and> ia_frozen a' = ia_frozen a \<and>
    nils a' = nils a \<and> ia_nilbits a' = ia_nilbits a \<and> (\<forall>p < ia_start a + i. ia_data a' ! p = (if p < ia_start a + ia_len a then ia_data a ! p else 0))) (pad_to a i)"
proof -
  let ?I = "\<lambda>j a'. ia_shape a' \<and> ia_len a' = ia_len a + j \<and> ia_start a' = ia_start a \<and> ia_cap a' = ia_cap a \<and> ia_frozen a' = ia_frozen a \<and>
    nils a' = nils a \<and> ia_nilbits a' = ia_nilbits a \<and> (\<forall>p < ia_start a + ia_len a + j. ia_data a' ! p = (if p < ia_start a + ia_len a then ia_data a ! p else 0))"
  have "odone (?I (0 + (i - ia_len a))) (pad_to a i)" unfolding pad_to_def
    by (rule odone_oloop) (use assms in \<open>auto simp: nth_list_update ia_shape_def less_Suc_eq\<close>)
  then show ?thesis using assms(2) by (simp add: algebra_simps)
qed

lemma set_gap:
  assumes "becomes fr xs a" "length xs < i" "ia_start a + i \<le> ia_cap a"
  shows "odone (\<lambda>a'. becomes fr (xs @ replicate (i - length xs) None) a' \<and> ia_start a' = ia_start a \<and> ia_cap a' = ia_cap a \<and> ia_nilbits a' \<noteq> None)
    (obind (NILBITS_SET_RANGE_A (nilbits_need a) (ia_start a + ia_len a) (ia_start a + i)) (\<lambda>a. pad_to a i))"
proof -
  let ?s = "ia_start a" and ?n = "ia_len a" and ?N = "nilbits_need a"
  let ?S = "nils ?N \<union> {?s + ?n..<?s + i}"
  have a: "ia_shape a" "?n = length xs" using assms(1) by (auto simp: becomes_def ia_inv_def)
  have n: "bits_to' a (nils a) ?N" using nilbits_need_to [OF a(1)] .
  have "odone (bits_to' ?N ?S) (NILBITS_SET_RANGE_A ?N (?s + ?n) (?s + i))"
    using n a assms by (intro NILBITS_SET_RANGE_A_to) (auto simp: bits_to'_def bits_to_def)
  moreover have "odone (\<lambda>a'. becomes fr (xs @ replicate (i - length xs) None) a' \<and> ia_start a' = ?s \<and> ia_cap a' = ia_cap a \<and> ia_nilbits a' \<noteq> None) (pad_to b i)"
    if b: "bits_to' ?N ?S b" for b
  proof (rule odone_mono [OF pad_to_gap])
    show "ia_shape b" "ia_len b \<le> i" "ia_start b + i \<le> ia_cap b" using b n assms a by (auto simp: bits_to'_def bits_to_def)
    fix a' assume p: "ia_shape a' \<and> ia_len a' = i \<and> ia_start a' = ia_start b \<and> ia_cap a' = ia_cap b \<and> ia_frozen a' = ia_frozen b \<and>
      nils a' = nils b \<and> ia_nilbits a' = ia_nilbits b \<and> (\<forall>p < ia_start b + i. ia_data a' ! p = (if p < ia_start b + ia_len b then ia_data b ! p else 0))"
    have f: "nils b = nils a \<union> {?s + ?n..<?s + i}" "ia_start b = ?s" "ia_len b = ?n" "ia_cap b = ia_cap a" "ia_data b = ia_data a" "ia_frozen b = fr"
        "ia_nilbits b \<noteq> None" "nils a \<subseteq> {?s..<?s + length xs}" "\<forall>p \<in> nils a. ia_data a ! p = 0"
      using b n assms(1) by (auto simp: bits_to'_def bits_to_def becomes_def ia_inv_def)
    have "becomes fr (xs @ replicate (i - length xs) None) a'"
    proof (rule becomesI)
      show "nils a' \<subseteq> {ia_start a'..<ia_start a' + length (xs @ replicate (i - length xs) None)}" using p f a assms(2) by auto
      fix k assume "k < length (xs @ replicate (i - length xs) None)"
      then show "(xs @ replicate (i - length xs) None) ! k = slot a' (ia_start a' + k)"
        using p f a assms(2) by (auto simp: nth_append becomes_nth [OF assms(1)] slot_def)
    qed (use p f a assms in auto)
    then show "becomes fr (xs @ replicate (i - length xs) None) a' \<and> ia_start a' = ?s \<and> ia_cap a' = ia_cap a \<and> ia_nilbits a' \<noteq> None"
      using p f by simp
  qed
  ultimately show ?thesis by (rule odone_bind)
qed

lemma becomes_bits: "becomes fr xs a \<Longrightarrow> bits_to a (nils a) a' \<Longrightarrow> becomes fr xs a'"
  by (auto simp: becomes_def bits_to_def ia_inv_def ia_list_def slot_def)

text \<open>What Ruby's \<^verbatim>\<open>a[i] = x\<close> makes of the elements, for an index that is not negative.\<close>

definition put_index :: "int option list \<Rightarrow> nat \<Rightarrow> int option \<Rightarrow> int option list" where
  "put_index xs i x = (if i < length xs then xs[i := x] else xs @ replicate (i - length xs) None @ [x])"

lemma set_slow_becomes:
  assumes "becomes fr xs a" "int (length xs) \<le> i" "int (ia_start a) + i < 2 ^ 63"
  shows "odone (becomes fr (put_index xs (nat i) (Some v))) (sp_IntArray_set_slow g a i v)"
proof -
  define k where "k = nat i"
  have k: "i = int k" "length xs \<le> k" using assms(2) by (auto simp: k_def)
  let ?a = "grow_past g a (ia_start a + k)"
  have G: "becomes fr xs ?a" "ia_start ?a = ia_start a" "ia_start a + k < ia_cap ?a" using grow_past_becomes [OF assms(1)] by auto
  let ?ys = "xs @ replicate (k - length xs) None"
  have "odone (\<lambda>a'. becomes fr ?ys a' \<and> ia_start a' = ia_start a \<and> ia_start a' + k < ia_cap a')
    (if k > ia_len ?a then obind (NILBITS_SET_RANGE_A (nilbits_need ?a) (ia_start ?a + ia_len ?a) (ia_start ?a + k)) (\<lambda>a. pad_to a k) else Done ?a)"
  proof (cases "k > length xs")
    case True
    then show ?thesis using odone_mono [OF set_gap [OF G(1) True]] G becomesD(4) [OF G(1)] by simp
  next
    case False
    then show ?thesis using G becomesD(4) [OF G(1)] k by simp
  qed
  moreover have "odone (becomes fr (?ys @ [Some v])) (let a = (if k = ia_len a then a\<lparr>ia_len := ia_len a + 1\<rparr> else a)
      in obind (put_data a (ia_start a + k) v) (\<lambda>a. if_bits a (\<lambda>a. on_bits a (\<lambda>b. sp_nilbit_clr b (ia_start a + k)))))"
    if "becomes fr ?ys a \<and> ia_start a = st \<and> ia_start a + k < ia_cap a" for a st
  proof -
    let ?b = "a\<lparr>ia_data := (ia_data a)[ia_start a + ia_len a := v], ia_len := ia_len a + 1\<rparr>"
    have l: "ia_len a = k" "ia_inv a" "ia_shape a" "nils a \<subseteq> {ia_start a..<ia_start a + k}" "ia_frozen a = fr" "ia_list a = ?ys"
      using that becomesD [of fr ?ys a] k by (auto simp: ia_inv_def)
    have b: "becomes fr (?ys @ [Some v]) ?b" using put_end [OF l(2), of v] that l by simp
    have "odone (bits_to ?b (nils ?b)) (if_bits ?b (\<lambda>a. on_bits a (\<lambda>b. sp_nilbit_clr b (ia_start a + k))))"
    proof (cases "ia_nilbits a = None")
      case False
      have "nils ?b - {ia_start a + k} = nils ?b" using l(4) by auto
      then show ?thesis using clr_bit_to [of ?b "ia_start a + k"] False that b
        by (auto simp: if_bits_def bits_to'_def becomes_def ia_inv_def elim!: odone_mono)
    qed (use l in \<open>simp add: if_bits_def bits_to_def\<close>)
    then have "odone (becomes fr (?ys @ [Some v])) (if_bits ?b (\<lambda>a. on_bits a (\<lambda>b. sp_nilbit_clr b (ia_start a + k))))"
      by (rule odone_mono) (rule becomes_bits [OF b])
    moreover have "put_data (a\<lparr>ia_len := ia_len a + 1\<rparr>) (ia_start a + k) v = Done ?b" using that l by simp
    ultimately show ?thesis using l(1) by (simp add: Let_def)
  qed
  ultimately have "odone (becomes fr (?ys @ [Some v])) (obind
      (if k > ia_len ?a then obind (NILBITS_SET_RANGE_A (nilbits_need ?a) (ia_start ?a + ia_len ?a) (ia_start ?a + k)) (\<lambda>a. pad_to a k) else Done ?a)
      (\<lambda>a. let a = (if k = ia_len a then a\<lparr>ia_len := ia_len a + 1\<rparr> else a)
      in obind (put_data a (ia_start a + k) v) (\<lambda>a. if_bits a (\<lambda>a. on_bits a (\<lambda>b. sp_nilbit_clr b (ia_start a + k))))))"
    by (rule odone_bind) blast
  moreover have "wrap_i64 (int (ia_start a) + int k) = int (ia_start a) + int k"
    using assms(3) k by (simp add: wrap_i64_eq_iff in_i64_def INT64_MIN_def INT64_MAX_def)
  ultimately have "odone (becomes fr (?ys @ [Some v])) (sp_IntArray_set_slow g a i v)"
    using k(1) unfolding sp_IntArray_set_slow_def by (simp add: Let_def del: odone_simps)
  then show ?thesis using k by (simp add: put_index_def)
qed

definition norm_index :: "'a list \<Rightarrow> int \<Rightarrow> int" where
  "norm_index xs i = (if i < 0 then i + int (length xs) else i)"

lemma ia_index_norm: "becomes fr xs a \<Longrightarrow> ia_index a i = norm_index xs i"
  using becomesD(4) [of fr xs a] by (simp add: ia_index_def norm_index_def)

lemma set_becomes:
  assumes "becomes False xs a" "0 \<le> norm_index xs i" "int (ia_start a) + i < 2 ^ 63"
  shows "odone (becomes False (put_index xs (nat (norm_index xs i)) (Some v))) (sp_IntArray_set g a i v)"
proof -
  have l: "ia_len a = length xs" "\<not> ia_frozen a" using becomesD(3,4) [OF assms(1)] by auto
  have st: "odone (becomes False (put_index xs (nat j) (Some v))) (store_at a (nat j) v)" if "0 \<le> j" "j < int (length xs)" for j
    using store_at_becomes [OF assms(1), of "nat j" v] that by (simp add: put_index_def nat_less_iff)
  have "odone (becomes False (put_index xs (nat (norm_index xs i)) (Some v))) (sp_IntArray_set_cold g a i v)"
  proof (cases "norm_index xs i < int (length xs)")
    case True
    then show ?thesis using st [of "norm_index xs i"] assms(2) l by (simp add: sp_IntArray_set_cold_def Let_def ia_index_norm [OF assms(1)])
  next
    case False
    then have "norm_index xs i = i" by (simp add: norm_index_def split: if_splits)
    then show ?thesis using set_slow_becomes [OF assms(1), of i v g] False assms(2,3) l
      by (simp add: sp_IntArray_set_cold_def Let_def ia_index_norm [OF assms(1)])
  qed
  then show ?thesis using st [of i] l by (auto simp: sp_IntArray_set_def norm_index_def)
qed

lemma set_nil_becomes:
  assumes "becomes False xs a" "0 \<le> norm_index xs i" "int (ia_start a) + i < 2 ^ 63"
  shows "odone (becomes False (put_index xs (nat (norm_index xs i)) None)) (sp_IntArray_set_nil g a i)"
proof -
  let ?j = "norm_index xs i"
  have l: "ia_len a = length xs" "\<not> ia_frozen a" "ia_shape a" "ia_start a + length xs \<le> ia_cap a" using becomesD(1,3,4) [OF assms(1)] by (auto simp: ia_inv_def)
  let ?zs = "put_index xs (nat ?j) None"
  let ?Q = "\<lambda>a. \<exists>ys. becomes False ys a \<and> nat ?j < length ys \<and> (ys ! nat ?j = None \<or> ys ! nat ?j = Some 0) \<and> ys[nat ?j := None] = ?zs"
  have "odone ?Q (if ?j \<ge> int (ia_len a) then sp_IntArray_set_slow g a ?j 0 else put_data a (ia_start a + nat ?j) 0)"
  proof (cases "?j \<ge> int (length xs)")
    case True
    then have "?j = i" by (simp add: norm_index_def split: if_splits)
    moreover have "nat ?j < length (put_index xs (nat ?j) (Some 0))" "put_index xs (nat ?j) (Some 0) ! nat ?j = Some 0" "(put_index xs (nat ?j) (Some 0))[nat ?j := None] = ?zs"
      by (auto simp: put_index_def list_update_append nth_append)
    ultimately show ?thesis using odone_mono [OF set_slow_becomes [OF assms(1), of i 0 g], of ?Q] True assms(3) l by auto
  next
    case False
    then have j: "nat ?j < length xs" using assms(2) by linarith
    have "?Q (a\<lparr>ia_data := (ia_data a)[ia_start a + nat ?j := 0]\<rparr>)"
    proof (intro exI conjI)
      show "becomes False (xs[nat ?j := (if ia_start a + nat ?j \<in> nils a then None else Some 0)]) (a\<lparr>ia_data := (ia_data a)[ia_start a + nat ?j := 0]\<rparr>)"
        using l becomesD(1) [OF assms(1)] j
        by (intro becomesI) (auto simp: ia_inv_def ia_shape_def slot_def nth_list_update becomes_nth [OF assms(1)])
    qed (use j in \<open>auto simp: put_index_def\<close>)
    then show ?thesis using False j l by simp
  qed
  moreover have "odone (becomes False ?zs) (let a = nilbits_need a in NILBIT_SET_A a (ia_start a + nat ?j))" if Q: "?Q a" for a
  proof -
    have "ia_start (nilbits_need a) = ia_start a" by (simp add: nilbits_need_def NILBITS_NEW_A_def)
    moreover obtain ys where "becomes False ys a" "nat ?j < length ys" "ys ! nat ?j = None \<or> ys ! nat ?j = Some 0" "ys[nat ?j := None] = ?zs" using Q by blast
    ultimately show ?thesis using mark_becomes [of False ys a "nat ?j"] by (simp add: Let_def)
  qed
  ultimately have "odone (becomes False ?zs) (obind (if ?j \<ge> int (ia_len a) then sp_IntArray_set_slow g a ?j 0 else put_data a (ia_start a + nat ?j) 0)
      (\<lambda>a. let a = nilbits_need a in NILBIT_SET_A a (ia_start a + nat ?j)))" by (rule odone_bind)
  moreover have "sp_IntArray_set_nil g a i = obind (if ?j \<ge> int (ia_len a) then sp_IntArray_set_slow g a ?j 0 else put_data a (ia_start a + nat ?j) 0)
      (\<lambda>a. let a = nilbits_need a in NILBIT_SET_A a (ia_start a + nat ?j))"
    using l(2) assms(2) unfolding sp_IntArray_set_nil_def ia_index_norm [OF assms(1)] Let_def by simp
  ultimately show ?thesis by simp
qed

lemma oset_becomes:
  assumes "becomes False xs a" "0 \<le> norm_index xs i" "int (ia_start a) + i < 2 ^ 63"
  shows "odone (becomes False (put_index xs (nat (norm_index xs i)) x)) (sp_IntArray_oset g a i x)"
  using set_becomes [OF assms] set_nil_becomes [OF assms] by (cases x) (simp_all add: sp_IntArray_oset_def)

lemma oset_error:
  assumes "becomes fr xs a"
  shows "fr \<Longrightarrow> sp_IntArray_oset g a i x = sp_raise_frozen_array"
    "\<not> fr \<Longrightarrow> norm_index xs i < 0 \<Longrightarrow> sp_IntArray_oset g a i x = too_small a i"
  using becomesD(3,4) [OF assms]
  by (auto simp: sp_IntArray_oset_def sp_IntArray_set_def sp_IntArray_set_cold_def sp_IntArray_set_nil_def Let_def ia_index_norm [OF assms]
      norm_index_def split: option.splits)

section \<open>Cutting and counting\<close>

lemma cut_becomes:
  assumes "becomes fr xs a" "n \<le> length xs"
  shows "odone (becomes fr (take n xs)) (sp_IntArray_cut a n)"
proof -
  have l: "ia_len a = length xs" "ia_shape a" "nils a \<subseteq> {ia_start a..<ia_start a + length xs}" "ia_start a + length xs \<le> ia_cap a" "ia_frozen a = fr"
    using becomesD(1,3,4) [OF assms(1)] by (auto simp: ia_inv_def)
  let ?S = "nils a - {ia_start a + n..<ia_start a + length xs}"
  have "odone (bits_to a ?S) (if ia_nilbits a \<noteq> None \<and> n < ia_len a
      then on_bits a (\<lambda>b. sp_nilbits_clear_range b (ia_start a + n) (ia_start a + ia_len a)) else Done a)"
  proof (cases "ia_nilbits a \<noteq> None \<and> n < ia_len a")
    case True
    then show ?thesis using clear_range_to [OF l(2), of "ia_start a + length xs" "ia_start a + n"] l(1,4) assms(2)
      by (auto simp: bits_to'_def elim!: odone_mono)
  next
    case False
    then have "?S = nils a" using assms(2) l(1) by auto
    then show ?thesis using False l(2) by (auto simp: bits_to_def)
  qed
  moreover have "becomes fr (take n (drop 0 xs)) (a'\<lparr>ia_len := n\<rparr>)" if "bits_to a ?S a'" for a'
    by (rule becomes_window [OF assms(1)]) (use that l assms(2) in \<open>auto simp: bits_to_def\<close>)
  ultimately show ?thesis unfolding sp_IntArray_cut_def by (auto elim!: odone_mono)
qed

lemma nils_window:
  assumes "becomes fr xs a"
  shows "nils a = (\<lambda>i. ia_start a + i) ` {i. i < length xs \<and> xs ! i = None}"
proof -
  have w: "nils a \<subseteq> {ia_start a..<ia_start a + length xs}" using becomesD(1,4) [OF assms] by (simp add: ia_inv_def)
  show ?thesis
  proof (rule set_eqI)
    fix p show "p \<in> nils a \<longleftrightarrow> p \<in> (\<lambda>i. ia_start a + i) ` {i. i < length xs \<and> xs ! i = None}"
    proof
      assume p: "p \<in> nils a"
      then obtain i where "p = ia_start a + i" "i < length xs" using w by (metis (no_types) atLeastLessThan_iff le_Suc_ex nat_add_left_cancel_less subsetD)
      then show "p \<in> (\<lambda>i. ia_start a + i) ` {i. i < length xs \<and> xs ! i = None}" using p becomes_nth [OF assms, of i] by (simp add: slot_def)
    qed (auto simp: becomes_nth [OF assms] slot_def split: if_splits)
  qed
qed

lemma has_nil_ok:
  assumes "becomes fr xs a"
  shows "sp_IntArray_has_nil a = Done (None \<in> set xs)"
proof -
  have l: "ia_len a = length xs" "ia_shape a" "nils a \<subseteq> {ia_start a..<ia_start a + length xs}" "ia_start a + length xs \<le> ia_cap a"
    using becomesD(1,3,4) [OF assms] by (auto simp: ia_inv_def)
  have n: "nils a \<noteq> {} \<longleftrightarrow> None \<in> set xs" unfolding nils_window [OF assms] by (auto simp: in_set_conv_nth)
  show ?thesis
  proof (cases "ia_nilbits a")
    case (Some b)
    moreover have "bits_set b \<inter> {ia_start a..<ia_start a + length xs} = nils a" using l(3) Some by (auto simp: nils_def)
    ultimately show ?thesis using nilbits_any [of "ia_start a + length xs" b "ia_start a"] shape_bits_le [OF l(2) Some l(4)] l(1) n
      by (simp add: sp_IntArray_has_nil_def olift_def)
  qed (use n in \<open>simp add: sp_IntArray_has_nil_def\<close>)
qed

lemma nil_count_ok:
  assumes "becomes fr xs a"
  shows "sp_IntArray_nil_count a = Done (count_list xs None)"
proof -
  have l: "ia_len a = length xs" "ia_shape a" "nils a \<subseteq> {ia_start a..<ia_start a + length xs}" "ia_start a + length xs \<le> ia_cap a"
    using becomesD(1,3,4) [OF assms] by (auto simp: ia_inv_def)
  have "count_list xs None = length (filter (\<lambda>x. x = None) xs)" by (induction xs) auto
  then have n: "card (nils a) = count_list xs None"
    unfolding nils_window [OF assms] by (simp add: card_image length_filter_conv_card)
  show ?thesis
  proof (cases "ia_nilbits a")
    case (Some b)
    moreover have "bits_set b \<inter> {ia_start a..<ia_start a + length xs} = nils a" using l(3) Some by (auto simp: nils_def)
    ultimately show ?thesis using nilbits_count [of "ia_start a + length xs" b "ia_start a"] shape_bits_le [OF l(2) Some l(4)] l(1) n
      by (simp add: sp_IntArray_nil_count_def olift_def)
  qed (use n in \<open>simp add: sp_IntArray_nil_count_def\<close>)
qed

text \<open>The span that a loop reads without the bitmap.\<close>

definition SP_INT_NILFREE_LEN :: "IntArray \<Rightarrow> nat" where
  "SP_INT_NILFREE_LEN a = (if ia_nilbits a = None then ia_len a
     else if ia_nil_lo a \<le> ia_start a then 0 else if ia_nil_lo a - ia_start a < ia_len a then ia_nil_lo a - ia_start a else ia_len a)"

lemma nilfree_ok:
  assumes "becomes fr xs a" "i < SP_INT_NILFREE_LEN a"
  shows "i < length xs \<and> xs ! i = Some (ia_data a ! (ia_start a + i))"
proof -
  have "i < length xs" "ia_start a + i \<notin> nils a"
    using assms(2) becomesD(1,4) [OF assms(1)] by (fastforce simp: SP_INT_NILFREE_LEN_def ia_inv_def ia_shape_def split: if_splits)+
  then show ?thesis using becomes_nth [OF assms(1)] by (simp add: slot_def)
qed

end
