(* ===== verification/IaOps.thy ===== *)
theory IaOps
  imports IaCore "HOL-Library.Signed_Division"
begin

text \<open>
  The operations of an Array of Integers that move its elements (\<^verbatim>\<open>lib/sp_array.c\<close>): insertion and removal at an
  index, copies and slices, reversal and rotation. An array with a bitmap has its elements read out as
  values and nils (\<open>ia_pack\<close>), worked on and written back (\<open>ia_unpack\<close>).
\<close>

section \<open>Blocks of elements\<close>

text \<open>\<^verbatim>\<open>for (j = 0; j < n; j++) d[p + j] = d[p + j + k]\<close>, and the other way, one slot up.\<close>

definition copy_down :: "'a list \<Rightarrow> nat \<Rightarrow> nat \<Rightarrow> nat \<Rightarrow> 'a list outcome" where
  "copy_down d p k n = oloop (\<lambda>j d. obind (olift (ld d (p + j + k))) (\<lambda>v. olift (st d (p + j) v))) 0 n d"

fun copy_up :: "'a list \<Rightarrow> nat \<Rightarrow> nat \<Rightarrow> 'a list outcome" where
  "copy_up d p 0 = Done d"
| "copy_up d p (Suc n) = obind (olift (ld d (p + n))) (\<lambda>v. obind (olift (st d (p + Suc n) v)) (\<lambda>d. copy_up d p n))"

text \<open>The slots between \<open>i\<close> and \<open>j\<close> from \<open>s\<close> on, exchanged from the ends.\<close>

function swap_ends :: "'a list \<Rightarrow> nat \<Rightarrow> nat \<Rightarrow> nat \<Rightarrow> 'a list outcome" where
  "swap_ends d s i j =
     (if i < j then
        obind (olift (ld d (s + i))) (\<lambda>x. obind (olift (ld d (s + j))) (\<lambda>y.
        obind (olift (st d (s + i) y)) (\<lambda>d. obind (olift (st d (s + j) x)) (\<lambda>d. swap_ends d s (i + 1) (j - 1)))))
      else Done d)"
  by pat_completeness auto
termination by (relation "measure (\<lambda>(d, s, i, j). j - i)") auto

declare swap_ends.simps [simp del]

fun omap :: "('a \<Rightarrow> 'b outcome) \<Rightarrow> 'a list \<Rightarrow> 'b list outcome" where
  "omap f [] = Done []"
| "omap f (x # xs) = obind (f x) (\<lambda>y. obind (omap f xs) (\<lambda>ys. Done (y # ys)))"

definition on_data :: "IntArray \<Rightarrow> (int list \<Rightarrow> int list outcome) \<Rightarrow> IntArray outcome" where
  "on_data a f = obind (f (ia_data a)) (\<lambda>d. Done (a\<lparr>ia_data := d\<rparr>))"

text \<open>A nil reads as 0.\<close>

definition oint_v :: "int option \<Rightarrow> int" where
  "oint_v x = (case x of None \<Rightarrow> 0 | Some v \<Rightarrow> v)"

definition ia_pack :: "IntArray \<Rightarrow> int option list outcome" where
  "ia_pack a = omap (\<lambda>i. sp_IntArray_oget a (int i)) [0..<ia_len a]"

definition ia_unpack :: "IntArray \<Rightarrow> int option list \<Rightarrow> IntArray outcome" where
  "ia_unpack a p =
     obind (if_bits a (\<lambda>a. on_bits a (\<lambda>b. sp_nilbits_clear_range b (ia_start a) (ia_start a + ia_len a)))) (\<lambda>a.
     obind (oloop (\<lambda>i a. obind (put_data a (ia_start a + i) (oint_v (p ! i))) (\<lambda>a.
        if p ! i = None then NILBIT_SET_A (nilbits_need a) (ia_start a + i) else Done a)) 0 (length p) a) (\<lambda>a.
     Done (a\<lparr>ia_len := length p\<rparr>)))"

definition ia_bits_copy :: "IntArray \<Rightarrow> nat \<Rightarrow> IntArray \<Rightarrow> nat \<Rightarrow> nat \<Rightarrow> IntArray outcome" where
  "ia_bits_copy d dpos s spos n =
     (case ia_nilbits s of None \<Rightarrow> Done d
      | Some b \<Rightarrow> obind (olift (sp_nilbits_any b (ia_start s + spos) (ia_start s + spos + n))) (\<lambda>any.
          if \<not> any then Done d
          else oloop (\<lambda>i d. obind (olift (sp_nilbit_get b (ia_start s + spos + i))) (\<lambda>v.
                 if v then NILBIT_SET_A d (ia_start d + dpos + i) else Done d)) 0 n (nilbits_need d)))"

section \<open>At an index\<close>

definition sp_IntArray_unshift :: "(nat \<Rightarrow> int) \<Rightarrow> IntArray \<Rightarrow> int \<Rightarrow> IntArray outcome" where
  "sp_IntArray_unshift g a v =
     (if ia_frozen a then sp_raise_frozen_array
      else if ia_start a > 0 then
        let a = a\<lparr>ia_start := ia_start a - 1\<rparr>
        in obind (put_data a (ia_start a) v) (\<lambda>a. Done (a\<lparr>ia_len := ia_len a + 1\<rparr>))
      else let a = (if ia_len a + 1 > ia_cap a then sp_IntArray_set_cap g a (ia_cap a * 2 + 1) else a)
        in obind (on_data a (\<lambda>d. memmove d 1 0 (ia_len a))) (\<lambda>a.
           obind (if_bits a (\<lambda>a. NILBITS_MOVE_A a 0 1 (ia_len a))) (\<lambda>a.
           obind (put_data a 0 v) (\<lambda>a. Done (a\<lparr>ia_len := ia_len a + 1\<rparr>)))))"

definition sp_IntArray_unshift_nil :: "(nat \<Rightarrow> int) \<Rightarrow> IntArray \<Rightarrow> IntArray outcome" where
  "sp_IntArray_unshift_nil g a =
     obind (sp_IntArray_unshift g a 0) (\<lambda>a.
       if ia_frozen a then Done a else let a = nilbits_need a in NILBIT_SET_A a (ia_start a))"

definition sp_IntArray_delete_at_o :: "IntArray \<Rightarrow> int \<Rightarrow> (int option \<times> IntArray) outcome" where
  "sp_IntArray_delete_at_o a i =
     (let i = ia_index a i
      in if i < 0 \<or> i \<ge> int (ia_len a) then Done (None, a)
         else if ia_frozen a then sp_raise_frozen_array
         else let k = nat i in
           obind (sp_IntArray_oget a i) (\<lambda>v.
           obind (on_data a (\<lambda>d. copy_down d (ia_start a + k) 1 (ia_len a - 1 - k))) (\<lambda>a.
           obind (if_bits a (\<lambda>a. obind (on_bits a (\<lambda>b. sp_nilbit_clr b (ia_start a + k)))
             (\<lambda>a. NILBITS_MOVE_A a (ia_start a + k + 1) (ia_start a + k) (ia_len a - k - 1)))) (\<lambda>a.
           Done (v, a\<lparr>ia_len := ia_len a - 1\<rparr>)))))"

text \<open>\<^verbatim>\<open>while (i > a->len) sp_IntArray_push_nil(a)\<close>: one nil for each missing element.\<close>

definition pad_nils :: "(nat \<Rightarrow> int) \<Rightarrow> IntArray \<Rightarrow> nat \<Rightarrow> IntArray outcome" where
  "pad_nils g a i = oloop (\<lambda>_ a. sp_IntArray_push_nil g a) 0 (i - ia_len a) a"

definition insert_index :: "IntArray \<Rightarrow> int \<Rightarrow> int" where
  "insert_index a i = (if i < 0 then i + int (ia_len a) + 1 else i)"

definition sp_IntArray_insert :: "(nat \<Rightarrow> int) \<Rightarrow> IntArray \<Rightarrow> int \<Rightarrow> int \<Rightarrow> IntArray outcome" where
  "sp_IntArray_insert g a i v =
     (if ia_frozen a then sp_raise_frozen_array
      else let j = insert_index a i
        in if j < 0 then oraise ''IndexError''
             (''index '' @ dec_int i @ '' too small for array; minimum: '' @ dec_int (- (int (ia_len a) + 1)))
           else let k = nat j in
             obind (pad_nils g a k) (\<lambda>a.
             obind (sp_IntArray_push g a 0) (\<lambda>a.
             obind (on_data a (\<lambda>d. copy_up d (ia_start a + k) (ia_len a - 1 - k))) (\<lambda>a.
             obind (if_bits a (\<lambda>a. NILBITS_MOVE_A a (ia_start a + k) (ia_start a + k + 1) (ia_len a - 1 - k))) (\<lambda>a.
             put_data a (ia_start a + k) v)))))"

definition sp_IntArray_insert_nil :: "(nat \<Rightarrow> int) \<Rightarrow> IntArray \<Rightarrow> int \<Rightarrow> IntArray outcome" where
  "sp_IntArray_insert_nil g a i =
     (let j = insert_index a i
      in obind (sp_IntArray_insert g a i 0) (\<lambda>a.
           if ia_frozen a \<or> j < 0 then Done a else let a = nilbits_need a in NILBIT_SET_A a (ia_start a + nat j)))"

section \<open>Copies\<close>

text \<open>The elements \<open>spos\<close> to \<open>spos + n\<close> of \<open>s\<close> into an empty array.\<close>

definition copy_into :: "(nat \<Rightarrow> int) \<Rightarrow> IntArray \<Rightarrow> IntArray \<Rightarrow> nat \<Rightarrow> nat \<Rightarrow> IntArray outcome" where
  "copy_into g b s spos n =
     (let b = (if n > ia_cap b then sp_IntArray_set_cap g b n else b)
      in obind (mread (ia_data s) (ia_start s + spos) n) (\<lambda>w.
         obind (on_data b (\<lambda>d. mput d 0 w)) (\<lambda>b. ia_bits_copy (b\<lparr>ia_len := n\<rparr>) 0 s spos n)))"

definition sp_IntArray_dup :: "(nat \<Rightarrow> int) \<Rightarrow> IntArray \<Rightarrow> IntArray outcome" where
  "sp_IntArray_dup g a = copy_into g (sp_IntArray_new g) a 0 (ia_len a)"

definition sp_IntArray_slice :: "(nat \<Rightarrow> int) \<Rightarrow> IntArray \<Rightarrow> int \<Rightarrow> int \<Rightarrow> IntArray outcome" where
  "sp_IntArray_slice g a start len =
     (let start = ia_index a start; start = (if start < 0 then 0 else start); b = sp_IntArray_new g
      in if start \<ge> int (ia_len a) \<or> len \<le> 0 then Done b
         else let len = (if len > int (ia_len a) - start then int (ia_len a) - start else len)
              in copy_into g b a (nat start) (nat len))"

definition sp_IntArray_slice_range :: "(nat \<Rightarrow> int) \<Rightarrow> IntArray \<Rightarrow> int \<Rightarrow> int \<Rightarrow> bool \<Rightarrow> IntArray option outcome" where
  "sp_IntArray_slice_range g a start fin excl =
     (let fin = ia_index a fin; start = ia_index a start
      in if start < 0 \<or> start > int (ia_len a) then Done None
         else let n = fin - start + (if excl then 0 else 1)
              in if \<not> in_i64 n then Undef
                 else obind (sp_IntArray_slice g a start (if n < 0 then 0 else n)) (\<lambda>b. Done (Some b)))"

definition sp_IntArray_replace :: "(nat \<Rightarrow> int) \<Rightarrow> IntArray \<Rightarrow> IntArray \<Rightarrow> IntArray outcome" where
  "sp_IntArray_replace g dst src =
     (if ia_frozen dst then sp_raise_frozen_array
      else copy_into g (sp_IntArray_drop_nilbits (dst\<lparr>ia_len := 0, ia_start := 0\<rparr>)) src 0 (ia_len src))"

section \<open>Permutations\<close>

definition sp_IntArray_reverse_bang :: "IntArray \<Rightarrow> IntArray outcome" where
  "sp_IntArray_reverse_bang a =
     (if ia_frozen a then sp_raise_frozen_array
      else if ia_nilbits a \<noteq> None then
        obind (ia_pack a) (\<lambda>p. obind (swap_ends p 0 0 (ia_len a - 1)) (ia_unpack a))
      else on_data a (\<lambda>d. swap_ends d (ia_start a) 0 (ia_len a - 1)))"

definition rotate_room :: "(nat \<Rightarrow> int) \<Rightarrow> IntArray \<Rightarrow> nat \<Rightarrow> IntArray outcome" where
  "rotate_room g a n =
     obind (if ia_start a + ia_len a + n > ia_cap a \<and> ia_len a + n \<le> ia_cap a \<and> ia_start a > 0
        then obind (on_data a (\<lambda>d. memmove d 0 (ia_start a) (ia_len a))) (\<lambda>a. Done (a\<lparr>ia_start := 0\<rparr>)) else Done a) (\<lambda>a.
     if ia_start a + ia_len a + n > ia_cap a \<and> ia_len a + n > ia_cap a \<and> ia_len a \<le> 256
     then let nc = ia_len a * 2 + n
          in obind (mread (ia_data a) (ia_start a) (ia_len a)) (\<lambda>w.
             obind (mput (map g [0..<nc]) 0 w) (\<lambda>nd. Done (a\<lparr>ia_data := nd, ia_start := 0, ia_cap := nc\<rparr>)))
     else Done a)"

text \<open>The two block moves in place; the side that is kept is the smaller one.\<close>

definition rotate_place :: "IntArray \<Rightarrow> nat \<Rightarrow> IntArray outcome" where
  "rotate_place a n =
     (let s = ia_start a; rest = ia_len a - n
      in on_data a (\<lambda>d.
         if n \<le> rest then obind (mread d s n) (\<lambda>t. obind (memmove d s (s + n) rest) (\<lambda>d. mput d (s + rest) t))
         else obind (mread d (s + n) rest) (\<lambda>t. obind (memmove d (s + rest) s n) (\<lambda>d. mput d s t))))"

definition sp_IntArray_rotate_bang :: "(nat \<Rightarrow> int) \<Rightarrow> IntArray \<Rightarrow> int \<Rightarrow> IntArray outcome" where
  "sp_IntArray_rotate_bang g a n =
     (if ia_frozen a then sp_raise_frozen_array
      else if ia_len a = 0 then Done a
      else let n = (if n < 0 \<or> n \<ge> int (ia_len a) then (n smod int (ia_len a) + int (ia_len a)) smod int (ia_len a) else n); n = nat n
        in if n = 0 then Done a
           else if ia_nilbits a \<noteq> None then
             obind (ia_pack a) (\<lambda>p. obind (omap (\<lambda>i. olift (ld p ((i + n) mod ia_len a))) [0..<ia_len a]) (ia_unpack a))
           else obind (rotate_room g a n) (\<lambda>a.
             if ia_start a + ia_len a + n \<le> ia_cap a
             then obind (on_data a (\<lambda>d. obind (mread d (ia_start a) n) (mput d (ia_start a + ia_len a)))) (\<lambda>a. Done (a\<lparr>ia_start := ia_start a + n\<rparr>))
             else rotate_place a n))"

section \<open>What the block moves do\<close>

lemma olift_Some [simp]: "olift (Some x) = Done x"
  by (simp add: olift_def)

lemma copy_down_ok:
  assumes "p + k + n \<le> length d" "0 < k"
  shows "odone (\<lambda>d'. length d' = length d \<and> (\<forall>q < length d. d' ! q = (if p \<le> q \<and> q < p + n then d ! (q + k) else d ! q))) (copy_down d p k n)"
proof -
  let ?I = "\<lambda>j d'. length d' = length d \<and> (\<forall>q < length d. d' ! q = (if p \<le> q \<and> q < p + j then d ! (q + k) else d ! q))"
  have "odone (?I (0 + n)) (copy_down d p k n)" unfolding copy_down_def
    by (rule odone_oloop) (use assms in \<open>auto simp: nth_list_update less_Suc_eq\<close>)
  then show ?thesis by simp
qed

lemma copy_up_ok:
  "p + n < length d \<Longrightarrow>
     odone (\<lambda>d'. length d' = length d \<and> (\<forall>q < length d. d' ! q = (if p < q \<and> q \<le> p + n then d ! (q - 1) else d ! q))) (copy_up d p n)"
proof (induction n arbitrary: d)
  case (Suc n)
  let ?d = "d[p + Suc n := d ! (p + n)]"
  have "copy_up d p (Suc n) = copy_up ?d p n" using Suc.prems by simp
  moreover have "odone (\<lambda>d'. length d' = length ?d \<and> (\<forall>q < length ?d. d' ! q = (if p < q \<and> q \<le> p + n then ?d ! (q - 1) else ?d ! q))) (copy_up ?d p n)"
    by (rule Suc.IH) (use Suc.prems in simp)
  ultimately show ?case by (auto simp: nth_list_update le_Suc_eq elim!: odone_mono)
qed auto

lemma swap_ends_ok:
  "s + j < length d \<or> \<not> i < j \<Longrightarrow>
     odone (\<lambda>d'. length d' = length d \<and> (\<forall>q < length d. d' ! q = (if s + i \<le> q \<and> q \<le> s + j then d ! (s + i + (s + j) - q) else d ! q))) (swap_ends d s i j)"
proof (induction d s i j rule: swap_ends.induct)
  case (1 d s i j)
  show ?case
  proof (cases "i < j")
    case True
    let ?d = "d[s + i := d ! (s + j), s + j := d ! (s + i)]"
    have e: "swap_ends d s i j = swap_ends ?d s (i + 1) (j - 1)" using True 1(2) by (simp add: swap_ends.simps [of d])
    have "odone (\<lambda>d'. length d' = length ?d \<and> (\<forall>q < length ?d. d' ! q = (if s + (i + 1) \<le> q \<and> q \<le> s + (j - 1) then ?d ! (s + (i + 1) + (s + (j - 1)) - q) else ?d ! q)))
      (swap_ends ?d s (i + 1) (j - 1))"
      by (rule 1(1) [OF True]) (use 1(2) True in \<open>auto simp: olift_def\<close>)
    then show ?thesis unfolding e using True 1(2) by (auto simp: nth_list_update elim!: odone_mono)
  next
    case False
    then show ?thesis by (auto simp: swap_ends.simps [of d] intro: arg_cong [where f = "(!) d"])
  qed
qed

lemma memmove_ok:
  assumes "src + n \<le> length d" "dst + n \<le> length d"
  shows "odone (\<lambda>d'. length d' = length d \<and> (\<forall>q < length d. d' ! q = (if dst \<le> q \<and> q < dst + n then d ! (q - dst + src) else d ! q))) (memmove d dst src n)"
  using assms by (auto simp: memmove_def mread_def mput_def nth_append min_def add.commute intro: arg_cong [where f = "(!) d"])

lemma mput_ok:
  assumes "p + length w \<le> length d"
  shows "odone (\<lambda>d'. length d' = length d \<and> (\<forall>q < length d. d' ! q = (if p \<le> q \<and> q < p + length w then w ! (q - p) else d ! q))) (mput d p w)"
  using assms by (auto simp: mput_def nth_append min_def intro: arg_cong [where f = "(!) d"])

lemma mread_ok: "p + n \<le> length d \<Longrightarrow> odone (\<lambda>w. length w = n \<and> (\<forall>q < n. w ! q = d ! (p + q))) (mread d p n)"
  by (simp add: mread_def)

lemma omap_ok: "(\<And>x. x \<in> set xs \<Longrightarrow> f x = Done (h x)) \<Longrightarrow> omap f xs = Done (map h xs)"
  by (induction xs) auto

lemma on_data_ok:
  assumes "odone P (f (ia_data a))"
  shows "odone (\<lambda>a'. \<exists>d. P d \<and> a' = a\<lparr>ia_data := d\<rparr>) (on_data a f)"
  using assms unfolding on_data_def by (rule odone_bind) auto

section \<open>Reading out and writing back\<close>

lemma at_index_nth: "i < length xs \<Longrightarrow> at_index xs (int i) = xs ! i"
  by (simp add: at_index_def)

lemma in_i64_nat: "int n < 2 ^ 63 \<Longrightarrow> in_i64 (int n)"
  by (simp add: in_i64_def INT64_MIN_def INT64_MAX_def)

lemma oget_nth:
  assumes "becomes fr xs a" "i < length xs" "int (length xs) < 2 ^ 63"
  shows "sp_IntArray_oget a (int i) = Done (xs ! i)"
proof -
  have "in_i64 (int i)" using assms by (intro in_i64_nat) linarith
  then show ?thesis using oget_at [OF assms(1) _ assms(3)] at_index_nth [OF assms(2)] by simp
qed

lemma ia_pack_ok:
  assumes "becomes fr xs a" "int (length xs) < 2 ^ 63"
  shows "ia_pack a = Done xs"
proof -
  have "ia_pack a = Done (map ((!) xs) [0..<ia_len a])" unfolding ia_pack_def
    by (rule omap_ok) (use oget_nth [OF assms(1) _ assms(2)] becomesD(4) [OF assms(1)] in auto)
  then show ?thesis using becomesD(4) [OF assms(1)] by (simp add: map_nth)
qed

lemma unpack_loop:
  assumes "ia_shape a" "nils a = {}" "ia_start a + length p \<le> ia_cap a"
  shows "odone (\<lambda>a'. becomes (ia_frozen a) p (a'\<lparr>ia_len := length p\<rparr>))
    (oloop (\<lambda>i a. obind (put_data a (ia_start a + i) (oint_v (p ! i))) (\<lambda>a.
        if p ! i = None then NILBIT_SET_A (nilbits_need a) (ia_start a + i) else Done a)) 0 (length p) a)"
proof -
  let ?I = "\<lambda>j b. becomes (ia_frozen a) (take j p) (b\<lparr>ia_len := j\<rparr>) \<and> ia_start b = ia_start a \<and> ia_cap b = ia_cap a"
  have "odone (?I (0 + length p)) (oloop (\<lambda>i a. obind (put_data a (ia_start a + i) (oint_v (p ! i))) (\<lambda>a.
        if p ! i = None then NILBIT_SET_A (nilbits_need a) (ia_start a + i) else Done a)) 0 (length p) a)"
  proof (rule odone_oloop)
    show "?I 0 a" using assms by (auto intro!: becomesI simp: ia_shape_def)
    fix j b assume j: "j < 0 + length p" and I: "?I j b"
    let ?b = "b\<lparr>ia_data := (ia_data b)[ia_start b + j := oint_v (p ! j)]\<rparr>"
    have b: "ia_shape b" "ia_start b + j < ia_cap b" using I j assms by (auto simp: becomes_def ia_inv_def)
    have P: "becomes (ia_frozen a) (take j p @ [Some (oint_v (p ! j))]) (?b\<lparr>ia_len := Suc j\<rparr>)"
      using put_end [of "b\<lparr>ia_len := j\<rparr>" "oint_v (p ! j)"] I b(2) by (simp add: becomes_def)
    have T: "take (Suc j) p = take j p @ [p ! j]" using j by (simp add: take_Suc_conv_app_nth)
    show "odone (?I (Suc j)) (obind (put_data b (ia_start b + j) (oint_v (p ! j))) (\<lambda>a.
        if p ! j = None then NILBIT_SET_A (nilbits_need a) (ia_start a + j) else Done a))"
    proof (cases "p ! j")
      case (Some v)
      then show ?thesis using P T I b by (simp add: oint_v_def)
    next
      case None
      let ?N = "nilbits_need ?b"
      have s: "ia_shape ?b" using b by simp
      have n: "bits_to' ?b (nils ?b) ?N" using nilbits_need_to [OF s] .
      have "odone (bits_to' ?N (insert (ia_start b + j) (nils ?N))) (NILBIT_SET_A ?N (ia_start b + j))"
        using n b by (intro NILBIT_SET_A_to) (auto simp: bits_to'_def bits_to_def)
      moreover have "?I (Suc j) a'" if "bits_to' ?N (insert (ia_start b + j) (nils ?N)) a'" for a'
      proof -
        have e: "nils a' = insert (ia_start b + j) (nils b)" "ia_data a' = ia_data ?b" "ia_start a' = ia_start b" "ia_cap a' = ia_cap b"
            "ia_frozen a' = ia_frozen b" "ia_shape a'"
          using that n by (auto simp: bits_to'_def bits_to_def)
        have w: "nils b \<subseteq> {ia_start b..<ia_start b + j}" "\<forall>p \<in> nils b. ia_data b ! p = 0" "ia_frozen b = ia_frozen a" "length (ia_data b) = ia_cap b"
          using I by (auto simp: becomes_def ia_inv_def ia_shape_def)
        have "becomes (ia_frozen a) (take j p @ [None]) (a'\<lparr>ia_len := Suc j\<rparr>)"
        proof (rule becomesI)
          fix q assume "q < length (take j p @ [None])"
          then show "(take j p @ [None]) ! q = slot (a'\<lparr>ia_len := Suc j\<rparr>) (ia_start (a'\<lparr>ia_len := Suc j\<rparr>) + q)"
            using e w j conjunct1 [OF I, THEN becomes_nth, of q] by (auto simp: slot_def nth_append less_Suc_eq)
        qed (use e w b j None in \<open>auto simp: nth_list_update oint_v_def\<close>)
        then show ?thesis using e I T None by simp
      qed
      ultimately have "odone (?I (Suc j)) (NILBIT_SET_A ?N (ia_start b + j))" by (rule odone_mono)
      then show ?thesis using None b by simp
    qed
  qed
  then show ?thesis by (auto elim!: odone_mono)
qed

lemma ia_unpack_becomes:
  assumes "becomes fr xs a" "length p \<le> length xs"
  shows "odone (becomes fr p) (ia_unpack a p)"
proof -
  have l: "ia_len a = length xs" "ia_shape a" "nils a \<subseteq> {ia_start a..<ia_start a + length xs}" "ia_start a + length xs \<le> ia_cap a" "ia_frozen a = fr"
    using becomesD(1,3,4) [OF assms(1)] by (auto simp: ia_inv_def)
  then have "nils a - {ia_start a..<ia_start a + length xs} = {}" by blast
  then have clr: "odone (bits_to a {}) (if_bits a (\<lambda>a. on_bits a (\<lambda>b. sp_nilbits_clear_range b (ia_start a) (ia_start a + ia_len a))))"
    using clear_range_to [OF l(2) _ l(4), of "ia_start a"] l(1,2) by (auto simp: if_bits_def bits_to'_def bits_to_def elim!: odone_mono)
  have put: "odone (\<lambda>a'. becomes fr p (a'\<lparr>ia_len := length p\<rparr>)) (oloop (\<lambda>i a. obind (put_data a (ia_start a + i) (oint_v (p ! i))) (\<lambda>a.
        if p ! i = None then NILBIT_SET_A (nilbits_need a) (ia_start a + i) else Done a)) 0 (length p) b)" if "bits_to a {} b" for b
    using unpack_loop [of b p] that l assms(2) by (simp add: bits_to_def)
  show ?thesis unfolding ia_unpack_def by (rule odone_bind [OF clr]) (simp only: odone_simps put)
qed

section \<open>At the front\<close>

lemma unshift_becomes:
  assumes "becomes False xs a"
  shows "odone (becomes False (Some v # xs)) (sp_IntArray_unshift g a v)"
proof -
  have l: "ia_len a = length xs" "ia_shape a" "nils a \<subseteq> {ia_start a..<ia_start a + length xs}" "ia_start a + length xs \<le> ia_cap a" "\<not> ia_frozen a"
      "\<forall>p \<in> nils a. ia_data a ! p = 0" "length (ia_data a) = ia_cap a" "0 < ia_cap a"
    using becomesD(1,3,4) [OF assms] by (auto simp: ia_inv_def ia_shape_def)
  show ?thesis
  proof (cases "ia_start a > 0")
    case True
    then obtain s where s: "ia_start a = Suc s" by (cases "ia_start a") auto
    let ?b = "a\<lparr>ia_start := s, ia_data := (ia_data a)[s := v], ia_len := Suc (ia_len a)\<rparr>"
    have "becomes False (Some v # xs) ?b"
    proof (rule becomesI)
      fix i assume i: "i < length (Some v # xs)"
      show "(Some v # xs) ! i = slot ?b (ia_start ?b + i)"
      proof (cases i)
        case 0
        then show ?thesis using l s by (auto simp: slot_def)
      next
        case (Suc j)
        then show ?thesis using becomes_nth [OF assms, of j] i s by (simp add: slot_def)
      qed
    qed (use l s in \<open>auto simp: nth_list_update\<close>)
    then show ?thesis using l s by (simp add: sp_IntArray_unshift_def)
  next
    case False
    define b where "b = (if ia_len a + 1 > ia_cap a then sp_IntArray_set_cap g a (ia_cap a * 2 + 1) else a)"
    have B: "becomes False xs b" "ia_start b = 0" "length xs < ia_cap b"
      using set_cap_becomes [of a "ia_cap a * 2 + 1" g] assms l False by (auto simp: b_def becomes_def)
    have k: "ia_len b = length xs" "ia_shape b" "nils b \<subseteq> {0..<length xs}" "\<not> ia_frozen b" "\<forall>p \<in> nils b. ia_data b ! p = 0" "length (ia_data b) = ia_cap b"
      using becomesD(1,3,4) [OF B(1)] B(2) by (auto simp: ia_inv_def ia_shape_def)
    have "odone (\<lambda>d. length d = ia_cap b \<and> (\<forall>i < length xs. d ! Suc i = ia_data b ! i)) (memmove (ia_data b) 1 0 (length xs))"
      by (rule odone_mono [OF memmove_ok]) (use k B in auto)
    then obtain d where d: "memmove (ia_data b) 1 0 (length xs) = Done d" "length d = ia_cap b" "\<forall>i < length xs. d ! Suc i = ia_data b ! i" by (auto simp: odone_def)
    let ?c = "b\<lparr>ia_data := d\<rparr>" and ?S = "Suc ` nils b"
    have sh: "ia_shape ?c" using k d by simp
    have "odone (bits_to ?c ?S) (if_bits ?c (\<lambda>a. NILBITS_MOVE_A a 0 1 (ia_len a)))"
    proof (cases "ia_nilbits b = None")
      case False
      have "odone (bits_to' ?c ((nils ?c - {0..<0 + length xs} - {1..<1 + length xs}) \<union> {1 + i | i. i < length xs \<and> 0 + i \<in> nils ?c})) (NILBITS_MOVE_A ?c 0 1 (length xs))"
        using sh False k B by (intro NILBITS_MOVE_A_to) auto
      moreover have "(nils ?c - {0..<0 + length xs} - {1..<1 + length xs}) \<union> {1 + i | i. i < length xs \<and> 0 + i \<in> nils ?c} = ?S" using k(3) by auto
      ultimately show ?thesis using False k(1) by (auto simp: if_bits_def bits_to'_def elim!: odone_mono)
    qed (use sh in \<open>simp add: if_bits_def bits_to_def\<close>)
    then obtain e where e: "if_bits ?c (\<lambda>a. NILBITS_MOVE_A a 0 1 (ia_len a)) = Done e" "bits_to ?c ?S e" by (auto simp: odone_def)
    let ?e = "e\<lparr>ia_data := (ia_data e)[0 := v], ia_len := ia_len e + 1\<rparr>"
    have f: "ia_shape e" "nils e = ?S" "ia_data e = d" "ia_start e = 0" "ia_len e = length xs" "ia_cap e = ia_cap b" "\<not> ia_frozen e"
      using e(2) B k by (auto simp: bits_to_def)
    have "becomes False (Some v # xs) ?e"
    proof (rule becomesI)
      fix i assume i: "i < length (Some v # xs)"
      show "(Some v # xs) ! i = slot ?e (ia_start ?e + i)"
        using i f d(2,3) B becomes_nth [OF B(1)] by (cases i) (auto simp: slot_def)
    qed (use f k d B in auto)
    moreover have "put_data e 0 v = Done (e\<lparr>ia_data := (ia_data e)[0 := v]\<rparr>)" using f B by (intro put_data_ok) auto
    ultimately show ?thesis using False l(5) d(1) e(1) k(1) unfolding sp_IntArray_unshift_def Let_def b_def [symmetric]
      by (simp add: on_data_def)
  qed
qed

lemma start_nilbits_need [simp]: "ia_start (nilbits_need a) = ia_start a"
  by (simp add: nilbits_need_def NILBITS_NEW_A_def)

lemma unshift_nil_becomes:
  assumes "becomes False xs a"
  shows "odone (becomes False (None # xs)) (sp_IntArray_unshift_nil g a)"
  unfolding sp_IntArray_unshift_nil_def
proof (rule odone_bind [OF unshift_becomes [OF assms]])
  fix b assume b: "becomes False (Some 0 # xs) b"
  show "odone (becomes False (None # xs)) (if ia_frozen b then Done b else let a = nilbits_need b in NILBIT_SET_A a (ia_start a))"
    using mark_becomes [OF b, of 0] becomesD(3) [OF b] by (simp add: Let_def)
qed

section \<open>At an index\<close>

lemma bits_to_trans: "bits_to' a S b \<Longrightarrow> bits_to' b T c \<Longrightarrow> bits_to a T c"
  by (simp add: bits_to'_def bits_to_def)

definition remove_nth :: "nat \<Rightarrow> 'a list \<Rightarrow> 'a list" where
  "remove_nth k xs = take k xs @ drop (Suc k) xs"

definition insert_nth :: "nat \<Rightarrow> 'a \<Rightarrow> 'a list \<Rightarrow> 'a list" where
  "insert_nth k x xs = take k xs @ x # drop k xs"

lemma length_remove_nth: "k < length xs \<Longrightarrow> length (remove_nth k xs) = length xs - 1"
  by (simp add: remove_nth_def)

lemma remove_nth_nth: "k < length xs \<Longrightarrow> i < length xs - 1 \<Longrightarrow> remove_nth k xs ! i = (if i < k then xs ! i else xs ! Suc i)"
  by (auto simp: remove_nth_def nth_append min_def)

lemma delete_at_becomes:
  assumes "becomes False xs a" "k < length xs" "int (length xs) < 2 ^ 63" "norm_index xs i = int k"
  shows "odone (\<lambda>r. fst r = xs ! k \<and> becomes False (remove_nth k xs) (snd r)) (sp_IntArray_delete_at_o a i)"
proof -
  obtain n where n: "length xs = Suc n" "k \<le> n" using assms(2) by (cases xs) auto
  have l: "ia_len a = Suc n" "ia_shape a" "nils a \<subseteq> {ia_start a..<ia_start a + Suc n}" "ia_start a + Suc n \<le> ia_cap a" "\<not> ia_frozen a"
      "\<forall>p \<in> nils a. ia_data a ! p = 0" "length (ia_data a) = ia_cap a"
    using becomesD(1,3,4) [OF assms(1)] n by (auto simp: ia_inv_def ia_shape_def)
  have w: "\<And>p. p \<in> nils a \<Longrightarrow> ia_start a \<le> p \<and> p < ia_start a + Suc n" using l(3) by auto
  let ?s = "ia_start a + k"
  obtain d where d: "copy_down (ia_data a) ?s 1 (n - k) = Done d" "length d = ia_cap a"
      "\<And>q. q < ia_cap a \<Longrightarrow> d ! q = (if ?s \<le> q \<and> q < ?s + (n - k) then ia_data a ! (q + 1) else ia_data a ! q)"
    using copy_down_ok [of ?s 1 "n - k" "ia_data a"] l n by (auto simp: odone_def)
  let ?c = "a\<lparr>ia_data := d\<rparr>"
  let ?S = "{p. p \<in> nils a \<and> p < ?s} \<union> {p. Suc p \<in> nils a \<and> ?s \<le> p}"
  have sh: "ia_shape ?c" using l d by simp
  have "odone (bits_to ?c ?S) (if_bits ?c (\<lambda>a. obind (on_bits a (\<lambda>b. sp_nilbit_clr b (ia_start a + k)))
      (\<lambda>a. NILBITS_MOVE_A a (ia_start a + k + 1) (ia_start a + k) (ia_len a - k - 1))))"
  proof (cases "ia_nilbits a = None")
    case False
    have "odone (bits_to ?c ?S) (NILBITS_MOVE_A e (ia_start e + k + 1) (ia_start e + k) (ia_len e - k - 1))"
      if e: "bits_to' ?c (nils ?c - {?s}) e \<and> ia_nil_lo e = ia_nil_lo ?c" for e
    proof -
      have f: "ia_start e = ia_start a" "ia_len e = Suc n" "ia_cap e = ia_cap a" "ia_shape e" "ia_nilbits e \<noteq> None" "nils e = nils a - {?s}"
        using e l by (auto simp: bits_to'_def bits_to_def)
      have "odone (bits_to' e ((nils e - {?s + 1..<?s + 1 + (n - k)} - {?s..<?s + (n - k)}) \<union> {?s + i | i. i < n - k \<and> ?s + 1 + i \<in> nils e}))
        (NILBITS_MOVE_A e (?s + 1) ?s (n - k))" using f l n by (intro NILBITS_MOVE_A_to) auto
      moreover have "(nils e - {?s + 1..<?s + 1 + (n - k)} - {?s..<?s + (n - k)}) \<union> {?s + i | i. i < n - k \<and> ?s + 1 + i \<in> nils e} = ?S"
        unfolding f(6)
      proof (intro set_eqI iffI)
        fix p assume "p \<in> ?S"
        then consider "p \<in> nils a" "p < ?s" | "Suc p \<in> nils a" "?s \<le> p" by auto
        then show "p \<in> ((nils a - {?s}) - {?s + 1..<?s + 1 + (n - k)} - {?s..<?s + (n - k)}) \<union> {?s + i | i. i < n - k \<and> ?s + 1 + i \<in> nils a - {?s}}"
        proof cases
          case 2
          then have "p = ?s + (p - ?s)" "p - ?s < n - k" "?s + 1 + (p - ?s) \<in> nils a - {?s}" using l(3) n by (auto dest!: subsetD)
          then show ?thesis by blast
        qed simp
      qed (use l(3) n in \<open>auto dest!: subsetD\<close>)
      ultimately have "odone (bits_to' e ?S) (NILBITS_MOVE_A e (?s + 1) ?s (n - k))" by (simp only:)
      then have "odone (bits_to ?c ?S) (NILBITS_MOVE_A e (?s + 1) ?s (n - k))" by (rule odone_mono) (rule bits_to_trans, use e in blast)
      then show ?thesis using f by simp
    qed
    moreover have "odone (\<lambda>e. bits_to' ?c (nils ?c - {?s}) e \<and> ia_nil_lo e = ia_nil_lo ?c) (on_bits ?c (\<lambda>b. sp_nilbit_clr b (ia_start ?c + k)))"
      using clr_bit_to [OF sh, of ?s] False l n by simp
    ultimately show ?thesis using False unfolding if_bits_def by (auto simp: odone_bind simp del: odone_simps)
  qed (use sh in \<open>simp add: if_bits_def bits_to_def\<close>)
  then obtain e where e: "if_bits ?c (\<lambda>a. obind (on_bits a (\<lambda>b. sp_nilbit_clr b (ia_start a + k)))
      (\<lambda>a. NILBITS_MOVE_A a (ia_start a + k + 1) (ia_start a + k) (ia_len a - k - 1))) = Done e" "bits_to ?c ?S e" by (auto simp: odone_def)
  have f: "ia_shape e" "nils e = ?S" "ia_data e = d" "ia_start e = ia_start a" "ia_len e = Suc n" "ia_cap e = ia_cap a" "\<not> ia_frozen e"
    using e(2) l by (auto simp: bits_to_def)
  have "becomes False (remove_nth k xs) (e\<lparr>ia_len := n\<rparr>)"
  proof (rule becomesI)
    fix i assume "i < length (remove_nth k xs)"
    then have i: "i < n" using n by (simp add: length_remove_nth)
    show "remove_nth k xs ! i = slot (e\<lparr>ia_len := n\<rparr>) (ia_start (e\<lparr>ia_len := n\<rparr>) + i)"
      using i n f l d(3) [of "ia_start a + i"] becomes_nth [OF assms(1), of i] becomes_nth [OF assms(1), of "Suc i"] by (auto simp: remove_nth_nth slot_def)
  next
    show "nils (e\<lparr>ia_len := n\<rparr>) \<subseteq> {ia_start (e\<lparr>ia_len := n\<rparr>)..<ia_start (e\<lparr>ia_len := n\<rparr>) + length (remove_nth k xs)}"
      using f n w by (force simp: length_remove_nth)
    fix p assume "p \<in> nils (e\<lparr>ia_len := n\<rparr>)"
    then show "ia_data (e\<lparr>ia_len := n\<rparr>) ! p = 0" using f l(6) w [of p] w [of "Suc p"] l(4) d(3) [of p] n by auto
  qed (use f l n d in \<open>auto simp: length_remove_nth\<close>)
  moreover have "sp_IntArray_oget a (int k) = Done (xs ! k)" using oget_nth [OF assms(1,2,3)] .
  ultimately show ?thesis using l(1,5) n d(1) e(1) f(5)
    unfolding sp_IntArray_delete_at_o_def ia_index_norm [OF assms(1)] assms(4) by (simp add: on_data_def)
qed

lemma length_insert_nth [simp]: "k \<le> length xs \<Longrightarrow> length (insert_nth k x xs) = Suc (length xs)"
  by (simp add: insert_nth_def)

lemma insert_nth_nth:
  "k \<le> length xs \<Longrightarrow> i \<le> length xs \<Longrightarrow> insert_nth k x xs ! i = (if i < k then xs ! i else if i = k then x else xs ! (i - 1))"
  by (auto simp: insert_nth_def nth_append nth_Cons' min_def)

lemma pad_nils_becomes:
  assumes "becomes False xs a"
  shows "odone (becomes False (xs @ replicate (k - length xs) None)) (pad_nils g a k)"
proof -
  have "odone (becomes False (xs @ replicate (0 + (k - length xs)) None)) (oloop (\<lambda>_ a. sp_IntArray_push_nil g a) 0 (k - length xs) a)"
    using assms push_nil_becomes by (intro odone_oloop [where I = "\<lambda>j. becomes False (xs @ replicate j None)"])
      (auto simp: replicate_append_same [symmetric] simp flip: append_assoc)
  then show ?thesis using becomesD(4) [OF assms] by (simp add: pad_nils_def)
qed

text \<open>The bits from \<open>s\<close> on, one slot up.\<close>

lemma bits_up:
  assumes "ia_shape a" "\<And>p. p \<in> nils a \<Longrightarrow> p < s + m" "s + m + 1 \<le> ia_cap a"
  shows "odone (bits_to a ({p. p \<in> nils a \<and> p < s} \<union> {Suc p | p. p \<in> nils a \<and> s \<le> p})) (if_bits a (\<lambda>a. NILBITS_MOVE_A a s (s + 1) m))"
proof (cases "ia_nilbits a = None")
  case False
  let ?S = "{p. p \<in> nils a \<and> p < s} \<union> {Suc p | p. p \<in> nils a \<and> s \<le> p}"
  have "odone (bits_to' a ((nils a - {s..<s + m} - {s + 1..<s + 1 + m}) \<union> {s + 1 + i | i. i < m \<and> s + i \<in> nils a})) (NILBITS_MOVE_A a s (s + 1) m)"
    using assms False by (intro NILBITS_MOVE_A_to) auto
  moreover have "(nils a - {s..<s + m} - {s + 1..<s + 1 + m}) \<union> {s + 1 + i | i. i < m \<and> s + i \<in> nils a} = ?S"
  proof (intro set_eqI iffI)
    fix p assume "p \<in> ?S"
    then consider "p \<in> nils a" "p < s" | q where "p = Suc q" "q \<in> nils a" "s \<le> q" by auto
    then show "p \<in> (nils a - {s..<s + m} - {s + 1..<s + 1 + m}) \<union> {s + 1 + i | i. i < m \<and> s + i \<in> nils a}"
    proof cases
      case 2
      then have "p = s + 1 + (q - s)" "q - s < m" "s + (q - s) \<in> nils a" using assms(2) [of q] by auto
      then show ?thesis by blast
    qed simp
  qed (use assms(2) in force)
  ultimately have "odone (bits_to' a ?S) (NILBITS_MOVE_A a s (s + 1) m)" by (simp only:)
  then have "odone (bits_to a ?S) (NILBITS_MOVE_A a s (s + 1) m)" by (rule odone_mono) (simp add: bits_to'_def)
  then show ?thesis using False by (auto simp: if_bits_def)
qed (use assms(1) in \<open>simp add: if_bits_def bits_to_def\<close>)

lemma insert_hole:
  assumes "becomes False (ys @ [Some w]) a" "k \<le> length ys"
  shows "odone (becomes False (insert_nth k (Some v) ys))
    (obind (on_data a (\<lambda>d. copy_up d (ia_start a + k) (ia_len a - 1 - k))) (\<lambda>a.
     obind (if_bits a (\<lambda>a. NILBITS_MOVE_A a (ia_start a + k) (ia_start a + k + 1) (ia_len a - 1 - k))) (\<lambda>a. put_data a (ia_start a + k) v)))"
proof -
  let ?n = "length ys" and ?s = "ia_start a + k"
  let ?m = "?n - k"
  have l: "ia_len a = Suc ?n" "ia_shape a" "nils a \<subseteq> {ia_start a..<ia_start a + Suc ?n}" "ia_start a + Suc ?n \<le> ia_cap a" "\<not> ia_frozen a"
      "\<forall>p \<in> nils a. ia_data a ! p = 0" "length (ia_data a) = ia_cap a"
    using becomesD(1,3,4) [OF assms(1)] by (auto simp: ia_inv_def ia_shape_def)
  have x: "ys ! i = slot a (ia_start a + i)" if "i < ?n" for i using becomes_nth [OF assms(1), of i] that by (simp add: nth_append)
  have "ia_start a + ?n \<notin> nils a" using becomes_nth [OF assms(1), of ?n] by (auto simp: slot_def split: if_splits)
  then have w: "\<And>p. p \<in> nils a \<Longrightarrow> ia_start a \<le> p \<and> p < ia_start a + ?n" using l(3) less_SucE by (metis add_Suc_right atLeastLessThan_iff subsetD)
  obtain d where d: "copy_up (ia_data a) ?s ?m = Done d" "length d = ia_cap a"
      "\<And>q. q < ia_cap a \<Longrightarrow> d ! q = (if ?s < q \<and> q \<le> ?s + ?m then ia_data a ! (q - 1) else ia_data a ! q)"
    using copy_up_ok [of ?s ?m "ia_data a"] l assms(2) by (auto simp: odone_def)
  let ?c = "a\<lparr>ia_data := d\<rparr>" and ?S = "{p. p \<in> nils a \<and> p < ?s} \<union> {Suc p | p. p \<in> nils a \<and> ?s \<le> p}"
  have "odone (bits_to ?c ?S) (if_bits ?c (\<lambda>a. NILBITS_MOVE_A a ?s (?s + 1) ?m))"
    using bits_up [of ?c ?s ?m] l d(2) w assms(2) by simp
  then obtain e where e: "if_bits ?c (\<lambda>b. NILBITS_MOVE_A b ?s (?s + 1) ?m) = Done e" "bits_to ?c ?S e" by (auto simp: odone_def)
  have f: "ia_shape e" "nils e = ?S" "ia_data e = d" "ia_start e = ia_start a" "ia_len e = Suc ?n" "ia_cap e = ia_cap a" "\<not> ia_frozen e"
    using e(2) l by (auto simp: bits_to_def)
  let ?e = "e\<lparr>ia_data := (ia_data e)[?s := v]\<rparr>"
  have "becomes False (insert_nth k (Some v) ys) ?e"
  proof (rule becomesI)
    show "nils ?e \<subseteq> {ia_start ?e..<ia_start ?e + length (insert_nth k (Some v) ys)}" using f w assms(2) by (auto dest: w)
    fix p assume p: "p \<in> nils ?e"
    then show "ia_data ?e ! p = 0" using f l(4,6) d(2) d(3) [of p] w [of p] w [of "p - 1"] assms(2) by (auto simp: nth_list_update)
  next
    fix i assume "i < length (insert_nth k (Some v) ys)"
    then have i: "i \<le> ?n" using assms(2) by simp
    show "insert_nth k (Some v) ys ! i = slot ?e (ia_start ?e + i)"
    proof (cases "i > k")
      case True
      then obtain j where "i = Suc j" by (cases i) auto
      then show ?thesis using True i f l(4) d(2) d(3) [of "ia_start a + i"] x [of j] assms(2) by (auto simp: insert_nth_nth slot_def)
    next
      case False
      then show ?thesis using i f l(4) d(2) d(3) [of "ia_start a + i"] x [of i] assms(2) by (auto simp: insert_nth_nth slot_def nth_list_update)
    qed
  qed (use f l assms(2) d in auto)
  moreover have "if_bits ?c (\<lambda>a. NILBITS_MOVE_A a (ia_start a + k) (ia_start a + k + 1) (ia_len a - 1 - k)) = Done e"
    using e(1) l(1) by (auto simp: if_bits_def)
  moreover have "put_data e (ia_start e + k) v = Done ?e" using f l(4) assms(2) by simp
  ultimately show ?thesis using d(1) l(1) by (simp add: on_data_def)
qed

lemma insert_becomes:
  assumes "becomes False xs a" "insert_index a i = int k"
  shows "odone (becomes False (insert_nth k (Some v) (xs @ replicate (k - length xs) None))) (sp_IntArray_insert g a i v)"
proof -
  let ?ys = "xs @ replicate (k - length xs) None"
  have k: "k \<le> length ?ys" by simp
  have "odone (becomes False (insert_nth k (Some v) ?ys)) (obind (pad_nils g a k) (\<lambda>a. obind (sp_IntArray_push g a 0) (\<lambda>a.
     obind (on_data a (\<lambda>d. copy_up d (ia_start a + k) (ia_len a - 1 - k))) (\<lambda>a.
     obind (if_bits a (\<lambda>a. NILBITS_MOVE_A a (ia_start a + k) (ia_start a + k + 1) (ia_len a - 1 - k))) (\<lambda>a. put_data a (ia_start a + k) v)))))"
    by (intro odone_bind [OF pad_nils_becomes [OF assms(1)]] odone_bind [OF push_becomes] insert_hole [OF _ k])
  then show ?thesis using becomesD(3) [OF assms(1)] assms(2) by (simp add: sp_IntArray_insert_def Let_def)
qed

lemma insert_nil_becomes:
  assumes "becomes False xs a" "insert_index a i = int k"
  shows "odone (becomes False (insert_nth k None (xs @ replicate (k - length xs) None))) (sp_IntArray_insert_nil g a i)"
  unfolding sp_IntArray_insert_nil_def Let_def
proof (rule odone_bind [OF insert_becomes [OF assms]])
  let ?ys = "xs @ replicate (k - length xs) None"
  fix b assume b: "becomes False (insert_nth k (Some 0) ?ys) b"
  have k: "k < length (insert_nth k (Some 0) ?ys)" "insert_nth k (Some 0) ?ys ! k = Some 0" by (simp_all add: insert_nth_nth)
  moreover have "(insert_nth k (Some 0) ?ys)[k := None] = insert_nth k None ?ys" by (simp add: insert_nth_def list_update_append)
  ultimately show "odone (becomes False (insert_nth k None ?ys)) (if ia_frozen b \<or> insert_index a i < 0 then Done b
      else NILBIT_SET_A (nilbits_need b) (ia_start (nilbits_need b) + nat (insert_index a i)))"
    using mark_becomes [OF b, of k] becomesD(3) [OF b] assms(2) by simp
qed

section \<open>What the copies hold\<close>

lemma ia_bits_copy_to:
  assumes "ia_shape d" "nils d = {}" "ia_start d + dpos + n \<le> ia_cap d" "ia_shape s" "ia_start s + spos + n \<le> ia_cap s"
  shows "odone (bits_to d {ia_start d + dpos + i | i. i < n \<and> ia_start s + spos + i \<in> nils s}) (ia_bits_copy d dpos s spos n)"
proof (cases "ia_nilbits s")
  case None
  then show ?thesis using assms by (simp add: ia_bits_copy_def bits_to_def)
next
  case (Some b)
  let ?p = "ia_start d + dpos" and ?q = "ia_start s + spos" and ?N = "nilbits_need d"
  have b: "bits_set b = nils s" "?q + n \<le> 64 * length b" using Some shape_bits_le [OF assms(4) Some assms(5)] by (auto simp: nils_def)
  have N: "bits_to' d {} ?N" using nilbits_need_to [OF assms(1)] assms(2) by simp
  let ?f = "\<lambda>i d. obind (olift (sp_nilbit_get b (?q + i))) (\<lambda>v. if v then NILBIT_SET_A d (ia_start d + dpos + i) else Done d)"
  have L: "odone (bits_to' d {?p + i | i. i < 0 + n \<and> ?q + i \<in> nils s}) (oloop ?f 0 n ?N)"
  proof (rule odone_oloop [where I = "\<lambda>j. bits_to' d {?p + i | i. i < j \<and> ?q + i \<in> nils s}"])
    fix j e assume j: "j < 0 + n" and e: "bits_to' d {?p + i | i. i < j \<and> ?q + i \<in> nils s} e"
    have ee: "ia_shape e" "ia_nilbits e \<noteq> None" "ia_start e = ia_start d" "ia_cap e = ia_cap d" using e by (auto simp: bits_to'_def bits_to_def)
    have x: "{?p + i | i. i < Suc j \<and> ?q + i \<in> nils s} = (if ?q + j \<in> nils s then insert (?p + j) (nils e) else nils e)"
      using e by (auto simp: bits_to'_def bits_to_def less_Suc_eq)
    have "odone (\<lambda>e'. bits_to' d (insert (?p + j) (nils e)) e') (NILBIT_SET_A e (?p + j))"
      using NILBIT_SET_A_to [OF ee(1,2), of "?p + j"] ee j assms(3) e by (auto simp: bits_to'_def bits_to_def elim!: odone_mono)
    moreover have "bits_to' d (nils e) e" using e by (auto simp: bits_to'_def bits_to_def)
    ultimately show "odone (bits_to' d {?p + i | i. i < Suc j \<and> ?q + i \<in> nils s}) (?f j e)"
      using b j ee(3) unfolding x by simp
  qed (use N in simp)
  have "bits_to d {} d" using assms by (simp add: bits_to_def)
  then show ?thesis
  proof (cases "bits_set b \<inter> {?q..<?q + n} = {}")
    case True
    then have z: "{?p + i | i. i < n \<and> ?q + i \<in> nils s} = {}" using b(1) by force
    show ?thesis unfolding z using True b(2) Some \<open>bits_to d {} d\<close> by (simp add: ia_bits_copy_def nilbits_any)
  next
    case False
    have "odone (bits_to d {?p + i | i. i < n \<and> ?q + i \<in> nils s}) (oloop ?f 0 n ?N)"
      by (rule odone_mono [OF L]) (simp add: bits_to'_def)
    then show ?thesis using False b(2) Some by (simp add: ia_bits_copy_def nilbits_any)
  qed
qed

lemma copy_into_becomes:
  assumes "becomes fr [] b" "ia_start b = 0" "becomes fr' xs s" "spos + n \<le> length xs"
  shows "odone (becomes fr (take n (drop spos xs))) (copy_into g b s spos n)"
proof -
  define c where "c = (if n > ia_cap b then sp_IntArray_set_cap g b n else b)"
  have c: "becomes fr [] c" "ia_start c = 0" "n \<le> ia_cap c"
    using set_cap_becomes [of b n g] assms(1,2) by (auto simp: c_def becomes_def)
  have C: "ia_shape c" "nils c = {}" "ia_frozen c = fr" "length (ia_data c) = ia_cap c" using becomesD(1,3,4) [OF c(1)] by (auto simp: ia_inv_def ia_shape_def)
  have S: "ia_shape s" "ia_start s + spos + n \<le> ia_cap s" "length (ia_data s) = ia_cap s" "\<forall>p \<in> nils s. ia_data s ! p = 0"
    using becomesD(1,4) [OF assms(3)] assms(4) by (auto simp: ia_inv_def ia_shape_def)
  let ?w = "take n (drop (ia_start s + spos) (ia_data s))"
  have w: "length ?w = n" "\<And>i. i < n \<Longrightarrow> ?w ! i = ia_data s ! (ia_start s + spos + i)" using S by auto
  let ?d = "?w @ drop n (ia_data c)"
  let ?c = "c\<lparr>ia_data := ?d, ia_len := n\<rparr>"
  have d: "length ?d = ia_cap c" using w(1) C c by simp
  have D: "\<And>i. i < n \<Longrightarrow> ?d ! i = ia_data s ! (ia_start s + spos + i)" using w by (simp add: nth_append)
  have sh: "ia_shape ?c" using C d by simp
  have "odone (bits_to ?c {ia_start ?c + 0 + i | i. i < n \<and> ia_start s + spos + i \<in> nils s}) (ia_bits_copy ?c 0 s spos n)"
    using sh C c S by (intro ia_bits_copy_to) auto
  moreover have "becomes fr (take n (drop spos xs)) a'" if t: "bits_to ?c {ia_start ?c + 0 + i | i. i < n \<and> ia_start s + spos + i \<in> nils s} a'" for a'
  proof (rule becomesI)
    fix i assume "i < length (take n (drop spos xs))"
    then show "take n (drop spos xs) ! i = slot a' (ia_start a' + i)"
      using t c(2) D [of i] becomes_nth [OF assms(3), of "spos + i"] assms(4) by (auto simp: bits_to_def slot_def add.assoc)
  qed (use t c C assms(4) D S in \<open>auto simp: bits_to_def min_def\<close>)
  ultimately have "odone (becomes fr (take n (drop spos xs))) (ia_bits_copy ?c 0 s spos n)" by (rule odone_mono)
  moreover have "mread (ia_data s) (ia_start s + spos) n = Done ?w" using S by (simp add: mread_def)
  moreover have "on_data c (\<lambda>d. mput d 0 ?w) = Done (c\<lparr>ia_data := ?d\<rparr>)" using w(1) c C by (simp add: on_data_def mput_def)
  ultimately show ?thesis unfolding copy_into_def Let_def c_def [symmetric] by simp
qed

lemma dup_becomes: "becomes fr xs a \<Longrightarrow> odone (becomes False xs) (sp_IntArray_dup g a)"
  using copy_into_becomes [OF new_becomes [of g] _ _, of fr xs a 0 "ia_len a" g] becomesD(4) [of fr xs a]
  by (simp add: sp_IntArray_dup_def sp_IntArray_new_def)

text \<open>The elements from \<open>start\<close> on; a start before the first element counts as the first.\<close>

definition slice_of :: "'a list \<Rightarrow> int \<Rightarrow> int \<Rightarrow> 'a list" where
  "slice_of xs start len = take (nat len) (drop (nat (max 0 (norm_index xs start))) xs)"

lemma slice_becomes:
  assumes "becomes fr xs a"
  shows "odone (becomes False (slice_of xs start len)) (sp_IntArray_slice g a start len)"
proof -
  define s where "s = nat (max 0 (norm_index xs start))"
  have e: "(if ia_index a start < 0 then 0 else ia_index a start) = int s" by (simp add: s_def ia_index_norm [OF assms])
  have l: "ia_len a = length xs" using becomesD(4) [OF assms] .
  show ?thesis
  proof (cases "int s \<ge> int (length xs) \<or> len \<le> 0")
    case True
    then have "slice_of xs start len = []" by (auto simp: slice_of_def s_def [symmetric])
    then show ?thesis using True l new_becomes [of g] unfolding sp_IntArray_slice_def Let_def e by simp
  next
    case False
    let ?n = "nat (if len > int (length xs) - int s then int (length xs) - int s else len)"
    have "odone (becomes False (take ?n (drop s xs))) (copy_into g (sp_IntArray_new g) a s ?n)"
      by (rule copy_into_becomes [OF new_becomes _ assms]) (use False in \<open>auto simp: sp_IntArray_new_def\<close>)
    moreover have "take ?n (drop s xs) = slice_of xs start len"
      using False by (auto simp: slice_of_def s_def [symmetric] nat_diff_distrib')
    ultimately show ?thesis using False l unfolding sp_IntArray_slice_def Let_def e by auto
  qed
qed

text \<open>Ruby's \<^verbatim>\<open>a[start, len]\<close>; \<open>None\<close> is nil.\<close>

definition ruby_slice :: "'a list \<Rightarrow> int \<Rightarrow> int \<Rightarrow> 'a list option" where
  "ruby_slice xs start len =
     (let s = norm_index xs start
      in if s < 0 \<or> int (length xs) < s \<or> len < 0 then None else Some (take (nat len) (drop (nat s) xs)))"

lemma slice_of_ruby:
  "slice_of xs start len =
     (if norm_index xs start < 0 then take (nat len) xs
      else case ruby_slice xs start len of Some ys \<Rightarrow> ys | None \<Rightarrow> [])"
  by (auto simp: slice_of_def ruby_slice_def Let_def)

lemma replace_becomes:
  assumes "becomes False ys dst" "becomes fr xs src"
  shows "odone (becomes False xs) (sp_IntArray_replace g dst src)"
proof -
  let ?d = "sp_IntArray_drop_nilbits (dst\<lparr>ia_len := 0, ia_start := 0\<rparr>)"
  have "becomes False [] ?d"
    using becomesD(1,3) [OF assms(1)] by (auto simp: becomes_def ia_inv_def ia_shape_def sp_IntArray_drop_nilbits_def ia_list_def)
  moreover have "ia_start ?d = 0" by (simp add: sp_IntArray_drop_nilbits_def)
  ultimately show ?thesis using copy_into_becomes [OF _ _ assms(2), of False ?d 0 "ia_len src" g] becomesD(4) [OF assms(2)] becomesD(3) [OF assms(1)]
    by (simp add: sp_IntArray_replace_def)
qed

text \<open>Ruby's \<^verbatim>\<open>a[start..fin]\<close>; \<open>None\<close> is nil.\<close>

definition range_of :: "'a list \<Rightarrow> int \<Rightarrow> int \<Rightarrow> bool \<Rightarrow> 'a list option" where
  "range_of xs start fin excl =
     (let s = norm_index xs start; n = norm_index xs fin - s + (if excl then 0 else 1)
      in if s < 0 \<or> s > int (length xs) then None else Some (take (nat n) (drop (nat s) xs)))"

lemma slice_range_becomes:
  assumes "becomes fr xs a" "in_i64 start" "in_i64 fin" "int (length xs) < 2 ^ 63"
    and "\<not> excl \<Longrightarrow> 0 \<le> norm_index xs start \<Longrightarrow> norm_index xs start \<le> int (length xs) \<Longrightarrow>
      norm_index xs fin - norm_index xs start \<noteq> INT64_MAX"
  shows "odone (\<lambda>r. rel_option (becomes False) (range_of xs start fin excl) r) (sp_IntArray_slice_range g a start fin excl)"
proof -
  let ?s = "norm_index xs start" and ?n = "norm_index xs fin - norm_index xs start + (if excl then 0 else 1)"
  have l: "ia_len a = length xs" using becomesD(4) [OF assms(1)] .
  show ?thesis
  proof (cases "?s < 0 \<or> ?s > int (length xs)")
    case True
    then show ?thesis using l by (simp add: sp_IntArray_slice_range_def Let_def ia_index_norm [OF assms(1)] range_of_def)
  next
    case False
    have "excl \<or> norm_index xs fin - ?s \<noteq> INT64_MAX" using False assms(5) by force
    then have "in_i64 ?n" using False assms(2-4) by (auto simp: in_i64_def norm_index_def INT64_MIN_def INT64_MAX_def split: if_splits)
    moreover have "slice_of xs ?s (if ?n < 0 then 0 else ?n) = take (nat ?n) (drop (nat ?s) xs)"
      using False by (auto simp: slice_of_def norm_index_def)
    ultimately show ?thesis using False l slice_becomes [OF assms(1), of ?s "if ?n < 0 then 0 else ?n" g]
      by (auto simp: sp_IntArray_slice_range_def Let_def ia_index_norm [OF assms(1)] range_of_def odone_def split: if_splits)
  qed
qed

lemma slice_range_undefined:
  assumes "becomes fr xs a" "0 \<le> norm_index xs start" "norm_index xs start \<le> int (length xs)"
    and "norm_index xs fin - norm_index xs start = INT64_MAX"
  shows "sp_IntArray_slice_range g a start fin False = Undef"
  using assms(2-4) becomesD(4) [OF assms(1)]
  by (simp add: sp_IntArray_slice_range_def Let_def ia_index_norm [OF assms(1)] in_i64_def)

section \<open>What the permutations do\<close>

lemma no_bits:
  assumes "becomes fr xs a" "ia_nilbits a = None"
  shows "i < length xs \<Longrightarrow> xs ! i = Some (ia_data a ! (ia_start a + i))"
  using becomes_nth [OF assms(1)] assms(2) by (simp add: slot_def)

lemma plain_becomes:
  assumes "ia_shape a" "ia_nilbits a = None" "ia_start a + length xs \<le> ia_cap a" "ia_len a = length xs" "ia_frozen a = fr"
    "\<And>i. i < length xs \<Longrightarrow> xs ! i = Some (ia_data a ! (ia_start a + i))"
  shows "becomes fr xs a"
  using assms by (intro becomesI) (auto simp: slot_def)

lemma reverse_becomes:
  assumes "becomes False xs a" "int (length xs) < 2 ^ 63"
  shows "odone (becomes False (rev xs)) (sp_IntArray_reverse_bang a)"
proof -
  have l: "ia_len a = length xs" "ia_shape a" "ia_start a + length xs \<le> ia_cap a" "\<not> ia_frozen a" "length (ia_data a) = ia_cap a"
    using becomesD(1,3,4) [OF assms(1)] by (auto simp: ia_inv_def ia_shape_def)
  show ?thesis
  proof (cases "ia_nilbits a = None")
    case True
    have x: "i < length xs \<Longrightarrow> xs ! i = Some (ia_data a ! (ia_start a + i))" for i using no_bits [OF assms(1) True] .
    let ?s = "ia_start a" and ?j = "length xs - 1"
    have "odone (\<lambda>d. length d = ia_cap a \<and> (\<forall>i < length xs. d ! (?s + i) = ia_data a ! (?s + (length xs - Suc i)))) (swap_ends (ia_data a) ?s 0 ?j)"
    proof (rule odone_mono [OF swap_ends_ok])
      show "?s + ?j < length (ia_data a) \<or> \<not> 0 < ?j" using l by auto
      fix d assume d: "length d = length (ia_data a) \<and> (\<forall>q < length (ia_data a). d ! q = (if ?s + 0 \<le> q \<and> q \<le> ?s + ?j then ia_data a ! (?s + 0 + (?s + ?j) - q) else ia_data a ! q))"
      have "d ! (?s + i) = ia_data a ! (?s + (length xs - Suc i))" if "i < length xs" for i
      proof -
        have "?s + i < length (ia_data a)" "?s + 0 + (?s + ?j) - (?s + i) = ?s + (length xs - Suc i)" "?s + i \<le> ?s + ?j" using l that by auto
        then show ?thesis using d by simp
      qed
      then show "length d = ia_cap a \<and> (\<forall>i < length xs. d ! (?s + i) = ia_data a ! (?s + (length xs - Suc i)))" using d l by simp
    qed
    moreover have "becomes False (rev xs) (a\<lparr>ia_data := d\<rparr>)"
      if "length d = ia_cap a \<and> (\<forall>i < length xs. d ! (?s + i) = ia_data a ! (?s + (length xs - Suc i)))" for d
      using that l True x by (intro plain_becomes) (auto simp: rev_nth)
    ultimately show ?thesis using True l by (auto simp: sp_IntArray_reverse_bang_def on_data_def elim!: odone_mono)
  next
    case False
    have "odone (\<lambda>p. p = rev xs) (swap_ends xs 0 0 (length xs - 1))"
      by (rule odone_mono [OF swap_ends_ok]) (auto intro!: nth_equalityI simp: rev_nth)
    then have "swap_ends xs 0 0 (length xs - 1) = Done (rev xs)" by (auto simp: odone_def)
    then show ?thesis using False l ia_pack_ok [OF assms] ia_unpack_becomes [OF assms(1), of "rev xs"]
      by (simp add: sp_IntArray_reverse_bang_def)
  qed
qed

lemma c_mod:
  fixes n l :: int
  assumes "0 < l"
  shows "(n smod l + l) smod l = n mod l"
proof -
  have r: "- l < n smod l" using assms smod_int_range [of l n] by auto
  have "(n smod l + l) smod l = (n smod l + l) mod l" using r assms by (intro smod_mod_positive) auto
  also have "\<dots> = (n + l * (1 - n sdiv l)) mod l" by (simp add: algebra_simps flip: minus_mult_sdiv_eq_smod)
  also have "\<dots> = n mod l" by (rule mod_mult_self2)
  finally show ?thesis .
qed

lemma rotate_room_becomes:
  assumes "becomes False xs a" "ia_nilbits a = None"
  shows "odone (\<lambda>a'. becomes False xs a' \<and> ia_nilbits a' = None) (rotate_room g a n)"
proof -
  have l: "ia_len a = length xs" "ia_shape a" "ia_start a + length xs \<le> ia_cap a" "\<not> ia_frozen a" "length (ia_data a) = ia_cap a"
    using becomesD(1,3,4) [OF assms(1)] by (auto simp: ia_inv_def ia_shape_def)
  have "odone (\<lambda>a'. becomes False xs a' \<and> ia_nilbits a' = None)
    (if ia_start a + ia_len a + n > ia_cap a \<and> ia_len a + n \<le> ia_cap a \<and> ia_start a > 0
     then obind (on_data a (\<lambda>d. memmove d 0 (ia_start a) (ia_len a))) (\<lambda>a. Done (a\<lparr>ia_start := 0\<rparr>)) else Done a)"
  proof (rule odone_if)
    let ?d = "take (ia_len a) (drop (ia_start a) (ia_data a)) @ drop (ia_len a) (ia_data a)"
    have "becomes False xs (a\<lparr>ia_data := ?d, ia_start := 0\<rparr>)"
      using l assms(2) no_bits [OF assms] by (intro plain_becomes) (auto simp: nth_append)
    then show "odone (\<lambda>a'. becomes False xs a' \<and> ia_nilbits a' = None) (obind (on_data a (\<lambda>d. memmove d 0 (ia_start a) (ia_len a))) (\<lambda>a. Done (a\<lparr>ia_start := 0\<rparr>)))"
      using l assms(2) by (simp add: on_data_def memmove_home)
  qed (use assms in simp)
  then show ?thesis unfolding rotate_room_def
  proof (rule odone_bind)
    fix b assume b: "becomes False xs b \<and> ia_nilbits b = None"
    have k: "ia_len b = length xs" "ia_shape b" "ia_start b + length xs \<le> ia_cap b" "\<not> ia_frozen b" "length (ia_data b) = ia_cap b"
      using becomesD(1,3,4) [of False xs b] b by (auto simp: ia_inv_def ia_shape_def)
    show "odone (\<lambda>a'. becomes False xs a' \<and> ia_nilbits a' = None)
      (if ia_start b + ia_len b + n > ia_cap b \<and> ia_len b + n > ia_cap b \<and> ia_len b \<le> 256
       then let nc = ia_len b * 2 + n
            in obind (mread (ia_data b) (ia_start b) (ia_len b)) (\<lambda>w.
               obind (mput (map g [0..<nc]) 0 w) (\<lambda>nd. Done (b\<lparr>ia_data := nd, ia_start := 0, ia_cap := nc\<rparr>)))
       else Done b)"
    proof (rule odone_if)
      assume c: "ia_start b + ia_len b + n > ia_cap b \<and> ia_len b + n > ia_cap b \<and> ia_len b \<le> 256"
      let ?nc = "length xs * 2 + n" and ?w = "take (length xs) (drop (ia_start b) (ia_data b))"
      let ?b = "b\<lparr>ia_data := ?w @ drop (length xs) (map g [0..<?nc]), ia_start := 0, ia_cap := ?nc\<rparr>"
      have "ia_shape ?b" using b c k by (auto simp: ia_shape_def)
      then have "becomes False xs ?b" using k b no_bits [of False xs b] by (intro plain_becomes) (auto simp: nth_append)
      then show "odone (\<lambda>a'. becomes False xs a' \<and> ia_nilbits a' = None) (let nc = ia_len b * 2 + n
          in obind (mread (ia_data b) (ia_start b) (ia_len b)) (\<lambda>w. obind (mput (map g [0..<nc]) 0 w) (\<lambda>nd. Done (b\<lparr>ia_data := nd, ia_start := 0, ia_cap := nc\<rparr>))))"
        using k b by (simp add: mread_def mput_def Let_def)
    qed (use b in simp)
  qed
qed

lemma rotate_split: "n < length xs \<Longrightarrow> rotate n xs = drop n xs @ take n xs"
  by (simp add: rotate_drop_take)

lemma rotate_place_becomes:
  assumes "becomes False xs a" "ia_nilbits a = None" "n < length xs"
  shows "odone (becomes False (rotate n xs)) (rotate_place a n)"
proof -
  have l: "ia_len a = length xs" "ia_shape a" "ia_start a + length xs \<le> ia_cap a" "\<not> ia_frozen a" "length (ia_data a) = ia_cap a"
    using becomesD(1,3,4) [OF assms(1)] by (auto simp: ia_inv_def ia_shape_def)
  define s where "s = ia_start a"
  define d where "d = ia_data a"
  define rest where "rest = length xs - n"
  let ?P = "\<lambda>d'. length d' = length d \<and> (\<forall>i < length xs. d' ! (s + i) = (if i < rest then d ! (s + n + i) else d ! (s + (i - rest))))"
  have A: "odone ?P (if n \<le> rest then obind (mread d s n) (\<lambda>t. obind (memmove d s (s + n) rest) (\<lambda>d. mput d (s + rest) t))
         else obind (mread d (s + n) rest) (\<lambda>t. obind (memmove d (s + rest) s n) (\<lambda>d. mput d s t)))"
  proof (rule odone_if)
    show "odone ?P (obind (mread d s n) (\<lambda>t. obind (memmove d s (s + n) rest) (\<lambda>d. mput d (s + rest) t)))"
      using l assms(3) unfolding s_def [symmetric] d_def [symmetric]
      by (intro odone_bind [OF mread_ok] odone_bind [OF memmove_ok] odone_mono [OF mput_ok]) (auto simp: rest_def add.assoc add.commute)
    show "odone ?P (obind (mread d (s + n) rest) (\<lambda>t. obind (memmove d (s + rest) s n) (\<lambda>d. mput d s t)))"
      using l assms(3) unfolding s_def [symmetric] d_def [symmetric]
      by (intro odone_bind [OF mread_ok] odone_bind [OF memmove_ok] odone_mono [OF mput_ok]) (auto simp: rest_def add.assoc add.commute)
  qed
  have B: "becomes False (rotate n xs) (a\<lparr>ia_data := d'\<rparr>)" if "?P d'" for d'
    using that l assms no_bits [OF assms(1,2)] unfolding rotate_split [OF assms(3)]
    by (intro plain_becomes) (auto simp: s_def d_def rest_def nth_append add.assoc)
  have "rotate_place a n = obind (if n \<le> rest then obind (mread d s n) (\<lambda>t. obind (memmove d s (s + n) rest) (\<lambda>d. mput d (s + rest) t))
         else obind (mread d (s + n) rest) (\<lambda>t. obind (memmove d (s + rest) s n) (\<lambda>d. mput d s t))) (\<lambda>d. Done (a\<lparr>ia_data := d\<rparr>))"
    by (simp only: rotate_place_def on_data_def Let_def l(1) s_def d_def rest_def)
  moreover have "odone (becomes False (rotate n xs)) \<dots>" by (rule odone_bind [OF A]) (unfold odone_simps, rule B)
  ultimately show ?thesis by (simp only:)
qed

lemma rotate_window:
  assumes "becomes False xs a" "ia_nilbits a = None" "n < length xs" "ia_start a + length xs + n \<le> ia_cap a"
  shows "odone (becomes False (rotate n xs))
    (obind (on_data a (\<lambda>d. obind (mread d (ia_start a) n) (mput d (ia_start a + ia_len a)))) (\<lambda>a. Done (a\<lparr>ia_start := ia_start a + n\<rparr>)))"
proof -
  have l: "ia_len a = length xs" "ia_shape a" "\<not> ia_frozen a" "length (ia_data a) = ia_cap a"
    using becomesD(1,3,4) [OF assms(1)] by (auto simp: ia_inv_def ia_shape_def)
  let ?d = "ia_data a" and ?s = "ia_start a"
  let ?P = "\<lambda>d'. length d' = length ?d \<and> (\<forall>q < length ?d. d' ! q = (if ?s + length xs \<le> q \<and> q < ?s + length xs + n then ?d ! (q - length xs) else ?d ! q))"
  have "odone ?P (obind (mread ?d ?s n) (mput ?d (?s + ia_len a)))"
    using l assms(3,4) by (intro odone_bind [OF mread_ok] odone_mono [OF mput_ok]) auto
  moreover have "becomes False (rotate n xs) (a\<lparr>ia_data := d', ia_start := ?s + n\<rparr>)" if "?P d'" for d'
    using that l assms(2-4) no_bits [OF assms(1,2)] unfolding rotate_split [OF assms(3)]
    by (intro plain_becomes) (auto simp: nth_append ac_simps)
  ultimately show ?thesis by (simp add: on_data_def) (auto elim!: odone_mono)
qed

lemma rotate_becomes:
  assumes "becomes False xs a" "int (length xs) < 2 ^ 63" "xs \<noteq> []"
  shows "odone (becomes False (rotate (nat (n mod int (length xs))) xs)) (sp_IntArray_rotate_bang g a n)"
proof -
  define k where "k = nat (n mod int (length xs))"
  have l: "ia_len a = length xs" "\<not> ia_frozen a" using becomesD(3,4) [OF assms(1)] by auto
  have k: "k < length xs" using assms(3) by (simp add: k_def nat_less_iff)
  have m: "nat (if n < 0 \<or> n \<ge> int (ia_len a) then (n smod int (ia_len a) + int (ia_len a)) smod int (ia_len a) else n) = k"
    using assms(3) l(1) by (simp add: c_mod k_def)
  have "odone (becomes False (rotate k xs)) (sp_IntArray_rotate_bang g a n)"
  proof (cases "k = 0")
    case True
    then show ?thesis using assms l unfolding sp_IntArray_rotate_bang_def Let_def m by simp
  next
    case False
    show ?thesis
    proof (cases "ia_nilbits a = None")
      case True
      have "odone (becomes False (rotate k xs)) (if ia_start b + ia_len b + k \<le> ia_cap b
           then obind (on_data b (\<lambda>d. obind (mread d (ia_start b) k) (mput d (ia_start b + ia_len b)))) (\<lambda>a. Done (a\<lparr>ia_start := ia_start a + k\<rparr>))
           else rotate_place b k)" if "becomes False xs b \<and> ia_nilbits b = None" for b
        using that rotate_window [of xs b k] rotate_place_becomes [of xs b k] k becomesD(4) [of False xs b] by auto
      then have "odone (becomes False (rotate k xs)) (obind (rotate_room g a k) (\<lambda>b. if ia_start b + ia_len b + k \<le> ia_cap b
           then obind (on_data b (\<lambda>d. obind (mread d (ia_start b) k) (mput d (ia_start b + ia_len b)))) (\<lambda>a. Done (a\<lparr>ia_start := ia_start a + k\<rparr>))
           else rotate_place b k))" by (rule odone_bind [OF rotate_room_becomes [OF assms(1) True]])
      then show ?thesis using False True assms(3) l unfolding sp_IntArray_rotate_bang_def Let_def m by simp
    next
      case nb: False
      have "omap (\<lambda>i. olift (ld xs ((i + k) mod ia_len a))) [0..<ia_len a] = Done (map (\<lambda>i. xs ! ((i + k) mod length xs)) [0..<ia_len a])"
        by (rule omap_ok) (use k l(1) assms(3) in simp)
      also have "map (\<lambda>i. xs ! ((i + k) mod length xs)) [0..<ia_len a] = rotate k xs"
        using l(1) by (intro nth_equalityI) (auto simp: nth_rotate add.commute)
      finally show ?thesis using nb False assms(3) l ia_pack_ok [OF assms(1,2)] ia_unpack_becomes [OF assms(1), of "rotate k xs"]
        unfolding sp_IntArray_rotate_bang_def Let_def m by simp
    qed
  qed
  then show ?thesis by (simp add: k_def)
qed

end
