(* ===== verification/IaSets.thy ===== *)
theory IaSets
  imports IaOps Probe
begin

unbundle bit_operations_syntax

text \<open>
  The searches of an Array of Integers and its set operations (\<^verbatim>\<open>lib/sp_array.c\<close>): \<open>uniq\<close>, \<open>&\<close>, \<open>|\<close>, \<open>-\<close>. Each set
  operation has three ways: with nils, by scanning for short operands, and with an open-addressed set
  (\<^verbatim>\<open>sp_iset\<close>) past 16 elements. The locale \<open>seen_set\<close> states what the loops ask of a set of the values met so
  far; the scan of the result and the hashed set are its two interpretations.
\<close>

section \<open>Searching\<close>

text \<open>\<^verbatim>\<open>for (i...; n times) if (a->data[a->start+i] == v && !sp_IntArray_elem_nil(a, i)) return i\<close>\<close>

definition hit :: "IntArray \<Rightarrow> int \<Rightarrow> nat \<Rightarrow> bool outcome" where
  "hit a v i = obind (olift (ld (ia_data a) (ia_start a + i))) (\<lambda>x.
     if x = v then obind (sp_IntArray_elem_nil a i) (\<lambda>nil. Done (\<not> nil)) else Done False)"

fun first_hit :: "(nat \<Rightarrow> bool outcome) \<Rightarrow> nat list \<Rightarrow> nat option outcome" where
  "first_hit f [] = Done None"
| "first_hit f (i # is) = obind (f i) (\<lambda>b. if b then Done (Some i) else first_hit f is)"

definition sp_IntArray_index :: "IntArray \<Rightarrow> int \<Rightarrow> int outcome" where
  "sp_IntArray_index a v =
     obind (first_hit (hit a v) [0..<ia_len a]) (\<lambda>r. Done (case r of None \<Rightarrow> - 1 | Some i \<Rightarrow> int i))"

definition sp_IntArray_rindex :: "IntArray \<Rightarrow> int \<Rightarrow> int outcome" where
  "sp_IntArray_rindex a v =
     obind (first_hit (hit a v) (rev [0..<ia_len a])) (\<lambda>r. Done (case r of None \<Rightarrow> - 1 | Some i \<Rightarrow> int i))"

definition sp_IntArray_include :: "IntArray \<Rightarrow> int \<Rightarrow> bool outcome" where
  "sp_IntArray_include a v = obind (first_hit (hit a v) [0..<ia_len a]) (\<lambda>r. Done (r \<noteq> None))"

definition sp_IntArray_index_nil :: "IntArray \<Rightarrow> bool \<Rightarrow> nat option outcome" where
  "sp_IntArray_index_nil a rv =
     (if ia_nilbits a = None then Done None
      else first_hit (sp_IntArray_elem_nil a) (if rv then rev [0..<ia_len a] else [0..<ia_len a]))"

definition ia_include_o :: "IntArray \<Rightarrow> int option \<Rightarrow> bool outcome" where
  "ia_include_o a x = (case x of None \<Rightarrow> sp_IntArray_has_nil a | Some v \<Rightarrow> sp_IntArray_include a v)"

section \<open>The hashed set\<close>

record iset =
  is_k :: "int list"
  is_used :: "bool list"
  is_mask :: nat

function iset_cap :: "nat \<Rightarrow> nat \<Rightarrow> nat" where
  "iset_cap n cap = (if 0 < cap \<and> cap < n * 2 then iset_cap n (cap * 2) else cap)"
  by pat_completeness auto
termination by (relation "measure (\<lambda>(n, cap). n * 2 - cap)") auto

declare iset_cap.simps [simp del]

text \<open>\<open>g\<close> is what the keys hold before they are written.\<close>

definition sp_iset_init :: "(nat \<Rightarrow> int) \<Rightarrow> nat \<Rightarrow> iset" where
  "sp_iset_init g n = (let cap = iset_cap n 32 in \<lparr>is_k = map g [0..<cap], is_used = replicate cap False, is_mask = cap - 1\<rparr>)"

definition iset_home :: "nat \<Rightarrow> int \<Rightarrow> nat" where
  "iset_home msk v = unat (drop_bit 32 (of_int v * 11400714819323198485 :: 64 word)) AND msk"

text \<open>The walk from the home slot; one that does not end is \<open>None\<close>.\<close>

definition sp_iset_slot :: "iset \<Rightarrow> int \<Rightarrow> nat option" where
  "sp_iset_slot t v =
     probe (is_mask t + 1) (\<lambda>i. (i + 1) AND is_mask t) (\<lambda>i. \<not> (is_used t ! i \<and> is_k t ! i \<noteq> v)) (iset_home (is_mask t) v)"

definition sp_iset_add :: "iset \<Rightarrow> int \<Rightarrow> (bool \<times> iset) outcome" where
  "sp_iset_add t v =
     obind (olift (sp_iset_slot t v)) (\<lambda>i.
       if is_used t ! i then Done (False, t)
       else Done (True, t\<lparr>is_used := (is_used t)[i := True], is_k := (is_k t)[i := v]\<rparr>))"

definition sp_iset_has :: "iset \<Rightarrow> int \<Rightarrow> bool outcome" where
  "sp_iset_has t v = obind (olift (sp_iset_slot t v)) (\<lambda>i. Done (is_used t ! i))"

section \<open>Loops over the elements\<close>

fun ofold :: "('a \<Rightarrow> 's \<Rightarrow> 's outcome) \<Rightarrow> 'a list \<Rightarrow> 's \<Rightarrow> 's outcome" where
  "ofold f [] s = Done s"
| "ofold f (x # xs) s = obind (f x s) (ofold f xs)"

definition each :: "IntArray \<Rightarrow> (int \<Rightarrow> 's \<Rightarrow> 's outcome) \<Rightarrow> 's \<Rightarrow> 's outcome" where
  "each a f s = obind (mread (ia_data a) (ia_start a) (ia_len a)) (\<lambda>vs. ofold f vs s)"

definition each_o :: "IntArray \<Rightarrow> (int option \<Rightarrow> 's \<Rightarrow> 's outcome) \<Rightarrow> 's \<Rightarrow> 's outcome" where
  "each_o a f s = obind (ia_pack a) (\<lambda>xs. ofold f xs s)"

definition sp_iset_add_all :: "iset \<Rightarrow> IntArray \<Rightarrow> iset outcome" where
  "sp_iset_add_all t a = each a (\<lambda>v t. obind (sp_iset_add t v) (\<lambda>r. Done (snd r))) t"

definition SP_SETOP_LINEAR :: nat where
  "SP_SETOP_LINEAR = 16"

definition sp_setop_hashes :: "nat \<Rightarrow> nat \<Rightarrow> bool" where
  "sp_setop_hashes scanned probes \<longleftrightarrow> scanned > SP_SETOP_LINEAR \<and> probes > SP_SETOP_LINEAR"

text \<open>A value kept unless it is there already: in the set, which takes it, or in the result itself.\<close>

definition keep_new :: "(nat \<Rightarrow> int) \<Rightarrow> int \<Rightarrow> iset \<times> IntArray \<Rightarrow> (iset \<times> IntArray) outcome" where
  "keep_new g v = (\<lambda>(t, b). obind (sp_iset_add t v) (\<lambda>(fresh, t).
     if fresh then obind (sp_IntArray_push g b v) (\<lambda>b. Done (t, b)) else Done (t, b)))"

definition keep_scan :: "(nat \<Rightarrow> int) \<Rightarrow> int \<Rightarrow> IntArray \<Rightarrow> IntArray outcome" where
  "keep_scan g v b = obind (sp_IntArray_include b v) (\<lambda>found. if found then Done b else sp_IntArray_push g b v)"

text \<open>\<open>uniq\<close> scans its result without a look at a bitmap: that array has none.\<close>

definition keep_raw :: "(nat \<Rightarrow> int) \<Rightarrow> int \<Rightarrow> IntArray \<Rightarrow> IntArray outcome" where
  "keep_raw g v b =
     obind (first_hit (\<lambda>j. obind (olift (ld (ia_data b) (ia_start b + j))) (\<lambda>x. Done (x = v))) [0..<ia_len b]) (\<lambda>found.
       if found \<noteq> None then Done b else sp_IntArray_push g b v)"

definition keep_scan_o :: "(nat \<Rightarrow> int) \<Rightarrow> int option \<Rightarrow> IntArray \<Rightarrow> IntArray outcome" where
  "keep_scan_o g x b = obind (ia_include_o b x) (\<lambda>found. if found then Done b else sp_IntArray_push_o g b x)"

definition result_of :: "(iset \<times> IntArray) outcome \<Rightarrow> IntArray outcome" where
  "result_of m = obind m (\<lambda>r. Done (snd r))"

definition sp_IntArray_uniq :: "(nat \<Rightarrow> int) \<Rightarrow> IntArray \<Rightarrow> IntArray outcome" where
  "sp_IntArray_uniq g a =
     (if ia_nilbits a \<noteq> None then each_o a (keep_scan_o g) (sp_IntArray_new g)
      else if ia_len a > SP_SETOP_LINEAR
      then result_of (each a (keep_new g) (sp_iset_init g (ia_len a), sp_IntArray_new g))
      else each a (keep_raw g) (sp_IntArray_new g))"

definition sp_IntArray_union :: "(nat \<Rightarrow> int) \<Rightarrow> IntArray \<Rightarrow> IntArray \<Rightarrow> IntArray outcome" where
  "sp_IntArray_union g a b =
     (if ia_nilbits a \<noteq> None \<or> ia_nilbits b \<noteq> None
      then obind (each_o a (keep_scan_o g) (sp_IntArray_new g)) (each_o b (keep_scan_o g))
      else let n = ia_len a + ia_len b in
        if n > SP_SETOP_LINEAR
        then result_of (obind (each a (keep_new g) (sp_iset_init g n, sp_IntArray_new g)) (each b (keep_new g)))
        else obind (each a (keep_scan g) (sp_IntArray_new g)) (each b (keep_scan g)))"

definition sp_IntArray_intersect :: "(nat \<Rightarrow> int) \<Rightarrow> IntArray \<Rightarrow> IntArray \<Rightarrow> IntArray outcome" where
  "sp_IntArray_intersect g a b =
     (if ia_nilbits a \<noteq> None \<or> ia_nilbits b \<noteq> None
      then each_o a (\<lambda>x r. obind (ia_include_o b x) (\<lambda>inb. if inb then keep_scan_o g x r else Done r)) (sp_IntArray_new g)
      else if sp_setop_hashes (ia_len b) (ia_len a)
      then obind (sp_iset_add_all (sp_iset_init g (ia_len b)) b) (\<lambda>in_b.
             result_of (each a (\<lambda>v s. obind (sp_iset_has in_b v) (\<lambda>inb. if inb then keep_new g v s else Done s))
               (sp_iset_init g (ia_len a), sp_IntArray_new g)))
      else each a (\<lambda>v r. obind (sp_IntArray_include b v) (\<lambda>inb. if inb then keep_scan g v r else Done r)) (sp_IntArray_new g))"

definition sp_IntArray_difference :: "(nat \<Rightarrow> int) \<Rightarrow> IntArray \<Rightarrow> IntArray \<Rightarrow> IntArray outcome" where
  "sp_IntArray_difference g a b =
     (if ia_nilbits a \<noteq> None \<or> ia_nilbits b \<noteq> None
      then each_o a (\<lambda>x r. obind (ia_include_o b x) (\<lambda>inb. if inb then Done r else sp_IntArray_push_o g r x)) (sp_IntArray_new g)
      else if sp_setop_hashes (ia_len b) (ia_len a)
      then obind (sp_iset_add_all (sp_iset_init g (ia_len b)) b) (\<lambda>in_b.
             each a (\<lambda>v r. obind (sp_iset_has in_b v) (\<lambda>inb. if inb then Done r else sp_IntArray_push g r v)) (sp_IntArray_new g))
      else each a (\<lambda>v r. obind (sp_IntArray_include b v) (\<lambda>inb. if inb then Done r else sp_IntArray_push g r v)) (sp_IntArray_new g))"

section \<open>What the searches find\<close>

lemma first_hit_ok:
  assumes "\<And>i. i \<in> set is \<Longrightarrow> f i = Done (P i)"
  shows "first_hit f is = Done (List.find P is)"
  using assms by (induction "is") auto

lemma elem_nil_ok: "becomes fr xs a \<Longrightarrow> i < length xs \<Longrightarrow> sp_IntArray_elem_nil a i = Done (xs ! i = None)"
  using slot_read(2) [of a i] becomesD(1,4) [of fr xs a] becomes_nth [of fr xs a i] by (simp add: sp_IntArray_elem_nil_def slot_def)

lemma data_read: "becomes fr xs a \<Longrightarrow> i < length xs \<Longrightarrow> ld (ia_data a) (ia_start a + i) = Some (ia_data a ! (ia_start a + i))"
  using becomesD(1,4) [of fr xs a] by (simp add: ia_inv_def ia_shape_def)

lemma hit_ok: "becomes fr xs a \<Longrightarrow> i < length xs \<Longrightarrow> hit a v i = Done (xs ! i = Some v)"
  using becomes_nth [of fr xs a i] by (auto simp: hit_def data_read elem_nil_ok slot_def split: if_splits)

lemma find_upt: "(List.find P [0..<n] \<noteq> None) = (\<exists>i < n. P i)"
  using find_None_iff [of P "[0..<n]"] by (auto simp del: not_None_eq)

lemma find_hit:
  assumes "becomes fr xs a"
  shows "first_hit (hit a v) [0..<ia_len a] = Done (List.find (\<lambda>i. xs ! i = Some v) [0..<length xs])"
    "first_hit (hit a v) (rev [0..<ia_len a]) = Done (List.find (\<lambda>i. xs ! i = Some v) (rev [0..<length xs]))"
  using becomesD(4) [OF assms] by (auto intro!: first_hit_ok hit_ok [OF assms])

lemma include_ok: "becomes fr xs a \<Longrightarrow> sp_IntArray_include a v = Done (Some v \<in> set xs)"
  unfolding sp_IntArray_include_def find_hit(1) obind_simps find_upt by (simp add: in_set_conv_nth)

lemma include_o_ok: "becomes fr xs a \<Longrightarrow> ia_include_o a x = Done (x \<in> set xs)"
  by (cases x) (simp_all add: ia_include_o_def include_ok has_nil_ok)

section \<open>What the hashed set holds\<close>

definition iset_tab :: "iset \<Rightarrow> nat \<Rightarrow> int option" where
  "iset_tab t i = (if is_used t ! i then Some (is_k t ! i) else None)"

definition iset_holds :: "iset \<Rightarrow> int set \<Rightarrow> bool" where
  "iset_holds t S \<longleftrightarrow> (\<exists>m. is_mask t + 1 = 2 ^ m) \<and> length (is_k t) = is_mask t + 1 \<and> length (is_used t) = is_mask t + 1 \<and>
     table_ok (is_mask t + 1) (iset_home (is_mask t)) (iset_tab t) \<and> table_keys (is_mask t + 1) (iset_tab t) = S"

lemma and_pow_mask: "x AND (2 ^ m - 1) = x mod (2 ^ m :: nat)"
  by (metis mask_eq_exp_minus_1 take_bit_eq_mask take_bit_eq_mod)

lemma iset_cap_ok: "0 < cap \<Longrightarrow> (\<exists>m. cap = 2 ^ m) \<Longrightarrow> (\<exists>m. iset_cap n cap = 2 ^ m) \<and> n * 2 \<le> iset_cap n cap"
proof (induction n cap rule: iset_cap.induct)
  case (1 n cap)
  show ?case
  proof (cases "cap < n * 2")
    case True
    have "\<exists>m. cap * 2 = 2 ^ m" using 1(3) by (metis power_Suc2)
    then show ?thesis using 1(1) True 1(2) by (simp add: iset_cap.simps [of n cap])
  qed (use 1(3) in \<open>simp add: iset_cap.simps [of n cap]\<close>)
qed

lemma iset_home_less: "is_mask t + 1 = 2 ^ m \<Longrightarrow> iset_home (is_mask t) v < is_mask t + 1"
proof -
  assume m: "is_mask t + 1 = 2 ^ m"
  then have "is_mask t = 2 ^ m - 1" by simp
  then show ?thesis unfolding iset_home_def by (simp add: and_pow_mask del: One_nat_def)
qed

lemma pow32: "\<exists>m. (32 :: nat) = 2 ^ m"
  by (rule exI [of _ 5]) simp

lemma iset_init_ok: "iset_holds (sp_iset_init g n) {} \<and> 2 * n \<le> is_mask (sp_iset_init g n) + 1"
proof -
  obtain m where m: "iset_cap n 32 = 2 ^ m" "n * 2 \<le> iset_cap n 32" using iset_cap_ok [of 32 n] pow32 by auto
  let ?t = "sp_iset_init g n"
  have c: "is_mask ?t + 1 = 2 ^ m" "length (is_k ?t) = 2 ^ m" "length (is_used ?t) = 2 ^ m" "\<And>i. i < 2 ^ m \<Longrightarrow> iset_tab ?t i = None"
    using m by (simp_all add: sp_iset_init_def Let_def iset_tab_def)
  then show ?thesis using iset_home_less [OF c(1)] m
    by (auto simp: iset_holds_def table_keys_def intro!: table_ok_empty)
qed

lemma iset_slot_ok:
  assumes "iset_holds t S" "card S < is_mask t + 1"
  obtains j where "sp_iset_slot t v = Some j" "j < is_mask t + 1" "v \<in> S \<longleftrightarrow> is_used t ! j"
    "v \<notin> S \<Longrightarrow> iset_holds (t\<lparr>is_used := (is_used t)[j := True], is_k := (is_k t)[j := v]\<rparr>) (insert v S)"
proof -
  let ?n = "is_mask t + 1"
  obtain m where m: "?n = 2 ^ m" using assms(1) by (auto simp: iset_holds_def)
  have ok: "table_ok ?n (iset_home (is_mask t)) (iset_tab t)" "table_keys ?n (iset_tab t) = S" "length (is_k t) = ?n" "length (is_used t) = ?n"
    using assms(1) by (auto simp: iset_holds_def)
  obtain e where e: "e < ?n" "iset_tab t e = None" using free_slot [of ?n "iset_tab t"] ok assms(2) by (auto simp: table_ok_def)
  obtain j where j: "j < ?n" "probe ?n (ring_next ?n) (\<lambda>i. iset_tab t i = None \<or> iset_tab t i = Some v) (iset_home (is_mask t) v) = Some j"
      "v \<in> table_keys ?n (iset_tab t) \<longleftrightarrow> iset_tab t j = Some v" "v \<notin> table_keys ?n (iset_tab t) \<longleftrightarrow> iset_tab t j = None"
      "\<forall>p < ?n. ring_dist ?n (iset_home (is_mask t) v) p < ring_dist ?n (iset_home (is_mask t) v) j \<longrightarrow> iset_tab t p \<noteq> None"
    using probe_key [OF ok(1) e, of v] by blast
  have "(\<lambda>i. (i + 1) AND is_mask t) = ring_next ?n"
  proof
    fix i have "is_mask t = 2 ^ m - 1" using m by simp
    then show "(i + 1) AND is_mask t = ring_next ?n i" using m by (simp add: ring_next_def and_pow_mask del: One_nat_def)
  qed
  moreover have "(\<lambda>i. \<not> (is_used t ! i \<and> is_k t ! i \<noteq> v)) = (\<lambda>i. iset_tab t i = None \<or> iset_tab t i = Some v)" by (auto simp: iset_tab_def)
  ultimately have s: "sp_iset_slot t v = Some j" using j(2) by (simp add: sp_iset_slot_def)
  show ?thesis
  proof (rule that [OF s j(1)])
    show "v \<in> S \<longleftrightarrow> is_used t ! j" using j(3,4) ok(2) by (auto simp: iset_tab_def split: if_splits)
    assume v: "v \<notin> S"
    let ?t = "t\<lparr>is_used := (is_used t)[j := True], is_k := (is_k t)[j := v]\<rparr>"
    have u: "\<And>i. i < ?n \<Longrightarrow> iset_tab ?t i = ((iset_tab t)(j := Some v)) i" using ok(3,4) j(1) by (auto simp: iset_tab_def nth_list_update)
    have f: "iset_tab t j = None" using j(4) ok(2) v by simp
    have "table_ok ?n (iset_home (is_mask t)) ((iset_tab t)(j := Some v))" using j(1,5) f v ok by (intro table_ok_store) auto
    then have "table_ok ?n (iset_home (is_mask t)) (iset_tab ?t)" using u unfolding table_ok_def chain_ok_def keys_inj_def by (metis (no_types, lifting))
    moreover have "table_keys ?n (iset_tab ?t) = table_keys ?n ((iset_tab t)(j := Some v))"
      unfolding table_keys_def by (rule Collect_cong) (metis u)
    then have "table_keys ?n (iset_tab ?t) = insert v S" using table_keys_store [of j ?n "iset_tab t" v] j(1) f ok(2) by simp
    ultimately show "iset_holds ?t (insert v S)" using assms(1) by (simp add: iset_holds_def)
  qed
qed

lemma iset_add_ok:
  assumes "iset_holds t S" "card S < is_mask t + 1"
  shows "odone (\<lambda>r. fst r = (v \<notin> S) \<and> iset_holds (snd r) (insert v S) \<and> is_mask (snd r) = is_mask t) (sp_iset_add t v)"
proof -
  obtain j where "sp_iset_slot t v = Some j" "v \<in> S \<longleftrightarrow> is_used t ! j"
    "v \<notin> S \<Longrightarrow> iset_holds (t\<lparr>is_used := (is_used t)[j := True], is_k := (is_k t)[j := v]\<rparr>) (insert v S)"
    using iset_slot_ok [OF assms, of v] by blast
  then show ?thesis using assms(1) by (simp add: sp_iset_add_def insert_absorb)
qed

lemma iset_has_ok:
  assumes "iset_holds t S" "card S < is_mask t + 1"
  shows "sp_iset_has t v = Done (v \<in> S)"
proof -
  obtain j where "sp_iset_slot t v = Some j" "v \<in> S \<longleftrightarrow> is_used t ! j" using iset_slot_ok [OF assms, of v] by blast
  then show ?thesis by (simp add: sp_iset_has_def)
qed

section \<open>First occurrences\<close>

definition add_new :: "'k list \<Rightarrow> 'k list \<Rightarrow> 'k list" where
  "add_new rs vs = fold (\<lambda>v rs. if v \<in> set rs then rs else rs @ [v]) vs rs"

text \<open>The elements in the order of their first occurrence.\<close>

definition firsts :: "'k list \<Rightarrow> 'k list" where
  "firsts xs = rev (remdups (rev xs))"

lemma add_new_Cons [simp]: "add_new rs (v # vs) = add_new (if v \<in> set rs then rs else rs @ [v]) vs"
  by (simp add: add_new_def)

lemma add_new_Nil [simp]: "add_new rs [] = rs"
  by (simp add: add_new_def)

lemma add_new_firsts: "add_new [] xs = firsts xs"
proof (induction xs rule: rev_induct)
  case (snoc x xs)
  have "add_new [] (xs @ [x]) = (if x \<in> set (add_new [] xs) then add_new [] xs else add_new [] xs @ [x])" by (simp add: add_new_def)
  then show ?case unfolding snoc.IH by (simp add: firsts_def)
qed (simp add: firsts_def)

lemma add_new_append: "add_new (add_new rs xs) ys = add_new rs (xs @ ys)"
  by (simp add: add_new_def)

lemma length_add_new: "length (add_new rs vs) \<le> length rs + length vs"
proof (induction vs arbitrary: rs)
  case (Cons v vs)
  show ?case using Cons.IH [of "if v \<in> set rs then rs else rs @ [v]"] by (simp split: if_splits)
qed simp

lemma add_new_map: "inj f \<Longrightarrow> add_new (map f rs) (map f xs) = map f (add_new rs xs)"
proof (induction xs arbitrary: rs)
  case (Cons x xs)
  have "f x \<in> f ` set rs \<longleftrightarrow> x \<in> set rs" using Cons.prems by (simp add: inj_image_mem_iff)
  then show ?case using Cons.IH [of "if x \<in> set rs then rs else rs @ [x]"] Cons.prems by auto
qed simp

lemma firsts_map: "inj f \<Longrightarrow> firsts (map f xs) = map f (firsts xs)"
  using add_new_map [of f "[]" xs] by (simp add: add_new_firsts)

lemma odone_ofold:
  assumes "I [] s" "\<And>ys y s. length ys < length xs \<Longrightarrow> I ys s \<Longrightarrow> odone (I (ys @ [y])) (f y s)"
  shows "odone (I xs) (ofold f xs s)"
proof -
  have "I ys s \<Longrightarrow> length ys + length zs \<le> length xs \<Longrightarrow> odone (I (ys @ zs)) (ofold f zs s)" for ys zs s
  proof (induction zs arbitrary: ys s)
    case (Cons z zs)
    have "odone (I (ys @ [z])) (f z s)" using Cons.prems by (intro assms(2)) auto
    then have "odone (I (ys @ z # zs)) (obind (f z s) (ofold f zs))"
    proof (rule odone_bind)
      fix s' assume "I (ys @ [z]) s'"
      then show "odone (I (ys @ z # zs)) (ofold f zs s')" using Cons.IH [of "ys @ [z]" s'] Cons.prems by simp
    qed
    then show ?case by simp
  qed simp
  from this [of "[]" s xs] show ?thesis using assms(1) by simp
qed

text \<open>
  A set of the values met so far, with room for \<open>room\<close> of them: \<open>holds s rs\<close> says that \<open>rs\<close> are the values kept,
  and \<open>keep\<close> adds a value unless it is there.
\<close>

locale seen_set =
  fixes room :: nat
    and holds :: "'s \<Rightarrow> 'k list \<Rightarrow> bool"
    and keep :: "'k \<Rightarrow> 's \<Rightarrow> 's outcome"
  assumes keep_law: "holds s rs \<Longrightarrow> v \<in> set rs \<or> length rs < room \<Longrightarrow>
    odone (\<lambda>s'. holds s' (if v \<in> set rs then rs else rs @ [v])) (keep v s)"
begin

lemma keep_some:
  assumes "holds s rs" "length rs + length vs \<le> room" "\<And>v. v \<in> set vs \<Longrightarrow> test v = Done (P v)"
  shows "odone (\<lambda>s'. holds s' (add_new rs (filter P vs))) (ofold (\<lambda>v s. obind (test v) (\<lambda>b. if b then keep v s else Done s)) vs s)"
  using assms
proof (induction vs arbitrary: s rs)
  case (Cons v vs)
  let ?rs = "if P v then (if v \<in> set rs then rs else rs @ [v]) else rs"
  have "odone (\<lambda>s'. holds s' ?rs) (obind (test v) (\<lambda>b. if b then keep v s else Done s))"
    using keep_law [of s rs v] Cons.prems by auto
  then have "odone (\<lambda>s'. holds s' (add_new ?rs (filter P vs)))
    (obind (obind (test v) (\<lambda>b. if b then keep v s else Done s)) (ofold (\<lambda>v s. obind (test v) (\<lambda>b. if b then keep v s else Done s)) vs))"
  proof (rule odone_bind)
    fix s' assume "holds s' ?rs"
    then show "odone (\<lambda>s'. holds s' (add_new ?rs (filter P vs))) (ofold (\<lambda>v s. obind (test v) (\<lambda>b. if b then keep v s else Done s)) vs s')"
      by (rule Cons.IH) (use Cons.prems in auto)
  qed
  moreover have "add_new ?rs (filter P vs) = add_new rs (filter P (v # vs))" by simp
  ultimately show ?case by (simp only: ofold.simps)
qed simp

lemma keep_all:
  assumes "holds s rs" "length rs + length vs \<le> room"
  shows "odone (\<lambda>s'. holds s' (add_new rs vs)) (ofold keep vs s)"
  using keep_some [OF assms, of "\<lambda>_. Done True" "\<lambda>_. True"] by simp

end

text \<open>The result itself is the set, scanned for each value; it has room for any number of them.\<close>

definition scan_holds :: "IntArray \<Rightarrow> int list \<Rightarrow> bool" where
  "scan_holds b rs \<longleftrightarrow> becomes False (map Some rs) b"

lemma keep_scan_law: "scan_holds b rs \<Longrightarrow> odone (\<lambda>b'. scan_holds b' (if v \<in> set rs then rs else rs @ [v])) (keep_scan g v b)"
  using push_becomes [of "map Some rs" b v g] by (auto simp: scan_holds_def keep_scan_def include_ok)

lemma keep_raw_law: "scan_holds b rs \<Longrightarrow> odone (\<lambda>b'. scan_holds b' (if v \<in> set rs then rs else rs @ [v])) (keep_raw g v b)"
proof -
  assume h: "scan_holds b rs"
  then have b: "becomes False (map Some rs) b" "ia_len b = length rs" using becomesD(4) [of False "map Some rs" b] by (auto simp: scan_holds_def)
  have "ia_data b ! (ia_start b + j) = rs ! j" if "j < length rs" for j
    using becomes_nth [OF b(1), of j] that by (simp add: slot_def split: if_splits)
  then have "first_hit (\<lambda>j. obind (olift (ld (ia_data b) (ia_start b + j))) (\<lambda>x. Done (x = v))) [0..<ia_len b] = Done (List.find (\<lambda>j. rs ! j = v) [0..<length rs])"
    using b(2) data_read [OF b(1)] by (subst first_hit_ok [where P = "\<lambda>j. rs ! j = v"]) auto
  moreover have "(List.find (\<lambda>j. rs ! j = v) [0..<length rs] \<noteq> None) = (v \<in> set rs)" unfolding find_upt by (simp add: in_set_conv_nth)
  ultimately show ?thesis using push_becomes [OF b(1), of v g] b(1) by (simp add: keep_raw_def scan_holds_def del: not_None_eq)
qed

lemma keep_scan_o_law:
  "becomes False rs b \<Longrightarrow> odone (\<lambda>b'. becomes False (if x \<in> set rs then rs else rs @ [x]) b') (keep_scan_o g x b)"
  using push_o_becomes [of rs b x g] by (simp add: keep_scan_o_def include_o_ok)

text \<open>A table of the values of the result beside it.\<close>

definition hash_holds :: "nat \<Rightarrow> iset \<times> IntArray \<Rightarrow> int list \<Rightarrow> bool" where
  "hash_holds n s rs \<longleftrightarrow> iset_holds (fst s) (set rs) \<and> n < is_mask (fst s) + 1 \<and> length rs \<le> n \<and> becomes False (map Some rs) (snd s)"

lemma keep_new_law:
  assumes "hash_holds n s rs" "v \<in> set rs \<or> length rs < n"
  shows "odone (\<lambda>s'. hash_holds n s' (if v \<in> set rs then rs else rs @ [v])) (keep_new g v s)"
proof -
  obtain t b where s: "s = (t, b)" by (cases s)
  have h: "iset_holds t (set rs)" "n < is_mask t + 1" "length rs \<le> n" "becomes False (map Some rs) b" using assms(1) s by (auto simp: hash_holds_def)
  have "card (set rs) < is_mask t + 1" using card_length [of rs] h by linarith
  then obtain fresh t' where "sp_iset_add t v = Done (fresh, t')" "fresh = (v \<notin> set rs)" "iset_holds t' (insert v (set rs))" "is_mask t' = is_mask t"
    using iset_add_ok [OF h(1), of v] by (auto simp: odone_def)
  then show ?thesis using h assms(2) push_becomes [OF h(4), of v g]
    by (auto simp: keep_new_def s hash_holds_def insert_absorb elim!: odone_mono)
qed

interpretation scan: seen_set room scan_holds "keep_scan g" for room g
  using keep_scan_law by unfold_locales

interpretation raw: seen_set room scan_holds "keep_raw g" for room g
  using keep_raw_law by unfold_locales

interpretation scan_o: seen_set room "\<lambda>b rs. becomes False rs b" "keep_scan_o g" for room g
  using keep_scan_o_law by unfold_locales

interpretation hash: seen_set n "hash_holds n" "keep_new g" for n g
  using keep_new_law by unfold_locales

section \<open>The set operations\<close>

text \<open>An array without a bitmap holds plain values.\<close>

definition plain_list :: "IntArray \<Rightarrow> int list" where
  "plain_list a = take (ia_len a) (drop (ia_start a) (ia_data a))"

lemma plain_map:
  assumes "becomes fr xs a" "ia_nilbits a = None"
  shows "map Some (plain_list a) = xs" "mread (ia_data a) (ia_start a) (ia_len a) = Done (plain_list a)" "length (plain_list a) = length xs"
proof -
  have l: "ia_len a = length xs" "ia_start a + length xs \<le> length (ia_data a)" using becomesD(1,4) [OF assms(1)] by (auto simp: ia_inv_def ia_shape_def)
  show "map Some (plain_list a) = xs" using l no_bits [OF assms] by (intro nth_equalityI) (auto simp: plain_list_def)
  show "mread (ia_data a) (ia_start a) (ia_len a) = Done (plain_list a)" "length (plain_list a) = length xs" using l by (auto simp: mread_def plain_list_def)
qed

lemma each_plain: "becomes fr xs a \<Longrightarrow> ia_nilbits a = None \<Longrightarrow> each a f s = ofold f (plain_list a) s"
  by (simp add: each_def plain_map)

lemma each_o_ok: "becomes fr xs a \<Longrightarrow> int (length xs) < 2 ^ 63 \<Longrightarrow> each_o a f s = ofold f xs s"
  by (simp add: each_o_def ia_pack_ok)

lemma scan_new: "scan_holds (sp_IntArray_new g) []" "becomes False [] (sp_IntArray_new g)"
  using new_becomes by (auto simp: scan_holds_def)

lemma hash_new: "0 < n \<Longrightarrow> hash_holds n (sp_iset_init g n, sp_IntArray_new g) []"
  using iset_init_ok [of g n] new_becomes [of g] by (auto simp: hash_holds_def)

lemma from_scan: "odone (\<lambda>b. scan_holds b rs) m \<Longrightarrow> map Some rs = zs \<Longrightarrow> odone (becomes False zs) m"
  by (auto simp: scan_holds_def odone_def)

lemma from_hash: "odone (\<lambda>s. hash_holds n s rs) m \<Longrightarrow> map Some rs = zs \<Longrightarrow> odone (becomes False zs) (result_of m)"
  by (auto simp: hash_holds_def odone_def result_of_def)

lemma firsts_Some: "map Some vs = xs \<Longrightarrow> map Some (add_new [] vs) = firsts xs"
  by (auto simp: add_new_firsts firsts_map)

lemma uniq_becomes:
  assumes "becomes fr xs a" "int (length xs) < 2 ^ 63"
  shows "odone (becomes False (firsts xs)) (sp_IntArray_uniq g a)"
proof (cases "ia_nilbits a = None")
  case True
  note p = plain_map [OF assms(1) True] and e = each_plain [OF assms(1) True]
  have "ia_len a > SP_SETOP_LINEAR \<Longrightarrow> odone (becomes False (firsts xs)) (result_of (each a (keep_new g) (sp_iset_init g (ia_len a), sp_IntArray_new g)))"
    unfolding e by (rule from_hash [OF hash.keep_all [OF hash_new] firsts_Some [OF p(1)]]) (use p(3) becomesD(4) [OF assms(1)] in auto)
  moreover have "odone (becomes False (firsts xs)) (each a (keep_raw g) (sp_IntArray_new g))"
    unfolding e by (rule from_scan [OF raw.keep_all [OF scan_new(1), where room = "length (plain_list a)"] firsts_Some [OF p(1)]]) simp
  ultimately show ?thesis using True by (simp add: sp_IntArray_uniq_def)
next
  case False
  then show ?thesis using scan_o.keep_all [OF scan_new(2) [of g], of xs "length xs" g]
    by (simp add: sp_IntArray_uniq_def each_o_ok [OF assms] add_new_firsts)
qed

lemma union_becomes:
  assumes "becomes fr xs a" "becomes fr' ys b" "int (length xs) < 2 ^ 63" "int (length ys) < 2 ^ 63"
  shows "odone (becomes False (firsts (xs @ ys))) (sp_IntArray_union g a b)"
proof (cases "ia_nilbits a = None \<and> ia_nilbits b = None")
  case True
  note p = plain_map [OF assms(1)] plain_map [OF assms(2)]
  note e = each_plain [OF assms(1)] each_plain [OF assms(2)]
  let ?n = "ia_len a + ia_len b" and ?vs = "plain_list a" and ?ws = "plain_list b"
  have n: "?n = length ?vs + length ?ws" using p(3,6) True becomesD(4) [OF assms(1)] becomesD(4) [OF assms(2)] by simp
  have z: "map Some (add_new (add_new [] ?vs) ?ws) = firsts (xs @ ys)" unfolding add_new_append by (rule firsts_Some) (use p(1,4) True in simp)
  have L: "length (add_new [] ?vs) \<le> length ?vs" using length_add_new [of "[]" ?vs] by simp
  have "odone (\<lambda>s. hash_holds ?n s (add_new (add_new [] ?vs) ?ws)) (obind (ofold (keep_new g) ?vs (sp_iset_init g ?n, sp_IntArray_new g)) (ofold (keep_new g) ?ws))" if "?n > SP_SETOP_LINEAR"
    by (rule odone_bind [OF hash.keep_all [OF hash_new] hash.keep_all]) (use that n L in auto)
  note h = from_hash [OF this z]
  have "odone (\<lambda>s. scan_holds s (add_new (add_new [] ?vs) ?ws)) (obind (ofold (keep_scan g) ?vs (sp_IntArray_new g)) (ofold (keep_scan g) ?ws))"
    by (rule odone_bind [OF scan.keep_all [OF scan_new(1)] scan.keep_all]) (auto intro: order_refl)
  note s = from_scan [OF this z]
  have "(\<lambda>s. each b (keep_new g) s) = ofold (keep_new g) ?ws" "(\<lambda>s. each b (keep_scan g) s) = ofold (keep_scan g) ?ws" using True by (simp_all add: fun_eq_iff e(2))
  then show ?thesis using True h s by (simp add: sp_IntArray_union_def Let_def e(1) del: odone_simps)
next
  case False
  have z: "add_new (add_new [] xs) ys = firsts (xs @ ys)" unfolding add_new_append by (rule add_new_firsts)
  have "odone (becomes False (add_new (add_new [] xs) ys)) (obind (ofold (keep_scan_o g) xs (sp_IntArray_new g)) (ofold (keep_scan_o g) ys))"
    by (rule odone_bind [OF scan_o.keep_all [OF scan_new(2)] scan_o.keep_all]) (auto intro: order_refl)
  moreover have "each_o b (keep_scan_o g) = ofold (keep_scan_o g) ys" by (simp add: fun_eq_iff each_o_ok [OF assms(2,4)])
  ultimately show ?thesis using False unfolding z by (auto simp: sp_IntArray_union_def each_o_ok [OF assms(1,3)] simp del: odone_simps)
qed

lemma iset_add_all_ok:
  assumes "becomes fr ys b" "ia_nilbits b = None" "ys \<noteq> []"
  shows "odone (\<lambda>t. iset_holds t {v. Some v \<in> set ys} \<and> length ys < is_mask t + 1) (sp_iset_add_all (sp_iset_init g (ia_len b)) b)"
proof -
  let ?ws = "plain_list b"
  have l: "ia_len b = length ?ws" "length ?ws = length ys" "map Some ?ws = ys" using plain_map [OF assms(1,2)] becomesD(4) [OF assms(1)] by auto
  have "odone (\<lambda>t. iset_holds t (set ?ws) \<and> length ?ws < is_mask t + 1) (ofold (\<lambda>v t. obind (sp_iset_add t v) (\<lambda>r. Done (snd r))) ?ws (sp_iset_init g (ia_len b)))"
  proof (rule odone_ofold [where I = "\<lambda>zs t. iset_holds t (set zs) \<and> length ?ws < is_mask t + 1"])
    show "iset_holds (sp_iset_init g (ia_len b)) (set []) \<and> length ?ws < is_mask (sp_iset_init g (ia_len b)) + 1"
      using iset_init_ok [of g "ia_len b"] l assms(3) by auto
    fix zs z t assume "length zs < length ?ws" "iset_holds t (set zs) \<and> length ?ws < is_mask t + 1"
    moreover have "card (set zs) \<le> length zs" by (rule card_length)
    ultimately have "odone (\<lambda>r. fst r = (z \<notin> set zs) \<and> iset_holds (snd r) (insert z (set zs)) \<and> is_mask (snd r) = is_mask t) (sp_iset_add t z)"
      by (intro iset_add_ok) auto
    then show "odone (\<lambda>t. iset_holds t (set (zs @ [z])) \<and> length ?ws < is_mask t + 1) (obind (sp_iset_add t z) (\<lambda>r. Done (snd r)))"
      using \<open>iset_holds t (set zs) \<and> length ?ws < is_mask t + 1\<close> by (auto elim!: odone_mono)
  qed
  moreover have "set ?ws = {v. Some v \<in> set ys}" unfolding l(3) [symmetric] by auto
  ultimately show ?thesis using l(2) by (simp add: sp_iset_add_all_def each_plain [OF assms(1,2)])
qed

lemma iset_has_all:
  assumes "iset_holds t {v. Some v \<in> set ys} \<and> length ys < is_mask t + 1"
  shows "sp_iset_has t v = Done (Some v \<in> set ys)"
proof -
  have "{v. Some v \<in> set ys} = the ` (set ys - {None})" by force
  then have "card {v. Some v \<in> set ys} \<le> card (set ys - {None})" by (simp add: card_image_le)
  also have "\<dots> \<le> length ys" by (meson List.finite_set card_Diff1_le card_length le_trans)
  finally show ?thesis using assms iset_has_ok [of t "{v. Some v \<in> set ys}" v] by simp
qed

lemma filter_Some: "map Some vs = xs \<Longrightarrow> map Some (filter (\<lambda>v. P (Some v)) vs) = filter P xs"
  by (auto simp: filter_map comp_def)

lemma intersect_becomes:
  assumes "becomes fr xs a" "becomes fr' ys b" "int (length xs) < 2 ^ 63"
  shows "odone (becomes False (firsts (filter (\<lambda>x. x \<in> set ys) xs))) (sp_IntArray_intersect g a b)"
proof (cases "ia_nilbits a = None \<and> ia_nilbits b = None")
  case True
  note p = plain_map [OF assms(1)] and e = each_plain [OF assms(1)]
  let ?vs = "plain_list a"
  have l: "ia_len a = length ?vs" "ia_len b = length ys" using p(3) True becomesD(4) [OF assms(1)] becomesD(4) [OF assms(2)] by auto
  have z: "map Some (add_new [] (filter (\<lambda>v. Some v \<in> set ys) ?vs)) = firsts (filter (\<lambda>x. x \<in> set ys) xs)"
    by (rule firsts_Some, rule filter_Some) (use p(1) True in simp)
  show ?thesis
  proof (cases "sp_setop_hashes (ia_len b) (ia_len a)")
    case hashes: True
    then have "ys \<noteq> []" "0 < ia_len a" using l by (auto simp: sp_setop_hashes_def)
    have "odone (becomes False (firsts (filter (\<lambda>x. x \<in> set ys) xs)))
        (result_of (each a (\<lambda>v s. obind (sp_iset_has t v) (\<lambda>inb. if inb then keep_new g v s else Done s)) (sp_iset_init g (ia_len a), sp_IntArray_new g)))"
      if t: "iset_holds t {v. Some v \<in> set ys} \<and> length ys < is_mask t + 1" for t
    proof -
      have "odone (\<lambda>s. hash_holds (ia_len a) s (add_new [] (filter (\<lambda>v. Some v \<in> set ys) ?vs)))
        (ofold (\<lambda>v s. obind (sp_iset_has t v) (\<lambda>inb. if inb then keep_new g v s else Done s)) ?vs (sp_iset_init g (ia_len a), sp_IntArray_new g))"
        by (rule hash.keep_some [OF hash_new]) (use l \<open>0 < ia_len a\<close> iset_has_all [OF t] in auto)
      from from_hash [OF this z] show ?thesis using True by (simp add: e del: odone_simps)
    qed
    from odone_bind [OF iset_add_all_ok [OF assms(2) conjunct2 [OF True] \<open>ys \<noteq> []\<close>] this] show ?thesis
      using True hashes by (simp add: sp_IntArray_intersect_def del: odone_simps)
  next
    case False
    have "odone (\<lambda>s. scan_holds s (add_new [] (filter (\<lambda>v. Some v \<in> set ys) ?vs)))
      (ofold (\<lambda>v r. obind (sp_IntArray_include b v) (\<lambda>inb. if inb then keep_scan g v r else Done r)) ?vs (sp_IntArray_new g))"
      by (rule scan.keep_some [OF scan_new(1), where room = "length ?vs"]) (use include_ok [OF assms(2)] in auto)
    from from_scan [OF this z] show ?thesis using True False by (simp add: sp_IntArray_intersect_def e del: odone_simps)
  qed
next
  case False
  have "odone (becomes False (add_new [] (filter (\<lambda>x. x \<in> set ys) xs)))
      (ofold (\<lambda>x r. obind (ia_include_o b x) (\<lambda>inb. if inb then keep_scan_o g x r else Done r)) xs (sp_IntArray_new g))"
    by (rule scan_o.keep_some [OF scan_new(2), where room = "length xs"]) (use include_o_ok [OF assms(2)] in auto)
  then show ?thesis using False by (auto simp: sp_IntArray_intersect_def each_o_ok [OF assms(1,3)] add_new_firsts simp del: odone_simps)
qed

lemma reject_loop:
  assumes "becomes False zs r" "\<And>v. v \<in> set vs \<Longrightarrow> test v = Done (P v)" "\<And>zs r v. becomes False zs r \<Longrightarrow> odone (becomes False (zs @ [h v])) (push r v)"
  shows "odone (becomes False (zs @ map h (filter (\<lambda>v. \<not> P v) vs))) (ofold (\<lambda>v r. obind (test v) (\<lambda>b. if b then Done r else push r v)) vs r)"
  using assms(1,2)
proof (induction vs arbitrary: zs r)
  case (Cons v vs)
  show ?case
  proof (cases "P v")
    case False
    have "odone (becomes False (zs @ map h (filter (\<lambda>v. \<not> P v) (v # vs)))) (obind (push r v) (ofold (\<lambda>v r. obind (test v) (\<lambda>b. if b then Done r else push r v)) vs))"
    proof (rule odone_bind [OF assms(3) [OF Cons.prems(1)]])
      fix r' assume "becomes False (zs @ [h v]) r'"
      from Cons.IH [OF this] show "odone (becomes False (zs @ map h (filter (\<lambda>v. \<not> P v) (v # vs)))) (ofold (\<lambda>v r. obind (test v) (\<lambda>b. if b then Done r else push r v)) vs r')"
        using False Cons.prems(2) by simp
    qed
    then show ?thesis using Cons.prems(2) False by simp
  qed (use Cons in simp)
qed simp

lemma difference_becomes:
  assumes "becomes fr xs a" "becomes fr' ys b" "int (length xs) < 2 ^ 63"
  shows "odone (becomes False (filter (\<lambda>x. x \<notin> set ys) xs)) (sp_IntArray_difference g a b)"
proof (cases "ia_nilbits a = None \<and> ia_nilbits b = None")
  case True
  note p = plain_map [OF assms(1)] and e = each_plain [OF assms(1)]
  let ?vs = "plain_list a"
  have l: "ia_len b = length ys" using becomesD(4) [OF assms(2)] .
  have z: "map Some (filter (\<lambda>v. Some v \<notin> set ys) ?vs) = filter (\<lambda>x. x \<notin> set ys) xs" by (rule filter_Some) (use p(1) True in simp)
  have R: "odone (becomes False (filter (\<lambda>x. x \<notin> set ys) xs)) (each a (\<lambda>v r. obind (test v) (\<lambda>inb. if inb then Done r else sp_IntArray_push g r v)) (sp_IntArray_new g))"
    if "\<And>v. test v = Done (Some v \<in> set ys)" for test
    using reject_loop [OF new_becomes [of g], of ?vs test "\<lambda>v. Some v \<in> set ys" Some "sp_IntArray_push g"] that push_becomes z True by (simp add: e)
  show ?thesis
  proof (cases "sp_setop_hashes (ia_len b) (ia_len a)")
    case hashes: True
    then have "ys \<noteq> []" using l by (auto simp: sp_setop_hashes_def)
    show ?thesis using True hashes odone_bind [OF iset_add_all_ok [OF assms(2) _ \<open>ys \<noteq> []\<close>, of g] R [OF iset_has_all]]
      by (simp add: sp_IntArray_difference_def del: odone_simps)
  next
    case False
    then show ?thesis using True R [of "sp_IntArray_include b"] include_ok [OF assms(2)] by (simp add: sp_IntArray_difference_def del: odone_simps)
  qed
next
  case False
  have "odone (becomes False ([] @ map (\<lambda>x. x) (filter (\<lambda>x. \<not> x \<in> set ys) xs)))
      (ofold (\<lambda>x r. obind (ia_include_o b x) (\<lambda>inb. if inb then Done r else sp_IntArray_push_o g r x)) xs (sp_IntArray_new g))"
    by (rule reject_loop [OF new_becomes]) (use include_o_ok [OF assms(2)] push_o_becomes in auto)
  then show ?thesis using False by (auto simp: sp_IntArray_difference_def each_o_ok [OF assms(1,3)] simp del: odone_simps)
qed

end
