(* ===== verification/IaFolds.thy ===== *)
theory IaFolds
  imports IaSets
begin

unbundle bit_operations_syntax

text \<open>
  Comparisons, sums and filters of Arrays of Integers (\<^verbatim>\<open>lib/sp_array.c\<close>, \<^verbatim>\<open>lib/sp_array.h\<close>): \<open>==\<close>, \<open><=>\<close>, the sum that is
  vectorized when no prefix can overflow, \<open>delete\<close>, \<open>compact\<close> and \<open>join\<close>.
\<close>

section \<open>Comparing\<close>

fun eq_loop :: "IntArray \<Rightarrow> IntArray \<Rightarrow> nat list \<Rightarrow> bool outcome" where
  "eq_loop a b [] = Done True"
| "eq_loop a b (i # is) =
     obind (olift (ld (ia_data a) (ia_start a + i))) (\<lambda>x.
     obind (olift (ld (ia_data b) (ia_start b + i))) (\<lambda>y.
       if x \<noteq> y then Done False
       else if ia_nilbits a \<noteq> None \<or> ia_nilbits b \<noteq> None then
         obind (sp_IntArray_elem_nil a i) (\<lambda>p. obind (sp_IntArray_elem_nil b i) (\<lambda>q.
           if p \<noteq> q then Done False else eq_loop a b is))
       else eq_loop a b is))"

definition sp_IntArray_eq :: "IntArray \<Rightarrow> IntArray \<Rightarrow> bool outcome" where
  "sp_IntArray_eq a b = (if ia_len a \<noteq> ia_len b then Done False else eq_loop a b [0..<ia_len a])"

fun cmp_loop :: "IntArray \<Rightarrow> IntArray \<Rightarrow> nat list \<Rightarrow> int option outcome" where
  "cmp_loop a b [] = Done (Some (if ia_len a < ia_len b then - 1 else if ia_len a > ia_len b then 1 else 0))"
| "cmp_loop a b (i # is) =
     obind (sp_IntArray_oget a (int i)) (\<lambda>av. obind (sp_IntArray_oget b (int i)) (\<lambda>bv.
       case (av, bv) of
         (None, None) \<Rightarrow> cmp_loop a b is
       | (Some x, Some y) \<Rightarrow> if x < y then Done (Some (- 1)) else if x > y then Done (Some 1) else cmp_loop a b is
       | _ \<Rightarrow> Done None))"

definition sp_IntArray_cmp_o :: "IntArray \<Rightarrow> IntArray \<Rightarrow> int option outcome" where
  "sp_IntArray_cmp_o a b = cmp_loop a b [0..<if ia_len a < ia_len b then ia_len a else ia_len b]"

section \<open>Summing\<close>

text \<open>
  The sum of the leading elements that can be added to \<open>seed\<close> without overflow, with their number. The sum
  and the bound of the first loop are 64-bit numbers without sign.
\<close>

definition sum_bound :: "int list \<Rightarrow> 64 word \<times> 64 word" where
  "sum_bound vs = fold (\<lambda>v (total, bound). (total + of_int v, bound OR of_int v)) vs (0, 0)"

fun sum_checked :: "int \<Rightarrow> nat \<Rightarrow> int list \<Rightarrow> nat \<times> int" where
  "sum_checked seed i [] = (i, seed)"
| "sum_checked seed i (v # vs) = (if \<not> in_i64 (seed + v) then (i, seed) else sum_checked (seed + v) (Suc i) vs)"

definition sum_values :: "int \<Rightarrow> int list \<Rightarrow> nat \<times> int" where
  "sum_values seed vs =
     (let (total, bound) = sum_bound vs; limit = unat bound * length vs
      in if unat bound \<le> nat INT64_MAX \<and> limit < 2 ^ 64 \<and> limit \<le> unat (of_int INT64_MAX - of_int seed :: 64 word)
         then (length vs, sint (of_int seed + total :: 64 word))
         else sum_checked seed 0 vs)"

definition sp_IntArray_sum_prefix :: "IntArray \<Rightarrow> int \<Rightarrow> (nat \<times> int) outcome" where
  "sp_IntArray_sum_prefix a seed = obind (mread (ia_data a) (ia_start a) (ia_len a)) (\<lambda>vs. Done (sum_values seed vs))"

section \<open>Filtering\<close>

text \<open>\<^verbatim>\<open>p[w++] = p[i]\<close> for the elements to keep.\<close>

fun squeeze :: "('a \<Rightarrow> bool) \<Rightarrow> 'a list \<Rightarrow> nat \<Rightarrow> nat \<Rightarrow> nat \<Rightarrow> nat \<Rightarrow> ('a list \<times> nat) outcome" where
  "squeeze keep d s w i 0 = Done (d, w)"
| "squeeze keep d s w i (Suc n) =
     obind (olift (ld d (s + i))) (\<lambda>x.
       if keep x then obind (olift (st d (s + w) x)) (\<lambda>d. squeeze keep d s (w + 1) (i + 1) n)
       else squeeze keep d s w (i + 1) n)"

definition sp_IntArray_delete_o :: "IntArray \<Rightarrow> int \<Rightarrow> (int option \<times> IntArray) outcome" where
  "sp_IntArray_delete_o a v =
     (if ia_frozen a then obind (sp_IntArray_index a v) (\<lambda>i. if i \<ge> 0 then sp_raise_frozen_array else Done (None, a))
      else if ia_nilbits a \<noteq> None then
        obind (ia_pack a) (\<lambda>p. obind (squeeze (\<lambda>x. x \<noteq> Some v) p 0 0 0 (ia_len a)) (\<lambda>(p, w).
        obind (ia_unpack a (take w p)) (\<lambda>a'. Done (if ia_len a - w > 0 then Some v else None, a'))))
      else obind (squeeze (\<lambda>x. x \<noteq> v) (ia_data a) (ia_start a) 0 0 (ia_len a)) (\<lambda>(d, w).
        Done (if ia_len a - w > 0 then Some v else None, a\<lparr>ia_data := d, ia_len := w\<rparr>)))"

definition sp_IntArray_delete_nil :: "IntArray \<Rightarrow> (bool \<times> IntArray) outcome" where
  "sp_IntArray_delete_nil a =
     (if ia_nilbits a = None then Done (False, a)
      else if ia_frozen a then
        obind (sp_IntArray_index_nil a False) (\<lambda>i. if i \<noteq> None then sp_raise_frozen_array else Done (False, a))
      else obind (ia_pack a) (\<lambda>p. obind (squeeze (\<lambda>x. x \<noteq> None) p 0 0 0 (ia_len a)) (\<lambda>(p, w).
        obind (ia_unpack a (take w p)) (\<lambda>a'. Done (w \<noteq> ia_len a, sp_IntArray_drop_nilbits a')))))"

definition sp_IntArray_compact_bang :: "IntArray \<Rightarrow> (bool \<times> IntArray) outcome" where
  "sp_IntArray_compact_bang a = (if ia_frozen a then sp_raise_frozen_array else sp_IntArray_delete_nil a)"

definition sp_IntArray_compact :: "(nat \<Rightarrow> int) \<Rightarrow> IntArray \<Rightarrow> IntArray outcome" where
  "sp_IntArray_compact g a =
     oloop (\<lambda>i r. obind (sp_IntArray_elem_nil a i) (\<lambda>nil.
       if nil then Done r else obind (olift (ld (ia_data a) (ia_start a + i))) (sp_IntArray_push g r))) 0 (ia_len a) (sp_IntArray_new g)"

section \<open>Joining\<close>

text \<open>The buffer of \<open>join\<close>: its size and what is written; a write past the end is not defined.\<close>

definition join_put :: "nat \<times> string \<Rightarrow> string \<Rightarrow> (nat \<times> string) outcome" where
  "join_put = (\<lambda>(cap, s) t.
     let cap = (if length s + length t \<ge> cap then cap * 2 else cap)
     in if length s + length t \<le> cap then Done (cap, s @ t) else Undef)"

definition sp_IntArray_join :: "IntArray \<Rightarrow> string \<Rightarrow> string outcome" where
  "sp_IntArray_join a sep =
     obind (oloop (\<lambda>i b.
       obind (if i > 0 then join_put b sep else Done b) (\<lambda>b.
       obind (olift (ld (ia_data a) (ia_start a + i))) (\<lambda>v.
       obind (sp_IntArray_elem_nil a i) (\<lambda>nil. join_put b (if nil then [] else dec_int v))))) 0 (ia_len a) (256, [])) (\<lambda>(cap, s).
     if length s < cap then Done s else Undef)"

section \<open>What the comparisons answer\<close>

lemma ia_eq_loop_ok:
  assumes "becomes fr xs a" "becomes fr' ys b" "length xs = length ys" "\<forall>i \<in> set is. i < length xs"
  shows "eq_loop a b is = Done (\<forall>i \<in> set is. xs ! i = ys ! i)"
  using assms(4)
proof (induction "is")
  case (Cons i "is")
  have i: "i < length xs" "i < length ys" using Cons.prems assms(3) by auto
  note r = data_read [OF assms(1) i(1)] data_read [OF assms(2) i(2)] elem_nil_ok [OF assms(1) i(1)] elem_nil_ok [OF assms(2) i(2)]
  have z: "xs ! i = None \<Longrightarrow> ia_data a ! (ia_start a + i) = 0" "ys ! i = None \<Longrightarrow> ia_data b ! (ia_start b + i) = 0"
    using nil_slot_zero [OF assms(1) i(1)] nil_slot_zero [OF assms(2) i(2)] by auto
  have x: "xs ! i = slot a (ia_start a + i)" "ys ! i = slot b (ia_start b + i)" using becomes_nth [OF assms(1) i(1)] becomes_nth [OF assms(2) i(2)] by auto
  have n: "ia_start a + i \<in> nils a \<Longrightarrow> ia_nilbits a \<noteq> None" "ia_start b + i \<in> nils b \<Longrightarrow> ia_nilbits b \<noteq> None" by (auto simp: nils_def split: option.splits)
  have IH: "eq_loop a b is = Done (\<forall>i \<in> set is. xs ! i = ys ! i)" using Cons by simp
  show ?case using z n unfolding eq_loop.simps r olift_Some obind_simps IH x slot_def
    by (cases "ia_start a + i \<in> nils a"; cases "ia_start b + i \<in> nils b") (simp_all add: x slot_def)
qed simp

lemma ia_eq_ok:
  assumes "becomes fr xs a" "becomes fr' ys b"
  shows "sp_IntArray_eq a b = Done (xs = ys)"
proof (cases "length xs = length ys")
  case True
  then have "(\<forall>i \<in> set [0..<length xs]. xs ! i = ys ! i) = (xs = ys)" by (auto intro: nth_equalityI)
  then show ?thesis using ia_eq_loop_ok [OF assms True, of "[0..<length xs]"] True becomesD(4) [OF assms(1)] becomesD(4) [OF assms(2)]
    by (simp add: sp_IntArray_eq_def)
next
  case False
  then show ?thesis using becomesD(4) [OF assms(1)] becomesD(4) [OF assms(2)] by (auto simp: sp_IntArray_eq_def)
qed

text \<open>Ruby's \<^verbatim>\<open><=>\<close>: the first pair that differs decides, and a nil against a number gives nil.\<close>

fun spaceship :: "int option list \<Rightarrow> int option list \<Rightarrow> int option" where
  "spaceship (x # xs) (y # ys) =
     (case (x, y) of (None, None) \<Rightarrow> spaceship xs ys
      | (Some v, Some w) \<Rightarrow> if v < w then Some (- 1) else if v > w then Some 1 else spaceship xs ys
      | _ \<Rightarrow> None)"
| "spaceship [] [] = Some 0"
| "spaceship [] (y # ys) = Some (- 1)"
| "spaceship (x # xs) [] = Some 1"

lemma cmp_loop_ok:
  assumes "becomes fr xs a" "becomes fr' ys b" "int (length xs) < 2 ^ 63" "int (length ys) < 2 ^ 63"
  shows "i \<le> min (length xs) (length ys) \<Longrightarrow> cmp_loop a b [i..<min (length xs) (length ys)] = Done (spaceship (drop i xs) (drop i ys))"
proof (induction "min (length xs) (length ys) - i" arbitrary: i)
  case 0
  then have "i = min (length xs) (length ys)" by simp
  then show ?case using becomesD(4) [OF assms(1)] becomesD(4) [OF assms(2)]
    by (cases "drop i xs"; cases "drop i ys") (auto simp: min_def split: if_splits)
next
  case (Suc n)
  then have i: "i < length xs" "i < length ys" "i < min (length xs) (length ys)" by auto
  have "cmp_loop a b [Suc i..<min (length xs) (length ys)] = Done (spaceship (drop (Suc i) xs) (drop (Suc i) ys))" using Suc i by simp
  moreover have "[i..<min (length xs) (length ys)] = i # [Suc i..<min (length xs) (length ys)]" using i(3) by (rule upt_conv_Cons)
  ultimately show ?case using oget_nth [OF assms(1) i(1) assms(3)] oget_nth [OF assms(2) i(2) assms(4)]
    by (simp add: Cons_nth_drop_Suc [OF i(1), symmetric] Cons_nth_drop_Suc [OF i(2), symmetric] split: option.split)
qed

lemma cmp_ok:
  assumes "becomes fr xs a" "becomes fr' ys b" "int (length xs) < 2 ^ 63" "int (length ys) < 2 ^ 63"
  shows "sp_IntArray_cmp_o a b = Done (spaceship xs ys)"
proof -
  have "(if ia_len a < ia_len b then ia_len a else ia_len b) = min (length xs) (length ys)"
    using becomesD(4) [OF assms(1)] becomesD(4) [OF assms(2)] by (simp add: min_def)
  then show ?thesis using cmp_loop_ok [OF assms, of 0] by (simp only: sp_IntArray_cmp_o_def) simp
qed

section \<open>The sum\<close>

lemma sum_checked_spec:
  assumes "in_i64 seed"
  shows "\<exists>k. sum_checked seed i vs = (i + k, seed + sum_list (take k vs)) \<and> k \<le> length vs \<and>
    (\<forall>j \<le> k. in_i64 (seed + sum_list (take j vs))) \<and> (k < length vs \<longrightarrow> \<not> in_i64 (seed + sum_list (take (Suc k) vs)))"
  using assms
proof (induction vs arbitrary: seed i)
  case (Cons v vs)
  show ?case
  proof (cases "in_i64 (seed + v)")
    case True
    obtain k where k: "sum_checked (seed + v) (Suc i) vs = (Suc i + k, seed + v + sum_list (take k vs))" "k \<le> length vs"
      "\<forall>j \<le> k. in_i64 (seed + v + sum_list (take j vs))" "k < length vs \<longrightarrow> \<not> in_i64 (seed + v + sum_list (take (Suc k) vs))"
      using Cons.IH [OF True, of "Suc i"] by blast
    have "\<forall>j \<le> Suc k. in_i64 (seed + sum_list (take j (v # vs)))"
      using k(3) Cons.prems by (auto simp: take_Cons' add.assoc) 
    then show ?thesis using True k by (intro exI [of _ "Suc k"]) (auto simp: add.assoc)
  next
    case False
    then show ?thesis using Cons.prems by (intro exI [of _ 0]) simp
  qed
qed simp

lemma sum_bound_ok:
  "fst (fold (\<lambda>v (total, bound). (total + of_int v, bound OR of_int v)) vs (t, b :: 64 word)) = (t :: 64 word) + of_int (sum_list vs)"
  "bit (snd (fold (\<lambda>v (total, bound). (total + of_int v, bound OR of_int v)) vs (t, b :: 64 word))) n \<longleftrightarrow> bit b n \<or> (\<exists>v \<in> set vs. bit (of_int v :: 64 word) n)"
  by (induction vs arbitrary: t b) (auto simp: bit_or_iff)

lemma or_le: "(\<And>n. bit (x :: 64 word) n \<Longrightarrow> bit y n) \<Longrightarrow> x \<le> y"
proof -
  assume "\<And>n. bit x n \<Longrightarrow> bit y n"
  then have "x = x AND y" by (intro bit_word_eqI) (auto simp: bit_and_iff)
  then show "x \<le> y" by (metis word_and_le1)
qed

lemma small_word:
  assumes "in_i64 v" "unat (of_int v :: 64 word) \<le> nat INT64_MAX"
  shows "0 \<le> v" "unat (of_int v :: 64 word) = nat v"
proof -
  have u: "uint (of_int v :: 64 word) = v mod 2 ^ 64" by (simp add: uint_word_of_int)
  have "int (unat (of_int v :: 64 word)) \<le> int (nat INT64_MAX)" using assms(2) by (simp only: of_nat_le_iff)
  moreover have "int (unat (of_int v :: 64 word)) = uint (of_int v :: 64 word)" "int (nat INT64_MAX) = INT64_MAX" by (simp_all add: INT64_MAX_def)
  ultimately have "uint (of_int v :: 64 word) \<le> INT64_MAX" by (simp only:)
  then have le: "v mod 2 ^ 64 \<le> INT64_MAX" using u by simp
  show p: "0 \<le> v"
  proof (rule ccontr)
    assume "\<not> 0 \<le> v"
    then have "(v + 2 ^ 64) mod 2 ^ 64 = v + 2 ^ 64" using assms(1) by (intro mod_pos_pos_trivial) (auto simp: in_i64_def INT64_MIN_def)
    then have "v mod 2 ^ 64 = v + 2 ^ 64" unfolding mod_add_self2 .
    then show False using le assms(1) by (simp add: in_i64_def INT64_MIN_def INT64_MAX_def)
  qed
  have "v mod 2 ^ 64 = v" using p assms(1) by (intro mod_pos_pos_trivial) (auto simp: in_i64_def INT64_MAX_def)
  then show "unat (of_int v :: 64 word) = nat v" using u by (simp only: unat_eq_nat_uint)
qed

lemma sum_bounds:
  assumes "\<forall>v \<in> set vs. 0 \<le> v \<and> v \<le> (m :: int)" "j \<le> length vs" "0 \<le> m"
  shows "0 \<le> sum_list (take j vs)" "sum_list (take j vs) \<le> m * int (length vs)"
proof -
  have t: "\<forall>v \<in> set (take j vs). 0 \<le> v \<and> v \<le> m" using assms(1) by (meson in_set_takeD)
  then show "0 \<le> sum_list (take j vs)" by (simp add: sum_list_nonneg)
  have "sum_list us \<le> m * int (length us)" if "\<forall>v \<in> set us. 0 \<le> v \<and> v \<le> m" for us
    using that by (induction us) (auto simp: algebra_simps)
  from this [OF t] have "sum_list (take j vs) \<le> m * int j" using assms(2) by simp
  also have "\<dots> \<le> m * int (length vs)" using assms(2,3) by (simp add: mult_left_mono)
  finally show "sum_list (take j vs) \<le> m * int (length vs)" .
qed

lemma sint_of_int: "in_i64 x \<Longrightarrow> sint (of_int x :: 64 word) = x"
  by (simp add: sint_sbintrunc' signed_take_bit_int_eq_self_iff in_i64_def INT64_MIN_def INT64_MAX_def)

lemma room_of_int: "in_i64 seed \<Longrightarrow> unat (of_int INT64_MAX - of_int seed :: 64 word) = nat (INT64_MAX - seed)"
proof -
  assume s: "in_i64 seed"
  have "(of_int INT64_MAX - of_int seed :: 64 word) = of_int (INT64_MAX - seed)" by simp
  then have "uint (of_int INT64_MAX - of_int seed :: 64 word) = (INT64_MAX - seed) mod 2 ^ 64" by (simp only: uint_word_of_int) simp
  also have "\<dots> = INT64_MAX - seed" using s by (intro mod_pos_pos_trivial) (auto simp: in_i64_def INT64_MIN_def INT64_MAX_def)
  finally show ?thesis by (simp only: unat_eq_nat_uint)
qed

text \<open>The vectorized sum is the one that checks every addition.\<close>

lemma sum_values_checked:
  assumes "in_i64 seed" "\<forall>v \<in> set vs. in_i64 v"
  shows "sum_values seed vs = sum_checked seed 0 vs"
proof -
  obtain total bound where tb: "sum_bound vs = (total, bound)" by (cases "sum_bound vs")
  let ?limit = "unat bound * length vs"
  show ?thesis
  proof (cases "unat bound \<le> nat INT64_MAX \<and> ?limit < 2 ^ 64 \<and> ?limit \<le> unat (of_int INT64_MAX - of_int seed :: 64 word)")
    case True
    have total: "total = of_int (sum_list vs)" using sum_bound_ok(1) [of vs 0 0] tb by (simp add: sum_bound_def)
    have "(of_int v :: 64 word) \<le> bound" if "v \<in> set vs" for v
      using sum_bound_ok(2) [of vs 0 0] tb that by (intro or_le) (auto simp: sum_bound_def)
    then have w: "unat (of_int v :: 64 word) \<le> unat bound" if "v \<in> set vs" for v using that by (simp add: word_le_nat_alt)
    have v: "0 \<le> v \<and> v \<le> int (unat bound)" if "v \<in> set vs" for v
      using small_word [of v] w [OF that] True assms(2) that by (auto simp: nat_le_iff)
    have lim: "int (unat bound) * int (length vs) \<le> INT64_MAX - seed"
    proof -
      have "int ?limit \<le> int (nat (INT64_MAX - seed))" using True room_of_int [OF assms(1)] by (metis of_nat_le_iff)
      also have "\<dots> = INT64_MAX - seed" using assms(1) by (simp add: in_i64_def)
      finally show ?thesis by simp
    qed
    have r: "in_i64 (seed + sum_list (take j vs))" if "j \<le> length vs" for j
      using sum_bounds [of vs "int (unat bound)" j] v that lim assms(1) by (auto simp: in_i64_def)
    obtain k where k: "sum_checked seed 0 vs = (0 + k, seed + sum_list (take k vs))" "k \<le> length vs" "k < length vs \<longrightarrow> \<not> in_i64 (seed + sum_list (take (Suc k) vs))"
      using sum_checked_spec [OF assms(1), of 0 vs] by blast
    then have "k = length vs" using r [of "Suc k"] by (cases "k < length vs") auto
    moreover have "sint (of_int seed + total :: 64 word) = seed + sum_list vs"
      unfolding total using sint_of_int [OF r [of "length vs"]] by simp
    ultimately show ?thesis using k(1) True tb by (simp add: sum_values_def)
  qed (use tb in \<open>auto simp: sum_values_def Let_def\<close>)
qed

section \<open>What the filters keep\<close>

lemma squeeze_ok:
  assumes "s + i + n \<le> length d" "w \<le> i"
  shows "odone (\<lambda>(d', w'). length d' = length d \<and> w' = w + length (filter keep (take n (drop (s + i) d))) \<and>
    take w' (drop s d') = take w (drop s d) @ filter keep (take n (drop (s + i) d))) (squeeze keep d s w i n)"
  using assms
proof (induction n arbitrary: d w i)
  case (Suc n)
  let ?x = "d ! (s + i)"
  have i: "s + i < length d" using Suc.prems by simp
  have t: "take (Suc n) (drop (s + i) d) = ?x # take n (drop (s + (i + 1)) d)" using i by (simp add: Cons_nth_drop_Suc [symmetric])
  show ?case
  proof (cases "keep ?x")
    case True
    let ?d = "d[s + w := ?x]"
    have "drop (s + (i + 1)) ?d = drop (s + (i + 1)) d" using Suc.prems by simp
    moreover have "take (w + 1) (drop s ?d) = take w (drop s d) @ [?x]"
    proof -
      have "drop s ?d = (drop s d)[w := ?x]" by (simp add: drop_update_swap)
      then show ?thesis using Suc.prems by (simp add: take_Suc_conv_app_nth)
    qed
    ultimately show ?thesis using Suc.IH [of "i + 1" ?d "w + 1"] Suc.prems True i by (auto simp: t elim!: odone_mono)
  next
    case False
    then show ?thesis using Suc.IH [of "i + 1" d w] Suc.prems i by (auto simp: t elim!: odone_mono)
  qed
qed simp

lemma squeeze_list: "squeeze keep xs 0 0 0 (length xs) = Done (d, w) \<Longrightarrow> take w d = filter keep xs \<and> w = length (filter keep xs)"
  using squeeze_ok [of 0 0 "length xs" xs 0 keep] by (auto simp: odone_def)

lemma squeeze_done: "\<exists>d w. squeeze keep xs 0 0 0 (length xs) = Done (d, w)"
  using squeeze_ok [of 0 0 "length xs" xs 0 keep] by (auto simp: odone_def)

lemma removed_some: "(length xs - length (filter (\<lambda>x. x \<noteq> v) xs) > 0) = (v \<in> set xs)"
proof -
  have "length (filter (\<lambda>x. x \<noteq> v) xs) < length xs \<longleftrightarrow> v \<in> set xs" by (induction xs) (auto simp: less_Suc_eq_le length_filter_le)
  then show ?thesis by simp
qed

lemma delete_becomes:
  assumes "becomes False xs a" "int (length xs) < 2 ^ 63"
  shows "odone (\<lambda>r. fst r = (if Some v \<in> set xs then Some v else None) \<and> becomes False (filter (\<lambda>x. x \<noteq> Some v) xs) (snd r)) (sp_IntArray_delete_o a v)"
proof (cases "ia_nilbits a = None")
  case True
  have l: "ia_len a = length xs" "ia_shape a" "ia_start a + length xs \<le> ia_cap a" "\<not> ia_frozen a" "length (ia_data a) = ia_cap a"
    using becomesD(1,3,4) [OF assms(1)] by (auto simp: ia_inv_def ia_shape_def)
  let ?vs = "plain_list a" and ?s = "ia_start a"
  have p: "map Some ?vs = xs" "length ?vs = length xs" "take (length xs) (drop ?s (ia_data a)) = ?vs"
    using plain_map [OF assms(1) True] l by (auto simp: plain_list_def)
  obtain d w where d: "squeeze (\<lambda>x. x \<noteq> v) (ia_data a) ?s 0 0 (length xs) = Done (d, w)" "length d = ia_cap a"
      "w = length (filter (\<lambda>x. x \<noteq> v) ?vs)" "take w (drop ?s d) = filter (\<lambda>x. x \<noteq> v) ?vs"
    using squeeze_ok [of ?s 0 "length xs" "ia_data a" 0 "\<lambda>x. x \<noteq> v"] l p(3) by (auto simp: odone_def)
  have f: "map Some (filter (\<lambda>x. x \<noteq> v) ?vs) = filter (\<lambda>x. x \<noteq> Some v) xs" using filter_Some [OF p(1), of "\<lambda>x. x \<noteq> Some v"] by simp
  have le: "w \<le> length xs" using d(3) p(2) length_filter_le [of "\<lambda>x. x \<noteq> v" ?vs] by simp
  have "becomes False (map Some (filter (\<lambda>x. x \<noteq> v) ?vs)) (a\<lparr>ia_data := d, ia_len := w\<rparr>)"
    unfolding d(4) [symmetric] using l d(2) le True by (intro plain_becomes) auto
  moreover have "(length xs - w > 0) = (Some v \<in> set xs)" using removed_some [of ?vs v] d(3) p(1,2) by auto
  ultimately show ?thesis using True l d(1) f by (simp add: sp_IntArray_delete_o_def)
next
  case False
  have l: "ia_len a = length xs" "\<not> ia_frozen a" using becomesD(3,4) [OF assms(1)] by auto
  obtain d w where d: "squeeze (\<lambda>x. x \<noteq> Some v) xs 0 0 0 (length xs) = Done (d, w)" using squeeze_done by blast
  have w: "take w d = filter (\<lambda>x. x \<noteq> Some v) xs" "w = length (filter (\<lambda>x. x \<noteq> Some v) xs)" using squeeze_list [OF d] by auto
  have "odone (becomes False (filter (\<lambda>x. x \<noteq> Some v) xs)) (ia_unpack a (filter (\<lambda>x. x \<noteq> Some v) xs))"
    by (rule ia_unpack_becomes [OF assms(1)]) simp
  then show ?thesis using False l d w removed_some [of xs "Some v"] ia_pack_ok [OF assms]
    by (auto simp: sp_IntArray_delete_o_def elim!: odone_mono)
qed

lemma delete_nil_becomes:
  assumes "becomes False xs a" "int (length xs) < 2 ^ 63"
  shows "odone (\<lambda>r. fst r = (None \<in> set xs) \<and> becomes False (filter (\<lambda>x. x \<noteq> None) xs) (snd r)) (sp_IntArray_delete_nil a)"
proof (cases "ia_nilbits a = None")
  case True
  have "None \<notin> set xs" using nils_window [OF assms(1)] True by (auto simp: in_set_conv_nth)
  then have "filter (\<lambda>x. x \<noteq> None) xs = xs" by (metis (mono_tags, lifting) filter_True)
  then show ?thesis using True assms(1) \<open>None \<notin> set xs\<close> by (simp add: sp_IntArray_delete_nil_def del: not_None_eq)
next
  case False
  have l: "ia_len a = length xs" "\<not> ia_frozen a" using becomesD(3,4) [OF assms(1)] by auto
  let ?ys = "filter (\<lambda>x. x \<noteq> None) xs"
  obtain d w where d: "squeeze (\<lambda>x. x \<noteq> None) xs 0 0 0 (length xs) = Done (d, w)" using squeeze_done by blast
  have w: "take w d = ?ys" "w = length ?ys" using squeeze_list [OF d] by auto
  have u: "odone (becomes False ?ys) (ia_unpack a ?ys)" by (rule ia_unpack_becomes [OF assms(1)]) simp
  have n: "(w \<noteq> length xs) = (None \<in> set xs)" using removed_some [of xs None] w(2) length_filter_le [of "\<lambda>x. x \<noteq> None" xs] by linarith
  have "becomes False ?ys (sp_IntArray_drop_nilbits b)" if b: "becomes False ?ys b" for b
  proof -
    have "?ys ! i \<noteq> None" if "i < length ?ys" for i using nth_mem [OF that] by auto
    then have "nils b = {}" unfolding nils_window [OF b] by blast
    then show ?thesis using b by (auto simp: becomes_def sp_IntArray_drop_nilbits_def ia_inv_def ia_shape_def ia_list_def slot_def)
  qed
  then show ?thesis using False l d w n u ia_pack_ok [OF assms]
    by (auto simp: sp_IntArray_delete_nil_def simp del: not_None_eq elim!: odone_mono)
qed

lemma compact_becomes:
  assumes "becomes fr xs a"
  shows "odone (becomes False (filter (\<lambda>x. x \<noteq> None) xs)) (sp_IntArray_compact g a)"
proof -
  let ?I = "\<lambda>i. becomes False (filter (\<lambda>x. x \<noteq> None) (take i xs))"
  have "odone (?I (0 + ia_len a)) (sp_IntArray_compact g a)" unfolding sp_IntArray_compact_def
  proof (rule odone_oloop)
    fix i r assume i: "i < 0 + ia_len a" and r: "?I i r"
    have j: "i < length xs" using i becomesD(4) [OF assms] by simp
    have t: "take (Suc i) xs = take i xs @ [xs ! i]" using j by (simp add: take_Suc_conv_app_nth)
    have "xs ! i = None \<or> xs ! i = Some (ia_data a ! (ia_start a + i))" using becomes_nth [OF assms j] by (auto simp: slot_def)
    then show "odone (?I (Suc i)) (obind (sp_IntArray_elem_nil a i) (\<lambda>nil.
       if nil then Done r else obind (olift (ld (ia_data a) (ia_start a + i))) (sp_IntArray_push g r)))"
      using r t push_becomes [OF r] by (auto simp: elem_nil_ok [OF assms j] data_read [OF assms j])
  qed (use new_becomes in simp)
  then show ?thesis using becomesD(4) [OF assms] by simp
qed

section \<open>What join writes\<close>

fun join_with :: "string \<Rightarrow> string list \<Rightarrow> string" where
  "join_with sep [] = []"
| "join_with sep [t] = t"
| "join_with sep (t # ts) = t @ sep @ join_with sep ts"

definition elem_text :: "int option \<Rightarrow> string" where
  "elem_text x = (case x of None \<Rightarrow> [] | Some v \<Rightarrow> dec_int v)"

lemma join_with_snoc: "join_with sep (ts @ [t]) = (if ts = [] then t else join_with sep ts @ sep @ t)"
  by (induction sep ts rule: join_with.induct) auto

lemma dec_nat_length: "n < 10 ^ Suc k \<Longrightarrow> length (dec_nat n) \<le> Suc k"
proof (induction n arbitrary: k rule: dec_nat.induct)
  case (1 n)
  show ?case
  proof (cases "n < 10")
    case False
    then obtain j where j: "k = Suc j" using "1.prems" by (cases k) auto
    have "n div 10 < 10 ^ Suc j" using "1.prems" j by (simp add: div_less_iff_less_mult mult.commute)
    then show ?thesis using "1.IH" [of j] False j by (simp add: dec_nat.simps [of n])
  qed (simp add: dec_nat.simps [of n])
qed

lemma dec_int_length: "in_i64 v \<Longrightarrow> length (dec_int v) \<le> 20"
proof -
  assume "in_i64 v"
  then have "nat \<bar>v\<bar> < 10 ^ Suc 18" by (auto simp: in_i64_def INT64_MIN_def INT64_MAX_def nat_less_iff)
  then have "length (dec_nat (nat \<bar>v\<bar>)) \<le> 19" using dec_nat_length [of "nat \<bar>v\<bar>" 18] by simp
  then show ?thesis by (auto simp: dec_int_def split: if_splits)
qed

lemma join_put_ok:
  assumes "length s < cap" "length t \<le> 256" "256 \<le> cap"
  shows "odone (\<lambda>(cap', s'). s' = s @ t \<and> length s' < cap' \<and> 256 \<le> cap') (join_put (cap, s) t)"
  using assms by (auto simp: join_put_def Let_def)

lemma join_ok:
  assumes "becomes fr xs a" "length sep \<le> 256" "\<forall>v. Some v \<in> set xs \<longrightarrow> in_i64 v"
  shows "sp_IntArray_join a sep = Done (join_with sep (map elem_text xs))"
proof -
  let ?I = "\<lambda>i (cap, s). s = join_with sep (map elem_text (take i xs)) \<and> length s < cap \<and> 256 \<le> cap"
  let ?f = "\<lambda>i b. obind (if i > 0 then join_put b sep else Done b) (\<lambda>b.
       obind (olift (ld (ia_data a) (ia_start a + i))) (\<lambda>v.
       obind (sp_IntArray_elem_nil a i) (\<lambda>nil. join_put b (if nil then [] else dec_int v))))"
  have "odone (?I (0 + ia_len a)) (oloop ?f 0 (ia_len a) (256, []))"
  proof (rule odone_oloop)
    fix i b assume i: "i < 0 + ia_len a" and "?I i b"
    then obtain cap s where b: "b = (cap, s)" "s = join_with sep (map elem_text (take i xs))" "length s < cap" "256 \<le> cap" by (cases b) auto
    have j: "i < length xs" using i becomesD(4) [OF assms(1)] by simp
    let ?s = "if i > 0 then s @ sep else s"
    have "odone (\<lambda>(cap', s'). s' = ?s \<and> length s' < cap' \<and> 256 \<le> cap') (if i > 0 then join_put b sep else Done b)"
      using join_put_ok [OF b(3) assms(2) b(4)] b by simp
    then obtain cap1 where c: "(if i > 0 then join_put b sep else Done b) = Done (cap1, ?s)" "length ?s < cap1" "256 \<le> cap1" by (auto simp: odone_def)
    have t: "(if xs ! i = None then [] else dec_int (ia_data a ! (ia_start a + i))) = elem_text (xs ! i)"
      using becomes_nth [OF assms(1) j] by (auto simp: slot_def elem_text_def split: if_splits)
    have "length (elem_text (xs ! i)) \<le> 256"
    proof (cases "xs ! i")
      case (Some v)
      then show ?thesis using dec_int_length [of v] assms(3) nth_mem [OF j] by (simp add: elem_text_def)
    qed (simp add: elem_text_def)
    then have "odone (\<lambda>(cap', s'). s' = ?s @ elem_text (xs ! i) \<and> length s' < cap' \<and> 256 \<le> cap') (join_put (cap1, ?s) (elem_text (xs ! i)))"
      using c by (intro join_put_ok)
    moreover have "?f i b = join_put (cap1, ?s) (elem_text (xs ! i))"
      unfolding c(1) obind_simps elem_nil_ok [OF assms(1) j] data_read [OF assms(1) j] olift_Some t ..
    moreover have "?s @ elem_text (xs ! i) = join_with sep (map elem_text (take (Suc i) xs))"
      using j b(2) by (auto simp: take_Suc_conv_app_nth join_with_snoc)
    ultimately show "odone (?I (Suc i)) (?f i b)" by (simp only:)
  qed simp
  then show ?thesis unfolding sp_IntArray_join_def using becomesD(4) [OF assms(1)] by (auto simp: odone_def)
qed

text \<open>A separator that does not fit after one doubling.\<close>

lemma join_overflow:
  assumes "becomes fr (x # y # zs) a" "\<And>v. x = Some v \<Longrightarrow> in_i64 v" "512 < length (elem_text x) + length sep"
  shows "sp_IntArray_join a sep = Undef"
proof -
  let ?xs = "x # y # zs"
  have l: "ia_len a = Suc (Suc (length zs))" using becomesD(4) [OF assms(1)] by simp
  have j: "0 < length ?xs" by simp
  have t: "(if ?xs ! 0 = None then [] else dec_int (ia_data a ! (ia_start a + 0))) = elem_text x"
    using becomes_nth [OF assms(1) j] by (auto simp: slot_def elem_text_def split: if_splits)
  have "length (elem_text x) \<le> 20" using dec_int_length assms(2) by (cases x) (auto simp: elem_text_def)
  then have p: "join_put (256, []) (elem_text x) = Done (256, elem_text x)" "join_put (256, elem_text x) sep = Undef"
    using assms(3) by (simp_all add: join_put_def Let_def)
  let ?f = "\<lambda>i b. obind (if i > 0 then join_put b sep else Done b) (\<lambda>b.
       obind (olift (ld (ia_data a) (ia_start a + i))) (\<lambda>v.
       obind (sp_IntArray_elem_nil a i) (\<lambda>nil. join_put b (if nil then [] else dec_int v))))"
  have "?f 0 (256, []) = Done (256, elem_text x)"
    unfolding data_read [OF assms(1) j] elem_nil_ok [OF assms(1) j] olift_Some obind_simps t by (simp add: p)
  moreover have "?f (Suc 0) (256, elem_text x) = Undef" by (simp add: p)
  ultimately have "oloop ?f 0 (ia_len a) (256, []) = Undef" unfolding l by simp
  then show ?thesis by (simp add: sp_IntArray_join_def)
qed

end
