(* ===== verification/IaLaws.thy ===== *)
theory IaLaws
  imports IaFolds "HOL-Library.Code_Target_Nat"
begin

text \<open>
  Histories of an Array of Integers: any sequence of operations on one array, with the errors that they
  raise, gives the answers of the same operations on a list of Integers and nils. The properties of the
  single operations follow.
\<close>

section \<open>Operations\<close>

datatype ia_op =
    Push "int option" | Pop | Shift | Unshift "int option" | Store int "int option" | Insert int "int option"
  | DeleteAt int | Delete int | Compact | Reverse | Rotate int | Freeze

type_synonym ia_result = "rb_error + int option"

definition no_value :: "IntArray outcome \<Rightarrow> (int option \<times> IntArray) outcome" where
  "no_value m = obind m (\<lambda>a. Done (None, a))"

text \<open>\<^verbatim>\<open>((sp_IntArray *)v.v.p)->frozen = 1\<close>\<close>

definition ia_freeze :: "IntArray \<Rightarrow> IntArray" where
  "ia_freeze a = a\<lparr>ia_frozen := True\<rparr>"

text \<open>The answer of \<^verbatim>\<open>compact!\<close> is the C Boolean it returns.\<close>

fun ia_step :: "(nat \<Rightarrow> int) \<Rightarrow> ia_op \<Rightarrow> IntArray \<Rightarrow> (int option \<times> IntArray) outcome" where
  "ia_step g (Push x) a = no_value (sp_IntArray_push_o g a x)"
| "ia_step g Pop a = sp_IntArray_pop_o a"
| "ia_step g Shift a = sp_IntArray_shift_o a"
| "ia_step g (Unshift x) a = no_value (case x of None \<Rightarrow> sp_IntArray_unshift_nil g a | Some v \<Rightarrow> sp_IntArray_unshift g a v)"
| "ia_step g (Store i x) a = no_value (sp_IntArray_oset g a i x)"
| "ia_step g (Insert i x) a = no_value (case x of None \<Rightarrow> sp_IntArray_insert_nil g a i | Some v \<Rightarrow> sp_IntArray_insert g a i v)"
| "ia_step g (DeleteAt i) a = sp_IntArray_delete_at_o a i"
| "ia_step g (Delete v) a = sp_IntArray_delete_o a v"
| "ia_step g Compact a = obind (sp_IntArray_compact_bang a) (\<lambda>r. Done (Some (of_bool (fst r)), snd r))"
| "ia_step g Reverse a = no_value (sp_IntArray_reverse_bang a)"
| "ia_step g (Rotate n) a = no_value (sp_IntArray_rotate_bang g a n)"
| "ia_step g Freeze a = Done (None, ia_freeze a)"

text \<open>An error leaves the array as it was, and the program goes on; \<open>None\<close> is an undefined access.\<close>

fun ia_run :: "(nat \<Rightarrow> int) \<Rightarrow> ia_op list \<Rightarrow> IntArray \<Rightarrow> (ia_result list \<times> IntArray) option" where
  "ia_run g [] a = Some ([], a)"
| "ia_run g (op # ops) a =
     (case ia_step g op a of
        Done (r, a') \<Rightarrow> map_option (apfst (Cons (Inr r))) (ia_run g ops a')
      | Raise e \<Rightarrow> map_option (apfst (Cons (Inl e))) (ia_run g ops a)
      | Undef \<Rightarrow> None)"

section \<open>The specification\<close>

definition frozen_error :: rb_error where
  "frozen_error = RbError ''FrozenError'' ''can't modify frozen Array''"

definition small_error :: "int \<Rightarrow> int \<Rightarrow> rb_error" where
  "small_error i m = RbError ''IndexError'' (''index '' @ dec_int i @ '' too small for array; minimum: '' @ dec_int m)"

text \<open>The change of the elements, and what the operation answers.\<close>

fun op_changes :: "ia_op \<Rightarrow> int option list \<Rightarrow> int option \<times> int option list" where
  "op_changes (Push x) xs = (None, xs @ [x])"
| "op_changes Pop xs = (if xs = [] then (None, []) else (last xs, butlast xs))"
| "op_changes Shift xs = (if xs = [] then (None, []) else (hd xs, tl xs))"
| "op_changes (Unshift x) xs = (None, x # xs)"
| "op_changes (Store i x) xs = (None, put_index xs (nat (norm_index xs i)) x)"
| "op_changes (Insert i x) xs =
     (let k = nat (if i < 0 then i + int (length xs) + 1 else i) in (None, insert_nth k x (xs @ replicate (k - length xs) None)))"
| "op_changes (DeleteAt i) xs =
     (let k = norm_index xs i in if 0 \<le> k \<and> k < int (length xs) then (xs ! nat k, remove_nth (nat k) xs) else (None, xs))"
| "op_changes (Delete v) xs = (if Some v \<in> set xs then Some v else None, filter (\<lambda>x. x \<noteq> Some v) xs)"
| "op_changes Compact xs = (Some (of_bool (None \<in> set xs)), filter (\<lambda>x. x \<noteq> None) xs)"
| "op_changes Reverse xs = (None, rev xs)"
| "op_changes (Rotate n) xs = (None, if xs = [] then [] else rotate (nat (n mod int (length xs))) xs)"
| "op_changes Freeze xs = (None, xs)"

text \<open>The operations that a frozen array refuses: all but freezing and those that find nothing to take out.\<close>

fun op_refused :: "ia_op \<Rightarrow> int option list \<Rightarrow> bool" where
  "op_refused Pop xs = (xs \<noteq> [])"
| "op_refused Shift xs = (xs \<noteq> [])"
| "op_refused (DeleteAt i) xs = (0 \<le> norm_index xs i \<and> norm_index xs i < int (length xs))"
| "op_refused (Delete v) xs = (Some v \<in> set xs)"
| "op_refused Freeze xs = False"
| "op_refused _ xs = True"

fun op_error :: "ia_op \<Rightarrow> int option list \<Rightarrow> rb_error option" where
  "op_error (Store i x) xs = (if norm_index xs i < 0 then Some (small_error i (- int (length xs))) else None)"
| "op_error (Insert i x) xs = (if i + int (length xs) + 1 < 0 then Some (small_error i (- (int (length xs) + 1))) else None)"
| "op_error _ xs = None"

fun spec_run :: "ia_op list \<Rightarrow> bool \<Rightarrow> int option list \<Rightarrow> ia_result list \<times> bool \<times> int option list" where
  "spec_run [] fr xs = ([], fr, xs)"
| "spec_run (op # ops) fr xs =
     (if fr \<and> op_refused op xs then apfst (Cons (Inl frozen_error)) (spec_run ops fr xs)
      else case op_error op xs of
        Some e \<Rightarrow> apfst (Cons (Inl e)) (spec_run ops fr xs)
      | None \<Rightarrow> let (r, ys) = op_changes op xs in apfst (Cons (Inr r)) (spec_run ops (fr \<or> op = Freeze) ys))"

text \<open>
  The buffer stays below \<open>2 ^ 61\<close> slots, where \<open>sp_IntArray_set_cap\<close> ends the program, and the indices of a store are
  64-bit numbers below that.
\<close>

fun op_fits :: "ia_op \<Rightarrow> bool" where
  "op_fits (Store i x) = (in_i64 i \<and> i < 2 ^ 62)"
| "op_fits (DeleteAt i) = in_i64 i"
| "op_fits _ = True"

fun ia_fits :: "(nat \<Rightarrow> int) \<Rightarrow> ia_op list \<Rightarrow> IntArray \<Rightarrow> bool" where
  "ia_fits g [] a = True"
| "ia_fits g (op # ops) a =
     (int (ia_cap a) < 2 ^ 61 \<and> op_fits op \<and>
      (case ia_step g op a of Done (r, a') \<Rightarrow> ia_fits g ops a' | Raise e \<Rightarrow> ia_fits g ops a | Undef \<Rightarrow> True))"

section \<open>One operation\<close>

lemma becomes_fits: "becomes fr xs a \<Longrightarrow> ia_cap a < 2 ^ 61 \<Longrightarrow> ia_start a + length xs < 2 ^ 61"
  using becomesD(1,4) [of fr xs a] by (simp add: ia_inv_def)

lemma odone_no_value: "odone P m \<Longrightarrow> odone (\<lambda>r. fst r = None \<and> P (snd r)) (no_value m)"
  by (auto simp: no_value_def odone_def)

lemma freeze_becomes: "becomes fr xs a \<Longrightarrow> becomes True xs (ia_freeze a)"
  by (auto simp: becomes_def ia_freeze_def ia_inv_def ia_shape_def ia_list_def slot_def nils_def)

lemma raise_frozen: "sp_raise_frozen_array = Raise frozen_error"
  by (simp add: sp_raise_frozen_array_def frozen_error_def oraise_def)

lemma index_hit: "becomes fr xs a \<Longrightarrow> \<exists>i. sp_IntArray_index a v = Done i \<and> (i \<ge> 0 \<longleftrightarrow> Some v \<in> set xs)"
  using find_upt [of "\<lambda>i. xs ! i = Some v" "length xs"]
  by (auto simp: sp_IntArray_index_def find_hit in_set_conv_nth split: option.split simp del: not_None_eq)

lemma step_frozen:
  assumes "becomes True xs a" "op_refused op xs"
  shows "ia_step g op a = Raise frozen_error"
proof -
  have f: "ia_frozen a" "ia_len a = length xs" using becomesD(3,4) [OF assms(1)] by auto
  note d = sp_IntArray_push_o_def sp_IntArray_push_nil_def sp_IntArray_push_def sp_IntArray_unshift_nil_def sp_IntArray_unshift_def
    sp_IntArray_insert_nil_def sp_IntArray_insert_def sp_IntArray_reverse_bang_def sp_IntArray_rotate_bang_def sp_IntArray_compact_bang_def
    raise_frozen no_value_def Let_def
  show ?thesis
  proof (cases op)
    case Pop
    then show ?thesis using take_frozen(1) [OF assms(1)] assms(2) by (simp add: raise_frozen)
  next
    case Shift
    then show ?thesis using take_frozen(2) [OF assms(1)] assms(2) by (simp add: raise_frozen)
  next
    case (Store i x)
    then show ?thesis using oset_error(1) [OF assms(1)] by (simp add: raise_frozen no_value_def)
  next
    case (DeleteAt i)
    then show ?thesis using f assms(2) by (simp add: sp_IntArray_delete_at_o_def ia_index_norm [OF assms(1)] raise_frozen Let_def)
  next
    case (Delete v)
    then show ?thesis using f assms(2) index_hit [OF assms(1), of v] by (auto simp: sp_IntArray_delete_o_def raise_frozen)
  qed (use f assms(2) in \<open>auto simp: d split: option.split\<close>)
qed

text \<open>A frozen array that has nothing to give answers as any other.\<close>

lemma step_idle:
  assumes "becomes True xs a" "\<not> op_refused op xs"
  shows "op_error op xs = None \<and> odone (\<lambda>r. fst r = fst (op_changes op xs) \<and> becomes True (snd (op_changes op xs)) (snd r)) (ia_step g op a)"
proof -
  have f: "ia_frozen a" "ia_len a = length xs" using becomesD(3,4) [OF assms(1)] by auto
  show ?thesis
  proof (cases op)
    case Pop
    then show ?thesis using assms take_empty(1) [of True a] by simp
  next
    case Shift
    then show ?thesis using assms take_empty(2) [of True a] by simp
  next
    case (DeleteAt i)
    then show ?thesis using f assms by (auto simp: sp_IntArray_delete_at_o_def ia_index_norm [OF assms(1)] Let_def)
  next
    case (Delete v)
    then have "filter (\<lambda>x. x \<noteq> Some v) xs = xs" using assms(2) by (metis (mono_tags, lifting) filter_True op_refused.simps(4))
    then show ?thesis using Delete f assms index_hit [OF assms(1), of v] by (auto simp: sp_IntArray_delete_o_def)
  next
    case Freeze
    then show ?thesis using freeze_becomes [OF assms(1)] by simp
  qed (use assms(2) in auto)
qed

lemma step_error:
  assumes "becomes False xs a" "op_error op xs = Some e"
  shows "ia_step g op a = Raise e"
proof -
  have l: "ia_len a = length xs" "\<not> ia_frozen a" using becomesD(3,4) [OF assms(1)] by auto
  show ?thesis
  proof (cases op)
    case (Store i x)
    then show ?thesis using assms(2) oset_error(2) [OF assms(1)] l
      by (auto simp: no_value_def too_small_def small_error_def oraise_def split: if_splits)
  next
    case (Insert i x)
    then have "sp_IntArray_insert g a i v = Raise e" for v
      using assms(2) l by (auto simp: sp_IntArray_insert_def insert_index_def Let_def small_error_def oraise_def split: if_splits)
    then show ?thesis using Insert by (auto simp: no_value_def sp_IntArray_insert_nil_def Let_def split: option.split)
  qed (use assms(2) in auto)
qed

lemma step_done:
  assumes "becomes False xs a" "op_error op xs = None" "op_fits op" "ia_cap a < 2 ^ 61"
  shows "odone (\<lambda>r. fst r = fst (op_changes op xs) \<and> becomes (op = Freeze) (snd (op_changes op xs)) (snd r)) (ia_step g op a)"
proof -
  have l: "ia_len a = length xs" "\<not> ia_frozen a" using becomesD(3,4) [OF assms(1)] by auto
  have n: "int (length xs) < 2 ^ 63" "int (ia_start a) < 2 ^ 61" using becomes_fits [OF assms(1,4)] by auto
  show ?thesis
  proof (cases op)
    case (Push x)
    then show ?thesis using odone_no_value [OF push_o_becomes [OF assms(1), of x g]] by simp
  next
    case Pop
    then show ?thesis using pop_o_becomes [OF assms(1)] take_empty(1) [of False a] assms(1) by (cases "xs = []") auto
  next
    case Shift
    then show ?thesis using shift_o_becomes [OF assms(1)] take_empty(2) [of False a] assms(1) by (cases "xs = []") auto
  next
    case (Unshift x)
    then show ?thesis using odone_no_value [OF unshift_becomes [OF assms(1)]] odone_no_value [OF unshift_nil_becomes [OF assms(1)]] by (cases x) auto
  next
    case (Store i x)
    then have "0 \<le> norm_index xs i" "int (ia_start a) + i < 2 ^ 63" using assms(2,3) n by (auto split: if_splits)
    then show ?thesis using Store odone_no_value [OF oset_becomes [OF assms(1)], of i x g] by simp
  next
    case (Insert i x)
    define k where "k = nat (if i < 0 then i + int (length xs) + 1 else i)"
    have k: "insert_index a i = int k" using Insert assms(2) l by (auto simp: k_def insert_index_def split: if_splits)
    show ?thesis using Insert odone_no_value [OF insert_becomes [OF assms(1) k]] odone_no_value [OF insert_nil_becomes [OF assms(1) k]]
      by (cases x) (auto simp: Let_def k_def [symmetric])
  next
    case (DeleteAt i)
    show ?thesis
    proof (cases "0 \<le> norm_index xs i \<and> norm_index xs i < int (length xs)")
      case True
      then show ?thesis using DeleteAt delete_at_becomes [OF assms(1), of "nat (norm_index xs i)" i] n(1) by (auto simp: Let_def)
    next
      case False
      then show ?thesis using DeleteAt l assms(1) by (auto simp: sp_IntArray_delete_at_o_def ia_index_norm [OF assms(1)] Let_def)
    qed
  next
    case (Delete v)
    then show ?thesis using delete_becomes [OF assms(1) n(1), of v] by simp
  next
    case Compact
    then show ?thesis using delete_nil_becomes [OF assms(1) n(1)] l by (auto simp: sp_IntArray_compact_bang_def elim!: odone_mono)
  next
    case Reverse
    then show ?thesis using odone_no_value [OF reverse_becomes [OF assms(1) n(1)]] by simp
  next
    case (Rotate m)
    then show ?thesis using odone_no_value [OF rotate_becomes [OF assms(1) n(1), of m g]] l assms(1)
      by (cases "xs = []") (auto simp: sp_IntArray_rotate_bang_def no_value_def)
  next
    case Freeze
    then show ?thesis using freeze_becomes [OF assms(1)] by simp
  qed
qed

section \<open>Histories\<close>

lemma run_ok:
  "becomes fr xs a \<Longrightarrow> ia_fits g ops a \<Longrightarrow> spec_run ops fr xs = (rs, fr', ys) \<Longrightarrow>
     \<exists>a'. ia_run g ops a = Some (rs, a') \<and> becomes fr' ys a'"
proof (induction ops arbitrary: fr xs a rs fr' ys)
  case (Cons op ops)
  have fits: "op_fits op" "ia_cap a < 2 ^ 61" using Cons.prems(2) by auto
  show ?case
  proof (cases "fr \<and> op_refused op xs")
    case True
    then have "ia_step g op a = Raise frozen_error" using step_frozen Cons.prems(1) by auto
    moreover obtain rs0 where s: "spec_run ops fr xs = (rs0, fr', ys)" "rs = Inl frozen_error # rs0"
      using Cons.prems(3) True by (cases "spec_run ops fr xs") auto
    moreover have "ia_fits g ops a" using Cons.prems(2) calculation(1) by simp
    ultimately show ?thesis using Cons.IH [OF Cons.prems(1) _ s(1)] by auto
  next
    case go: False
    show ?thesis
    proof (cases "op_error op xs")
      case (Some e)
      then have nf: "\<not> fr" using step_idle [of xs a op g] go Cons.prems(1) by (cases fr) auto
      then have "ia_step g op a = Raise e" using step_error [OF _ Some] Cons.prems(1) by simp
      moreover obtain rs0 where s: "spec_run ops fr xs = (rs0, fr', ys)" "rs = Inl e # rs0"
        using Cons.prems(3) go Some by (cases "spec_run ops fr xs") auto
      moreover have "ia_fits g ops a" using Cons.prems(2) calculation(1) by simp
      ultimately show ?thesis using Cons.IH [OF Cons.prems(1) _ s(1)] by auto
    next
      case None
      obtain r zs where c: "op_changes op xs = (r, zs)" by (cases "op_changes op xs")
      have "odone (\<lambda>q. fst q = r \<and> becomes (fr \<or> op = Freeze) zs (snd q)) (ia_step g op a)"
        using step_idle [of xs a op g] step_done [of xs a op g] None go fits Cons.prems(1) c by (cases fr) auto
      then obtain b where b: "ia_step g op a = Done (r, b)" "becomes (fr \<or> op = Freeze) zs b" by (auto simp: odone_def)
      obtain rs0 where s: "spec_run ops (fr \<or> op = Freeze) zs = (rs0, fr', ys)" "rs = Inr r # rs0"
        using Cons.prems(3) go None c by (cases "spec_run ops (fr \<or> op = Freeze) zs") auto
      have "ia_fits g ops b" using Cons.prems(2) b(1) by simp
      from Cons.IH [OF b(2) this s(1)] show ?thesis using b(1) s(2) by auto
    qed
  qed
qed simp

text \<open>
  C5: Any sequence of pushes, pops, shifts, unshifts, stores, insertions, deletions,
  compactions, reversals, rotations and freezes of a new Array of Integers, with the errors
  it raises, has the answers of the same operations on a list of Integers and nils; no
  access is undefined, and the array keeps its invariant.
\<close>
theorem ia_history_refines_list:
  assumes "ia_fits g ops (sp_IntArray_new g)"
  shows "\<exists>a. ia_run g ops (sp_IntArray_new g) = Some (fst (spec_run ops False []), a) \<and> ia_inv a \<and>
    ia_frozen a = fst (snd (spec_run ops False [])) \<and> ia_list a = snd (snd (spec_run ops False []))"
proof -
  obtain rs fr ys where s: "spec_run ops False [] = (rs, fr, ys)" by (cases "spec_run ops False []") auto
  from run_ok [OF new_becomes assms s] show ?thesis using s by (auto simp: becomes_def)
qed

definition demo_ops :: "ia_op list" where
  "demo_ops = [Push (Some 1), Push None, Store 3 (Some 9), Shift, Rotate 1, Insert (- 2) (Some 5), Compact, Freeze, Pop]"

theorem ia_history_refines_list_witness:
  "ia_fits (\<lambda>_. 0) demo_ops (sp_IntArray_new (\<lambda>_. 0)) \<and>
   (\<exists>a. ia_run (\<lambda>_. 0) demo_ops (sp_IntArray_new (\<lambda>_. 0)) = Some (fst (spec_run demo_ops False []), a) \<and> ia_inv a \<and>
     ia_frozen a = fst (snd (spec_run demo_ops False [])) \<and> ia_list a = snd (snd (spec_run demo_ops False [])))"
proof -
  have "ia_fits (\<lambda>_. 0) demo_ops (sp_IntArray_new (\<lambda>_. 0))" by code_simp
  with ia_history_refines_list [OF this] show ?thesis by blast
qed

section \<open>Single operations\<close>

lemma inv_becomes: "ia_inv a \<Longrightarrow> becomes (ia_frozen a) (ia_list a) a"
  by (simp add: becomes_def)

lemma len_bound: "int (ia_len a) < 2 ^ 63 \<Longrightarrow> int (length (ia_list a)) < 2 ^ 63"
  by simp

text \<open>Arrays for the examples: \<open>[5, nil, 7]\<close> and \<open>[1, 2]\<close>.\<close>

definition demo_array :: IntArray where
  "demo_array = \<lparr>ia_data = [5, 0, 7, 0], ia_start = 0, ia_len = 3, ia_cap = 4, ia_frozen = False, ia_nil_lo = 1, ia_nilbits = Some [2]\<rparr>"

definition demo_pair :: IntArray where
  "demo_pair = \<lparr>ia_data = [4, 1, 2], ia_start = 1, ia_len = 2, ia_cap = 3, ia_frozen = False, ia_nil_lo = 0, ia_nilbits = None\<rparr>"

lemma demo_bits: "bits_set [2] = {1}"
proof -
  have b: "bit (2 :: 64 word) i \<longleftrightarrow> i = 1" for i by (auto simp: bit_2_iff)
  have "i \<in> bits_set [2] \<longleftrightarrow> i < 64 \<and> i mod 64 = 1" for i unfolding bits_set_def mem_Collect_eq using b [of i] by (cases "i < 64") simp_all
  moreover have "i < 64 \<and> i mod 64 = 1 \<longleftrightarrow> i = 1" for i :: nat by auto
  ultimately show ?thesis by blast
qed

lemma demo_inv: "ia_inv demo_array" "ia_inv demo_pair"
  by (auto simp: ia_inv_def ia_shape_def nils_def demo_array_def demo_pair_def demo_bits sp_nilbits_words_def SP_NIL_LO_NONE_def)

lemma demo_list: "ia_list demo_array = [Some 5, None, Some 7]" "ia_list demo_pair = [Some 1, Some 2]"
  by (simp_all add: ia_list_def slot_def nils_def demo_array_def demo_pair_def demo_bits upt_rec)

text \<open>
  A read at any 64-bit index, from the end too, answers the element or nil out of
  range, the nil queries count the nils, and every element below the length that the
  compiler reads without the bitmap is in range and not nil.
\<close>
theorem ia_reads_list:
  assumes "ia_inv a" "int (ia_len a) < 2 ^ 63" "in_i64 i"
  shows "sp_IntArray_oget a i = Done (at_index (ia_list a) i) \<and>
    sp_IntArray_has_nil a = Done (None \<in> set (ia_list a)) \<and> sp_IntArray_nil_count a = Done (count_list (ia_list a) None) \<and>
    (\<forall>j. j < SP_INT_NILFREE_LEN a \<longrightarrow> j < ia_len a \<and> ia_list a ! j = Some (ia_data a ! (ia_start a + j)))"
  using oget_at [OF inv_becomes [OF assms(1)] assms(3) len_bound [OF assms(2)]] has_nil_ok [OF inv_becomes [OF assms(1)]]
    nil_count_ok [OF inv_becomes [OF assms(1)]] nilfree_ok [OF inv_becomes [OF assms(1)]] by (auto simp del: nth_ia_list)

theorem ia_reads_list_witness:
  "sp_IntArray_oget demo_array (- 1) = Done (Some 7) \<and> sp_IntArray_oget demo_array 1 = Done None \<and> 0 < SP_INT_NILFREE_LEN demo_array"
proof -
  have "int (ia_len demo_array) < 2 ^ 63" "in_i64 (- 1)" "in_i64 1" by (simp_all add: demo_array_def in_i64_def INT64_MIN_def INT64_MAX_def)
  moreover have "SP_INT_NILFREE_LEN demo_array = 1" by (simp add: SP_INT_NILFREE_LEN_def demo_array_def)
  ultimately show ?thesis using ia_reads_list [OF demo_inv(1), of "- 1"] ia_reads_list [OF demo_inv(1), of 1]
    by (simp add: demo_list at_index_def)
qed

text \<open>
  C32: The vectorized sum answers what the loop of checked additions does: the longest
  prefix of the elements that can be added to the seed without a 64-bit overflow, and its
  sum.
\<close>
theorem ia_sum_prefix_checked:
  assumes "ia_inv a" "ia_nilbits a = None" "ia_list a = map Some vs" "in_i64 seed" "\<forall>v \<in> set vs. in_i64 v"
  shows "\<exists>k. sp_IntArray_sum_prefix a seed = Done (k, seed + sum_list (take k vs)) \<and> k \<le> length vs \<and>
    (\<forall>j \<le> k. in_i64 (seed + sum_list (take j vs))) \<and> (k < length vs \<longrightarrow> \<not> in_i64 (seed + sum_list (take (Suc k) vs)))"
proof -
  note p = plain_map [OF inv_becomes [OF assms(1)] assms(2)]
  have "plain_list a = vs" using p(1) assms(3) by (metis inj_Some map_injective)
  then have "sp_IntArray_sum_prefix a seed = Done (sum_checked seed 0 vs)"
    using p(2) sum_values_checked [OF assms(4,5)] by (simp add: sp_IntArray_sum_prefix_def)
  then show ?thesis using sum_checked_spec [OF assms(4), of 0 vs] by auto
qed

theorem ia_sum_prefix_checked_witness: "\<exists>k. sp_IntArray_sum_prefix demo_pair (INT64_MAX - 1) = Done (k, INT64_MAX - 1 + sum_list (take k [1, 2])) \<and> k < 2"
proof -
  have d: "ia_nilbits demo_pair = None" "ia_list demo_pair = map Some [1, 2]" by (simp_all add: demo_list) (simp add: demo_pair_def)
  have i: "in_i64 (INT64_MAX - 1)" "\<forall>v \<in> set [1, 2]. in_i64 v" by (simp_all add: in_i64_def INT64_MIN_def INT64_MAX_def)
  from ia_sum_prefix_checked [OF demo_inv(2) d i] obtain k where k: "sp_IntArray_sum_prefix demo_pair (INT64_MAX - 1) = Done (k, INT64_MAX - 1 + sum_list (take k [1, 2]))"
    "k \<le> 2" "\<forall>j \<le> k. in_i64 (INT64_MAX - 1 + sum_list (take j [1, 2]))" by auto
  have "k \<noteq> 2"
  proof
    assume "k = 2"
    then show False using k(3) by (auto simp: in_i64_def INT64_MAX_def)
  qed
  then show ?thesis using k by auto
qed

text \<open>
  C33: uniq, |, & and - give the elements in the order of their first occurrence, of the
  left operand, whichever of the three ways the code takes: the scan, the hashed set or the
  one with nils; the probe of the hashed set always ends.
\<close>
theorem ia_set_operations:
  assumes "ia_inv a" "ia_inv b" "int (ia_len a) < 2 ^ 63" "int (ia_len b) < 2 ^ 63"
  shows "odone (\<lambda>r. ia_inv r \<and> ia_list r = firsts (ia_list a)) (sp_IntArray_uniq g a) \<and>
    odone (\<lambda>r. ia_inv r \<and> ia_list r = firsts (ia_list a @ ia_list b)) (sp_IntArray_union g a b) \<and>
    odone (\<lambda>r. ia_inv r \<and> ia_list r = firsts (filter (\<lambda>x. x \<in> set (ia_list b)) (ia_list a))) (sp_IntArray_intersect g a b) \<and>
    odone (\<lambda>r. ia_inv r \<and> ia_list r = filter (\<lambda>x. x \<notin> set (ia_list b)) (ia_list a)) (sp_IntArray_difference g a b)"
proof -
  note a = inv_becomes [OF assms(1)] and b = inv_becomes [OF assms(2)] and la = len_bound [OF assms(3)] and lb = len_bound [OF assms(4)]
  have weak: "odone (becomes False xs) m \<Longrightarrow> odone (\<lambda>r. ia_inv r \<and> ia_list r = xs) m" for xs m
    by (auto simp: odone_def becomes_def)
  show ?thesis using uniq_becomes [OF a la, of g] union_becomes [OF a b la lb, of g] intersect_becomes [OF a b la, of g] difference_becomes [OF a b la, of g]
    by (intro conjI weak)
qed

theorem ia_set_operations_witness:
  "odone (\<lambda>r. ia_inv r \<and> ia_list r = [Some 5, None, Some 7, Some 1, Some 2]) (sp_IntArray_union (\<lambda>_. 0) demo_array demo_pair)"
proof -
  have "int (ia_len demo_array) < 2 ^ 63" "int (ia_len demo_pair) < 2 ^ 63" by (simp_all add: demo_array_def demo_pair_def)
  from ia_set_operations [OF demo_inv this, of "\<lambda>_. 0"] show ?thesis by (simp add: demo_list firsts_def)
qed

text \<open>
  == holds exactly when the elements are the same, nils included, and <=> is decided by
  the first pair that differs, nil when it pairs nil with a number.
\<close>
theorem ia_compares_lists:
  assumes "ia_inv a" "ia_inv b" "int (ia_len a) < 2 ^ 63" "int (ia_len b) < 2 ^ 63"
  shows "sp_IntArray_eq a b = Done (ia_list a = ia_list b) \<and> sp_IntArray_cmp_o a b = Done (spaceship (ia_list a) (ia_list b))"
  using ia_eq_ok [OF inv_becomes [OF assms(1)] inv_becomes [OF assms(2)]]
    cmp_ok [OF inv_becomes [OF assms(1)] inv_becomes [OF assms(2)] len_bound [OF assms(3)] len_bound [OF assms(4)]] by simp

theorem ia_compares_lists_witness: "sp_IntArray_eq demo_array demo_pair = Done False \<and> sp_IntArray_cmp_o demo_array demo_pair = Done (Some 1)"
proof -
  have "int (ia_len demo_array) < 2 ^ 63" "int (ia_len demo_pair) < 2 ^ 63" by (simp_all add: demo_array_def demo_pair_def)
  from ia_compares_lists [OF demo_inv this] show ?thesis by (simp add: demo_list)
qed

text \<open>
  C34: The slice of an Array is a new array of the elements that Ruby's a[start, len] has,
  for every 64-bit start and every length up to the largest, and it is empty where Ruby
  answers nil, except that a start below -length is taken as 0. The range slice answers what
  Ruby's a[start..end] and a[start...end] do, nil for a start outside included, except for
  an inclusive range whose last index is 2^63 - 1 past its start, whose length overflows. A
  dup has the same elements.
\<close>
theorem ia_slices_copy:
  assumes "ia_inv a" "int (ia_len a) < 2 ^ 63" "in_i64 start" "in_i64 fin"
  defines "s \<equiv> norm_index (ia_list a) start"
  shows "odone (\<lambda>b. ia_inv b \<and> ia_list b =
        (if s < 0 then take (nat len) (ia_list a)
         else case ruby_slice (ia_list a) start len of Some ys \<Rightarrow> ys | None \<Rightarrow> [])) (sp_IntArray_slice g a start len) \<and>
    (if \<not> excl \<and> 0 \<le> s \<and> s \<le> int (ia_len a) \<and> norm_index (ia_list a) fin - s = INT64_MAX
     then sp_IntArray_slice_range g a start fin excl = Undef
     else odone (\<lambda>r. rel_option (becomes False) (range_of (ia_list a) start fin excl) r) (sp_IntArray_slice_range g a start fin excl)) \<and>
    odone (\<lambda>b. ia_inv b \<and> ia_list b = ia_list a) (sp_IntArray_dup g a)"
proof -
  note a = inv_becomes [OF assms(1)]
  have len: "ia_len a = length (ia_list a)" by simp
  have "if \<not> excl \<and> 0 \<le> s \<and> s \<le> int (ia_len a) \<and> norm_index (ia_list a) fin - s = INT64_MAX
     then sp_IntArray_slice_range g a start fin excl = Undef
     else odone (\<lambda>r. rel_option (becomes False) (range_of (ia_list a) start fin excl) r) (sp_IntArray_slice_range g a start fin excl)"
    using slice_range_undefined [OF a, of start fin g] slice_range_becomes [OF a assms(3,4) len_bound [OF assms(2)], of excl g]
    unfolding s_def len by auto
  then show ?thesis using odone_mono [OF slice_becomes [OF a, of start len g]] odone_mono [OF dup_becomes [OF a, of g]]
    unfolding slice_of_ruby s_def [symmetric] by (auto simp: becomes_def)
qed

theorem ia_slices_copy_witness:
  "odone (\<lambda>b. ia_inv b \<and> ia_list b = [None, Some 7]) (sp_IntArray_slice (\<lambda>_. 0) demo_array (- 2) INT64_MAX) \<and>
   sp_IntArray_slice_range (\<lambda>_. 0) demo_array 0 INT64_MAX False = Undef"
proof -
  have "int (ia_len demo_array) < 2 ^ 63" "in_i64 (- 2)" "in_i64 0" "in_i64 INT64_MAX"
    by (simp_all add: demo_array_def in_i64_def INT64_MIN_def INT64_MAX_def)
  then show ?thesis
    using ia_slices_copy [OF demo_inv(1), of "- 2" 0 INT64_MAX "\<lambda>_. 0" True]
      ia_slices_copy [OF demo_inv(1), of 0 INT64_MAX 0 "\<lambda>_. 0" False]
    by (simp add: demo_list ruby_slice_def norm_index_def INT64_MAX_def)
qed

text \<open>
  join writes the decimal text of the elements with the separator between them, nothing
  for a nil, inside its buffer, for a separator of at most 256 bytes.
\<close>
theorem ia_join_text:
  assumes "ia_inv a" "length sep \<le> 256" "\<forall>v. Some v \<in> set (ia_list a) \<longrightarrow> in_i64 v"
  shows "sp_IntArray_join a sep = Done (join_with sep (map elem_text (ia_list a)))"
  by (rule join_ok [OF inv_becomes [OF assms(1)] assms(2,3)])

theorem ia_join_text_witness: "sp_IntArray_join demo_array '', '' = Done ''5, , 7''"
proof -
  have "\<forall>v. Some v \<in> set (ia_list demo_array) \<longrightarrow> in_i64 v" by (auto simp: demo_list in_i64_def INT64_MIN_def INT64_MAX_def)
  moreover have "length '', '' \<le> 256" by simp
  moreover have "dec_int 5 = ''5''" "dec_int 7 = ''7''" by code_simp+
  ultimately show ?thesis using ia_join_text [OF demo_inv(1), of "'', ''"] by (simp add: demo_list elem_text_def)
qed

text \<open>
  C35: join of an Array of at least two elements writes past its buffer, which is doubled
  only once before each piece, whenever the text of the first element and the separator are
  together longer than 512 bytes.
\<close>
theorem ia_join_overflows:
  assumes "ia_inv a" "ia_list a = x # y # zs" "\<forall>v. x = Some v \<longrightarrow> in_i64 v" "512 < length (elem_text x) + length sep"
  shows "sp_IntArray_join a sep = Undef"
  by (rule join_overflow [OF _ _ assms(4)]) (use inv_becomes [OF assms(1)] assms(2,3) in auto)

theorem ia_join_overflows_witness: "sp_IntArray_join demo_pair (replicate 512 CHR ''x'') = Undef"
  by (rule ia_join_overflows [OF demo_inv(2) demo_list(2)])
    (simp_all add: in_i64_def INT64_MIN_def INT64_MAX_def elem_text_def dec_int_def dec_nat.simps)

end
