(* ===== verification/Spec2Isabelle.thy ===== *)
theory Spec2Isabelle
  imports Types Sha256 FfiSpec CtValue IntIntHash Decide BigPowm IobLaws IaLaws
begin

text \<open>
  A verification development of Spinel, an ahead-of-time compiler from Ruby to C with its
  runtime library. Paths below are relative to the root of the repository.

  \<^bold>\<open>The program.\<close> The compiler (\<^verbatim>\<open>src/\<close>) parses Ruby into a table of nodes, infers for every variable,
  instance variable and return slot one kind by joining the kinds it observes until nothing changes,
  folds what can be computed at compile time, plans optimizations, each of which is registered so that it
  can be forbidden and replayed, and prints C. Compiled units are cached under the hash of their text. The
  printed C calls the runtime (\<^verbatim>\<open>lib/\<close>): typed arrays and hashes that store machine integers unboxed,
  arbitrary-precision integers behind them, byte buffers shared with foreign functions, strings, the
  collector, the scheduler and input/output. The parts modelled here are the ones that carry an algorithm or a
  contract of their own and that every compiled program rests on.

  \<^bold>\<open>Shared vocabulary.\<close>
  \<^item> \<open>Prelude\<close> has the machine integers (signed 64-bit values as integers in range, with the wrap-around
    written out; limbs, masks and hashes as words), the decimal spelling of integers, and the lemmas on
    lists, words and division that several theories share.
  \<^item> \<open>Outcome\<close> is the result of an operation on memory: a value, a Ruby exception (class and message), or
    \<open>Undef\<close> where the C code would access memory outside an allocation. \<open>odone\<close> says that an operation
    returns a value with a given property; it is a statement of total correctness.
  \<^item> \<open>Probe\<close> is linear probing: the walk from the home slot with a fuel, the invariant of a table without
    holes, and the two facts its clients need (a walk finds the key exactly when it is in the table, and a
    table that is not full has a free slot on the walk). The fuel is the size of the table, and the lemmas
    show that a walk never exhausts it. It is used by \<open>IntIntHash\<close>, \<open>Decide\<close> and \<open>IaSets\<close>.

  \<^bold>\<open>The compiler.\<close>
  \<^item> \<open>Types\<close> models \<^verbatim>\<open>src/types.h\<close> and \<^verbatim>\<open>src/types.c\<close>: the kinds, the table of the faces a boxed value shows,
    the container tables, the join \<^verbatim>\<open>ty_unify\<close> and the numeric promotion. The locale \<open>widening_join\<close> states
    what the inference relies on (an upper bound, a rank that grows) and proves in it that a slot settles and
    covers what was observed; it is interpreted on both joins. The join is the least upper bound but for
    nil with a Bignum, and for that reason the kind of a slot depends on the order of its observations
    exactly when they are nil, Integer and Bignum.
  \<^item> \<open>CtValue\<close> models \<^verbatim>\<open>src/ct_value.c\<close>: the values of compile-time evaluation, their equality and spelling,
    and the operations that are folded: the spelling reads back as the value, and integer results are
    exact or refused.
  \<^item> \<open>FfiSpec\<close> models \<^verbatim>\<open>src/ffi_spec.c\<close>, the words of foreign declarations.
  \<^item> \<open>Sha256\<close> models \<^verbatim>\<open>src/sha256.c\<close>: the block function, the buffered update and the digest. The locale
    \<open>stream_hash\<close> says what a hash fed in pieces is; its interpretation shows that any division of the text
    into pieces gives the digest of the whole.
  \<^item> \<open>Decide\<close> models \<^verbatim>\<open>src/decide.c\<close>: a set of keys by open addressing (the locale \<open>key_set\<close>, interpreted on
    that table), the allow-list, the questions and the log, and that a compile replays from its log.

  \<^bold>\<open>The runtime.\<close>
  \<^item> \<open>IntIntHash\<close> models the Integer-to-Integer Hash of \<^verbatim>\<open>lib/sp_hash.c\<close>: insertion order in an array, an
    index by open addressing with backward-shift deletion, growth. The locale \<open>ordered_map\<close> is the
    contract of Ruby's Hash; its interpretation gives that a history of operations answers what an
    association list does.
  \<^item> \<open>BigLimbs\<close>, \<open>Bigint\<close>, \<open>BigKara\<close>, \<open>BigShift\<close>, \<open>BigDiv\<close>, \<open>BigToom\<close>, \<open>BigSqr\<close>, \<open>BigMul\<close>, \<open>BigMod\<close> and \<open>BigPowm\<close> model
    \<^verbatim>\<open>lib/sp_bigint.c\<close>: limb arrays with their carries, signed addition, subtraction and comparison, Karatsuba's
    product, shifts, the bitwise operations through two's complement (the locale \<open>bitwise_op\<close>, interpreted on
    and, or and exclusive or), Knuth's division with Ruby's rounding, the Toom-Cook product and square with
    their scratch areas, and \<open>mpz_mul\<close>, which chooses among all the products and the shortcuts for powers of
    two, numbers of ones, sparse and lopsided operands, with the powers on top of it, and last the remainder
    with Barrett's reduction, the greatest common divisor and the least common multiple, and powers with a modulus by
    Montgomery's method (the locale \<open>modular_reduction\<close> is what their loops need of a reduction, and is interpreted on
    Montgomery's, on Barrett's and on the division). Each routine is shown to compute the
    operation on integers of \<open>mpz_val\<close>, and to keep the numbers canonical. Barrett's reduction is exact only for
    some sizes of its operands; the theorems state them, and two show a greatest common divisor and a
    modular power that are wrong beyond them.
  \<^item> \<open>Ieee\<close> has the conversions between integers and the bits of a double that the runtime uses.
  \<^item> \<open>IobMem\<close>, \<open>IOBuffer\<close>, \<open>IobSafe\<close>, \<open>IobFrozen\<close>, \<open>IobLocked\<close>, \<open>IobTrip\<close> and \<open>IobLaws\<close> model IO::Buffer (\<^verbatim>\<open>lib/sp_iobuffer.c\<close>,
    \<^verbatim>\<open>lib/sp_iobuffer.h\<close>): the bytes of typed values, the heap of owners and slices, every operation on it, the
    step relation of programs and foreign calls. Shown: no reachable state has an undefined access, the
    bytes of a read-only owner never change, stores read back, the inline accessors agree with the
    out-of-line ones, slices are invalidated with their owner, and the hold of a foreign call protects the
    buffer and the owner it views through any operations of the rest of the program that do not unlock them;
    that the release of an overlapping call does is shown too.
  \<^item> \<open>NilBits\<close>, \<open>IntArray\<close>, \<open>IaCore\<close>, \<open>IaOps\<close>, \<open>IaSets\<close>, \<open>IaFolds\<close> and \<open>IaLaws\<close> model \<^verbatim>\<open>sp_IntArray\<close> of
    \<^verbatim>\<open>lib/sp_array.h\<close> and \<^verbatim>\<open>lib/sp_array.c\<close>: a window of a buffer that grows on both sides and a bitmap of the elements
    that are nil, present only when it is needed. Every operation is shown to be defined and to be the list
    operation of Ruby's Array; the locale \<open>seen_set\<close> is shared by the quadratic and the hashed
    ways of uniq and |, and interpreted on the four of them; histories of operations refine a list of
    optional integers. A slice is specified by Ruby's, with the one start where the code differs written out, and
    the two places where the C code overflows are stated.

  \<^bold>\<open>Bounds and fuel.\<close> Loops are structural, have a measure, or carry a fuel that is the size of the table or
  the number of elements they walk; the theorems show a result, so that the fuel is enough. The loops that the
  C code can run for ever are values of an option type and the theorem on them says so (a shift by the
  smallest 64-bit count). The sizes of arrays are bounded by \<open>2 ^ 61\<close> slots, the bound the runtime's own growth
  check raises beyond; the contents of memory that \<^verbatim>\<open>malloc\<close> and \<^verbatim>\<open>realloc\<close> return uninitialized are an argument, and the
  theorems hold for every such content. Allocation is taken to succeed.

  \<^bold>\<open>Not modelled.\<close> The passes of the compiler over the node table (inference, desugaring, planning and
  the printing of C) are defined by the Ruby programs they accept and by tables that the build
  generates; the parser is a third-party library. Strings, the Float, String, pointer and boxed arrays and the
  hashes over Strings need the string heap and the collector's roots; the collector, the allocator, fibers and
  the scheduler are defined by the machine stack, atomics and threads; input/output, processes and sockets by the
  operating system. Of the modelled components, the operations that are left out are named in the manifest:
  among them roots and text of big integers, and sorting,
  which is \<^verbatim>\<open>qsort\<close> of the C library.
\<close>

end
